(* ===== verification/Tapir_Prelude.thy ===== *)
theory Tapir_Prelude
  imports Main "HOL-Library.Word" "HOL-Library.AList" "HOL-Library.List_Lexorder"
    "HOL-Library.Char_ord"
begin

text \<open>
  Shared vocabulary of the development.

  \<^item> \<open>u64\<close> is \<^verbatim>\<open>uint64_t\<close>: arithmetic wraps around.
  \<^item> \<open>'a outcome\<close> is the result of C++ code that may end the process: \<open>Inl\<close> carries the failed
    \<^verbatim>\<open>ASSERT\<close>, the \<^verbatim>\<open>Panic\<close>, the undefined behaviour or the uncaught exception, \<open>Inr\<close> the value
    that was returned.
  \<^item> \<open>omap_put\<close> and \<open>omap_del\<close> are assignment through \<^verbatim>\<open>operator[]\<close> and \<^verbatim>\<open>erase\<close> of a
    \<^verbatim>\<open>std::map\<close>, which is a list of pairs in increasing order of the keys, so that iteration
    visits the entries in the order of the source. A \<^verbatim>\<open>std::unordered_map\<close> that is iterated
    is an association list whose order stands for the container's own iteration order; one
    that is only searched is a partial function.
\<close>

named_theorems wf_intros \<open>operations that preserve a component's invariant\<close>
named_theorems frame_simps \<open>what an operation leaves unchanged\<close>

section \<open>Machine integers and failures\<close>

type_synonym u64 = "64 word"

datatype fault =
    AssertFail string
  | Panicked string
  | Undefined string
  | Uncaught string

type_synonym 'a outcome = "fault + 'a"

definition obind :: "'a outcome \<Rightarrow> ('a \<Rightarrow> 'b outcome) \<Rightarrow> 'b outcome" where
  "obind m f = (case m of Inl e \<Rightarrow> Inl e | Inr x \<Rightarrow> f x)"

definition assert_that :: "bool \<Rightarrow> string \<Rightarrow> unit outcome" where
  "assert_that b msg = (if b then Inr () else Inl (AssertFail msg))"

lemma obind_Inl [simp]: "obind (Inl e) f = Inl e"
  by (simp add: obind_def)

lemma obind_Inr [simp]: "obind (Inr x) f = f x"
  by (simp add: obind_def)

lemma obind_eq_Inr: "obind m f = Inr y \<longleftrightarrow> (\<exists>x. m = Inr x \<and> f x = Inr y)"
  by (cases m) auto

lemma obindE [elim!]:
  assumes "obind m f = Inr y"
  obtains x where "m = Inr x" and "f x = Inr y"
  using assms by (auto simp: obind_eq_Inr)

lemma obind_cong [fundef_cong]:
  "m = m' \<Longrightarrow> (\<And>x. m' = Inr x \<Longrightarrow> f x = g x) \<Longrightarrow> obind m f = obind m' g"
  by (cases m') simp_all


lemma assert_that_True [simp]: "assert_that True msg = Inr ()"
  by (simp add: assert_that_def)

lemma assert_that_False [simp]: "assert_that False msg = Inl (AssertFail msg)"
  by (simp add: assert_that_def)

lemma assert_that_eq_Inr [simp]: "assert_that b msg = Inr u \<longleftrightarrow> b"
  by (cases b) simp_all

lemma obind_assert [simp]:
  "obind (assert_that b msg) f = (if b then f () else Inl (AssertFail msg))"
  by (cases b) simp_all

section \<open>Ordered maps\<close>

fun omap_put :: "'k::linorder \<Rightarrow> 'v \<Rightarrow> ('k \<times> 'v) list \<Rightarrow> ('k \<times> 'v) list" where
  "omap_put key v [] = [(key, v)]"
| "omap_put key v (p # ps) =
     (if fst p < key then p # omap_put key v ps
      else if fst p = key then (key, v) # ps
      else (key, v) # p # ps)"

definition omap_del :: "'k \<Rightarrow> ('k \<times> 'v) list \<Rightarrow> ('k \<times> 'v) list" where
  "omap_del key m = filter (\<lambda>p. fst p \<noteq> key) m"

abbreviation okeys :: "('k \<times> 'v) list \<Rightarrow> 'k list" where
  "okeys m \<equiv> map fst m"

definition omap_wf :: "('k::linorder \<times> 'v) list \<Rightarrow> bool" where
  "omap_wf m \<longleftrightarrow> sorted_wrt (<) (okeys m)"

lemma omap_wf_Nil [simp]: "omap_wf []"
  by (simp add: omap_wf_def)

lemma omap_wf_distinct: "omap_wf m \<Longrightarrow> distinct (okeys m)"
  by (simp add: omap_wf_def strict_sorted_iff)

lemma set_okeys_put [simp]: "set (okeys (omap_put key v m)) = insert key (set (okeys m))"
  by (induction m) auto

lemma fst_image_put [simp]: "fst ` set (omap_put key v m) = insert key (fst ` set m)"
  using set_okeys_put [of key v m] by simp

lemma omap_wf_put [simp, wf_intros]: "omap_wf m \<Longrightarrow> omap_wf (omap_put key v m)"
  unfolding omap_wf_def
proof (induction m)
  case (Cons p ps)
  have "fst q \<in> set (okeys (omap_put key v ps))" if "q \<in> set (omap_put key v ps)" for q
    using that by (simp del: set_okeys_put fst_image_put)
  with Cons show ?case by auto
qed simp

lemma omap_wf_del [simp, wf_intros]: "omap_wf m \<Longrightarrow> omap_wf (omap_del key m)"
  unfolding omap_wf_def omap_del_def by (induction m) auto

lemma map_of_omap_put [simp]: "omap_wf m \<Longrightarrow> map_of (omap_put key v m) = (map_of m)(key \<mapsto> v)"
proof (induction m)
  case (Cons p ps)
  then have "omap_wf ps" by (simp add: omap_wf_def)
  then have "map_of (omap_put key v ps) = (map_of ps)(key \<mapsto> v)" by (rule Cons.IH)
  moreover have "map_of ps key = None" if "key < fst p"
    using that Cons.prems by (force simp: omap_wf_def map_of_eq_None_iff)
  ultimately show ?case by (cases p) (auto simp: fun_eq_iff)
qed simp

lemma map_of_omap_del [simp]: "map_of (omap_del key m) = (map_of m)(key := None)"
  by (induction m) (auto simp: omap_del_def fun_eq_iff)

lemma omap_wf_last: "omap_wf m \<Longrightarrow> q \<in> set m \<Longrightarrow> fst q \<le> fst (last m)"
  unfolding omap_wf_def by (induction m) (auto simp: less_imp_le)

lemma omap_wf_takeWhile [simp, wf_intros]: "omap_wf m \<Longrightarrow> omap_wf (takeWhile P m)"
  unfolding omap_wf_def by (induction m) (auto dest: set_takeWhileD)

lemma omap_wf_eqI: "omap_wf m \<Longrightarrow> p \<in> set m \<Longrightarrow> q \<in> set m \<Longrightarrow> fst p = fst q \<Longrightarrow> p = q"
  using eq_key_imp_eq_value [OF omap_wf_distinct, of m "fst p" "snd p" "snd q"]
  by (cases p, cases q) simp

section \<open>Counting results\<close>

text \<open>
  The frequency table that the replication layer builds with \<^verbatim>\<open>results[r] += 1\<close> on a
  \<^verbatim>\<open>std::map<std::string, std::size_t>\<close>: \<^verbatim>\<open>operator[]\<close> starts a missing entry at zero.
\<close>

fun tally :: "'r::linorder list \<Rightarrow> ('r \<times> nat) list \<Rightarrow> ('r \<times> nat) list" where
  "tally [] m = m"
| "tally (r # rs) m =
     tally rs (omap_put r (Suc (case map_of m r of None \<Rightarrow> 0 | Some n \<Rightarrow> n)) m)"

lemma omap_wf_tally [simp, wf_intros]: "omap_wf m \<Longrightarrow> omap_wf (tally rs m)"
  by (induction rs arbitrary: m) auto

lemma map_of_tally_gen:
  "omap_wf m \<Longrightarrow> map_of (tally rs m) r =
     (if r \<in> set rs then Some (count_list rs r + (case map_of m r of None \<Rightarrow> 0 | Some n \<Rightarrow> n))
      else map_of m r)"
  by (induction rs arbitrary: m) (auto simp: count_list_0_iff split: option.splits)

lemma map_of_tally:
  "map_of (tally rs []) r = (if r \<in> set rs then Some (count_list rs r) else None)"
  by (simp add: map_of_tally_gen)

lemma sum_tally_gen:
  assumes "omap_wf m"
  shows "sum_list (map (\<lambda>(s, n). if P s then n else 0) (tally rs m)) =
    sum_list (map (\<lambda>(s, n). if P s then n else 0) m) + length (filter P rs)"
  using assms
proof (induction rs arbitrary: m)
  case (Cons r rs)
  have "sum_list (map (\<lambda>(s, n). if P s then n else 0)
      (omap_put r (Suc (case map_of m r of None \<Rightarrow> 0 | Some n \<Rightarrow> n)) m)) =
    sum_list (map (\<lambda>(s, n). if P s then n else 0) m) + (if P r then 1 else 0)"
    using Cons.prems
  proof (induction m)
    case (Cons p m)
    obtain k n where p: "p = (k, n)" by (cases p)
    have "map_of m r = None" if "r < k"
      using Cons.prems that by (force simp: omap_wf_def p map_of_eq_None_iff)
    then show ?case using Cons by (auto simp: p omap_wf_def)
  qed simp
  then show ?case using Cons by simp
qed simp

lemma in_set_tally: "(r, n) \<in> set (tally rs []) \<longleftrightarrow> r \<in> set rs \<and> n = count_list rs r"
proof -
  have "distinct (okeys (tally rs []))"
    by (simp add: omap_wf_distinct)
  then have "(r, n) \<in> set (tally rs []) \<longleftrightarrow> map_of (tally rs []) r = Some n"
    by simp
  then show ?thesis by (auto simp: map_of_tally)
qed

lemma count_list_length: "count_list xs x = length (filter (\<lambda>y. y = x) xs)"
  by (induction xs) auto

lemma count_list_two_le:
  "x \<noteq> y \<Longrightarrow> count_list xs x + count_list xs y \<le> length xs"
  by (induction xs) auto

section \<open>Lists\<close>

lemma takeWhile_sorted_filter:
  "sorted_wrt (<) xs \<Longrightarrow> takeWhile (\<lambda>x. x \<le> t) xs = filter (\<lambda>x. x \<le> t) (xs :: 'a::linorder list)"
proof (induction xs)
  case (Cons x xs)
  show ?case
  proof (cases "x \<le> t")
    case False
    with Cons.prems have "\<forall>y\<in>set xs. \<not> y \<le> t" by fastforce
    with False show ?thesis by (simp add: filter_empty_conv)
  qed (use Cons in simp)
qed simp

lemma length_omap_put: "omap_wf m \<Longrightarrow> length (omap_put k v m) = (if map_of m k = None then Suc (length m) else length m)"
proof (induction m)
  case (Cons p m)
  then have wf: "omap_wf m" and lt: "\<forall>q\<in>set m. fst p < fst q" by (simp_all add: omap_wf_def)
  have "map_of m k = None" if "k < fst p"
    using that lt by (force simp: map_of_eq_None_iff)
  with Cons.IH [OF wf] show ?case by (cases p) auto
qed simp

lemma find_SomeD: "find P xs = Some x \<Longrightarrow> x \<in> set xs \<and> P x"
  by (induction xs) (auto split: if_splits)

lemma okeys_map_of: "fst ` set m = {k. map_of m k \<noteq> None}"
  by (auto simp: map_of_eq_None_iff)

lemma fst_omap_put [simp]: "fst ` set (omap_put k v m) = insert k (fst ` set m)"
  by (induction m) auto

end
