(* ===== verification/Tapir_Types.thy ===== *)
theory Tapir_Types
  imports Tapir_Prelude
begin

unbundle bit_operations_syntax

text \<open>
  The values that clients, stores and servers exchange:
  \<^verbatim>\<open>store/common/timestamp\<close> (\<open>Timestamp\<close> and its comparison operators),
  \<^verbatim>\<open>store/common/transaction\<close> (\<open>Transaction\<close> and the reply codes),
  \<^verbatim>\<open>store/common/truetime\<close> (\<open>TrueTime\<close>) and the sharding function of
  \<^verbatim>\<open>store/common/frontend/client.h\<close>. The protocol buffers of
  \<^verbatim>\<open>store/common/common-proto.proto\<close> are datatypes with the fields of the \<^verbatim>\<open>.proto\<close> file; their
  byte encoding is generated code and a parameter wherever bytes matter.
\<close>

section \<open>Timestamps\<close>

datatype Timestamp = Timestamp (getTimestamp: u64) (getID: u64)

definition Timestamp_default :: Timestamp where
  "Timestamp_default = Timestamp 0 0"

definition Timestamp_of_u64 :: "u64 \<Rightarrow> Timestamp" where
  "Timestamp_of_u64 t = Timestamp t 0"

definition Timestamp_eq :: "Timestamp \<Rightarrow> Timestamp \<Rightarrow> bool" where
  "Timestamp_eq a t \<longleftrightarrow> getTimestamp a = getTimestamp t \<and> getID a = getID t"

definition Timestamp_ne :: "Timestamp \<Rightarrow> Timestamp \<Rightarrow> bool" where
  "Timestamp_ne a t \<longleftrightarrow> getTimestamp a \<noteq> getTimestamp t \<or> getID a \<noteq> getID t"

definition Timestamp_gt :: "Timestamp \<Rightarrow> Timestamp \<Rightarrow> bool" where
  "Timestamp_gt a t =
     (if getTimestamp a = getTimestamp t then getID a > getID t else getTimestamp a > getTimestamp t)"

definition Timestamp_lt :: "Timestamp \<Rightarrow> Timestamp \<Rightarrow> bool" where
  "Timestamp_lt a t =
     (if getTimestamp a = getTimestamp t then getID a < getID t else getTimestamp a < getTimestamp t)"

definition Timestamp_ge :: "Timestamp \<Rightarrow> Timestamp \<Rightarrow> bool" where
  "Timestamp_ge a t =
     (if getTimestamp a = getTimestamp t then getID a \<ge> getID t else getTimestamp a \<ge> getTimestamp t)"

definition Timestamp_le :: "Timestamp \<Rightarrow> Timestamp \<Rightarrow> bool" where
  "Timestamp_le a t =
     (if getTimestamp a = getTimestamp t then getID a \<le> getID t else getTimestamp a \<le> getTimestamp t)"

definition isValid :: "Timestamp \<Rightarrow> bool" where
  "isValid t \<longleftrightarrow> getTimestamp t > 0 \<and> getID t > 0"

definition setTimestamp :: "u64 \<Rightarrow> Timestamp \<Rightarrow> Timestamp" where
  "setTimestamp t a = Timestamp t (getID a)"

datatype TimestampMessage = TimestampMessage (tsm_id: u64) (tsm_timestamp: u64)

definition Timestamp_serialize :: "Timestamp \<Rightarrow> TimestampMessage" where
  "Timestamp_serialize t = TimestampMessage (getID t) (getTimestamp t)"

definition Timestamp_of_msg :: "TimestampMessage \<Rightarrow> Timestamp" where
  "Timestamp_of_msg m = Timestamp (tsm_timestamp m) (tsm_id m)"

text \<open>
  The order instance uses the source's operators, so that \<open><\<close> and \<open>\<le>\<close> on timestamps below are
  the C++ comparisons and the ordered containers keyed by timestamps are sorted by them.
\<close>

instantiation Timestamp :: linorder
begin

definition less_Timestamp :: "Timestamp \<Rightarrow> Timestamp \<Rightarrow> bool" where
  "less_Timestamp = Timestamp_lt"

definition less_eq_Timestamp :: "Timestamp \<Rightarrow> Timestamp \<Rightarrow> bool" where
  "less_eq_Timestamp = Timestamp_le"

instance
proof
  fix x y z :: Timestamp
  show "(x < y) = (x \<le> y \<and> \<not> y \<le> x)"
    by (auto simp: less_Timestamp_def less_eq_Timestamp_def Timestamp_lt_def Timestamp_le_def)
  show "x \<le> x"
    by (simp add: less_eq_Timestamp_def Timestamp_le_def)
  show "x \<le> y \<Longrightarrow> y \<le> z \<Longrightarrow> x \<le> z"
    by (auto simp: less_eq_Timestamp_def Timestamp_le_def split: if_splits)
  show "x \<le> y \<Longrightarrow> y \<le> x \<Longrightarrow> x = y"
    by (cases x, cases y) (auto simp: less_eq_Timestamp_def Timestamp_le_def split: if_splits)
  show "x \<le> y \<or> y \<le> x"
    by (auto simp: less_eq_Timestamp_def Timestamp_le_def)
qed

end

lemmas ts_order_defs = less_Timestamp_def less_eq_Timestamp_def Timestamp_lt_def Timestamp_le_def
  Timestamp_gt_def Timestamp_ge_def Timestamp_eq_def Timestamp_ne_def

lemma Timestamp_gt_iff [simp]: "Timestamp_gt a b \<longleftrightarrow> b < a"
  by (auto simp: ts_order_defs)

lemma Timestamp_ge_iff [simp]: "Timestamp_ge a b \<longleftrightarrow> b \<le> a"
  by (auto simp: ts_order_defs)

lemma Timestamp_eq_iff [simp]: "Timestamp_eq a b \<longleftrightarrow> a = b"
  by (cases a, cases b) (auto simp: ts_order_defs)

lemma Timestamp_ne_iff [simp]: "Timestamp_ne a b \<longleftrightarrow> a \<noteq> b"
  by (cases a, cases b) (auto simp: ts_order_defs)

lemma Timestamp_less_iff [simp]:
  "Timestamp a i < Timestamp b j \<longleftrightarrow> a < b \<or> a = b \<and> i < j"
  by (auto simp: ts_order_defs)

lemma Timestamp_le_iff [simp]:
  "Timestamp a i \<le> Timestamp b j \<longleftrightarrow> a < b \<or> a = b \<and> i \<le> j"
  by (auto simp: ts_order_defs)

lemma Timestamp_default_least [simp]: "Timestamp_default \<le> t"
  by (cases t) (auto simp: Timestamp_default_def word_neq_0_conv)

lemma Timestamp_msg_roundtrip [simp]: "Timestamp_of_msg (Timestamp_serialize t) = t"
  by (simp add: Timestamp_of_msg_def Timestamp_serialize_def)

section \<open>Reply codes\<close>

definition REPLY_OK :: int where "REPLY_OK = 0"
definition REPLY_FAIL :: int where "REPLY_FAIL = 1"
definition REPLY_RETRY :: int where "REPLY_RETRY = 2"
definition REPLY_ABSTAIN :: int where "REPLY_ABSTAIN = 3"
definition REPLY_TIMEOUT :: int where "REPLY_TIMEOUT = 4"
definition REPLY_NETWORK_FAILURE :: int where "REPLY_NETWORK_FAILURE = 5"

lemmas reply_defs = REPLY_OK_def REPLY_FAIL_def REPLY_RETRY_def REPLY_ABSTAIN_def
  REPLY_TIMEOUT_def REPLY_NETWORK_FAILURE_def

section \<open>Transactions\<close>

text \<open>
  \<open>readSet\<close> and \<open>writeSet\<close> are unordered maps that the stores iterate: association lists in the
  iteration order, with one entry per key (\<open>txn_wf\<close>). Every theorem below that quantifies over
  transactions therefore quantifies over all iteration orders.
\<close>

record Transaction =
  readSet :: "(string \<times> Timestamp) list"
  writeSet :: "(string \<times> string) list"

definition Transaction_empty :: Transaction where
  "Transaction_empty = \<lparr>readSet = [], writeSet = []\<rparr>"

definition txn_wf :: "Transaction \<Rightarrow> bool" where
  "txn_wf t \<longleftrightarrow> distinct (map fst (readSet t)) \<and> distinct (map fst (writeSet t))"

definition addReadSet :: "string \<Rightarrow> Timestamp \<Rightarrow> Transaction \<Rightarrow> Transaction" where
  "addReadSet key readTime t = t\<lparr>readSet := AList.update key readTime (readSet t)\<rparr>"

definition addWriteSet :: "string \<Rightarrow> string \<Rightarrow> Transaction \<Rightarrow> Transaction" where
  "addWriteSet key v t = t\<lparr>writeSet := AList.update key v (writeSet t)\<rparr>"

record TransactionMessage =
  readset :: "(string \<times> TimestampMessage) list"
  writeset :: "(string \<times> string) list"

definition Transaction_of_msg :: "TransactionMessage \<Rightarrow> Transaction" where
  "Transaction_of_msg m =
     fold (\<lambda>(k, v) t. addWriteSet k v t) (writeset m)
       (fold (\<lambda>(k, ts) t. addReadSet k (Timestamp_of_msg ts) t) (readset m) Transaction_empty)"

definition Transaction_serialize :: "Transaction \<Rightarrow> TransactionMessage" where
  "Transaction_serialize t =
     \<lparr>readset = map (\<lambda>(k, ts). (k, Timestamp_serialize ts)) (readSet t), writeset = writeSet t\<rparr>"

abbreviation rkeys :: "Transaction \<Rightarrow> string set" where
  "rkeys t \<equiv> fst ` set (readSet t)"

abbreviation wkeys :: "Transaction \<Rightarrow> string set" where
  "wkeys t \<equiv> fst ` set (writeSet t)"

lemma txn_wf_empty [simp]: "txn_wf Transaction_empty"
  by (simp add: txn_wf_def Transaction_empty_def)

lemma txn_wf_addReadSet [simp, wf_intros]: "txn_wf t \<Longrightarrow> txn_wf (addReadSet k ts t)"
  by (simp add: txn_wf_def addReadSet_def distinct_update)

lemma txn_wf_addWriteSet [simp, wf_intros]: "txn_wf t \<Longrightarrow> txn_wf (addWriteSet k v t)"
  by (simp add: txn_wf_def addWriteSet_def distinct_update)

lemma update_fresh: "k \<notin> fst ` set xs \<Longrightarrow> AList.update k v xs = xs @ [(k, v)]"
  by (induction xs) auto

lemma fold_addReadSet:
  "distinct (map fst ps) \<Longrightarrow> fst ` set ps \<inter> rkeys t = {} \<Longrightarrow>
   fold (\<lambda>(k, ts) t. addReadSet k (f ts) t) ps t =
     t\<lparr>readSet := readSet t @ map (\<lambda>(k, ts). (k, f ts)) ps\<rparr>"
proof (induction ps arbitrary: t)
  case (Cons p ps)
  obtain k ts where p: "p = (k, ts)" by (cases p)
  with Cons.prems have "addReadSet k (f ts) t = t\<lparr>readSet := readSet t @ [(k, f ts)]\<rparr>"
    by (auto simp: addReadSet_def update_fresh)
  with Cons p show ?case by (auto simp: image_iff)
qed simp

lemma fold_addWriteSet:
  "distinct (map fst ps) \<Longrightarrow> fst ` set ps \<inter> wkeys t = {} \<Longrightarrow>
   fold (\<lambda>(k, v) t. addWriteSet k v t) ps t = t\<lparr>writeSet := writeSet t @ ps\<rparr>"
proof (induction ps arbitrary: t)
  case (Cons p ps)
  obtain k v where p: "p = (k, v)" by (cases p)
  with Cons.prems have "addWriteSet k v t = t\<lparr>writeSet := writeSet t @ [(k, v)]\<rparr>"
    by (auto simp: addWriteSet_def update_fresh)
  with Cons p show ?case by (auto simp: image_iff)
qed simp

lemma Transaction_of_msg_serialize:
  assumes "txn_wf t"
  shows "Transaction_of_msg (Transaction_serialize t) = t"
proof -
  let ?rs = "map (\<lambda>(k, ts). (k, Timestamp_serialize ts)) (readSet t)"
  have keys: "map fst ?rs = map fst (readSet t)"
    by (simp add: case_prod_unfold)
  have vals: "map (\<lambda>(k, ts). (k, Timestamp_of_msg ts)) ?rs = readSet t"
    by (simp add: case_prod_unfold comp_def)
  have "fold (\<lambda>(k, ts) t. addReadSet k (Timestamp_of_msg ts) t) ?rs Transaction_empty =
      \<lparr>readSet = readSet t, writeSet = []\<rparr>"
    using assms keys vals
    by (subst fold_addReadSet) (simp_all only: txn_wf_def, simp_all add: Transaction_empty_def)
  then show ?thesis
    using assms
    by (simp add: Transaction_of_msg_def Transaction_serialize_def txn_wf_def fold_addWriteSet)
qed

section \<open>TrueTime\<close>

text \<open>
  \<^verbatim>\<open>gettimeofday\<close> is the argument \<open>now\<close>. \<^verbatim>\<open>tv_usec\<close> is a signed long to which the unsigned
  \<^verbatim>\<open>simSkew\<close> is added, so the sum is taken modulo \<open>2\<^sup>6\<^sup>4\<close> and read back as signed.
\<close>

record timeval =
  tv_sec :: int
  tv_usec :: int

record TrueTime =
  simError :: u64
  simSkew :: u64

definition TrueTime_init :: TrueTime where
  "TrueTime_init = \<lparr>simError = 0, simSkew = 0\<rparr>"

definition TrueTime_skewed :: "u64 \<Rightarrow> u64 \<Rightarrow> u64 \<Rightarrow> TrueTime" where
  "TrueTime_skewed r skew errorBound =
     \<lparr>simError = errorBound, simSkew = (if skew = 0 then 0 else r mod skew - skew div 2)\<rparr>"

definition skewed_now :: "TrueTime \<Rightarrow> timeval \<Rightarrow> timeval" where
  "skewed_now tt now =
     (let usec = sint (word_of_int (tv_usec now) + simSkew tt :: u64)
      in if usec > 999999 then \<lparr>tv_sec = tv_sec now + 1, tv_usec = usec - 1000000\<rparr>
         else if usec < 0 then \<lparr>tv_sec = tv_sec now - 1, tv_usec = usec + 1000000\<rparr>
         else \<lparr>tv_sec = tv_sec now, tv_usec = usec\<rparr>)"

definition GetTime :: "TrueTime \<Rightarrow> timeval \<Rightarrow> u64" where
  "GetTime tt now =
     (let n = skewed_now tt now
      in push_bit 32 (word_of_int (tv_sec n)) OR word_of_int (tv_usec n))"

definition GetTimeAndError :: "TrueTime \<Rightarrow> timeval \<Rightarrow> u64 \<times> u64" where
  "GetTimeAndError tt now = (GetTime tt now, simError tt)"

lemma push_bit_or_word:
  fixes a b :: u64
  assumes "uint a < 2 ^ 32" and "uint b < 2 ^ 32"
  shows "uint (push_bit 32 a OR b) = uint a * 2 ^ 32 + uint b"
proof -
  have "uint (push_bit 32 a) = push_bit 32 (uint a)"
    using assms(1) by (simp add: push_bit_eq_mult uint_word_ariths)
  then have "uint (push_bit 32 a OR b) = push_bit 32 (uint a) OR uint b"
    by (simp add: unsigned_or_eq)
  also have "\<dots> = concat_bit 32 (uint b) (uint a)"
    using assms(2) by (simp add: concat_bit_def take_bit_int_eq_self or.commute)
  also have "\<dots> = uint a * 2 ^ 32 + uint b"
    using assms(2) by (simp add: concat_bit_eq take_bit_int_eq_self push_bit_eq_mult)
  finally show ?thesis .
qed

lemma skewed_now_init:
  assumes "0 \<le> tv_usec now" and "tv_usec now \<le> 999999"
  shows "skewed_now TrueTime_init now = now"
proof -
  have "sint (word_of_int (tv_usec now) :: u64) = tv_usec now"
    using assms by (simp add: signed_of_int signed_take_bit_int_eq_self)
  then show ?thesis
    using assms by (simp add: skewed_now_def TrueTime_init_def)
qed

lemma uint_GetTime_init:
  assumes "0 \<le> tv_sec now" and "tv_sec now < 2 ^ 32"
    and "0 \<le> tv_usec now" and "tv_usec now \<le> 999999"
  shows "uint (GetTime TrueTime_init now) = tv_sec now * 2 ^ 32 + tv_usec now"
proof -
  have "uint (word_of_int (tv_sec now) :: u64) = tv_sec now"
    and "uint (word_of_int (tv_usec now) :: u64) = tv_usec now"
    using assms by (simp_all add: uint_word_of_int)
  then show ?thesis
    using assms by (simp add: GetTime_def skewed_now_init push_bit_or_word)
qed

section \<open>Sharding\<close>

text \<open>
  \<^verbatim>\<open>(uint64_t)str[i]\<close> sign-extends a \<^verbatim>\<open>char\<close>, which is signed on the platforms the code is built
  for. \<open>load_on_shard\<close> is the test that the server's \<^verbatim>\<open>main\<close> applies to every key of the key
  file. A modulus of zero is undefined behaviour.
\<close>

definition char_u64 :: "char \<Rightarrow> u64" where
  "char_u64 c = (let n = of_char c :: int in word_of_int (if n < 128 then n else n - 256))"

fun djb2 :: "u64 \<Rightarrow> string \<Rightarrow> u64" where
  "djb2 h [] = h"
| "djb2 h (c # cs) = djb2 ((push_bit 5 h + h) + char_u64 c) cs"

definition key_to_shard :: "string \<Rightarrow> u64 \<Rightarrow> u64 outcome" where
  "key_to_shard key nshards =
     (if nshards = 0 then Inl (Undefined ''modulo by zero'') else Inr (djb2 5381 key mod nshards))"

definition load_on_shard :: "string \<Rightarrow> u64 \<Rightarrow> u64 \<Rightarrow> bool outcome" where
  "load_on_shard key maxShard myShard =
     (if maxShard = 0 then Inl (Undefined ''modulo by zero'')
      else Inr (djb2 5381 key mod maxShard = myShard))"

end
