(* ===== verification/Replication_Base.thy ===== *)
theory Replication_Base
  imports Tapir_Types "HOL-Library.Product_Lexorder"
begin

text \<open>
  What both replication protocols share: the replica group's configuration
  (\<^verbatim>\<open>lib/configuration.cc\<close>, with the parser of configuration files), the quorum sets of
  \<^verbatim>\<open>replication/common/quorumset.h\<close> and the viewstamps of \<^verbatim>\<open>viewstamp.h\<close>. The locale
  \<open>quorum_system\<close> collects the arithmetic of quorums; it is interpreted on the sizes that
  \<^verbatim>\<open>Configuration\<close> computes.
\<close>

type_synonym view_t = u64
type_synonym opnum_t = u64

text \<open>\<^verbatim>\<open>replication.Request\<close> of \<^verbatim>\<open>replication/common/request.proto\<close>.\<close>

record OpRequest =
  rop :: string
  clientid :: u64
  clientreqid :: u64

text \<open>\<^verbatim>\<open>ReplicaStatus\<close> of \<^verbatim>\<open>replication/common/replica.h\<close>.\<close>

datatype ErrorCode = TIMEOUT | MISMATCHED_CONSENSUS_VIEWS

definition ErrorCodeToString :: "ErrorCode \<Rightarrow> string" where
  "ErrorCodeToString err =
     (case err of TIMEOUT \<Rightarrow> ''TIMEOUT'' | MISMATCHED_CONSENSUS_VIEWS \<Rightarrow> ''MISMATCHED_CONSENSUS_VIEWS'')"

datatype ReplicaStatus = STATUS_NORMAL | STATUS_VIEW_CHANGE | STATUS_RECOVERING


section \<open>Viewstamps\<close>

datatype viewstamp_t = Viewstamp (vs_view: view_t) (vs_opnum: opnum_t)

definition Viewstamp_Compare :: "viewstamp_t \<Rightarrow> viewstamp_t \<Rightarrow> int" where
  "Viewstamp_Compare a b =
     (if vs_view a < vs_view b then -1
      else if vs_view a > vs_view b then 1
      else if vs_opnum a < vs_opnum b then -1
      else if vs_opnum a > vs_opnum b then 1
      else 0)"

instantiation viewstamp_t :: linorder
begin

definition less_viewstamp_t :: "viewstamp_t \<Rightarrow> viewstamp_t \<Rightarrow> bool" where
  "less_viewstamp_t a b \<longleftrightarrow> Viewstamp_Compare a b < 0"

definition less_eq_viewstamp_t :: "viewstamp_t \<Rightarrow> viewstamp_t \<Rightarrow> bool" where
  "less_eq_viewstamp_t a b \<longleftrightarrow> \<not> Viewstamp_Compare b a < 0"

instance
proof
  fix a b c :: viewstamp_t
  show "a < b \<longleftrightarrow> a \<le> b \<and> \<not> b \<le> a" and "a \<le> a" and "a \<le> b \<or> b \<le> a"
    by (auto simp: less_viewstamp_t_def less_eq_viewstamp_t_def Viewstamp_Compare_def split: if_splits)
  show "a \<le> b \<Longrightarrow> b \<le> c \<Longrightarrow> a \<le> c"
    by (auto simp: less_eq_viewstamp_t_def Viewstamp_Compare_def split: if_splits)
  show "a \<le> b \<Longrightarrow> b \<le> a \<Longrightarrow> a = b"
    by (cases a; cases b) (auto simp: less_eq_viewstamp_t_def Viewstamp_Compare_def split: if_splits)
qed

end

section \<open>Configurations\<close>

type_synonym ReplicaAddress = "string \<times> string"

record Configuration =
  cfg_n :: int
  cfg_f :: int
  replicas :: "ReplicaAddress list"
  multicastAddress :: "ReplicaAddress option"

definition Configuration_of ::
  "int \<Rightarrow> int \<Rightarrow> ReplicaAddress list \<Rightarrow> ReplicaAddress option \<Rightarrow> Configuration" where
  "Configuration_of n f rs mc = \<lparr>cfg_n = n, cfg_f = f, replicas = rs, multicastAddress = mc\<rparr>"

text \<open>\<^verbatim>\<open>view % this->n\<close>, with \<^verbatim>\<open>n\<close> converted to \<^verbatim>\<open>uint64_t\<close>.\<close>

definition GetLeaderIndex :: "Configuration \<Rightarrow> view_t \<Rightarrow> int" where
  "GetLeaderIndex c view = uint (view mod (word_of_int (cfg_n c)))"

definition QuorumSize :: "Configuration \<Rightarrow> int" where
  "QuorumSize c = cfg_f c + 1"

definition FastQuorumSize :: "Configuration \<Rightarrow> int" where
  "FastQuorumSize c = cfg_f c + (cfg_f c + 1) div 2 + 1"

definition ReplicaAddress_lt :: "ReplicaAddress \<Rightarrow> ReplicaAddress \<Rightarrow> bool" where
  "ReplicaAddress_lt a b \<longleftrightarrow> fst a < fst b \<or> (fst a = fst b \<and> snd a < snd b)"

definition Configuration_eq :: "Configuration \<Rightarrow> Configuration \<Rightarrow> bool" where
  "Configuration_eq a b \<longleftrightarrow>
     (if cfg_n a \<noteq> cfg_n b \<or> cfg_f a \<noteq> cfg_f b \<or> replicas a \<noteq> replicas b \<or>
         (multicastAddress a \<noteq> None) \<noteq> (multicastAddress b \<noteq> None) then False
      else if multicastAddress a \<noteq> None \<and> the (multicastAddress a) \<noteq> the (multicastAddress b) then False
      else True)"

definition Configuration_lt :: "Configuration \<Rightarrow> Configuration \<Rightarrow> bool" where
  "Configuration_lt a b =
     (let ta = (cfg_n a, cfg_f a, replicas a, multicastAddress a \<noteq> None);
          tb = (cfg_n b, cfg_f b, replicas b, multicastAddress b \<noteq> None)
      in if ta < tb then True
         else if ta = tb
         then (if multicastAddress a \<noteq> None
               then ReplicaAddress_lt (the (multicastAddress a)) (the (multicastAddress b)) else False)
         else False)"

section \<open>Configuration files\<close>

text \<open>
  The positions found in a line are stored in variables of type \<^verbatim>\<open>unsigned int\<close>, so
  \<^verbatim>\<open>string::npos\<close> becomes \<open>2 ^ 32 - 1\<close> there.
\<close>

definition npos :: nat where
  "npos = 2 ^ 64 - 1"

definition find_from :: "(char \<Rightarrow> bool) \<Rightarrow> nat \<Rightarrow> string \<Rightarrow> nat" where
  "find_from P pos line =
     (let i = pos + length (takeWhile (\<lambda>c. \<not> P c) (drop pos line))
      in if pos < length line \<and> i < length line then i else npos)"

definition to_u32 :: "nat \<Rightarrow> nat" where
  "to_u32 n = n mod 2 ^ 32"

definition substr :: "string \<Rightarrow> nat \<Rightarrow> nat \<Rightarrow> string outcome" where
  "substr line pos len =
     (if pos > length line then Inl (Uncaught ''std::out_of_range'') else Inr (take len (drop pos line)))"

definition is_blank :: "char \<Rightarrow> bool" where
  "is_blank c \<longleftrightarrow> c = CHR '' '' \<or> c = CHR 0x09"

definition to_lower :: "char \<Rightarrow> char" where
  "to_lower c = (let n = of_char c :: nat in if 65 \<le> n \<and> n \<le> 90 then char_of (n + 32) else c)"

definition strcasecmp_eq :: "string \<Rightarrow> string \<Rightarrow> bool" where
  "strcasecmp_eq a b \<longleftrightarrow> map to_lower (takeWhile (\<lambda>c. c \<noteq> CHR 0x00) a) = map to_lower b"

text \<open>\<^verbatim>\<open>std::stoul\<close> in base 10; \<open>None\<close> is \<^verbatim>\<open>invalid_argument\<close>.\<close>

definition is_space :: "char \<Rightarrow> bool" where
  "is_space c \<longleftrightarrow> c = CHR '' '' \<or> (9 \<le> (of_char c :: nat) \<and> (of_char c :: nat) \<le> 13)"

definition is_digit :: "char \<Rightarrow> bool" where
  "is_digit c \<longleftrightarrow> 48 \<le> (of_char c :: nat) \<and> (of_char c :: nat) \<le> 57"

definition digits_value :: "string \<Rightarrow> nat" where
  "digits_value ds = foldl (\<lambda>n c. 10 * n + (of_char c - 48)) 0 ds"

definition stoul :: "string \<Rightarrow> u64 option outcome" where
  "stoul str =
     (let s = dropWhile is_space str;
          neg = (case s of c # _ \<Rightarrow> c = CHR ''-'' | [] \<Rightarrow> False);
          body = (case s of c # cs \<Rightarrow> if c = CHR ''-'' \<or> c = CHR ''+'' then cs else s | [] \<Rightarrow> s);
          ds = takeWhile is_digit body;
          v = digits_value ds
      in if ds = [] then Inr None
         else if v \<ge> 2 ^ 64 then Inl (Uncaught ''std::out_of_range'')
         else Inr (Some (if neg then - of_nat v else of_nat v)))"

record cfg_state =
  cs_f :: int
  cs_replicas :: "ReplicaAddress list"
  cs_multicast :: "ReplicaAddress option"

text \<open>The argument of a \<^verbatim>\<open>replica\<close> or \<^verbatim>\<open>multicast\<close> line.\<close>

definition parse_address :: "string \<Rightarrow> string \<Rightarrow> nat \<Rightarrow> ReplicaAddress outcome" where
  "parse_address cmd line t1 =
     (let t2 = to_u32 (find_from (\<lambda>c. \<not> is_blank c) t1 line) in
      if t2 = npos then Inl (Panicked (cmd @ '' configuration line requires an argument''))
      else
        let t3 = to_u32 (find_from (\<lambda>c. c = CHR '':'') t2 line) in
        if t3 = npos then Inl (Panicked ''Configuration line format: replica host:port'')
        else
          obind (substr line t2 (to_u32 (t3 + 2 ^ 32 - t2))) (\<lambda>host.
            obind (substr line (to_u32 (t3 + 1)) npos) (\<lambda>port. Inr (host, port))))"

definition parse_config_line :: "string \<Rightarrow> cfg_state \<Rightarrow> cfg_state outcome" where
  "parse_config_line line st =
     (if line = [] \<or> hd line = CHR ''#'' then Inr st
      else
        let t1 = to_u32 (find_from is_blank 0 line) in
        obind (substr line 0 t1) (\<lambda>cmd.
          if strcasecmp_eq cmd ''f'' then
            (let t2 = to_u32 (find_from (\<lambda>c. \<not> is_blank c) t1 line) in
             if t2 = npos then Inl (Panicked ''f configuration line requires an argument'')
             else
               obind (substr line t2 npos) (\<lambda>arg.
                 obind (stoul arg) (\<lambda>v.
                   case v of
                     None \<Rightarrow> Inl (Panicked ''Invalid argument to f configuration line'')
                   | Some x \<Rightarrow> Inr (st\<lparr>cs_f := sint (ucast x :: 32 word)\<rparr>))))
          else if strcasecmp_eq cmd ''replica'' then
            obind (parse_address ''replica'' line t1) (\<lambda>a.
              Inr (st\<lparr>cs_replicas := cs_replicas st @ [a]\<rparr>))
          else if strcasecmp_eq cmd ''multicast'' then
            obind (parse_address ''multicast'' line t1) (\<lambda>a. Inr (st\<lparr>cs_multicast := Some a\<rparr>))
          else Inl (Panicked ''Unknown configuration directive'')))"

fun parse_config_lines :: "string list \<Rightarrow> cfg_state \<Rightarrow> cfg_state outcome" where
  "parse_config_lines [] st = Inr st"
| "parse_config_lines (l # ls) st = obind (parse_config_line l st) (parse_config_lines ls)"

definition parse_config :: "string list \<Rightarrow> Configuration outcome" where
  "parse_config ls =
     obind (parse_config_lines ls \<lparr>cs_f = -1, cs_replicas = [], cs_multicast = None\<rparr>) (\<lambda>st.
       if cs_replicas st = [] then Inl (Panicked ''Configuration did not specify any replicas'')
       else if cs_f st = -1 then Inl (Panicked ''Configuration did not specify a f parameter'')
       else Inr \<lparr>cfg_n = int (length (cs_replicas st)), cfg_f = cs_f st, replicas = cs_replicas st,
                 multicastAddress = cs_multicast st\<rparr>)"

section \<open>Quorum sets\<close>

text \<open>\<open>messages\<close> is a \<^verbatim>\<open>std::map\<close> of \<^verbatim>\<open>std::map\<close>s; looking up an absent id creates an empty one.\<close>

record ('id, 'm) QuorumSet =
  numRequired :: int
  messages :: "('id \<times> (int \<times> 'm) list) list"

definition QuorumSet_new :: "int \<Rightarrow> ('id::linorder, 'm) QuorumSet" where
  "QuorumSet_new k = \<lparr>numRequired = k, messages = []\<rparr>"

definition QuorumSet_Clear :: "('id::linorder, 'm) QuorumSet \<Rightarrow> ('id, 'm) QuorumSet" where
  "QuorumSet_Clear q = q\<lparr>messages := []\<rparr>"

definition QuorumSet_Clear_id :: "('id::linorder, 'm) QuorumSet \<Rightarrow> 'id \<Rightarrow> ('id, 'm) QuorumSet" where
  "QuorumSet_Clear_id q vs = q\<lparr>messages := omap_put vs [] (messages q)\<rparr>"

definition GetMessages :: "('id::linorder, 'm) QuorumSet \<Rightarrow> 'id \<Rightarrow> (int \<times> 'm) list" where
  "GetMessages q vs = (case map_of (messages q) vs of None \<Rightarrow> [] | Some ms \<Rightarrow> ms)"

definition CheckForQuorum_id :: "('id::linorder, 'm) QuorumSet \<Rightarrow> 'id \<Rightarrow> (int \<times> 'm) list option" where
  "CheckForQuorum_id q vs =
     (let ms = GetMessages q vs in if int (length ms) \<ge> numRequired q then Some ms else None)"

fun check_ids :: "('id::linorder, 'm) QuorumSet \<Rightarrow> 'id list \<Rightarrow> (int \<times> 'm) list option" where
  "check_ids q [] = None"
| "check_ids q (vs # ids) =
     (case CheckForQuorum_id q vs of Some ms \<Rightarrow> Some ms | None \<Rightarrow> check_ids q ids)"

definition CheckForQuorum :: "('id::linorder, 'm) QuorumSet \<Rightarrow> (int \<times> 'm) list option" where
  "CheckForQuorum q = check_ids q (map fst (messages q))"

definition QuorumSet_Add ::
  "('id::linorder, 'm) QuorumSet \<Rightarrow> 'id \<Rightarrow> int \<Rightarrow> 'm \<Rightarrow> ('id, 'm) QuorumSet" where
  "QuorumSet_Add q vs replicaIdx msg =
     q\<lparr>messages := omap_put vs (omap_put replicaIdx msg (GetMessages q vs)) (messages q)\<rparr>"

definition AddAndCheckForQuorum ::
  "('id::linorder, 'm) QuorumSet \<Rightarrow> 'id \<Rightarrow> int \<Rightarrow> 'm
    \<Rightarrow> (int \<times> 'm) list option \<times> ('id, 'm) QuorumSet" where
  "AddAndCheckForQuorum q vs replicaIdx msg =
     (let q' = QuorumSet_Add q vs replicaIdx msg in (CheckForQuorum_id q' vs, q'))"

lemma GetMessages_Add:
  "omap_wf (messages q) \<Longrightarrow> GetMessages (QuorumSet_Add q vs i m) vs' =
     (if vs' = vs then omap_put i m (GetMessages q vs) else GetMessages q vs')"
  by (simp add: GetMessages_def QuorumSet_Add_def)

definition quorum_wf :: "('id::linorder, 'm) QuorumSet \<Rightarrow> bool" where
  "quorum_wf q \<longleftrightarrow> omap_wf (messages q) \<and> (\<forall>vs. omap_wf (GetMessages q vs))"

lemma quorum_wf_new [simp]: "quorum_wf (QuorumSet_new k)"
  by (simp add: quorum_wf_def QuorumSet_new_def GetMessages_def)

lemma quorum_wf_Add [wf_intros]: "quorum_wf q \<Longrightarrow> quorum_wf (QuorumSet_Add q vs i m)"
  by (simp add: quorum_wf_def GetMessages_Add) (simp add: QuorumSet_Add_def)

lemma numRequired_Add [simp]: "numRequired (QuorumSet_Add q vs i m) = numRequired q"
  by (simp add: QuorumSet_Add_def)

text \<open>A quorum consists of messages from that many different replicas, the one just added among them.\<close>

lemma AddAndCheckForQuorum_Some:
  assumes "quorum_wf q" and "AddAndCheckForQuorum q vs i m = (Some ms, q')"
  shows "ms = omap_put i m (GetMessages q vs)" and "numRequired q \<le> int (card (fst ` set ms))"
    and "map_of ms i = Some m" and "quorum_wf q'" and "omap_wf ms"
proof -
  have ms: "ms = omap_put i m (GetMessages q vs)" and "numRequired q \<le> int (length ms)"
    using assms
    by (auto simp: AddAndCheckForQuorum_def CheckForQuorum_id_def Let_def quorum_wf_def
        GetMessages_Add split: if_splits)
  moreover have wf: "omap_wf ms" using assms(1) ms by (simp add: quorum_wf_def)
  ultimately show "numRequired q \<le> int (card (fst ` set ms))"
    using omap_wf_distinct [OF wf] by (metis distinct_card length_map set_map)
  show "ms = omap_put i m (GetMessages q vs)" by (rule ms)
  show "map_of ms i = Some m" using ms assms(1) by (simp add: quorum_wf_def)
  show "quorum_wf q'" using assms quorum_wf_Add [OF assms(1)]
    by (auto simp: AddAndCheckForQuorum_def Let_def)
  show "omap_wf ms" by (rule wf)
qed

section \<open>Quorum arithmetic\<close>

text \<open>
  \<open>q\<close> is the size of a quorum of \<open>n\<close> replicas, \<open>sq\<close> of a fast quorum, and \<open>m\<close> the number of equal
  results in a quorum of records that makes IR's record merge keep the result.
\<close>

locale quorum_system =
  fixes n q sq m :: nat
  assumes majority: "n < 2 * q"
    and fast: "n + m \<le> q + sq"
    and unique: "q < 2 * m"
begin

lemma overlap:
  assumes "A \<subseteq> {..<n}" and "B \<subseteq> {..<n}"
  shows "card A + card B \<le> n + card (A \<inter> B)"
proof -
  have "finite A" "finite B" using assms by (auto intro: finite_subset)
  moreover have "card (A \<union> B) \<le> n" using assms card_mono [of "{..<n}" "A \<union> B"] by simp
  ultimately show ?thesis using card_Un_Int [of A B] by linarith
qed

lemma quorums_meet:
  assumes "A \<subseteq> {..<n}" "B \<subseteq> {..<n}" "q \<le> card A" "q \<le> card B"
  shows "A \<inter> B \<noteq> {}"
proof
  assume "A \<inter> B = {}"
  with overlap [OF assms(1,2)] assms(3,4) majority show False by simp
qed

lemma fast_quorum_meets:
  assumes "A \<subseteq> {..<n}" "B \<subseteq> {..<n}" "sq \<le> card A" "q \<le> card B"
  shows "m \<le> card (A \<inter> B)"
  using overlap [OF assms(1,2)] assms(3,4) fast by linarith

lemma one_majority:
  assumes "length xs \<le> q" "m \<le> count_list xs a" "m \<le> count_list xs b"
  shows "a = b"
proof (rule ccontr)
  assume "a \<noteq> b"
  from count_list_two_le [OF this, of xs] assms unique show False by linarith
qed

end

definition merge_threshold :: "int \<Rightarrow> int" where
  "merge_threshold f = (f + 1) div 2 + 1"

abbreviation group_of :: "nat \<Rightarrow> Configuration" where
  "group_of f \<equiv> Configuration_of (2 * int f + 1) (int f) [] None"

lemma group_sizes:
  "nat (QuorumSize (group_of f)) = f + 1"
  "nat (FastQuorumSize (group_of f)) = f + (f + 1) div 2 + 1"
  "nat (merge_threshold (int f)) = (f + 1) div 2 + 1"
proof -
  have "(int f + 1) div 2 = int ((f + 1) div 2)" by (simp add: zdiv_int)
  then show "nat (QuorumSize (group_of f)) = f + 1"
    "nat (FastQuorumSize (group_of f)) = f + (f + 1) div 2 + 1"
    "nat (merge_threshold (int f)) = (f + 1) div 2 + 1"
    by (simp_all add: QuorumSize_def FastQuorumSize_def Configuration_of_def merge_threshold_def
        nat_add_distrib)
qed

interpretation qs: quorum_system "2 * f + 1" "nat (QuorumSize (group_of f))"
  "nat (FastQuorumSize (group_of f))" "nat (merge_threshold (int f))" for f :: nat
  unfolding group_sizes by unfold_locales presburger+

section \<open>Properties\<close>

lemma find_from_append:
  assumes "pos \<le> length xs" and "\<forall>x\<in>set (drop pos xs). \<not> P x" and "P c"
  shows "find_from P pos (xs @ c # ys) = length xs"
proof -
  have "takeWhile (\<lambda>c. \<not> P c) (drop pos (xs @ c # ys)) = drop pos xs"
    using assms by (simp add: takeWhile_append2)
  then show ?thesis using assms(1) by (simp add: find_from_def)
qed

lemma find_from_none: "\<forall>x\<in>set (drop pos xs). \<not> P x \<Longrightarrow> find_from P pos xs = npos"
  by (auto simp: find_from_def Let_def takeWhile_eq_all_conv [THEN iffD2])

lemma to_u32_lt [simp]: "to_u32 n < 2 ^ 32" "to_u32 n \<noteq> npos"
  by (simp_all add: to_u32_def npos_def)

lemma to_u32_small: "n < 2 ^ 32 \<Longrightarrow> to_u32 n = n"
  by (simp add: to_u32_def)

lemma to_u32_npos: "to_u32 npos = 2 ^ 32 - 1"
  by (simp add: to_u32_def npos_def)

lemma strcasecmp_replica: "\<not> strcasecmp_eq ''replica'' ''f''" "strcasecmp_eq ''replica'' ''replica''"
  by (simp_all add: strcasecmp_eq_def to_lower_def)

lemma replica_line_start:
  assumes "rest \<noteq> []" and "\<not> is_blank (hd rest)"
  shows "find_from is_blank 0 (''replica '' @ rest) = 7"
    and "find_from (\<lambda>c. \<not> is_blank c) 7 (''replica '' @ rest) = 8"
proof -
  have "\<forall>x\<in>set (drop 0 ''replica''). \<not> is_blank x" by (simp add: is_blank_def)
  then show "find_from is_blank 0 (''replica '' @ rest) = 7"
    using find_from_append [of 0 "''replica''" is_blank "CHR '' ''" rest] by (simp add: is_blank_def)
  obtain c cs where rest: "rest = c # cs" using assms(1) by (cases rest) auto
  have "\<forall>x\<in>set (drop 7 ''replica ''). \<not> \<not> is_blank x" by (simp add: is_blank_def)
  then show "find_from (\<lambda>c. \<not> is_blank c) 7 (''replica '' @ rest) = 8"
    using find_from_append [of 7 "''replica ''" "\<lambda>c. \<not> is_blank c" c cs] assms(2)
    by (simp add: rest)
qed

lemma parse_replica_line:
  assumes "rest \<noteq> []" and "\<not> is_blank (hd rest)"
  shows "parse_config_line (''replica '' @ rest) st =
    obind (let t3 = to_u32 (find_from (\<lambda>c. c = CHR '':'') 8 (''replica '' @ rest)) in
           obind (substr (''replica '' @ rest) 8 (to_u32 (t3 + 2 ^ 32 - 8))) (\<lambda>host.
             obind (substr (''replica '' @ rest) (to_u32 (t3 + 1)) npos) (\<lambda>port. Inr (host, port))))
      (\<lambda>a. Inr (st\<lparr>cs_replicas := cs_replicas st @ [a]\<rparr>))"
proof -
  have t1: "to_u32 (find_from is_blank 0 (''replica '' @ rest)) = 7"
    and t2: "to_u32 (find_from (\<lambda>c. \<not> is_blank c) 7 (''replica '' @ rest)) = 8"
    using replica_line_start [OF assms] by (simp_all add: to_u32_small)
  have cmd: "substr (''replica '' @ rest) 0 7 = Inr ''replica''"
    by (simp add: substr_def numeral_eq_Suc)
  have "parse_address ''replica'' (''replica '' @ rest) 7 =
      (let t3 = to_u32 (find_from (\<lambda>c. c = CHR '':'') 8 (''replica '' @ rest)) in
           obind (substr (''replica '' @ rest) 8 (to_u32 (t3 + 2 ^ 32 - 8))) (\<lambda>host.
             obind (substr (''replica '' @ rest) (to_u32 (t3 + 1)) npos) (\<lambda>port. Inr (host, port))))"
    unfolding parse_address_def t2 Let_def by (simp only: to_u32_lt(2) if_False) (simp add: npos_def)
  then show ?thesis
    unfolding parse_config_line_def t1 Let_def cmd
    by (simp only: obind_Inr strcasecmp_replica if_False if_True) simp
qed

text \<open>
  A line \<^verbatim>\<open>replica host:port\<close> of a configuration file adds exactly that address, for every
  host without a colon and every port (of less than 2 GB).
\<close>

theorem replica_line_parsed:
  assumes "host \<noteq> []" and "\<not> is_blank (hd host)" and "CHR '':'' \<notin> set host"
    and "length host < 2 ^ 31" and "length port < 2 ^ 31"
  shows "parse_config_line (''replica '' @ host @ CHR '':'' # port) st =
    Inr (st\<lparr>cs_replicas := cs_replicas st @ [(host, port)]\<rparr>)"
proof -
  let ?rest = "host @ CHR '':'' # port"
  have rest: "?rest \<noteq> []" "\<not> is_blank (hd ?rest)" using assms(1,2) by simp_all
  have "\<forall>x\<in>set (drop 8 (''replica '' @ host)). x \<noteq> CHR '':''"
    using assms(3) by (auto simp: numeral_eq_Suc)
  then have "find_from (\<lambda>c. c = CHR '':'') 8 (''replica '' @ ?rest) = 8 + length host"
    using find_from_append [of 8 "''replica '' @ host" "\<lambda>c. c = CHR '':''" "CHR '':''" port] by simp
  moreover have "to_u32 (8 + length host) = 8 + length host"
    "to_u32 (8 + length host + 2 ^ 32 - 8) = length host"
    "to_u32 (8 + length host + 1) = Suc (length host) + 8"
    using assms(4) by (simp_all add: to_u32_def)
  moreover have d8: "drop 8 (''replica '' @ xs) = xs" for xs by (simp add: numeral_eq_Suc)
  moreover have "drop (Suc (length host) + 8) (''replica '' @ ?rest) = port"
    using drop_drop [of "Suc (length host)" 8 "''replica '' @ ?rest"] unfolding d8 by simp
  ultimately have "substr (''replica '' @ ?rest) 8 (length host) = Inr host"
    "substr (''replica '' @ ?rest) (Suc (length host) + 8) npos = Inr port"
    using assms(5) by (simp_all add: substr_def npos_def)
  with \<open>to_u32 (8 + length host) = _\<close> \<open>to_u32 (8 + length host + 2 ^ 32 - 8) = _\<close>
    \<open>to_u32 (8 + length host + 1) = _\<close> \<open>find_from _ 8 _ = _\<close>
  show ?thesis
    unfolding parse_replica_line [OF rest] Let_def by (simp only: obind_Inr)
qed

theorem replica_line_parsed_witness:
  "parse_config_line ''replica h:1'' \<lparr>cs_f = 1, cs_replicas = [], cs_multicast = None\<rparr> =
     Inr \<lparr>cs_f = 1, cs_replicas = [(''h'', ''1'')], cs_multicast = None\<rparr>"
  using replica_line_parsed [of "''h''" "''1''" "\<lparr>cs_f = 1, cs_replicas = [], cs_multicast = None\<rparr>"]
  by (simp add: is_blank_def)

text \<open>
  A replica line whose address has no colon is not rejected: the position \<^verbatim>\<open>npos\<close> is truncated
  to 32 bits before it is compared, and the port that is stored is the whole line.
\<close>

theorem replica_line_without_port:
  assumes "host \<noteq> []" and "\<not> is_blank (hd host)" and "CHR '':'' \<notin> set host"
    and "length host < 2 ^ 31"
  shows "parse_config_line (''replica '' @ host) st =
    Inr (st\<lparr>cs_replicas := cs_replicas st @ [(host, ''replica '' @ host)]\<rparr>)"
proof -
  have "\<forall>x\<in>set (drop 8 (''replica '' @ host)). x \<noteq> CHR '':''"
    using assms(3) by (auto simp: numeral_eq_Suc)
  then have "to_u32 (find_from (\<lambda>c. c = CHR '':'') 8 (''replica '' @ host)) = 2 ^ 32 - 1"
    by (subst find_from_none) (simp_all add: to_u32_npos)
  moreover have "to_u32 (2 ^ 32 - 1 + 2 ^ 32 - 8) = 2 ^ 32 - 9" "to_u32 (2 ^ 32 - 1 + 1) = 0"
    by (simp_all add: to_u32_def)
  ultimately show ?thesis
    using assms(4) unfolding parse_replica_line [OF assms(1,2)]
    by (simp add: substr_def npos_def)
qed

theorem replica_line_without_port_witness:
  "parse_config_line ''replica h'' \<lparr>cs_f = 1, cs_replicas = [], cs_multicast = None\<rparr> =
     Inr \<lparr>cs_f = 1, cs_replicas = [(''h'', ''replica h'')], cs_multicast = None\<rparr>"
  using replica_line_without_port [of "''h''" "\<lparr>cs_f = 1, cs_replicas = [], cs_multicast = None\<rparr>"]
  by (simp add: is_blank_def)

text \<open>
  C37. The quorum sizes of a group of \<open>2f + 1\<close> replicas: two quorums share a replica; a fast
  quorum shares \<open>ceil(f/2) + 1\<close> replicas with every quorum; and among the results in a quorum of
  records at most one occurs that often.
\<close>

theorem quorum_sizes:
  assumes "0 \<le> cfg_f c" and "cfg_n c = 2 * cfg_f c + 1"
    and "A \<subseteq> {..<nat (cfg_n c)}" and "B \<subseteq> {..<nat (cfg_n c)}" and "QuorumSize c \<le> int (card B)"
  shows "(QuorumSize c \<le> int (card A) \<longrightarrow> A \<inter> B \<noteq> {}) \<and>
    (FastQuorumSize c \<le> int (card A) \<longrightarrow> merge_threshold (cfg_f c) \<le> int (card (A \<inter> B))) \<and>
    (\<forall>(xs :: 'r list) a b. int (length xs) \<le> QuorumSize c \<and>
       merge_threshold (cfg_f c) \<le> int (count_list xs a) \<and>
       merge_threshold (cfg_f c) \<le> int (count_list xs b) \<longrightarrow> a = b)"
proof -
  define f where "f = nat (cfg_f c)"
  have f: "cfg_f c = int f" using assms(1) by (simp add: f_def)
  have n: "nat (cfg_n c) = 2 * f + 1" using assms(2) f by simp
  have "QuorumSize c = int (f + 1)" "FastQuorumSize c = int (f + (f + 1) div 2 + 1)"
    "merge_threshold (cfg_f c) = int ((f + 1) div 2 + 1)"
    using f by (simp_all add: QuorumSize_def FastQuorumSize_def merge_threshold_def zdiv_int)
  note sizes = this
  show ?thesis
    unfolding sizes of_nat_le_iff
    using qs.quorums_meet [of A f B] qs.fast_quorum_meets [of A f B]
      qs.one_majority [where 'a = 'r, of _ f]
      assms(3-5) unfolding n sizes of_nat_le_iff group_sizes by blast
qed

theorem quorum_sizes_witness:
  "FastQuorumSize (group_of 1) \<le> int (card {0, 1, 2 :: nat}) \<and>
   merge_threshold 1 \<le> int (card ({0, 1, 2} \<inter> {0, 1 :: nat}))"
proof -
  have "QuorumSize (group_of 1) \<le> int (card {0, 1 :: nat})"
    "FastQuorumSize (group_of 1) \<le> int (card {0, 1, 2 :: nat})"
    "cfg_f (group_of 1) = 1" "cfg_n (group_of 1) = 3"
    by (simp_all add: Configuration_of_def QuorumSize_def FastQuorumSize_def)
  then show ?thesis
    using quorum_sizes [where 'r = string, of "group_of 1" "{0, 1, 2}" "{0, 1}"]
    by (simp add: lessThan_nat_numeral lessThan_Suc)
qed

end
