(* ===== verification/IR_Record.thy ===== *)
theory IR_Record
  imports Replication_Base
begin

text \<open>
  The record of an inconsistent-replication replica, \<^verbatim>\<open>replication/ir/record.cc\<close>: a
  \<^verbatim>\<open>std::map\<close> from operation ids to entries, with its protobuf form.
\<close>

declare split_paired_All [simp del] split_paired_Ex [simp del]

section \<open>Entries\<close>

type_synonym opid_t = "u64 \<times> u64"

datatype RecordEntryState = RECORD_STATE_TENTATIVE | RECORD_STATE_FINALIZED

datatype RecordEntryType = RECORD_TYPE_INCONSISTENT | RECORD_TYPE_CONSENSUS

record RecordEntry =
  re_view :: view_t
  re_opid :: opid_t
  re_state :: RecordEntryState
  re_type :: RecordEntryType
  re_request :: OpRequest
  re_result :: string

type_synonym Record = "(opid_t \<times> RecordEntry) list"

section \<open>Operations\<close>

definition Record_Add_entry :: "Record \<Rightarrow> RecordEntry \<Rightarrow> Record outcome" where
  "Record_Add_entry r entry =
     obind (assert_that (map_of r (re_opid entry) = None) ''entries.count(entry.opid) == 0'') (\<lambda>_.
       Inr (omap_put (re_opid entry) entry r))"

definition Record_Add_empty ::
  "Record \<Rightarrow> view_t \<Rightarrow> opid_t \<Rightarrow> OpRequest \<Rightarrow> RecordEntryState \<Rightarrow> RecordEntryType \<Rightarrow> Record outcome" where
  "Record_Add_empty r view opid request st type =
     Record_Add_entry r \<lparr>re_view = view, re_opid = opid, re_state = st, re_type = type,
       re_request = request, re_result = ''''\<rparr>"

text \<open>The overload with a result writes it through the reference to the entry just added.\<close>

definition Record_Add ::
  "Record \<Rightarrow> view_t \<Rightarrow> opid_t \<Rightarrow> OpRequest \<Rightarrow> RecordEntryState \<Rightarrow> RecordEntryType \<Rightarrow> string
    \<Rightarrow> Record outcome" where
  "Record_Add r view opid request st type result =
     obind (Record_Add_empty r view opid request st type) (\<lambda>r'.
       case map_of r' opid of
         None \<Rightarrow> Inl (Undefined ''dangling reference'')
       | Some e \<Rightarrow> Inr (omap_put opid (e\<lparr>re_result := result\<rparr>) r'))"

definition Record_Find :: "Record \<Rightarrow> opid_t \<Rightarrow> RecordEntry option outcome" where
  "Record_Find r opid =
     (case map_of r opid of
        None \<Rightarrow> Inr None
      | Some e \<Rightarrow> obind (assert_that (re_opid e = opid) ''entry->opid == opid'') (\<lambda>_. Inr (Some e)))"

definition Record_SetStatus :: "Record \<Rightarrow> opid_t \<Rightarrow> RecordEntryState \<Rightarrow> (bool \<times> Record) outcome" where
  "Record_SetStatus r opid st =
     obind (Record_Find r opid) (\<lambda>f.
       case f of None \<Rightarrow> Inr (False, r) | Some e \<Rightarrow> Inr (True, omap_put opid (e\<lparr>re_state := st\<rparr>) r))"

definition Record_SetResult :: "Record \<Rightarrow> opid_t \<Rightarrow> string \<Rightarrow> (bool \<times> Record) outcome" where
  "Record_SetResult r opid result =
     obind (Record_Find r opid) (\<lambda>f.
       case f of None \<Rightarrow> Inr (False, r) | Some e \<Rightarrow> Inr (True, omap_put opid (e\<lparr>re_result := result\<rparr>) r))"

definition Record_SetRequest :: "Record \<Rightarrow> opid_t \<Rightarrow> OpRequest \<Rightarrow> (bool \<times> Record) outcome" where
  "Record_SetRequest r opid req =
     obind (Record_Find r opid) (\<lambda>f.
       case f of None \<Rightarrow> Inr (False, r) | Some e \<Rightarrow> Inr (True, omap_put opid (e\<lparr>re_request := req\<rparr>) r))"

definition Record_Remove :: "Record \<Rightarrow> opid_t \<Rightarrow> Record" where
  "Record_Remove r opid = omap_del opid r"

definition Record_Empty :: "Record \<Rightarrow> bool" where
  "Record_Empty r \<longleftrightarrow> r = []"

record RecordEntryProto =
  pe_view :: view_t
  pe_opid :: opid_t
  pe_state :: RecordEntryState
  pe_type :: RecordEntryType
  pe_op :: string
  pe_result :: string

type_synonym RecordProto = "RecordEntryProto list"

definition ToProto :: "Record \<Rightarrow> RecordProto" where
  "ToProto r =
     map (\<lambda>(opid, e). \<lparr>pe_view = re_view e, pe_opid = re_opid e, pe_state = re_state e,
            pe_type = re_type e, pe_op = rop (re_request e), pe_result = re_result e\<rparr>) r"

fun Record_add_protos :: "Record \<Rightarrow> RecordProto \<Rightarrow> Record outcome" where
  "Record_add_protos r [] = Inr r"
| "Record_add_protos r (p # ps) =
     obind (Record_Add r (pe_view p) (pe_opid p)
              \<lparr>rop = pe_op p, clientid = fst (pe_opid p), clientreqid = snd (pe_opid p)\<rparr>
              (pe_state p) (pe_type p) (pe_result p))
       (\<lambda>r'. Record_add_protos r' ps)"

definition Record_of_proto :: "RecordProto \<Rightarrow> Record outcome" where
  "Record_of_proto ps = Record_add_protos [] ps"

section \<open>Well-formed records\<close>

definition entry_wf :: "opid_t \<Rightarrow> RecordEntry \<Rightarrow> bool" where
  "entry_wf opid e \<longleftrightarrow> re_opid e = opid \<and> (clientid (re_request e), clientreqid (re_request e)) = opid"

definition record_wf :: "Record \<Rightarrow> bool" where
  "record_wf r \<longleftrightarrow> omap_wf r \<and> (\<forall>p\<in>set r. entry_wf (fst p) (snd p))"

lemma record_wf_Nil [simp, wf_intros]: "record_wf []"
  by (simp add: record_wf_def)

lemma set_omap_put: "set (omap_put k v m) \<subseteq> insert (k, v) (set m)"
  by (induction m) auto

lemma record_wf_put [wf_intros]: "record_wf r \<Longrightarrow> entry_wf opid e \<Longrightarrow> record_wf (omap_put opid e r)"
  using set_omap_put [of opid e r] by (auto simp: record_wf_def)

lemma record_wfD: "record_wf r \<Longrightarrow> map_of r opid = Some e \<Longrightarrow> entry_wf opid e"
  using map_of_SomeD [of r opid e] by (force simp: record_wf_def)

lemma record_wf_Find: "record_wf r \<Longrightarrow> Record_Find r opid = Inr (map_of r opid)"
  using record_wfD [of r opid] by (auto simp: entry_wf_def Record_Find_def split: option.splits)

lemma omap_put_twice: "omap_wf m \<Longrightarrow> omap_put k v (omap_put k w m) = omap_put k v m"
  by (induction m) (auto simp: omap_wf_def)

lemma Record_Add_eq:
  assumes "record_wf r"
  shows "Record_Add r view opid req st type result =
    (if map_of r opid = None
     then Inr (omap_put opid \<lparr>re_view = view, re_opid = opid, re_state = st, re_type = type,
                 re_request = req, re_result = result\<rparr> r)
     else Inl (AssertFail ''entries.count(entry.opid) == 0''))"
  using assms
  by (simp add: Record_Add_def Record_Add_empty_def Record_Add_entry_def record_wf_def omap_put_twice)

lemma omap_put_snoc: "\<forall>p\<in>set m. fst p < k \<Longrightarrow> omap_put k v m = m @ [(k, v)]"
  by (induction m) auto

lemma entry_rebuild:
  "entry_wf opid e \<Longrightarrow>
   \<lparr>re_view = re_view e, re_opid = opid, re_state = re_state e, re_type = re_type e,
     re_request = \<lparr>rop = rop (re_request e), clientid = fst opid, clientreqid = snd opid\<rparr>,
     re_result = re_result e\<rparr> = e"
  by (cases e; cases "re_request e") (auto simp: entry_wf_def)

lemma Record_add_protos_append:
  assumes "record_wf (r @ s)"
  shows "Record_add_protos r (ToProto s) = Inr (r @ s)"
  using assms
proof (induction s arbitrary: r)
  case (Cons p s)
  obtain opid e where p: "p = (opid, e)" by (cases p)
  have lt: "\<forall>q\<in>set r. fst q < opid"
    using Cons.prems by (auto simp: p record_wf_def omap_wf_def sorted_wrt_append)
  then have none: "map_of r opid = None" by (force simp: map_of_eq_None_iff)
  have e: "entry_wf opid e" and wf: "record_wf r"
    using Cons.prems by (simp_all add: p record_wf_def omap_wf_def sorted_wrt_append)
  have "Record_add_protos r (ToProto (p # s)) = Record_add_protos (r @ [p]) (ToProto s)"
    using none lt e entry_rebuild [OF e]
    by (simp add: ToProto_def p Record_Add_eq [OF wf] omap_put_snoc entry_wf_def)
  then show ?case using Cons.IH [of "r @ [p]"] Cons.prems by simp
qed (simp add: ToProto_def)

text \<open>
  A record survives the trip over the network: rebuilding a well-formed record from its
  protobuf form gives the same record, and no duplicate assertion fails on the way.
\<close>

theorem record_proto_roundtrip:
  assumes "record_wf r"
  shows "Record_of_proto (ToProto r) = Inr r"
  using Record_add_protos_append [of "[]" r] assms by (simp add: Record_of_proto_def)

definition ex_entry :: "u64 \<Rightarrow> RecordEntryState \<Rightarrow> string \<Rightarrow> RecordEntry" where
  "ex_entry n st res = \<lparr>re_view = 0, re_opid = (1, n), re_state = st, re_type = RECORD_TYPE_CONSENSUS,
     re_request = \<lparr>rop = ''op'', clientid = 1, clientreqid = n\<rparr>, re_result = res\<rparr>"

theorem record_proto_roundtrip_witness:
  "Record_of_proto (ToProto [((1, 1), ex_entry 1 RECORD_STATE_TENTATIVE ''a''),
      ((1, 2), ex_entry 2 RECORD_STATE_FINALIZED ''b'')]) =
   Inr [((1, 1), ex_entry 1 RECORD_STATE_TENTATIVE ''a''), ((1, 2), ex_entry 2 RECORD_STATE_FINALIZED ''b'')]"
  by (rule record_proto_roundtrip)
    (auto simp: record_wf_def omap_wf_def entry_wf_def ex_entry_def split: if_splits)

end
