(* ===== verification/IR_Replica.thy ===== *)
theory IR_Replica
  imports IR_Record
begin

text \<open>
  The inconsistent-replication replica of \<^verbatim>\<open>replication/ir/replica.cc\<close>: the handlers for the
  inconsistent and the consensus operations, the view change, and the merge of records
  (\<^verbatim>\<open>IrMergeRecords\<close>). A handler takes the replica and a message and returns the new replica and
  what it sends, in order. The application above the replica (\<^verbatim>\<open>IRAppReplica\<close>, an interface) is the
  record of functions \<open>'s IRApp\<close> over its state \<open>'s\<close>. Messages are modelled at the level of their
  protobuf fields, and so is the persistent register, which holds a \<^verbatim>\<open>PersistedViewInfo\<close>.
\<close>

section \<open>Types\<close>

type_synonym opmap = "(opid_t \<times> RecordEntry list) list"

record 's IRApp =
  ExecInconsistentUpcall :: "'s \<Rightarrow> string \<Rightarrow> 's outcome"
  ExecConsensusUpcall :: "'s \<Rightarrow> string \<Rightarrow> (string \<times> 's) outcome"
  UnloggedUpcall :: "'s \<Rightarrow> string \<Rightarrow> (string \<times> 's) outcome"
  Sync :: "'s \<Rightarrow> Record \<Rightarrow> 's outcome"
  Merge :: "'s \<Rightarrow> opmap \<Rightarrow> opmap \<Rightarrow> (opid_t \<times> string) list \<Rightarrow> ((opid_t \<times> string) list \<times> 's) outcome"


record DoViewChangeMessage =
  dv_replicaidx :: int
  dv_record :: "RecordProto option"
  dv_new_view :: view_t
  dv_latest_normal_view :: view_t

datatype IRMessage =
    ProposeInconsistent OpRequest
  | FinalizeInconsistent opid_t
  | ProposeConsensus OpRequest
  | FinalizeConsensus opid_t string
  | DoViewChange DoViewChangeMessage
  | StartView RecordProto view_t
  | UnloggedRequest OpRequest
  | ReplyInconsistent view_t int opid_t bool
  | ReplyConsensus view_t int opid_t string bool
  | Confirm view_t int opid_t
  | UnloggedReply string u64
  | OtherMessage string

datatype ir_out =
    ToSender IRMessage
  | ToReplica int IRMessage
  | ToAll IRMessage
  | ResetViewChangeTimer

record 's IRReplica =
  ir_config :: Configuration
  myIdx :: int
  ir_status :: ReplicaStatus
  ir_view :: view_t
  latest_normal_view :: view_t
  persistent_view_info :: "(view_t \<times> view_t) option"
  ir_record :: Record
  do_view_change_quorum :: "(view_t, DoViewChangeMessage) QuorumSet"
  ir_app :: 's

section \<open>View information and broadcast\<close>

definition PersistViewInfo :: "'s IRReplica \<Rightarrow> 's IRReplica" where
  "PersistViewInfo r = r\<lparr>persistent_view_info := Some (ir_view r, latest_normal_view r)\<rparr>"

definition RecoverViewInfo :: "'s IRReplica \<Rightarrow> view_t \<times> view_t \<Rightarrow> 's IRReplica" where
  "RecoverViewInfo r info = r\<lparr>ir_view := fst info, latest_normal_view := snd info\<rparr>"

definition BroadcastDoViewChangeMessages :: "'s IRReplica \<Rightarrow> ir_out list" where
  "BroadcastDoViewChangeMessages r =
     (let msg = \<lparr>dv_replicaidx = myIdx r, dv_record = None, dv_new_view = ir_view r,
                 dv_latest_normal_view = latest_normal_view r\<rparr>;
          leader_idx = GetLeaderIndex (ir_config r) (ir_view r)
      in map (\<lambda>i. ToReplica i (DoViewChange msg))
           (filter (\<lambda>i. \<not> (i = myIdx r \<or> i = leader_idx)) [0 .. cfg_n (ir_config r) - 1]) @
         (if leader_idx \<noteq> myIdx r
          then [ToReplica leader_idx (DoViewChange (msg\<lparr>dv_record := Some (ToProto (ir_record r))\<rparr>))]
          else []))"

text \<open>The constructor, given the content of the persistent register (\<open>None\<close>: never initialised).\<close>

definition IRReplica_new ::
  "Configuration \<Rightarrow> int \<Rightarrow> 's \<Rightarrow> (view_t \<times> view_t) option \<Rightarrow> 's IRReplica \<times> ir_out list" where
  "IRReplica_new config idx a stored =
     (let r = \<lparr>ir_config = config, myIdx = idx, ir_status = STATUS_NORMAL, ir_view = 0,
               latest_normal_view = 0, persistent_view_info = stored, ir_record = [],
               do_view_change_quorum = QuorumSet_new (cfg_f config), ir_app = a\<rparr>
      in case stored of
           Some info \<Rightarrow>
             (let r1 = RecoverViewInfo (r\<lparr>ir_status := STATUS_RECOVERING\<rparr>) info;
                  r2 = r1\<lparr>ir_view := ir_view r1 + 1\<rparr>;
                  r3 = (if idx = GetLeaderIndex config (ir_view r2) then r2\<lparr>ir_view := ir_view r2 + 1\<rparr> else r2);
                  r4 = PersistViewInfo r3
              in (r4, BroadcastDoViewChangeMessages r4))
         | None \<Rightarrow> (PersistViewInfo r, []))"

section \<open>Operation handlers\<close>

definition HandleProposeInconsistent ::
  "'s IRReplica \<Rightarrow> OpRequest \<Rightarrow> ('s IRReplica \<times> ir_out list) outcome" where
  "HandleProposeInconsistent r req =
     (let opid = (clientid req, clientreqid req) in
      obind (Record_Find (ir_record r) opid) (\<lambda>entry.
        case entry of
          Some e \<Rightarrow>
            Inr (r, [ToSender (ReplyInconsistent (re_view e) (myIdx r) opid
                                 (re_state e = RECORD_STATE_FINALIZED))])
        | None \<Rightarrow>
            obind (Record_Add_empty (ir_record r) (ir_view r) opid req RECORD_STATE_TENTATIVE
                     RECORD_TYPE_INCONSISTENT) (\<lambda>rec.
              Inr (r\<lparr>ir_record := rec\<rparr>, [ToSender (ReplyInconsistent (ir_view r) (myIdx r) opid False)]))))"

definition HandleFinalizeInconsistent ::
  "'s IRApp \<Rightarrow> 's IRReplica \<Rightarrow> opid_t \<Rightarrow> ('s IRReplica \<times> ir_out list) outcome" where
  "HandleFinalizeInconsistent app r opid =
     obind (Record_Find (ir_record r) opid) (\<lambda>entry.
       case entry of
         None \<Rightarrow> Inr (r, [])
       | Some e \<Rightarrow>
           if re_state e = RECORD_STATE_TENTATIVE then
             obind (Record_SetStatus (ir_record r) opid RECORD_STATE_FINALIZED) (\<lambda>(ok, rec).
               obind (ExecInconsistentUpcall app (ir_app r) (rop (re_request e))) (\<lambda>a.
                 Inr (r\<lparr>ir_record := rec, ir_app := a\<rparr>,
                      [ToSender (Confirm (ir_view r) (myIdx r) opid)])))
           else Inr (r, []))"

definition HandleProposeConsensus ::
  "'s IRApp \<Rightarrow> 's IRReplica \<Rightarrow> OpRequest \<Rightarrow> ('s IRReplica \<times> ir_out list) outcome" where
  "HandleProposeConsensus app r req =
     (let opid = (clientid req, clientreqid req) in
      obind (Record_Find (ir_record r) opid) (\<lambda>entry.
        case entry of
          Some e \<Rightarrow>
            Inr (r, [ToSender (ReplyConsensus (re_view e) (myIdx r) opid (re_result e)
                                 (re_state e = RECORD_STATE_FINALIZED))])
        | None \<Rightarrow>
            obind (ExecConsensusUpcall app (ir_app r) (rop req)) (\<lambda>(result, a).
              obind (Record_Add (ir_record r) (ir_view r) opid req RECORD_STATE_TENTATIVE
                       RECORD_TYPE_CONSENSUS result) (\<lambda>rec.
                Inr (r\<lparr>ir_record := rec, ir_app := a\<rparr>,
                     [ToSender (ReplyConsensus (ir_view r) (myIdx r) opid result False)])))))"

definition HandleFinalizeConsensus ::
  "'s IRReplica \<Rightarrow> opid_t \<Rightarrow> string \<Rightarrow> ('s IRReplica \<times> ir_out list) outcome" where
  "HandleFinalizeConsensus r opid result =
     obind (Record_Find (ir_record r) opid) (\<lambda>entry.
       case entry of
         None \<Rightarrow> Inr (r, [])
       | Some e \<Rightarrow>
           obind (Record_SetStatus (ir_record r) opid RECORD_STATE_FINALIZED) (\<lambda>(ok, rec).
             let rec' = (if result \<noteq> re_result e
                         then omap_put opid (e\<lparr>re_state := RECORD_STATE_FINALIZED, re_result := result\<rparr>) rec
                         else rec)
             in Inr (r\<lparr>ir_record := rec'\<rparr>, [ToSender (Confirm (ir_view r) (myIdx r) opid)])))"

definition HandleUnlogged ::
  "'s IRApp \<Rightarrow> 's IRReplica \<Rightarrow> OpRequest \<Rightarrow> ('s IRReplica \<times> ir_out list) outcome" where
  "HandleUnlogged app r req =
     obind (UnloggedUpcall app (ir_app r) (rop req)) (\<lambda>(res, a).
       Inr (r\<lparr>ir_app := a\<rparr>, [ToSender (UnloggedReply res (clientreqid req))]))"

section \<open>Merging records\<close>

fun latest_records :: "view_t \<Rightarrow> (int \<times> DoViewChangeMessage) list \<Rightarrow> Record list outcome" where
  "latest_records v [] = Inr []"
| "latest_records v ((i, msg) # ms) =
     (if dv_latest_normal_view msg = v then
        (case dv_record msg of
           None \<Rightarrow> Inl (AssertFail ''msg.has_record()'')
         | Some p \<Rightarrow>
             obind (Record_of_proto p) (\<lambda>rec.
               obind (latest_records v ms) (\<lambda>rs. Inr (rec # rs))))
      else latest_records v ms)"

text \<open>
  One entry of one of the records, added to \<open>R\<close> or grouped under its id. The last assertion of the
  code cannot fail: an entry that is neither inconsistent nor finalized is a tentative consensus entry.
\<close>

definition group_entry :: "opid_t \<times> RecordEntry \<Rightarrow> Record \<times> opmap \<Rightarrow> (Record \<times> opmap) outcome" where
  "group_entry p acc =
     (let (opid, entry) = p; (R, groups) = acc in
      obind (assert_that (opid = re_opid entry) ''opid == entry.opid'') (\<lambda>_.
        obind (Record_Find R opid) (\<lambda>found.
          if re_type entry = RECORD_TYPE_INCONSISTENT then
            (if found = None then obind (Record_Add_entry R entry) (\<lambda>R'. Inr (R', groups))
             else Inr (R, groups))
          else if re_state entry = RECORD_STATE_FINALIZED then
            (if found = None
             then obind (Record_Add_entry R entry) (\<lambda>R'. Inr (R', omap_del opid groups))
             else Inr (R, omap_del opid groups))
          else if map_of R (re_opid entry) = None
          then Inr (R, omap_put (re_opid entry)
                         ((case map_of groups (re_opid entry) of None \<Rightarrow> [] | Some es \<Rightarrow> es) @ [entry]) groups)
          else Inr (R, groups))))"

fun group_entries :: "(opid_t \<times> RecordEntry) list \<Rightarrow> Record \<times> opmap \<Rightarrow> (Record \<times> opmap) outcome" where
  "group_entries [] acc = Inr acc"
| "group_entries (p # ps) acc = obind (group_entry p acc) (group_entries ps)"

text \<open>The first result, in the order of the results, that occurs often enough.\<close>

definition majority_result :: "int \<Rightarrow> RecordEntry list \<Rightarrow> string option" where
  "majority_result f es =
     map_option fst (find (\<lambda>c. int (snd c) \<ge> merge_threshold f) (tally (map re_result es) []))"

fun build_d_u :: "int \<Rightarrow> opmap \<Rightarrow> opmap \<times> opmap \<times> (opid_t \<times> string) list" where
  "build_d_u f [] = ([], [], [])"
| "build_d_u f ((opid, es) # gs) =
     (let (d, u, maj) = build_d_u f gs in
      case majority_result f es of
        Some res \<Rightarrow> (omap_put opid es d, u, omap_put opid res maj)
      | None \<Rightarrow> (d, omap_put opid es u, maj))"

fun merged_record :: "view_t \<Rightarrow> opmap \<Rightarrow> (opid_t \<times> string) list \<Rightarrow> Record \<Rightarrow> Record outcome" where
  "merged_record v groups [] m = Inr m"
| "merged_record v groups ((opid, result) # rs) m =
     (case (case map_of groups opid of None \<Rightarrow> [] | Some es \<Rightarrow> es) of
        [] \<Rightarrow> Inl (Undefined ''entries[0] of an empty vector'')
      | entry # _ \<Rightarrow>
          obind (Record_Add m v opid (re_request entry) RECORD_STATE_FINALIZED (re_type entry) result)
            (merged_record v groups rs))"

fun add_all :: "Record \<Rightarrow> (opid_t \<times> RecordEntry) list \<Rightarrow> Record outcome" where
  "add_all R [] = Inr R"
| "add_all R (p # ps) = obind (Record_Add_entry R (snd p)) (\<lambda>R'. add_all R' ps)"

definition max_normal_view :: "view_t \<Rightarrow> (int \<times> DoViewChangeMessage) list \<Rightarrow> view_t" where
  "max_normal_view v ms = foldl (\<lambda>m p. max m (dv_latest_normal_view (snd p))) v ms"

text \<open>
  \<^verbatim>\<open>IrMergeRecords\<close> after the records have been collected: group, build \<open>d\<close> and \<open>u\<close>, run the
  application's \<^verbatim>\<open>Sync\<close> and \<^verbatim>\<open>Merge\<close>, check its answer and assemble the new record.
\<close>

definition merge_records ::
  "'s IRApp \<Rightarrow> int \<Rightarrow> view_t \<Rightarrow> (int \<times> DoViewChangeMessage) list \<Rightarrow> Record list \<Rightarrow> 's
    \<Rightarrow> (Record \<times> 's) outcome" where
  "merge_records app f v ms recs a =
     obind (group_entries (concat recs) ([], [])) (\<lambda>(R, groups).
       let (d, u, maj) = build_d_u f groups in
       obind (Sync app a R) (\<lambda>a1.
         obind (Merge app a1 d u maj) (\<lambda>(results, a2).
           obind (assert_that (length results = length d + length u) ''results_by_opid.size() == d.size() + u.size()'') (\<lambda>_.
             obind (assert_that (\<forall>p\<in>set results. (if map_of d (fst p) = None then 0 else 1) +
                        (if map_of u (fst p) = None then 0 else 1) = (1::nat))
                      ''d.count(opid) + u.count(opid) == 1'') (\<lambda>_.
               obind (assert_that (results = [] \<or> ms \<noteq> []) ''records.size() > 0'') (\<lambda>_.
                 obind (merged_record v groups results []) (\<lambda>merged.
                   obind (add_all R merged) (\<lambda>R'. Inr (R', a2)))))))))"

definition IrMergeRecords ::
  "'s IRApp \<Rightarrow> 's IRReplica \<Rightarrow> (int \<times> DoViewChangeMessage) list \<Rightarrow> (Record \<times> 's) outcome" where
  "IrMergeRecords app r ms =
     (let mv = max_normal_view (latest_normal_view r) ms in
      obind (latest_records mv ms) (\<lambda>recs.
        merge_records app (cfg_f (ir_config r)) (ir_view r) ms
          (if latest_normal_view r = mv then recs @ [ir_record r] else recs) (ir_app r)))"

section \<open>View change handlers\<close>

text \<open>The part of \<^verbatim>\<open>HandleDoViewChange\<close> that joins the view, before the leader's part.\<close>

definition join_view :: "'s IRReplica \<Rightarrow> view_t \<Rightarrow> 's IRReplica \<times> ir_out list" where
  "join_view r new_view =
     (let r1 = PersistViewInfo (r\<lparr>ir_view := new_view\<rparr>);
          r2 = (if ir_status r1 = STATUS_NORMAL then r1\<lparr>ir_status := STATUS_VIEW_CHANGE\<rparr> else r1)
      in (r2, BroadcastDoViewChangeMessages r2 @ [ResetViewChangeTimer]))"

definition lead_view_change ::
  "'s IRApp \<Rightarrow> 's IRReplica \<Rightarrow> ir_out list \<Rightarrow> DoViewChangeMessage \<Rightarrow> ('s IRReplica \<times> ir_out list) outcome" where
  "lead_view_change app r out msg =
     (if myIdx r \<noteq> GetLeaderIndex (ir_config r) (ir_view r) then Inr (r, out)
      else
        obind (assert_that (dv_record msg \<noteq> None) ''msg.has_record()'') (\<lambda>_.
          let (quorum, q) = AddAndCheckForQuorum (do_view_change_quorum r) (dv_new_view msg)
                              (dv_replicaidx msg) msg;
              r1 = r\<lparr>do_view_change_quorum := q\<rparr>
          in case quorum of
               None \<Rightarrow> Inr (r1, out)
             | Some ms \<Rightarrow>
                 obind (IrMergeRecords app r1 ms) (\<lambda>(rec, a).
                   let r2 = PersistViewInfo (r1\<lparr>ir_record := rec, ir_app := a, ir_status := STATUS_NORMAL,
                                                ir_view := dv_new_view msg,
                                                latest_normal_view := dv_new_view msg\<rparr>)
                   in Inr (r2, out @ [ToAll (StartView (ToProto rec) (ir_view r2))]))))"

definition HandleDoViewChange ::
  "'s IRApp \<Rightarrow> 's IRReplica \<Rightarrow> DoViewChangeMessage \<Rightarrow> ('s IRReplica \<times> ir_out list) outcome" where
  "HandleDoViewChange app r msg =
     (if dv_new_view msg < ir_view r then Inr (r, [])
      else if dv_new_view msg = ir_view r then
        (if ir_status r = STATUS_NORMAL then Inr (r, []) else lead_view_change app r [] msg)
      else
        let (r1, out) = join_view r (dv_new_view msg) in lead_view_change app r1 out msg)"

definition HandleStartView ::
  "'s IRApp \<Rightarrow> 's IRReplica \<Rightarrow> RecordProto \<Rightarrow> view_t \<Rightarrow> ('s IRReplica \<times> ir_out list) outcome" where
  "HandleStartView app r rec new_view =
     obind (assert_that (myIdx r \<noteq> GetLeaderIndex (ir_config r) new_view) ''not the leader'') (\<lambda>_.
       if new_view < ir_view r then Inr (r, [])
       else if new_view = ir_view r \<and> ir_status r = STATUS_NORMAL then Inr (r, [])
       else
         obind (Record_of_proto rec) (\<lambda>rec'.
           obind (Sync app (ir_app r) rec') (\<lambda>a.
             Inr (PersistViewInfo (r\<lparr>ir_record := rec', ir_app := a, ir_status := STATUS_NORMAL,
                                     ir_view := new_view, latest_normal_view := new_view\<rparr>), []))))"

definition HandleViewChangeTimeout :: "'s IRReplica \<Rightarrow> 's IRReplica \<times> ir_out list" where
  "HandleViewChangeTimeout r =
     (let r1 = (if ir_status r = STATUS_NORMAL then r\<lparr>ir_status := STATUS_VIEW_CHANGE\<rparr> else r);
          r2 = PersistViewInfo (r1\<lparr>ir_view := ir_view r1 + 1\<rparr>)
      in (r2, BroadcastDoViewChangeMessages r2))"

definition IR_HandleMessage ::
  "'s IRApp \<Rightarrow> 's IRReplica \<Rightarrow> IRMessage \<Rightarrow> ('s IRReplica \<times> ir_out list) outcome" where
  "IR_HandleMessage app r m =
     (case m of
        ProposeInconsistent req \<Rightarrow> HandleProposeInconsistent r req
      | FinalizeInconsistent opid \<Rightarrow> HandleFinalizeInconsistent app r opid
      | ProposeConsensus req \<Rightarrow> HandleProposeConsensus app r req
      | FinalizeConsensus opid result \<Rightarrow> HandleFinalizeConsensus r opid result
      | DoViewChange msg \<Rightarrow> HandleDoViewChange app r msg
      | StartView rec v \<Rightarrow> HandleStartView app r rec v
      | UnloggedRequest req \<Rightarrow> HandleUnlogged app r req
      | _ \<Rightarrow> Inl (Panicked ''Received unexpected message type in IR proto''))"

section \<open>What the grouping computes for one operation\<close>

text \<open>
  \<open>merge_step\<close> is the effect of one entry for an operation on what \<open>R\<close> and the groups hold for
  that operation; the loop is its iteration over the operation's entries (\<open>group_entries_at\<close>).
\<close>

fun merge_step ::
  "RecordEntry option \<times> RecordEntry list option \<Rightarrow> RecordEntry \<Rightarrow> RecordEntry option \<times> RecordEntry list option"
where
  "merge_step (r, g) e =
     (if re_type e = RECORD_TYPE_INCONSISTENT then (if r = None then Some e else r, g)
      else if re_state e = RECORD_STATE_FINALIZED then (if r = None then Some e else r, None)
      else if r = None then (r, Some ((case g of None \<Rightarrow> [] | Some es \<Rightarrow> es) @ [e]))
      else (r, g))"

definition entries_of :: "opid_t \<Rightarrow> (opid_t \<times> RecordEntry) list \<Rightarrow> RecordEntry list" where
  "entries_of k ps = map snd (filter (\<lambda>p. fst p = k) ps)"

lemma entries_of_simps [simp]:
  "entries_of k [] = []"
  "entries_of k (p # ps) = (if fst p = k then snd p # entries_of k ps else entries_of k ps)"
  "entries_of k (ps @ qs) = entries_of k ps @ entries_of k qs"
  by (simp_all add: entries_of_def)

definition maps_ok :: "Record \<times> opmap \<Rightarrow> bool" where
  "maps_ok acc \<longleftrightarrow> omap_wf (fst acc) \<and> omap_wf (snd acc) \<and> (\<forall>p\<in>set (fst acc). re_opid (snd p) = fst p)"

lemma maps_ok_Find: "maps_ok (R, G) \<Longrightarrow> Record_Find R k = Inr (map_of R k)"
  using map_of_SomeD [of R k] by (force simp: maps_ok_def Record_Find_def split: option.splits)

lemma maps_ok_add: "maps_ok (R, G) \<Longrightarrow> re_opid e = k \<Longrightarrow> maps_ok (omap_put k e R, G)"
  using set_omap_put [of k e R] by (auto simp: maps_ok_def)

lemma group_entry_step:
  assumes ok: "maps_ok (R, G)" and "fst p = re_opid (snd p)"
  obtains R' G' where "group_entry p (R, G) = Inr (R', G')" and "maps_ok (R', G')"
    and "(map_of R' (fst p), map_of G' (fst p)) = merge_step (map_of R (fst p), map_of G (fst p)) (snd p)"
    and "\<And>k. k \<noteq> fst p \<Longrightarrow> map_of R' k = map_of R k \<and> map_of G' k = map_of G k"
proof -
  obtain e where p: "p = (re_opid e, e)" using assms(2) by (cases p) auto
  let ?k = "re_opid e"
  have wf: "omap_wf R" "omap_wf G" using ok by (simp_all add: maps_ok_def)
  note find = maps_ok_Find [OF ok]
  let ?R' = "if map_of R ?k = None \<and> (re_type e = RECORD_TYPE_INCONSISTENT \<or>
      re_state e = RECORD_STATE_FINALIZED) then omap_put ?k e R else R"
  let ?G' = "if re_type e = RECORD_TYPE_INCONSISTENT then G
    else if re_state e = RECORD_STATE_FINALIZED then omap_del ?k G
    else if map_of R ?k = None
    then omap_put ?k ((case map_of G ?k of None \<Rightarrow> [] | Some es \<Rightarrow> es) @ [e]) G else G"
  have "group_entry p (R, G) = Inr (?R', ?G')"
    by (auto simp: group_entry_def p find Record_Add_entry_def)
  moreover have "maps_ok (?R', ?G')"
    using ok maps_ok_add [OF ok, of e ?k] by (auto simp: maps_ok_def)
  moreover have "(map_of ?R' (fst p), map_of ?G' (fst p)) =
      merge_step (map_of R (fst p), map_of G (fst p)) (snd p)"
    using wf by (auto simp: p split: option.splits)
  moreover have "\<And>k. k \<noteq> fst p \<Longrightarrow> map_of ?R' k = map_of R k \<and> map_of ?G' k = map_of G k"
    using wf by (simp add: p)
  ultimately show ?thesis using that by blast
qed

lemma group_entries_at:
  assumes "maps_ok (R, G)" and "\<forall>p\<in>set ps. fst p = re_opid (snd p)"
  shows "\<exists>R' G'. group_entries ps (R, G) = Inr (R', G') \<and> maps_ok (R', G') \<and>
    (\<forall>k. (map_of R' k, map_of G' k) = foldl merge_step (map_of R k, map_of G k) (entries_of k ps))"
  using assms
proof (induction ps arbitrary: R G)
  case (Cons p ps)
  obtain R1 G1 where step: "group_entry p (R, G) = Inr (R1, G1)" "maps_ok (R1, G1)"
    "(map_of R1 (fst p), map_of G1 (fst p)) = merge_step (map_of R (fst p), map_of G (fst p)) (snd p)"
    "\<And>k. k \<noteq> fst p \<Longrightarrow> map_of R1 k = map_of R k \<and> map_of G1 k = map_of G k"
    using group_entry_step [OF Cons.prems(1), of p] Cons.prems(2) by auto
  obtain R' G' where rest: "group_entries ps (R1, G1) = Inr (R', G')" "maps_ok (R', G')"
    "\<forall>k. (map_of R' k, map_of G' k) = foldl merge_step (map_of R1 k, map_of G1 k) (entries_of k ps)"
    using Cons.IH [OF step(2)] Cons.prems(2) by auto
  have "(map_of R' k, map_of G' k) = foldl merge_step (map_of R k, map_of G k) (entries_of k (p # ps))" for k
    using spec [OF rest(3), of k] step(3) step(4) [of k] by (cases "k = fst p") simp_all
  then show ?case using step(1) rest(1,2) by auto
qed simp

definition tentative_consensus :: "RecordEntry \<Rightarrow> bool" where
  "tentative_consensus e \<longleftrightarrow> re_type e = RECORD_TYPE_CONSENSUS \<and> re_state e = RECORD_STATE_TENTATIVE"

lemma not_tentative_consensus:
  "\<not> tentative_consensus e \<longleftrightarrow> re_type e = RECORD_TYPE_INCONSISTENT \<or> re_state e = RECORD_STATE_FINALIZED"
  by (cases "re_type e"; cases "re_state e") (simp_all add: tentative_consensus_def)

lemma merge_tentative:
  "\<forall>e\<in>set es. tentative_consensus e \<Longrightarrow>
   foldl merge_step (None, Some gs) es = (None, Some (gs @ es))"
  by (induction es arbitrary: gs) (auto simp: tentative_consensus_def)

lemma merge_all_tentative:
  "es \<noteq> [] \<Longrightarrow> \<forall>e\<in>set es. tentative_consensus e \<Longrightarrow> foldl merge_step (None, None) es = (None, Some es)"
  by (cases es) (auto simp: tentative_consensus_def merge_tentative [unfolded tentative_consensus_def])

lemma merge_found:
  "\<forall>e\<in>set es. re_type e = RECORD_TYPE_CONSENSUS \<Longrightarrow> foldl merge_step (Some x, None) es = (Some x, None)"
  by (induction es) auto

lemma merge_finalized:
  assumes "\<forall>e\<in>set es. re_type e = RECORD_TYPE_CONSENSUS" and "f \<in> set es"
    and "re_state f = RECORD_STATE_FINALIZED"
  shows "\<exists>x\<in>set es. re_state x = RECORD_STATE_FINALIZED \<and> foldl merge_step (None, g) es = (Some x, None)"
  using assms
proof (induction es arbitrary: g)
  case (Cons e es)
  show ?case
  proof (cases "re_state e = RECORD_STATE_FINALIZED")
    case True
    then show ?thesis using Cons.prems merge_found [of es e] by auto
  next
    case False
    then have "f \<in> set es" using Cons.prems by auto
    with Cons.IH Cons.prems False show ?thesis by auto
  qed
qed simp

section \<open>The sets d and u\<close>

lemma build_d_u_spec:
  assumes "omap_wf gs" and "build_d_u f gs = (d, u, maj)"
  shows "omap_wf d \<and> omap_wf u \<and> omap_wf maj \<and> length d + length u = length gs \<and>
    map_of d = (\<lambda>k. case map_of gs k of Some es \<Rightarrow> if majority_result f es \<noteq> None then Some es else None
                        | None \<Rightarrow> None) \<and>
    map_of u = (\<lambda>k. case map_of gs k of Some es \<Rightarrow> if majority_result f es = None then Some es else None
                        | None \<Rightarrow> None) \<and>
    map_of maj = (\<lambda>k. case map_of gs k of Some es \<Rightarrow> majority_result f es | None \<Rightarrow> None)"
  using assms
proof (induction gs arbitrary: d u maj)
  case (Cons p gs)
  obtain k0 es0 where p: "p = (k0, es0)" by (cases p)
  obtain d0 u0 m0 where rec: "build_d_u f gs = (d0, u0, m0)" by (cases "build_d_u f gs")
  have wf: "omap_wf gs" and lt: "\<forall>q\<in>set gs. k0 < fst q"
    using Cons.prems(1) by (simp_all add: omap_wf_def p)
  then have none: "map_of gs k0 = None" by (force simp: map_of_eq_None_iff)
  note IH = Cons.IH [OF wf rec]
  show ?case
  proof (cases "majority_result f es0")
    case None
    then have "d = d0" "u = omap_put k0 es0 u0" "maj = m0" using Cons.prems(2) by (simp_all add: p rec)
    with IH None none show ?thesis by (auto simp: p length_omap_put fun_eq_iff)
  next
    case (Some r)
    then have "d = omap_put k0 es0 d0" "u = u0" "maj = omap_put k0 r m0"
      using Cons.prems(2) by (simp_all add: p rec)
    with IH Some none show ?thesis by (auto simp: p length_omap_put fun_eq_iff)
  qed
qed (simp add: fun_eq_iff)

lemma majority_result_Some:
  assumes "majority_result f es = Some r"
  shows "merge_threshold f \<le> int (count_list (map re_result es) r)"
proof -
  obtain n where "find (\<lambda>c. int (snd c) \<ge> merge_threshold f) (tally (map re_result es) []) = Some (r, n)"
    using assms by (auto simp: majority_result_def)
  from find_SomeD [OF this] show ?thesis by (simp add: in_set_tally)
qed

lemma merge_threshold_pos: "0 \<le> f \<Longrightarrow> 1 \<le> merge_threshold f"
  by (simp add: merge_threshold_def)

lemma majority_result_eq:
  assumes "0 \<le> f" and "int (length es) \<le> f + 1"
    and r: "merge_threshold f \<le> int (count_list (map re_result es) r)"
  shows "majority_result f es = Some r"
proof (cases "majority_result f es")
  case None
  have "count_list (map re_result es) r \<noteq> 0" using r merge_threshold_pos [OF assms(1)] by linarith
  then have "r \<in> set (map re_result es)" by (metis count_list_0_iff)
  then have "(r, count_list (map re_result es) r) \<in> set (tally (map re_result es) [])"
    by (simp only: in_set_tally)
  with None r show ?thesis by (force simp: majority_result_def find_None_iff)
next
  case (Some r')
  define n where "n = nat f"
  have f: "f = int n" using assms(1) by (simp add: n_def)
  have t: "merge_threshold f = int ((n + 1) div 2 + 1)"
    by (simp add: f merge_threshold_def zdiv_int)
  have "r' = r"
    using qs.one_majority [of "map re_result es" n r' r] assms(2) r majority_result_Some [OF Some]
    unfolding group_sizes t of_nat_le_iff by (simp add: f)
  with Some show ?thesis by simp
qed

section \<open>The merged record\<close>

text \<open>
  An operation id is proposed either as an inconsistent or as a consensus operation, so its
  entries in the different records have one type.
\<close>

definition one_type :: "(opid_t \<times> RecordEntry) list \<Rightarrow> bool" where
  "one_type ps \<longleftrightarrow> (\<forall>p\<in>set ps. \<forall>q\<in>set ps. fst p = fst q \<longrightarrow> re_type (snd p) = re_type (snd q))"

lemma merge_inconsistent:
  "\<forall>e\<in>set es. re_type e = RECORD_TYPE_INCONSISTENT \<Longrightarrow>
   foldl merge_step (r, None) es = (if r = None then (if es = [] then None else Some (hd es)) else r, None)"
  by (induction es arbitrary: r) auto

lemma find_finalized_None:
  "find (\<lambda>e. re_state e = RECORD_STATE_FINALIZED) es = None \<longleftrightarrow>
     (\<forall>e\<in>set es. re_state e = RECORD_STATE_TENTATIVE)"
proof -
  have "re_state e \<noteq> RECORD_STATE_FINALIZED \<longleftrightarrow> re_state e = RECORD_STATE_TENTATIVE" for e
    by (cases "re_state e") simp_all
  then show ?thesis by (auto simp: find_None_iff)
qed

lemma merge_consensus:
  assumes "\<forall>e\<in>set es. re_type e = RECORD_TYPE_CONSENSUS"
  shows "foldl merge_step (None, None) es =
    (if es = [] then (None, None)
     else if \<forall>e\<in>set es. re_state e = RECORD_STATE_TENTATIVE then (None, Some es)
     else (Some (the (find (\<lambda>e. re_state e = RECORD_STATE_FINALIZED) es)), None))"
proof -
  have gen: "foldl merge_step (None, g) es =
      (case find (\<lambda>e. re_state e = RECORD_STATE_FINALIZED) es of
         Some x \<Rightarrow> (Some x, None)
       | None \<Rightarrow> (None, if es = [] then g else Some ((case g of None \<Rightarrow> [] | Some gs \<Rightarrow> gs) @ es)))" for g
    using assms
  proof (induction es arbitrary: g)
    case (Cons e es)
    then show ?case by (auto simp: merge_found split: option.splits)
  qed simp
  show ?thesis
  proof (cases "find (\<lambda>e. re_state e = RECORD_STATE_FINALIZED) es")
    case None
    then have "\<forall>e\<in>set es. re_state e = RECORD_STATE_TENTATIVE" by (simp add: find_finalized_None)
    then show ?thesis using gen [of None] None by simp
  next
    case (Some x)
    then have "x \<in> set es" "re_state x = RECORD_STATE_FINALIZED" using find_SomeD [OF Some] by simp_all
    then have "\<not> (\<forall>e\<in>set es. re_state e = RECORD_STATE_TENTATIVE)" by force
    moreover have "es \<noteq> []" using \<open>x \<in> set es\<close> by auto
    ultimately show ?thesis using gen [of None] Some by simp
  qed
qed

text \<open>The outcome of the grouping for every operation of the collected entries.\<close>

definition grouped :: "(opid_t \<times> RecordEntry) list \<Rightarrow> Record \<Rightarrow> opmap \<Rightarrow> bool" where
  "grouped ps R G \<longleftrightarrow>
     maps_ok (R, G) \<and>
     (\<forall>k. let es = entries_of k ps in
        if es = [] then map_of R k = None \<and> map_of G k = None
        else if re_type (hd es) = RECORD_TYPE_INCONSISTENT then map_of R k = Some (hd es) \<and> map_of G k = None
        else if \<forall>e\<in>set es. re_state e = RECORD_STATE_TENTATIVE then map_of R k = None \<and> map_of G k = Some es
        else map_of R k = find (\<lambda>e. re_state e = RECORD_STATE_FINALIZED) es \<and> map_of G k = None)"

lemma entries_of_mem: "e \<in> set (entries_of k ps) \<longleftrightarrow> (k, e) \<in> set ps"
  by (force simp: entries_of_def)

lemma one_type_entries:
  assumes "one_type ps" and "e \<in> set (entries_of k ps)"
  shows "re_type e = re_type (hd (entries_of k ps))"
proof -
  have "hd (entries_of k ps) \<in> set (entries_of k ps)" using assms(2) by (cases "entries_of k ps") auto
  with assms show ?thesis unfolding one_type_def entries_of_mem by (metis fst_conv snd_conv)
qed

lemma group_entries_grouped:
  assumes "\<forall>p\<in>set ps. fst p = re_opid (snd p)" and one: "one_type ps"
  shows "\<exists>R G. group_entries ps ([], []) = Inr (R, G) \<and> grouped ps R G"
proof -
  have "maps_ok ([], [])" by (simp add: maps_ok_def)
  from group_entries_at [OF this assms(1)] obtain R G where
    g: "group_entries ps ([], []) = Inr (R, G)" "maps_ok (R, G)"
    "\<And>k. (map_of R k, map_of G k) = foldl merge_step (None, None) (entries_of k ps)" by auto
  have "grouped ps R G"
    unfolding grouped_def Let_def
  proof (intro conjI allI)
    fix k
    let ?es = "entries_of k ps"
    note at = g(3) [of k]
    show "if ?es = [] then map_of R k = None \<and> map_of G k = None
        else if re_type (hd ?es) = RECORD_TYPE_INCONSISTENT
        then map_of R k = Some (hd ?es) \<and> map_of G k = None
        else if \<forall>e\<in>set ?es. re_state e = RECORD_STATE_TENTATIVE
        then map_of R k = None \<and> map_of G k = Some ?es
        else map_of R k = find (\<lambda>e. re_state e = RECORD_STATE_FINALIZED) ?es \<and> map_of G k = None"
    proof (cases "?es = []")
      case True
      then show ?thesis using at by simp
    next
      case False
      show ?thesis
      proof (cases "re_type (hd ?es)")
        case RECORD_TYPE_INCONSISTENT
        then have "\<forall>e\<in>set ?es. re_type e = RECORD_TYPE_INCONSISTENT" using one_type_entries [OF one] by simp
        from merge_inconsistent [OF this, of None] at False RECORD_TYPE_INCONSISTENT show ?thesis by simp
      next
        case RECORD_TYPE_CONSENSUS
        then have c: "\<forall>e\<in>set ?es. re_type e = RECORD_TYPE_CONSENSUS" using one_type_entries [OF one] by simp
        show ?thesis
        proof (cases "find (\<lambda>e. re_state e = RECORD_STATE_FINALIZED) ?es")
          case None
          then have "\<forall>e\<in>set ?es. re_state e = RECORD_STATE_TENTATIVE" by (simp add: find_finalized_None)
          with merge_consensus [OF c] at False RECORD_TYPE_CONSENSUS show ?thesis by simp
        next
          case (Some x)
          then have no: "\<not> (\<forall>e\<in>set ?es. re_state e = RECORD_STATE_TENTATIVE)"
            by (metis find_finalized_None option.distinct(1))
          with merge_consensus [OF c] at False Some have "map_of R k = Some x" "map_of G k = None"
            by simp_all
          with Some no False RECORD_TYPE_CONSENSUS show ?thesis by simp
        qed
      qed
    qed
  qed (rule g(2))
  with g(1) show ?thesis by blast
qed

definition merged_entry :: "view_t \<Rightarrow> opmap \<Rightarrow> opid_t \<Rightarrow> string \<Rightarrow> RecordEntry" where
  "merged_entry v groups k result =
     (let e = hd (the (map_of groups k)) in
      \<lparr>re_view = v, re_opid = k, re_state = RECORD_STATE_FINALIZED, re_type = re_type e,
       re_request = re_request e, re_result = result\<rparr>)"

definition groups_ok :: "opmap \<Rightarrow> bool" where
  "groups_ok G \<longleftrightarrow> (\<forall>k es. map_of G k = Some es \<longrightarrow> es \<noteq> [] \<and> (\<forall>e\<in>set es. entry_wf k e))"

lemma merged_entry_wf: "groups_ok G \<Longrightarrow> map_of G k = Some es \<Longrightarrow> entry_wf k (merged_entry v G k res)"
  unfolding groups_ok_def by (force simp: merged_entry_def Let_def entry_wf_def)

lemma merged_record_spec:
  assumes "groups_ok G" and "record_wf m" and "distinct (map fst rs)"
    and "\<forall>p\<in>set rs. map_of G (fst p) \<noteq> None \<and> map_of m (fst p) = None"
  shows "\<exists>m'. merged_record v G rs m = Inr m' \<and> record_wf m' \<and>
    map_of m' = map_of m ++ (\<lambda>k. map_option (merged_entry v G k) (map_of rs k))"
  using assms(2-)
proof (induction rs arbitrary: m)
  case (Cons p rs)
  obtain k res where p: "p = (k, res)" by (cases p)
  obtain es where es: "map_of G k = Some es" using Cons.prems(3) by (auto simp: p)
  then obtain e es' where ne: "es = e # es'" using assms(1) by (cases es) (auto simp: groups_ok_def)
  let ?m1 = "omap_put k (merged_entry v G k res) m"
  have wf: "omap_wf m" using Cons.prems(1) by (simp add: record_wf_def)
  have wf1: "record_wf ?m1" using record_wf_put [OF Cons.prems(1) merged_entry_wf [OF assms(1) es]] .
  have "Record_Add m v k (re_request e) RECORD_STATE_FINALIZED (re_type e) res = Inr ?m1"
    using Cons.prems(1,3) es ne by (simp add: Record_Add_eq p merged_entry_def)
  then have step: "merged_record v G (p # rs) m = merged_record v G rs ?m1"
    by (simp add: p es ne)
  have dist: "distinct (map fst rs)" and new: "k \<notin> fst ` set rs" using Cons.prems(2) by (simp_all add: p)
  have "\<forall>q\<in>set rs. map_of G (fst q) \<noteq> None \<and> map_of ?m1 (fst q) = None"
    using Cons.prems(3) new wf by (auto simp: rev_image_eqI)
  from Cons.IH [OF wf1 dist this] obtain m' where m': "merged_record v G rs ?m1 = Inr m'" "record_wf m'"
    "map_of m' = map_of ?m1 ++ (\<lambda>k. map_option (merged_entry v G k) (map_of rs k))" by blast
  have "map_of rs k = None" using new by (simp add: map_of_eq_None_iff)
  then have "map_of m' = map_of m ++ (\<lambda>j. map_option (merged_entry v G j) (map_of (p # rs) j))"
    using m'(3) wf by (auto simp: fun_eq_iff map_add_def p split: option.splits)
  then show ?case using step m'(1,2) by auto
qed (simp add: fun_eq_iff map_add_def)

lemma add_all_spec:
  assumes "record_wf R" and "distinct (map fst ps)" and "\<forall>p\<in>set ps. entry_wf (fst p) (snd p) \<and> map_of R (fst p) = None"
  shows "\<exists>R'. add_all R ps = Inr R' \<and> record_wf R' \<and> map_of R' = map_of R ++ map_of ps"
  using assms
proof (induction ps arbitrary: R)
  case (Cons p ps)
  obtain k e where p: "p = (k, e)" by (cases p)
  have e: "entry_wf k e" and none: "map_of R k = None" using Cons.prems(3) by (simp_all add: p)
  let ?R1 = "omap_put k e R"
  have wf: "omap_wf R" using Cons.prems(1) by (simp add: record_wf_def)
  have add: "Record_Add_entry R e = Inr ?R1"
    using e none by (simp add: Record_Add_entry_def entry_wf_def)
  have dist: "distinct (map fst ps)" and new: "k \<notin> fst ` set ps" using Cons.prems(2) by (simp_all add: p)
  have "\<forall>q\<in>set ps. entry_wf (fst q) (snd q) \<and> map_of ?R1 (fst q) = None"
    using Cons.prems(3) new wf by (auto simp: rev_image_eqI)
  from Cons.IH [OF record_wf_put [OF Cons.prems(1) e] dist this] obtain R' where
    R': "add_all ?R1 ps = Inr R'" "record_wf R'" "map_of R' = map_of ?R1 ++ map_of ps" by blast
  have "map_of ps k = None" using new by (simp add: map_of_eq_None_iff)
  then have "map_of R' = map_of R ++ map_of (p # ps)"
    using R'(3) wf by (auto simp: fun_eq_iff map_add_def p split: option.splits)
  moreover have "add_all R (p # ps) = Inr R'" using add R'(1) by (simp add: p)
  ultimately show ?case using R'(2) by blast
qed simp

text \<open>
  What the view change promises about the new record: it is well formed, has every operation of
  the merged records and no other, all its consensus operations are finalized, and a consensus
  operation that some record had finalized keeps a finalized entry of these records.
\<close>

definition merged_ok :: "(opid_t \<times> RecordEntry) list \<Rightarrow> Record \<Rightarrow> bool" where
  "merged_ok ps R \<longleftrightarrow>
     record_wf R \<and>
     (\<forall>k. map_of R k = None \<longleftrightarrow> entries_of k ps = []) \<and>
     (\<forall>k e. map_of R k = Some e \<and> re_type e = RECORD_TYPE_CONSENSUS \<longrightarrow> re_state e = RECORD_STATE_FINALIZED) \<and>
     (\<forall>k e x. map_of R k = Some e \<and> x \<in> set (entries_of k ps) \<and> re_type x = RECORD_TYPE_CONSENSUS \<and>
        re_state x = RECORD_STATE_FINALIZED \<longrightarrow> e \<in> set (entries_of k ps) \<and> re_state e = RECORD_STATE_FINALIZED)"

lemma grouped_at:
  assumes "grouped ps R G"
  shows "entries_of k ps = [] \<Longrightarrow> map_of R k = None \<and> map_of G k = None"
    and "map_of G k = Some es \<Longrightarrow> es = entries_of k ps \<and> es \<noteq> [] \<and> map_of R k = None \<and>
      re_type (hd es) = RECORD_TYPE_CONSENSUS \<and> (\<forall>e\<in>set es. re_state e = RECORD_STATE_TENTATIVE)"
    and "map_of R k = Some e \<Longrightarrow> e \<in> set (entries_of k ps) \<and> map_of G k = None \<and>
      (re_type e = RECORD_TYPE_CONSENSUS \<longrightarrow> re_state e = RECORD_STATE_FINALIZED)"
    and "map_of R k = None \<Longrightarrow> map_of G k = None \<Longrightarrow> entries_of k ps = []"
proof -
  let ?es = "entries_of k ps"
  have at: "if ?es = [] then map_of R k = None \<and> map_of G k = None
        else if re_type (hd ?es) = RECORD_TYPE_INCONSISTENT
        then map_of R k = Some (hd ?es) \<and> map_of G k = None
        else if \<forall>e\<in>set ?es. re_state e = RECORD_STATE_TENTATIVE
        then map_of R k = None \<and> map_of G k = Some ?es
        else map_of R k = find (\<lambda>e. re_state e = RECORD_STATE_FINALIZED) ?es \<and> map_of G k = None"
    using assms unfolding grouped_def Let_def by blast
  show "?es = [] \<Longrightarrow> map_of R k = None \<and> map_of G k = None" using at by simp
  show "map_of G k = Some es \<Longrightarrow> es = entries_of k ps \<and> es \<noteq> [] \<and> map_of R k = None \<and>
      re_type (hd es) = RECORD_TYPE_CONSENSUS \<and> (\<forall>e\<in>set es. re_state e = RECORD_STATE_TENTATIVE)"
    using at by (cases "re_type (hd ?es)") (auto split: if_splits)
  show "map_of R k = Some e \<Longrightarrow> e \<in> set (entries_of k ps) \<and> map_of G k = None \<and>
      (re_type e = RECORD_TYPE_CONSENSUS \<longrightarrow> re_state e = RECORD_STATE_FINALIZED)"
    using at find_SomeD [of "\<lambda>e. re_state e = RECORD_STATE_FINALIZED" ?es e] by (auto split: if_splits)
  show "map_of R k = None \<Longrightarrow> map_of G k = None \<Longrightarrow> ?es = []"
    using at find_finalized_None [of ?es] by (metis option.distinct(1))
qed

lemma grouped_finalized:
  assumes "grouped ps R G" and one: "one_type ps" and "map_of R k = Some e"
    and x: "x \<in> set (entries_of k ps)" "re_type x = RECORD_TYPE_CONSENSUS"
      "re_state x = RECORD_STATE_FINALIZED"
  shows "re_state e = RECORD_STATE_FINALIZED"
proof -
  have "e \<in> set (entries_of k ps)" and fin: "re_type e = RECORD_TYPE_CONSENSUS \<longrightarrow> re_state e = RECORD_STATE_FINALIZED"
    using grouped_at(3) [OF assms(1,3)] by simp_all
  then have "re_type e = RECORD_TYPE_CONSENSUS"
    using one_type_entries [OF one] x(1,2) by metis
  with fin show ?thesis by simp
qed

lemma merged_ok_assembled:
  assumes g: "grouped ps R G" and one: "one_type ps" and wf: "record_wf R'" and R': "map_of R' = map_of R ++ map_of m"
    and m: "map_of m = (\<lambda>k. map_option (merged_entry v G k) (map_of results k))"
    and keys: "\<And>k. map_of m k \<noteq> None \<longleftrightarrow> map_of G k \<noteq> None"
  shows "merged_ok ps R'"
proof -
  note at = grouped_at [OF g]
  have R'k: "map_of R' k = (case map_of m k of None \<Rightarrow> map_of R k | Some e \<Rightarrow> Some e)" for k
    by (simp add: R' map_add_def)
  have none: "map_of R' k = None \<longleftrightarrow> entries_of k ps = []" for k
  proof -
    have "map_of R' k = None \<longleftrightarrow> map_of G k = None \<and> map_of R k = None"
      using keys [of k] R'k [of k] by (cases "map_of m k") auto
    then show ?thesis using at(1,4) [of k] by blast
  qed
  have fin: "re_state e = RECORD_STATE_FINALIZED" if "map_of m k = Some e" for k e
    using that by (auto simp: m merged_entry_def Let_def)
  have cons: "re_state e = RECORD_STATE_FINALIZED"
    if "map_of R' k = Some e" "re_type e = RECORD_TYPE_CONSENSUS" for k e
    using that R'k [of k] fin [of k] at(3) [of k e] by (auto split: option.splits)
  have kept: "e \<in> set (entries_of k ps) \<and> re_state e = RECORD_STATE_FINALIZED"
    if e: "map_of R' k = Some e" and x: "x \<in> set (entries_of k ps)" "re_type x = RECORD_TYPE_CONSENSUS"
      "re_state x = RECORD_STATE_FINALIZED" for k e x
  proof -
    have "map_of G k = None"
    proof (rule ccontr)
      assume "map_of G k \<noteq> None"
      then have "\<forall>e\<in>set (entries_of k ps). re_state e = RECORD_STATE_TENTATIVE" using at(2) [of k] by auto
      with x show False by auto
    qed
    then have "map_of R k = Some e" using e R'k [of k] keys [of k] by (auto split: option.splits)
    then show ?thesis using grouped_finalized [OF g one _ x] at(3) by blast
  qed
  show ?thesis unfolding merged_ok_def using wf none cons kept by blast
qed


section \<open>Fast-path results\<close>

lemma entries_of_wf:
  assumes "record_wf rec"
  shows "entries_of k rec = (case map_of rec k of None \<Rightarrow> [] | Some e \<Rightarrow> [e])"
proof -
  have "distinct (map fst rec)" using assms by (simp add: record_wf_def omap_wf_distinct)
  then show ?thesis
  proof (induction rec)
    case (Cons p rec)
    have "entries_of k rec = []" if "k = fst p"
    proof (rule ccontr)
      assume "entries_of k rec \<noteq> []"
      then obtain e where "e \<in> set (entries_of k rec)" by (meson hd_in_set)
      then have "k \<in> fst ` set rec" unfolding entries_of_mem by (rule image_eqI [rotated]) simp
      with Cons.prems that show False by simp
    qed
    then show ?case using Cons by (cases p) auto
  qed simp
qed

lemma entries_of_concat:
  assumes "\<forall>i\<in>set ids. record_wf (rec i)"
  shows "entries_of k (concat (map rec ids)) =
    concat (map (\<lambda>i. case map_of (rec i) k of None \<Rightarrow> [] | Some e \<Rightarrow> [e]) ids)"
  using assms by (induction ids) (simp_all add: entries_of_wf)

lemma length_entries_of_concat:
  "length (concat (map (\<lambda>i. case m i of None \<Rightarrow> [] | Some e \<Rightarrow> [e]) ids)) \<le> length ids"
  by (induction ids) (auto split: option.splits)

lemma count_entries_of_concat:
  assumes "distinct ids" and "\<forall>i\<in>F. \<exists>e. m i = Some e \<and> g e = res"
  shows "card (F \<inter> set ids) \<le>
    count_list (map g (concat (map (\<lambda>i. case m i of None \<Rightarrow> [] | Some e \<Rightarrow> [e]) ids))) res"
  using assms(1)
proof (induction ids)
  case (Cons i ids)
  show ?case
  proof (cases "i \<in> F")
    case True
    then obtain e where "m i = Some e" "g e = res" using assms(2) by blast
    moreover have "F \<inter> set (i # ids) = insert i (F \<inter> set ids)" using True by auto
    ultimately show ?thesis using Cons by simp
  next
    case False
    then have "F \<inter> set (i # ids) = F \<inter> set ids" by auto
    then show ?thesis using Cons by (auto split: option.splits)
  qed
qed simp

lemma fast_path_grouped:
  assumes ids: "distinct ids" "set ids \<subseteq> {..<2 * f + 1}" "int (length ids) = QuorumSize (group_of f)"
    and F: "F \<subseteq> {..<2 * f + 1}" "FastQuorumSize (group_of f) \<le> int (card F)"
    and wf: "\<forall>i\<in>set ids. record_wf (rec i)"
    and held: "\<forall>i\<in>F. \<exists>e. map_of (rec i) opid = Some e \<and> re_result e = res"
    and tentative: "\<forall>e\<in>set (entries_of opid (concat (map rec ids))). tentative_consensus e"
    and g: "\<And>k. (map_of R k, map_of G k) = foldl merge_step (None, None) (entries_of k (concat (map rec ids)))"
  shows "map_of R opid = None \<and> map_of G opid = Some (entries_of opid (concat (map rec ids))) \<and>
    majority_result (int f) (entries_of opid (concat (map rec ids))) = Some res"
proof -
  let ?es = "entries_of opid (concat (map rec ids))"
  have q: "length ids = f + 1" using ids(3) group_sizes(1) [of f] by simp
  then have len: "int (length ?es) \<le> int f + 1"
    using length_entries_of_concat [of "\<lambda>i. map_of (rec i) opid" ids]
    by (simp add: entries_of_concat [OF wf])
  have "nat (merge_threshold (int f)) \<le> card (F \<inter> set ids)"
    using qs.fast_quorum_meets [OF F(1) ids(2)] F(2) ids(3) distinct_card [OF ids(1)] by simp
  also have "\<dots> \<le> count_list (map re_result ?es) res"
    unfolding entries_of_concat [OF wf] by (rule count_entries_of_concat [OF ids(1) held])
  finally have maj: "merge_threshold (int f) \<le> int (count_list (map re_result ?es) res)" by simp
  then have ne: "?es \<noteq> []" using merge_threshold_pos [of "int f"] by auto
  then have "map_of R opid = None" "map_of G opid = Some ?es"
    using g [of opid] merge_all_tentative [OF ne tentative] by simp_all
  moreover have "majority_result (int f) ?es = Some res" by (rule majority_result_eq [OF _ len maj]) simp
  ultimately show ?thesis by blast
qed

text \<open>
  C8. A result that a client accepted on the fast path survives the view change. Let a fast quorum of
  replicas hold the consensus operation with the result \<open>res\<close>, and let the new leader merge the
  records of any quorum. When all the merged records that have the operation hold it tentatively, the
  leader puts it in \<open>d\<close> with majority result \<open>res\<close>, and neither in \<open>u\<close> nor among the operations already
  decided. When one of the merged records, of a replica inside the fast quorum or outside it, has the
  operation finalized, it is among the operations already decided, with a finalized entry of one of the
  merged records, and it is in none of \<open>d\<close> and \<open>u\<close>.
\<close>

theorem fast_path_survives:
  assumes ids: "distinct ids" "set ids \<subseteq> {..<2 * f + 1}" "int (length ids) = QuorumSize (group_of f)"
    and F: "F \<subseteq> {..<2 * f + 1}" "FastQuorumSize (group_of f) \<le> int (card F)"
    and wf: "\<forall>i\<in>set ids. record_wf (rec i)"
    and held: "\<forall>i\<in>F. \<exists>e. map_of (rec i) opid = Some e \<and> re_result e = res"
    and consensus: "\<forall>i\<in>set ids. \<forall>e. map_of (rec i) opid = Some e \<longrightarrow> re_type e = RECORD_TYPE_CONSENSUS"
  shows "\<exists>R groups d u maj. group_entries (concat (map rec ids)) ([], []) = Inr (R, groups) \<and>
    build_d_u (int f) groups = (d, u, maj) \<and> map_of u opid = None \<and>
    (if \<exists>i\<in>set ids. \<exists>e. map_of (rec i) opid = Some e \<and> re_state e = RECORD_STATE_FINALIZED
     then map_of d opid = None \<and>
       (\<exists>i\<in>set ids. \<exists>e. map_of (rec i) opid = Some e \<and> re_state e = RECORD_STATE_FINALIZED \<and> map_of R opid = Some e)
     else map_of d opid = map_of groups opid \<and> map_of d opid \<noteq> None \<and> map_of maj opid = Some res \<and> map_of R opid = None)"
proof -
  let ?ps = "concat (map rec ids)" and ?es = "entries_of opid (concat (map rec ids))"
  have "\<forall>p\<in>set ?ps. fst p = re_opid (snd p)" using wf by (auto simp: record_wf_def entry_wf_def)
  moreover have "maps_ok ([], [])" by (simp add: maps_ok_def)
  ultimately obtain R G where g: "group_entries ?ps ([], []) = Inr (R, G)" "maps_ok (R, G)"
    "\<And>k. (map_of R k, map_of G k) = foldl merge_step (None, None) (entries_of k ?ps)"
    using group_entries_at [of "[]" "[]" ?ps] by auto
  obtain d u m where du: "build_d_u (int f) G = (d, u, m)" by (cases "build_d_u (int f) G")
  have "omap_wf G" using g(2) by (simp add: maps_ok_def)
  note spec = build_d_u_spec [OF this du]
  have mem: "e \<in> set ?es \<longleftrightarrow> (\<exists>i\<in>set ids. map_of (rec i) opid = Some e)" for e
    unfolding entries_of_concat [OF wf] by (force split: option.splits)
  have c: "\<forall>e\<in>set ?es. re_type e = RECORD_TYPE_CONSENSUS" using consensus mem by blast
  show ?thesis
  proof (cases "\<exists>i\<in>set ids. \<exists>e. map_of (rec i) opid = Some e \<and> re_state e = RECORD_STATE_FINALIZED")
    case True
    then obtain e where "e \<in> set ?es" "re_state e = RECORD_STATE_FINALIZED" using mem by blast
    from merge_finalized [OF c this, of None] g(3) [of opid] obtain x where x: "x \<in> set ?es"
      "re_state x = RECORD_STATE_FINALIZED" "map_of R opid = Some x" "map_of G opid = None" by auto
    then have no: "map_of d opid = None" "map_of u opid = None" using spec by simp_all
    have found: "\<exists>i\<in>set ids. \<exists>e. map_of (rec i) opid = Some e \<and> re_state e = RECORD_STATE_FINALIZED \<and> map_of R opid = Some e"
      using mem [of x] x(1-3) by blast
    show ?thesis unfolding if_P [OF True] using g(1) du no found by blast
  next
    case False
    have t: "\<forall>e\<in>set ?es. tentative_consensus e"
    proof
      fix e assume e: "e \<in> set ?es"
      then have "re_type e \<noteq> RECORD_TYPE_INCONSISTENT" using c by simp
      moreover have "re_state e \<noteq> RECORD_STATE_FINALIZED" using e False mem by blast
      ultimately show "tentative_consensus e" using not_tentative_consensus by blast
    qed
    have at: "map_of R opid = None" "map_of G opid = Some ?es" "majority_result (int f) ?es = Some res"
      using fast_path_grouped [OF ids F wf held t g(3)] by blast+
    with spec have "map_of d opid = map_of G opid" "map_of m opid = Some res" "map_of u opid = None"
      by simp_all
    with g(1) du at(1,2) show ?thesis unfolding if_not_P [OF False] by (metis option.distinct(1))
  qed
qed

definition ex_fast :: "nat \<Rightarrow> Record" where
  "ex_fast i = [((1, 1), ex_entry 1 RECORD_STATE_TENTATIVE ''ok'')]"

theorem fast_path_survives_witness:
  "\<exists>R groups d u maj. group_entries (concat (map ex_fast [0, 2])) ([], []) = Inr (R, groups) \<and>
    build_d_u 1 groups = (d, u, maj) \<and> map_of d (1, 1) = map_of groups (1, 1) \<and>
    map_of maj (1, 1) = Some ''ok'' \<and> map_of u (1, 1) = None \<and> map_of R (1, 1) = None"
proof -
  have "QuorumSize (group_of 1) = 2" "FastQuorumSize (group_of 1) = 3"
    by (simp_all add: QuorumSize_def FastQuorumSize_def Configuration_of_def)
  moreover have "record_wf (ex_fast i)" for i
    by (simp add: ex_fast_def record_wf_def omap_wf_def entry_wf_def ex_entry_def)
  ultimately show ?thesis
    using fast_path_survives [of "[0, 2]" 1 "{0, 1, 2}" ex_fast "(1, 1)" "''ok''"]
    by (auto simp: ex_fast_def ex_entry_def)
qed


section \<open>The contract between the replica and its application\<close>

text \<open>
  The replica relies on \<^verbatim>\<open>Merge\<close> to answer exactly the operations it is given; it checks the number
  of answers and that each id is one of them.
\<close>

locale ir_merging_app =
  fixes app :: "'s IRApp"
  assumes Merge_answers: "omap_wf d \<Longrightarrow> omap_wf u \<Longrightarrow> fst ` set d \<inter> fst ` set u = {} \<Longrightarrow>
    \<forall>p\<in>set d \<union> set u. snd p \<noteq> [] \<Longrightarrow> fst ` set d \<subseteq> fst ` set maj \<Longrightarrow>
    \<exists>results a'. Merge app a d u maj = Inr (results, a') \<and> omap_wf results \<and>
      fst ` set results = fst ` set d \<union> fst ` set u"
begin

lemma Merge_groups:
  assumes "omap_wf G" and "\<forall>p\<in>set G. snd p \<noteq> []" and "build_d_u f G = (d, u, maj)"
  shows "\<exists>results a'. Merge app a d u maj = Inr (results, a') \<and> omap_wf results \<and>
    fst ` set results = fst ` set G \<and> length results = length d + length u \<and>
    (\<forall>p\<in>set results. (if map_of d (fst p) = None then 0 else 1) +
       (if map_of u (fst p) = None then 0 else 1) = (1::nat))"
proof -
  note spec = build_d_u_spec [OF assms(1,3)]
  have dk: "fst ` set d = {k. map_of d k \<noteq> None}" and uk: "fst ` set u = {k. map_of u k \<noteq> None}"
    and gk: "fst ` set G = {k. map_of G k \<noteq> None}" and mk: "fst ` set maj = {k. map_of maj k \<noteq> None}"
    by (rule okeys_map_of)+
  have disj: "fst ` set d \<inter> fst ` set u = {}" and un: "fst ` set d \<union> fst ` set u = fst ` set G"
    and maj: "fst ` set d \<subseteq> fst ` set maj"
    unfolding dk uk gk mk using spec by (auto split: option.splits if_splits)
  have ne: "\<forall>p\<in>set d \<union> set u. snd p \<noteq> []"
  proof
    fix p assume p: "p \<in> set d \<union> set u"
    have "distinct (map fst d)" "distinct (map fst u)" using spec omap_wf_distinct by blast+
    with p have "map_of d (fst p) = Some (snd p) \<or> map_of u (fst p) = Some (snd p)" by auto
    then have "map_of G (fst p) = Some (snd p)" using spec by (auto split: option.splits if_splits)
    from bspec [OF assms(2) map_of_SomeD [OF this]] show "snd p \<noteq> []" by simp
  qed
  obtain results a' where r: "Merge app a d u maj = Inr (results, a')" "omap_wf results"
    "fst ` set results = fst ` set d \<union> fst ` set u"
    using Merge_answers [OF _ _ disj ne maj] spec by blast
  have "length results = card (fst ` set results)" "length G = card (fst ` set G)"
    using omap_wf_distinct [OF r(2)] omap_wf_distinct [OF assms(1)]
    by (metis distinct_card length_map set_map)+
  then have len: "length results = length d + length u" using r(3) un spec by simp
  have one: "\<forall>p\<in>set results. (if map_of d (fst p) = None then 0 else 1) +
       (if map_of u (fst p) = None then 0 else 1) = (1::nat)"
  proof
    fix p assume "p \<in> set results"
    then have "fst p \<in> fst ` set d \<union> fst ` set u" using r(3) by blast
    then show "(if map_of d (fst p) = None then 0 else 1) +
        (if map_of u (fst p) = None then 0 else 1) = (1::nat)"
      using disj unfolding dk uk by auto
  qed
  show ?thesis using r(1,2) un r(3) len one by auto
qed

lemma merge_records_ok:
  assumes wf: "\<forall>rec\<in>set recs. record_wf rec" and one: "one_type (concat recs)" and "ms \<noteq> []"
  shows "\<exists>R groups. group_entries (concat recs) ([], []) = Inr (R, groups) \<and>
    (case Sync app a R of
       Inl e \<Rightarrow> merge_records app f v ms recs a = Inl e
     | Inr _ \<Rightarrow> (\<exists>R' a'. merge_records app f v ms recs a = Inr (R', a') \<and> merged_ok (concat recs) R'))"
proof -
  let ?ps = "concat recs"
  have ew: "\<forall>p\<in>set ?ps. entry_wf (fst p) (snd p)" using wf by (auto simp: record_wf_def)
  then have ids: "\<forall>p\<in>set ?ps. fst p = re_opid (snd p)" by (simp add: entry_wf_def)
  obtain R G where g: "group_entries ?ps ([], []) = Inr (R, G)" "grouped ?ps R G"
    using group_entries_grouped [OF ids one] by blast
  note at = grouped_at [OF g(2)]
  have ok: "maps_ok (R, G)" using g(2) by (simp add: grouped_def)
  then have wfG: "omap_wf G" and wfR: "omap_wf R" by (simp_all add: maps_ok_def)
  have ewk: "entry_wf k e" if "e \<in> set (entries_of k ?ps)" for k e
    using bspec [OF ew that [unfolded entries_of_mem]] by simp
  have gok: "groups_ok G" unfolding groups_ok_def using at(2) ewk by blast
  have "entry_wf (fst p) (snd p)" if "p \<in> set R" for p
    using that ewk at(3) omap_wf_distinct [OF wfR] by (metis map_of_is_SomeI prod.collapse)
  then have rR: "record_wf R" using wfR by (simp add: record_wf_def)
  obtain d u maj where du: "build_d_u f G = (d, u, maj)" by (cases "build_d_u f G")
  show ?thesis
  proof (cases "Sync app a R")
    case (Inl e)
    then have "merge_records app f v ms recs a = Inl e" by (simp add: merge_records_def g(1) du)
    with Inl g(1) show ?thesis by simp
  next
    case (Inr a1)
    have ne: "\<forall>p\<in>set G. snd p \<noteq> []"
      using gok omap_wf_distinct [OF wfG] unfolding groups_ok_def by (metis map_of_is_SomeI prod.collapse)
    obtain results a2 where m: "Merge app a1 d u maj = Inr (results, a2)" "omap_wf results"
      "fst ` set results = fst ` set G" "length results = length d + length u"
      "\<forall>p\<in>set results. (if map_of d (fst p) = None then 0 else 1) +
         (if map_of u (fst p) = None then 0 else 1) = (1::nat)"
      using Merge_groups [OF wfG ne du] by blast
    have "\<forall>p\<in>set results. map_of G (fst p) \<noteq> None \<and> map_of ([] :: Record) (fst p) = None"
      using m(3) okeys_map_of [of G] by auto
    then obtain merged where mg: "merged_record v G results [] = Inr merged" "record_wf merged"
      "map_of merged = (\<lambda>k. map_option (merged_entry v G k) (map_of results k))"
      using merged_record_spec [OF gok record_wf_Nil omap_wf_distinct [OF m(2)], of v] by auto
    have keys: "map_of merged k \<noteq> None \<longleftrightarrow> map_of G k \<noteq> None" for k
    proof -
      have "k \<in> fst ` set results \<longleftrightarrow> k \<in> fst ` set G" using m(3) by simp
      then show ?thesis unfolding okeys_map_of mg(3) by simp
    qed
    have "\<forall>p\<in>set merged. entry_wf (fst p) (snd p) \<and> map_of R (fst p) = None"
    proof
      fix p assume p: "p \<in> set merged"
      then have "map_of G (fst p) \<noteq> None"
        using keys [of "fst p"] by (metis image_eqI map_of_eq_None_iff)
      then show "entry_wf (fst p) (snd p) \<and> map_of R (fst p) = None"
        using p mg(2) at(2) unfolding record_wf_def by blast
    qed
    moreover have "omap_wf merged" using mg(2) by (simp add: record_wf_def)
    ultimately obtain R' where
      R': "add_all R merged = Inr R'" "record_wf R'" "map_of R' = map_of R ++ map_of merged"
      using add_all_spec [OF rR omap_wf_distinct] by blast
    have run: "merge_records app f v ms recs a = Inr (R', a2)"
      using Inr m mg(1) R'(1) assms(3) by (simp add: merge_records_def g(1) du)
    have "merged_ok ?ps R'"
      using merged_ok_assembled [OF g(2) one R'(2,3) mg(3)] keys by blast
    with run Inr g(1) show ?thesis by simp
  qed
qed

end

section \<open>Runs of a replica\<close>

text \<open>
  The states a replica reaches from a start (with any content of the persistent register) by
  handling messages and view-change timeouts.
\<close>

inductive ir_reach :: "'s IRApp \<Rightarrow> Configuration \<Rightarrow> int \<Rightarrow> 's IRReplica \<Rightarrow> bool"
  for app config idx where
  start: "ir_reach app config idx (fst (IRReplica_new config idx a stored))"
| message: "ir_reach app config idx r \<Longrightarrow> IR_HandleMessage app r m = Inr (r', out) \<Longrightarrow> ir_reach app config idx r'"
| timeout: "ir_reach app config idx r \<Longrightarrow> ir_reach app config idx (fst (HandleViewChangeTimeout r))"

definition ir_inv :: "Configuration \<Rightarrow> int \<Rightarrow> 's IRReplica \<Rightarrow> bool" where
  "ir_inv config idx r \<longleftrightarrow>
     ir_config r = config \<and> myIdx r = idx \<and> record_wf (ir_record r) \<and>
     persistent_view_info r = Some (ir_view r, latest_normal_view r) \<and>
     (ir_status r = STATUS_NORMAL \<longrightarrow> ir_view r = latest_normal_view r)"

lemma Record_Add_wf:
  "Record_Add r v opid req st type res = Inr r' \<Longrightarrow> record_wf r \<Longrightarrow>
   (clientid req, clientreqid req) = opid \<Longrightarrow> record_wf r'"
  by (auto simp: Record_Add_eq entry_wf_def intro!: record_wf_put split: if_splits)

lemma Record_add_protos_wf: "Record_add_protos r ps = Inr r' \<Longrightarrow> record_wf r \<Longrightarrow> record_wf r'"
proof (induction ps arbitrary: r)
  case (Cons p ps)
  then show ?case using Record_Add_wf by (fastforce simp: obind_eq_Inr)
qed simp

lemma Record_of_proto_wf: "Record_of_proto ps = Inr r \<Longrightarrow> record_wf r"
  unfolding Record_of_proto_def using Record_add_protos_wf [of "[]"] by simp

lemma latest_records_wf: "latest_records v ms = Inr recs \<Longrightarrow> rec \<in> set recs \<Longrightarrow> record_wf rec"
  by (induction v ms arbitrary: recs rule: latest_records.induct)
    (auto simp: obind_eq_Inr Record_of_proto_wf split: if_splits option.splits)

definition merge_all :: "(RecordEntry \<Rightarrow> bool) \<Rightarrow> RecordEntry option \<times> RecordEntry list option \<Rightarrow> bool" where
  "merge_all P acc \<longleftrightarrow> pred_option P (fst acc) \<and> pred_option (\<lambda>gs. gs \<noteq> [] \<and> list_all P gs) (snd acc)"

lemma merge_step_all: "merge_all P acc \<Longrightarrow> P e \<Longrightarrow> merge_all P (merge_step acc e)"
  by (cases acc; cases "fst acc"; cases "snd acc") (simp_all add: merge_all_def)

lemma merge_steps_all: "merge_all P acc \<Longrightarrow> list_all P es \<Longrightarrow> merge_all P (foldl merge_step acc es)"
  by (induction es arbitrary: acc) (simp_all add: merge_step_all del: merge_step.simps)

lemma group_entries_wf:
  assumes ew: "\<forall>p\<in>set ps. entry_wf (fst p) (snd p)" and "group_entries ps ([], []) = Inr (R, G)"
  shows "record_wf R \<and> groups_ok G"
proof -
  have ids: "\<forall>p\<in>set ps. fst p = re_opid (snd p)" using ew by (simp add: entry_wf_def)
  have "maps_ok ([], [])" by (simp add: maps_ok_def)
  from group_entries_at [OF this ids] assms(2) have ok: "maps_ok (R, G)" and
    at: "\<And>k. foldl merge_step (None, None) (entries_of k ps) = (map_of R k, map_of G k)" by auto
  have ewk: "entry_wf k e" if "e \<in> set (entries_of k ps)" for k e
    using bspec [OF ew that [unfolded entries_of_mem]] by simp
  have "merge_all (entry_wf k) (map_of R k, map_of G k)" for k
    using merge_steps_all [of "entry_wf k" "(None, None)" "entries_of k ps"] ewk [of _ k]
    by (simp add: at merge_all_def list_all_iff)
  then have all: "pred_option (entry_wf k) (map_of R k)"
    "pred_option (\<lambda>gs. gs \<noteq> [] \<and> list_all (entry_wf k) gs) (map_of G k)" for k
    by (simp_all add: merge_all_def)
  have R: "omap_wf R" using ok by (simp add: maps_ok_def)
  have "entry_wf (fst p) (snd p)" if "p \<in> set R" for p
  proof -
    have "map_of R (fst p) = Some (snd p)" using that omap_wf_distinct [OF R] by simp
    with all [of "fst p"] show ?thesis by simp
  qed
  moreover have "es \<noteq> [] \<and> (\<forall>e\<in>set es. entry_wf k e)" if "map_of G k = Some es" for k es
    using all [of k] that by (simp add: list_all_iff)
  ultimately show ?thesis using R by (simp add: record_wf_def groups_ok_def)
qed

lemma merged_record_wf:
  assumes "groups_ok G"
  shows "merged_record v G rs m = Inr m' \<Longrightarrow> record_wf m \<Longrightarrow> record_wf m'"
proof (induction rs arbitrary: m)
  case (Cons p rs)
  obtain k res where p: "p = (k, res)" by (cases p)
  obtain e es where g: "map_of G k = Some (e # es)"
    using Cons.prems(1) by (auto simp: p split: option.splits list.splits)
  then have "entry_wf k e" using assms by (simp add: groups_ok_def)
  moreover obtain m1 where "Record_Add m v k (re_request e) RECORD_STATE_FINALIZED (re_type e) res = Inr m1"
    "merged_record v G rs m1 = Inr m'"
    using Cons.prems(1) by (auto simp: p g obind_eq_Inr)
  ultimately show ?case
    using Cons.IH Cons.prems(2) Record_Add_wf by (simp add: entry_wf_def)
qed simp

lemma add_all_wf:
  "add_all R ps = Inr R' \<Longrightarrow> record_wf R \<Longrightarrow> \<forall>p\<in>set ps. entry_wf (fst p) (snd p) \<Longrightarrow> record_wf R'"
proof (induction ps arbitrary: R)
  case (Cons p ps)
  then have e: "entry_wf (fst p) (snd p)" by simp
  have "add_all (omap_put (fst p) (snd p) R) ps = Inr R'"
    using Cons.prems(1) e by (auto simp: obind_eq_Inr Record_Add_entry_def entry_wf_def assert_that_def split: if_splits)
  then show ?case using Cons.IH record_wf_put [OF Cons.prems(2) e] Cons.prems(3) by simp
qed simp

lemma IrMergeRecords_wf:
  assumes "IrMergeRecords app r ms = Inr (rec, a)" and "record_wf (ir_record r)"
  shows "record_wf rec"
proof -
  let ?mv = "max_normal_view (latest_normal_view r) ms"
  obtain recs where recs: "latest_records ?mv ms = Inr recs"
    using assms(1) by (cases "latest_records ?mv ms") (simp_all add: IrMergeRecords_def Let_def)
  define recs' where "recs' = (if latest_normal_view r = ?mv then recs @ [ir_record r] else recs)"
  have m: "merge_records app (cfg_f (ir_config r)) (ir_view r) ms recs' (ir_app r) = Inr (rec, a)"
    using assms(1) by (simp add: IrMergeRecords_def Let_def recs recs'_def)
  have "\<forall>x\<in>set recs'. record_wf x" 
    using latest_records_wf [OF recs] assms(2) by (simp add: recs'_def)
  then have ew: "\<forall>p\<in>set (concat recs'). entry_wf (fst p) (snd p)" by (simp add: record_wf_def)
  obtain R G where g: "group_entries (concat recs') ([], []) = Inr (R, G)"
    using m by (auto simp: merge_records_def obind_eq_Inr)
  obtain d u maj where du: "build_d_u (cfg_f (ir_config r)) G = (d, u, maj)"
    by (cases "build_d_u (cfg_f (ir_config r)) G")
  obtain a1 where a1: "Sync app (ir_app r) R = Inr a1"
    using m by (cases "Sync app (ir_app r) R") (simp_all add: merge_records_def g du)
  obtain results a2 where a2: "Merge app a1 d u maj = Inr (results, a2)"
    using m by (cases "Merge app a1 d u maj") (auto simp: merge_records_def g du a1)
  have "obind (merged_record (ir_view r) G results []) (\<lambda>m. obind (add_all R m) (\<lambda>R'. Inr (R', a2))) = Inr (rec, a)"
    using m by (simp add: merge_records_def g du a1 a2 split: if_split_asm)
  then obtain merged where r: "merged_record (ir_view r) G results [] = Inr merged" "add_all R merged = Inr rec"
    by (auto simp: obind_eq_Inr)
  note wf = group_entries_wf [OF ew g]
  then have "record_wf merged" using merged_record_wf [OF _ r(1)] by simp
  then show ?thesis using add_all_wf [OF r(2)] wf by (simp add: record_wf_def)
qed


lemma lead_view_change_inv:
  assumes "lead_view_change app r out msg = Inr (r', out')" and "ir_inv config idx r"
    and "ir_view r = dv_new_view msg"
  shows "ir_inv config idx r' \<and> ir_view r' = ir_view r"
proof -
  obtain quorum q where q: "AddAndCheckForQuorum (do_view_change_quorum r) (dv_new_view msg)
      (dv_replicaidx msg) msg = (quorum, q)" by (cases "AddAndCheckForQuorum (do_view_change_quorum r)
      (dv_new_view msg) (dv_replicaidx msg) msg")
  show ?thesis
  proof (cases quorum)
    case None
    then show ?thesis using assms by (auto simp: lead_view_change_def q ir_inv_def split: if_splits)
  next
    case (Some ms)
    let ?r1 = "r\<lparr>do_view_change_quorum := q\<rparr>"
    show ?thesis
    proof (cases "myIdx r = GetLeaderIndex (ir_config r) (ir_view r) \<and> dv_record msg \<noteq> None")
      case True
      then obtain rec a where m: "IrMergeRecords app ?r1 ms = Inr (rec, a)"
        using assms(1) by (cases "IrMergeRecords app ?r1 ms") (auto simp: lead_view_change_def q Some)
      have "record_wf rec" using IrMergeRecords_wf [OF m] assms(2) by (simp add: ir_inv_def)
      then show ?thesis using assms True m
        by (auto simp: lead_view_change_def q Some ir_inv_def PersistViewInfo_def Let_def)
    next
      case False
      then show ?thesis using assms by (auto simp: lead_view_change_def split: if_splits)
    qed
  qed
qed

lemma join_view_inv:
  "ir_inv config idx r \<Longrightarrow> join_view r v = (r', out) \<Longrightarrow> ir_inv config idx r' \<and> ir_view r' = v"
  by (auto simp: join_view_def Let_def ir_inv_def PersistViewInfo_def split: if_splits)

lemma HandleDoViewChange_inv:
  assumes "HandleDoViewChange app r msg = Inr (r', out)" and "ir_inv config idx r"
  shows "ir_inv config idx r' \<and> ir_view r \<le> ir_view r'"
proof -
  obtain r1 out1 where j: "join_view r (dv_new_view msg) = (r1, out1)"
    by (cases "join_view r (dv_new_view msg)")
  note j1 = join_view_inv [OF assms(2) j]
  consider "dv_new_view msg < ir_view r" | "dv_new_view msg = ir_view r" | "ir_view r < dv_new_view msg"
    by (rule linorder_cases)
  then show ?thesis
  proof cases
    case 3
    then have "\<not> dv_new_view msg < ir_view r" "dv_new_view msg \<noteq> ir_view r" by auto
    then have "lead_view_change app r1 out1 msg = Inr (r', out)"
      using assms(1) j by (simp add: HandleDoViewChange_def)
    from lead_view_change_inv [OF this] j1 3 show ?thesis by auto
  next
    case 2
    then show ?thesis using assms lead_view_change_inv [of app r "[]" msg r' out]
      by (auto simp: HandleDoViewChange_def split: if_splits)
  qed (use assms in \<open>auto simp: HandleDoViewChange_def\<close>)
qed


text \<open>What the operation handlers do to the record, one entry at a time.\<close>

fun op_message :: "IRMessage \<Rightarrow> bool" where
  "op_message (DoViewChange _) = False"
| "op_message (StartView _ _) = False"
| "op_message _ = True"

definition op_effect :: "IRMessage \<Rightarrow> 's IRReplica \<Rightarrow> 's IRReplica \<Rightarrow> bool" where
  "op_effect m r r' \<longleftrightarrow>
     record_wf (ir_record r') \<and> ir_config r' = ir_config r \<and> myIdx r' = myIdx r \<and>
     ir_status r' = ir_status r \<and> ir_view r' = ir_view r \<and> latest_normal_view r' = latest_normal_view r \<and>
     persistent_view_info r' = persistent_view_info r \<and>
     (\<forall>opid e. map_of (ir_record r) opid = Some e \<longrightarrow>
        (\<exists>e'. map_of (ir_record r') opid = Some e' \<and> re_view e' = re_view e \<and> re_type e' = re_type e \<and>
           re_request e' = re_request e \<and>
           (re_state e = RECORD_STATE_FINALIZED \<longrightarrow> re_state e' = RECORD_STATE_FINALIZED) \<and>
           ((\<forall>res. m \<noteq> FinalizeConsensus opid res) \<longrightarrow> re_result e' = re_result e)))"

lemma op_effect_same: "record_wf (ir_record r) \<Longrightarrow> op_effect m r (r\<lparr>ir_app := a\<rparr>)"
  "record_wf (ir_record r) \<Longrightarrow> op_effect m r r"
  by (simp_all add: op_effect_def)

lemma op_effect_add:
  assumes "record_wf (ir_record r)" and "map_of (ir_record r) opid = None" and "entry_wf opid e"
  shows "op_effect m r (r\<lparr>ir_record := omap_put opid e (ir_record r), ir_app := a\<rparr>)"
    "op_effect m r (r\<lparr>ir_record := omap_put opid e (ir_record r)\<rparr>)"
  using assms record_wf_put [OF assms(1,3)] by (auto simp: op_effect_def record_wf_def)

lemma op_effect_set:
  assumes "record_wf (ir_record r)" and "map_of (ir_record r) opid = Some e"
    and "re_opid e' = re_opid e" "re_view e' = re_view e" "re_type e' = re_type e" "re_request e' = re_request e"
    and "re_state e' = RECORD_STATE_FINALIZED"
    and "(\<forall>res. m \<noteq> FinalizeConsensus opid res) \<Longrightarrow> re_result e' = re_result e"
  shows "op_effect m r (r\<lparr>ir_record := omap_put opid e' (ir_record r), ir_app := a\<rparr>)"
    "op_effect m r (r\<lparr>ir_record := omap_put opid e' (ir_record r)\<rparr>)"
proof -
  have "entry_wf opid e'" using record_wfD [OF assms(1,2)] assms(3,6) by (simp add: entry_wf_def)
  from record_wf_put [OF assms(1) this] assms
  show "op_effect m r (r\<lparr>ir_record := omap_put opid e' (ir_record r), ir_app := a\<rparr>)"
    "op_effect m r (r\<lparr>ir_record := omap_put opid e' (ir_record r)\<rparr>)"
    by (auto simp: op_effect_def record_wf_def)
qed

lemma op_message_effect:
  assumes wf: "record_wf (ir_record r)" and "op_message m" and "IR_HandleMessage app r m = Inr (r', out)"
  shows "op_effect m r r'"
proof -
  note find = record_wf_Find [OF wf]
  have tw: "omap_put k x (omap_put k y (ir_record r)) = omap_put k x (ir_record r)" for k x y
    using wf by (simp add: record_wf_def omap_put_twice)
  show ?thesis
  proof (cases m)
    case (ProposeInconsistent req)
    then show ?thesis using assms
      by (auto simp: IR_HandleMessage_def HandleProposeInconsistent_def find Record_Add_empty_def
          Record_Add_entry_def entry_wf_def Let_def
          intro!: op_effect_same op_effect_add [OF wf] split: option.splits)
  next
    case (FinalizeInconsistent opid)
    then show ?thesis using assms
      by (auto simp: IR_HandleMessage_def HandleFinalizeInconsistent_def find Record_SetStatus_def obind_eq_Inr
          intro!: op_effect_same intro: op_effect_set [OF wf] split: option.splits if_splits)
  next
    case (ProposeConsensus req)
    then show ?thesis using assms
      by (auto simp: IR_HandleMessage_def HandleProposeConsensus_def find Record_Add_eq [OF wf] obind_eq_Inr
          entry_wf_def Let_def intro!: op_effect_same op_effect_add [OF wf] split: option.splits)
  next
    case (FinalizeConsensus opid res)
    then show ?thesis using assms
      by (auto simp: IR_HandleMessage_def HandleFinalizeConsensus_def find Record_SetStatus_def obind_eq_Inr
          tw Let_def intro!: op_effect_same intro: op_effect_set [OF wf] split: option.splits if_splits)
  next
    case (UnloggedRequest req)
    then show ?thesis using assms op_effect_same(1) [OF wf]
      by (auto simp: IR_HandleMessage_def HandleUnlogged_def obind_eq_Inr)
  qed (use assms in \<open>auto simp: IR_HandleMessage_def\<close>)
qed


lemma IR_HandleMessage_inv:
  assumes "IR_HandleMessage app r m = Inr (r', out)" and "ir_inv config idx r"
  shows "ir_inv config idx r' \<and> ir_view r \<le> ir_view r'"
proof (cases "op_message m")
  case True
  then have "op_effect m r r'" using op_message_effect assms by (auto simp: ir_inv_def)
  then show ?thesis using assms(2) by (auto simp: op_effect_def ir_inv_def)
next
  case False
  then consider msg where "m = DoViewChange msg" | rec v where "m = StartView rec v" by (cases m) auto
  then show ?thesis
  proof cases
    case 1
    then have "HandleDoViewChange app r msg = Inr (r', out)" using assms(1) by (simp add: IR_HandleMessage_def)
    then show ?thesis using assms(2) by (rule HandleDoViewChange_inv)
  next
    case 2
    then show ?thesis using assms
      by (auto simp: IR_HandleMessage_def HandleStartView_def obind_eq_Inr ir_inv_def PersistViewInfo_def
          not_less intro: Record_of_proto_wf split: if_splits)
  qed
qed

lemma IRReplica_new_inv: "ir_inv config idx (fst (IRReplica_new config idx a stored))"
  by (auto simp: IRReplica_new_def ir_inv_def PersistViewInfo_def RecoverViewInfo_def Let_def split: option.splits)

lemma HandleViewChangeTimeout_inv: "ir_inv config idx r \<Longrightarrow> ir_inv config idx (fst (HandleViewChangeTimeout r))"
  by (auto simp: HandleViewChangeTimeout_def ir_inv_def PersistViewInfo_def Let_def)

lemma ir_reach_inv: "ir_reach app config idx r \<Longrightarrow> ir_inv config idx r"
proof (induction rule: ir_reach.induct)
  case (message r m r' out)
  then show ?case using IR_HandleMessage_inv by blast
qed (simp_all add: IRReplica_new_inv HandleViewChangeTimeout_inv)

text \<open>
  C35. In every state a replica reaches, its record is well formed, the persistent register holds
  exactly its current view and latest normal view, a replica in the normal state has completed the
  change to its current view, and no message makes its view go back.
\<close>

theorem ir_reach_invariant:
  assumes "ir_reach app config idx r"
  shows "record_wf (ir_record r) \<and> persistent_view_info r = Some (ir_view r, latest_normal_view r) \<and>
    (ir_status r = STATUS_NORMAL \<longrightarrow> ir_view r = latest_normal_view r) \<and>
    (\<forall>m r' out. IR_HandleMessage app r m = Inr (r', out) \<longrightarrow> ir_view r \<le> ir_view r')"
  using ir_reach_inv [OF assms] IR_HandleMessage_inv [of app r _ _ _ config idx] by (auto simp: ir_inv_def)

definition ex_app :: "unit IRApp" where
  "ex_app = \<lparr>ExecInconsistentUpcall = (\<lambda>a s. Inr a), ExecConsensusUpcall = (\<lambda>a s. Inr (s, a)),
     UnloggedUpcall = (\<lambda>a s. Inr (s, a)), Sync = (\<lambda>a R. Inr a),
     Merge = (\<lambda>a d u maj. Inr (maj, a))\<rparr>"

theorem ir_reach_invariant_witness:
  "record_wf (ir_record (fst (HandleViewChangeTimeout (fst (IRReplica_new (group_of 1) 0 () None)))))"
  using ir_reach_invariant [where app = ex_app, OF ir_reach.timeout [OF ir_reach.start]] by blast

lemma GetLeaderIndex_uint:
  assumes "0 < cfg_n c" and "cfg_n c < 2 ^ 64"
  shows "GetLeaderIndex c v = uint v mod cfg_n c"
proof -
  have "uint (word_of_int (cfg_n c) :: u64) = cfg_n c" using assms by (simp add: uint_word_of_int)
  then show ?thesis by (simp add: GetLeaderIndex_def uint_mod)
qed

lemma next_leader_differs:
  assumes "2 \<le> cfg_n c" and "cfg_n c < 2 ^ 64" and "v < v + 1"
  shows "GetLeaderIndex c (v + 1) \<noteq> GetLeaderIndex c v"
proof
  assume "GetLeaderIndex c (v + 1) = GetLeaderIndex c v"
  moreover have "uint (v + 1) = uint v + 1"
  proof -
    have u: "uint (v + 1) = (uint v + 1) mod 2 ^ 64" by (simp add: uint_word_ariths)
    moreover have "uint v < uint (v + 1)" using assms(3) by (simp only: word_less_def)
    moreover have "0 \<le> uint v" "uint v < 2 ^ 64" using uint_lt2p [of v] by simp_all
    ultimately show ?thesis by (cases "uint v + 1 = 2 ^ 64") simp_all
  qed
  ultimately have "(uint v + 1) mod cfg_n c = uint v mod cfg_n c"
    using assms(1,2) by (simp add: GetLeaderIndex_uint)
  then have "cfg_n c dvd 1" by (metis add_diff_cancel_left' mod_eq_dvd_iff)
  with assms(1) show False by simp
qed

text \<open>
  C36. A replica that crashes and restarts from its persistent register comes back in a later view
  than any it had reached, in the recovering state and with an empty record, and it is not the
  leader of that view; it sends its view change only to others, its record only to the leader.
\<close>

theorem recovery_starts_later_view:
  assumes reach: "ir_reach app config idx r" and n: "2 \<le> cfg_n config" "cfg_n config < 2 ^ 64"
    and v: "ir_view r < 2 ^ 64 - 2"
    and new: "IRReplica_new config idx a (persistent_view_info r) = (r', out)"
  shows "ir_view r < ir_view r' \<and> ir_status r' = STATUS_RECOVERING \<and> ir_record r' = [] \<and>
    idx \<noteq> GetLeaderIndex config (ir_view r') \<and>
    (\<forall>i m. ToReplica i (DoViewChange m) \<in> set out \<longrightarrow>
       i \<noteq> idx \<and> dv_new_view m = ir_view r' \<and> dv_latest_normal_view m = latest_normal_view r \<and>
       (dv_record m \<noteq> None \<longleftrightarrow> i = GetLeaderIndex config (ir_view r')))"
proof -
  let ?v = "ir_view r"
  have stored: "persistent_view_info r = Some (?v, latest_normal_view r)"
    using ir_reach_inv [OF reach] by (simp add: ir_inv_def)
  have v1: "?v < ?v + 1" "?v + 1 < ?v + 1 + 1"
    using v by (simp_all add: word_less_nat_alt unat_word_ariths)
  let ?w = "if idx = GetLeaderIndex config (?v + 1) then ?v + 1 + 1 else ?v + 1"
  have w: "?v < ?w" "idx \<noteq> GetLeaderIndex config ?w"
    using v1 next_leader_differs [OF n v1(2)] by auto
  have r': "ir_view r' = ?w" "ir_status r' = STATUS_RECOVERING" "ir_record r' = []" "myIdx r' = idx"
    "ir_config r' = config" "latest_normal_view r' = latest_normal_view r"
    "out = BroadcastDoViewChangeMessages r'"
    using new by (auto simp: IRReplica_new_def stored Let_def PersistViewInfo_def RecoverViewInfo_def)
  show ?thesis using w r' by (auto simp: BroadcastDoViewChangeMessages_def Let_def)
qed

theorem recovery_starts_later_view_witness:
  "ir_view (fst (IRReplica_new (group_of 1) 1 () (Some (0, 0)))) = 2 \<and>
   1 \<noteq> GetLeaderIndex (group_of 1) (ir_view (fst (IRReplica_new (group_of 1) 1 () (Some (0, 0)))))"
proof -
  let ?r = "fst (IRReplica_new (group_of 1) 1 () None)"
  let ?r' = "IRReplica_new (group_of 1) 1 () (Some (0, 0))"
  have "persistent_view_info ?r = Some (0, 0)" "ir_view ?r = 0"
    by (simp_all add: IRReplica_new_def PersistViewInfo_def)
  moreover have "ir_view (fst ?r') = 2"
    by (simp add: IRReplica_new_def PersistViewInfo_def RecoverViewInfo_def Let_def GetLeaderIndex_def
        Configuration_of_def)
  ultimately show ?thesis
    using recovery_starts_later_view [where app = ex_app, OF ir_reach.start, of "group_of 1" 1 "()" None "()" "fst ?r'" "snd ?r'"]
    by (simp add: Configuration_of_def)
qed

fun ir_run :: "'s IRApp \<Rightarrow> 's IRReplica \<Rightarrow> IRMessage list \<Rightarrow> 's IRReplica outcome" where
  "ir_run app r [] = Inr r"
| "ir_run app r (m # ms) = obind (IR_HandleMessage app r m) (\<lambda>(r', out). ir_run app r' ms)"

lemma ir_run_effect:
  assumes "ir_run app r ms = Inr r'" and "\<forall>m\<in>set ms. op_message m" and "record_wf (ir_record r)"
    and "map_of (ir_record r) opid = Some e"
  shows "record_wf (ir_record r') \<and> myIdx r' = myIdx r \<and>
    (\<exists>e'. map_of (ir_record r') opid = Some e' \<and> re_view e' = re_view e \<and> re_request e' = re_request e \<and>
       (re_state e = RECORD_STATE_FINALIZED \<longrightarrow> re_state e' = RECORD_STATE_FINALIZED) \<and>
       ((\<forall>res. FinalizeConsensus opid res \<notin> set ms) \<longrightarrow> re_result e' = re_result e))"
  using assms
proof (induction ms arbitrary: r e)
  case (Cons m ms)
  obtain r1 out where s: "IR_HandleMessage app r m = Inr (r1, out)" "ir_run app r1 ms = Inr r'"
    using Cons.prems(1) by (auto simp: obind_eq_Inr)
  have eff: "op_effect m r r1" using op_message_effect [OF Cons.prems(3) _ s(1)] Cons.prems(2) by simp
  then obtain e1 where e1: "map_of (ir_record r1) opid = Some e1" "re_view e1 = re_view e"
    "re_request e1 = re_request e"
    "re_state e = RECORD_STATE_FINALIZED \<longrightarrow> re_state e1 = RECORD_STATE_FINALIZED"
    "(\<forall>res. m \<noteq> FinalizeConsensus opid res) \<longrightarrow> re_result e1 = re_result e"
    using Cons.prems(4) unfolding op_effect_def by blast
  have "record_wf (ir_record r1)" "myIdx r1 = myIdx r" using eff by (simp_all add: op_effect_def)
  with Cons.IH [OF s(2) _ _ e1(1)] Cons.prems(2) e1(2-) show ?case by auto
qed simp

text \<open>
  An inconsistent operation is executed at most once: after a finalize message for a recorded
  operation has been handled, and whatever operation messages follow, another finalize message for
  it changes nothing (the upcall is not made) and sends nothing.
\<close>

theorem inconsistent_executed_once:
  assumes wf: "record_wf (ir_record r)" and known: "map_of (ir_record r) opid \<noteq> None"
    and fin: "HandleFinalizeInconsistent app r opid = Inr (r1, out)"
    and run: "ir_run app r1 ms = Inr r2" and ops: "\<forall>m\<in>set ms. op_message m"
  shows "HandleFinalizeInconsistent app r2 opid = Inr (r2, [])"
proof -
  have "IR_HandleMessage app r (FinalizeInconsistent opid) = Inr (r1, out)"
    using fin by (simp add: IR_HandleMessage_def)
  then have "op_effect (FinalizeInconsistent opid) r r1" by (rule op_message_effect [OF wf, rotated]) simp
  then have wf1: "record_wf (ir_record r1)" by (simp add: op_effect_def)
  obtain e where e: "map_of (ir_record r) opid = Some e" using known by blast
  have "\<exists>e1. map_of (ir_record r1) opid = Some e1 \<and> re_state e1 = RECORD_STATE_FINALIZED"
    using fin wf e
    by (cases "re_state e")
      (auto simp: HandleFinalizeInconsistent_def record_wf_Find Record_SetStatus_def obind_eq_Inr record_wf_def)
  then obtain e1 where e1: "map_of (ir_record r1) opid = Some e1" "re_state e1 = RECORD_STATE_FINALIZED"
    by blast
  from ir_run_effect [OF run ops wf1 e1(1)] e1(2) show ?thesis
    by (auto simp: HandleFinalizeInconsistent_def record_wf_Find)
qed

definition ex_rep :: "unit IRReplica" where
  "ex_rep = (fst (IRReplica_new (group_of 1) 0 () None))
     \<lparr>ir_record := [((1, 1), ex_entry 1 RECORD_STATE_TENTATIVE ''a'')]\<rparr>"

lemma ex_rep_wf: "record_wf (ir_record ex_rep)"
  by (simp add: ex_rep_def record_wf_def omap_wf_def entry_wf_def ex_entry_def)

theorem inconsistent_executed_once_witness:
  "\<exists>r1 r2 out. HandleFinalizeInconsistent ex_app ex_rep (1, 1) = Inr (r1, out) \<and>
     ir_run ex_app r1 [FinalizeConsensus (1, 1) ''b''] = Inr r2 \<and>
     HandleFinalizeInconsistent ex_app r2 (1, 1) = Inr (r2, [])"
proof -
  obtain r1 out where s1: "HandleFinalizeInconsistent ex_app ex_rep (1, 1) = Inr (r1, out)"
    "ir_record r1 = [((1, 1), ex_entry 1 RECORD_STATE_FINALIZED ''a'')]"
    by (simp add: HandleFinalizeInconsistent_def ex_rep_def Record_Find_def Record_SetStatus_def ex_app_def ex_entry_def)
  obtain r2 where s2: "ir_run ex_app r1 [FinalizeConsensus (1, 1) ''b''] = Inr r2"
    by (simp add: IR_HandleMessage_def HandleFinalizeConsensus_def s1(2) Record_Find_def Record_SetStatus_def
        ex_entry_def Let_def)
  have "map_of (ir_record ex_rep) (1, 1) \<noteq> None" by (simp add: ex_rep_def)
  from inconsistent_executed_once [OF ex_rep_wf this s1(1) s2] s1(1) s2 show ?thesis by auto
qed

text \<open>
  A consensus operation is executed at most once as long as the view does not change: a
  proposal that is sent again, after any operation messages that do not finalize it with another
  result, is answered with the result of the first execution and does not touch the application.
\<close>

theorem consensus_reply_stable:
  assumes wf: "record_wf (ir_record r)"
    and first: "HandleProposeConsensus app r req = Inr (r1, [ToSender (ReplyConsensus v i opid res fin)])"
    and run: "ir_run app r1 ms = Inr r2" and ops: "\<forall>m\<in>set ms. op_message m"
    and nofin: "\<forall>res'. FinalizeConsensus opid res' \<notin> set ms"
  shows "\<exists>fin'. HandleProposeConsensus app r2 req = Inr (r2, [ToSender (ReplyConsensus v i opid res fin')])"
proof -
  have "IR_HandleMessage app r (ProposeConsensus req) = Inr (r1, [ToSender (ReplyConsensus v i opid res fin)])"
    using first by (simp add: IR_HandleMessage_def)
  then have "op_effect (ProposeConsensus req) r r1" by (rule op_message_effect [OF wf, rotated]) simp
  then have wf1: "record_wf (ir_record r1)" by (simp add: op_effect_def)
  have "opid = (clientid req, clientreqid req) \<and> i = myIdx r1 \<and>
      (\<exists>e1. map_of (ir_record r1) opid = Some e1 \<and> re_result e1 = res \<and> re_view e1 = v)"
    using first wf
    by (auto simp: HandleProposeConsensus_def Let_def record_wf_Find Record_Add_eq obind_eq_Inr record_wf_def
        split: option.splits)
  then obtain e1 where e1: "opid = (clientid req, clientreqid req)" "i = myIdx r1"
    "map_of (ir_record r1) opid = Some e1" "re_result e1 = res" "re_view e1 = v" by blast
  from ir_run_effect [OF run ops wf1 e1(3)] nofin obtain e2 where "record_wf (ir_record r2)" "myIdx r2 = i"
    "map_of (ir_record r2) opid = Some e2" "re_result e2 = res" "re_view e2 = v"
    using e1 by auto
  then show ?thesis using e1(1) by (simp add: HandleProposeConsensus_def Let_def record_wf_Find)
qed

theorem consensus_reply_stable_witness:
  "\<exists>r1 r2 fin'. HandleProposeConsensus ex_app ex_rep \<lparr>rop = ''x'', clientid = 7, clientreqid = 3\<rparr> =
       Inr (r1, [ToSender (ReplyConsensus 0 0 (7, 3) ''x'' False)]) \<and>
     ir_run ex_app r1 [FinalizeInconsistent (1, 1)] = Inr r2 \<and>
     HandleProposeConsensus ex_app r2 \<lparr>rop = ''x'', clientid = 7, clientreqid = 3\<rparr> =
       Inr (r2, [ToSender (ReplyConsensus 0 0 (7, 3) ''x'' fin')])"
proof -
  let ?req = "\<lparr>rop = ''x'', clientid = 7, clientreqid = 3\<rparr>"
  obtain r1 where s1: "HandleProposeConsensus ex_app ex_rep ?req =
      Inr (r1, [ToSender (ReplyConsensus 0 0 (7, 3) ''x'' False)])"
    "ir_record r1 = [((1, 1), ex_entry 1 RECORD_STATE_TENTATIVE ''a''),
       ((7, 3), \<lparr>re_view = 0, re_opid = (7, 3), re_state = RECORD_STATE_TENTATIVE,
                 re_type = RECORD_TYPE_CONSENSUS, re_request = ?req, re_result = ''x''\<rparr>)]"
    by (simp add: HandleProposeConsensus_def ex_rep_def Record_Find_def Record_Add_def Record_Add_empty_def
        Record_Add_entry_def ex_app_def ex_entry_def IRReplica_new_def PersistViewInfo_def Let_def)
  obtain r2 where s2: "ir_run ex_app r1 [FinalizeInconsistent (1, 1)] = Inr r2"
    by (simp add: IR_HandleMessage_def HandleFinalizeInconsistent_def s1(2) Record_Find_def Record_SetStatus_def
        ex_entry_def ex_app_def)
  from consensus_reply_stable [OF ex_rep_wf s1(1) s2] s1(1) s2 show ?thesis by auto
qed

end
