(* ===== verification/Promises.thy ===== *)
theory Promises
  imports Tapir_Types
begin

text \<open>
  The promises on which client calls wait, \<^verbatim>\<open>store/common/promise.cc\<close>. A getter blocks on a
  condition variable until the promise is done; in the model it gives \<open>None\<close> as long as it would
  block, and the reply once there is one.
\<close>

record Promise =
  pr_done :: bool
  pr_timeout :: int
  pr_reply :: int
  pr_timestamp :: Timestamp
  pr_value :: string

definition Promise_new :: "int \<Rightarrow> Promise" where
  "Promise_new timeoutMS = \<lparr>pr_done = False, pr_timeout = timeoutMS, pr_reply = 0,
     pr_timestamp = Timestamp_default, pr_value = ''''\<rparr>"

definition Promise_default :: Promise where
  "Promise_default = Promise_new 1000"

definition Promise_GetTimeout :: "Promise \<Rightarrow> int" where
  "Promise_GetTimeout p = pr_timeout p"

definition ReplyInternal :: "Promise \<Rightarrow> int \<Rightarrow> Promise" where
  "ReplyInternal p r = p\<lparr>pr_done := True, pr_reply := r\<rparr>"

definition Promise_Reply :: "Promise \<Rightarrow> int \<Rightarrow> Promise" where
  "Promise_Reply p r = ReplyInternal p r"

definition Promise_Reply_t :: "Promise \<Rightarrow> int \<Rightarrow> Timestamp \<Rightarrow> Promise" where
  "Promise_Reply_t p r t = ReplyInternal (p\<lparr>pr_timestamp := t\<rparr>) r"

definition Promise_Reply_v :: "Promise \<Rightarrow> int \<Rightarrow> string \<Rightarrow> Promise" where
  "Promise_Reply_v p r v = ReplyInternal (p\<lparr>pr_value := v\<rparr>) r"

definition Promise_Reply_tv :: "Promise \<Rightarrow> int \<Rightarrow> Timestamp \<Rightarrow> string \<Rightarrow> Promise" where
  "Promise_Reply_tv p r t v = ReplyInternal (p\<lparr>pr_value := v, pr_timestamp := t\<rparr>) r"

definition GetReply :: "Promise \<Rightarrow> int option" where
  "GetReply p = (if pr_done p then Some (pr_reply p) else None)"

definition GetTimestamp :: "Promise \<Rightarrow> Timestamp option" where
  "GetTimestamp p = (if pr_done p then Some (pr_timestamp p) else None)"

definition GetValue :: "Promise \<Rightarrow> string option" where
  "GetValue p = (if pr_done p then Some (pr_value p) else None)"

lemmas promise_defs = Promise_Reply_def Promise_Reply_t_def Promise_Reply_v_def Promise_Reply_tv_def
  ReplyInternal_def GetReply_def GetTimestamp_def GetValue_def Promise_new_def Promise_default_def

lemma promise_pending [simp]: "GetReply (Promise_new t) = None"
  by (simp add: promise_defs)

lemma promise_answered [simp]:
  "GetReply (Promise_Reply p r) = Some r" "GetReply (Promise_Reply_t p r t) = Some r"
  "GetReply (Promise_Reply_v p r v) = Some r" "GetReply (Promise_Reply_tv p r t v) = Some r"
  "GetTimestamp (Promise_Reply_t p r t) = Some t" "GetTimestamp (Promise_Reply_tv p r t v) = Some t"
  "GetValue (Promise_Reply_v p r v) = Some v" "GetValue (Promise_Reply_tv p r t v) = Some v"
  by (simp_all add: promise_defs)

end
