(* ===== verification/Lock_App.thy ===== *)
theory Lock_App
  imports IR_Replica Promises
begin

text \<open>
  The replicated lock service that runs on inconsistent replication: the application of
  \<^verbatim>\<open>lockserver/server.cc\<close> and the client of \<^verbatim>\<open>lockserver/client.cc\<close>. The protobuf codecs of
  \<^verbatim>\<open>locks-proto.proto\<close> are parameters: \<open>preq\<close> and \<open>prep\<close> parse a request and a reply (a failed parse
  leaves the default fields), \<open>srep\<close> serializes a reply. The iteration order of an
  \<^verbatim>\<open>std::unordered_set\<close> is the parameter \<open>iter\<close>, a function of the insertions.
\<close>

declare split_paired_All [simp del] split_paired_Ex [simp del]

section \<open>The application\<close>

record LockRequest =
  lr_clientid :: u64
  lr_key :: string
  lr_type :: bool

record LockReply =
  lp_key :: string
  lp_status :: int

type_synonym lock_table = "string \<rightharpoonup> u64"

definition Lock_ExecInconsistentUpcall ::
  "(string \<Rightarrow> LockRequest) \<Rightarrow> lock_table \<Rightarrow> string \<Rightarrow> lock_table" where
  "Lock_ExecInconsistentUpcall preq locks str1 =
     (let request = preq str1; key = lr_key request; client_id = lr_clientid request in
      if lr_type request then locks
      else case locks key of
             Some holder \<Rightarrow> if client_id = holder then locks(key := None) else locks
           | None \<Rightarrow> locks)"

definition Lock_ExecConsensusUpcall ::
  "(string \<Rightarrow> LockRequest) \<Rightarrow> (LockReply \<Rightarrow> string) \<Rightarrow> lock_table \<Rightarrow> string \<Rightarrow> string \<times> lock_table" where
  "Lock_ExecConsensusUpcall preq srep locks str1 =
     (let request = preq str1; key = lr_key request; client_id = lr_clientid request;
          (status, locks') =
            (if lr_type request then
               (case locks key of
                  None \<Rightarrow> (0, locks(key \<mapsto> client_id))
                | Some holder \<Rightarrow> if holder \<noteq> client_id then (-1, locks) else (0, locks))
             else
               (case locks key of
                  None \<Rightarrow> (-2, locks)
                | Some holder \<Rightarrow> if holder \<noteq> client_id then (-2, locks) else (0, locks(key := None))))
      in (srep \<lparr>lp_key = key, lp_status = status\<rparr>, locks'))"

definition Lock_UnloggedUpcall :: "lock_table \<Rightarrow> string \<Rightarrow> string \<times> lock_table" where
  "Lock_UnloggedUpcall locks str1 = ('''', locks)"

text \<open>
  \<^verbatim>\<open>Sync\<close> rebuilds the table from the record. The clients that locked and unlocked a key are
  collected in insertion order; \<^verbatim>\<open>std::set_difference\<close> requires both ranges to be sorted.
\<close>

record KeyLockInfo =
  locked :: "u64 list"
  unlocked :: "u64 list"

definition key_info :: "(string \<times> KeyLockInfo) list \<Rightarrow> string \<Rightarrow> KeyLockInfo" where
  "key_info infos key = (case map_of infos key of None \<Rightarrow> \<lparr>locked = [], unlocked = []\<rparr> | Some i \<Rightarrow> i)"

definition set_add :: "'a \<Rightarrow> 'a list \<Rightarrow> 'a list" where
  "set_add x xs = (if x \<in> set xs then xs else xs @ [x])"

definition sync_entry ::
  "(string \<Rightarrow> LockRequest) \<Rightarrow> (string \<Rightarrow> LockReply) \<Rightarrow> (string \<times> KeyLockInfo) list \<Rightarrow> RecordEntry
    \<Rightarrow> (string \<times> KeyLockInfo) list" where
  "sync_entry preq prep infos entry =
     (let request = preq (rop (re_request entry)); reply = prep (re_result entry);
          info = key_info infos (lr_key request);
          info' = (if lr_type request \<and> lp_status reply = 0
                   then info\<lparr>locked := set_add (lr_clientid request) (locked info)\<rparr>
                   else if \<not> lr_type request \<and> lp_status reply = 0
                   then info\<lparr>unlocked := set_add (lr_clientid request) (unlocked info)\<rparr>
                   else info)
      in AList.update (lr_key request) info' infos)"

fun set_difference :: "u64 list \<Rightarrow> u64 list \<Rightarrow> u64 list" where
  "set_difference [] ys = []"
| "set_difference xs [] = xs"
| "set_difference (x # xs) (y # ys) =
     (if x < y then x # set_difference xs (y # ys)
      else if y < x then set_difference (x # xs) ys
      else set_difference xs ys)"

definition sync_key :: "(u64 list \<Rightarrow> u64 list) \<Rightarrow> KeyLockInfo \<Rightarrow> u64 option outcome" where
  "sync_key iter info =
     (let l = iter (locked info); u = iter (unlocked info) in
      if \<not> (sorted l \<and> sorted u) then Inl (Undefined ''set_difference of unsorted ranges'')
      else
        let diff = set_difference l u in
        obind (assert_that (length diff = 0 \<or> length diff = 1) ''diff.size() == 0 || diff.size() == 1'') (\<lambda>_.
          Inr (if length diff = 1 then Some (hd diff) else None)))"

fun sync_keys ::
  "(u64 list \<Rightarrow> u64 list) \<Rightarrow> (string \<times> KeyLockInfo) list \<Rightarrow> lock_table \<Rightarrow> lock_table outcome" where
  "sync_keys iter [] locks = Inr locks"
| "sync_keys iter ((key, info) # infos) locks =
     obind (sync_key iter info) (\<lambda>holder.
       sync_keys iter infos (case holder of None \<Rightarrow> locks | Some c \<Rightarrow> locks(key \<mapsto> c)))"

definition Lock_Sync ::
  "(string \<Rightarrow> LockRequest) \<Rightarrow> (string \<Rightarrow> LockReply) \<Rightarrow> (u64 list \<Rightarrow> u64 list) \<Rightarrow> lock_table \<Rightarrow> Record
    \<Rightarrow> lock_table outcome" where
  "Lock_Sync preq prep iter locks record =
     sync_keys iter (foldl (sync_entry preq prep) [] (map snd record)) Map.empty"

text \<open>The two loops of \<^verbatim>\<open>Merge\<close>, over \<open>d\<close> and over \<open>u\<close>, in the order of the operation ids.\<close>

fun merge_d ::
  "(string \<Rightarrow> LockRequest) \<Rightarrow> (string \<Rightarrow> LockReply) \<Rightarrow> (LockReply \<Rightarrow> string) \<Rightarrow> (opid_t \<times> string) list
    \<Rightarrow> opmap \<Rightarrow> (opid_t \<times> string) list \<times> lock_table \<Rightarrow> ((opid_t \<times> string) list \<times> lock_table) outcome" where
  "merge_d preq prep srep maj [] acc = Inr acc"
| "merge_d preq prep srep maj ((opid, entries) # ds) (results, locks) =
     (case entries of
        [] \<Rightarrow> Inl (Undefined ''*begin of an empty vector'')
      | entry # _ \<Rightarrow>
          (case map_of maj opid of
             None \<Rightarrow> Inl (AssertFail ''iter != std::end(majority_results_in_d)'')
           | Some s \<Rightarrow>
               let request = preq (rop (re_request entry)); reply = prep s; key = lp_key reply in
               merge_d preq prep srep maj ds
                 (if lp_status reply = 0 then
                    (if locks key = None
                     then (omap_put opid s results, locks(key \<mapsto> lr_clientid request))
                     else (omap_put opid (srep (reply\<lparr>lp_status := -1\<rparr>)) results, locks))
                  else (omap_put opid s results, locks))))"

fun merge_u ::
  "(string \<Rightarrow> LockRequest) \<Rightarrow> (LockReply \<Rightarrow> string) \<Rightarrow> opmap \<Rightarrow> (opid_t \<times> string) list
    \<Rightarrow> (opid_t \<times> string) list outcome" where
  "merge_u preq srep [] results = Inr results"
| "merge_u preq srep ((opid, entries) # us) results =
     (case entries of
        [] \<Rightarrow> Inl (Undefined ''*begin of an empty vector'')
      | entry # _ \<Rightarrow>
          let request = preq (rop (re_request entry)) in
          merge_u preq srep us (omap_put opid (srep \<lparr>lp_key = lr_key request, lp_status = -1\<rparr>) results))"

definition Lock_Merge ::
  "(string \<Rightarrow> LockRequest) \<Rightarrow> (string \<Rightarrow> LockReply) \<Rightarrow> (LockReply \<Rightarrow> string) \<Rightarrow> lock_table \<Rightarrow> opmap \<Rightarrow> opmap
    \<Rightarrow> (opid_t \<times> string) list \<Rightarrow> ((opid_t \<times> string) list \<times> lock_table) outcome" where
  "Lock_Merge preq prep srep locks d u maj =
     obind (merge_d preq prep srep maj d ([], locks)) (\<lambda>(results, locks').
       obind (merge_u preq srep u results) (\<lambda>results'. Inr (results', locks')))"

definition LockApp ::
  "(string \<Rightarrow> LockRequest) \<Rightarrow> (string \<Rightarrow> LockReply) \<Rightarrow> (LockReply \<Rightarrow> string) \<Rightarrow> (u64 list \<Rightarrow> u64 list)
    \<Rightarrow> lock_table IRApp" where
  "LockApp preq prep srep iter =
     \<lparr>ExecInconsistentUpcall = (\<lambda>a s. Inr (Lock_ExecInconsistentUpcall preq a s)),
      ExecConsensusUpcall = (\<lambda>a s. Inr (Lock_ExecConsensusUpcall preq srep a s)),
      UnloggedUpcall = (\<lambda>a s. Inr (Lock_UnloggedUpcall a s)),
      Sync = Lock_Sync preq prep iter,
      Merge = Lock_Merge preq prep srep\<rparr>"

section \<open>The client\<close>

text \<open>
  \<^verbatim>\<open>Decide\<close> gets the reply strings with their counts. The results are visited in the order of the
  map; the key of the final reply is that of the last one.
\<close>

definition LockClient_Decide ::
  "(string \<Rightarrow> LockReply) \<Rightarrow> (LockReply \<Rightarrow> string) \<Rightarrow> (string \<times> nat) list \<Rightarrow> string" where
  "LockClient_Decide prep srep results =
     (let (success_count, key) =
            foldl (\<lambda>(n, k) (s, count). let reply = prep s in
                     (if lp_status reply = 0 then n + int count else n, lp_key reply)) (0, []) results
      in srep \<lparr>lp_key = key, lp_status = (if success_count \<ge> 2 then 0 else -1)\<rparr>)"

text \<open>
  The client object: \<open>lc_waiting\<close> is the pointer \<^verbatim>\<open>waiting\<close>, an index into the promises allocated so
  far. Waiting is two steps, the checks before blocking on the promise and what follows its answer,
  because the callbacks run on the transport's thread in between; they clear the pointer.
\<close>

record LockClient =
  lc_client_id :: u64
  lc_waiting :: "nat option"
  lc_promises :: "Promise list"

definition lock_request :: "LockClient \<Rightarrow> string \<Rightarrow> bool \<Rightarrow> LockRequest" where
  "lock_request c key type = \<lparr>lr_clientid = lc_client_id c, lr_key = key, lr_type = type\<rparr>"

definition lock_async :: "LockClient \<Rightarrow> string \<Rightarrow> (LockClient \<times> LockRequest) outcome" where
  "lock_async c key =
     obind (assert_that (lc_waiting c = None) ''waiting == nullptr'') (\<lambda>_.
       Inr (c\<lparr>lc_waiting := Some (length (lc_promises c)),
              lc_promises := lc_promises c @ [Promise_new 1000]\<rparr>, lock_request c key True))"

definition unlock_async :: "LockClient \<Rightarrow> string \<Rightarrow> (LockClient \<times> LockRequest) outcome" where
  "unlock_async c key =
     obind (assert_that (lc_waiting c = None) ''waiting == nullptr'') (\<lambda>_.
       Inr (c\<lparr>lc_waiting := Some (length (lc_promises c)),
              lc_promises := lc_promises c @ [Promise_new 1000]\<rparr>, lock_request c key False))"

definition lc_answer :: "LockClient \<Rightarrow> int \<Rightarrow> LockClient outcome" where
  "lc_answer c status =
     (case lc_waiting c of
        None \<Rightarrow> Inl (Undefined ''null promise'')
      | Some w \<Rightarrow> Inr (c\<lparr>lc_waiting := None,
                        lc_promises := (lc_promises c)[w := Promise_Reply (lc_promises c ! w) status]\<rparr>))"

definition LockCallback :: "(string \<Rightarrow> LockReply) \<Rightarrow> LockClient \<Rightarrow> string \<Rightarrow> LockClient outcome" where
  "LockCallback prep c reply_str = lc_answer c (lp_status (prep reply_str))"

definition UnlockCallback :: "LockClient \<Rightarrow> LockClient outcome" where
  "UnlockCallback c = lc_answer c 0"

definition ErrorCallback :: "LockClient \<Rightarrow> LockClient outcome" where
  "ErrorCallback c = lc_answer c (-3)"

definition lock_wait_begin :: "LockClient \<Rightarrow> nat outcome" where
  "lock_wait_begin c =
     (case lc_waiting c of None \<Rightarrow> Inl (AssertFail ''waiting != nullptr'') | Some w \<Rightarrow> Inr w)"

definition unlock_wait_begin :: "LockClient \<Rightarrow> nat outcome" where
  "unlock_wait_begin c =
     (case lc_waiting c of None \<Rightarrow> Inl (Undefined ''null promise'') | Some w \<Rightarrow> Inr w)"

definition lock_wait_end :: "LockClient \<Rightarrow> nat \<Rightarrow> (bool \<times> LockClient) option" where
  "lock_wait_end c w =
     (case GetReply (lc_promises c ! w) of
        None \<Rightarrow> None
      | Some status \<Rightarrow> Some (status = 0, c\<lparr>lc_waiting := None\<rparr>))"

definition unlock_wait_end :: "LockClient \<Rightarrow> nat \<Rightarrow> LockClient option" where
  "unlock_wait_end c w =
     (case GetReply (lc_promises c ! w) of None \<Rightarrow> None | Some status \<Rightarrow> Some (c\<lparr>lc_waiting := None\<rparr>))"

section \<open>Merge answers every operation\<close>

lemma merge_d_Cons:
  "map_of maj opid = Some s \<Longrightarrow>
   merge_d preq prep srep maj ((opid, entry # es) # d) (results, locks) =
   merge_d preq prep srep maj d
     (omap_put opid (if lp_status (prep s) = 0 \<and> locks (lp_key (prep s)) \<noteq> None
                     then srep (prep s\<lparr>lp_status := -1\<rparr>) else s) results,
      if lp_status (prep s) = 0 \<and> locks (lp_key (prep s)) = None
      then locks(lp_key (prep s) \<mapsto> lr_clientid (preq (rop (re_request entry)))) else locks)"
  by (auto simp: Let_def)

lemma merge_d_total:
  assumes "omap_wf results" and "\<forall>p\<in>set d. snd p \<noteq> []" and "fst ` set d \<subseteq> fst ` set maj"
  shows "\<exists>results' locks'. merge_d preq prep srep maj d (results, locks) = Inr (results', locks') \<and>
    omap_wf results' \<and> fst ` set results' = fst ` set results \<union> fst ` set d"
  using assms
proof (induction d arbitrary: results locks)
  case (Cons p d)
  obtain opid entry es where p: "p = (opid, entry # es)" using Cons.prems(2) by (cases p; cases "snd p") auto
  obtain s where s: "map_of maj opid = Some s"
    using Cons.prems(3) okeys_map_of [of maj] by (auto simp: p)
  note step = merge_d_Cons [OF s, of preq prep srep entry es d results locks]
  let ?r1 = "omap_put opid (if lp_status (prep s) = 0 \<and> locks (lp_key (prep s)) \<noteq> None
      then srep (prep s\<lparr>lp_status := -1\<rparr>) else s) results"
  have "omap_wf ?r1" "fst ` set ?r1 = insert opid (fst ` set results)" using Cons.prems(1) by simp_all
  with Cons.IH [of ?r1] Cons.prems(2,3) show ?case unfolding p step by simp
qed simp

lemma merge_u_total:
  assumes "omap_wf results" and "\<forall>p\<in>set u. snd p \<noteq> []"
  shows "\<exists>results'. merge_u preq srep u results = Inr results' \<and> omap_wf results' \<and>
    fst ` set results' = fst ` set results \<union> fst ` set u"
  using assms
proof (induction u arbitrary: results)
  case (Cons p u)
  obtain opid entry es where p: "p = (opid, entry # es)" using Cons.prems(2) by (cases p; cases "snd p") auto
  show ?case using Cons.IH [of "omap_put opid (srep \<lparr>lp_key = lr_key (preq (rop (re_request entry))),
      lp_status = -1\<rparr>) results"] Cons.prems by (simp add: p Let_def)
qed simp

lemma Lock_Merge_total:
  assumes "\<forall>p\<in>set d \<union> set u. snd p \<noteq> []" and "fst ` set d \<subseteq> fst ` set maj"
  shows "\<exists>results locks'. Lock_Merge preq prep srep locks d u maj = Inr (results, locks') \<and> omap_wf results \<and>
    fst ` set results = fst ` set d \<union> fst ` set u"
proof -
  obtain r1 l1 where d: "merge_d preq prep srep maj d ([], locks) = Inr (r1, l1)" "omap_wf r1"
    "fst ` set r1 = fst ` set d"
    using merge_d_total [of "[]" d maj preq prep srep locks] assms by auto
  obtain r2 where u: "merge_u preq srep u r1 = Inr r2" "omap_wf r2" "fst ` set r2 = fst ` set r1 \<union> fst ` set u"
    using merge_u_total [OF d(2), of u preq srep] assms by auto
  show ?thesis using d u by (simp add: Lock_Merge_def)
qed

interpretation lka: ir_merging_app "LockApp preq prep srep iter"
  for preq :: "string \<Rightarrow> LockRequest" and prep :: "string \<Rightarrow> LockReply" and srep iter
proof
  fix d u :: opmap and maj :: "(opid_t \<times> string) list" and a
  assume "\<forall>p\<in>set d \<union> set u. snd p \<noteq> []" and "fst ` set d \<subseteq> fst ` set maj"
  from Lock_Merge_total [OF this]
  show "\<exists>results a'. Merge (LockApp preq prep srep iter) a d u maj = Inr (results, a') \<and> omap_wf results \<and>
      fst ` set results = fst ` set d \<union> fst ` set u"
    by (simp add: LockApp_def)
qed

text \<open>
  C14. The view change of a replica that runs the lock service cannot go wrong after its
  \<^verbatim>\<open>Sync\<close>: from well-formed records in which an operation id has one type, the merge builds a
  well-formed record with exactly the operations of the merged records, all of its consensus
  operations finalized, in which every consensus operation that was finalized in a merged record
  keeps a finalized entry of these records.
\<close>

theorem lock_merge_records:
  assumes "\<forall>rec\<in>set recs. record_wf rec" and "one_type (concat recs)" and "ms \<noteq> []"
  shows "\<exists>R groups. group_entries (concat recs) ([], []) = Inr (R, groups) \<and>
    (case Lock_Sync preq prep iter a R of
       Inl e \<Rightarrow> merge_records (LockApp preq prep srep iter) f v ms recs a = Inl e
     | Inr _ \<Rightarrow> (\<exists>R' a'. merge_records (LockApp preq prep srep iter) f v ms recs a = Inr (R', a') \<and>
                   merged_ok (concat recs) R'))"
  using lka.merge_records_ok [OF assms, where preq = preq and prep = prep and srep = srep and iter = iter
      and a = a and f = f and v = v] by (simp add: LockApp_def)

section \<open>What Merge grants\<close>

definition granted :: "(string \<Rightarrow> LockReply) \<Rightarrow> (opid_t \<times> string) list \<Rightarrow> opid_t \<Rightarrow> bool" where
  "granted prep results opid \<longleftrightarrow> (\<exists>s. map_of results opid = Some s \<and> lp_status (prep s) = 0)"

definition grant_ok ::
  "(string \<Rightarrow> LockRequest) \<Rightarrow> (string \<Rightarrow> LockReply) \<Rightarrow> (opid_t \<times> string) list \<Rightarrow> opmap \<Rightarrow> lock_table
    \<Rightarrow> (opid_t \<times> string) list \<Rightarrow> lock_table \<Rightarrow> bool" where
  "grant_ok preq prep maj d locks results' locks' \<longleftrightarrow>
     (\<forall>p\<in>set d. granted prep results' (fst p) \<longrightarrow>
        (\<exists>s. map_of maj (fst p) = Some s \<and> map_of results' (fst p) = Some s \<and> locks (lp_key (prep s)) = None \<and>
             locks' (lp_key (prep s)) = Some (lr_clientid (preq (rop (re_request (hd (snd p))))))))"

definition op_key :: "(string \<Rightarrow> LockReply) \<Rightarrow> (opid_t \<times> string) list \<Rightarrow> opid_t \<Rightarrow> string" where
  "op_key prep maj opid = lp_key (prep (the (map_of maj opid)))"

lemma merge_d_keeps:
  assumes "omap_wf results" and "merge_d preq prep srep maj d (results, locks) = Inr (results', locks')"
  shows "omap_wf results' \<and> locks \<subseteq>\<^sub>m locks' \<and>
    (\<forall>k. k \<notin> fst ` set d \<longrightarrow> map_of results' k = map_of results k)"
  using assms
proof (induction d arbitrary: results locks)
  case (Cons p d)
  obtain opid entry es where p: "p = (opid, entry # es)"
    using Cons.prems(2) by (cases p) (auto split: list.splits)
  obtain s where s: "map_of maj opid = Some s" using Cons.prems(2) by (auto simp: p split: option.splits)
  let ?k = "lp_key (prep s)"
  define r1 where "r1 = omap_put opid (if lp_status (prep s) = 0 \<and> locks ?k \<noteq> None
    then srep (prep s\<lparr>lp_status := -1\<rparr>) else s) results"
  define l1 where "l1 = (if lp_status (prep s) = 0 \<and> locks ?k = None
    then locks(?k \<mapsto> lr_clientid (preq (rop (re_request entry)))) else locks)"
  have step: "merge_d preq prep srep maj d (r1, l1) = Inr (results', locks')"
    using Cons.prems(2) unfolding p merge_d_Cons [OF s] r1_def l1_def .
  have "omap_wf r1" "locks \<subseteq>\<^sub>m l1" "\<And>k. k \<noteq> opid \<Longrightarrow> map_of r1 k = map_of results k"
    using Cons.prems(1) by (auto simp: r1_def l1_def map_le_def)
  with Cons.IH [OF _ step] show ?case by (auto simp: p intro: map_le_trans)
qed simp


lemma merge_d_grants:
  assumes codec: "\<And>x. prep (srep x) = x" and "omap_wf results" and "distinct (map fst d)"
    and "merge_d preq prep srep maj d (results, locks) = Inr (results', locks')"
  shows "grant_ok preq prep maj d locks results' locks' \<and>
    inj_on (op_key prep maj) {opid \<in> fst ` set d. granted prep results' opid}"
  using assms(2-)
proof (induction d arbitrary: results locks)
  case (Cons p d)
  obtain opid entry es where p: "p = (opid, entry # es)"
    using Cons.prems(3) by (cases p) (auto split: list.splits)
  obtain s where s: "map_of maj opid = Some s" using Cons.prems(3) by (auto simp: p split: option.splits)
  let ?k = "lp_key (prep s)" and ?c = "lr_clientid (preq (rop (re_request entry)))"
  define r1 where "r1 = omap_put opid (if lp_status (prep s) = 0 \<and> locks ?k \<noteq> None
    then srep (prep s\<lparr>lp_status := -1\<rparr>) else s) results"
  define l1 where "l1 = (if lp_status (prep s) = 0 \<and> locks ?k = None then locks(?k \<mapsto> ?c) else locks)"
  have step: "merge_d preq prep srep maj d (r1, l1) = Inr (results', locks')"
    using Cons.prems(3) unfolding p merge_d_Cons [OF s] r1_def l1_def .
  have wf1: "omap_wf r1" and dist: "distinct (map fst d)" and new: "opid \<notin> fst ` set d"
    using Cons.prems(1,2) by (simp_all add: r1_def p)
  note IH = Cons.IH [OF wf1 dist step] and keeps = merge_d_keeps [OF wf1 step]
  have res: "map_of results' opid = map_of r1 opid" using keeps new by blast
  have granted: "granted prep results' opid \<longleftrightarrow> lp_status (prep s) = 0 \<and> locks ?k = None"
    unfolding granted_def res using Cons.prems(1) codec by (auto simp: r1_def)
  have head: "map_of results' opid = Some s \<and> locks ?k = None \<and> locks' ?k = Some ?c"
    if "granted prep results' opid"
    using that keeps res Cons.prems(1) unfolding granted map_le_def by (auto simp: l1_def r1_def)
  have rest: "locks k = None" if "l1 k = None" for k
    using that by (auto simp: l1_def split: if_splits)
  have tail: "grant_ok preq prep maj d locks results' locks'" using IH rest unfolding grant_ok_def by blast
  have ok: "grant_ok preq prep maj (p # d) locks results' locks'"
    unfolding grant_ok_def
  proof
    fix q assume q: "q \<in> set (p # d)"
    show "granted prep results' (fst q) \<longrightarrow> (\<exists>s. map_of maj (fst q) = Some s \<and> map_of results' (fst q) = Some s \<and>
        locks (lp_key (prep s)) = None \<and>
        locks' (lp_key (prep s)) = Some (lr_clientid (preq (rop (re_request (hd (snd q)))))))"
    proof (cases "q = p")
      case True
      then show ?thesis using head s by (simp add: p)
    next
      case False
      then show ?thesis using q bspec [OF tail [unfolded grant_ok_def], of q] by simp
    qed
  qed
  have other: "op_key prep maj k \<noteq> op_key prep maj opid"
    if "granted prep results' opid" "k \<in> fst ` set d" "granted prep results' k" for k
  proof -
    have "l1 (op_key prep maj k) = None" using IH that(2,3) unfolding grant_ok_def op_key_def by force
    moreover have "l1 ?k = Some ?c" using that(1) granted by (simp add: l1_def)
    moreover have "op_key prep maj opid = ?k" by (simp add: op_key_def s)
    ultimately show ?thesis by force
  qed
  let ?S = "{k \<in> fst ` set d. granted prep results' k}"
  have "{k \<in> fst ` set (p # d). granted prep results' k} =
      (if granted prep results' opid then insert opid ?S else ?S)"
    by (auto simp: p)
  moreover have "op_key prep maj opid \<notin> op_key prep maj ` (?S - {opid})" if "granted prep results' opid"
  proof
    assume "op_key prep maj opid \<in> op_key prep maj ` (?S - {opid})"
    then obtain k where "k \<in> ?S" and eq: "op_key prep maj opid = op_key prep maj k" by (rule imageE) blast
    then have "k \<in> fst ` set d" "granted prep results' k" by simp_all
    from other [OF that this] eq show False by simp
  qed
  ultimately have "inj_on (op_key prep maj) {k \<in> fst ` set (p # d). granted prep results' k}"
    using IH by (simp add: inj_on_insert)
  with ok show ?case by blast
qed (simp add: grant_ok_def)

lemma merge_u_keeps:
  assumes "omap_wf results" and "merge_u preq srep u results = Inr results'" and "distinct (map fst u)"
  shows "(\<forall>k. k \<notin> fst ` set u \<longrightarrow> map_of results' k = map_of results k) \<and>
    (\<forall>p\<in>set u. \<exists>key. map_of results' (fst p) = Some (srep \<lparr>lp_key = key, lp_status = -1\<rparr>))"
  using assms
proof (induction u arbitrary: results)
  case (Cons p u)
  obtain opid entry es where p: "p = (opid, entry # es)"
    using Cons.prems(2) by (cases p) (auto split: list.splits)
  let ?r1 = "omap_put opid (srep \<lparr>lp_key = lr_key (preq (rop (re_request entry))), lp_status = -1\<rparr>) results"
  have step: "merge_u preq srep u ?r1 = Inr results'" using Cons.prems(2) by (simp add: p Let_def)
  have wf1: "omap_wf ?r1" and dist: "distinct (map fst u)" and new: "opid \<notin> fst ` set u"
    using Cons.prems(1,3) by (simp_all add: p)
  from Cons.IH [OF wf1 step dist] new Cons.prems(1) show ?case by (auto simp: p)
qed simp

text \<open>
  Mutual exclusion across a view change: \<^verbatim>\<open>Merge\<close> takes no lock away; an operation it grants
  was successful in a majority, its lock was free, and its client holds the lock afterwards; two
  operations it grants are on different keys; and every operation without a majority is refused.
\<close>

theorem lock_merge_grants:
  assumes codec: "\<And>x. prep (srep x) = x" and "omap_wf d" and "omap_wf u"
    and disj: "fst ` set d \<inter> fst ` set u = {}"
    and m: "Lock_Merge preq prep srep locks d u maj = Inr (results, locks')"
  shows "locks \<subseteq>\<^sub>m locks' \<and> grant_ok preq prep maj d locks results locks' \<and>
    inj_on (op_key prep maj) {opid \<in> fst ` set d. granted prep results opid} \<and>
    (\<forall>p\<in>set u. \<not> granted prep results (fst p))"
proof -
  obtain r1 where d: "merge_d preq prep srep maj d ([], locks) = Inr (r1, locks')"
    and u: "merge_u preq srep u r1 = Inr results"
    using m by (auto simp: Lock_Merge_def obind_eq_Inr)
  have wf: "omap_wf ([] :: (opid_t \<times> string) list)" by simp
  note g = merge_d_grants [OF codec wf omap_wf_distinct [OF assms(2)] d] and k = merge_d_keeps [OF wf d]
  note r = merge_u_keeps [OF _ u omap_wf_distinct [OF assms(3)]]
  have same: "map_of results opid = map_of r1 opid" if "opid \<in> fst ` set d" for opid
    using r k disj that by blast
  have gr: "granted prep results opid \<longleftrightarrow> granted prep r1 opid" if "opid \<in> fst ` set d" for opid
    using same [OF that] by (simp add: granted_def)
  have "grant_ok preq prep maj d locks results locks'"
    using conjunct1 [OF g] unfolding grant_ok_def by (simp add: gr same)
  moreover have "{opid \<in> fst ` set d. granted prep results opid} = {opid \<in> fst ` set d. granted prep r1 opid}"
    using gr by blast
  moreover have "\<not> granted prep results (fst p)" if "p \<in> set u" for p
    using r k that codec by (force simp: granted_def)
  ultimately show ?thesis using g k by simp
qed

section \<open>What Sync rebuilds\<close>

definition ok_clients ::
  "(string \<Rightarrow> LockRequest) \<Rightarrow> (string \<Rightarrow> LockReply) \<Rightarrow> bool \<Rightarrow> RecordEntry list \<Rightarrow> string \<Rightarrow> u64 set" where
  "ok_clients preq prep type es key =
     {lr_clientid (preq (rop (re_request e))) |e. e \<in> set es \<and> lr_key (preq (rop (re_request e))) = key \<and>
        lr_type (preq (rop (re_request e))) = type \<and> lp_status (prep (re_result e)) = 0}"

definition holders ::
  "(string \<Rightarrow> LockRequest) \<Rightarrow> (string \<Rightarrow> LockReply) \<Rightarrow> RecordEntry list \<Rightarrow> string \<Rightarrow> u64 set" where
  "holders preq prep es key = ok_clients preq prep True es key - ok_clients preq prep False es key"

definition info_wf :: "(string \<times> KeyLockInfo) list \<Rightarrow> bool" where
  "info_wf infos \<longleftrightarrow> distinct (map fst infos) \<and>
     (\<forall>p\<in>set infos. distinct (locked (snd p)) \<and> distinct (unlocked (snd p)))"

lemma set_add [simp]: "set (set_add x xs) = insert x (set xs)" "distinct (set_add x xs) = distinct xs"
  by (auto simp: set_add_def)

lemma info_wf_key: "info_wf infos \<Longrightarrow> distinct (locked (key_info infos k)) \<and> distinct (unlocked (key_info infos k))"
  using map_of_SomeD [of infos k] by (force simp: info_wf_def key_info_def split: option.splits)

lemma set_AList_update: "set (AList.update k v m) \<subseteq> insert (k, v) (set m)"
  by (induction m) auto

lemma info_wf_update:
  "info_wf infos \<Longrightarrow> distinct (locked i) \<Longrightarrow> distinct (unlocked i) \<Longrightarrow> info_wf (AList.update k i infos)"
  using set_AList_update [of k i infos] by (force simp: info_wf_def distinct_update)

lemma key_info_update: "key_info (AList.update k i infos) j = (if j = k then i else key_info infos j)"
  by (simp add: key_info_def update_conv')

lemma sync_entry_wf: "info_wf infos \<Longrightarrow> info_wf (sync_entry preq prep infos e)"
  using info_wf_key [of infos "lr_key (preq (rop (re_request e)))"]
  by (auto simp: sync_entry_def Let_def intro!: info_wf_update)

lemma ok_clients_Cons: "ok_clients preq prep t (e # es) k = ok_clients preq prep t [e] k \<union> ok_clients preq prep t es k"
  by (auto simp: ok_clients_def)

lemma sync_entries:
  assumes "info_wf infos"
  shows "info_wf (foldl (sync_entry preq prep) infos es) \<and>
    set (locked (key_info (foldl (sync_entry preq prep) infos es) k)) =
      set (locked (key_info infos k)) \<union> ok_clients preq prep True es k \<and>
    set (unlocked (key_info (foldl (sync_entry preq prep) infos es) k)) =
      set (unlocked (key_info infos k)) \<union> ok_clients preq prep False es k"
  using assms
proof (induction es arbitrary: infos)
  case Nil
  then show ?case by (simp add: ok_clients_def)
next
  case (Cons e es)
  note IH = Cons.IH [OF sync_entry_wf [OF Cons.prems, of preq prep e]]
  have "set (locked (key_info (sync_entry preq prep infos e) k)) =
      set (locked (key_info infos k)) \<union> ok_clients preq prep True [e] k"
    "set (unlocked (key_info (sync_entry preq prep infos e) k)) =
      set (unlocked (key_info infos k)) \<union> ok_clients preq prep False [e] k"
    by (auto simp: sync_entry_def Let_def key_info_update ok_clients_def)
  with IH show ?case
    by (simp add: ok_clients_Cons [of preq prep True e es] ok_clients_Cons [of preq prep False e es] Un_assoc)
qed

lemma set_difference_spec:
  "sorted xs \<Longrightarrow> sorted ys \<Longrightarrow> distinct xs \<Longrightarrow>
   set (set_difference xs ys) = set xs - set ys \<and> distinct (set_difference xs ys)"
proof (induction xs ys rule: set_difference.induct)
  case (3 x xs y ys)
  then show ?case by (cases x y rule: linorder_cases) auto
qed auto

definition fresh_order :: "(u64 list \<Rightarrow> u64 list) \<Rightarrow> bool" where
  "fresh_order iter \<longleftrightarrow> (\<forall>xs. distinct xs \<longrightarrow> set (iter xs) = set xs \<and> distinct (iter xs) \<and> sorted (iter xs))"

definition one_holder :: "u64 set \<Rightarrow> u64 option outcome" where
  "one_holder H = (if card H \<le> 1 then Inr (if H = {} then None else Some (the_elem H))
     else Inl (AssertFail ''diff.size() == 0 || diff.size() == 1''))"

lemma sync_key_spec:
  assumes "fresh_order iter" and "distinct (locked i)" and "distinct (unlocked i)"
  shows "sync_key iter i = one_holder (set (locked i) - set (unlocked i))"
proof -
  let ?l = "iter (locked i)" and ?u = "iter (unlocked i)"
  have l: "set ?l = set (locked i)" "distinct ?l" "sorted ?l" and u: "set ?u = set (unlocked i)" "sorted ?u"
    using assms by (simp_all add: fresh_order_def)
  let ?d = "set_difference ?l ?u"
  have d: "set ?d = set (locked i) - set (unlocked i)" "distinct ?d"
    using set_difference_spec [OF l(3) u(2) l(2)] l u by simp_all
  have "sync_key iter i = (if length ?d \<le> 1 then Inr (if ?d = [] then None else Some (hd ?d))
      else Inl (AssertFail ''diff.size() == 0 || diff.size() == 1''))"
    using l(3) u(2) by (cases ?d) (auto simp: sync_key_def Let_def)
  also have "\<dots> = one_holder (set ?d)"
  proof -
    have "card (set ?d) = length ?d" using d(2) by (rule distinct_card)
    then show ?thesis by (cases ?d; cases "tl ?d") (simp_all add: one_holder_def)
  qed
  finally show ?thesis by (simp only: d(1))
qed

lemma sync_keys_spec:
  assumes "fresh_order iter" and "info_wf infos"
  shows "sync_keys iter infos locks =
    (if \<forall>p\<in>set infos. card (set (locked (snd p)) - set (unlocked (snd p))) \<le> 1
     then Inr (\<lambda>k. let H = set (locked (key_info infos k)) - set (unlocked (key_info infos k)) in
                 if H = {} then locks k else Some (the_elem H))
     else Inl (AssertFail ''diff.size() == 0 || diff.size() == 1''))"
  using assms(2)
proof (induction infos arbitrary: locks)
  case (Cons p infos)
  obtain k i where p: "p = (k, i)" by (cases p)
  have wf: "info_wf infos" and i: "distinct (locked i)" "distinct (unlocked i)" and new: "map_of infos k = None"
    using Cons.prems by (auto simp: info_wf_def p map_of_eq_None_iff)
  have fresh: "key_info infos k = \<lparr>locked = [], unlocked = []\<rparr>" by (simp add: key_info_def new)
  have at: "key_info (p # infos) j = (if j = k then i else key_info infos j)" for j
    by (simp add: key_info_def p)
  show ?case
    by (auto simp: p sync_key_spec [OF assms(1) i] one_holder_def Cons.IH [OF wf] Let_def fun_eq_iff at [unfolded p]
        fresh)
qed (simp add: key_info_def)

text \<open>
  \<^verbatim>\<open>Sync\<close> rebuilds the lock table from the record, if the sets of client ids are iterated in
  ascending order: the holder of a key is the one client that has a successful lock and no
  successful unlock of it. The assertion fails exactly when some key has more than one such client.
\<close>

theorem lock_sync_rebuilds:
  assumes "fresh_order iter"
  shows "Lock_Sync preq prep iter locks record =
    (if \<forall>k. card (holders preq prep (map snd record) k) \<le> 1
     then Inr (\<lambda>k. let H = holders preq prep (map snd record) k in if H = {} then None else Some (the_elem H))
     else Inl (AssertFail ''diff.size() == 0 || diff.size() == 1''))"
proof -
  let ?es = "map snd record"
  let ?infos = "foldl (sync_entry preq prep) [] ?es"
  have wf0: "info_wf []" by (simp add: info_wf_def)
  note at = sync_entries [OF wf0, of preq prep ?es]
  have H: "set (locked (key_info ?infos k)) - set (unlocked (key_info ?infos k)) = holders preq prep ?es k" for k
    using at [of k] by (simp add: holders_def key_info_def)
  have "(\<forall>p\<in>set ?infos. card (set (locked (snd p)) - set (unlocked (snd p))) \<le> 1) \<longleftrightarrow>
      (\<forall>k. card (holders preq prep ?es k) \<le> 1)" (is "?L \<longleftrightarrow> ?R")
  proof
    assume ?L
    then have "card (set (locked (key_info ?infos k)) - set (unlocked (key_info ?infos k))) \<le> 1" for k
      using map_of_SomeD [of ?infos k] by (force simp: key_info_def split: option.splits)
    then show ?R by (simp add: H)
  next
    assume ?R
    moreover have "key_info ?infos (fst p) = snd p" if "p \<in> set ?infos" for p
    proof -
      have "map_of ?infos (fst p) = Some (snd p)" using conjunct1 [OF at] that by (simp add: info_wf_def)
      then show ?thesis by (simp add: key_info_def)
    qed
    ultimately show ?L using H by metis
  qed
  then show ?thesis
    unfolding Lock_Sync_def using sync_keys_spec [OF assms, of ?infos Map.empty] conjunct1 [OF at]
    by (simp add: H)
qed

section \<open>What a client decides\<close>

lemma Decide_count:
  "foldl (\<lambda>(n, k) (s, count). let reply = prep s in
       (if lp_status reply = 0 then n + int count else n, lp_key reply)) (n0, k0) results =
   (n0 + int (sum_list (map (\<lambda>(s, count). if lp_status (prep s) = 0 then count else 0) results)),
    if results = [] then k0 else lp_key (prep (fst (last results))))"
  by (induction results arbitrary: n0 k0) (auto simp: Let_def)

lemma Decide_status:
  assumes codec: "\<And>x. prep (srep x) = x"
  shows "lp_status (prep (LockClient_Decide prep srep (tally rs []))) =
    (if 2 \<le> length (filter (\<lambda>s. lp_status (prep s) = 0) rs) then 0 else -1)"
  using sum_tally_gen [of "[]" "\<lambda>s. lp_status (prep s) = 0" rs]
  unfolding LockClient_Decide_def Decide_count by (simp add: codec)

text \<open>
  The answers of a replica with lock table \<open>locks\<close> to the lock requests of two clients, in either
  order.
\<close>

definition two_requests ::
  "(string \<Rightarrow> LockRequest) \<Rightarrow> (LockReply \<Rightarrow> string) \<Rightarrow> string \<Rightarrow> string \<Rightarrow> lock_table \<times> bool \<Rightarrow> string \<times> string" where
  "two_requests preq srep A B r =
     (if snd r
      then let (ra, l1) = Lock_ExecConsensusUpcall preq srep (fst r) A;
               (rb, l2) = Lock_ExecConsensusUpcall preq srep l1 B in (ra, rb)
      else let (rb, l1) = Lock_ExecConsensusUpcall preq srep (fst r) B;
               (ra, l2) = Lock_ExecConsensusUpcall preq srep l1 A in (ra, rb))"

lemma two_requests_exclusive:
  assumes codec: "\<And>x. prep (srep x) = x" and "lr_type (preq A)" "lr_type (preq B)"
    "lr_key (preq A) = lr_key (preq B)" "lr_clientid (preq A) \<noteq> lr_clientid (preq B)"
  shows "lp_status (prep (fst (two_requests preq srep A B r))) \<noteq> 0 \<or>
    lp_status (prep (snd (two_requests preq srep A B r))) \<noteq> 0"
  using assms(2-)
  by (cases "fst r (lr_key (preq B))")
    (auto simp: two_requests_def Lock_ExecConsensusUpcall_def Let_def codec)

lemma two_oks_of_three:
  assumes "\<And>i. \<not> (P i \<and> Q i)" and "distinct is" "set is \<subseteq> {..<3}" and "distinct js" "set js \<subseteq> {..<3 :: nat}"
    and "2 \<le> length (filter P is)" and "2 \<le> length (filter Q js)"
  shows False
proof -
  have "card (set (filter P is)) = length (filter P is)" "card (set (filter Q js)) = length (filter Q js)"
    using assms(2,4) by (simp_all only: distinct_card distinct_filter)
  moreover have "card (set (filter P is) \<union> set (filter Q js)) \<le> card {..<3 :: nat}"
    using assms(3,5) by (intro card_mono) auto
  moreover have "set (filter P is) \<inter> set (filter Q js) = {}" using assms(1) by auto
  ultimately show False using assms(6,7) card_Un_disjoint [of "set (filter P is)" "set (filter Q js)"] by simp
qed

text \<open>
  In a group of three replicas two clients cannot both decide on the slow path that they have
  the same lock: whatever the replicas' lock tables, whichever request each replica executes
  first, and from whichever replicas each client hears.
\<close>

theorem decide_exclusive:
  assumes codec: "\<And>x. prep (srep x) = x" and A: "lr_type (preq A)" and B: "lr_type (preq B)"
    and key: "lr_key (preq A) = lr_key (preq B)" and other: "lr_clientid (preq A) \<noteq> lr_clientid (preq B)"
    and "distinct is" "set is \<subseteq> {..<3}" and "distinct js" "set js \<subseteq> {..<3 :: nat}"
  shows "lp_status (prep (LockClient_Decide prep srep
             (tally (map (\<lambda>i. fst (two_requests preq srep A B (replica i))) is) []))) = -1 \<or>
         lp_status (prep (LockClient_Decide prep srep
             (tally (map (\<lambda>j. snd (two_requests preq srep A B (replica j))) js) []))) = -1"
proof (rule ccontr)
  let ?P = "\<lambda>i. lp_status (prep (fst (two_requests preq srep A B (replica i)))) = 0"
  let ?Q = "\<lambda>i. lp_status (prep (snd (two_requests preq srep A B (replica i)))) = 0"
  assume "\<not> ?thesis"
  then have "2 \<le> length (filter ?P is)" "2 \<le> length (filter ?Q js)"
    unfolding Decide_status [OF codec] by (auto simp: filter_map o_def split: if_splits)
  moreover have "\<not> (?P i \<and> ?Q i)" for i using two_requests_exclusive [OF codec A B key other] by blast
  ultimately show False using two_oks_of_three [of ?P ?Q "is" js] assms(6-) by blast
qed

text \<open>A concrete codec for the examples: the status in unary, its sign, then the key.\<close>

definition ex_srep :: "LockReply \<Rightarrow> string" where
  "ex_srep r = replicate (nat \<bar>lp_status r\<bar>) CHR ''1'' @ (if lp_status r < 0 then CHR ''-'' else CHR ''+'') # lp_key r"

definition ex_prep :: "string \<Rightarrow> LockReply" where
  "ex_prep s = (let n = int (length (takeWhile (\<lambda>c. c = CHR ''1'') s)); rest = dropWhile (\<lambda>c. c = CHR ''1'') s
     in if rest = [] then \<lparr>lp_key = '''', lp_status = 0\<rparr>
        else \<lparr>lp_key = tl rest, lp_status = (if hd rest = CHR ''-'' then - n else n)\<rparr>)"

definition ex_preq :: "string \<Rightarrow> LockRequest" where
  "ex_preq s = \<lparr>lr_clientid = (if hd s = CHR ''a'' then 1 else 2), lr_key = ''k'',
     lr_type = (length s = 1)\<rparr>"

lemma ex_codec: "ex_prep (ex_srep r) = r"
proof -
  have t: "takeWhile (\<lambda>c. c = x) (replicate n x @ y # ys) = replicate n x"
    "dropWhile (\<lambda>c. c = x) (replicate n x @ y # ys) = y # ys" if "y \<noteq> x" for x y :: char and n ys
    using that by (induction n) simp_all
  show ?thesis by (simp add: ex_prep_def ex_srep_def Let_def t)
qed

definition ex_five :: "nat \<Rightarrow> lock_table \<times> bool" where
  "ex_five i = (Map.empty, i < 2)"

theorem decide_exclusive_witness:
  "lp_status (ex_prep (LockClient_Decide ex_prep ex_srep
       (tally (map (\<lambda>i. fst (two_requests ex_preq ex_srep ''a'' ''b'' (ex_five i))) [0, 2]) []))) = -1 \<or>
   lp_status (ex_prep (LockClient_Decide ex_prep ex_srep
       (tally (map (\<lambda>j. snd (two_requests ex_preq ex_srep ''a'' ''b'' (ex_five j))) [1, 2]) []))) = -1"
  by (rule decide_exclusive) (auto simp: ex_codec ex_preq_def)

text \<open>
  In a group of five replicas the threshold of two in \<^verbatim>\<open>Decide\<close> is too small: replicas 0 and 1
  grant the lock to one client and the others to another client, and each of the two clients, with
  a quorum of three answers, decides that it holds the lock.
\<close>

theorem decide_not_exclusive_five:
  "lp_status (ex_prep (LockClient_Decide ex_prep ex_srep
       (tally (map (\<lambda>i. fst (two_requests ex_preq ex_srep ''a'' ''b'' (ex_five i))) [0, 1, 2]) []))) = 0 \<and>
   lp_status (ex_prep (LockClient_Decide ex_prep ex_srep
       (tally (map (\<lambda>j. snd (two_requests ex_preq ex_srep ''a'' ''b'' (ex_five j))) [2, 3, 4]) []))) = 0"
  unfolding Decide_status [of ex_prep ex_srep, OF ex_codec]
  by (simp add: two_requests_def ex_five_def Lock_ExecConsensusUpcall_def ex_preq_def ex_codec Let_def)

text \<open>
  A client that starts to wait before the answer comes gets it: \<^verbatim>\<open>lock\<close> returns true exactly when
  the reply has status 0, and the client is free for the next call. But if the callback runs before
  \<^verbatim>\<open>lock_wait\<close> is entered, it has already cleared the pointer and the assertion of \<^verbatim>\<open>lock_wait\<close> fails.
\<close>

theorem lock_call_outcome:
  assumes "lock_async c key = Inr (c1, req)"
  shows "lock_wait_begin c1 = Inr (length (lc_promises c)) \<and> lock_wait_end c1 (length (lc_promises c)) = None \<and>
    (\<exists>c2. LockCallback prep c1 reply = Inr c2 \<and>
      lock_wait_end c2 (length (lc_promises c)) = Some (lp_status (prep reply) = 0, c2) \<and>
      (\<exists>c3 req'. lock_async c2 key = Inr (c3, req')) \<and>
      lock_wait_begin c2 = Inl (AssertFail ''waiting != nullptr''))"
  using assms
  by (auto simp: lock_async_def lock_wait_begin_def lock_wait_end_def LockCallback_def lc_answer_def
      nth_append split: if_splits)

definition ex_client :: LockClient where
  "ex_client = \<lparr>lc_client_id = 1, lc_waiting = None, lc_promises = []\<rparr>"

theorem lock_call_outcome_witness:
  "\<exists>c1 req. lock_async ex_client ''k'' = Inr (c1, req) \<and> lock_wait_begin c1 = Inr 0"
proof -
  obtain c1 req where c1: "lock_async ex_client ''k'' = Inr (c1, req)"
    by (simp add: lock_async_def ex_client_def)
  from lock_call_outcome [OF this, of ex_prep "''+k''"] c1 show ?thesis by (auto simp: ex_client_def)
qed


section \<open>Examples for the merge and for Sync\<close>

definition ex_lock_entry :: "u64 \<Rightarrow> string \<Rightarrow> int \<Rightarrow> RecordEntry" where
  "ex_lock_entry n op status = \<lparr>re_view = 0, re_opid = (1, n), re_state = RECORD_STATE_TENTATIVE,
     re_type = RECORD_TYPE_CONSENSUS, re_request = \<lparr>rop = op, clientid = 1, clientreqid = n\<rparr>,
     re_result = ex_srep \<lparr>lp_key = ''k'', lp_status = status\<rparr>\<rparr>"

theorem lock_merge_records_witness:
  "\<exists>R groups. group_entries (concat [[((1, 1), ex_lock_entry 1 ''a'' 0)]]) ([], []) = Inr (R, groups) \<and>
    (case Lock_Sync ex_preq ex_prep sort Map.empty R of
       Inl e \<Rightarrow> merge_records (LockApp ex_preq ex_prep ex_srep sort) 1 1
                 [(0, \<lparr>dv_replicaidx = 0, dv_record = None, dv_new_view = 1, dv_latest_normal_view = 0\<rparr>)]
                 [[((1, 1), ex_lock_entry 1 ''a'' 0)]] Map.empty = Inl e
     | Inr _ \<Rightarrow> (\<exists>R' a'. merge_records (LockApp ex_preq ex_prep ex_srep sort) 1 1
                 [(0, \<lparr>dv_replicaidx = 0, dv_record = None, dv_new_view = 1, dv_latest_normal_view = 0\<rparr>)]
                 [[((1, 1), ex_lock_entry 1 ''a'' 0)]] Map.empty = Inr (R', a') \<and>
                 merged_ok (concat [[((1, 1), ex_lock_entry 1 ''a'' 0)]]) R'))"
  by (rule lock_merge_records)
    (simp_all add: record_wf_def omap_wf_def entry_wf_def ex_lock_entry_def one_type_def)

theorem lock_merge_grants_witness:
  "\<exists>results locks'. Lock_Merge ex_preq ex_prep ex_srep Map.empty [((1, 1), [ex_lock_entry 1 ''a'' 0])]
      [((1, 2), [ex_lock_entry 2 ''b'' (-1)])] [((1, 1), ex_srep \<lparr>lp_key = ''k'', lp_status = 0\<rparr>)] =
        Inr (results, locks') \<and> granted ex_prep results (1, 1) \<and> \<not> granted ex_prep results (1, 2)"
proof -
  let ?d = "[((1, 1), [ex_lock_entry 1 ''a'' 0])] :: opmap" and ?u = "[((1, 2), [ex_lock_entry 2 ''b'' (-1)])] :: opmap"
  let ?maj = "[((1, 1), ex_srep \<lparr>lp_key = ''k'', lp_status = 0\<rparr>)] :: (opid_t \<times> string) list"
  obtain results locks' where m: "Lock_Merge ex_preq ex_prep ex_srep Map.empty ?d ?u ?maj = Inr (results, locks')"
    and g: "granted ex_prep results (1, 1)"
    by (simp add: Lock_Merge_def ex_codec granted_def)
  have "omap_wf ?d" "omap_wf ?u" "fst ` set ?d \<inter> fst ` set ?u = {}" by (simp_all add: omap_wf_def)
  from lock_merge_grants [of ex_prep ex_srep, OF ex_codec this m] m g show ?thesis by auto
qed

theorem lock_sync_rebuilds_witness:
  "\<exists>locks'. Lock_Sync ex_preq ex_prep sort Map.empty [((1, 1), ex_lock_entry 1 ''a'' 0)] = Inr locks' \<and>
     locks' ''k'' = Some 1"
proof -
  have "fresh_order sort" by (simp add: fresh_order_def)
  moreover have "holders ex_preq ex_prep [ex_lock_entry 1 ''a'' 0] k = (if k = ''k'' then {1} else {})" for k
    by (auto simp: holders_def ok_clients_def ex_lock_entry_def ex_codec ex_preq_def)
  ultimately show ?thesis
    using lock_sync_rebuilds [of sort ex_preq ex_prep Map.empty "[((1, 1), ex_lock_entry 1 ''a'' 0)]"] by simp
qed

text \<open>
  \<^verbatim>\<open>Sync\<close> passes the ranges of hash sets to \<^verbatim>\<open>std::set_difference\<close>, which needs sorted ranges.
  With an iteration order that lists the latest insertion first, the record of two clients that
  lock the same key one after the other, the first having released it, has undefined behaviour.
\<close>

theorem lock_sync_unsorted:
  "Lock_Sync ex_preq ex_prep rev Map.empty
     [((1, 1), ex_lock_entry 1 ''a'' 0), ((1, 2), ex_lock_entry 2 ''ax'' 0), ((1, 3), ex_lock_entry 3 ''b'' 0)] =
   Inl (Undefined ''set_difference of unsorted ranges'')"
  by (simp add: Lock_Sync_def sync_entry_def ex_lock_entry_def ex_codec ex_preq_def key_info_def set_add_def
      sync_key_def Let_def word_le_nat_alt)


end
