(* ===== verification/Request_Clients.thy ===== *)
theory Request_Clients
  imports Replication_Base
begin

text \<open>
  What the replication clients promise the code that calls them. A client numbers its requests with
  growing identifiers, keeps the open ones in a table and calls back with an answer. The locale
  \<open>request_client\<close> states the contract of one step; the at-most-once guarantee over whole runs is
  proved from it once, and used by the clients of both replication protocols.
\<close>

inductive run_of :: "('s \<Rightarrow> 'o list \<Rightarrow> 's \<Rightarrow> bool) \<Rightarrow> 's \<Rightarrow> 'o list \<Rightarrow> 's \<Rightarrow> bool" for stp where
  run_stop: "run_of stp s [] s"
| run_step: "stp s out s1 \<Longrightarrow> run_of stp s1 outs s2 \<Longrightarrow> run_of stp s (out @ outs) s2"

lemma run_of_one: "stp s out s' \<Longrightarrow> run_of stp s out s'"
  using run_step [OF _ run_stop, of stp s out s'] by simp

lemma run_of_append: "run_of stp s outs s1 \<Longrightarrow> run_of stp s1 outs' s2 \<Longrightarrow> run_of stp s (outs @ outs') s2"
  by (induction rule: run_of.induct) (auto intro: run_of.intros)

locale request_client =
  fixes opened :: "'s \<Rightarrow> u64 \<Rightarrow> bool" and last_id :: "'s \<Rightarrow> u64" and ans :: "'o list \<Rightarrow> u64 \<Rightarrow> nat"
    and inv :: "'s \<Rightarrow> bool" and stp :: "'s \<Rightarrow> 'o list \<Rightarrow> 's \<Rightarrow> bool"
  assumes ans_Nil: "ans [] i = 0" and ans_append: "ans (out @ out') i = ans out i + ans out' i"
    and opened_old: "inv s \<Longrightarrow> opened s i \<Longrightarrow> i \<le> last_id s"
    and step_inv: "inv s \<Longrightarrow> stp s out s' \<Longrightarrow> inv s'"
    and step_last: "inv s \<Longrightarrow> stp s out s' \<Longrightarrow> last_id s \<le> last_id s'"
    and step_answers: "inv s \<Longrightarrow> stp s out s' \<Longrightarrow> ans out i \<le> (if opened s i then 1 else 0)"
    and step_closes: "inv s \<Longrightarrow> stp s out s' \<Longrightarrow> 0 < ans out i \<Longrightarrow> \<not> opened s' i"
    and step_opens: "inv s \<Longrightarrow> stp s out s' \<Longrightarrow> opened s' i \<Longrightarrow> opened s i \<or> last_id s < i"
begin

lemma run_inv: "run_of stp s outs s' \<Longrightarrow> inv s \<Longrightarrow> inv s'"
  by (induction rule: run_of.induct) (auto dest: step_inv)

lemma run_answers:
  "run_of stp s outs s' \<Longrightarrow> inv s \<Longrightarrow> ans outs i \<le> (if opened s i \<or> last_id s < i then 1 else 0)"
proof (induction rule: run_of.induct)
  case (run_step s out s1 outs s2)
  note st = run_step.prems run_step.hyps(1)
  have IH: "ans outs i \<le> (if opened s1 i \<or> last_id s1 < i then 1 else 0)"
    using run_step.IH step_inv [OF st] by blast
  have le: "last_id s \<le> last_id s1" by (rule step_last [OF st])
  show ?case
  proof (cases "0 < ans out i")
    case True
    then have op: "opened s i" using step_answers [OF st, of i] by (auto split: if_splits)
    moreover have "\<not> opened s1 i" by (rule step_closes [OF st True])
    ultimately have "ans outs i = 0" using IH opened_old [OF run_step.prems op] le by (auto split: if_splits)
    then show ?thesis using step_answers [OF st, of i] op by (simp add: ans_append)
  next
    case False
    then show ?thesis using IH step_opens [OF st, of i] le by (auto simp: ans_append split: if_splits)
  qed
qed (simp add: ans_Nil)

lemma answered_at_most_once:
  assumes "run_of stp s outs s'" and "inv s"
  shows "ans outs i \<le> 1"
  using run_answers [OF assms, of i] by (simp split: if_splits)

lemma run_closed: "run_of stp s outs s' \<Longrightarrow> inv s \<Longrightarrow> \<not> opened s i \<Longrightarrow> i \<le> last_id s \<Longrightarrow> \<not> opened s' i"
proof (induction rule: run_of.induct)
  case (run_step s out s1 outs s2)
  note st = run_step.prems(1) run_step.hyps(1)
  have "\<not> opened s1 i" using step_opens [OF st, of i] run_step.prems by auto
  moreover have "i \<le> last_id s1" using step_last [OF st] run_step.prems by simp
  ultimately show ?case using run_step.IH step_inv [OF st] by blast
qed simp

lemma run_open_unanswered: "run_of stp s outs s' \<Longrightarrow> inv s \<Longrightarrow> opened s' i \<Longrightarrow> ans outs i = 0"
proof (induction rule: run_of.induct)
  case (run_step s out s1 outs s2)
  note st = run_step.prems(1) run_step.hyps(1)
  have "ans out i = 0"
  proof (rule ccontr)
    assume "ans out i \<noteq> 0"
    then have a: "0 < ans out i" by simp
    then have "opened s i" using step_answers [OF st, of i] by (auto split: if_splits)
    then have "i \<le> last_id s1" using opened_old [OF st(1)] step_last [OF st] by fastforce
    then show False
      using run_closed [OF run_step.hyps(2) step_inv [OF st] step_closes [OF st a]] run_step.prems(2) by simp
  qed
  then show ?case using run_step.IH step_inv [OF st] run_step.prems(2) by (simp add: ans_append)
qed (simp add: ans_Nil)

end

end
