(* ===== verification/IR_Client.thy ===== *)
theory IR_Client
  imports IR_Replica Request_Clients
begin

text \<open>
  The client of inconsistent replication, \<^verbatim>\<open>replication/ir/client.cc\<close>: the pending requests, the
  fast and the slow path of a consensus operation, and the timers. A continuation is identified by
  its request id, and calling it is an output. Each handler sends at most once; whether the
  transport accepts the message is its argument \<open>sent\<close>. A pointer that is used after it has been
  deleted, or is null, is the fault \<open>Undefined\<close>.
\<close>

declare split_paired_All [simp del] split_paired_Ex [simp del]

section \<open>Types\<close>

record ReplyConsensusMessage =
  rc_view :: view_t
  rc_replicaidx :: int
  rc_result :: string
  rc_finalized :: bool

record ConsensusState =
  consensusReplyQuorum :: "(opnum_t, ReplyConsensusMessage) QuorumSet"
  decide :: "(string \<times> nat) list \<Rightarrow> string"
  decideResult :: string
  quorumSize :: int
  superQuorumSize :: int
  on_slow_path :: bool
  has_error_continuation :: bool
  slow_path_timer :: bool
  reply_consensus_view :: view_t
  sent_confirms :: bool

datatype PendingKind =
    PendingUnlogged bool
  | PendingInconsistent "(viewstamp_t, IRMessage) QuorumSet"
  | PendingConsensus ConsensusState

datatype ClientTimer =
    ResendInconsistentTimer
  | ResendConsensusTimer
  | ResendConfirmationTimer bool
  | UnloggedTimer

record PendingRequest =
  pq_request :: string
  pq_clientReqId :: u64
  continuationInvoked :: bool
  pq_timer :: "ClientTimer \<times> bool"
  confirmQuorum :: "(viewstamp_t, IRMessage) QuorumSet"
  pq_kind :: PendingKind

record IRClient =
  ic_config :: Configuration
  ic_clientid :: u64
  lastReqId :: u64
  pendingReqs :: "u64 \<rightharpoonup> PendingRequest"

datatype irc_out =
    SendToAll IRMessage
  | SendToReplica int IRMessage
  | Continuation u64 string string
  | ErrorContinuation u64 string ErrorCode

type_synonym irc_result = "IRClient \<times> irc_out list"

definition IRClient_new :: "Configuration \<Rightarrow> u64 \<Rightarrow> IRClient" where
  "IRClient_new config cid = \<lparr>ic_config = config, ic_clientid = cid, lastReqId = 0, pendingReqs = Map.empty\<rparr>"

definition put_req :: "IRClient \<Rightarrow> u64 \<Rightarrow> PendingRequest \<Rightarrow> IRClient" where
  "put_req c reqId req = c\<lparr>pendingReqs := (pendingReqs c)(reqId \<mapsto> req)\<rparr>"

definition del_req :: "IRClient \<Rightarrow> u64 \<Rightarrow> IRClient" where
  "del_req c reqId = c\<lparr>pendingReqs := (pendingReqs c)(reqId := None)\<rparr>"

definition timer_on :: "PendingRequest \<Rightarrow> PendingRequest" where
  "timer_on req = req\<lparr>pq_timer := (fst (pq_timer req), True)\<rparr>"

definition op_request :: "IRClient \<Rightarrow> PendingRequest \<Rightarrow> OpRequest" where
  "op_request c req = \<lparr>rop = pq_request req, clientid = ic_clientid c, clientreqid = pq_clientReqId req\<rparr>"

section \<open>Invocations\<close>

definition SendInconsistent :: "bool \<Rightarrow> IRClient \<Rightarrow> PendingRequest \<Rightarrow> irc_result" where
  "SendInconsistent sent c req =
     (if sent then (put_req c (pq_clientReqId req) (timer_on req), [SendToAll (ProposeInconsistent (op_request c req))])
      else (del_req c (pq_clientReqId req), []))"

definition InvokeInconsistent :: "bool \<Rightarrow> IRClient \<Rightarrow> string \<Rightarrow> irc_result" where
  "InvokeInconsistent sent c request =
     (let reqId = lastReqId c + 1;
          req = \<lparr>pq_request = request, pq_clientReqId = reqId, continuationInvoked = False,
                 pq_timer = (ResendInconsistentTimer, False),
                 confirmQuorum = QuorumSet_new (QuorumSize (ic_config c)),
                 pq_kind = PendingInconsistent (QuorumSet_new (QuorumSize (ic_config c)))\<rparr>
      in SendInconsistent sent (put_req (c\<lparr>lastReqId := reqId\<rparr>) reqId req) req)"

definition IRClient_Invoke :: "bool \<Rightarrow> IRClient \<Rightarrow> string \<Rightarrow> irc_result" where
  "IRClient_Invoke sent c request = InvokeInconsistent sent c request"

definition SendConsensus :: "bool \<Rightarrow> IRClient \<Rightarrow> PendingRequest \<Rightarrow> irc_result" where
  "SendConsensus sent c req =
     (if sent then (put_req c (pq_clientReqId req) (timer_on req), [SendToAll (ProposeConsensus (op_request c req))])
      else (del_req c (pq_clientReqId req), []))"

definition InvokeConsensus ::
  "bool \<Rightarrow> IRClient \<Rightarrow> string \<Rightarrow> ((string \<times> nat) list \<Rightarrow> string) \<Rightarrow> bool \<Rightarrow> irc_result" where
  "InvokeConsensus sent c request dec has_err =
     (let reqId = lastReqId c + 1;
          cs = \<lparr>consensusReplyQuorum = QuorumSet_new (QuorumSize (ic_config c)), decide = dec,
                decideResult = '''', quorumSize = QuorumSize (ic_config c),
                superQuorumSize = FastQuorumSize (ic_config c), on_slow_path = False,
                has_error_continuation = has_err, slow_path_timer = True, reply_consensus_view = 0,
                sent_confirms = False\<rparr>;
          req = \<lparr>pq_request = request, pq_clientReqId = reqId, continuationInvoked = False,
                 pq_timer = (ResendConsensusTimer, False),
                 confirmQuorum = QuorumSet_new (QuorumSize (ic_config c)), pq_kind = PendingConsensus cs\<rparr>
      in SendConsensus sent (put_req (c\<lparr>lastReqId := reqId\<rparr>) reqId req) req)"

definition InvokeUnlogged :: "bool \<Rightarrow> IRClient \<Rightarrow> int \<Rightarrow> string \<Rightarrow> bool \<Rightarrow> irc_result" where
  "InvokeUnlogged sent c replicaIdx request has_err =
     (let reqId = lastReqId c + 1;
          req = \<lparr>pq_request = request, pq_clientReqId = reqId, continuationInvoked = False,
                 pq_timer = (UnloggedTimer, True), confirmQuorum = QuorumSet_new 1,
                 pq_kind = PendingUnlogged has_err\<rparr>;
          c1 = c\<lparr>lastReqId := reqId\<rparr>
      in if sent then (put_req c1 reqId req, [SendToReplica replicaIdx (UnloggedRequest (op_request c req))])
         else (c1, []))"

section \<open>Consensus paths\<close>

text \<open>The loop over the replies: their results are counted, and they must all be from one view.\<close>

fun common_view :: "view_t \<Rightarrow> ReplyConsensusMessage list \<Rightarrow> view_t outcome" where
  "common_view view [] = Inr view"
| "common_view view (m # ms) =
     (let view' = (if view = 0 then rc_view m else view) in
      obind (assert_that (rc_view m = view') ''msg.view() == view'') (\<lambda>_. common_view view' ms))"

definition HandleSlowPathConsensus ::
  "bool \<Rightarrow> IRClient \<Rightarrow> u64 \<Rightarrow> (int \<times> ReplyConsensusMessage) list \<Rightarrow> bool \<Rightarrow> PendingRequest \<Rightarrow> ConsensusState
    \<Rightarrow> irc_result outcome" where
  "HandleSlowPathConsensus sent c reqid msgs finalized_result_found req cs =
     obind (assert_that (finalized_result_found \<or> int (length msgs) \<ge> quorumSize cs)
              ''finalized_result_found || msgs.size() >= req->quorumSize'') (\<lambda>_.
       obind (if finalized_result_found then Inr cs
              else obind (common_view 0 (map snd msgs)) (\<lambda>view.
                     Inr (cs\<lparr>decideResult := decide cs (tally (map (rc_result \<circ> snd) msgs) []),
                             reply_consensus_view := view\<rparr>))) (\<lambda>cs1.
         if sent then
           Inr (put_req c reqid (req\<lparr>pq_timer := (ResendConfirmationTimer True, True),
                                     pq_kind := PendingConsensus (cs1\<lparr>sent_confirms := True\<rparr>)\<rparr>),
                [SendToAll (FinalizeConsensus (ic_clientid c, reqid) (decideResult cs1))])
         else Inr (del_req c reqid, [])))"

definition HandleFastPathConsensus ::
  "bool \<Rightarrow> IRClient \<Rightarrow> u64 \<Rightarrow> (int \<times> ReplyConsensusMessage) list \<Rightarrow> PendingRequest \<Rightarrow> ConsensusState
    \<Rightarrow> irc_result outcome" where
  "HandleFastPathConsensus sent c reqid msgs req cs =
     obind (assert_that (int (length msgs) \<ge> superQuorumSize cs) ''msgs.size() >= req->superQuorumSize'') (\<lambda>_.
       case find (\<lambda>r. int (snd r) \<ge> superQuorumSize cs) (tally (map (rc_result \<circ> snd) msgs) []) of
         Some (result, n) \<Rightarrow>
           if sent then
             Inr (put_req c reqid (req\<lparr>pq_timer := (ResendConfirmationTimer True, True),
                    continuationInvoked := True,
                    pq_kind := PendingConsensus (cs\<lparr>decideResult := result, sent_confirms := True\<rparr>)\<rparr>),
                  SendToAll (FinalizeConsensus (ic_clientid c, reqid) result) #
                  (if continuationInvoked req then [] else [Continuation reqid (pq_request req) result]))
           else Inl (Undefined ''use of a deleted request'')
       | None \<Rightarrow>
           HandleSlowPathConsensus sent c reqid msgs False req (cs\<lparr>on_slow_path := True, slow_path_timer := False\<rparr>))"

definition TransitionToConsensusSlowPath :: "bool \<Rightarrow> IRClient \<Rightarrow> u64 \<Rightarrow> irc_result outcome" where
  "TransitionToConsensusSlowPath sent c reqId =
     (case pendingReqs c reqId of
        Some req \<Rightarrow>
          (case pq_kind req of
             PendingConsensus cs \<Rightarrow>
               obind (assert_that (slow_path_timer cs) ''req->transition_to_slow_path_timer'') (\<lambda>_.
                 let cs1 = cs\<lparr>on_slow_path := True, slow_path_timer := False\<rparr>;
                     c1 = put_req c reqId (req\<lparr>pq_kind := PendingConsensus cs1\<rparr>)
                 in case CheckForQuorum (consensusReplyQuorum cs1) of
                      Some quorum \<Rightarrow> HandleSlowPathConsensus sent c1 reqId quorum False req cs1
                    | None \<Rightarrow> Inr (c1, []))
           | _ \<Rightarrow> Inl (AssertFail ''req != NULL''))
      | None \<Rightarrow> Inl (AssertFail ''req != NULL''))"

section \<open>Timers\<close>

definition ResendInconsistent :: "bool \<Rightarrow> IRClient \<Rightarrow> u64 \<Rightarrow> irc_result outcome" where
  "ResendInconsistent sent c reqId =
     (case pendingReqs c reqId of
        None \<Rightarrow> Inl (Undefined ''null request'')
      | Some req \<Rightarrow> Inr (SendInconsistent sent c req))"

definition ResendConsensus :: "bool \<Rightarrow> IRClient \<Rightarrow> u64 \<Rightarrow> irc_result outcome" where
  "ResendConsensus sent c reqId =
     (case pendingReqs c reqId of
        None \<Rightarrow> Inl (Undefined ''null request'')
      | Some req \<Rightarrow> Inr (SendConsensus sent c req))"

definition ResendConfirmation :: "bool \<Rightarrow> IRClient \<Rightarrow> u64 \<Rightarrow> bool \<Rightarrow> irc_result outcome" where
  "ResendConfirmation sent c reqId isConsensus =
     (case pendingReqs c reqId of
        None \<Rightarrow> Inr (c, [])
      | Some req \<Rightarrow>
          if isConsensus then
            (case pq_kind req of
               PendingConsensus cs \<Rightarrow>
                 if sent then
                   Inr (put_req c reqId (timer_on req),
                        [SendToAll (FinalizeConsensus (ic_clientid c, pq_clientReqId req) (decideResult cs))])
                 else Inr (del_req c reqId, [])
             | _ \<Rightarrow> Inl (Undefined ''static_cast to another request type''))
          else if sent then
            Inr (put_req c reqId (timer_on req),
                 [SendToAll (FinalizeInconsistent (ic_clientid c, pq_clientReqId req))])
          else Inr (del_req c reqId, []))"

definition UnloggedRequestTimeoutCallback :: "IRClient \<Rightarrow> u64 \<Rightarrow> irc_result outcome" where
  "UnloggedRequestTimeoutCallback c reqId =
     (case pendingReqs c reqId of
        None \<Rightarrow> Inr (c, [])
      | Some req \<Rightarrow>
          (case pq_kind req of
             PendingUnlogged has_err \<Rightarrow>
               Inr (del_req c reqId, if has_err then [ErrorContinuation reqId (pq_request req) TIMEOUT] else [])
           | _ \<Rightarrow> Inl (Undefined ''static_cast to another request type'')))"

section \<open>Replies\<close>

definition HandleInconsistentReply ::
  "bool \<Rightarrow> IRClient \<Rightarrow> view_t \<Rightarrow> int \<Rightarrow> opid_t \<Rightarrow> bool \<Rightarrow> irc_result outcome" where
  "HandleInconsistentReply sent c view replicaidx opid fin =
     (let reqId = snd opid in
      case pendingReqs c reqId of
        None \<Rightarrow> Inr (c, [])
      | Some req \<Rightarrow>
          (case pq_kind req of
             PendingInconsistent q \<Rightarrow>
               (let (quorum, q') = AddAndCheckForQuorum q (Viewstamp view reqId) replicaidx
                                     (ReplyInconsistent view replicaidx opid fin);
                    req1 = req\<lparr>pq_kind := PendingInconsistent q'\<rparr>
                in if quorum \<noteq> None \<and> \<not> continuationInvoked req then
                     Inr (put_req c reqId (req1\<lparr>pq_timer := (ResendConfirmationTimer False, sent),
                                               continuationInvoked := True\<rparr>),
                          (if sent then [SendToAll (FinalizeInconsistent opid)] else []) @
                          [Continuation reqId (pq_request req) ''''])
                   else Inr (put_req c reqId req1, []))
           | _ \<Rightarrow> Inl (AssertFail ''req != NULL'')))"

definition HandleConsensusReply ::
  "bool \<Rightarrow> IRClient \<Rightarrow> u64 \<Rightarrow> ReplyConsensusMessage \<Rightarrow> irc_result outcome" where
  "HandleConsensusReply sent c reqId msg =
     (case pendingReqs c reqId of
        None \<Rightarrow> Inr (c, [])
      | Some req \<Rightarrow>
          (case pq_kind req of
             PendingConsensus cs \<Rightarrow>
               if sent_confirms cs then Inr (c, [])
               else
                 (let q = QuorumSet_Add (consensusReplyQuorum cs) (rc_view msg) (rc_replicaidx msg) msg;
                      cs1 = cs\<lparr>consensusReplyQuorum := q\<rparr>;
                      msgs = GetMessages q (rc_view msg)
                  in if rc_finalized msg then
                       HandleSlowPathConsensus sent c reqId msgs True req
                         (cs1\<lparr>on_slow_path := True, slow_path_timer := False, decideResult := rc_result msg,
                              reply_consensus_view := rc_view msg\<rparr>)
                     else if on_slow_path cs1 \<and> int (length msgs) \<ge> quorumSize cs1 then
                       HandleSlowPathConsensus sent c reqId msgs False req cs1
                     else if \<not> on_slow_path cs1 \<and> int (length msgs) \<ge> superQuorumSize cs1 then
                       HandleFastPathConsensus sent c reqId msgs req cs1
                     else Inr (put_req c reqId (req\<lparr>pq_kind := PendingConsensus cs1\<rparr>), []))
           | _ \<Rightarrow> Inl (AssertFail ''req != nullptr'')))"

definition HandleConfirm :: "IRClient \<Rightarrow> view_t \<Rightarrow> int \<Rightarrow> opid_t \<Rightarrow> irc_result outcome" where
  "HandleConfirm c view replicaidx opid =
     (let reqId = snd opid in
      case pendingReqs c reqId of
        None \<Rightarrow> Inr (c, [])
      | Some req \<Rightarrow>
          (let (quorum, q') = AddAndCheckForQuorum (confirmQuorum req) (Viewstamp view reqId) replicaidx
                                (Confirm view replicaidx opid)
           in if quorum = None then Inr (put_req c reqId (req\<lparr>confirmQuorum := q'\<rparr>), [])
              else if continuationInvoked req then Inr (del_req c reqId, [])
              else
                (case pq_kind req of
                   PendingConsensus cs \<Rightarrow>
                     Inr (del_req c reqId,
                          if view = reply_consensus_view cs
                          then [Continuation reqId (pq_request req) (decideResult cs)]
                          else if has_error_continuation cs
                          then [ErrorContinuation reqId (pq_request req) MISMATCHED_CONSENSUS_VIEWS]
                          else [])
                 | _ \<Rightarrow> Inl (AssertFail ''r2 != nullptr''))))"

definition HandleUnloggedReply :: "IRClient \<Rightarrow> string \<Rightarrow> u64 \<Rightarrow> irc_result outcome" where
  "HandleUnloggedReply c reply reqId =
     (case pendingReqs c reqId of
        None \<Rightarrow> Inr (c, [])
      | Some req \<Rightarrow> Inr (del_req c reqId, [Continuation reqId (pq_request req) reply]))"

definition IRClient_ReceiveMessage :: "bool \<Rightarrow> IRClient \<Rightarrow> IRMessage \<Rightarrow> irc_result outcome" where
  "IRClient_ReceiveMessage sent c m =
     (case m of
        ReplyInconsistent view replicaidx opid fin \<Rightarrow> HandleInconsistentReply sent c view replicaidx opid fin
      | ReplyConsensus view replicaidx opid result fin \<Rightarrow>
          HandleConsensusReply sent c (snd opid)
            \<lparr>rc_view = view, rc_replicaidx = replicaidx, rc_result = result, rc_finalized = fin\<rparr>
      | Confirm view replicaidx opid \<Rightarrow> HandleConfirm c view replicaidx opid
      | UnloggedReply reply reqId \<Rightarrow> HandleUnloggedReply c reply reqId
      | _ \<Rightarrow> Inl (Panicked ''Received unexpected message type''))"

section \<open>Events\<close>

text \<open>
  What can happen at a client: a call of the application, a message, the timer of a pending request
  or its slow-path timer. \<open>enabled\<close> says when: a timer fires only while it is running, request ids
  have not wrapped around, and replicas answer a request in kind, confirming only what the client
  has finalized.
\<close>

datatype irc_event =
    EvInconsistent string
  | EvConsensus string "(string \<times> nat) list \<Rightarrow> string" bool
  | EvUnlogged int string bool
  | EvReceive IRMessage
  | EvTimer u64
  | EvSlowTimer u64

definition timer_fires :: "bool \<Rightarrow> IRClient \<Rightarrow> u64 \<Rightarrow> PendingRequest \<Rightarrow> irc_result outcome" where
  "timer_fires sent c reqId req =
     (case fst (pq_timer req) of
        ResendInconsistentTimer \<Rightarrow> ResendInconsistent sent c reqId
      | ResendConsensusTimer \<Rightarrow> ResendConsensus sent c reqId
      | ResendConfirmationTimer b \<Rightarrow> ResendConfirmation sent c reqId b
      | UnloggedTimer \<Rightarrow> UnloggedRequestTimeoutCallback c reqId)"

definition irc_handle :: "bool \<Rightarrow> IRClient \<Rightarrow> irc_event \<Rightarrow> irc_result outcome" where
  "irc_handle sent c ev =
     (case ev of
        EvInconsistent request \<Rightarrow> Inr (IRClient_Invoke sent c request)
      | EvConsensus request dec has_err \<Rightarrow> Inr (InvokeConsensus sent c request dec has_err)
      | EvUnlogged i request has_err \<Rightarrow> Inr (InvokeUnlogged sent c i request has_err)
      | EvReceive m \<Rightarrow> IRClient_ReceiveMessage sent c m
      | EvTimer reqId \<Rightarrow>
          (case pendingReqs c reqId of None \<Rightarrow> Inr (c, []) | Some req \<Rightarrow> timer_fires sent c reqId req)
      | EvSlowTimer reqId \<Rightarrow> TransitionToConsensusSlowPath sent c reqId)"

definition in_kind :: "IRMessage \<Rightarrow> PendingRequest \<Rightarrow> bool" where
  "in_kind m req \<longleftrightarrow>
     (case (m, pq_kind req) of
        (ReplyInconsistent _ _ _ _, PendingInconsistent _) \<Rightarrow> True
      | (ReplyConsensus _ _ _ _ _, PendingConsensus _) \<Rightarrow> True
      | (Confirm _ _ _, PendingInconsistent _) \<Rightarrow> continuationInvoked req
      | (Confirm _ _ _, PendingConsensus cs) \<Rightarrow> sent_confirms cs
      | (UnloggedReply _ _, PendingUnlogged _) \<Rightarrow> True
      | _ \<Rightarrow> False)"

fun reply_id :: "IRMessage \<Rightarrow> u64 option" where
  "reply_id (ReplyInconsistent _ _ opid _) = Some (snd opid)"
| "reply_id (ReplyConsensus _ _ opid _ _) = Some (snd opid)"
| "reply_id (Confirm _ _ opid) = Some (snd opid)"
| "reply_id (UnloggedReply _ reqId) = Some reqId"
| "reply_id _ = None"

definition irc_enabled :: "IRClient \<Rightarrow> irc_event \<Rightarrow> bool" where
  "irc_enabled c ev \<longleftrightarrow>
     (case ev of
        EvReceive m \<Rightarrow>
          (case reply_id m of
             None \<Rightarrow> False
           | Some reqId \<Rightarrow> pred_option (in_kind m) (pendingReqs c reqId))
      | EvTimer reqId \<Rightarrow> (case pendingReqs c reqId of None \<Rightarrow> False | Some req \<Rightarrow> snd (pq_timer req))
      | EvSlowTimer reqId \<Rightarrow>
          (case pendingReqs c reqId of
             None \<Rightarrow> False
           | Some req \<Rightarrow> (case pq_kind req of PendingConsensus cs \<Rightarrow> slow_path_timer cs | _ \<Rightarrow> False))
      | _ \<Rightarrow> lastReqId c < lastReqId c + 1)"

section \<open>The client's invariant\<close>

definition replies_ok :: "(opnum_t, ReplyConsensusMessage) QuorumSet \<Rightarrow> bool" where
  "replies_ok q \<longleftrightarrow> quorum_wf q \<and>
     (\<forall>v. \<forall>p\<in>set (GetMessages q v). rc_view (snd p) = v \<and> rc_replicaidx (snd p) = fst p)"

definition consensus_ok :: "Configuration \<Rightarrow> bool \<Rightarrow> ConsensusState \<Rightarrow> bool" where
  "consensus_ok config invoked cs \<longleftrightarrow> replies_ok (consensusReplyQuorum cs) \<and>
     numRequired (consensusReplyQuorum cs) = QuorumSize config \<and>
     quorumSize cs = QuorumSize config \<and> superQuorumSize cs = FastQuorumSize config \<and>
     (invoked \<longrightarrow> sent_confirms cs)"

definition req_ok :: "Configuration \<Rightarrow> u64 \<Rightarrow> PendingRequest \<Rightarrow> bool" where
  "req_ok config reqId req \<longleftrightarrow> pq_clientReqId req = reqId \<and> quorum_wf (confirmQuorum req) \<and>
     (case pq_kind req of
        PendingUnlogged _ \<Rightarrow> fst (pq_timer req) = UnloggedTimer \<and> \<not> continuationInvoked req
      | PendingInconsistent q \<Rightarrow>
          fst (pq_timer req) \<in> {ResendInconsistentTimer, ResendConfirmationTimer False} \<and>
          numRequired (confirmQuorum req) = QuorumSize config \<and>
          quorum_wf q \<and> numRequired q = QuorumSize config
      | PendingConsensus cs \<Rightarrow>
          fst (pq_timer req) \<in> {ResendConsensusTimer, ResendConfirmationTimer True} \<and>
          numRequired (confirmQuorum req) = QuorumSize config \<and>
          consensus_ok config (continuationInvoked req) cs)"

definition irc_inv :: "IRClient \<Rightarrow> bool" where
  "irc_inv c \<longleftrightarrow> 0 \<le> cfg_f (ic_config c) \<and>
     (\<forall>reqId req. pendingReqs c reqId = Some req \<longrightarrow> reqId \<le> lastReqId c \<and> req_ok (ic_config c) reqId req)"

fun answers_id :: "u64 \<Rightarrow> irc_out \<Rightarrow> bool" where
  "answers_id i (Continuation j _ _) \<longleftrightarrow> i = j"
| "answers_id i (ErrorContinuation j _ _) \<longleftrightarrow> i = j"
| "answers_id i _ \<longleftrightarrow> False"

definition answers :: "irc_out list \<Rightarrow> u64 \<Rightarrow> nat" where
  "answers out i = length (filter (answers_id i) out)"

lemma answers_simps [simp]:
  "answers [] i = 0" "answers (x # out) i = (if answers_id i x then Suc (answers out i) else answers out i)"
  "answers (out @ out') i = answers out i + answers out' i"
  by (simp_all add: answers_def)

definition open_req :: "IRClient \<Rightarrow> u64 \<Rightarrow> bool" where
  "open_req c i \<longleftrightarrow> pred_option (\<lambda>req. \<not> continuationInvoked req) (pendingReqs c i) \<and> pendingReqs c i \<noteq> None"

text \<open>One step, seen from the application: it answers a request at most once, only an open one, and closes it.\<close>

definition irc_ok :: "IRClient \<Rightarrow> irc_out list \<Rightarrow> IRClient \<Rightarrow> bool" where
  "irc_ok c out c' \<longleftrightarrow> irc_inv c' \<and> ic_config c' = ic_config c \<and> lastReqId c \<le> lastReqId c' \<and>
     (\<forall>i. answers out i \<le> (if open_req c i then 1 else 0) \<and> (0 < answers out i \<longrightarrow> \<not> open_req c' i) \<and>
          (open_req c' i \<longrightarrow> open_req c i \<or> lastReqId c < i))"

definition irc_good :: "bool \<Rightarrow> IRClient \<Rightarrow> irc_result outcome \<Rightarrow> bool" where
  "irc_good sent c res \<longleftrightarrow>
     (case res of
        Inl e \<Rightarrow> e = Undefined ''use of a deleted request'' \<and> \<not> sent
      | Inr (c', out) \<Rightarrow> irc_ok c out c')"

lemma irc_good_Inr [simp]: "irc_good sent c (Inr (c', out)) \<longleftrightarrow> irc_ok c out c'"
  by (simp add: irc_good_def)

lemma irc_invD: "irc_inv c \<Longrightarrow> pendingReqs c i = Some req \<Longrightarrow> i \<le> lastReqId c \<and> req_ok (ic_config c) i req"
  by (simp add: irc_inv_def)

lemma irc_ok_same: "irc_inv c \<Longrightarrow> irc_ok c [] c"
  by (simp add: irc_ok_def)

lemma irc_good_same_open:
  assumes "irc_good sent c1 res" and "ic_config c1 = ic_config c" "lastReqId c1 = lastReqId c"
    and "\<And>i. open_req c1 i = open_req c i"
  shows "irc_good sent c res"
  using assms by (cases res) (auto simp: irc_good_def irc_ok_def)

lemma irc_ok_put:
  assumes "irc_inv c" and "pendingReqs c i = Some req" and "req_ok (ic_config c) i req'"
    and "continuationInvoked req \<longrightarrow> continuationInvoked req'" and "\<forall>j. j \<noteq> i \<longrightarrow> answers out j = 0"
    and "answers out i \<le> (if \<not> continuationInvoked req \<and> continuationInvoked req' then 1 else 0)"
  shows "irc_ok c out (put_req c i req')"
  using assms by (auto simp: irc_ok_def irc_inv_def put_req_def open_req_def split: if_splits)

lemma irc_ok_del:
  assumes "irc_inv c" and "pendingReqs c i = Some req" and "\<forall>j. j \<noteq> i \<longrightarrow> answers out j = 0"
    and "answers out i \<le> (if continuationInvoked req then 0 else 1)"
  shows "irc_ok c out (del_req c i)"
  using assms by (auto simp: irc_ok_def irc_inv_def del_req_def open_req_def)


lemma irc_ok_new:
  assumes "irc_inv c" and "lastReqId c < lastReqId c + 1" and "req_ok (ic_config c) (lastReqId c + 1) req"
    and "\<forall>j. answers out j = 0"
  shows "irc_ok c out (put_req (c\<lparr>lastReqId := lastReqId c + 1\<rparr>) (lastReqId c + 1) req)"
  using assms by (fastforce simp: irc_ok_def irc_inv_def put_req_def open_req_def)

lemma irc_ok_skip:
  assumes "irc_inv c" and "lastReqId c < lastReqId c + 1"
  shows "irc_ok c [] (c\<lparr>lastReqId := lastReqId c + 1\<rparr>)"
  using assms by (fastforce simp: irc_ok_def irc_inv_def open_req_def)

lemma put_put [simp]: "put_req (put_req c i r) i r' = put_req c i r'"
  and del_put: "pendingReqs c i = None \<Longrightarrow> del_req (put_req c i r) i = c"
  and put_sel [simp]: "ic_config (put_req c i r) = ic_config c" "lastReqId (put_req c i r) = lastReqId c"
    "ic_clientid (put_req c i r) = ic_clientid c" "pendingReqs (put_req c i r) = (pendingReqs c)(i \<mapsto> r)"
  by (auto simp: put_req_def del_req_def fun_upd_idem)

lemma timer_on_sel [simp]:
  "pq_clientReqId (timer_on req) = pq_clientReqId req" "pq_kind (timer_on req) = pq_kind req"
  "continuationInvoked (timer_on req) = continuationInvoked req" "fst (pq_timer (timer_on req)) = fst (pq_timer req)"
  "req_ok config i (timer_on req) = req_ok config i req"
  by (cases "pq_kind req"; simp add: timer_on_def req_ok_def)+

lemma numRequired_new [simp]: "numRequired (QuorumSet_new k) = k"
  by (simp add: QuorumSet_new_def)

lemma replies_ok_new [simp]: "replies_ok (QuorumSet_new k)"
  by (simp add: replies_ok_def) (simp add: QuorumSet_new_def GetMessages_def)

lemma new_id_fresh: "irc_inv c \<Longrightarrow> lastReqId c < lastReqId c + 1 \<Longrightarrow> pendingReqs c (lastReqId c + 1) = None"
  using irc_invD [of c "lastReqId c + 1"] by (cases "pendingReqs c (lastReqId c + 1)") auto

lemma sent_new_ok:
  assumes "irc_inv c" and "lastReqId c < lastReqId c + 1" and "req_ok (ic_config c) (lastReqId c + 1) req"
  shows "irc_ok c [SendToAll m] (put_req (c\<lparr>lastReqId := lastReqId c + 1\<rparr>) (lastReqId c + 1) (timer_on req))"
    and "irc_ok c [] (del_req (put_req (c\<lparr>lastReqId := lastReqId c + 1\<rparr>) (lastReqId c + 1) req) (lastReqId c + 1))"
proof -
  have ok: "req_ok (ic_config c) (lastReqId c + 1) (timer_on req)" using assms(3) by simp
  show "irc_ok c [SendToAll m] (put_req (c\<lparr>lastReqId := lastReqId c + 1\<rparr>) (lastReqId c + 1) (timer_on req))"
    using irc_ok_new [OF assms(1,2) ok] by simp
  have "pendingReqs (c\<lparr>lastReqId := lastReqId c + 1\<rparr>) (lastReqId c + 1) = None"
    using new_id_fresh [OF assms(1,2)] by simp
  then show "irc_ok c [] (del_req (put_req (c\<lparr>lastReqId := lastReqId c + 1\<rparr>) (lastReqId c + 1) req) (lastReqId c + 1))"
    using irc_ok_skip [OF assms(1,2)] by (simp add: del_put)
qed

lemma invoke_ok:
  assumes "irc_inv c" and "lastReqId c < lastReqId c + 1"
  shows "InvokeInconsistent sent c request = (c', out) \<Longrightarrow> irc_ok c out c'"
    and "InvokeConsensus sent c request dec has_err = (c', out) \<Longrightarrow> irc_ok c out c'"
    and "InvokeUnlogged sent c i request has_err = (c', out) \<Longrightarrow> irc_ok c out c'"
  by (auto simp: InvokeInconsistent_def SendInconsistent_def InvokeConsensus_def SendConsensus_def
      InvokeUnlogged_def Let_def req_ok_def consensus_ok_def split: if_splits
      intro!: sent_new_ok [OF assms] irc_ok_new [OF assms] irc_ok_skip [OF assms])

lemma quorum_sizes_le: "irc_inv c \<Longrightarrow> QuorumSize (ic_config c) \<le> FastQuorumSize (ic_config c)"
  by (simp add: irc_inv_def QuorumSize_def FastQuorumSize_def)

lemma common_view_same:
  "\<forall>m\<in>set ms. rc_view m = v \<Longrightarrow> view = 0 \<or> view = v \<Longrightarrow> common_view view ms = Inr (if ms = [] then view else v)"
  by (induction ms arbitrary: view) (auto simp: Let_def)

lemma HandleSlowPathConsensus_good:
  assumes "irc_inv c" and "pendingReqs c i = Some req0" and "req_ok (ic_config c) i req"
    and "continuationInvoked req = continuationInvoked req0" and "pq_kind req = PendingConsensus cs0"
    and "consensus_ok (ic_config c) (continuationInvoked req) cs"
    and "fin \<or> QuorumSize (ic_config c) \<le> int (length msgs)" and "\<forall>p\<in>set msgs. rc_view (snd p) = v"
  shows "irc_good sent c (HandleSlowPathConsensus sent c i msgs fin req cs)"
proof -
  have cv: "common_view 0 (map snd msgs) = Inr (if msgs = [] then 0 else v)"
    using common_view_same [of "map snd msgs" v 0] assms(8) by simp
  have size: "fin \<or> quorumSize cs \<le> int (length msgs)" using assms(6,7) by (simp add: consensus_ok_def)
  have ok: "req_ok (ic_config c) i (req\<lparr>pq_timer := (ResendConfirmationTimer True, True),
      pq_kind := PendingConsensus cs'\<rparr>)" if "consensus_ok (ic_config c) (continuationInvoked req) cs'" for cs'
    using assms(3,5) that by (simp add: req_ok_def)
  have put: "irc_ok c [SendToAll m] (put_req c i (req\<lparr>pq_timer := (ResendConfirmationTimer True, True),
      pq_kind := PendingConsensus cs'\<rparr>))" if "consensus_ok (ic_config c) (continuationInvoked req) cs'" for cs' m
    using irc_ok_put [OF assms(1,2) ok [OF that]] assms(4) by simp
  have del: "irc_ok c [] (del_req c i)" using irc_ok_del [OF assms(1,2)] by simp
  have cok: "consensus_ok (ic_config c) (continuationInvoked req) (cs\<lparr>sent_confirms := True\<rparr>)"
    "consensus_ok (ic_config c) (continuationInvoked req) (cs\<lparr>decideResult := x, reply_consensus_view := w,
       sent_confirms := True\<rparr>)" for x w
    using assms(6) by (simp_all add: consensus_ok_def)
  show ?thesis
    using size put [OF cok(1)] put [OF cok(2)] del
    by (cases fin) (simp_all add: HandleSlowPathConsensus_def cv)
qed

lemma HandleFastPathConsensus_good:
  assumes "irc_inv c" and "pendingReqs c i = Some req" and "pq_kind req = PendingConsensus cs0"
    and "consensus_ok (ic_config c) (continuationInvoked req) cs"
    and "FastQuorumSize (ic_config c) \<le> int (length msgs)" and "\<forall>p\<in>set msgs. rc_view (snd p) = v"
  shows "irc_good sent c (HandleFastPathConsensus sent c i msgs req cs)"
proof (cases "find (\<lambda>r. int (snd r) \<ge> superQuorumSize cs) (tally (map (rc_result \<circ> snd) msgs) [])")
  case None
  have "consensus_ok (ic_config c) (continuationInvoked req) (cs\<lparr>on_slow_path := True, slow_path_timer := False\<rparr>)"
    using assms(4) by (simp add: consensus_ok_def)
  with None show ?thesis
    using HandleSlowPathConsensus_good [OF assms(1,2) _ _ assms(3) _ _ assms(6)] irc_invD [OF assms(1,2)]
      quorum_sizes_le [OF assms(1)] assms(4,5)
    by (simp add: HandleFastPathConsensus_def consensus_ok_def)
next
  case (Some r)
  obtain result n where r: "r = (result, n)" by (cases r)
  let ?req' = "req\<lparr>pq_timer := (ResendConfirmationTimer True, True), continuationInvoked := True,
      pq_kind := PendingConsensus (cs\<lparr>decideResult := result, sent_confirms := True\<rparr>)\<rparr>"
  have "req_ok (ic_config c) i ?req'"
    using irc_invD [OF assms(1,2)] assms(3,4) by (simp add: req_ok_def consensus_ok_def)
  from irc_ok_put [OF assms(1,2) this] show ?thesis
    using Some assms(4,5)
    by (simp add: HandleFastPathConsensus_def r consensus_ok_def irc_good_def)
qed

lemma replies_ok_Add:
  assumes "replies_ok q"
  shows "replies_ok (QuorumSet_Add q (rc_view m) (rc_replicaidx m) m)" (is "replies_ok ?q")
proof -
  have wf: "quorum_wf q" "omap_wf (messages q)" using assms by (simp_all add: replies_ok_def quorum_wf_def)
  have old: "rc_view (snd p) = v \<and> rc_replicaidx (snd p) = fst p" if "p \<in> set (GetMessages q v)" for p v
    using assms that by (simp add: replies_ok_def)
  have "rc_view (snd p) = v \<and> rc_replicaidx (snd p) = fst p" if "p \<in> set (GetMessages ?q v)" for p v
  proof (cases "v = rc_view m \<and> p = (rc_replicaidx m, m)")
    case False
    then have "p \<in> set (GetMessages q v)"
      using that set_omap_put [of "rc_replicaidx m" m "GetMessages q (rc_view m)"]
      unfolding GetMessages_Add [OF wf(2)] by (cases "v = rc_view m") auto
    then show ?thesis by (rule old)
  qed simp
  then show ?thesis using quorum_wf_Add [OF wf(1)] by (simp add: replies_ok_def)
qed

lemma HandleConsensusReply_good:
  assumes "irc_inv c" and "pred_option (\<lambda>req. \<exists>cs. pq_kind req = PendingConsensus cs) (pendingReqs c i)"
  shows "irc_good sent c (HandleConsensusReply sent c i msg)"
proof (cases "pendingReqs c i")
  case None
  then show ?thesis using assms by (simp add: HandleConsensusReply_def irc_ok_same)
next
  case (Some req)
  then obtain cs where k: "pq_kind req = PendingConsensus cs" using assms(2) by auto
  note ok = irc_invD [OF assms(1) Some]
  then have cok: "consensus_ok (ic_config c) (continuationInvoked req) cs" by (simp add: req_ok_def k)
  let ?q = "QuorumSet_Add (consensusReplyQuorum cs) (rc_view msg) (rc_replicaidx msg) msg"
  have q: "replies_ok ?q" using cok replies_ok_Add by (simp add: consensus_ok_def)
  then have views: "\<forall>p\<in>set (GetMessages ?q (rc_view msg)). rc_view (snd p) = rc_view msg"
    by (simp add: replies_ok_def)
  have cok': "consensus_ok (ic_config c) (continuationInvoked req) (cs\<lparr>consensusReplyQuorum := ?q\<rparr>)"
    "consensus_ok (ic_config c) (continuationInvoked req) (cs\<lparr>consensusReplyQuorum := ?q, on_slow_path := True,
       slow_path_timer := False, decideResult := rc_result msg, reply_consensus_view := rc_view msg\<rparr>)"
    using cok q by (simp_all add: consensus_ok_def)
  have put: "irc_ok c [] (put_req c i (req\<lparr>pq_kind := PendingConsensus (cs\<lparr>consensusReplyQuorum := ?q\<rparr>)\<rparr>))"
    using irc_ok_put [OF assms(1) Some, of "req\<lparr>pq_kind := PendingConsensus (cs\<lparr>consensusReplyQuorum := ?q\<rparr>)\<rparr>" "[]"]
      ok cok' by (simp add: req_ok_def k)
  have slow: "irc_good sent c (HandleSlowPathConsensus sent c i (GetMessages ?q (rc_view msg)) fin req cs1)"
    if "consensus_ok (ic_config c) (continuationInvoked req) cs1"
      "fin \<or> QuorumSize (ic_config c) \<le> int (length (GetMessages ?q (rc_view msg)))" for fin cs1
    using HandleSlowPathConsensus_good [OF assms(1) Some _ _ k that views] ok by simp
  have sizes: "quorumSize cs = QuorumSize (ic_config c)" "superQuorumSize cs = FastQuorumSize (ic_config c)"
    using cok by (simp_all add: consensus_ok_def)
  show ?thesis
    using put slow [OF cok'(1), of False] slow [OF cok'(2), of True]
      HandleFastPathConsensus_good [OF assms(1) Some k cok'(1) _ views] irc_ok_same [OF assms(1)]
    by (simp add: HandleConsensusReply_def Some k Let_def sizes)
qed

lemma CheckForQuorum_Some:
  assumes "CheckForQuorum q = Some ms"
  obtains vs where "ms = GetMessages q vs" and "numRequired q \<le> int (length ms)"
proof -
  have "\<exists>vs. ms = GetMessages q vs \<and> numRequired q \<le> int (length ms)" if "check_ids q ids = Some ms" for ids
    using that by (induction ids) (auto simp: CheckForQuorum_id_def Let_def split: option.splits if_splits)
  then show thesis using assms that unfolding CheckForQuorum_def by blast
qed

lemma TransitionToConsensusSlowPath_good:
  assumes "irc_inv c" and "pendingReqs c i = Some req" and "pq_kind req = PendingConsensus cs" and "slow_path_timer cs"
  shows "irc_good sent c (TransitionToConsensusSlowPath sent c i)"
proof -
  let ?cs1 = "cs\<lparr>on_slow_path := True, slow_path_timer := False\<rparr>"
  let ?req1 = "req\<lparr>pq_kind := PendingConsensus ?cs1\<rparr>"
  let ?c1 = "put_req c i ?req1"
  note ok = irc_invD [OF assms(1,2)]
  have cok: "consensus_ok (ic_config c) (continuationInvoked req) ?cs1"
    using ok assms(3) by (simp add: req_ok_def consensus_ok_def)
  have ok1: "irc_ok c [] ?c1" using irc_ok_put [OF assms(1,2), of ?req1 "[]"] ok cok assms(3) by (simp add: req_ok_def)
  then have inv1: "irc_inv ?c1" by (simp add: irc_ok_def)
  show ?thesis
  proof (cases "CheckForQuorum (consensusReplyQuorum ?cs1)")
    case None
    then show ?thesis using ok1 assms by (simp add: TransitionToConsensusSlowPath_def Let_def)
  next
    case (Some ms)
    then obtain vs where ms: "ms = GetMessages (consensusReplyQuorum cs) vs"
      "QuorumSize (ic_config c) \<le> int (length ms)"
      using CheckForQuorum_Some cok by (force simp: consensus_ok_def)
    have views: "\<forall>p\<in>set ms. rc_view (snd p) = vs" using cok ms by (simp add: consensus_ok_def replies_ok_def)
    have "irc_good sent ?c1 (HandleSlowPathConsensus sent ?c1 i ms False req ?cs1)"
      using HandleSlowPathConsensus_good [OF inv1, of i ?req1 req cs ?cs1 False ms vs sent] ok assms(3) cok ms views
      by simp
    then show ?thesis
      using irc_good_same_open [of sent ?c1 _ c] Some assms
      by (simp add: TransitionToConsensusSlowPath_def Let_def open_req_def)
  qed
qed

lemma timer_fires_good:
  assumes "irc_inv c" and "pendingReqs c i = Some req"
  shows "irc_good sent c (timer_fires sent c i req)"
proof -
  note ok = irc_invD [OF assms]
  have put: "irc_ok c [SendToAll m] (put_req c i (timer_on req))" for m
    using irc_ok_put [OF assms, of "timer_on req"] ok by simp
  have del: "irc_ok c [] (del_req c i)" using irc_ok_del [OF assms] by simp
  have err: "irc_ok c [ErrorContinuation i s e] (del_req c i)" if "\<not> continuationInvoked req" for s e
    using irc_ok_del [OF assms, of "[ErrorContinuation i s e]"] that by auto
  have id: "pq_clientReqId req = i" using ok by (simp add: req_ok_def)
  show ?thesis
    using put del err ok
    by (cases "pq_kind req"; cases sent)
      (auto simp: timer_fires_def ResendInconsistent_def SendInconsistent_def ResendConsensus_def SendConsensus_def
        ResendConfirmation_def UnloggedRequestTimeoutCallback_def assms(2) id req_ok_def)
qed

lemma HandleInconsistentReply_good:
  assumes "irc_inv c" and "pred_option (\<lambda>req. \<exists>q. pq_kind req = PendingInconsistent q) (pendingReqs c (snd opid))"
  shows "irc_good sent c (HandleInconsistentReply sent c v idx opid fin)"
proof (cases "pendingReqs c (snd opid)")
  case None
  then show ?thesis using assms by (simp add: HandleInconsistentReply_def irc_ok_same)
next
  case (Some req)
  then obtain q where k: "pq_kind req = PendingInconsistent q" using assms(2) by auto
  note ok = irc_invD [OF assms(1) Some]
  obtain quorum q' where q': "AddAndCheckForQuorum q (Viewstamp v (snd opid)) idx (ReplyInconsistent v idx opid fin)
      = (quorum, q')" by (cases "AddAndCheckForQuorum q (Viewstamp v (snd opid)) idx (ReplyInconsistent v idx opid fin)")
  then have wf: "quorum_wf q'" "numRequired q' = QuorumSize (ic_config c)"
    using ok quorum_wf_Add by (auto simp: AddAndCheckForQuorum_def Let_def req_ok_def k)
  have "irc_ok c out (put_req c (snd opid) (req\<lparr>pq_kind := PendingInconsistent q', pq_timer := t,
      continuationInvoked := b\<rparr>))"
    if "fst t \<in> {ResendInconsistentTimer, ResendConfirmationTimer False}" "continuationInvoked req \<longrightarrow> b"
      "\<forall>j. j \<noteq> snd opid \<longrightarrow> answers out j = 0"
      "answers out (snd opid) \<le> (if \<not> continuationInvoked req \<and> b then 1 else 0)" for out t b
    using irc_ok_put [OF assms(1) Some, of "req\<lparr>pq_kind := PendingInconsistent q', pq_timer := t,
      continuationInvoked := b\<rparr>"] that ok wf by (simp add: req_ok_def k)
  note put = this this [of "pq_timer req" "continuationInvoked req" "[]"]
  show ?thesis
    using put ok by (auto simp: HandleInconsistentReply_def Some k q' Let_def req_ok_def)
qed

lemma HandleConfirm_good:
  assumes "irc_inv c" and "pred_option (in_kind (Confirm v idx opid)) (pendingReqs c (snd opid))"
  shows "irc_good sent c (HandleConfirm c v idx opid)"
proof (cases "pendingReqs c (snd opid)")
  case None
  then show ?thesis using assms by (simp add: HandleConfirm_def irc_ok_same)
next
  case (Some req)
  note ok = irc_invD [OF assms(1) Some]
  obtain quorum q' where q': "AddAndCheckForQuorum (confirmQuorum req) (Viewstamp v (snd opid)) idx (Confirm v idx opid)
      = (quorum, q')" by (cases "AddAndCheckForQuorum (confirmQuorum req) (Viewstamp v (snd opid)) idx (Confirm v idx opid)")
  then have wf: "quorum_wf q'" "numRequired q' = numRequired (confirmQuorum req)"
    using ok quorum_wf_Add by (auto simp: AddAndCheckForQuorum_def Let_def req_ok_def)
  have put: "irc_ok c [] (put_req c (snd opid) (req\<lparr>confirmQuorum := q'\<rparr>))"
    using irc_ok_put [OF assms(1) Some, of "req\<lparr>confirmQuorum := q'\<rparr>" "[]"] ok wf
    by (cases "pq_kind req") (simp_all add: req_ok_def)
  have del: "irc_ok c out (del_req c (snd opid))"
    if "\<forall>j. j \<noteq> snd opid \<longrightarrow> answers out j = 0" "answers out (snd opid) \<le> (if continuationInvoked req then 0 else 1)"
    for out using irc_ok_del [OF assms(1) Some that] .
  have kind: "in_kind (Confirm v idx opid) req" using assms(2) Some by simp
  show ?thesis
    using put del kind
    by (cases "pq_kind req") (auto simp: HandleConfirm_def Some q' Let_def in_kind_def)
qed

lemma HandleUnloggedReply_good:
  assumes "irc_inv c" and "pred_option (in_kind (UnloggedReply s i)) (pendingReqs c i)"
  shows "irc_good sent c (HandleUnloggedReply c s i)"
proof (cases "pendingReqs c i")
  case None
  then show ?thesis using assms by (simp add: HandleUnloggedReply_def irc_ok_same)
next
  case (Some req)
  then have "\<not> continuationInvoked req" using assms irc_invD [OF assms(1) Some]
    by (cases "pq_kind req") (auto simp: in_kind_def req_ok_def)
  then show ?thesis
    using irc_ok_del [OF assms(1) Some, of "[Continuation i (pq_request req) s]"]
    by (simp add: HandleUnloggedReply_def Some)
qed

lemma irc_handle_good:
  assumes inv: "irc_inv c" and en: "irc_enabled c ev"
  shows "irc_good sent c (irc_handle sent c ev)"
proof (cases ev)
  case (EvReceive m)
  then obtain i where i: "reply_id m = Some i" "pred_option (in_kind m) (pendingReqs c i)"
    using en by (auto simp: irc_enabled_def split: option.splits)
  have kind: "pred_option (\<lambda>req. \<exists>q. pq_kind req = PendingInconsistent q) (pendingReqs c i)"
    if "m = ReplyInconsistent v idx opid fin" for v idx opid fin
    using i(2) that by (cases "pendingReqs c i") (auto simp: in_kind_def split: PendingKind.splits)
  have kind': "pred_option (\<lambda>req. \<exists>q. pq_kind req = PendingConsensus q) (pendingReqs c i)"
    if "m = ReplyConsensus v idx opid res fin" for v idx opid res fin
    using i(2) that by (cases "pendingReqs c i") (auto simp: in_kind_def split: PendingKind.splits)
  show ?thesis
    using i kind kind' HandleInconsistentReply_good [OF inv] HandleConsensusReply_good [OF inv]
      HandleConfirm_good [OF inv] HandleUnloggedReply_good [OF inv]
    by (cases m) (auto simp: EvReceive irc_handle_def IRClient_ReceiveMessage_def)
next
  case (EvTimer i)
  then show ?thesis using en timer_fires_good [OF inv]
    by (auto simp: irc_enabled_def irc_handle_def split: option.splits)
next
  case (EvSlowTimer i)
  then show ?thesis using en TransitionToConsensusSlowPath_good [OF inv]
    by (auto simp: irc_enabled_def irc_handle_def split: option.splits PendingKind.splits)
next
  case (EvInconsistent r)
  then show ?thesis using en invoke_ok(1) [OF inv, of sent r]
    by (cases "InvokeInconsistent sent c r") (simp add: irc_enabled_def irc_handle_def IRClient_Invoke_def)
next
  case (EvConsensus r dec b)
  then show ?thesis using en invoke_ok(2) [OF inv, of sent r dec b]
    by (cases "InvokeConsensus sent c r dec b") (simp add: irc_enabled_def irc_handle_def)
next
  case (EvUnlogged i r b)
  then show ?thesis using en invoke_ok(3) [OF inv, of sent i r b]
    by (cases "InvokeUnlogged sent c i r b") (simp add: irc_enabled_def irc_handle_def)
qed

section \<open>Runs of a client\<close>

definition irc_step :: "IRClient \<Rightarrow> irc_out list \<Rightarrow> IRClient \<Rightarrow> bool" where
  "irc_step c out c' \<longleftrightarrow> (\<exists>ev sent. irc_enabled c ev \<and> irc_handle sent c ev = Inr (c', out))"

abbreviation irc_trace :: "IRClient \<Rightarrow> irc_out list \<Rightarrow> IRClient \<Rightarrow> bool" where
  "irc_trace \<equiv> run_of irc_step"

lemma irc_step_ok: "irc_inv c \<Longrightarrow> irc_step c out c' \<Longrightarrow> irc_ok c out c'"
  unfolding irc_step_def by (metis irc_good_Inr irc_handle_good)

interpretation irq: request_client open_req lastReqId answers irc_inv irc_step
proof unfold_locales
  show "i \<le> lastReqId s" if "irc_inv s" "open_req s i" for s i
    using that irc_invD [of s i] by (auto simp: open_req_def)
qed (use irc_step_ok in \<open>auto simp: irc_ok_def\<close>)

lemma irc_inv_new: "0 \<le> cfg_f config \<Longrightarrow> irc_inv (IRClient_new config cid)"
  by (simp add: irc_inv_def IRClient_new_def)

text \<open>
  C15. The client answers each of its calls at most once: in every run, whatever is lost, delayed,
  sent again or refused by the transport, a request id has at most one call of its continuation or
  its error continuation.
\<close>

theorem client_answers_once:
  assumes "0 \<le> cfg_f config" and "irc_trace (IRClient_new config cid) outs c"
  shows "answers outs i \<le> 1"
  by (rule irq.answered_at_most_once [OF assms(2) irc_inv_new [OF assms(1)]])

text \<open>
  In every state a client reaches, an event can fail in one way only: the transport refuses
  the finalize message on the fast path, and the code goes on with the request it has deleted.
  No assertion fails, and no request is used as one of another type.
\<close>

theorem client_faults:
  assumes "0 \<le> cfg_f config" and "irc_trace (IRClient_new config cid) outs c" and "irc_enabled c ev"
    and "irc_handle sent c ev = Inl e"
  shows "e = Undefined ''use of a deleted request'' \<and> \<not> sent"
  using irc_handle_good [OF irq.run_inv [OF assms(2) irc_inv_new [OF assms(1)]] assms(3), of sent] assms(4)
  by (simp add: irc_good_def)

lemma count_results:
  assumes "omap_wf msgs"
  shows "count_list (map (g \<circ> snd) msgs) r = card {i. \<exists>m. map_of msgs i = Some m \<and> g m = r}"
proof -
  have d: "distinct (map fst msgs)" using assms by (rule omap_wf_distinct)
  have "{i. \<exists>m. map_of msgs i = Some m \<and> g m = r} = set (map fst (filter (\<lambda>p. g (snd p) = r) msgs))"
    using d by (force simp: map_of_eq_Some_iff)
  moreover have "distinct (map fst (filter (\<lambda>p. g (snd p) = r) msgs))" using d by (rule distinct_map_filter)
  ultimately have "card {i. \<exists>m. map_of msgs i = Some m \<and> g m = r} = length (filter (\<lambda>p. g (snd p) = r) msgs)"
    using distinct_card by fastforce
  moreover have "count_list (map (g \<circ> snd) msgs) r = length (filter (\<lambda>p. g (snd p) = r) msgs)"
    by (induction msgs) auto
  ultimately show ?thesis by simp
qed

text \<open>
  The fast path: when a reply makes the client return to the application, a fast quorum of
  different replicas has answered with this very result in the view of the reply, and the client
  has sent all replicas the message that finalizes it.
\<close>

theorem client_fast_path:
  assumes inv: "irc_inv c" and p: "pendingReqs c i = Some req" "pq_kind req = PendingConsensus cs"
    and h: "HandleConsensusReply sent c i msg = Inr (c', out)" and cont: "Continuation j s result \<in> set out"
  shows "j = i \<and> s = pq_request req \<and> SendToAll (FinalizeConsensus (ic_clientid c, i) result) \<in> set out \<and>
    FastQuorumSize (ic_config c) \<le> int (card {idx. \<exists>m.
      map_of (GetMessages (QuorumSet_Add (consensusReplyQuorum cs) (rc_view msg) (rc_replicaidx msg) msg)
                (rc_view msg)) idx = Some m \<and> rc_result m = result \<and> rc_view m = rc_view msg})"
proof -
  let ?q = "QuorumSet_Add (consensusReplyQuorum cs) (rc_view msg) (rc_replicaidx msg) msg"
  let ?msgs = "GetMessages ?q (rc_view msg)"
  have cok: "consensus_ok (ic_config c) (continuationInvoked req) cs"
    using irc_invD [OF inv p(1)] p(2) by (simp add: req_ok_def)
  then have q: "replies_ok ?q" using replies_ok_Add by (simp add: consensus_ok_def)
  then have wf: "omap_wf ?msgs" and views: "\<forall>p\<in>set ?msgs. rc_view (snd p) = rc_view msg"
    by (simp_all add: replies_ok_def quorum_wf_def)
  have slow: "Continuation j s result \<notin> set out"
    if "HandleSlowPathConsensus sent c i ms fin r cs1 = Inr (c', out)" for ms fin r cs1
    using that by (auto simp: HandleSlowPathConsensus_def obind_eq_Inr split: if_splits)
  have sizes: "superQuorumSize cs = FastQuorumSize (ic_config c)" using cok by (simp add: consensus_ok_def)
  have fast: "HandleFastPathConsensus sent c i ?msgs req (cs\<lparr>consensusReplyQuorum := ?q\<rparr>) = Inr (c', out)"
    using h p cont slow by (auto simp: HandleConsensusReply_def Let_def split: if_splits)
  then obtain n where n: "find (\<lambda>r. int (snd r) \<ge> FastQuorumSize (ic_config c)) (tally (map (rc_result \<circ> snd) ?msgs) [])
      = Some (result, n)" and out: "j = i" "s = pq_request req"
      "SendToAll (FinalizeConsensus (ic_clientid c, i) result) \<in> set out"
    using cont slow by (auto simp: HandleFastPathConsensus_def sizes split: if_splits option.splits)
  have "FastQuorumSize (ic_config c) \<le> int (count_list (map (rc_result \<circ> snd) ?msgs) result)"
    using find_SomeD [OF n] by (simp add: in_set_tally)
  also have "\<dots> = int (card {idx. \<exists>m. map_of ?msgs idx = Some m \<and> rc_result m = result})"
    by (simp add: count_results [OF wf])
  also have "{idx. \<exists>m. map_of ?msgs idx = Some m \<and> rc_result m = result} =
      {idx. \<exists>m. map_of ?msgs idx = Some m \<and> rc_result m = result \<and> rc_view m = rc_view msg}"
    using views map_of_SomeD [of ?msgs] by fastforce
  finally show ?thesis using out by blast
qed

text \<open>
  The slow path: when a confirmation makes the client return to the application, the request
  is a consensus request whose replies were decided in the view of the confirmation, a quorum of
  different replicas has confirmed it in that view, and the request is no longer pending.
\<close>

theorem client_slow_path:
  assumes inv: "irc_inv c" and h: "HandleConfirm c view idx opid = Inr (c', out)"
    and cont: "Continuation j s result \<in> set out"
  shows "\<exists>req cs. pendingReqs c (snd opid) = Some req \<and> pq_kind req = PendingConsensus cs \<and>
    j = snd opid \<and> result = decideResult cs \<and> view = reply_consensus_view cs \<and>
    pendingReqs c' (snd opid) = None \<and>
    QuorumSize (ic_config c) \<le> int (card (insert idx (fst ` set (GetMessages (confirmQuorum req) (Viewstamp view (snd opid))))))"
proof -
  obtain req where p: "pendingReqs c (snd opid) = Some req" using h cont
    by (cases "pendingReqs c (snd opid)") (auto simp: HandleConfirm_def)
  obtain quorum q' where q': "AddAndCheckForQuorum (confirmQuorum req) (Viewstamp view (snd opid)) idx (Confirm view idx opid)
      = (quorum, q')" by (cases "AddAndCheckForQuorum (confirmQuorum req) (Viewstamp view (snd opid)) idx (Confirm view idx opid)")
  obtain cs ms where k: "pq_kind req = PendingConsensus cs" "quorum = Some ms" and
    out: "j = snd opid" "result = decideResult cs" "view = reply_consensus_view cs" "c' = del_req c (snd opid)"
    using h cont by (auto simp: HandleConfirm_def p q' Let_def split: if_splits PendingKind.splits)
  have ok: "quorum_wf (confirmQuorum req)" "numRequired (confirmQuorum req) = QuorumSize (ic_config c)"
    using irc_invD [OF inv p] k(1) by (simp_all add: req_ok_def)
  note ms = AddAndCheckForQuorum_Some [OF ok(1) q' [unfolded k(2)]]
  have "fst ` set ms = insert idx (fst ` set (GetMessages (confirmQuorum req) (Viewstamp view (snd opid))))"
    unfolding ms(1) by (rule fst_omap_put)
  then show ?thesis using p k out ms(2) ok(2) by (auto simp: del_req_def)
qed


section \<open>Examples\<close>

text \<open>A group of one replica (\<open>f = 0\<close>) and a client with one consensus request.\<close>

definition ex_c0 :: IRClient where
  "ex_c0 = IRClient_new (group_of 0) 9"

definition ex_c1 :: IRClient where
  "ex_c1 = fst (InvokeConsensus True ex_c0 ''op'' (\<lambda>results. ''d'') True)"

definition ex_rc :: "bool \<Rightarrow> ReplyConsensusMessage" where
  "ex_rc fin = \<lparr>rc_view = 0, rc_replicaidx = 0, rc_result = ''r'', rc_finalized = fin\<rparr>"

definition ex_c2 :: "IRClient" where
  "ex_c2 = (case HandleConsensusReply True ex_c1 1 (ex_rc True) of Inr (c, out) \<Rightarrow> c)"

lemmas ex_client_defs = ex_c0_def ex_c1_def ex_rc_def IRClient_new_def InvokeConsensus_def SendConsensus_def
  put_req_def timer_on_def op_request_def Configuration_of_def QuorumSize_def FastQuorumSize_def QuorumSet_new_def

lemmas ex_reply_defs = HandleConsensusReply_def HandleFastPathConsensus_def HandleSlowPathConsensus_def
  QuorumSet_Add_def GetMessages_def

lemma ex_c0_inv: "irc_inv ex_c0"
  using irc_inv_new [of "group_of 0" 9] by (simp add: ex_c0_def Configuration_of_def)

lemma ex_c1_step:
  "irc_enabled ex_c0 (EvConsensus ''op'' (\<lambda>results. ''d'') True)"
  "irc_handle True ex_c0 (EvConsensus ''op'' (\<lambda>results. ''d'') True) =
     Inr (ex_c1, [SendToAll (ProposeConsensus \<lparr>rop = ''op'', clientid = 9, clientreqid = 1\<rparr>)])"
  by (simp_all add: irc_enabled_def irc_handle_def ex_client_defs Let_def)

lemma ex_c1_trace:
  "irc_trace ex_c0 [SendToAll (ProposeConsensus \<lparr>rop = ''op'', clientid = 9, clientreqid = 1\<rparr>)] ex_c1"
  using ex_c1_step by (intro run_of_one) (auto simp: irc_step_def)

lemma ex_c1_inv: "irc_inv ex_c1"
  by (rule irq.run_inv [OF ex_c1_trace ex_c0_inv])

lemma ex_c2_step:
  "HandleConsensusReply True ex_c1 1 (ex_rc True) = Inr (ex_c2, [SendToAll (FinalizeConsensus (9, 1) ''r'')])"
  by (simp add: ex_c2_def ex_client_defs ex_reply_defs Let_def)

lemma ex_c2_inv: "irc_inv ex_c2"
proof -
  have "pred_option (\<lambda>req. \<exists>cs. pq_kind req = PendingConsensus cs) (pendingReqs ex_c1 1)"
    by (simp add: ex_client_defs Let_def)
  from HandleConsensusReply_good [OF ex_c1_inv this, of True "ex_rc True"] show ?thesis
    by (simp add: ex_c2_step irc_ok_def)
qed

theorem client_answers_once_witness:
  "answers [SendToAll (ProposeConsensus \<lparr>rop = ''op'', clientid = 9, clientreqid = 1\<rparr>)] 1 \<le> 1"
  using client_answers_once [OF _ ex_c1_trace [unfolded ex_c0_def], of 1] by (simp add: Configuration_of_def)

theorem client_faults_witness:
  "\<exists>e. irc_handle False ex_c1 (EvReceive (ReplyConsensus 0 0 (9, 1) ''r'' False)) = Inl e \<and>
     e = Undefined ''use of a deleted request''"
proof -
  let ?m = "ReplyConsensus 0 0 (9, 1) ''r'' False"
  have "irc_enabled ex_c1 (EvReceive ?m)"
    by (simp add: irc_enabled_def in_kind_def ex_client_defs Let_def)
  moreover obtain e where e: "irc_handle False ex_c1 (EvReceive ?m) = Inl e"
    by (simp add: irc_handle_def IRClient_ReceiveMessage_def ex_client_defs ex_reply_defs Let_def)
  ultimately show ?thesis
    using client_faults [OF _ ex_c1_trace [unfolded ex_c0_def] _ e] by (simp add: Configuration_of_def)
qed

theorem client_fast_path_witness:
  "\<exists>req cs c'. pendingReqs ex_c1 1 = Some req \<and> pq_kind req = PendingConsensus cs \<and>
     HandleConsensusReply True ex_c1 1 (ex_rc False) =
       Inr (c', [SendToAll (FinalizeConsensus (9, 1) ''r''), Continuation 1 ''op'' ''r'']) \<and>
     FastQuorumSize (group_of 0) \<le> int (card {idx. \<exists>m.
       map_of (GetMessages (QuorumSet_Add (consensusReplyQuorum cs) 0 0 (ex_rc False)) 0) idx = Some m \<and>
       rc_result m = ''r'' \<and> rc_view m = 0})"
proof -
  obtain req cs where p: "pendingReqs ex_c1 1 = Some req" "pq_kind req = PendingConsensus cs"
    by (simp add: ex_client_defs Let_def)
  obtain c' where h: "HandleConsensusReply True ex_c1 1 (ex_rc False) =
      Inr (c', [SendToAll (FinalizeConsensus (9, 1) ''r''), Continuation 1 ''op'' ''r''])"
    by (simp add: ex_client_defs ex_reply_defs Let_def)
  have "ic_config ex_c1 = group_of 0" by (simp add: ex_client_defs Let_def)
  then show ?thesis
    using client_fast_path [OF ex_c1_inv p h, of 1 "''op''" "''r''"] p h by (auto simp: ex_rc_def)
qed

theorem client_slow_path_witness:
  "\<exists>c'. HandleConfirm ex_c2 0 0 (9, 1) = Inr (c', [Continuation 1 ''op'' ''r'']) \<and> pendingReqs c' 1 = None"
proof -
  obtain c' where h: "HandleConfirm ex_c2 0 0 (9, 1) = Inr (c', [Continuation 1 ''op'' ''r''])"
    by (simp add: HandleConfirm_def ex_c2_def ex_client_defs ex_reply_defs AddAndCheckForQuorum_def
        CheckForQuorum_id_def Let_def)
  from client_slow_path [OF ex_c2_inv h, of 1 "''op''" "''r''"] h show ?thesis by auto
qed


end
