(* ===== verification/Repl_Log.thy ===== *)
theory Repl_Log
  imports Replication_Base
begin

text \<open>
  The operation log of viewstamped replication (\<^verbatim>\<open>replication/common/log.cc\<close> and
  \<^verbatim>\<open>log-impl.h\<close>). Operation numbers are \<^verbatim>\<open>uint64_t\<close> and wrap; \<open>log_wf\<close> says that the entries are
  numbered consecutively from \<open>start\<close> without wrapping. \<^verbatim>\<open>ComputeHash\<close> (SHA-1) is the parameter
  \<open>hash\<close>.
\<close>

section \<open>Entries and operations\<close>

datatype LogEntryState =
  LOG_STATE_COMMITTED | LOG_STATE_PREPARED | LOG_STATE_SPECULATIVE | LOG_STATE_FASTPREPARED

record LogEntry =
  le_viewstamp :: viewstamp_t
  le_state :: LogEntryState
  le_request :: OpRequest
  le_hash :: string

record Log =
  entries :: "LogEntry list"
  initialHash :: string
  log_start :: opnum_t
  useHash :: bool

definition EMPTY_HASH :: string where
  "EMPTY_HASH = replicate 20 CHR 0x00"

definition Log_new :: "bool \<Rightarrow> opnum_t \<Rightarrow> string \<Rightarrow> Log outcome" where
  "Log_new uh start ih =
     obind (assert_that (start = 1 \<longrightarrow> ih = EMPTY_HASH) ''initialHash == EMPTY_HASH'') (\<lambda>_.
       Inr \<lparr>entries = [], initialHash = ih, log_start = start, useHash = uh\<rparr>)"

definition LastOpnum :: "Log \<Rightarrow> opnum_t" where
  "LastOpnum l =
     (if entries l = [] then log_start l - 1 else vs_opnum (le_viewstamp (last (entries l))))"

definition LastViewstamp :: "Log \<Rightarrow> viewstamp_t" where
  "LastViewstamp l =
     (if entries l = [] then Viewstamp 0 (log_start l - 1) else le_viewstamp (last (entries l)))"

definition Log_Last :: "Log \<Rightarrow> LogEntry option" where
  "Log_Last l = (if entries l = [] then None else Some (last (entries l)))"

definition LastHash :: "Log \<Rightarrow> string" where
  "LastHash l = (if entries l = [] then initialHash l else le_hash (last (entries l)))"

definition FirstOpnum :: "Log \<Rightarrow> opnum_t" where
  "FirstOpnum l = log_start l"

definition Log_Empty :: "Log \<Rightarrow> bool" where
  "Log_Empty l \<longleftrightarrow> entries l = []"

text \<open>\<^verbatim>\<open>Find\<close> returns the position of the entry.\<close>

definition Log_Find :: "Log \<Rightarrow> opnum_t \<Rightarrow> nat option outcome" where
  "Log_Find l opnum =
     (if entries l = [] then Inr None
      else if opnum < log_start l then Inr None
      else if opnum - log_start l > of_nat (length (entries l)) - 1 then Inr None
      else
        let i = unat (opnum - log_start l) in
        obind (assert_that (vs_opnum (le_viewstamp (entries l ! i)) = opnum) ''entry opnum'')
          (\<lambda>_. Inr (Some i)))"

definition Log_Append ::
  "(string \<Rightarrow> LogEntry \<Rightarrow> string) \<Rightarrow> Log \<Rightarrow> viewstamp_t \<Rightarrow> OpRequest \<Rightarrow> LogEntryState \<Rightarrow> Log outcome" where
  "Log_Append hash l vs req st =
     obind (assert_that (if entries l = [] then vs_opnum vs = log_start l
                         else vs_opnum vs = LastOpnum l + 1) ''consecutive opnum'') (\<lambda>_.
       let e0 = \<lparr>le_viewstamp = vs, le_state = st, le_request = req, le_hash = ''''\<rparr>;
           e = (if useHash l then e0\<lparr>le_hash := hash (LastHash l) e0\<rparr> else e0)
       in Inr (l\<lparr>entries := entries l @ [e]\<rparr>))"

definition Log_SetStatus :: "Log \<Rightarrow> opnum_t \<Rightarrow> LogEntryState \<Rightarrow> (bool \<times> Log) outcome" where
  "Log_SetStatus l opnum st =
     obind (Log_Find l opnum) (\<lambda>r.
       case r of
         None \<Rightarrow> Inr (False, l)
       | Some i \<Rightarrow> Inr (True, l\<lparr>entries := (entries l)[i := (entries l ! i)\<lparr>le_state := st\<rparr>]\<rparr>))"

definition Log_SetRequest :: "Log \<Rightarrow> opnum_t \<Rightarrow> OpRequest \<Rightarrow> (bool \<times> Log) outcome" where
  "Log_SetRequest l opnum req =
     (if useHash l then Inl (Panicked ''Log::SetRequest on hashed log not supported.'')
      else
        obind (Log_Find l opnum) (\<lambda>r.
          case r of
            None \<Rightarrow> Inr (False, l)
          | Some i \<Rightarrow> Inr (True, l\<lparr>entries := (entries l)[i := (entries l ! i)\<lparr>le_request := req\<rparr>]\<rparr>)))"

text \<open>
  The build sets \<^verbatim>\<open>PARANOID\<close>: before it removes the entries from \<open>op\<close> on, \<^verbatim>\<open>RemoveAfter\<close> checks that none
  of them is committed. \<open>n\<close> is the number of iterations of that loop.
\<close>

fun check_uncommitted :: "Log \<Rightarrow> opnum_t \<Rightarrow> nat \<Rightarrow> unit outcome" where
  "check_uncommitted l i 0 = Inr ()"
| "check_uncommitted l i (Suc n) =
     obind (Log_Find l i) (\<lambda>r.
       case r of
         None \<Rightarrow> Inl (Undefined ''null pointer dereference'')
       | Some k \<Rightarrow>
           obind (assert_that (le_state (entries l ! k) \<noteq> LOG_STATE_COMMITTED) ''entry not committed'')
             (\<lambda>_. check_uncommitted l (i + 1) n))"

definition RemoveAfter :: "Log \<Rightarrow> opnum_t \<Rightarrow> Log outcome" where
  "RemoveAfter l opnum =
     (if opnum > LastOpnum l then Inr l
      else
        obind (check_uncommitted l opnum (unat (LastOpnum l - opnum) + 1)) (\<lambda>_.
          obind (assert_that (opnum - log_start l < of_nat (length (entries l))) ''op-start < entries.size()'')
            (\<lambda>_.
              let l' = l\<lparr>entries := take (unat (opnum - log_start l)) (entries l)\<rparr> in
              obind (assert_that (LastOpnum l' = opnum - 1) ''LastOpnum() == op-1'') (\<lambda>_. Inr l'))))"

text \<open>The wire form of an entry.\<close>

record LogEntryMsg =
  em_view :: view_t
  em_opnum :: opnum_t
  em_state :: LogEntryState
  em_hash :: string
  em_request :: OpRequest

definition entry_msg :: "LogEntry \<Rightarrow> LogEntryMsg" where
  "entry_msg e =
     \<lparr>em_view = vs_view (le_viewstamp e), em_opnum = vs_opnum (le_viewstamp e), em_state = le_state e,
      em_hash = le_hash e, em_request = le_request e\<rparr>"

text \<open>The loop of \<^verbatim>\<open>Dump\<close> for a given number of iterations.\<close>

fun dump_loop :: "Log \<Rightarrow> opnum_t \<Rightarrow> nat \<Rightarrow> LogEntryMsg list outcome" where
  "dump_loop l i 0 = Inr []"
| "dump_loop l i (Suc n) =
     obind (Log_Find l i) (\<lambda>r.
       case r of
         None \<Rightarrow> Inl (AssertFail ''entry != NULL'')
       | Some k \<Rightarrow>
           obind (dump_loop l (i + 1) n) (\<lambda>ms. Inr (entry_msg (entries l ! k) # ms)))"

definition Log_Dump :: "Log \<Rightarrow> opnum_t \<Rightarrow> LogEntryMsg list outcome" where
  "Log_Dump l from =
     (let i = max from (log_start l) in
      if i \<le> LastOpnum l then dump_loop l i (unat (LastOpnum l - i) + 1) else Inr [])"

text \<open>\<^verbatim>\<open>Install\<close>: the first loop finds the first divergence, the second appends from there.\<close>

fun install_scan :: "Log \<Rightarrow> LogEntryMsg list \<Rightarrow> (Log \<times> LogEntryMsg list) outcome" where
  "install_scan l [] = Inr (l, [])"
| "install_scan l (m # ms) =
     obind (Log_Find l (em_opnum m)) (\<lambda>r.
       case r of
         None \<Rightarrow> Inr (l, m # ms)
       | Some i \<Rightarrow>
           if em_view m \<noteq> vs_view (le_viewstamp (entries l ! i))
           then obind (RemoveAfter l (em_opnum m)) (\<lambda>l'. Inr (l', m # ms))
           else install_scan l ms)"

fun install_append ::
  "(string \<Rightarrow> LogEntry \<Rightarrow> string) \<Rightarrow> Log \<Rightarrow> LogEntryMsg list \<Rightarrow> Log outcome" where
  "install_append hash l [] = Inr l"
| "install_append hash l (m # ms) =
     obind (Log_Append hash l (Viewstamp (em_view m) (em_opnum m)) (em_request m) LOG_STATE_PREPARED)
       (\<lambda>l'. install_append hash l' ms)"

definition Log_Install ::
  "(string \<Rightarrow> LogEntry \<Rightarrow> string) \<Rightarrow> Log \<Rightarrow> LogEntryMsg list \<Rightarrow> Log outcome" where
  "Log_Install hash l ms =
     obind (install_scan l ms) (\<lambda>(l', rest). install_append hash l' rest)"

section \<open>Well-formed logs\<close>

abbreviation opnum_at :: "Log \<Rightarrow> nat \<Rightarrow> opnum_t" where
  "opnum_at l i \<equiv> vs_opnum (le_viewstamp (entries l ! i))"

definition log_wf :: "Log \<Rightarrow> bool" where
  "log_wf l \<longleftrightarrow>
     1 \<le> log_start l \<and> unat (log_start l) + length (entries l) < 2 ^ 64 \<and>
     (\<forall>i < length (entries l). opnum_at l i = log_start l + of_nat i)"

lemma log_wf_LastOpnum: "log_wf l \<Longrightarrow> LastOpnum l = log_start l + of_nat (length (entries l)) - 1"
  by (cases "entries l" rule: rev_cases) (auto simp: LastOpnum_def log_wf_def last_conv_nth nth_append)

lemma unat_of_nat_u64: "n < 2 ^ 64 \<Longrightarrow> unat (of_nat n :: u64) = n"
  by (simp add: unat_of_nat take_bit_nat_eq_self)

text \<open>On a well-formed log \<^verbatim>\<open>Find\<close> is array indexing and its assertion holds.\<close>

lemma log_wf_Find:
  assumes "log_wf l"
  shows "Log_Find l opnum =
    Inr (if log_start l \<le> opnum \<and> unat opnum < unat (log_start l) + length (entries l)
         then Some (unat opnum - unat (log_start l)) else None)"
proof (cases "log_start l \<le> opnum \<and> entries l \<noteq> []")
  case False
  then show ?thesis by (auto simp: Log_Find_def word_less_nat_alt word_le_nat_alt)
next
  case True
  let ?n = "length (entries l)"
  have bound: "unat (log_start l) + ?n < 2 ^ 64" using assms by (simp add: log_wf_def)
  have d: "unat (opnum - log_start l) = unat opnum - unat (log_start l)"
    using True by (simp add: unat_sub)
  have s: "unat (of_nat ?n - 1 :: u64) = ?n - 1"
  proof -
    have n: "unat (of_nat ?n :: u64) = ?n" using bound by (intro unat_of_nat_u64) linarith
    moreover have "1 \<le> (of_nat ?n :: u64)"
      using True n by (cases "entries l") (auto simp: word_le_nat_alt)
    ultimately show ?thesis using unat_sub [of 1 "of_nat ?n :: u64"] by simp
  qed
  have gt: "opnum - log_start l > of_nat ?n - 1 \<longleftrightarrow> \<not> unat opnum < unat (log_start l) + ?n"
    using True unfolding word_less_nat_alt d s by (cases "entries l") (auto simp: word_le_nat_alt)
  show ?thesis
  proof (cases "unat opnum < unat (log_start l) + ?n")
    case False
    then show ?thesis using True gt by (simp add: Log_Find_def)
  next
    case inside: True
    let ?i = "unat opnum - unat (log_start l)"
    have "?i < ?n" using True inside by (cases "entries l") (auto simp: word_le_nat_alt)
    then have "opnum_at l ?i = log_start l + of_nat ?i" using assms by (simp add: log_wf_def)
    also have "\<dots> = opnum" by (simp flip: d)
    finally show ?thesis using True inside gt d by (simp add: Log_Find_def Let_def not_less)
  qed
qed

lemma log_wf_Append:
  assumes "log_wf l" and "Log_Append hash l vs req st = Inr l'"
    and "unat (log_start l) + length (entries l) + 1 < 2 ^ 64"
  shows "log_wf l'" and "log_start l' = log_start l" and "vs_opnum vs = log_start l + of_nat (length (entries l))"
    and "\<exists>e. entries l' = entries l @ [e] \<and> le_viewstamp e = vs \<and> le_request e = req \<and> le_state e = st"
proof -
  obtain e where e: "entries l' = entries l @ [e]" "le_viewstamp e = vs" "le_request e = req"
      "le_state e = st"
    and start: "log_start l' = log_start l"
    and num: "if entries l = [] then vs_opnum vs = log_start l else vs_opnum vs = LastOpnum l + 1"
    using assms(2) by (auto simp: Log_Append_def Let_def split: if_splits)
  show n: "vs_opnum vs = log_start l + of_nat (length (entries l))"
    using num log_wf_LastOpnum [OF assms(1)] by (auto split: if_splits)
  show "log_start l' = log_start l" by (rule start)
  show "log_wf l'"
    using assms(1,3) n e start by (auto simp: log_wf_def nth_append less_Suc_eq)
  show "\<exists>e. entries l' = entries l @ [e] \<and> le_viewstamp e = vs \<and> le_request e = req \<and> le_state e = st"
    using e by blast
qed

lemma check_uncommitted_all:
  assumes "log_wf l"
  shows "check_uncommitted l i n = Inr () \<Longrightarrow> log_start l \<le> i \<Longrightarrow>
    unat i + n \<le> unat (log_start l) + length (entries l) \<Longrightarrow>
    unat i - unat (log_start l) \<le> k \<Longrightarrow> k < unat i - unat (log_start l) + n \<Longrightarrow>
    le_state (entries l ! k) \<noteq> LOG_STATE_COMMITTED"
proof (induction n arbitrary: i)
  case (Suc n)
  let ?k = "unat i - unat (log_start l)"
  have le: "unat (log_start l) \<le> unat i" using Suc.prems(2) by (simp add: word_le_nat_alt)
  have find: "Log_Find l i = Inr (Some ?k)"
    using log_wf_Find [OF assms, of i] Suc.prems(2,3) by simp
  have st: "le_state (entries l ! ?k) \<noteq> LOG_STATE_COMMITTED"
    and rest: "check_uncommitted l (i + 1) n = Inr ()"
    using Suc.prems(1) find by (auto split: if_splits)
  show ?case
  proof (cases "k = ?k")
    case True
    then show ?thesis using st by simp
  next
    case False
    have b: "unat i + 1 < 2 ^ 64" using Suc.prems(3) assms by (simp add: log_wf_def)
    then have i1: "unat (i + 1) = unat i + 1"
      by (simp add: unat_word_ariths(1) unat_of_nat)
    then have "log_start l \<le> i + 1" using le by (simp add: word_le_nat_alt)
    with Suc.IH [OF rest] i1 Suc.prems(3-5) False le show ?thesis by simp
  qed
qed simp

definition keeps_committed :: "Log \<Rightarrow> Log \<Rightarrow> bool" where
  "keeps_committed l l' \<longleftrightarrow>
     (\<forall>k < length (entries l). le_state (entries l ! k) = LOG_STATE_COMMITTED \<longrightarrow>
        k < length (entries l') \<and> entries l' ! k = entries l ! k)"

lemma unat_LastOpnum:
  assumes "log_wf l" and "entries l \<noteq> []"
  shows "unat (LastOpnum l) = unat (log_start l) + length (entries l) - 1"
proof -
  have b: "unat (log_start l) + length (entries l) < 2 ^ 64" using assms by (simp add: log_wf_def)
  have "LastOpnum l = log_start l + of_nat (length (entries l) - 1)"
    using log_wf_LastOpnum [OF assms(1)] assms(2) by (cases "entries l") simp_all
  also have "unat \<dots> = unat (log_start l) + (length (entries l) - 1)"
  proof -
    have "unat (of_nat (length (entries l) - 1) :: u64) = length (entries l) - 1"
      using b by (intro unat_of_nat_u64) linarith
    then show ?thesis using b by (subst unat_add_lem [THEN iffD1]) simp_all
  qed
  finally show ?thesis using assms(2) by (cases "entries l") simp_all
qed

lemma RemoveAfter_spec:
  assumes wf: "log_wf l" and "RemoveAfter l opnum = Inr l'" and "log_start l \<le> opnum"
  shows "log_wf l'" and "log_start l' = log_start l" and "keeps_committed l l'"
    and "entries l' = take (unat opnum - unat (log_start l)) (entries l)"
proof -
  let ?k = "unat opnum - unat (log_start l)" and ?n = "length (entries l)"
  have le: "unat (log_start l) \<le> unat opnum" using assms(3) by (simp add: word_le_nat_alt)
  have d: "unat (opnum - log_start l) = ?k" using assms(3) by (simp add: unat_sub)
  have A: "entries l' = take ?k (entries l) \<and> log_start l' = log_start l \<and> keeps_committed l l'"
  proof (cases "opnum > LastOpnum l")
    case True
    then have "l' = l" using assms(2) by (simp add: RemoveAfter_def)
    moreover have "?n \<le> ?k"
      using True unat_LastOpnum [OF wf] by (cases "entries l = []") (auto simp: word_less_nat_alt)
    ultimately show ?thesis by (simp add: keeps_committed_def)
  next
    case False
    then have chk: "check_uncommitted l opnum (unat (LastOpnum l - opnum) + 1) = Inr ()"
      and l': "l' = l\<lparr>entries := take ?k (entries l)\<rparr>"
      using assms(2) d by (auto simp: RemoveAfter_def Let_def split: if_splits)
    have ne: "entries l \<noteq> []"
    proof
      assume "entries l = []"
      then have "LastOpnum l = log_start l - 1" by (simp add: LastOpnum_def)
      moreover have "1 \<le> log_start l" using wf by (simp add: log_wf_def)
      ultimately have "unat (LastOpnum l) + 1 = unat (log_start l)"
        by (simp add: unat_sub word_le_nat_alt)
      with False le show False by (simp add: word_less_nat_alt)
    qed
    have last: "unat (LastOpnum l) = unat (log_start l) + ?n - 1" using unat_LastOpnum [OF wf ne] .
    have "unat (LastOpnum l - opnum) = unat (LastOpnum l) - unat opnum"
      using False by (simp add: unat_sub)
    then have cnt: "unat opnum + (unat (LastOpnum l - opnum) + 1) = unat (log_start l) + ?n"
      using last ne False by (cases "entries l") (auto simp: word_less_nat_alt)
    have "le_state (entries l ! k) \<noteq> LOG_STATE_COMMITTED" if "?k \<le> k" "k < ?n" for k
      using check_uncommitted_all [OF wf chk assms(3), of k] cnt that le by simp
    then have "k < ?k" if "k < ?n" "le_state (entries l ! k) = LOG_STATE_COMMITTED" for k
      using that by (meson not_le)
    then have "keeps_committed l l'" by (simp add: keeps_committed_def l')
    with l' show ?thesis by simp
  qed
  then show "log_start l' = log_start l" "keeps_committed l l'" "entries l' = take ?k (entries l)" by blast+
  with wf show "log_wf l'" by (auto simp: log_wf_def)
qed

section \<open>Installing a log\<close>

fun msgs_from :: "opnum_t \<Rightarrow> LogEntryMsg list \<Rightarrow> bool" where
  "msgs_from n [] = True"
| "msgs_from n (m # ms) \<longleftrightarrow> em_opnum m = n \<and> msgs_from (n + 1) ms"

text \<open>The entry at the place of the \<open>i\<close>-th message has the message's viewstamp.\<close>

definition agrees :: "Log \<Rightarrow> opnum_t \<Rightarrow> LogEntryMsg list \<Rightarrow> bool" where
  "agrees l n ms \<longleftrightarrow>
     (\<forall>i < length ms. let k = unat n - unat (log_start l) + i in
        k < length (entries l) \<and> le_viewstamp (entries l ! k) = Viewstamp (em_view (ms ! i)) (em_opnum (ms ! i)))"

definition log_extends :: "Log \<Rightarrow> Log \<Rightarrow> bool" where
  "log_extends l l' \<longleftrightarrow> log_start l' = log_start l \<and> (\<exists>es. entries l' = entries l @ es)"

lemma log_extends_trans: "log_extends a b \<Longrightarrow> log_extends b c \<Longrightarrow> log_extends a c"
  by (auto simp: log_extends_def)

lemma log_extends_committed: "keeps_committed a b \<Longrightarrow> log_extends b c \<Longrightarrow> keeps_committed a c"
  by (auto simp: keeps_committed_def log_extends_def nth_append)

lemma install_append_spec:
  assumes "log_wf l" and "install_append hash l ms = Inr l'"
    and "unat (log_start l) + length (entries l) + length ms < 2 ^ 64"
    and "msgs_from n ms" and "unat n = unat (log_start l) + length (entries l)"
  shows "log_wf l' \<and> log_extends l l' \<and> agrees l' n ms"
  using assms
proof (induction ms arbitrary: l n)
  case (Cons m ms)
  then obtain l1 where app: "Log_Append hash l (Viewstamp (em_view m) (em_opnum m)) (em_request m)
      LOG_STATE_PREPARED = Inr l1" and rest: "install_append hash l1 ms = Inr l'" by auto
  have b: "unat (log_start l) + length (entries l) + 1 < 2 ^ 64" using Cons.prems(3) by simp
  note A = log_wf_Append [OF Cons.prems(1) app b]
  obtain e where e: "entries l1 = entries l @ [e]" "le_viewstamp e = Viewstamp (em_view m) (em_opnum m)"
    using A(4) by blast
  have n1: "unat (n + 1) = unat n + 1"
    using b Cons.prems(5) by (simp add: unat_word_ariths(1) unat_of_nat)
  have "log_wf l' \<and> log_extends l1 l' \<and> agrees l' (n + 1) ms"
    using Cons.prems(3-5) e A(2) n1 by (intro Cons.IH [OF A(1) rest]) simp_all
  moreover have ext: "log_extends l l1" using e(1) A(2) by (simp add: log_extends_def)
  moreover have "agrees l' n (m # ms)" if "log_extends l1 l'" "agrees l' (n + 1) ms"
    unfolding agrees_def
  proof (intro allI impI)
    fix i assume i: "i < length (m # ms)"
    have st: "log_start l' = log_start l" using that(1) A(2) by (simp add: log_extends_def)
    show "let k = unat n - unat (log_start l') + i in k < length (entries l') \<and>
        le_viewstamp (entries l' ! k) = Viewstamp (em_view ((m # ms) ! i)) (em_opnum ((m # ms) ! i))"
    proof (cases i)
      case 0
      then show ?thesis
        using that(1) e Cons.prems(5) st by (auto simp: log_extends_def nth_append Let_def)
    next
      case (Suc j)
      then show ?thesis
        using that(2) i n1 st Cons.prems(5) by (auto simp: agrees_def Let_def dest!: spec [of _ j])
    qed
  qed
  ultimately show ?case using log_extends_trans by blast
qed (simp add: log_extends_def agrees_def)

lemma log_wf_nth:
  assumes "log_wf l" and "log_start l \<le> n" and "unat n < unat (log_start l) + length (entries l)"
  shows "opnum_at l (unat n - unat (log_start l)) = n"
proof -
  let ?k = "unat n - unat (log_start l)"
  have "?k < length (entries l)" using assms(2,3) by (simp add: word_le_nat_alt)
  then have "opnum_at l ?k = log_start l + of_nat ?k" using assms(1) by (simp add: log_wf_def)
  also have "\<dots> = n" using assms(2) by (simp flip: unat_sub)
  finally show ?thesis .
qed

text \<open>
  What the scan leaves: \<open>k\<close> messages agree with the log, whose first \<open>j\<close> entries remain, and the
  others start right after it.
\<close>

definition scanned :: "Log \<Rightarrow> opnum_t \<Rightarrow> LogEntryMsg list \<Rightarrow> Log \<Rightarrow> LogEntryMsg list \<Rightarrow> nat \<Rightarrow> nat \<Rightarrow> bool" where
  "scanned l n ms l' rest k j \<longleftrightarrow>
     log_wf l' \<and> log_start l' = log_start l \<and> keeps_committed l l' \<and>
     k \<le> length ms \<and> rest = drop k ms \<and> entries l' = take j (entries l) \<and>
     unat n - unat (log_start l) + k \<le> j \<and> agrees l' n (take k ms) \<and>
     (rest \<noteq> [] \<longrightarrow> unat n + k = unat (log_start l) + length (entries l')) \<and>
     msgs_from (n + of_nat k) rest"

lemma scanned_Cons:
  assumes "scanned l (n + 1) ms l' rest k j" and "unat (n + 1) = unat n + 1"
    and "log_start l \<le> n" and "unat n < unat (log_start l) + length (entries l)"
    and "le_viewstamp (entries l ! (unat n - unat (log_start l))) = Viewstamp (em_view m) (em_opnum m)"
  shows "scanned l n (m # ms) l' rest (Suc k) j"
proof -
  let ?i = "unat n - unat (log_start l)"
  have le: "unat (log_start l) \<le> unat n" using assms(3) by (simp add: word_le_nat_alt)
  have st: "log_start l' = log_start l" and es: "entries l' = take j (entries l)"
    and j: "?i + 1 + k \<le> j" and ag: "agrees l' (n + 1) (take k ms)"
    using assms(1,2) le by (auto simp: scanned_def)
  have "agrees l' n (m # take k ms)"
    unfolding agrees_def
  proof (intro allI impI)
    fix x assume x: "x < length (m # take k ms)"
    show "let y = unat n - unat (log_start l') + x in y < length (entries l') \<and>
      le_viewstamp (entries l' ! y) =
        Viewstamp (em_view ((m # take k ms) ! x)) (em_opnum ((m # take k ms) ! x))"
    proof (cases x)
      case 0
      then show ?thesis using assms(4,5) st es j le by (auto simp: Let_def)
    next
      case (Suc y)
      then show ?thesis
        using ag x st assms(2) le
        by (auto simp: agrees_def Let_def Suc_diff_le dest!: spec [of _ y])
    qed
  qed
  with assms(1,2) le show ?thesis by (auto simp: scanned_def add.assoc)
qed

lemma install_scan_spec:
  assumes "log_wf l" and "install_scan l ms = Inr (l', rest)" and "msgs_from n ms"
    and "log_start l \<le> n" and "unat n \<le> unat (log_start l) + length (entries l)"
    and "unat n + length ms < 2 ^ 64"
  shows "\<exists>k j. scanned l n ms l' rest k j"
  using assms
proof (induction ms arbitrary: n)
  case Nil
  then show ?case
    by (intro exI [of _ 0] exI [of _ "length (entries l)"])
      (auto simp: scanned_def keeps_committed_def agrees_def)
next
  case (Cons m ms)
  have m: "em_opnum m = n" using Cons.prems(3) by simp
  have n1: "unat (n + 1) = unat n + 1"
    using Cons.prems(6) by (simp add: unat_word_ariths(1) unat_of_nat)
  show ?case
  proof (cases "unat n < unat (log_start l) + length (entries l)")
    case False
    then have "Log_Find l n = Inr None" using log_wf_Find [OF Cons.prems(1)] by simp
    then have "l' = l \<and> rest = m # ms" using Cons.prems(2) m by auto
    then show ?thesis
      using Cons.prems False
      by (intro exI [of _ 0] exI [of _ "length (entries l)"])
        (auto simp: scanned_def keeps_committed_def agrees_def)
  next
    case True
    let ?k = "unat n - unat (log_start l)"
    have find: "Log_Find l n = Inr (Some ?k)"
      using log_wf_Find [OF Cons.prems(1), of n] True Cons.prems(4) by simp
    show ?thesis
    proof (cases "em_view m = vs_view (le_viewstamp (entries l ! ?k))")
      case False
      then have rm: "RemoveAfter l n = Inr l'" and rest: "rest = m # ms"
        using Cons.prems(2) find m by auto
      have "unat n = unat (log_start l) + length (take ?k (entries l))"
        using True Cons.prems(4) by (simp add: word_le_nat_alt)
      with RemoveAfter_spec [OF Cons.prems(1) rm Cons.prems(4)] rest Cons.prems(3)
      show ?thesis
        by (intro exI [of _ 0] exI [of _ ?k]) (auto simp: scanned_def agrees_def)
    next
      case same: True
      then have rec: "install_scan l ms = Inr (l', rest)" using Cons.prems(2) find m by simp
      have "\<exists>k j. scanned l (n + 1) ms l' rest k j"
        using Cons.prems n1 True by (intro Cons.IH [OF Cons.prems(1) rec]) (auto simp: word_le_nat_alt)
      moreover have "le_viewstamp (entries l ! ?k) = Viewstamp (em_view m) (em_opnum m)"
        using log_wf_nth [OF Cons.prems(1,4) True] same m
        by (cases "le_viewstamp (entries l ! ?k)") simp
      ultimately show ?thesis using scanned_Cons [OF _ n1 Cons.prems(4) True] by blast
    qed
  qed
qed

lemma Install_spec:
  assumes wf: "log_wf l" and "Log_Install hash l ms = Inr l'" and "msgs_from n ms"
    and "log_start l \<le> n" and "unat n \<le> unat (log_start l) + length (entries l)"
    and "unat n + length ms < 2 ^ 64"
  shows "log_wf l' \<and> keeps_committed l l' \<and> agrees l' n ms"
proof -
  obtain l1 rest where scan: "install_scan l ms = Inr (l1, rest)"
    and app: "install_append hash l1 rest = Inr l'"
    using assms(2) by (auto simp: Log_Install_def)
  obtain k j where "scanned l n ms l1 rest k j" using install_scan_spec [OF wf scan assms(3-6)] by blast
  then have s: "log_wf l1" "log_start l1 = log_start l" "keeps_committed l l1" "k \<le> length ms"
    "rest = drop k ms" "agrees l1 n (take k ms)" "msgs_from (n + of_nat k) rest"
    "rest \<noteq> [] \<Longrightarrow> unat n + k = unat (log_start l) + length (entries l1)"
    unfolding scanned_def by blast+
  show ?thesis
  proof (cases "rest = []")
    case True
    then show ?thesis using s app by simp
  next
    case False
    have "unat (of_nat k :: u64) = k" using s(4) assms(6) by (intro unat_of_nat_u64) linarith
    then have nk: "unat (n + of_nat k) = unat n + k"
      using s(4) assms(6) by (subst unat_add_lem [THEN iffD1]) simp_all
    have "length rest + k = length ms" using s(4,5) by simp
    then have "log_wf l' \<and> log_extends l1 l' \<and> agrees l' (n + of_nat k) rest"
      using s(2,8) False assms(6) nk
      by (intro install_append_spec [OF s(1) app _ s(7)]) simp_all
    then have ext: "log_extends l1 l'" and "log_wf l'" and ag: "agrees l' (n + of_nat k) rest"
      by blast+
    have st: "log_start l' = log_start l" using ext s(2) by (simp add: log_extends_def)
    have le: "unat (log_start l) \<le> unat n" using assms(4) by (simp add: word_le_nat_alt)
    have "agrees l' n ms"
      unfolding agrees_def
    proof (intro allI impI)
      fix i assume i: "i < length ms"
      show "let y = unat n - unat (log_start l') + i in y < length (entries l') \<and>
          le_viewstamp (entries l' ! y) = Viewstamp (em_view (ms ! i)) (em_opnum (ms ! i))"
      proof (cases "i < k")
        case True
        then show ?thesis
          using s(2,6) i ext st by (auto simp: agrees_def log_extends_def nth_append Let_def)
      next
        case False
        then have "i - k < length rest" using i s(5) by simp
        with ag False i s(5) nk st le show ?thesis
          by (auto simp: agrees_def Let_def dest!: spec [of _ "i - k"])
      qed
    qed
    then show ?thesis using \<open>log_wf l'\<close> log_extends_committed [OF s(3) ext] by blast
  qed
qed

text \<open>
  C26. \<^verbatim>\<open>Install\<close> makes the log carry the received viewstamps at the received operation numbers, keeps
  it numbered consecutively, and never drops or changes an entry that was committed.
\<close>

theorem Log_Install_correct:
  assumes "log_wf l" and "Log_Install hash l ms = Inr l'" and "msgs_from n ms"
    and "log_start l \<le> n" and "unat n \<le> unat (log_start l) + length (entries l)"
    and "unat n + length ms < 2 ^ 64"
  shows "log_wf l' \<and> keeps_committed l l' \<and> agrees l' n ms"
  using Install_spec [OF assms] .

definition ex_req :: OpRequest where
  "ex_req = \<lparr>rop = ''op'', clientid = 1, clientreqid = 1\<rparr>"

definition ex_log :: Log where
  "ex_log = \<lparr>entries = [\<lparr>le_viewstamp = Viewstamp 0 1, le_state = LOG_STATE_COMMITTED,
       le_request = ex_req, le_hash = ''''\<rparr>, \<lparr>le_viewstamp = Viewstamp 0 2,
       le_state = LOG_STATE_PREPARED, le_request = ex_req, le_hash = ''''\<rparr>],
     initialHash = EMPTY_HASH, log_start = 1, useHash = False\<rparr>"

definition ex_msgs :: "LogEntryMsg list" where
  "ex_msgs = [\<lparr>em_view = 0, em_opnum = 1, em_state = LOG_STATE_COMMITTED, em_hash = '''', em_request = ex_req\<rparr>,
     \<lparr>em_view = 1, em_opnum = 2, em_state = LOG_STATE_PREPARED, em_hash = '''', em_request = ex_req\<rparr>]"

lemma ex_log_wf: "log_wf ex_log"
  by (simp add: log_wf_def ex_log_def less_Suc_eq)

theorem Log_Install_correct_witness:
  "\<exists>l'. Log_Install (\<lambda>_ _. '''') ex_log ex_msgs = Inr l' \<and>
     log_wf l' \<and> keeps_committed ex_log l' \<and> agrees l' 1 ex_msgs"
proof -
  obtain l' where i: "Log_Install (\<lambda>_ _. '''') ex_log ex_msgs = Inr l'"
    by (simp add: Log_Install_def ex_log_def ex_msgs_def Log_Find_def RemoveAfter_def LastOpnum_def
        Log_Append_def)
  from Log_Install_correct [OF ex_log_wf i, of 1] i show ?thesis
    by (simp add: ex_msgs_def ex_log_def)
qed

end
