(* ===== verification/Vr_Replica.thy ===== *)
theory Vr_Replica
  imports Repl_Log
begin

text \<open>
  The viewstamped-replication replica of \<^verbatim>\<open>replication/vr/replica.cc\<close>: every handler, every timer
  callback and the helpers they share. A handler takes the replica and a message and returns the
  new replica and what it sends, in order. The application above the replica (\<^verbatim>\<open>AppReplica\<close>, an
  interface of \<^verbatim>\<open>replication/common/replica.h\<close>) is the record of functions \<open>'s VRApp\<close> over its
  state \<open>'s\<close>; the transport's addresses are the two kinds of end points a replica talks to. A
  send that fails is only reported by the code, so a failed send is a message that is never
  delivered. Each \<^verbatim>\<open>Timeout\<close> object is the flag that \<^verbatim>\<open>Active()\<close> returns.
\<close>

section \<open>Types\<close>

record 's VRApp =
  LeaderUpcall :: "'s \<Rightarrow> opnum_t \<Rightarrow> string \<Rightarrow> (bool \<times> string \<times> 's) outcome"
  ReplicaUpcall :: "'s \<Rightarrow> opnum_t \<Rightarrow> string \<Rightarrow> (string \<times> 's) outcome"
  VRUnloggedUpcall :: "'s \<Rightarrow> string \<Rightarrow> (string \<times> 's) outcome"

datatype Address = ReplicaAt int | ClientAt u64

record ReplyMessage =
  rm_view :: view_t
  rm_opnum :: opnum_t
  rm_clientreqid :: u64
  rm_reply :: string

record PrepareMessage =
  pm_view :: view_t
  pm_opnum :: opnum_t
  pm_batchstart :: opnum_t
  pm_request :: "OpRequest list"

record PrepareOKMessage =
  pok_view :: view_t
  pok_opnum :: opnum_t
  pok_replicaidx :: int

record StateTransferMessage =
  st_view :: view_t
  st_opnum :: opnum_t
  st_entries :: "LogEntryMsg list"

record StartViewChangeMessage =
  svc_view :: view_t
  svc_replicaidx :: int
  svc_lastcommitted :: opnum_t

record VRDoViewChangeMessage =
  dvc_view :: view_t
  dvc_lastnormalview :: view_t
  dvc_lastop :: opnum_t
  dvc_lastcommitted :: opnum_t
  dvc_entries :: "LogEntryMsg list"
  dvc_replicaidx :: int

record StartViewMessage =
  sv_view :: view_t
  sv_lastop :: opnum_t
  sv_lastcommitted :: opnum_t
  sv_entries :: "LogEntryMsg list"

datatype VRMessage =
    VRequest OpRequest
  | VUnloggedRequest OpRequest
  | VPrepare PrepareMessage
  | VPrepareOK PrepareOKMessage
  | VCommit view_t opnum_t
  | VRequestStateTransfer view_t opnum_t
  | VStateTransfer StateTransferMessage
  | VStartViewChange StartViewChangeMessage
  | VDoViewChange VRDoViewChangeMessage
  | VStartView StartViewMessage
  | VReply ReplyMessage
  | VUnloggedReply string u64
  | VOther string

datatype vr_out =
    SendTo Address VRMessage
  | SendReplica int VRMessage
  | SendAll VRMessage

record ClientTableEntry =
  lastReqId :: u64
  replied :: bool
  cte_reply :: ReplyMessage

record 's VRReplica =
  vr_config :: Configuration
  vr_myIdx :: int
  vr_status :: ReplicaStatus
  vr_view :: view_t
  lastCommitted :: opnum_t
  lastOp :: opnum_t
  lastRequestStateTransferView :: view_t
  lastRequestStateTransferOpnum :: opnum_t
  pendingPrepares :: "(Address \<times> PrepareMessage) list"
  lastPrepare :: PrepareMessage
  batchSize :: "32 word"
  lastBatchEnd :: opnum_t
  vr_log :: Log
  clientAddresses :: "u64 \<Rightarrow> Address option"
  clientTable :: "u64 \<Rightarrow> ClientTableEntry option"
  prepareOKQuorum :: "(viewstamp_t, PrepareOKMessage) QuorumSet"
  startViewChangeQuorum :: "(view_t, StartViewChangeMessage) QuorumSet"
  doViewChangeQuorum :: "(view_t, VRDoViewChangeMessage) QuorumSet"
  viewChangeTimeout :: bool
  nullCommitTimeout :: bool
  stateTransferTimeout :: bool
  resendPrepareTimeout :: bool
  closeBatchTimeout :: bool
  vr_app :: 's

type_synonym 's vr_result = "('s VRReplica \<times> vr_out list) outcome"

definition AmLeader :: "'s VRReplica \<Rightarrow> bool" where
  "AmLeader r \<longleftrightarrow> GetLeaderIndex (vr_config r) (vr_view r) = vr_myIdx r"

definition PrepareMessage_empty :: PrepareMessage where
  "PrepareMessage_empty = \<lparr>pm_view = 0, pm_opnum = 0, pm_batchstart = 0, pm_request = []\<rparr>"

definition ReplyMessage_empty :: ReplyMessage where
  "ReplyMessage_empty = \<lparr>rm_view = 0, rm_opnum = 0, rm_clientreqid = 0, rm_reply = ''''\<rparr>"

text \<open>What \<^verbatim>\<open>clientTable[id]\<close> creates for an id it does not hold: a zero-initialised entry.\<close>

definition ClientTableEntry_empty :: ClientTableEntry where
  "ClientTableEntry_empty = \<lparr>lastReqId = 0, replied = False, cte_reply = ReplyMessage_empty\<rparr>"

definition table_entry :: "'s VRReplica \<Rightarrow> u64 \<Rightarrow> ClientTableEntry" where
  "table_entry r c = (case clientTable r c of None \<Rightarrow> ClientTableEntry_empty | Some e \<Rightarrow> e)"

definition VRReplica_new :: "Configuration \<Rightarrow> int \<Rightarrow> 32 word \<Rightarrow> 's \<Rightarrow> 's VRReplica" where
  "VRReplica_new config idx bs a =
     (let r = \<lparr>vr_config = config, vr_myIdx = idx, vr_status = STATUS_NORMAL, vr_view = 0,
               lastCommitted = 0, lastOp = 0, lastRequestStateTransferView = 0,
               lastRequestStateTransferOpnum = 0, pendingPrepares = [], lastPrepare = PrepareMessage_empty,
               batchSize = bs, lastBatchEnd = 0,
               vr_log = \<lparr>entries = [], initialHash = EMPTY_HASH, log_start = 1, useHash = False\<rparr>,
               clientAddresses = Map.empty, clientTable = Map.empty,
               prepareOKQuorum = QuorumSet_new (QuorumSize config - 1),
               startViewChangeQuorum = QuorumSet_new (QuorumSize config - 1),
               doViewChangeQuorum = QuorumSet_new (QuorumSize config - 1),
               viewChangeTimeout = False, nullCommitTimeout = False, stateTransferTimeout = True,
               resendPrepareTimeout = False, closeBatchTimeout = False, vr_app = a\<rparr>
      in if AmLeader r then r\<lparr>nullCommitTimeout := True\<rparr> else r\<lparr>viewChangeTimeout := True\<rparr>)"

section \<open>Committing\<close>

text \<open>
  The log does not compute hashes (\<^verbatim>\<open>log(false)\<close>), so the hash function is immaterial.
\<close>

definition no_hash :: "string \<Rightarrow> LogEntry \<Rightarrow> string" where
  "no_hash _ _ = ''''"

text \<open>The body of the loop of \<^verbatim>\<open>CommitUpTo\<close>.\<close>

definition commit_next :: "'s VRApp \<Rightarrow> 's VRReplica \<Rightarrow> 's vr_result" where
  "commit_next app r =
     (let r1 = r\<lparr>lastCommitted := lastCommitted r + 1\<rparr>; n = lastCommitted r1 in
      obind (Log_Find (vr_log r1) n) (\<lambda>found.
        case found of
          None \<Rightarrow> Inl (Panicked ''Did not find operation in log'')
        | Some i \<Rightarrow>
            let entry = entries (vr_log r1) ! i; req = le_request entry in
            obind (ReplicaUpcall app (vr_app r1) n (rop req)) (\<lambda>(res, a).
              let reply = \<lparr>rm_view = vs_view (le_viewstamp entry), rm_opnum = vs_opnum (le_viewstamp entry),
                           rm_clientreqid = clientreqid req, rm_reply = res\<rparr> in
              obind (Log_SetStatus (vr_log r1) n LOG_STATE_COMMITTED) (\<lambda>(ok, l).
                let cte = table_entry r1 (clientid req);
                    cte' = (if lastReqId cte \<le> clientreqid req
                            then \<lparr>lastReqId = clientreqid req, replied = True, cte_reply = reply\<rparr>
                            else cte)
                in Inr (r1\<lparr>vr_app := a, vr_log := l,
                           clientTable := (clientTable r1)(clientid req \<mapsto> cte')\<rparr>,
                        case clientAddresses r1 (clientid req) of
                          None \<Rightarrow> [] | Some addr \<Rightarrow> [SendTo addr (VReply reply)])))))"

lemma commit_next_lastCommitted: "commit_next app r = Inr (r', out) \<Longrightarrow> lastCommitted r' = lastCommitted r + 1"
  by (auto simp: commit_next_def Let_def split: option.splits prod.splits)

function CommitUpTo :: "'s VRApp \<Rightarrow> 's VRReplica \<Rightarrow> opnum_t \<Rightarrow> 's vr_result" where
  "CommitUpTo app r upTo =
     (if lastCommitted r < upTo then
        obind (commit_next app r) (\<lambda>(r1, out1).
          obind (CommitUpTo app r1 upTo) (\<lambda>(r2, out2). Inr (r2, out1 @ out2)))
      else Inr (r, []))"
  by pat_completeness auto

termination CommitUpTo
proof (relation "measure (\<lambda>(app, r, upTo). unat (upTo - lastCommitted r))", goal_cases)
  case (2 app r upTo p r1 out1)
  then have "lastCommitted r1 = lastCommitted r + 1" using commit_next_lastCommitted by fastforce
  moreover have "unat (upTo - (lastCommitted r + 1)) < unat (upTo - lastCommitted r)"
  proof -
    have "upTo - lastCommitted r \<noteq> 0" using 2(1) by auto
    then have "unat (upTo - lastCommitted r - 1) < unat (upTo - lastCommitted r)"
      by (simp add: unat_minus_one unat_gt_0)
    then show ?thesis by (simp add: diff_diff_eq)
  qed
  ultimately show ?case by simp
qed simp

declare CommitUpTo.simps [simp del]

section \<open>Helpers of the handlers\<close>

definition UpdateClientTable :: "'s VRReplica \<Rightarrow> OpRequest \<Rightarrow> 's VRReplica outcome" where
  "UpdateClientTable r req =
     (let entry = table_entry r (clientid req) in
      obind (assert_that (lastReqId entry \<le> clientreqid req) ''entry.lastReqId <= req.clientreqid()'') (\<lambda>_.
        let entry' = (if lastReqId entry = clientreqid req then entry
                      else \<lparr>lastReqId = clientreqid req, replied = False, cte_reply = ReplyMessage_empty\<rparr>)
        in Inr (r\<lparr>clientTable := (clientTable r)(clientid req \<mapsto> entry')\<rparr>)))"

text \<open>The loop of \<^verbatim>\<open>SendPrepareOKs\<close> from \<open>i\<close> for a given number of iterations.\<close>

fun prepare_oks :: "'s VRReplica \<Rightarrow> opnum_t \<Rightarrow> nat \<Rightarrow> 's vr_result" where
  "prepare_oks r i 0 = Inr (r, [])"
| "prepare_oks r i (Suc n) =
     (if i \<le> lastCommitted r then prepare_oks r (i + 1) n
      else
        obind (Log_Find (vr_log r) i) (\<lambda>found.
          case found of
            None \<Rightarrow> Inl (Panicked ''Did not find operation in log'')
          | Some k \<Rightarrow>
              let entry = entries (vr_log r) ! k in
              obind (assert_that (le_state entry = LOG_STATE_PREPARED) ''entry->state == LOG_STATE_PREPARED'') (\<lambda>_.
                obind (UpdateClientTable r (le_request entry)) (\<lambda>r1.
                  obind (prepare_oks r1 (i + 1) n) (\<lambda>(r2, out).
                    Inr (r2, SendReplica (GetLeaderIndex (vr_config r) (vr_view r))
                               (VPrepareOK \<lparr>pok_view = vr_view r, pok_opnum = i, pok_replicaidx = vr_myIdx r\<rparr>)
                             # out))))))"

definition SendPrepareOKs :: "'s VRReplica \<Rightarrow> opnum_t \<Rightarrow> 's vr_result" where
  "SendPrepareOKs r oldLastOp =
     (if oldLastOp \<le> lastOp r then prepare_oks r oldLastOp (unat (lastOp r - oldLastOp) + 1)
      else Inr (r, []))"

definition RequestStateTransfer :: "'s VRReplica \<Rightarrow> 's VRReplica \<times> vr_out list" where
  "RequestStateTransfer r =
     (if lastRequestStateTransferOpnum r \<noteq> 0 \<and> lastRequestStateTransferView r = vr_view r \<and>
         lastRequestStateTransferOpnum r = lastCommitted r
      then (r, [])
      else (r\<lparr>lastRequestStateTransferView := vr_view r, lastRequestStateTransferOpnum := lastCommitted r\<rparr>,
            [SendAll (VRequestStateTransfer (vr_view r) (lastCommitted r))]))"

definition EnterView :: "'s VRReplica \<Rightarrow> view_t \<Rightarrow> 's VRReplica" where
  "EnterView r newview =
     (let r1 = r\<lparr>vr_view := newview, vr_status := STATUS_NORMAL, lastBatchEnd := lastOp r\<rparr>;
          r2 = (if AmLeader r1 then r1\<lparr>viewChangeTimeout := False, nullCommitTimeout := True\<rparr>
                else r1\<lparr>viewChangeTimeout := True, nullCommitTimeout := False,
                        resendPrepareTimeout := False, closeBatchTimeout := False\<rparr>)
      in r2\<lparr>prepareOKQuorum := QuorumSet_Clear (prepareOKQuorum r2),
            startViewChangeQuorum := QuorumSet_Clear (startViewChangeQuorum r2),
            doViewChangeQuorum := QuorumSet_Clear (doViewChangeQuorum r2)\<rparr>)"

definition StartViewChange :: "'s VRReplica \<Rightarrow> view_t \<Rightarrow> 's VRReplica \<times> vr_out list" where
  "StartViewChange r newview =
     (r\<lparr>vr_view := newview, vr_status := STATUS_VIEW_CHANGE, viewChangeTimeout := True,
        nullCommitTimeout := False, resendPrepareTimeout := False, closeBatchTimeout := False\<rparr>,
      [SendAll (VStartViewChange \<lparr>svc_view = newview, svc_replicaidx = vr_myIdx r,
                                  svc_lastcommitted = lastCommitted r\<rparr>)])"

definition SendNullCommit :: "'s VRReplica \<Rightarrow> 's vr_result" where
  "SendNullCommit r =
     obind (assert_that (AmLeader r) ''AmLeader()'') (\<lambda>_.
       Inr (r, [SendAll (VCommit (vr_view r) (lastCommitted r))]))"

definition ResendPrepare :: "'s VRReplica \<Rightarrow> 's vr_result" where
  "ResendPrepare r =
     obind (assert_that (AmLeader r) ''AmLeader()'') (\<lambda>_.
       if lastOp r = lastCommitted r then Inr (r, []) else Inr (r, [SendAll (VPrepare (lastPrepare r))]))"

text \<open>The requests that \<^verbatim>\<open>CloseBatch\<close> copies into the message.\<close>

fun batch_requests :: "'s VRReplica \<Rightarrow> opnum_t \<Rightarrow> nat \<Rightarrow> OpRequest list outcome" where
  "batch_requests r i 0 = Inr []"
| "batch_requests r i (Suc n) =
     obind (Log_Find (vr_log r) i) (\<lambda>found.
       case found of
         None \<Rightarrow> Inl (AssertFail ''entry != NULL'')
       | Some k \<Rightarrow>
           let entry = entries (vr_log r) ! k in
           obind (assert_that (vs_view (le_viewstamp entry) = vr_view r) ''entry->viewstamp.view == view'') (\<lambda>_.
             obind (assert_that (vs_opnum (le_viewstamp entry) = i) ''entry->viewstamp.opnum == i'') (\<lambda>_.
               obind (batch_requests r (i + 1) n) (\<lambda>rs. Inr (le_request entry # rs)))))"

definition CloseBatch :: "'s VRReplica \<Rightarrow> 's vr_result" where
  "CloseBatch r =
     obind (assert_that (AmLeader r) ''AmLeader()'') (\<lambda>_.
       obind (assert_that (lastBatchEnd r < lastOp r) ''lastBatchEnd < lastOp'') (\<lambda>_.
         let batchStart = lastBatchEnd r + 1 in
         obind (batch_requests r batchStart (unat (lastOp r - batchStart) + 1)) (\<lambda>rs.
           let p = \<lparr>pm_view = vr_view r, pm_opnum = lastOp r, pm_batchstart = batchStart, pm_request = rs\<rparr>
           in Inr (r\<lparr>lastPrepare := p, lastBatchEnd := lastOp r, resendPrepareTimeout := True,
                     closeBatchTimeout := False\<rparr>, [SendAll (VPrepare p)]))))"

section \<open>Normal operation\<close>

text \<open>The part of \<^verbatim>\<open>HandleRequest\<close> after the duplicate check.\<close>

definition new_request :: "'s VRApp \<Rightarrow> 's VRReplica \<Rightarrow> Address \<Rightarrow> OpRequest \<Rightarrow> 's vr_result" where
  "new_request app r remote req =
     obind (UpdateClientTable r req) (\<lambda>r1.
       obind (LeaderUpcall app (vr_app r1) (lastCommitted r1) (rop req)) (\<lambda>(replicate, res, a).
         let r2 = r1\<lparr>vr_app := a\<rparr>; cte = table_entry r2 (clientid req) in
         if \<not> replicate then
           (let reply = \<lparr>rm_view = 0, rm_opnum = 0, rm_clientreqid = clientreqid req, rm_reply = res\<rparr>
            in Inr (r2\<lparr>clientTable := (clientTable r2)(clientid req \<mapsto>
                         cte\<lparr>replied := True, cte_reply := reply\<rparr>)\<rparr>, [SendTo remote (VReply reply)]))
         else
           let request = \<lparr>rop = res, clientid = clientid req, clientreqid = clientreqid req\<rparr>;
               r3 = r2\<lparr>lastOp := lastOp r2 + 1\<rparr> in
           obind (Log_Append no_hash (vr_log r3) (Viewstamp (vr_view r3) (lastOp r3)) request LOG_STATE_PREPARED) (\<lambda>l.
             let r4 = r3\<lparr>vr_log := l\<rparr> in
             obind (if lastOp r4 - lastBatchEnd r4 + 1 > ucast (batchSize r4) then CloseBatch r4
                    else Inr (r4\<lparr>closeBatchTimeout := True\<rparr>, [])) (\<lambda>(r5, out).
               Inr (r5\<lparr>nullCommitTimeout := True\<rparr>, out)))))"

definition VR_HandleRequest :: "'s VRApp \<Rightarrow> 's VRReplica \<Rightarrow> Address \<Rightarrow> OpRequest \<Rightarrow> 's vr_result" where
  "VR_HandleRequest app r remote req =
     (if vr_status r \<noteq> STATUS_NORMAL then Inr (r, [])
      else if \<not> AmLeader r then Inr (r, [])
      else
        let r1 = r\<lparr>clientAddresses := (clientAddresses r)(clientid req \<mapsto> remote)\<rparr> in
        case clientTable r1 (clientid req) of
          None \<Rightarrow> new_request app r1 remote req
        | Some entry \<Rightarrow>
            if clientreqid req < lastReqId entry then Inr (r1, [])
            else if clientreqid req = lastReqId entry then
              (if replied entry then Inr (r1, [SendTo remote (VReply (cte_reply entry))]) else Inr (r1, []))
            else new_request app r1 remote req)"

definition VR_HandleUnloggedRequest :: "'s VRApp \<Rightarrow> 's VRReplica \<Rightarrow> Address \<Rightarrow> OpRequest \<Rightarrow> 's vr_result" where
  "VR_HandleUnloggedRequest app r remote req =
     (if vr_status r \<noteq> STATUS_NORMAL then Inr (r, [])
      else
        obind (VRUnloggedUpcall app (vr_app r) (rop req)) (\<lambda>(res, a).
          Inr (r\<lparr>vr_app := a\<rparr>, [SendTo remote (VUnloggedReply res (clientreqid req))])))"

text \<open>The loop of \<^verbatim>\<open>HandlePrepare\<close> over the requests of the batch.\<close>

fun prepare_loop ::
  "'s VRReplica \<Rightarrow> view_t \<Rightarrow> opnum_t \<Rightarrow> OpRequest list \<Rightarrow> ('s VRReplica \<times> opnum_t) outcome" where
  "prepare_loop r v op [] = Inr (r, op)"
| "prepare_loop r v op (req # reqs) =
     (let op' = op + 1 in
      if op' \<le> lastOp r then prepare_loop r v op' reqs
      else
        let r1 = r\<lparr>lastOp := lastOp r + 1\<rparr> in
        obind (Log_Append no_hash (vr_log r1) (Viewstamp v op') req LOG_STATE_PREPARED) (\<lambda>l.
          obind (UpdateClientTable (r1\<lparr>vr_log := l\<rparr>) req) (\<lambda>r2. prepare_loop r2 v op' reqs)))"

definition prepare_ok :: "'s VRReplica \<Rightarrow> PrepareMessage \<Rightarrow> vr_out" where
  "prepare_ok r msg =
     SendReplica (GetLeaderIndex (vr_config r) (vr_view r))
       (VPrepareOK \<lparr>pok_view = pm_view msg, pok_opnum = pm_opnum msg, pok_replicaidx = vr_myIdx r\<rparr>)"

definition defer_prepare :: "'s VRReplica \<Rightarrow> Address \<Rightarrow> PrepareMessage \<Rightarrow> 's VRReplica \<times> vr_out list" where
  "defer_prepare r remote msg =
     (let (r1, out) = RequestStateTransfer r
      in (r1\<lparr>pendingPrepares := pendingPrepares r1 @ [(remote, msg)]\<rparr>, out))"

definition HandlePrepare :: "'s VRReplica \<Rightarrow> Address \<Rightarrow> PrepareMessage \<Rightarrow> 's vr_result" where
  "HandlePrepare r remote msg =
     (if vr_status r \<noteq> STATUS_NORMAL then Inr (r, [])
      else if pm_view msg < vr_view r then Inr (r, [])
      else if pm_view msg > vr_view r then Inr (defer_prepare r remote msg)
      else if AmLeader r then Inl (Panicked ''Unexpected PREPARE: I'm the leader of this view'')
      else
        obind (assert_that (pm_batchstart msg \<le> pm_opnum msg) ''msg.batchstart() <= msg.opnum()'') (\<lambda>_.
          obind (assert_that (pm_opnum msg - pm_batchstart msg + 1 =
                   of_nat (length (pm_request msg)) ) ''msg.opnum()-msg.batchstart()+1 == msg.request_size()'') (\<lambda>_.
            let r1 = r\<lparr>viewChangeTimeout := True\<rparr> in
            if pm_opnum msg \<le> lastOp r1 then Inr (r1, [prepare_ok r1 msg])
            else if pm_batchstart msg > lastOp r1 + 1 then Inr (defer_prepare r1 remote msg)
            else
              obind (prepare_loop r1 (pm_view msg) (pm_batchstart msg - 1) (pm_request msg)) (\<lambda>(r2, op).
                obind (assert_that (op = pm_opnum msg) ''op == msg.opnum()'') (\<lambda>_.
                  Inr (r2, [prepare_ok r2 msg]))))))"

definition HandlePrepareOK :: "'s VRApp \<Rightarrow> 's VRReplica \<Rightarrow> PrepareOKMessage \<Rightarrow> 's vr_result" where
  "HandlePrepareOK app r msg =
     (if vr_status r \<noteq> STATUS_NORMAL then Inr (r, [])
      else if pok_view msg < vr_view r then Inr (r, [])
      else if pok_view msg > vr_view r then Inr (RequestStateTransfer r)
      else if \<not> AmLeader r then Inr (r, [])
      else
        let vs = Viewstamp (pok_view msg) (pok_opnum msg);
            (msgs, q) = AddAndCheckForQuorum (prepareOKQuorum r) vs (pok_replicaidx msg) msg;
            r1 = r\<lparr>prepareOKQuorum := q\<rparr>
        in case msgs of
             None \<Rightarrow> Inr (r1, [])
           | Some ms \<Rightarrow>
               obind (CommitUpTo app r1 (pok_opnum msg)) (\<lambda>(r2, out).
                 if int (length ms) \<ge> QuorumSize (vr_config r2) then Inr (r2, out)
                 else Inr (r2\<lparr>nullCommitTimeout := True\<rparr>,
                           out @ [SendAll (VCommit (vr_view r2) (lastCommitted r2))])))"

definition HandleCommit :: "'s VRApp \<Rightarrow> 's VRReplica \<Rightarrow> view_t \<Rightarrow> opnum_t \<Rightarrow> 's vr_result" where
  "HandleCommit app r v opnum =
     (if vr_status r \<noteq> STATUS_NORMAL then Inr (r, [])
      else if v < vr_view r then Inr (r, [])
      else if v > vr_view r then Inr (RequestStateTransfer r)
      else if AmLeader r then Inl (Panicked ''Unexpected COMMIT: I'm the leader of this view'')
      else
        let r1 = r\<lparr>viewChangeTimeout := True\<rparr> in
        if opnum \<le> lastCommitted r1 then Inr (r1, [])
        else if opnum > lastOp r1 then Inr (RequestStateTransfer r1)
        else CommitUpTo app r1 opnum)"

section \<open>State transfer\<close>

definition HandleRequestStateTransfer :: "'s VRReplica \<Rightarrow> Address \<Rightarrow> view_t \<Rightarrow> opnum_t \<Rightarrow> 's vr_result" where
  "HandleRequestStateTransfer r remote v opnum =
     (if vr_status r \<noteq> STATUS_NORMAL then Inr (r, [])
      else if v > vr_view r then Inr (RequestStateTransfer r)
      else
        obind (Log_Dump (vr_log r) (opnum + 1)) (\<lambda>es.
          Inr (r, [SendTo remote (VStateTransfer \<lparr>st_view = vr_view r, st_opnum = lastCommitted r,
                                                  st_entries = es\<rparr>)])))"

text \<open>
  One iteration of the loop of \<^verbatim>\<open>HandleStateTransfer\<close>; the second component is \<^verbatim>\<open>oldLastOp\<close>. The
  checks of the \<^verbatim>\<open>PARANOID\<close> build are included.
\<close>

definition transfer_entry :: "'s VRReplica \<times> opnum_t \<Rightarrow> LogEntryMsg \<Rightarrow> ('s VRReplica \<times> opnum_t) outcome" where
  "transfer_entry p m =
     (let (r, oldLastOp) = p; vs = Viewstamp (em_view m) (em_opnum m) in
      if em_opnum m \<le> lastCommitted r then
        obind (Log_Find (vr_log r) (em_opnum m)) (\<lambda>found.
          case found of
            None \<Rightarrow> Inl (Undefined ''null pointer dereference'')
          | Some k \<Rightarrow>
              let entry = entries (vr_log r) ! k in
              obind (assert_that (vs_opnum (le_viewstamp entry) = em_opnum m) ''entry opnum'') (\<lambda>_.
                obind (assert_that (vs_view (le_viewstamp entry) = em_view m) ''entry view'') (\<lambda>_. Inr p)))
      else if em_opnum m \<le> lastOp r then
        obind (Log_Find (vr_log r) (em_opnum m)) (\<lambda>found.
          case found of
            None \<Rightarrow> Inl (Undefined ''null pointer dereference'')
          | Some k \<Rightarrow>
              let entry = entries (vr_log r) ! k in
              obind (assert_that (vs_opnum (le_viewstamp entry) = em_opnum m) ''entry opnum'') (\<lambda>_.
                obind (assert_that (vs_view (le_viewstamp entry) \<le> em_view m) ''entry view'') (\<lambda>_.
                  if vs_view (le_viewstamp entry) = em_view m then
                    obind (assert_that (le_state entry = LOG_STATE_PREPARED) ''entry prepared'') (\<lambda>_. Inr p)
                  else
                    obind (assert_that (le_state entry \<noteq> LOG_STATE_COMMITTED) ''entry not committed'') (\<lambda>_.
                      obind (RemoveAfter (vr_log r) (em_opnum m)) (\<lambda>l.
                        obind (Log_Append no_hash l vs (em_request m) LOG_STATE_PREPARED) (\<lambda>l'.
                          Inr (r\<lparr>lastOp := em_opnum m, vr_log := l'\<rparr>, em_opnum m)))))))
      else
        obind (assert_that (em_opnum m = lastOp r + 1) ''newEntry.opnum() == lastOp+1'') (\<lambda>_.
          obind (Log_Append no_hash (vr_log r) vs (em_request m) LOG_STATE_PREPARED) (\<lambda>l.
            Inr (r\<lparr>lastOp := lastOp r + 1, vr_log := l\<rparr>, oldLastOp))))"

fun transfer_entries ::
  "'s VRReplica \<times> opnum_t \<Rightarrow> LogEntryMsg list \<Rightarrow> ('s VRReplica \<times> opnum_t) outcome" where
  "transfer_entries p [] = Inr p"
| "transfer_entries p (m # ms) = obind (transfer_entry p m) (\<lambda>p'. transfer_entries p' ms)"

text \<open>
  The last loop of the handler iterates over \<^verbatim>\<open>pendingPrepares\<close> right after clearing it, so the
  deferred messages are dropped without being processed.
\<close>

definition HandleStateTransfer :: "'s VRApp \<Rightarrow> 's VRReplica \<Rightarrow> StateTransferMessage \<Rightarrow> 's vr_result" where
  "HandleStateTransfer app r msg =
     (if st_view msg < vr_view r then Inr (r, [])
      else
        obind (transfer_entries (r, lastOp r) (st_entries msg)) (\<lambda>(r1, oldLastOp).
          let r2 = (if st_view msg > vr_view r1 then EnterView r1 (st_view msg) else r1) in
          obind (assert_that (st_opnum msg \<le> lastOp r2) ''msg.opnum() <= lastOp'') (\<lambda>_.
            obind (CommitUpTo app r2 (st_opnum msg)) (\<lambda>(r3, out1).
              obind (SendPrepareOKs r3 oldLastOp) (\<lambda>(r4, out2).
                Inr (r4\<lparr>pendingPrepares := []\<rparr>, out1 @ out2))))))"

section \<open>View changes\<close>

text \<open>\<^verbatim>\<open>std::min_element\<close> followed by a dereference: undefined on an empty range.\<close>

fun min_of :: "opnum_t list \<Rightarrow> opnum_t outcome" where
  "min_of [] = Inl (Undefined ''dereference of end()'')"
| "min_of (x # xs) = Inr (foldl min x xs)"

definition HandleStartViewChange :: "'s VRReplica \<Rightarrow> StartViewChangeMessage \<Rightarrow> 's vr_result" where
  "HandleStartViewChange r msg =
     (if svc_view msg < vr_view r then Inr (r, [])
      else if svc_view msg = vr_view r \<and> vr_status r \<noteq> STATUS_VIEW_CHANGE then Inr (r, [])
      else
        let (r1, out1) = (if vr_status r \<noteq> STATUS_VIEW_CHANGE \<or> svc_view msg > vr_view r
                          then StartViewChange r (svc_view msg) else (r, [])) in
        obind (assert_that (svc_view msg = vr_view r1) ''msg.view() == view'') (\<lambda>_.
          let (msgs, q) = AddAndCheckForQuorum (startViewChangeQuorum r1) (svc_view msg)
                            (svc_replicaidx msg) msg;
              r2 = r1\<lparr>startViewChangeQuorum := q\<rparr>;
              leader = GetLeaderIndex (vr_config r2) (vr_view r2)
          in case msgs of
               None \<Rightarrow> Inr (r2, out1)
             | Some ms \<Rightarrow>
                 if leader = vr_myIdx r2 then Inr (r2, out1)
                 else
                   obind (min_of (map (\<lambda>p. svc_lastcommitted (snd p)) ms)) (\<lambda>m.
                     obind (Log_Dump (vr_log r2) (min m (lastCommitted r2))) (\<lambda>es.
                       Inr (r2, out1 @ [SendReplica leader (VDoViewChange
                              \<lparr>dvc_view = vr_view r2, dvc_lastnormalview = vs_view (LastViewstamp (vr_log r2)),
                               dvc_lastop = lastOp r2, dvc_lastcommitted = lastCommitted r2,
                               dvc_entries = es, dvc_replicaidx = vr_myIdx r2\<rparr>)])))))"

text \<open>
  The loop that looks for the most recent log: the latest viewstamp found and the message it
  came from, if any is later than the replica's own.
\<close>

fun latest_log ::
  "(int \<times> VRDoViewChangeMessage) list \<Rightarrow> view_t \<times> opnum_t \<times> VRDoViewChangeMessage option
    \<Rightarrow> view_t \<times> opnum_t \<times> VRDoViewChangeMessage option" where
  "latest_log [] acc = acc"
| "latest_log (p # ms) acc =
     (let (latestView, latestOp, latestMsg) = acc; x = snd p in
      latest_log ms
        (if dvc_lastnormalview x > latestView \<or> (dvc_lastnormalview x = latestView \<and> dvc_lastop x > latestOp)
         then (dvc_lastnormalview x, dvc_lastop x, Some x) else acc))"

text \<open>
  \<^verbatim>\<open>latestMsg\<close> points into the loop variable \<^verbatim>\<open>kv\<close>, a copy that is destroyed at the end of its
  iteration, so every use of it after the loop reads a dead object. \<open>dead\<close> says what such a read
  gives for the object that \<^verbatim>\<open>latestMsg\<close> pointed to: a fault, or some message.
\<close>

type_synonym dead_read = "VRDoViewChangeMessage \<Rightarrow> VRDoViewChangeMessage outcome"

definition install_latest :: "'s VRReplica \<Rightarrow> VRDoViewChangeMessage \<Rightarrow> VRDoViewChangeMessage \<Rightarrow> 's VRReplica outcome" where
  "install_latest r msg latest =
     (case dvc_entries latest of
        [] \<Rightarrow>
          obind (assert_that (lastCommitted r = dvc_lastcommitted msg) ''lastCommitted == msg.lastcommitted()'') (\<lambda>_.
            obind (assert_that (dvc_lastop msg = dvc_lastcommitted msg) ''msg.lastop() == msg.lastcommitted()'') (\<lambda>_.
              Inr r))
      | e # es \<Rightarrow>
          if em_opnum e > lastCommitted r + 1
          then Inl (Panicked ''Received log that didn't include enough entries to install it'')
          else
            obind (RemoveAfter (vr_log r) (dvc_lastop latest + 1)) (\<lambda>l.
              obind (Log_Install no_hash l (e # es)) (\<lambda>l'. Inr (r\<lparr>vr_log := l'\<rparr>))))"

definition new_leader ::
  "dead_read \<Rightarrow> 's VRApp \<Rightarrow> 's VRReplica \<Rightarrow> (int \<times> VRDoViewChangeMessage) list \<Rightarrow> VRDoViewChangeMessage \<Rightarrow> 's vr_result"
where
  "new_leader dead app r ms msg =
     (let (latestView, latestOp, latestMsg) =
            latest_log ms (vs_view (LastViewstamp (vr_log r)), vs_opnum (LastViewstamp (vr_log r)), None) in
      obind (case latestMsg of None \<Rightarrow> Inr None | Some x \<Rightarrow> obind (dead x) (\<lambda>y. Inr (Some y))) (\<lambda>latest.
        obind (case latest of None \<Rightarrow> Inr r | Some x \<Rightarrow> install_latest r msg x) (\<lambda>r1.
          obind (min_of (map (\<lambda>p. svc_lastcommitted (snd p))
                   (GetMessages (startViewChangeQuorum r1) (vr_view r1)))) (\<lambda>minSVC.
            obind (min_of (map (\<lambda>p. dvc_lastcommitted (snd p)) ms)) (\<lambda>minDVC.
              let minCommitted = min (min minSVC minDVC) (lastCommitted r1);
                  r2 = EnterView r1 (dvc_view msg) in
              obind (assert_that (AmLeader r2) ''AmLeader()'') (\<lambda>_.
                let r3 = r2\<lparr>lastOp := latestOp\<rparr> in
                obind (case latest of None \<Rightarrow> Inr (r3, []) | Some x \<Rightarrow> CommitUpTo app r3 (dvc_lastcommitted x)) (\<lambda>(r4, out).
                  obind (Log_Dump (vr_log r4) minCommitted) (\<lambda>es.
                    Inr (r4, out @ [SendAll (VStartView \<lparr>sv_view = vr_view r4, sv_lastop = lastOp r4,
                                      sv_lastcommitted = lastCommitted r4, sv_entries = es\<rparr>)])))))))))"

definition VR_HandleDoViewChange ::
  "dead_read \<Rightarrow> 's VRApp \<Rightarrow> 's VRReplica \<Rightarrow> VRDoViewChangeMessage \<Rightarrow> 's vr_result" where
  "VR_HandleDoViewChange dead app r msg =
     (if dvc_view msg < vr_view r then Inr (r, [])
      else if dvc_view msg = vr_view r \<and> vr_status r \<noteq> STATUS_VIEW_CHANGE then Inr (r, [])
      else
        let (r1, out1) = (if vr_status r \<noteq> STATUS_VIEW_CHANGE \<or> dvc_view msg > vr_view r
                          then StartViewChange r (dvc_view msg) else (r, [])) in
        obind (assert_that (GetLeaderIndex (vr_config r1) (dvc_view msg) = vr_myIdx r1) ''leader of msg.view()'') (\<lambda>_.
          let (msgs, q) = AddAndCheckForQuorum (doViewChangeQuorum r1) (dvc_view msg) (dvc_replicaidx msg) msg;
              r2 = r1\<lparr>doViewChangeQuorum := q\<rparr>
          in case msgs of
               None \<Rightarrow> Inr (r2, out1)
             | Some ms \<Rightarrow> obind (new_leader dead app r2 ms msg) (\<lambda>(r3, out2). Inr (r3, out1 @ out2))))"

definition VR_HandleStartView :: "'s VRApp \<Rightarrow> 's VRReplica \<Rightarrow> StartViewMessage \<Rightarrow> 's vr_result" where
  "VR_HandleStartView app r msg =
     (if sv_view msg < vr_view r then Inr (r, [])
      else if sv_view msg = vr_view r \<and> vr_status r \<noteq> STATUS_VIEW_CHANGE then Inr (r, [])
      else
        obind (assert_that (GetLeaderIndex (vr_config r) (sv_view msg) \<noteq> vr_myIdx r) ''not the leader'') (\<lambda>_.
          obind
            (case sv_entries msg of
               [] \<Rightarrow>
                 obind (assert_that (sv_lastcommitted msg = lastCommitted r) ''msg.lastcommitted() == lastCommitted'') (\<lambda>_.
                   obind (assert_that (sv_lastop msg = sv_lastcommitted msg) ''msg.lastop() == msg.lastcommitted()'') (\<lambda>_.
                     Inr r))
             | e # es \<Rightarrow>
                 if em_opnum e > lastCommitted r + 1
                 then Inl (Panicked ''Not enough entries in STARTVIEW message to install new log'')
                 else
                   obind (RemoveAfter (vr_log r) (sv_lastop msg + 1)) (\<lambda>l.
                     obind (Log_Install no_hash l (e # es)) (\<lambda>l'. Inr (r\<lparr>vr_log := l'\<rparr>)))) (\<lambda>r1.
            let r2 = EnterView r1 (sv_view msg); oldLastOp = lastOp r2; r3 = r2\<lparr>lastOp := sv_lastop msg\<rparr> in
            obind (assert_that (\<not> AmLeader r3) ''!AmLeader()'') (\<lambda>_.
              obind (CommitUpTo app r3 (sv_lastcommitted msg)) (\<lambda>(r4, out1).
                obind (SendPrepareOKs r4 oldLastOp) (\<lambda>(r5, out2). Inr (r5, out1 @ out2)))))))"

section \<open>Messages and timers\<close>

definition VR_ReceiveMessage ::
  "dead_read \<Rightarrow> 's VRApp \<Rightarrow> 's VRReplica \<Rightarrow> Address \<Rightarrow> VRMessage \<Rightarrow> 's vr_result" where
  "VR_ReceiveMessage dead app r remote m =
     (case m of
        VRequest req \<Rightarrow> VR_HandleRequest app r remote req
      | VUnloggedRequest req \<Rightarrow> VR_HandleUnloggedRequest app r remote req
      | VPrepare msg \<Rightarrow> HandlePrepare r remote msg
      | VPrepareOK msg \<Rightarrow> HandlePrepareOK app r msg
      | VCommit v opnum \<Rightarrow> HandleCommit app r v opnum
      | VRequestStateTransfer v opnum \<Rightarrow> HandleRequestStateTransfer r remote v opnum
      | VStateTransfer msg \<Rightarrow> HandleStateTransfer app r msg
      | VStartViewChange msg \<Rightarrow> HandleStartViewChange r msg
      | VDoViewChange msg \<Rightarrow> VR_HandleDoViewChange dead app r msg
      | VStartView msg \<Rightarrow> VR_HandleStartView app r msg
      | _ \<Rightarrow> Inl (Panicked ''Received unexpected message type in VR proto''))"

text \<open>
  A timer that is active may fire; \<^verbatim>\<open>Timeout::Reset\<close> arms it again before it calls the callback.
\<close>

datatype vr_timer =
  ViewChangeTimer | NullCommitTimer | StateTransferTimer | ResendPrepareTimer | CloseBatchTimer

definition timer_active :: "'s VRReplica \<Rightarrow> vr_timer \<Rightarrow> bool" where
  "timer_active r t =
     (case t of
        ViewChangeTimer \<Rightarrow> viewChangeTimeout r
      | NullCommitTimer \<Rightarrow> nullCommitTimeout r
      | StateTransferTimer \<Rightarrow> stateTransferTimeout r
      | ResendPrepareTimer \<Rightarrow> resendPrepareTimeout r
      | CloseBatchTimer \<Rightarrow> closeBatchTimeout r)"

definition timer_callback :: "'s VRReplica \<Rightarrow> vr_timer \<Rightarrow> 's vr_result" where
  "timer_callback r t =
     (case t of
        ViewChangeTimer \<Rightarrow> Inr (StartViewChange r (vr_view r + 1))
      | NullCommitTimer \<Rightarrow> SendNullCommit r
      | StateTransferTimer \<Rightarrow>
          Inr (r\<lparr>lastRequestStateTransferView := 0, lastRequestStateTransferOpnum := 0\<rparr>, [])
      | ResendPrepareTimer \<Rightarrow> ResendPrepare r
      | CloseBatchTimer \<Rightarrow> CloseBatch r)"

section \<open>Logs of replicas\<close>

text \<open>
  \<open>log_ok\<close> is what the replica's counters say of its log: operation \<open>k\<close> is at position \<open>k - 1\<close>, the
  last one is \<open>lastOp\<close>, and exactly those up to \<open>lastCommitted\<close> are committed. \<open>ops\<close> is the log
  without the states of its entries.
\<close>

definition core :: "LogEntry \<Rightarrow> viewstamp_t \<times> OpRequest" where
  "core e = (le_viewstamp e, le_request e)"

abbreviation ops :: "'s VRReplica \<Rightarrow> (viewstamp_t \<times> OpRequest) list" where
  "ops r \<equiv> map core (entries (vr_log r))"

definition log_ok :: "'s VRReplica \<Rightarrow> bool" where
  "log_ok r \<longleftrightarrow>
     log_start (vr_log r) = 1 \<and> \<not> useHash (vr_log r) \<and> log_wf (vr_log r) \<and>
     unat (lastOp r) = length (entries (vr_log r)) \<and> lastCommitted r \<le> lastOp r \<and>
     (\<forall>k < length (entries (vr_log r)). le_state (entries (vr_log r) ! k) =
        (if k < unat (lastCommitted r) then LOG_STATE_COMMITTED else LOG_STATE_PREPARED))"

lemma u64_bound: "unat (x :: u64) < 2 ^ 64"
  using unsigned_less [of x, where ?'a = nat] by simp

lemma u64_Suc: "unat (x :: u64) + 1 < 2 ^ 64 \<Longrightarrow> unat (x + 1) = unat x + 1"
  by (simp add: unat_word_ariths(1) unat_of_nat)

lemma u64_less_Suc: "(x :: u64) < y \<Longrightarrow> unat (x + 1) = unat x + 1"
  using u64_bound [of y] by (intro u64_Suc) (simp add: word_less_nat_alt)

lemma log_ok_length: "log_ok r \<Longrightarrow> length (entries (vr_log r)) = unat (lastOp r)"
  by (simp add: log_ok_def)

lemma log_ok_bound: "log_ok r \<Longrightarrow> unat (lastOp r) + 1 < 2 ^ 64"
  by (auto simp: log_ok_def log_wf_def)

lemma log_ok_Find:
  assumes "log_ok r"
  shows "Log_Find (vr_log r) n = Inr (if 1 \<le> n \<and> n \<le> lastOp r then Some (unat n - 1) else None)"
proof -
  have "unat n < Suc (unat (lastOp r)) \<longleftrightarrow> n \<le> lastOp r" by (simp add: word_le_nat_alt less_Suc_eq_le)
  then show ?thesis
    using log_wf_Find [of "vr_log r" n] assms by (auto simp: log_ok_def)
qed

lemma log_ok_LastOpnum: "log_ok r \<Longrightarrow> LastOpnum (vr_log r) = lastOp r"
  using log_wf_LastOpnum [of "vr_log r"] by (auto simp: log_ok_def dest!: sym [of "unat (lastOp r)"])

lemma log_ok_viewstamp:
  assumes "log_ok r" and "k < length (entries (vr_log r))"
  shows "vs_opnum (le_viewstamp (entries (vr_log r) ! k)) = 1 + of_nat k"
  using assms by (simp add: log_ok_def log_wf_def)

lemma log_ok_Append:
  assumes ok: "log_ok r" and bound: "unat (lastOp r) + 2 < 2 ^ 64" and num: "vs_opnum vs = lastOp r + 1"
  obtains l where "Log_Append no_hash (vr_log r) vs req LOG_STATE_PREPARED = Inr l"
    and "log_ok (r\<lparr>lastOp := lastOp r + 1, vr_log := l\<rparr>)" and "map core (entries l) = ops r @ [(vs, req)]"
    and "log_start l = 1"
proof -
  define e where "e = \<lparr>le_viewstamp = vs, le_state = LOG_STATE_PREPARED, le_request = req, le_hash = ''''\<rparr>"
  let ?l = "(vr_log r)\<lparr>entries := entries (vr_log r) @ [e]\<rparr>"
  have "LastOpnum (vr_log r) = lastOp r" by (rule log_ok_LastOpnum [OF ok])
  then have cond: "if entries (vr_log r) = [] then vs_opnum vs = log_start (vr_log r)
      else vs_opnum vs = LastOpnum (vr_log r) + 1"
    using ok num by (auto simp: log_ok_def unat_eq_0)
  then have app: "Log_Append no_hash (vr_log r) vs req LOG_STATE_PREPARED = Inr ?l"
    using ok by (simp add: Log_Append_def log_ok_def e_def)
  have b: "unat (log_start (vr_log r)) + length (entries (vr_log r)) + 1 < 2 ^ 64"
    using ok bound by (simp add: log_ok_def)
  have wf: "log_wf ?l" using log_wf_Append(1) [OF _ app b] ok by (simp add: log_ok_def)
  have u: "unat (lastOp r + 1) = unat (lastOp r) + 1" using bound by (intro u64_Suc) simp
  have le: "unat (lastCommitted r) \<le> unat (lastOp r)" using ok by (simp add: log_ok_def word_le_nat_alt)
  have "log_ok (r\<lparr>lastOp := lastOp r + 1, vr_log := ?l\<rparr>)"
    using ok wf u le by (auto simp: log_ok_def word_le_nat_alt nth_append less_Suc_eq e_def)
  then show ?thesis using that app ok by (simp add: core_def e_def log_ok_def)
qed

text \<open>A client table that records no later request than those in \<open>qs\<close>.\<close>

definition tbl_le :: "(u64 \<Rightarrow> ClientTableEntry option) \<Rightarrow> OpRequest list \<Rightarrow> bool" where
  "tbl_le T qs \<longleftrightarrow>
     (\<forall>c e. T c = Some e \<longrightarrow> lastReqId e = 0 \<or> (\<exists>q\<in>set qs. clientid q = c \<and> lastReqId e \<le> clientreqid q))"

definition tbl_grows :: "(u64 \<Rightarrow> ClientTableEntry option) \<Rightarrow> (u64 \<Rightarrow> ClientTableEntry option) \<Rightarrow> bool" where
  "tbl_grows T T' \<longleftrightarrow> (\<forall>c e. T c = Some e \<longrightarrow> (\<exists>e'. T' c = Some e' \<and> lastReqId e \<le> lastReqId e'))"

lemma tbl_grows_refl [simp]: "tbl_grows T T"
  by (simp add: tbl_grows_def)

lemma tbl_grows_trans [trans]: "tbl_grows T T' \<Longrightarrow> tbl_grows T' T'' \<Longrightarrow> tbl_grows T T''"
  unfolding tbl_grows_def by (meson order_trans)

lemma tbl_le_mono: "tbl_le T qs \<Longrightarrow> set qs \<subseteq> set qs' \<Longrightarrow> tbl_le T qs'"
  unfolding tbl_le_def by blast

lemma tbl_le_upd:
  "tbl_le T qs \<Longrightarrow> q \<in> set qs \<Longrightarrow> lastReqId e \<le> clientreqid q \<Longrightarrow> tbl_le (T(clientid q \<mapsto> e)) qs"
  unfolding tbl_le_def by auto

definition client_replies :: "'s VRReplica \<Rightarrow> vr_out list \<Rightarrow> bool" where
  "client_replies r out \<longleftrightarrow> (\<forall>x\<in>set out. \<exists>a\<in>ran (clientAddresses r). \<exists>m. x = SendTo a (VReply m))"

lemma client_replies_append [simp]:
  "client_replies r (out @ out') \<longleftrightarrow> client_replies r out \<and> client_replies r out'"
  by (auto simp: client_replies_def)

lemma client_replies_Nil [simp]: "client_replies r []"
  by (simp add: client_replies_def)

lemma commit_next_ok:
  assumes ok: "log_ok r" and lt: "lastCommitted r < lastOp r"
  defines "req \<equiv> le_request (entries (vr_log r) ! unat (lastCommitted r))"
  shows "(\<exists>e. ReplicaUpcall app (vr_app r) (lastCommitted r + 1) (rop req) = Inl e \<and> commit_next app r = Inl e) \<or>
    (\<exists>res a l t out. ReplicaUpcall app (vr_app r) (lastCommitted r + 1) (rop req) = Inr (res, a) \<and>
       commit_next app r = Inr (r\<lparr>lastCommitted := lastCommitted r + 1, vr_app := a, vr_log := l, clientTable := t\<rparr>, out) \<and>
       log_ok (r\<lparr>lastCommitted := lastCommitted r + 1, vr_app := a, vr_log := l, clientTable := t\<rparr>) \<and>
       map core (entries l) = ops r \<and> tbl_grows (clientTable r) t \<and>
       (\<forall>qs. tbl_le (clientTable r) qs \<and> req \<in> set qs \<longrightarrow> tbl_le t qs) \<and> client_replies r out)"
proof -
  let ?n = "lastCommitted r + 1" and ?k = "unat (lastCommitted r)"
  have u: "unat ?n = ?k + 1" using u64_less_Suc [OF lt] .
  have "?n \<le> lastOp r" using lt u by (simp add: word_le_nat_alt word_less_nat_alt)
  moreover have "1 \<le> ?n" using u by (simp add: word_le_nat_alt)
  ultimately have find: "Log_Find (vr_log r) ?n = Inr (Some ?k)" using log_ok_Find [OF ok] u by simp
  have k: "?k < length (entries (vr_log r))" using lt ok by (simp add: log_ok_def word_less_nat_alt)
  define l where "l = (vr_log r)\<lparr>entries := (entries (vr_log r))[?k := (entries (vr_log r) ! ?k)\<lparr>le_state := LOG_STATE_COMMITTED\<rparr>]\<rparr>"
  have set: "Log_SetStatus (vr_log r) ?n LOG_STATE_COMMITTED = Inr (True, l)"
    using find by (simp add: Log_SetStatus_def l_def)
  have core: "map core (entries l) = ops r"
    using k by (simp add: l_def map_update core_def list_update_same_conv)
  have okl: "log_ok (r\<lparr>lastCommitted := ?n, vr_app := a, vr_log := l, clientTable := t\<rparr>)" for a t
    using ok u k \<open>?n \<le> lastOp r\<close>
    by (auto simp: log_ok_def l_def log_wf_def nth_list_update less_Suc_eq)
  show ?thesis
  proof (cases "ReplicaUpcall app (vr_app r) ?n (rop req)")
    case (Inl e)
    then show ?thesis using find by (simp add: commit_next_def Let_def req_def)
  next
    case (Inr p)
    obtain res a where p: "p = (res, a)" by (cases p)
    let ?reply = "\<lparr>rm_view = vs_view (le_viewstamp (entries (vr_log r) ! ?k)),
        rm_opnum = vs_opnum (le_viewstamp (entries (vr_log r) ! ?k)), rm_clientreqid = clientreqid req, rm_reply = res\<rparr>"
    let ?c = "table_entry r (clientid req)"
    define e' where "e' = (if lastReqId ?c \<le> clientreqid req
        then \<lparr>lastReqId = clientreqid req, replied = True, cte_reply = ?reply\<rparr> else ?c)"
    define t where "t = (clientTable r)(clientid req \<mapsto> e')"
    define out where "out = (case clientAddresses r (clientid req) of None \<Rightarrow> [] | Some addr \<Rightarrow> [SendTo addr (VReply ?reply)])"
    have "commit_next app r =
        Inr (r\<lparr>lastCommitted := ?n, vr_app := a, vr_log := l, clientTable := t\<rparr>, out)"
      using find set Inr p
      by (simp add: commit_next_def Let_def req_def t_def e'_def out_def table_entry_def split: option.split)
    moreover have "tbl_grows (clientTable r) t"
      by (auto simp: tbl_grows_def t_def e'_def table_entry_def)
    moreover have "tbl_le t qs" if "tbl_le (clientTable r) qs" "req \<in> set qs" for qs
    proof (cases "lastReqId ?c \<le> clientreqid req")
      case True
      then show ?thesis unfolding t_def e'_def using tbl_le_upd [OF that] by simp
    next
      case False
      then have "e' = ?c" "clientTable r (clientid req) = Some ?c"
        by (auto simp: e'_def table_entry_def ClientTableEntry_empty_def split: option.splits)
      then show ?thesis using that(1) unfolding t_def by (simp add: fun_upd_idem)
    qed
    moreover have "client_replies r out"
      by (auto simp: client_replies_def out_def ran_def split: option.splits)
    ultimately show ?thesis using Inr p okl core by blast
  qed
qed

text \<open>Executing a list of requests, numbered from \<open>n\<close>, on the application.\<close>

fun replay :: "'s VRApp \<Rightarrow> 's \<Rightarrow> opnum_t \<Rightarrow> OpRequest list \<Rightarrow> 's outcome" where
  "replay app a n [] = Inr a"
| "replay app a n (req # reqs) =
     obind (ReplicaUpcall app a n (rop req)) (\<lambda>(res, a'). replay app a' (n + 1) reqs)"

definition to_commit :: "'s VRReplica \<Rightarrow> opnum_t \<Rightarrow> OpRequest list" where
  "to_commit r upTo = map snd (drop (unat (lastCommitted r)) (take (unat upTo) (ops r)))"

lemma to_commit_Nil: "\<not> lastCommitted r < upTo \<Longrightarrow> to_commit r upTo = []"
  by (simp add: to_commit_def word_less_nat_alt)

lemma to_commit_Cons:
  assumes "log_ok r" and "lastCommitted r < upTo" and "upTo \<le> lastOp r" and "map core (entries l) = ops r"
  shows "to_commit r upTo = le_request (entries (vr_log r) ! unat (lastCommitted r)) #
    to_commit (r\<lparr>lastCommitted := lastCommitted r + 1, vr_app := a, vr_log := l, clientTable := t\<rparr>) upTo"
proof -
  have len: "unat upTo \<le> length (ops r)" "unat (lastCommitted r) < unat upTo"
    using assms(1-3) by (simp_all add: log_ok_def word_le_nat_alt word_less_nat_alt)
  then have "drop (unat (lastCommitted r)) (take (unat upTo) (ops r)) =
      ops r ! unat (lastCommitted r) # drop (Suc (unat (lastCommitted r))) (take (unat upTo) (ops r))"
    by (subst Cons_nth_drop_Suc [symmetric]) simp_all
  moreover have "ops r ! unat (lastCommitted r) = core (entries (vr_log r) ! unat (lastCommitted r))"
    using len by (intro nth_map) simp
  ultimately show ?thesis
    using u64_less_Suc [OF assms(2)] assms(4) by (simp add: to_commit_def core_def)
qed

text \<open>What \<^verbatim>\<open>CommitUpTo\<close> does to a replica whose log holds the operations.\<close>

definition committed ::
  "'s VRApp \<Rightarrow> 's VRReplica \<Rightarrow> opnum_t \<Rightarrow> 's VRReplica \<Rightarrow> vr_out list \<Rightarrow> bool" where
  "committed app r upTo r' out \<longleftrightarrow>
     (\<exists>a l t. replay app (vr_app r) (lastCommitted r + 1) (to_commit r upTo) = Inr a \<and>
        r' = r\<lparr>lastCommitted := max (lastCommitted r) upTo, vr_app := a, vr_log := l, clientTable := t\<rparr> \<and>
        log_ok r' \<and> map core (entries l) = ops r \<and> tbl_grows (clientTable r) t \<and>
        (\<forall>qs. tbl_le (clientTable r) qs \<and> set (to_commit r upTo) \<subseteq> set qs \<longrightarrow> tbl_le t qs) \<and>
        client_replies r out)"

lemma CommitUpTo_spec:
  assumes "log_ok r" and "upTo \<le> lastOp r"
  shows "case CommitUpTo app r upTo of
      Inl e \<Rightarrow> replay app (vr_app r) (lastCommitted r + 1) (to_commit r upTo) = Inl e
    | Inr (r', out) \<Rightarrow> committed app r upTo r' out"
  using assms
proof (induction app r upTo rule: CommitUpTo.induct)
  case (1 app r upTo)
  show ?case
  proof (cases "lastCommitted r < upTo")
    case False
    moreover have "max (lastCommitted r) upTo = lastCommitted r" using False by simp
    ultimately have "committed app r upTo r []"
      unfolding committed_def using "1.prems"(1) to_commit_Nil [of r upTo]
      by (intro exI [of _ "vr_app r"] exI [of _ "vr_log r"] exI [of _ "clientTable r"]) simp
    then show ?thesis using False by (simp add: CommitUpTo.simps [of app r upTo])
  next
    case True
    let ?req = "le_request (entries (vr_log r) ! unat (lastCommitted r))"
    have lt: "lastCommitted r < lastOp r" using True "1.prems"(2) by simp
    from commit_next_ok [OF "1.prems"(1) lt, of app]
    consider (fault) e where "ReplicaUpcall app (vr_app r) (lastCommitted r + 1) (rop ?req) = Inl e"
        "commit_next app r = Inl e"
      | (step) res a l t out where
        "ReplicaUpcall app (vr_app r) (lastCommitted r + 1) (rop ?req) = Inr (res, a)"
        "commit_next app r = Inr (r\<lparr>lastCommitted := lastCommitted r + 1, vr_app := a, vr_log := l, clientTable := t\<rparr>, out)"
        "log_ok (r\<lparr>lastCommitted := lastCommitted r + 1, vr_app := a, vr_log := l, clientTable := t\<rparr>)"
        "map core (entries l) = ops r" "tbl_grows (clientTable r) t"
        "\<And>qs. tbl_le (clientTable r) qs \<Longrightarrow> ?req \<in> set qs \<Longrightarrow> tbl_le t qs" "client_replies r out"
      by blast
    then show ?thesis
    proof cases
      case fault
      then show ?thesis
        using True to_commit_Cons [OF "1.prems"(1) True "1.prems"(2) refl, of "clientTable r" "vr_app r"]
        by (simp add: CommitUpTo.simps [of app r])
    next
      case step
      let ?r = "r\<lparr>lastCommitted := lastCommitted r + 1, vr_app := a, vr_log := l, clientTable := t\<rparr>"
      have seg: "to_commit r upTo = ?req # to_commit ?r upTo"
        using to_commit_Cons [OF "1.prems"(1) True "1.prems"(2) step(4)] .
      have IH: "case CommitUpTo app ?r upTo of
          Inl e \<Rightarrow> replay app (vr_app ?r) (lastCommitted ?r + 1) (to_commit ?r upTo) = Inl e
        | Inr (r', out) \<Rightarrow> committed app ?r upTo r' out"
        using "1.IH" [OF True step(2) refl step(3)] "1.prems"(2) by simp
      have run: "CommitUpTo app r upTo = obind (CommitUpTo app ?r upTo) (\<lambda>(r2, out2). Inr (r2, out @ out2))"
        using True step(2) by (simp add: CommitUpTo.simps [of app r])
      show ?thesis
      proof (cases "CommitUpTo app ?r upTo")
        case (Inl e)
        then show ?thesis using IH run step(1) seg by simp
      next
        case (Inr p)
        obtain r' out' where p: "p = (r', out')" by (cases p)
        have mx: "max (lastCommitted r + 1) upTo = upTo" "max (lastCommitted r) upTo = upTo"
          using True u64_less_Suc [OF True] by (simp_all add: word_le_nat_alt word_less_nat_alt max_def)
        from IH Inr p obtain a' l' t' where c: "replay app a (lastCommitted r + 1 + 1) (to_commit ?r upTo) = Inr a'"
          "r' = ?r\<lparr>lastCommitted := upTo, vr_app := a', vr_log := l', clientTable := t'\<rparr>"
          "log_ok r'" "map core (entries l') = map core (entries l)" "tbl_grows t t'"
          "\<forall>qs. tbl_le t qs \<and> set (to_commit ?r upTo) \<subseteq> set qs \<longrightarrow> tbl_le t' qs"
          "client_replies r out'"
          using mx(1) by (auto simp: committed_def client_replies_def)
        have "committed app r upTo r' (out @ out')"
          unfolding committed_def
        proof (intro exI conjI)
          show "replay app (vr_app r) (lastCommitted r + 1) (to_commit r upTo) = Inr a'"
            using c(1) step(1) seg by simp
          show "r' = r\<lparr>lastCommitted := max (lastCommitted r) upTo, vr_app := a', vr_log := l', clientTable := t'\<rparr>"
            using c(2) mx(2) by simp
          show "\<forall>qs. tbl_le (clientTable r) qs \<and> set (to_commit r upTo) \<subseteq> set qs \<longrightarrow> tbl_le t' qs"
            unfolding seg using c(6) step(6) by simp
          show "tbl_grows (clientTable r) t'" using tbl_grows_trans [OF step(5) c(5)] .
        qed (use c(3,4,7) step(4,7) in simp_all)
        then show ?thesis using run Inr p by simp
      qed
    qed
  qed
qed

definition echo_app :: "string list VRApp" where
  "echo_app = \<lparr>LeaderUpcall = (\<lambda>a n op. Inr (True, op, a)), ReplicaUpcall = (\<lambda>a n op. Inr (op, a @ [op])),
     VRUnloggedUpcall = (\<lambda>a op. Inr (op, a))\<rparr>"

definition ex_commit :: "string list VRReplica" where
  "ex_commit = (VRReplica_new (group_of 1) 0 1 [])\<lparr>lastCommitted := 1, lastOp := 2, vr_log := ex_log\<rparr>"

lemma ex_commit_ok: "log_ok ex_commit"
  using ex_log_wf by (simp add: log_ok_def ex_commit_def ex_log_def less_Suc_eq VRReplica_new_def Let_def)

text \<open>
  C34. \<^verbatim>\<open>CommitUpTo\<close> is replay: it ends, with or without a fault, exactly as executing the operations
  after the last committed one in the order of the log, each once and under its own number, and
  when it returns everything up to \<open>upTo\<close> is committed and the log is otherwise unchanged.
\<close>

theorem CommitUpTo_replays:
  assumes "log_ok r" and "upTo \<le> lastOp r"
  shows "obind (CommitUpTo app r upTo) (\<lambda>(r', out). Inr (vr_app r')) =
      replay app (vr_app r) (lastCommitted r + 1)
        (map le_request (drop (unat (lastCommitted r)) (take (unat upTo) (entries (vr_log r))))) \<and>
    (\<forall>r' out. CommitUpTo app r upTo = Inr (r', out) \<longrightarrow>
       log_ok r' \<and> lastCommitted r' = max (lastCommitted r) upTo \<and> lastOp r' = lastOp r \<and>
       map le_request (entries (vr_log r')) = map le_request (entries (vr_log r)))"
proof -
  have seg: "to_commit r upTo = map le_request (drop (unat (lastCommitted r)) (take (unat upTo) (entries (vr_log r))))"
    by (simp add: to_commit_def take_map drop_map core_def)
  have reqs: "map le_request (entries l) = map snd (map core (entries l))" for l
    by (simp add: core_def)
  show ?thesis
  proof (cases "CommitUpTo app r upTo")
    case (Inl e)
    then show ?thesis using CommitUpTo_spec [OF assms, of app] seg by simp
  next
    case (Inr p)
    obtain r' out where p: "p = (r', out)" by (cases p)
    then obtain a l t where
      c: "replay app (vr_app r) (lastCommitted r + 1) (to_commit r upTo) = Inr a"
        "r' = r\<lparr>lastCommitted := max (lastCommitted r) upTo, vr_app := a, vr_log := l, clientTable := t\<rparr>"
        "log_ok r'" "map core (entries l) = ops r"
      using CommitUpTo_spec [OF assms, of app] Inr unfolding committed_def by auto
    moreover have "map le_request (entries l) = map le_request (entries (vr_log r))" by (simp only: reqs c(4))
    ultimately show ?thesis using Inr p seg by simp
  qed
qed

theorem CommitUpTo_replays_witness:
  "\<exists>r' out. CommitUpTo echo_app ex_commit 2 = Inr (r', out) \<and> vr_app r' = [''op''] \<and> lastCommitted r' = 2"
proof -
  have "obind (CommitUpTo echo_app ex_commit 2) (\<lambda>(r', out). Inr (vr_app r')) = Inr [''op''] \<and>
      (\<forall>r' out. CommitUpTo echo_app ex_commit 2 = Inr (r', out) \<longrightarrow> lastCommitted r' = 2)"
    using CommitUpTo_replays [OF ex_commit_ok, of 2 echo_app]
    by (simp add: ex_commit_def ex_log_def ex_req_def echo_app_def VRReplica_new_def Let_def)
  then show ?thesis by (auto simp: obind_eq_Inr)
qed

end
