(* ===== verification/Vr_Client.thy ===== *)
theory Vr_Client
  imports Vr_Replica Request_Clients
begin

text \<open>
  The client of viewstamped replication, \<^verbatim>\<open>replication/vr/client.cc\<close>: logged requests, which are sent
  to all replicas again until one answers, and unlogged ones, which are sent to one replica and time
  out. A continuation is identified by its request number and calling it is an output; whether the
  transport accepts a message is the argument \<open>sent\<close>.
\<close>

declare split_paired_All [simp del] split_paired_Ex [simp del]

section \<open>The client\<close>

text \<open>
  \<open>vq_unlogged\<close> tells a \<open>PendingUnloggedRequest\<close>, with whether it has an error continuation, from a
  plain \<open>PendingRequest\<close>; \<open>vq_timer\<close> is \<open>Timeout::Active\<close> of its timer.
\<close>

record VRPendingRequest =
  vq_request :: string
  vq_clientReqId :: u64
  vq_timer :: bool
  vq_unlogged :: "bool option"

record VRClient =
  vc_clientid :: u64
  vc_lastReqId :: u64
  vc_pendingReqs :: "u64 \<rightharpoonup> VRPendingRequest"

datatype vrc_out =
    VSendToAll VRMessage
  | VSendToReplica int VRMessage
  | VContinuation u64 string string
  | VErrorContinuation u64 string ErrorCode

type_synonym vrc_result = "VRClient \<times> vrc_out list"

definition VRClient_new :: "u64 \<Rightarrow> VRClient" where
  "VRClient_new cid = \<lparr>vc_clientid = cid, vc_lastReqId = 0, vc_pendingReqs = Map.empty\<rparr>"

definition vc_put :: "VRClient \<Rightarrow> u64 \<Rightarrow> VRPendingRequest \<Rightarrow> VRClient" where
  "vc_put c reqId req = c\<lparr>vc_pendingReqs := (vc_pendingReqs c)(reqId \<mapsto> req)\<rparr>"

definition vc_del :: "VRClient \<Rightarrow> u64 \<Rightarrow> VRClient" where
  "vc_del c reqId = c\<lparr>vc_pendingReqs := (vc_pendingReqs c)(reqId := None)\<rparr>"

definition vc_op :: "VRClient \<Rightarrow> string \<Rightarrow> u64 \<Rightarrow> OpRequest" where
  "vc_op c request reqId = \<lparr>rop = request, clientid = vc_clientid c, clientreqid = reqId\<rparr>"

definition VC_SendRequest :: "bool \<Rightarrow> VRClient \<Rightarrow> VRPendingRequest \<Rightarrow> vrc_result" where
  "VC_SendRequest sent c req =
     (if sent then
        (vc_put c (vq_clientReqId req) (req\<lparr>vq_timer := True\<rparr>),
         [VSendToAll (VRequest (vc_op c (vq_request req) (vq_clientReqId req)))])
      else (vc_del c (vq_clientReqId req), []))"

definition VC_Invoke :: "bool \<Rightarrow> VRClient \<Rightarrow> string \<Rightarrow> vrc_result" where
  "VC_Invoke sent c request =
     (let reqId = vc_lastReqId c + 1;
          req = \<lparr>vq_request = request, vq_clientReqId = reqId, vq_timer = False, vq_unlogged = None\<rparr>
      in VC_SendRequest sent (vc_put (c\<lparr>vc_lastReqId := reqId\<rparr>) reqId req) req)"

definition VC_InvokeUnlogged :: "bool \<Rightarrow> VRClient \<Rightarrow> int \<Rightarrow> string \<Rightarrow> bool \<Rightarrow> vrc_result" where
  "VC_InvokeUnlogged sent c replicaIdx request has_err =
     (let reqId = vc_lastReqId c + 1;
          c1 = c\<lparr>vc_lastReqId := reqId\<rparr>;
          req = \<lparr>vq_request = request, vq_clientReqId = reqId, vq_timer = True, vq_unlogged = Some has_err\<rparr>
      in if sent then
           (vc_put c1 reqId req, [VSendToReplica replicaIdx (VUnloggedRequest (vc_op c request reqId))])
         else (c1, []))"

definition VC_ResendRequest :: "bool \<Rightarrow> VRClient \<Rightarrow> u64 \<Rightarrow> vrc_result" where
  "VC_ResendRequest sent c reqId =
     (case vc_pendingReqs c reqId of None \<Rightarrow> (c, []) | Some req \<Rightarrow> VC_SendRequest sent c req)"

definition VC_HandleReply :: "VRClient \<Rightarrow> ReplyMessage \<Rightarrow> vrc_result" where
  "VC_HandleReply c msg =
     (let reqId = rm_clientreqid msg in
      case vc_pendingReqs c reqId of
        None \<Rightarrow> (c, [])
      | Some req \<Rightarrow> (vc_del c reqId, [VContinuation reqId (vq_request req) (rm_reply msg)]))"

definition VC_HandleUnloggedReply :: "VRClient \<Rightarrow> string \<Rightarrow> u64 \<Rightarrow> vrc_result" where
  "VC_HandleUnloggedReply c reply reqId =
     (case vc_pendingReqs c reqId of
        None \<Rightarrow> (c, [])
      | Some req \<Rightarrow> (vc_del c reqId, [VContinuation reqId (vq_request req) reply]))"

definition VC_UnloggedRequestTimeoutCallback :: "VRClient \<Rightarrow> u64 \<Rightarrow> vrc_result outcome" where
  "VC_UnloggedRequestTimeoutCallback c reqId =
     (case vc_pendingReqs c reqId of
        None \<Rightarrow> Inr (c, [])
      | Some req \<Rightarrow>
          (case vq_unlogged req of
             None \<Rightarrow> Inl (Undefined ''static_cast to another request type'')
           | Some has_err \<Rightarrow>
               Inr (vc_del c reqId,
                    if has_err then [VErrorContinuation reqId (vq_request req) TIMEOUT] else [])))"

definition VC_ReceiveMessage :: "VRClient \<Rightarrow> VRMessage \<Rightarrow> vrc_result outcome" where
  "VC_ReceiveMessage c m =
     (case m of
        VReply msg \<Rightarrow> Inr (VC_HandleReply c msg)
      | VUnloggedReply reply reqId \<Rightarrow> Inr (VC_HandleUnloggedReply c reply reqId)
      | _ \<Rightarrow> Inl (Panicked ''Received unexpected message type''))"

section \<open>Events and runs\<close>

text \<open>
  A timer runs the function its request was made with. Replicas send a client nothing but replies,
  and request numbers have not wrapped around.
\<close>

datatype vrc_event =
    VcInvoke string
  | VcUnlogged int string bool
  | VcReceive VRMessage
  | VcTimer u64

definition vrc_timer_fires :: "bool \<Rightarrow> VRClient \<Rightarrow> u64 \<Rightarrow> VRPendingRequest \<Rightarrow> vrc_result outcome" where
  "vrc_timer_fires sent c reqId req =
     (if vq_unlogged req = None then Inr (VC_ResendRequest sent c reqId)
      else VC_UnloggedRequestTimeoutCallback c reqId)"

definition vrc_handle :: "bool \<Rightarrow> VRClient \<Rightarrow> vrc_event \<Rightarrow> vrc_result outcome" where
  "vrc_handle sent c ev =
     (case ev of
        VcInvoke request \<Rightarrow> Inr (VC_Invoke sent c request)
      | VcUnlogged i request has_err \<Rightarrow> Inr (VC_InvokeUnlogged sent c i request has_err)
      | VcReceive m \<Rightarrow> VC_ReceiveMessage c m
      | VcTimer reqId \<Rightarrow>
          (case vc_pendingReqs c reqId of None \<Rightarrow> Inr (c, []) | Some req \<Rightarrow> vrc_timer_fires sent c reqId req))"

definition vrc_enabled :: "VRClient \<Rightarrow> vrc_event \<Rightarrow> bool" where
  "vrc_enabled c ev \<longleftrightarrow>
     (case ev of
        VcReceive m \<Rightarrow> (case m of VReply _ \<Rightarrow> True | VUnloggedReply _ _ \<Rightarrow> True | _ \<Rightarrow> False)
      | VcTimer reqId \<Rightarrow> (case vc_pendingReqs c reqId of None \<Rightarrow> False | Some req \<Rightarrow> vq_timer req)
      | _ \<Rightarrow> vc_lastReqId c < vc_lastReqId c + 1)"

definition vrc_step :: "VRClient \<Rightarrow> vrc_out list \<Rightarrow> VRClient \<Rightarrow> bool" where
  "vrc_step c out c' \<longleftrightarrow> (\<exists>ev sent. vrc_enabled c ev \<and> vrc_handle sent c ev = Inr (c', out))"

fun vrc_answers_id :: "u64 \<Rightarrow> vrc_out \<Rightarrow> bool" where
  "vrc_answers_id i (VContinuation j _ _) \<longleftrightarrow> i = j"
| "vrc_answers_id i (VErrorContinuation j _ _) \<longleftrightarrow> i = j"
| "vrc_answers_id i _ \<longleftrightarrow> False"

definition vrc_answers :: "vrc_out list \<Rightarrow> u64 \<Rightarrow> nat" where
  "vrc_answers out i = length (filter (vrc_answers_id i) out)"

lemma vrc_answers_simps [simp]:
  "vrc_answers [] i = 0"
  "vrc_answers (x # out) i = (if vrc_answers_id i x then Suc (vrc_answers out i) else vrc_answers out i)"
  "vrc_answers (out @ out') i = vrc_answers out i + vrc_answers out' i"
  by (simp_all add: vrc_answers_def)

definition vrc_open :: "VRClient \<Rightarrow> u64 \<Rightarrow> bool" where
  "vrc_open c i \<longleftrightarrow> vc_pendingReqs c i \<noteq> None"

text \<open>A pending request is stored under its own number, and its timer is running.\<close>

definition vrc_inv :: "VRClient \<Rightarrow> bool" where
  "vrc_inv c \<longleftrightarrow> (\<forall>i req. vc_pendingReqs c i = Some req \<longrightarrow>
     i \<le> vc_lastReqId c \<and> vq_clientReqId req = i \<and> vq_timer req)"

definition vrc_ok :: "VRClient \<Rightarrow> vrc_out list \<Rightarrow> VRClient \<Rightarrow> bool" where
  "vrc_ok c out c' \<longleftrightarrow> vrc_inv c' \<and> vc_clientid c' = vc_clientid c \<and> vc_lastReqId c \<le> vc_lastReqId c' \<and>
     (\<forall>i. vrc_answers out i \<le> (if vrc_open c i then 1 else 0) \<and> (0 < vrc_answers out i \<longrightarrow> \<not> vrc_open c' i) \<and>
          (vrc_open c' i \<longrightarrow> vrc_open c i \<or> vc_lastReqId c < i))"

lemmas vrc_ops = VC_SendRequest_def VC_Invoke_def VC_InvokeUnlogged_def VC_ResendRequest_def VC_HandleReply_def
  VC_HandleUnloggedReply_def VC_UnloggedRequestTimeoutCallback_def VC_ReceiveMessage_def vrc_timer_fires_def
  vc_put_def vc_del_def

lemma vrc_handle_ok:
  assumes inv: "vrc_inv c" and en: "vrc_enabled c ev"
  shows "\<exists>c' out. vrc_handle sent c ev = Inr (c', out) \<and> vrc_ok c out c'"
proof (cases ev)
  case (VcInvoke r)
  then show ?thesis using inv en
    by (fastforce simp: vrc_handle_def vrc_enabled_def vrc_ops vrc_ok_def vrc_inv_def vrc_open_def Let_def)
next
  case (VcUnlogged i r b)
  then show ?thesis using inv en
    by (fastforce simp: vrc_handle_def vrc_enabled_def vrc_ops vrc_ok_def vrc_inv_def vrc_open_def Let_def)
next
  case (VcReceive m)
  then show ?thesis using inv en
    by (auto simp: vrc_handle_def vrc_enabled_def vrc_ops vrc_ok_def vrc_inv_def vrc_open_def Let_def
        split: option.split VRMessage.splits)
next
  case (VcTimer i)
  then show ?thesis using inv en
    by (auto simp: vrc_handle_def vrc_enabled_def vrc_ops vrc_ok_def vrc_inv_def vrc_open_def
        split: option.splits)
qed

lemma vrc_step_ok: "vrc_inv c \<Longrightarrow> vrc_step c out c' \<Longrightarrow> vrc_ok c out c'"
  unfolding vrc_step_def by (metis vrc_handle_ok sum.inject(2) prod.inject)

interpretation vrq: request_client vrc_open vc_lastReqId vrc_answers vrc_inv vrc_step
proof unfold_locales
  show "i \<le> vc_lastReqId s" if "vrc_inv s" "vrc_open s i" for s i
    using that by (auto simp: vrc_inv_def vrc_open_def)
qed (use vrc_step_ok in \<open>auto simp: vrc_ok_def\<close>)

lemma vrc_inv_new: "vrc_inv (VRClient_new cid)"
  by (simp add: vrc_inv_def VRClient_new_def)

lemma vrc_timer_logged:
  assumes "vrc_inv c" and "vc_pendingReqs c i = Some req" and "vq_unlogged req = None"
  shows "vrc_handle sent c (VcTimer i) =
    Inr (if sent then (c, [VSendToAll (VRequest (vc_op c (vq_request req) i))]) else (vc_del c i, []))"
proof -
  have "vq_clientReqId req = i" "req\<lparr>vq_timer := True\<rparr> = req"
    using assms by (auto simp: vrc_inv_def)
  moreover have "(vc_pendingReqs c)(i \<mapsto> req) = vc_pendingReqs c"
    using assms(2) by (simp add: fun_upd_idem)
  ultimately show ?thesis using assms(2,3) by (simp add: vrc_handle_def vrc_ops)
qed

text \<open>
  C33. A request of the viewstamped-replication client is pursued until it is answered, for as long as
  the transport accepts its messages. In every state a client reaches, a pending request has not been
  answered, and its timer is running. When the timer of a logged request fires, the request is sent to
  all replicas again and stays as it is; when the transport refuses to send it, the request is dropped
  and its caller is told nothing. An unlogged request is given up when its timer fires, with the error of its
  caller if it has one. The first reply with the number of the request, a logged or an unlogged one,
  closes it and calls its continuation with the text of the request and of the reply, and no number is
  answered twice.
\<close>

theorem vr_client_pursues:
  assumes "run_of vrc_step (VRClient_new cid) outs c"
  shows "vrc_answers outs i \<le> 1 \<and>
    (case vc_pendingReqs c i of
       None \<Rightarrow> True
     | Some req \<Rightarrow>
         vrc_answers outs i = 0 \<and> vrc_enabled c (VcTimer i) \<and>
         vrc_handle sent c (VcTimer i) =
           Inr (case vq_unlogged req of
                  None \<Rightarrow>
                    if sent then (c, [VSendToAll (VRequest (vc_op c (vq_request req) i))]) else (vc_del c i, [])
                | Some has_err \<Rightarrow>
                    (vc_del c i, if has_err then [VErrorContinuation i (vq_request req) TIMEOUT] else [])) \<and>
         vrc_handle sent c (VcReceive (VReply \<lparr>rm_view = v, rm_opnum = n, rm_clientreqid = i, rm_reply = res\<rparr>)) =
           Inr (vc_del c i, [VContinuation i (vq_request req) res]) \<and>
         vrc_handle sent c (VcReceive (VUnloggedReply res i)) =
           Inr (vc_del c i, [VContinuation i (vq_request req) res]))"
proof (cases "vc_pendingReqs c i")
  case None
  then show ?thesis using vrq.answered_at_most_once [OF assms vrc_inv_new, of i] by simp
next
  case (Some req)
  have inv: "vrc_inv c" by (rule vrq.run_inv [OF assms vrc_inv_new])
  have "vrc_answers outs i = 0"
    using vrq.run_open_unanswered [OF assms vrc_inv_new, of i] Some by (simp add: vrc_open_def)
  moreover have "vrc_enabled c (VcTimer i)" using inv Some by (simp add: vrc_enabled_def vrc_inv_def)
  moreover have "vrc_handle sent c (VcTimer i) =
      Inr (case vq_unlogged req of
             None \<Rightarrow> if sent then (c, [VSendToAll (VRequest (vc_op c (vq_request req) i))]) else (vc_del c i, [])
           | Some has_err \<Rightarrow>
               (vc_del c i, if has_err then [VErrorContinuation i (vq_request req) TIMEOUT] else []))"
    using vrc_timer_logged [OF inv Some] Some
    by (cases "vq_unlogged req")
      (simp_all add: vrc_handle_def vrc_timer_fires_def VC_UnloggedRequestTimeoutCallback_def)
  moreover have
    "vrc_handle sent c (VcReceive (VReply \<lparr>rm_view = v, rm_opnum = n, rm_clientreqid = i, rm_reply = res\<rparr>)) =
       Inr (vc_del c i, [VContinuation i (vq_request req) res])"
    "vrc_handle sent c (VcReceive (VUnloggedReply res i)) = Inr (vc_del c i, [VContinuation i (vq_request req) res])"
    using Some by (simp_all add: vrc_handle_def VC_ReceiveMessage_def VC_HandleReply_def VC_HandleUnloggedReply_def)
  ultimately show ?thesis using Some by simp
qed

definition ex_vc :: VRClient where
  "ex_vc = fst (VC_Invoke True (VRClient_new 7) ''op'')"

lemma ex_vc_run: "run_of vrc_step (VRClient_new 7) [VSendToAll (VRequest (vc_op ex_vc ''op'' 1))] ex_vc"
proof (rule run_of_one)
  have "vrc_enabled (VRClient_new 7) (VcInvoke ''op'')"
    by (simp add: vrc_enabled_def VRClient_new_def)
  moreover have "vrc_handle True (VRClient_new 7) (VcInvoke ''op'') =
      Inr (ex_vc, [VSendToAll (VRequest (vc_op ex_vc ''op'' 1))])"
    by (simp add: ex_vc_def vrc_handle_def vrc_ops VRClient_new_def vc_op_def Let_def)
  ultimately show "vrc_step (VRClient_new 7) [VSendToAll (VRequest (vc_op ex_vc ''op'' 1))] ex_vc"
    by (auto simp: vrc_step_def)
qed

theorem vr_client_pursues_witness:
  "vrc_handle True ex_vc (VcTimer 1) = Inr (ex_vc, [VSendToAll (VRequest (vc_op ex_vc ''op'' 1))]) \<and>
   vrc_handle True ex_vc (VcReceive (VReply \<lparr>rm_view = 0, rm_opnum = 1, rm_clientreqid = 1, rm_reply = ''r''\<rparr>)) =
     Inr (vc_del ex_vc 1, [VContinuation 1 ''op'' ''r''])"
proof -
  have "vc_pendingReqs ex_vc 1 =
      Some \<lparr>vq_request = ''op'', vq_clientReqId = 1, vq_timer = True, vq_unlogged = None\<rparr>"
    by (simp add: ex_vc_def vrc_ops VRClient_new_def Let_def)
  then show ?thesis
    using vr_client_pursues [OF ex_vc_run, where i = 1 and sent = True and v = 0 and n = 1 and res = "''r''"] by simp
qed

end
