(* ===== verification/Buffer_Client.thy ===== *)
theory Buffer_Client
  imports Promises
begin

text \<open>
  The client-side transaction buffer, \<^verbatim>\<open>store/common/frontend/bufferclient.cc\<close>, and the interface it
  is written against. \<open>FrontEnv\<close> is what the front end sees of the rest of the process: the shard
  clients behind the virtual calls of \<^verbatim>\<open>TxnClient\<close>, and the clock. Its functions take the state \<open>'w\<close> of
  that rest and the number of a shard; a call that is given a promise says what becomes of the
  promise in the end. The lemmas hold for every such environment.

  A call can wait for a promise that nobody replies to. The result of a front-end call is therefore
  \<open>'a blocking\<close>: a fault, or \<open>None\<close> when it never returns, or its value.
\<close>

section \<open>Calls that wait\<close>

type_synonym 'a blocking = "'a option outcome"

definition bbind :: "'a blocking \<Rightarrow> ('a \<Rightarrow> 'b blocking) \<Rightarrow> 'b blocking" where
  "bbind m f = (case m of Inl e \<Rightarrow> Inl e | Inr None \<Rightarrow> Inr None | Inr (Some x) \<Rightarrow> f x)"

abbreviation returns :: "'a \<Rightarrow> 'a blocking" where
  "returns x \<equiv> Inr (Some x)"

lemma bbind_simps [simp]:
  "bbind (Inl e) f = Inl e" "bbind (Inr None) f = Inr None" "bbind (Inr (Some x)) f = f x"
  by (simp_all add: bbind_def)

lemma bbind_eq_returns: "bbind m f = returns y \<longleftrightarrow> (\<exists>x. m = returns x \<and> f x = returns y)"
  by (auto simp: bbind_def split: sum.splits option.splits)

lemma bbindE [elim!]:
  assumes "bbind m f = returns y"
  obtains x where "m = returns x" and "f x = returns y"
  using assms by (auto simp: bbind_eq_returns)

lemma bbind_cong [fundef_cong]:
  "m = m' \<Longrightarrow> (\<And>x. m' = returns x \<Longrightarrow> f x = g x) \<Longrightarrow> bbind m f = bbind m' g"
  by (auto simp: bbind_def split: sum.splits option.splits)

section \<open>The environment of the front end\<close>

definition GET_TIMEOUT :: int where "GET_TIMEOUT = 250"
definition PUT_TIMEOUT :: int where "PUT_TIMEOUT = 250"
definition PREPARE_TIMEOUT :: int where "PREPARE_TIMEOUT = 1000"
definition COMMIT_TIMEOUT :: int where "COMMIT_TIMEOUT = 1000"
definition ABORT_TIMEOUT :: int where "ABORT_TIMEOUT = 1000"
definition COMMIT_RETRIES :: nat where "COMMIT_RETRIES = 5"

record 'w FrontEnv =
  fe_Begin :: "'w \<Rightarrow> int \<Rightarrow> u64 \<Rightarrow> 'w blocking"
  fe_Get :: "'w \<Rightarrow> int \<Rightarrow> u64 \<Rightarrow> string \<Rightarrow> int \<Rightarrow> (Promise \<Rightarrow> Promise) \<times> 'w"
  fe_Get_at :: "'w \<Rightarrow> int \<Rightarrow> u64 \<Rightarrow> string \<Rightarrow> Timestamp \<Rightarrow> int \<Rightarrow> (Promise \<Rightarrow> Promise) \<times> 'w"
  fe_Prepare :: "'w \<Rightarrow> int \<Rightarrow> u64 \<Rightarrow> Transaction \<Rightarrow> Timestamp \<Rightarrow> (Promise \<Rightarrow> Promise) \<times> 'w"
  fe_Commit :: "'w \<Rightarrow> int \<Rightarrow> u64 \<Rightarrow> Transaction \<Rightarrow> u64 \<Rightarrow> 'w"
  fe_Abort :: "'w \<Rightarrow> int \<Rightarrow> u64 \<Rightarrow> Transaction \<Rightarrow> 'w"
  fe_gettimeofday :: "'w \<Rightarrow> timeval \<times> 'w"

section \<open>The buffer\<close>

text \<open>
  \<open>bc_shard\<close> stands for the pointer to the shard client. A null promise is \<open>None\<close>, and replying to it
  is undefined behaviour. The argument \<open>int\<close> of a read is the timeout that the shard client takes
  from the promise, 1000 when there is none.
\<close>

record BufferClient =
  bc_shard :: int
  bc_txn :: Transaction
  bc_tid :: u64

definition BufferClient_new :: "int \<Rightarrow> u64 \<Rightarrow> BufferClient" where
  "BufferClient_new shard tid = \<lparr>bc_shard = shard, bc_txn = Transaction_empty, bc_tid = tid\<rparr>"

definition BufferClient_Begin :: "'w FrontEnv \<Rightarrow> 'w \<Rightarrow> BufferClient \<Rightarrow> u64 \<Rightarrow> (BufferClient \<times> 'w) blocking" where
  "BufferClient_Begin env w b tid =
     bbind (fe_Begin env w (bc_shard b) tid) (\<lambda>w1. returns (b\<lparr>bc_txn := Transaction_empty, bc_tid := tid\<rparr>, w1))"

definition timeout_of :: "Promise option \<Rightarrow> int" where
  "timeout_of promise = (case promise of Some p \<Rightarrow> Promise_GetTimeout p | None \<Rightarrow> 1000)"

definition BufferClient_Get ::
  "'w FrontEnv \<Rightarrow> 'w \<Rightarrow> BufferClient \<Rightarrow> string \<Rightarrow> Promise option \<Rightarrow> (Promise option \<times> BufferClient \<times> 'w) blocking" where
  "BufferClient_Get env w b key promise =
     (case map_of (writeSet (bc_txn b)) key of
        Some v \<Rightarrow>
          (case promise of
             None \<Rightarrow> Inl (Undefined ''null promise'')
           | Some p \<Rightarrow> returns (Some (Promise_Reply_v p REPLY_OK v), b, w))
      | None \<Rightarrow>
          (case map_of (readSet (bc_txn b)) key of
             Some t \<Rightarrow>
               (let (f, w1) = fe_Get_at env w (bc_shard b) (bc_tid b) key t (timeout_of promise)
                in returns (map_option f promise, b, w1))
           | None \<Rightarrow>
               (let pp = (case promise of Some p \<Rightarrow> p | None \<Rightarrow> Promise_new GET_TIMEOUT);
                    (f, w1) = fe_Get env w (bc_shard b) (bc_tid b) key (Promise_GetTimeout pp)
                in bbind (Inr (GetReply (f pp))) (\<lambda>reply.
                     if reply = REPLY_OK then
                       bbind (Inr (GetTimestamp (f pp))) (\<lambda>t.
                         returns (map_option f promise, b\<lparr>bc_txn := addReadSet key t (bc_txn b)\<rparr>, w1))
                     else returns (map_option f promise, b, w1)))))"

definition BufferClient_Put ::
  "BufferClient \<Rightarrow> string \<Rightarrow> string \<Rightarrow> Promise option \<Rightarrow> (Promise \<times> BufferClient) outcome" where
  "BufferClient_Put b key v promise =
     (case promise of
        None \<Rightarrow> Inl (Undefined ''null promise'')
      | Some p \<Rightarrow> Inr (Promise_Reply p REPLY_OK, b\<lparr>bc_txn := addWriteSet key v (bc_txn b)\<rparr>))"

definition BufferClient_Prepare ::
  "'w FrontEnv \<Rightarrow> 'w \<Rightarrow> BufferClient \<Rightarrow> Timestamp \<Rightarrow> Promise \<Rightarrow> Promise \<times> 'w" where
  "BufferClient_Prepare env w b timestamp promise =
     (let (f, w1) = fe_Prepare env w (bc_shard b) (bc_tid b) (bc_txn b) timestamp in (f promise, w1))"

definition BufferClient_Commit :: "'w FrontEnv \<Rightarrow> 'w \<Rightarrow> BufferClient \<Rightarrow> u64 \<Rightarrow> 'w" where
  "BufferClient_Commit env w b timestamp = fe_Commit env w (bc_shard b) (bc_tid b) (bc_txn b) timestamp"

definition BufferClient_Abort :: "'w FrontEnv \<Rightarrow> 'w \<Rightarrow> BufferClient \<Rightarrow> 'w" where
  "BufferClient_Abort env w b = fe_Abort env w (bc_shard b) (bc_tid b) Transaction_empty"

section \<open>What the buffer holds\<close>

text \<open>
  Frame and effect of each call, and the facts the clients' proofs use: a buffer keeps its shard,
  its read and write sets have one entry per key, and a read is answered from the write set first.
\<close>

lemmas buffer_defs = BufferClient_Begin_def BufferClient_Get_def BufferClient_Put_def BufferClient_Prepare_def
  BufferClient_Commit_def BufferClient_Abort_def

lemma txn_sel [simp]:
  "writeSet (addReadSet k t txn) = writeSet txn" "readSet (addWriteSet k v txn) = readSet txn"
  "map_of (writeSet (addWriteSet k v txn)) = (map_of (writeSet txn))(k \<mapsto> v)"
  "map_of (readSet (addReadSet k t txn)) = (map_of (readSet txn))(k \<mapsto> t)"
  by (simp_all add: addReadSet_def addWriteSet_def update_conv')

lemma BufferClient_Begin_returns:
  assumes "BufferClient_Begin env w b tid = returns (b', w')"
  shows "b' = \<lparr>bc_shard = bc_shard b, bc_txn = Transaction_empty, bc_tid = tid\<rparr>"
    and "fe_Begin env w (bc_shard b) tid = returns w'"
  using assms by (auto simp: BufferClient_Begin_def)

lemma BufferClient_Get_keeps:
  assumes "BufferClient_Get env w b key promise = returns (po, b', w')"
  shows "bc_shard b' = bc_shard b" and "bc_tid b' = bc_tid b" and "writeSet (bc_txn b') = writeSet (bc_txn b)"
    and "\<And>k. k \<noteq> key \<Longrightarrow> map_of (readSet (bc_txn b')) k = map_of (readSet (bc_txn b)) k"
    and "\<And>t. map_of (readSet (bc_txn b)) key = Some t \<Longrightarrow> map_of (readSet (bc_txn b')) key = Some t"
    and "txn_wf (bc_txn b) \<Longrightarrow> txn_wf (bc_txn b')"
  using assms
  by (auto simp: BufferClient_Get_def Let_def split: option.splits prod.splits if_splits)

lemma BufferClient_Get_own_write:
  assumes "BufferClient_Get env w b key (Some p) = returns (po, b', w')"
    and "map_of (writeSet (bc_txn b)) key = Some v"
  shows "po = Some (Promise_Reply_v p REPLY_OK v)" and "b' = b" and "w' = w"
  using assms by (auto simp: BufferClient_Get_def)

text \<open>A first read that succeeds is recorded at the time the server gave; later ones ask for that time.\<close>

lemma BufferClient_Get_first_read:
  assumes "BufferClient_Get env w b key (Some p) = returns (po, b', w')"
    and "map_of (writeSet (bc_txn b)) key = None" and "map_of (readSet (bc_txn b)) key = None"
  obtains f where "fe_Get env w (bc_shard b) (bc_tid b) key (Promise_GetTimeout p) = (f, w')"
    and "po = Some (f p)"
    and "map_of (readSet (bc_txn b')) key = (if GetReply (f p) = Some REPLY_OK then GetTimestamp (f p) else None)"
  using assms
  by (auto simp: BufferClient_Get_def Let_def split: prod.splits if_splits)

lemma BufferClient_Get_again:
  assumes "BufferClient_Get env w b key (Some p) = returns (po, b', w')"
    and "map_of (writeSet (bc_txn b)) key = None" and "map_of (readSet (bc_txn b)) key = Some t"
  obtains f where "fe_Get_at env w (bc_shard b) (bc_tid b) key t (Promise_GetTimeout p) = (f, w')"
    and "po = Some (f p)" and "b' = b"
  using assms
  by (auto simp: BufferClient_Get_def timeout_of_def Let_def split: prod.splits)

end
