(* ===== verification/Tapir_Client.thy ===== *)
theory Tapir_Client
  imports Buffer_Client
begin

text \<open>
  The TAPIR front end, \<^verbatim>\<open>store/tapirstore/client.cc\<close>: it routes the reads and writes of a transaction
  to the buffers of the shards, and commits with a two-phase commit that it tries again up to
  \<open>COMMIT_RETRIES\<close> times. The environment \<open>FrontEnv\<close> stands for the shard clients and the clock.
\<close>

section \<open>The client\<close>

text \<open>
  \<open>tcl_participants\<close> is a \<^verbatim>\<open>std::set<int>\<close>, a list in increasing order. \<open>tcl_bclient\<close> is the vector
  of buffers. The random number of the constructor is the argument \<open>cid\<close>, which its loop makes
  nonzero; \<open>junk\<close> is what the uninitialised transaction number of a new buffer holds.
\<close>

record TapirClient =
  tcl_client_id :: u64
  tcl_t_id :: u64
  tcl_nshards :: u64
  tcl_retries :: nat
  tcl_participants :: "int list"
  tcl_bclient :: "int \<Rightarrow> BufferClient"
  tcl_timeServer :: TrueTime

definition TapirClient_new :: "u64 \<Rightarrow> u64 \<Rightarrow> int \<Rightarrow> TrueTime \<Rightarrow> TapirClient" where
  "TapirClient_new junk cid nShards ts =
     \<lparr>tcl_client_id = cid, tcl_t_id = (cid div 10000) * 10000, tcl_nshards = of_int nShards, tcl_retries = 0,
      tcl_participants = [], tcl_bclient = (\<lambda>i. BufferClient_new i junk), tcl_timeServer = ts\<rparr>"

text \<open>The shard of a key, \<^verbatim>\<open>int i = key_to_shard(key, nshards)\<close>, and \<^verbatim>\<open>participants.insert(i)\<close>.\<close>

definition shard_index :: "string \<Rightarrow> u64 \<Rightarrow> int outcome" where
  "shard_index key nshards = obind (key_to_shard key nshards) (\<lambda>s. Inr (sint (ucast s :: 32 word)))"

definition set_insert :: "int \<Rightarrow> int list \<Rightarrow> int list" where
  "set_insert i ps = (if i \<in> set ps then ps else insort i ps)"

definition TapirClient_Begin :: "TapirClient \<Rightarrow> TapirClient" where
  "TapirClient_Begin c = c\<lparr>tcl_t_id := tcl_t_id c + 1, tcl_participants := []\<rparr>"

definition put_buffer :: "TapirClient \<Rightarrow> int \<Rightarrow> BufferClient \<Rightarrow> TapirClient" where
  "put_buffer c i b = c\<lparr>tcl_bclient := (tcl_bclient c)(i := b)\<rparr>"

definition join_shard :: "'w FrontEnv \<Rightarrow> 'w \<Rightarrow> TapirClient \<Rightarrow> int \<Rightarrow> (TapirClient \<times> 'w) blocking" where
  "join_shard env w c i =
     (if i \<in> set (tcl_participants c) then returns (c, w)
      else bbind (BufferClient_Begin env w (tcl_bclient c i) (tcl_t_id c)) (\<lambda>(b, w1).
             returns (put_buffer (c\<lparr>tcl_participants := set_insert i (tcl_participants c)\<rparr>) i b, w1)))"

definition TapirClient_Get ::
  "'w FrontEnv \<Rightarrow> 'w \<Rightarrow> TapirClient \<Rightarrow> string \<Rightarrow> ((int \<times> string) \<times> TapirClient \<times> 'w) blocking" where
  "TapirClient_Get env w c key =
     obind (shard_index key (tcl_nshards c)) (\<lambda>i.
       bbind (join_shard env w c i) (\<lambda>(c1, w1).
         bbind (BufferClient_Get env w1 (tcl_bclient c1 i) key (Some (Promise_new GET_TIMEOUT))) (\<lambda>(po, b, w2).
           case po of
             None \<Rightarrow> Inl (Undefined ''null promise'')
           | Some promise \<Rightarrow>
               bbind (Inr (GetValue promise)) (\<lambda>v.
                 bbind (Inr (GetReply promise)) (\<lambda>reply. returns ((reply, v), put_buffer c1 i b, w2))))))"

definition TapirClient_Put ::
  "'w FrontEnv \<Rightarrow> 'w \<Rightarrow> TapirClient \<Rightarrow> string \<Rightarrow> string \<Rightarrow> (int \<times> TapirClient \<times> 'w) blocking" where
  "TapirClient_Put env w c key v =
     obind (shard_index key (tcl_nshards c)) (\<lambda>i.
       bbind (join_shard env w c i) (\<lambda>(c1, w1).
         obind (BufferClient_Put (tcl_bclient c1 i) key v (Some (Promise_new PUT_TIMEOUT))) (\<lambda>(promise, b).
           bbind (Inr (GetReply promise)) (\<lambda>reply. returns (reply, put_buffer c1 i b, w1)))))"

section \<open>Two-phase commit\<close>

fun send_prepares ::
  "'w FrontEnv \<Rightarrow> 'w \<Rightarrow> (int \<Rightarrow> BufferClient) \<Rightarrow> Timestamp \<Rightarrow> int list \<Rightarrow> Promise list \<times> 'w" where
  "send_prepares env w bs timestamp [] = ([], w)"
| "send_prepares env w bs timestamp (p # ps) =
     (let (promise, w1) = BufferClient_Prepare env w (bs p) timestamp (Promise_new PREPARE_TIMEOUT);
          (promises, w2) = send_prepares env w1 bs timestamp ps
      in (promise # promises, w2))"

text \<open>
  The loop over the promises. \<open>ts\<close> is the variable that starts uninitialised; the \<open>proposed\<close> of the
  loop is a variable of its own, so the one that \<^verbatim>\<open>Prepare\<close> compares with the clock stays 0.
\<close>

fun collect_votes :: "Promise list \<Rightarrow> int \<Rightarrow> u64 \<Rightarrow> int blocking" where
  "collect_votes [] status ts = returns status"
| "collect_votes (p # ps) status ts =
     bbind (Inr (GetTimestamp p)) (\<lambda>t.
       let proposed = getTimestamp t in
       bbind (Inr (GetReply p)) (\<lambda>reply.
         if reply = REPLY_OK then collect_votes ps status ts
         else if reply = REPLY_FAIL then returns REPLY_FAIL
         else if reply = REPLY_RETRY then collect_votes ps REPLY_RETRY (if proposed > ts then proposed else ts)
         else if reply = REPLY_TIMEOUT then collect_votes ps REPLY_RETRY ts
         else collect_votes ps status ts))"

definition TapirClient_Prepare ::
  "u64 \<Rightarrow> 'w FrontEnv \<Rightarrow> 'w \<Rightarrow> TapirClient \<Rightarrow> Timestamp \<Rightarrow> (int \<times> Timestamp \<times> 'w) blocking" where
  "TapirClient_Prepare ts env w c timestamp =
     (let proposed = 0 in
      obind (assert_that (tcl_participants c \<noteq> []) ''participants.size() > 0'') (\<lambda>_.
        let (promises, w1) = send_prepares env w (tcl_bclient c) timestamp (tcl_participants c) in
        bbind (collect_votes promises REPLY_OK ts) (\<lambda>status.
          if status = REPLY_RETRY then
            (let (tv, w2) = fe_gettimeofday env w1;
                 now = GetTime (tcl_timeServer c) tv
             in returns (status, setTimestamp (if now > proposed then now else proposed) timestamp, w2))
          else returns (status, timestamp, w1))))"

definition TapirClient_Abort :: "'w FrontEnv \<Rightarrow> 'w \<Rightarrow> TapirClient \<Rightarrow> 'w" where
  "TapirClient_Abort env w c = fold (\<lambda>p w. BufferClient_Abort env w (tcl_bclient c p)) (tcl_participants c) w"

text \<open>The loop of \<^verbatim>\<open>Commit\<close>, with the number of rounds that are left; \<open>status\<close> is that of the last round.\<close>

fun commit_rounds ::
  "u64 \<Rightarrow> 'w FrontEnv \<Rightarrow> nat \<Rightarrow> int \<Rightarrow> 'w \<Rightarrow> TapirClient \<Rightarrow> Timestamp \<Rightarrow> (int \<times> nat \<times> 'w) blocking" where
  "commit_rounds ts env 0 status w c timestamp = returns (status, COMMIT_RETRIES, w)"
| "commit_rounds ts env (Suc left) status w c timestamp =
     bbind (TapirClient_Prepare ts env w c timestamp) (\<lambda>(status1, timestamp1, w1).
       if status1 = REPLY_RETRY then commit_rounds ts env left status1 w1 c timestamp1
       else returns (status1, COMMIT_RETRIES - Suc left, w1))"

definition TapirClient_Commit ::
  "u64 \<Rightarrow> 'w FrontEnv \<Rightarrow> 'w \<Rightarrow> TapirClient \<Rightarrow> (bool \<times> TapirClient \<times> 'w) blocking" where
  "TapirClient_Commit ts env w c =
     (let (tv, w1) = fe_gettimeofday env w;
          timestamp = Timestamp (GetTime (tcl_timeServer c) tv) (tcl_client_id c)
      in bbind (commit_rounds ts env COMMIT_RETRIES REPLY_RETRY w1 c timestamp) (\<lambda>(status, retries, w2).
           let c1 = c\<lparr>tcl_retries := retries\<rparr> in
           if status = REPLY_OK then
             returns (True, c1, fold (\<lambda>p w. BufferClient_Commit env w (tcl_bclient c1 p) 0) (tcl_participants c1) w2)
           else returns (False, c1, TapirClient_Abort env w2 c1)))"

section \<open>Transactions in progress\<close>

datatype client_op = OpGet string | OpPut string string

definition client_do ::
  "'w FrontEnv \<Rightarrow> 'w \<Rightarrow> TapirClient \<Rightarrow> client_op \<Rightarrow> ((int \<times> string) \<times> TapirClient \<times> 'w) blocking" where
  "client_do env w c op =
     (case op of
        OpGet key \<Rightarrow> TapirClient_Get env w c key
      | OpPut key v \<Rightarrow> bbind (TapirClient_Put env w c key v) (\<lambda>(reply, c1, w1). returns ((reply, v), c1, w1)))"

fun client_run ::
  "'w FrontEnv \<Rightarrow> 'w \<Rightarrow> TapirClient \<Rightarrow> client_op list \<Rightarrow> ((int \<times> string) list \<times> TapirClient \<times> 'w) blocking" where
  "client_run env w c [] = returns ([], c, w)"
| "client_run env w c (op # ops) =
     bbind (client_do env w c op) (\<lambda>(r, c1, w1).
       bbind (client_run env w1 c1 ops) (\<lambda>(rs, c2, w2). returns (r # rs, c2, w2)))"

text \<open>
  The reference: \<open>last_put\<close> is the value of the last write to a key, \<open>op_key\<close> the key of a call, and
  \<open>reads_own\<close> says that writes succeed and that a read of a key written before returns that value.
\<close>

fun last_put :: "client_op list \<Rightarrow> string \<rightharpoonup> string" where
  "last_put [] = Map.empty"
| "last_put (OpGet k # ops) = last_put ops"
| "last_put (OpPut k v # ops) = [k \<mapsto> v] ++ last_put ops"

fun op_key :: "client_op \<Rightarrow> string" where
  "op_key (OpGet k) = k"
| "op_key (OpPut k v) = k"

fun reads_own :: "(string \<rightharpoonup> string) \<Rightarrow> client_op list \<Rightarrow> (int \<times> string) list \<Rightarrow> bool" where
  "reads_own m [] [] \<longleftrightarrow> True"
| "reads_own m (OpGet k # ops) (r # rs) \<longleftrightarrow>
     (case m k of None \<Rightarrow> True | Some v \<Rightarrow> r = (REPLY_OK, v)) \<and> reads_own m ops rs"
| "reads_own m (OpPut k v # ops) (r # rs) \<longleftrightarrow> fst r = REPLY_OK \<and> reads_own (m(k \<mapsto> v)) ops rs"
| "reads_own m _ _ \<longleftrightarrow> False"

definition at_shard :: "u64 \<Rightarrow> string \<Rightarrow> int \<Rightarrow> bool" where
  "at_shard n k i \<longleftrightarrow> shard_index k n = Inr i"

definition buffers_wired :: "TapirClient \<Rightarrow> bool" where
  "buffers_wired c \<longleftrightarrow> (\<forall>i. bc_shard (tcl_bclient c i) = i)"

text \<open>
  The state of a transaction that has performed calls on the keys \<open>ks\<close> and writes \<open>m\<close>: the
  participants are the shards of the keys, and the buffer of each holds its part of the transaction.
\<close>

definition buffer_ok :: "u64 \<Rightarrow> u64 \<Rightarrow> string set \<Rightarrow> (string \<rightharpoonup> string) \<Rightarrow> int \<Rightarrow> BufferClient \<Rightarrow> bool" where
  "buffer_ok n tid ks m i b \<longleftrightarrow> bc_tid b = tid \<and> txn_wf (bc_txn b) \<and>
     rkeys (bc_txn b) \<subseteq> {k \<in> ks. at_shard n k i} \<and>
     map_of (writeSet (bc_txn b)) = (\<lambda>k. if at_shard n k i then m k else None)"

definition session :: "TapirClient \<Rightarrow> string set \<Rightarrow> (string \<rightharpoonup> string) \<Rightarrow> bool" where
  "session c ks m \<longleftrightarrow> buffers_wired c \<and>
     sorted (tcl_participants c) \<and> distinct (tcl_participants c) \<and>
     set (tcl_participants c) = {i. \<exists>k\<in>ks. at_shard (tcl_nshards c) k i} \<and> dom m \<subseteq> ks \<and>
     (\<forall>i\<in>set (tcl_participants c). buffer_ok (tcl_nshards c) (tcl_t_id c) ks m i (tcl_bclient c i))"

lemma buffer_ok_mono: "buffer_ok n tid ks m i b \<Longrightarrow> ks \<subseteq> ks' \<Longrightarrow> buffer_ok n tid ks' m i b"
  by (auto simp: buffer_ok_def)

lemma buffer_ok_new:
  "(\<And>k. at_shard n k i \<Longrightarrow> m k = None) \<Longrightarrow>
   buffer_ok n tid ks m i \<lparr>bc_shard = j, bc_txn = Transaction_empty, bc_tid = tid\<rparr>"
  by (auto simp: buffer_ok_def) (simp_all add: Transaction_empty_def fun_eq_iff)

lemma session_Begin: "buffers_wired c \<Longrightarrow> session (TapirClient_Begin c) {} Map.empty"
  by (simp add: session_def TapirClient_Begin_def buffers_wired_def)

lemma set_insert_props:
  "set (set_insert i ps) = insert i (set ps)"
  "sorted ps \<Longrightarrow> sorted (set_insert i ps)" "distinct ps \<Longrightarrow> distinct (set_insert i ps)"
  by (auto simp: set_insert_def set_insort_key sorted_insort distinct_insort)

lemma put_buffer_sel [simp]:
  "tcl_bclient (put_buffer c i b) = (tcl_bclient c)(i := b)" "tcl_participants (put_buffer c i b) = tcl_participants c"
  "tcl_nshards (put_buffer c i b) = tcl_nshards c" "tcl_t_id (put_buffer c i b) = tcl_t_id c"
  "tcl_client_id (put_buffer c i b) = tcl_client_id c" "tcl_timeServer (put_buffer c i b) = tcl_timeServer c"
  by (simp_all add: put_buffer_def)

lemma at_shard_fun: "at_shard n k i \<Longrightarrow> at_shard n k j \<Longrightarrow> i = j"
  by (simp add: at_shard_def)

lemma session_join:
  assumes "session c ks m" and "at_shard (tcl_nshards c) k i"
    and "join_shard env w c i = returns (c', w')"
  shows "session c' (insert k ks) m" and "tcl_nshards c' = tcl_nshards c" and "tcl_t_id c' = tcl_t_id c"
    and "i \<in> set (tcl_participants c')" and "tcl_client_id c' = tcl_client_id c"
    and "tcl_timeServer c' = tcl_timeServer c"
proof -
  note s = assms(1) [unfolded session_def]
  have fn: "at_shard (tcl_nshards c) k j \<longleftrightarrow> j = i" for j using assms(2) at_shard_fun by blast
  have new: "m k' = None" if "i \<notin> set (tcl_participants c)" "at_shard (tcl_nshards c) k' i" for k'
    using that s by auto
  show "session c' (insert k ks) m"
  proof (cases "i \<in> set (tcl_participants c)")
    case True
    then have "c' = c" using assms(3) by (simp add: join_shard_def)
    moreover have "{j. \<exists>k'\<in>insert k ks. at_shard (tcl_nshards c) k' j} = set (tcl_participants c)"
      using s True fn by auto
    moreover have "buffer_ok (tcl_nshards c) (tcl_t_id c) (insert k ks) m j (tcl_bclient c j)"
      if "j \<in> set (tcl_participants c)" for j
      using s that by (blast intro: buffer_ok_mono)
    ultimately show ?thesis using s by (auto simp: session_def)
  next
    case False
    then obtain b where b: "BufferClient_Begin env w (tcl_bclient c i) (tcl_t_id c) = returns (b, w')"
      and c': "c' = put_buffer (c\<lparr>tcl_participants := set_insert i (tcl_participants c)\<rparr>) i b"
      using assms(3) by (auto simp: join_shard_def)
    have bi: "b = \<lparr>bc_shard = i, bc_txn = Transaction_empty, bc_tid = tcl_t_id c\<rparr>"
      using BufferClient_Begin_returns(1) [OF b] s by (simp add: buffers_wired_def)
    have "buffer_ok (tcl_nshards c) (tcl_t_id c) (insert k ks) m j (((tcl_bclient c)(i := b)) j)"
      if "j \<in> insert i (set (tcl_participants c))" for j
    proof (cases "j = i")
      case True
      then show ?thesis using buffer_ok_new [OF new [OF False]] by (simp add: bi)
    next
      case False
      then show ?thesis using s that buffer_ok_mono [OF _ subset_insertI] by auto
    qed
    moreover have "{j. \<exists>k'\<in>insert k ks. at_shard (tcl_nshards c) k' j} = insert i (set (tcl_participants c))"
      using s fn by auto
    moreover have "buffers_wired c'" using s by (simp add: c' bi buffers_wired_def)
    ultimately show ?thesis using s unfolding session_def c'
      by (auto simp: set_insert_props simp del: fun_upd_apply)
  qed
  show "tcl_nshards c' = tcl_nshards c" "tcl_t_id c' = tcl_t_id c" "i \<in> set (tcl_participants c')"
    "tcl_client_id c' = tcl_client_id c" "tcl_timeServer c' = tcl_timeServer c"
    using assms(3) by (auto simp: join_shard_def set_insert_props split: if_splits)
qed

lemma session_put_buffer:
  assumes "session c ks m" and "dom m' \<subseteq> ks" and "bc_shard b = i"
    and "buffer_ok (tcl_nshards c) (tcl_t_id c) ks m' i b"
    and "\<And>j k. j \<noteq> i \<Longrightarrow> at_shard (tcl_nshards c) k j \<Longrightarrow> m' k = m k"
  shows "session (put_buffer c i b) ks m'"
proof -
  have "buffer_ok (tcl_nshards c) (tcl_t_id c) ks m' j (tcl_bclient c j)"
    if "j \<in> set (tcl_participants c)" "j \<noteq> i" for j
    using assms(1) that assms(5) [OF that(2)] by (auto simp: session_def buffer_ok_def)
  then show ?thesis using assms by (auto simp: session_def buffers_wired_def)
qed

lemma session_Get:
  assumes "session c ks m" and "TapirClient_Get env w c key = returns (r, c', w')"
  shows "session c' (insert key ks) m" and "tcl_nshards c' = tcl_nshards c" and "tcl_t_id c' = tcl_t_id c"
    and "case m key of None \<Rightarrow> True | Some v \<Rightarrow> r = (REPLY_OK, v)"
proof -
  obtain i c1 w1 p b where i: "at_shard (tcl_nshards c) key i" and j: "join_shard env w c i = returns (c1, w1)"
    and g: "BufferClient_Get env w1 (tcl_bclient c1 i) key (Some (Promise_new GET_TIMEOUT)) = returns (Some p, b, w')"
    and c': "c' = put_buffer c1 i b" and r: "GetValue p = Some (snd r)" "GetReply p = Some (fst r)"
    using assms(2) by (auto simp: TapirClient_Get_def at_shard_def bbind_eq_returns split: option.splits)
  note s1 = session_join [OF assms(1) i j]
  have bo: "buffer_ok (tcl_nshards c) (tcl_t_id c) (insert key ks) m i (tcl_bclient c1 i)"
    and sh: "bc_shard (tcl_bclient c1 i) = i" and dm: "dom m \<subseteq> insert key ks"
    using s1 by (auto simp: session_def buffers_wired_def)
  note k = BufferClient_Get_keeps [OF g]
  have "rkeys (bc_txn b) \<subseteq> insert key (rkeys (bc_txn (tcl_bclient c1 i)))"
  proof
    fix k' assume "k' \<in> rkeys (bc_txn b)"
    then show "k' \<in> insert key (rkeys (bc_txn (tcl_bclient c1 i)))"
      using k(4) [of k'] by (metis insert_iff map_of_eq_None_iff)
  qed
  then have "rkeys (bc_txn b) \<subseteq> {k \<in> insert key ks. at_shard (tcl_nshards c) k i}"
    using bo i unfolding buffer_ok_def by blast
  then have "buffer_ok (tcl_nshards c1) (tcl_t_id c1) (insert key ks) m i b"
    using bo k(2,3,6) by (simp add: buffer_ok_def s1)
  then show "session c' (insert key ks) m"
    using session_put_buffer [OF s1(1) dm, of b i] k(1) sh c' by simp
  show "tcl_nshards c' = tcl_nshards c" "tcl_t_id c' = tcl_t_id c" by (simp_all add: c' s1)
  show "case m key of None \<Rightarrow> True | Some v \<Rightarrow> r = (REPLY_OK, v)"
  proof (cases "m key")
    case (Some v)
    then have "map_of (writeSet (bc_txn (tcl_bclient c1 i))) key = Some v"
      using bo i by (simp add: buffer_ok_def)
    from BufferClient_Get_own_write(1) [OF g this] r show ?thesis using Some by (cases r) simp
  qed simp
qed

lemma session_Put:
  assumes "session c ks m" and "TapirClient_Put env w c key v = returns (r, c', w')"
  shows "session c' (insert key ks) (m(key \<mapsto> v))" and "tcl_nshards c' = tcl_nshards c"
    and "tcl_t_id c' = tcl_t_id c" and "r = REPLY_OK"
proof -
  obtain i c1 b where i: "at_shard (tcl_nshards c) key i" and j: "join_shard env w c i = returns (c1, w')"
    and b: "b = tcl_bclient c1 i \<lparr>bc_txn := addWriteSet key v (bc_txn (tcl_bclient c1 i))\<rparr>"
    and c': "c' = put_buffer c1 i b" and r: "r = REPLY_OK"
    using assms(2) by (auto simp: TapirClient_Put_def at_shard_def bbind_eq_returns BufferClient_Put_def)
  note s1 = session_join [OF assms(1) i j]
  have bo: "buffer_ok (tcl_nshards c) (tcl_t_id c) (insert key ks) m i (tcl_bclient c1 i)"
    and sh: "bc_shard (tcl_bclient c1 i) = i" and dm: "dom (m(key \<mapsto> v)) \<subseteq> insert key ks"
    using s1 by (auto simp: session_def buffers_wired_def)
  have "buffer_ok (tcl_nshards c1) (tcl_t_id c1) (insert key ks) (m(key \<mapsto> v)) i b"
    using bo i by (auto simp: buffer_ok_def b s1 fun_eq_iff)
  moreover have "(m(key \<mapsto> v)) k = m k" if "h \<noteq> i" "at_shard (tcl_nshards c1) k h" for h k
    using that i at_shard_fun [of "tcl_nshards c"] by (auto simp: s1)
  ultimately show "session c' (insert key ks) (m(key \<mapsto> v))"
    using session_put_buffer [OF s1(1) dm, of b i] sh by (simp add: c' b)
  show "tcl_nshards c' = tcl_nshards c" "tcl_t_id c' = tcl_t_id c" "r = REPLY_OK" by (simp_all add: c' s1 r)
qed

lemma session_run:
  assumes "session c ks m" and "client_run env w c ops = returns (rs, c', w')"
  shows "session c' (ks \<union> op_key ` set ops) (m ++ last_put ops) \<and> tcl_nshards c' = tcl_nshards c \<and>
    tcl_t_id c' = tcl_t_id c \<and> reads_own m ops rs"
  using assms
proof (induction ops arbitrary: c ks m w rs)
  case (Cons op ops)
  then obtain r c1 w1 rs1 where d: "client_do env w c op = returns (r, c1, w1)"
    and rn: "client_run env w1 c1 ops = returns (rs1, c', w')" and rs: "rs = r # rs1"
    by auto
  show ?case
  proof (cases op)
    case (OpGet k)
    then have g: "TapirClient_Get env w c k = returns (r, c1, w1)" using d by (simp add: client_do_def)
    note s = session_Get [OF Cons.prems(1) g]
    show ?thesis using Cons.IH [OF s(1) rn] s by (simp add: OpGet rs)
  next
    case (OpPut k v)
    then obtain r0 where p: "TapirClient_Put env w c k v = returns (r0, c1, w1)" and r: "r = (r0, v)"
      using d by (auto simp: client_do_def)
    note s = session_Put [OF Cons.prems(1) p]
    have "m ++ ([k \<mapsto> v] ++ last_put ops) = (m(k \<mapsto> v)) ++ last_put ops"
      by (auto simp: fun_eq_iff map_add_def split: option.split)
    then show ?thesis using Cons.IH [OF s(1) rn] s by (simp add: OpPut rs r del: fun_upd_apply)
  qed
qed simp

text \<open>
  The front end buffers a transaction where its shards will look for it. After a transaction has
  begun and performed any sequence of reads and writes, against shards that answer anything, the
  participants are exactly the shards of the keys it used, in increasing order; the buffer of a
  participant carries the number of the transaction, and its write set maps each key of that shard
  to the last value written and no other key; it has read only keys of its shard. All writes
  succeeded, and a read of a key that had been written returned the last value written.
\<close>

theorem tapir_client_buffers:
  assumes "buffers_wired c" and "client_run env w (TapirClient_Begin c) ops = returns (rs, c', w')"
  shows "sorted (tcl_participants c') \<and> distinct (tcl_participants c') \<and>
    set (tcl_participants c') = {i. \<exists>op\<in>set ops. shard_index (op_key op) (tcl_nshards c) = Inr i} \<and>
    (\<forall>i\<in>set (tcl_participants c').
       bc_shard (tcl_bclient c' i) = i \<and> bc_tid (tcl_bclient c' i) = tcl_t_id c + 1 \<and>
       txn_wf (bc_txn (tcl_bclient c' i)) \<and>
       rkeys (bc_txn (tcl_bclient c' i)) \<subseteq> {k \<in> op_key ` set ops. shard_index k (tcl_nshards c) = Inr i} \<and>
       map_of (writeSet (bc_txn (tcl_bclient c' i))) =
         (\<lambda>k. if shard_index k (tcl_nshards c) = Inr i then last_put ops k else None)) \<and>
    reads_own Map.empty ops rs"
proof -
  have "tcl_nshards (TapirClient_Begin c) = tcl_nshards c" "tcl_t_id (TapirClient_Begin c) = tcl_t_id c + 1"
    by (simp_all add: TapirClient_Begin_def)
  with session_run [OF session_Begin [OF assms(1)] assms(2)]
  have s: "session c' (op_key ` set ops) (last_put ops)" "reads_own Map.empty ops rs"
    and n: "tcl_nshards c' = tcl_nshards c" "tcl_t_id c' = tcl_t_id c + 1"
    by simp_all
  from s show ?thesis
    unfolding session_def buffer_ok_def at_shard_def buffers_wired_def n by blast
qed

section \<open>The commit protocol\<close>

text \<open>
  To speak of the calls a client makes, an environment is run with a record of them: \<open>logged env\<close>
  answers as \<open>env\<close> does and appends each call. A prepare is recorded with what became of its promise.
\<close>

datatype fe_call =
    CBegin int u64
  | CGet int u64 string
  | CGet_at int u64 string Timestamp
  | CPrepare int u64 Transaction Timestamp Promise
  | CCommit int u64 Transaction u64
  | CAbort int u64 Transaction
  | CClock timeval

definition logged :: "'w FrontEnv \<Rightarrow> ('w \<times> fe_call list) FrontEnv" where
  "logged env =
     \<lparr>fe_Begin = (\<lambda>wl i tid. bbind (fe_Begin env (fst wl) i tid) (\<lambda>w1. returns (w1, snd wl @ [CBegin i tid]))),
      fe_Get = (\<lambda>wl i tid key tmo.
        let (f, w1) = fe_Get env (fst wl) i tid key tmo in (f, w1, snd wl @ [CGet i tid key])),
      fe_Get_at = (\<lambda>wl i tid key t tmo.
        let (f, w1) = fe_Get_at env (fst wl) i tid key t tmo in (f, w1, snd wl @ [CGet_at i tid key t])),
      fe_Prepare = (\<lambda>wl i tid txn t.
        let (f, w1) = fe_Prepare env (fst wl) i tid txn t
        in (f, w1, snd wl @ [CPrepare i tid txn t (f (Promise_new PREPARE_TIMEOUT))])),
      fe_Commit = (\<lambda>wl i tid txn t. (fe_Commit env (fst wl) i tid txn t, snd wl @ [CCommit i tid txn t])),
      fe_Abort = (\<lambda>wl i tid txn. (fe_Abort env (fst wl) i tid txn, snd wl @ [CAbort i tid txn])),
      fe_gettimeofday = (\<lambda>wl. let (tv, w1) = fe_gettimeofday env (fst wl) in (tv, w1, snd wl @ [CClock tv]))\<rparr>"

text \<open>
  The protocol. A round sends the transaction to all participants. One vote against it is enough to
  abort; a vote to retry, or none in time, leads to another round at the time the clock shows then,
  unless all rounds are used up; otherwise the transaction commits. An abstention counts as consent.
\<close>

definition vote_result :: "int list \<Rightarrow> int" where
  "vote_result rs =
     (if REPLY_FAIL \<in> set rs then REPLY_FAIL
      else if REPLY_RETRY \<in> set rs \<or> REPLY_TIMEOUT \<in> set rs then REPLY_RETRY else REPLY_OK)"

definition buffers_of :: "TapirClient \<Rightarrow> BufferClient list" where
  "buffers_of c = map (tcl_bclient c) (tcl_participants c)"

definition prepare_calls :: "TapirClient \<Rightarrow> Timestamp \<Rightarrow> Promise list \<Rightarrow> fe_call list" where
  "prepare_calls c t ps = map2 (\<lambda>b p. CPrepare (bc_shard b) (bc_tid b) (bc_txn b) t p) (buffers_of c) ps"

definition commit_calls :: "TapirClient \<Rightarrow> fe_call list" where
  "commit_calls c = map (\<lambda>b. CCommit (bc_shard b) (bc_tid b) (bc_txn b) 0) (buffers_of c)"

definition abort_calls :: "TapirClient \<Rightarrow> fe_call list" where
  "abort_calls c = map (\<lambda>b. CAbort (bc_shard b) (bc_tid b) Transaction_empty) (buffers_of c)"

inductive two_phase :: "TapirClient \<Rightarrow> nat \<Rightarrow> Timestamp \<Rightarrow> fe_call list \<Rightarrow> bool \<Rightarrow> bool" for c where
  tp_commit: "length ps = length (tcl_participants c) \<Longrightarrow> vote_result (map pr_reply ps) = REPLY_OK \<Longrightarrow>
    two_phase c (Suc n) t (prepare_calls c t ps @ commit_calls c) True"
| tp_abort: "length ps = length (tcl_participants c) \<Longrightarrow> vote_result (map pr_reply ps) = REPLY_FAIL \<Longrightarrow>
    two_phase c (Suc n) t (prepare_calls c t ps @ abort_calls c) False"
| tp_retry: "length ps = length (tcl_participants c) \<Longrightarrow> vote_result (map pr_reply ps) = REPLY_RETRY \<Longrightarrow>
    two_phase c n (setTimestamp (GetTime (tcl_timeServer c) tv) t) l ok \<Longrightarrow>
    two_phase c (Suc n) t (prepare_calls c t ps @ CClock tv # l) ok"
| tp_give_up: "two_phase c 0 t (abort_calls c) False"

lemma collect_votes_result:
  "collect_votes ps status ts = returns s \<Longrightarrow>
   s = (if REPLY_FAIL \<in> pr_reply ` set ps then REPLY_FAIL
        else if REPLY_RETRY \<in> pr_reply ` set ps \<or> REPLY_TIMEOUT \<in> pr_reply ` set ps then REPLY_RETRY
        else status)"
proof (induction ps arbitrary: status ts)
  case (Cons p ps)
  then have d: "pr_done p" by (auto simp: GetTimestamp_def split: if_splits)
  consider "pr_reply p = REPLY_FAIL" | "pr_reply p = REPLY_RETRY" | "pr_reply p = REPLY_TIMEOUT"
    | "pr_reply p \<notin> {REPLY_FAIL, REPLY_RETRY, REPLY_TIMEOUT}" by blast
  then show ?case
  proof cases
    case 1
    then show ?thesis using Cons.prems d by (simp add: GetTimestamp_def GetReply_def reply_defs Let_def)
  next
    case 2
    then obtain ts' where "collect_votes ps REPLY_RETRY ts' = returns s"
      using Cons.prems d by (simp add: GetTimestamp_def GetReply_def reply_defs Let_def)
    from Cons.IH [OF this] 2 show ?thesis by (simp add: reply_defs)
  next
    case 3
    then have "collect_votes ps REPLY_RETRY ts = returns s"
      using Cons.prems d by (simp add: GetTimestamp_def GetReply_def reply_defs Let_def)
    from Cons.IH [OF this] 3 show ?thesis by (simp add: reply_defs)
  next
    case 4
    then have "collect_votes ps status ts = returns s"
      using Cons.prems d by (simp add: GetTimestamp_def GetReply_def Let_def split: if_splits)
    from Cons.IH [OF this] 4 show ?thesis by auto
  qed
qed simp

lemma collect_votes_OK: "collect_votes ps REPLY_OK ts = returns s \<Longrightarrow> s = vote_result (map pr_reply ps)"
  using collect_votes_result [of ps REPLY_OK ts s] by (simp add: vote_result_def)

lemma collect_votes_returns: "\<forall>p\<in>set ps. pr_done p \<Longrightarrow> \<exists>s. collect_votes ps status ts = returns s"
  by (induction ps arbitrary: status ts) (simp_all add: GetTimestamp_def GetReply_def Let_def)

lemma send_prepares_logged:
  "send_prepares (logged env) (w, l) bs t is = (ps, w', l') \<Longrightarrow>
   length ps = length is \<and>
   l' = l @ map2 (\<lambda>b p. CPrepare (bc_shard b) (bc_tid b) (bc_txn b) t p) (map bs is) ps"
proof (induction "is" arbitrary: w l ps)
  case (Cons i "is")
  then show ?case
    by (fastforce simp: BufferClient_Prepare_def logged_def Let_def split: prod.splits)
qed simp

lemma commits_logged:
  "fold (\<lambda>p w. BufferClient_Commit (logged env) w (bs p) t) is (w, l) = (w', l') \<Longrightarrow>
   l' = l @ map (\<lambda>b. CCommit (bc_shard b) (bc_tid b) (bc_txn b) t) (map bs is)"
  by (induction "is" arbitrary: w l) (fastforce simp: BufferClient_Commit_def logged_def)+

lemma aborts_logged:
  "fold (\<lambda>p w. BufferClient_Abort (logged env) w (bs p)) is (w, l) = (w', l') \<Longrightarrow>
   l' = l @ map (\<lambda>b. CAbort (bc_shard b) (bc_tid b) Transaction_empty) (map bs is)"
  by (induction "is" arbitrary: w l) (fastforce simp: BufferClient_Abort_def logged_def)+

lemma clock_logged:
  "fe_gettimeofday (logged env) (w, l) = (tv, w', l') \<Longrightarrow> l' = l @ [CClock tv]"
  by (auto simp: logged_def split: prod.splits)

lemma TapirClient_Prepare_logged:
  assumes "TapirClient_Prepare ts (logged env) (w, l) c t = returns (status, t', w', l')"
  obtains ps where "length ps = length (tcl_participants c)" and "status = vote_result (map pr_reply ps)"
    and "status \<noteq> REPLY_RETRY \<longrightarrow> l' = l @ prepare_calls c t ps"
    and "status = REPLY_RETRY \<longrightarrow> (\<exists>tv. l' = l @ prepare_calls c t ps @ [CClock tv] \<and>
      t' = setTimestamp (GetTime (tcl_timeServer c) tv) t)"
proof -
  obtain ps w1 l1 where sp: "send_prepares (logged env) (w, l) (tcl_bclient c) t (tcl_participants c) = (ps, w1, l1)"
    by (metis surj_pair)
  have st: "collect_votes ps REPLY_OK ts = returns status"
    using assms sp by (auto simp: TapirClient_Prepare_def Let_def split: if_splits prod.splits)
  have l1: "length ps = length (tcl_participants c)" "l1 = l @ prepare_calls c t ps"
    using send_prepares_logged [OF sp] by (simp_all add: prepare_calls_def buffers_of_def)
  show thesis
  proof (rule that [of ps])
    show "length ps = length (tcl_participants c)" by (rule l1)
    show "status = vote_result (map pr_reply ps)" by (rule collect_votes_OK [OF st])
    show "status \<noteq> REPLY_RETRY \<longrightarrow> l' = l @ prepare_calls c t ps"
      using assms sp st l1 by (auto simp: TapirClient_Prepare_def Let_def split: if_splits)
    show "status = REPLY_RETRY \<longrightarrow> (\<exists>tv. l' = l @ prepare_calls c t ps @ [CClock tv] \<and>
        t' = setTimestamp (GetTime (tcl_timeServer c) tv) t)"
    proof
      assume that: "status = REPLY_RETRY"
      obtain tv w2 l2 where ck: "fe_gettimeofday (logged env) (w1, l1) = (tv, w2, l2)"
        by (metis surj_pair)
      moreover have "(if x > 0 then x else 0) = x" for x :: u64 using word_gt_0 [of x] by auto
      ultimately show "\<exists>tv. l' = l @ prepare_calls c t ps @ [CClock tv] \<and>
          t' = setTimestamp (GetTime (tcl_timeServer c) tv) t"
        using assms sp st that clock_logged [OF ck] l1
        by (auto simp: TapirClient_Prepare_def Let_def split: if_splits)
    qed
  qed
qed

lemma commit_rounds_two_phase:
  assumes "commit_rounds ts (logged env) n st (w, l) c t = returns (status, r, w', l')" and "st = REPLY_RETRY"
  shows "\<exists>l1. l' = l @ l1 \<and>
    two_phase c n t (l1 @ (if status = REPLY_OK then commit_calls c else abort_calls c)) (status = REPLY_OK)"
  using assms
proof (induction n arbitrary: st w l t)
  case 0
  then show ?case by (auto simp: reply_defs intro: tp_give_up)
next
  case (Suc n)
  obtain s1 t1 w1 l1 where p: "TapirClient_Prepare ts (logged env) (w, l) c t = returns (s1, t1, w1, l1)"
    and r: "if s1 = REPLY_RETRY then commit_rounds ts (logged env) n s1 (w1, l1) c t1 = returns (status, r, w', l')
            else status = s1 \<and> w' = w1 \<and> l' = l1"
    using Suc.prems(1) by (auto split: if_splits)
  obtain ps where ps: "length ps = length (tcl_participants c)" "s1 = vote_result (map pr_reply ps)"
    "s1 \<noteq> REPLY_RETRY \<longrightarrow> l1 = l @ prepare_calls c t ps"
    "s1 = REPLY_RETRY \<longrightarrow> (\<exists>tv. l1 = l @ prepare_calls c t ps @ [CClock tv] \<and>
      t1 = setTimestamp (GetTime (tcl_timeServer c) tv) t)"
    by (rule TapirClient_Prepare_logged [OF p])
  show ?case
  proof (cases "s1 = REPLY_RETRY")
    case True
    then obtain tv where l1: "l1 = l @ prepare_calls c t ps @ [CClock tv]"
      and t1: "t1 = setTimestamp (GetTime (tcl_timeServer c) tv) t" using ps(4) by blast
    have "commit_rounds ts (logged env) n s1 (w1, l1) c t1 = returns (status, r, w', l')" using r True by simp
    from Suc.IH [OF this True] obtain l2 where l2: "l' = l1 @ l2"
      "two_phase c n t1 (l2 @ (if status = REPLY_OK then commit_calls c else abort_calls c)) (status = REPLY_OK)"
      by blast
    then show ?thesis
      using tp_retry [OF ps(1) _ l2(2) [unfolded t1]] ps(2) True by (auto simp: l1)
  next
    case False
    then have l': "l' = l @ prepare_calls c t ps" "status = s1" using r ps(3) by auto
    have "s1 = REPLY_OK \<or> s1 = REPLY_FAIL" using ps(2) False by (auto simp: vote_result_def)
    moreover have "REPLY_FAIL \<noteq> REPLY_OK" by (simp add: reply_defs)
    ultimately show ?thesis
      using tp_commit [OF ps(1), of n t] tp_abort [OF ps(1), of n t] ps(2) l' by auto
  qed
qed

text \<open>
  C10. The commit of the TAPIR client follows the two-phase commit protocol \<open>two_phase\<close>, whatever the
  shards answer: after reading the clock it makes at most five rounds of prepares, each to all
  participants with the buffered transaction; it commits at every participant, and only then
  returns true, if in the last round no participant refused, asked for a retry or timed out;
  otherwise it aborts at every participant. Each round after the first is at the time the clock
  shows then: the times that participants propose have no influence.
\<close>

theorem tapir_client_two_phase:
  assumes "TapirClient_Commit ts (logged env) (w, []) c = returns (ok, c', w', calls)"
  shows "\<exists>tv calls'. calls = CClock tv # calls' \<and>
    two_phase c 5 (Timestamp (GetTime (tcl_timeServer c) tv) (tcl_client_id c)) calls' ok"
proof -
  obtain tv w1 l1 where ck: "fe_gettimeofday (logged env) (w, []) = (tv, w1, l1)" by (metis surj_pair)
  let ?t = "Timestamp (GetTime (tcl_timeServer c) tv) (tcl_client_id c)"
  obtain status r w2 l2 where
    cr: "commit_rounds ts (logged env) COMMIT_RETRIES REPLY_RETRY (w1, l1) c ?t = returns (status, r, w2, l2)"
    and fin: "ok = (status = REPLY_OK)"
      "(w', calls) =
         (if status = REPLY_OK
          then fold (\<lambda>p w. BufferClient_Commit (logged env) w (tcl_bclient c p) 0) (tcl_participants c) (w2, l2)
          else fold (\<lambda>p w. BufferClient_Abort (logged env) w (tcl_bclient c p)) (tcl_participants c) (w2, l2))"
    using assms ck by (auto simp: TapirClient_Commit_def TapirClient_Abort_def Let_def split: if_splits)
  have "calls = l2 @ (if status = REPLY_OK then commit_calls c else abort_calls c)"
    using fin(2) commits_logged [OF sym] aborts_logged [OF sym]
    by (fastforce simp: commit_calls_def abort_calls_def buffers_of_def)
  moreover obtain l3 where "l2 = l1 @ l3"
    "two_phase c COMMIT_RETRIES ?t (l3 @ (if status = REPLY_OK then commit_calls c else abort_calls c))
      (status = REPLY_OK)"
    using commit_rounds_two_phase [OF cr refl] by blast
  ultimately show ?thesis
    using clock_logged [OF ck] fin(1) by (auto simp: COMMIT_RETRIES_def)
qed

section \<open>Commit returns\<close>

definition env_votes :: "'w FrontEnv \<Rightarrow> bool" where
  "env_votes env \<longleftrightarrow> (\<forall>w i tid txn t. pr_done (fst (fe_Prepare env w i tid txn t) (Promise_new PREPARE_TIMEOUT)))"

lemma send_prepares_done:
  "env_votes env \<Longrightarrow> \<forall>p\<in>set (fst (send_prepares env w bs t is)). pr_done p"
proof (induction "is" arbitrary: w)
  case (Cons i "is")
  have "pr_done (fst (fe_Prepare env w (bc_shard (bs i)) (bc_tid (bs i)) (bc_txn (bs i)) t) (Promise_new PREPARE_TIMEOUT))"
    using Cons.prems by (simp add: env_votes_def)
  with Cons show ?case by (auto simp: BufferClient_Prepare_def Let_def split: prod.splits) (metis fst_conv)
qed simp

lemma TapirClient_Prepare_returns:
  assumes "env_votes env" and "tcl_participants c \<noteq> []"
  shows "\<exists>status t' w'. TapirClient_Prepare ts env w c t = returns (status, t', w')"
proof -
  obtain ps w1 where sp: "send_prepares env w (tcl_bclient c) t (tcl_participants c) = (ps, w1)" by (metis surj_pair)
  then have "\<forall>p\<in>set ps. pr_done p" using send_prepares_done [OF assms(1), of w "tcl_bclient c" t "tcl_participants c"] by simp
  then obtain s where "collect_votes ps REPLY_OK ts = returns s" using collect_votes_returns by blast
  then show ?thesis using assms(2) sp by (simp add: TapirClient_Prepare_def Let_def split: prod.split)
qed

lemma commit_rounds_returns:
  assumes "env_votes env" and "tcl_participants c \<noteq> []"
  shows "\<exists>status r w'. commit_rounds ts env n st w c t = returns (status, r, w') \<and> r \<le> COMMIT_RETRIES"
proof (induction n arbitrary: st w t)
  case (Suc n)
  obtain s1 t1 w1 where "TapirClient_Prepare ts env w c t = returns (s1, t1, w1)"
    using TapirClient_Prepare_returns [OF assms] by blast
  then show ?case using Suc.IH [of s1 w1 t1] by (cases "s1 = REPLY_RETRY") simp_all
qed simp

lemma TapirClient_Commit_returns:
  assumes "env_votes env" and "tcl_participants c \<noteq> []"
  shows "\<exists>ok c' w'. TapirClient_Commit ts env w c = returns (ok, c', w') \<and> tcl_retries c' \<le> 5"
proof -
  obtain tv w1 where ck: "fe_gettimeofday env w = (tv, w1)" by (metis surj_pair)
  obtain status r w2 where "commit_rounds ts env COMMIT_RETRIES REPLY_RETRY w1 c
      (Timestamp (GetTime (tcl_timeServer c) tv) (tcl_client_id c)) = returns (status, r, w2)" "r \<le> COMMIT_RETRIES"
    using commit_rounds_returns [OF assms] by blast
  then show ?thesis using ck by (auto simp: TapirClient_Commit_def Let_def COMMIT_RETRIES_def)
qed

text \<open>
  C32. A commit returns. If every prepare is answered in the end, the commit of a transaction that has
  a participant returns a result, with at most five retries; the commit of a transaction without
  participants fails an assertion.
\<close>

theorem tapir_client_commit_returns:
  assumes "env_votes env"
  shows "if tcl_participants c = [] then TapirClient_Commit ts env w c = Inl (AssertFail ''participants.size() > 0'')
    else \<exists>ok c' w'. TapirClient_Commit ts env w c = returns (ok, c', w') \<and> tcl_retries c' \<le> 5"
proof (cases "tcl_participants c = []")
  case True
  then show ?thesis
    by (simp add: TapirClient_Commit_def COMMIT_RETRIES_def eval_nat_numeral TapirClient_Prepare_def split: prod.split)
next
  case False
  then show ?thesis using TapirClient_Commit_returns [OF assms] by simp
qed

section \<open>An example\<close>

definition ex_env :: "unit FrontEnv" where
  "ex_env =
     \<lparr>fe_Begin = (\<lambda>w i tid. returns w), fe_Get = (\<lambda>w i tid key tmo. (\<lambda>p. Promise_Reply_tv p REPLY_OK (Timestamp 1 1) ''0'', w)),
      fe_Get_at = (\<lambda>w i tid key t tmo. (\<lambda>p. Promise_Reply_v p REPLY_OK ''0'', w)),
      fe_Prepare = (\<lambda>w i tid txn t. (\<lambda>p. Promise_Reply_t p REPLY_OK Timestamp_default, w)),
      fe_Commit = (\<lambda>w i tid txn t. w), fe_Abort = (\<lambda>w i tid txn. w),
      fe_gettimeofday = (\<lambda>w. (\<lparr>tv_sec = 0, tv_usec = 5\<rparr>, w))\<rparr>"

definition ex_client :: TapirClient where
  "ex_client = \<lparr>tcl_client_id = 7, tcl_t_id = 0, tcl_nshards = 1, tcl_retries = 0, tcl_participants = [0],
     tcl_bclient = (\<lambda>i. BufferClient_new i 0), tcl_timeServer = TrueTime_init\<rparr>"

lemma ex_wired: "buffers_wired ex_client"
  by (simp add: buffers_wired_def ex_client_def BufferClient_new_def)

lemma ex_votes: "env_votes ex_env"
  by (simp add: env_votes_def ex_env_def promise_defs)

lemma ex_shard_index: "shard_index key 1 = Inr 0"
  by (simp add: shard_index_def key_to_shard_def)

theorem tapir_client_buffers_witness:
  "\<exists>c' w'. client_run ex_env () (TapirClient_Begin ex_client) [OpPut ''a'' ''1'', OpGet ''a''] =
       returns ([(REPLY_OK, ''1''), (REPLY_OK, ''1'')], c', w') \<and>
     set (tcl_participants c') = {0} \<and> map_of (writeSet (bc_txn (tcl_bclient c' 0))) ''a'' = Some ''1''"
proof -
  obtain c' w' where r: "client_run ex_env () (TapirClient_Begin ex_client) [OpPut ''a'' ''1'', OpGet ''a''] =
       returns ([(REPLY_OK, ''1''), (REPLY_OK, ''1'')], c', w')"
    by (simp add: client_do_def TapirClient_Get_def TapirClient_Put_def TapirClient_Begin_def join_shard_def
        ex_client_def ex_shard_index buffer_defs BufferClient_new_def ex_env_def promise_defs put_buffer_def
        addWriteSet_def Transaction_empty_def set_insert_def Let_def)
  have n: "tcl_nshards ex_client = 1" by (simp add: ex_client_def)
  have p: "set (tcl_participants c') = {0}"
    using tapir_client_buffers [OF ex_wired r] by (auto simp: n ex_shard_index)
  moreover have "map_of (writeSet (bc_txn (tcl_bclient c' 0))) ''a'' = Some ''1''"
    using tapir_client_buffers [OF ex_wired r] p by (simp add: n ex_shard_index)
  ultimately show ?thesis using r by simp
qed

theorem tapir_client_two_phase_witness:
  "\<exists>ok c' w' calls tv calls'. TapirClient_Commit 0 (logged ex_env) ((), []) ex_client = returns (ok, c', w', calls) \<and>
     calls = CClock tv # calls' \<and>
     two_phase ex_client 5 (Timestamp (GetTime (tcl_timeServer ex_client) tv) (tcl_client_id ex_client)) calls' ok"
proof -
  have "env_votes (logged ex_env)" by (simp add: env_votes_def logged_def ex_env_def promise_defs)
  moreover have "tcl_participants ex_client \<noteq> []" by (simp add: ex_client_def)
  ultimately obtain ok c' w' calls where
    "TapirClient_Commit 0 (logged ex_env) ((), []) ex_client = returns (ok, c', w', calls)"
    using TapirClient_Commit_returns [of "logged ex_env" ex_client 0 "((), [])"] by auto
  with tapir_client_two_phase [OF this] show ?thesis by blast
qed

theorem tapir_client_commit_returns_witness:
  "\<exists>ok c' w'. TapirClient_Commit 0 ex_env () ex_client = returns (ok, c', w') \<and> tcl_retries c' \<le> 5"
  using tapir_client_commit_returns [OF ex_votes, of ex_client 0 "()"] by (simp add: ex_client_def)

end
