(* ===== verification/Kv_Stores.thy ===== *)
theory Kv_Stores
  imports Tapir_Types
begin

text \<open>
  The two storage back ends of \<^verbatim>\<open>store/common/backend\<close>: \<open>KVStore\<close> (\<^verbatim>\<open>kvstore.cc\<close>, a stack of
  values per key) and \<open>VersionedKVStore\<close> (\<^verbatim>\<open>versionstore.cc\<close>, versions ordered by their write
  timestamp, with the last committed read of each version). The locale \<open>kv_register\<close> is what
  the lock store and the weak store use of the first, \<open>version_index\<close> what the optimistic
  stores use of the second.
\<close>

section \<open>KVStore\<close>

record KVStore =
  kv_store :: "string \<rightharpoonup> string list"

definition KVStore_init :: KVStore where
  "KVStore_init = \<lparr>kv_store = Map.empty\<rparr>"

definition KVStore_get :: "KVStore \<Rightarrow> string \<Rightarrow> string option" where
  "KVStore_get s key =
     (case kv_store s key of
        None \<Rightarrow> None
      | Some vs \<Rightarrow> if vs = [] then None else Some (last vs))"

definition KVStore_put :: "KVStore \<Rightarrow> string \<Rightarrow> string \<Rightarrow> KVStore" where
  "KVStore_put s key v =
     s\<lparr>kv_store := (kv_store s)
        (key \<mapsto> (case kv_store s key of None \<Rightarrow> [] | Some vs \<Rightarrow> vs) @ [v])\<rparr>"

definition KVStore_remove :: "KVStore \<Rightarrow> string \<Rightarrow> bool \<times> KVStore" where
  "KVStore_remove s key =
     (case kv_store s key of
        None \<Rightarrow> (False, s)
      | Some vs \<Rightarrow> if vs = [] then (False, s)
                  else (True, s\<lparr>kv_store := (kv_store s)(key \<mapsto> butlast vs)\<rparr>))"

locale kv_register =
  fixes kget :: "'s \<Rightarrow> 'k \<Rightarrow> 'v option"
    and kput :: "'s \<Rightarrow> 'k \<Rightarrow> 'v \<Rightarrow> 's"
  assumes kget_put_same: "kget (kput s k v) k = Some v"
    and kget_put_other: "k' \<noteq> k \<Longrightarrow> kget (kput s k v) k' = kget s k'"
begin

lemma kget_put: "kget (kput s k v) k' = (if k' = k then Some v else kget s k')"
  by (simp add: kget_put_same kget_put_other)

lemma kget_fold_puts:
  "distinct (map fst ws) \<Longrightarrow>
   kget (fold (\<lambda>(k, v) s. kput s k v) ws s) k =
     (case map_of ws k of Some v \<Rightarrow> Some v | None \<Rightarrow> kget s k)"
proof (induction ws arbitrary: s)
  case (Cons w ws)
  show ?case
  proof (cases "k = fst w")
    case True
    with Cons.prems have "map_of ws k = None"
      by (simp add: map_of_eq_None_iff)
    with True Cons show ?thesis by (cases w) (simp add: kget_put)
  next
    case False
    with Cons show ?thesis by (cases w) (simp add: kget_put split: option.splits)
  qed
qed simp

end

interpretation kv: kv_register KVStore_get KVStore_put
  by unfold_locales (simp_all add: KVStore_get_def KVStore_put_def split: option.splits)

lemma KVStore_remove_put: "KVStore_remove (KVStore_put s key v) key = (True, s') \<Longrightarrow>
    KVStore_get s' k = KVStore_get s k"
  by (auto simp: KVStore_remove_def KVStore_put_def KVStore_get_def split: option.splits if_splits)

section \<open>VersionedKVStore\<close>

type_synonym VersionedValue = "Timestamp \<times> string"

record VersionedKVStore =
  versions :: "string \<rightharpoonup> VersionedValue list"
  lastReads :: "string \<rightharpoonup> (Timestamp \<rightharpoonup> Timestamp)"

definition VersionedKVStore_init :: VersionedKVStore where
  "VersionedKVStore_init = \<lparr>versions = Map.empty, lastReads = Map.empty\<rparr>"

text \<open>\<^verbatim>\<open>std::set::insert\<close> leaves the set alone when an equivalent element is present.\<close>

fun vset_insert :: "VersionedValue \<Rightarrow> VersionedValue list \<Rightarrow> VersionedValue list" where
  "vset_insert v [] = [v]"
| "vset_insert v (x # xs) =
     (if fst x < fst v then x # vset_insert v xs
      else if fst v < fst x then v # x # xs
      else x # xs)"

definition upper_bound :: "VersionedValue list \<Rightarrow> Timestamp \<Rightarrow> nat" where
  "upper_bound l t = length (takeWhile (\<lambda>v. fst v \<le> t) l)"

definition store_at :: "VersionedKVStore \<Rightarrow> string \<Rightarrow> VersionedValue list" where
  "store_at s key = (case versions s key of None \<Rightarrow> [] | Some l \<Rightarrow> l)"

definition inStore :: "VersionedKVStore \<Rightarrow> string \<Rightarrow> bool" where
  "inStore s key \<longleftrightarrow> versions s key \<noteq> None \<and> length (store_at s key) > 0"

text \<open>An iterator is a position in the ordered set, \<open>None\<close> the end iterator.\<close>

definition getValue :: "VersionedKVStore \<Rightarrow> string \<Rightarrow> Timestamp \<Rightarrow> nat option" where
  "getValue s key t =
     (let it = upper_bound (store_at s key) t in if it = 0 then None else Some (it - 1))"

definition get_latest :: "VersionedKVStore \<Rightarrow> string \<Rightarrow> VersionedValue option" where
  "get_latest s key = (if inStore s key then Some (last (store_at s key)) else None)"

definition get_at :: "VersionedKVStore \<Rightarrow> string \<Rightarrow> Timestamp \<Rightarrow> VersionedValue option" where
  "get_at s key t =
     (if inStore s key
      then (case getValue s key t of None \<Rightarrow> None | Some it \<Rightarrow> Some (store_at s key ! it))
      else None)"

text \<open>\<open>rng\<close> is the caller's pair, which keeps its second component when no later version exists.\<close>

definition getRange ::
  "VersionedKVStore \<Rightarrow> string \<Rightarrow> Timestamp \<Rightarrow> Timestamp \<times> Timestamp \<Rightarrow> bool \<times> Timestamp \<times> Timestamp"
where
  "getRange s key t rng =
     (if inStore s key
      then (case getValue s key t of
              None \<Rightarrow> (False, rng)
            | Some it \<Rightarrow>
                let l = store_at s key
                in (True, fst (l ! it),
                    if it + 1 < length l then fst (l ! (it + 1)) else snd rng))
      else (False, rng))"

definition VersionedKVStore_put ::
  "VersionedKVStore \<Rightarrow> string \<Rightarrow> string \<Rightarrow> Timestamp \<Rightarrow> VersionedKVStore" where
  "VersionedKVStore_put s key v t =
     s\<lparr>versions := (versions s)(key \<mapsto> vset_insert (t, v) (store_at s key))\<rparr>"

definition commitGet ::
  "VersionedKVStore \<Rightarrow> string \<Rightarrow> Timestamp \<Rightarrow> Timestamp \<Rightarrow> VersionedKVStore" where
  "commitGet s key readTime commit =
     (if inStore s key
      then (case getValue s key readTime of
              None \<Rightarrow> s
            | Some it \<Rightarrow>
                let w = fst (store_at s key ! it)
                in case lastReads s key of
                     None \<Rightarrow> s
                   | Some m \<Rightarrow>
                       (case m w of
                          None \<Rightarrow> s
                        | Some r \<Rightarrow>
                            if r < commit then s\<lparr>lastReads := (lastReads s)(key \<mapsto> m(w \<mapsto> commit))\<rparr>
                            else s))
      else s)"

definition getLastRead :: "VersionedKVStore \<Rightarrow> string \<Rightarrow> Timestamp option" where
  "getLastRead s key =
     (if inStore s key
      then (case lastReads s key of
              None \<Rightarrow> None
            | Some m \<Rightarrow> m (fst (last (store_at s key))))
      else None)"

definition getLastRead_at ::
  "VersionedKVStore \<Rightarrow> string \<Rightarrow> Timestamp \<Rightarrow> Timestamp option outcome" where
  "getLastRead_at s key t =
     (if inStore s key
      then (case getValue s key t of
              None \<Rightarrow> Inl (AssertFail ''it != store[key].end()'')
            | Some it \<Rightarrow>
                Inr (case lastReads s key of
                       None \<Rightarrow> None
                     | Some m \<Rightarrow> m (fst (store_at s key ! it))))
      else Inr None)"

section \<open>Well-formed version stores\<close>

definition vstore_wf :: "VersionedKVStore \<Rightarrow> bool" where
  "vstore_wf s \<longleftrightarrow> (\<forall>key. omap_wf (store_at s key))"

lemma fst_set_vset_insert [simp]: "fst ` set (vset_insert v l) = insert (fst v) (fst ` set l)"
  by (induction l) auto

lemma omap_wf_vset_insert [wf_intros]: "omap_wf l \<Longrightarrow> omap_wf (vset_insert v l)"
  unfolding omap_wf_def
proof (induction l)
  case (Cons x xs)
  have "fst x < fst q" if "fst x < fst v" and "q \<in> set (vset_insert v xs)" for q
  proof -
    have "fst q \<in> insert (fst v) (fst ` set xs)"
      using that(2) by (metis fst_set_vset_insert image_eqI)
    with that(1) Cons.prems show ?thesis by auto
  qed
  with Cons show ?case by (auto dest: less_trans)
qed simp

lemma set_vset_insert:
  "omap_wf l \<Longrightarrow> set (vset_insert v l) = (if fst v \<in> fst ` set l then set l else insert v (set l))"
proof (induction l)
  case (Cons x xs)
  then show ?case by (force simp: omap_wf_def)
qed simp

lemma vset_insert_nonempty [simp]: "vset_insert v l \<noteq> []"
  by (cases l) auto

lemma store_at_put [simp]:
  "store_at (VersionedKVStore_put s key v t) k =
     (if k = key then vset_insert (t, v) (store_at s key) else store_at s k)"
  by (simp add: VersionedKVStore_put_def store_at_def)

lemma store_at_commitGet [simp]: "store_at (commitGet s key rt c) k = store_at s k"
  by (simp add: commitGet_def store_at_def Let_def split: option.splits)

lemma inStore_iff: "inStore s key \<longleftrightarrow> store_at s key \<noteq> []"
  by (auto simp: inStore_def store_at_def split: option.splits)

lemma vstore_wf_init [simp]: "vstore_wf VersionedKVStore_init"
  by (simp add: vstore_wf_def store_at_def VersionedKVStore_init_def)

lemma vstore_wf_put [simp, wf_intros]: "vstore_wf s \<Longrightarrow> vstore_wf (VersionedKVStore_put s key v t)"
  by (simp add: vstore_wf_def omap_wf_vset_insert)

lemma vstore_wf_commitGet [simp, wf_intros]: "vstore_wf s \<Longrightarrow> vstore_wf (commitGet s key rt c)"
  by (simp add: vstore_wf_def)

section \<open>Reading at a timestamp\<close>

text \<open>
  \<open>newest_at l t p\<close>: among the versions \<open>l\<close>, \<open>p\<close> is the newest one written at or before \<open>t\<close>. It is
  the abstract meaning of the iterator arithmetic in \<open>getValue\<close>.
\<close>

definition newest_at :: "VersionedValue list \<Rightarrow> Timestamp \<Rightarrow> VersionedValue \<Rightarrow> bool" where
  "newest_at l t p \<longleftrightarrow> p \<in> set l \<and> fst p \<le> t \<and> (\<forall>q\<in>set l. fst q \<le> t \<longrightarrow> fst q \<le> fst p)"

lemma newest_at_unique:
  "omap_wf l \<Longrightarrow> newest_at l t p \<Longrightarrow> newest_at l t q \<Longrightarrow> p = q"
  by (rule omap_wf_eqI [of l]) (auto simp: newest_at_def intro: antisym)

lemma nth_upper_bound:
  assumes "upper_bound l t \<noteq> 0"
  shows "l ! (upper_bound l t - 1) = last (takeWhile (\<lambda>v. fst v \<le> t) l)"
    and "last (takeWhile (\<lambda>v. fst v \<le> t) l) \<in> set l"
    and "fst (last (takeWhile (\<lambda>v. fst v \<le> t) l)) \<le> t"
proof -
  let ?tw = "takeWhile (\<lambda>v. fst v \<le> t) l"
  have ne: "?tw \<noteq> []" using assms by (auto simp: upper_bound_def)
  then have mem: "last ?tw \<in> set ?tw" by simp
  show "l ! (upper_bound l t - 1) = last ?tw"
    using ne by (simp add: upper_bound_def last_conv_nth takeWhile_nth)
  show "last ?tw \<in> set l" and "fst (last ?tw) \<le> t"
    using set_takeWhileD [OF mem] by simp_all
qed

lemma takeWhile_wf:
  assumes "omap_wf l"
  shows "q \<in> set (takeWhile (\<lambda>v. fst v \<le> t) l) \<longleftrightarrow> q \<in> set l \<and> fst q \<le> t"
  using assms
proof (induction l)
  case (Cons x xs)
  then have "\<forall>y\<in>set xs. fst x < fst y" and "omap_wf xs"
    by (simp_all add: omap_wf_def)
  with Cons.IH show ?case by fastforce
qed simp

lemma last_takeWhile_newest:
  assumes "omap_wf l" and "upper_bound l t \<noteq> 0"
  shows "newest_at l t (last (takeWhile (\<lambda>v. fst v \<le> t) l))"
proof -
  let ?tw = "takeWhile (\<lambda>v. fst v \<le> t) l"
  have ne: "?tw \<noteq> []" using assms(2) by (auto simp: upper_bound_def)
  have "fst q \<le> fst (last ?tw)" if "q \<in> set ?tw" for q
    using that assms(1) by (simp add: omap_wf_last)
  with nth_upper_bound [OF assms(2)] assms(1) show ?thesis
    by (auto simp: newest_at_def takeWhile_wf)
qed

lemma upper_bound_0_iff:
  assumes "omap_wf l"
  shows "upper_bound l t = 0 \<longleftrightarrow> (\<forall>q\<in>set l. t < fst q)"
proof -
  have "upper_bound l t = 0 \<longleftrightarrow> set (takeWhile (\<lambda>v. fst v \<le> t) l) = {}"
    by (simp add: upper_bound_def)
  also have "\<dots> \<longleftrightarrow> (\<forall>q\<in>set l. t < fst q)"
    using takeWhile_wf [OF assms] by (metis all_not_in_conv not_le)
  finally show ?thesis .
qed

lemma get_at_eq_Some:
  assumes "vstore_wf s"
  shows "get_at s key t = Some p \<longleftrightarrow> newest_at (store_at s key) t p"
proof -
  let ?l = "store_at s key"
  have wf: "omap_wf ?l" using assms by (simp add: vstore_wf_def)
  show ?thesis
  proof (cases "upper_bound ?l t = 0")
    case True
    then have "\<not> newest_at ?l t p"
      using wf by (force simp: upper_bound_0_iff newest_at_def)
    with True show ?thesis by (simp add: get_at_def getValue_def)
  next
    case False
    then have ne: "?l \<noteq> []" by (auto simp: upper_bound_def)
    have "get_at s key t = Some (last (takeWhile (\<lambda>v. fst v \<le> t) ?l))"
      using False ne nth_upper_bound(1) [OF False]
      by (simp add: get_at_def getValue_def inStore_iff Let_def)
    then show ?thesis
      using last_takeWhile_newest [OF wf False] newest_at_unique [OF wf] by (metis option.inject)
  qed
qed

lemma get_at_eq_None:
  assumes "vstore_wf s"
  shows "get_at s key t = None \<longleftrightarrow> (\<forall>q\<in>set (store_at s key). t < fst q)"
proof -
  have "omap_wf (store_at s key)" using assms by (simp add: vstore_wf_def)
  then show ?thesis
    using upper_bound_0_iff [of "store_at s key" t]
    by (auto simp: get_at_def getValue_def inStore_iff Let_def)
qed

lemma get_latest_eq_Some:
  assumes "vstore_wf s"
  shows "get_latest s key = Some p \<longleftrightarrow>
    p \<in> set (store_at s key) \<and> (\<forall>q\<in>set (store_at s key). fst q \<le> fst p)"
proof -
  let ?l = "store_at s key"
  have wf: "omap_wf ?l" using assms by (simp add: vstore_wf_def)
  have "p = last ?l" if "p \<in> set ?l" and "\<forall>q\<in>set ?l. fst q \<le> fst p"
  proof (rule omap_wf_eqI [OF wf])
    show "last ?l \<in> set ?l" using that(1) by (cases ?l) auto
    then show "fst p = fst (last ?l)"
      using that omap_wf_last [OF wf that(1)] by (intro antisym) blast+
  qed (use that in simp)
  then show ?thesis
    using omap_wf_last [OF wf] by (auto simp: get_latest_def inStore_iff)
qed

lemma getRange_found:
  assumes "vstore_wf s" and "getRange s key t rng = (True, lo, hi)"
  shows "\<exists>p. newest_at (store_at s key) t p \<and> fst p = lo"
    and "hi = snd rng \<and> (\<forall>q\<in>set (store_at s key). fst q \<le> lo) \<or>
         hi \<in> fst ` set (store_at s key) \<and> t < hi \<and>
           (\<forall>q\<in>set (store_at s key). lo < fst q \<longrightarrow> hi \<le> fst q)"
proof -
  let ?l = "store_at s key" and ?n = "upper_bound (store_at s key) t"
  have wf: "omap_wf ?l" using assms(1) by (simp add: vstore_wf_def)
  have n: "?n \<noteq> 0"
    using assms(2) by (auto simp: getRange_def getValue_def Let_def split: if_splits)
  have lo: "lo = fst (last (takeWhile (\<lambda>v. fst v \<le> t) ?l))"
    and hi: "hi = (if ?n < length ?l then fst (?l ! ?n) else snd rng)"
    using assms(2) n nth_upper_bound(1) [OF n]
    by (auto simp: getRange_def getValue_def Let_def split: if_splits)
  note newest = last_takeWhile_newest [OF wf n]
  show "\<exists>p. newest_at ?l t p \<and> fst p = lo"
    using newest lo by blast
  show "hi = snd rng \<and> (\<forall>q\<in>set ?l. fst q \<le> lo) \<or>
         hi \<in> fst ` set ?l \<and> t < hi \<and> (\<forall>q\<in>set ?l. lo < fst q \<longrightarrow> hi \<le> fst q)"
  proof (cases "?n < length ?l")
    case False
    then have "takeWhile (\<lambda>v. fst v \<le> t) ?l = ?l"
      by (metis length_takeWhile_le order_antisym_conv takeWhile_eq_take take_all upper_bound_def
          not_less)
    with False hi lo show ?thesis by (simp add: omap_wf_last [OF wf])
  next
    case True
    then have gt: "\<not> fst (?l ! ?n) \<le> t"
      unfolding upper_bound_def by (rule nth_length_takeWhile)
    have "fst (?l ! ?n) \<le> fst q" if mem: "q \<in> set ?l" and lt: "lo < fst q" for q
    proof -
      obtain i where i: "i < length ?l" "q = ?l ! i" 
        using mem unfolding in_set_conv_nth by blast
      have "\<not> i < ?n"
      proof
        assume "i < ?n"
        then have "q \<in> set (takeWhile (\<lambda>v. fst v \<le> t) ?l)"
          using i by (metis nth_mem takeWhile_nth upper_bound_def)
        with lt lo show False
          using omap_wf_last [OF omap_wf_takeWhile [OF wf]] by (metis not_less)
      qed
      then show ?thesis
        using i wf True by (cases "i = ?n")
          (auto simp: omap_wf_def sorted_wrt_iff_nth_less intro: less_imp_le)
    qed
    with True hi gt show ?thesis by auto
  qed
qed

lemma newest_at_insert:
  assumes "omap_wf l" and "t \<notin> fst ` set l"
  shows "newest_at (vset_insert (t, v) l) t' p \<longleftrightarrow>
    (if t \<le> t' \<and> (\<forall>q\<in>set l. fst q \<le> t' \<longrightarrow> fst q < t) then p = (t, v) else newest_at l t' p)"
proof -
  have set: "set (vset_insert (t, v) l) = insert (t, v) (set l)"
    using assms by (simp add: set_vset_insert)
  show ?thesis
  proof (cases "t \<le> t' \<and> (\<forall>q\<in>set l. fst q \<le> t' \<longrightarrow> fst q < t)")
    case True
    then have "newest_at (vset_insert (t, v) l) t' (t, v)"
      by (auto simp: newest_at_def set)
    then show ?thesis
      using True newest_at_unique [OF omap_wf_vset_insert [OF assms(1)]] by metis
  next
    case False
    have fresh: "fst q \<noteq> t" if "q \<in> set l" for q using that assms(2) by blast
    show ?thesis
    proof (cases "t \<le> t'")
      case True
      with False obtain r where r: "r \<in> set l" "fst r \<le> t'" "t < fst r"
        using fresh by (metis not_less_iff_gr_or_eq)
      have "newest_at (vset_insert (t, v) l) t' p \<longleftrightarrow> newest_at l t' p"
      proof
        assume new: "newest_at (vset_insert (t, v) l) t' p"
        then have "fst r \<le> fst p" using r by (simp add: newest_at_def set)
        with r(3) have "p \<noteq> (t, v)" by auto
        with new show "newest_at l t' p" by (simp add: newest_at_def set)
      next
        assume old: "newest_at l t' p"
        then have "fst r \<le> fst p" using r by (simp add: newest_at_def)
        with r(3) have "t \<le> fst p" by simp
        with old show "newest_at (vset_insert (t, v) l) t' p"
          by (simp add: newest_at_def set)
      qed
      with r show ?thesis by auto
    next
      case False
      then have "newest_at (vset_insert (t, v) l) t' p \<longleftrightarrow> newest_at l t' p"
        unfolding newest_at_def set ball_simps insert_iff by (metis fst_conv)
      with False show ?thesis by simp
    qed
  qed
qed

text \<open>
  The interface the optimistic stores rely on: a put at a fresh timestamp is visible to the reads
  at or after it until the next version, and to no other read.
\<close>

locale version_index =
  fixes wf :: "'s \<Rightarrow> bool"
    and vals :: "'s \<Rightarrow> 'k \<Rightarrow> ('t::linorder \<times> 'v) list"
    and vput :: "'s \<Rightarrow> 'k \<Rightarrow> 'v \<Rightarrow> 't \<Rightarrow> 's"
    and latest :: "'s \<Rightarrow> 'k \<Rightarrow> ('t \<times> 'v) option"
  assumes wf_put: "wf s \<Longrightarrow> wf (vput s k v t)"
    and keys_put: "wf s \<Longrightarrow>
      fst ` set (vals (vput s k v t) k') = (if k' = k then {t} else {}) \<union> fst ` set (vals s k')"
    and mem_put: "wf s \<Longrightarrow> t \<notin> fst ` set (vals s k) \<Longrightarrow> (t, v) \<in> set (vals (vput s k v t) k)"
    and keep_put: "wf s \<Longrightarrow> set (vals s k') \<subseteq> set (vals (vput s k v t) k')"
    and latest_iff: "wf s \<Longrightarrow> latest s k = Some p \<longleftrightarrow>
      p \<in> set (vals s k) \<and> (\<forall>q\<in>set (vals s k). fst q \<le> fst p)"
    and latest_None: "wf s \<Longrightarrow> latest s k = None \<longleftrightarrow> vals s k = []"
begin

definition puts :: "('k \<times> 'v) list \<Rightarrow> 't \<Rightarrow> 's \<Rightarrow> 's" where
  "puts ws t s = fold (\<lambda>(k, v) s. vput s k v t) ws s"

lemma wf_puts: "wf s \<Longrightarrow> wf (puts ws t s)"
  unfolding puts_def by (induction ws arbitrary: s) (auto intro: wf_put)

lemma keys_puts:
  "wf s \<Longrightarrow> fst ` set (vals (puts ws t s) k) =
     (if k \<in> fst ` set ws then {t} else {}) \<union> fst ` set (vals s k)"
  unfolding puts_def
proof (induction ws arbitrary: s)
  case (Cons w ws)
  show ?case
    using Cons.IH [OF wf_put [OF Cons.prems]]
    by (simp add: case_prod_unfold keys_put [OF Cons.prems] insert_commute)
qed simp

lemma keep_puts: "wf s \<Longrightarrow> set (vals s k) \<subseteq> set (vals (puts ws t s) k)"
  unfolding puts_def
proof (induction ws arbitrary: s)
  case (Cons w ws)
  then show ?case
    using keep_put [of s k "fst w" "snd w" t] Cons.IH [of "vput s (fst w) (snd w) t"]
    by (simp add: wf_put case_prod_unfold subset_trans)
qed simp

lemma mem_puts:
  "wf s \<Longrightarrow> distinct (map fst ws) \<Longrightarrow> (k, v) \<in> set ws \<Longrightarrow> t \<notin> fst ` set (vals s k) \<Longrightarrow>
   (t, v) \<in> set (vals (puts ws t s) k)"
proof (induction ws arbitrary: s)
  case (Cons w ws)
  obtain k0 v0 where w: "w = (k0, v0)" by (cases w)
  have step: "puts (w # ws) t s = puts ws t (vput s k0 v0 t)"
    by (simp add: puts_def w)
  show ?case
  proof (cases "w = (k, v)")
    case True
    then have "(t, v) \<in> set (vals (vput s k0 v0 t) k)"
      using Cons.prems w by (simp add: mem_put)
    then show ?thesis
      using keep_puts [OF wf_put [OF Cons.prems(1)]] step by (metis subsetD)
  next
    case False
    then have "(k, v) \<in> set ws" and "k \<noteq> k0"
      using Cons.prems w by (force, force)
    then have "t \<notin> fst ` set (vals (vput s k0 v0 t) k)"
      using Cons.prems by (simp add: keys_put)
    then show ?thesis
      using Cons.IH [OF wf_put [OF Cons.prems(1)]] Cons.prems \<open>(k, v) \<in> set ws\<close> step by simp
  qed
qed simp

lemma latest_puts:
  assumes "wf s" and "distinct (map fst ws)" and "(k, v) \<in> set ws"
    and "\<forall>q\<in>set (vals s k). fst q < t"
  shows "latest (puts ws t s) k = Some (t, v)"
proof -
  have fresh: "t \<notin> fst ` set (vals s k)" using assms(4) by auto
  have "fst q \<le> t" if "q \<in> set (vals (puts ws t s) k)" for q
  proof -
    have "fst q \<in> fst ` set (vals (puts ws t s) k)" using that by blast
    then show ?thesis using keys_puts [OF assms(1)] assms(4) by (auto split: if_splits)
  qed
  then show ?thesis
    using mem_puts [OF assms(1-3) fresh] by (simp add: latest_iff wf_puts [OF assms(1)])
qed

lemma latest_puts_other:
  assumes "wf s" and "k \<notin> fst ` set ws" and "\<And>s k' v. k' \<noteq> k \<Longrightarrow> vals (vput s k' v t) k = vals s k"
  shows "vals (puts ws t s) k = vals s k"
  using assms(2) unfolding puts_def
  by (induction ws arbitrary: s) (auto simp: assms(3))

end

interpretation vs: version_index vstore_wf store_at VersionedKVStore_put get_latest
proof unfold_locales
  fix s k k' v t p
  assume wf: "vstore_wf s"
  then have wfk: "omap_wf (store_at s key)" for key by (simp add: vstore_wf_def)
  show "vstore_wf (VersionedKVStore_put s k v t)" using wf by simp
  show "fst ` set (store_at (VersionedKVStore_put s k v t) k') =
      (if k' = k then {t} else {}) \<union> fst ` set (store_at s k')"
    by simp
  show "t \<notin> fst ` set (store_at s k) \<Longrightarrow> (t, v) \<in> set (store_at (VersionedKVStore_put s k v t) k)"
    by (simp add: set_vset_insert [OF wfk])
  show "set (store_at s k') \<subseteq> set (store_at (VersionedKVStore_put s k v t) k')"
    by (auto simp: set_vset_insert [OF wfk])
  show "get_latest s k = Some p \<longleftrightarrow>
      p \<in> set (store_at s k) \<and> (\<forall>q\<in>set (store_at s k). fst q \<le> fst p)"
    by (rule get_latest_eq_Some [OF wf])
  show "get_latest s k = None \<longleftrightarrow> store_at s k = []"
    by (simp add: get_latest_def inStore_iff)
qed

section \<open>Recorded reads\<close>

text \<open>Every way in which the code changes a version store after its construction.\<close>

inductive vstore_reach :: "VersionedKVStore \<Rightarrow> bool" where
  vr_init: "vstore_reach VersionedKVStore_init"
| vr_put: "vstore_reach s \<Longrightarrow> vstore_reach (VersionedKVStore_put s key v t)"
| vr_commitGet: "vstore_reach s \<Longrightarrow> vstore_reach (commitGet s key rt c)"

lemma lastReads_put [frame_simps]: "lastReads (VersionedKVStore_put s key v t) = lastReads s"
  by (simp add: VersionedKVStore_put_def)

lemma commitGet_no_reads: "lastReads s = Map.empty \<Longrightarrow> commitGet s key rt c = s"
  by (simp add: commitGet_def Let_def split: option.splits)

lemma vstore_reach_wf: "vstore_reach s \<Longrightarrow> vstore_wf s"
  by (induction rule: vstore_reach.induct) simp_all

lemma vstore_reach_lastReads: "vstore_reach s \<Longrightarrow> lastReads s = Map.empty"
  by (induction rule: vstore_reach.induct)
    (simp_all add: VersionedKVStore_init_def lastReads_put commitGet_no_reads)

text \<open>
  What a version store returns, in every state it reaches: a read at \<open>t\<close> returns the newest
  version written at or before \<open>t\<close> and fails exactly when there is none; a read without a timestamp
  returns the newest version of all.
\<close>

theorem version_store_reads:
  assumes "vstore_reach s"
  shows "(get_at s key t = Some p \<longleftrightarrow> newest_at (store_at s key) t p) \<and>
    (get_at s key t = None \<longleftrightarrow> (\<forall>q\<in>set (store_at s key). t < fst q)) \<and>
    (get_latest s key = Some p \<longleftrightarrow> p \<in> set (store_at s key) \<and> (\<forall>q\<in>set (store_at s key). fst q \<le> fst p))"
  using get_at_eq_Some get_at_eq_None get_latest_eq_Some vstore_reach_wf [OF assms] by blast

definition ex_vstore :: VersionedKVStore where
  "ex_vstore = VersionedKVStore_put (VersionedKVStore_put VersionedKVStore_init ''k'' ''a'' (Timestamp 1 0)) ''k'' ''b''
     (Timestamp 5 0)"

lemma ex_vstore_reach: "vstore_reach ex_vstore"
  unfolding ex_vstore_def by (intro vr_put vr_init)

theorem version_store_reads_witness:
  "get_at ex_vstore ''k'' (Timestamp 3 0) = Some (Timestamp 1 0, ''a'')"
proof -
  have "newest_at (store_at ex_vstore ''k'') (Timestamp 3 0) (Timestamp 1 0, ''a'')"
    by (simp add: ex_vstore_def newest_at_def store_at_def VersionedKVStore_put_def VersionedKVStore_init_def
        less_eq_Timestamp_def less_Timestamp_def Timestamp_lt_def Timestamp_le_def word_less_nat_alt word_le_nat_alt)
  then show ?thesis using version_store_reads [OF ex_vstore_reach] by blast
qed

text \<open>
  Committed reads are never recorded: \<^verbatim>\<open>commitGet\<close> only updates an entry that is already there
  and nothing creates one, so in every state a version store reaches, it changes nothing and
  \<^verbatim>\<open>getLastRead\<close> finds nothing.
\<close>

theorem reads_never_recorded:
  assumes "vstore_reach s"
  shows "commitGet s key rt c = s \<and> getLastRead s key = None"
  using vstore_reach_lastReads [OF assms] commitGet_no_reads by (simp add: getLastRead_def)

theorem reads_never_recorded_witness:
  "getLastRead (commitGet ex_vstore ''k'' (Timestamp 1 0) (Timestamp 2 0)) ''k'' = None"
  using reads_never_recorded [OF ex_vstore_reach] by metis


end
