(* ===== verification/Lock_Manager.thy ===== *)
theory Lock_Manager
  imports Tapir_Types
begin

text \<open>
  The multi-reader, single-writer lock server of \<^verbatim>\<open>store/common/backend/lockserver.cc\<close>. A call
  reads the clock at most twice: \<open>now\<close> is the reading that prunes the wait queue
  (\<^verbatim>\<open>tryAcquireLock\<close>, \<^verbatim>\<open>isWriteNext\<close>), \<open>wt\<close> the one that the \<^verbatim>\<open>Waiter\<close> constructor
  takes. The invariant \<open>lock_wf\<close> ties the lock state to its holders and the wait queue to the map
  of waiters; \<open>readLocked\<close> and \<open>writeLocked\<close> are what a lock means to its clients, and the locale
  \<open>lock_service\<close> is the contract that the transactional store above relies on.
\<close>

section \<open>State\<close>

datatype LockState = UNLOCKED | LOCKED_FOR_READ | LOCKED_FOR_WRITE | LOCKED_FOR_READ_WRITE

record Waiter =
  w_write :: bool
  waitTime :: timeval

record Lock =
  lstate :: LockState
  holders :: "u64 set"
  waitQ :: "u64 list"
  waiters :: "u64 \<rightharpoonup> Waiter"

record LockServer =
  locks :: "string \<rightharpoonup> Lock"
  readers :: u64
  writers :: u64

definition Lock_new :: Lock where
  "Lock_new = \<lparr>lstate = UNLOCKED, holders = {}, waitQ = [], waiters = Map.empty\<rparr>"

definition LockServer_init :: LockServer where
  "LockServer_init = \<lparr>locks = Map.empty, readers = 0, writers = 0\<rparr>"

text \<open>\<^verbatim>\<open>locks[lock]\<close>, which creates an unlocked lock for a new key.\<close>

definition lock_at :: "LockServer \<Rightarrow> string \<Rightarrow> Lock" where
  "lock_at s lock = (case locks s lock of None \<Rightarrow> Lock_new | Some l \<Rightarrow> l)"

definition set_lock :: "LockServer \<Rightarrow> string \<Rightarrow> Lock \<Rightarrow> LockServer" where
  "set_lock s lock l = s\<lparr>locks := (locks s)(lock \<mapsto> l)\<rparr>"

section \<open>The wait queue\<close>

definition LOCK_WAIT_TIMEOUT :: int where
  "LOCK_WAIT_TIMEOUT = 5000"

definition checkTimeout :: "Waiter \<Rightarrow> timeval \<Rightarrow> bool outcome" where
  "checkTimeout w now =
     (if tv_sec now > tv_sec (waitTime w) then Inr True
      else if tv_usec now > tv_usec (waitTime w) \<and> tv_sec now = tv_sec (waitTime w)
      then Inr (tv_usec now - tv_usec (waitTime w) > LOCK_WAIT_TIMEOUT)
      else Inl (AssertFail ''now after waitTime''))"

definition waitForLock :: "timeval \<Rightarrow> Lock \<Rightarrow> u64 \<Rightarrow> bool \<Rightarrow> Lock" where
  "waitForLock wt l requester write =
     (if waiters l requester \<noteq> None then l
      else l\<lparr>waiters := (waiters l)(requester \<mapsto> \<lparr>w_write = write, waitTime = wt\<rparr>),
             waitQ := waitQ l @ [requester]\<rparr>)"

text \<open>
  The loop \<^verbatim>\<open>while (waiters[w].checkTimeout(now))\<close> of both \<^verbatim>\<open>tryAcquireLock\<close> and
  \<^verbatim>\<open>isWriteNext\<close>. \<^verbatim>\<open>waiters[w]\<close> of an absent waiter is a \<^verbatim>\<open>Waiter\<close> whose
  \<^verbatim>\<open>waitTime\<close> was never written.
\<close>

fun prune :: "timeval \<Rightarrow> u64 list \<Rightarrow> (u64 \<rightharpoonup> Waiter) \<Rightarrow> (u64 list \<times> (u64 \<rightharpoonup> Waiter)) outcome" where
  "prune now [] ws = Inr ([], ws)"
| "prune now (w # q) ws =
     (case ws w of
        None \<Rightarrow> Inl (Undefined ''uninitialised waitTime'')
      | Some wr \<Rightarrow>
          obind (checkTimeout wr now) (\<lambda>expired.
            if \<not> expired then Inr (w # q, ws)
            else if q = [] then Inr ([], ws(w := None))
            else obind (assert_that ((ws(w := None)) (hd q) \<noteq> None) ''front is a waiter'')
              (\<lambda>_. prune now q (ws(w := None)))))"

definition tryAcquireLock :: "timeval \<Rightarrow> timeval \<Rightarrow> Lock \<Rightarrow> u64 \<Rightarrow> bool \<Rightarrow> (bool \<times> Lock) outcome" where
  "tryAcquireLock now wt l requester write =
     (if waitQ l = [] then Inr (True, l)
      else obind (prune now (waitQ l) (waiters l)) (\<lambda>(q, ws).
        let l' = l\<lparr>waitQ := q, waiters := ws\<rparr> in
        if q = [] then Inr (True, l')
        else if hd q = requester then
          (case ws requester of
             None \<Rightarrow> Inl (AssertFail ''requester is a waiter'')
           | Some wr \<Rightarrow>
               obind (assert_that (w_write wr = write) ''waiter mode'')
                 (\<lambda>_. Inr (True, l'\<lparr>waitQ := tl q, waiters := ws(requester := None)\<rparr>)))
        else Inr (False, waitForLock wt l' requester write)))"

definition isWriteNext :: "timeval \<Rightarrow> Lock \<Rightarrow> (bool \<times> Lock) outcome" where
  "isWriteNext now l =
     (if waitQ l = [] then Inr (False, l)
      else obind (prune now (waitQ l) (waiters l)) (\<lambda>(q, ws).
        let l' = l\<lparr>waitQ := q, waiters := ws\<rparr> in
        if q = [] then Inr (False, l')
        else (case ws (hd q) of
                None \<Rightarrow> Inl (AssertFail ''front is a waiter'')
              | Some wr \<Rightarrow> Inr (w_write wr, l'))))"

section \<open>The four operations\<close>

definition lockForRead ::
  "timeval \<Rightarrow> timeval \<Rightarrow> LockServer \<Rightarrow> string \<Rightarrow> u64 \<Rightarrow> (bool \<times> LockServer) outcome" where
  "lockForRead now wt s lock requester =
     (let l = lock_at s lock in
      case lstate l of
        UNLOCKED \<Rightarrow>
          obind (tryAcquireLock now wt l requester False) (\<lambda>(got, l').
            if got then
              obind (assert_that (card (holders l') = 0) ''no holders'') (\<lambda>_.
                Inr (True, (set_lock s lock (l'\<lparr>lstate := LOCKED_FOR_READ,
                                              holders := insert requester (holders l')\<rparr>))
                             \<lparr>readers := readers s + 1\<rparr>))
            else Inr (False, set_lock s lock l'))
      | LOCKED_FOR_READ \<Rightarrow>
          if requester \<in> holders l then Inr (True, set_lock s lock l)
          else obind (isWriteNext now l) (\<lambda>(wn, l').
            if wn then Inr (False, set_lock s lock (waitForLock wt l' requester False))
            else Inr (True, (set_lock s lock (l'\<lparr>holders := insert requester (holders l')\<rparr>))
                              \<lparr>readers := readers s + 1\<rparr>))
      | _ \<Rightarrow>
          if requester \<in> holders l
          then Inr (True, (set_lock s lock (l\<lparr>lstate := LOCKED_FOR_READ_WRITE\<rparr>))
                            \<lparr>readers := readers s + 1\<rparr>)
          else obind (assert_that (card (holders l) = 1) ''one holder'') (\<lambda>_.
            Inr (False, set_lock s lock (waitForLock wt l requester False))))"

definition lockForWrite ::
  "timeval \<Rightarrow> timeval \<Rightarrow> LockServer \<Rightarrow> string \<Rightarrow> u64 \<Rightarrow> (bool \<times> LockServer) outcome" where
  "lockForWrite now wt s lock requester =
     (let l = lock_at s lock in
      case lstate l of
        UNLOCKED \<Rightarrow>
          obind (tryAcquireLock now wt l requester True) (\<lambda>(got, l').
            if got then
              obind (assert_that (card (holders l') = 0) ''no holders'') (\<lambda>_.
                Inr (True, (set_lock s lock (l'\<lparr>lstate := LOCKED_FOR_WRITE,
                                              holders := insert requester (holders l')\<rparr>))
                             \<lparr>writers := writers s + 1\<rparr>))
            else Inr (False, set_lock s lock l'))
      | LOCKED_FOR_READ \<Rightarrow>
          if card (holders l) = 1 \<and> requester \<in> holders l
          then Inr (True, (set_lock s lock (l\<lparr>lstate := LOCKED_FOR_READ_WRITE\<rparr>))
                            \<lparr>writers := writers s + 1\<rparr>)
          else Inr (False, set_lock s lock (waitForLock wt l requester True))
      | _ \<Rightarrow>
          obind (assert_that (card (holders l) = 1) ''one holder'') (\<lambda>_.
            if requester \<in> holders l then Inr (True, set_lock s lock l)
            else Inr (False, set_lock s lock (waitForLock wt l requester True))))"

definition releaseForRead :: "LockServer \<Rightarrow> string \<Rightarrow> u64 \<Rightarrow> LockServer outcome" where
  "releaseForRead s lock holder =
     (case locks s lock of
        None \<Rightarrow> Inr s
      | Some l \<Rightarrow>
          if holder \<notin> holders l then Inr s
          else (case lstate l of
                  UNLOCKED \<Rightarrow> Inr s
                | LOCKED_FOR_WRITE \<Rightarrow> Inr s
                | LOCKED_FOR_READ \<Rightarrow>
                    let hs = holders l - {holder} in
                    Inr ((set_lock s lock
                           (l\<lparr>holders := hs, lstate := if hs = {} then UNLOCKED else LOCKED_FOR_READ\<rparr>))
                         \<lparr>readers := readers s - 1\<rparr>)
                | LOCKED_FOR_READ_WRITE \<Rightarrow>
                    Inr ((set_lock s lock (l\<lparr>lstate := LOCKED_FOR_WRITE\<rparr>))
                         \<lparr>readers := readers s - 1\<rparr>)))"

definition releaseForWrite :: "LockServer \<Rightarrow> string \<Rightarrow> u64 \<Rightarrow> LockServer outcome" where
  "releaseForWrite s lock holder =
     (case locks s lock of
        None \<Rightarrow> Inr s
      | Some l \<Rightarrow>
          if holder \<notin> holders l then Inr s
          else (case lstate l of
                  UNLOCKED \<Rightarrow> Inr s
                | LOCKED_FOR_READ \<Rightarrow> Inr s
                | LOCKED_FOR_WRITE \<Rightarrow>
                    obind (assert_that (card (holders l - {holder}) = 0) ''no holders'') (\<lambda>_.
                      Inr ((set_lock s lock (l\<lparr>holders := holders l - {holder}, lstate := UNLOCKED\<rparr>))
                           \<lparr>writers := writers s - 1\<rparr>))
                | LOCKED_FOR_READ_WRITE \<Rightarrow>
                    obind (assert_that (card (holders l) = 1) ''one holder'') (\<lambda>_.
                      Inr ((set_lock s lock (l\<lparr>lstate := LOCKED_FOR_READ\<rparr>))
                           \<lparr>writers := writers s - 1\<rparr>))))"

section \<open>Invariant\<close>

fun holders_ok :: "LockState \<Rightarrow> u64 set \<Rightarrow> bool" where
  "holders_ok UNLOCKED hs \<longleftrightarrow> hs = {}"
| "holders_ok LOCKED_FOR_READ hs \<longleftrightarrow> hs \<noteq> {}"
| "holders_ok LOCKED_FOR_WRITE hs \<longleftrightarrow> card hs = 1"
| "holders_ok LOCKED_FOR_READ_WRITE hs \<longleftrightarrow> card hs = 1"

definition queue_wf :: "u64 list \<Rightarrow> (u64 \<rightharpoonup> Waiter) \<Rightarrow> bool" where
  "queue_wf q ws \<longleftrightarrow> distinct q \<and> set q = dom ws"

definition lock_wf :: "Lock \<Rightarrow> bool" where
  "lock_wf l \<longleftrightarrow> holders_ok (lstate l) (holders l) \<and> queue_wf (waitQ l) (waiters l)"

definition locks_wf :: "LockServer \<Rightarrow> bool" where
  "locks_wf s \<longleftrightarrow> (\<forall>lock. lock_wf (lock_at s lock))"

fun rd_held :: "LockState \<Rightarrow> u64 set \<Rightarrow> u64 set" where
  "rd_held LOCKED_FOR_READ hs = hs"
| "rd_held LOCKED_FOR_READ_WRITE hs = hs"
| "rd_held _ hs = {}"

fun wr_held :: "LockState \<Rightarrow> u64 set \<Rightarrow> u64 set" where
  "wr_held LOCKED_FOR_WRITE hs = hs"
| "wr_held LOCKED_FOR_READ_WRITE hs = hs"
| "wr_held _ hs = {}"

definition readLocked :: "LockServer \<Rightarrow> string \<Rightarrow> u64 set" where
  "readLocked s lock = rd_held (lstate (lock_at s lock)) (holders (lock_at s lock))"

definition writeLocked :: "LockServer \<Rightarrow> string \<Rightarrow> u64 set" where
  "writeLocked s lock = wr_held (lstate (lock_at s lock)) (holders (lock_at s lock))"

text \<open>The two assertions that a caller can reach on a well-formed lock.\<close>

definition lock_fault :: "fault \<Rightarrow> bool" where
  "lock_fault e \<longleftrightarrow> e \<in> {AssertFail ''now after waitTime'', AssertFail ''waiter mode''}"

lemma lock_at_set_lock [simp]: "lock_at (set_lock s k l) k' = (if k' = k then l else lock_at s k')"
  by (simp add: lock_at_def set_lock_def)

lemma lock_at_counters [simp]:
  "lock_at (s\<lparr>readers := r\<rparr>) k = lock_at s k"
  "lock_at (s\<lparr>writers := r\<rparr>) k = lock_at s k"
  by (simp_all add: lock_at_def)

lemma lock_at_Some: "locks s k = Some l \<Longrightarrow> lock_at s k = l"
  by (simp add: lock_at_def)

lemma lock_at_None: "locks s k = None \<Longrightarrow> lock_at s k = Lock_new"
  by (simp add: lock_at_def)

lemma Lock_new_simps [simp]:
  "lstate Lock_new = UNLOCKED" "holders Lock_new = {}" "waitQ Lock_new = []"
  "waiters Lock_new = Map.empty"
  by (simp_all add: Lock_new_def)

lemma locks_wf_init [simp, wf_intros]: "locks_wf LockServer_init"
  by (simp add: locks_wf_def lock_at_def LockServer_init_def lock_wf_def queue_wf_def)

lemma queue_wf_tl: "queue_wf (w # q) ws \<Longrightarrow> queue_wf q (ws(w := None))"
  by (auto simp: queue_wf_def)

lemma checkTimeout_fault: "checkTimeout w now = Inl e \<Longrightarrow> lock_fault e"
  by (auto simp: checkTimeout_def lock_fault_def split: if_splits)

lemma prune_wf: "queue_wf q ws \<Longrightarrow> prune now q ws = Inr (q', ws') \<Longrightarrow> queue_wf q' ws'"
proof (induction now q ws rule: prune.induct)
  case (2 now w q ws)
  then show ?case
    using queue_wf_tl [OF "2.prems"(1)]
    by (auto simp del: fun_upd_apply split: option.splits if_splits)
qed simp

lemma prune_fault: "queue_wf q ws \<Longrightarrow> prune now q ws = Inl e \<Longrightarrow> lock_fault e"
proof (induction now q ws rule: prune.induct)
  case (2 now w q ws)
  obtain wr where wr: "ws w = Some wr" using "2.prems"(1) by (auto simp: queue_wf_def)
  have front: "q \<noteq> [] \<Longrightarrow> (ws(w := None)) (hd q) \<noteq> None"
    using queue_wf_tl [OF "2.prems"(1)] by (cases q) (auto simp: queue_wf_def)
  show ?case
  proof (cases "checkTimeout wr now")
    case (Inl e')
    then show ?thesis using "2.prems"(2) wr checkTimeout_fault [OF Inl] by simp
  next
    case (Inr b)
    then show ?thesis
      using "2.prems"(2) wr front "2.IH" [OF wr, of True] queue_wf_tl [OF "2.prems"(1)]
      by (auto simp del: fun_upd_apply split: if_splits)
  qed
qed simp

text \<open>
  The queue operations keep the queue well formed and leave the state and the holders of the lock
  alone.
\<close>

definition queue_step :: "Lock \<Rightarrow> Lock \<Rightarrow> bool" where
  "queue_step l l' \<longleftrightarrow>
     lstate l' = lstate l \<and> holders l' = holders l \<and>
     (queue_wf (waitQ l) (waiters l) \<longrightarrow> queue_wf (waitQ l') (waiters l'))"

lemma waitForLock_step: "queue_step l (waitForLock wt l r w)"
  by (auto simp: queue_step_def waitForLock_def queue_wf_def)

lemma queue_step_trans: "queue_step l l' \<Longrightarrow> queue_step l' l'' \<Longrightarrow> queue_step l l''"
  by (simp add: queue_step_def)

lemma prune_step:
  "prune now (waitQ l) (waiters l) = Inr (q, ws) \<Longrightarrow> queue_step l (l\<lparr>waitQ := q, waiters := ws\<rparr>)"
  by (simp add: queue_step_def prune_wf)

lemma tryAcquireLock_step:
  assumes "tryAcquireLock now wt l r w = Inr (b, l')"
  shows "queue_step l l'"
proof (cases "waitQ l = []")
  case True
  then show ?thesis using assms by (simp add: tryAcquireLock_def queue_step_def)
next
  case False
  with assms obtain q ws where p: "prune now (waitQ l) (waiters l) = Inr (q, ws)"
    by (auto simp: tryAcquireLock_def)
  have pop: "queue_wf q ws \<Longrightarrow> q \<noteq> [] \<Longrightarrow> queue_wf (tl q) (ws(hd q := None))"
    by (cases q) (simp_all add: queue_wf_tl)
  show ?thesis
    using assms False p prune_step [OF p] queue_step_trans [OF prune_step [OF p] waitForLock_step]
    by (auto simp: tryAcquireLock_def Let_def queue_step_def pop split: if_splits option.splits)
qed

lemma tryAcquireLock_fault:
  assumes "queue_wf (waitQ l) (waiters l)" and "tryAcquireLock now wt l r w = Inl e"
  shows "lock_fault e"
proof (cases "prune now (waitQ l) (waiters l)")
  case (Inl e')
  then show ?thesis
    using assms prune_fault [OF assms(1) Inl] by (auto simp: tryAcquireLock_def split: if_splits)
next
  case (Inr p)
  obtain q ws where p: "p = (q, ws)" by (cases p)
  have "queue_wf q ws" using prune_wf [OF assms(1)] Inr p by simp
  then have "q \<noteq> [] \<Longrightarrow> ws (hd q) \<noteq> None" by (cases q) (auto simp: queue_wf_def)
  then show ?thesis
    using assms(2) Inr p
    by (auto simp: tryAcquireLock_def Let_def lock_fault_def split: if_splits option.splits)
qed

lemma isWriteNext_step: "isWriteNext now l = Inr (b, l') \<Longrightarrow> queue_step l l'"
  using prune_step
  by (auto simp: isWriteNext_def Let_def queue_step_def split: if_splits option.splits)

lemma isWriteNext_fault:
  assumes "queue_wf (waitQ l) (waiters l)" and "isWriteNext now l = Inl e"
  shows "lock_fault e"
proof (cases "prune now (waitQ l) (waiters l)")
  case (Inl e')
  then show ?thesis
    using assms prune_fault [OF assms(1) Inl] by (auto simp: isWriteNext_def split: if_splits)
next
  case (Inr p)
  obtain q ws where p: "p = (q, ws)" by (cases p)
  have "queue_wf q ws" using prune_wf [OF assms(1)] Inr p by simp
  then have "q \<noteq> [] \<Longrightarrow> ws (hd q) \<noteq> None" by (cases q) (auto simp: queue_wf_def)
  then show ?thesis
    using assms(2) Inr p by (auto simp: isWriteNext_def Let_def split: if_splits)
qed

section \<open>What the operations do to the lock sets\<close>

lemma lock_wf_queue: "lock_wf l \<Longrightarrow> queue_wf (waitQ l) (waiters l)"
  by (simp add: lock_wf_def)

lemma queue_step_refl [simp]: "queue_step l l"
  by (simp add: queue_step_def)

lemma queue_step_same:
  "queue_step l l' \<Longrightarrow> lstate l' = lstate l" "queue_step l l' \<Longrightarrow> holders l' = holders l"
  by (simp_all add: queue_step_def)

lemma locks_wfD: "locks_wf s \<Longrightarrow> lock_wf (lock_at s k)"
  by (simp add: locks_wf_def)

lemma locks_wf_counters [simp]:
  "locks_wf (s\<lparr>readers := r\<rparr>) = locks_wf s" "locks_wf (s\<lparr>writers := r\<rparr>) = locks_wf s"
  by (simp_all add: locks_wf_def)

lemma card_1_mem: "card A = 1 \<Longrightarrow> x \<in> A \<Longrightarrow> A = {x}"
  by (metis card_1_singletonE singletonD)

text \<open>
  \<open>relock s s' k R W\<close>: \<open>s'\<close> is well formed and differs from \<open>s\<close> only at lock \<open>k\<close>, which is now held
  for reading by \<open>R\<close> and for writing by \<open>W\<close>. Every operation is such a step: it moves the queue
  of the lock (\<open>queue_step\<close>) and then sets a state and a holder set that fit together.
\<close>

definition relock :: "LockServer \<Rightarrow> LockServer \<Rightarrow> string \<Rightarrow> u64 set \<Rightarrow> u64 set \<Rightarrow> bool" where
  "relock s s' k R W \<longleftrightarrow>
     locks_wf s' \<and> readLocked s' = (readLocked s)(k := R) \<and> writeLocked s' = (writeLocked s)(k := W)"

lemma relock_set_lock:
  assumes "locks_wf s" and "queue_step (lock_at s k) l'"
    and "waitQ l = waitQ l'" and "waiters l = waiters l'"
    and "holders_ok (lstate l) (holders l)"
    and "R = rd_held (lstate l) (holders l)" and "W = wr_held (lstate l) (holders l)"
  shows "relock s (set_lock s k l) k R W"
    and "relock s ((set_lock s k l)\<lparr>readers := n\<rparr>) k R W"
    and "relock s ((set_lock s k l)\<lparr>writers := n\<rparr>) k R W"
proof -
  have "lock_wf l"
    using assms locks_wfD [OF assms(1), of k] by (simp add: lock_wf_def queue_step_def)
  then have "locks_wf (set_lock s k l)" using assms(1) by (simp add: locks_wf_def)
  then show "relock s (set_lock s k l) k R W"
    and "relock s ((set_lock s k l)\<lparr>readers := n\<rparr>) k R W"
    and "relock s ((set_lock s k l)\<lparr>writers := n\<rparr>) k R W"
    using assms(6,7) by (simp_all add: relock_def readLocked_def writeLocked_def fun_eq_iff)
qed

lemma relock_queue:
  assumes "locks_wf s" and "queue_step (lock_at s k) l"
    and "R = rd_held (lstate (lock_at s k)) (holders (lock_at s k))"
    and "W = wr_held (lstate (lock_at s k)) (holders (lock_at s k))"
  shows "relock s (set_lock s k l) k R W"
  using assms locks_wfD [OF assms(1), of k]
  by (intro relock_set_lock(1) [OF assms(1,2) refl refl])
    (simp_all add: queue_step_same [OF assms(2)] lock_wf_def)

lemma relock_refl:
  "locks_wf s \<Longrightarrow> R = readLocked s k \<Longrightarrow> W = writeLocked s k \<Longrightarrow> relock s s k R W"
  by (simp add: relock_def)

lemmas relock_wait = relock_queue [OF _ queue_step_trans [OF _ waitForLock_step]]
lemmas lock_sets = readLocked_def writeLocked_def

lemma relock_refused:
  "locks_wf s \<Longrightarrow>
   relock s (set_lock s k (waitForLock wt (lock_at s k) r w)) k (readLocked s k) (writeLocked s k)"
  by (simp add: lock_sets relock_wait)

lemma relock_held:
  "locks_wf s \<Longrightarrow> relock s (set_lock s k (lock_at s k)) k (readLocked s k) (writeLocked s k)"
  by (simp add: lock_sets relock_queue)

text \<open>What an operation that grants or refuses a lock does to its holders.\<close>

lemma lockForRead_relock:
  assumes wf: "locks_wf s" and ok: "lockForRead now wt s k r = Inr (b, s')"
  shows "relock s s' k (if b then insert r (readLocked s k) else readLocked s k) (writeLocked s k)
    \<and> (b \<longrightarrow> writeLocked s k \<subseteq> {r})"
proof (cases "lstate (lock_at s k)")
  case UNLOCKED
  with ok obtain l' where "tryAcquireLock now wt (lock_at s k) r False = Inr (b, l')"
    and s': "s' = (if b then (set_lock s k (l'\<lparr>lstate := LOCKED_FOR_READ,
          holders := insert r (holders l')\<rparr>))\<lparr>readers := readers s + 1\<rparr> else set_lock s k l')"
    by (auto simp: lockForRead_def Let_def split: if_splits)
  then have step: "queue_step (lock_at s k) l'" by (auto intro: tryAcquireLock_step)
  with UNLOCKED s' locks_wfD [OF wf, of k] show ?thesis
    by (auto simp: lock_sets lock_wf_def queue_step_same [OF step] intro: relock_queue [OF wf step]
        relock_set_lock [OF wf step])
next
  case LOCKED_FOR_READ
  show ?thesis
  proof (cases "r \<in> holders (lock_at s k)")
    case True
    with ok LOCKED_FOR_READ show ?thesis
      by (auto simp: lockForRead_def lock_sets insert_absorb
          intro: relock_queue [OF wf queue_step_refl])
  next
    case False
    with ok LOCKED_FOR_READ obtain l' where "isWriteNext now (lock_at s k) = Inr (\<not> b, l')"
      and s': "s' = (if b then (set_lock s k (l'\<lparr>holders := insert r (holders l')\<rparr>))
            \<lparr>readers := readers s + 1\<rparr> else set_lock s k (waitForLock wt l' r False))"
      by (auto simp: lockForRead_def Let_def split: if_splits)
    then have step: "queue_step (lock_at s k) l'" by (auto intro: isWriteNext_step)
    with LOCKED_FOR_READ s' show ?thesis
      by (auto simp: lock_sets queue_step_same [OF step]
          intro: relock_wait [OF wf step] relock_set_lock [OF wf step])
  qed
next
  case LOCKED_FOR_WRITE
  then have c: "card (holders (lock_at s k)) = 1"
    using locks_wfD [OF wf, of k] by (simp add: lock_wf_def)
  show ?thesis
  proof (cases "r \<in> holders (lock_at s k)")
    case True
    with LOCKED_FOR_WRITE ok show ?thesis
      by (auto simp: lockForRead_def lock_sets card_1_mem [OF c True]
          intro: relock_set_lock [OF wf queue_step_refl])
  next
    case False
    with LOCKED_FOR_WRITE ok c show ?thesis
      by (auto simp: lockForRead_def lock_sets intro: relock_wait [OF wf queue_step_refl])
  qed
next
  case LOCKED_FOR_READ_WRITE
  then have c: "card (holders (lock_at s k)) = 1"
    using locks_wfD [OF wf, of k] by (simp add: lock_wf_def)
  show ?thesis
  proof (cases "r \<in> holders (lock_at s k)")
    case True
    with LOCKED_FOR_READ_WRITE ok show ?thesis
      by (auto simp: lockForRead_def lock_sets card_1_mem [OF c True]
          intro: relock_set_lock [OF wf queue_step_refl])
  next
    case False
    with LOCKED_FOR_READ_WRITE ok c show ?thesis
      by (auto simp: lockForRead_def lock_sets intro: relock_wait [OF wf queue_step_refl])
  qed
qed

lemma lockForWrite_relock:
  assumes wf: "locks_wf s" and ok: "lockForWrite now wt s k r = Inr (b, s')"
  shows "relock s s' k (readLocked s k) (if b then {r} else writeLocked s k)
    \<and> (b \<longrightarrow> readLocked s k \<subseteq> {r} \<and> writeLocked s k \<subseteq> {r})"
proof (cases "lstate (lock_at s k)")
  case UNLOCKED
  with ok obtain l' where "tryAcquireLock now wt (lock_at s k) r True = Inr (b, l')"
    and s': "s' = (if b then (set_lock s k (l'\<lparr>lstate := LOCKED_FOR_WRITE,
          holders := insert r (holders l')\<rparr>))\<lparr>writers := writers s + 1\<rparr> else set_lock s k l')"
    by (auto simp: lockForWrite_def Let_def split: if_splits)
  then have step: "queue_step (lock_at s k) l'" by (auto intro: tryAcquireLock_step)
  with UNLOCKED s' locks_wfD [OF wf, of k] show ?thesis
    by (auto simp: lock_sets lock_wf_def queue_step_same [OF step] intro: relock_queue [OF wf step]
        relock_set_lock [OF wf step])
next
  case LOCKED_FOR_READ
  show ?thesis
  proof (cases "card (holders (lock_at s k)) = 1 \<and> r \<in> holders (lock_at s k)")
    case True
    then have "holders (lock_at s k) = {r}" by (metis card_1_mem)
    with True ok LOCKED_FOR_READ show ?thesis
      by (auto simp: lockForWrite_def lock_sets intro: relock_set_lock [OF wf queue_step_refl])
  next
    case False
    with ok LOCKED_FOR_READ show ?thesis
      by (auto simp: lockForWrite_def relock_refused [OF wf] split: if_splits)
  qed
next
  case LOCKED_FOR_WRITE
  then have c: "card (holders (lock_at s k)) = 1"
    using locks_wfD [OF wf, of k] by (simp add: lock_wf_def)
  show ?thesis
  proof (cases "r \<in> holders (lock_at s k)")
    case True
    with LOCKED_FOR_WRITE ok c relock_held [OF wf, of k] show ?thesis
      by (auto simp: lockForWrite_def lock_sets card_1_mem [OF c True])
  next
    case False
    with LOCKED_FOR_WRITE ok c show ?thesis
      by (auto simp: lockForWrite_def Let_def relock_refused [OF wf])
  qed
next
  case LOCKED_FOR_READ_WRITE
  then have c: "card (holders (lock_at s k)) = 1"
    using locks_wfD [OF wf, of k] by (simp add: lock_wf_def)
  show ?thesis
  proof (cases "r \<in> holders (lock_at s k)")
    case True
    with LOCKED_FOR_READ_WRITE ok c relock_held [OF wf, of k] show ?thesis
      by (auto simp: lockForWrite_def lock_sets card_1_mem [OF c True])
  next
    case False
    with LOCKED_FOR_READ_WRITE ok c show ?thesis
      by (auto simp: lockForWrite_def Let_def relock_refused [OF wf])
  qed
qed

lemma releaseForRead_relock:
  assumes wf: "locks_wf s"
  shows "\<exists>s'. releaseForRead s k h = Inr s' \<and>
    relock s s' k (readLocked s k - {h}) (writeLocked s k)"
proof (cases "h \<in> holders (lock_at s k)")
  case False
  then have "releaseForRead s k h = Inr s"
    by (auto simp: releaseForRead_def lock_at_def split: option.splits)
  moreover have "h \<notin> readLocked s k"
    using False by (cases "lstate (lock_at s k)") (auto simp: readLocked_def)
  ultimately show ?thesis using relock_refl [OF wf] by auto
next
  case True
  then obtain l where l: "locks s k = Some l"
    by (cases "locks s k") (auto simp: lock_at_None)
  note at = lock_at_Some [OF l]
  show ?thesis
  proof (cases "lstate l")
    case LOCKED_FOR_READ
    let ?st = "if holders l - {h} = {} then UNLOCKED else LOCKED_FOR_READ"
    have "relock s ((set_lock s k (l\<lparr>holders := holders l - {h}, lstate := ?st\<rparr>))
        \<lparr>readers := readers s - 1\<rparr>) k (holders l - {h}) {}"
      by (rule relock_set_lock(2) [OF wf queue_step_refl]) (use at in simp_all)
    then show ?thesis using True l at LOCKED_FOR_READ
      by (simp add: releaseForRead_def Let_def lock_sets)
  next
    case LOCKED_FOR_READ_WRITE
    then have "card (holders l) = 1" using locks_wfD [OF wf, of k] at by (simp add: lock_wf_def)
    then show ?thesis using True l at LOCKED_FOR_READ_WRITE card_1_mem [of "holders l" h]
      by (auto simp: releaseForRead_def lock_sets intro: relock_set_lock [OF wf queue_step_refl])
  qed (use True l at in \<open>auto simp: releaseForRead_def lock_sets intro: relock_refl [OF wf]\<close>)
qed

lemma releaseForWrite_relock:
  assumes wf: "locks_wf s"
  shows "\<exists>s'. releaseForWrite s k h = Inr s' \<and>
    relock s s' k (readLocked s k) (writeLocked s k - {h})"
proof (cases "h \<in> holders (lock_at s k)")
  case False
  then have "releaseForWrite s k h = Inr s"
    by (auto simp: releaseForWrite_def lock_at_def split: option.splits)
  moreover have "h \<notin> writeLocked s k"
    using False by (cases "lstate (lock_at s k)") (auto simp: writeLocked_def)
  ultimately show ?thesis using relock_refl [OF wf] by auto
next
  case True
  then obtain l where l: "locks s k = Some l"
    by (cases "locks s k") (auto simp: lock_at_None)
  note at = lock_at_Some [OF l]
  show ?thesis
  proof (cases "lstate l")
    case LOCKED_FOR_WRITE
    then have "card (holders l) = 1" using locks_wfD [OF wf, of k] at by (simp add: lock_wf_def)
    then show ?thesis using True l at LOCKED_FOR_WRITE card_1_mem [of "holders l" h]
      by (auto simp: releaseForWrite_def lock_sets intro: relock_set_lock [OF wf queue_step_refl])
  next
    case LOCKED_FOR_READ_WRITE
    then have "card (holders l) = 1" using locks_wfD [OF wf, of k] at by (simp add: lock_wf_def)
    then show ?thesis using True l at LOCKED_FOR_READ_WRITE card_1_mem [of "holders l" h]
      by (auto simp: releaseForWrite_def lock_sets intro: relock_set_lock [OF wf queue_step_refl])
  qed (use True l at in \<open>auto simp: releaseForWrite_def lock_sets intro: relock_refl [OF wf]\<close>)
qed

lemma lock_faults:
  assumes wf: "locks_wf s"
  shows "lockForRead now wt s k r = Inl e \<Longrightarrow> lock_fault e"
    and "lockForWrite now wt s k r = Inl e \<Longrightarrow> lock_fault e"
proof -
  note l = locks_wfD [OF wf, of k]
  note q = tryAcquireLock_fault [OF lock_wf_queue [OF l]] isWriteNext_fault [OF lock_wf_queue [OF l]]
  have free: "card (holders l') = 0"
    if "tryAcquireLock now wt (lock_at s k) r w = Inr (b, l')" and "lstate (lock_at s k) = UNLOCKED"
    for w b l'
    using that l queue_step_same [OF tryAcquireLock_step [OF that(1)]] by (simp add: lock_wf_def)
  have one: "lstate (lock_at s k) \<in> {LOCKED_FOR_WRITE, LOCKED_FOR_READ_WRITE} \<Longrightarrow>
      card (holders (lock_at s k)) = 1"
    using l by (auto simp: lock_wf_def)
  show "lock_fault e" if "lockForRead now wt s k r = Inl e"
    using that q one free
    by (cases "lstate (lock_at s k)"; cases "tryAcquireLock now wt (lock_at s k) r False";
        cases "isWriteNext now (lock_at s k)")
      (auto simp: lockForRead_def Let_def split: if_splits)
  show "lock_fault e" if "lockForWrite now wt s k r = Inl e"
    using that q one free
    by (cases "lstate (lock_at s k)"; cases "tryAcquireLock now wt (lock_at s k) r True")
      (auto simp: lockForWrite_def Let_def split: if_splits)
qed

lemma locks_exclusive:
  assumes "locks_wf s" and "h \<in> writeLocked s k" and "h' \<in> readLocked s k \<union> writeLocked s k"
  shows "h' = h"
proof -
  let ?l = "lock_at s k"
  have "holders ?l = {h}" if "card (holders ?l) = 1" "h \<in> holders ?l"
    using card_1_mem [OF that] .
  with assms locks_wfD [OF assms(1), of k] show ?thesis
    by (cases "lstate ?l") (auto simp: lock_sets lock_wf_def)
qed

section \<open>The contract of the lock server\<close>

text \<open>
  The client's loops over a read set or a write set: every key is asked for, also after a refusal
  (\<open>acquire_seq\<close>, with \<open>op i\<close> the request that reads the clock for the \<open>i\<close>-th time), or given back
  (\<open>release_seq\<close>).
\<close>

fun acquire_seq :: "(nat \<Rightarrow> 's \<Rightarrow> 'k \<Rightarrow> (bool \<times> 's) outcome) \<Rightarrow> nat \<Rightarrow> 'k list \<Rightarrow> bool \<Rightarrow> 's
    \<Rightarrow> (bool \<times> 's) outcome" where
  "acquire_seq op i [] ret s = Inr (ret, s)"
| "acquire_seq op i (k # ks) ret s =
     obind (op i s k) (\<lambda>(got, s'). acquire_seq op (Suc i) ks (if got then ret else False) s')"

fun release_seq :: "('s \<Rightarrow> 'k \<Rightarrow> 's outcome) \<Rightarrow> 'k list \<Rightarrow> 's \<Rightarrow> 's outcome" where
  "release_seq op [] s = Inr s"
| "release_seq op (k # ks) s = obind (op s k) (release_seq op ks)"

locale lock_service =
  fixes ok :: "'s \<Rightarrow> bool"
    and rd :: "'s \<Rightarrow> 'k \<Rightarrow> 'i set"
    and wr :: "'s \<Rightarrow> 'k \<Rightarrow> 'i set"
    and lockR :: "'c \<Rightarrow> 'c \<Rightarrow> 's \<Rightarrow> 'k \<Rightarrow> 'i \<Rightarrow> (bool \<times> 's) outcome"
    and lockW :: "'c \<Rightarrow> 'c \<Rightarrow> 's \<Rightarrow> 'k \<Rightarrow> 'i \<Rightarrow> (bool \<times> 's) outcome"
    and unlockR :: "'s \<Rightarrow> 'k \<Rightarrow> 'i \<Rightarrow> 's outcome"
    and unlockW :: "'s \<Rightarrow> 'k \<Rightarrow> 'i \<Rightarrow> 's outcome"
  assumes exclusive: "ok s \<Longrightarrow> h \<in> wr s k \<Longrightarrow> h' \<in> rd s k \<union> wr s k \<Longrightarrow> h' = h"
    and lockR_law: "ok s \<Longrightarrow> lockR now wt s k r = Inr (b, s') \<Longrightarrow>
      ok s' \<and> rd s' = (rd s)(k := if b then insert r (rd s k) else rd s k) \<and> wr s' = wr s"
    and lockW_law: "ok s \<Longrightarrow> lockW now wt s k r = Inr (b, s') \<Longrightarrow>
      ok s' \<and> rd s' = rd s \<and> wr s' = (wr s)(k := if b then insert r (wr s k) else wr s k)"
    and unlockR_law: "ok s \<Longrightarrow>
      \<exists>s'. unlockR s k h = Inr s' \<and> ok s' \<and> rd s' = (rd s)(k := rd s k - {h}) \<and> wr s' = wr s"
    and unlockW_law: "ok s \<Longrightarrow>
      \<exists>s'. unlockW s k h = Inr s' \<and> ok s' \<and> rd s' = rd s \<and> wr s' = (wr s)(k := wr s k - {h})"
begin

lemma acquire_reads:
  assumes "ok s"
    and "acquire_seq (\<lambda>i s k. lockR (now i) (wt i) s k r) n ks ret s = Inr (b, s')"
  shows "ok s' \<and> wr s' = wr s \<and> (\<forall>k. rd s k \<subseteq> rd s' k \<and> rd s' k \<subseteq> insert r (rd s k)) \<and>
    (b \<longrightarrow> ret \<and> (\<forall>k\<in>set ks. r \<in> rd s' k))"
  using assms
proof (induction ks arbitrary: n ret s)
  case (Cons k ks)
  then obtain g s1 where op: "lockR (now n) (wt n) s k r = Inr (g, s1)"
    and rest: "acquire_seq (\<lambda>i s k. lockR (now i) (wt i) s k r) (Suc n) ks
        (if g then ret else False) s1 = Inr (b, s')"
    by auto
  note law = lockR_law [OF Cons.prems(1) op]
  note IH = Cons.IH [OF conjunct1 [OF law] rest]
  have mid: "rd s1 k' \<subseteq> rd s' k'" "rd s' k' \<subseteq> insert r (rd s1 k')" for k'
    using IH by blast+
  have "rd s k' \<subseteq> rd s1 k'" "rd s1 k' \<subseteq> insert r (rd s k')" for k'
    using law by auto
  with mid have grow: "\<forall>k'. rd s k' \<subseteq> rd s' k' \<and> rd s' k' \<subseteq> insert r (rd s k')"
    by blast
  have "g \<Longrightarrow> r \<in> rd s1 k" using law by simp
  with mid have "g \<Longrightarrow> r \<in> rd s' k" by blast
  with IH law grow show ?case by (cases g) simp_all
qed auto

lemma acquire_writes:
  assumes "ok s"
    and "acquire_seq (\<lambda>i s k. lockW (now i) (wt i) s k r) n ks ret s = Inr (b, s')"
  shows "ok s' \<and> rd s' = rd s \<and> (\<forall>k. wr s k \<subseteq> wr s' k \<and> wr s' k \<subseteq> insert r (wr s k)) \<and>
    (b \<longrightarrow> ret \<and> (\<forall>k\<in>set ks. r \<in> wr s' k))"
  using assms
proof (induction ks arbitrary: n ret s)
  case (Cons k ks)
  then obtain g s1 where op: "lockW (now n) (wt n) s k r = Inr (g, s1)"
    and rest: "acquire_seq (\<lambda>i s k. lockW (now i) (wt i) s k r) (Suc n) ks
        (if g then ret else False) s1 = Inr (b, s')"
    by auto
  note law = lockW_law [OF Cons.prems(1) op]
  note IH = Cons.IH [OF conjunct1 [OF law] rest]
  have mid: "wr s1 k' \<subseteq> wr s' k'" "wr s' k' \<subseteq> insert r (wr s1 k')" for k'
    using IH by blast+
  have "wr s k' \<subseteq> wr s1 k'" "wr s1 k' \<subseteq> insert r (wr s k')" for k'
    using law by auto
  with mid have grow: "\<forall>k'. wr s k' \<subseteq> wr s' k' \<and> wr s' k' \<subseteq> insert r (wr s k')"
    by blast
  have "g \<Longrightarrow> r \<in> wr s1 k" using law by simp
  with mid have "g \<Longrightarrow> r \<in> wr s' k" by blast
  with IH law grow show ?case by (cases g) simp_all
qed auto

lemma release_reads:
  "ok s \<Longrightarrow> \<exists>s'. release_seq (\<lambda>s k. unlockR s k h) ks s = Inr s' \<and> ok s' \<and> wr s' = wr s \<and>
     rd s' = (\<lambda>k. if k \<in> set ks then rd s k - {h} else rd s k)"
proof (induction ks arbitrary: s)
  case (Cons k ks)
  from unlockR_law [OF Cons.prems, of k h] obtain s1 where s1: "unlockR s k h = Inr s1" "ok s1"
    "rd s1 = (rd s)(k := rd s k - {h})" "wr s1 = wr s" by blast
  from Cons.IH [OF s1(2)] show ?case by (auto simp: s1 fun_eq_iff)
qed simp

lemma release_writes:
  "ok s \<Longrightarrow> \<exists>s'. release_seq (\<lambda>s k. unlockW s k h) ks s = Inr s' \<and> ok s' \<and> rd s' = rd s \<and>
     wr s' = (\<lambda>k. if k \<in> set ks then wr s k - {h} else wr s k)"
proof (induction ks arbitrary: s)
  case (Cons k ks)
  from unlockW_law [OF Cons.prems, of k h] obtain s1 where s1: "unlockW s k h = Inr s1" "ok s1"
    "rd s1 = rd s" "wr s1 = (wr s)(k := wr s k - {h})" by blast
  from Cons.IH [OF s1(2)] show ?case by (auto simp: s1 fun_eq_iff)
qed simp

end

interpretation lks: lock_service locks_wf readLocked writeLocked lockForRead lockForWrite
  releaseForRead releaseForWrite
proof unfold_locales
  fix s k h h'
  show "locks_wf s \<Longrightarrow> h \<in> writeLocked s k \<Longrightarrow> h' \<in> readLocked s k \<union> writeLocked s k \<Longrightarrow> h' = h"
    by (rule locks_exclusive)
next
  fix s now wt k r b s'
  assume "locks_wf s" and "lockForRead now wt s k r = Inr (b, s')"
  from lockForRead_relock [OF this]
  show "locks_wf s' \<and> readLocked s' = (readLocked s)(k := if b then insert r (readLocked s k)
      else readLocked s k) \<and> writeLocked s' = writeLocked s"
    by (simp add: relock_def)
next
  fix s now wt k r b s'
  assume "locks_wf s" and "lockForWrite now wt s k r = Inr (b, s')"
  from lockForWrite_relock [OF this]
  show "locks_wf s' \<and> readLocked s' = readLocked s \<and> writeLocked s' =
      (writeLocked s)(k := if b then insert r (writeLocked s k) else writeLocked s k)"
    by (cases b) (simp_all add: relock_def subset_singleton_iff, auto)
next
  fix s k h
  assume "locks_wf s"
  from releaseForRead_relock [OF this, of k h] releaseForWrite_relock [OF this, of k h]
  show "\<exists>s'. releaseForRead s k h = Inr s' \<and> locks_wf s' \<and>
      readLocked s' = (readLocked s)(k := readLocked s k - {h}) \<and> writeLocked s' = writeLocked s"
    and "\<exists>s'. releaseForWrite s k h = Inr s' \<and> locks_wf s' \<and>
      readLocked s' = readLocked s \<and> writeLocked s' = (writeLocked s)(k := writeLocked s k - {h})"
    by (auto simp: relock_def)
qed

section \<open>Reachable lock tables\<close>

inductive lock_reach :: "LockServer \<Rightarrow> bool" where
  lr_init: "lock_reach LockServer_init"
| lr_read: "lock_reach s \<Longrightarrow> lockForRead now wt s k r = Inr (b, s') \<Longrightarrow> lock_reach s'"
| lr_write: "lock_reach s \<Longrightarrow> lockForWrite now wt s k r = Inr (b, s') \<Longrightarrow> lock_reach s'"
| lr_unread: "lock_reach s \<Longrightarrow> releaseForRead s k h = Inr s' \<Longrightarrow> lock_reach s'"
| lr_unwrite: "lock_reach s \<Longrightarrow> releaseForWrite s k h = Inr s' \<Longrightarrow> lock_reach s'"

lemma lock_reach_wf: "lock_reach s \<Longrightarrow> locks_wf s"
proof (induction rule: lock_reach.induct)
  case (lr_read s now wt k r b s')
  then show ?case using lks.lockR_law by blast
next
  case (lr_write s now wt k r b s')
  then show ?case using lks.lockW_law by blast
next
  case (lr_unread s k h s')
  then show ?case using lks.unlockR_law [of s k h] by auto
next
  case (lr_unwrite s k h s')
  then show ?case using lks.unlockW_law [of s k h] by auto
qed simp

text \<open>
  C16. The lock server is a shared/exclusive lock in every state it reaches: the holder of a write
  lock is the only holder of the lock, a request that returns true adds exactly the requester to
  the holders, one that returns false changes no holder, and a release removes exactly the
  releasing holder and never fails an assertion.
\<close>

theorem lock_server_refines:
  assumes "lock_reach s"
  shows "(\<forall>k h. h \<in> writeLocked s k \<longrightarrow> readLocked s k \<union> writeLocked s k = {h}) \<and>
    (\<forall>now wt k r b s'. lockForRead now wt s k r = Inr (b, s') \<longrightarrow> writeLocked s' = writeLocked s \<and>
       readLocked s' = (readLocked s)(k := if b then insert r (readLocked s k) else readLocked s k)) \<and>
    (\<forall>now wt k r b s'. lockForWrite now wt s k r = Inr (b, s') \<longrightarrow> readLocked s' = readLocked s \<and>
       writeLocked s' = (writeLocked s)(k := if b then insert r (writeLocked s k) else writeLocked s k)) \<and>
    (\<forall>k h. \<exists>s'. releaseForRead s k h = Inr s' \<and> writeLocked s' = writeLocked s \<and>
       readLocked s' = (readLocked s)(k := readLocked s k - {h})) \<and>
    (\<forall>k h. \<exists>s'. releaseForWrite s k h = Inr s' \<and> readLocked s' = readLocked s \<and>
       writeLocked s' = (writeLocked s)(k := writeLocked s k - {h}))"
proof -
  note wf = lock_reach_wf [OF assms]
  have "readLocked s k \<union> writeLocked s k = {h}" if "h \<in> writeLocked s k" for k h
    using lks.exclusive [OF wf that] that by blast
  moreover have "writeLocked s' = writeLocked s \<and>
      readLocked s' = (readLocked s)(k := if b then insert r (readLocked s k) else readLocked s k)"
    if "lockForRead now wt s k r = Inr (b, s')" for now wt k r b s'
    using lks.lockR_law [OF wf that] by simp
  moreover have "readLocked s' = readLocked s \<and>
      writeLocked s' = (writeLocked s)(k := if b then insert r (writeLocked s k) else writeLocked s k)"
    if "lockForWrite now wt s k r = Inr (b, s')" for now wt k r b s'
    using lks.lockW_law [OF wf that] by simp
  moreover note lks.unlockR_law [OF wf] lks.unlockW_law [OF wf]
  ultimately show ?thesis by (intro conjI allI impI; meson)
qed

definition ex_locked :: LockServer where
  "ex_locked = snd (projr (lockForWrite \<lparr>tv_sec = 1, tv_usec = 0\<rparr> \<lparr>tv_sec = 1, tv_usec = 0\<rparr> LockServer_init ''k'' 7))"

lemma ex_locked_step:
  "lockForWrite \<lparr>tv_sec = 1, tv_usec = 0\<rparr> \<lparr>tv_sec = 1, tv_usec = 0\<rparr> LockServer_init ''k'' 7 = Inr (True, ex_locked)"
  by (simp add: ex_locked_def lockForWrite_def LockServer_init_def lock_at_def Lock_new_def tryAcquireLock_def Let_def)

theorem lock_server_refines_witness: "readLocked ex_locked ''k'' \<union> writeLocked ex_locked ''k'' = {7}"
proof -
  have "lock_reach ex_locked" by (rule lr_write [OF lr_init ex_locked_step])
  moreover have "7 \<in> writeLocked ex_locked ''k''"
    using lks.lockW_law [OF locks_wf_init ex_locked_step] by simp
  ultimately show ?thesis using lock_server_refines [of ex_locked] by blast
qed

text \<open>
  In every state the lock server reaches, a request can fail only the assertion that the clock
  has not gone back since the waiter was queued and the assertion that a queued requester asks for
  the mode it is queued for; no other assertion can fail.
\<close>

theorem lock_server_faults:
  assumes "lock_reach s" and "lockForRead now wt s k r = Inl e \<or> lockForWrite now wt s k r = Inl e"
  shows "e = AssertFail ''now after waitTime'' \<or> e = AssertFail ''waiter mode''"
proof -
  have "lock_fault e"
    using assms(2) lock_faults [OF lock_reach_wf [OF assms(1)], where k = k and r = r] by (elim disjE)
  then show ?thesis by (simp add: lock_fault_def)
qed


text \<open>
  The second assertion can fail: 8 waits for a read lock that 7 holds for writing, and asks for the
  write lock once 7 has released it.
\<close>

definition ex_queued :: LockServer where
  "ex_queued = projr (releaseForWrite (snd (projr (lockForRead \<lparr>tv_sec = 1, tv_usec = 0\<rparr> \<lparr>tv_sec = 1, tv_usec = 0\<rparr>
     ex_locked ''k'' 8))) ''k'' 7)"

lemmas ex_lock_defs = ex_locked_def lockForWrite_def lockForRead_def releaseForWrite_def LockServer_init_def lock_at_def
  set_lock_def Lock_new_def tryAcquireLock_def waitForLock_def Let_def

lemma ex_queued_reach: "lock_reach ex_queued"
proof -
  let ?t = "\<lparr>tv_sec = 1, tv_usec = 0\<rparr>"
  have r: "lockForRead ?t ?t ex_locked ''k'' 8 = Inr (False, snd (projr (lockForRead ?t ?t ex_locked ''k'' 8)))"
    by (simp add: ex_lock_defs)
  have u: "releaseForWrite (snd (projr (lockForRead ?t ?t ex_locked ''k'' 8))) ''k'' 7 = Inr ex_queued"
    unfolding ex_queued_def by (simp add: ex_lock_defs)
  show ?thesis by (rule lr_unwrite [OF lr_read [OF lr_write [OF lr_init ex_locked_step] r] u])
qed

theorem lock_server_faults_witness:
  "\<exists>e. lockForWrite \<lparr>tv_sec = 1, tv_usec = 1\<rparr> \<lparr>tv_sec = 1, tv_usec = 1\<rparr> ex_queued ''k'' 8 = Inl e \<and>
     (e = AssertFail ''now after waitTime'' \<or> e = AssertFail ''waiter mode'')"
proof -
  let ?t = "\<lparr>tv_sec = 1, tv_usec = 1\<rparr>"
  obtain e where e: "lockForWrite ?t ?t ex_queued ''k'' 8 = Inl e"
    by (simp add: ex_queued_def ex_lock_defs checkTimeout_def LOCK_WAIT_TIMEOUT_def)
  then show ?thesis using lock_server_faults [OF ex_queued_reach, of ?t ?t "''k''" 8 e] by blast
qed


end
