(* ===== verification/Lock_Store.thy ===== *)
theory Lock_Store
  imports Kv_Stores Lock_Manager
begin

text \<open>
  The two-phase locking store of \<^verbatim>\<open>store/strongstore/lockstore.cc\<close>, over the lock server and the
  plain key-value store. \<open>clk i\<close> is the pair of clock readings available to the \<open>i\<close>-th lock
  request of a call. The operations form the step relation \<open>lk_step\<close>; on the states it reaches,
  every prepared transaction holds the locks of its read and write set.
\<close>

section \<open>State and operations\<close>

record LockStore =
  lk_store :: KVStore
  lk_locks :: LockServer
  lk_prepared :: "(u64 \<times> Transaction) list"

definition LockStore_init :: LockStore where
  "LockStore_init = \<lparr>lk_store = KVStore_init, lk_locks = LockServer_init, lk_prepared = []\<rparr>"

definition LockStore_Get ::
  "timeval \<times> timeval \<Rightarrow> LockStore \<Rightarrow> u64 \<Rightarrow> string
    \<Rightarrow> (int \<times> VersionedValue option \<times> LockStore) outcome" where
  "LockStore_Get c s tid key =
     (case KVStore_get (lk_store s) key of
        None \<Rightarrow> Inr (REPLY_FAIL, None, s)
      | Some val \<Rightarrow>
          obind (lockForRead (fst c) (snd c) (lk_locks s) key tid) (\<lambda>(got, ls).
            if got then Inr (REPLY_OK, Some (Timestamp_default, val), s\<lparr>lk_locks := ls\<rparr>)
            else Inr (REPLY_RETRY, None, s\<lparr>lk_locks := ls\<rparr>)))"

definition LockStore_Get_at ::
  "timeval \<times> timeval \<Rightarrow> LockStore \<Rightarrow> u64 \<Rightarrow> string \<Rightarrow> Timestamp
    \<Rightarrow> (int \<times> VersionedValue option \<times> LockStore) outcome" where
  "LockStore_Get_at c s tid key timestamp = LockStore_Get c s tid key"

definition getLocks ::
  "(nat \<Rightarrow> timeval \<times> timeval) \<Rightarrow> LockServer \<Rightarrow> u64 \<Rightarrow> Transaction \<Rightarrow> (bool \<times> LockServer) outcome" where
  "getLocks clk ls tid txn =
     obind (acquire_seq (\<lambda>i s k. lockForRead (fst (clk i)) (snd (clk i)) s k tid) 0
              (map fst (readSet txn)) True ls) (\<lambda>(ret, ls').
       acquire_seq (\<lambda>i s k. lockForWrite (fst (clk i)) (snd (clk i)) s k tid)
         (length (readSet txn)) (map fst (writeSet txn)) ret ls')"

definition dropLocks :: "LockServer \<Rightarrow> u64 \<Rightarrow> Transaction \<Rightarrow> LockServer outcome" where
  "dropLocks ls tid txn =
     obind (release_seq (\<lambda>s k. releaseForWrite s k tid) (map fst (writeSet txn)) ls)
       (release_seq (\<lambda>s k. releaseForRead s k tid) (map fst (readSet txn)))"

definition LockStore_Prepare ::
  "(nat \<Rightarrow> timeval \<times> timeval) \<Rightarrow> LockStore \<Rightarrow> u64 \<Rightarrow> Transaction \<Rightarrow> (int \<times> LockStore) outcome" where
  "LockStore_Prepare clk s tid txn =
     (if map_of (lk_prepared s) tid \<noteq> None then Inr (REPLY_OK, s)
      else obind (getLocks clk (lk_locks s) tid txn) (\<lambda>(got, ls).
        if got
        then Inr (REPLY_OK, s\<lparr>lk_locks := ls, lk_prepared := omap_put tid txn (lk_prepared s)\<rparr>)
        else Inr (REPLY_RETRY, s\<lparr>lk_locks := ls\<rparr>)))"

definition LockStore_Commit :: "LockStore \<Rightarrow> u64 \<Rightarrow> u64 \<Rightarrow> LockStore outcome" where
  "LockStore_Commit s tid timestamp =
     (case map_of (lk_prepared s) tid of
        None \<Rightarrow> Inl (AssertFail ''prepared.find(id) != prepared.end()'')
      | Some txn \<Rightarrow>
          let st = fold (\<lambda>(k, v) st. KVStore_put st k v) (writeSet txn) (lk_store s) in
          obind (dropLocks (lk_locks s) tid txn) (\<lambda>ls.
            Inr (s\<lparr>lk_store := st, lk_locks := ls, lk_prepared := omap_del tid (lk_prepared s)\<rparr>)))"

definition LockStore_Abort :: "LockStore \<Rightarrow> u64 \<Rightarrow> Transaction \<Rightarrow> LockStore outcome" where
  "LockStore_Abort s tid txn =
     obind (dropLocks (lk_locks s) tid txn) (\<lambda>ls.
       Inr (s\<lparr>lk_locks := ls, lk_prepared := omap_del tid (lk_prepared s)\<rparr>))"

definition LockStore_Load :: "LockStore \<Rightarrow> string \<Rightarrow> string \<Rightarrow> Timestamp \<Rightarrow> LockStore" where
  "LockStore_Load s key v timestamp = s\<lparr>lk_store := KVStore_put (lk_store s) key v\<rparr>"

section \<open>Runs of the store\<close>

datatype lk_op =
    LkGet u64 string
  | LkPrepare u64 Transaction
  | LkCommit u64 u64
  | LkAbort u64 Transaction
  | LkLoad string string Timestamp

inductive lk_step :: "LockStore \<Rightarrow> lk_op \<Rightarrow> LockStore \<Rightarrow> bool" where
  lk_get: "LockStore_Get c s tid key = Inr (r, v, s') \<Longrightarrow> lk_step s (LkGet tid key) s'"
| lk_prepare: "txn_wf txn \<Longrightarrow> LockStore_Prepare clk s tid txn = Inr (r, s') \<Longrightarrow>
    lk_step s (LkPrepare tid txn) s'"
| lk_commit: "LockStore_Commit s tid ts = Inr s' \<Longrightarrow> lk_step s (LkCommit tid ts) s'"
| lk_abort: "LockStore_Abort s tid txn = Inr s' \<Longrightarrow> lk_step s (LkAbort tid txn) s'"
| lk_load: "lk_step s (LkLoad key v t) (LockStore_Load s key v t)"

inductive_cases lk_stepE: "lk_step s op s'"

inductive lk_run :: "LockStore \<Rightarrow> lk_op list \<Rightarrow> LockStore \<Rightarrow> bool" where
  lk_nil: "lk_run s [] s"
| lk_snoc: "lk_run s ops s1 \<Longrightarrow> lk_step s1 op s2 \<Longrightarrow> lk_run s (ops @ [op]) s2"

definition holds_locks :: "LockServer \<Rightarrow> u64 \<Rightarrow> Transaction \<Rightarrow> bool" where
  "holds_locks ls tid txn \<longleftrightarrow>
     (\<forall>k\<in>rkeys txn. tid \<in> readLocked ls k) \<and> (\<forall>k\<in>wkeys txn. tid \<in> writeLocked ls k)"

definition lk_inv :: "LockStore \<Rightarrow> bool" where
  "lk_inv s \<longleftrightarrow>
     locks_wf (lk_locks s) \<and> omap_wf (lk_prepared s) \<and>
     (\<forall>tid txn. map_of (lk_prepared s) tid = Some txn \<longrightarrow>
        txn_wf txn \<and> holds_locks (lk_locks s) tid txn)"

lemma lk_inv_init: "lk_inv LockStore_init"
  by (simp add: lk_inv_def LockStore_init_def)

lemma getLocks_holds:
  assumes "locks_wf ls" and "getLocks clk ls tid txn = Inr (b, ls')"
  shows "locks_wf ls' \<and>
    (\<forall>k. readLocked ls k \<subseteq> readLocked ls' k \<and> writeLocked ls k \<subseteq> writeLocked ls' k) \<and>
    (b \<longrightarrow> holds_locks ls' tid txn)"
proof -
  obtain r1 ls1 where
    rd: "acquire_seq (\<lambda>i s k. lockForRead (fst (clk i)) (snd (clk i)) s k tid) 0
        (map fst (readSet txn)) True ls = Inr (r1, ls1)"
    and wr: "acquire_seq (\<lambda>i s k. lockForWrite (fst (clk i)) (snd (clk i)) s k tid)
        (length (readSet txn)) (map fst (writeSet txn)) r1 ls1 = Inr (b, ls')"
    using assms(2) by (auto simp: getLocks_def)
  note A = lks.acquire_reads [OF assms(1) rd]
  note B = lks.acquire_writes [OF conjunct1 [OF A] wr]
  show ?thesis using A B by (auto simp: holds_locks_def)
qed

lemma dropLocks_releases:
  assumes "locks_wf ls"
  shows "\<exists>ls'. dropLocks ls tid txn = Inr ls' \<and> locks_wf ls' \<and>
    readLocked ls' = (\<lambda>k. if k \<in> rkeys txn then readLocked ls k - {tid} else readLocked ls k) \<and>
    writeLocked ls' = (\<lambda>k. if k \<in> wkeys txn then writeLocked ls k - {tid} else writeLocked ls k)"
proof -
  from lks.release_writes [OF assms, of tid "map fst (writeSet txn)"]
  obtain ls1 where A: "release_seq (\<lambda>s k. releaseForWrite s k tid) (map fst (writeSet txn)) ls = Inr ls1"
    "locks_wf ls1" "readLocked ls1 = readLocked ls"
    "writeLocked ls1 = (\<lambda>k. if k \<in> wkeys txn then writeLocked ls k - {tid} else writeLocked ls k)"
    by auto
  from lks.release_reads [OF A(2), of tid "map fst (readSet txn)"] show ?thesis
    unfolding A(3,4) by (auto simp: dropLocks_def A(1))
qed

lemma holds_locks_mono:
  "\<forall>k. readLocked ls k \<subseteq> readLocked ls' k \<and> writeLocked ls k \<subseteq> writeLocked ls' k \<Longrightarrow>
   holds_locks ls tid txn \<Longrightarrow> holds_locks ls' tid txn"
  by (force simp: holds_locks_def)

lemma holds_locks_drop:
  assumes "locks_wf ls" and "dropLocks ls tid txn = Inr ls'" and "tid' \<noteq> tid"
  shows "holds_locks ls tid' t \<Longrightarrow> holds_locks ls' tid' t"
    and "tid' \<in> readLocked ls k \<Longrightarrow> tid' \<in> readLocked ls' k"
  using dropLocks_releases [OF assms(1), of tid txn] assms(2,3) by (auto simp: holds_locks_def)

lemma Get_locks_grow:
  assumes "locks_wf (lk_locks s)" and "LockStore_Get c s tid key = Inr (r, v, s')"
  shows "locks_wf (lk_locks s') \<and> lk_store s' = lk_store s \<and> lk_prepared s' = lk_prepared s \<and>
    (\<forall>k. readLocked (lk_locks s) k \<subseteq> readLocked (lk_locks s') k) \<and>
    writeLocked (lk_locks s') = writeLocked (lk_locks s) \<and>
    (r = REPLY_OK \<longrightarrow> tid \<in> readLocked (lk_locks s') key \<and>
      v = map_option (Pair Timestamp_default) (KVStore_get (lk_store s) key))"
proof (cases "KVStore_get (lk_store s) key")
  case None
  then show ?thesis using assms by (simp add: LockStore_Get_def reply_defs)
next
  case (Some val)
  with assms(2) obtain got ls where
    lock: "lockForRead (fst c) (snd c) (lk_locks s) key tid = Inr (got, ls)"
    and res: "(r, v, s') = (if got then (REPLY_OK, Some (Timestamp_default, val), s\<lparr>lk_locks := ls\<rparr>)
      else (REPLY_RETRY, None, s\<lparr>lk_locks := ls\<rparr>))"
    by (auto simp: LockStore_Get_def split: if_splits)
  from lks.lockR_law [OF assms(1) lock] res Some show ?thesis
    by (auto simp: reply_defs split: if_splits)
qed

lemma lk_inv_drop:
  assumes "lk_inv s" and "dropLocks (lk_locks s) tid txn = Inr ls"
  shows "lk_inv (s\<lparr>lk_store := st, lk_locks := ls, lk_prepared := omap_del tid (lk_prepared s)\<rparr>)"
proof -
  have wf: "locks_wf (lk_locks s)" using assms(1) by (simp add: lk_inv_def)
  have "locks_wf ls" using dropLocks_releases [OF wf, of tid txn] assms(2) by auto
  with assms(1) holds_locks_drop [OF wf assms(2)] show ?thesis
    by (auto simp: lk_inv_def split: if_splits)
qed

lemma lk_inv_step: "lk_step s op s' \<Longrightarrow> lk_inv s \<Longrightarrow> lk_inv s'"
proof (induction rule: lk_step.induct)
  case (lk_get c s tid key r v s')
  have "locks_wf (lk_locks s)" using lk_get.prems by (simp add: lk_inv_def)
  note grow = Get_locks_grow [OF this lk_get.hyps]
  then have "holds_locks (lk_locks s) i t \<Longrightarrow> holds_locks (lk_locks s') i t" for i t
    using holds_locks_mono [of "lk_locks s" "lk_locks s'" i t] by simp
  with grow lk_get.prems show ?case by (simp add: lk_inv_def)
next
  case (lk_prepare txn clk s tid r s')
  have wf: "locks_wf (lk_locks s)" using lk_prepare.prems by (simp add: lk_inv_def)
  show ?case
  proof (cases "map_of (lk_prepared s) tid")
    case None
    with lk_prepare.hyps obtain b ls where g: "getLocks clk (lk_locks s) tid txn = Inr (b, ls)"
      and s': "s' = (if b then s\<lparr>lk_locks := ls, lk_prepared := omap_put tid txn (lk_prepared s)\<rparr>
          else s\<lparr>lk_locks := ls\<rparr>)"
      by (auto simp: LockStore_Prepare_def split: if_splits)
    note grow = getLocks_holds [OF wf g]
    then have "holds_locks (lk_locks s) i t \<Longrightarrow> holds_locks ls i t" for i t
      using holds_locks_mono [of "lk_locks s" ls i t] by simp
    with grow lk_prepare.prems lk_prepare.hyps(1) show ?thesis
      by (simp add: s' lk_inv_def)
  qed (use lk_prepare in \<open>auto simp: LockStore_Prepare_def\<close>)
next
  case (lk_commit s tid ts s')
  then show ?case
    by (auto simp: LockStore_Commit_def Let_def intro: lk_inv_drop split: option.splits)
next
  case (lk_abort s tid txn s')
  then obtain ls where "dropLocks (lk_locks s) tid txn = Inr ls"
    and "s' = s\<lparr>lk_locks := ls, lk_prepared := omap_del tid (lk_prepared s)\<rparr>"
    by (auto simp: LockStore_Abort_def)
  then show ?case using lk_inv_drop [OF lk_abort.prems, of tid txn ls "lk_store s"] by simp
next
  case lk_load
  then show ?case by (simp add: lk_inv_def LockStore_Load_def)
qed

lemma lk_inv_run: "lk_run s ops s' \<Longrightarrow> lk_inv s \<Longrightarrow> lk_inv s'"
  by (induction rule: lk_run.induct) (auto intro: lk_inv_step)

section \<open>Strict two-phase locking\<close>

lemma conflict_free_inv:
  assumes "lk_inv s" and "map_of (lk_prepared s) i = Some t" and "map_of (lk_prepared s) j = Some u"
    and "i \<noteq> j"
  shows "wkeys t \<inter> (rkeys u \<union> wkeys u) = {}"
proof -
  have wf: "locks_wf (lk_locks s)" and t: "holds_locks (lk_locks s) i t"
    and u: "holds_locks (lk_locks s) j u"
    using assms(1-3) by (simp_all add: lk_inv_def)
  have "j = i" if "k \<in> wkeys t" and "k \<in> rkeys u \<union> wkeys u" for k
    using lks.exclusive [OF wf, of i k j] that t u unfolding holds_locks_def by blast
  with assms(4) show ?thesis by blast
qed

text \<open>What a commit installs, and that a transaction's locks on its keys are gone afterwards.\<close>

lemma Commit_effect:
  assumes "lk_inv s" and "map_of (lk_prepared s) i = Some txn"
  shows "\<exists>s'. LockStore_Commit s i ts = Inr s' \<and>
    (\<forall>k. KVStore_get (lk_store s') k =
       (case map_of (writeSet txn) k of Some v \<Rightarrow> Some v | None \<Rightarrow> KVStore_get (lk_store s) k)) \<and>
    map_of (lk_prepared s') = (map_of (lk_prepared s))(i := None) \<and>
    (\<forall>k\<in>rkeys txn. i \<notin> readLocked (lk_locks s') k) \<and>
    (\<forall>k\<in>wkeys txn. i \<notin> writeLocked (lk_locks s') k)"
proof -
  have "locks_wf (lk_locks s)" and wf: "distinct (map fst (writeSet txn))"
    using assms by (simp_all add: lk_inv_def txn_wf_def)
  from dropLocks_releases [OF this(1), of i txn] obtain ls where
    "dropLocks (lk_locks s) i txn = Inr ls"
    "\<forall>k\<in>rkeys txn. i \<notin> readLocked ls k" "\<forall>k\<in>wkeys txn. i \<notin> writeLocked ls k" by auto
  with assms(2) kv.kget_fold_puts [OF wf, of "lk_store s"] show ?thesis
    by (simp add: LockStore_Commit_def)
qed

text \<open>The operations of other transactions: none of them loads data or ends transaction \<open>i\<close>.\<close>

definition lk_other :: "u64 \<Rightarrow> lk_op \<Rightarrow> bool" where
  "lk_other i op \<longleftrightarrow>
     (case op of LkCommit j _ \<Rightarrow> j \<noteq> i | LkAbort j _ \<Rightarrow> j \<noteq> i | LkLoad _ _ _ \<Rightarrow> False | _ \<Rightarrow> True)"

lemma lk_other_step:
  assumes "lk_step s op s'" and "lk_inv s" and "lk_other i op" and "i \<in> readLocked (lk_locks s) k"
  shows "i \<in> readLocked (lk_locks s') k \<and> KVStore_get (lk_store s') k = KVStore_get (lk_store s) k"
  using assms
proof (induction rule: lk_step.induct)
  case (lk_get c s tid key r v s')
  have "locks_wf (lk_locks s)" using lk_get.prems by (simp add: lk_inv_def)
  from Get_locks_grow [OF this lk_get.hyps] lk_get.prems(3) show ?case by auto
next
  case (lk_prepare txn clk s tid r s')
  have wf: "locks_wf (lk_locks s)" using lk_prepare.prems by (simp add: lk_inv_def)
  from lk_prepare.hyps(2) show ?case
    using lk_prepare.prems(3) getLocks_holds [OF wf, of clk tid txn]
    by (fastforce simp: LockStore_Prepare_def split: if_splits)
next
  case (lk_commit s tid ts s')
  have wf: "locks_wf (lk_locks s)" using lk_commit.prems by (simp add: lk_inv_def)
  from lk_commit.hyps obtain txn ls where txn: "map_of (lk_prepared s) tid = Some txn"
    and drop: "dropLocks (lk_locks s) tid txn = Inr ls" and s': "lk_locks s' = ls"
    by (auto simp: LockStore_Commit_def Let_def split: option.splits)
  have ne: "i \<noteq> tid" using lk_commit.prems by (auto simp: lk_other_def)
  have "holds_locks (lk_locks s) tid txn" using lk_commit.prems(1) txn by (simp add: lk_inv_def)
  then have "k \<notin> wkeys txn"
    using lks.exclusive [OF wf, of tid k i] ne lk_commit.prems(3) unfolding holds_locks_def by blast
  then have "map_of (writeSet txn) k = None" by (simp add: map_of_eq_None_iff)
  with Commit_effect [OF lk_commit.prems(1) txn, of ts] lk_commit.hyps
    holds_locks_drop(2) [OF wf drop ne lk_commit.prems(3)] s' show ?case by auto
next
  case (lk_abort s tid txn s')
  have wf: "locks_wf (lk_locks s)" using lk_abort.prems by (simp add: lk_inv_def)
  have ne: "i \<noteq> tid" using lk_abort.prems by (auto simp: lk_other_def)
  from lk_abort.hyps holds_locks_drop(2) [OF wf _ ne lk_abort.prems(3)] show ?case
    by (auto simp: LockStore_Abort_def)
qed (simp add: lk_other_def)

lemma lk_other_run:
  assumes "lk_run s ops s'" and "lk_inv s" and "\<forall>op\<in>set ops. lk_other i op"
    and "i \<in> readLocked (lk_locks s) k"
  shows "i \<in> readLocked (lk_locks s') k \<and> KVStore_get (lk_store s') k = KVStore_get (lk_store s) k"
  using assms
proof (induction rule: lk_run.induct)
  case (lk_snoc s ops s1 op s2)
  then have "i \<in> readLocked (lk_locks s1) k \<and> KVStore_get (lk_store s1) k = KVStore_get (lk_store s) k"
    by simp
  with lk_other_step [OF lk_snoc.hyps(2) lk_inv_run [OF lk_snoc.hyps(1) lk_snoc.prems(1)],
      of i k] lk_snoc.prems(2) show ?case by simp
qed simp

text \<open>
  A concrete run: two keys are loaded, transaction 1 prepares a read of \<open>a\<close> and a write of \<open>b\<close>,
  transaction 2 prepares a read of \<open>a\<close>.
\<close>

definition ex_clk :: "nat \<Rightarrow> timeval \<times> timeval" where
  "ex_clk i = (\<lparr>tv_sec = 1, tv_usec = int i\<rparr>, \<lparr>tv_sec = 1, tv_usec = int i\<rparr>)"

definition ex_t1 :: Transaction where
  "ex_t1 = \<lparr>readSet = [(''a'', Timestamp_default)], writeSet = [(''b'', ''1'')]\<rparr>"

definition ex_t2 :: Transaction where
  "ex_t2 = \<lparr>readSet = [(''a'', Timestamp_default)], writeSet = []\<rparr>"

definition ex_s0 :: LockStore where
  "ex_s0 = LockStore_Load LockStore_init ''a'' ''0'' Timestamp_default"

definition ex_s1 :: LockStore where
  "ex_s1 = snd (projr (LockStore_Prepare ex_clk ex_s0 1 ex_t1))"

definition ex_s2 :: LockStore where
  "ex_s2 = snd (projr (LockStore_Prepare ex_clk ex_s1 2 ex_t2))"

lemmas ex_lock_defs = ex_clk_def ex_t1_def ex_t2_def LockStore_Prepare_def getLocks_def
  lockForRead_def lockForWrite_def tryAcquireLock_def isWriteNext_def lock_at_def set_lock_def
  Lock_new_def LockStore_init_def LockServer_init_def

lemma ex_s1: "LockStore_Prepare ex_clk ex_s0 1 ex_t1 = Inr (REPLY_OK, ex_s1)"
  "map_of (lk_prepared ex_s1) 1 = Some ex_t1"
  by (simp_all add: ex_s1_def ex_s0_def LockStore_Load_def ex_lock_defs)

lemma ex_s2: "LockStore_Prepare ex_clk ex_s1 2 ex_t2 = Inr (REPLY_OK, ex_s2)"
  "map_of (lk_prepared ex_s2) 1 = Some ex_t1" "map_of (lk_prepared ex_s2) 2 = Some ex_t2"
  by (simp_all add: ex_s2_def ex_s1_def ex_s0_def LockStore_Load_def ex_lock_defs)

lemma ex_run0: "lk_run LockStore_init [LkLoad ''a'' ''0'' Timestamp_default] ex_s0"
  using lk_snoc [OF lk_nil lk_load] by (simp add: ex_s0_def)

lemma ex_run2: "lk_run LockStore_init
    [LkLoad ''a'' ''0'' Timestamp_default, LkPrepare 1 ex_t1, LkPrepare 2 ex_t2] ex_s2"
  using lk_snoc [OF lk_snoc [OF ex_run0 lk_prepare [OF _ ex_s1(1)]] lk_prepare [OF _ ex_s2(1)]]
  by (simp add: txn_wf_def ex_t1_def ex_t2_def)

text \<open>
  C7. Conflict serializability of the prepared transactions: in every state that the store reaches
  from the empty one, two different prepared transactions never conflict, i.e. neither writes a key
  that the other one reads or writes.
\<close>

theorem prepared_conflict_free:
  assumes "lk_run LockStore_init ops s"
    and "map_of (lk_prepared s) i = Some t" and "map_of (lk_prepared s) j = Some u" and "i \<noteq> j"
  shows "wkeys t \<inter> (rkeys u \<union> wkeys u) = {}"
  using conflict_free_inv [OF lk_inv_run [OF assms(1) lk_inv_init] assms(2-4)] .

theorem prepared_conflict_free_witness:
  "wkeys ex_t1 \<inter> (rkeys ex_t2 \<union> wkeys ex_t2) = {} \<and> wkeys ex_t1 \<noteq> {} \<and> rkeys ex_t2 \<noteq> {}"
  using prepared_conflict_free [OF ex_run2 ex_s2(2) ex_s2(3)] by (simp add: ex_t1_def ex_t2_def)

text \<open>
  Repeatable reads: a value that a successful \<open>Get\<close> returned is still the value of the key
  after any further operations, as long as the reader itself neither commits nor aborts.
\<close>

theorem repeatable_read:
  assumes "lk_run LockStore_init ops s" and "LockStore_Get c s i key = Inr (REPLY_OK, Some (ts, val), s1)"
    and "lk_run s1 ops' s2" and "\<forall>op\<in>set ops'. lk_other i op"
  shows "KVStore_get (lk_store s2) key = Some val \<and> i \<in> readLocked (lk_locks s2) key"
proof -
  have inv: "lk_inv s" using lk_inv_run [OF assms(1) lk_inv_init] .
  then have inv1: "lk_inv s1" using lk_inv_step [OF lk_get [OF assms(2)]] by simp
  have "locks_wf (lk_locks s)" using inv by (simp add: lk_inv_def)
  from Get_locks_grow [OF this assms(2)] lk_other_run [OF assms(3) inv1 assms(4)] show ?thesis
    by (cases "KVStore_get (lk_store s) key") auto
qed

theorem repeatable_read_witness:
  "\<exists>s1. LockStore_Get (ex_clk 0) ex_s0 2 ''a'' = Inr (REPLY_OK, Some (Timestamp_default, ''0''), s1) \<and>
     KVStore_get (lk_store s1) ''a'' = Some ''0'' \<and> 2 \<in> readLocked (lk_locks s1) ''a''"
proof -
  obtain s1 where get: "LockStore_Get (ex_clk 0) ex_s0 2 ''a'' =
      Inr (REPLY_OK, Some (Timestamp_default, ''0''), s1)"
    by (simp add: LockStore_Get_def ex_s0_def LockStore_Load_def KVStore_get_def KVStore_put_def
        KVStore_init_def ex_lock_defs)
  from repeatable_read [OF ex_run0 get lk_nil] get show ?thesis by simp
qed

text \<open>
  Commit of a prepared transaction never fails its assertions; it installs exactly the write
  set, forgets the transaction and gives back its read and write locks.
\<close>

theorem LockStore_Commit_installs:
  assumes "lk_run LockStore_init ops s" and "map_of (lk_prepared s) i = Some txn"
  shows "\<exists>s'. LockStore_Commit s i ts = Inr s' \<and>
    (\<forall>k. KVStore_get (lk_store s') k =
       (case map_of (writeSet txn) k of Some v \<Rightarrow> Some v | None \<Rightarrow> KVStore_get (lk_store s) k)) \<and>
    map_of (lk_prepared s') = (map_of (lk_prepared s))(i := None) \<and>
    (\<forall>k\<in>rkeys txn. i \<notin> readLocked (lk_locks s') k) \<and>
    (\<forall>k\<in>wkeys txn. i \<notin> writeLocked (lk_locks s') k)"
  using Commit_effect [OF lk_inv_run [OF assms(1) lk_inv_init] assms(2)] .

theorem LockStore_Commit_installs_witness:
  "\<exists>s'. LockStore_Commit ex_s2 1 0 = Inr s' \<and> KVStore_get (lk_store s') ''b'' = Some ''1'' \<and>
     1 \<notin> writeLocked (lk_locks s') ''b''"
  using LockStore_Commit_installs [OF ex_run2 ex_s2(2), of 0]
  by (auto simp: ex_t1_def)

end
