(* ===== verification/Occ_Store.thy ===== *)
theory Occ_Store
  imports Kv_Stores
begin

text \<open>
  The optimistic store of \<^verbatim>\<open>store/strongstore/occstore.cc\<close>: it validates the read set against the
  latest committed versions and both sets against the transactions that are already prepared.
  \<open>occ_step\<close> is the store's step relation. What a prepared transaction read stays current
  until it ends; the one gap of the validation, reads of keys that have no version yet, is part of
  the statements.
\<close>

section \<open>State and operations\<close>

record OCCStore =
  oc_store :: VersionedKVStore
  oc_prepared :: "(u64 \<times> Transaction) list"

definition OCCStore_init :: OCCStore where
  "OCCStore_init = \<lparr>oc_store = VersionedKVStore_init, oc_prepared = []\<rparr>"

definition OCCStore_Get :: "OCCStore \<Rightarrow> u64 \<Rightarrow> string \<Rightarrow> int \<times> VersionedValue option" where
  "OCCStore_Get s tid key =
     (case get_latest (oc_store s) key of
        Some v \<Rightarrow> (REPLY_OK, Some v)
      | None \<Rightarrow> (REPLY_FAIL, None))"

definition OCCStore_Get_at ::
  "OCCStore \<Rightarrow> u64 \<Rightarrow> string \<Rightarrow> Timestamp \<Rightarrow> int \<times> VersionedValue option" where
  "OCCStore_Get_at s tid key timestamp =
     (case get_at (oc_store s) key timestamp of
        Some v \<Rightarrow> (REPLY_OK, Some v)
      | None \<Rightarrow> (REPLY_FAIL, None))"

definition OCC_getPreparedWrites :: "OCCStore \<Rightarrow> string set" where
  "OCC_getPreparedWrites s =
     set (concat (map (\<lambda>(i, t). map fst (writeSet t)) (oc_prepared s)))"

definition OCC_getPreparedReadWrites :: "OCCStore \<Rightarrow> string set" where
  "OCC_getPreparedReadWrites s =
     set (concat (map (\<lambda>(i, t). map fst (writeSet t) @ map fst (readSet t)) (oc_prepared s)))"

definition OCCStore_Abort :: "OCCStore \<Rightarrow> u64 \<Rightarrow> Transaction \<Rightarrow> OCCStore" where
  "OCCStore_Abort s tid txn = s\<lparr>oc_prepared := omap_del tid (oc_prepared s)\<rparr>"

text \<open>The loop over the read set: \<open>False\<close> is the return of \<^verbatim>\<open>REPLY_FAIL\<close> from its body.\<close>

fun occ_reads_ok :: "VersionedKVStore \<Rightarrow> string set \<Rightarrow> (string \<times> Timestamp) list \<Rightarrow> bool" where
  "occ_reads_ok st pWrites [] = True"
| "occ_reads_ok st pWrites ((k, t) # rs) =
     (case get_latest st k of
        None \<Rightarrow> occ_reads_ok st pWrites rs
      | Some cur \<Rightarrow>
          if Timestamp_gt (fst cur) t then False
          else if k \<in> pWrites then False
          else occ_reads_ok st pWrites rs)"

fun occ_writes_ok :: "string set \<Rightarrow> (string \<times> string) list \<Rightarrow> bool" where
  "occ_writes_ok pRW [] = True"
| "occ_writes_ok pRW ((k, v) # ws) = (if k \<in> pRW then False else occ_writes_ok pRW ws)"

definition OCCStore_Prepare :: "OCCStore \<Rightarrow> u64 \<Rightarrow> Transaction \<Rightarrow> int \<times> OCCStore" where
  "OCCStore_Prepare s tid txn =
     (if map_of (oc_prepared s) tid \<noteq> None then (REPLY_OK, s)
      else
        let pWrites = OCC_getPreparedWrites s;
            pRW = OCC_getPreparedReadWrites s
        in if \<not> occ_reads_ok (oc_store s) pWrites (readSet txn)
           then (REPLY_FAIL, OCCStore_Abort s tid Transaction_empty)
           else if \<not> occ_writes_ok pRW (writeSet txn)
           then (REPLY_FAIL, OCCStore_Abort s tid Transaction_empty)
           else (REPLY_OK, s\<lparr>oc_prepared := omap_put tid txn (oc_prepared s)\<rparr>))"

definition OCCStore_Commit :: "OCCStore \<Rightarrow> u64 \<Rightarrow> u64 \<Rightarrow> OCCStore outcome" where
  "OCCStore_Commit s tid timestamp =
     (case map_of (oc_prepared s) tid of
        None \<Rightarrow> Inl (AssertFail ''prepared.find(id) != prepared.end()'')
      | Some txn \<Rightarrow>
          Inr (s\<lparr>oc_store := fold (\<lambda>(k, v) st. VersionedKVStore_put st k v
                                     (Timestamp_of_u64 timestamp)) (writeSet txn) (oc_store s),
                 oc_prepared := omap_del tid (oc_prepared s)\<rparr>))"

definition OCCStore_Load :: "OCCStore \<Rightarrow> string \<Rightarrow> string \<Rightarrow> Timestamp \<Rightarrow> OCCStore" where
  "OCCStore_Load s key v timestamp =
     s\<lparr>oc_store := VersionedKVStore_put (oc_store s) key v timestamp\<rparr>"

section \<open>Runs\<close>

datatype occ_op =
    OcPrepare u64 Transaction
  | OcCommit u64 u64
  | OcAbort u64 Transaction

inductive occ_step :: "OCCStore \<Rightarrow> occ_op \<Rightarrow> OCCStore \<Rightarrow> bool" where
  oc_prepare: "txn_wf txn \<Longrightarrow> OCCStore_Prepare s tid txn = (r, s') \<Longrightarrow>
    occ_step s (OcPrepare tid txn) s'"
| oc_commit: "OCCStore_Commit s tid ts = Inr s' \<Longrightarrow> occ_step s (OcCommit tid ts) s'"
| oc_abort: "occ_step s (OcAbort tid txn) (OCCStore_Abort s tid txn)"

inductive occ_run :: "OCCStore \<Rightarrow> occ_op list \<Rightarrow> OCCStore \<Rightarrow> bool" where
  oc_nil: "occ_run s [] s"
| oc_snoc: "occ_run s ops s1 \<Longrightarrow> occ_step s1 op s2 \<Longrightarrow> occ_run s (ops @ [op]) s2"

text \<open>
  A store that has only been loaded. \<^verbatim>\<open>Load\<close> is called by \<^verbatim>\<open>main\<close> before the server starts
  to take requests.
\<close>

inductive occ_loaded :: "OCCStore \<Rightarrow> bool" where
  oc_init: "occ_loaded OCCStore_init"
| oc_load: "occ_loaded s \<Longrightarrow> occ_loaded (OCCStore_Load s key v t)"

text \<open>Two prepared transactions write different keys, and only a key without versions is read
  by one and written by the other.\<close>

definition occ_pair :: "VersionedKVStore \<Rightarrow> Transaction \<Rightarrow> Transaction \<Rightarrow> bool" where
  "occ_pair st t u \<longleftrightarrow> wkeys t \<inter> wkeys u = {} \<and> (\<forall>k\<in>wkeys t \<inter> rkeys u. \<not> inStore st k)"

definition occ_inv :: "OCCStore \<Rightarrow> bool" where
  "occ_inv s \<longleftrightarrow>
     vstore_wf (oc_store s) \<and> omap_wf (oc_prepared s) \<and>
     (\<forall>i t. map_of (oc_prepared s) i = Some t \<longrightarrow> txn_wf t) \<and>
     (\<forall>i t j u. map_of (oc_prepared s) i = Some t \<longrightarrow> map_of (oc_prepared s) j = Some u \<longrightarrow> i \<noteq> j \<longrightarrow>
        occ_pair (oc_store s) t u)"

lemma occ_loaded_fresh: "occ_loaded s \<Longrightarrow> vstore_wf (oc_store s) \<and> oc_prepared s = []"
  by (induction rule: occ_loaded.induct) (simp_all add: OCCStore_init_def OCCStore_Load_def)

lemma occ_loaded_inv: "occ_loaded s \<Longrightarrow> occ_inv s"
  using occ_loaded_fresh [of s] by (simp add: occ_inv_def)

lemma occ_reads_ok_iff:
  "occ_reads_ok st P rs \<longleftrightarrow>
     (\<forall>(k, t)\<in>set rs. case get_latest st k of None \<Rightarrow> True | Some cur \<Rightarrow> fst cur \<le> t \<and> k \<notin> P)"
  by (induction st P rs rule: occ_reads_ok.induct) (auto split: option.splits simp: not_less)

lemma occ_reads_okD:
  assumes "occ_reads_ok st P rs" and "(k, t) \<in> set rs" and "get_latest st k = Some cur"
  shows "fst cur \<le> t" and "k \<notin> P"
  using bspec [OF iffD1 [OF occ_reads_ok_iff assms(1)] assms(2)] assms(3) by simp_all

lemma occ_writes_ok_iff: "occ_writes_ok P ws \<longleftrightarrow> fst ` set ws \<inter> P = {}"
  by (induction P ws rule: occ_writes_ok.induct) auto

lemma prepared_mem: "omap_wf m \<Longrightarrow> (i, t) \<in> set m \<longleftrightarrow> map_of m i = Some t"
  using omap_wf_distinct [of m] by auto

lemma OCC_prepared_sets:
  assumes "map_of (oc_prepared s) i = Some t"
  shows "wkeys t \<subseteq> OCC_getPreparedWrites s" and "wkeys t \<union> rkeys t \<subseteq> OCC_getPreparedReadWrites s"
proof -
  have mem: "(i, t) \<in> set (oc_prepared s)" using map_of_SomeD [OF assms] .
  show "wkeys t \<subseteq> OCC_getPreparedWrites s"
    unfolding OCC_getPreparedWrites_def set_concat set_map using mem by (auto intro!: bexI)
  show "wkeys t \<union> rkeys t \<subseteq> OCC_getPreparedReadWrites s"
    unfolding OCC_getPreparedReadWrites_def set_concat set_map using mem by (auto intro!: bexI)
qed

lemma inStore_latest: "inStore st k \<Longrightarrow> get_latest st k = Some (last (store_at st k))"
  by (simp add: get_latest_def)

lemma OCC_Prepare_new:
  assumes "map_of (oc_prepared s) tid = None"
  shows "OCCStore_Prepare s tid txn =
    (if occ_reads_ok (oc_store s) (OCC_getPreparedWrites s) (readSet txn) \<and>
        occ_writes_ok (OCC_getPreparedReadWrites s) (writeSet txn)
     then (REPLY_OK, s\<lparr>oc_prepared := omap_put tid txn (oc_prepared s)\<rparr>)
     else (REPLY_FAIL, s\<lparr>oc_prepared := omap_del tid (oc_prepared s)\<rparr>))"
  using assms by (simp add: OCCStore_Prepare_def OCCStore_Abort_def)

lemma occ_inv_del: "occ_inv s \<Longrightarrow> occ_inv (s\<lparr>oc_prepared := omap_del i (oc_prepared s)\<rparr>)"
  by (simp add: occ_inv_def)

lemma occ_pair_new:
  assumes rd: "occ_reads_ok (oc_store s) (OCC_getPreparedWrites s) (readSet txn)"
    and wr: "occ_writes_ok (OCC_getPreparedReadWrites s) (writeSet txn)"
    and t: "map_of (oc_prepared s) i = Some t"
  shows "occ_pair (oc_store s) txn t" and "occ_pair (oc_store s) t txn"
proof -
  have new: "wkeys txn \<inter> (wkeys t \<union> rkeys t) = {}"
    using OCC_prepared_sets(2) [OF t] wr unfolding occ_writes_ok_iff by blast
  have "\<not> inStore (oc_store s) k" if k: "k \<in> wkeys t \<inter> rkeys txn" for k
  proof -
    obtain rt where "(k, rt) \<in> set (readSet txn)" using k by auto
    then show ?thesis
      using occ_reads_okD(2) [OF rd _ inStore_latest] OCC_prepared_sets(1) [OF t] k by blast
  qed
  with new show "occ_pair (oc_store s) txn t" and "occ_pair (oc_store s) t txn"
    unfolding occ_pair_def by blast+
qed

lemma occ_inv_admit:
  assumes inv: "occ_inv s" and "txn_wf txn"
    and rd: "occ_reads_ok (oc_store s) (OCC_getPreparedWrites s) (readSet txn)"
    and wr: "occ_writes_ok (OCC_getPreparedReadWrites s) (writeSet txn)"
  shows "occ_inv (s\<lparr>oc_prepared := omap_put tid txn (oc_prepared s)\<rparr>)"
  using assms(1,2) occ_pair_new [OF rd wr] by (simp add: occ_inv_def)

lemma inStore_put: "inStore (VersionedKVStore_put st k v t) k' \<longleftrightarrow> k' = k \<or> inStore st k'"
  by (simp add: inStore_iff)

lemma inStore_puts:
  "inStore (fold (\<lambda>(k, v) st. VersionedKVStore_put st k v t) ws st) k \<longleftrightarrow>
     k \<in> fst ` set ws \<or> inStore st k"
  by (induction ws arbitrary: st) (auto simp: inStore_put)

lemma occ_inv_commit:
  assumes inv: "occ_inv s" and t: "map_of (oc_prepared s) i = Some t"
  shows "occ_inv (s\<lparr>oc_store := fold (\<lambda>(k, v) st. VersionedKVStore_put st k v ts) (writeSet t)
      (oc_store s), oc_prepared := omap_del i (oc_prepared s)\<rparr>)"
proof -
  let ?st = "fold (\<lambda>(k, v) st. VersionedKVStore_put st k v ts) (writeSet t) (oc_store s)"
  have "vstore_wf ?st"
    using inv vs.wf_puts [of "oc_store s" "writeSet t" ts] by (simp add: occ_inv_def vs.puts_def)
  moreover have "occ_pair ?st u w"
    if "map_of (oc_prepared s) j = Some u" "map_of (oc_prepared s) l = Some w" "j \<noteq> l" "j \<noteq> i" for j l u w
  proof -
    have "occ_pair (oc_store s) u w" and "occ_pair (oc_store s) u t"
      using inv t that unfolding occ_inv_def by blast+
    note uw = this(1) [unfolded occ_pair_def] and ut = this(2) [unfolded occ_pair_def]
    have "\<not> inStore ?st k" if "k \<in> wkeys u \<inter> rkeys w" for k
      using that bspec [OF conjunct2 [OF uw] that] conjunct1 [OF ut] unfolding inStore_puts by blast
    with conjunct1 [OF uw] show ?thesis unfolding occ_pair_def by blast
  qed
  ultimately show ?thesis using inv by (simp add: occ_inv_def)
qed

lemma occ_inv_step: "occ_step s op s' \<Longrightarrow> occ_inv s \<Longrightarrow> occ_inv s'"
proof (induction rule: occ_step.induct)
  case (oc_prepare txn s tid r s')
  show ?case
  proof (cases "map_of (oc_prepared s) tid")
    case None
    with oc_prepare show ?thesis
      by (auto simp: OCC_Prepare_new occ_inv_admit occ_inv_del split: if_splits)
  qed (use oc_prepare in \<open>simp add: OCCStore_Prepare_def\<close>)
next
  case (oc_commit s tid ts s')
  then show ?case
    by (auto simp: OCCStore_Commit_def intro: occ_inv_commit split: option.splits)
next
  case (oc_abort s tid txn)
  then show ?case by (simp add: OCCStore_Abort_def occ_inv_del)
qed

lemma occ_inv_run: "occ_run s ops s' \<Longrightarrow> occ_inv s \<Longrightarrow> occ_inv s'"
  by (induction rule: occ_run.induct) (auto intro: occ_inv_step)

section \<open>Validated reads stay current\<close>

definition occ_other :: "u64 \<Rightarrow> occ_op \<Rightarrow> bool" where
  "occ_other i op \<longleftrightarrow> (case op of OcCommit j _ \<Rightarrow> j \<noteq> i | OcAbort j _ \<Rightarrow> j \<noteq> i | _ \<Rightarrow> True)"

lemma store_at_puts_other:
  "k \<notin> fst ` set ws \<Longrightarrow>
   store_at (fold (\<lambda>(k, v) st. VersionedKVStore_put st k v t) ws st) k = store_at st k"
  by (induction ws arbitrary: st) auto

lemma occ_other_step:
  assumes "occ_step s op s'" and "occ_inv s" and "occ_other i op"
    and "map_of (oc_prepared s) i = Some t" and "k \<in> rkeys t" and "inStore (oc_store s) k"
  shows "map_of (oc_prepared s') i = Some t \<and> store_at (oc_store s') k = store_at (oc_store s) k"
  using assms
proof (induction rule: occ_step.induct)
  case (oc_prepare txn s tid r s')
  have wf: "omap_wf (oc_prepared s)" using oc_prepare.prems by (simp add: occ_inv_def)
  show ?case
  proof (cases "map_of (oc_prepared s) tid")
    case None
    then have "tid \<noteq> i" using oc_prepare.prems(3) by auto
    with None oc_prepare wf show ?thesis by (auto simp: OCC_Prepare_new split: if_splits)
  qed (use oc_prepare in \<open>simp add: OCCStore_Prepare_def\<close>)
next
  case (oc_commit s tid ts s')
  have ne: "tid \<noteq> i" using oc_commit.prems(2) by (simp add: occ_other_def)
  obtain u where u: "map_of (oc_prepared s) tid = Some u"
    and s': "s' = s\<lparr>oc_store := fold (\<lambda>(k, v) st. VersionedKVStore_put st k v (Timestamp_of_u64 ts))
        (writeSet u) (oc_store s), oc_prepared := omap_del tid (oc_prepared s)\<rparr>"
    using oc_commit.hyps by (auto simp: OCCStore_Commit_def split: option.splits)
  have "occ_pair (oc_store s) u t"
    using oc_commit.prems(1,3) u ne unfolding occ_inv_def by blast
  then have "k \<notin> wkeys u" using oc_commit.prems(4,5) unfolding occ_pair_def by blast
  with s' ne oc_commit.prems(3) show ?case by (simp add: store_at_puts_other)
next
  case (oc_abort s tid txn)
  then show ?case by (auto simp: occ_other_def OCCStore_Abort_def)
qed

lemma occ_other_run:
  assumes "occ_run s ops s'" and "occ_inv s" and "\<forall>op\<in>set ops. occ_other i op"
    and "map_of (oc_prepared s) i = Some t" and "k \<in> rkeys t" and "inStore (oc_store s) k"
  shows "map_of (oc_prepared s') i = Some t \<and> store_at (oc_store s') k = store_at (oc_store s) k"
  using assms
proof (induction rule: occ_run.induct)
  case (oc_snoc s ops s1 op s2)
  then have mid: "map_of (oc_prepared s1) i = Some t \<and> store_at (oc_store s1) k = store_at (oc_store s) k"
    by simp
  then have "inStore (oc_store s1) k" using oc_snoc.prems by (simp add: inStore_iff)
  with occ_other_step [OF oc_snoc.hyps(2) occ_inv_run [OF oc_snoc.hyps(1) oc_snoc.prems(1)], of i t k]
    mid oc_snoc.prems show ?case by simp
qed simp

text \<open>The example: key \<open>a\<close> is loaded, transaction 1 reads it and writes \<open>b\<close>, transaction 2 reads \<open>a\<close>.\<close>

definition ex_oc0 :: OCCStore where
  "ex_oc0 = OCCStore_Load OCCStore_init ''a'' ''0'' (Timestamp 1 0)"

definition ex_ot1 :: Transaction where
  "ex_ot1 = \<lparr>readSet = [(''a'', Timestamp 1 0)], writeSet = [(''b'', ''1'')]\<rparr>"

definition ex_ot2 :: Transaction where
  "ex_ot2 = \<lparr>readSet = [(''a'', Timestamp 1 0)], writeSet = []\<rparr>"

definition ex_oc1 :: OCCStore where
  "ex_oc1 = snd (OCCStore_Prepare ex_oc0 1 ex_ot1)"

definition ex_oc2 :: OCCStore where
  "ex_oc2 = snd (OCCStore_Prepare ex_oc1 2 ex_ot2)"

lemmas ex_occ_defs = ex_oc0_def ex_ot1_def ex_ot2_def OCCStore_Prepare_def OCCStore_Load_def
  OCCStore_init_def VersionedKVStore_init_def VersionedKVStore_put_def store_at_def get_latest_def
  inStore_def OCC_getPreparedWrites_def OCC_getPreparedReadWrites_def

lemma ex_oc0: "occ_loaded ex_oc0"
  unfolding ex_oc0_def by (intro oc_load oc_init)

lemma ex_oc1: "OCCStore_Prepare ex_oc0 1 ex_ot1 = (REPLY_OK, ex_oc1)"
  by (simp add: ex_oc1_def ex_occ_defs)

lemma ex_oc2: "OCCStore_Prepare ex_oc1 2 ex_ot2 = (REPLY_OK, ex_oc2)"
  "map_of (oc_prepared ex_oc2) 1 = Some ex_ot1" "map_of (oc_prepared ex_oc2) 2 = Some ex_ot2"
  by (simp_all add: ex_oc2_def ex_oc1_def ex_occ_defs)

lemma ex_ot_wf: "txn_wf ex_ot1" "txn_wf ex_ot2"
  by (simp_all add: txn_wf_def ex_ot1_def ex_ot2_def)

lemma ex_occ_run: "occ_run ex_oc0 [OcPrepare 1 ex_ot1, OcPrepare 2 ex_ot2] ex_oc2"
  using oc_snoc [OF oc_snoc [OF oc_nil oc_prepare [OF ex_ot_wf(1) ex_oc1]]
      oc_prepare [OF ex_ot_wf(2) ex_oc2(1)]] by simp

text \<open>
  C27. Validation against prepared transactions: in every state reached from a loaded store, two
  different prepared transactions write disjoint key sets, and a key that one writes and the other
  reads has no committed version (the case that \<^verbatim>\<open>Prepare\<close> skips).
\<close>

theorem occ_prepared_compatible:
  assumes "occ_loaded s0" and "occ_run s0 ops s"
    and "map_of (oc_prepared s) i = Some t" and "map_of (oc_prepared s) j = Some u" and "i \<noteq> j"
  shows "wkeys t \<inter> wkeys u = {} \<and> (\<forall>k\<in>wkeys t \<inter> rkeys u. \<not> inStore (oc_store s) k)"
  using occ_inv_run [OF assms(2) occ_loaded_inv [OF assms(1)]] assms(3-5)
  unfolding occ_inv_def occ_pair_def by blast

theorem occ_prepared_compatible_witness:
  "wkeys ex_ot1 \<inter> wkeys ex_ot2 = {} \<and> ''a'' \<in> rkeys ex_ot2 \<and> inStore (oc_store ex_oc2) ''a'' \<and>
   ''a'' \<notin> wkeys ex_ot1"
proof -
  have "''a'' \<in> rkeys ex_ot2" "inStore (oc_store ex_oc2) ''a''"
    by (simp_all add: ex_oc2_def ex_oc1_def ex_occ_defs)
  then show ?thesis using occ_prepared_compatible [OF ex_oc0 ex_occ_run ex_oc2(2,3)] by auto
qed

text \<open>
  Reads stay current: when \<^verbatim>\<open>Prepare\<close> accepts a transaction, each key of its read set that has
  versions is at a version not newer than the one read, and no operation of another transaction
  changes the versions of that key until the transaction ends.
\<close>

theorem occ_reads_stay_current:
  assumes "occ_loaded s0" and "occ_run s0 ops s" and "txn_wf txn"
    and "map_of (oc_prepared s) i = None" and "OCCStore_Prepare s i txn = (REPLY_OK, s1)"
    and "occ_run s1 ops' s2" and "\<forall>op\<in>set ops'. occ_other i op"
    and "(k, rt) \<in> set (readSet txn)" and "get_latest (oc_store s) k = Some cur"
  shows "get_latest (oc_store s2) k = Some cur \<and> fst cur \<le> rt"
proof -
  have inv: "occ_inv s" using occ_inv_run [OF assms(2) occ_loaded_inv [OF assms(1)]] .
  then have inv1: "occ_inv s1" using occ_inv_step [OF oc_prepare [OF assms(3,5)]] by simp
  have rd: "occ_reads_ok (oc_store s) (OCC_getPreparedWrites s) (readSet txn)"
    and s1: "s1 = s\<lparr>oc_prepared := omap_put i txn (oc_prepared s)\<rparr>"
    using assms(5) by (auto simp: OCC_Prepare_new [OF assms(4)] reply_defs split: if_splits)
  have "map_of (oc_prepared s1) i = Some txn" using inv s1 by (simp add: occ_inv_def)
  moreover have "k \<in> rkeys txn" using assms(8) by force
  moreover have "inStore (oc_store s1) k"
    using assms(9) s1 by (simp add: get_latest_def split: if_splits)
  ultimately have "store_at (oc_store s2) k = store_at (oc_store s) k"
    using occ_other_run [OF assms(6) inv1 assms(7)] s1 by simp
  then have "get_latest (oc_store s2) k = get_latest (oc_store s) k"
    by (simp add: get_latest_def inStore_iff)
  with occ_reads_okD(1) [OF rd assms(8,9)] assms(9) show ?thesis by simp
qed

theorem occ_reads_stay_current_witness:
  "get_latest (oc_store ex_oc2) ''a'' = Some (Timestamp 1 0, ''0'') \<and> Timestamp 1 0 \<le> Timestamp 1 0"
proof -
  have "occ_run ex_oc1 [OcPrepare 2 ex_ot2] ex_oc2"
    using oc_snoc [OF oc_nil oc_prepare [OF ex_ot_wf(2) ex_oc2(1)]] by simp
  then show ?thesis
    using occ_reads_stay_current [OF ex_oc0 oc_nil ex_ot_wf(1) _ ex_oc1, of _ _ "''a''"
        "Timestamp 1 0" "(Timestamp 1 0, ''0'')"]
    by (simp add: occ_other_def ex_occ_defs)
qed

end
