(* ===== verification/Tapir_Store.thy ===== *)
theory Tapir_Store
  imports Kv_Stores
begin

text \<open>
  The transactional store of a TAPIR replica, \<^verbatim>\<open>store/tapirstore/store.cc\<close>: optimistic validation
  of a transaction at a proposed commit timestamp against the committed versions and the
  transactions that are prepared. \<^verbatim>\<open>std::set<Timestamp>\<close> is a strictly increasing list.
\<close>

section \<open>State\<close>

record TapirStore =
  linearizable :: bool
  tp_store :: VersionedKVStore
  tp_prepared :: "(u64 \<times> (Timestamp \<times> Transaction)) list"

definition TapirStore_init :: "bool \<Rightarrow> TapirStore" where
  "TapirStore_init lin = \<lparr>linearizable = lin, tp_store = VersionedKVStore_init, tp_prepared = []\<rparr>"

definition TapirStore_Get :: "TapirStore \<Rightarrow> u64 \<Rightarrow> string \<Rightarrow> int \<times> VersionedValue option" where
  "TapirStore_Get s tid key =
     (case get_latest (tp_store s) key of
        Some v \<Rightarrow> (REPLY_OK, Some v)
      | None \<Rightarrow> (REPLY_FAIL, None))"

definition TapirStore_Get_at ::
  "TapirStore \<Rightarrow> u64 \<Rightarrow> string \<Rightarrow> Timestamp \<Rightarrow> int \<times> VersionedValue option" where
  "TapirStore_Get_at s tid key timestamp =
     (case get_at (tp_store s) key timestamp of
        Some v \<Rightarrow> (REPLY_OK, Some v)
      | None \<Rightarrow> (REPLY_FAIL, None))"

section \<open>Prepared reads and writes\<close>

type_synonym tsmap = "string \<rightharpoonup> Timestamp list"

definition tsmap_insert :: "Timestamp \<Rightarrow> string \<Rightarrow> tsmap \<Rightarrow> tsmap" where
  "tsmap_insert t k m = m(k \<mapsto> insort_insert t (case m k of None \<Rightarrow> [] | Some l \<Rightarrow> l))"

definition GetPreparedWrites :: "TapirStore \<Rightarrow> tsmap" where
  "GetPreparedWrites s =
     fold (\<lambda>(i, (ts, txn)) m. fold (\<lambda>(k, v) m. tsmap_insert ts k m) (writeSet txn) m)
       (tp_prepared s) Map.empty"

definition GetPreparedReads :: "TapirStore \<Rightarrow> tsmap" where
  "GetPreparedReads s =
     fold (\<lambda>(i, (ts, txn)) m. fold (\<lambda>(k, rt) m. tsmap_insert ts k m) (readSet txn) m)
       (tp_prepared s) Map.empty"

text \<open>The elements from \<^verbatim>\<open>upper_bound(t)\<close> on, and whether that iterator is not \<^verbatim>\<open>begin()\<close>.\<close>

definition from_upper_bound :: "Timestamp \<Rightarrow> Timestamp list \<Rightarrow> Timestamp list" where
  "from_upper_bound t l = dropWhile (\<lambda>x. x \<le> t) l"

definition upper_bound_not_begin :: "Timestamp \<Rightarrow> Timestamp list \<Rightarrow> bool" where
  "upper_bound_not_begin t l \<longleftrightarrow> takeWhile (\<lambda>x. x \<le> t) l \<noteq> []"

section \<open>Prepare\<close>

text \<open>The loops over the read set and the write set; \<open>Some\<close> is a return from the body.\<close>

fun prepare_reads ::
  "bool \<Rightarrow> VersionedKVStore \<Rightarrow> tsmap \<Rightarrow> Timestamp \<Rightarrow> (string \<times> Timestamp) list \<Rightarrow> int option outcome"
where
  "prepare_reads lin st pWrites timestamp [] = Inr None"
| "prepare_reads lin st pWrites timestamp ((k, rt) # rs) =
     (let (ret, lo, hi) = getRange st k rt (Timestamp_default, Timestamp_default) in
      if \<not> ret then prepare_reads lin st pWrites timestamp rs
      else if Timestamp_ne lo rt then prepare_reads lin st pWrites timestamp rs
      else if \<not> isValid hi then
        (if (case pWrites k of
               None \<Rightarrow> False
             | Some l \<Rightarrow> lin \<or> upper_bound_not_begin timestamp l)
         then Inr (Some REPLY_ABSTAIN)
         else prepare_reads lin st pWrites timestamp rs)
      else if lin \<or> Timestamp_gt timestamp hi then
        obind (assert_that (Timestamp_gt timestamp lo) ''timestamp > range.first'')
          (\<lambda>_. Inr (Some REPLY_FAIL))
      else if (case pWrites k of
                 None \<Rightarrow> False
               | Some l \<Rightarrow> list_ex (\<lambda>w. Timestamp_gt w lo \<and> Timestamp_lt w timestamp) l)
      then Inr (Some REPLY_ABSTAIN)
      else prepare_reads lin st pWrites timestamp rs)"

text \<open>
  The committed part of the write check: \<open>Some t\<close> when the key's latest version or its last read
  calls for a retry after \<open>t\<close>.
\<close>

definition prepare_write_committed ::
  "bool \<Rightarrow> VersionedKVStore \<Rightarrow> Timestamp \<Rightarrow> string \<Rightarrow> Timestamp option outcome" where
  "prepare_write_committed lin st timestamp k =
     (case get_latest st k of
        None \<Rightarrow> Inr None
      | Some val \<Rightarrow>
          if lin \<and> Timestamp_gt (fst val) timestamp then Inr (Some (fst val))
          else obind (if lin then Inr (getLastRead st k) else getLastRead_at st k timestamp)
            (\<lambda>lastRead. case lastRead of
               None \<Rightarrow> Inr None
             | Some t \<Rightarrow> Inr (if Timestamp_gt t timestamp then Some t else None)))"

fun prepare_writes ::
  "bool \<Rightarrow> VersionedKVStore \<Rightarrow> tsmap \<Rightarrow> tsmap \<Rightarrow> Timestamp \<Rightarrow> Timestamp \<Rightarrow> (string \<times> string) list
    \<Rightarrow> (int \<times> Timestamp) option outcome"
where
  "prepare_writes lin st pWrites pReads timestamp proposed [] = Inr None"
| "prepare_writes lin st pWrites pReads timestamp proposed ((k, v) # ws) =
     obind (prepare_write_committed lin st timestamp k) (\<lambda>committed.
       case committed of
         Some t \<Rightarrow> Inr (Some (REPLY_RETRY, t))
       | None \<Rightarrow>
           (case (if lin then (case pWrites k of None \<Rightarrow> [] | Some l \<Rightarrow> from_upper_bound timestamp l)
                  else []) of
              t # _ \<Rightarrow> Inr (Some (REPLY_RETRY, t))
            | [] \<Rightarrow>
                if (case pReads k of None \<Rightarrow> False | Some l \<Rightarrow> from_upper_bound timestamp l \<noteq> [])
                then Inr (Some (REPLY_ABSTAIN, proposed))
                else prepare_writes lin st pWrites pReads timestamp proposed ws))"

definition prepare_fresh ::
  "TapirStore \<Rightarrow> u64 \<Rightarrow> Transaction \<Rightarrow> Timestamp \<Rightarrow> Timestamp \<Rightarrow> (int \<times> Timestamp \<times> TapirStore) outcome"
where
  "prepare_fresh s tid txn timestamp proposed =
     (let pWrites = GetPreparedWrites s; pReads = GetPreparedReads s in
      obind (prepare_reads (linearizable s) (tp_store s) pWrites timestamp (readSet txn)) (\<lambda>r.
        case r of
          Some reply \<Rightarrow> Inr (reply, proposed, s)
        | None \<Rightarrow>
            obind (prepare_writes (linearizable s) (tp_store s) pWrites pReads timestamp proposed
                     (writeSet txn)) (\<lambda>r.
              case r of
                Some (reply, p) \<Rightarrow> Inr (reply, p, s)
              | None \<Rightarrow>
                  Inr (REPLY_OK, proposed,
                       s\<lparr>tp_prepared := AList.update tid (timestamp, txn) (tp_prepared s)\<rparr>))))"

definition TapirStore_Prepare ::
  "TapirStore \<Rightarrow> u64 \<Rightarrow> Transaction \<Rightarrow> Timestamp \<Rightarrow> Timestamp \<Rightarrow> (int \<times> Timestamp \<times> TapirStore) outcome"
where
  "TapirStore_Prepare s tid txn timestamp proposed =
     (case map_of (tp_prepared s) tid of
        Some (ts, t) \<Rightarrow>
          if Timestamp_eq ts timestamp then Inr (REPLY_OK, proposed, s)
          else prepare_fresh (s\<lparr>tp_prepared := AList.delete tid (tp_prepared s)\<rparr>) tid txn timestamp
                 proposed
      | None \<Rightarrow> prepare_fresh s tid txn timestamp proposed)"

section \<open>Commit, Abort, Load\<close>

definition TapirStore_Commit_txn :: "VersionedKVStore \<Rightarrow> Timestamp \<Rightarrow> Transaction \<Rightarrow> VersionedKVStore" where
  "TapirStore_Commit_txn st timestamp txn =
     fold (\<lambda>(k, v) st. VersionedKVStore_put st k v timestamp) (writeSet txn)
       (fold (\<lambda>(k, rt) st. commitGet st k rt timestamp) (readSet txn) st)"

text \<open>\<^verbatim>\<open>prepared[id]\<close> of an absent id is the default pair, which is erased again.\<close>

definition TapirStore_Commit :: "TapirStore \<Rightarrow> u64 \<Rightarrow> u64 \<Rightarrow> TapirStore" where
  "TapirStore_Commit s tid timestamp =
     (let p = (case map_of (tp_prepared s) tid of
                 Some p \<Rightarrow> p
               | None \<Rightarrow> (Timestamp_default, Transaction_empty))
      in s\<lparr>tp_store := TapirStore_Commit_txn (tp_store s) (fst p) (snd p),
           tp_prepared := AList.delete tid (tp_prepared s)\<rparr>)"

definition TapirStore_Abort :: "TapirStore \<Rightarrow> u64 \<Rightarrow> Transaction \<Rightarrow> TapirStore" where
  "TapirStore_Abort s tid txn =
     (if map_of (tp_prepared s) tid \<noteq> None
      then s\<lparr>tp_prepared := AList.delete tid (tp_prepared s)\<rparr> else s)"

definition TapirStore_Load :: "TapirStore \<Rightarrow> string \<Rightarrow> string \<Rightarrow> Timestamp \<Rightarrow> TapirStore" where
  "TapirStore_Load s key v timestamp =
     s\<lparr>tp_store := VersionedKVStore_put (tp_store s) key v timestamp\<rparr>"

section \<open>What the prepared maps hold\<close>

definition tsmap_set :: "tsmap \<Rightarrow> string \<Rightarrow> Timestamp set" where
  "tsmap_set m k = (case m k of None \<Rightarrow> {} | Some l \<Rightarrow> set l)"

definition tsmap_wf :: "tsmap \<Rightarrow> bool" where
  "tsmap_wf m \<longleftrightarrow> (\<forall>k l. m k = Some l \<longrightarrow> sorted l)"

text \<open>The timestamps at which transactions are prepared to write, or to read, a key.\<close>

definition pending_writes :: "TapirStore \<Rightarrow> string \<Rightarrow> Timestamp set" where
  "pending_writes s k = {ts. \<exists>i txn. (i, (ts, txn)) \<in> set (tp_prepared s) \<and> k \<in> wkeys txn}"

definition pending_reads :: "TapirStore \<Rightarrow> string \<Rightarrow> Timestamp set" where
  "pending_reads s k = {ts. \<exists>i txn. (i, (ts, txn)) \<in> set (tp_prepared s) \<and> k \<in> rkeys txn}"

lemma tsmap_wf_empty [simp]: "tsmap_wf Map.empty"
  by (simp add: tsmap_wf_def)

lemma tsmap_wf_insert [wf_intros]: "tsmap_wf m \<Longrightarrow> tsmap_wf (tsmap_insert t k m)"
  by (auto simp: tsmap_wf_def tsmap_insert_def sorted_insort_insert split: option.splits)

lemma tsmap_set_insert [simp]:
  "tsmap_set (tsmap_insert t k m) k' = (if k' = k then insert t (tsmap_set m k') else tsmap_set m k')"
  by (simp add: tsmap_set_def tsmap_insert_def set_insort_insert split: option.splits)

lemma tsmap_set_empty [simp]: "tsmap_set Map.empty k = {}"
  by (simp add: tsmap_set_def)

lemma tsmap_inner_wf: "tsmap_wf m \<Longrightarrow> tsmap_wf (fold (\<lambda>(k, v) m. tsmap_insert t k m) xs m)"
  by (induction xs arbitrary: m) (auto simp: tsmap_wf_insert)

lemma tsmap_inner_set:
  "tsmap_set (fold (\<lambda>(k, v) m. tsmap_insert t k m) xs m) k' =
     (if k' \<in> fst ` set xs then {t} else {}) \<union> tsmap_set m k'"
proof (induction xs arbitrary: m)
  case (Cons x xs)
  then show ?case by (cases "k' \<in> fst ` set xs"; cases x; simp)
qed simp

lemma tsmap_outer:
  assumes "\<And>t txn m. tsmap_wf m \<Longrightarrow> tsmap_wf (g t txn m)"
    and "\<And>t txn m k. tsmap_set (g t txn m) k = (if k \<in> K txn then {t} else {}) \<union> tsmap_set m k"
  shows "tsmap_wf m \<Longrightarrow> tsmap_wf (fold (\<lambda>(i, (t, txn)) m. g t txn m) ps m)"
    and "tsmap_set (fold (\<lambda>(i, (t, txn)) m. g t txn m) ps m) k =
      {t. \<exists>i txn. (i, (t, txn)) \<in> set ps \<and> k \<in> K txn} \<union> tsmap_set m k"
proof -
  show "tsmap_wf m \<Longrightarrow> tsmap_wf (fold (\<lambda>(i, (t, txn)) m. g t txn m) ps m)"
    by (induction ps arbitrary: m) (auto simp: assms(1))
  show "tsmap_set (fold (\<lambda>(i, (t, txn)) m. g t txn m) ps m) k =
      {t. \<exists>i txn. (i, (t, txn)) \<in> set ps \<and> k \<in> K txn} \<union> tsmap_set m k"
  proof (induction ps arbitrary: m)
    case (Cons p ps)
    obtain i t txn where p: "p = (i, (t, txn))" by (cases p) auto
    show ?case by (auto simp: p Cons.IH assms(2) split: if_splits)
  qed (simp add: tsmap_set_def)
qed

lemma GetPreparedWrites_spec:
  "tsmap_wf (GetPreparedWrites s)" "tsmap_set (GetPreparedWrites s) k = pending_writes s k"
  unfolding GetPreparedWrites_def pending_writes_def
  by (rule tsmap_outer(1) [where K = wkeys], simp_all add: tsmap_inner_wf tsmap_inner_set)
    (subst tsmap_outer(2) [where K = wkeys], simp_all add: tsmap_inner_wf tsmap_inner_set)

lemma GetPreparedReads_spec:
  "tsmap_set (GetPreparedReads s) k = pending_reads s k"
  unfolding GetPreparedReads_def pending_reads_def
  by (subst tsmap_outer(2) [where K = rkeys]) (simp_all add: tsmap_inner_wf tsmap_inner_set)

lemma upper_bound_not_begin_iff:
  "sorted l \<Longrightarrow> upper_bound_not_begin t l \<longleftrightarrow> (\<exists>x\<in>set l. x \<le> t)"
  by (cases l) (auto simp: upper_bound_not_begin_def dest: order_trans)

lemma from_upper_bound_Nil: "from_upper_bound t l = [] \<longleftrightarrow> (\<forall>x\<in>set l. x \<le> t)"
  by (simp add: from_upper_bound_def)

lemma from_upper_bound_Cons: "from_upper_bound t l = x # xs \<Longrightarrow> t < x"
  unfolding from_upper_bound_def by (metis (mono_tags, lifting) dropWhile_eq_Cons_conv not_le)

section \<open>What an accepted transaction has been checked for\<close>

text \<open>
  A read of version \<open>rt\<close> by a transaction at \<open>timestamp\<close> is valid with respect to a set \<open>W\<close> of
  writes when none of them lies strictly between the two.
\<close>

definition no_write_between :: "Timestamp set \<Rightarrow> Timestamp \<Rightarrow> Timestamp \<Rightarrow> bool" where
  "no_write_between W rt timestamp \<longleftrightarrow> (\<forall>w\<in>W. rt < w \<longrightarrow> timestamp \<le> w)"

abbreviation version_times :: "VersionedKVStore \<Rightarrow> string \<Rightarrow> Timestamp set" where
  "version_times st k \<equiv> fst ` set (store_at st k)"

text \<open>
  Commit timestamps carry the client's id, so every version but the initially loaded ones, which
  have the least timestamp, is valid in the sense of \<^verbatim>\<open>Timestamp::isValid\<close>.
\<close>

definition times_valid :: "VersionedKVStore \<Rightarrow> string \<Rightarrow> bool" where
  "times_valid st k \<longleftrightarrow> (\<forall>w\<in>version_times st k. w = Timestamp_default \<or> isValid w)"

lemma getRange_version:
  assumes wf: "vstore_wf st" and rt: "rt \<in> version_times st k"
  obtains hi where "getRange st k rt rng = (True, rt, hi)"
proof -
  obtain ret lo hi where g: "getRange st k rt rng = (ret, lo, hi)" by (cases "getRange st k rt rng")
  have "get_at st k rt \<noteq> None"
    using rt get_at_eq_None [OF wf, of k rt] by auto
  then have ret: "ret = True"
    using g by (auto simp: get_at_def getRange_def Let_def split: if_splits option.splits)
  have "\<exists>p. newest_at (store_at st k) rt p \<and> fst p = lo"
    using getRange_found(1) [OF wf] g ret by blast
  then have "lo = rt" using rt unfolding newest_at_def by (auto intro: antisym)
  with g ret that show ?thesis by blast
qed

lemma isValid_default [simp]: "\<not> isValid Timestamp_default"
  by (simp add: isValid_def Timestamp_default_def)

lemma times_valid_after:
  "times_valid st k \<Longrightarrow> w \<in> version_times st k \<Longrightarrow> rt < w \<Longrightarrow> isValid w"
  unfolding times_valid_def by (metis Timestamp_default_least leD)

lemma prepare_reads_checked:
  assumes wf: "vstore_wf st" and pW: "tsmap_wf pW"
    and "prepare_reads lin st pW ts rs = Inr None" and "(k, rt) \<in> set rs"
    and rt: "rt \<in> version_times st k" and valid: "times_valid st k"
  shows "no_write_between (version_times st k \<union> tsmap_set pW k) rt ts"
  using assms(3,4)
proof (induction rs)
  case (Cons r rs)
  show ?case
  proof (cases "r = (k, rt)")
    case False
    with Cons show ?thesis
      by (cases r) (auto simp: Let_def split: if_splits prod.splits)
  next
    case True
    obtain hi where g: "getRange st k rt (Timestamp_default, Timestamp_default) = (True, rt, hi)"
      using getRange_version [OF wf rt] by blast
    have hi: "hi = Timestamp_default \<and> (\<forall>w\<in>version_times st k. w \<le> rt) \<or>
        hi \<in> version_times st k \<and> rt < hi \<and> (\<forall>w\<in>version_times st k. rt < w \<longrightarrow> hi \<le> w)"
      using getRange_found(2) [OF wf g] by simp
    have sorted: "\<And>l. pW k = Some l \<Longrightarrow> sorted l" using pW by (simp add: tsmap_wf_def)
    show ?thesis
    proof (cases "isValid hi")
      case False
      then have "\<forall>w\<in>version_times st k. w \<le> rt"
        using hi times_valid_after [OF valid] by blast
      moreover have "\<forall>w\<in>tsmap_set pW k. ts < w"
        using Cons.prems(1) True g False sorted
        by (auto simp: tsmap_set_def upper_bound_not_begin_iff not_le split: if_splits option.splits)
      ultimately show ?thesis unfolding no_write_between_def by (metis Un_iff leD less_imp_le)
    next
      case valid_hi: True
      then have "\<forall>w\<in>version_times st k. rt < w \<longrightarrow> hi \<le> w" using hi by auto
      moreover have "ts \<le> hi" and "\<forall>w\<in>tsmap_set pW k. rt < w \<longrightarrow> ts \<le> w"
        using Cons.prems(1) True g valid_hi
        by (auto simp: tsmap_set_def list_ex_iff not_less Timestamp_lt_def [symmetric]
            less_Timestamp_def [symmetric] split: if_splits option.splits)
      ultimately show ?thesis unfolding no_write_between_def by (meson Un_iff order_trans)
    qed
  qed
qed simp

lemma prepare_writes_checked:
  assumes wf: "vstore_wf st"
    and "prepare_writes lin st pW pR ts p ws = Inr None" and "k \<in> fst ` set ws"
  shows "\<forall>x\<in>tsmap_set pR k. x \<le> ts"
    and "lin \<Longrightarrow> \<forall>x\<in>tsmap_set pW k \<union> version_times st k. x \<le> ts"
proof -
  have "(\<forall>x\<in>tsmap_set pR k. x \<le> ts) \<and> (lin \<longrightarrow> (\<forall>x\<in>tsmap_set pW k \<union> version_times st k. x \<le> ts))"
    using assms(2,3)
  proof (induction ws)
    case (Cons w ws)
    obtain k0 v0 where w: "w = (k0, v0)" by (cases w)
    have c: "prepare_write_committed lin st ts k0 = Inr None"
      and pw: "lin \<Longrightarrow> \<forall>x\<in>tsmap_set pW k0. x \<le> ts"
      and pr: "\<forall>x\<in>tsmap_set pR k0. x \<le> ts"
      and rest: "prepare_writes lin st pW pR ts p ws = Inr None"
      using Cons.prems(1)
      by (auto simp: w tsmap_set_def from_upper_bound_Nil split: option.splits list.splits if_splits)
    have "\<forall>x\<in>version_times st k0. x \<le> ts" if lin
    proof (cases "get_latest st k0")
      case None
      then show ?thesis using vs.latest_None [OF wf] by simp
    next
      case (Some val)
      then have "\<not> ts < fst val"
        using c that by (auto simp: prepare_write_committed_def split: if_splits)
      then show ?thesis using get_latest_eq_Some [OF wf, of k0 val] Some by fastforce
    qed
    with pw pr have "(\<forall>x\<in>tsmap_set pR k0. x \<le> ts) \<and>
        (lin \<longrightarrow> (\<forall>x\<in>tsmap_set pW k0 \<union> version_times st k0. x \<le> ts))" by blast
    with Cons.IH [OF rest] Cons.prems(2) w show ?case by (cases "k = k0") simp_all
  qed simp
  then show "\<forall>x\<in>tsmap_set pR k. x \<le> ts"
    and "lin \<Longrightarrow> \<forall>x\<in>tsmap_set pW k \<union> version_times st k. x \<le> ts" by blast+
qed

lemma prepare_write_committed_later:
  "prepare_write_committed lin st ts k = Inr (Some t) \<Longrightarrow> ts < t"
  by (auto simp: prepare_write_committed_def split: option.splits if_splits)

lemma prepare_writes_retry:
  "prepare_writes lin st pW pR ts p ws = Inr (Some (r, t)) \<Longrightarrow>
     r = REPLY_RETRY \<and> ts < t \<or> r = REPLY_ABSTAIN \<and> t = p"
proof (induction ws)
  case (Cons w ws)
  obtain k v where w: "w = (k, v)" by (cases w)
  from Cons.prems obtain c where c: "prepare_write_committed lin st ts k = Inr c"
    by (auto simp: w)
  show ?case
  proof (cases c)
    case (Some t')
    then show ?thesis using Cons.prems c prepare_write_committed_later by (auto simp: w)
  next
    case None
    with Cons c show ?thesis
      by (auto simp: w split: option.splits list.splits if_splits dest: from_upper_bound_Cons)
  qed
qed simp

lemma prepare_reads_reply:
  "prepare_reads lin st pW ts rs = Inr (Some r) \<Longrightarrow> r \<in> {REPLY_FAIL, REPLY_ABSTAIN}"
  by (induction rs) (auto simp: Let_def split: if_splits prod.splits)

section \<open>Runs\<close>

datatype tp_op =
    TpPrepare u64 Transaction Timestamp
  | TpCommit u64 u64
  | TpAbort u64 Transaction
  | TpLoad string string Timestamp

inductive tp_step :: "TapirStore \<Rightarrow> tp_op \<Rightarrow> TapirStore \<Rightarrow> bool" where
  tp_prepare: "TapirStore_Prepare s tid txn ts p = Inr (r, p', s') \<Longrightarrow>
    tp_step s (TpPrepare tid txn ts) s'"
| tp_commit: "tp_step s (TpCommit tid n) (TapirStore_Commit s tid n)"
| tp_abort: "tp_step s (TpAbort tid txn) (TapirStore_Abort s tid txn)"
| tp_load: "tp_step s (TpLoad key v t) (TapirStore_Load s key v t)"

inductive tp_run :: "TapirStore \<Rightarrow> tp_op list \<Rightarrow> TapirStore \<Rightarrow> bool" where
  tp_nil: "tp_run s [] s"
| tp_snoc: "tp_run s ops s1 \<Longrightarrow> tp_step s1 op s2 \<Longrightarrow> tp_run s (ops @ [op]) s2"

definition tp_inv :: "TapirStore \<Rightarrow> bool" where
  "tp_inv s \<longleftrightarrow> vstore_reach (tp_store s) \<and> distinct (map fst (tp_prepared s))"

lemma tp_inv_init: "tp_inv (TapirStore_init lin)"
  by (simp add: tp_inv_def TapirStore_init_def vr_init)

lemma tp_inv_wf: "tp_inv s \<Longrightarrow> vstore_wf (tp_store s)"
  by (simp add: tp_inv_def vstore_reach_wf)

lemma vstore_reach_Commit_txn: "vstore_reach st \<Longrightarrow> vstore_reach (TapirStore_Commit_txn st ts txn)"
proof -
  have "vstore_reach (fold (\<lambda>(k, rt) st. commitGet st k rt ts) rs st)" if "vstore_reach st" for rs st
    using that by (induction rs arbitrary: st) (auto intro: vr_commitGet)
  moreover have "vstore_reach (fold (\<lambda>(k, v) st. VersionedKVStore_put st k v ts) ws st)"
    if "vstore_reach st" for ws st
    using that by (induction ws arbitrary: st) (auto intro: vr_put)
  ultimately show "vstore_reach st \<Longrightarrow> vstore_reach (TapirStore_Commit_txn st ts txn)"
    by (simp add: TapirStore_Commit_txn_def)
qed

lemma store_at_commitGets:
  "store_at (fold (\<lambda>(k, rt) st. commitGet st k rt ts) rs st) k = store_at st k"
  by (induction rs arbitrary: st) auto

lemma version_times_Commit_txn:
  assumes "vstore_wf st"
  shows "version_times (TapirStore_Commit_txn st ts txn) k =
    (if k \<in> wkeys txn then {ts} else {}) \<union> version_times st k"
proof -
  let ?st = "fold (\<lambda>(k, rt) st. commitGet st k rt ts) (readSet txn) st"
  have "vstore_wf ?st" using assms by (simp add: vstore_wf_def store_at_commitGets)
  from vs.keys_puts [OF this, of "writeSet txn" ts k] show ?thesis
    by (simp add: TapirStore_Commit_txn_def vs.puts_def store_at_commitGets)
qed

text \<open>A returning \<^verbatim>\<open>Prepare\<close> that runs the checks works on the store without the old entry of the id.\<close>

abbreviation without :: "TapirStore \<Rightarrow> u64 \<Rightarrow> TapirStore" where
  "without s tid \<equiv> s\<lparr>tp_prepared := AList.delete tid (tp_prepared s)\<rparr>"

lemma without_absent: "map_of (tp_prepared s) tid = None \<Longrightarrow> without s tid = s"
  by (simp add: delete_id map_of_eq_None_iff)

lemma prepare_fresh_cases:
  assumes "prepare_fresh s tid txn ts p = Inr (r, p', s')"
  obtains (ok) "r = REPLY_OK" and "p' = p"
      and "s' = s\<lparr>tp_prepared := AList.update tid (ts, txn) (tp_prepared s)\<rparr>"
      and "prepare_reads (linearizable s) (tp_store s) (GetPreparedWrites s) ts (readSet txn) = Inr None"
      and "prepare_writes (linearizable s) (tp_store s) (GetPreparedWrites s) (GetPreparedReads s) ts p
        (writeSet txn) = Inr None"
    | (refused) "s' = s"
      and "r \<in> {REPLY_FAIL, REPLY_ABSTAIN} \<and> p' = p \<or> r = REPLY_RETRY \<and> ts < p'"
proof -
  obtain rr where rr: "prepare_reads (linearizable s) (tp_store s) (GetPreparedWrites s) ts
      (readSet txn) = Inr rr"
    using assms unfolding prepare_fresh_def Let_def by blast
  show ?thesis
  proof (cases rr)
    case (Some reply)
    then show ?thesis
      using assms rr refused prepare_reads_reply [of _ _ _ _ _ reply]
      by (simp add: prepare_fresh_def) blast
  next
    case None
    with assms rr obtain wr where wr: "prepare_writes (linearizable s) (tp_store s)
        (GetPreparedWrites s) (GetPreparedReads s) ts p (writeSet txn) = Inr wr"
      and res: "(case wr of Some (reply, p) \<Rightarrow> Inr (reply, p, s)
        | None \<Rightarrow> Inr (REPLY_OK, p, s\<lparr>tp_prepared := AList.update tid (ts, txn) (tp_prepared s)\<rparr>))
        = (Inr (r, p', s') :: (int \<times> Timestamp \<times> TapirStore) outcome)"
      by (auto simp: prepare_fresh_def)
    show ?thesis
    proof (cases wr)
      case None
      with res ok rr \<open>rr = None\<close> wr show ?thesis by simp
    next
      case (Some q)
      obtain reply t where q: "q = (reply, t)" by (cases q)
      with Some res have "s' = s" "reply = r" "t = p'" by auto
      with Some q prepare_writes_retry [OF wr [unfolded Some q]] refused show ?thesis by auto
    qed
  qed
qed

lemma Prepare_cases:
  assumes "TapirStore_Prepare s tid txn ts p = Inr (r, p', s')"
  obtains (again) t where "map_of (tp_prepared s) tid = Some (ts, t)" and "r = REPLY_OK"
      and "p' = p" and "s' = s"
    | (ok) "\<And>t. map_of (tp_prepared s) tid \<noteq> Some (ts, t)" and "r = REPLY_OK" and "p' = p"
      and "s' = (without s tid)\<lparr>tp_prepared :=
        AList.update tid (ts, txn) (AList.delete tid (tp_prepared s))\<rparr>"
      and "prepare_reads (linearizable s) (tp_store s) (GetPreparedWrites (without s tid)) ts
        (readSet txn) = Inr None"
      and "prepare_writes (linearizable s) (tp_store s) (GetPreparedWrites (without s tid))
        (GetPreparedReads (without s tid)) ts p (writeSet txn) = Inr None"
    | (refused) "\<And>t. map_of (tp_prepared s) tid \<noteq> Some (ts, t)" and "s' = without s tid"
      and "r \<in> {REPLY_FAIL, REPLY_ABSTAIN} \<and> p' = p \<or> r = REPLY_RETRY \<and> ts < p'"
proof (cases "\<exists>t. map_of (tp_prepared s) tid = Some (ts, t)")
  case True
  then obtain t where t: "map_of (tp_prepared s) tid = Some (ts, t)" ..
  with assms have "(r, p', s') = (REPLY_OK, p, s)" by (simp add: TapirStore_Prepare_def)
  then show ?thesis using that(1) [OF t] by blast
next
  case False
  then have "prepare_fresh (without s tid) tid txn ts p = Inr (r, p', s')"
    using assms without_absent [of s tid]
    by (auto simp: TapirStore_Prepare_def split: option.splits if_splits)
  then show ?thesis
  proof (cases rule: prepare_fresh_cases)
    case ok
    then show ?thesis using False that(2) by simp
  next
    case refused
    then show ?thesis using False that(3) by blast
  qed
qed

lemma tp_inv_step: "tp_step s op s' \<Longrightarrow> tp_inv s \<Longrightarrow> tp_inv s'"
proof (induction rule: tp_step.induct)
  case (tp_prepare s tid txn ts p r p' s')
  from tp_prepare.hyps show ?case
  proof (cases rule: Prepare_cases)
    case again
    then show ?thesis using tp_prepare.prems by simp
  next
    case ok
    show ?thesis using tp_prepare.prems unfolding ok(4)
      by (simp add: tp_inv_def distinct_update distinct_delete)
  next
    case refused
    show ?thesis using tp_prepare.prems unfolding refused(2)
      by (simp add: tp_inv_def distinct_delete)
  qed
qed (auto simp: tp_inv_def TapirStore_Commit_def TapirStore_Abort_def TapirStore_Load_def Let_def
    distinct_delete intro: vstore_reach_Commit_txn vr_put)

lemma tp_inv_run: "tp_run s ops s' \<Longrightarrow> tp_inv s \<Longrightarrow> tp_inv s'"
  by (induction rule: tp_run.induct) (auto intro: tp_inv_step)

section \<open>Validated reads\<close>

lemma set_delete: "set (AList.delete k xs) = {p \<in> set xs. fst p \<noteq> k}"
  by (auto simp: AList.delete_eq)

lemma pending_writes_without: "pending_writes (without s tid) k \<subseteq> pending_writes s k"
  by (auto simp: pending_writes_def set_delete)

lemma pending_writes_update:
  "pending_writes (s\<lparr>tp_prepared := AList.update tid (ts, txn) (AList.delete tid (tp_prepared s))\<rparr>) k =
     pending_writes (without s tid) k \<union> (if k \<in> wkeys txn then {ts} else {})"
  unfolding pending_writes_def by (subst update_fresh) (auto simp: set_delete)

lemma pending_reads_mem:
  "map_of (tp_prepared s) i = Some (ti, txn) \<Longrightarrow> k \<in> rkeys txn \<Longrightarrow> i \<noteq> tid \<Longrightarrow>
   ti \<in> pending_reads (without s tid) k"
  using map_of_SomeD [of "tp_prepared s" i] by (force simp: pending_reads_def set_delete)

lemma pending_writes_mem:
  "map_of (tp_prepared s) i = Some (ti, txn) \<Longrightarrow> k \<in> wkeys txn \<Longrightarrow> ti \<in> pending_writes s k"
  unfolding pending_writes_def by (auto dest: map_of_SomeD)

lemma prepared_Commit [simp]:
  "tp_prepared (TapirStore_Commit s tid n) = AList.delete tid (tp_prepared s)"
  by (simp add: TapirStore_Commit_def Let_def)

definition read_valid :: "TapirStore \<Rightarrow> u64 \<Rightarrow> Timestamp \<Rightarrow> Transaction \<Rightarrow> string \<Rightarrow> Timestamp \<Rightarrow> bool" where
  "read_valid s i ti txn k rt \<longleftrightarrow>
     map_of (tp_prepared s) i = Some (ti, txn) \<and> rt \<in> version_times (tp_store s) k \<and>
     no_write_between (version_times (tp_store s) k \<union> pending_writes s k) rt ti"

lemma no_write_between_mono: "no_write_between B rt t \<Longrightarrow> A \<subseteq> B \<Longrightarrow> no_write_between A rt t"
  unfolding no_write_between_def by blast

lemma Prepare_read_valid:
  assumes inv: "tp_inv s" and "TapirStore_Prepare s i txn ti p = Inr (REPLY_OK, p', s')"
    and new: "\<And>t. map_of (tp_prepared s) i \<noteq> Some (ti, t)"
    and rd: "(k, rt) \<in> set (readSet txn)" and rt: "rt \<in> version_times (tp_store s) k"
    and valid: "times_valid (tp_store s) k"
  shows "read_valid s' i ti txn k rt"
  using assms(2)
proof (cases rule: Prepare_cases)
  case again
  then show ?thesis using new by blast
next
  case ok
  have "no_write_between (version_times (tp_store s) k \<union> pending_writes (without s i) k) rt ti"
    using prepare_reads_checked [OF tp_inv_wf [OF inv] GetPreparedWrites_spec(1) ok(5) rd rt valid]
    by (simp add: GetPreparedWrites_spec(2))
  then show ?thesis
    using rt unfolding read_valid_def ok(4)
    by (auto simp: update_conv' pending_writes_update no_write_between_def split: if_splits)
next
  case refused
  then show ?thesis by (auto simp: reply_defs)
qed

definition tp_other :: "u64 \<Rightarrow> tp_op \<Rightarrow> bool" where
  "tp_other i op \<longleftrightarrow>
     (case op of
        TpPrepare j _ _ \<Rightarrow> j \<noteq> i
      | TpCommit j _ \<Rightarrow> j \<noteq> i
      | TpAbort j _ \<Rightarrow> j \<noteq> i
      | TpLoad _ _ _ \<Rightarrow> False)"

lemma read_valid_without:
  "tid \<noteq> i \<Longrightarrow> read_valid s i ti txn k rt \<Longrightarrow> read_valid (without s tid) i ti txn k rt"
  using pending_writes_without [of tid s k]
  by (auto simp: read_valid_def delete_conv' elim: no_write_between_mono)

lemma read_valid_step:
  assumes "tp_step s op s'" and "tp_inv s" and "tp_other i op" and "read_valid s i ti txn k rt"
    and "k \<in> rkeys txn"
  shows "read_valid s' i ti txn k rt"
  using assms
proof (induction rule: tp_step.induct)
  case (tp_prepare s tid txn' ts p r p' s')
  have ne: "tid \<noteq> i" using tp_prepare.prems by (simp add: tp_other_def)
  note keep = read_valid_without [OF ne tp_prepare.prems(3)]
  from tp_prepare.hyps show ?case
  proof (cases rule: Prepare_cases)
    case again
    then show ?thesis using tp_prepare.prems by simp
  next
    case ok
    have "ti \<in> pending_reads (without s tid) k"
      using tp_prepare.prems(3,4) ne by (auto simp: read_valid_def intro: pending_reads_mem)
    then have "k \<in> wkeys txn' \<Longrightarrow> ti \<le> ts"
      using prepare_writes_checked(1) [OF tp_inv_wf [OF tp_prepare.prems(1)] ok(6)]
      by (simp add: GetPreparedReads_spec)
    then show ?thesis
      using keep ne unfolding read_valid_def ok(4)
      by (auto simp: update_conv' pending_writes_update no_write_between_def split: if_splits)
  next
    case refused
    then show ?thesis using keep by simp
  qed
next
  case (tp_commit s tid n)
  have ne: "tid \<noteq> i" using tp_commit.prems by (simp add: tp_other_def)
  have wf: "vstore_wf (tp_store s)" using tp_commit.prems(1) by (rule tp_inv_wf)
  let ?st = "tp_store (TapirStore_Commit s tid n)"
  have "version_times ?st k \<subseteq> version_times (tp_store s) k \<union> pending_writes s k"
    and "version_times (tp_store s) k \<subseteq> version_times ?st k"
    using version_times_Commit_txn [OF wf] pending_writes_mem [of s tid _ _ k]
    by (auto simp: TapirStore_Commit_def Let_def Transaction_empty_def split: option.splits if_splits)
  moreover have "pending_writes (TapirStore_Commit s tid n) k = pending_writes (without s tid) k"
    by (simp add: pending_writes_def)
  ultimately show ?case
    using tp_commit.prems(3) ne pending_writes_without [of tid s k]
    unfolding read_valid_def
    by (auto simp: delete_conv' elim!: no_write_between_mono)
next
  case (tp_abort s tid txn')
  have "tid \<noteq> i" using tp_abort.prems by (simp add: tp_other_def)
  with tp_abort.prems(3) show ?case by (simp add: TapirStore_Abort_def read_valid_without)
qed (simp add: tp_other_def)

lemma read_valid_run:
  assumes "tp_run s ops s'" and "tp_inv s" and "\<forall>op\<in>set ops. tp_other i op"
    and "read_valid s i ti txn k rt" and "k \<in> rkeys txn"
  shows "read_valid s' i ti txn k rt"
  using assms
proof (induction rule: tp_run.induct)
  case (tp_snoc s ops s1 op s2)
  then show ?case
    using read_valid_step [OF tp_snoc.hyps(2) tp_inv_run [OF tp_snoc.hyps(1) tp_snoc.prems(1)]]
    by simp
qed simp

section \<open>Properties\<close>

text \<open>
  The example: \<open>a\<close> is loaded at the initial timestamp, transaction 1 reads it and writes \<open>b\<close> at
  time 5, transaction 2 writes \<open>a\<close> at time 7 and commits.
\<close>

definition ex_tp0 :: TapirStore where
  "ex_tp0 = TapirStore_Load (TapirStore_init True) ''a'' ''0'' Timestamp_default"

definition ex_tt1 :: Transaction where
  "ex_tt1 = \<lparr>readSet = [(''a'', Timestamp_default)], writeSet = [(''b'', ''1'')]\<rparr>"

definition ex_tt2 :: Transaction where
  "ex_tt2 = \<lparr>readSet = [], writeSet = [(''a'', ''2'')]\<rparr>"

definition ex_tp1 :: TapirStore where
  "ex_tp1 = snd (snd (projr (TapirStore_Prepare ex_tp0 1 ex_tt1 (Timestamp 5 1) Timestamp_default)))"

definition ex_tp2 :: TapirStore where
  "ex_tp2 = snd (snd (projr (TapirStore_Prepare ex_tp1 2 ex_tt2 (Timestamp 7 2) Timestamp_default)))"

definition ex_tp3 :: TapirStore where
  "ex_tp3 = TapirStore_Commit ex_tp2 2 0"

lemmas ex_tapir_defs = ex_tp0_def ex_tt1_def ex_tt2_def TapirStore_Prepare_def prepare_fresh_def
  TapirStore_Load_def TapirStore_init_def VersionedKVStore_init_def VersionedKVStore_put_def
  store_at_def get_latest_def inStore_def getRange_def getValue_def upper_bound_def
  GetPreparedWrites_def GetPreparedReads_def tsmap_insert_def from_upper_bound_def
  upper_bound_not_begin_def prepare_write_committed_def getLastRead_def Timestamp_default_def
  isValid_def insort_insert_key_def

lemma ex_tp1: "TapirStore_Prepare ex_tp0 1 ex_tt1 (Timestamp 5 1) Timestamp_default =
    Inr (REPLY_OK, Timestamp_default, ex_tp1)"
  by (simp add: ex_tp1_def ex_tapir_defs)

lemma ex_tp2: "TapirStore_Prepare ex_tp1 2 ex_tt2 (Timestamp 7 2) Timestamp_default =
    Inr (REPLY_OK, Timestamp_default, ex_tp2)"
  by (simp add: ex_tp2_def ex_tp1_def ex_tapir_defs)

lemma ex_tp_run0: "tp_run (TapirStore_init True) [TpLoad ''a'' ''0'' Timestamp_default] ex_tp0"
  using tp_snoc [OF tp_nil tp_load] by (simp add: ex_tp0_def)

lemma ex_tp_run3: "tp_run ex_tp1 [TpPrepare 2 ex_tt2 (Timestamp 7 2), TpCommit 2 0] ex_tp3"
  using tp_snoc [OF tp_snoc [OF tp_nil tp_prepare [OF ex_tp2]] tp_commit] by (simp add: ex_tp3_def)

text \<open>
  C5. Timestamp-order validity of reads, in both modes: once \<^verbatim>\<open>Prepare\<close> accepts a transaction at
  commit timestamp \<open>ti\<close>, every version \<open>rt\<close> it read (and the replica has) stays the newest version
  before \<open>ti\<close>: whatever other transactions prepare, commit or abort, no committed version
  and no prepared write of that key lies strictly between \<open>rt\<close> and \<open>ti\<close>.
\<close>

theorem tapir_read_validity:
  assumes "tp_run (TapirStore_init lin) ops s"
    and "TapirStore_Prepare s i txn ti p = Inr (REPLY_OK, p', s1)"
    and "\<forall>t. map_of (tp_prepared s) i \<noteq> Some (ti, t)"
    and "(k, rt) \<in> set (readSet txn)" and "rt \<in> version_times (tp_store s) k"
    and "times_valid (tp_store s) k"
    and "tp_run s1 ops' s2" and "\<forall>op\<in>set ops'. tp_other i op"
  shows "rt \<in> version_times (tp_store s2) k \<and>
    (\<forall>w \<in> version_times (tp_store s2) k \<union> pending_writes s2 k. rt < w \<longrightarrow> ti \<le> w)"
proof -
  have inv: "tp_inv s" using tp_inv_run [OF assms(1) tp_inv_init] .
  then have "tp_inv s1" using tp_inv_step [OF tp_prepare [OF assms(2)]] by simp
  moreover have "read_valid s1 i ti txn k rt"
    using Prepare_read_valid [OF inv assms(2) _ assms(4-6)] assms(3) by blast
  moreover have "k \<in> rkeys txn" using assms(4) by force
  ultimately have "read_valid s2 i ti txn k rt"
    using read_valid_run [OF assms(7) _ assms(8)] by blast
  then show ?thesis by (simp add: read_valid_def no_write_between_def)
qed

theorem tapir_read_validity_witness:
  "Timestamp_default \<in> version_times (tp_store ex_tp3) ''a'' \<and>
   Timestamp 7 2 \<in> version_times (tp_store ex_tp3) ''a'' \<and> Timestamp 5 1 \<le> Timestamp 7 2"
proof -
  have "times_valid (tp_store ex_tp0) ''a''"
    by (simp add: times_valid_def ex_tapir_defs)
  then have valid: "Timestamp_default \<in> version_times (tp_store ex_tp3) ''a'' \<and>
      (\<forall>w \<in> version_times (tp_store ex_tp3) ''a'' \<union> pending_writes ex_tp3 ''a''.
        Timestamp_default < w \<longrightarrow> Timestamp 5 1 \<le> w)"
    by (intro tapir_read_validity [OF ex_tp_run0 ex_tp1 _ _ _ _ ex_tp_run3])
      (simp_all add: ex_tapir_defs tp_other_def)
  have w: "Timestamp 7 2 \<in> version_times (tp_store ex_tp3) ''a''"
    by (simp add: ex_tp3_def ex_tp2_def ex_tp1_def TapirStore_Commit_def TapirStore_Commit_txn_def
        ex_tapir_defs)
  moreover have "Timestamp_default < Timestamp 7 2"
    by (simp add: Timestamp_default_def)
  ultimately show ?thesis using valid by blast
qed

text \<open>
  Outcomes of \<^verbatim>\<open>Prepare\<close>: a retry always proposes a timestamp later than the one refused; only an
  acceptance adds the transaction, under the timestamp it was checked at; the committed versions
  and the other prepared transactions are untouched on every branch.
\<close>

theorem tapir_prepare_outcome:
  assumes "TapirStore_Prepare s i txn ti p = Inr (r, p', s')"
  shows "(r = REPLY_RETRY \<longrightarrow> ti < p') \<and> (r \<noteq> REPLY_RETRY \<longrightarrow> p' = p) \<and>
    tp_store s' = tp_store s \<and>
    (\<forall>j. j \<noteq> i \<longrightarrow> map_of (tp_prepared s') j = map_of (tp_prepared s) j) \<and>
    (if r = REPLY_OK then \<exists>t. map_of (tp_prepared s') i = Some (ti, t)
     else map_of (tp_prepared s') i = None)"
  using assms
proof (cases rule: Prepare_cases)
  case again
  then show ?thesis by (simp add: reply_defs)
next
  case ok
  then show ?thesis by (simp add: reply_defs update_conv' delete_conv')
next
  case refused
  then show ?thesis by (auto simp: reply_defs delete_conv')
qed

theorem tapir_prepare_outcome_witness:
  "\<exists>t. map_of (tp_prepared ex_tp1) 1 = Some (Timestamp 5 1, t)"
  using tapir_prepare_outcome [OF ex_tp1] by simp

text \<open>
  C6. In linearizable mode an accepted write is not behind any committed or prepared version of its
  key, and in both modes it is not behind any prepared read of its key.
\<close>

theorem tapir_write_order:
  assumes "tp_run (TapirStore_init lin) ops s"
    and "TapirStore_Prepare s i txn ti p = Inr (REPLY_OK, p', s')"
    and "\<forall>t. map_of (tp_prepared s) i \<noteq> Some (ti, t)" and "k \<in> wkeys txn"
  shows "(\<forall>j \<noteq> i. \<forall>tj u. map_of (tp_prepared s) j = Some (tj, u) \<and> k \<in> rkeys u \<longrightarrow> tj \<le> ti) \<and>
    (linearizable s \<longrightarrow> (\<forall>w\<in>version_times (tp_store s) k. w \<le> ti) \<and>
      (\<forall>j \<noteq> i. \<forall>tj u. map_of (tp_prepared s) j = Some (tj, u) \<and> k \<in> wkeys u \<longrightarrow> tj \<le> ti))"
  using assms(2)
proof (cases rule: Prepare_cases)
  case again
  then show ?thesis using assms(3) by simp
next
  case ok
  have wf: "vstore_wf (tp_store s)" using tp_inv_wf [OF tp_inv_run [OF assms(1) tp_inv_init]] .
  note checked = prepare_writes_checked [OF wf ok(6) assms(4), unfolded GetPreparedReads_spec
      GetPreparedWrites_spec]
  have "tj \<in> pending_writes (without s i) k"
    if "map_of (tp_prepared s) j = Some (tj, u)" "k \<in> wkeys u" "j \<noteq> i" for j tj u
    using pending_writes_mem [of "without s i" j tj u k] that by (simp add: delete_conv')
  with checked pending_reads_mem show ?thesis by (meson UnI1 UnI2)
next
  case refused
  then show ?thesis by (auto simp: reply_defs)
qed

theorem tapir_write_order_witness:
  "map_of (tp_prepared ex_tp1) 1 = Some (Timestamp 5 1, ex_tt1) \<and> ''a'' \<in> rkeys ex_tt1 \<and>
   ''a'' \<in> wkeys ex_tt2 \<and> Timestamp 5 1 \<le> Timestamp 7 2"
proof -
  have prep: "map_of (tp_prepared ex_tp1) 1 = Some (Timestamp 5 1, ex_tt1)" "''a'' \<in> rkeys ex_tt1"
    "''a'' \<in> wkeys ex_tt2"
    by (simp_all add: ex_tp1_def ex_tapir_defs)
  have "tp_run (TapirStore_init True)
      [TpLoad ''a'' ''0'' Timestamp_default, TpPrepare 1 ex_tt1 (Timestamp 5 1)] ex_tp1"
    using tp_snoc [OF ex_tp_run0 tp_prepare [OF ex_tp1]] by simp
  moreover have "\<forall>t. map_of (tp_prepared ex_tp1) 2 \<noteq> Some (Timestamp 7 2, t)"
    by (simp add: ex_tp1_def ex_tapir_defs)
  ultimately have order: "\<forall>j \<noteq> 2. \<forall>tj u. map_of (tp_prepared ex_tp1) j = Some (tj, u) \<and>
      ''a'' \<in> rkeys u \<longrightarrow> tj \<le> Timestamp 7 2"
    by (rule conjunct1 [OF tapir_write_order [OF _ ex_tp2 _ prep(3)]])
  have "(1 :: u64) \<noteq> 2" by simp
  with order prep(1,2) have "Timestamp 5 1 \<le> Timestamp 7 2" by blast
  with prep show ?thesis by simp
qed

text \<open>
  \<^verbatim>\<open>Commit\<close> installs the write set of a prepared transaction at the timestamp at which it was
  prepared, so that a read at that time returns it; for an id that is not prepared it changes
  nothing at all, so the writes of such a transaction are lost.
\<close>

theorem tapir_commit:
  assumes "tp_run (TapirStore_init lin) ops s"
  shows "case map_of (tp_prepared s) i of
      None \<Rightarrow> TapirStore_Commit s i n = s
    | Some (ti, txn) \<Rightarrow>
        txn_wf txn \<and> (k, v) \<in> set (writeSet txn) \<and> ti \<notin> version_times (tp_store s) k \<longrightarrow>
        get_at (tp_store (TapirStore_Commit s i n)) k ti = Some (ti, v)"
proof (cases "map_of (tp_prepared s) i")
  case None
  then show ?thesis
    using without_absent [of s i]
    by (simp add: TapirStore_Commit_def TapirStore_Commit_txn_def Transaction_empty_def)
next
  case (Some q)
  obtain ti txn where q: "q = (ti, txn)" by (cases q)
  let ?st = "fold (\<lambda>(k, rt) st. commitGet st k rt ti) (readSet txn) (tp_store s)"
  have wf: "vstore_wf ?st"
    using tp_inv_wf [OF tp_inv_run [OF assms tp_inv_init]]
    by (simp add: vstore_wf_def store_at_commitGets)
  have "newest_at (store_at (vs.puts (writeSet txn) ti ?st) k) ti (ti, v)"
    if "txn_wf txn" "(k, v) \<in> set (writeSet txn)" "ti \<notin> version_times (tp_store s) k"
    using vs.mem_puts [OF wf, of "writeSet txn" k v ti] that
    by (simp add: txn_wf_def store_at_commitGets newest_at_def)
  with Some q show ?thesis
    using get_at_eq_Some [OF vs.wf_puts [OF wf], of "writeSet txn" ti k ti "(ti, v)"]
    by (simp add: TapirStore_Commit_def TapirStore_Commit_txn_def vs.puts_def)
qed

theorem tapir_commit_witness:
  "get_at (tp_store (TapirStore_Commit ex_tp1 1 0)) ''b'' (Timestamp 5 1) = Some (Timestamp 5 1, ''1'')"
proof -
  have "tp_run (TapirStore_init True)
      [TpLoad ''a'' ''0'' Timestamp_default, TpPrepare 1 ex_tt1 (Timestamp 5 1)] ex_tp1"
    using tp_snoc [OF ex_tp_run0 tp_prepare [OF ex_tp1]] by simp
  moreover have "map_of (tp_prepared ex_tp1) 1 = Some (Timestamp 5 1, ex_tt1)"
    and "Timestamp 5 1 \<notin> version_times (tp_store ex_tp1) ''b''"
    by (simp_all add: ex_tp1_def ex_tapir_defs)
  ultimately show ?thesis
    using tapir_commit [of True _ ex_tp1 1 0 "''b''" "''1''"] by (simp add: txn_wf_def ex_tt1_def)
qed

end
