(* ===== verification/Store_Servers.thy ===== *)
theory Store_Servers
  imports Lock_Store Occ_Store Tapir_Store "HOL-Library.Countable"
begin

text \<open>
  The servers that put the stores behind the replication protocols: \<^verbatim>\<open>tapirstore/server.cc\<close> (an
  application of inconsistent replication), \<^verbatim>\<open>strongstore/server.cc\<close> (an application of
  viewstamped replication) and \<^verbatim>\<open>weakstore\<close>. The protobuf byte encodings are generated by the
  build; they are the parameters \<open>parse\<close> and \<open>ser\<close>, and \<open>codec_ok\<close> is the round trip that the servers
  rely on. A submessage that is absent reads as the default instance.
\<close>

section \<open>Messages\<close>

datatype Operation = GET | PREPARE | COMMIT | ABORT

record 'p Request =
  rq_op :: Operation
  txnid :: u64
  rq_get :: "(string \<times> TimestampMessage option) option"
  rq_prepare :: "(TransactionMessage \<times> 'p option) option"
  rq_commit :: "u64 option"
  rq_abort :: "TransactionMessage option"

record 't Reply =
  rp_status :: int
  rp_value :: "string option"
  rp_timestamp :: "'t option"

definition TransactionMessage_default :: TransactionMessage where
  "TransactionMessage_default = \<lparr>readset = [], writeset = []\<rparr>"

definition get_of :: "'p Request \<Rightarrow> string \<times> TimestampMessage option" where
  "get_of rq = (case rq_get rq of Some g \<Rightarrow> g | None \<Rightarrow> ('''', None))"

definition prepare_of :: "'p Request \<Rightarrow> TransactionMessage \<times> 'p option" where
  "prepare_of rq = (case rq_prepare rq of Some p \<Rightarrow> p | None \<Rightarrow> (TransactionMessage_default, None))"

definition commit_of :: "'p Request \<Rightarrow> u64" where
  "commit_of rq = (case rq_commit rq of Some t \<Rightarrow> t | None \<Rightarrow> 0)"

definition abort_of :: "'p Request \<Rightarrow> TransactionMessage" where
  "abort_of rq = (case rq_abort rq of Some m \<Rightarrow> m | None \<Rightarrow> TransactionMessage_default)"

definition codec_ok :: "(string \<Rightarrow> 'm) \<Rightarrow> ('m \<Rightarrow> string) \<Rightarrow> bool" where
  "codec_ok parse ser \<longleftrightarrow> (\<forall>m. parse (ser m) = m)"

text \<open>
  The messages are countable, so an encoding with that round trip exists: \<open>unary_ser\<close> is one.
\<close>

instance TimestampMessage :: countable
  by countable_datatype

instance Operation :: countable
  by countable_datatype

instance TransactionMessage_ext :: (countable) countable
  by (rule countable_classI [of "\<lambda>m. to_nat (readset m, writeset m, TransactionMessage.more m)"]) simp

instance Request_ext :: (countable, countable) countable
  by (rule countable_classI [of "\<lambda>m. to_nat (rq_op m, txnid m, rq_get m, rq_prepare m, rq_commit m,
      rq_abort m, Request.more m)"]) simp

instance Reply_ext :: (countable, countable) countable
  by (rule countable_classI [of "\<lambda>m. to_nat (rp_status m, rp_value m, rp_timestamp m, Reply.more m)"]) simp

definition unary_ser :: "'m::countable \<Rightarrow> string" where
  "unary_ser m = replicate (to_nat m) CHR ''.''"

definition unary_parse :: "string \<Rightarrow> 'm::countable" where
  "unary_parse str = from_nat (length str)"

lemma unary_codec: "codec_ok unary_parse unary_ser"
  by (simp add: codec_ok_def unary_parse_def unary_ser_def)

lemma unary_parse_ser [simp]: "unary_parse (unary_ser m) = m"
  by (simp add: unary_parse_def unary_ser_def)

section \<open>The TAPIR server\<close>

type_synonym TapirRequest = "TimestampMessage Request"
type_synonym TapirReply = "TimestampMessage Reply"

definition Tapir_ExecInconsistentUpcall ::
  "(string \<Rightarrow> TapirRequest) \<Rightarrow> TapirStore \<Rightarrow> string \<Rightarrow> TapirStore outcome" where
  "Tapir_ExecInconsistentUpcall parse s str1 =
     (let request = parse str1 in
      case rq_op request of
        COMMIT \<Rightarrow> Inr (TapirStore_Commit s (txnid request) (commit_of request))
      | ABORT \<Rightarrow> Inr (TapirStore_Abort s (txnid request) (Transaction_of_msg (abort_of request)))
      | _ \<Rightarrow> Inl (Panicked ''Unrecognized inconsisternt operation.''))"

definition Tapir_ExecConsensusUpcall ::
  "(string \<Rightarrow> TapirRequest) \<Rightarrow> (TapirReply \<Rightarrow> string) \<Rightarrow> TapirStore \<Rightarrow> string
    \<Rightarrow> (string \<times> TapirStore) outcome" where
  "Tapir_ExecConsensusUpcall parse ser s str1 =
     (let request = parse str1 in
      case rq_op request of
        PREPARE \<Rightarrow>
          (let (txn, t) = prepare_of request;
               timestamp = Timestamp_of_msg (case t of Some m \<Rightarrow> m | None \<Rightarrow> TimestampMessage 0 0)
           in obind (TapirStore_Prepare s (txnid request) (Transaction_of_msg txn) timestamp
                       Timestamp_default) (\<lambda>(status, proposed, s').
                Inr (ser \<lparr>rp_status = status, rp_value = None,
                          rp_timestamp = if isValid proposed then Some (Timestamp_serialize proposed)
                                         else None\<rparr>, s')))
      | _ \<Rightarrow> Inl (Panicked ''Unrecognized consensus operation.''))"

definition Tapir_UnloggedUpcall ::
  "(string \<Rightarrow> TapirRequest) \<Rightarrow> (TapirReply \<Rightarrow> string) \<Rightarrow> TapirStore \<Rightarrow> string \<Rightarrow> string outcome" where
  "Tapir_UnloggedUpcall parse ser s str1 =
     (let request = parse str1 in
      case rq_op request of
        GET \<Rightarrow>
          Inr (case snd (get_of request) of
                 Some t \<Rightarrow>
                   (let (status, val) =
                          TapirStore_Get_at s (txnid request) (fst (get_of request)) (Timestamp_of_msg t)
                    in ser \<lparr>rp_status = status, rp_value = map_option snd val, rp_timestamp = None\<rparr>)
               | None \<Rightarrow>
                   (let (status, val) = TapirStore_Get s (txnid request) (fst (get_of request))
                    in ser \<lparr>rp_status = status, rp_value = map_option snd val,
                            rp_timestamp = map_option (Timestamp_serialize \<circ> fst) val\<rparr>))
      | _ \<Rightarrow> Inl (Panicked ''Unrecognized Unlogged request.''))"

definition Tapir_Sync :: "'r \<Rightarrow> TapirStore \<Rightarrow> TapirStore outcome" where
  "Tapir_Sync record s = Inl (Panicked ''Unimplemented!'')"

definition Tapir_Merge :: "'d \<Rightarrow> 'u \<Rightarrow> 'm \<Rightarrow> TapirStore \<Rightarrow> (('k \<rightharpoonup> string) \<times> TapirStore) outcome" where
  "Tapir_Merge d u majority_results_in_d s = Inl (Panicked ''Unimplemented!'')"

text \<open>The key-loading loop of \<^verbatim>\<open>main\<close>, over the lines of the key file.\<close>

fun Tapir_load_keys :: "u64 \<Rightarrow> u64 \<Rightarrow> string list \<Rightarrow> TapirStore \<Rightarrow> TapirStore outcome" where
  "Tapir_load_keys maxShard myShard [] s = Inr s"
| "Tapir_load_keys maxShard myShard (key # ks) s =
     obind (load_on_shard key maxShard myShard) (\<lambda>mine.
       Tapir_load_keys maxShard myShard ks
         (if mine then TapirStore_Load s key ''null'' Timestamp_default else s))"

section \<open>The strong server\<close>

datatype Mode = MODE_UNKNOWN | MODE_OCC | MODE_LOCK | MODE_SPAN_OCC | MODE_SPAN_LOCK

datatype TxnStore = StoreLock LockStore | StoreOCC OCCStore

record StrongServer =
  ss_mode :: Mode
  timeServer :: TrueTime
  ss_store :: TxnStore

definition StrongServer_init :: "Mode \<Rightarrow> u64 \<Rightarrow> u64 \<Rightarrow> u64 \<Rightarrow> StrongServer outcome" where
  "StrongServer_init mode skew error rnd =
     (let server = (\<lambda>st. Inr \<lparr>ss_mode = mode, timeServer = TrueTime_skewed rnd skew error, ss_store = st\<rparr>) in
      case mode of
        MODE_LOCK \<Rightarrow> server (StoreLock LockStore_init)
      | MODE_SPAN_LOCK \<Rightarrow> server (StoreLock LockStore_init)
      | MODE_OCC \<Rightarrow> server (StoreOCC OCCStore_init)
      | MODE_SPAN_OCC \<Rightarrow> server (StoreOCC OCCStore_init)
      | MODE_UNKNOWN \<Rightarrow> Inl (Panicked ''NOT_REACHABLE''))"

text \<open>The virtual calls through \<^verbatim>\<open>TxnStore\<close>.\<close>

definition TxnStore_Get ::
  "timeval \<times> timeval \<Rightarrow> TxnStore \<Rightarrow> u64 \<Rightarrow> string \<Rightarrow> Timestamp option
    \<Rightarrow> (int \<times> VersionedValue option \<times> TxnStore) outcome" where
  "TxnStore_Get c st tid key t =
     (case st of
        StoreLock s \<Rightarrow>
          obind (case t of None \<Rightarrow> LockStore_Get c s tid key | Some t \<Rightarrow> LockStore_Get_at c s tid key t)
            (\<lambda>(r, v, s'). Inr (r, v, StoreLock s'))
      | StoreOCC s \<Rightarrow>
          (let (r, v) = (case t of None \<Rightarrow> OCCStore_Get s tid key | Some t \<Rightarrow> OCCStore_Get_at s tid key t)
           in Inr (r, v, st)))"

definition TxnStore_Prepare ::
  "(nat \<Rightarrow> timeval \<times> timeval) \<Rightarrow> TxnStore \<Rightarrow> u64 \<Rightarrow> Transaction \<Rightarrow> (int \<times> TxnStore) outcome" where
  "TxnStore_Prepare clk st tid txn =
     (case st of
        StoreLock s \<Rightarrow> obind (LockStore_Prepare clk s tid txn) (\<lambda>(r, s'). Inr (r, StoreLock s'))
      | StoreOCC s \<Rightarrow> (let (r, s') = OCCStore_Prepare s tid txn in Inr (r, StoreOCC s')))"

definition TxnStore_Commit :: "TxnStore \<Rightarrow> u64 \<Rightarrow> u64 \<Rightarrow> TxnStore outcome" where
  "TxnStore_Commit st tid ts =
     (case st of
        StoreLock s \<Rightarrow> obind (LockStore_Commit s tid ts) (\<lambda>s'. Inr (StoreLock s'))
      | StoreOCC s \<Rightarrow> obind (OCCStore_Commit s tid ts) (\<lambda>s'. Inr (StoreOCC s')))"

definition TxnStore_Abort :: "TxnStore \<Rightarrow> u64 \<Rightarrow> Transaction \<Rightarrow> TxnStore outcome" where
  "TxnStore_Abort st tid txn =
     (case st of
        StoreLock s \<Rightarrow> obind (LockStore_Abort s tid txn) (\<lambda>s'. Inr (StoreLock s'))
      | StoreOCC s \<Rightarrow> Inr (StoreOCC (OCCStore_Abort s tid txn)))"

definition TxnStore_Load :: "TxnStore \<Rightarrow> string \<Rightarrow> string \<Rightarrow> Timestamp \<Rightarrow> TxnStore" where
  "TxnStore_Load st key v t =
     (case st of
        StoreLock s \<Rightarrow> StoreLock (LockStore_Load s key v t)
      | StoreOCC s \<Rightarrow> StoreOCC (OCCStore_Load s key v t))"

type_synonym StrongRequest = "u64 Request"
type_synonym StrongReply = "u64 Reply"

text \<open>The answer to a GET, shared by \<^verbatim>\<open>LeaderUpcall\<close> and \<^verbatim>\<open>UnloggedUpcall\<close>.\<close>

definition strong_get ::
  "timeval \<times> timeval \<Rightarrow> TxnStore \<Rightarrow> StrongRequest \<Rightarrow> (StrongReply \<times> TxnStore) outcome" where
  "strong_get c st request =
     (case snd (get_of request) of
        Some t \<Rightarrow>
          obind (TxnStore_Get c st (txnid request) (fst (get_of request)) (Some (Timestamp_of_msg t)))
            (\<lambda>(status, val, st').
               Inr (\<lparr>rp_status = status, rp_value = if status = 0 then map_option snd val else None,
                     rp_timestamp = None\<rparr>, st'))
      | None \<Rightarrow>
          obind (TxnStore_Get c st (txnid request) (fst (get_of request)) None)
            (\<lambda>(status, val, st').
               Inr (\<lparr>rp_status = status, rp_value = if status = 0 then map_option snd val else None,
                     rp_timestamp = if status = 0 then map_option (getTimestamp \<circ> fst) val else None\<rparr>,
                    st')))"

definition span_mode :: "Mode \<Rightarrow> bool" where
  "span_mode mode \<longleftrightarrow> mode = MODE_SPAN_LOCK \<or> mode = MODE_SPAN_OCC"

text \<open>
  \<open>clk\<close> and \<open>now\<close> are the clock readings of the lock server and of \<^verbatim>\<open>TrueTime\<close>. The result is
  (\<^verbatim>\<open>replicate\<close>, \<^verbatim>\<open>str2\<close>, server).
\<close>

definition Strong_LeaderUpcall ::
  "(string \<Rightarrow> StrongRequest) \<Rightarrow> (StrongRequest \<Rightarrow> string) \<Rightarrow> (StrongReply \<Rightarrow> string)
    \<Rightarrow> (nat \<Rightarrow> timeval \<times> timeval) \<Rightarrow> timeval \<Rightarrow> StrongServer \<Rightarrow> string
    \<Rightarrow> (bool \<times> string \<times> StrongServer) outcome" where
  "Strong_LeaderUpcall parse serq serp clk now s str1 =
     (let request = parse str1 in
      case rq_op request of
        GET \<Rightarrow>
          obind (strong_get (clk 0) (ss_store s) request) (\<lambda>(reply, st).
            Inr (False, serp reply, s\<lparr>ss_store := st\<rparr>))
      | PREPARE \<Rightarrow>
          obind (TxnStore_Prepare clk (ss_store s) (txnid request)
                   (Transaction_of_msg (fst (prepare_of request)))) (\<lambda>(status, st).
            if status = 0 then
              Inr (True,
                   serq (if span_mode (ss_mode s)
                         then request\<lparr>rq_prepare := Some (fst (prepare_of request),
                                                     Some (GetTime (timeServer s) now))\<rparr>
                         else request),
                   s\<lparr>ss_store := st\<rparr>)
            else
              Inr (False, serp \<lparr>rp_status = status, rp_value = None, rp_timestamp = None\<rparr>,
                   s\<lparr>ss_store := st\<rparr>))
      | COMMIT \<Rightarrow> Inr (True, str1, s)
      | ABORT \<Rightarrow> Inr (True, str1, s))"

text \<open>\<open>str2\<close> is the caller's reply string, which a GET leaves as it is.\<close>

definition Strong_ReplicaUpcall ::
  "(string \<Rightarrow> StrongRequest) \<Rightarrow> (StrongReply \<Rightarrow> string) \<Rightarrow> (nat \<Rightarrow> timeval \<times> timeval) \<Rightarrow> StrongServer
    \<Rightarrow> string \<Rightarrow> string \<Rightarrow> (string \<times> StrongServer) outcome" where
  "Strong_ReplicaUpcall parse serp clk s str1 str2 =
     (let request = parse str1;
          done = (\<lambda>t st. Inr (serp \<lparr>rp_status = 0, rp_value = None, rp_timestamp = t\<rparr>,
                              s\<lparr>ss_store := st\<rparr>))
      in case rq_op request of
        GET \<Rightarrow> Inr (str2, s)
      | PREPARE \<Rightarrow>
          obind (TxnStore_Prepare clk (ss_store s) (txnid request)
                   (Transaction_of_msg (fst (prepare_of request)))) (\<lambda>(status, st).
            done (if span_mode (ss_mode s)
                  then Some (case snd (prepare_of request) of Some t \<Rightarrow> t | None \<Rightarrow> 0) else None) st)
      | COMMIT \<Rightarrow>
          obind (TxnStore_Commit (ss_store s) (txnid request) (commit_of request)) (done None)
      | ABORT \<Rightarrow>
          obind (TxnStore_Abort (ss_store s) (txnid request) (Transaction_of_msg (abort_of request)))
            (done None))"

definition Strong_UnloggedUpcall ::
  "(string \<Rightarrow> StrongRequest) \<Rightarrow> (StrongReply \<Rightarrow> string) \<Rightarrow> timeval \<times> timeval \<Rightarrow> StrongServer \<Rightarrow> string
    \<Rightarrow> (string \<times> StrongServer) outcome" where
  "Strong_UnloggedUpcall parse serp c s str1 =
     (let request = parse str1 in
      obind (assert_that (rq_op request = GET) ''request.op() == GET'') (\<lambda>_.
        obind (strong_get c (ss_store s) request) (\<lambda>(reply, st).
          Inr (serp reply, s\<lparr>ss_store := st\<rparr>))))"

fun Strong_load_keys :: "u64 \<Rightarrow> u64 \<Rightarrow> string list \<Rightarrow> StrongServer \<Rightarrow> StrongServer outcome" where
  "Strong_load_keys maxShard myShard [] s = Inr s"
| "Strong_load_keys maxShard myShard (key # ks) s =
     obind (load_on_shard key maxShard myShard) (\<lambda>mine.
       Strong_load_keys maxShard myShard ks
         (if mine then s\<lparr>ss_store := TxnStore_Load (ss_store s) key ''null'' Timestamp_default\<rparr> else s))"

section \<open>The weak server\<close>

definition WeakStore_Get :: "KVStore \<Rightarrow> u64 \<Rightarrow> string \<Rightarrow> string \<Rightarrow> int \<times> string" where
  "WeakStore_Get s clientid key v =
     (case KVStore_get s key of Some val \<Rightarrow> (REPLY_OK, val) | None \<Rightarrow> (REPLY_FAIL, v))"

definition WeakStore_Put :: "KVStore \<Rightarrow> u64 \<Rightarrow> string \<Rightarrow> string \<Rightarrow> int \<times> KVStore" where
  "WeakStore_Put s clientid key v = (REPLY_OK, KVStore_put s key v)"

datatype WeakMessage =
    WeakGet u64 string
  | WeakPut u64 string string
  | WeakOther string

datatype WeakReply =
    WeakGetReply int string
  | WeakPutReply int

text \<open>\<^verbatim>\<open>HandleMessage\<close> with its two handlers: the reply that is sent to the sender.\<close>

definition Weak_HandleMessage :: "KVStore \<Rightarrow> WeakMessage \<Rightarrow> (WeakReply \<times> KVStore) outcome" where
  "Weak_HandleMessage s m =
     (case m of
        WeakGet clientid key \<Rightarrow>
          (let (status, v) = WeakStore_Get s clientid key '''' in Inr (WeakGetReply status v, s))
      | WeakPut clientid key v \<Rightarrow>
          (let (status, s') = WeakStore_Put s clientid key v in Inr (WeakPutReply status, s'))
      | WeakOther type \<Rightarrow>
          Inl (Panicked ''Received unexpected message type in OR proto''))"

definition Weak_load_keys :: "string list \<Rightarrow> KVStore \<Rightarrow> KVStore" where
  "Weak_load_keys ks s = fold (\<lambda>key s. KVStore_put s key key) ks s"

section \<open>Properties\<close>

lemma TxnStore_Prepare_again:
  assumes "TxnStore_Prepare clk st i txn = Inr (0, st')" and "omap_wf (case st of
      StoreLock s \<Rightarrow> lk_prepared s | StoreOCC s \<Rightarrow> oc_prepared s)"
  shows "TxnStore_Prepare clk' st' i txn' = Inr (0, st')"
proof (cases st)
  case (StoreLock s)
  with assms obtain s' where p: "LockStore_Prepare clk s i txn = Inr (0, s')" "st' = StoreLock s'"
    by (auto simp: TxnStore_Prepare_def)
  then have "map_of (lk_prepared s') i \<noteq> None"
    using assms(2) StoreLock by (auto simp: LockStore_Prepare_def reply_defs split: if_splits)
  then show ?thesis using p by (simp add: TxnStore_Prepare_def LockStore_Prepare_def reply_defs)
next
  case (StoreOCC s)
  with assms obtain s' where p: "OCCStore_Prepare s i txn = (0, s')" "st' = StoreOCC s'"
    by (auto simp: TxnStore_Prepare_def split: prod.splits)
  then have "map_of (oc_prepared s') i \<noteq> None"
    using assms(2) StoreOCC by (auto simp: OCCStore_Prepare_def Let_def reply_defs split: if_splits)
  then show ?thesis using p by (simp add: TxnStore_Prepare_def OCCStore_Prepare_def reply_defs)
qed

text \<open>The prepared transactions of a server are an ordered map from the start on.\<close>

definition prepared_of :: "TxnStore \<Rightarrow> (u64 \<times> Transaction) list" where
  "prepared_of st = (case st of StoreLock s \<Rightarrow> lk_prepared s | StoreOCC s \<Rightarrow> oc_prepared s)"

lemma load_on_shard_iff:
  "load_on_shard key n m = Inr b \<Longrightarrow> b \<longleftrightarrow> key_to_shard key n = Inr m"
  by (auto simp: load_on_shard_def key_to_shard_def split: if_splits)

lemma inStore_Load: "inStore (tp_store (TapirStore_Load s k v t)) k' \<longleftrightarrow> k' = k \<or> inStore (tp_store s) k'"
  by (simp add: TapirStore_Load_def inStore_put)

lemma load_keys_inStore:
  "Tapir_load_keys n m ks s = Inr s' \<Longrightarrow>
   inStore (tp_store s') k \<longleftrightarrow> k \<in> set ks \<and> key_to_shard k n = Inr m \<or> inStore (tp_store s) k"
proof (induction ks arbitrary: s)
  case (Cons key ks)
  then obtain b where b: "load_on_shard key n m = Inr b"
    and rest: "Tapir_load_keys n m ks
      (if b then TapirStore_Load s key ''null'' Timestamp_default else s) = Inr s'" by auto
  from Cons.IH [OF rest] load_on_shard_iff [OF b] show ?case by (auto simp: inStore_Load)
qed simp

text \<open>
  A key file loads exactly the keys that clients route to the shard: after \<^verbatim>\<open>main\<close> of the server
  for shard \<open>m\<close> of \<open>n\<close>, a key of the file is in the store iff \<^verbatim>\<open>Client::key_to_shard\<close> sends it to \<open>m\<close>.
\<close>

theorem load_agrees_with_routing:
  assumes "Tapir_load_keys n m ks (TapirStore_init lin) = Inr s" and "k \<in> set ks"
  shows "inStore (tp_store s) k \<longleftrightarrow> key_to_shard k n = Inr m"
proof -
  have "\<not> inStore (tp_store (TapirStore_init lin)) k"
    by (simp add: TapirStore_init_def inStore_def VersionedKVStore_init_def)
  with load_keys_inStore [OF assms(1), of k] assms(2) show ?thesis by blast
qed

theorem load_agrees_with_routing_witness:
  "\<exists>s. Tapir_load_keys 1 0 [''a''] (TapirStore_init True) = Inr s \<and>
     (inStore (tp_store s) ''a'' \<longleftrightarrow> key_to_shard ''a'' 1 = Inr 0)"
proof -
  obtain s where s: "Tapir_load_keys 1 0 [''a''] (TapirStore_init True) = Inr s"
    by (simp add: load_on_shard_def)
  from load_agrees_with_routing [OF s] s show ?thesis by simp
qed

text \<open>
  What the leader's \<^verbatim>\<open>LeaderUpcall\<close> decided for a PREPARE is what the leader's own execution of
  the replicated request repeats: the store is not changed a second time, the reply says OK, and in
  the Spanner modes it carries the prepare timestamp that the leader took from its clock.
\<close>

theorem leader_prepare_stable:
  assumes "codec_ok parse serq" and "omap_wf (prepared_of (ss_store s))"
    and "rq_op (parse str1) = PREPARE"
    and "Strong_LeaderUpcall parse serq serp clk now s str1 = Inr (True, str2, s')"
  shows "Strong_ReplicaUpcall parse serp clk' s' str2 str3 =
    Inr (serp \<lparr>rp_status = 0, rp_value = None,
               rp_timestamp = if span_mode (ss_mode s) then Some (GetTime (timeServer s) now) else None\<rparr>,
         s')"
proof -
  let ?rq = "parse str1" and ?txn = "Transaction_of_msg (fst (prepare_of (parse str1)))"
  obtain st where prep: "TxnStore_Prepare clk (ss_store s) (txnid ?rq) ?txn = Inr (0, st)"
    and s': "s' = s\<lparr>ss_store := st\<rparr>"
    and str2: "str2 = serq (if span_mode (ss_mode s)
        then ?rq\<lparr>rq_prepare := Some (fst (prepare_of ?rq), Some (GetTime (timeServer s) now))\<rparr> else ?rq)"
    using assms(3,4) by (auto simp: Strong_LeaderUpcall_def Let_def split: if_splits)
  have again: "TxnStore_Prepare clk' st (txnid ?rq) txn' = Inr (0, st)" for txn'
    using TxnStore_Prepare_again [OF prep] assms(2) by (simp add: prepared_of_def)
  have "parse str2 = (if span_mode (ss_mode s)
      then ?rq\<lparr>rq_prepare := Some (fst (prepare_of ?rq), Some (GetTime (timeServer s) now))\<rparr> else ?rq)"
    using assms(1) str2 by (simp add: codec_ok_def)
  then show ?thesis
    using assms(3) again s'
    by (simp add: Strong_ReplicaUpcall_def Let_def prepare_of_def)
qed

definition ex_strong :: StrongServer where
  "ex_strong = projr (StrongServer_init MODE_SPAN_OCC 0 0 0)"

definition ex_strong_rq :: StrongRequest where
  "ex_strong_rq = \<lparr>rq_op = PREPARE, txnid = 1, rq_get = None,
     rq_prepare = Some (TransactionMessage_default, None), rq_commit = None, rq_abort = None\<rparr>"

theorem leader_prepare_stable_witness:
  "\<exists>str2 s'. Strong_LeaderUpcall unary_parse unary_ser unary_ser ex_clk \<lparr>tv_sec = 1, tv_usec = 2\<rparr>
       ex_strong (unary_ser ex_strong_rq) = Inr (True, str2, s') \<and>
     Strong_ReplicaUpcall unary_parse unary_ser ex_clk s' str2 '''' =
       Inr (unary_ser \<lparr>rp_status = 0, rp_value = None,
              rp_timestamp = Some (GetTime (TrueTime_skewed 0 0 0) \<lparr>tv_sec = 1, tv_usec = 2\<rparr>)\<rparr>, s')"
proof -
  let ?s = ex_strong and ?now = "\<lparr>tv_sec = 1, tv_usec = 2\<rparr>"
  obtain str2 s' where lead: "Strong_LeaderUpcall unary_parse unary_ser unary_ser ex_clk ?now ?s
      (unary_ser ex_strong_rq) = Inr (True, str2, s')"
    by (simp add: Strong_LeaderUpcall_def ex_strong_rq_def ex_strong_def StrongServer_init_def TxnStore_Prepare_def
        OCCStore_Prepare_def OCCStore_init_def prepare_of_def TransactionMessage_default_def
        Transaction_of_msg_def Transaction_empty_def reply_defs Let_def)
  have "omap_wf (prepared_of (ss_store ?s))" and "span_mode (ss_mode ?s)"
    by (simp_all add: ex_strong_def StrongServer_init_def prepared_of_def OCCStore_init_def span_mode_def)
  with leader_prepare_stable [OF unary_codec _ _ lead, of ex_clk "''''"] lead show ?thesis
    by (simp add: ex_strong_rq_def ex_strong_def StrongServer_init_def)
qed

text \<open>
  The reply to a TAPIR PREPARE: for a client's timestamp \<open>t\<close>, a retry that carries a timestamp
  carries one that is later than \<open>t\<close>, and every other reply carries none.
\<close>

theorem tapir_consensus_reply:
  assumes "codec_ok parserp ser" and "rq_op (parse str1) = PREPARE"
    and "prepare_of (parse str1) = (txn, Some (Timestamp_serialize t))"
    and "Tapir_ExecConsensusUpcall parse ser s str1 = Inr (str2, s')"
  shows "(case rp_timestamp (parserp str2) of
      Some m \<Rightarrow> rp_status (parserp str2) = REPLY_RETRY \<and> t < Timestamp_of_msg m
    | None \<Rightarrow> True) \<and> tp_store s' = tp_store s"
proof -
  obtain r p where p: "TapirStore_Prepare s (txnid (parse str1)) (Transaction_of_msg txn) t
      Timestamp_default = Inr (r, p, s')"
    and str2: "str2 = ser \<lparr>rp_status = r, rp_value = None,
      rp_timestamp = if isValid p then Some (Timestamp_serialize p) else None\<rparr>"
    using assms(2-4) by (auto simp: Tapir_ExecConsensusUpcall_def)
  have "parserp str2 = \<lparr>rp_status = r, rp_value = None,
      rp_timestamp = if isValid p then Some (Timestamp_serialize p) else None\<rparr>"
    using assms(1) str2 by (simp add: codec_ok_def)
  moreover have "isValid p \<longrightarrow> r = REPLY_RETRY \<and> t < p" and "tp_store s' = tp_store s"
    using p by (cases rule: Prepare_cases; force)+
  ultimately show ?thesis by simp
qed

text \<open>The example: key \<open>a\<close> has a version at time 9, and a client proposes to write it at time 5.\<close>

definition ex_retry_store :: TapirStore where
  "ex_retry_store = TapirStore_Load (TapirStore_init True) ''a'' ''0'' (Timestamp 9 1)"

definition ex_retry_txn :: TransactionMessage where
  "ex_retry_txn = \<lparr>readset = [], writeset = [(''a'', ''1'')]\<rparr>"

definition ex_retry_rq :: TapirRequest where
  "ex_retry_rq = \<lparr>rq_op = PREPARE, txnid = 1, rq_get = None,
     rq_prepare = Some (ex_retry_txn, Some (Timestamp_serialize (Timestamp 5 1))),
     rq_commit = None, rq_abort = None\<rparr>"

theorem tapir_consensus_reply_witness:
  "\<exists>str2 s'. Tapir_ExecConsensusUpcall unary_parse unary_ser ex_retry_store (unary_ser ex_retry_rq) =
       Inr (str2, s') \<and>
     rp_timestamp (unary_parse str2 :: TapirReply) = Some (Timestamp_serialize (Timestamp 9 1)) \<and>
     rp_status (unary_parse str2 :: TapirReply) = REPLY_RETRY"
proof -
  let ?rp = "\<lparr>rp_status = REPLY_RETRY, rp_value = None,
      rp_timestamp = Some (Timestamp_serialize (Timestamp 9 1))\<rparr> :: TapirReply"
  have ex: "Tapir_ExecConsensusUpcall unary_parse unary_ser ex_retry_store (unary_ser ex_retry_rq) =
      Inr (unary_ser ?rp, ex_retry_store)"
    by (simp add: Tapir_ExecConsensusUpcall_def ex_retry_rq_def ex_retry_txn_def ex_retry_store_def
        prepare_of_def Transaction_of_msg_def Transaction_empty_def addWriteSet_def ex_tapir_defs)
  have "prepare_of (unary_parse (unary_ser ex_retry_rq)) =
      (ex_retry_txn, Some (Timestamp_serialize (Timestamp 5 1)))"
    by (simp add: ex_retry_rq_def prepare_of_def)
  from tapir_consensus_reply [OF unary_codec _ this ex] have
    "rp_status (unary_parse (unary_ser ?rp) :: TapirReply) = REPLY_RETRY"
    by (simp add: ex_retry_rq_def)
  with ex show ?thesis by (metis unary_parse_ser Reply.select_convs(3))
qed

end
