(* ===== verification/Shard_Clients.thy ===== *)
theory Shard_Clients
  imports Buffer_Client Store_Servers
begin

text \<open>
  The shard clients, \<^verbatim>\<open>store/tapirstore/shardclient.cc\<close> and \<^verbatim>\<open>store/strongstore/shardclient.cc\<close>: the
  link between the application thread, which makes calls and waits on promises, and the transport
  thread, which sends the requests and runs the callbacks. Both share one pointer \<open>waiting\<close> to the
  promise that the next callback answers.

  Promises live in a heap, so that a pointer can dangle. A call leaves a task for the transport
  thread (\<^verbatim>\<open>Timer(0, ...)\<close>); running it gives the request to the replication client, which holds
  its continuation until it calls it, at most once, as \<^verbatim>\<open>IRClient\<close> and \<^verbatim>\<open>VRClient\<close> do. The byte
  encodings of the messages are the parameters \<open>parse\<close> and \<open>ser\<close>.
\<close>

section \<open>State\<close>

datatype sc_kind = KGet | KPrepare | KCommit | KAbort

record sc_task =
  st_kind :: sc_kind
  st_request :: string
  st_promise :: "nat option"
  st_timeout :: int

record ShardClient =
  sc_waiting :: "nat option"
  sc_blockingBegin :: "nat option"
  sc_heap :: "nat \<Rightarrow> Promise option"
  sc_next :: nat
  sc_tasks :: "sc_task list"
  sc_pending :: "sc_task list"

definition ShardClient_new :: ShardClient where
  "ShardClient_new = \<lparr>sc_waiting = None, sc_blockingBegin = None, sc_heap = (\<lambda>_. None), sc_next = 0,
     sc_tasks = [], sc_pending = []\<rparr>"

definition new_promise :: "int \<Rightarrow> ShardClient \<Rightarrow> nat \<times> ShardClient" where
  "new_promise timeout s =
     (sc_next s, s\<lparr>sc_heap := (sc_heap s)(sc_next s \<mapsto> Promise_new timeout), sc_next := Suc (sc_next s)\<rparr>)"

definition deref :: "ShardClient \<Rightarrow> nat \<Rightarrow> Promise outcome" where
  "deref s a = (case sc_heap s a of None \<Rightarrow> Inl (Undefined ''deleted promise'') | Some p \<Rightarrow> Inr p)"

definition reply_to :: "(Promise \<Rightarrow> Promise) \<Rightarrow> nat \<Rightarrow> ShardClient \<Rightarrow> ShardClient outcome" where
  "reply_to f a s = obind (deref s a) (\<lambda>p. Inr (s\<lparr>sc_heap := (sc_heap s)(a \<mapsto> f p)\<rparr>))"

definition delete_promise :: "nat \<Rightarrow> ShardClient \<Rightarrow> ShardClient" where
  "delete_promise a s = s\<lparr>sc_heap := (sc_heap s)(a := None)\<rparr>"

definition add_task :: "sc_kind \<Rightarrow> string \<Rightarrow> nat option \<Rightarrow> int \<Rightarrow> ShardClient \<Rightarrow> ShardClient" where
  "add_task k req promise tmo s =
     s\<lparr>sc_tasks := sc_tasks s @ [\<lparr>st_kind = k, st_request = req, st_promise = promise, st_timeout = tmo\<rparr>]\<rparr>"

definition promise_timeout :: "ShardClient \<Rightarrow> nat option \<Rightarrow> int outcome" where
  "promise_timeout s promise =
     (case promise of None \<Rightarrow> Inr 1000 | Some a \<Rightarrow> obind (deref s a) (\<lambda>p. Inr (Promise_GetTimeout p)))"

definition blank_request :: "Operation \<Rightarrow> u64 \<Rightarrow> 'p Request" where
  "blank_request op tid = \<lparr>rq_op = op, txnid = tid, rq_get = None, rq_prepare = None, rq_commit = None, rq_abort = None\<rparr>"

text \<open>The requests that both shard clients build; only a TAPIR prepare carries a timestamp.\<close>

definition get_request :: "u64 \<Rightarrow> string \<Rightarrow> Timestamp option \<Rightarrow> 'p Request" where
  "get_request tid key t = (blank_request GET tid)\<lparr>rq_get := Some (key, map_option Timestamp_serialize t)\<rparr>"

definition prepare_request :: "u64 \<Rightarrow> Transaction \<Rightarrow> 'p option \<Rightarrow> 'p Request" where
  "prepare_request tid txn t = (blank_request PREPARE tid)\<lparr>rq_prepare := Some (Transaction_serialize txn, t)\<rparr>"

definition commit_request :: "u64 \<Rightarrow> u64 \<Rightarrow> 'p Request" where
  "commit_request tid timestamp = (blank_request COMMIT tid)\<lparr>rq_commit := Some timestamp\<rparr>"

definition abort_request :: "u64 \<Rightarrow> Transaction \<Rightarrow> 'p Request" where
  "abort_request tid txn = (blank_request ABORT tid)\<lparr>rq_abort := Some (Transaction_serialize txn)\<rparr>"

section \<open>The shard client of the TAPIR store\<close>

definition TapirShard_Begin :: "ShardClient \<Rightarrow> u64 \<Rightarrow> ShardClient blocking" where
  "TapirShard_Begin s tid =
     (case sc_blockingBegin s of
        None \<Rightarrow> returns s
      | Some q \<Rightarrow>
          obind (deref s q) (\<lambda>p. bbind (Inr (GetReply p)) (\<lambda>_.
            returns ((delete_promise q s)\<lparr>sc_blockingBegin := None\<rparr>))))"

definition TapirShard_Get ::
  "(TapirRequest \<Rightarrow> string) \<Rightarrow> ShardClient \<Rightarrow> u64 \<Rightarrow> string \<Rightarrow> nat option \<Rightarrow> ShardClient outcome" where
  "TapirShard_Get ser s tid key promise =
     (let request_str = ser (get_request tid key None)
      in obind (promise_timeout s promise) (\<lambda>timeout. Inr (add_task KGet request_str promise timeout s)))"

definition TapirShard_Get_at ::
  "(TapirRequest \<Rightarrow> string) \<Rightarrow> ShardClient \<Rightarrow> u64 \<Rightarrow> string \<Rightarrow> Timestamp \<Rightarrow> nat option \<Rightarrow> ShardClient outcome" where
  "TapirShard_Get_at ser s tid key timestamp promise =
     (let request_str = ser (get_request tid key (Some timestamp))
      in obind (promise_timeout s promise) (\<lambda>timeout. Inr (add_task KGet request_str promise timeout s)))"

definition TapirShard_Put :: "ShardClient \<Rightarrow> u64 \<Rightarrow> string \<Rightarrow> string \<Rightarrow> nat option \<Rightarrow> ShardClient outcome" where
  "TapirShard_Put s tid key v promise = Inl (Panicked ''Unimplemented PUT'')"

definition TapirShard_Prepare ::
  "(TapirRequest \<Rightarrow> string) \<Rightarrow> ShardClient \<Rightarrow> u64 \<Rightarrow> Transaction \<Rightarrow> Timestamp \<Rightarrow> nat option \<Rightarrow> ShardClient" where
  "TapirShard_Prepare ser s tid txn timestamp promise =
     (let request_str = ser (prepare_request tid txn (Some (Timestamp_serialize timestamp)))
      in add_task KPrepare request_str promise 0 s)"

text \<open>
  The decision on the slow path, over the results in the order of the \<^verbatim>\<open>std::map\<close>. \<open>quorum\<close> is what
  \<^verbatim>\<open>config->QuorumSize()\<close> gives; \<^verbatim>\<open>config\<close> points to a variable of the constructor that is gone by then.
\<close>

fun decide_loop ::
  "(string \<Rightarrow> TapirReply) \<Rightarrow> (string \<times> nat) list \<Rightarrow> int \<Rightarrow> Timestamp \<Rightarrow> string + (int \<times> Timestamp)" where
  "decide_loop parse [] ok_count ts = Inr (ok_count, ts)"
| "decide_loop parse ((str, count) # rest) ok_count ts =
     (let reply = parse str in
      if rp_status reply = REPLY_OK then decide_loop parse rest (ok_count + int count) ts
      else if rp_status reply = REPLY_FAIL then Inl str
      else if rp_status reply = REPLY_RETRY then
        (let t = Timestamp_of_msg (case rp_timestamp reply of Some m \<Rightarrow> m | None \<Rightarrow> TimestampMessage 0 0)
         in decide_loop parse rest ok_count (if Timestamp_gt t ts then t else ts))
      else decide_loop parse rest ok_count ts)"

definition TapirDecide ::
  "(string \<Rightarrow> TapirReply) \<Rightarrow> (TapirReply \<Rightarrow> string) \<Rightarrow> int \<Rightarrow> (string \<times> nat) list \<Rightarrow> string" where
  "TapirDecide parse ser quorum results =
     (case decide_loop parse results 0 (Timestamp_of_u64 0) of
        Inl str \<Rightarrow> str
      | Inr (ok_count, ts) \<Rightarrow>
          if ok_count \<ge> quorum then ser \<lparr>rp_status = REPLY_OK, rp_value = None, rp_timestamp = None\<rparr>
          else ser \<lparr>rp_status = REPLY_RETRY, rp_value = None, rp_timestamp = Some (Timestamp_serialize ts)\<rparr>)"

definition TapirShard_Commit ::
  "(TapirRequest \<Rightarrow> string) \<Rightarrow> ShardClient \<Rightarrow> u64 \<Rightarrow> Transaction \<Rightarrow> u64 \<Rightarrow> nat option \<Rightarrow> ShardClient" where
  "TapirShard_Commit ser s tid txn timestamp promise =
     (let request_str = ser (commit_request tid timestamp);
          (q, s1) = new_promise COMMIT_TIMEOUT s
      in add_task KCommit request_str promise 0 (s1\<lparr>sc_blockingBegin := Some q\<rparr>))"

definition TapirShard_Abort ::
  "(TapirRequest \<Rightarrow> string) \<Rightarrow> ShardClient \<Rightarrow> u64 \<Rightarrow> Transaction \<Rightarrow> nat option \<Rightarrow> ShardClient" where
  "TapirShard_Abort ser s tid txn promise =
     (let request_str = ser (abort_request tid txn);
          (q, s1) = new_promise ABORT_TIMEOUT s
      in add_task KAbort request_str promise 0 (s1\<lparr>sc_blockingBegin := Some q\<rparr>))"

text \<open>The callbacks, on the transport thread.\<close>

definition answer_waiting :: "(Promise \<Rightarrow> Promise) \<Rightarrow> ShardClient \<Rightarrow> ShardClient outcome" where
  "answer_waiting f s =
     (case sc_waiting s of None \<Rightarrow> Inr s | Some w \<Rightarrow> reply_to f w (s\<lparr>sc_waiting := None\<rparr>))"

definition TapirShard_GetTimeout :: "ShardClient \<Rightarrow> ShardClient outcome" where
  "TapirShard_GetTimeout s = answer_waiting (\<lambda>w. Promise_Reply w REPLY_TIMEOUT) s"

definition get_answer :: "TapirReply \<Rightarrow> Promise \<Rightarrow> Promise" where
  "get_answer reply w =
     (let v = (case rp_value reply of Some v \<Rightarrow> v | None \<Rightarrow> '''') in
      case rp_timestamp reply of
        Some m \<Rightarrow> Promise_Reply_tv w (rp_status reply) (Timestamp_of_msg m) v
      | None \<Rightarrow> Promise_Reply_v w (rp_status reply) v)"

definition TapirShard_GetCallback :: "(string \<Rightarrow> TapirReply) \<Rightarrow> ShardClient \<Rightarrow> string \<Rightarrow> ShardClient outcome" where
  "TapirShard_GetCallback parse s reply_str = answer_waiting (get_answer (parse reply_str)) s"

definition prepare_answer :: "TapirReply \<Rightarrow> Promise \<Rightarrow> Promise" where
  "prepare_answer reply w =
     (case rp_timestamp reply of
        Some m \<Rightarrow> Promise_Reply_t w (rp_status reply) (Timestamp_of_msg m)
      | None \<Rightarrow> Promise_Reply_t w (rp_status reply) Timestamp_default)"

definition TapirShard_PrepareCallback :: "(string \<Rightarrow> TapirReply) \<Rightarrow> ShardClient \<Rightarrow> string \<Rightarrow> ShardClient outcome" where
  "TapirShard_PrepareCallback parse s reply_str = answer_waiting (prepare_answer (parse reply_str)) s"

definition TapirShard_CommitCallback :: "ShardClient \<Rightarrow> string \<Rightarrow> ShardClient outcome" where
  "TapirShard_CommitCallback s reply_str =
     (case sc_blockingBegin s of
        None \<Rightarrow> Inl (AssertFail ''blockingBegin != NULL'')
      | Some q \<Rightarrow>
          obind (reply_to (\<lambda>p. Promise_Reply p 0) q s) (\<lambda>s1. Inr (s1\<lparr>sc_waiting := None\<rparr>)))"

definition TapirShard_AbortCallback :: "ShardClient \<Rightarrow> string \<Rightarrow> ShardClient outcome" where
  "TapirShard_AbortCallback s reply_str =
     (case sc_blockingBegin s of
        None \<Rightarrow> Inl (AssertFail ''blockingBegin != NULL'')
      | Some q \<Rightarrow>
          obind (reply_to (\<lambda>p. Promise_Reply p 0) q s) (\<lambda>s1. Inr (s1\<lparr>sc_waiting := None\<rparr>)))"

section \<open>The shard client of the strong store\<close>

definition StrongShard_Begin :: "ShardClient \<Rightarrow> u64 \<Rightarrow> ShardClient blocking" where
  "StrongShard_Begin s tid =
     (case sc_blockingBegin s of
        None \<Rightarrow> returns s
      | Some q \<Rightarrow>
          obind (deref s q) (\<lambda>p. bbind (Inr (GetReply p)) (\<lambda>_.
            returns ((delete_promise q s)\<lparr>sc_blockingBegin := None\<rparr>))))"

definition StrongShard_Get ::
  "(StrongRequest \<Rightarrow> string) \<Rightarrow> ShardClient \<Rightarrow> u64 \<Rightarrow> string \<Rightarrow> nat option \<Rightarrow> ShardClient outcome" where
  "StrongShard_Get ser s tid key promise =
     (let request_str = ser (get_request tid key None)
      in obind (promise_timeout s promise) (\<lambda>timeout. Inr (add_task KGet request_str promise timeout s)))"

definition StrongShard_Get_at ::
  "(StrongRequest \<Rightarrow> string) \<Rightarrow> ShardClient \<Rightarrow> u64 \<Rightarrow> string \<Rightarrow> Timestamp \<Rightarrow> nat option \<Rightarrow> ShardClient outcome" where
  "StrongShard_Get_at ser s tid key timestamp promise =
     (let request_str = ser (get_request tid key (Some timestamp))
      in obind (promise_timeout s promise) (\<lambda>timeout. Inr (add_task KGet request_str promise timeout s)))"

definition StrongShard_Put :: "ShardClient \<Rightarrow> u64 \<Rightarrow> string \<Rightarrow> string \<Rightarrow> nat option \<Rightarrow> ShardClient outcome" where
  "StrongShard_Put s tid key v promise = Inl (Panicked ''Unimplemented PUT'')"

definition StrongShard_Prepare ::
  "(StrongRequest \<Rightarrow> string) \<Rightarrow> ShardClient \<Rightarrow> u64 \<Rightarrow> Transaction \<Rightarrow> Timestamp \<Rightarrow> nat option \<Rightarrow> ShardClient" where
  "StrongShard_Prepare ser s tid txn timestamp promise =
     (let request_str = ser (prepare_request tid txn None)
      in add_task KPrepare request_str promise 0 s)"

definition StrongShard_Commit ::
  "(StrongRequest \<Rightarrow> string) \<Rightarrow> ShardClient \<Rightarrow> u64 \<Rightarrow> Transaction \<Rightarrow> u64 \<Rightarrow> nat option \<Rightarrow> ShardClient" where
  "StrongShard_Commit ser s tid txn timestamp promise =
     (let request_str = ser (commit_request tid timestamp);
          (q, s1) = new_promise COMMIT_TIMEOUT s
      in add_task KCommit request_str promise 0 (s1\<lparr>sc_blockingBegin := Some q\<rparr>))"

definition StrongShard_Abort ::
  "(StrongRequest \<Rightarrow> string) \<Rightarrow> ShardClient \<Rightarrow> u64 \<Rightarrow> Transaction \<Rightarrow> nat option \<Rightarrow> ShardClient" where
  "StrongShard_Abort ser s tid txn promise =
     (let request_str = ser (abort_request tid txn);
          (q, s1) = new_promise ABORT_TIMEOUT s
      in add_task KAbort request_str promise 0 (s1\<lparr>sc_blockingBegin := Some q\<rparr>))"

definition StrongShard_GetTimeout :: "ShardClient \<Rightarrow> ShardClient outcome" where
  "StrongShard_GetTimeout s = answer_waiting (\<lambda>w. Promise_Reply w REPLY_TIMEOUT) s"

text \<open>A reply carries its timestamp as a number: \<^verbatim>\<open>Timestamp(reply.timestamp())\<close> has the identifier 0.\<close>

definition StrongShard_GetCallback :: "(string \<Rightarrow> StrongReply) \<Rightarrow> ShardClient \<Rightarrow> string \<Rightarrow> ShardClient outcome" where
  "StrongShard_GetCallback parse s reply_str =
     (let reply = parse reply_str; v = (case rp_value reply of Some v \<Rightarrow> v | None \<Rightarrow> '''') in
      answer_waiting (\<lambda>w.
        case rp_timestamp reply of
          Some t \<Rightarrow> Promise_Reply_tv w (rp_status reply) (Timestamp_of_u64 t) v
        | None \<Rightarrow> Promise_Reply_v w (rp_status reply) v) s)"

definition StrongShard_PrepareCallback :: "(string \<Rightarrow> StrongReply) \<Rightarrow> ShardClient \<Rightarrow> string \<Rightarrow> ShardClient outcome" where
  "StrongShard_PrepareCallback parse s reply_str =
     (let reply = parse reply_str in
      answer_waiting (\<lambda>w.
        case rp_timestamp reply of
          Some t \<Rightarrow> Promise_Reply_t w (rp_status reply) (Timestamp t 0)
        | None \<Rightarrow> Promise_Reply_t w (rp_status reply) Timestamp_default) s)"

definition StrongShard_CommitCallback :: "(string \<Rightarrow> StrongReply) \<Rightarrow> ShardClient \<Rightarrow> string \<Rightarrow> ShardClient outcome" where
  "StrongShard_CommitCallback parse s reply_str =
     (let reply = parse reply_str in
      obind (assert_that (rp_status reply = REPLY_OK) ''reply.status() == REPLY_OK'') (\<lambda>_.
        case sc_blockingBegin s of
          None \<Rightarrow> Inl (AssertFail ''blockingBegin != NULL'')
        | Some q \<Rightarrow>
            obind (reply_to (\<lambda>p. Promise_Reply p 0) q s) (\<lambda>s1.
              answer_waiting (\<lambda>w. Promise_Reply w (rp_status reply)) s1)))"

definition StrongShard_AbortCallback :: "(string \<Rightarrow> StrongReply) \<Rightarrow> ShardClient \<Rightarrow> string \<Rightarrow> ShardClient outcome" where
  "StrongShard_AbortCallback parse s reply_str =
     (let reply = parse reply_str in
      obind (assert_that (rp_status reply = REPLY_OK) ''reply.status() == REPLY_OK'') (\<lambda>_.
        case sc_blockingBegin s of
          None \<Rightarrow> Inl (AssertFail ''blockingBegin != NULL'')
        | Some q \<Rightarrow>
            obind (reply_to (\<lambda>p. Promise_Reply p 0) q s) (\<lambda>s1.
              answer_waiting (\<lambda>w. Promise_Reply w (rp_status reply)) s1)))"

section \<open>The two threads\<close>

text \<open>
  The application thread makes one call after the other: a read or a prepare on a new promise, which
  it then waits for and frees, and a commit or an abort without a promise, after which the next
  transaction begins with a wait for the reply. The transport thread runs the tasks, and the
  replication client calls back. \<open>open_call\<close> is the promise that the application thread waits on.
  \<open>Abandon\<close> is the early return of \<^verbatim>\<open>Client::Prepare\<close>, which leaves its promise behind.
\<close>

datatype sc_call =
    CallGet u64 string
  | CallGet_at u64 string Timestamp
  | CallPrepare u64 Transaction Timestamp
  | CallCommit u64 Transaction u64
  | CallAbort u64 Transaction

record shard_class =
  cl_Begin :: "ShardClient \<Rightarrow> u64 \<Rightarrow> ShardClient blocking"
  cl_call :: "ShardClient \<Rightarrow> sc_call \<Rightarrow> nat option \<Rightarrow> ShardClient outcome"
  cl_callback :: "ShardClient \<Rightarrow> sc_kind \<Rightarrow> string \<Rightarrow> ShardClient outcome"
  cl_timeout :: "ShardClient \<Rightarrow> ShardClient outcome"

definition tapir_shard ::
  "(TapirRequest \<Rightarrow> string) \<Rightarrow> (string \<Rightarrow> TapirReply) \<Rightarrow> shard_class" where
  "tapir_shard ser parse =
     \<lparr>cl_Begin = TapirShard_Begin,
      cl_call = (\<lambda>s call promise.
        case call of
          CallGet tid key \<Rightarrow> TapirShard_Get ser s tid key promise
        | CallGet_at tid key t \<Rightarrow> TapirShard_Get_at ser s tid key t promise
        | CallPrepare tid txn t \<Rightarrow> Inr (TapirShard_Prepare ser s tid txn t promise)
        | CallCommit tid txn t \<Rightarrow> Inr (TapirShard_Commit ser s tid txn t promise)
        | CallAbort tid txn \<Rightarrow> Inr (TapirShard_Abort ser s tid txn promise)),
      cl_callback = (\<lambda>s k reply_str.
        case k of
          KGet \<Rightarrow> TapirShard_GetCallback parse s reply_str
        | KPrepare \<Rightarrow> TapirShard_PrepareCallback parse s reply_str
        | KCommit \<Rightarrow> TapirShard_CommitCallback s reply_str
        | KAbort \<Rightarrow> TapirShard_AbortCallback s reply_str),
      cl_timeout = TapirShard_GetTimeout\<rparr>"

definition strong_shard ::
  "(StrongRequest \<Rightarrow> string) \<Rightarrow> (string \<Rightarrow> StrongReply) \<Rightarrow> shard_class" where
  "strong_shard ser parse =
     \<lparr>cl_Begin = StrongShard_Begin,
      cl_call = (\<lambda>s call promise.
        case call of
          CallGet tid key \<Rightarrow> StrongShard_Get ser s tid key promise
        | CallGet_at tid key t \<Rightarrow> StrongShard_Get_at ser s tid key t promise
        | CallPrepare tid txn t \<Rightarrow> Inr (StrongShard_Prepare ser s tid txn t promise)
        | CallCommit tid txn t \<Rightarrow> Inr (StrongShard_Commit ser s tid txn t promise)
        | CallAbort tid txn \<Rightarrow> Inr (StrongShard_Abort ser s tid txn promise)),
      cl_callback = (\<lambda>s k reply_str.
        case k of
          KGet \<Rightarrow> StrongShard_GetCallback parse s reply_str
        | KPrepare \<Rightarrow> StrongShard_PrepareCallback parse s reply_str
        | KCommit \<Rightarrow> StrongShard_CommitCallback parse s reply_str
        | KAbort \<Rightarrow> StrongShard_AbortCallback parse s reply_str),
      cl_timeout = StrongShard_GetTimeout\<rparr>"

datatype sc_event =
    AppBegin u64
  | AppCall int sc_call
  | AppAwait
  | Abandon
  | RunTask bool
  | CallBack nat string
  | TimeOut nat
  | Forget nat

record sc_sys =
  sy_sc :: ShardClient
  open_call :: "nat option"

definition without_nth :: "nat \<Rightarrow> 'a list \<Rightarrow> 'a list" where
  "without_nth n xs = take n xs @ drop (Suc n) xs"

definition needs_promise :: "sc_call \<Rightarrow> bool" where
  "needs_promise call = (case call of CallCommit _ _ _ \<Rightarrow> False | CallAbort _ _ \<Rightarrow> False | _ \<Rightarrow> True)"

text \<open>
  \<open>RunTask sent\<close> runs the oldest task; the replication client drops a request that the transport
  refuses to send. It may also drop one later without a call back (\<open>Forget\<close>), when it sends it again
  in vain or, for a prepare, when the replicas confirm it in another view. A step gives the pairs of
  a promise that was answered and the promise that the answered request was made with.
\<close>

definition run_task :: "bool \<Rightarrow> ShardClient \<Rightarrow> sc_task \<Rightarrow> sc_task list \<Rightarrow> ShardClient" where
  "run_task sent s t ts =
     s\<lparr>sc_waiting := st_promise t, sc_tasks := ts,
       sc_pending := sc_pending s @ (if sent then [t] else [])\<rparr>"

definition answered :: "ShardClient \<Rightarrow> sc_task \<Rightarrow> (nat \<times> nat option) list" where
  "answered s t = (case sc_waiting s of None \<Rightarrow> [] | Some w \<Rightarrow> [(w, st_promise t)])"

definition sc_do :: "shard_class \<Rightarrow> sc_sys \<Rightarrow> sc_event \<Rightarrow> (sc_sys \<times> (nat \<times> nat option) list) blocking" where
  "sc_do cl y ev =
     (let s = sy_sc y in
      case ev of
        AppBegin tid \<Rightarrow> bbind (cl_Begin cl s tid) (\<lambda>s1. returns (y\<lparr>sy_sc := s1\<rparr>, []))
      | AppCall timeout call \<Rightarrow>
          if needs_promise call then
            (let (a, s1) = new_promise timeout s in
             obind (cl_call cl s1 call (Some a)) (\<lambda>s2. returns (\<lparr>sy_sc = s2, open_call = Some a\<rparr>, [])))
          else obind (cl_call cl s call None) (\<lambda>s1. returns (y\<lparr>sy_sc := s1\<rparr>, []))
      | AppAwait \<Rightarrow>
          (case open_call y of
             None \<Rightarrow> returns (y, [])
           | Some a \<Rightarrow> obind (deref s a) (\<lambda>p. bbind (Inr (GetReply p)) (\<lambda>_.
               returns (\<lparr>sy_sc = delete_promise a s, open_call = None\<rparr>, []))))
      | Abandon \<Rightarrow> returns (y\<lparr>open_call := None\<rparr>, [])
      | RunTask sent \<Rightarrow>
          (case sc_tasks s of
             [] \<Rightarrow> returns (y, [])
           | t # ts \<Rightarrow> returns (y\<lparr>sy_sc := run_task sent s t ts\<rparr>, []))
      | CallBack n reply_str \<Rightarrow>
          (let t = sc_pending s ! n; s1 = s\<lparr>sc_pending := without_nth n (sc_pending s)\<rparr> in
           obind (cl_callback cl s1 (st_kind t) reply_str) (\<lambda>s2. returns (y\<lparr>sy_sc := s2\<rparr>, answered s t)))
      | TimeOut n \<Rightarrow>
          (let t = sc_pending s ! n; s1 = s\<lparr>sc_pending := without_nth n (sc_pending s)\<rparr> in
           obind (cl_timeout cl s1) (\<lambda>s2. returns (y\<lparr>sy_sc := s2\<rparr>, answered s t)))
      | Forget n \<Rightarrow> returns (y\<lparr>sy_sc := s\<lparr>sc_pending := without_nth n (sc_pending s)\<rparr>\<rparr>, []))"

text \<open>
  When an event can happen. The front end calls after the transaction has begun, so no commit is
  outstanding, and does not make a call while another waits; a wait ends when the promise is done.
\<close>

definition sc_enabled :: "sc_sys \<Rightarrow> sc_event \<Rightarrow> bool" where
  "sc_enabled y ev =
     (let s = sy_sc y in
      case ev of
        AppBegin tid \<Rightarrow> open_call y = None
      | AppCall timeout call \<Rightarrow> open_call y = None \<and> sc_blockingBegin s = None
      | AppAwait \<Rightarrow> open_call y \<noteq> None
      | Abandon \<Rightarrow> open_call y \<noteq> None
      | RunTask sent \<Rightarrow> sc_tasks s \<noteq> []
      | CallBack n reply_str \<Rightarrow> n < length (sc_pending s)
      | TimeOut n \<Rightarrow> n < length (sc_pending s) \<and> st_kind (sc_pending s ! n) = KGet
      | Forget n \<Rightarrow> n < length (sc_pending s))"

fun sc_run :: "shard_class \<Rightarrow> sc_sys \<Rightarrow> sc_event list \<Rightarrow> (sc_sys \<times> (nat \<times> nat option) list) blocking" where
  "sc_run cl y [] = returns (y, [])"
| "sc_run cl y (ev # evs) =
     (if sc_enabled y ev
      then bbind (sc_do cl y ev) (\<lambda>(y1, out). bbind (sc_run cl y1 evs) (\<lambda>(y2, outs). returns (y2, out @ outs)))
      else Inr None)"

definition sc_start :: sc_sys where
  "sc_start = \<lparr>sy_sc = ShardClient_new, open_call = None\<rparr>"

section \<open>One call at a time\<close>

text \<open>
  As long as no call is abandoned, at most one request is under way, and \<open>waiting\<close> is the promise it
  was made with. \<open>under_way\<close> collects it, whether it is still a task or pending.
\<close>

definition under_way :: "ShardClient \<Rightarrow> sc_task list" where
  "under_way s = sc_tasks s @ sc_pending s"

definition in_order :: "sc_sys \<Rightarrow> bool" where
  "in_order y \<longleftrightarrow>
     (let s = sy_sc y in
      (\<forall>a\<ge>sc_next s. sc_heap s a = None) \<and> length (under_way s) \<le> 1 \<and>
      (sc_pending s = [] \<or> sc_waiting s = st_promise (hd (sc_pending s))) \<and>
      (case (open_call y, sc_blockingBegin s) of
         (None, None) \<Rightarrow> under_way s = [] \<and> sc_waiting s = None
       | (Some a, None) \<Rightarrow>
           (\<exists>p. sc_heap s a = Some p \<and> (pr_done p \<longrightarrow> under_way s = [] \<and> sc_waiting s = None)) \<and>
           (\<forall>t\<in>set (under_way s). st_promise t = Some a \<and> st_kind t \<in> {KGet, KPrepare}) \<and>
           sc_waiting s \<in> {None, Some a}
       | (None, Some q) \<Rightarrow>
           (\<exists>p. sc_heap s q = Some p \<and> (pr_done p \<longrightarrow> under_way s = [])) \<and>
           (\<forall>t\<in>set (under_way s). st_promise t = None \<and> st_kind t \<in> {KCommit, KAbort}) \<and>
           sc_waiting s = None
       | _ \<Rightarrow> False))"

lemma in_order_start: "in_order sc_start"
  by (simp add: in_order_def sc_start_def ShardClient_new_def under_way_def)

text \<open>What the two classes have in common, and all that the argument needs.\<close>

locale shard_class_contract =
  fixes cl :: shard_class and refusals :: "fault set"
  assumes begin_free: "sc_blockingBegin s = None \<Longrightarrow> cl_Begin cl s tid = returns s"
    and begin_wait: "sc_blockingBegin s = Some q \<Longrightarrow> sc_heap s q = Some p \<Longrightarrow>
      cl_Begin cl s tid =
        (if pr_done p then returns ((delete_promise q s)\<lparr>sc_blockingBegin := None\<rparr>) else Inr None)"
    and call_promise: "needs_promise call \<Longrightarrow> sc_heap s a \<noteq> None \<Longrightarrow>
      \<exists>k str tmo. k \<in> {KGet, KPrepare} \<and> cl_call cl s call (Some a) = Inr (add_task k str (Some a) tmo s)"
    and call_decision: "\<not> needs_promise call \<Longrightarrow>
      \<exists>k str tmo t0. k \<in> {KCommit, KAbort} \<and> cl_call cl s call None =
        Inr (add_task k str None tmo ((snd (new_promise t0 s))\<lparr>sc_blockingBegin := Some (sc_next s)\<rparr>))"
    and callback_answer: "k \<in> {KGet, KPrepare} \<Longrightarrow> sc_waiting s = Some w \<Longrightarrow> sc_heap s w = Some p \<Longrightarrow>
      \<exists>p'. pr_done p' \<and> cl_callback cl s k str =
        Inr (s\<lparr>sc_waiting := None, sc_heap := (sc_heap s)(w \<mapsto> p')\<rparr>)"
    and callback_decision: "k \<in> {KCommit, KAbort} \<Longrightarrow> sc_waiting s = None \<Longrightarrow> sc_blockingBegin s = Some q \<Longrightarrow>
      sc_heap s q = Some p \<Longrightarrow>
      (\<exists>e\<in>refusals. cl_callback cl s k str = Inl e) \<or>
      (\<exists>p'. pr_done p' \<and> cl_callback cl s k str = Inr (s\<lparr>sc_heap := (sc_heap s)(q \<mapsto> p')\<rparr>))"
    and timeout_answer: "sc_waiting s = Some w \<Longrightarrow> sc_heap s w = Some p \<Longrightarrow>
      \<exists>p'. pr_done p' \<and> cl_timeout cl s = Inr (s\<lparr>sc_waiting := None, sc_heap := (sc_heap s)(w \<mapsto> p')\<rparr>)"
begin

lemma one_pending:
  assumes "in_order y" and "n < length (sc_pending (sy_sc y))"
  obtains t where "n = 0" and "sc_pending (sy_sc y) = [t]" and "sc_tasks (sy_sc y) = []"
    and "sc_waiting (sy_sc y) = st_promise t"
proof -
  have "length (sc_tasks (sy_sc y)) + length (sc_pending (sy_sc y)) \<le> 1"
    using assms(1) by (simp add: in_order_def under_way_def Let_def)
  with assms(2) have "n = 0" "length (sc_pending (sy_sc y)) = 1" "length (sc_tasks (sy_sc y)) = 0" by linarith+
  then show thesis using assms(1) that by (auto simp: in_order_def Let_def length_Suc_conv)
qed

definition step_ok :: "(sc_sys \<times> (nat \<times> nat option) list) blocking \<Rightarrow> bool" where
  "step_ok r \<longleftrightarrow>
     (case r of
        Inl e \<Rightarrow> e \<in> refusals
      | Inr None \<Rightarrow> True
      | Inr (Some (y, out)) \<Rightarrow> in_order y \<and> (\<forall>x\<in>set out. snd x = Some (fst x)))"

lemma step_ok_simps [simp]:
  "step_ok (Inl e) \<longleftrightarrow> e \<in> refusals" "step_ok (Inr None)"
  "step_ok (returns (y, out)) \<longleftrightarrow> in_order y \<and> (\<forall>x\<in>set out. snd x = Some (fst x))"
  by (simp_all add: step_ok_def)

lemma step_Begin:
  assumes "in_order y" and "open_call y = None"
  shows "step_ok (sc_do cl y (AppBegin tid))"
proof (cases "sc_blockingBegin (sy_sc y)")
  case None
  then show ?thesis using assms by (simp add: sc_do_def begin_free)
next
  case (Some q)
  then obtain p where "sc_heap (sy_sc y) q = Some p" using assms by (auto simp: in_order_def Let_def)
  with Some show ?thesis
    using assms by (auto simp: sc_do_def begin_wait in_order_def delete_promise_def under_way_def Let_def)
qed

lemma step_Call:
  assumes "in_order y" and "open_call y = None" and "sc_blockingBegin (sy_sc y) = None"
  shows "step_ok (sc_do cl y (AppCall tmo call))"
proof (cases "needs_promise call")
  case True
  let ?s1 = "snd (new_promise tmo (sy_sc y))"
  have "sc_heap ?s1 (sc_next (sy_sc y)) \<noteq> None" by (simp add: new_promise_def)
  from call_promise [OF True this] obtain k str t where "k \<in> {KGet, KPrepare}"
    "cl_call cl ?s1 call (Some (sc_next (sy_sc y))) = Inr (add_task k str (Some (sc_next (sy_sc y))) t ?s1)"
    by blast
  then show ?thesis using assms True
    by (auto simp: sc_do_def new_promise_def in_order_def under_way_def add_task_def Promise_new_def Let_def)
next
  case False
  from call_decision [OF False, of "sy_sc y"] obtain k str t t0 where "k \<in> {KCommit, KAbort}"
    "cl_call cl (sy_sc y) call None =
       Inr (add_task k str None t ((snd (new_promise t0 (sy_sc y)))\<lparr>sc_blockingBegin := Some (sc_next (sy_sc y))\<rparr>))"
    by blast
  then show ?thesis using assms False
    by (auto simp: sc_do_def new_promise_def in_order_def under_way_def add_task_def Promise_new_def Let_def)
qed

lemma step_Await:
  assumes "in_order y" and "open_call y \<noteq> None"
  shows "step_ok (sc_do cl y AppAwait)"
  using assms
  by (auto simp: sc_do_def in_order_def deref_def delete_promise_def under_way_def GetReply_def Let_def
      split: option.splits)

lemma step_RunTask:
  assumes "in_order y" and "sc_tasks (sy_sc y) \<noteq> []"
  shows "step_ok (sc_do cl y (RunTask sent))"
proof -
  obtain t where t: "sc_tasks (sy_sc y) = [t]" "sc_pending (sy_sc y) = []"
    using assms by (cases "sc_tasks (sy_sc y)") (auto simp: in_order_def under_way_def Let_def)
  then show ?thesis using assms(1)
    by (auto simp: sc_do_def in_order_def run_task_def under_way_def Let_def split: option.splits)
qed

lemma step_CallBack:
  assumes "in_order y" and "n < length (sc_pending (sy_sc y))"
  shows "step_ok (sc_do cl y (CallBack n str))"
proof -
  obtain t where t: "n = 0" "sc_pending (sy_sc y) = [t]" "sc_tasks (sy_sc y) = []"
    "sc_waiting (sy_sc y) = st_promise t" by (rule one_pending [OF assms])
  let ?s = "(sy_sc y)\<lparr>sc_pending := []\<rparr>"
  show ?thesis
  proof (cases "st_promise t")
    case (Some a)
    then obtain p where p: "sc_heap ?s a = Some p" "st_kind t \<in> {KGet, KPrepare}" "sc_waiting ?s = Some a"
      and o: "open_call y = Some a" "sc_blockingBegin (sy_sc y) = None"
      using assms(1) t by (auto simp: in_order_def under_way_def Let_def split: option.splits)
    from callback_answer [OF p(2,3,1)] obtain p' where "pr_done p'"
      "cl_callback cl ?s (st_kind t) str = Inr (?s\<lparr>sc_waiting := None, sc_heap := (sc_heap ?s)(a \<mapsto> p')\<rparr>)" by blast
    then show ?thesis using assms(1) t o p Some
      by (auto simp: sc_do_def in_order_def under_way_def without_nth_def answered_def Let_def)
  next
    case None
    then obtain q p where p: "sc_blockingBegin ?s = Some q" "sc_heap ?s q = Some p" "st_kind t \<in> {KCommit, KAbort}"
      and o: "open_call y = None" and w: "sc_waiting ?s = None"
      using assms(1) t by (auto simp: in_order_def under_way_def Let_def split: option.splits)
    from callback_decision [OF p(3) w p(1,2), of str] show ?thesis using assms(1) t o p w
      by (auto simp: sc_do_def in_order_def under_way_def without_nth_def answered_def Let_def)
  qed
qed

lemma step_TimeOut:
  assumes "in_order y" and "n < length (sc_pending (sy_sc y))" and "st_kind (sc_pending (sy_sc y) ! n) = KGet"
  shows "step_ok (sc_do cl y (TimeOut n))"
proof -
  obtain t where t: "n = 0" "sc_pending (sy_sc y) = [t]" "sc_tasks (sy_sc y) = []"
    "sc_waiting (sy_sc y) = st_promise t" by (rule one_pending [OF assms(1,2)])
  let ?s = "(sy_sc y)\<lparr>sc_pending := []\<rparr>"
  obtain a p where a: "st_promise t = Some a" and p: "sc_heap ?s a = Some p" "sc_waiting ?s = Some a"
    and o: "open_call y = Some a" "sc_blockingBegin (sy_sc y) = None"
    using assms(1,3) t by (auto simp: in_order_def under_way_def Let_def split: option.splits)
  from timeout_answer [OF p(2,1)] obtain p' where "pr_done p'"
    "cl_timeout cl ?s = Inr (?s\<lparr>sc_waiting := None, sc_heap := (sc_heap ?s)(a \<mapsto> p')\<rparr>)" by blast
  then show ?thesis using assms(1) t o p a
    by (auto simp: sc_do_def in_order_def under_way_def without_nth_def answered_def Let_def)
qed

lemma step_Forget:
  assumes "in_order y" and "n < length (sc_pending (sy_sc y))"
  shows "step_ok (sc_do cl y (Forget n))"
proof -
  obtain t where t: "n = 0" "sc_pending (sy_sc y) = [t]" "sc_tasks (sy_sc y) = []"
    "sc_waiting (sy_sc y) = st_promise t" by (rule one_pending [OF assms])
  then show ?thesis using assms(1)
    by (auto simp: sc_do_def in_order_def under_way_def without_nth_def Let_def split: option.splits)
qed

lemma step_in_order:
  assumes "in_order y" and "sc_enabled y ev" and "ev \<noteq> Abandon"
  shows "step_ok (sc_do cl y ev)"
  using assms
  by (cases ev) (simp_all add: sc_enabled_def Let_def step_Begin step_Call step_Await step_RunTask step_CallBack
      step_TimeOut step_Forget)

lemma run_in_order:
  "in_order y \<Longrightarrow> Abandon \<notin> set evs \<Longrightarrow> step_ok (sc_run cl y evs)"
proof (induction evs arbitrary: y)
  case (Cons ev evs)
  show ?case
  proof (cases "sc_enabled y ev")
    case True
    then have "step_ok (sc_do cl y ev)" using step_in_order Cons.prems by auto
    moreover have "step_ok (sc_run cl y1 evs)" if "in_order y1" for y1 using Cons that by simp
    ultimately show ?thesis using True
      by (fastforce simp: step_ok_def bbind_def split: sum.splits option.splits prod.splits)
  qed simp
qed simp

end

lemmas tapir_shard_ops = tapir_shard_def TapirShard_Begin_def TapirShard_Get_def TapirShard_Get_at_def
  TapirShard_Prepare_def TapirShard_Commit_def TapirShard_Abort_def TapirShard_GetTimeout_def
  TapirShard_GetCallback_def TapirShard_PrepareCallback_def TapirShard_CommitCallback_def
  TapirShard_AbortCallback_def get_answer_def prepare_answer_def

lemmas strong_shard_ops = strong_shard_def StrongShard_Begin_def StrongShard_Get_def StrongShard_Get_at_def
  StrongShard_Prepare_def StrongShard_Commit_def StrongShard_Abort_def StrongShard_GetTimeout_def
  StrongShard_GetCallback_def StrongShard_PrepareCallback_def StrongShard_CommitCallback_def
  StrongShard_AbortCallback_def

lemmas shard_helpers = deref_def reply_to_def answer_waiting_def promise_timeout_def new_promise_def needs_promise_def
  promise_defs

lemma answer_waiting_done:
  assumes "sc_waiting s = Some w" and "sc_heap s w = Some p" and "\<And>p. pr_done (f p)"
  shows "\<exists>p'. pr_done p' \<and> answer_waiting f s = Inr (s\<lparr>sc_waiting := None, sc_heap := (sc_heap s)(w \<mapsto> p')\<rparr>)"
  using assms by (intro exI [of _ "f p"]) (simp add: answer_waiting_def reply_to_def deref_def)

lemma answer_blocking_done:
  assumes "sc_waiting s = None" and "sc_heap s q = Some p"
  shows "\<exists>p'. pr_done p' \<and> reply_to (\<lambda>p. Promise_Reply p 0) q s = Inr (s\<lparr>sc_heap := (sc_heap s)(q \<mapsto> p')\<rparr>) \<and>
    answer_waiting f (s\<lparr>sc_heap := (sc_heap s)(q \<mapsto> p')\<rparr>) = Inr (s\<lparr>sc_heap := (sc_heap s)(q \<mapsto> p')\<rparr>) \<and>
    s\<lparr>sc_heap := (sc_heap s)(q \<mapsto> p'), sc_waiting := None\<rparr> = s\<lparr>sc_heap := (sc_heap s)(q \<mapsto> p')\<rparr>"
  using assms by (intro exI [of _ "Promise_Reply p 0"]) (simp add: answer_waiting_def reply_to_def deref_def promise_defs)

lemma Reply_done [simp]:
  "pr_done (Promise_Reply p r)" "pr_done (Promise_Reply_t p r t)" "pr_done (Promise_Reply_v p r v)"
  "pr_done (Promise_Reply_tv p r t v)"
  by (simp_all add: promise_defs)

interpretation tsc: shard_class_contract "tapir_shard ser parse" "{}"
proof unfold_locales
  fix s :: ShardClient and q p k str assume k: "k \<in> {KCommit, KAbort}" and w: "sc_waiting s = None"
    and q: "sc_blockingBegin s = Some q" "sc_heap s q = Some p"
  from answer_blocking_done [OF w q(2)] k q
  show "(\<exists>e\<in>{}. cl_callback (tapir_shard ser parse) s k str = Inl e) \<or>
      (\<exists>p'. pr_done p' \<and> cl_callback (tapir_shard ser parse) s k str = Inr (s\<lparr>sc_heap := (sc_heap s)(q \<mapsto> p')\<rparr>))"
    by (fastforce simp: tapir_shard_def TapirShard_CommitCallback_def TapirShard_AbortCallback_def)
next
  fix s :: ShardClient and w p k str assume k: "k \<in> {KGet, KPrepare}" and w: "sc_waiting s = Some w" "sc_heap s w = Some p"
  show "\<exists>p'. pr_done p' \<and> cl_callback (tapir_shard ser parse) s k str =
      Inr (s\<lparr>sc_waiting := None, sc_heap := (sc_heap s)(w \<mapsto> p')\<rparr>)"
    using k answer_waiting_done [OF w]
    by (auto simp: tapir_shard_def TapirShard_GetCallback_def TapirShard_PrepareCallback_def get_answer_def
        prepare_answer_def Let_def split: option.split)
next
  fix s :: ShardClient and w p assume w: "sc_waiting s = Some w" "sc_heap s w = Some p"
  show "\<exists>p'. pr_done p' \<and> cl_timeout (tapir_shard ser parse) s =
      Inr (s\<lparr>sc_waiting := None, sc_heap := (sc_heap s)(w \<mapsto> p')\<rparr>)"
    using answer_waiting_done [OF w] by (simp add: tapir_shard_def TapirShard_GetTimeout_def)
qed (auto simp: tapir_shard_ops shard_helpers Let_def split: sc_call.splits option.splits)

interpretation ssc: shard_class_contract "strong_shard ser parse" "{AssertFail ''reply.status() == REPLY_OK''}"
proof unfold_locales
  fix s :: ShardClient and q p k str assume k: "k \<in> {KCommit, KAbort}" and w: "sc_waiting s = None"
    and q: "sc_blockingBegin s = Some q" "sc_heap s q = Some p"
  from answer_blocking_done [OF w q(2)] k q
  show "(\<exists>e\<in>{AssertFail ''reply.status() == REPLY_OK''}. cl_callback (strong_shard ser parse) s k str = Inl e) \<or>
      (\<exists>p'. pr_done p' \<and> cl_callback (strong_shard ser parse) s k str = Inr (s\<lparr>sc_heap := (sc_heap s)(q \<mapsto> p')\<rparr>))"
    by (fastforce simp: strong_shard_def StrongShard_CommitCallback_def StrongShard_AbortCallback_def Let_def)
next
  fix s :: ShardClient and w p k str assume k: "k \<in> {KGet, KPrepare}" and w: "sc_waiting s = Some w" "sc_heap s w = Some p"
  show "\<exists>p'. pr_done p' \<and> cl_callback (strong_shard ser parse) s k str =
      Inr (s\<lparr>sc_waiting := None, sc_heap := (sc_heap s)(w \<mapsto> p')\<rparr>)"
    using k answer_waiting_done [OF w]
    by (auto simp: strong_shard_def StrongShard_GetCallback_def StrongShard_PrepareCallback_def Let_def split: option.split)
next
  fix s :: ShardClient and w p assume w: "sc_waiting s = Some w" "sc_heap s w = Some p"
  show "\<exists>p'. pr_done p' \<and> cl_timeout (strong_shard ser parse) s =
      Inr (s\<lparr>sc_waiting := None, sc_heap := (sc_heap s)(w \<mapsto> p')\<rparr>)"
    using answer_waiting_done [OF w] by (simp add: strong_shard_def StrongShard_GetTimeout_def)
qed (auto simp: strong_shard_ops shard_helpers Let_def split: sc_call.splits option.splits)

text \<open>
  As long as the application abandons no call, the TAPIR shard client delivers every answer to
  the call it belongs to. In every interleaving of the two threads, with requests that are lost,
  time out or are answered by anything, no assertion fails, no deleted promise is used, and a
  promise that a callback answers is the one that the answered request was made with.
\<close>

theorem tapir_shard_answers:
  assumes "Abandon \<notin> set evs"
  shows "case sc_run (tapir_shard ser parse) sc_start evs of
      Inl e \<Rightarrow> False
    | Inr None \<Rightarrow> True
    | Inr (Some (y, out)) \<Rightarrow> list_all (\<lambda>(w, made_with). made_with = Some w) out"
  using tsc.run_in_order [OF in_order_start assms, of ser parse]
  by (auto simp: tsc.step_ok_def list_all_iff split: sum.splits option.splits prod.splits)

text \<open>
  The same holds of the strong shard client, whose only fault is then that a commit or an abort
  is answered with a failure.
\<close>

theorem strong_shard_answers:
  assumes "Abandon \<notin> set evs"
  shows "case sc_run (strong_shard ser parse) sc_start evs of
      Inl e \<Rightarrow> e = AssertFail ''reply.status() == REPLY_OK''
    | Inr None \<Rightarrow> True
    | Inr (Some (y, out)) \<Rightarrow> list_all (\<lambda>(w, made_with). made_with = Some w) out"
  using ssc.run_in_order [OF in_order_start assms, of ser parse]
  by (auto simp: ssc.step_ok_def list_all_iff split: sum.splits option.splits prod.splits)

text \<open>
  A run with an abandoned call. A prepare is given up because another shard voted against the
  transaction; the abort completes and the next transaction begins and reads a key; then the
  prepare is answered.
\<close>

definition stale_prepare_run :: "string \<Rightarrow> sc_event list" where
  "stale_prepare_run vote =
     [AppCall 1000 (CallPrepare 1 Transaction_empty (Timestamp 1 1)), RunTask True, Abandon,
      AppCall 1000 (CallAbort 1 Transaction_empty), RunTask True, CallBack 1 '''', AppBegin 2,
      AppCall 250 (CallGet 2 ''k''), RunTask True, CallBack 0 vote]"

text \<open>
  An abandoned prepare can answer a read of the next transaction: when the front end returns
  early from its round of prepares, the vote that comes in later is taken for the answer to the
  read under way, which returns with the status of the vote and an empty value.
\<close>

theorem stale_vote_answers_read:
  assumes "parse vote = \<lparr>rp_status = REPLY_OK, rp_value = None, rp_timestamp = None\<rparr>"
  shows "\<exists>y. sc_run (tapir_shard ser parse) sc_start (stale_prepare_run vote) = returns (y, [(2, Some 0)]) \<and>
    open_call y = Some 2 \<and> map_option pr_reply (sc_heap (sy_sc y) 2) = Some REPLY_OK \<and>
    map_option pr_value (sc_heap (sy_sc y) 2) = Some '''' \<and> map st_kind (sc_pending (sy_sc y)) = [KGet]"
  using assms
  by (simp add: stale_prepare_run_def sc_start_def ShardClient_new_def sc_enabled_def sc_do_def tapir_shard_ops
      shard_helpers add_task_def run_task_def without_nth_def answered_def delete_promise_def Let_def)

theorem tapir_shard_answers_witness:
  "\<exists>y out. sc_run (tapir_shard (\<lambda>rq. ''q'') (\<lambda>str. \<lparr>rp_status = REPLY_OK, rp_value = Some str, rp_timestamp = None\<rparr>))
       sc_start [AppCall 250 (CallGet 2 ''k''), RunTask True, CallBack 0 ''v'', AppAwait] = returns (y, out) \<and>
     out = [(0, Some 0)] \<and> list_all (\<lambda>(w, made_with). made_with = Some w) out"
proof -
  let ?r = "sc_run (tapir_shard (\<lambda>rq. ''q'') (\<lambda>str. \<lparr>rp_status = REPLY_OK, rp_value = Some str, rp_timestamp = None\<rparr>))
       sc_start [AppCall 250 (CallGet 2 ''k''), RunTask True, CallBack 0 ''v'', AppAwait]"
  obtain y where y: "?r = returns (y, [(0, Some 0)])"
    by (simp add: sc_start_def ShardClient_new_def sc_enabled_def sc_do_def tapir_shard_ops
      shard_helpers add_task_def run_task_def without_nth_def answered_def delete_promise_def Let_def)
  moreover have "list_all (\<lambda>(w, made_with). made_with = Some w) [(0 :: nat, Some 0)]"
    using tapir_shard_answers [of "[AppCall 250 (CallGet 2 ''k''), RunTask True, CallBack 0 ''v'', AppAwait]"
        "\<lambda>rq. ''q''" "\<lambda>str. \<lparr>rp_status = REPLY_OK, rp_value = Some str, rp_timestamp = None\<rparr>"] y by simp
  ultimately show ?thesis by blast
qed

theorem strong_shard_answers_witness:
  "\<exists>y out. sc_run (strong_shard (\<lambda>rq. ''q'') (\<lambda>str. \<lparr>rp_status = REPLY_OK, rp_value = None, rp_timestamp = Some 7\<rparr>))
       sc_start [AppCall 1000 (CallPrepare 2 Transaction_empty Timestamp_default), RunTask True, CallBack 0 ''v''] =
       returns (y, out) \<and>
     out = [(0, Some 0)] \<and> list_all (\<lambda>(w, made_with). made_with = Some w) out"
proof -
  let ?evs = "[AppCall 1000 (CallPrepare 2 Transaction_empty Timestamp_default), RunTask True, CallBack 0 ''v'']"
  let ?r = "sc_run (strong_shard (\<lambda>rq. ''q'') (\<lambda>str. \<lparr>rp_status = REPLY_OK, rp_value = None, rp_timestamp = Some 7\<rparr>))
       sc_start ?evs"
  obtain y where y: "?r = returns (y, [(0, Some 0)])"
    by (simp add: sc_start_def ShardClient_new_def sc_enabled_def sc_do_def strong_shard_ops
      shard_helpers add_task_def run_task_def without_nth_def answered_def delete_promise_def Let_def)
  moreover have "list_all (\<lambda>(w, made_with). made_with = Some w) [(0 :: nat, Some 0)]"
    using strong_shard_answers [of ?evs "\<lambda>rq. ''q''" "\<lambda>str. \<lparr>rp_status = REPLY_OK, rp_value = None, rp_timestamp = Some 7\<rparr>"]
      y by simp
  ultimately show ?thesis by blast
qed

theorem stale_vote_answers_read_witness:
  "\<exists>y. sc_run (tapir_shard (\<lambda>rq. ''q'') (\<lambda>str. \<lparr>rp_status = REPLY_OK, rp_value = None, rp_timestamp = None\<rparr>))
     sc_start (stale_prepare_run ''v'') = returns (y, [(2, Some 0)]) \<and> open_call y = Some 2"
  using stale_vote_answers_read [of "\<lambda>str. \<lparr>rp_status = REPLY_OK, rp_value = None, rp_timestamp = None\<rparr>" "''v''"
      "\<lambda>rq. ''q''"] by blast

section \<open>The decision on the slow path\<close>

definition retry_time :: "TapirReply \<Rightarrow> Timestamp" where
  "retry_time reply = Timestamp_of_msg (case rp_timestamp reply of Some m \<Rightarrow> m | None \<Rightarrow> TimestampMessage 0 0)"

lemma decide_loop_fail:
  "decide_loop parse rs c ts = Inl str \<Longrightarrow> str \<in> fst ` set rs \<and> rp_status (parse str) = REPLY_FAIL"
proof (induction rs arbitrary: c ts)
  case (Cons r rs)
  then show ?case by (cases r) (fastforce simp: Let_def split: if_splits)
qed simp

lemma decide_loop_all:
  assumes "decide_loop parse rs c ts = Inr (c', ts')"
  shows "\<forall>r\<in>set rs. rp_status (parse (fst r)) \<noteq> REPLY_FAIL"
    and "c' = c + (\<Sum>r\<leftarrow>filter (\<lambda>r. rp_status (parse (fst r)) = REPLY_OK) rs. int (snd r))"
    and "ts' = fold (\<lambda>r t. if rp_status (parse (fst r)) = REPLY_RETRY then max t (retry_time (parse (fst r))) else t) rs ts"
  using assms
proof (induction rs arbitrary: c ts)
  case (Cons r rs)
  {
    case 1
    then show ?case using Cons.IH(1) by (cases r) (auto simp: Let_def reply_defs split: if_splits)
  next
    case 2
    then show ?case using Cons.IH(2) by (cases r) (fastforce simp: Let_def reply_defs split: if_splits)
  next
    case 3
    have "max a b = (if Timestamp_gt b a then b else a)" for a b :: Timestamp by (auto simp: max_def)
    then show ?case using Cons.IH(3) 3
      by (cases r) (auto simp: Let_def reply_defs retry_time_def split: if_splits)
  }
qed simp_all

lemma fold_max_le:
  fixes g :: "'r \<Rightarrow> Timestamp"
  shows "t \<le> fold (\<lambda>r t. if P r then max t (g r) else t) rs t"
  by (induction rs arbitrary: t) (auto intro: order_trans [OF max.cobounded1])

lemma fold_max_ge:
  fixes g :: "'r \<Rightarrow> Timestamp"
  shows "r \<in> set rs \<Longrightarrow> P r \<Longrightarrow> g r \<le> fold (\<lambda>r t. if P r then max t (g r) else t) rs t"
proof (induction rs arbitrary: t)
  case (Cons a rs)
  from fold_max_le [of "max t (g a)" P g rs] Cons show ?case by (auto intro: order_trans [OF max.cobounded2])
qed simp

lemma fold_max_in:
  fixes g :: "'r \<Rightarrow> Timestamp"
  shows "fold (\<lambda>r t. if P r then max t (g r) else t) rs t \<in> insert t (g ` {r \<in> set rs. P r})"
proof (induction rs arbitrary: t)
  case (Cons a rs)
  from Cons.IH [of "if P a then max t (g a) else t"] show ?case by (auto simp: max_def split: if_splits)
qed simp

definition retry_times :: "(string \<Rightarrow> TapirReply) \<Rightarrow> (string \<times> nat) list \<Rightarrow> Timestamp set" where
  "retry_times parse results =
     (\<lambda>r. retry_time (parse (fst r))) ` {r \<in> set results. rp_status (parse (fst r)) = REPLY_RETRY}"

text \<open>
  The decision on the slow path of a prepare. If a replica refuses the transaction the decision
  is its reply; otherwise the transaction is prepared if at least a quorum of the replies agree, and
  else it is to be tried again, at a time that no reply to retry lies after and that one of them
  names (or at 0 when there is none).
\<close>

theorem tapir_decide:
  assumes "codec_ok parse ser"
  shows "if list_ex (\<lambda>r. rp_status (parse (fst r)) = REPLY_FAIL) results
    then rp_status (parse (TapirDecide parse ser quorum results)) = REPLY_FAIL
    else if quorum \<le> (\<Sum>r\<leftarrow>filter (\<lambda>r. rp_status (parse (fst r)) = REPLY_OK) results. int (snd r))
    then rp_status (parse (TapirDecide parse ser quorum results)) = REPLY_OK
    else rp_status (parse (TapirDecide parse ser quorum results)) = REPLY_RETRY \<and>
      (\<forall>t\<in>retry_times parse results. t \<le> retry_time (parse (TapirDecide parse ser quorum results))) \<and>
      retry_time (parse (TapirDecide parse ser quorum results)) \<in> insert (Timestamp 0 0) (retry_times parse results)"
proof (cases "decide_loop parse results 0 (Timestamp_of_u64 0)")
  case (Inl str)
  then show ?thesis using decide_loop_fail [OF Inl] by (force simp: TapirDecide_def list_ex_iff)
next
  case (Inr r)
  then obtain c ts where r: "decide_loop parse results 0 (Timestamp_of_u64 0) = Inr (c, ts)" by (cases r) simp
  note all = decide_loop_all [OF r]
  have rt: "parse (ser x) = x" for x using assms(1) by (simp add: codec_ok_def)
  have "t \<le> ts" if "t \<in> retry_times parse results" for t
  proof -
    obtain q where q: "q \<in> set results" "rp_status (parse (fst q)) = REPLY_RETRY" "t = retry_time (parse (fst q))"
      using \<open>t \<in> retry_times parse results\<close> by (auto simp: retry_times_def)
    show ?thesis unfolding all(3) q(3)
      by (rule fold_max_ge [of q results "\<lambda>r. rp_status (parse (fst r)) = REPLY_RETRY" "\<lambda>r. retry_time (parse (fst r))",
            OF q(1,2)])
  qed
  moreover have "ts \<in> insert (Timestamp 0 0) (retry_times parse results)"
    using fold_max_in [of "\<lambda>r. rp_status (parse (fst r)) = REPLY_RETRY" "\<lambda>r. retry_time (parse (fst r))" results
        "Timestamp_of_u64 0"]
    unfolding all(3) retry_times_def by (simp add: Timestamp_of_u64_def)
  moreover have "\<not> list_ex (\<lambda>r. rp_status (parse (fst r)) = REPLY_FAIL) results"
    using all(1) by (simp add: list_ex_iff)
  ultimately show ?thesis
    using r all(2) by (simp add: TapirDecide_def rt retry_time_def)
qed

theorem tapir_decide_witness:
  "rp_status (unary_parse (TapirDecide unary_parse unary_ser 2
     [(unary_ser (\<lparr>rp_status = REPLY_OK, rp_value = None, rp_timestamp = None\<rparr> :: TapirReply), 2)]) :: TapirReply) = REPLY_OK"
  using tapir_decide [OF unary_codec,
      of "[(unary_ser (\<lparr>rp_status = REPLY_OK, rp_value = None, rp_timestamp = None\<rparr> :: TapirReply), 2)]" 2]
  by (simp add: reply_defs)

end
