(* ===== verification/Tapir_System.thy ===== *)
theory Tapir_System
  imports Tapir_Client Shard_Clients
begin

text \<open>
  The TAPIR client together with the servers of its shards: requests and replies go through the
  encodings of the shard client and the upcalls of the server, and other clients work on the same
  stores in between. Each shard is served by one replica, for which inconsistent replication is the
  identity; the group of several replicas is the subject of the replication theories.
\<close>

section \<open>Client and servers\<close>



record tapir_world =
  tw_store :: "int \<Rightarrow> TapirStore"
  tw_time :: nat



definition put_store :: "int \<Rightarrow> TapirStore \<Rightarrow> tapir_world \<Rightarrow> tapir_world" where
  "put_store i s w = w\<lparr>tw_store := (tw_store w)(i := s)\<rparr>"










section \<open>A store between the calls of a client\<close>









section \<open>The rounds of a commit\<close>


















lemma put_store_sel [simp]: "tw_store (put_store i s w) = (tw_store w)(i := s)"
  by (simp add: put_store_def)





section \<open>An abstention\<close>



















end
