(* ===== verification/Vr_System.thy ===== *)
theory Vr_System
  imports Vr_Replica
begin

text \<open>
  A group of viewstamped-replication replicas and the network between them. The transport
  (\<^verbatim>\<open>lib/transportcommon.h\<close>) delivers a packet any number of times, in any order, or not at all, so
  the network is the list of everything that was ever sent; \<^verbatim>\<open>SendMessageToAll\<close> skips the sender.
  An event hands one packet or one client request to a replica, or fires one of its active
  timers. The runs considered stay below \<open>2 ^ 64 - 2\<close> operations, so that operation numbers do
  not wrap.
\<close>

section \<open>Runs\<close>

record 's vr_sys =
  nodes :: "int \<Rightarrow> 's VRReplica"
  packets :: "(int \<times> Address \<times> VRMessage) list"

datatype vr_event =
    ClientRequest u64 int OpRequest
  | ClientUnlogged u64 int OpRequest
  | Deliver int int VRMessage
  | Fire int vr_timer

fun packets_of :: "int \<Rightarrow> int \<Rightarrow> vr_out \<Rightarrow> (int \<times> Address \<times> VRMessage) list" where
  "packets_of n i (SendTo a m) = [(i, a, m)]"
| "packets_of n i (SendReplica j m) = [(i, ReplicaAt j, m)]"
| "packets_of n i (SendAll m) = map (\<lambda>j. (i, ReplicaAt j, m)) (filter (\<lambda>j. j \<noteq> i) [0..n - 1])"

definition vr_start :: "Configuration \<Rightarrow> 32 word \<Rightarrow> 's \<Rightarrow> 's vr_sys" where
  "vr_start cfg bs a = \<lparr>nodes = (\<lambda>i. VRReplica_new cfg i bs a), packets = []\<rparr>"

definition vr_enabled :: "int \<Rightarrow> 's vr_sys \<Rightarrow> vr_event \<Rightarrow> bool" where
  "vr_enabled n s ev =
     (case ev of
        ClientRequest c i req \<Rightarrow> 0 \<le> i \<and> i < n \<and> lastOp (nodes s i) < - 3
      | ClientUnlogged c i req \<Rightarrow> 0 \<le> i \<and> i < n
      | Deliver i j m \<Rightarrow> 0 \<le> j \<and> j < n \<and> (i, ReplicaAt j, m) \<in> set (packets s)
      | Fire i t \<Rightarrow> 0 \<le> i \<and> i < n \<and> timer_active (nodes s i) t)"

definition vr_target :: "vr_event \<Rightarrow> int" where
  "vr_target ev = (case ev of ClientRequest c i req \<Rightarrow> i | ClientUnlogged c i req \<Rightarrow> i | Deliver i j m \<Rightarrow> j | Fire i t \<Rightarrow> i)"

definition vr_react :: "dead_read \<Rightarrow> 's VRApp \<Rightarrow> 's VRReplica \<Rightarrow> vr_event \<Rightarrow> 's vr_result" where
  "vr_react dead app r ev =
     (case ev of
        ClientRequest c i req \<Rightarrow> VR_ReceiveMessage dead app r (ClientAt c) (VRequest req)
      | ClientUnlogged c i req \<Rightarrow> VR_ReceiveMessage dead app r (ClientAt c) (VUnloggedRequest req)
      | Deliver i j m \<Rightarrow> VR_ReceiveMessage dead app r (ReplicaAt i) m
      | Fire i t \<Rightarrow> timer_callback r t)"

definition vr_do :: "int \<Rightarrow> dead_read \<Rightarrow> 's VRApp \<Rightarrow> 's vr_sys \<Rightarrow> vr_event \<Rightarrow> 's vr_sys outcome" where
  "vr_do n dead app s ev =
     obind (vr_react dead app (nodes s (vr_target ev)) ev) (\<lambda>(r, out).
       Inr \<lparr>nodes = (nodes s)(vr_target ev := r),
            packets = packets s @ concat (map (packets_of n (vr_target ev)) out)\<rparr>)"

fun vr_run :: "int \<Rightarrow> dead_read \<Rightarrow> 's VRApp \<Rightarrow> 's vr_sys \<Rightarrow> vr_event list \<Rightarrow> 's vr_sys option" where
  "vr_run n dead app s [] = Some s"
| "vr_run n dead app s (ev # evs) =
     (if vr_enabled n s ev
      then (case vr_do n dead app s ev of Inl e \<Rightarrow> None | Inr s' \<Rightarrow> vr_run n dead app s' evs)
      else None)"

section \<open>A committed operation that is lost\<close>

text \<open>
  Three replicas. Replica 0 puts request \<open>A\<close> into its log in view 0; its message is lost. Replicas 1
  and 2 move to view 1, whose leader, replica 1, puts request \<open>B\<close> into its log; its messages are lost
  too. In view 3 replica 0 leads again, with replica 2: its log is the most recent of the two, the
  entry keeps its old viewstamp, and with replica 2's answer \<open>A\<close> is committed. In view 4 replica 1
  leads with replica 2: its entry has the later viewstamp, so \<open>A\<close> is replaced at replica 2 and
  \<open>B\<close> is committed under the same number.
\<close>

definition req_A :: OpRequest where
  "req_A = \<lparr>rop = ''A'', clientid = 1, clientreqid = 1\<rparr>"

definition req_B :: OpRequest where
  "req_B = \<lparr>rop = ''B'', clientid = 2, clientreqid = 1\<rparr>"

definition ex_svc :: "view_t \<Rightarrow> int \<Rightarrow> VRMessage" where
  "ex_svc v i = VStartViewChange \<lparr>svc_view = v, svc_replicaidx = i, svc_lastcommitted = 0\<rparr>"

definition ex_em :: "view_t \<Rightarrow> OpRequest \<Rightarrow> LogEntryMsg" where
  "ex_em v req = \<lparr>em_view = v, em_opnum = 1, em_state = LOG_STATE_PREPARED, em_hash = '''', em_request = req\<rparr>"

definition ex_dvc :: "view_t \<Rightarrow> opnum_t \<Rightarrow> LogEntryMsg list \<Rightarrow> VRMessage" where
  "ex_dvc v n es = VDoViewChange \<lparr>dvc_view = v, dvc_lastnormalview = 0, dvc_lastop = n, dvc_lastcommitted = 0,
     dvc_entries = es, dvc_replicaidx = 2\<rparr>"

definition ex_sv :: "view_t \<Rightarrow> LogEntryMsg list \<Rightarrow> VRMessage" where
  "ex_sv v es = VStartView \<lparr>sv_view = v, sv_lastop = 1, sv_lastcommitted = 0, sv_entries = es\<rparr>"

definition ex_pok :: "view_t \<Rightarrow> int \<Rightarrow> VRMessage" where
  "ex_pok v i = VPrepareOK \<lparr>pok_view = v, pok_opnum = 1, pok_replicaidx = i\<rparr>"

definition lost_commit_run :: "vr_event list" where
  "lost_commit_run =
     [ClientRequest 1 0 req_A,
      Fire 1 ViewChangeTimer, Deliver 1 2 (ex_svc 1 1), Deliver 2 1 (ex_svc 1 2), Deliver 2 1 (ex_dvc 1 0 []),
      ClientRequest 2 1 req_B,
      Fire 2 ViewChangeTimer, Fire 2 ViewChangeTimer, Deliver 2 0 (ex_svc 3 2), Deliver 0 2 (ex_svc 3 0),
      Deliver 2 0 (ex_dvc 3 0 []), Deliver 0 2 (ex_sv 3 [ex_em 0 req_A]), Deliver 2 0 (ex_pok 3 2),
      Fire 2 ViewChangeTimer, Deliver 2 1 (ex_svc 4 2), Deliver 1 2 (ex_svc 4 1),
      Deliver 2 1 (ex_dvc 4 1 [ex_em 0 req_A]), Deliver 1 2 (ex_sv 4 [ex_em 1 req_B]), Deliver 2 1 (ex_pok 4 2)]"

text \<open>
  Agreement fails across view changes in this run of three replicas, none of which crashes: message
  loss alone leads to a state in which replica 0 has committed (and executed) one request and
  replica 1 another one under the same operation number. No step of the run reads the dead object.
\<close>

lemma lost_commit_run_result:
  "map_option (\<lambda>s. map (\<lambda>i. (lastCommitted (nodes s i), map le_request (entries (vr_log (nodes s i))),
       vr_app (nodes s i))) [0, 1, 2])
     (vr_run 3 (\<lambda>x. Inl (Undefined ''latestMsg'')) echo_app (vr_start (group_of 1) 1 []) lost_commit_run) =
   Some [(1, [req_A], [''A'']), (1, [req_B], [''B'']), (0, [req_B], [])]"
  by code_simp

end
