(* ===== verification/Vr_Upcalls.thy ===== *)
theory Vr_Upcalls
  imports Vr_System
begin

text \<open>
  A run in which no upcall faults is a run of the application whose faulting upcalls are replaced by
  upcalls that return; so what holds of every run of a total application holds of every run. The
  proof compares outcomes: \<open>le_out x y\<close> says that \<open>y\<close> returns what \<open>x\<close> returns, if it does.
\<close>

definition le_out :: "'a outcome \<Rightarrow> 'a outcome \<Rightarrow> bool" where
  "le_out x y \<longleftrightarrow> (\<forall>v. x = Inr v \<longrightarrow> y = Inr v)"

lemma le_out_refl: "le_out x x"
  by (simp add: le_out_def)

lemma le_out_bind: "le_out x y \<Longrightarrow> (\<And>v. le_out (f v) (g v)) \<Longrightarrow> le_out (obind x f) (obind y g)"
  by (auto simp: le_out_def obind_eq_Inr)

lemma le_out_if: "le_out x y \<Longrightarrow> le_out x' y' \<Longrightarrow> le_out (if b then x else x') (if b then y else y')"
  by simp

lemma le_out_prod: "(\<And>a b. le_out (f a b) (g a b)) \<Longrightarrow> le_out (case p of (a, b) \<Rightarrow> f a b) (case p of (a, b) \<Rightarrow> g a b)"
  by (cases p) simp

lemma le_out_option:
  "le_out x y \<Longrightarrow> (\<And>a. le_out (f a) (g a)) \<Longrightarrow>
   le_out (case p of None \<Rightarrow> x | Some a \<Rightarrow> f a) (case p of None \<Rightarrow> y | Some a \<Rightarrow> g a)"
  by (cases p) simp_all

lemmas le_out_intros = le_out_bind le_out_if le_out_prod le_out_option le_out_refl

definition app_le :: "'s VRApp \<Rightarrow> 's VRApp \<Rightarrow> bool" where
  "app_le app app' \<longleftrightarrow>
     (\<forall>a n op. le_out (LeaderUpcall app a n op) (LeaderUpcall app' a n op)) \<and>
     (\<forall>a n op. le_out (ReplicaUpcall app a n op) (ReplicaUpcall app' a n op)) \<and>
     (\<forall>a op. le_out (VRUnloggedUpcall app a op) (VRUnloggedUpcall app' a op))"

definition total_app :: "'s VRApp \<Rightarrow> 's VRApp" where
  "total_app app =
     \<lparr>LeaderUpcall = (\<lambda>a n op. case LeaderUpcall app a n op of Inl e \<Rightarrow> Inr (True, op, a) | Inr p \<Rightarrow> Inr p),
      ReplicaUpcall = (\<lambda>a n op. case ReplicaUpcall app a n op of Inl e \<Rightarrow> Inr ('''', a) | Inr p \<Rightarrow> Inr p),
      VRUnloggedUpcall = (\<lambda>a op. case VRUnloggedUpcall app a op of Inl e \<Rightarrow> Inr ('''', a) | Inr p \<Rightarrow> Inr p)\<rparr>"

lemma app_le_total: "app_le app (total_app app)"
  by (simp add: app_le_def total_app_def le_out_def)

lemma app_leD:
  assumes "app_le app app'"
  shows "le_out (LeaderUpcall app a n op) (LeaderUpcall app' a n op)"
    and "le_out (ReplicaUpcall app a n op) (ReplicaUpcall app' a n op)"
    and "le_out (VRUnloggedUpcall app a op) (VRUnloggedUpcall app' a op)"
  using assms by (simp_all add: app_le_def)

lemma commit_next_le: "app_le app app' \<Longrightarrow> le_out (commit_next app r) (commit_next app' r)"
  unfolding commit_next_def Let_def by (intro le_out_intros app_leD)

lemma CommitUpTo_le: "app_le app app' \<Longrightarrow> le_out (CommitUpTo app r upTo) (CommitUpTo app' r upTo)"
proof (induction app r upTo rule: CommitUpTo.induct)
  case (1 app r upTo)
  have "le_out (CommitUpTo app r1 upTo) (CommitUpTo app' r1 upTo)"
    if "lastCommitted r < upTo" "commit_next app r = Inr (r1, out)" for r1 out
    using "1.IH" [OF that refl "1.prems"] .
  moreover have "le_out (commit_next app r) (commit_next app' r)" by (rule commit_next_le [OF "1.prems"])
  ultimately show ?case
    unfolding CommitUpTo.simps [of app r] CommitUpTo.simps [of app' r] le_out_def by (auto simp: obind_eq_Inr)
qed

lemma new_request_le: "app_le app app' \<Longrightarrow> le_out (new_request app r remote req) (new_request app' r remote req)"
  unfolding new_request_def Let_def by (intro le_out_intros app_leD)

lemma VR_HandleRequest_le:
  "app_le app app' \<Longrightarrow> le_out (VR_HandleRequest app r remote req) (VR_HandleRequest app' r remote req)"
  unfolding VR_HandleRequest_def Let_def by (intro le_out_intros new_request_le)

lemma VR_HandleUnloggedRequest_le:
  "app_le app app' \<Longrightarrow> le_out (VR_HandleUnloggedRequest app r remote req) (VR_HandleUnloggedRequest app' r remote req)"
  unfolding VR_HandleUnloggedRequest_def by (intro le_out_intros app_leD)

lemma HandlePrepareOK_le: "app_le app app' \<Longrightarrow> le_out (HandlePrepareOK app r msg) (HandlePrepareOK app' r msg)"
  unfolding HandlePrepareOK_def Let_def by (intro le_out_intros CommitUpTo_le)

lemma HandleCommit_le: "app_le app app' \<Longrightarrow> le_out (HandleCommit app r v k) (HandleCommit app' r v k)"
  unfolding HandleCommit_def Let_def by (intro le_out_intros CommitUpTo_le)

lemma HandleStateTransfer_le: "app_le app app' \<Longrightarrow> le_out (HandleStateTransfer app r msg) (HandleStateTransfer app' r msg)"
  unfolding HandleStateTransfer_def Let_def by (intro le_out_intros CommitUpTo_le)

lemma new_leader_le: "app_le app app' \<Longrightarrow> le_out (new_leader dead app r ms msg) (new_leader dead app' r ms msg)"
  unfolding new_leader_def Let_def by (intro le_out_intros CommitUpTo_le)

lemma VR_HandleDoViewChange_le:
  "app_le app app' \<Longrightarrow> le_out (VR_HandleDoViewChange dead app r msg) (VR_HandleDoViewChange dead app' r msg)"
  unfolding VR_HandleDoViewChange_def Let_def by (intro le_out_intros new_leader_le)

lemma VR_HandleStartView_le:
  "app_le app app' \<Longrightarrow> le_out (VR_HandleStartView app r msg) (VR_HandleStartView app' r msg)"
  unfolding VR_HandleStartView_def Let_def by (intro le_out_intros CommitUpTo_le)

lemmas react_le = VR_HandleRequest_le VR_HandleUnloggedRequest_le HandlePrepareOK_le HandleCommit_le
  HandleStateTransfer_le VR_HandleDoViewChange_le VR_HandleStartView_le

lemma vr_react_le:
  assumes "app_le app app'"
  shows "le_out (vr_react dead app r ev) (vr_react dead app' r ev)"
proof -
  have "le_out (VR_ReceiveMessage dead app r remote m) (VR_ReceiveMessage dead app' r remote m)" for remote m
    by (cases m) (simp_all add: VR_ReceiveMessage_def react_le [OF assms] le_out_refl)
  then show ?thesis by (cases ev) (simp_all add: vr_react_def le_out_refl)
qed

lemma vr_do_le: "app_le app app' \<Longrightarrow> le_out (vr_do n dead app s ev) (vr_do n dead app' s ev)"
  unfolding vr_do_def by (intro le_out_intros vr_react_le)

lemma vr_run_le:
  "vr_run n dead app s evs = Some s' \<Longrightarrow> app_le app app' \<Longrightarrow> vr_run n dead app' s evs = Some s'"
proof (induction evs arbitrary: s)
  case (Cons ev evs)
  then obtain s1 where s1: "vr_enabled n s ev" "vr_do n dead app s ev = Inr s1" "vr_run n dead app s1 evs = Some s'"
    by (auto split: if_splits sum.splits)
  then show ?case using vr_do_le [OF Cons.prems(2), of n dead s ev] s1 Cons.IH [OF s1(3) Cons.prems(2)] by (simp add: le_out_def)
qed simp

end
