(* ===== verification/Vr_Normal.thy ===== *)
theory Vr_Normal
  imports Vr_Upcalls
begin

text \<open>
  Normal operation of viewstamped replication: the runs in which no view-change timer fires, so
  that the group stays in view 0 with replica 0 as its leader. The invariant says that every log is a
  prefix of the leader's and every packet a piece of it; it is proved handler by handler, and each
  handler is also shown to return, that is, none of the code's assertions and panics is reached.
\<close>

section \<open>Requests and the client table\<close>

definition client_sorted :: "OpRequest list \<Rightarrow> bool" where
  "client_sorted qs \<longleftrightarrow> sorted_wrt (\<lambda>p q. clientid p = clientid q \<longrightarrow> clientreqid p < clientreqid q) qs"

lemma client_sorted_fits:
  assumes "client_sorted qs" and "k < length qs" and "p \<in> set (take (Suc k) qs)" and "clientid p = clientid (qs ! k)"
  shows "clientreqid p \<le> clientreqid (qs ! k)"
proof -
  obtain j where j: "j < Suc k" "p = qs ! j" using assms(2,3) by (auto simp: in_set_conv_nth)
  show ?thesis
  proof (cases "j = k")
    case False
    then have "j < k" using j(1) by simp
    then show ?thesis using assms(1,2,4) j(2) by (auto simp: client_sorted_def sorted_wrt_iff_nth_less less_imp_le)
  qed (use j in simp)
qed

lemma UpdateClientTable_ok:
  assumes "tbl_le (clientTable r) qs" and "\<And>p. p \<in> set qs \<Longrightarrow> clientid p = clientid q \<Longrightarrow> clientreqid p \<le> clientreqid q"
  obtains t where "UpdateClientTable r q = Inr (r\<lparr>clientTable := t\<rparr>)"
    and "\<And>qs'. tbl_le (clientTable r) qs' \<Longrightarrow> q \<in> set qs' \<Longrightarrow> tbl_le t qs'"
proof -
  let ?e = "table_entry r (clientid q)"
  define e' where "e' = (if lastReqId ?e = clientreqid q then ?e
      else \<lparr>lastReqId = clientreqid q, replied = False, cte_reply = ReplyMessage_empty\<rparr>)"
  have "lastReqId ?e \<le> clientreqid q"
  proof (cases "clientTable r (clientid q)")
    case None
    then show ?thesis by (simp add: table_entry_def ClientTableEntry_empty_def)
  next
    case (Some e)
    then have "lastReqId e = 0 \<or> (\<exists>p\<in>set qs. clientid p = clientid q \<and> lastReqId e \<le> clientreqid p)"
      using assms(1) by (simp add: tbl_le_def)
    then show ?thesis using assms(2) Some by (auto simp: table_entry_def intro: order_trans)
  qed
  then have "UpdateClientTable r q = Inr (r\<lparr>clientTable := (clientTable r)(clientid q \<mapsto> e')\<rparr>)"
    by (simp add: UpdateClientTable_def Let_def e'_def)
  moreover have "tbl_le ((clientTable r)(clientid q \<mapsto> e')) qs'"
    if "tbl_le (clientTable r) qs'" "q \<in> set qs'" for qs'
    by (rule tbl_le_upd [OF that]) (simp add: e'_def)
  ultimately show ?thesis using that by blast
qed

section \<open>Replicas that follow a log\<close>

definition stamps :: "(viewstamp_t \<times> OpRequest) list \<Rightarrow> bool" where
  "stamps L \<longleftrightarrow> length L + 2 < 2 ^ 64 \<and> (\<forall>k < length L. fst (L ! k) = Viewstamp 0 (1 + of_nat k))"

definition on_log :: "(viewstamp_t \<times> OpRequest) list \<Rightarrow> 's VRReplica \<Rightarrow> bool" where
  "on_log L r \<longleftrightarrow> log_ok r \<and> unat (lastOp r) \<le> length L \<and> ops r = take (unat (lastOp r)) L"

lemma on_log_nth:
  assumes "on_log L r" and "k < unat (lastOp r)"
  shows "core (entries (vr_log r) ! k) = L ! k"
proof -
  have "k < length (entries (vr_log r))" using assms by (simp add: on_log_def log_ok_def)
  then have "core (entries (vr_log r) ! k) = ops r ! k" by simp
  then show ?thesis using assms by (simp add: on_log_def)
qed

lemma on_log_tbl: "on_log L r \<Longrightarrow> tbl_le T (map snd (ops r)) \<longleftrightarrow> tbl_le T (map snd (take (unat (lastOp r)) L))"
  by (simp only: on_log_def)

lemma on_log_append:
  assumes on: "on_log L r" and st: "stamps L" and lt: "unat (lastOp r) < length L"
  obtains l where
    "Log_Append no_hash (vr_log r) (fst (L ! unat (lastOp r))) (snd (L ! unat (lastOp r))) LOG_STATE_PREPARED = Inr l"
    and "on_log L (r\<lparr>lastOp := lastOp r + 1, vr_log := l\<rparr>)"
proof -
  let ?k = "unat (lastOp r)"
  have ok: "log_ok r" using on by (simp add: on_log_def)
  have b: "?k + 2 < 2 ^ 64" using st lt by (simp add: stamps_def)
  have "vs_opnum (fst (L ! ?k)) = lastOp r + 1" using st lt by (simp add: stamps_def add.commute)
  then obtain l where l: "Log_Append no_hash (vr_log r) (fst (L ! ?k)) (snd (L ! ?k)) LOG_STATE_PREPARED = Inr l"
      "log_ok (r\<lparr>lastOp := lastOp r + 1, vr_log := l\<rparr>)" "map core (entries l) = ops r @ [L ! ?k]"
    using log_ok_Append [OF ok b] by (metis prod.collapse)
  have "unat (lastOp r + 1) = ?k + 1" using b by (intro u64_Suc) simp
  with on l(2,3) lt have "on_log L (r\<lparr>lastOp := lastOp r + 1, vr_log := l\<rparr>)"
    by (simp add: on_log_def take_Suc_conv_app_nth)
  with that l(1) show ?thesis by blast
qed

lemma on_log_committed:
  assumes "on_log L r" and "committed app r upTo r' out" and "upTo \<le> lastOp r"
  shows "on_log L r'" and "lastOp r' = lastOp r"
  using assms by (auto simp: committed_def on_log_def)

lemma stamps_nth: "stamps L \<Longrightarrow> k < length L \<Longrightarrow> L ! k = (Viewstamp 0 (1 + of_nat k), snd (L ! k))"
  by (simp add: stamps_def prod_eq_iff)

definition app_total :: "'s VRApp \<Rightarrow> bool" where
  "app_total app \<longleftrightarrow>
     (\<forall>a n op. (\<exists>x. LeaderUpcall app a n op = Inr x) \<and> (\<exists>x. ReplicaUpcall app a n op = Inr x) \<and>
        (\<exists>x. VRUnloggedUpcall app a op = Inr x))"

lemma app_totalD:
  assumes "app_total app"
  shows "\<exists>x. LeaderUpcall app a n op = Inr x" and "\<exists>x. ReplicaUpcall app a n op = Inr x"
    and "\<exists>x. VRUnloggedUpcall app a op = Inr x"
  using assms unfolding app_total_def by blast+

lemma replay_total: "app_total app \<Longrightarrow> \<exists>a'. replay app a n qs = Inr a'"
proof (induction qs arbitrary: a n)
  case (Cons q qs)
  obtain res a1 where "ReplicaUpcall app a n (rop q) = Inr (res, a1)"
    using app_totalD(2) [OF Cons.prems] by (metis prod.exhaust)
  with Cons show ?case by simp
qed simp

lemma CommitUpTo_total:
  assumes "app_total app" and "log_ok r" and "upTo \<le> lastOp r"
  obtains r' out where "CommitUpTo app r upTo = Inr (r', out)" and "committed app r upTo r' out"
proof -
  obtain a where a: "replay app (vr_app r) (lastCommitted r + 1) (to_commit r upTo) = Inr a"
    using replay_total [OF assms(1)] by blast
  show ?thesis
  proof (cases "CommitUpTo app r upTo")
    case (Inl e)
    then show ?thesis using CommitUpTo_spec [OF assms(2,3), of app] a by simp
  next
    case (Inr p)
    then show ?thesis using CommitUpTo_spec [OF assms(2,3), of app] that by (cases p) simp
  qed
qed

section \<open>The loops of the handlers\<close>

lemma set_map_take: "set (map f (take k xs)) \<subseteq> set (map f xs)"
  unfolding set_map by (intro image_mono set_take_subset)

lemma take_drop_Suc: "k < length L \<Longrightarrow> take (Suc m) (drop k L) = L ! k # take m (drop (Suc k) L)"
  by (simp add: Cons_nth_drop_Suc [symmetric])

lemma client_table_step:
  assumes "client_sorted (map snd L)" and "k < length L" and "tbl_le (clientTable r) (map snd (take j L))"
    and "j \<le> Suc k"
  obtains t where "UpdateClientTable r (snd (L ! k)) = Inr (r\<lparr>clientTable := t\<rparr>)"
    and "tbl_le t (map snd (take (Suc k) L))"
proof -
  let ?qs = "map snd (take (Suc k) L)"
  have "set (map snd (take j L)) \<subseteq> set ?qs"
    unfolding set_map by (rule image_mono) (rule set_take_subset_set_take [OF assms(4)])
  then have T: "tbl_le (clientTable r) ?qs" using tbl_le_mono [OF assms(3)] by blast
  have "clientreqid p \<le> clientreqid (snd (L ! k))" if "p \<in> set ?qs" "clientid p = clientid (snd (L ! k))" for p
    using client_sorted_fits [OF assms(1), of k p] that assms(2) by (simp add: take_map)
  moreover have "snd (L ! k) \<in> set ?qs" using assms(2) by (simp add: take_Suc_conv_app_nth)
  ultimately show ?thesis using UpdateClientTable_ok [OF T, of "snd (L ! k)"] T that by metis
qed

lemma prepare_loop_ok:
  assumes "on_log L r" and st: "stamps L" and cs: "client_sorted (map snd L)"
    and "tbl_le (clientTable r) (map snd (take (unat (lastOp r)) L))"
    and "unat op + m \<le> length L" and "unat op \<le> unat (lastOp r)"
  shows "\<exists>lo l t. prepare_loop r 0 op (map snd (take m (drop (unat op) L))) =
        Inr (r\<lparr>lastOp := lo, vr_log := l, clientTable := t\<rparr>, op + of_nat m) \<and>
      unat lo = max (unat (lastOp r)) (unat op + m) \<and>
      on_log L (r\<lparr>lastOp := lo, vr_log := l, clientTable := t\<rparr>) \<and> tbl_le t (map snd (take (unat lo) L))"
  using assms(1,4-6)
proof (induction m arbitrary: r op)
  case 0
  then show ?case
    by (intro exI [of _ "lastOp r"] exI [of _ "vr_log r"] exI [of _ "clientTable r"]) simp
next
  case (Suc m)
  let ?k = "unat op"
  have k: "?k < length L" using Suc.prems(3) by simp
  then have u: "unat (op + 1) = ?k + 1" using st by (intro u64_Suc) (simp add: stamps_def)
  have req: "take (Suc m) (drop ?k L) = L ! ?k # take m (drop (unat (op + 1)) L)"
    using take_drop_Suc [OF k] u by simp
  show ?case
  proof (cases "op + 1 \<le> lastOp r")
    case True
    have run: "prepare_loop r 0 op (map snd (take (Suc m) (drop ?k L))) =
        prepare_loop r 0 (op + 1) (map snd (take m (drop (unat (op + 1)) L)))"
      unfolding req using True by (simp add: Let_def)
    have le: "unat (op + 1) \<le> unat (lastOp r)" using True by (simp add: word_le_nat_alt)
    have b: "unat (op + 1) + m \<le> length L" using Suc.prems(3) u by simp
    have num: "op + 1 + of_nat m = op + of_nat (Suc m)" by simp
    have mx: "unat (op + 1) + m = unat op + Suc m" using u by simp
    show ?thesis using Suc.IH [OF Suc.prems(1,2) b le] unfolding run num mx .
  next
    case False
    then have eq: "lastOp r = op"
      using Suc.prems(4) u by (simp add: word_le_nat_alt word_unat_eq_iff)
    obtain l where app: "Log_Append no_hash (vr_log r) (fst (L ! ?k)) (snd (L ! ?k)) LOG_STATE_PREPARED = Inr l"
      and on1: "on_log L (r\<lparr>lastOp := op + 1, vr_log := l\<rparr>)"
      using on_log_append [OF Suc.prems(1) st] k eq by metis
    have vs: "fst (L ! ?k) = Viewstamp 0 (op + 1)" using st k by (simp add: stamps_def add.commute)
    obtain t where upd: "UpdateClientTable (r\<lparr>lastOp := op + 1, vr_log := l\<rparr>) (snd (L ! ?k)) =
        Inr (r\<lparr>lastOp := op + 1, vr_log := l, clientTable := t\<rparr>)" and t: "tbl_le t (map snd (take (Suc ?k) L))"
      using client_table_step [OF cs k, of "r\<lparr>lastOp := op + 1, vr_log := l\<rparr>" ?k] Suc.prems(2) eq by auto
    let ?r = "r\<lparr>lastOp := op + 1, vr_log := l, clientTable := t\<rparr>"
    have run: "prepare_loop r 0 op (map snd (take (Suc m) (drop ?k L))) =
        prepare_loop ?r 0 (op + 1) (map snd (take m (drop (unat (op + 1)) L)))"
      unfolding req using False eq app vs upd by (simp add: Let_def)
    have on2: "on_log L ?r" using on1 by (simp add: on_log_def log_ok_def)
    have t2: "tbl_le (clientTable ?r) (map snd (take (unat (lastOp ?r)) L))" using t u by simp
    have b: "unat (op + 1) + m \<le> length L" using Suc.prems(3) u by simp
    obtain lo l' t' where IH: "prepare_loop ?r 0 (op + 1) (map snd (take m (drop (unat (op + 1)) L))) =
          Inr (?r\<lparr>lastOp := lo, vr_log := l', clientTable := t'\<rparr>, op + 1 + of_nat m)"
        "unat lo = max (unat (lastOp ?r)) (unat (op + 1) + m)"
        "on_log L (?r\<lparr>lastOp := lo, vr_log := l', clientTable := t'\<rparr>)" "tbl_le t' (map snd (take (unat lo) L))"
      using Suc.IH [OF on2 t2 b] by auto
    then show ?thesis unfolding run using u eq
      by (intro exI [of _ lo] exI [of _ l'] exI [of _ t']) simp
  qed
qed

text \<open>The entries of a message without their states.\<close>

definition emcore :: "LogEntryMsg \<Rightarrow> viewstamp_t \<times> OpRequest" where
  "emcore m = (Viewstamp (em_view m) (em_opnum m), em_request m)"

lemma emcore_entry_msg [simp]: "emcore (entry_msg e) = core e"
  by (simp add: emcore_def entry_msg_def core_def)

lemma dump_loop_ok:
  assumes ok: "log_ok r"
  shows "1 \<le> i \<Longrightarrow> unat i + n = unat (lastOp r) + 1 \<Longrightarrow>
    \<exists>es. dump_loop (vr_log r) i n = Inr es \<and> map emcore es = drop (unat i - 1) (ops r)"
proof (induction n arbitrary: i)
  case 0
  then show ?case using ok by (simp add: log_ok_def)
next
  case (Suc n)
  have i: "1 \<le> unat i" "i \<le> lastOp r" using Suc.prems by (simp_all add: word_le_nat_alt)
  have find: "Log_Find (vr_log r) i = Inr (Some (unat i - 1))"
    using log_ok_Find [OF ok, of i] Suc.prems(1) i by simp
  have u: "unat (i + 1) = unat i + 1"
    using log_ok_bound [OF ok] Suc.prems(2) by (intro u64_Suc) simp
  have "1 \<le> i + 1" using u by (simp add: word_le_nat_alt)
  moreover have "unat (i + 1) + n = unat (lastOp r) + 1" using Suc.prems(2) u by simp
  ultimately obtain es where es: "dump_loop (vr_log r) (i + 1) n = Inr es" "map emcore es = drop (unat i) (ops r)"
    using Suc.IH u by fastforce
  have "unat i - 1 < length (ops r)" using ok i Suc.prems(2) by (simp add: log_ok_def)
  then have "drop (unat i - 1) (ops r) = core (entries (vr_log r) ! (unat i - 1)) # drop (unat i) (ops r)"
    using i(1) by (simp add: Cons_nth_drop_Suc [symmetric])
  then show ?case using find es by simp
qed

lemma Dump_ok:
  assumes "log_ok r" and "1 \<le> i"
  obtains es where "Log_Dump (vr_log r) i = Inr es" and "map emcore es = drop (unat i - 1) (ops r)"
proof -
  have "max i (log_start (vr_log r)) = i" "LastOpnum (vr_log r) = lastOp r"
    using assms log_ok_LastOpnum [OF assms(1)] by (auto simp: log_ok_def max_def)
  then have dump: "Log_Dump (vr_log r) i =
      (if i \<le> lastOp r then dump_loop (vr_log r) i (unat (lastOp r - i) + 1) else Inr [])"
    by (simp add: Log_Dump_def)
  show ?thesis
  proof (cases "i \<le> lastOp r")
    case True
    have "unat i + (unat (lastOp r - i) + 1) = unat (lastOp r) + 1"
      using True by (simp add: unat_sub word_le_nat_alt)
    from dump_loop_ok [OF assms this] show ?thesis using that True dump by auto
  next
    case False
    then have "length (ops r) \<le> unat i - 1" using assms by (simp add: log_ok_def word_le_nat_alt)
    with False dump show ?thesis using that [of "[]"] by simp
  qed
qed

lemma batch_requests_ok:
  assumes on: "on_log L r" and st: "stamps L" and v: "vr_view r = 0"
  shows "1 \<le> i \<Longrightarrow> unat i + n = unat (lastOp r) + 1 \<Longrightarrow>
    batch_requests r i n = Inr (map snd (take n (drop (unat i - 1) L)))"
proof (induction n arbitrary: i)
  case (Suc n)
  let ?k = "unat i - 1"
  have i: "1 \<le> unat i" "i \<le> lastOp r" "?k < unat (lastOp r)"
    using Suc.prems by (auto simp: word_le_nat_alt)
  have ok: "log_ok r" and len: "?k < length L" using on i(3) by (simp_all add: on_log_def)
  have find: "Log_Find (vr_log r) i = Inr (Some ?k)" using log_ok_Find [OF ok, of i] Suc.prems(1) i by simp
  have u: "unat (i + 1) = unat i + 1"
    using log_ok_bound [OF ok] Suc.prems(2) by (intro u64_Suc) simp
  have "core (entries (vr_log r) ! ?k) = L ! ?k" by (rule on_log_nth [OF on i(3)])
  moreover have "fst (L ! ?k) = Viewstamp 0 i" using st len i(1) by (simp add: stamps_def of_nat_diff)
  ultimately have e: "le_viewstamp (entries (vr_log r) ! ?k) = Viewstamp 0 i"
    "le_request (entries (vr_log r) ! ?k) = snd (L ! ?k)" by (metis core_def fst_conv, metis core_def snd_conv)
  have "1 \<le> i + 1" "unat (i + 1) + n = unat (lastOp r) + 1"
    using u Suc.prems(2) by (simp_all add: word_le_nat_alt)
  from Suc.IH [OF this] have "batch_requests r (i + 1) n = Inr (map snd (take n (drop (Suc ?k) L)))"
    using u i(1) by simp
  then show ?case using find e v take_drop_Suc [OF len, of n] by simp
qed simp

lemma client_sorted_take: "client_sorted qs \<Longrightarrow> client_sorted (take k qs)"
  by (auto simp: client_sorted_def sorted_wrt_iff_nth_less)

definition oks :: "'s VRReplica \<Rightarrow> vr_out list \<Rightarrow> bool" where
  "oks r out \<longleftrightarrow> (\<forall>x\<in>set out. \<exists>n \<le> lastOp r. x = SendReplica (GetLeaderIndex (vr_config r) (vr_view r))
     (VPrepareOK \<lparr>pok_view = vr_view r, pok_opnum = n, pok_replicaidx = vr_myIdx r\<rparr>))"

lemma prepare_oks_ok:
  assumes "log_ok r" and "client_sorted (map snd (ops r))"
    and "unat i + n = unat (lastOp r) + 1"
    and "tbl_le (clientTable r) (map snd (take (max (unat i) (unat (lastCommitted r))) (ops r)))"
  shows "\<exists>t out. prepare_oks r i n = Inr (r\<lparr>clientTable := t\<rparr>, out) \<and> tbl_le t (map snd (ops r)) \<and> oks r out"
  using assms
proof (induction n arbitrary: r i)
  case 0
  have "tbl_le (clientTable r) (map snd (ops r))"
    by (rule tbl_le_mono [OF "0.prems"(4)]) (rule set_map_take)
  then show ?case by (intro exI [of _ "clientTable r"] exI [of _ "[]"]) (simp add: oks_def)
next
  case (Suc n)
  have i: "unat i \<le> unat (lastOp r)" "i \<le> lastOp r" using Suc.prems(3) by (auto simp: word_le_nat_alt)
  have u: "unat (i + 1) = unat i + 1"
    using log_ok_bound [OF Suc.prems(1)] i by (intro u64_Suc) simp
  have n: "unat (i + 1) + n = unat (lastOp r) + 1" using u Suc.prems(3) by simp
  have wider: "tbl_le T (map snd (take (max (unat (i + 1)) (unat (lastCommitted r))) (ops r)))"
    if "tbl_le T (map snd (take j (ops r)))" "j \<le> max (unat (i + 1)) (unat (lastCommitted r))" for T j
  proof (rule tbl_le_mono [OF that(1)])
    show "set (map snd (take j (ops r))) \<subseteq> set (map snd (take (max (unat (i + 1)) (unat (lastCommitted r))) (ops r)))"
      unfolding set_map by (intro image_mono set_take_subset_set_take that(2))
  qed
  show ?case
  proof (cases "i \<le> lastCommitted r")
    case True
    have "tbl_le (clientTable r) (map snd (take (max (unat (i + 1)) (unat (lastCommitted r))) (ops r)))"
      using wider [OF Suc.prems(4)] u by simp
    from Suc.IH [OF Suc.prems(1,2) n this] show ?thesis using True by simp
  next
    case False
    let ?k = "unat i - 1"
    have k: "1 \<le> unat i" "unat (lastCommitted r) \<le> ?k" "?k < length (ops r)" "Suc ?k = unat i"
      "max (unat i) (unat (lastCommitted r)) = Suc ?k"
      using False i(1) log_ok_length [OF Suc.prems(1)] by (auto simp: word_le_nat_alt)
    have "1 \<le> i" using k(1) by (simp add: word_le_nat_alt)
    then have find: "Log_Find (vr_log r) i = Inr (Some ?k)" using log_ok_Find [OF Suc.prems(1), of i] i by simp
    have prep: "le_state (entries (vr_log r) ! ?k) = LOG_STATE_PREPARED"
      using Suc.prems(1) k(2,3) by (simp add: log_ok_def)
    have req: "snd (ops r ! ?k) = le_request (entries (vr_log r) ! ?k)" using k(3) by (simp add: core_def)
    obtain t where upd: "UpdateClientTable r (le_request (entries (vr_log r) ! ?k)) = Inr (r\<lparr>clientTable := t\<rparr>)"
      and t: "tbl_le t (map snd (take (Suc ?k) (ops r)))"
      using client_table_step [OF Suc.prems(2) k(3), of r "Suc ?k"] Suc.prems(4) req k(5) by auto
    let ?r = "r\<lparr>clientTable := t\<rparr>"
    have ok: "log_ok ?r" using Suc.prems(1) by (simp add: log_ok_def)
    have T: "tbl_le (clientTable ?r) (map snd (take (max (unat (i + 1)) (unat (lastCommitted ?r))) (ops ?r)))"
      using wider [OF t] u k(4) by simp
    obtain t' out where IH: "prepare_oks ?r (i + 1) n = Inr (?r\<lparr>clientTable := t'\<rparr>, out)"
      "tbl_le t' (map snd (ops r))" "oks r out"
      using Suc.IH [OF ok _ _ T] Suc.prems(2) n by (auto simp: oks_def)
    then show ?thesis using False find prep upd i(2) by (auto simp: oks_def)
  qed
qed

lemma SendPrepareOKs_ok:
  assumes "log_ok r" and "client_sorted (map snd (ops r))" and "oldOp \<le> lastOp r"
    and "tbl_le (clientTable r) (map snd (take (max (unat oldOp) (unat (lastCommitted r))) (ops r)))"
  obtains t out where "SendPrepareOKs r oldOp = Inr (r\<lparr>clientTable := t\<rparr>, out)"
    and "tbl_le t (map snd (ops r))" and "oks r out"
proof -
  have "unat oldOp + (unat (lastOp r - oldOp) + 1) = unat (lastOp r) + 1"
    using assms(3) by (simp add: unat_sub word_le_nat_alt)
  from prepare_oks_ok [OF assms(1,2) this assms(4)] show ?thesis
    using that assms(3) unfolding SendPrepareOKs_def by auto
qed

lemma transfer_entry_ok:
  assumes on: "on_log L r" and st: "stamps L" and q: "q < length L" "q \<le> unat (lastOp r)" and m: "emcore m = L ! q"
  obtains lo l where "transfer_entry (r, old) m = Inr (r\<lparr>lastOp := lo, vr_log := l\<rparr>, old)"
    and "unat lo = max (unat (lastOp r)) (q + 1)" and "on_log L (r\<lparr>lastOp := lo, vr_log := l\<rparr>)"
proof -
  have em: "em_view m = 0" "em_opnum m = 1 + of_nat q" "em_request m = snd (L ! q)"
    using m stamps_nth [OF st q(1)] by (auto simp: emcore_def prod_eq_iff)
  have b: "q + 2 < 2 ^ 64" using st q(1) by (simp add: stamps_def)
  then have uq: "unat (of_nat q :: u64) = q" by (intro unat_of_nat_u64) simp
  have u: "unat (em_opnum m) = q + 1"
    using u64_Suc [of "of_nat q"] b em(2) uq by (simp add: add.commute)
  have ok: "log_ok r" using on by (simp add: on_log_def)
  show ?thesis
  proof (cases "em_opnum m \<le> lastOp r")
    case True
    then have lt: "q < unat (lastOp r)" using u by (simp add: word_le_nat_alt)
    have "1 \<le> em_opnum m" using u by (simp add: word_le_nat_alt)
    then have find: "Log_Find (vr_log r) (em_opnum m) = Inr (Some q)" using log_ok_Find [OF ok] True u by simp
    have "core (entries (vr_log r) ! q) = emcore m" using on_log_nth [OF on lt] m by simp
    then have vs: "le_viewstamp (entries (vr_log r) ! q) = Viewstamp 0 (em_opnum m)"
      using em(1) by (simp add: core_def emcore_def)
    have "le_state (entries (vr_log r) ! q) = LOG_STATE_PREPARED" if "\<not> em_opnum m \<le> lastCommitted r"
      using that ok lt u by (simp add: log_ok_def word_le_nat_alt)
    then have "transfer_entry (r, old) m = Inr (r, old)"
      using True find vs em(1) by (simp add: transfer_entry_def Let_def)
    moreover have "r\<lparr>lastOp := lastOp r, vr_log := vr_log r\<rparr> = r" by simp
    ultimately show ?thesis using that [where lo = "lastOp r" and l = "vr_log r"] on lt by simp
  next
    case False
    then have eq: "unat (lastOp r) = q" using u q(2) by (simp add: word_le_nat_alt)
    then have lo: "lastOp r = of_nat q" using uq by (simp add: word_unat_eq_iff)
    have "\<not> em_opnum m \<le> lastCommitted r" using False ok by (auto simp: log_ok_def)
    moreover obtain l where
      "Log_Append no_hash (vr_log r) (fst (L ! q)) (snd (L ! q)) LOG_STATE_PREPARED = Inr l"
      "on_log L (r\<lparr>lastOp := lastOp r + 1, vr_log := l\<rparr>)"
      using on_log_append [OF on st] q(1) eq by metis
    moreover have "fst (L ! q) = Viewstamp (em_view m) (em_opnum m)" using m by (simp add: emcore_def prod_eq_iff)
    ultimately show ?thesis
      using that [where lo = "lastOp r + 1" and l = l] False em lo u uq eq
      by (simp add: transfer_entry_def Let_def add.commute)
  qed
qed

lemma transfer_entries_ok:
  assumes "on_log L r" and st: "stamps L" and "q + length es \<le> length L" and "q \<le> unat (lastOp r)"
    and "map emcore es = take (length es) (drop q L)"
  shows "\<exists>lo l. transfer_entries (r, old) es = Inr (r\<lparr>lastOp := lo, vr_log := l\<rparr>, old) \<and>
      unat lo = max (unat (lastOp r)) (q + length es) \<and> on_log L (r\<lparr>lastOp := lo, vr_log := l\<rparr>)"
  using assms(1,3-5)
proof (induction es arbitrary: r q)
  case Nil
  then show ?case by (intro exI [of _ "lastOp r"] exI [of _ "vr_log r"]) simp
next
  case (Cons m es)
  have q: "q < length L" using Cons.prems(2) by simp
  then have m: "emcore m = L ! q" "map emcore es = take (length es) (drop (Suc q) L)"
    using Cons.prems(4) take_drop_Suc [OF q] by simp_all
  obtain lo l where s1: "transfer_entry (r, old) m = Inr (r\<lparr>lastOp := lo, vr_log := l\<rparr>, old)"
    "unat lo = max (unat (lastOp r)) (q + 1)" "on_log L (r\<lparr>lastOp := lo, vr_log := l\<rparr>)"
    using transfer_entry_ok [OF Cons.prems(1) st q Cons.prems(3) m(1)] by metis
  let ?r = "r\<lparr>lastOp := lo, vr_log := l\<rparr>"
  have "Suc q + length es \<le> length L" "Suc q \<le> unat (lastOp ?r)" using Cons.prems(2) s1(2) by simp_all
  from Cons.IH [OF s1(3) this m(2)] obtain lo' l' where
    "transfer_entries (?r, old) es = Inr (?r\<lparr>lastOp := lo', vr_log := l'\<rparr>, old)"
    "unat lo' = max (unat lo) (Suc q + length es)" "on_log L (?r\<lparr>lastOp := lo', vr_log := l'\<rparr>)" by auto
  then show ?case using s1 by (intro exI [of _ lo'] exI [of _ l']) simp
qed

section \<open>The invariant of a replica and of a packet\<close>

definition base_ok :: "Configuration \<Rightarrow> (viewstamp_t \<times> OpRequest) list \<Rightarrow> int \<Rightarrow> 's VRReplica \<Rightarrow> bool" where
  "base_ok cfg L i r \<longleftrightarrow>
     vr_config r = cfg \<and> vr_myIdx r = i \<and> vr_status r = STATUS_NORMAL \<and> vr_view r = 0 \<and> on_log L r \<and>
     ran (clientAddresses r) \<subseteq> range ClientAt"

definition follower_ok ::
  "Configuration \<Rightarrow> (viewstamp_t \<times> OpRequest) list \<Rightarrow> nat \<Rightarrow> int \<Rightarrow> 's VRReplica \<Rightarrow> bool" where
  "follower_ok cfg L C i r \<longleftrightarrow>
     base_ok cfg L i r \<and> tbl_le (clientTable r) (map snd (ops r)) \<and> unat (lastCommitted r) \<le> C \<and>
     \<not> nullCommitTimeout r \<and> \<not> resendPrepareTimeout r \<and> \<not> closeBatchTimeout r"

definition prep_ok :: "(viewstamp_t \<times> OpRequest) list \<Rightarrow> PrepareMessage \<Rightarrow> bool" where
  "prep_ok L p \<longleftrightarrow>
     pm_view p = 0 \<and> 1 \<le> pm_batchstart p \<and> pm_batchstart p \<le> pm_opnum p \<and> unat (pm_opnum p) \<le> length L \<and>
     pm_request p = map snd (take (unat (pm_opnum p) + 1 - unat (pm_batchstart p)) (drop (unat (pm_batchstart p) - 1) L))"

definition transfer_ok ::
  "(viewstamp_t \<times> OpRequest) list \<Rightarrow> nat \<Rightarrow> nat \<Rightarrow> StateTransferMessage \<Rightarrow> bool" where
  "transfer_ok L C d m \<longleftrightarrow>
     st_view m = 0 \<and> unat (st_opnum m) \<le> C \<and>
     (\<exists>q \<le> d. q + length (st_entries m) \<le> length L \<and> unat (st_opnum m) \<le> q + length (st_entries m) \<and>
        map emcore (st_entries m) = take (length (st_entries m)) (drop q L))"

text \<open>\<open>lop\<close> and \<open>lc\<close> give the last operation and the last committed operation of each replica.\<close>

fun packet_ok ::
  "int \<Rightarrow> (viewstamp_t \<times> OpRequest) list \<Rightarrow> (int \<Rightarrow> nat) \<Rightarrow> (int \<Rightarrow> nat) \<Rightarrow> int \<times> Address \<times> VRMessage \<Rightarrow> bool"
where
  "packet_ok n L lop lc (i, d, VPrepare p) \<longleftrightarrow> d \<noteq> ReplicaAt 0 \<and> prep_ok L p"
| "packet_ok n L lop lc (i, d, VPrepareOK p) \<longleftrightarrow>
     pok_view p = 0 \<and> 0 < pok_replicaidx p \<and> pok_replicaidx p < n \<and> unat (pok_opnum p) \<le> lop (pok_replicaidx p)"
| "packet_ok n L lop lc (i, d, VCommit v opnum) \<longleftrightarrow> d \<noteq> ReplicaAt 0 \<and> v = 0 \<and> unat opnum \<le> lc 0"
| "packet_ok n L lop lc (i, d, VRequestStateTransfer v opnum) \<longleftrightarrow> v = 0 \<and> 0 < i \<and> i < n \<and> unat opnum \<le> lc i"
| "packet_ok n L lop lc (i, d, VStateTransfer m) \<longleftrightarrow>
     (\<exists>j. d = ReplicaAt j \<and> 0 < j \<and> j < n \<and> transfer_ok L (lc 0) (lc j) m)"
| "packet_ok n L lop lc (i, d, m) \<longleftrightarrow> (\<exists>c. d = ClientAt c)"

definition sent_ok ::
  "int \<Rightarrow> (viewstamp_t \<times> OpRequest) list \<Rightarrow> (int \<Rightarrow> nat) \<Rightarrow> (int \<Rightarrow> nat) \<Rightarrow> int \<Rightarrow> vr_out list \<Rightarrow> bool" where
  "sent_ok n L lop lc i out \<longleftrightarrow> (\<forall>x\<in>set out. \<forall>p\<in>set (packets_of n i x). packet_ok n L lop lc p)"

lemma sent_ok_simps [simp]:
  "sent_ok n L lop lc i []" "sent_ok n L lop lc i (out @ out') \<longleftrightarrow> sent_ok n L lop lc i out \<and> sent_ok n L lop lc i out'"
  "sent_ok n L lop lc i (x # out) \<longleftrightarrow> (\<forall>p\<in>set (packets_of n i x). packet_ok n L lop lc p) \<and> sent_ok n L lop lc i out"
  by (auto simp: sent_ok_def)

text \<open>What a handler of a follower guarantees.\<close>

definition follower_step ::
  "int \<Rightarrow> Configuration \<Rightarrow> (viewstamp_t \<times> OpRequest) list \<Rightarrow> nat \<Rightarrow> (int \<Rightarrow> nat) \<Rightarrow> (int \<Rightarrow> nat) \<Rightarrow> int
    \<Rightarrow> 's VRReplica \<Rightarrow> 's vr_result \<Rightarrow> bool" where
  "follower_step n cfg L C lop lc i r res \<longleftrightarrow>
     (\<exists>r' out. res = Inr (r', out) \<and> follower_ok cfg L C i r' \<and> lastOp r \<le> lastOp r' \<and>
        lastCommitted r \<le> lastCommitted r' \<and>
        sent_ok n L (lop(i := unat (lastOp r'))) (lc(i := unat (lastCommitted r'))) i out)"

lemma follower_stepI:
  assumes "res = Inr (r', out)" and "follower_ok cfg L C i r'" and "lastOp r \<le> lastOp r'"
    and "lastCommitted r \<le> lastCommitted r'"
    and "sent_ok n L (lop(i := unat (lastOp r'))) (lc(i := unat (lastCommitted r'))) i out"
  shows "follower_step n cfg L C lop lc i r res"
  using assms by (auto simp: follower_step_def)

lemma GetLeaderIndex_0 [simp]: "GetLeaderIndex cfg 0 = 0"
  by (simp add: GetLeaderIndex_def)

lemma base_ok_AmLeader: "base_ok cfg L i r \<Longrightarrow> AmLeader r \<longleftrightarrow> i = 0"
  by (auto simp: base_ok_def AmLeader_def)

lemma base_ok_log: "base_ok cfg L i r \<Longrightarrow> on_log L r" "base_ok cfg L i r \<Longrightarrow> log_ok r"
  by (simp_all add: base_ok_def on_log_def)

lemma client_replies_sent:
  "client_replies r out \<Longrightarrow> ran (clientAddresses r) \<subseteq> range ClientAt \<Longrightarrow> sent_ok n L lop lc i out"
  by (fastforce simp: client_replies_def sent_ok_def)

lemma oks_sent:
  assumes "oks r out" and "vr_view r = 0" and "vr_myIdx r = i" and "0 < i" "i < n"
  shows "sent_ok n L (lop(i := unat (lastOp r))) lc i out"
  using assms by (auto simp: oks_def sent_ok_def word_le_nat_alt dest!: bspec)

lemma RequestStateTransfer_ok:
  assumes "follower_ok cfg L C i r" and "0 < i" and "i < n"
  shows "\<exists>v k out. RequestStateTransfer r =
      (r\<lparr>lastRequestStateTransferView := v, lastRequestStateTransferOpnum := k\<rparr>, out) \<and>
    (\<forall>lop lc. sent_ok n L lop (lc(i := unat (lastCommitted r))) i out)"
proof (cases "lastRequestStateTransferOpnum r \<noteq> 0 \<and> lastRequestStateTransferView r = vr_view r \<and>
    lastRequestStateTransferOpnum r = lastCommitted r")
  case True
  then have "RequestStateTransfer r = (r, [])" unfolding RequestStateTransfer_def by (rule if_P)
  then show ?thesis
    by (intro exI [of _ "lastRequestStateTransferView r"] exI [of _ "lastRequestStateTransferOpnum r"] exI [of _ "[]"])
      simp
next
  case False
  then have "RequestStateTransfer r =
      (r\<lparr>lastRequestStateTransferView := vr_view r, lastRequestStateTransferOpnum := lastCommitted r\<rparr>,
       [SendAll (VRequestStateTransfer (vr_view r) (lastCommitted r))])"
    unfolding RequestStateTransfer_def by (rule if_not_P)
  then show ?thesis
    using assms
    by - (rule exI [of _ "vr_view r"], rule exI [of _ "lastCommitted r"],
        rule exI [of _ "[SendAll (VRequestStateTransfer (vr_view r) (lastCommitted r))]"],
        simp add: follower_ok_def base_ok_def)
qed

lemma follower_ok_frame:
  assumes "follower_ok cfg L C i r" and "vr_config r' = vr_config r" "vr_myIdx r' = vr_myIdx r"
    "vr_status r' = vr_status r" "vr_view r' = vr_view r" "vr_log r' = vr_log r" "lastOp r' = lastOp r"
    "lastCommitted r' = lastCommitted r" "clientTable r' = clientTable r" "clientAddresses r' = clientAddresses r"
    "nullCommitTimeout r' = nullCommitTimeout r" "resendPrepareTimeout r' = resendPrepareTimeout r"
    "closeBatchTimeout r' = closeBatchTimeout r"
  shows "follower_ok cfg L C i r'"
proof -
  have "on_log L r'" using assms(1,6-8) by (simp add: follower_ok_def base_ok_def on_log_def log_ok_def)
  then show ?thesis using assms by (simp add: follower_ok_def base_ok_def)
qed

section \<open>Followers\<close>

lemma follower_unchanged:
  assumes "follower_ok cfg L C i r"
  shows "follower_step n cfg L C lop lc i r (Inr (r, []))"
  using assms by (intro follower_stepI [OF refl]) simp_all

lemma request_transfer_step:
  assumes "follower_ok cfg L C i r" and "0 < i" and "i < n"
  shows "follower_step n cfg L C lop lc i r (Inr (RequestStateTransfer r))"
proof -
  obtain v k out where rq: "RequestStateTransfer r =
      (r\<lparr>lastRequestStateTransferView := v, lastRequestStateTransferOpnum := k\<rparr>, out)"
    and "sent_ok n L (lop(i := unat (lastOp r))) (lc(i := unat (lastCommitted r))) i out"
    using RequestStateTransfer_ok [OF assms] by blast
  then show ?thesis
    by (intro follower_stepI [where r' = "r\<lparr>lastRequestStateTransferView := v, lastRequestStateTransferOpnum := k\<rparr>"]
        follower_ok_frame [OF assms(1)]) simp_all
qed

lemma defer_prepare_step:
  assumes "follower_ok cfg L C i r" and "0 < i" and "i < n"
  shows "follower_step n cfg L C lop lc i r (Inr (defer_prepare r remote msg))"
proof -
  obtain v k out where rq: "RequestStateTransfer r =
      (r\<lparr>lastRequestStateTransferView := v, lastRequestStateTransferOpnum := k\<rparr>, out)"
    and "sent_ok n L (lop(i := unat (lastOp r))) (lc(i := unat (lastCommitted r))) i out"
    using RequestStateTransfer_ok [OF assms] by blast
  then show ?thesis
    by (intro follower_stepI [where r' = "r\<lparr>lastRequestStateTransferView := v, lastRequestStateTransferOpnum := k,
          pendingPrepares := pendingPrepares r @ [(remote, msg)]\<rparr>"] follower_ok_frame [OF assms(1)])
      (simp_all add: defer_prepare_def)
qed

lemma follower_step_reset:
  assumes "follower_step n cfg L C lop lc i (r\<lparr>viewChangeTimeout := b\<rparr>) res"
  shows "follower_step n cfg L C lop lc i r res"
  using assms by (simp add: follower_step_def)

lemma prep_ok_length:
  assumes "prep_ok L p" and "stamps L"
  shows "pm_opnum p - pm_batchstart p + 1 = of_nat (length (pm_request p))"
proof -
  have le: "unat (pm_batchstart p) \<le> unat (pm_opnum p)" "1 \<le> unat (pm_batchstart p)"
    using assms(1) by (simp_all add: prep_ok_def word_le_nat_alt)
  then have len: "length (pm_request p) = unat (pm_opnum p) + 1 - unat (pm_batchstart p)"
    using assms(1) by (auto simp: prep_ok_def)
  have "of_nat (length (pm_request p)) = (of_nat (unat (pm_opnum p) + 1) - of_nat (unat (pm_batchstart p)) :: u64)"
    unfolding len using le by (intro of_nat_diff) simp
  then show ?thesis by simp
qed

lemma HandlePrepare_follower:
  assumes ok: "follower_ok cfg L C i r" and i: "0 < i" "i < n" and st: "stamps L"
    and cs: "client_sorted (map snd L)" and msg: "prep_ok L msg"
  shows "follower_step n cfg L C lop lc i r (HandlePrepare r remote msg)"
proof -
  have base: "base_ok cfg L i r" "tbl_le (clientTable r) (map snd (ops r))" using ok by (simp_all add: follower_ok_def)
  note on = base_ok_log [OF base(1)]
  let ?r = "r\<lparr>viewChangeTimeout := True\<rparr>"
  have ok1: "follower_ok cfg L C i ?r" by (rule follower_ok_frame [OF ok]) simp_all
  let ?m = "unat (pm_opnum msg) + 1 - unat (pm_batchstart msg)"
  have bs: "1 \<le> unat (pm_batchstart msg)" "unat (pm_batchstart msg) \<le> unat (pm_opnum msg)"
    "unat (pm_opnum msg) \<le> length L" "pm_view msg = 0" "pm_batchstart msg \<le> pm_opnum msg"
    using msg by (simp_all add: prep_ok_def word_le_nat_alt)
  have ub: "unat (pm_batchstart msg - 1) = unat (pm_batchstart msg) - 1"
    using bs(1) by (simp add: unat_sub word_le_nat_alt)
  have lead: "\<not> AmLeader r" using base_ok_AmLeader [OF base(1)] i by simp
  have H: "HandlePrepare r remote msg =
      (if pm_opnum msg \<le> lastOp r then Inr (?r, [prepare_ok ?r msg])
       else if pm_batchstart msg > lastOp r + 1 then Inr (defer_prepare ?r remote msg)
       else obind (prepare_loop ?r 0 (pm_batchstart msg - 1) (pm_request msg)) (\<lambda>(r2, op).
         obind (assert_that (op = pm_opnum msg) ''op == msg.opnum()'') (\<lambda>_. Inr (r2, [prepare_ok r2 msg]))))"
    using base(1) lead bs(4,5) prep_ok_length [OF msg st] by (simp add: HandlePrepare_def base_ok_def Let_def)
  consider "pm_opnum msg \<le> lastOp r" | "\<not> pm_opnum msg \<le> lastOp r" "lastOp r + 1 < pm_batchstart msg"
    | (new) "\<not> pm_opnum msg \<le> lastOp r" "\<not> lastOp r + 1 < pm_batchstart msg" by blast
  then show ?thesis
  proof cases
    case 1
    have "follower_step n cfg L C lop lc i r (Inr (?r, [prepare_ok ?r msg]))"
      by (rule follower_stepI [OF refl ok1])
        (use 1 i base(1) bs(4) in \<open>simp_all add: prepare_ok_def base_ok_def word_le_nat_alt\<close>)
    then show ?thesis using 1 H by simp
  next
    case 2
    then show ?thesis
      using H follower_step_reset [OF defer_prepare_step [OF ok1 i]] by simp
  next
    case new
    have "unat (lastOp r + 1) = unat (lastOp r) + 1"
      using log_ok_bound [OF on(2)] by (intro u64_Suc)
    then have le: "unat (pm_batchstart msg - 1) \<le> unat (lastOp ?r)"
      using new(2) ub bs(1) by (simp add: word_less_nat_alt)
    have len: "unat (pm_batchstart msg - 1) + ?m \<le> length L" using ub bs by simp
    have on1: "on_log L ?r" using ok1 by (simp add: follower_ok_def base_ok_def)
    have "ops r = take (unat (lastOp r)) L" using on(1) by (simp only: on_log_def)
    then have T: "tbl_le (clientTable ?r) (map snd (take (unat (lastOp ?r)) L))" using base(2) by simp
    have reqs: "pm_request msg = map snd (take ?m (drop (unat (pm_batchstart msg - 1)) L))"
      using ub msg by (simp add: prep_ok_def)
    obtain lo l t where loop: "prepare_loop ?r 0 (pm_batchstart msg - 1) (pm_request msg) =
          Inr (?r\<lparr>lastOp := lo, vr_log := l, clientTable := t\<rparr>, pm_batchstart msg - 1 + of_nat ?m)"
        "unat lo = max (unat (lastOp r)) (unat (pm_batchstart msg - 1) + ?m)"
        "on_log L (?r\<lparr>lastOp := lo, vr_log := l, clientTable := t\<rparr>)" "tbl_le t (map snd (take (unat lo) L))"
      using prepare_loop_ok [OF on1 st cs T len le, folded reqs] by auto
    have lo: "unat lo = unat (pm_opnum msg)"
      using loop(2) ub bs new(1) by (simp add: word_le_nat_alt max_def)
    have num: "pm_batchstart msg - 1 + of_nat ?m = pm_opnum msg"
    proof -
      have "of_nat ?m = (of_nat (unat (pm_opnum msg) + 1) - of_nat (unat (pm_batchstart msg)) :: u64)"
        using bs(2) by (intro of_nat_diff) simp
      then show ?thesis by simp
    qed
    let ?r' = "?r\<lparr>lastOp := lo, vr_log := l, clientTable := t\<rparr>"
    have ok': "follower_ok cfg L C i ?r'"
      using ok loop(3) on_log_tbl [OF loop(3), of t] loop(4) by (simp add: follower_ok_def base_ok_def)
    have "HandlePrepare r remote msg = Inr (?r', [prepare_ok ?r' msg])"
      using H new loop(1) num by simp
    then show ?thesis
      by (rule follower_stepI [OF _ ok'])
        (use new(1) i base(1) bs(4) lo in \<open>simp_all add: prepare_ok_def base_ok_def word_le_nat_alt\<close>)
  qed
qed

lemma to_commit_subset: "set (to_commit r upTo) \<subseteq> set (map snd (take (unat upTo) (ops r)))"
  unfolding to_commit_def set_map by (intro image_mono set_drop_subset)

lemma committed_follower:
  assumes ok: "follower_ok cfg L C i r" and c: "committed app r upTo r' out" and up: "upTo \<le> lastOp r"
    and C: "unat upTo \<le> C"
  shows "follower_ok cfg L C i r'" and "lastOp r' = lastOp r" and "lastCommitted r' = max (lastCommitted r) upTo"
    and "sent_ok n L lop lc i out"
proof -
  have base: "base_ok cfg L i r" "tbl_le (clientTable r) (map snd (ops r))" using ok by (simp_all add: follower_ok_def)
  obtain a l t where r': "r' = r\<lparr>lastCommitted := max (lastCommitted r) upTo, vr_app := a, vr_log := l, clientTable := t\<rparr>"
    and l: "map core (entries l) = ops r" and t: "tbl_le t (map snd (ops r))" and cr: "client_replies r out"
    using c base(2) order_trans [OF to_commit_subset set_map_take] unfolding committed_def by blast
  have on: "on_log L r'" using on_log_committed(1) [OF base_ok_log(1) [OF base(1)] c up] .
  show "lastOp r' = lastOp r" "lastCommitted r' = max (lastCommitted r) upTo" using r' by simp_all
  have "unat (max (lastCommitted r) upTo) \<le> C" using C ok by (simp add: follower_ok_def max_def)
  moreover have "tbl_le t (map snd (ops r'))" using t l r' by simp
  ultimately show "follower_ok cfg L C i r'" using ok on r' by (simp add: follower_ok_def base_ok_def)
  show "sent_ok n L lop lc i out" using client_replies_sent [OF cr] base(1) by (simp add: base_ok_def)
qed

lemma HandleCommit_follower:
  assumes ok: "follower_ok cfg L C i r" and i: "0 < i" "i < n" and app: "app_total app" and C: "unat opnum \<le> C"
  shows "follower_step n cfg L C lop lc i r (HandleCommit app r 0 opnum)"
proof -
  have base: "base_ok cfg L i r" using ok by (simp add: follower_ok_def)
  let ?r = "r\<lparr>viewChangeTimeout := True\<rparr>"
  have ok1: "follower_ok cfg L C i ?r" by (rule follower_ok_frame [OF ok]) simp_all
  have H: "HandleCommit app r 0 opnum =
      (if opnum \<le> lastCommitted r then Inr (?r, []) else if lastOp r < opnum then Inr (RequestStateTransfer ?r)
       else CommitUpTo app ?r opnum)"
    using base base_ok_AmLeader [OF base] i by (simp add: HandleCommit_def base_ok_def Let_def)
  consider "opnum \<le> lastCommitted r" | "\<not> opnum \<le> lastCommitted r" "lastOp r < opnum"
    | (commit) "\<not> opnum \<le> lastCommitted r" "\<not> lastOp r < opnum" by blast
  then show ?thesis
  proof cases
    case 1
    then show ?thesis using H follower_step_reset [OF follower_unchanged [OF ok1]] by simp
  next
    case 2
    then show ?thesis using H follower_step_reset [OF request_transfer_step [OF ok1 i]] by simp
  next
    case commit
    have up: "opnum \<le> lastOp ?r" and lok: "log_ok ?r"
      using commit(2) ok1 base_ok_log(2) [of cfg L i ?r] by (simp_all add: follower_ok_def not_less)
    obtain r' out where c: "CommitUpTo app ?r opnum = Inr (r', out)" "committed app ?r opnum r' out"
      using CommitUpTo_total [OF app lok up] .
    note f = committed_follower [OF ok1 c(2) up C]
    have "HandleCommit app r 0 opnum = Inr (r', out)" using H commit c(1) by simp
    then show ?thesis by (rule follower_stepI [OF _ f(1)]) (use f(2-4) in simp_all)
  qed
qed

lemma state_transfer_message:
  assumes ok: "base_ok cfg L i r" and v: "vr_view r = 0" and q: "unat opnum \<le> length L" and st: "stamps L"
    and d: "unat opnum \<le> d" and C: "unat (lastCommitted r) \<le> C"
  obtains es where "HandleRequestStateTransfer r remote 0 opnum =
      Inr (r, [SendTo remote (VStateTransfer \<lparr>st_view = 0, st_opnum = lastCommitted r, st_entries = es\<rparr>)])"
    and "transfer_ok L C d \<lparr>st_view = 0, st_opnum = lastCommitted r, st_entries = es\<rparr>"
proof -
  have on: "on_log L r" "log_ok r" using base_ok_log [OF ok] by blast+
  have u: "unat (opnum + 1) = unat opnum + 1" using q st by (intro u64_Suc) (simp add: stamps_def)
  have "1 \<le> opnum + 1" using u by (simp add: word_le_nat_alt)
  then obtain es where es: "Log_Dump (vr_log r) (opnum + 1) = Inr es"
    "map emcore es = drop (unat (opnum + 1) - 1) (ops r)" using Dump_ok [OF on(2)] by metis
  have opsr: "ops r = take (unat (lastOp r)) L" "unat (lastOp r) \<le> length L"
    using on(1) by (simp_all only: on_log_def)
  have seg: "map emcore es = take (unat (lastOp r) - unat opnum) (drop (unat opnum) L)"
    using es(2) u opsr(1) by (simp add: drop_take)
  then have "length (map emcore es) = min (length L - unat opnum) (unat (lastOp r) - unat opnum)"
    by simp
  then have len: "length es = unat (lastOp r) - unat opnum" using opsr(2) by simp
  have "unat (lastCommitted r) \<le> unat (lastOp r)" using on(2) by (simp add: log_ok_def word_le_nat_alt)
  then have "transfer_ok L C d \<lparr>st_view = 0, st_opnum = lastCommitted r, st_entries = es\<rparr>"
    using C d q seg len opsr(2) by (auto simp: transfer_ok_def intro!: exI [of _ "unat opnum"])
  moreover have "HandleRequestStateTransfer r remote 0 opnum =
      Inr (r, [SendTo remote (VStateTransfer \<lparr>st_view = 0, st_opnum = lastCommitted r, st_entries = es\<rparr>)])"
    using ok es(1) by (simp add: HandleRequestStateTransfer_def base_ok_def)
  ultimately show ?thesis using that by blast
qed

lemma tbl_le_take: "tbl_le T (map snd (take j xs)) \<Longrightarrow> j \<le> k \<Longrightarrow> tbl_le T (map snd (take k xs))"
  by (erule tbl_le_mono) (simp only: set_map image_mono set_take_subset_set_take)

lemma tbl_le_committed:
  assumes "committed app r upTo r' out" and "tbl_le (clientTable r) (map snd (take j (ops r)))"
  shows "tbl_le (clientTable r') (map snd (take (max j (unat upTo)) (ops r')))"
proof -
  obtain a l t where r': "r' = r\<lparr>lastCommitted := max (lastCommitted r) upTo, vr_app := a, vr_log := l, clientTable := t\<rparr>"
    and l: "map core (entries l) = ops r"
    and t: "\<And>qs. tbl_le (clientTable r) qs \<Longrightarrow> set (to_commit r upTo) \<subseteq> set qs \<Longrightarrow> tbl_le t qs"
    using assms(1) unfolding committed_def by blast
  have "set (to_commit r upTo) \<subseteq> set (map snd (take (max j (unat upTo)) (ops r)))"
    using to_commit_subset [of r upTo] set_take_subset_set_take [of "unat upTo" "max j (unat upTo)" "ops r"]
    unfolding set_map by (meson image_mono max.cobounded2 order_trans)
  then have "tbl_le t (map snd (take (max j (unat upTo)) (ops r)))"
    using t tbl_le_take [OF assms(2)] by simp
  then show ?thesis using r' l by simp
qed

lemma HandleStateTransfer_follower:
  assumes ok: "follower_ok cfg L C i r" and i: "0 < i" "i < n" and app: "app_total app" and st: "stamps L"
    and cs: "client_sorted (map snd L)" and m: "transfer_ok L C (unat (lastCommitted r)) msg"
  shows "follower_step n cfg L C lop lc i r (HandleStateTransfer app r msg)"
proof -
  have base: "base_ok cfg L i r" "tbl_le (clientTable r) (map snd (ops r))" using ok by (simp_all add: follower_ok_def)
  note on = base_ok_log [OF base(1)]
  obtain q where q: "st_view msg = 0" "unat (st_opnum msg) \<le> C" "q \<le> unat (lastCommitted r)"
    "q + length (st_entries msg) \<le> length L" "unat (st_opnum msg) \<le> q + length (st_entries msg)"
    "map emcore (st_entries msg) = take (length (st_entries msg)) (drop q L)"
    using m unfolding transfer_ok_def by blast
  have "unat (lastCommitted r) \<le> unat (lastOp r)" using on(2) by (simp add: log_ok_def word_le_nat_alt)
  then have "q \<le> unat (lastOp r)" using q(3) by simp
  from transfer_entries_ok [OF on(1) st q(4) this q(6), of "lastOp r"] obtain lo l where
    tr: "transfer_entries (r, lastOp r) (st_entries msg) = Inr (r\<lparr>lastOp := lo, vr_log := l\<rparr>, lastOp r)"
      "unat lo = max (unat (lastOp r)) (q + length (st_entries msg))" "on_log L (r\<lparr>lastOp := lo, vr_log := l\<rparr>)" by blast
  let ?r = "r\<lparr>lastOp := lo, vr_log := l\<rparr>"
  have T: "tbl_le (clientTable ?r) (map snd (take (unat (lastOp r)) (ops ?r)))"
  proof -
    have "take (unat (lastOp r)) (ops ?r) = take (unat (lastOp r)) L"
      using tr(2,3) by (simp add: on_log_def)
    then show ?thesis using base(2) on_log_tbl [OF on(1)] by simp
  qed
  have ok1: "follower_ok cfg L C i ?r"
    using ok tr(3) tbl_le_mono [OF T set_map_take] by (simp add: follower_ok_def base_ok_def)
  have lok: "log_ok ?r" using tr(3) by (simp add: on_log_def)
  have up: "st_opnum msg \<le> lastOp ?r" using tr(2) q(5) by (simp add: word_le_nat_alt)
  obtain r3 out1 where c: "CommitUpTo app ?r (st_opnum msg) = Inr (r3, out1)" "committed app ?r (st_opnum msg) r3 out1"
    using CommitUpTo_total [OF app lok up] .
  note f = committed_follower [OF ok1 c(2) up q(2)]
  have T3: "tbl_le (clientTable r3) (map snd (take (max (unat (lastOp r)) (unat (st_opnum msg))) (ops r3)))"
    using tbl_le_committed [OF c(2) T] .
  have base3: "base_ok cfg L i r3" using f(1) by (simp add: follower_ok_def)
  note on3 = base_ok_log [OF base3]
  have "client_sorted (map snd (ops r3))"
    using client_sorted_take [OF cs] on3(1) by (simp only: on_log_def take_map)
  moreover have grow: "lastOp r \<le> lastOp r3" using f(2) tr(2) by (simp add: word_le_nat_alt)
  moreover have "tbl_le (clientTable r3) (map snd (take (max (unat (lastOp r)) (unat (lastCommitted r3))) (ops r3)))"
    by (rule tbl_le_take [OF T3]) (simp add: f(3) max_def word_le_nat_alt)
  ultimately obtain t out2 where p: "SendPrepareOKs r3 (lastOp r) = Inr (r3\<lparr>clientTable := t\<rparr>, out2)"
    "tbl_le t (map snd (ops r3))" "oks r3 out2"
    using SendPrepareOKs_ok [OF on3(2)] by metis
  let ?r4 = "r3\<lparr>clientTable := t, pendingPrepares := []\<rparr>"
  have H: "HandleStateTransfer app r msg = Inr (?r4, out1 @ out2)"
    using base(1) q(1) tr(1) up c(1) p(1) by (simp add: HandleStateTransfer_def base_ok_def)
  have "on_log L ?r4" using on3(1) by (simp add: on_log_def log_ok_def)
  then have ok4: "follower_ok cfg L C i ?r4" using f(1) p(2) by (simp add: follower_ok_def base_ok_def)
  have "sent_ok n L (lop(i := unat (lastOp r3))) (lc(i := unat (lastCommitted r3))) i out2"
    using oks_sent [OF p(3) _ _ i] base3 by (simp add: base_ok_def)
  with H ok4 show ?thesis
    by (intro follower_stepI [OF H ok4]) (use f(3,4) grow in simp_all)
qed

text \<open>Every event at a follower other than the view-change timer.\<close>

lemma follower_react:
  assumes ok: "follower_ok cfg L C i r" and i: "0 < i" "i < n" and app: "app_total app" and st: "stamps L"
    and cs: "client_sorted (map snd L)" and lcC: "lc 0 = C" "lc i = unat (lastCommitted r)" "\<forall>j. 0 < j \<and> j < n \<longrightarrow> lc j \<le> length L"
    and tgt: "vr_target ev = i"
    and ev: "case ev of Deliver j k m \<Rightarrow> packet_ok n L lop lc (j, ReplicaAt k, m)
       | Fire k t \<Rightarrow> timer_active r t \<and> t \<noteq> ViewChangeTimer | _ \<Rightarrow> True"
  shows "follower_step n cfg L C lop lc i r (vr_react dead app r ev)"
proof -
  have base: "base_ok cfg L i r" using ok by (simp add: follower_ok_def)
  have nl: "\<not> AmLeader r" using base_ok_AmLeader [OF base] i by simp
  note same = follower_unchanged [where n = n and lop = lop and lc = lc, OF ok]
  show ?thesis
  proof (cases ev)
    case (ClientRequest c k req)
    then show ?thesis using same nl by (simp add: vr_react_def VR_ReceiveMessage_def VR_HandleRequest_def)
  next
    case (ClientUnlogged c k req)
    obtain res a where "VRUnloggedUpcall app (vr_app r) (rop req) = Inr (res, a)"
      using app_totalD(3) [OF app] by (metis prod.exhaust)
    then have "vr_react dead app r ev = Inr (r\<lparr>vr_app := a\<rparr>, [SendTo (ClientAt c) (VUnloggedReply res (clientreqid req))])"
      using ClientUnlogged base by (simp add: vr_react_def VR_ReceiveMessage_def VR_HandleUnloggedRequest_def base_ok_def)
    then show ?thesis by (rule follower_stepI [OF _ follower_ok_frame [OF ok]]) simp_all
  next
    case (Fire k t)
    then have "t = StateTransferTimer"
      using ev ok by (cases t) (simp_all add: timer_active_def follower_ok_def)
    then have "vr_react dead app r ev =
        Inr (r\<lparr>lastRequestStateTransferView := 0, lastRequestStateTransferOpnum := 0\<rparr>, [])"
      using Fire by (simp add: vr_react_def timer_callback_def)
    then show ?thesis by (rule follower_stepI [OF _ follower_ok_frame [OF ok]]) simp_all
  next
    case (Deliver j k m)
    then have k: "k = i" using tgt by (simp add: vr_target_def)
    have R: "vr_react dead app r ev = VR_ReceiveMessage dead app r (ReplicaAt j) m" using Deliver by (simp add: vr_react_def)
    have P: "packet_ok n L lop lc (j, ReplicaAt i, m)" using ev Deliver k by simp
    show ?thesis
    proof (cases m)
      case (VPrepare p)
      then show ?thesis using R P HandlePrepare_follower [OF ok i st cs] by (simp add: VR_ReceiveMessage_def)
    next
      case (VPrepareOK p)
      then show ?thesis using R P same nl base
        by (simp add: VR_ReceiveMessage_def HandlePrepareOK_def base_ok_def)
    next
      case (VCommit v x)
      then show ?thesis using R P HandleCommit_follower [OF ok i app] lcC(1) by (simp add: VR_ReceiveMessage_def)
    next
      case (VRequestStateTransfer v x)
      then have x: "v = 0" "0 < j" "j < n" "unat x \<le> lc j" using P by simp_all
      then have len: "unat x \<le> length L" using lcC(3) by (meson order_trans)
      have C: "unat (lastCommitted r) \<le> C" using ok by (simp add: follower_ok_def)
      obtain es where h: "HandleRequestStateTransfer r (ReplicaAt j) 0 x =
          Inr (r, [SendTo (ReplicaAt j) (VStateTransfer \<lparr>st_view = 0, st_opnum = lastCommitted r, st_entries = es\<rparr>)])"
        "transfer_ok L C (lc j) \<lparr>st_view = 0, st_opnum = lastCommitted r, st_entries = es\<rparr>"
        using state_transfer_message [OF base _ len st x(4) C] base unfolding base_ok_def by blast
      have lci: "lc(i := unat (lastCommitted r)) = lc" using lcC(2) by auto
      have "vr_react dead app r ev =
          Inr (r, [SendTo (ReplicaAt j) (VStateTransfer \<lparr>st_view = 0, st_opnum = lastCommitted r, st_entries = es\<rparr>)])"
        using R VRequestStateTransfer x(1) h(1) by (simp add: VR_ReceiveMessage_def)
      then show ?thesis
        by (rule follower_stepI [OF _ ok]) (use lci h(2) x(2,3) lcC(1) in simp_all)
    next
      case (VStateTransfer p)
      then show ?thesis using R P HandleStateTransfer_follower [OF ok i app st cs] lcC(1,2)
        by (simp add: VR_ReceiveMessage_def)
    qed (use P in simp_all)
  qed
qed

section \<open>The leader\<close>

definition tbl_ge :: "(u64 \<Rightarrow> ClientTableEntry option) \<Rightarrow> OpRequest list \<Rightarrow> bool" where
  "tbl_ge T qs \<longleftrightarrow> (\<forall>q\<in>set qs. \<exists>e. T (clientid q) = Some e \<and> clientreqid q \<le> lastReqId e)"

definition votes_ok :: "int \<Rightarrow> (int \<Rightarrow> nat) \<Rightarrow> (viewstamp_t, PrepareOKMessage) QuorumSet \<Rightarrow> bool" where
  "votes_ok n lop Q \<longleftrightarrow>
     (\<forall>vs idx m. map_of (GetMessages Q vs) idx = Some m \<longrightarrow> 0 < idx \<and> idx < n \<and> unat (vs_opnum vs) \<le> lop idx)"

definition leader_ok :: "Configuration \<Rightarrow> int \<Rightarrow> (int \<Rightarrow> nat) \<Rightarrow> 's VRReplica \<Rightarrow> bool" where
  "leader_ok cfg n lop r \<longleftrightarrow>
     base_ok cfg (ops r) 0 r \<and> stamps (ops r) \<and> client_sorted (map snd (ops r)) \<and>
     tbl_ge (clientTable r) (map snd (ops r)) \<and> lastBatchEnd r \<le> lastOp r \<and>
     (closeBatchTimeout r \<longrightarrow> lastBatchEnd r < lastOp r) \<and>
     (resendPrepareTimeout r \<longrightarrow> prep_ok (ops r) (lastPrepare r)) \<and>
     quorum_wf (prepareOKQuorum r) \<and> numRequired (prepareOKQuorum r) = cfg_f cfg \<and>
     votes_ok n lop (prepareOKQuorum r)"

text \<open>Whatever becomes committed is in the logs of the leader and of at least \<open>f\<close> others.\<close>

definition voted :: "int \<Rightarrow> int \<Rightarrow> (int \<Rightarrow> nat) \<Rightarrow> nat \<Rightarrow> nat \<Rightarrow> bool" where
  "voted n f lop C C' \<longleftrightarrow> C' \<le> C \<or> (\<exists>V \<subseteq> {0<..<n}. f \<le> int (card V) \<and> (\<forall>v\<in>V. C' \<le> lop v))"

definition leader_step ::
  "Configuration \<Rightarrow> int \<Rightarrow> (int \<Rightarrow> nat) \<Rightarrow> (int \<Rightarrow> nat) \<Rightarrow> 's VRReplica \<Rightarrow> 's vr_result \<Rightarrow> bool" where
  "leader_step cfg n lop lc r res \<longleftrightarrow>
     (\<exists>r' out xs. res = Inr (r', out) \<and> leader_ok cfg n lop r' \<and> ops r' = ops r @ xs \<and>
        lastCommitted r \<le> lastCommitted r' \<and>
        voted n (cfg_f cfg) lop (unat (lastCommitted r)) (unat (lastCommitted r')) \<and>
        sent_ok n (ops r') (lop(0 := unat (lastOp r'))) (lc(0 := unat (lastCommitted r'))) 0 out)"

lemma leader_stepI:
  assumes "res = Inr (r', out)" and "leader_ok cfg n lop r'" and "ops r' = ops r @ xs"
    and "lastCommitted r \<le> lastCommitted r'" and "voted n (cfg_f cfg) lop (unat (lastCommitted r)) (unat (lastCommitted r'))"
    and "sent_ok n (ops r') (lop(0 := unat (lastOp r'))) (lc(0 := unat (lastCommitted r'))) 0 out"
  shows "leader_step cfg n lop lc r res"
  using assms unfolding leader_step_def by blast

lemma on_log_self: "log_ok r \<Longrightarrow> on_log (ops r) r"
  by (simp add: on_log_def log_ok_def)

lemma leader_ok_log: "leader_ok cfg n lop r \<Longrightarrow> log_ok r"
  by (simp add: leader_ok_def base_ok_def on_log_def)

lemma leader_ok_AmLeader: "leader_ok cfg n lop r \<Longrightarrow> AmLeader r"
  by (simp add: leader_ok_def base_ok_def AmLeader_def)

lemma prep_ok_append:
  assumes "prep_ok L p"
  shows "prep_ok (L @ xs) p"
proof -
  let ?a = "unat (pm_batchstart p) - 1" and ?m = "unat (pm_opnum p) + 1 - unat (pm_batchstart p)"
  have "unat (pm_batchstart p) \<le> unat (pm_opnum p)" "1 \<le> unat (pm_batchstart p)" "unat (pm_opnum p) \<le> length L"
    using assms by (simp_all add: prep_ok_def word_le_nat_alt)
  then have "?m \<le> length L - ?a" "?a \<le> length L" by simp_all
  then have "take ?m (drop ?a (L @ xs)) = take ?m (drop ?a L)" by simp
  then show ?thesis using assms by (simp only: prep_ok_def) simp
qed

lemma sent_to_all:
  assumes "\<And>j. j \<noteq> i \<Longrightarrow> packet_ok n L lop lc (i, ReplicaAt j, m)"
  shows "sent_ok n L lop lc i [SendAll m]"
  using assms by auto

lemma CloseBatch_leader:
  assumes ok: "log_ok r" and b: "base_ok cfg (ops r) 0 r" and st: "stamps (ops r)" and lt: "lastBatchEnd r < lastOp r"
  obtains p where "CloseBatch r = Inr (r\<lparr>lastPrepare := p, lastBatchEnd := lastOp r, resendPrepareTimeout := True,
      closeBatchTimeout := False\<rparr>, [SendAll (VPrepare p)])" and "prep_ok (ops r) p"
proof -
  let ?s = "lastBatchEnd r + 1"
  have us: "unat ?s = unat (lastBatchEnd r) + 1" using u64_less_Suc [OF lt] .
  have le: "?s \<le> lastOp r" "1 \<le> ?s" using us lt by (simp_all add: word_le_nat_alt word_less_nat_alt)
  have n: "unat ?s + (unat (lastOp r - ?s) + 1) = unat (lastOp r) + 1"
    using le(1) by (simp add: unat_sub word_le_nat_alt)
  have view: "vr_view r = 0" using b by (simp add: base_ok_def)
  define p where "p = \<lparr>pm_view = 0, pm_opnum = lastOp r, pm_batchstart = ?s,
      pm_request = map snd (take (unat (lastOp r - ?s) + 1) (drop (unat ?s - 1) (ops r)))\<rparr>"
  have rs: "batch_requests r ?s (unat (lastOp r - ?s) + 1) = Inr (pm_request p)"
    using batch_requests_ok [OF on_log_self [OF ok] st view le(2) n] by (simp add: p_def)
  have "AmLeader r" using b by (simp add: base_ok_def AmLeader_def)
  then have "CloseBatch r = Inr (r\<lparr>lastPrepare := p, lastBatchEnd := lastOp r, resendPrepareTimeout := True,
      closeBatchTimeout := False\<rparr>, [SendAll (VPrepare p)])"
    using lt rs view by (simp add: CloseBatch_def Let_def p_def del: batch_requests.simps)
  moreover have "prep_ok (ops r) p"
    using le n log_ok_length [OF ok] us by (simp add: prep_ok_def p_def)
  ultimately show ?thesis using that by blast
qed

lemma tbl_ge_grows: "tbl_ge T qs \<Longrightarrow> tbl_grows T T' \<Longrightarrow> tbl_ge T' qs"
  unfolding tbl_ge_def tbl_grows_def by (meson order_trans)

lemma leader_ok_frame:
  assumes "leader_ok cfg n lop r" and "vr_config r' = vr_config r" "vr_myIdx r' = vr_myIdx r"
    "vr_status r' = vr_status r" "vr_view r' = vr_view r" "lastOp r' = lastOp r" "lastBatchEnd r' = lastBatchEnd r"
    "resendPrepareTimeout r' = resendPrepareTimeout r" "lastPrepare r' = lastPrepare r"
    "closeBatchTimeout r' = closeBatchTimeout r"
    and "ran (clientAddresses r') \<subseteq> range ClientAt" and "tbl_grows (clientTable r) (clientTable r')"
    and "quorum_wf (prepareOKQuorum r')" and "numRequired (prepareOKQuorum r') = cfg_f cfg"
    and "votes_ok n lop (prepareOKQuorum r')" and "log_ok r'" and "ops r' = ops r"
  shows "leader_ok cfg n lop r'"
proof -
  have "tbl_ge (clientTable r') (map snd (ops r))"
    using tbl_ge_grows [OF _ assms(12)] assms(1) by (simp add: leader_ok_def)
  moreover have "on_log (ops r) r'" using on_log_self [OF assms(16)] assms(17) by simp
  ultimately show ?thesis
    using assms(1-11,13-15) unfolding leader_ok_def base_ok_def assms(17) by simp
qed

lemma UpdateClientTable_new:
  assumes "\<And>e. clientTable r (clientid q) = Some e \<Longrightarrow> lastReqId e < clientreqid q"
  obtains e where "UpdateClientTable r q = Inr (r\<lparr>clientTable := (clientTable r)(clientid q \<mapsto> e)\<rparr>)"
    and "lastReqId e = clientreqid q"
proof -
  let ?e = "table_entry r (clientid q)"
  have "lastReqId ?e \<le> clientreqid q"
    using assms by (auto simp: table_entry_def ClientTableEntry_empty_def less_imp_le split: option.splits)
  then show ?thesis using that by (auto simp: UpdateClientTable_def Let_def)
qed

text \<open>The replica after the leader has put a request into its log, before the batch is considered.\<close>

lemma leader_appended:
  assumes ok: "leader_ok cfg n lop r" and bound: "lastOp r < - 3"
    and new: "\<And>e. clientTable r (clientid q) = Some e \<Longrightarrow> lastReqId e < clientreqid q"
    and q': "clientid q' = clientid q" "clientreqid q' = clientreqid q" and e: "lastReqId e = clientreqid q"
  obtains l where "Log_Append no_hash (vr_log r) (Viewstamp 0 (lastOp r + 1)) q' LOG_STATE_PREPARED = Inr l"
    and "map core (entries l) = ops r @ [(Viewstamp 0 (lastOp r + 1), q')]"
    and "leader_ok cfg n lop (r\<lparr>clientTable := (clientTable r)(clientid q \<mapsto> e), vr_app := a, lastOp := lastOp r + 1,
        vr_log := l, closeBatchTimeout := True\<rparr>)"
proof -
  have lok: "log_ok r" using leader_ok_log [OF ok] .
  have b: "unat (lastOp r) + 3 < 2 ^ 64"
  proof -
    have "unat (- 3 :: u64) = 2 ^ 64 - 3" by simp
    then show ?thesis using bound by (simp add: word_less_nat_alt)
  qed
  have b2: "unat (lastOp r) + 2 < 2 ^ 64" and vs: "vs_opnum (Viewstamp 0 (lastOp r + 1)) = lastOp r + 1"
    using b by simp_all
  obtain l where l: "Log_Append no_hash (vr_log r) (Viewstamp 0 (lastOp r + 1)) q' LOG_STATE_PREPARED = Inr l"
      "log_ok (r\<lparr>lastOp := lastOp r + 1, vr_log := l\<rparr>)" "map core (entries l) = ops r @ [(Viewstamp 0 (lastOp r + 1), q')]"
      "log_start l = 1"
    by (rule log_ok_Append [OF lok b2 vs])
  let ?L = "ops r @ [(Viewstamp 0 (lastOp r + 1), q')]"
  let ?r = "r\<lparr>clientTable := (clientTable r)(clientid q \<mapsto> e), vr_app := a, lastOp := lastOp r + 1,
        vr_log := l, closeBatchTimeout := True\<rparr>"
  have u: "unat (lastOp r + 1) = unat (lastOp r) + 1" using b by (intro u64_Suc) simp
  have opsr: "ops ?r = ?L" using l(3) by simp
  have len: "length (ops r) = unat (lastOp r)" using log_ok_length [OF lok] by simp
  have st: "stamps ?L"
    using ok b len by (auto simp: leader_ok_def stamps_def nth_append less_Suc_eq)
  have old: "clientreqid p < clientreqid q" if "p \<in> set (map snd (ops r))" "clientid p = clientid q" for p
  proof -
    have "tbl_ge (clientTable r) (map snd (ops r))" using ok by (simp add: leader_ok_def)
    from bspec [OF this [unfolded tbl_ge_def] that(1)] obtain e0
      where e0: "clientTable r (clientid p) = Some e0" "clientreqid p \<le> lastReqId e0" by blast
    then have "lastReqId e0 < clientreqid q" using that(2) by (intro new) simp
    with e0(2) show ?thesis by simp
  qed
  then have cs: "client_sorted (map snd ?L)"
    using ok q' by (simp add: leader_ok_def client_sorted_def sorted_wrt_append)
  have tg: "tbl_ge (clientTable ?r) (map snd ?L)"
  proof -
    have grows: "tbl_grows (clientTable r) (clientTable ?r)"
      using new e by (auto simp: tbl_grows_def less_imp_le)
    have "tbl_ge (clientTable ?r) (map snd (ops r))"
      using tbl_ge_grows [OF _ grows] ok by (simp add: leader_ok_def)
    then show ?thesis using q' e by (simp add: tbl_ge_def)
  qed
  have "log_ok ?r" using l(2) by (simp add: log_ok_def)
  then have on: "on_log (ops ?r) ?r" by (rule on_log_self)
  have base: "base_ok cfg (ops ?r) 0 ?r" using ok on by (simp add: leader_ok_def base_ok_def)
  have "unat (lastBatchEnd r) \<le> unat (lastOp r)" using ok by (simp add: leader_ok_def word_le_nat_alt)
  then have be: "lastBatchEnd ?r < lastOp ?r" using u by (simp add: word_less_nat_alt)
  have "prep_ok (ops ?r) (lastPrepare ?r)" if "resendPrepareTimeout ?r"
    using ok that prep_ok_append unfolding opsr by (simp add: leader_ok_def)
  then have "leader_ok cfg n lop ?r"
    using ok base be st cs tg unfolding leader_ok_def opsr by (simp add: less_imp_le)
  then show ?thesis using that l(1,3) by blast
qed

lemma leader_ok_batch:
  assumes ok: "leader_ok cfg n lop (r\<lparr>closeBatchTimeout := b0\<rparr>)" and "lastBatchEnd r < lastOp r"
  obtains p where "CloseBatch r = Inr (r\<lparr>lastPrepare := p, lastBatchEnd := lastOp r, resendPrepareTimeout := True,
      closeBatchTimeout := False\<rparr>, [SendAll (VPrepare p)])"
    and "leader_ok cfg n lop (r\<lparr>lastPrepare := p, lastBatchEnd := lastOp r, resendPrepareTimeout := True,
      closeBatchTimeout := False, nullCommitTimeout := b\<rparr>)"
    and "prep_ok (ops r) p"
proof -
  have lok: "log_ok r" using leader_ok_log [OF ok] by (simp add: log_ok_def)
  then have base: "base_ok cfg (ops r) 0 r" "stamps (ops r)"
    using ok on_log_self [OF lok] by (simp_all add: leader_ok_def base_ok_def)
  obtain p where p: "CloseBatch r = Inr (r\<lparr>lastPrepare := p, lastBatchEnd := lastOp r, resendPrepareTimeout := True,
      closeBatchTimeout := False\<rparr>, [SendAll (VPrepare p)])" "prep_ok (ops r) p"
    by (rule CloseBatch_leader [OF lok base assms(2)])
  let ?r = "r\<lparr>lastPrepare := p, lastBatchEnd := lastOp r, resendPrepareTimeout := True,
      closeBatchTimeout := False, nullCommitTimeout := b\<rparr>"
  have "log_ok ?r" using lok by (simp add: log_ok_def)
  then have "on_log (ops ?r) ?r" by (rule on_log_self)
  then have "leader_ok cfg n lop ?r" using ok p(2) by (simp add: leader_ok_def base_ok_def)
  then show ?thesis by (rule that [OF p(1) _ p(2)])
qed

lemma voted_same [simp]: "voted n f lop C C"
  by (simp add: voted_def)

lemma new_request_leader:
  assumes ok: "leader_ok cfg n lop r" and app: "app_total app" and bound: "lastOp r < - 3"
    and new: "\<And>e. clientTable r (clientid q) = Some e \<Longrightarrow> lastReqId e < clientreqid q"
  shows "leader_step cfg n lop lc r (new_request app r (ClientAt c) q)"
proof -
  obtain e where upd: "UpdateClientTable r q = Inr (r\<lparr>clientTable := (clientTable r)(clientid q \<mapsto> e)\<rparr>)"
    and e: "lastReqId e = clientreqid q"
    using UpdateClientTable_new [OF new] .
  obtain repl res a where up: "LeaderUpcall app (vr_app r) (lastCommitted r) (rop q) = Inr (repl, res, a)"
    using app_totalD(1) [OF app] by (metis prod.exhaust)
  let ?r2 = "r\<lparr>clientTable := (clientTable r)(clientid q \<mapsto> e), vr_app := a\<rparr>"
  show ?thesis
  proof (cases repl)
    case False
    let ?reply = "\<lparr>rm_view = 0, rm_opnum = 0, rm_clientreqid = clientreqid q, rm_reply = res\<rparr>"
    let ?r3 = "r\<lparr>clientTable := (clientTable r)(clientid q \<mapsto> e\<lparr>replied := True, cte_reply := ?reply\<rparr>), vr_app := a\<rparr>"
    have run: "new_request app r (ClientAt c) q = Inr (?r3, [SendTo (ClientAt c) (VReply ?reply)])"
      using upd up False by (simp add: new_request_def Let_def table_entry_def)
    have "tbl_grows (clientTable r) (clientTable ?r3)"
      using new e by (auto simp: tbl_grows_def less_imp_le)
    moreover have "log_ok ?r3" using leader_ok_log [OF ok] by (simp add: log_ok_def)
    ultimately have "leader_ok cfg n lop ?r3"
      using ok by (intro leader_ok_frame [OF ok]) (simp_all add: leader_ok_def base_ok_def)
    then show ?thesis using run by (intro leader_stepI [OF run, where xs = "[]"]) simp_all
  next
    case True
    let ?q = "\<lparr>rop = res, clientid = clientid q, clientreqid = clientreqid q\<rparr>"
    have view: "vr_view r = 0" using ok by (simp add: leader_ok_def base_ok_def)
    obtain l where l: "Log_Append no_hash (vr_log r) (Viewstamp 0 (lastOp r + 1)) ?q LOG_STATE_PREPARED = Inr l"
        "map core (entries l) = ops r @ [(Viewstamp 0 (lastOp r + 1), ?q)]"
        "leader_ok cfg n lop (r\<lparr>clientTable := (clientTable r)(clientid q \<mapsto> e), vr_app := a, lastOp := lastOp r + 1,
          vr_log := l, closeBatchTimeout := True\<rparr>)"
      by (rule leader_appended [OF ok bound new, where q' = ?q and e = e and a = a]) (simp_all add: e)
    let ?r4 = "?r2\<lparr>lastOp := lastOp r + 1, vr_log := l\<rparr>"
    have run: "new_request app r (ClientAt c) q =
        obind (if lastOp ?r4 - lastBatchEnd ?r4 + 1 > ucast (batchSize ?r4) then CloseBatch ?r4
               else Inr (?r4\<lparr>closeBatchTimeout := True\<rparr>, [])) (\<lambda>(r5, out). Inr (r5\<lparr>nullCommitTimeout := True\<rparr>, out))"
      using upd up True l(1) view by (simp add: new_request_def Let_def)
    have ops4: "ops ?r4 = ops r @ [(Viewstamp 0 (lastOp r + 1), ?q)]" using l(2) by simp
    show ?thesis
    proof (cases "lastOp ?r4 - lastBatchEnd ?r4 + 1 > ucast (batchSize ?r4)")
      case True
      have lt: "lastBatchEnd ?r4 < lastOp ?r4" using l(3) unfolding leader_ok_def by simp
      obtain p where p: "CloseBatch ?r4 = Inr (?r4\<lparr>lastPrepare := p, lastBatchEnd := lastOp ?r4,
            resendPrepareTimeout := True, closeBatchTimeout := False\<rparr>, [SendAll (VPrepare p)])"
          "leader_ok cfg n lop (?r4\<lparr>lastPrepare := p, lastBatchEnd := lastOp ?r4,
            resendPrepareTimeout := True, closeBatchTimeout := False, nullCommitTimeout := True\<rparr>)"
          "prep_ok (ops ?r4) p"
        by (rule leader_ok_batch [OF l(3) lt])
      have "new_request app r (ClientAt c) q = Inr (?r4\<lparr>lastPrepare := p, lastBatchEnd := lastOp ?r4,
            resendPrepareTimeout := True, closeBatchTimeout := False, nullCommitTimeout := True\<rparr>, [SendAll (VPrepare p)])"
        using run True p(1) by simp
      then show ?thesis by (rule leader_stepI [OF _ p(2)]) (use ops4 p(3) in auto)
    next
      case False
      let ?r5 = "?r4\<lparr>closeBatchTimeout := True, nullCommitTimeout := True\<rparr>"
      have "log_ok ?r5" using leader_ok_log [OF l(3)] by (simp add: log_ok_def)
      then have "leader_ok cfg n lop ?r5"
        using l(3) by (intro leader_ok_frame [OF l(3)]) (simp_all add: leader_ok_def base_ok_def)
      moreover have "new_request app r (ClientAt c) q = Inr (?r5, [])" using run False by simp
      ultimately show ?thesis by (intro leader_stepI [where r' = ?r5]) (use ops4 in auto)
    qed
  qed
qed

lemma leader_unchanged:
  assumes "leader_ok cfg n lop r"
  shows "leader_step cfg n lop lc r (Inr (r, []))"
  using assms by (intro leader_stepI [OF refl, where xs = "[]"]) simp_all

lemma HandleRequest_leader:
  assumes ok: "leader_ok cfg n lop r" and app: "app_total app" and bound: "lastOp r < - 3"
  shows "leader_step cfg n lop lc r (VR_HandleRequest app r (ClientAt c) q)"
proof -
  let ?r = "r\<lparr>clientAddresses := (clientAddresses r)(clientid q \<mapsto> ClientAt c)\<rparr>"
  have "ran (clientAddresses ?r) \<subseteq> insert (ClientAt c) (ran (clientAddresses r))"
    by (auto simp: ran_def)
  then have addr: "ran (clientAddresses ?r) \<subseteq> range ClientAt"
    using ok unfolding leader_ok_def base_ok_def by (meson insert_subset order_trans rangeI)
  have "log_ok ?r" using leader_ok_log [OF ok] by (simp add: log_ok_def)
  then have ok1: "leader_ok cfg n lop ?r"
    using ok addr by (intro leader_ok_frame [OF ok]) (simp_all add: leader_ok_def)
  have H: "VR_HandleRequest app r (ClientAt c) q =
      (case clientTable ?r (clientid q) of
         None \<Rightarrow> new_request app ?r (ClientAt c) q
       | Some entry \<Rightarrow>
           if clientreqid q < lastReqId entry then Inr (?r, [])
           else if clientreqid q = lastReqId entry then
             (if replied entry then Inr (?r, [SendTo (ClientAt c) (VReply (cte_reply entry))]) else Inr (?r, []))
           else new_request app ?r (ClientAt c) q)"
    using ok leader_ok_AmLeader [OF ok] by (simp add: VR_HandleRequest_def leader_ok_def base_ok_def Let_def)
  have lift: "leader_step cfg n lop lc r res" if "leader_step cfg n lop lc ?r res" for res
    using that by (simp add: leader_step_def)
  have resend: "leader_step cfg n lop lc ?r (Inr (?r, [SendTo (ClientAt c) (VReply m)]))" for m
    by (rule leader_stepI [OF refl ok1, where xs = "[]"]) simp_all
  have new: "leader_step cfg n lop lc ?r (new_request app ?r (ClientAt c) q)"
    if "\<And>e. clientTable r (clientid q) = Some e \<Longrightarrow> lastReqId e < clientreqid q"
    using new_request_leader [OF ok1 app, of q lc c] bound that by simp
  show ?thesis
  proof (rule lift, cases "clientTable r (clientid q)")
    case None
    then show "leader_step cfg n lop lc ?r (VR_HandleRequest app r (ClientAt c) q)" using H new by simp
  next
    case (Some e)
    then show "leader_step cfg n lop lc ?r (VR_HandleRequest app r (ClientAt c) q)"
      using H new leader_unchanged [OF ok1] resend [of "cte_reply e"] by (simp add: not_less order_less_le)
  qed
qed

lemma committed_leader:
  assumes ok: "leader_ok cfg n lop r" and c: "committed app r upTo r' out"
  shows "leader_ok cfg n lop r'" and "ops r' = ops r" and "lastCommitted r' = max (lastCommitted r) upTo"
    and "vr_view r' = 0" and "vr_config r' = cfg" and "sent_ok n L lop' lc' 0 out"
proof -
  obtain a l t where r': "r' = r\<lparr>lastCommitted := max (lastCommitted r) upTo, vr_app := a, vr_log := l, clientTable := t\<rparr>"
    and l: "log_ok r'" "map core (entries l) = ops r" "tbl_grows (clientTable r) t" and cr: "client_replies r out"
    using c unfolding committed_def by blast
  show "ops r' = ops r" "lastCommitted r' = max (lastCommitted r) upTo" "vr_view r' = 0" "vr_config r' = cfg"
    using r' l(2) ok by (simp_all add: leader_ok_def base_ok_def)
  show "leader_ok cfg n lop r'"
    using ok r' l by (intro leader_ok_frame [OF ok]) (simp_all add: leader_ok_def base_ok_def)
  show "sent_ok n L lop' lc' 0 out"
    using client_replies_sent [OF cr] ok by (simp add: leader_ok_def base_ok_def)
qed

lemma votes_ok_Add:
  assumes "votes_ok n lop Q" and "quorum_wf Q" and "0 < i" "i < n" "unat (vs_opnum vs) \<le> lop i"
  shows "votes_ok n lop (QuorumSet_Add Q vs i m)"
  using assms unfolding votes_ok_def
  by (auto simp: GetMessages_Add quorum_wf_def split: if_splits)

lemma quorum_voted:
  assumes "votes_ok n lop Q'" and "GetMessages Q' vs = ms" and "f \<le> int (card (fst ` set ms))"
    and "omap_wf ms"
  shows "voted n f lop C (unat (vs_opnum vs))"
proof -
  have "0 < i \<and> i < n \<and> unat (vs_opnum vs) \<le> lop i" if "i \<in> fst ` set ms" for i
    using that assms(1,2) unfolding votes_ok_def okeys_map_of by blast
  then have "fst ` set ms \<subseteq> {0<..<n}" "\<forall>v\<in>fst ` set ms. unat (vs_opnum vs) \<le> lop v"
    by (meson greaterThanLessThan_iff subsetI, blast)
  then show ?thesis unfolding voted_def using assms(3) by blast
qed

lemma HandlePrepareOK_leader:
  assumes ok: "leader_ok cfg n lop r" and app: "app_total app"
    and m: "pok_view msg = 0" "0 < pok_replicaidx msg" "pok_replicaidx msg < n"
      "unat (pok_opnum msg) \<le> lop (pok_replicaidx msg)"
    and le: "lop (pok_replicaidx msg) \<le> length (ops r)"
  shows "leader_step cfg n lop lc r (HandlePrepareOK app r msg)"
proof -
  let ?vs = "Viewstamp (pok_view msg) (pok_opnum msg)" and ?i = "pok_replicaidx msg"
  let ?Q = "QuorumSet_Add (prepareOKQuorum r) ?vs ?i msg"
  let ?r = "r\<lparr>prepareOKQuorum := ?Q\<rparr>"
  have wf: "quorum_wf (prepareOKQuorum r)" "numRequired (prepareOKQuorum r) = cfg_f cfg"
    and votes: "votes_ok n lop (prepareOKQuorum r)" using ok by (simp_all add: leader_ok_def)
  have votes': "votes_ok n lop ?Q" using votes_ok_Add [OF votes wf(1) m(2,3)] m(4) by simp
  have lok: "log_ok ?r" using leader_ok_log [OF ok] by (simp add: log_ok_def)
  have ok1: "leader_ok cfg n lop ?r"
    using ok lok wf votes' quorum_wf_Add [OF wf(1)]
    by (intro leader_ok_frame [OF ok]) (simp_all add: leader_ok_def base_ok_def)
  have H: "HandlePrepareOK app r msg =
      (case CheckForQuorum_id ?Q ?vs of
         None \<Rightarrow> Inr (?r, [])
       | Some ms \<Rightarrow> obind (CommitUpTo app ?r (pok_opnum msg)) (\<lambda>(r2, out).
           if int (length ms) \<ge> QuorumSize (vr_config r2) then Inr (r2, out)
           else Inr (r2\<lparr>nullCommitTimeout := True\<rparr>, out @ [SendAll (VCommit (vr_view r2) (lastCommitted r2))])))"
    using ok leader_ok_AmLeader [OF ok] m(1)
    by (simp add: HandlePrepareOK_def leader_ok_def base_ok_def Let_def AddAndCheckForQuorum_def split: option.split)
  have lift: "leader_step cfg n lop lc r res" if "leader_step cfg n lop lc ?r res" for res
    using that by (simp add: leader_step_def)
  show ?thesis
  proof (cases "CheckForQuorum_id ?Q ?vs")
    case None
    then show ?thesis using H lift [OF leader_unchanged [OF ok1]] by simp
  next
    case (Some ms)
    then have q: "AddAndCheckForQuorum (prepareOKQuorum r) ?vs ?i msg = (Some ms, ?Q)"
      by (simp add: AddAndCheckForQuorum_def Let_def)
    note A = AddAndCheckForQuorum_Some [OF wf(1) q]
    have ms: "GetMessages ?Q ?vs = ms" using A(1) wf(1) by (simp add: GetMessages_Add quorum_wf_def)
    have vot: "voted n (cfg_f cfg) lop (unat (lastCommitted r)) (unat (pok_opnum msg))"
      using quorum_voted [OF votes' ms _ A(5)] A(2) wf(2) by simp
    have up: "pok_opnum msg \<le> lastOp ?r"
      using m(4) le log_ok_length [OF lok] by (simp add: word_le_nat_alt)
    obtain r2 out where c: "CommitUpTo app ?r (pok_opnum msg) = Inr (r2, out)" "committed app ?r (pok_opnum msg) r2 out"
      by (rule CommitUpTo_total [OF app lok up])
    note d = committed_leader [OF ok1 c(2)]
    have v2: "voted n (cfg_f cfg) lop (unat (lastCommitted r)) (unat (lastCommitted r2))"
      using vot d(3) by (simp add: max_def)
    let ?r3 = "r2\<lparr>nullCommitTimeout := True\<rparr>"
    have "log_ok ?r3" using leader_ok_log [OF d(1)] by (simp add: log_ok_def)
    then have ok3: "leader_ok cfg n lop ?r3"
      using d(1) by (intro leader_ok_frame [OF d(1)]) (simp_all add: leader_ok_def base_ok_def)
    show ?thesis
    proof (cases "int (length ms) \<ge> QuorumSize (vr_config r2)")
      case True
      then have "HandlePrepareOK app r msg = Inr (r2, out)" using H Some c(1) by simp
      then show ?thesis by (rule leader_stepI [OF _ d(1), where xs = "[]"]) (use d(2,3,6) v2 in simp_all)
    next
      case False
      then have "HandlePrepareOK app r msg = Inr (?r3, out @ [SendAll (VCommit (vr_view r2) (lastCommitted r2))])"
        using H Some c(1) by simp
      then show ?thesis by (rule leader_stepI [OF _ ok3, where xs = "[]"]) (use d(2,3,4,6) v2 in simp_all)
    qed
  qed
qed

lemma leader_react:
  assumes ok: "leader_ok cfg n lop r" and app: "app_total app"
    and lc: "lc 0 = unat (lastCommitted r)" "\<forall>j. 0 < j \<and> j < n \<longrightarrow> lc j \<le> length (ops r) \<and> lop j \<le> length (ops r)"
    and tgt: "vr_target ev = 0"
    and ev: "case ev of Deliver j k m \<Rightarrow> packet_ok n (ops r) lop lc (j, ReplicaAt k, m)
       | Fire k t \<Rightarrow> timer_active r t \<and> t \<noteq> ViewChangeTimer | ClientRequest c k q \<Rightarrow> lastOp r < - 3 | _ \<Rightarrow> True"
  shows "leader_step cfg n lop lc r (vr_react dead app r ev)"
proof -
  have base: "base_ok cfg (ops r) 0 r" "stamps (ops r)" using ok by (simp_all add: leader_ok_def)
  have view: "vr_view r = 0" using base by (simp add: base_ok_def)
  note same = leader_unchanged [OF ok, of lc]
  note lead = leader_ok_AmLeader [OF ok]
  show ?thesis
  proof (cases ev)
    case (ClientRequest c k q)
    then show ?thesis using HandleRequest_leader [OF ok app] ev by (simp add: vr_react_def VR_ReceiveMessage_def)
  next
    case (ClientUnlogged c k req)
    obtain res a where "VRUnloggedUpcall app (vr_app r) (rop req) = Inr (res, a)"
      using app_totalD(3) [OF app] by (metis prod.exhaust)
    then have R: "vr_react dead app r ev = Inr (r\<lparr>vr_app := a\<rparr>, [SendTo (ClientAt c) (VUnloggedReply res (clientreqid req))])"
      using ClientUnlogged base by (simp add: vr_react_def VR_ReceiveMessage_def VR_HandleUnloggedRequest_def base_ok_def)
    have "log_ok (r\<lparr>vr_app := a\<rparr>)" using leader_ok_log [OF ok] by (simp add: log_ok_def)
    then have "leader_ok cfg n lop (r\<lparr>vr_app := a\<rparr>)"
      using ok by (intro leader_ok_frame [OF ok]) (simp_all add: leader_ok_def base_ok_def)
    then show ?thesis by (rule leader_stepI [OF R, where xs = "[]"]) simp_all
  next
    case (Fire k t)
    then have R: "vr_react dead app r ev = timer_callback r t" by (simp add: vr_react_def)
    show ?thesis
    proof (cases t)
      case ViewChangeTimer
      then show ?thesis using ev Fire by simp
    next
      case NullCommitTimer
      then have "vr_react dead app r ev = Inr (r, [SendAll (VCommit 0 (lastCommitted r))])"
        using R lead view by (simp add: timer_callback_def SendNullCommit_def)
      then show ?thesis by (rule leader_stepI [OF _ ok, where xs = "[]"]) simp_all
    next
      case StateTransferTimer
      let ?r = "r\<lparr>lastRequestStateTransferView := 0, lastRequestStateTransferOpnum := 0\<rparr>"
      have "vr_react dead app r ev = Inr (?r, [])" using R StateTransferTimer by (simp add: timer_callback_def)
      moreover have "log_ok ?r" using leader_ok_log [OF ok] by (simp add: log_ok_def)
      then have "leader_ok cfg n lop ?r"
        using ok by (intro leader_ok_frame [OF ok]) (simp_all add: leader_ok_def base_ok_def)
      ultimately show ?thesis by (intro leader_stepI [where r' = ?r and xs = "[]" and out = "[]"]) simp_all
    next
      case ResendPrepareTimer
      then have p: "prep_ok (ops r) (lastPrepare r)" using ev Fire ok by (simp add: timer_active_def leader_ok_def)
      have "leader_step cfg n lop lc r (Inr (r, [SendAll (VPrepare (lastPrepare r))]))"
        by (rule leader_stepI [OF refl ok, where xs = "[]"]) (use p in simp_all)
      then show ?thesis using R ResendPrepareTimer lead same by (simp add: timer_callback_def ResendPrepare_def)
    next
      case CloseBatchTimer
      then have lt: "lastBatchEnd r < lastOp r" using ev Fire ok by (simp add: timer_active_def leader_ok_def)
      have ok0: "leader_ok cfg n lop (r\<lparr>closeBatchTimeout := closeBatchTimeout r\<rparr>)" using ok by simp
      obtain p where p: "CloseBatch r = Inr (r\<lparr>lastPrepare := p, lastBatchEnd := lastOp r,
            resendPrepareTimeout := True, closeBatchTimeout := False\<rparr>, [SendAll (VPrepare p)])"
          "leader_ok cfg n lop (r\<lparr>lastPrepare := p, lastBatchEnd := lastOp r,
            resendPrepareTimeout := True, closeBatchTimeout := False, nullCommitTimeout := nullCommitTimeout r\<rparr>)"
          "prep_ok (ops r) p"
        by (rule leader_ok_batch [OF ok0 lt])
      then have "vr_react dead app r ev = Inr (r\<lparr>lastPrepare := p, lastBatchEnd := lastOp r, resendPrepareTimeout := True,
          closeBatchTimeout := False, nullCommitTimeout := nullCommitTimeout r\<rparr>, [SendAll (VPrepare p)])"
        using R CloseBatchTimer by (simp add: timer_callback_def)
      then show ?thesis by (rule leader_stepI [OF _ p(2), where xs = "[]"]) (use p(3) in simp_all)
    qed
  next
    case (Deliver j k m)
    then have k: "k = 0" using tgt by (simp add: vr_target_def)
    have R: "vr_react dead app r ev = VR_ReceiveMessage dead app r (ReplicaAt j) m" using Deliver by (simp add: vr_react_def)
    have P: "packet_ok n (ops r) lop lc (j, ReplicaAt 0, m)" using ev Deliver k by simp
    show ?thesis
    proof (cases m)
      case (VPrepareOK p)
      then have p: "pok_view p = 0" "0 < pok_replicaidx p" "pok_replicaidx p < n"
        "unat (pok_opnum p) \<le> lop (pok_replicaidx p)" using P by simp_all
      then have "lop (pok_replicaidx p) \<le> length (ops r)" using lc(2) by blast
      from HandlePrepareOK_leader [OF ok app p this] show ?thesis
        using R VPrepareOK by (simp add: VR_ReceiveMessage_def)
    next
      case (VRequestStateTransfer v x)
      then have x: "v = 0" "0 < j" "j < n" "unat x \<le> lc j" using P by simp_all
      then have len: "unat x \<le> length (ops r)" using lc(2) by (meson order_trans)
      obtain es where h: "HandleRequestStateTransfer r (ReplicaAt j) 0 x =
          Inr (r, [SendTo (ReplicaAt j) (VStateTransfer \<lparr>st_view = 0, st_opnum = lastCommitted r, st_entries = es\<rparr>)])"
        "transfer_ok (ops r) (unat (lastCommitted r)) (lc j) \<lparr>st_view = 0, st_opnum = lastCommitted r, st_entries = es\<rparr>"
        by (rule state_transfer_message [OF base(1) view len base(2) x(4) order_refl])
      have "vr_react dead app r ev =
          Inr (r, [SendTo (ReplicaAt j) (VStateTransfer \<lparr>st_view = 0, st_opnum = lastCommitted r, st_entries = es\<rparr>)])"
        using R VRequestStateTransfer x(1) h(1) by (simp add: VR_ReceiveMessage_def)
      then show ?thesis by (rule leader_stepI [OF _ ok, where xs = "[]"]) (use h(2) x(2,3) in simp_all)
    qed (use P in simp_all)
  qed
qed

section \<open>The group\<close>

abbreviation lops :: "'s vr_sys \<Rightarrow> int \<Rightarrow> nat" where
  "lops s \<equiv> \<lambda>i. unat (lastOp (nodes s i))"

abbreviation lcs :: "'s vr_sys \<Rightarrow> int \<Rightarrow> nat" where
  "lcs s \<equiv> \<lambda>i. unat (lastCommitted (nodes s i))"

definition durable :: "int \<Rightarrow> int \<Rightarrow> (int \<Rightarrow> nat) \<Rightarrow> nat \<Rightarrow> bool" where
  "durable n f lop C \<longleftrightarrow> (\<forall>k. 1 \<le> k \<and> k \<le> C \<longrightarrow> f + 1 \<le> int (card {i \<in> {0..<n}. k \<le> lop i}))"

definition vr_norm :: "Configuration \<Rightarrow> int \<Rightarrow> 's vr_sys \<Rightarrow> bool" where
  "vr_norm cfg n s \<longleftrightarrow>
     0 < n \<and> leader_ok cfg n (lops s) (nodes s 0) \<and>
     (\<forall>i. 0 < i \<and> i < n \<longrightarrow> follower_ok cfg (ops (nodes s 0)) (lcs s 0) i (nodes s i)) \<and>
     (\<forall>p\<in>set (packets s). packet_ok n (ops (nodes s 0)) (lops s) (lcs s) p) \<and>
     durable n (cfg_f cfg) (lops s) (lcs s 0)"

lemma take_drop_append: "q + m \<le> length L \<Longrightarrow> take m (drop q (L @ xs)) = take m (drop q L)"
  by simp

lemma packet_ok_mono:
  assumes "packet_ok n L lop lc p" and "\<And>i. 0 \<le> i \<Longrightarrow> i < n \<Longrightarrow> lop i \<le> lop' i \<and> lc i \<le> lc' i" and "0 < n"
  shows "packet_ok n (L @ xs) lop' lc' p"
proof -
  have le: "lop i \<le> lop' i" "lc i \<le> lc' i" if "0 < i" "i < n" for i using assms(2) [of i] that by simp_all
  have le0: "lc 0 \<le> lc' 0" using assms(2) [of 0] assms(3) by simp
  obtain i d m where p: "p = (i, d, m)" by (cases p)
  show ?thesis
  proof (cases m)
    case (VPrepare msg)
    then show ?thesis using assms(1) p prep_ok_append by simp
  next
    case (VStateTransfer msg)
    then obtain j where j: "d = ReplicaAt j" "0 < j" "j < n" "transfer_ok L (lc 0) (lc j) msg"
      using assms(1) p by auto
    then obtain q where q: "st_view msg = 0" "unat (st_opnum msg) \<le> lc 0" "q \<le> lc j"
      "q + length (st_entries msg) \<le> length L" "unat (st_opnum msg) \<le> q + length (st_entries msg)"
      "map emcore (st_entries msg) = take (length (st_entries msg)) (drop q L)"
      unfolding transfer_ok_def by blast
    have "transfer_ok (L @ xs) (lc' 0) (lc' j) msg"
      unfolding transfer_ok_def using q le0 le(2) [OF j(2,3)] take_drop_append [OF q(4), of xs]
      by (intro conjI exI [of _ q]) simp_all
    then show ?thesis using j p VStateTransfer by simp
  next
    case (VPrepareOK msg)
    then show ?thesis using assms(1) p le(1) [of "pok_replicaidx msg"] by simp
  next
    case (VCommit v k)
    then show ?thesis using assms(1) p le0 by simp
  next
    case (VRequestStateTransfer v k)
    then show ?thesis using assms(1) p le(2) [of i] by simp
  qed (use assms(1) p in simp_all)
qed

lemma follower_ok_mono:
  assumes "follower_ok cfg L C i r" and "C \<le> C'"
  shows "follower_ok cfg (L @ xs) C' i r"
proof -
  have "on_log L r" using assms(1) by (simp add: follower_ok_def base_ok_def)
  then have "on_log (L @ xs) r" by (simp add: on_log_def)
  then show ?thesis using assms by (simp add: follower_ok_def base_ok_def)
qed

lemma leader_ok_mono:
  assumes "leader_ok cfg n lop r" and "\<And>i. 0 < i \<Longrightarrow> i < n \<Longrightarrow> lop i \<le> lop' i"
  shows "leader_ok cfg n lop' r"
proof -
  have "votes_ok n lop (prepareOKQuorum r)" using assms(1) by (simp add: leader_ok_def)
  then have "votes_ok n lop' (prepareOKQuorum r)"
    unfolding votes_ok_def using assms(2) by (meson order_trans)
  then show ?thesis using assms(1) by (simp add: leader_ok_def)
qed

lemma finite_range: "finite {i \<in> {0..<n :: int}. P i}"
  by (rule finite_subset [of _ "{0..<n}"]) auto

lemma voted_mono:
  assumes "voted n f lop C C'" and "\<And>i. lop i \<le> lop' i"
  shows "voted n f lop' C C'"
  using assms(1) order_trans [OF _ assms(2)] unfolding voted_def by blast

lemma durable_mono:
  assumes "durable n f lop C" and "\<And>i. 0 \<le> i \<Longrightarrow> i < n \<Longrightarrow> lop i \<le> lop' i"
  shows "durable n f lop' C"
  unfolding durable_def
proof (intro allI impI)
  fix k assume k: "1 \<le> k \<and> k \<le> C"
  have "{i \<in> {0..<n}. k \<le> lop i} \<subseteq> {i \<in> {0..<n}. k \<le> lop' i}" using assms(2) order_trans by fastforce
  from card_mono [OF finite_range this]
  show "f + 1 \<le> int (card {i \<in> {0..<n}. k \<le> lop' i})" using assms(1) k by (fastforce simp: durable_def)
qed

lemma durable_voted:
  assumes "durable n f lop C" and "voted n f lop C C'" and "C' \<le> lop 0" and "0 < n"
  shows "durable n f lop C'"
  unfolding durable_def
proof (intro allI impI)
  fix k assume k: "1 \<le> k \<and> k \<le> C'"
  show "f + 1 \<le> int (card {i \<in> {0..<n}. k \<le> lop i})"
  proof (cases "k \<le> C")
    case True
    then show ?thesis using assms(1) k by (simp add: durable_def)
  next
    case False
    then obtain V where V: "V \<subseteq> {0<..<n}" "f \<le> int (card V)" "\<forall>v\<in>V. C' \<le> lop v"
      using assms(2) k unfolding voted_def by auto
    have "finite V" using V(1) finite_subset by blast
    then have "card (insert 0 V) = card V + 1" using V(1) by (subst card_insert_disjoint) auto
    moreover have "insert 0 V \<subseteq> {i \<in> {0..<n}. k \<le> lop i}" using V k assms(3,4) by fastforce
    from card_mono [OF finite_range this] have "card (insert 0 V) \<le> card {i \<in> {0..<n}. k \<le> lop i}" .
    ultimately show ?thesis using V(2) by simp
  qed
qed

lemma vr_do_eq:
  "vr_react dead app (nodes s (vr_target ev)) ev = Inr (r, out) \<Longrightarrow>
   vr_do n dead app s ev = Inr \<lparr>nodes = (nodes s)(vr_target ev := r),
     packets = packets s @ concat (map (packets_of n (vr_target ev)) out)\<rparr>"
  by (simp add: vr_do_def)

lemma sent_ok_packets: "sent_ok n L lop lc i out \<longleftrightarrow> (\<forall>p\<in>set (concat (map (packets_of n i) out)). packet_ok n L lop lc p)"
  by (auto simp: sent_ok_def)

lemma vr_norm_lens:
  assumes "vr_norm cfg n s" and "0 \<le> i" "i < n"
  shows "lops s i \<le> length (ops (nodes s 0))" and "lcs s i \<le> lops s i"
proof -
  have "on_log (ops (nodes s 0)) (nodes s i)"
    using assms by (cases "i = 0") (auto simp: vr_norm_def leader_ok_def follower_ok_def base_ok_def)
  then show "lops s i \<le> length (ops (nodes s 0))" "lcs s i \<le> lops s i"
    by (simp_all add: on_log_def log_ok_def word_le_nat_alt)
qed

lemma vr_norm_leader_step:
  assumes norm: "vr_norm cfg n s" and tgt: "vr_target ev = 0"
    and step: "leader_step cfg n (lops s) (lcs s) (nodes s 0) (vr_react dead app (nodes s 0) ev)"
  shows "\<exists>s' xs. vr_do n dead app s ev = Inr s' \<and> vr_norm cfg n s' \<and> ops (nodes s' 0) = ops (nodes s 0) @ xs"
proof -
  obtain r out xs where r: "vr_react dead app (nodes s 0) ev = Inr (r, out)" "leader_ok cfg n (lops s) r"
      "ops r = ops (nodes s 0) @ xs" "lastCommitted (nodes s 0) \<le> lastCommitted r"
      "voted n (cfg_f cfg) (lops s) (lcs s 0) (unat (lastCommitted r))"
      "sent_ok n (ops r) ((lops s)(0 := unat (lastOp r))) ((lcs s)(0 := unat (lastCommitted r))) 0 out"
    using step unfolding leader_step_def by blast
  define s' where "s' = \<lparr>nodes = (nodes s)(0 := r), packets = packets s @ concat (map (packets_of n 0) out)\<rparr>"
  have n: "0 < n" using norm by (simp add: vr_norm_def)
  have lop: "lops s' = (lops s)(0 := unat (lastOp r))" and lc: "lcs s' = (lcs s)(0 := unat (lastCommitted r))"
    by (auto simp: s'_def)
  have L: "ops (nodes s' 0) = ops (nodes s 0) @ xs" using r(3) by (simp add: s'_def)
  have "length (ops (nodes s 0)) \<le> length (ops r)" using r(3) by simp
  then have lop0: "lops s 0 \<le> unat (lastOp r)"
    using log_ok_length [OF leader_ok_log [OF r(2)]] vr_norm_lens(1) [OF norm, of 0] n by simp
  have grow: "lops s i \<le> lops s' i \<and> lcs s i \<le> lcs s' i" for i
    using lop0 r(4) by (simp add: s'_def word_le_nat_alt)
  have "leader_ok cfg n (lops s') r" by (rule leader_ok_mono [OF r(2)]) (use grow in blast)
  moreover have "follower_ok cfg (ops (nodes s' 0)) (lcs s' 0) i (nodes s' i)" if "0 < i" "i < n" for i
  proof -
    have "follower_ok cfg (ops (nodes s 0)) (lcs s 0) i (nodes s i)" using norm that by (simp add: vr_norm_def)
    from follower_ok_mono [OF this, of "lcs s' 0" xs] show ?thesis
      unfolding L using grow [of 0] that by (simp add: s'_def)
  qed
  moreover have "packet_ok n (ops (nodes s' 0)) (lops s') (lcs s') p" if p: "p \<in> set (packets s')" for p
  proof (cases "p \<in> set (packets s)")
    case True
    then have "packet_ok n (ops (nodes s 0)) (lops s) (lcs s) p" using norm by (simp add: vr_norm_def)
    then show ?thesis unfolding L by (rule packet_ok_mono) (use grow n in auto)
  next
    case False
    then have "p \<in> set (concat (map (packets_of n 0) out))" using p by (simp add: s'_def)
    with r(6) [unfolded sent_ok_packets]
    have "packet_ok n (ops r) ((lops s)(0 := unat (lastOp r))) ((lcs s)(0 := unat (lastCommitted r))) p" by blast
    moreover have "ops (nodes s' 0) = ops r" by (simp add: s'_def)
    ultimately show ?thesis by (simp only: lop lc)
  qed
  moreover have "durable n (cfg_f cfg) (lops s') (lcs s' 0)"
  proof (rule durable_voted)
    show "durable n (cfg_f cfg) (lops s') (lcs s 0)"
      by (rule durable_mono [of n "cfg_f cfg" "lops s"]) (use norm grow in \<open>auto simp: vr_norm_def\<close>)
    have "voted n (cfg_f cfg) (lops s') (lcs s 0) (unat (lastCommitted r))"
      by (rule voted_mono [OF r(5)]) (use grow in blast)
    then show "voted n (cfg_f cfg) (lops s') (lcs s 0) (lcs s' 0)" by (simp add: s'_def)
    show "lcs s' 0 \<le> lops s' 0"
      using leader_ok_log [OF r(2)] by (simp add: s'_def log_ok_def word_le_nat_alt)
  qed (rule n)
  ultimately have "vr_norm cfg n s'" using n by (simp add: vr_norm_def s'_def)
  moreover have "vr_do n dead app s ev = Inr s'" using vr_do_eq [of dead app s ev r out n] r(1) tgt by (simp add: s'_def)
  ultimately show ?thesis using L by blast
qed

lemma vr_norm_follower_step:
  assumes norm: "vr_norm cfg n s" and tgt: "vr_target ev = i" "0 < i" "i < n"
    and step: "follower_step n cfg (ops (nodes s 0)) (lcs s 0) (lops s) (lcs s) i (nodes s i) (vr_react dead app (nodes s i) ev)"
  shows "\<exists>s' xs. vr_do n dead app s ev = Inr s' \<and> vr_norm cfg n s' \<and> ops (nodes s' 0) = ops (nodes s 0) @ xs"
proof -
  obtain r out where r: "vr_react dead app (nodes s i) ev = Inr (r, out)"
      "follower_ok cfg (ops (nodes s 0)) (lcs s 0) i r" "lastOp (nodes s i) \<le> lastOp r"
      "lastCommitted (nodes s i) \<le> lastCommitted r"
      "sent_ok n (ops (nodes s 0)) ((lops s)(i := unat (lastOp r))) ((lcs s)(i := unat (lastCommitted r))) i out"
    using step unfolding follower_step_def by blast
  define s' where "s' = \<lparr>nodes = (nodes s)(i := r), packets = packets s @ concat (map (packets_of n i) out)\<rparr>"
  have n: "0 < n" using norm by (simp add: vr_norm_def)
  have lop: "lops s' = (lops s)(i := unat (lastOp r))" and lc: "lcs s' = (lcs s)(i := unat (lastCommitted r))"
    by (auto simp: s'_def)
  have lead: "nodes s' 0 = nodes s 0" using tgt(2) by (simp add: s'_def)
  have grow: "lops s k \<le> lops s' k \<and> lcs s k \<le> lcs s' k" for k
    using r(3,4) by (simp add: s'_def word_le_nat_alt)
  have "leader_ok cfg n (lops s') (nodes s' 0)"
    unfolding lead by (rule leader_ok_mono [of _ _ "lops s"]) (use norm grow in \<open>auto simp: vr_norm_def\<close>)
  moreover have "follower_ok cfg (ops (nodes s' 0)) (lcs s' 0) k (nodes s' k)" if "0 < k" "k < n" for k
  proof (cases "k = i")
    case True
    then show ?thesis using r(2) lead by (simp add: s'_def)
  next
    case False
    then show ?thesis using norm that unfolding lead by (simp add: vr_norm_def s'_def)
  qed
  moreover have "packet_ok n (ops (nodes s' 0)) (lops s') (lcs s') p" if p: "p \<in> set (packets s')" for p
  proof (cases "p \<in> set (packets s)")
    case True
    then have "packet_ok n (ops (nodes s 0)) (lops s) (lcs s) p" using norm by (simp add: vr_norm_def)
    then have "packet_ok n (ops (nodes s 0) @ []) (lops s') (lcs s') p"
      by (rule packet_ok_mono) (use grow n in auto)
    then show ?thesis unfolding lead by simp
  next
    case False
    then have "p \<in> set (concat (map (packets_of n i) out))" using p by (simp add: s'_def)
    then show ?thesis using r(5) unfolding sent_ok_packets lop lc lead by blast
  qed
  moreover have "durable n (cfg_f cfg) (lops s') (lcs s' 0)"
    unfolding lead by (rule durable_mono [of n "cfg_f cfg" "lops s"]) (use norm grow in \<open>auto simp: vr_norm_def\<close>)
  ultimately have "vr_norm cfg n s'" using n by (simp add: vr_norm_def)
  moreover have "vr_do n dead app s ev = Inr s'" using vr_do_eq [of dead app s ev r out n] r(1) tgt by (simp add: s'_def)
  moreover have "ops (nodes s' 0) = ops (nodes s 0) @ []" unfolding lead by simp
  ultimately show ?thesis by blast
qed

lemma vr_norm_step:
  assumes norm: "vr_norm cfg n s" and app: "app_total app" and en: "vr_enabled n s ev"
    and vc: "\<And>i. ev \<noteq> Fire i ViewChangeTimer"
  shows "\<exists>s' xs. vr_do n dead app s ev = Inr s' \<and> vr_norm cfg n s' \<and> ops (nodes s' 0) = ops (nodes s 0) @ xs"
proof -
  let ?i = "vr_target ev"
  have i: "0 \<le> ?i" "?i < n" using en by (auto simp: vr_enabled_def vr_target_def split: vr_event.splits)
  have ev: "case ev of Deliver j k m \<Rightarrow> packet_ok n (ops (nodes s 0)) (lops s) (lcs s) (j, ReplicaAt k, m)
     | Fire k t \<Rightarrow> timer_active (nodes s ?i) t \<and> t \<noteq> ViewChangeTimer
     | ClientRequest c k q \<Rightarrow> lastOp (nodes s ?i) < - 3 | _ \<Rightarrow> True"
    using en vc norm by (cases ev) (auto simp: vr_enabled_def vr_target_def vr_norm_def)
  have lens: "\<forall>j. 0 < j \<and> j < n \<longrightarrow> lcs s j \<le> length (ops (nodes s 0)) \<and> lops s j \<le> length (ops (nodes s 0))"
    using vr_norm_lens [OF norm] by (meson less_imp_le order_trans)
  have lead: "leader_ok cfg n (lops s) (nodes s 0)" using norm by (simp add: vr_norm_def)
  show ?thesis
  proof (cases "?i = 0")
    case True
    have ev': "case ev of Deliver j k m \<Rightarrow> packet_ok n (ops (nodes s 0)) (lops s) (lcs s) (j, ReplicaAt k, m)
       | Fire k t \<Rightarrow> timer_active (nodes s 0) t \<and> t \<noteq> ViewChangeTimer
       | ClientRequest c k q \<Rightarrow> lastOp (nodes s 0) < - 3 | _ \<Rightarrow> True"
      using ev unfolding True .
    show ?thesis
      by (rule vr_norm_leader_step [OF norm True], rule leader_react [OF lead app refl lens True ev'])
  next
    case False
    then have pos: "0 < ?i" using i(1) by simp
    have fol: "follower_ok cfg (ops (nodes s 0)) (lcs s 0) ?i (nodes s ?i)" using norm pos i(2) by (simp add: vr_norm_def)
    have st: "stamps (ops (nodes s 0))" "client_sorted (map snd (ops (nodes s 0)))"
      using lead by (simp_all add: leader_ok_def)
    have ev': "case ev of Deliver j k m \<Rightarrow> packet_ok n (ops (nodes s 0)) (lops s) (lcs s) (j, ReplicaAt k, m)
       | Fire k t \<Rightarrow> timer_active (nodes s ?i) t \<and> t \<noteq> ViewChangeTimer | _ \<Rightarrow> True"
      using ev by (cases ev) simp_all
    have lens': "\<forall>j. 0 < j \<and> j < n \<longrightarrow> lcs s j \<le> length (ops (nodes s 0))" using lens by blast
    show ?thesis
      by (rule vr_norm_follower_step [OF norm refl pos i(2)])
        (rule follower_react [OF fol pos i(2) app st refl refl lens' refl ev'])
  qed
qed

lemma vr_norm_start:
  assumes "0 < n"
  shows "vr_norm cfg n (vr_start cfg bs a)"
proof -
  have wf: "log_wf \<lparr>entries = [], initialHash = EMPTY_HASH, log_start = 1, useHash = False\<rparr>"
    by (simp add: log_wf_def)
  have on: "on_log [] (VRReplica_new cfg i bs a)" for i
    using wf by (simp add: on_log_def log_ok_def VRReplica_new_def Let_def)
  have "leader_ok cfg n lop (VRReplica_new cfg 0 bs a)" for lop
    using on [of 0] by (simp add: leader_ok_def base_ok_def VRReplica_new_def Let_def AmLeader_def stamps_def
        client_sorted_def tbl_ge_def votes_ok_def QuorumSet_new_def GetMessages_def quorum_wf_def QuorumSize_def)
  moreover have "follower_ok cfg [] 0 i (VRReplica_new cfg i bs a)" if "0 < i" for i
    using on [of i] that by (simp add: follower_ok_def base_ok_def VRReplica_new_def Let_def AmLeader_def tbl_le_def)
  moreover have "ops (VRReplica_new cfg i bs a) = []" "lastCommitted (VRReplica_new cfg i bs a) = 0" for i
    by (simp_all add: VRReplica_new_def Let_def)
  ultimately show ?thesis using assms by (simp add: vr_norm_def vr_start_def durable_def)
qed

lemma vr_norm_run:
  "vr_run n dead app s evs = Some s' \<Longrightarrow> vr_norm cfg n s \<Longrightarrow> app_total app \<Longrightarrow>
   \<forall>i. Fire i ViewChangeTimer \<notin> set evs \<Longrightarrow> vr_norm cfg n s'"
proof (induction evs arbitrary: s)
  case (Cons ev evs)
  obtain s1 where s1: "vr_enabled n s ev" "vr_do n dead app s ev = Inr s1" "vr_run n dead app s1 evs = Some s'"
    using Cons.prems(1) by (auto split: if_splits sum.splits)
  have "\<And>i. ev \<noteq> Fire i ViewChangeTimer" using Cons.prems(4) by auto
  from vr_norm_step [OF Cons.prems(2,3) s1(1) this, of dead] s1(2) have "vr_norm cfg n s1" by auto
  then show ?case using Cons.IH [OF s1(3)] Cons.prems(3,4) by simp
qed simp

lemma vr_norm_reached:
  assumes "vr_run (cfg_n cfg) dead app (vr_start cfg bs a) evs = Some s" and "0 < cfg_n cfg"
    and "\<forall>i. Fire i ViewChangeTimer \<notin> set evs"
  shows "vr_norm cfg (cfg_n cfg) s"
proof (rule vr_norm_run [OF vr_run_le [OF assms(1) app_le_total] vr_norm_start [OF assms(2)] _ assms(3)])
  show "app_total (total_app app)" by (auto simp: app_total_def total_app_def split: sum.split)
qed

lemma vr_norm_on_log:
  assumes "vr_norm cfg n s" and "0 \<le> i" "i < n"
  shows "on_log (ops (nodes s 0)) (nodes s i)"
  using assms by (cases "i = 0") (auto simp: vr_norm_def leader_ok_def follower_ok_def base_ok_def)

lemma ex_total: "app_total echo_app"
  by (auto simp: app_total_def echo_app_def)

definition ex_prepare :: VRMessage where
  "ex_prepare = VPrepare \<lparr>pm_view = 0, pm_opnum = 1, pm_batchstart = 1, pm_request = [req_A]\<rparr>"

definition ex_normal_run :: "vr_event list" where
  "ex_normal_run = [ClientRequest 1 0 req_A, Deliver 0 1 ex_prepare, Deliver 1 0 (ex_pok 0 1)]"

definition ex_vr_sys :: "string list vr_sys" where
  "ex_vr_sys = the (vr_run 3 Inr echo_app (vr_start (group_of 1) 1 []) ex_normal_run)"

lemma ex_vr_sys_some: "vr_run 3 Inr echo_app (vr_start (group_of 1) 1 []) ex_normal_run \<noteq> None"
  by code_simp

lemma ex_vr_run: "vr_run (cfg_n (group_of 1)) Inr echo_app (vr_start (group_of 1) 1 []) ex_normal_run = Some ex_vr_sys"
  using ex_vr_sys_some by (simp add: ex_vr_sys_def Configuration_of_def)

lemma ex_vr_sys_state: "lastCommitted (nodes ex_vr_sys 0) = 1 \<and> lastOp (nodes ex_vr_sys 0) = 1 \<and> lastOp (nodes ex_vr_sys 1) = 1"
  by code_simp

lemma ex_vr_sys_enabled: "vr_enabled 3 ex_vr_sys (Deliver 0 1 (VCommit 0 1))"
  by code_simp

text \<open>
  C3. Normal operation is safe: as long as no view-change timer fires, whatever the network loses,
  repeats or reorders, no two logs ever hold different requests under the same number, and
  every operation that any replica has committed is in the logs of at least \<open>f + 1\<close> replicas.
\<close>

theorem vr_normal_safe:
  assumes "vr_run (cfg_n cfg) dead app (vr_start cfg bs a) evs = Some s" and "0 < cfg_n cfg"
    and "\<forall>i. Fire i ViewChangeTimer \<notin> set evs" and "0 \<le> i" "i < cfg_n cfg" "0 \<le> j" "j < cfg_n cfg"
  shows "(\<forall>k. k < unat (lastOp (nodes s i)) \<and> k < unat (lastOp (nodes s j)) \<longrightarrow>
       le_request (entries (vr_log (nodes s i)) ! k) = le_request (entries (vr_log (nodes s j)) ! k)) \<and>
    (\<forall>k. 1 \<le> k \<and> k \<le> unat (lastCommitted (nodes s i)) \<longrightarrow>
       cfg_f cfg + 1 \<le> int (card {m \<in> {0..<cfg_n cfg}. k \<le> unat (lastOp (nodes s m))}))"
proof -
  note norm = vr_norm_reached [OF assms(1-3)]
  have "core (entries (vr_log (nodes s i)) ! k) = core (entries (vr_log (nodes s j)) ! k)"
    if "k < unat (lastOp (nodes s i))" "k < unat (lastOp (nodes s j))" for k
    using on_log_nth [OF vr_norm_on_log [OF norm assms(4,5)] that(1)]
      on_log_nth [OF vr_norm_on_log [OF norm assms(6,7)] that(2)] by simp
  moreover have "lcs s i \<le> lcs s 0"
    using norm assms(4,5) by (cases "i = 0") (auto simp: vr_norm_def follower_ok_def)
  then have "cfg_f cfg + 1 \<le> int (card {m \<in> {0..<cfg_n cfg}. k \<le> lops s m})" if "1 \<le> k" "k \<le> lcs s i" for k
    using norm that unfolding vr_norm_def durable_def by (meson order_trans)
  ultimately show ?thesis by (auto simp: core_def)
qed

theorem vr_normal_safe_witness:
  "le_request (entries (vr_log (nodes ex_vr_sys 0)) ! 0) = le_request (entries (vr_log (nodes ex_vr_sys 1)) ! 0) \<and>
   2 \<le> int (card {m \<in> {0..<3}. 1 \<le> unat (lastOp (nodes ex_vr_sys m))})"
proof -
  have run: "\<forall>i. Fire i ViewChangeTimer \<notin> set ex_normal_run" by (simp add: ex_normal_run_def)
  have n: "0 < cfg_n (group_of 1)" "(1 :: int) < cfg_n (group_of 1)" "cfg_n (group_of 1) = 3" "cfg_f (group_of 1) = 1"
    by (simp_all add: Configuration_of_def)
  note safe = vr_normal_safe [OF ex_vr_run n(1) run order_refl n(1) zero_le_one n(2)]
  have st: "0 < unat (lastOp (nodes ex_vr_sys 0))" "0 < unat (lastOp (nodes ex_vr_sys 1))"
    "1 \<le> unat (lastCommitted (nodes ex_vr_sys 0))" using ex_vr_sys_state by simp_all
  from conjunct1 [OF safe] st(1,2)
  have "le_request (entries (vr_log (nodes ex_vr_sys 0)) ! 0) = le_request (entries (vr_log (nodes ex_vr_sys 1)) ! 0)" by blast
  moreover have "1 + 1 \<le> int (card {m \<in> {0..<3}. 1 \<le> unat (lastOp (nodes ex_vr_sys m))})"
    using conjunct2 [OF safe] st(3) unfolding n(3,4) by blast
  ultimately show ?thesis by simp
qed

text \<open>
  C25. No replica faults in normal operation: in every state such a run reaches, every packet in
  the network, every client request and every timer other than the view-change timer is handled
  without a failed assertion, a panic or undefined behaviour.
\<close>

theorem vr_normal_no_fault:
  assumes "vr_run (cfg_n cfg) dead app (vr_start cfg bs a) evs = Some s" and "0 < cfg_n cfg" and "app_total app"
    and "\<forall>i. Fire i ViewChangeTimer \<notin> set evs" and "vr_enabled (cfg_n cfg) s ev"
    and "\<forall>i. ev \<noteq> Fire i ViewChangeTimer"
  shows "\<exists>s'. vr_do (cfg_n cfg) dead app s ev = Inr s'"
proof -
  have "vr_norm cfg (cfg_n cfg) s" by (rule vr_norm_reached [OF assms(1,2,4)])
  from vr_norm_step [OF this assms(3,5)] assms(6) show ?thesis by blast
qed

theorem vr_normal_no_fault_witness:
  "\<exists>s'. vr_do (cfg_n (group_of 1)) Inr echo_app ex_vr_sys (Deliver 0 1 (VCommit 0 1)) = Inr s'"
proof -
  have "\<forall>i. Fire i ViewChangeTimer \<notin> set ex_normal_run" by (simp add: ex_normal_run_def)
  moreover have "0 < cfg_n (group_of 1)" by (simp add: Configuration_of_def)
  moreover have "vr_enabled (cfg_n (group_of 1)) ex_vr_sys (Deliver 0 1 (VCommit 0 1))"
    using ex_vr_sys_enabled by (simp add: Configuration_of_def)
  ultimately show ?thesis by (intro vr_normal_no_fault [OF ex_vr_run _ ex_total]) simp_all
qed

end
