(* ===== verification/Vr_State.thy ===== *)
theory Vr_State
  imports Vr_Normal
begin

text \<open>
  State machine replication: the state of the application of a replica is the result of executing
  its committed operations in order. A step of a replica changes the application only by committing
  (\<open>moved\<close>), in every handler, the view change included; together with the agreement of the logs in
  normal operation this makes the replicas copies of one another. It holds for applications whose
  upcalls at the leader and for unlogged requests leave the state alone, such as the timestamp
  server; an application that changes its state in the upcall at the leader gives this up itself.
\<close>

section \<open>Steps change the application by committing\<close>

definition req_at :: "Log \<Rightarrow> opnum_t \<Rightarrow> OpRequest" where
  "req_at l n =
     (case Log_Find l n of Inr (Some i) \<Rightarrow> le_request (entries l ! i) | _ \<Rightarrow> \<lparr>rop = '''', clientid = 0, clientreqid = 0\<rparr>)"

definition reqs_between :: "Log \<Rightarrow> nat \<Rightarrow> nat \<Rightarrow> OpRequest list" where
  "reqs_between l a b = map (\<lambda>n. req_at l (of_nat n)) [Suc a..<Suc b]"

text \<open>
  The replies a replica keeps for repetition and those it sends. A reply under number 0 is one that
  the leader gives without replication, when the upcall at the leader asks for it.
\<close>

definition cached :: "'s VRReplica \<Rightarrow> ReplyMessage set" where
  "cached r = {m. \<exists>c e. clientTable r c = Some e \<and> replied e \<and> cte_reply e = m}"

definition replies_of :: "VRMessage \<Rightarrow> ReplyMessage set" where
  "replies_of w = (case w of VReply m \<Rightarrow> {m} | _ \<Rightarrow> {})"

fun replies_in :: "vr_out list \<Rightarrow> ReplyMessage set" where
  "replies_in [] = {}"
| "replies_in (SendTo a w # xs) = replies_of w \<union> replies_in xs"
| "replies_in (SendReplica j w # xs) = replies_of w \<union> replies_in xs"
| "replies_in (SendAll w # xs) = replies_of w \<union> replies_in xs"

lemma replies_of_simps [simp]:
  "replies_of (VReply m) = {m}" "replies_of (VUnloggedReply z q) = {}" "replies_of (VPrepare p) = {}"
  "replies_of (VPrepareOK p') = {}" "replies_of (VCommit v n) = {}" "replies_of (VRequestStateTransfer v n) = {}"
  "replies_of (VStateTransfer t) = {}" "replies_of (VStartViewChange c) = {}" "replies_of (VDoViewChange d) = {}"
  "replies_of (VStartView sv) = {}"
  by (simp_all add: replies_of_def)

lemma replies_in_append [simp]: "replies_in (xs @ ys) = replies_in xs \<union> replies_in ys"
  by (induction xs rule: replies_in.induct) auto

lemma packets_of_reply:
  "x \<in> set out \<Longrightarrow> (j, d, VReply m) \<in> set (packets_of n i x) \<Longrightarrow> m \<in> replies_in out"
  by (induction out rule: replies_in.induct) auto

definition refused :: "'s VRApp \<Rightarrow> ReplyMessage \<Rightarrow> bool" where
  "refused app m \<longleftrightarrow> rm_opnum m = 0 \<and> (\<exists>a n op p. LeaderUpcall app a n op = Inr (False, p))"

definition answers :: "'s VRApp \<Rightarrow> 's \<Rightarrow> opnum_t \<Rightarrow> OpRequest \<Rightarrow> ReplyMessage \<Rightarrow> bool" where
  "answers app a n req m \<longleftrightarrow> rm_opnum m = n \<and> rm_clientreqid m = clientreqid req \<and>
     (\<exists>a'. ReplicaUpcall app a n (rop req) = Inr (rm_reply m, a'))"

definition produced :: "'s VRApp \<Rightarrow> 's VRReplica \<Rightarrow> Log \<Rightarrow> opnum_t \<Rightarrow> ReplyMessage \<Rightarrow> bool" where
  "produced app r l lc m \<longleftrightarrow>
     (\<exists>k st. unat (lastCommitted r) < k \<and> k \<le> unat lc \<and>
        replay app (vr_app r) (lastCommitted r + 1) (reqs_between l (unat (lastCommitted r)) (k - 1)) = Inr st \<and>
        answers app st (of_nat k) (req_at l (of_nat k)) m)"

definition moved :: "'s VRApp \<Rightarrow> 's VRReplica \<Rightarrow> 's VRReplica \<Rightarrow> vr_out list \<Rightarrow> bool" where
  "moved app r r' out \<longleftrightarrow> lastCommitted r \<le> lastCommitted r' \<and>
     replay app (vr_app r) (lastCommitted r + 1)
       (reqs_between (vr_log r') (unat (lastCommitted r)) (unat (lastCommitted r'))) = Inr (vr_app r') \<and>
     (\<forall>m\<in>cached r' \<union> replies_in out.
        m \<in> cached r \<or> refused app m \<or> produced app r (vr_log r') (lastCommitted r') m)"

definition same_log :: "Log \<Rightarrow> Log \<Rightarrow> bool" where
  "same_log l l' \<longleftrightarrow> log_start l' = log_start l \<and> map core (entries l') = map core (entries l)"

lemma Log_Find_index:
  assumes "Log_Find l n = Inr (Some i)" and "length (entries l) < 2 ^ 64"
  shows "i < length (entries l)"
proof -
  obtain m where m: "length (entries l) = Suc m"
    using assms(1) by (cases "entries l") (auto simp: Log_Find_def)
  have "unat (of_nat m :: u64) = m" using assms(2) m by (simp add: unat_of_nat take_bit_nat_eq_self)
  moreover have "n - log_start l \<le> of_nat m" "i = unat (n - log_start l)"
    using assms(1) m by (auto simp: Log_Find_def Let_def not_less split: if_splits)
  ultimately show ?thesis using m by (simp add: word_le_nat_alt)
qed

lemma Log_Find_opnum: "Log_Find l n = Inr (Some i) \<Longrightarrow> vs_opnum (le_viewstamp (entries l ! i)) = n"
  by (auto simp: Log_Find_def Let_def split: if_splits)

lemma same_log_length: "same_log a b \<Longrightarrow> length (entries b) = length (entries a)"
  by (metis length_map same_log_def)

lemma same_log_core:
  assumes "same_log l l'" and "i < length (entries l)"
  shows "le_viewstamp (entries l' ! i) = le_viewstamp (entries l ! i)"
    and "le_request (entries l' ! i) = le_request (entries l ! i)"
proof -
  have "map core (entries l') ! i = map core (entries l) ! i" using assms(1) by (simp add: same_log_def)
  then have "core (entries l' ! i) = core (entries l ! i)"
    using assms(2) same_log_length [OF assms(1)] by simp
  then show "le_viewstamp (entries l' ! i) = le_viewstamp (entries l ! i)"
    and "le_request (entries l' ! i) = le_request (entries l ! i)" by (simp_all add: core_def)
qed

lemma same_log_Find:
  assumes "same_log l l'" and "length (entries l) < 2 ^ 64"
  shows "Log_Find l' n = Log_Find l n"
proof -
  note len = same_log_length [OF assms(1)] and nth = same_log_core(1) [OF assms(1)]
  have e: "entries l' = [] \<longleftrightarrow> entries l = []" using len by (metis length_0_conv)
  have st: "log_start l' = log_start l" using assms(1) by (simp add: same_log_def)
  show ?thesis
  proof (cases "entries l = [] \<or> n < log_start l \<or> n - log_start l > of_nat (length (entries l)) - 1")
    case True
    then show ?thesis by (auto simp: Log_Find_def e st len)
  next
    case False
    then obtain m where m: "length (entries l) = Suc m" by (cases "entries l") auto
    have "unat (of_nat m :: u64) = m" using assms(2) m by (simp add: unat_of_nat take_bit_nat_eq_self)
    then have "unat (n - log_start l) < length (entries l)" using False m by (simp add: not_less word_le_nat_alt)
    from nth [OF this] show ?thesis by (simp add: Log_Find_def e st len Let_def)
  qed
qed

lemma same_log_req_at:
  assumes "same_log l l'" and "length (entries l) < 2 ^ 64"
  shows "req_at l' = req_at l"
proof
  fix n
  have "le_request (entries l' ! i) = le_request (entries l ! i)" if "Log_Find l n = Inr (Some i)" for i
    by (rule same_log_core(2) [OF assms(1) Log_Find_index [OF that assms(2)]])
  then show "req_at l' n = req_at l n"
    using same_log_Find [OF assms, of n] by (auto simp: req_at_def split: sum.split option.split)
qed

lemma commit_next_moves:
  assumes "commit_next app r = Inr (r', out)" and "length (entries (vr_log r)) < 2 ^ 64"
  shows "same_log (vr_log r) (vr_log r')" and "lastCommitted r' = lastCommitted r + 1"
    and "\<exists>res. ReplicaUpcall app (vr_app r) (lastCommitted r + 1) (rop (req_at (vr_log r) (lastCommitted r + 1))) =
      Inr (res, vr_app r')"
    and "\<forall>m\<in>cached r' \<union> replies_in out.
      m \<in> cached r \<or> answers app (vr_app r) (lastCommitted r + 1) (req_at (vr_log r) (lastCommitted r + 1)) m"
proof -
  obtain i where i: "Log_Find (vr_log r) (lastCommitted r + 1) = Inr (Some i)"
    using assms(1) by (fastforce simp: commit_next_def Let_def split: option.splits)
  define entry where "entry = entries (vr_log r) ! i"
  have req: "req_at (vr_log r) (lastCommitted r + 1) = le_request entry" using i by (simp add: req_at_def entry_def)
  have num: "vs_opnum (le_viewstamp entry) = lastCommitted r + 1"
    using i unfolding entry_def by (rule Log_Find_opnum)
  obtain res a ok l where a: "ReplicaUpcall app (vr_app r) (lastCommitted r + 1) (rop (le_request entry)) = Inr (res, a)"
    and l: "Log_SetStatus (vr_log r) (lastCommitted r + 1) LOG_STATE_COMMITTED = Inr (ok, l)"
    using assms(1) i by (fastforce simp: commit_next_def Let_def entry_def split: option.splits)
  define reply where "reply = \<lparr>rm_view = vs_view (le_viewstamp entry), rm_opnum = vs_opnum (le_viewstamp entry),
    rm_clientreqid = clientreqid (le_request entry), rm_reply = res\<rparr>"
  define cte where "cte = table_entry r (clientid (le_request entry))"
  define cte' where "cte' = (if lastReqId cte \<le> clientreqid (le_request entry)
    then \<lparr>lastReqId = clientreqid (le_request entry), replied = True, cte_reply = reply\<rparr> else cte)"
  have r': "r' = r\<lparr>lastCommitted := lastCommitted r + 1, vr_app := a, vr_log := l,
      clientTable := (clientTable r)(clientid (le_request entry) \<mapsto> cte')\<rparr>"
    and out: "out = (case clientAddresses r (clientid (le_request entry)) of None \<Rightarrow> [] | Some addr \<Rightarrow> [SendTo addr (VReply reply)])"
    using assms(1) i a l
    by (auto simp: commit_next_def Let_def entry_def reply_def cte_def cte'_def table_entry_def cong: if_cong option.case_cong)
  have ans: "answers app (vr_app r) (lastCommitted r + 1) (le_request entry) reply"
    using a num by (simp add: answers_def reply_def)
  show "lastCommitted r' = lastCommitted r + 1" by (simp add: r')
  show "\<exists>res. ReplicaUpcall app (vr_app r) (lastCommitted r + 1) (rop (req_at (vr_log r) (lastCommitted r + 1))) =
      Inr (res, vr_app r')" using a by (simp add: req r')
  show "same_log (vr_log r) (vr_log r')"
  proof -
    have "vr_log r' = (vr_log r)\<lparr>entries := (entries (vr_log r))[i := (entries (vr_log r) ! i)\<lparr>le_state := LOG_STATE_COMMITTED\<rparr>]\<rparr>"
      using l i by (auto simp: Log_SetStatus_def r')
    moreover have "core ((entries (vr_log r) ! i)\<lparr>le_state := LOG_STATE_COMMITTED\<rparr>) = map core (entries (vr_log r)) ! i"
      using Log_Find_index [OF i assms(2)] by (simp add: core_def)
    ultimately show ?thesis by (simp add: same_log_def map_update)
  qed
  have "m \<in> cached r \<or> m = reply" if "m \<in> cached r'" for m
    using that by (auto simp: cached_def r' cte'_def cte_def table_entry_def ClientTableEntry_empty_def
        split: if_splits option.splits)
  moreover have "m = reply" if "m \<in> replies_in out" for m
    using that by (auto simp: out split: option.splits)
  ultimately show "\<forall>m\<in>cached r' \<union> replies_in out.
      m \<in> cached r \<or> answers app (vr_app r) (lastCommitted r + 1) (req_at (vr_log r) (lastCommitted r + 1)) m"
    unfolding req using ans by blast
qed

lemma same_log_trans: "same_log a b \<Longrightarrow> same_log b c \<Longrightarrow> same_log a c"
  by (simp add: same_log_def)

lemma reqs_between_Cons:
  assumes "unat n < m"
  shows "reqs_between l (unat n) m = req_at l (n + 1) # reqs_between l (Suc (unat n)) m"
proof -
  have "[Suc (unat n)..<Suc m] = Suc (unat n) # [Suc (Suc (unat n))..<Suc m]" using assms by (simp add: upt_conv_Cons del: upt_Suc)
  moreover have "(of_nat (Suc (unat n)) :: u64) = n + 1" by (simp add: add.commute)
  ultimately show ?thesis by (simp add: reqs_between_def add.commute del: upt_Suc)
qed

lemma produced_later:
  assumes p: "produced app r1 l lc m" and lc: "lastCommitted r1 = lastCommitted r + 1" and lt: "lastCommitted r < lastCommitted r1"
    and up: "ReplicaUpcall app (vr_app r) (lastCommitted r + 1) (rop (req_at l (lastCommitted r + 1))) = Inr (res, vr_app r1)"
  shows "produced app r l lc m"
proof -
  have u: "unat (lastCommitted r1) = Suc (unat (lastCommitted r))" using u64_less_Suc [OF lt] lc by simp
  from p obtain k st where k: "unat (lastCommitted r1) < k" "k \<le> unat lc"
      "replay app (vr_app r1) (lastCommitted r1 + 1) (reqs_between l (unat (lastCommitted r1)) (k - 1)) = Inr st"
      "answers app st (of_nat k) (req_at l (of_nat k)) m" by (auto simp: produced_def)
  have "unat (lastCommitted r) < k - 1" using k(1) u by simp
  from reqs_between_Cons [OF this, of l]
  have "replay app (vr_app r) (lastCommitted r + 1) (reqs_between l (unat (lastCommitted r)) (k - 1)) = Inr st"
    using up k(3) lc u by simp
  then show ?thesis unfolding produced_def using k u by (intro exI [of _ k] exI [of _ st]) simp
qed

lemma CommitUpTo_moved:
  "CommitUpTo app r upTo = Inr (r', out) \<Longrightarrow> length (entries (vr_log r)) < 2 ^ 64 \<Longrightarrow>
   moved app r r' out \<and> same_log (vr_log r) (vr_log r')"
proof (induction app r upTo arbitrary: out rule: CommitUpTo.induct)
  case (1 app r upTo)
  show ?case
  proof (cases "lastCommitted r < upTo")
    case True
    obtain r1 out1 out2 where n: "commit_next app r = Inr (r1, out1)" and c: "CommitUpTo app r1 upTo = Inr (r', out2)"
      and out: "out = out1 @ out2" using "1.prems"(1) True by (auto simp: CommitUpTo.simps [of app r])
    note m = commit_next_moves [OF n "1.prems"(2)]
    have IH: "moved app r1 r' out2" "same_log (vr_log r1) (vr_log r')"
      using "1.IH" [OF True n refl c] "1.prems"(2) same_log_length [OF m(1)] by auto
    have sl: "same_log (vr_log r) (vr_log r')" by (rule same_log_trans [OF m(1) IH(2)])
    note at = same_log_req_at [OF sl "1.prems"(2)]
    have u: "unat (lastCommitted r + 1) = Suc (unat (lastCommitted r))" using u64_less_Suc [OF True] by simp
    have le: "lastCommitted r + 1 \<le> lastCommitted r'" using IH(1) m(2) by (simp add: moved_def)
    then have le': "Suc (unat (lastCommitted r)) \<le> unat (lastCommitted r')" using u by (simp add: word_le_nat_alt)
    obtain res where res: "ReplicaUpcall app (vr_app r) (lastCommitted r + 1)
        (rop (req_at (vr_log r') (lastCommitted r + 1))) = Inr (res, vr_app r1)" using m(3) at by auto
    have "reqs_between (vr_log r') (unat (lastCommitted r)) (unat (lastCommitted r')) =
        req_at (vr_log r') (lastCommitted r + 1) #
        reqs_between (vr_log r') (Suc (unat (lastCommitted r))) (unat (lastCommitted r'))"
      using le' by (simp add: reqs_between_Cons)
    then have "replay app (vr_app r) (lastCommitted r + 1)
        (reqs_between (vr_log r') (unat (lastCommitted r)) (unat (lastCommitted r'))) = Inr (vr_app r')"
      using IH(1) m(2) res by (simp add: moved_def u)
    moreover have "lastCommitted r \<le> lastCommitted r'" using le' by (simp add: word_le_nat_alt)
    moreover have "produced app r (vr_log r') (lastCommitted r') w"
      if "answers app (vr_app r) (lastCommitted r + 1) (req_at (vr_log r) (lastCommitted r + 1)) w" for w
    proof -
      have "(of_nat (Suc (unat (lastCommitted r))) :: u64) = lastCommitted r + 1" by (simp add: add.commute)
      then show ?thesis unfolding produced_def using that le' at
        by (intro exI [of _ "Suc (unat (lastCommitted r))"] exI [of _ "vr_app r"]) (simp add: reqs_between_def add.commute)
    qed
    moreover have "produced app r (vr_log r') (lastCommitted r') w"
      if "produced app r1 (vr_log r') (lastCommitted r') w" for w
      by (rule produced_later [OF that m(2) _ res]) (simp add: m(2) word_less_nat_alt u)
    ultimately show ?thesis
      using IH(1) m(4) sl unfolding moved_def out replies_in_append by blast
  next
    case False
    then show ?thesis using "1.prems"(1)
      by (simp add: CommitUpTo.simps [of app r] moved_def reqs_between_def same_log_def)
  qed
qed

lemma CommitUpTo_length:
  "CommitUpTo app r upTo = Inr (r', out) \<Longrightarrow> length (entries (vr_log r')) = length (entries (vr_log r))"
proof (induction app r upTo arbitrary: out rule: CommitUpTo.induct)
  case (1 app r upTo)
  show ?case
  proof (cases "lastCommitted r < upTo")
    case True
    obtain r1 out1 out2 where n: "commit_next app r = Inr (r1, out1)" and c: "CommitUpTo app r1 upTo = Inr (r', out2)"
      using "1.prems"(1) True by (auto simp: CommitUpTo.simps [of app r])
    have "length (entries (vr_log r1)) = length (entries (vr_log r))"
      using n by (auto simp: commit_next_def Let_def Log_SetStatus_def split: option.splits prod.splits)
    then show ?thesis using "1.IH" [OF True n refl c] by simp
  qed (use "1.prems" in \<open>simp add: CommitUpTo.simps [of app r]\<close>)
qed

subsection \<open>The handlers\<close>

definition pure_upcalls :: "'s VRApp \<Rightarrow> bool" where
  "pure_upcalls app \<longleftrightarrow>
     (\<forall>a n op p. LeaderUpcall app a n op = Inr p \<longrightarrow> snd (snd p) = a) \<and>
     (\<forall>a op p. VRUnloggedUpcall app a op = Inr p \<longrightarrow> snd p = a)"

definition still :: "'s VRApp \<Rightarrow> 's VRReplica \<Rightarrow> 's VRReplica \<Rightarrow> bool" where
  "still app r r' \<longleftrightarrow> vr_app r' = vr_app r \<and> lastCommitted r' = lastCommitted r \<and>
     (\<forall>m\<in>cached r'. m \<in> cached r \<or> refused app m)"

definition quiet :: "'s VRApp \<Rightarrow> 's VRReplica \<Rightarrow> vr_out list \<Rightarrow> bool" where
  "quiet app r out \<longleftrightarrow> (\<forall>m\<in>replies_in out. m \<in> cached r \<or> refused app m)"

lemma quietI [simp]: "replies_in out = {} \<Longrightarrow> quiet app r out"
  by (simp add: quiet_def)

lemma still_moved: "still app r r' \<and> quiet app r out \<Longrightarrow> moved app r r' out"
  by (auto simp: moved_def still_def quiet_def reqs_between_def)

lemma still_refl [simp]: "still app r r"
  by (simp add: still_def)

lemma stillI:
  "vr_app r' = vr_app r \<Longrightarrow> lastCommitted r' = lastCommitted r \<Longrightarrow> clientTable r' = clientTable r \<Longrightarrow> still app r r'"
  by (simp add: still_def cached_def)

lemma still_trans: "still app r r1 \<Longrightarrow> still app r1 r2 \<Longrightarrow> still app r r2"
  unfolding still_def by metis

lemma moved_between:
  assumes "still app r r1" and "moved app r1 r2 out" and "still app r2 r3" and "vr_log r3 = vr_log r2"
    and "replies_in out' \<subseteq> replies_in out"
  shows "moved app r r3 out'"
  using assms unfolding moved_def still_def produced_def by auto

lemma cached_put:
  "m \<in> cached (r\<lparr>clientTable := (clientTable r)(c \<mapsto> e)\<rparr>) \<Longrightarrow> m \<in> cached r \<or> replied e \<and> cte_reply e = m"
  unfolding cached_def by (simp split: if_splits) blast

lemma cached_entry: "replied (table_entry r c) \<Longrightarrow> cte_reply (table_entry r c) \<in> cached r"
  unfolding cached_def table_entry_def by (auto simp: ClientTableEntry_empty_def split: option.splits)

lemma UpdateClientTable_still:
  "UpdateClientTable r req = Inr r' \<Longrightarrow> still app r r' \<and> vr_log r' = vr_log r"
  by (auto simp: UpdateClientTable_def Let_def still_def dest!: cached_put intro: cached_entry split: if_splits)

lemma prepare_oks_still:
  "prepare_oks r i n = Inr (r', out) \<Longrightarrow> still app r r' \<and> vr_log r' = vr_log r \<and> replies_in out = {}"
proof (induction r i n arbitrary: out rule: prepare_oks.induct)
  case (2 r i n)
  show ?case
  proof (cases "i \<le> lastCommitted r")
    case True
    then show ?thesis using "2.IH"(1) [OF True] "2.prems" by simp
  next
    case False
    then obtain k r1 out' where "Log_Find (vr_log r) i = Inr (Some k)"
      "le_state (entries (vr_log r) ! k) = LOG_STATE_PREPARED"
      and u: "UpdateClientTable r (le_request (entries (vr_log r) ! k)) = Inr r1"
      and p: "prepare_oks r1 (i + 1) n = Inr (r', out')"
      and "replies_in out = replies_in out'"
      using "2.prems" by (auto simp: Let_def split: option.splits if_splits)
    with "2.IH"(2) False have "still app r1 r' \<and> vr_log r' = vr_log r1 \<and> replies_in out = {}" by auto
    then show ?thesis using UpdateClientTable_still [OF u, of app] still_trans [of app r r1 r'] by simp
  qed
qed simp

lemma SendPrepareOKs_still:
  "SendPrepareOKs r k = Inr (r', out) \<Longrightarrow> still app r r' \<and> vr_log r' = vr_log r \<and> replies_in out = {}"
  by (auto simp: SendPrepareOKs_def simp del: prepare_oks.simps split: if_splits dest: prepare_oks_still)

lemma prepare_loop_still: "prepare_loop r v k reqs = Inr (r', k') \<Longrightarrow> still app r r'"
proof (induction r v k reqs rule: prepare_loop.induct)
  case (2 r v k req reqs)
  show ?case
  proof (cases "k + 1 \<le> lastOp r")
    case True
    then show ?thesis using "2.IH"(1) [OF refl True] "2.prems" by simp
  next
    case False
    then obtain l r2 where l: "Log_Append no_hash (vr_log r) (Viewstamp v (k + 1)) req LOG_STATE_PREPARED = Inr l"
      and u: "UpdateClientTable (r\<lparr>lastOp := lastOp r + 1, vr_log := l\<rparr>) req = Inr r2"
      and p: "prepare_loop r2 v (k + 1) reqs = Inr (r', k')"
      using "2.prems" by (auto simp: Let_def)
    have "still app r2 r'" using "2.IH"(2) [OF refl False refl] l u p by simp
    moreover have "still app r (r\<lparr>lastOp := lastOp r + 1, vr_log := l\<rparr>)" by (rule stillI) simp_all
    ultimately show ?thesis using UpdateClientTable_still [OF u] still_trans by blast
  qed
qed simp

lemma transfer_entry_still: "transfer_entry p m = Inr p' \<Longrightarrow> still app (fst p) (fst p')"
  by (cases p) (auto simp: transfer_entry_def Let_def intro!: stillI split: if_splits option.splits)

lemma transfer_entries_still: "transfer_entries p ms = Inr p' \<Longrightarrow> still app (fst p) (fst p')"
proof (induction p ms rule: transfer_entries.induct)
  case (2 p m ms)
  then obtain q where "transfer_entry p m = Inr q" "transfer_entries q ms = Inr p'" by auto
  with "2.IH" transfer_entry_still [of p m q] still_trans show ?case by blast
qed simp

lemma RequestStateTransfer_still:
  assumes "RequestStateTransfer r = (r', out)"
  shows "still app r r' \<and> quiet app r' out" and "replies_in out = {}"
  using assms by (auto simp: RequestStateTransfer_def intro: stillI split: if_splits)

lemma EnterView_still: "still app r (EnterView r v)"
  by (rule stillI) (simp_all add: EnterView_def Let_def)

lemma StartViewChange_still:
  assumes "StartViewChange r v = (r', out)"
  shows "still app r r'" and "replies_in out = {}"
  using assms by (auto simp: StartViewChange_def intro: stillI)

lemma CloseBatch_still: "CloseBatch r = Inr (r', out) \<Longrightarrow> still app r r' \<and> replies_in out = {}"
  by (auto simp: CloseBatch_def Let_def intro: stillI simp del: batch_requests.simps split: if_splits)

lemma new_request_still:
  assumes "new_request app r remote req = Inr (r', out)" and "pure_upcalls app"
  shows "still app r r' \<and> quiet app r out"
proof -
  obtain r1 b res a where u: "UpdateClientTable r req = Inr r1"
    and l: "LeaderUpcall app (vr_app r1) (lastCommitted r1) (rop req) = Inr (b, res, a)"
    using assms(1) by (auto simp: new_request_def)
  have a: "a = vr_app r1" using l assms(2) by (force simp: pure_upcalls_def)
  have "still app r1 r' \<and> quiet app r out"
  proof (cases b)
    case False
    then have "refused app m" if "rm_opnum m = 0" for m using that l unfolding refused_def by simp blast
    then show ?thesis using assms(1) u l a False
      by (auto simp: new_request_def Let_def still_def quiet_def dest!: cached_put)
  next
    case True
    then obtain lg r5 where lg: "if lastOp r1 + 1 - lastBatchEnd r1 + 1 > ucast (batchSize r1)
        then CloseBatch (r1\<lparr>lastOp := lastOp r1 + 1, vr_log := lg\<rparr>) = Inr (r5, out)
        else r5 = r1\<lparr>lastOp := lastOp r1 + 1, vr_log := lg, closeBatchTimeout := True\<rparr> \<and> out = []"
      and r': "r' = r5\<lparr>nullCommitTimeout := True\<rparr>"
      using assms(1) u l a by (auto simp: new_request_def Let_def split: if_splits)
    have "still app (r1\<lparr>lastOp := lastOp r1 + 1, vr_log := lg\<rparr>) r5 \<and> replies_in out = {}"
      using lg by (auto intro: stillI dest: CloseBatch_still split: if_splits)
    moreover have "still app r1 (r1\<lparr>lastOp := lastOp r1 + 1, vr_log := lg\<rparr>)" by (rule stillI) simp_all
    moreover have "still app r5 r'" unfolding r' by (rule stillI) simp_all
    ultimately show ?thesis using still_trans quietI by blast
  qed
  then show ?thesis using UpdateClientTable_still [OF u] still_trans by blast
qed

lemma VR_HandleRequest_still:
  assumes "VR_HandleRequest app r remote req = Inr (r', out)" and "pure_upcalls app"
  shows "still app r r' \<and> quiet app r out"
proof -
  have s: "still app r (r\<lparr>clientAddresses := ca\<rparr>)" for ca by (rule stillI) simp_all
  have "still app r r' \<and> quiet app r out" if "new_request app (r\<lparr>clientAddresses := ca\<rparr>) remote req = Inr (r', out)" for ca
    using new_request_still [OF that assms(2)] still_trans [OF s [of ca]] by (auto simp: quiet_def cached_def)
  moreover have "quiet app r [SendTo remote (VReply (cte_reply e))]" if "clientTable r c = Some e" "replied e" for c e
    using that by (auto simp: quiet_def cached_def)
  ultimately show ?thesis using assms(1) s
    by (auto simp: VR_HandleRequest_def Let_def split: if_splits option.splits)
qed

lemma VR_HandleUnloggedRequest_still:
  assumes "VR_HandleUnloggedRequest app r remote req = Inr (r', out)" and "pure_upcalls app"
  shows "still app r r' \<and> quiet app r out"
proof (cases "vr_status r = STATUS_NORMAL")
  case True
  then obtain res a where u: "VRUnloggedUpcall app (vr_app r) (rop req) = Inr (res, a)"
    and r': "r' = r\<lparr>vr_app := a\<rparr>" "out = [SendTo remote (VUnloggedReply res (clientreqid req))]"
    using assms(1) by (auto simp: VR_HandleUnloggedRequest_def)
  have "a = vr_app r" using u assms(2) by (force simp: pure_upcalls_def)
  then show ?thesis using r' by (auto intro!: stillI)
qed (use assms(1) in \<open>auto simp: VR_HandleUnloggedRequest_def\<close>)

lemma defer_prepare_still:
  assumes "defer_prepare r remote msg = (r', out)"
  shows "still app r r' \<and> replies_in out = {}"
proof -
  obtain r1 o1 where t: "RequestStateTransfer r = (r1, o1)" by fastforce
  have "r' = r1\<lparr>pendingPrepares := pendingPrepares r1 @ [(remote, msg)]\<rparr>" "out = o1"
    using assms t by (simp_all add: defer_prepare_def)
  moreover have "still app r1 (r1\<lparr>pendingPrepares := pendingPrepares r1 @ [(remote, msg)]\<rparr>)" by (rule stillI) simp_all
  ultimately show ?thesis using RequestStateTransfer_still [OF t] still_trans by blast
qed

lemma HandlePrepare_still:
  assumes "HandlePrepare r remote msg = Inr (r', out)"
  shows "still app r r' \<and> quiet app r out"
proof -
  have v: "still app r (r\<lparr>viewChangeTimeout := True\<rparr>)" by (rule stillI) simp_all
  have d: "still app r r' \<and> replies_in out = {}" if "defer_prepare r1 remote msg = (r', out)" "still app r r1" for r1
    using defer_prepare_still [OF that(1)] still_trans [OF that(2)] by blast
  have p: "still app r r'" if "prepare_loop (r\<lparr>viewChangeTimeout := True\<rparr>) v k reqs = Inr (r', k')" for v k reqs k'
    using prepare_loop_still [OF that] still_trans [OF v] by blast
  have "still app r r' \<and> replies_in out = {}" using assms
    by (auto simp: HandlePrepare_def Let_def v prepare_ok_def split: if_splits
        dest: p d [OF _ v] d [OF _ still_refl])
  then show ?thesis by simp
qed

text \<open>The handlers that commit: state before, commit, and steps that keep the log and the application.\<close>

lemma commit_moved:
  assumes "still app r r1" and "CommitUpTo app r1 upTo = Inr (r2, out)" and "still app r2 r3" and "vr_log r3 = vr_log r2"
    and "length (entries (vr_log r3)) < 2 ^ 64" and "replies_in out' \<subseteq> replies_in out"
  shows "moved app r r3 out'"
proof -
  have "length (entries (vr_log r1)) < 2 ^ 64"
    using CommitUpTo_length [OF assms(2)] assms(4,5) by simp
  then show ?thesis using CommitUpTo_moved [OF assms(2)] moved_between [OF assms(1) _ assms(3,4,6)] by blast
qed

lemma HandlePrepareOK_moved:
  assumes "HandlePrepareOK app r msg = Inr (r', out)" and "length (entries (vr_log r')) < 2 ^ 64"
  shows "moved app r r' out"
proof (cases "vr_status r \<noteq> STATUS_NORMAL \<or> pok_view msg \<noteq> vr_view r \<or> \<not> AmLeader r")
  case True
  then have "still app r r' \<and> replies_in out = {}" using assms(1) RequestStateTransfer_still [of r]
    by (auto simp: HandlePrepareOK_def split: if_splits)
  then show ?thesis by (intro still_moved) simp
next
  case False
  obtain msgs q where q: "AddAndCheckForQuorum (prepareOKQuorum r) (Viewstamp (pok_view msg) (pok_opnum msg))
      (pok_replicaidx msg) msg = (msgs, q)" by fastforce
  have s: "still app r (r\<lparr>prepareOKQuorum := q\<rparr>)" by (rule stillI) simp_all
  show ?thesis
  proof (cases msgs)
    case None
    then have "r' = r\<lparr>prepareOKQuorum := q\<rparr> \<and> out = []" using assms(1) False q by (auto simp: HandlePrepareOK_def Let_def)
    then show ?thesis using s by (intro still_moved) simp
  next
    case (Some ms)
    then obtain r2 out2 where c: "CommitUpTo app (r\<lparr>prepareOKQuorum := q\<rparr>) (pok_opnum msg) = Inr (r2, out2)"
      and r': "r' = r2 \<or> r' = r2\<lparr>nullCommitTimeout := True\<rparr>" and out: "replies_in out = replies_in out2"
      using assms(1) False q by (auto simp: HandlePrepareOK_def Let_def split: if_splits)
    from r' have "still app r2 r'" "vr_log r' = vr_log r2" by (auto intro!: stillI)
    then show ?thesis using commit_moved [OF s c _ _ assms(2)] out by simp
  qed
qed

lemma HandleCommit_moved:
  assumes "HandleCommit app r v k = Inr (r', out)" and "length (entries (vr_log r')) < 2 ^ 64"
  shows "moved app r r' out"
proof -
  let ?r = "r\<lparr>viewChangeTimeout := True\<rparr>"
  have v: "still app r ?r" by (rule stillI) simp_all
  have t: "still app r r' \<and> replies_in out = {}" if "RequestStateTransfer r0 = (r', out)" "still app r r0" for r0
    using RequestStateTransfer_still [OF that(1)] still_trans [OF that(2)] by blast
  consider "still app r r' \<and> replies_in out = {}" | "CommitUpTo app ?r k = Inr (r', out)"
    using assms(1) v by (auto simp: HandleCommit_def Let_def split: if_splits dest: t [OF _ v] t [OF _ still_refl])
  then show ?thesis
  proof cases
    case 1
    then show ?thesis by (intro still_moved) simp
  next
    case 2
    then show ?thesis using commit_moved [OF v _ still_refl refl assms(2)] by blast
  qed
qed

lemma HandleStateTransfer_moved:
  assumes "HandleStateTransfer app r msg = Inr (r', out)" and "length (entries (vr_log r')) < 2 ^ 64"
  shows "moved app r r' out"
proof (cases "st_view msg < vr_view r")
  case True
  then show ?thesis using assms(1) still_moved [of app r r' out] by (simp add: HandleStateTransfer_def)
next
  case False
  then obtain r1 k r3 out1 r4 out2 where t: "transfer_entries (r, lastOp r) (st_entries msg) = Inr (r1, k)"
    and c: "CommitUpTo app (if st_view msg > vr_view r1 then EnterView r1 (st_view msg) else r1) (st_opnum msg) = Inr (r3, out1)"
    and s: "SendPrepareOKs r3 k = Inr (r4, out2)" and r': "r' = r4\<lparr>pendingPrepares := []\<rparr>" "out = out1 @ out2"
    using assms(1) by (auto simp: HandleStateTransfer_def Let_def split: if_splits)
  have "still app r r1" using transfer_entries_still [OF t] by simp
  then have "still app r (if st_view msg > vr_view r1 then EnterView r1 (st_view msg) else r1)"
    using EnterView_still [of app r1 "st_view msg"] still_trans [of app r r1] by auto
  moreover have "still app r4 r'" unfolding r' by (rule stillI) simp_all
  then have "still app r3 r'" "vr_log r' = vr_log r3" "replies_in out \<subseteq> replies_in out1"
    using SendPrepareOKs_still [OF s, of app] still_trans [of app r3 r4 r'] by (simp_all add: r')
  ultimately show ?thesis using commit_moved [OF _ c _ _ assms(2)] by blast
qed

lemma HandleStartViewChange_still:
  assumes "HandleStartViewChange r msg = Inr (r', out)"
  shows "still app r r' \<and> quiet app r out"
proof -
  obtain r1 o1 where p: "(if vr_status r \<noteq> STATUS_VIEW_CHANGE \<or> svc_view msg > vr_view r
      then StartViewChange r (svc_view msg) else (r, [])) = (r1, o1)" by fastforce
  have s: "still app r r1" "replies_in o1 = {}" using p StartViewChange_still [of r "svc_view msg" r1 o1] by (auto split: if_splits)
  have q: "still app r (r1\<lparr>startViewChangeQuorum := q\<rparr>)" for q by (rule still_trans [OF s(1)], rule stillI) simp_all
  have "still app r r' \<and> replies_in out = {}"
    using assms s q
    unfolding HandleStartViewChange_def Let_def p by (auto split: if_splits prod.splits option.splits)
  then show ?thesis by simp
qed

lemma install_latest_still: "install_latest r msg x = Inr r' \<Longrightarrow> still app r r'"
  by (auto simp: install_latest_def intro!: stillI split: list.splits if_splits)

lemma new_leader_moved:
  assumes "new_leader dead app r ms msg = Inr (r', out)" and "length (entries (vr_log r')) < 2 ^ 64"
  shows "moved app r r' out"
proof -
  obtain lv lo lm where ll: "latest_log ms (vs_view (LastViewstamp (vr_log r)), vs_opnum (LastViewstamp (vr_log r)), None) =
      (lv, lo, lm)" by (metis prod_cases3)
  let ?E = "\<lambda>r1. (EnterView r1 (dvc_view msg))\<lparr>lastOp := lo\<rparr>"
  obtain latest r1 o1 where r1: "(case latest of None \<Rightarrow> Inr r | Some x \<Rightarrow> install_latest r msg x) = Inr r1"
    and c: "(case latest of None \<Rightarrow> Inr (?E r1, []) | Some x \<Rightarrow> CommitUpTo app (?E r1) (dvc_lastcommitted x)) = Inr (r', o1)"
    and out: "replies_in out = replies_in o1"
    using assms(1) ll by (auto simp: new_leader_def Let_def split: if_splits)
  have "still app r r1" using r1 install_latest_still by (auto split: option.splits)
  moreover have "still app (EnterView r1 (dvc_view msg)) (?E r1)" by (rule stillI) simp_all
  ultimately have s: "still app r (?E r1)" using EnterView_still [of app r1 "dvc_view msg"] still_trans by blast
  show ?thesis
  proof (cases latest)
    case None
    then show ?thesis using c s out by (intro still_moved) auto
  next
    case (Some x)
    then show ?thesis using c out commit_moved [OF s _ still_refl refl assms(2)] by auto
  qed
qed

lemma VR_HandleDoViewChange_moved:
  assumes "VR_HandleDoViewChange dead app r msg = Inr (r', out)" and "length (entries (vr_log r')) < 2 ^ 64"
  shows "moved app r r' out"
proof -
  obtain r1 out1 where p: "(if vr_status r \<noteq> STATUS_VIEW_CHANGE \<or> dvc_view msg > vr_view r
      then StartViewChange r (dvc_view msg) else (r, [])) = (r1, out1)" by fastforce
  have s: "still app r r1" "replies_in out1 = {}" using p StartViewChange_still [of r "dvc_view msg" r1 out1] by (auto split: if_splits)
  have qs: "still app r (r1\<lparr>doViewChangeQuorum := q\<rparr>)" for q by (rule still_trans [OF s(1)], rule stillI) simp_all
  have nl: "moved app r r' (out1 @ o1)" if "new_leader dead app (r1\<lparr>doViewChangeQuorum := q\<rparr>) ms msg = Inr (r', o1)" for q ms o1
    by (rule moved_between [OF qs new_leader_moved [OF that assms(2)] still_refl refl]) (simp add: s(2))
  have sq: "moved app r (r1\<lparr>doViewChangeQuorum := q\<rparr>) out1" for q
    using qs s(2) by (intro still_moved) simp
  obtain msgs q where q: "AddAndCheckForQuorum (doViewChangeQuorum r1) (dvc_view msg) (dvc_replicaidx msg) msg = (msgs, q)"
    by fastforce
  show ?thesis
  proof (cases "dvc_view msg < vr_view r \<or> dvc_view msg = vr_view r \<and> vr_status r \<noteq> STATUS_VIEW_CHANGE")
    case True
    then show ?thesis using assms(1) still_moved [of app r r' out] by (auto simp: VR_HandleDoViewChange_def)
  next
    case False
    then show ?thesis
      using assms(1) q sq nl unfolding VR_HandleDoViewChange_def Let_def p by (auto split: if_splits option.splits)
  qed
qed

lemma VR_HandleStartView_moved:
  assumes "VR_HandleStartView app r msg = Inr (r', out)" and "length (entries (vr_log r')) < 2 ^ 64"
  shows "moved app r r' out"
proof (cases "sv_view msg < vr_view r \<or> sv_view msg = vr_view r \<and> vr_status r \<noteq> STATUS_VIEW_CHANGE")
  case True
  then show ?thesis using assms(1) still_moved [of app r r' out] by (auto simp: VR_HandleStartView_def)
next
  case False
  then obtain r1 r4 out1 out2 where r1: "(case sv_entries msg of
        [] \<Rightarrow>
          obind (assert_that (sv_lastcommitted msg = lastCommitted r) ''msg.lastcommitted() == lastCommitted'') (\<lambda>_.
            obind (assert_that (sv_lastop msg = sv_lastcommitted msg) ''msg.lastop() == msg.lastcommitted()'') (\<lambda>_.
              Inr r))
      | e # es \<Rightarrow>
          if em_opnum e > lastCommitted r + 1
          then Inl (Panicked ''Not enough entries in STARTVIEW message to install new log'')
          else
            obind (RemoveAfter (vr_log r) (sv_lastop msg + 1)) (\<lambda>l.
              obind (Log_Install no_hash l (e # es)) (\<lambda>l'. Inr (r\<lparr>vr_log := l'\<rparr>)))) = Inr r1"
    and c: "CommitUpTo app ((EnterView r1 (sv_view msg))\<lparr>lastOp := sv_lastop msg\<rparr>) (sv_lastcommitted msg) = Inr (r4, out1)"
    and s: "SendPrepareOKs r4 (lastOp (EnterView r1 (sv_view msg))) = Inr (r', out2)" and out: "out = out1 @ out2"
    using assms(1) by (auto simp: VR_HandleStartView_def Let_def split: if_splits)
  have "still app r r1" using r1 by (auto intro!: stillI split: list.splits if_splits)
  moreover have "still app (EnterView r1 (sv_view msg)) ((EnterView r1 (sv_view msg))\<lparr>lastOp := sv_lastop msg\<rparr>)"
    by (rule stillI) simp_all
  ultimately have "still app r ((EnterView r1 (sv_view msg))\<lparr>lastOp := sv_lastop msg\<rparr>)"
    using EnterView_still [of app r1 "sv_view msg"] still_trans by blast
  moreover have "still app r4 r'" "vr_log r' = vr_log r4" "replies_in out \<subseteq> replies_in out1"
    using SendPrepareOKs_still [OF s] out by auto
  ultimately show ?thesis using commit_moved [OF _ c _ _ assms(2)] by blast
qed

lemmas react_still = VR_HandleRequest_still [THEN still_moved] VR_HandleUnloggedRequest_still [THEN still_moved]
  HandlePrepare_still [THEN still_moved] HandleStartViewChange_still [THEN still_moved]
lemmas react_moved = HandlePrepareOK_moved HandleCommit_moved HandleStateTransfer_moved VR_HandleDoViewChange_moved
  VR_HandleStartView_moved

lemma vr_react_moved:
  assumes "vr_react dead app r ev = Inr (r', out)" and "pure_upcalls app" and "length (entries (vr_log r')) < 2 ^ 64"
  shows "moved app r r' out"
proof -
  have m: "moved app r r' out" if "VR_ReceiveMessage dead app r remote m = Inr (r', out)" for remote m
  proof (cases m)
    case (VRequestStateTransfer v k)
    then have "still app r r' \<and> replies_in out = {}" using that RequestStateTransfer_still [of r]
      by (auto simp: VR_ReceiveMessage_def HandleRequestStateTransfer_def split: if_splits)
    then show ?thesis by (intro still_moved) simp
  qed (use that assms(2,3) in \<open>auto simp: VR_ReceiveMessage_def intro: react_moved react_still\<close>)
  have t: "still app r r' \<and> replies_in out = {}" if "timer_callback r t = Inr (r', out)" for t
    using that StartViewChange_still [of r "vr_view r + 1"]
    by (cases t) (auto simp: timer_callback_def SendNullCommit_def ResendPrepare_def intro: stillI split: if_splits
      dest: CloseBatch_still)
  then have "moved app r r' out" if "timer_callback r t = Inr (r', out)" for t
    using that by (intro still_moved) simp
  then show ?thesis using assms(1) m by (cases ev) (auto simp: vr_react_def)
qed


section \<open>The replicas as copies of one machine\<close>

lemma replay_append:
  "replay app a n (xs @ ys) = obind (replay app a n xs) (\<lambda>a'. replay app a' (n + of_nat (length xs)) ys)"
proof (induction xs arbitrary: a n)
  case (Cons x xs)
  show ?case by (cases "ReplicaUpcall app a n (rop x)") (auto simp: Cons.IH add.assoc)
qed simp

lemma reqs_between_ops:
  assumes "log_ok r" and "q \<le> unat (lastOp r)"
  shows "reqs_between (vr_log r) p q = map snd (drop p (take q (ops r)))"
proof (rule nth_equalityI)
  have len: "length (entries (vr_log r)) = unat (lastOp r)" by (rule log_ok_length [OF assms(1)])
  then show "length (reqs_between (vr_log r) p q) = length (map snd (drop p (take q (ops r))))"
    using assms(2) by (simp add: reqs_between_def del: upt_Suc)
  fix i assume "i < length (reqs_between (vr_log r) p q)"
  then have i: "p + i < q" by (simp add: reqs_between_def del: upt_Suc)
  let ?n = "of_nat (Suc (p + i)) :: u64"
  have u: "unat ?n = Suc (p + i)"
    using i assms(2) u64_bound [of "lastOp r"] by (simp only: unat_of_nat) (simp add: take_bit_nat_eq_self)
  have "1 \<le> ?n" "?n \<le> lastOp r" using u i assms(2) by (simp_all only: word_le_nat_alt u) simp_all
  then have "req_at (vr_log r) ?n = le_request (entries (vr_log r) ! (p + i))"
    using log_ok_Find [OF assms(1), of ?n] u by (simp add: req_at_def)
  then show "reqs_between (vr_log r) p q ! i = map snd (drop p (take q (ops r))) ! i"
    using i assms(2) len by (simp add: reqs_between_def core_def del: upt_Suc)
qed

definition valid_reply :: "'s VRApp \<Rightarrow> 's \<Rightarrow> (viewstamp_t \<times> OpRequest) list \<Rightarrow> ReplyMessage \<Rightarrow> bool" where
  "valid_reply app a L m \<longleftrightarrow>
     (\<exists>k st. 1 \<le> k \<and> k \<le> length L \<and> replay app a 1 (map snd (take (k - 1) L)) = Inr st \<and>
        answers app st (of_nat k) (snd (L ! (k - 1))) m)"

definition replayed :: "'s VRApp \<Rightarrow> 's \<Rightarrow> int \<Rightarrow> 's vr_sys \<Rightarrow> bool" where
  "replayed app a n s \<longleftrightarrow>
     (\<forall>i. 0 \<le> i \<and> i < n \<longrightarrow>
        replay app a 1 (map snd (take (lcs s i) (ops (nodes s 0)))) = Inr (vr_app (nodes s i)) \<and>
        (\<forall>m\<in>cached (nodes s i). refused app m \<or> valid_reply app a (ops (nodes s 0)) m)) \<and>
     (\<forall>j d m. (j, d, VReply m) \<in> set (packets s) \<longrightarrow> refused app m \<or> valid_reply app a (ops (nodes s 0)) m)"

lemma valid_reply_append: "valid_reply app a L m \<Longrightarrow> valid_reply app a (L @ xs) m"
proof -
  assume "valid_reply app a L m"
  then obtain k st where k: "1 \<le> k" "k \<le> length L" "replay app a 1 (map snd (take (k - 1) L)) = Inr st"
    "answers app st (of_nat k) (snd (L ! (k - 1))) m" by (auto simp: valid_reply_def)
  then have "take (k - 1) (L @ xs) = take (k - 1) L" "(L @ xs) ! (k - 1) = L ! (k - 1)" by (auto simp: nth_append)
  then show ?thesis unfolding valid_reply_def using k by (intro exI [of _ k] exI [of _ st]) simp
qed

text \<open>One step of a replica whose log is a prefix of \<open>L\<close>.\<close>

lemma moved_replay:
  assumes mv: "moved app r r' out" and on: "on_log L r'"
    and st: "replay app a 1 (map snd (take (unat (lastCommitted r)) L)) = Inr (vr_app r)"
  shows "replay app a 1 (map snd (take (unat (lastCommitted r')) L)) = Inr (vr_app r')"
    and "produced app r (vr_log r') (lastCommitted r') m \<Longrightarrow> valid_reply app a L m"
proof -
  let ?p = "unat (lastCommitted r)" and ?q = "unat (lastCommitted r')"
  have ok: "log_ok r'" and len: "unat (lastOp r') \<le> length L" and opsr: "ops r' = take (unat (lastOp r')) L"
    using on by (simp_all add: on_log_def)
  have q: "?q \<le> unat (lastOp r')" using ok by (simp add: log_ok_def word_le_nat_alt)
  have p: "?p \<le> ?q" using mv by (simp add: moved_def word_le_nat_alt)
  have seg: "reqs_between (vr_log r') ?p k = map snd (drop ?p (take k L))" if "k \<le> ?q" for k
    using reqs_between_ops [OF ok, of k ?p] that q opsr by (simp add: min_absorb2)
  have "(1 :: u64) + of_nat (length (map snd (take ?p L))) = lastCommitted r + 1"
    using p q len by (simp add: min_absorb1 min_absorb2 add.commute)
  then have to: "replay app a 1 (map snd (take k L)) = replay app (vr_app r) (lastCommitted r + 1) (map snd (drop ?p (take k L)))"
    if "?p \<le> k" for k
  proof -
    have "take k L = take ?p L @ drop ?p (take k L)" using that by (metis append_take_drop_id min.absorb1 take_take)
    then have "map snd (take k L) = map snd (take ?p L) @ map snd (drop ?p (take k L))" by (metis map_append)
    then show ?thesis using st \<open>1 + of_nat _ = _\<close> by (simp only: replay_append st) simp
  qed
  show "replay app a 1 (map snd (take ?q L)) = Inr (vr_app r')"
    using mv seg [of ?q] to [OF p] by (simp add: moved_def)
  show "valid_reply app a L m" if "produced app r (vr_log r') (lastCommitted r') m"
  proof -
    from that obtain k x where k: "?p < k" "k \<le> ?q"
        "replay app (vr_app r) (lastCommitted r + 1) (reqs_between (vr_log r') ?p (k - 1)) = Inr x"
        "answers app x (of_nat k) (req_at (vr_log r') (of_nat k)) m" by (auto simp: produced_def)
    have "reqs_between (vr_log r') (k - 1) k = [req_at (vr_log r') (of_nat k)]"
      using k(1) by (simp add: reqs_between_def)
    moreover have "reqs_between (vr_log r') (k - 1) k = [snd (L ! (k - 1))]"
    proof -
      have "take k L = take (k - 1) L @ [L ! (k - 1)]"
        using take_Suc_conv_app_nth [of "k - 1" L] k(1,2) q len by simp
      then show ?thesis
        using reqs_between_ops [OF ok, of k "k - 1"] k(1,2) q opsr len by (simp add: min_absorb2)
    qed
    ultimately have "req_at (vr_log r') (of_nat k) = snd (L ! (k - 1))" by simp
    then show ?thesis unfolding valid_reply_def
      using k seg [of "k - 1"] to [of "k - 1"] q len by (intro exI [of _ k] exI [of _ x]) simp
  qed
qed


lemma vr_norm_next:
  assumes "vr_norm cfg n s" and "vr_enabled n s ev" and "\<And>i. ev \<noteq> Fire i ViewChangeTimer"
    and "vr_do n dead app s ev = Inr s'"
  obtains xs where "vr_norm cfg n s'" and "ops (nodes s' 0) = ops (nodes s 0) @ xs"
proof -
  have tot: "app_total (total_app app)" by (auto simp: app_total_def total_app_def split: sum.split)
  have "vr_do n dead (total_app app) s ev = Inr s'"
    using vr_do_le [OF app_le_total, of n dead app s ev] assms(4) by (simp add: le_out_def)
  with vr_norm_step [OF assms(1) tot assms(2,3), of dead] that show ?thesis by auto
qed

lemma replayed_step:
  assumes inv: "vr_norm cfg n s" "replayed app a n s" and ev: "vr_enabled n s ev" "\<And>i. ev \<noteq> Fire i ViewChangeTimer"
    and "pure_upcalls app" and do: "vr_do n dead app s ev = Inr s'"
  shows "vr_norm cfg n s' \<and> replayed app a n s'"
proof -
  let ?t = "vr_target ev" and ?L = "ops (nodes s 0)" and ?L' = "ops (nodes s' 0)"
  obtain xs where norm: "vr_norm cfg n s'" and L: "?L' = ?L @ xs" by (rule vr_norm_next [OF inv(1) ev do])
  obtain r out where r: "vr_react dead app (nodes s ?t) ev = Inr (r, out)"
    and s': "s' = \<lparr>nodes = (nodes s)(?t := r), packets = packets s @ concat (map (packets_of n ?t) out)\<rparr>"
    using do by (auto simp: vr_do_def)
  have t: "0 \<le> ?t" "?t < n" using ev(1) by (auto simp: vr_enabled_def vr_target_def split: vr_event.splits)
  have rn: "nodes s' ?t = r" by (simp add: s')
  have on: "on_log ?L' r" using vr_norm_on_log [OF norm t] by (simp only: rn)
  have len: "length (entries (vr_log r)) < 2 ^ 64"
    using on log_ok_length [of r] u64_bound [of "lastOp r"] by (simp add: on_log_def)
  note mv = vr_react_moved [OF r assms(5) len]
  have pre: "take (lcs s i) ?L' = take (lcs s i) ?L" if "0 \<le> i" "i < n" for i
    using vr_norm_lens [OF inv(1) that] L by simp
  have rep: "replay app a 1 (map snd (take (lcs s i) ?L')) = Inr (vr_app (nodes s i))" if "0 \<le> i" "i < n" for i
    using inv(2) that unfolding pre [OF that] by (simp add: replayed_def)
  note mr = moved_replay [OF mv on rep [OF t]]
  have old: "refused app m \<or> valid_reply app a ?L' m" if "m \<in> cached (nodes s i)" "0 \<le> i" "i < n" for i m
  proof -
    have "refused app m \<or> valid_reply app a ?L m" using inv(2) that by (simp add: replayed_def)
    then show ?thesis unfolding L by (rule disjE) (simp_all add: valid_reply_append)
  qed
  have new: "refused app m \<or> valid_reply app a ?L' m" if "m \<in> cached r \<union> replies_in out" for m
    using mv that mr(2) old [OF _ t] unfolding moved_def by blast
  have "replayed app a n s'"
    unfolding replayed_def
  proof (intro conjI allI impI ballI)
    fix i assume i: "0 \<le> i \<and> i < n"
    show "replay app a 1 (map snd (take (lcs s' i) ?L')) = Inr (vr_app (nodes s' i))"
    proof (cases "i = ?t")
      case True
      then show ?thesis using mr(1) by (simp only: rn)
    next
      case False
      then have "nodes s' i = nodes s i" by (simp add: s')
      then show ?thesis using rep i by (simp only:)
    qed
    fix m assume "m \<in> cached (nodes s' i)"
    then show "refused app m \<or> valid_reply app a ?L' m"
      using old [of m i] new [of m] i by (cases "i = ?t") (auto simp: s')
  next
    fix j d m assume "(j, d, VReply m) \<in> set (packets s')"
    then consider "(j, d, VReply m) \<in> set (packets s)" | "m \<in> replies_in out"
      by (auto simp: s' dest!: packets_of_reply)
    then show "refused app m \<or> valid_reply app a ?L' m"
    proof cases
      case 1
      then have "refused app m \<or> valid_reply app a ?L m" using inv(2) by (simp add: replayed_def)
      then show ?thesis unfolding L by (rule disjE) (simp_all add: valid_reply_append)
    qed (use new in blast)
  qed
  with norm show ?thesis by blast
qed


lemma replayed_run:
  "vr_run n dead app s evs = Some s' \<Longrightarrow> vr_norm cfg n s \<Longrightarrow> replayed app a n s \<Longrightarrow> pure_upcalls app \<Longrightarrow>
   \<forall>i. Fire i ViewChangeTimer \<notin> set evs \<Longrightarrow> vr_norm cfg n s' \<and> replayed app a n s'"
proof (induction evs arbitrary: s)
  case (Cons ev evs)
  obtain s1 where s1: "vr_enabled n s ev" "vr_do n dead app s ev = Inr s1" "vr_run n dead app s1 evs = Some s'"
    using Cons.prems(1) by (auto split: if_splits sum.splits)
  have "\<And>i. ev \<noteq> Fire i ViewChangeTimer" using Cons.prems(5) by auto
  then have "vr_norm cfg n s1 \<and> replayed app a n s1"
    using replayed_step [OF Cons.prems(2,3) s1(1) _ Cons.prems(4) s1(2)] by blast
  then show ?case using Cons.IH [OF s1(3)] Cons.prems(4,5) by simp
qed simp

lemma replayed_start: "replayed app a n (vr_start cfg bs a)"
  by (simp add: replayed_def vr_start_def VRReplica_new_def Let_def cached_def)

lemma replayed_reached:
  assumes "vr_run (cfg_n cfg) dead app (vr_start cfg bs a) evs = Some s" and "0 < cfg_n cfg" and "pure_upcalls app"
    and "\<forall>i. Fire i ViewChangeTimer \<notin> set evs"
  shows "vr_norm cfg (cfg_n cfg) s" and "replayed app a (cfg_n cfg) s"
  using replayed_run [OF assms(1) vr_norm_start [OF assms(2)] replayed_start assms(3,4)] by blast+

lemma ops_requests: "map snd (ops r) = map le_request (entries (vr_log r))"
  by (simp add: core_def)

lemma ex_pure: "pure_upcalls echo_app"
  by (simp add: pure_upcalls_def echo_app_def)

definition ex_reply :: ReplyMessage where
  "ex_reply = \<lparr>rm_view = 0, rm_opnum = 1, rm_clientreqid = 1, rm_reply = ''A''\<rparr>"

lemma ex_vr_requests: "map le_request (entries (vr_log (nodes ex_vr_sys 0))) = [req_A]"
  by code_simp

lemma ex_vr_packet: "(0, ClientAt 1, VReply ex_reply) \<in> set (packets ex_vr_sys)"
  by code_simp

lemma ex_normal_run_normal: "\<forall>i. Fire i ViewChangeTimer \<notin> set ex_normal_run"
  by (simp add: ex_normal_run_def)

text \<open>
  C4. State machine replication: as long as no view-change timer fires, the application of every
  replica is in the state that executing the committed requests of its log in order leads to, from
  the state all replicas started with; so two replicas that have committed the same number of
  operations are in the same state. This needs upcalls at the leader and for unlogged requests
  that leave the state alone.
\<close>

theorem vr_replicas_agree:
  assumes "vr_run (cfg_n cfg) dead app (vr_start cfg bs a) evs = Some s" and "0 < cfg_n cfg" and "pure_upcalls app"
    and "\<forall>i. Fire i ViewChangeTimer \<notin> set evs" and "0 \<le> i" "i < cfg_n cfg" "0 \<le> j" "j < cfg_n cfg"
  shows "replay app a 1 (take (unat (lastCommitted (nodes s i))) (map le_request (entries (vr_log (nodes s i))))) =
      Inr (vr_app (nodes s i)) \<and>
    (lastCommitted (nodes s i) = lastCommitted (nodes s j) \<longrightarrow> vr_app (nodes s i) = vr_app (nodes s j))"
proof -
  note inv = replayed_reached [OF assms(1-4)]
  have rep: "replay app a 1 (map snd (take (lcs s k) (ops (nodes s 0)))) = Inr (vr_app (nodes s k))"
    if "0 \<le> k" "k < cfg_n cfg" for k using inv(2) that by (simp add: replayed_def)
  have on: "on_log (ops (nodes s 0)) (nodes s i)" by (rule vr_norm_on_log [OF inv(1) assms(5,6)])
  then have "take (lcs s i) (ops (nodes s i)) = take (lcs s i) (ops (nodes s 0))"
    using vr_norm_lens(2) [OF inv(1) assms(5,6)] by (simp add: on_log_def min_absorb1)
  then have "take (lcs s i) (map le_request (entries (vr_log (nodes s i)))) = map snd (take (lcs s i) (ops (nodes s 0)))"
    by (metis ops_requests take_map)
  then show ?thesis using rep [OF assms(5,6)] rep [OF assms(7,8)] by auto
qed

theorem vr_replicas_agree_witness:
  "lastCommitted (nodes ex_vr_sys 0) = 1 \<and> vr_app (nodes ex_vr_sys 0) = [''A'']"
proof -
  have n: "0 < cfg_n (group_of 1)" "(1 :: int) < cfg_n (group_of 1)" by (simp_all add: Configuration_of_def)
  have "replay echo_app [] 1 (take (unat (lastCommitted (nodes ex_vr_sys 0)))
      (map le_request (entries (vr_log (nodes ex_vr_sys 0))))) = Inr (vr_app (nodes ex_vr_sys 0))"
    using conjunct1 [OF vr_replicas_agree [OF ex_vr_run n(1) ex_pure ex_normal_run_normal order_refl n(1) zero_le_one n(2)]] .
  then show ?thesis unfolding ex_vr_requests using ex_vr_sys_state by (simp add: req_A_def echo_app_def)
qed

text \<open>
  C21. Clients see one sequential machine: as long as no view-change timer fires, every reply under
  an operation number that is ever sent, a repeated one included, carries the result of executing
  the request at that place of the leader's log after all the requests before it, and a request of
  a client is in the log only once.
\<close>

theorem vr_replies_sequential:
  assumes "vr_run (cfg_n cfg) dead app (vr_start cfg bs a) evs = Some s" and "0 < cfg_n cfg" and "pure_upcalls app"
    and "\<forall>i. Fire i ViewChangeTimer \<notin> set evs" and "(i, d, VReply m) \<in> set (packets s)" and "rm_opnum m \<noteq> 0"
    and "reqs = map le_request (entries (vr_log (nodes s 0)))"
  shows "unat (rm_opnum m) \<le> length reqs \<and> rm_clientreqid m = clientreqid (reqs ! (unat (rm_opnum m) - 1)) \<and>
    (\<exists>st st'. replay app a 1 (take (unat (rm_opnum m) - 1) reqs) = Inr st \<and>
       ReplicaUpcall app st (rm_opnum m) (rop (reqs ! (unat (rm_opnum m) - 1))) = Inr (rm_reply m, st')) \<and>
    sorted_wrt (\<lambda>p q. clientid p = clientid q \<longrightarrow> clientreqid p < clientreqid q) reqs"
proof -
  note inv = replayed_reached [OF assms(1-4)]
  let ?L = "ops (nodes s 0)"
  have reqs: "reqs = map snd ?L" unfolding assms(7) by (rule ops_requests [symmetric])
  have "refused app m \<or> valid_reply app a ?L m" using inv(2) assms(5) by (simp add: replayed_def)
  then obtain k st where k: "1 \<le> k" "k \<le> length ?L" "replay app a 1 (map snd (take (k - 1) ?L)) = Inr st"
      "answers app st (of_nat k) (snd (?L ! (k - 1))) m" using assms(6) by (auto simp: valid_reply_def refused_def)
  have "length ?L < 2 ^ 64"
    using vr_norm_lens [OF inv(1) _ assms(2)] log_ok_length [of "nodes s 0"] vr_norm_on_log [OF inv(1) _ assms(2)]
      u64_bound [of "lastOp (nodes s 0)"] by (simp add: on_log_def)
  then have "unat (of_nat k :: u64) = k" using k(2) by (simp add: unat_of_nat take_bit_nat_eq_self)
  then have u: "unat (rm_opnum m) = k" using k(4) by (simp add: answers_def)
  have nth: "reqs ! (k - 1) = snd (?L ! (k - 1))" unfolding reqs using k(1,2) by (intro nth_map) simp
  have tk: "take (k - 1) reqs = map snd (take (k - 1) ?L)" unfolding reqs by (rule take_map)
  have "sorted_wrt (\<lambda>p q. clientid p = clientid q \<longrightarrow> clientreqid p < clientreqid q) reqs"
    using inv(1) unfolding reqs vr_norm_def leader_ok_def client_sorted_def by blast
  moreover have "\<exists>st'. ReplicaUpcall app st (rm_opnum m) (rop (snd (?L ! (k - 1)))) = Inr (rm_reply m, st')"
    using k(4) by (auto simp: answers_def)
  moreover have "rm_clientreqid m = clientreqid (snd (?L ! (k - 1)))" using k(4) by (simp add: answers_def)
  moreover have "k \<le> length reqs" unfolding reqs using k(2) by simp
  ultimately show ?thesis unfolding u nth tk using k(3) by blast
qed

theorem vr_replies_sequential_witness:
  "\<exists>st'. ReplicaUpcall echo_app [] 1 ''A'' = Inr (rm_reply ex_reply, st')"
proof -
  have n: "0 < cfg_n (group_of 1)" by (simp add: Configuration_of_def)
  have "rm_opnum ex_reply \<noteq> 0" by (simp add: ex_reply_def)
  from vr_replies_sequential [OF ex_vr_run n ex_pure ex_normal_run_normal ex_vr_packet this refl]
  show ?thesis unfolding ex_vr_requests by (auto simp: ex_reply_def req_A_def)
qed

end
