(* ===== verification/Decimal.thy ===== *)
theory Decimal
  imports Replication_Base
begin

text \<open>
  Numbers as decimal text: \<^verbatim>\<open>std::to_string\<close>, with which the timestamp server answers, and
  \<^verbatim>\<open>std::stol\<close>, with which the strong client reads the answer.
\<close>

definition digit_char :: "nat \<Rightarrow> char" where
  "digit_char d = char_of (48 + d)"

fun nat_digits :: "nat \<Rightarrow> string" where
  "nat_digits n = (if n < 10 then [digit_char n] else nat_digits (n div 10) @ [digit_char (n mod 10)])"

declare nat_digits.simps [simp del]

definition to_string :: "int \<Rightarrow> string" where
  "to_string i = (if i < 0 then ''-'' @ nat_digits (nat (- i)) else nat_digits (nat i))"

text \<open>
  \<^verbatim>\<open>std::stol\<close> in base 10: white space and a sign are skipped, then the longest run of digits is
  read. No digits raise \<^verbatim>\<open>invalid_argument\<close>, a value outside of \<^verbatim>\<open>long\<close> raises \<^verbatim>\<open>out_of_range\<close>.
\<close>

definition stol :: "string \<Rightarrow> int outcome" where
  "stol str =
     (let s = dropWhile is_space str;
          (neg, body) = (case s of
             c # cs \<Rightarrow> if c = CHR ''-'' then (True, cs) else if c = CHR ''+'' then (False, cs) else (False, s)
           | [] \<Rightarrow> (False, s));
          ds = takeWhile is_digit body;
          v = (if neg then - int (digits_value ds) else int (digits_value ds))
      in if ds = [] then Inl (Uncaught ''invalid_argument'')
         else if v < - (2 ^ 63) \<or> v \<ge> 2 ^ 63 then Inl (Uncaught ''out_of_range'')
         else Inr v)"

lemma digit_char: "d < 10 \<Longrightarrow> (of_char (digit_char d) :: nat) = 48 + d"
  by (simp add: digit_char_def)

lemma nat_digits_digits: "c \<in> set (nat_digits n) \<Longrightarrow> is_digit c"
proof (induction n rule: nat_digits.induct)
  case (1 n)
  then show ?case
    by (cases "n < 10") (auto simp: nat_digits.simps [of n] is_digit_def digit_char)
qed

lemma nat_digits_nonempty: "nat_digits n \<noteq> []"
  by (subst nat_digits.simps) simp

lemma nat_digits_value: "digits_value (nat_digits n) = n"
proof (induction n rule: nat_digits.induct)
  case (1 n)
  show ?case
  proof (cases "n < 10")
    case True
    then show ?thesis by (simp add: nat_digits.simps [of n] digits_value_def digit_char)
  next
    case False
    then show ?thesis using 1 [OF False]
      by (simp add: nat_digits.simps [of n] digits_value_def digit_char)
  qed
qed

lemma stol_to_string:
  assumes "0 \<le> i" "i < 2 ^ 63"
  shows "stol (to_string i) = Inr i"
proof -
  let ?ds = "nat_digits (nat i)"
  obtain c cs where c: "?ds = c # cs" using nat_digits_nonempty by (cases ?ds) auto
  have "is_digit c" using nat_digits_digits [of c "nat i"] c by simp
  then have "\<not> is_space c" "c \<noteq> CHR ''-''" "c \<noteq> CHR ''+''" by (auto simp: is_digit_def is_space_def)
  moreover have "takeWhile is_digit ?ds = ?ds" using nat_digits_digits by (simp add: takeWhile_eq_all_conv)
  moreover have "digits_value ?ds = nat i" by (rule nat_digits_value)
  ultimately show ?thesis using assms by (simp add: stol_def to_string_def c Let_def)
qed

end
