(* ===== verification/Time_Server.thy ===== *)
theory Time_Server
  imports Vr_State Decimal
begin

text \<open>
  The timestamp server, \<^verbatim>\<open>timeserver/timeserver.cc\<close>: a counter replicated by viewstamped replication,
  which the strong store asks for commit timestamps. Its state is the \<^verbatim>\<open>long\<close> counter, an integer
  whose signed overflow is undefined behaviour. The number goes to the client as decimal text
  (\<^verbatim>\<open>std::to_string\<close>) and is read back with \<^verbatim>\<open>std::stol\<close>.
\<close>

section \<open>The server\<close>

text \<open>The upcalls the server does not override are those of \<^verbatim>\<open>AppReplica\<close>.\<close>

definition newTimeStamp :: "int \<Rightarrow> (string \<times> int) outcome" where
  "newTimeStamp ts =
     (if ts + 1 \<ge> 2 ^ 63 then Inl (Undefined ''signed overflow'') else Inr (to_string (ts + 1), ts + 1))"

definition TimeStampServer_new :: int where
  "TimeStampServer_new = 0"

definition TimeStampServer :: "int VRApp" where
  "TimeStampServer =
     \<lparr>LeaderUpcall = (\<lambda>ts opnum str1. Inr (True, str1, ts)),
      ReplicaUpcall = (\<lambda>ts opnum str1. newTimeStamp ts),
      VRUnloggedUpcall = (\<lambda>ts str1. Inr ('''', ts))\<rparr>"

lemma timeserver_pure: "pure_upcalls TimeStampServer"
  by (simp add: pure_upcalls_def TimeStampServer_def)

lemma timeserver_upcall [simp]: "ReplicaUpcall TimeStampServer ts n op = newTimeStamp ts"
  by (simp add: TimeStampServer_def)

lemma timeserver_replay:
  "replay TimeStampServer ts n reqs = Inr ts' \<Longrightarrow> ts' = ts + int (length reqs)"
  by (induction reqs arbitrary: ts n) (fastforce simp: newTimeStamp_def split: if_splits)+

lemma timeserver_reply:
  assumes "valid_reply TimeStampServer TimeStampServer_new L m" and "length L < 2 ^ 64"
  shows "rm_reply m = to_string (uint (rm_opnum m)) \<and> 0 < rm_opnum m \<and> uint (rm_opnum m) < 2 ^ 63"
proof -
  from assms(1) obtain k st where k: "1 \<le> k" "k \<le> length L"
      "replay TimeStampServer 0 1 (map snd (take (k - 1) L)) = Inr st" "answers TimeStampServer st (of_nat k) (snd (L ! (k - 1))) m"
    by (auto simp: valid_reply_def TimeStampServer_new_def)
  have "st = int k - 1" using timeserver_replay [OF k(3)] k(1,2) by (simp add: of_nat_diff min_absorb2)
  then have "rm_reply m = to_string (int k)" "int k < 2 ^ 63"
    using k(4) by (auto simp: answers_def newTimeStamp_def split: if_splits)
  moreover have u: "uint (rm_opnum m) = int k"
    using k(2,4) assms(2) by (simp add: answers_def uint_nat unat_of_nat take_bit_nat_eq_self)
  moreover have "0 < rm_opnum m" using u k(1) by (simp add: word_less_alt)
  ultimately show ?thesis by simp
qed

lemma timeserver_answers:
  assumes "vr_run (cfg_n cfg) dead TimeStampServer (vr_start cfg bs TimeStampServer_new) evs = Some s"
    and "0 < cfg_n cfg" and "\<forall>i. Fire i ViewChangeTimer \<notin> set evs" and "(i, d, VReply m) \<in> set (packets s)"
  shows "0 < rm_opnum m \<and> stol (rm_reply m) = Inr (uint (rm_opnum m))"
proof -
  note inv = replayed_reached [OF assms(1,2) timeserver_pure assms(3)]
  let ?L = "ops (nodes s 0)"
  have len: "length ?L < 2 ^ 64"
    using log_ok_length [of "nodes s 0"] vr_norm_on_log [OF inv(1) _ assms(2)] u64_bound [of "lastOp (nodes s 0)"]
    by (simp add: on_log_def)
  have "refused TimeStampServer m \<or> valid_reply TimeStampServer TimeStampServer_new ?L m"
    using inv(2) assms(4) by (simp add: replayed_def)
  moreover have "\<not> refused TimeStampServer m" by (simp add: refused_def TimeStampServer_def)
  ultimately have "rm_reply m = to_string (uint (rm_opnum m)) \<and> 0 < rm_opnum m \<and> uint (rm_opnum m) < 2 ^ 63"
    using timeserver_reply [OF _ len] by blast
  then show ?thesis using stol_to_string [of "uint (rm_opnum m)"] by simp
qed

lemma timeserver_place:
  assumes "vr_run (cfg_n cfg) dead TimeStampServer (vr_start cfg bs TimeStampServer_new) evs = Some s"
    and "0 < cfg_n cfg" and "\<forall>i. Fire i ViewChangeTimer \<notin> set evs" and "(i, d, VReply m) \<in> set (packets s)"
    and "reqs = map le_request (entries (vr_log (nodes s 0)))"
  shows "unat (rm_opnum m) \<le> length reqs \<and> rm_clientreqid m = clientreqid (reqs ! (unat (rm_opnum m) - 1))"
proof -
  note inv = replayed_reached [OF assms(1,2) timeserver_pure assms(3)]
  let ?L = "ops (nodes s 0)"
  have len: "length ?L < 2 ^ 64"
    using log_ok_length [of "nodes s 0"] vr_norm_on_log [OF inv(1) _ assms(2)] u64_bound [of "lastOp (nodes s 0)"]
    by (simp add: on_log_def)
  have reqs: "reqs = map snd ?L" unfolding assms(5) by (rule ops_requests [symmetric])
  have "\<not> refused TimeStampServer m" by (simp add: refused_def TimeStampServer_def)
  then have "valid_reply TimeStampServer TimeStampServer_new ?L m" using inv(2) assms(4) by (simp add: replayed_def) blast
  then obtain k st where k: "1 \<le> k" "k \<le> length ?L" "answers TimeStampServer st (of_nat k) (snd (?L ! (k - 1))) m"
    by (auto simp: valid_reply_def)
  have "unat (rm_opnum m) = k" using k(2,3) len by (simp add: answers_def unat_of_nat take_bit_nat_eq_self)
  moreover have "reqs ! (k - 1) = snd (?L ! (k - 1))" unfolding reqs using k(1,2) by (intro nth_map) simp
  ultimately show ?thesis using k unfolding reqs by (simp add: answers_def)
qed

text \<open>
  C23. Timestamps are unique and follow the order of commitment: as long as no view-change timer
  fires, every answer the group of timestamp servers ever gives is, read with \<^verbatim>\<open>std::stol\<close>, the number
  of the operation it answers, which is positive; and the counter of a replica is the number of
  operations it has committed.
\<close>

theorem timestamps_number_commits:
  assumes "vr_run (cfg_n cfg) dead TimeStampServer (vr_start cfg bs TimeStampServer_new) evs = Some s"
    and "0 < cfg_n cfg" and "\<forall>i. Fire i ViewChangeTimer \<notin> set evs"
  shows "(\<forall>i d m. (i, d, VReply m) \<in> set (packets s) \<longrightarrow>
      0 < rm_opnum m \<and> stol (rm_reply m) = Inr (uint (rm_opnum m))) \<and>
    (\<forall>i. 0 \<le> i \<and> i < cfg_n cfg \<longrightarrow> vr_app (nodes s i) = uint (lastCommitted (nodes s i)))"
proof (intro conjI allI impI)
  fix i d m assume "(i, d, VReply m) \<in> set (packets s)"
  from timeserver_answers [OF assms this] show "0 < rm_opnum m" "stol (rm_reply m) = Inr (uint (rm_opnum m))" by blast+
next
  note inv = replayed_reached [OF assms(1,2) timeserver_pure assms(3)]
  fix i assume i: "0 \<le> i \<and> i < cfg_n cfg"
  then have "replay TimeStampServer TimeStampServer_new 1 (map snd (take (lcs s i) (ops (nodes s 0)))) = Inr (vr_app (nodes s i))"
    using inv(2) by (simp add: replayed_def)
  from timeserver_replay [OF this]
  have "vr_app (nodes s i) = int (length (take (lcs s i) (ops (nodes s 0))))" by (simp add: TimeStampServer_new_def)
  moreover have "lcs s i \<le> length (ops (nodes s 0))"
    using vr_norm_lens [OF inv(1)] i by (meson order_trans)
  ultimately show "vr_app (nodes s i) = uint (lastCommitted (nodes s i))"
    by (simp only: length_take min_absorb2 uint_nat)
qed

definition ex_tss_sys :: "int vr_sys" where
  "ex_tss_sys = the (vr_run 3 Inr TimeStampServer (vr_start (group_of 1) 1 TimeStampServer_new) ex_normal_run)"

lemma ex_tss_run: "vr_run (cfg_n (group_of 1)) Inr TimeStampServer (vr_start (group_of 1) 1 TimeStampServer_new) ex_normal_run =
    Some ex_tss_sys"
proof -
  have "vr_run 3 Inr TimeStampServer (vr_start (group_of 1) 1 TimeStampServer_new) ex_normal_run \<noteq> None" by code_simp
  then show ?thesis by (simp add: ex_tss_sys_def Configuration_of_def)
qed

lemma ex_tss_packet:
  "(0, ClientAt 1, VReply \<lparr>rm_view = 0, rm_opnum = 1, rm_clientreqid = 1, rm_reply = ''1''\<rparr>) \<in> set (packets ex_tss_sys)"
  by code_simp

theorem timestamps_number_commits_witness: "stol ''1'' = Inr 1"
proof -
  have "0 < cfg_n (group_of 1)" by (simp add: Configuration_of_def)
  from timestamps_number_commits [OF ex_tss_run this ex_normal_run_normal] ex_tss_packet show ?thesis by fastforce
qed

end
