(* ===== verification/Strong_Client.thy ===== *)
theory Strong_Client
  imports Tapir_Client Store_Servers Decimal
begin

text \<open>
  The front end of the strong store, \<^verbatim>\<open>store/strongstore/client.cc\<close>. It commits in two phases and, in the
  two Spanner-like modes, waits before it sends the commits until the commit timestamp is certainly
  past (commit wait); in mode \<open>MODE_OCC\<close> it takes a timestamp from the timestamp server.

  \<open>StrongEnv\<close> is the environment of the TAPIR client extended by two calls. \<open>se_tss\<close> is the request to
  the timestamp server: the text in \<^verbatim>\<open>replica_reply\<close> when the wait for it ends, \<open>None\<close> when it never
  ends. \<open>se_usleep\<close> is \<^verbatim>\<open>usleep\<close>, whose argument has 32 bits.
\<close>

section \<open>The client\<close>

record 'w StrongEnv =
  se_front :: "'w FrontEnv"
  se_tss :: "'w \<Rightarrow> (string \<times> 'w) option"
  se_usleep :: "32 word \<Rightarrow> 'w \<Rightarrow> 'w"

record StrongClient =
  scl_client_id :: u64
  scl_t_id :: u64
  scl_nshards :: int
  scl_participants :: "int list"
  scl_bclient :: "int \<Rightarrow> BufferClient"
  scl_mode :: Mode
  scl_timeServer :: TrueTime
  scl_commit_sleep :: int

definition StrongClient_new :: "u64 \<Rightarrow> int \<Rightarrow> u64 \<Rightarrow> Mode \<Rightarrow> int \<Rightarrow> TrueTime \<Rightarrow> StrongClient" where
  "StrongClient_new junk sleep cid mode nShards tt =
     \<lparr>scl_client_id = cid, scl_t_id = (cid div 10000) * 10000, scl_nshards = nShards, scl_participants = [],
      scl_bclient = (\<lambda>i. BufferClient_new i junk), scl_mode = mode, scl_timeServer = tt, scl_commit_sleep = sleep\<rparr>"

text \<open>The loop of \<^verbatim>\<open>Begin\<close> over the shards.\<close>

fun begin_shards ::
  "'w FrontEnv \<Rightarrow> 'w \<Rightarrow> (int \<Rightarrow> BufferClient) \<Rightarrow> u64 \<Rightarrow> int list \<Rightarrow> ((int \<Rightarrow> BufferClient) \<times> 'w) blocking" where
  "begin_shards env w bs tid [] = returns (bs, w)"
| "begin_shards env w bs tid (i # is) =
     bbind (BufferClient_Begin env w (bs i) tid) (\<lambda>(b, w1). begin_shards env w1 (bs(i := b)) tid is)"

definition StrongClient_Begin :: "'w FrontEnv \<Rightarrow> 'w \<Rightarrow> StrongClient \<Rightarrow> (StrongClient \<times> 'w) blocking" where
  "StrongClient_Begin env w c =
     (let c1 = c\<lparr>scl_t_id := scl_t_id c + 1, scl_participants := [], scl_commit_sleep := - 1\<rparr> in
      bbind (begin_shards env w (scl_bclient c1) (scl_t_id c1) [0..scl_nshards c1 - 1]) (\<lambda>(bs, w1).
        returns (c1\<lparr>scl_bclient := bs\<rparr>, w1)))"

definition StrongClient_Get ::
  "'w FrontEnv \<Rightarrow> 'w \<Rightarrow> StrongClient \<Rightarrow> string \<Rightarrow> ((int \<times> string) \<times> StrongClient \<times> 'w) blocking" where
  "StrongClient_Get env w c key =
     obind (shard_index key (of_int (scl_nshards c))) (\<lambda>i.
       let c1 = c\<lparr>scl_participants := set_insert i (scl_participants c)\<rparr> in
       bbind (BufferClient_Get env w (scl_bclient c1 i) key (Some (Promise_new GET_TIMEOUT))) (\<lambda>(po, b, w1).
         case po of
           None \<Rightarrow> Inl (Undefined ''null promise'')
         | Some promise \<Rightarrow>
             bbind (Inr (GetValue promise)) (\<lambda>v.
               bbind (Inr (GetReply promise)) (\<lambda>reply.
                 returns ((reply, v), c1\<lparr>scl_bclient := (scl_bclient c1)(i := b)\<rparr>, w1)))))"

definition StrongClient_Put :: "StrongClient \<Rightarrow> string \<Rightarrow> string \<Rightarrow> (int \<times> StrongClient) blocking" where
  "StrongClient_Put c key v =
     obind (shard_index key (of_int (scl_nshards c))) (\<lambda>i.
       let c1 = c\<lparr>scl_participants := set_insert i (scl_participants c)\<rparr> in
       obind (BufferClient_Put (scl_bclient c1 i) key v (Some (Promise_new PUT_TIMEOUT))) (\<lambda>(promise, b).
         bbind (Inr (GetReply promise)) (\<lambda>reply.
           returns (reply, c1\<lparr>scl_bclient := (scl_bclient c1)(i := b)\<rparr>))))"

text \<open>The loop of \<^verbatim>\<open>Prepare\<close> over the promises; the loop that sends the prepares is that of the TAPIR client.\<close>

fun strong_votes :: "Promise list \<Rightarrow> int \<Rightarrow> u64 \<Rightarrow> (int \<times> u64) blocking" where
  "strong_votes [] status ts = returns (status, ts)"
| "strong_votes (p # ps) status ts =
     bbind (Inr (GetReply p)) (\<lambda>reply.
       bbind (Inr (GetTimestamp p)) (\<lambda>t.
         strong_votes ps (if reply \<noteq> REPLY_OK \<and> status \<noteq> REPLY_FAIL then reply else status)
           (if getTimestamp t > ts then getTimestamp t else ts)))"

definition StrongClient_Prepare :: "'w StrongEnv \<Rightarrow> 'w \<Rightarrow> StrongClient \<Rightarrow> u64 \<Rightarrow> (int \<times> u64 \<times> 'w) blocking" where
  "StrongClient_Prepare env w c ts =
     (let (promises, w1) = send_prepares (se_front env) w (scl_bclient c) Timestamp_default (scl_participants c) in
      bbind
        (if scl_mode c = MODE_OCC then
           (case se_tss env w1 of
              None \<Rightarrow> Inr None
            | Some (replica_reply, w2) \<Rightarrow> obind (stol replica_reply) (\<lambda>v. returns (of_int v, w2)))
         else returns (ts, w1)) (\<lambda>(ts1, w2).
        bbind (strong_votes promises REPLY_OK ts1) (\<lambda>(status, ts2). returns (status, ts2, w2))))"

definition StrongClient_Abort :: "'w FrontEnv \<Rightarrow> 'w \<Rightarrow> StrongClient \<Rightarrow> 'w" where
  "StrongClient_Abort env w c = fold (\<lambda>p w. BufferClient_Abort env w (scl_bclient c p)) (scl_participants c) w"

text \<open>The retry loop of \<^verbatim>\<open>Commit\<close>, with the number of rounds that are left.\<close>

fun strong_rounds :: "'w StrongEnv \<Rightarrow> nat \<Rightarrow> int \<Rightarrow> 'w \<Rightarrow> StrongClient \<Rightarrow> u64 \<Rightarrow> (int \<times> u64 \<times> 'w) blocking" where
  "strong_rounds env 0 status w c ts = returns (status, ts, w)"
| "strong_rounds env (Suc left) status w c ts =
     bbind (StrongClient_Prepare env w c ts) (\<lambda>(status1, ts1, w1).
       if status1 = REPLY_OK \<or> status1 = REPLY_FAIL then returns (status1, ts1, w1)
       else strong_rounds env left status1 w1 c ts1)"

section \<open>Commit wait\<close>

definition tv_micros :: "timeval \<Rightarrow> int" where
  "tv_micros t = tv_sec t * 1000000 + tv_usec t"

text \<open>The busy-wait loop: it ends when the clock shows that more than \<open>err\<close> microseconds have passed since \<open>t1\<close>.\<close>

partial_function (option) busy_wait :: "'w FrontEnv \<Rightarrow> timeval \<Rightarrow> int \<Rightarrow> 'w \<Rightarrow> 'w option" where
  "busy_wait env t1 err w =
     (let (t2, w1) = fe_gettimeofday env w in
      if (tv_sec t2 - tv_sec t1) * 1000000 + (tv_usec t2 - tv_usec t1) > err then Some w1
      else busy_wait env t1 err w1)"

declare busy_wait.simps [code]

definition time_diff :: "u64 \<Rightarrow> u64 \<Rightarrow> u64" where
  "time_diff ts now =
     (drop_bit 32 ts - drop_bit 32 now) * 1000000 + (take_bit 32 ts - take_bit 32 now)"

definition commit_wait :: "'w StrongEnv \<Rightarrow> TrueTime \<Rightarrow> u64 \<Rightarrow> 'w \<Rightarrow> (u64 \<times> int \<times> 'w) blocking" where
  "commit_wait env tt ts w =
     (let (t1, w1) = fe_gettimeofday (se_front env) w;
          (tv, w2) = fe_gettimeofday (se_front env) w1;
          (now, err0) = GetTimeAndError tt tv;
          (ts1, err) = (if now > ts then (now, err0) else (ts, err0 + time_diff ts now));
          sleep = sint (ucast err :: 32 word);
          w3 = (if err > 150 then se_usleep env (ucast (err - 150)) w2 else w2)
      in case busy_wait (se_front env) t1 (sint err) w3 of
           None \<Rightarrow> Inr None
         | Some w4 \<Rightarrow> returns (ts1, sleep, w4))"

definition StrongClient_Commit :: "'w StrongEnv \<Rightarrow> 'w \<Rightarrow> StrongClient \<Rightarrow> (bool \<times> StrongClient \<times> 'w) blocking" where
  "StrongClient_Commit env w c =
     bbind (strong_rounds env COMMIT_RETRIES REPLY_RETRY w c 0) (\<lambda>(status, ts, w1).
       if status = REPLY_OK then
         bbind
           (if scl_mode c = MODE_SPAN_OCC \<or> scl_mode c = MODE_SPAN_LOCK then commit_wait env (scl_timeServer c) ts w1
            else returns (ts, scl_commit_sleep c, w1)) (\<lambda>(ts1, sleep, w2).
           returns (True, c\<lparr>scl_commit_sleep := sleep\<rparr>,
             fold (\<lambda>p w. BufferClient_Commit (se_front env) w (scl_bclient c p) ts1) (scl_participants c) w2))
       else returns (False, c, StrongClient_Abort (se_front env) w1 c))"

section \<open>The commit protocol\<close>

definition slogged :: "'w StrongEnv \<Rightarrow> ('w \<times> fe_call list) StrongEnv" where
  "slogged env =
     \<lparr>se_front = logged (se_front env),
      se_tss = (\<lambda>wl. map_option (\<lambda>(r, w1). (r, w1, snd wl)) (se_tss env (fst wl))),
      se_usleep = (\<lambda>n wl. (se_usleep env n (fst wl), snd wl))\<rparr>"

lemma slogged_simps [simp]:
  "se_front (slogged env) = logged (se_front env)"
  "se_tss (slogged env) wl = map_option (\<lambda>(r, w1). (r, w1, snd wl)) (se_tss env (fst wl))"
  "se_usleep (slogged env) n wl = (se_usleep env n (fst wl), snd wl)"
  by (simp_all add: slogged_def)

definition sbuffers :: "StrongClient \<Rightarrow> BufferClient list" where
  "sbuffers c = map (scl_bclient c) (scl_participants c)"

definition sprepares :: "StrongClient \<Rightarrow> Promise list \<Rightarrow> fe_call list" where
  "sprepares c ps = map2 (\<lambda>b p. CPrepare (bc_shard b) (bc_tid b) (bc_txn b) Timestamp_default p) (sbuffers c) ps"

definition scommits :: "StrongClient \<Rightarrow> u64 \<Rightarrow> fe_call list" where
  "scommits c ts = map (\<lambda>b. CCommit (bc_shard b) (bc_tid b) (bc_txn b) ts) (sbuffers c)"

definition saborts :: "StrongClient \<Rightarrow> fe_call list" where
  "saborts c = map (\<lambda>b. CAbort (bc_shard b) (bc_tid b) Transaction_empty) (sbuffers c)"

text \<open>
  The protocol. A round asks every participant; it ends the transaction when all consent or when one
  refuses. The commits follow only upon consent, after the clock readings of the commit wait, all
  with one timestamp that is not below any that a participant proposed.
\<close>

inductive strong_two_phase :: "StrongClient \<Rightarrow> nat \<Rightarrow> fe_call list \<Rightarrow> bool \<Rightarrow> bool" for c where
  sp_commit: "length ps = length (scl_participants c) \<Longrightarrow>
    \<forall>p\<in>set ps. pr_reply p = REPLY_OK \<and> getTimestamp (pr_timestamp p) \<le> ts \<Longrightarrow>
    (if scl_mode c = MODE_SPAN_OCC \<or> scl_mode c = MODE_SPAN_LOCK then length waits \<ge> 3 else waits = []) \<Longrightarrow>
    strong_two_phase c (Suc n) (sprepares c ps @ map CClock waits @ scommits c ts) True"
| sp_refuse: "length ps = length (scl_participants c) \<Longrightarrow> \<exists>p\<in>set ps. pr_reply p = REPLY_FAIL \<Longrightarrow>
    strong_two_phase c (Suc n) (sprepares c ps @ saborts c) False"
| sp_retry: "length ps = length (scl_participants c) \<Longrightarrow> \<forall>p\<in>set ps. pr_reply p \<noteq> REPLY_FAIL \<Longrightarrow>
    \<exists>p\<in>set ps. pr_reply p \<noteq> REPLY_OK \<Longrightarrow> strong_two_phase c n l ok \<Longrightarrow>
    strong_two_phase c (Suc n) (sprepares c ps @ l) ok"
| sp_give_up: "strong_two_phase c 0 (saborts c) False"

lemma strong_votes_result:
  "strong_votes ps status ts = returns (s, ts') \<Longrightarrow>
   ts \<le> ts' \<and> (\<forall>p\<in>set ps. getTimestamp (pr_timestamp p) \<le> ts') \<and>
   (s = REPLY_OK \<longleftrightarrow> status = REPLY_OK \<and> (\<forall>p\<in>set ps. pr_reply p = REPLY_OK)) \<and>
   (s = REPLY_FAIL \<longleftrightarrow> status = REPLY_FAIL \<or> (\<exists>p\<in>set ps. pr_reply p = REPLY_FAIL))"
proof (induction ps arbitrary: status ts)
  case (Cons p ps)
  then have d: "pr_done p" by (auto simp: GetReply_def split: if_splits)
  let ?st = "if pr_reply p \<noteq> REPLY_OK \<and> status \<noteq> REPLY_FAIL then pr_reply p else status"
  let ?t = "getTimestamp (pr_timestamp p)"
  have "strong_votes ps ?st (if ?t > ts then ?t else ts) = returns (s, ts')"
    using Cons.prems d by (simp add: GetReply_def GetTimestamp_def)
  note IH = Cons.IH [OF this]
  have "ts \<le> ts' \<and> ?t \<le> ts'" using conjunct1 [OF IH] by (auto split: if_splits)
  moreover have "?st = REPLY_OK \<longleftrightarrow> status = REPLY_OK \<and> pr_reply p = REPLY_OK" by (auto simp: reply_defs)
  moreover have "?st = REPLY_FAIL \<longleftrightarrow> status = REPLY_FAIL \<or> pr_reply p = REPLY_FAIL" by (auto simp: reply_defs)
  ultimately show ?case using IH by (simp only: list.set ball_simps bex_simps simp_thms) blast
qed auto

lemma strong_votes_returns: "\<forall>p\<in>set ps. pr_done p \<Longrightarrow> \<exists>s ts'. strong_votes ps status ts = returns (s, ts')"
  by (induction ps arbitrary: status ts) (simp_all add: GetTimestamp_def GetReply_def)

lemma StrongClient_Prepare_logged:
  assumes "StrongClient_Prepare (slogged env) (w, l) c ts = returns (status, ts', w', l')"
  obtains ps where "length ps = length (scl_participants c)" and "l' = l @ sprepares c ps"
    and "\<forall>p\<in>set ps. getTimestamp (pr_timestamp p) \<le> ts'"
    and "status = REPLY_OK \<longleftrightarrow> (\<forall>p\<in>set ps. pr_reply p = REPLY_OK)"
    and "status = REPLY_FAIL \<longleftrightarrow> (\<exists>p\<in>set ps. pr_reply p = REPLY_FAIL)"
proof -
  obtain ps w1 l1 where sp: "send_prepares (logged (se_front env)) (w, l) (scl_bclient c) Timestamp_default (scl_participants c) =
      (ps, w1, l1)" by (metis surj_pair)
  obtain ts1 where v: "strong_votes ps REPLY_OK ts1 = returns (status, ts')" and "l' = l1"
    using assms sp by (auto simp: StrongClient_Prepare_def split: if_splits option.splits)
  moreover have "length ps = length (scl_participants c)" "l1 = l @ sprepares c ps"
    using send_prepares_logged [OF sp] by (simp_all add: sprepares_def sbuffers_def)
  moreover have "REPLY_OK \<noteq> REPLY_FAIL" by (simp add: reply_defs)
  ultimately show thesis using strong_votes_result [OF v] that by auto
qed

lemma busy_wait_logged:
  assumes "busy_wait (logged env) t1 err wl = Some wl'"
  shows "\<exists>ws t2. snd wl' = snd wl @ map CClock (ws @ [t2]) \<and> tv_micros t2 - tv_micros t1 > err \<and>
     (\<forall>t\<in>set ws. tv_micros t - tv_micros t1 \<le> err)"
proof -
  let ?P = "\<lambda>e t1 err wl wl'. e = logged env \<longrightarrow>
    (\<exists>ws t2. snd wl' = snd wl @ map CClock (ws @ [t2]) \<and> tv_micros t2 - tv_micros t1 > err \<and>
       (\<forall>t\<in>set ws. tv_micros t - tv_micros t1 \<le> err))"
  have "?P (logged env) t1 err wl wl'"
  proof (rule busy_wait.raw_induct [of ?P, OF _ assms], rule impI)
    fix bw :: "('a \<times> fe_call list) FrontEnv \<Rightarrow> timeval \<Rightarrow> int \<Rightarrow> 'a \<times> fe_call list \<Rightarrow> ('a \<times> fe_call list) option"
      and e :: "('a \<times> fe_call list) FrontEnv" and t1 err wl wl'
    assume IH: "\<And>e t1 err wl wl'. bw e t1 err wl = Some wl' \<Longrightarrow> ?P e t1 err wl wl'"
      and step: "(let (t2, w1) = fe_gettimeofday e wl in
        if (tv_sec t2 - tv_sec t1) * 1000000 + (tv_usec t2 - tv_usec t1) > err then Some w1 else bw e t1 err w1) = Some wl'"
      and e: "e = logged env"
    obtain t2 w1 where ck: "fe_gettimeofday e wl = (t2, w1)" by (metis surj_pair)
    have l: "snd w1 = snd wl @ [CClock t2]"
      using ck clock_logged [of env "fst wl" "snd wl" t2 "fst w1" "snd w1"] by (simp add: e)
    have d: "(tv_sec t2 - tv_sec t1) * 1000000 + (tv_usec t2 - tv_usec t1) = tv_micros t2 - tv_micros t1"
      by (simp add: tv_micros_def)
    show "\<exists>ws t2. snd wl' = snd wl @ map CClock (ws @ [t2]) \<and> tv_micros t2 - tv_micros t1 > err \<and>
        (\<forall>t\<in>set ws. tv_micros t - tv_micros t1 \<le> err)"
    proof (cases "tv_micros t2 - tv_micros t1 > err")
      case True
      then have "wl' = w1" using step ck d by simp
      then show ?thesis using l True by (intro exI [of _ "[]"] exI [of _ t2]) simp
    next
      case False
      then have "bw e t1 err w1 = Some wl'" using step ck d by simp
      from IH [OF this] e obtain ws t3 where "snd wl' = snd w1 @ map CClock (ws @ [t3])" "tv_micros t3 - tv_micros t1 > err"
        "\<forall>t\<in>set ws. tv_micros t - tv_micros t1 \<le> err" by blast
      then show ?thesis using l False by (intro exI [of _ "t2 # ws"] exI [of _ t3]) simp
    qed
  qed
  then show ?thesis by blast
qed

text \<open>The readings of a commit wait and what it makes of them.\<close>

lemma commit_wait_logged:
  assumes "commit_wait (slogged env) tt ts (w, l) = returns (ts', sleep, w', l')"
  obtains t1 tv ws t2 err where "l' = l @ map CClock (t1 # tv # ws @ [t2])"
    and "(ts', err) = (if GetTime tt tv > ts then (GetTime tt tv, simError tt) else (ts, simError tt + time_diff ts (GetTime tt tv)))"
    and "tv_micros t2 - tv_micros t1 > sint err" and "sleep = sint (ucast err :: 32 word)"
proof -
  obtain t1 w1 l1 where c1: "fe_gettimeofday (logged (se_front env)) (w, l) = (t1, w1, l1)" by (metis surj_pair)
  obtain tv w2 l2 where c2: "fe_gettimeofday (logged (se_front env)) (w1, l1) = (tv, w2, l2)" by (metis surj_pair)
  obtain ts1 err where te: "(ts1, err) = (if GetTime tt tv > ts then (GetTime tt tv, simError tt)
      else (ts, simError tt + time_diff ts (GetTime tt tv)))" by (metis surj_pair)
  obtain w3 where w3: "(if err > 150 then se_usleep (slogged env) (ucast (err - 150)) (w2, l2) else (w2, l2)) = (w3, l2)"
    by (cases "err > 150") auto
  have bw: "busy_wait (logged (se_front env)) t1 (sint err) (w3, l2) = Some (w', l')" and ts: "ts' = ts1"
    and sl: "sleep = sint (ucast err :: 32 word)"
    using assms c1 c2 te [symmetric] w3
    by (simp_all add: commit_wait_def GetTimeAndError_def del: slogged_simps(3) split: option.splits)
  obtain ws t2 where "l' = l2 @ map CClock (ws @ [t2])" "tv_micros t2 - tv_micros t1 > sint err"
    using busy_wait_logged [OF bw] by auto
  then show thesis using that [of t1 tv ws t2 err] te ts sl clock_logged [OF c1] clock_logged [OF c2] by simp
qed

definition waits_fit :: "StrongClient \<Rightarrow> timeval list \<Rightarrow> bool" where
  "waits_fit c waits \<longleftrightarrow>
     (if scl_mode c = MODE_SPAN_OCC \<or> scl_mode c = MODE_SPAN_LOCK then length waits \<ge> 3 else waits = [])"

lemma strong_rounds_two_phase:
  assumes "strong_rounds (slogged env) n st (w, l) c ts = returns (status, ts', w', l')" and "st \<noteq> REPLY_OK"
  shows "\<exists>l1. l' = l @ l1 \<and>
    (status = REPLY_OK \<longrightarrow> (\<forall>waits t. waits_fit c waits \<and> ts' \<le> t \<longrightarrow>
       strong_two_phase c n (l1 @ map CClock waits @ scommits c t) True)) \<and>
    (status \<noteq> REPLY_OK \<longrightarrow> strong_two_phase c n (l1 @ saborts c) False)"
  using assms
proof (induction n arbitrary: st w l ts)
  case 0
  then show ?case by (auto intro: sp_give_up)
next
  case (Suc n)
  obtain s1 t1 w1 l1 where p: "StrongClient_Prepare (slogged env) (w, l) c ts = returns (s1, t1, w1, l1)"
    and r: "if s1 = REPLY_OK \<or> s1 = REPLY_FAIL then status = s1 \<and> ts' = t1 \<and> l' = l1
            else strong_rounds (slogged env) n s1 (w1, l1) c t1 = returns (status, ts', w', l')"
    using Suc.prems(1) by (auto split: if_splits)
  obtain ps where ps: "length ps = length (scl_participants c)" "l1 = l @ sprepares c ps"
    "\<forall>p\<in>set ps. getTimestamp (pr_timestamp p) \<le> t1" "s1 = REPLY_OK \<longleftrightarrow> (\<forall>p\<in>set ps. pr_reply p = REPLY_OK)"
    "s1 = REPLY_FAIL \<longleftrightarrow> (\<exists>p\<in>set ps. pr_reply p = REPLY_FAIL)"
    by (rule StrongClient_Prepare_logged [OF p])
  consider (ok) "s1 = REPLY_OK" | (fail) "s1 = REPLY_FAIL" "s1 \<noteq> REPLY_OK" | (retry) "s1 \<noteq> REPLY_OK" "s1 \<noteq> REPLY_FAIL"
    by blast
  then show ?case
  proof cases
    case ok
    have "strong_two_phase c (Suc n) (sprepares c ps @ map CClock waits @ scommits c t) True"
      if "waits_fit c waits" "t1 \<le> t" for waits t
      by (rule sp_commit [OF ps(1)]) (use ps(3,4) ok that order_trans in \<open>auto simp: waits_fit_def\<close>)
    then show ?thesis using ok r ps(2) by simp
  next
    case fail
    then have "strong_two_phase c (Suc n) (sprepares c ps @ saborts c) False" using sp_refuse [OF ps(1)] ps(5) by blast
    then show ?thesis using fail r ps(2) by simp
  next
    case retry
    then have rr: "strong_rounds (slogged env) n s1 (w1, l1) c t1 = returns (status, ts', w', l')" using r by simp
    obtain l2 where l2: "l' = l1 @ l2"
      "status = REPLY_OK \<longrightarrow> (\<forall>waits t. waits_fit c waits \<and> ts' \<le> t \<longrightarrow>
         strong_two_phase c n (l2 @ map CClock waits @ scommits c t) True)"
      "status \<noteq> REPLY_OK \<longrightarrow> strong_two_phase c n (l2 @ saborts c) False"
      using Suc.IH [OF rr retry(1)] by blast
    have "strong_two_phase c (Suc n) (sprepares c ps @ x) ok" if "strong_two_phase c n x ok" for x ok
      by (rule sp_retry [OF ps(1) _ _ that]) (use ps(4,5) retry in auto)
    then show ?thesis using l2 ps(2) by simp
  qed
qed

text \<open>
  C12. The commit of the strong client follows the two-phase commit protocol \<open>strong_two_phase\<close>,
  whatever the shards answer: at most five rounds of prepares, each to all participants with the
  buffered transaction; it sends commits, to every participant and all with one timestamp not below
  any that the participants of the last round proposed, and then returns true, exactly if all of
  them consented; in the Spanner modes it reads the clock at least three times in between. Otherwise
  it sends an abort to every participant and returns false.
\<close>

theorem strong_client_two_phase:
  assumes "StrongClient_Commit (slogged env) (w, []) c = returns (ok, c', w', calls)"
  shows "strong_two_phase c 5 calls ok"
proof -
  obtain status ts w1 l1 where r: "strong_rounds (slogged env) COMMIT_RETRIES REPLY_RETRY (w, []) c 0 = returns (status, ts, w1, l1)"
    using assms by (auto simp: StrongClient_Commit_def)
  have "REPLY_RETRY \<noteq> REPLY_OK" by (simp add: reply_defs)
  from strong_rounds_two_phase [OF r this]
  have sp: "status = REPLY_OK \<longrightarrow> (\<forall>waits t. waits_fit c waits \<and> ts \<le> t \<longrightarrow>
       strong_two_phase c 5 (l1 @ map CClock waits @ scommits c t) True)"
    "status \<noteq> REPLY_OK \<longrightarrow> strong_two_phase c 5 (l1 @ saborts c) False"
    by (simp_all add: COMMIT_RETRIES_def)
  show ?thesis
  proof (cases "status = REPLY_OK")
    case False
    have "calls = l1 @ saborts c" "\<not> ok"
      using assms r False aborts_logged [of "se_front env" "scl_bclient c" "scl_participants c" w1 l1]
      by (auto simp: StrongClient_Commit_def StrongClient_Abort_def saborts_def sbuffers_def)
    then show ?thesis using sp(2) False by simp
  next
    case True
    obtain t sleep w2 l2 where cw: "(if scl_mode c = MODE_SPAN_OCC \<or> scl_mode c = MODE_SPAN_LOCK
          then commit_wait (slogged env) (scl_timeServer c) ts (w1, l1)
          else returns (ts, scl_commit_sleep c, w1, l1)) = returns (t, sleep, w2, l2)"
      and calls: "(w', calls) = fold (\<lambda>p w. BufferClient_Commit (logged (se_front env)) w (scl_bclient c p) t) (scl_participants c) (w2, l2)"
      and ok using assms r True by (auto simp: StrongClient_Commit_def)
    have "\<exists>waits. l2 = l1 @ map CClock waits \<and> waits_fit c waits \<and> ts \<le> t"
    proof (cases "scl_mode c = MODE_SPAN_OCC \<or> scl_mode c = MODE_SPAN_LOCK")
      case True
      with cw have "commit_wait (slogged env) (scl_timeServer c) ts (w1, l1) = returns (t, sleep, w2, l2)" by simp
      then obtain t1 tv ws t2 err where cl: "l2 = l1 @ map CClock (t1 # tv # ws @ [t2])"
        and te: "(t, err) = (if GetTime (scl_timeServer c) tv > ts then (GetTime (scl_timeServer c) tv, simError (scl_timeServer c))
          else (ts, simError (scl_timeServer c) + time_diff ts (GetTime (scl_timeServer c) tv)))"
        by (rule commit_wait_logged)
      have "ts \<le> t" using te by (auto split: if_splits)
      with cl True show ?thesis by (intro exI [of _ "t1 # tv # ws @ [t2]"]) (simp add: waits_fit_def)
    next
      case False
      then show ?thesis using cw by (auto simp: waits_fit_def)
    qed
    then obtain waits where "l2 = l1 @ map CClock waits" "waits_fit c waits" "ts \<le> t" by blast
    moreover have "calls = l2 @ scommits c t"
      using commits_logged [OF calls [symmetric]] by (simp add: scommits_def sbuffers_def)
    ultimately show ?thesis using sp(1) True \<open>ok\<close> by simp
  qed
qed


section \<open>External consistency\<close>

text \<open>
  A timestamp holds seconds in its upper half and microseconds in its lower half. \<open>micros_of\<close> is the
  time it stands for; a clock reading is normal if its microseconds stay below a second.
\<close>

definition micros_of :: "u64 \<Rightarrow> int" where
  "micros_of ts = uint (drop_bit 32 ts) * 1000000 + uint (take_bit 32 ts)"

definition normal_reading :: "timeval \<Rightarrow> bool" where
  "normal_reading t \<longleftrightarrow> 0 < tv_sec t \<and> tv_sec t < 2 ^ 32 - 1 \<and> 0 \<le> tv_usec t \<and> tv_usec t < 1000000"

definition small_skew :: "TrueTime \<Rightarrow> bool" where
  "small_skew tt \<longleftrightarrow> - 1000000 \<le> sint (simSkew tt) \<and> sint (simSkew tt) \<le> 1000000"

lemma ts_halves: "uint (drop_bit 32 (ts :: u64)) = uint ts div 2 ^ 32" "uint (take_bit 32 (ts :: u64)) = uint ts mod 2 ^ 32"
  by (simp_all add: uint_div uint_mod drop_bit_eq_div take_bit_eq_mod)

lemma skewed_now_micros:
  assumes "normal_reading t" and "small_skew tt"
  shows "tv_micros (skewed_now tt t) = tv_micros t + sint (simSkew tt)"
    and "0 \<le> tv_usec (skewed_now tt t)" "tv_usec (skewed_now tt t) < 1000000"
    and "0 \<le> tv_sec (skewed_now tt t)" "tv_sec (skewed_now tt t) < 2 ^ 32"
proof -
  have "(word_of_int (tv_usec t) + simSkew tt :: u64) = word_of_int (tv_usec t + sint (simSkew tt))" by simp
  also have "sint \<dots> = tv_usec t + sint (simSkew tt)"
    using assms unfolding normal_reading_def small_skew_def
    by (simp only: signed_of_int) (simp add: signed_take_bit_int_eq_self)
  finally have "sint (word_of_int (tv_usec t) + simSkew tt :: u64) = tv_usec t + sint (simSkew tt)" .
  then show "tv_micros (skewed_now tt t) = tv_micros t + sint (simSkew tt)"
    and "0 \<le> tv_usec (skewed_now tt t)" "tv_usec (skewed_now tt t) < 1000000"
    and "0 \<le> tv_sec (skewed_now tt t)" "tv_sec (skewed_now tt t) < 2 ^ 32"
    using assms by (auto simp: skewed_now_def Let_def tv_micros_def normal_reading_def small_skew_def)
qed

lemma GetTime_micros:
  assumes "normal_reading t" and "small_skew tt"
  shows "micros_of (GetTime tt t) = tv_micros t + sint (simSkew tt)" and "uint (take_bit 32 (GetTime tt t)) < 1000000"
proof -
  note n = skewed_now_micros [OF assms]
  let ?n = "skewed_now tt t"
  have "uint (word_of_int (tv_sec ?n) :: u64) = tv_sec ?n" "uint (word_of_int (tv_usec ?n) :: u64) = tv_usec ?n"
    using n(2-5) by (simp_all add: uint_word_of_int)
  then have u: "uint (GetTime tt t) = tv_sec ?n * 2 ^ 32 + tv_usec ?n"
    using n(2-5) by (simp add: GetTime_def Let_def push_bit_or_word)
  have "uint (GetTime tt t) div 2 ^ 32 = tv_sec ?n" "uint (GetTime tt t) mod 2 ^ 32 = tv_usec ?n"
    unfolding u using n(2,3) by simp_all
  then show "micros_of (GetTime tt t) = tv_micros t + sint (simSkew tt)" "uint (take_bit 32 (GetTime tt t)) < 1000000"
    unfolding micros_of_def ts_halves n(1) [symmetric] using n(3) by (simp_all add: tv_micros_def)
qed

lemma micros_mono:
  assumes "now \<le> ts" and "uint (take_bit 32 now) < 1000000"
  shows "micros_of now \<le> micros_of ts"
proof -
  have le: "uint now div 2 ^ 32 \<le> uint ts div 2 ^ 32"
    using assms(1) by (intro zdiv_mono1) (simp_all add: word_le_def)
  have lo: "uint now mod 2 ^ 32 < 1000000" "0 \<le> uint ts mod 2 ^ 32" using assms(2) by (simp_all add: ts_halves)
  show ?thesis
  proof (cases "uint now div 2 ^ 32 = uint ts div 2 ^ 32")
    case True
    then have "uint now mod 2 ^ 32 \<le> uint ts mod 2 ^ 32"
      using assms(1) by (metis add_le_cancel_left div_mult_mod_eq word_le_def)
    then show ?thesis using True by (simp add: micros_of_def ts_halves)
  next
    case False
    then have "uint now div 2 ^ 32 + 1 \<le> uint ts div 2 ^ 32" using le by simp
    then show ?thesis using lo by (simp add: micros_of_def ts_halves)
  qed
qed

lemma time_diff_micros:
  assumes "now \<le> ts" and "uint (take_bit 32 now) < 1000000"
  shows "uint (time_diff ts now) = micros_of ts - micros_of now" and "uint (time_diff ts now) < 2 ^ 53"
proof -
  let ?d = "micros_of ts - micros_of now"
  have td: "time_diff ts now = of_int ?d"
    by (simp add: time_diff_def micros_of_def algebra_simps)
  have ui: "uint (of_int d :: u64) = d" if "0 \<le> d" "d < 2 ^ 53" for d
    using that by (simp add: uint_word_of_int)
  have "0 \<le> ?d" using micros_mono [OF assms] by simp
  moreover have b: "?d < 2 ^ 53"
  proof -
    have "uint ts div 2 ^ 32 < 2 ^ 32" using uint_bounded [of ts] by simp
    moreover have "uint ts mod 2 ^ 32 < 2 ^ 32" by simp
    moreover have "0 \<le> micros_of now" by (simp add: micros_of_def)
    ultimately show ?thesis by (simp add: micros_of_def ts_halves)
  qed
  ultimately show "uint (time_diff ts now) = ?d" unfolding td by (intro ui)
  then show "uint (time_diff ts now) < 2 ^ 53" using b by simp
qed

text \<open>What a commit wait guarantees of its readings \<open>t1\<close>, \<open>tv\<close>, \<dots>, \<open>t2\<close> and its timestamp.\<close>

lemma uint_plus_small: "uint (x :: u64) + uint y < 2 ^ 64 \<Longrightarrow> uint (x + y) = uint x + uint y"
  by (simp add: uint_word_ariths)

lemma commit_wait_covers:
  assumes "commit_wait (slogged env) tt ts (w, l) = returns (ts', sleep, w', l')"
    and "uint (simError tt) < 2 ^ 62" and "small_skew tt" and "\<forall>t. CClock t \<in> set l' \<longrightarrow> normal_reading t"
  obtains t1 tv ws t2 where "l' = l @ map CClock (t1 # tv # ws @ [t2])"
    and "ts \<le> ts'" and "GetTime tt tv \<le> ts'"
    and "tv_micros t2 - tv_micros t1 > uint (simError tt) + (micros_of ts' - (tv_micros tv + sint (simSkew tt)))"
proof -
  obtain t1 tv ws t2 err where l': "l' = l @ map CClock (t1 # tv # ws @ [t2])"
    and te: "(ts', err) = (if GetTime tt tv > ts then (GetTime tt tv, simError tt) else (ts, simError tt + time_diff ts (GetTime tt tv)))"
    and d: "tv_micros t2 - tv_micros t1 > sint err"
    using assms(1) by (rule commit_wait_logged)
  have "normal_reading tv" using assms(4) l' by auto
  note g = GetTime_micros [OF this assms(3)]
  have "uint err = uint (simError tt) + (micros_of ts' - micros_of (GetTime tt tv)) \<and> uint err < 2 ^ 63"
  proof (cases "GetTime tt tv > ts")
    case True
    then show ?thesis using te assms(2) by simp
  next
    case False
    then have "GetTime tt tv \<le> ts" by simp
    note td = time_diff_micros [OF this g(2)]
    have e: "err = simError tt + time_diff ts (GetTime tt tv)" "ts' = ts" using te False by simp_all
    have "uint err = uint (simError tt) + uint (time_diff ts (GetTime tt tv))"
      unfolding e by (rule uint_plus_small) (use td(2) assms(2) in simp)
    then show ?thesis using td assms(2) e by simp
  qed
  moreover have "sint x = uint x" if "uint x < 2 ^ 63" for x :: u64
  proof -
    have "- (2 ^ 63) \<le> uint x" by (rule order_trans [of _ 0]) simp_all
    then show ?thesis using that by (simp add: sint_uint signed_take_bit_int_eq_self)
  qed
  moreover have "ts \<le> ts'" "GetTime tt tv \<le> ts'" using te by (auto split: if_splits)
  ultimately show thesis using that [of t1 tv ws t2] l' d g(1) by simp
qed

text \<open>The clock readings and the commit timestamps among the calls of a commit.\<close>

definition readings :: "fe_call list \<Rightarrow> timeval list" where
  "readings calls = concat (map (\<lambda>x. case x of CClock t \<Rightarrow> [t] | _ \<Rightarrow> []) calls)"

definition commit_times :: "fe_call list \<Rightarrow> u64 set" where
  "commit_times calls = {ts. \<exists>i tid txn. CCommit i tid txn ts \<in> set calls}"

lemma readings_simps [simp]:
  "readings (xs @ ys) = readings xs @ readings ys" "readings (map CClock ts) = ts" "readings (scommits c ts') = []"
  by (auto simp: readings_def scommits_def comp_def)

lemma strong_rounds_calls:
  assumes "strong_rounds (slogged env) n st (w, l) c ts = returns (status, ts', w', l')"
  shows "\<exists>l1. l' = l @ l1 \<and> (\<forall>x\<in>set l1. \<exists>i tid txn t p. x = CPrepare i tid txn t p)"
  using assms
proof (induction n arbitrary: st w l ts)
  case (Suc n)
  obtain s1 t1 w1 l1 where p: "StrongClient_Prepare (slogged env) (w, l) c ts = returns (s1, t1, w1, l1)"
    and r: "if s1 = REPLY_OK \<or> s1 = REPLY_FAIL then l' = l1
            else strong_rounds (slogged env) n s1 (w1, l1) c t1 = returns (status, ts', w', l')"
    using Suc.prems(1) by (auto split: if_splits)
  obtain ps where "l1 = l @ sprepares c ps" by (rule StrongClient_Prepare_logged [OF p])
  moreover have "\<forall>x\<in>set (sprepares c ps). \<exists>i tid txn t p. x = CPrepare i tid txn t p"
    by (auto simp: sprepares_def)
  moreover have "\<exists>l2. l' = l1 @ l2 \<and> (\<forall>x\<in>set l2. \<exists>i tid txn t p. x = CPrepare i tid txn t p)"
    using r Suc.IH by (auto split: if_splits)
  ultimately show ?case by (metis UnE append.assoc set_append)
qed auto

lemma span_commit_calls:
  assumes "StrongClient_Commit (slogged env) (w, []) c = returns (True, c', w', calls)"
    and "scl_mode c = MODE_SPAN_OCC \<or> scl_mode c = MODE_SPAN_LOCK"
  obtains ts w1 l1 t sleep w2 l2 where "commit_wait (slogged env) (scl_timeServer c) ts (w1, l1) = returns (t, sleep, w2, l2)"
    and "calls = l2 @ scommits c t" and "\<forall>x\<in>set l1. \<exists>i tid txn t p. x = CPrepare i tid txn t p"
proof -
  obtain status ts w1 l1 where r: "strong_rounds (slogged env) COMMIT_RETRIES REPLY_RETRY (w, []) c 0 = returns (status, ts, w1, l1)"
    using assms(1) by (auto simp: StrongClient_Commit_def)
  have "status = REPLY_OK" using assms(1) r by (auto simp: StrongClient_Commit_def split: if_splits)
  then obtain t sleep w2 l2 where cw: "commit_wait (slogged env) (scl_timeServer c) ts (w1, l1) = returns (t, sleep, w2, l2)"
    and calls: "(w', calls) = fold (\<lambda>p w. BufferClient_Commit (logged (se_front env)) w (scl_bclient c p) t) (scl_participants c) (w2, l2)"
    using assms r by (auto simp: StrongClient_Commit_def)
  have "calls = l2 @ scommits c t"
    using commits_logged [OF calls [symmetric]] by (simp add: scommits_def sbuffers_def)
  moreover have "\<forall>x\<in>set l1. \<exists>i tid txn t p. x = CPrepare i tid txn t p" using strong_rounds_calls [OF r] by auto
  ultimately show thesis using that cw by blast
qed


text \<open>
  C11. External consistency of the Spanner modes: if one client's commit ends, by the clock, before
  another client reads the clock for its own commit, then the second transaction commits at a
  later timestamp than the first. This needs an error bound that covers the difference of the two
  simulated clock skews and the time between the first two clock readings of the first commit: the
  wait is measured from a reading taken before the one the timestamp comes from.
\<close>

theorem span_external_consistency:
  assumes "StrongClient_Commit (slogged env) (w, []) c = returns (True, c', w', calls)"
    and "StrongClient_Commit (slogged env2) (w2, []) c2 = returns (True, c2', w2', calls2)"
    and "scl_mode c = MODE_SPAN_OCC \<or> scl_mode c = MODE_SPAN_LOCK" "scl_mode c2 = MODE_SPAN_OCC \<or> scl_mode c2 = MODE_SPAN_LOCK"
    and "\<forall>t\<in>set (readings calls) \<union> set (readings calls2). normal_reading t"
    and "\<forall>t\<in>set (readings calls). \<forall>u\<in>set (readings calls2). tv_micros t \<le> tv_micros u"
    and "small_skew (scl_timeServer c)" "small_skew (scl_timeServer c2)"
    and "uint (simError (scl_timeServer c)) < 2 ^ 62" "uint (simError (scl_timeServer c2)) < 2 ^ 62"
    and "tv_micros (readings calls ! 1) - tv_micros (readings calls ! 0) +
      (sint (simSkew (scl_timeServer c)) - sint (simSkew (scl_timeServer c2))) \<le> uint (simError (scl_timeServer c))"
    and "t \<in> commit_times calls" "u \<in> commit_times calls2"
  shows "t < u"
proof -
  obtain ts x l1 ta sl y l2 where A: "commit_wait (slogged env) (scl_timeServer c) ts (x, l1) = returns (ta, sl, y, l2)"
    "calls = l2 @ scommits c ta" "\<forall>x\<in>set l1. \<exists>i tid txn t p. x = CPrepare i tid txn t p"
    by (rule span_commit_calls [OF assms(1,3)])
  obtain ts2 x2 m1 tb sl2 y2 m2 where B: "commit_wait (slogged env2) (scl_timeServer c2) ts2 (x2, m1) = returns (tb, sl2, y2, m2)"
    "calls2 = m2 @ scommits c2 tb" "\<forall>x\<in>set m1. \<exists>i tid txn t p. x = CPrepare i tid txn t p"
    by (rule span_commit_calls [OF assms(2,4)])
  have norm: "\<forall>t. CClock t \<in> set l2 \<longrightarrow> normal_reading t" "\<forall>t. CClock t \<in> set m2 \<longrightarrow> normal_reading t"
    using assms(5) A(2) B(2) by (force simp: readings_def)+
  obtain t1 tv ws t2 where a: "l2 = l1 @ map CClock (t1 # tv # ws @ [t2])"
    "tv_micros t2 - tv_micros t1 > uint (simError (scl_timeServer c)) + (micros_of ta - (tv_micros tv + sint (simSkew (scl_timeServer c))))"
    by (rule commit_wait_covers [OF A(1) assms(9,7) norm(1)])
  obtain v1 vv vs v2 where b: "m2 = m1 @ map CClock (v1 # vv # vs @ [v2])" "GetTime (scl_timeServer c2) vv \<le> tb"
    by (rule commit_wait_covers [OF B(1) assms(10,8) norm(2)])
  have "readings l1 = []" "readings m1 = []" using A(3) B(3) by (force simp: readings_def)+
  then have r: "readings calls = t1 # tv # ws @ [t2]" "readings calls2 = v1 # vv # vs @ [v2]"
    using A(2) B(2) a(1) b(1) by (simp_all only: readings_simps append_Nil append_Nil2)
  have vv: "normal_reading vv" using assms(5) r(2) by simp
  note g = GetTime_micros [OF vv assms(8)]
  have "tv_micros t2 \<le> tv_micros vv" using assms(6) r by simp
  then have "micros_of ta < micros_of (GetTime (scl_timeServer c2) vv)"
    using a(2) g(1) assms(11) r(1) by simp
  then have "ta < GetTime (scl_timeServer c2) vv" using micros_mono [OF _ g(2), of ta] by (meson not_le)
  then have "ta < tb" using b(2) by simp
  moreover have "commit_times calls \<subseteq> {ta}" "commit_times calls2 \<subseteq> {tb}"
    using A(2,3) B(2,3) a(1) b(1) by (fastforce simp: commit_times_def scommits_def)+
  ultimately show ?thesis using assms(12,13) by blast
qed


section \<open>Commit returns\<close>

definition tick :: "'w FrontEnv \<Rightarrow> 'w \<Rightarrow> 'w" where
  "tick env w = snd (fe_gettimeofday env w)"

definition clock_runs :: "'w FrontEnv \<Rightarrow> bool" where
  "clock_runs env \<longleftrightarrow> (\<forall>w b. \<exists>n. tv_micros (fst (fe_gettimeofday env ((tick env ^^ n) w))) > b)"

definition tss_answers :: "'w StrongEnv \<Rightarrow> bool" where
  "tss_answers env \<longleftrightarrow> (\<forall>w. \<exists>r w' v. se_tss env w = Some (r, w') \<and> stol r = Inr v)"

lemma busy_wait_returns:
  assumes "tv_micros (fst (fe_gettimeofday env ((tick env ^^ n) w))) > tv_micros t1 + err"
  shows "\<exists>w'. busy_wait env t1 err w = Some w'"
  using assms
proof (induction n arbitrary: w)
  case 0
  then show ?case
    by (subst busy_wait.simps) (auto simp: tv_micros_def split: prod.split)
next
  case (Suc n)
  then have "\<exists>w'. busy_wait env t1 err (tick env w) = Some w'" by (simp add: funpow_swap1)
  then show ?case by (subst busy_wait.simps) (auto simp: tick_def split: prod.splits)
qed

lemma commit_wait_returns:
  assumes "clock_runs (se_front env)"
  shows "\<exists>t sl w'. commit_wait env tt ts w = returns (t, sl, w')"
proof -
  have "\<exists>w'. busy_wait (se_front env) t1 err w3 = Some w'" for t1 err w3
  proof -
    obtain n where "tv_micros (fst (fe_gettimeofday (se_front env) ((tick (se_front env) ^^ n) w3))) > tv_micros t1 + err"
      using assms by (auto simp: clock_runs_def)
    then show ?thesis by (rule busy_wait_returns)
  qed
  then show ?thesis unfolding commit_wait_def Let_def
    by (auto split: prod.split option.split) (metis option.distinct(1))+
qed

lemma StrongClient_Prepare_returns:
  assumes "env_votes (se_front env)" and "tss_answers env"
  shows "\<exists>s ts' w'. StrongClient_Prepare env w c ts = returns (s, ts', w')"
proof -
  obtain ps w1 where sp: "send_prepares (se_front env) w (scl_bclient c) Timestamp_default (scl_participants c) = (ps, w1)"
    by (metis surj_pair)
  then have "\<forall>p\<in>set ps. pr_done p"
    using send_prepares_done [OF assms(1), of w "scl_bclient c" Timestamp_default "scl_participants c"] by simp
  then have v: "\<exists>s ts'. strong_votes ps REPLY_OK ts1 = returns (s, ts')" for ts1 by (rule strong_votes_returns)
  obtain r w2 x where tss: "se_tss env w1 = Some (r, w2)" "stol r = Inr x" using assms(2) unfolding tss_answers_def by blast
  show ?thesis using v [of ts] v [of "of_int x"] sp tss by (cases "scl_mode c = MODE_OCC") (auto simp: StrongClient_Prepare_def)
qed

lemma strong_rounds_returns:
  assumes "env_votes (se_front env)" and "tss_answers env"
  shows "\<exists>s ts' w'. strong_rounds env n st w c ts = returns (s, ts', w')"
proof (induction n arbitrary: st w ts)
  case (Suc n)
  obtain s1 t1 w1 where "StrongClient_Prepare env w c ts = returns (s1, t1, w1)"
    using StrongClient_Prepare_returns [OF assms] by blast
  then show ?case using Suc.IH [of s1 w1 t1] by simp
qed simp

text \<open>
  A commit of the strong client returns, the commit wait included, if every prepare is answered
  in the end, the timestamp server answers with a number, and the clock passes every point in time.
\<close>

theorem strong_client_commit_returns:
  assumes "env_votes (se_front env)" and "tss_answers env" and "clock_runs (se_front env)"
  shows "\<exists>ok c' w'. StrongClient_Commit env w c = returns (ok, c', w')"
proof -
  obtain s ts w1 where "strong_rounds env COMMIT_RETRIES REPLY_RETRY w c 0 = returns (s, ts, w1)"
    using strong_rounds_returns [OF assms(1,2)] by blast
  moreover obtain t sl w2 where "commit_wait env (scl_timeServer c) ts w1 = returns (t, sl, w2)"
    using commit_wait_returns [OF assms(3)] by blast
  ultimately show ?thesis by (auto simp: StrongClient_Commit_def)
qed

section \<open>An example\<close>

text \<open>A world that is a clock which advances by a microsecond with every reading.\<close>

definition ex_senv :: "nat StrongEnv" where
  "ex_senv =
     \<lparr>se_front = \<lparr>fe_Begin = (\<lambda>w i tid. returns w), fe_Get = (\<lambda>w i tid key tmo. (\<lambda>p. Promise_Reply_v p REPLY_OK '''', w)),
        fe_Get_at = (\<lambda>w i tid key t tmo. (\<lambda>p. Promise_Reply_v p REPLY_OK '''', w)),
        fe_Prepare = (\<lambda>w i tid txn t. (\<lambda>p. Promise_Reply_t p REPLY_OK (Timestamp 5 0), w)),
        fe_Commit = (\<lambda>w i tid txn t. w), fe_Abort = (\<lambda>w i tid txn. w),
        fe_gettimeofday = (\<lambda>w. (\<lparr>tv_sec = 1, tv_usec = int w\<rparr>, w + 1))\<rparr>,
      se_tss = (\<lambda>w. Some (''1'', w)), se_usleep = (\<lambda>n w. w)\<rparr>"

definition ex_sclient :: StrongClient where
  "ex_sclient = (StrongClient_new 0 0 7 MODE_SPAN_LOCK 1 \<lparr>simError = 1, simSkew = 0\<rparr>)\<lparr>scl_participants := [0]\<rparr>"

definition ex_calls :: "nat \<Rightarrow> fe_call list" where
  "ex_calls w = [CPrepare 0 0 Transaction_empty Timestamp_default
      \<lparr>pr_done = True, pr_timeout = 1000, pr_reply = REPLY_OK, pr_timestamp = Timestamp 5 0, pr_value = ''''\<rparr>,
    CClock \<lparr>tv_sec = 1, tv_usec = int w\<rparr>, CClock \<lparr>tv_sec = 1, tv_usec = int w + 1\<rparr>, CClock \<lparr>tv_sec = 1, tv_usec = int w + 2\<rparr>,
    CCommit 0 0 Transaction_empty (0x100000001 + of_nat w)]"

lemma ex_commit_A:
  "case StrongClient_Commit (slogged ex_senv) (0, []) ex_sclient of
     Inr (Some (ok, c', w', calls)) \<Rightarrow> ok \<and> calls = ex_calls 0 | _ \<Rightarrow> False"
  by code_simp

lemma ex_commit_B:
  "case StrongClient_Commit (slogged ex_senv) (10, []) ex_sclient of
     Inr (Some (ok, c', w', calls)) \<Rightarrow> ok \<and> calls = ex_calls 10 | _ \<Rightarrow> False"
  by code_simp


lemma case_returnsE:
  assumes "case x of Inr (Some (ok, c, w, l)) \<Rightarrow> P ok c w l | _ \<Rightarrow> False"
  obtains ok c w l where "x = returns (ok, c, w, l)" and "P ok c w l"
  using assms by (auto split: sum.splits option.splits prod.splits)

lemma ex_runs:
  obtains c w c2 w2 where "StrongClient_Commit (slogged ex_senv) (0, []) ex_sclient = returns (True, c, w, ex_calls 0)"
    and "StrongClient_Commit (slogged ex_senv) (10, []) ex_sclient = returns (True, c2, w2, ex_calls 10)"
  using ex_commit_A ex_commit_B by (elim case_returnsE) auto

theorem strong_client_two_phase_witness: "strong_two_phase ex_sclient 5 (ex_calls 0) True"
proof -
  obtain c w where "StrongClient_Commit (slogged ex_senv) (0, []) ex_sclient = returns (True, c, w, ex_calls 0)"
    by (rule ex_runs)
  then show ?thesis by (rule strong_client_two_phase)
qed

theorem span_external_consistency_witness: "(0x100000001 :: u64) < 0x10000000B"
proof -
  obtain c w c2 w2 where runs: "StrongClient_Commit (slogged ex_senv) (0, []) ex_sclient = returns (True, c, w, ex_calls 0)"
    "StrongClient_Commit (slogged ex_senv) (10, []) ex_sclient = returns (True, c2, w2, ex_calls 10)" by (rule ex_runs)
  have mode: "scl_mode ex_sclient = MODE_SPAN_OCC \<or> scl_mode ex_sclient = MODE_SPAN_LOCK"
    and tt: "scl_timeServer ex_sclient = \<lparr>simError = 1, simSkew = 0\<rparr>"
    by (simp_all add: ex_sclient_def StrongClient_new_def)
  have r: "readings (ex_calls k) = [\<lparr>tv_sec = 1, tv_usec = int k\<rparr>, \<lparr>tv_sec = 1, tv_usec = int k + 1\<rparr>, \<lparr>tv_sec = 1, tv_usec = int k + 2\<rparr>]" for k
    by (simp add: readings_def ex_calls_def)
  have "0x100000001 \<in> commit_times (ex_calls 0)" "0x10000000B \<in> commit_times (ex_calls 10)"
    by (auto simp: commit_times_def ex_calls_def)
  then show ?thesis
    by (intro span_external_consistency [OF runs mode mode])
      (simp_all add: r tt normal_reading_def small_skew_def tv_micros_def)
qed

theorem strong_client_commit_returns_witness: "\<exists>ok c' w'. StrongClient_Commit ex_senv 0 ex_sclient = returns (ok, c', w')"
proof (rule strong_client_commit_returns)
  show "env_votes (se_front ex_senv)" by (simp add: env_votes_def ex_senv_def promise_defs)
  have "stol ''1'' = Inr 1" by code_simp
  then show "tss_answers ex_senv" by (auto simp: tss_answers_def ex_senv_def)
  have "(tick (se_front ex_senv) ^^ n) w = w + n" for n w
    by (induction n) (simp_all add: tick_def ex_senv_def)
  then have "tv_micros (fst (fe_gettimeofday (se_front ex_senv) ((tick (se_front ex_senv) ^^ nat b) w))) > b" for b w
    by (simp add: ex_senv_def tv_micros_def)
  then show "clock_runs (se_front ex_senv)" unfolding clock_runs_def by blast
qed

end
