(* ===== verification/Weak_Client.thy ===== *)
theory Weak_Client
  imports Tapir_Client Store_Servers
begin

text \<open>
  The clients of the weak store: \<^verbatim>\<open>store/weakstore/shardclient.cc\<close>, which reads from the closest
  replica and writes to all of them, and \<^verbatim>\<open>store/weakstore/client.cc\<close>, whose calls wait for the promise
  they hand to the shard client. Promises are local variables of those calls; they live in a heap from
  the start of the call to its return, so that a pointer can dangle. The tasks are those posted with
  \<^verbatim>\<open>Timer(0, ...)\<close>. The system joins a client to the replicas of its shards by a network that can lose and
  repeat messages. Replies name neither the request nor the replica.
\<close>

section \<open>The shard client\<close>

text \<open>\<open>wk_active\<close> and \<open>wk_ms\<close> are the state of the \<^verbatim>\<open>Timeout\<close> object, \<open>wk_n\<close> the group size of its configuration.\<close>

datatype weak_task =
    GetTask WeakMessage nat
  | PutTask WeakMessage

record WeakShardClient =
  wk_n :: int
  wk_client_id :: u64
  wk_shard :: int
  wk_replica :: int
  wk_active :: bool
  wk_ms :: u64
  wk_totalReplies :: int
  wk_waiting :: "nat option"
  wk_heap :: "nat \<Rightarrow> Promise option"
  wk_next :: nat
  wk_tasks :: "weak_task list"

text \<open>A configuration read from a file has at least one replica, so the remainder is defined.\<close>

definition WeakShard_new :: "int \<Rightarrow> int \<Rightarrow> u64 \<Rightarrow> int \<Rightarrow> int \<Rightarrow> WeakShardClient" where
  "WeakShard_new junk n client_id shard closestReplica =
     \<lparr>wk_n = n, wk_client_id = client_id, wk_shard = shard,
      wk_replica = (if closestReplica = -1 then sint (ucast (client_id mod of_int n) :: 32 word) else closestReplica),
      wk_active = False, wk_ms = 250, wk_totalReplies = junk, wk_waiting = None,
      wk_heap = (\<lambda>_. None), wk_next = 0, wk_tasks = []\<rparr>"

definition WeakShard_Get :: "WeakShardClient \<Rightarrow> u64 \<Rightarrow> string \<Rightarrow> nat \<Rightarrow> WeakShardClient outcome" where
  "WeakShard_Get c cid key promise =
     (let msg = WeakGet (wk_client_id c) key in
      obind (assert_that (wk_waiting c = None) ''waiting == NULL'') (\<lambda>_.
        Inr (c\<lparr>wk_waiting := Some promise, wk_tasks := wk_tasks c @ [GetTask msg promise]\<rparr>)))"

definition WeakShard_Put :: "WeakShardClient \<Rightarrow> u64 \<Rightarrow> string \<Rightarrow> string \<Rightarrow> nat \<Rightarrow> WeakShardClient outcome" where
  "WeakShard_Put c cid key v promise =
     (let msg = WeakPut (wk_client_id c) key v in
      obind (assert_that (wk_waiting c = None) ''waiting == NULL'') (\<lambda>_.
        Inr (c\<lparr>wk_waiting := Some promise, wk_totalReplies := 0, wk_tasks := wk_tasks c @ [PutTask msg]\<rparr>)))"

definition wk_deref :: "WeakShardClient \<Rightarrow> nat \<Rightarrow> Promise outcome" where
  "wk_deref c a = (case wk_heap c a of None \<Rightarrow> Inl (Undefined ''dead promise'') | Some p \<Rightarrow> Inr p)"

text \<open>\<^verbatim>\<open>Promise *w = waiting; waiting = NULL; w->Reply(...)\<close>, when a promise is waiting.\<close>

definition wk_answer :: "(Promise \<Rightarrow> Promise) \<Rightarrow> WeakShardClient \<Rightarrow> WeakShardClient outcome" where
  "wk_answer f c =
     (case wk_waiting c of
        None \<Rightarrow> Inr c
      | Some w \<Rightarrow> obind (wk_deref c w) (\<lambda>p. Inr (c\<lparr>wk_waiting := None, wk_heap := (wk_heap c)(w \<mapsto> f p)\<rparr>)))"

text \<open>\<^verbatim>\<open>timeout->SetTimeout(...); timeout->Start()\<close>, with the assertion of \<^verbatim>\<open>SetTimeout\<close>.\<close>

definition wk_start_timer :: "int \<Rightarrow> WeakShardClient \<Rightarrow> WeakShardClient outcome" where
  "wk_start_timer ms c =
     obind (assert_that (\<not> wk_active c) ''!Active()'') (\<lambda>_. Inr (c\<lparr>wk_ms := of_int ms, wk_active := True\<rparr>))"

text \<open>
  The posted tasks, with the number \<open>k\<close> of messages that the transport takes before it refuses one.
  \<^verbatim>\<open>SendMessageToAll\<close> sends to the replicas in order and stops at the first refusal. The result has the
  messages sent, with the replica each goes to.
\<close>

definition send_to_all :: "nat \<Rightarrow> int \<Rightarrow> 'm \<Rightarrow> (int \<times> 'm) list \<times> bool" where
  "send_to_all k n msg = (map (\<lambda>i. (int i, msg)) [0..<min k (nat n)], nat n \<le> k)"

definition run_weak_task :: "nat \<Rightarrow> weak_task \<Rightarrow> WeakShardClient \<Rightarrow> (WeakShardClient \<times> (int \<times> WeakMessage) list) outcome" where
  "run_weak_task k t c =
     (case t of
        GetTask msg promise \<Rightarrow>
          if 0 < k then
            obind (case wk_waiting c of
                     None \<Rightarrow> Inr c
                   | Some w \<Rightarrow> obind (wk_deref c promise) (\<lambda>p. wk_start_timer (Promise_GetTimeout p) c))
              (\<lambda>c1. Inr (c1, [(wk_replica c, msg)]))
          else obind (wk_answer (\<lambda>p. Promise_Reply p REPLY_NETWORK_FAILURE) c) (\<lambda>c1. Inr (c1, []))
      | PutTask msg \<Rightarrow>
          (let (out, sent) = send_to_all k (wk_n c) msg in
           obind (if sent then
                    (case wk_waiting c of
                       None \<Rightarrow> Inr c
                     | Some w \<Rightarrow> obind (wk_deref c w) (\<lambda>p. wk_start_timer (Promise_GetTimeout p) c))
                  else wk_answer (\<lambda>p. Promise_Reply p REPLY_NETWORK_FAILURE) c)
             (\<lambda>c1. Inr (c1, out))))"

definition WeakShard_RequestTimedOut :: "WeakShardClient \<Rightarrow> WeakShardClient outcome" where
  "WeakShard_RequestTimedOut c = wk_answer (\<lambda>p. Promise_Reply p REPLY_TIMEOUT) (c\<lparr>wk_active := False\<rparr>)"

text \<open>\<open>None\<close> is a message of any other type. \<^verbatim>\<open>totalReplies\<close> is a 32-bit integer.\<close>

definition WeakShard_ReceiveMessage :: "WeakReply option \<Rightarrow> WeakShardClient \<Rightarrow> WeakShardClient outcome" where
  "WeakShard_ReceiveMessage m c =
     (case m of
        Some (WeakGetReply status v) \<Rightarrow>
          if wk_waiting c \<noteq> None
          then wk_answer (\<lambda>p. Promise_Reply_v p status v) (c\<lparr>wk_active := False\<rparr>)
          else Inr c
      | Some (WeakPutReply status) \<Rightarrow>
          if wk_totalReplies c = 2 ^ 31 - 1 then Inl (Undefined ''signed overflow'')
          else
            (let c1 = c\<lparr>wk_totalReplies := wk_totalReplies c + 1\<rparr> in
             if wk_n c1 \<le> wk_totalReplies c1 \<and> wk_waiting c1 \<noteq> None
             then wk_answer (\<lambda>p. Promise_Reply p REPLY_OK) (c1\<lparr>wk_active := False\<rparr>)
             else Inr c1)
      | None \<Rightarrow> Inl (Panicked ''NOT_REACHABLE''))"

section \<open>The client\<close>

text \<open>
  \<^verbatim>\<open>Get\<close> and \<^verbatim>\<open>Put\<close> up to the point where they wait, and what they return when the promise is done.
  \<^verbatim>\<open>Begin\<close> and \<^verbatim>\<open>Abort\<close> do nothing and \<^verbatim>\<open>Commit\<close> returns true. Both calls make a promise with the default
  timeout. A call is the shard it went to, its promise, and its arguments.
\<close>

datatype weak_call =
    CallGet string
  | CallPut string string

record WeakClient =
  wc_client_id :: u64
  wc_nshards :: u64
  wc_bclient :: "int \<Rightarrow> WeakShardClient"

definition WeakClient_new :: "(int \<Rightarrow> int) \<Rightarrow> (int \<Rightarrow> int) \<Rightarrow> u64 \<Rightarrow> int \<Rightarrow> int \<Rightarrow> WeakClient" where
  "WeakClient_new junk n cid nShards closestReplica =
     \<lparr>wc_client_id = cid, wc_nshards = of_int nShards,
      wc_bclient = (\<lambda>i. WeakShard_new (junk i) (n i) cid i closestReplica)\<rparr>"

definition put_shard :: "int \<Rightarrow> WeakShardClient \<Rightarrow> WeakClient \<Rightarrow> WeakClient" where
  "put_shard i b c = c\<lparr>wc_bclient := (wc_bclient c)(i := b)\<rparr>"

text \<open>\<^verbatim>\<open>Promise promise;\<close>\<close>

definition wk_promise :: "WeakShardClient \<Rightarrow> nat \<times> WeakShardClient" where
  "wk_promise b = (wk_next b, b\<lparr>wk_heap := (wk_heap b)(wk_next b \<mapsto> Promise_default), wk_next := Suc (wk_next b)\<rparr>)"

definition WeakClient_Get :: "WeakClient \<Rightarrow> string \<Rightarrow> (int \<times> nat \<times> WeakClient) outcome" where
  "WeakClient_Get c key =
     obind (shard_index key (wc_nshards c)) (\<lambda>i.
       let (promise, b) = wk_promise (wc_bclient c i) in
       obind (WeakShard_Get b (wc_client_id c) key promise) (\<lambda>b1. Inr (i, promise, put_shard i b1 c)))"

definition WeakClient_Put :: "WeakClient \<Rightarrow> string \<Rightarrow> string \<Rightarrow> (int \<times> nat \<times> WeakClient) outcome" where
  "WeakClient_Put c key v =
     obind (shard_index key (wc_nshards c)) (\<lambda>i.
       let (promise, b) = wk_promise (wc_bclient c i) in
       obind (WeakShard_Put b (wc_client_id c) key v promise) (\<lambda>b1. Inr (i, promise, put_shard i b1 c)))"

definition weak_start :: "WeakClient \<Rightarrow> weak_call \<Rightarrow> (int \<times> nat \<times> WeakClient) outcome" where
  "weak_start c call = (case call of CallGet key \<Rightarrow> WeakClient_Get c key | CallPut key v \<Rightarrow> WeakClient_Put c key v)"

text \<open>The end of a call: a read gives its value too. The promise dies with the call.\<close>

definition weak_return :: "WeakClient \<Rightarrow> int \<Rightarrow> nat \<Rightarrow> weak_call \<Rightarrow> ((int \<times> string) \<times> WeakClient) blocking" where
  "weak_return c i promise call =
     (let b = wc_bclient c i in
      obind (wk_deref b promise) (\<lambda>p.
        bbind (case call of CallGet key \<Rightarrow> Inr (GetValue p) | CallPut key v \<Rightarrow> returns '''') (\<lambda>v.
          bbind (Inr (GetReply p)) (\<lambda>reply.
            returns ((reply, v), put_shard i (b\<lparr>wk_heap := (wk_heap b)(promise := None)\<rparr>) c)))))"

definition WeakClient_Commit :: "WeakClient \<Rightarrow> bool \<times> WeakClient" where
  "WeakClient_Commit c = (True, c)"

section \<open>Client, network and replicas\<close>

text \<open>
  A step of the system: the application starts a call or takes the result of the one it is in; the
  event loop runs the task at a position of its list, or the timer fires; a message in flight reaches its replica or
  the client, is lost, or is repeated. An event that is not possible leaves the state as it is.
\<close>

datatype weak_packet =
    WReq int int WeakMessage
  | WRep int WeakReply

record WeakSys =
  wy_client :: WeakClient
  wy_call :: "(int \<times> nat \<times> weak_call) option"
  wy_store :: "int \<Rightarrow> int \<Rightarrow> KVStore"
  wy_net :: "weak_packet list"
  wy_answers :: "(weak_call \<times> int \<times> string) list"

datatype weak_event =
    WCall weak_call
  | WReturn
  | WTask int nat nat
  | WTimer int
  | WDeliver nat
  | WLose nat
  | WRepeat nat

definition without :: "nat \<Rightarrow> 'a list \<Rightarrow> 'a list" where
  "without i xs = take i xs @ drop (Suc i) xs"

definition with_shard :: "WeakSys \<Rightarrow> int \<Rightarrow> WeakShardClient \<Rightarrow> WeakSys" where
  "with_shard s i b = s\<lparr>wy_client := put_shard i b (wy_client s)\<rparr>"

definition weak_deliver :: "WeakSys \<Rightarrow> weak_packet \<Rightarrow> WeakSys outcome" where
  "weak_deliver s m =
     (case m of
        WReq i r msg \<Rightarrow>
          obind (Weak_HandleMessage (wy_store s i r) msg) (\<lambda>(reply, st).
            Inr (s\<lparr>wy_store := (wy_store s)(i := (wy_store s i)(r := st)), wy_net := wy_net s @ [WRep i reply]\<rparr>))
      | WRep i reply \<Rightarrow>
          obind (WeakShard_ReceiveMessage (Some reply) (wc_bclient (wy_client s) i)) (\<lambda>b. Inr (with_shard s i b)))"

definition weak_step :: "weak_event \<Rightarrow> WeakSys \<Rightarrow> WeakSys outcome" where
  "weak_step ev s =
     (case ev of
        WCall call \<Rightarrow>
          if wy_call s \<noteq> None then Inr s
          else obind (weak_start (wy_client s) call) (\<lambda>(i, promise, c).
                 Inr (s\<lparr>wy_client := c, wy_call := Some (i, promise, call)\<rparr>))
      | WReturn \<Rightarrow>
          (case wy_call s of
             None \<Rightarrow> Inr s
           | Some (i, promise, call) \<Rightarrow>
               obind (weak_return (wy_client s) i promise call) (\<lambda>res.
                 case res of
                   None \<Rightarrow> Inr s
                 | Some (answer, c) \<Rightarrow>
                     Inr (s\<lparr>wy_client := c, wy_call := None, wy_answers := wy_answers s @ [(call, answer)]\<rparr>)))
      | WTask i j k \<Rightarrow>
          (let b = wc_bclient (wy_client s) i in
           if j < length (wk_tasks b) then
             obind (run_weak_task k (wk_tasks b ! j) (b\<lparr>wk_tasks := without j (wk_tasks b)\<rparr>)) (\<lambda>(b1, out).
               Inr (with_shard (s\<lparr>wy_net := wy_net s @ map (\<lambda>(r, m). WReq i r m) out\<rparr>) i b1))
           else Inr s)
      | WTimer i \<Rightarrow>
          (let b = wc_bclient (wy_client s) i in
           if wk_active b then obind (WeakShard_RequestTimedOut b) (\<lambda>b1. Inr (with_shard s i b1)) else Inr s)
      | WDeliver j \<Rightarrow>
          if j < length (wy_net s) then weak_deliver (s\<lparr>wy_net := without j (wy_net s)\<rparr>) (wy_net s ! j) else Inr s
      | WLose j \<Rightarrow> Inr (s\<lparr>wy_net := without j (wy_net s)\<rparr>)
      | WRepeat j \<Rightarrow> Inr (if j < length (wy_net s) then s\<lparr>wy_net := wy_net s @ [wy_net s ! j]\<rparr> else s))"

fun weak_run :: "weak_event list \<Rightarrow> WeakSys \<Rightarrow> WeakSys outcome" where
  "weak_run [] s = Inr s"
| "weak_run (ev # evs) s = obind (weak_step ev s) (weak_run evs)"

section \<open>A client alone on a patient network\<close>

text \<open>
  The reference: a map from keys to values that the calls read and write one after the other. \<open>read_map\<close>
  is the status and the value of a read.
\<close>

definition read_map :: "(string \<Rightarrow> string option) \<Rightarrow> string \<Rightarrow> int \<times> string" where
  "read_map g key = (case g key of Some v \<Rightarrow> (REPLY_OK, v) | None \<Rightarrow> (REPLY_FAIL, ''''))"

fun call_key :: "weak_call \<Rightarrow> string" where
  "call_key (CallGet key) = key"
| "call_key (CallPut key v) = key"

fun map_result :: "(string \<Rightarrow> string option) \<Rightarrow> weak_call \<Rightarrow> int \<times> string" where
  "map_result g (CallGet key) = read_map g key"
| "map_result g (CallPut key v) = (REPLY_OK, '''')"

fun map_after :: "(string \<Rightarrow> string option) \<Rightarrow> weak_call \<Rightarrow> string \<Rightarrow> string option" where
  "map_after g (CallGet key) = g"
| "map_after g (CallPut key v) = g(key \<mapsto> v)"

fun sequential :: "(string \<Rightarrow> string option) \<Rightarrow> (weak_call \<times> int \<times> string) list \<Rightarrow> bool" where
  "sequential g [] = True"
| "sequential g ((call, res) # as) = (res = map_result g call \<and> sequential (map_after g call) as)"

fun map_of_calls :: "(string \<Rightarrow> string option) \<Rightarrow> (weak_call \<times> int \<times> string) list \<Rightarrow> string \<Rightarrow> string option" where
  "map_of_calls g [] = g"
| "map_of_calls g ((call, res) # as) = map_of_calls (map_after g call) as"

lemma sequential_snoc [simp]:
  "sequential g (as @ [(call, res)]) \<longleftrightarrow> sequential g as \<and> res = map_result (map_of_calls g as) call"
  "map_of_calls g (as @ [(call, res)]) = map_after (map_of_calls g as) call"
  by (induction g as rule: sequential.induct) auto

abbreviation shard_of :: "WeakSys \<Rightarrow> int \<Rightarrow> WeakShardClient" where
  "shard_of s i \<equiv> wc_bclient (wy_client s) i"

text \<open>
  What holds when neither a timer fires, nor a message is repeated, nor a send is refused. \<open>holds s n H g g'\<close>:
  the replicas in \<open>H\<close> hold the map \<open>g'\<close>, the others \<open>g\<close>. A call in progress is posted, sent or answered.
\<close>

definition weak_conf :: "(int \<Rightarrow> int) \<Rightarrow> WeakSys \<Rightarrow> bool" where
  "weak_conf n s \<longleftrightarrow> wc_nshards (wy_client s) \<noteq> 0 \<and>
     (\<forall>i. wk_n (shard_of s i) = n i \<and> 0 < n i \<and> n i < 2 ^ 31 \<and>
          0 \<le> wk_replica (shard_of s i) \<and> wk_replica (shard_of s i) < n i)"

definition calm :: "WeakShardClient \<Rightarrow> bool" where
  "calm b \<longleftrightarrow> wk_waiting b = None \<and> wk_tasks b = [] \<and> \<not> wk_active b"

definition holds ::
  "WeakSys \<Rightarrow> (int \<Rightarrow> int) \<Rightarrow> int set \<Rightarrow> (string \<Rightarrow> string option) \<Rightarrow> (string \<Rightarrow> string option) \<Rightarrow> bool" where
  "holds s n H g g' \<longleftrightarrow> (\<forall>key i r. shard_index key (wc_nshards (wy_client s)) = Inr i \<longrightarrow> 0 \<le> r \<longrightarrow> r < n i \<longrightarrow>
     KVStore_get (wy_store s i r) key = (if r \<in> H then g' key else g key))"

definition in_call :: "WeakSys \<Rightarrow> int \<Rightarrow> nat \<Rightarrow> weak_call \<Rightarrow> Promise \<Rightarrow> bool" where
  "in_call s i p call pr \<longleftrightarrow> wy_call s = Some (i, p, call) \<and> shard_index (call_key call) (wc_nshards (wy_client s)) = Inr i \<and>
     (\<forall>j. j \<noteq> i \<longrightarrow> calm (shard_of s j)) \<and> wk_heap (shard_of s i) p = Some pr"

definition get_packets :: "WeakSys \<Rightarrow> int \<Rightarrow> string \<Rightarrow> (string \<Rightarrow> string option) \<Rightarrow> bool" where
  "get_packets s i key g \<longleftrightarrow> wy_net s \<in> {[], [WReq i (wk_replica (shard_of s i)) (WeakGet (wk_client_id (shard_of s i)) key)],
     [WRep i (case read_map g key of (status, v) \<Rightarrow> WeakGetReply status v)]}"

fun req_target :: "weak_packet \<Rightarrow> int list" where
  "req_target (WReq i r m) = [r]"
| "req_target (WRep i m) = []"

definition put_packets :: "weak_packet list \<Rightarrow> int \<Rightarrow> int \<Rightarrow> int \<Rightarrow> WeakMessage \<Rightarrow> int set \<Rightarrow> bool" where
  "put_packets ms replies n i msg H \<longleftrightarrow>
     (\<forall>m \<in> set ms. m = WRep i (WeakPutReply REPLY_OK) \<or> (\<exists>r. m = WReq i r msg \<and> 0 \<le> r \<and> r < n \<and> r \<notin> H)) \<and>
     distinct (concat (map req_target ms)) \<and> H \<subseteq> {0..<n} \<and>
     int (length (filter (\<lambda>m. req_target m = []) ms)) + replies \<le> int (card H)"

fun posted_task :: "WeakShardClient \<Rightarrow> nat \<Rightarrow> weak_call \<Rightarrow> weak_task" where
  "posted_task b p (CallGet key) = GetTask (WeakGet (wk_client_id b) key) p"
| "posted_task b p (CallPut key v) = PutTask (WeakPut (wk_client_id b) key v)"

inductive weak_good :: "(int \<Rightarrow> int) \<Rightarrow> (string \<Rightarrow> string option) \<Rightarrow> WeakSys \<Rightarrow> bool" for n g where
  good_idle: "weak_conf n s \<Longrightarrow> holds s n {} g g \<Longrightarrow> wy_call s = None \<Longrightarrow> (\<And>i. calm (shard_of s i)) \<Longrightarrow>
     wy_net s = [] \<Longrightarrow> weak_good n g s"
| good_posted: "weak_conf n s \<Longrightarrow> holds s n {} g g \<Longrightarrow> in_call s i p call Promise_default \<Longrightarrow>
     wk_waiting (shard_of s i) = Some p \<Longrightarrow> \<not> wk_active (shard_of s i) \<Longrightarrow>
     wk_tasks (shard_of s i) = [posted_task (shard_of s i) p call] \<Longrightarrow>
     (\<And>key v. call = CallPut key v \<Longrightarrow> wk_totalReplies (shard_of s i) = 0) \<Longrightarrow> wy_net s = [] \<Longrightarrow> weak_good n g s"
| good_reading: "weak_conf n s \<Longrightarrow> holds s n {} g g \<Longrightarrow> in_call s i p (CallGet key) Promise_default \<Longrightarrow>
     wk_waiting (shard_of s i) = Some p \<Longrightarrow> wk_tasks (shard_of s i) = [] \<Longrightarrow> get_packets s i key g \<Longrightarrow> weak_good n g s"
| good_writing: "weak_conf n s \<Longrightarrow> holds s n H g (g(key \<mapsto> v)) \<Longrightarrow> in_call s i p (CallPut key v) Promise_default \<Longrightarrow>
     wk_waiting (shard_of s i) = Some p \<Longrightarrow> wk_tasks (shard_of s i) = [] \<Longrightarrow>
     put_packets (wy_net s) (wk_totalReplies (shard_of s i)) (n i) i (WeakPut (wk_client_id (shard_of s i)) key v) H \<Longrightarrow>
     0 \<le> wk_totalReplies (shard_of s i) \<Longrightarrow> wk_totalReplies (shard_of s i) < n i \<Longrightarrow> weak_good n g s"
| good_answered: "weak_conf n s \<Longrightarrow> holds s n {} (map_after g call) (map_after g call) \<Longrightarrow> in_call s i p call pr \<Longrightarrow>
     calm (shard_of s i) \<Longrightarrow> pr_done pr \<Longrightarrow> (pr_reply pr, pr_value pr) = map_result g call \<Longrightarrow> wy_net s = [] \<Longrightarrow>
     weak_good n g s"

definition quiet_event :: "(int \<Rightarrow> int) \<Rightarrow> weak_event \<Rightarrow> bool" where
  "quiet_event n ev = (case ev of WTimer i \<Rightarrow> False | WRepeat j \<Rightarrow> False | WTask i j k \<Rightarrow> n i \<le> int k | _ \<Rightarrow> True)"

definition stepped :: "(int \<Rightarrow> int) \<Rightarrow> (string \<Rightarrow> string option) \<Rightarrow> WeakSys \<Rightarrow> WeakSys outcome \<Rightarrow> bool" where
  "stepped n g s out \<longleftrightarrow> (\<exists>s'. out = Inr s' \<and>
     (weak_good n g s' \<and> wy_answers s' = wy_answers s \<or>
      (\<exists>call. weak_good n (map_after g call) s' \<and> wy_answers s' = wy_answers s @ [(call, map_result g call)])))"

lemma steppedI: "weak_good n g s' \<Longrightarrow> wy_answers s' = wy_answers s \<Longrightarrow> stepped n g s (Inr s')"
  by (auto simp: stepped_def)

lemma stepped_stay: "weak_good n g s \<Longrightarrow> stepped n g s (Inr s)"
  by (rule steppedI) auto

lemma shard_index_returns: "nshards \<noteq> 0 \<Longrightarrow> \<exists>i. shard_index key nshards = Inr i"
  by (simp add: shard_index_def key_to_shard_def)

lemma without_nth: "j < length xs \<Longrightarrow> \<exists>as bs. xs = as @ xs ! j # bs \<and> without j xs = as @ bs"
  unfolding without_def by (metis id_take_nth_drop)

lemma without_beyond [simp]: "without j [] = []" "without 0 (x # xs) = xs"
  by (simp_all add: without_def)

lemma lose_nothing [simp]: "wy_net s = [] \<Longrightarrow> s\<lparr>wy_net := without j []\<rparr> = s"
  by (cases s) simp

lemmas shard_upd = with_shard_def put_shard_def

lemma weak_conf_upd [simp]:
  "weak_conf n (s\<lparr>wy_net := ms\<rparr>) = weak_conf n s" "weak_conf n (s\<lparr>wy_call := c\<rparr>) = weak_conf n s"
  "weak_conf n (s\<lparr>wy_answers := as\<rparr>) = weak_conf n s" "weak_conf n (s\<lparr>wy_store := st\<rparr>) = weak_conf n s"
  by (simp_all add: weak_conf_def)

lemma good_call:
  assumes "weak_conf n s" "holds s n {} g g" "wy_call s = None" "\<And>i. calm (shard_of s i)" "wy_net s = []"
  shows "stepped n g s (weak_step (WCall call) s)"
proof -
  have ns: "wc_nshards (wy_client s) \<noteq> 0" using assms(1) by (simp add: weak_conf_def)
  from shard_index_returns [OF this] obtain i where i: "shard_index (call_key call) (wc_nshards (wy_client s)) = Inr i" by blast
  let ?b = "shard_of s i"
  have w: "wk_waiting ?b = None" "wk_tasks ?b = []" "\<not> wk_active ?b" using assms(4) [of i] by (simp_all add: calm_def)
  show ?thesis
  proof (cases call)
    case (CallGet key)
    show ?thesis unfolding CallGet
      by (simp add: weak_step_def assms(3) weak_start_def WeakClient_Get_def i [unfolded CallGet, simplified] wk_promise_def
          WeakShard_Get_def w, rule steppedI, rule good_posted [where i = i and p = "wk_next ?b" and call = "CallGet key"])
        (use assms i w in \<open>auto simp: CallGet weak_conf_def holds_def in_call_def put_shard_def\<close>)
  next
    case (CallPut key v)
    show ?thesis unfolding CallPut
      by (simp add: weak_step_def assms(3) weak_start_def WeakClient_Put_def i [unfolded CallPut, simplified] wk_promise_def
          WeakShard_Put_def w, rule steppedI, rule good_posted [where i = i and p = "wk_next ?b" and call = "CallPut key v"])
        (use assms i w in \<open>auto simp: CallPut weak_conf_def holds_def in_call_def put_shard_def\<close>)
  qed
qed

lemma good_idle_step:
  assumes "weak_conf n s" "holds s n {} g g" "wy_call s = None" "\<And>i. calm (shard_of s i)" "wy_net s = []"
    and "quiet_event n ev"
  shows "stepped n g s (weak_step ev s)"
proof (cases ev)
  case (WCall call)
  then show ?thesis using good_call [OF assms(1-5)] by simp
qed (use assms good_idle [OF assms(1-5)] in \<open>auto simp: weak_step_def calm_def quiet_event_def stepped_stay simp del: without_beyond\<close>)

lemma good_posted_step:
  assumes good: "weak_conf n s" "holds s n {} g g" "in_call s i p call Promise_default"
     "wk_waiting (shard_of s i) = Some p" "\<not> wk_active (shard_of s i)"
     "wk_tasks (shard_of s i) = [posted_task (shard_of s i) p call]"
     "\<And>key v. call = CallPut key v \<Longrightarrow> wk_totalReplies (shard_of s i) = 0" "wy_net s = []"
    and "quiet_event n ev"
  shows "stepped n g s (weak_step ev s)"
proof -
  have stay: "stepped n g s (Inr s)" by (rule stepped_stay, rule good_posted [OF good])
  note in_call = good(3) [unfolded in_call_def]
  show ?thesis
  proof (cases ev)
    case WReturn
    with stay in_call show ?thesis
      by (cases call) (simp_all add: weak_step_def weak_return_def wk_deref_def promise_defs)
  next
    case (WTask j l k)
    have k: "0 < k" "n i \<le> int k" if "j = i"
      using that assms(9) good(1) [unfolded weak_conf_def] WTask by (auto simp: quiet_event_def dest: spec [of _ i])
    show ?thesis
    proof (cases "j = i \<and> l = 0")
      case True
      with k have k: "0 < k" "nat (n i) \<le> k" by auto
      show ?thesis
      proof (cases call)
        case (CallGet key)
        show ?thesis
          by (simp add: Let_def WTask True weak_step_def good CallGet run_weak_task_def k wk_deref_def wk_start_timer_def
              in_call [unfolded CallGet], rule steppedI, rule good_reading [where i = i and p = p and key = key])
            (use good in_call CallGet in \<open>auto simp: shard_upd weak_conf_def holds_def in_call_def get_packets_def\<close>)
      next
        case (CallPut key v)
        have n: "wk_n (shard_of s i) = n i" "0 < n i" using good(1) by (simp_all add: weak_conf_def)
        show ?thesis
          by (simp add: Let_def WTask True weak_step_def good CallPut run_weak_task_def k wk_deref_def wk_start_timer_def n
              send_to_all_def in_call [unfolded CallPut], rule steppedI,
              rule good_writing [where i = i and p = p and key = key and v = v and H = "{}"])
            (use good in_call CallPut n in \<open>auto simp: shard_upd weak_conf_def holds_def in_call_def put_packets_def
                filter_map comp_def distinct_map inj_on_def concat_map_singleton simp del: upt_Suc\<close>)
      qed
    next
      case False
      with stay good(6) in_call show ?thesis
        by (cases "j = i") (auto simp: WTask weak_step_def calm_def)
    qed
  qed (use stay good in_call assms(9) in \<open>auto simp: weak_step_def quiet_event_def simp del: without_beyond\<close>)
qed

text \<open>While a call waits for its reply, only the network makes progress.\<close>

lemma waiting_step:
  assumes "in_call s i p call Promise_default" "wk_tasks (shard_of s i) = []" "weak_good n g s" "quiet_event n ev"
    and "\<And>j. ev \<noteq> WDeliver j" "\<And>j. ev \<noteq> WLose j"
  shows "stepped n g s (weak_step ev s)"
proof -
  note in_call = assms(1) [unfolded in_call_def]
  note stay = stepped_stay [OF assms(3)]
  show ?thesis
  proof (cases ev)
    case WReturn
    with stay in_call show ?thesis
      by (cases call) (simp_all add: weak_step_def weak_return_def wk_deref_def promise_defs)
  next
    case (WTask j l k)
    with stay in_call assms(2) show ?thesis
      by (cases "j = i") (auto simp: weak_step_def calm_def)
  qed (use stay in_call assms(4-) in \<open>auto simp: weak_step_def quiet_event_def\<close>)
qed

lemma good_reading_step:
  assumes good: "weak_conf n s" "holds s n {} g g" "in_call s i p (CallGet key) Promise_default"
     "wk_waiting (shard_of s i) = Some p" "wk_tasks (shard_of s i) = []" "get_packets s i key g"
    and quiet: "quiet_event n ev"
  shows "stepped n g s (weak_step ev s)"
proof -
  have inv: "weak_good n g s" by (rule good_reading [OF good])
  note stay = stepped_stay [OF inv]
  note in_call = good(3) [unfolded in_call_def]
  let ?b = "shard_of s i" and ?req = "WReq i (wk_replica (shard_of s i)) (WeakGet (wk_client_id (shard_of s i)) key)"
  let ?rep = "WRep i (case read_map g key of (status, v) \<Rightarrow> WeakGetReply status v)"
  consider (none) "wy_net s = []" | (req) "wy_net s = [?req]" | (rep) "wy_net s = [?rep]"
    using good(6) by (auto simp: get_packets_def)
  note nets = this
  consider (deliver) j where "ev = WDeliver j" | (lose) j where "ev = WLose j"
    | (other) "\<And>j. ev \<noteq> WDeliver j" "\<And>j. ev \<noteq> WLose j" by blast
  then show ?thesis
  proof cases
    case deliver
    show ?thesis
    proof (cases "j = 0")
      case True
      show ?thesis
      proof (cases rule: nets)
        case none
        then show ?thesis using stay by (simp add: deliver weak_step_def)
      next
        case req
        have "KVStore_get (wy_store s i (wk_replica ?b)) key = g key"
          using good(1,2) in_call by (simp add: holds_def weak_conf_def)
        then have "weak_deliver (s\<lparr>wy_net := []\<rparr>) ?req = Inr (s\<lparr>wy_net := [?rep]\<rparr>)"
          by (simp add: weak_deliver_def Weak_HandleMessage_def WeakStore_Get_def read_map_def split: option.splits)
        moreover have "weak_good n g (s\<lparr>wy_net := [?rep]\<rparr>)"
          by (rule good_reading [where i = i and p = p and key = key])
            (use good in_call in \<open>simp_all add: get_packets_def holds_def in_call_def weak_conf_def\<close>)
        ultimately show ?thesis by (simp add: deliver True weak_step_def req steppedI)
      next
        case rep
        have "stepped n g s (weak_deliver (s\<lparr>wy_net := []\<rparr>) ?rep)"
          by (cases "read_map g key")
            (simp add: weak_deliver_def WeakShard_ReceiveMessage_def wk_answer_def wk_deref_def good in_call, rule steppedI,
              rule good_answered [where i = i and p = p and call = "CallGet key"],
              use good in_call in \<open>auto simp: shard_upd holds_def in_call_def weak_conf_def calm_def promise_defs\<close>)
        then show ?thesis by (simp add: deliver True weak_step_def rep)
      qed
    next
      case False
      have "length (wy_net s) \<le> 1" by (cases rule: nets) simp_all
      with False stay show ?thesis by (simp add: deliver weak_step_def)
    qed
  next
    case lose
    have "get_packets (s\<lparr>wy_net := without j (wy_net s)\<rparr>) i key g"
      using good(6) by (cases j) (auto simp: get_packets_def without_def)
    then have "weak_good n g (s\<lparr>wy_net := without j (wy_net s)\<rparr>)"
      by (intro good_reading [where i = i and p = p and key = key])
        (use good in_call in \<open>auto simp: holds_def in_call_def weak_conf_def\<close>)
    then show ?thesis by (simp add: lose weak_step_def steppedI)
  next
    case other
    with waiting_step [OF good(3,5) inv quiet] show ?thesis by blast
  qed
qed

lemma put_packets_lose:
  assumes "put_packets (as @ m # bs) t n i msg H"
  shows "put_packets (as @ bs) t n i msg H"
  using assms by (cases m) (auto simp: put_packets_def)

lemma put_packets_handled:
  assumes "put_packets (as @ WReq i r msg # bs) t n i msg H"
  shows "put_packets ((as @ bs) @ [WRep i (WeakPutReply REPLY_OK)]) t n i msg (insert r H)" "0 \<le> r" "r < n" "r \<notin> H"
proof -
  show r: "0 \<le> r" "r < n" "r \<notin> H" using assms by (auto simp: put_packets_def)
  have "finite H" using assms by (auto simp: put_packets_def intro: finite_subset)
  moreover have "r \<notin> set (concat (map req_target (as @ bs)))" using assms by (auto simp: put_packets_def)
  then have "m \<noteq> WReq i r msg" if "m \<in> set (as @ bs)" for m using that by force
  ultimately show "put_packets ((as @ bs) @ [WRep i (WeakPutReply REPLY_OK)]) t n i msg (insert r H)"
    using assms r by (auto simp: put_packets_def)
qed

lemma put_packets_counted:
  assumes "put_packets (as @ WRep i m # bs) t n i msg H"
  shows "put_packets (as @ bs) (t + 1) n i msg H"
  using assms by (auto simp: put_packets_def)

lemma put_packets_complete:
  assumes "put_packets ms n n i msg H" and "0 < n"
  shows "ms = []" "H = {0..<n}"
proof -
  have H: "H \<subseteq> {0..<n}" "int (length (filter (\<lambda>m. req_target m = []) ms)) + n \<le> int (card H)"
    using assms by (simp_all add: put_packets_def)
  then have "n \<le> int (card H)" by linarith
  moreover have "card H \<le> nat n" using card_mono [OF _ H(1)] by simp
  ultimately have "card H = card {0..<n}" by simp
  with H(1) show all: "H = {0..<n}" by (simp add: card_subset_eq)
  with H(2) \<open>0 < n\<close> have "length (filter (\<lambda>m. req_target m = []) ms) = 0" by simp
  with assms all show "ms = []"
    by (cases ms) (auto simp: put_packets_def)
qed

lemma holds_write:
  assumes "holds s n H g (g(key \<mapsto> v))" "r \<notin> H" "shard_index key (wc_nshards (wy_client s)) = Inr i"
    and "wy_store s' = (wy_store s)(i := (wy_store s i)(r := KVStore_put (wy_store s i r) key v))"
    and "wc_nshards (wy_client s') = wc_nshards (wy_client s)"
  shows "holds s' n (insert r H) g (g(key \<mapsto> v))"
  unfolding holds_def
proof (intro allI impI)
  fix k j q
  assume k: "shard_index k (wc_nshards (wy_client s')) = Inr j" "0 \<le> q" "q < n j"
  have "KVStore_get (wy_store s j q) k = (if q \<in> H then (g(key \<mapsto> v)) k else g k)"
    using assms(1,5) k by (simp add: holds_def)
  with assms k show "KVStore_get (wy_store s' j q) k = (if q \<in> insert r H then (g(key \<mapsto> v)) k else g k)"
    by (auto simp: kv.kget_put)
qed

lemma good_writing_step:
  assumes good: "weak_conf n s" "holds s n H g (g(key \<mapsto> v))" "in_call s i p (CallPut key v) Promise_default"
     "wk_waiting (shard_of s i) = Some p" "wk_tasks (shard_of s i) = []"
     "put_packets (wy_net s) (wk_totalReplies (shard_of s i)) (n i) i (WeakPut (wk_client_id (shard_of s i)) key v) H"
     "0 \<le> wk_totalReplies (shard_of s i)" "wk_totalReplies (shard_of s i) < n i"
    and quiet: "quiet_event n ev"
  shows "stepped n g s (weak_step ev s)"
proof -
  let ?b = "shard_of s i" and ?msg = "WeakPut (wk_client_id (shard_of s i)) key v"
  have inv: "weak_good n g s" by (rule good_writing [OF good])
  note in_call = good(3) [unfolded in_call_def]
  have n: "wk_n ?b = n i" "0 < n i" "n i < 2 ^ 31" using good(1) by (simp_all add: weak_conf_def)
  have wlost: "weak_good n g (s\<lparr>wy_net := as @ bs\<rparr>)" if "wy_net s = as @ m # bs" for as m bs
    by (rule good_writing [where i = i and p = p and key = key and v = v and H = H])
      (use good in_call put_packets_lose [OF good(6) [unfolded that]] in \<open>simp_all add: holds_def in_call_def\<close>)
  have handled: "stepped n g s (weak_deliver (s\<lparr>wy_net := as @ bs\<rparr>) m)"
    if net: "wy_net s = as @ m # bs" and m: "m = WReq i r ?msg" for as m bs r
  proof -
    note pp = put_packets_handled [OF good(6) [unfolded net m]]
    show ?thesis
      by (simp add: m weak_deliver_def Weak_HandleMessage_def WeakStore_Put_def, rule steppedI,
          rule good_writing [where i = i and p = p and key = key and v = v and H = "insert r H"])
        (use good in_call pp in \<open>simp_all add: in_call_def holds_write [OF good(2)]\<close>)
  qed
  have counted: "stepped n g s (weak_deliver (s\<lparr>wy_net := as @ bs\<rparr>) m)"
    if net: "wy_net s = as @ m # bs" and m: "m = WRep i (WeakPutReply REPLY_OK)" for as m bs
  proof (cases "wk_totalReplies ?b + 1 = n i")
    case True
    note pp = put_packets_complete [OF put_packets_counted [OF good(6) [unfolded net m], unfolded True] n(2)]
    show ?thesis
      by (use good n True in_call in \<open>simp add: m weak_deliver_def WeakShard_ReceiveMessage_def wk_answer_def wk_deref_def pp\<close>,
          rule steppedI, rule good_answered [where i = i and p = p and call = "CallPut key v"])
        (use good in_call pp in \<open>auto simp: shard_upd in_call_def calm_def weak_conf_def holds_def promise_defs\<close>)
  next
    case False
    note pp = put_packets_counted [OF good(6) [unfolded net m]]
    show ?thesis
      by (use good n False in_call in \<open>simp add: m weak_deliver_def WeakShard_ReceiveMessage_def\<close>,
          rule steppedI, rule good_writing [where i = i and p = p and key = key and v = v and H = H])
        (use good in_call pp False in \<open>auto simp: shard_upd in_call_def weak_conf_def holds_def\<close>)
  qed
  consider (deliver) j where "ev = WDeliver j" | (lose) j where "ev = WLose j"
    | (other) "\<And>j. ev \<noteq> WDeliver j" "\<And>j. ev \<noteq> WLose j" by blast
  then show ?thesis
  proof cases
    case deliver
    show ?thesis
    proof (cases "j < length (wy_net s)")
      case True
      from without_nth [OF this] obtain as bs where
        net: "wy_net s = as @ wy_net s ! j # bs" "without j (wy_net s) = as @ bs" by blast
      have "wy_net s ! j = WRep i (WeakPutReply REPLY_OK) \<or> (\<exists>r. wy_net s ! j = WReq i r ?msg)"
        using good(6) True by (auto simp: put_packets_def)
      with handled [OF net(1)] counted [OF net(1)] show ?thesis
        by (auto simp: deliver weak_step_def True net(2))
    qed (simp add: deliver weak_step_def stepped_stay [OF inv])
  next
    case lose
    show ?thesis
    proof (cases "j < length (wy_net s)")
      case True
      from without_nth [OF this] wlost show ?thesis
        by (auto simp: lose weak_step_def steppedI)
    qed (simp add: lose weak_step_def without_def stepped_stay [OF inv])
  next
    case other
    with waiting_step [OF good(3,5) inv quiet] show ?thesis by blast
  qed
qed

lemma good_answered_step:
  assumes good: "weak_conf n s" "holds s n {} (map_after g call) (map_after g call)" "in_call s i p call pr"
     "calm (shard_of s i)" "pr_done pr" "(pr_reply pr, pr_value pr) = map_result g call" "wy_net s = []"
    and "quiet_event n ev"
  shows "stepped n g s (weak_step ev s)"
proof -
  note stay = stepped_stay [OF good_answered [OF good]]
  note in_call = good(3) [unfolded in_call_def]
  let ?c = "put_shard i ((shard_of s i)\<lparr>wk_heap := (wk_heap (shard_of s i))(p := None)\<rparr>) (wy_client s)"
  have calm: "calm (shard_of s j)" for j using good(4) in_call by (cases "j = i") auto
  show ?thesis
  proof (cases ev)
    case WReturn
    have res: "(pr_reply pr, case call of CallGet k \<Rightarrow> pr_value pr | CallPut k v \<Rightarrow> '''') = map_result g call"
      using good(6) by (cases call) simp_all
    have "weak_good n (map_after g call)
        (s\<lparr>wy_client := ?c, wy_call := None, wy_answers := wy_answers s @ [(call, map_result g call)]\<rparr>)"
      by (rule good_idle) (use good calm in \<open>auto simp: weak_conf_def holds_def calm_def put_shard_def\<close>)
    moreover have "weak_return (wy_client s) i p call = returns (map_result g call, ?c)"
      by (cases call) (use in_call good(5) res in \<open>simp_all add: weak_return_def wk_deref_def promise_defs Let_def\<close>)
    ultimately show ?thesis using in_call by (auto simp: WReturn weak_step_def stepped_def)
  qed (use stay good in_call calm assms(8) in
    \<open>auto simp: weak_step_def quiet_event_def calm_def simp del: without_beyond\<close>)
qed

lemma weak_good_step: "weak_good n g s \<Longrightarrow> quiet_event n ev \<Longrightarrow> stepped n g s (weak_step ev s)"
  by (erule weak_good.cases)
    (simp_all add: good_idle_step good_posted_step good_reading_step good_writing_step good_answered_step)

lemma weak_good_run:
  assumes "weak_good n (map_of_calls g (wy_answers s)) s" "sequential g (wy_answers s)" "\<forall>ev \<in> set evs. quiet_event n ev"
  shows "\<exists>s'. weak_run evs s = Inr s' \<and> weak_good n (map_of_calls g (wy_answers s')) s' \<and> sequential g (wy_answers s')"
  using assms
proof (induction evs arbitrary: s)
  case (Cons ev evs)
  from weak_good_step [OF Cons.prems(1), of ev] Cons.prems(3)
  have "stepped n (map_of_calls g (wy_answers s)) s (weak_step ev s)" by simp
  then obtain s1 where s1: "weak_step ev s = Inr s1" "weak_good n (map_of_calls g (wy_answers s1)) s1"
      "sequential g (wy_answers s1)"
    unfolding stepped_def using Cons.prems(2) by (metis sequential_snoc)
  with Cons show ?case by simp
qed simp

text \<open>
  The system at the start: a new client, and in every shard replicas that hold the same values.
\<close>

definition weak_init :: "WeakClient \<Rightarrow> (int \<Rightarrow> int \<Rightarrow> KVStore) \<Rightarrow> WeakSys" where
  "weak_init c st = \<lparr>wy_client = c, wy_call = None, wy_store = st, wy_net = [], wy_answers = []\<rparr>"

lemma replica_mod:
  assumes "0 < n" "n < 2 ^ 31"
  shows "0 \<le> sint (ucast (x mod of_int n :: u64) :: 32 word)" "sint (ucast (x mod of_int n :: u64) :: 32 word) < n"
proof -
  have "uint (x mod of_int n :: u64) = uint x mod n"
    using assms by (simp add: uint_mod uint_word_of_int_eq take_bit_int_eq_self)
  then have u: "0 \<le> uint (x mod of_int n :: u64)" "uint (x mod of_int n :: u64) < n" using assms by simp_all
  have "signed_take_bit 31 (uint (x mod of_int n :: u64)) = uint (x mod of_int n :: u64)"
    by (rule signed_take_bit_int_eq_self) (use u assms(2) order_trans [OF _ u(1), of "- (2 ^ 31)"] in simp_all)
  then have "sint (ucast (x mod of_int n :: u64) :: 32 word) = uint (x mod of_int n :: u64)"
    using u assms(2) by (simp add: sint_uint unsigned_ucast_eq take_bit_int_eq_self)
  with u show "0 \<le> sint (ucast (x mod of_int n :: u64) :: 32 word)" "sint (ucast (x mod of_int n :: u64) :: 32 word) < n"
    by simp_all
qed

text \<open>
  C18. As long as no timer fires, no message is repeated and no send is refused, a client that has the
  replicas to itself sees one map: every call that returns has the result of running the calls one after
  the other on the initial map, whatever is lost and in whatever order messages arrive, and nothing faults.
\<close>

theorem weak_client_sequential:
  assumes "0 < nShards" "nShards < 2 ^ 31"
    and "\<And>i. 0 < n i \<and> n i < 2 ^ 31 \<and> (closest = -1 \<or> 0 \<le> closest \<and> closest < n i)"
    and "\<And>i r key. KVStore_get (st i r) key = g i key"
    and "\<forall>ev \<in> set evs. quiet_event n ev"
  shows "\<exists>s. weak_run evs (weak_init (WeakClient_new junk n cid nShards closest) st) = Inr s \<and>
     sequential (\<lambda>key. case shard_index key (of_int nShards) of Inr i \<Rightarrow> g i key | Inl _ \<Rightarrow> None) (wy_answers s)"
proof -
  let ?s = "weak_init (WeakClient_new junk n cid nShards closest) st"
  let ?g = "\<lambda>key. case shard_index key (of_int nShards) of Inr i \<Rightarrow> g i key | Inl _ \<Rightarrow> None"
  have ns: "(of_int nShards :: u64) \<noteq> 0"
    using assms(1,2) by (simp add: word_of_int_eq_0_iff zdvd_not_zless)
  have rep: "0 \<le> wk_replica (WeakShard_new (junk i) (n i) cid i closest)"
    "wk_replica (WeakShard_new (junk i) (n i) cid i closest) < n i" for i
    using assms(3) [of i] replica_mod [of "n i" cid] by (auto simp: WeakShard_new_def)
  have "weak_good n ?g ?s"
    by (rule good_idle)
      (use assms(3,4) ns rep in \<open>auto simp: weak_conf_def holds_def calm_def weak_init_def WeakClient_new_def WeakShard_new_def\<close>)
  then show ?thesis
    using weak_good_run [of n ?g ?s evs] assms(5) by (auto simp: weak_init_def)
qed

section \<open>Replies that come late\<close>

text \<open>
  Without patience the replies are mixed up, as they do not name their request. A client of one shard with two
  replicas that hold a value for \<open>a\<close> and another for \<open>b\<close>.
\<close>

definition ex_weak :: WeakSys where
  "ex_weak = weak_init (WeakClient_new (\<lambda>_. 0) (\<lambda>_. 2) 1 1 0)
     (\<lambda>_ _. Weak_load_keys [''a'', ''b''] KVStore_init)"

text \<open>
  A read of \<open>b\<close> that gets the reply of the read of \<open>a\<close> before it; a write that is reported done while one replica
  still has the old value, because the reply to an earlier write is counted; and a task that starts the timer a
  second time.
\<close>

definition ex_late_read :: "weak_event list" where
  "ex_late_read = [WCall (CallGet ''a''), WTask 0 0 2, WDeliver 0, WTimer 0, WReturn,
     WCall (CallGet ''b''), WDeliver 0, WReturn]"

definition ex_late_write :: "weak_event list" where
  "ex_late_write = [WCall (CallPut ''a'' ''x''), WTask 0 0 2, WDeliver 0, WTimer 0, WReturn,
     WCall (CallPut ''a'' ''y''), WTask 0 0 2, WLose 0, WDeliver 1, WDeliver 0, WDeliver 1, WReturn]"

definition ex_two_timers :: "weak_event list" where
  "ex_two_timers = [WCall (CallGet ''a''), WTask 0 0 2, WDeliver 0, WTimer 0, WReturn,
     WCall (CallPut ''a'' ''x''), WDeliver 0, WReturn, WCall (CallPut ''b'' ''y''), WTask 0 0 2, WTask 0 0 2]"

text \<open>
  After a timeout the replies of one call answer another: a read returns the value of a different key, a write
  is reported done although a replica has not stored it, and the timer can be set while it runs.
\<close>

theorem weak_late_replies:
  "(case weak_run ex_late_read ex_weak of Inl _ \<Rightarrow> False
    | Inr s \<Rightarrow> map (snd \<circ> snd) (wy_answers s) = ['''', ''a''] \<and> map (fst \<circ> snd) (wy_answers s) = [REPLY_TIMEOUT, REPLY_OK]) \<and>
   (case weak_run ex_late_write ex_weak of Inl _ \<Rightarrow> False
    | Inr s \<Rightarrow> last (wy_answers s) = (CallPut ''a'' ''y'', REPLY_OK, '''') \<and> KVStore_get (wy_store s 0 1) ''a'' = Some ''a'') \<and>
   (case weak_run ex_two_timers ex_weak of Inl e \<Rightarrow> e = AssertFail ''!Active()'' | Inr _ \<Rightarrow> False)"
  by code_simp

section \<open>A call always returns\<close>

text \<open>
  In every run, also with timeouts, repeated messages and refused sends: a waiting call has a task that is still
  to run or a running timer.
\<close>

definition awaited :: "WeakShardClient \<Rightarrow> nat option \<Rightarrow> bool" where
  "awaited b p \<longleftrightarrow> (wk_waiting b \<noteq> None \<longrightarrow> wk_tasks b \<noteq> [] \<or> wk_active b) \<and>
     (case p of
        None \<Rightarrow> wk_waiting b = None
      | Some a \<Rightarrow> wk_heap b a \<noteq> None \<and> wk_waiting b = (if pr_done (the (wk_heap b a)) then None else Some a))"

definition armed :: "WeakSys \<Rightarrow> bool" where
  "armed s \<longleftrightarrow> (\<forall>j. awaited (shard_of s j) (case wy_call s of Some (i, p, call) \<Rightarrow> if j = i then Some p else None | None \<Rightarrow> None))"

lemma run_weak_task_awaited:
  assumes "run_weak_task k t (b\<lparr>wk_tasks := ts\<rparr>) = Inr (b', out)" "awaited b p"
  shows "awaited b' p"
  using assms
  by (auto simp: run_weak_task_def wk_answer_def wk_deref_def wk_start_timer_def send_to_all_def awaited_def promise_defs
      split: weak_task.splits if_splits option.splits)

lemma timed_out_awaited:
  assumes "WeakShard_RequestTimedOut b = Inr b'" "awaited b p"
  shows "awaited b' p"
  using assms
  by (auto simp: WeakShard_RequestTimedOut_def wk_answer_def wk_deref_def awaited_def promise_defs split: option.splits if_splits)

lemma receive_awaited:
  assumes "WeakShard_ReceiveMessage m b = Inr b'" "awaited b p"
  shows "awaited b' p"
  using assms
  by (auto simp: WeakShard_ReceiveMessage_def wk_answer_def wk_deref_def awaited_def promise_defs Let_def
      split: option.splits WeakReply.splits if_splits)

lemma armed_shard:
  assumes "armed s" "\<And>p. awaited (shard_of s i) p \<Longrightarrow> awaited b p"
  shows "armed (with_shard s i b)"
  using assms by (auto simp: armed_def shard_upd split: option.splits)

lemma armed_upd [simp]:
  "armed (s\<lparr>wy_net := ms\<rparr>) = armed s" "armed (s\<lparr>wy_store := st\<rparr>) = armed s" "armed (s\<lparr>wy_answers := as\<rparr>) = armed s"
  by (simp_all add: armed_def)

lemma armed_start:
  assumes "weak_start (wy_client s) call = Inr (i, p, c)" "armed s" "wy_call s = None"
  shows "armed (s\<lparr>wy_client := c, wy_call := Some (i, p, call)\<rparr>)"
  using assms
  by (auto simp: weak_start_def WeakClient_Get_def WeakClient_Put_def wk_promise_def WeakShard_Get_def WeakShard_Put_def
      armed_def awaited_def put_shard_def Let_def promise_defs split: weak_call.splits if_splits)

lemma armed_return:
  assumes "weak_return (wy_client s) i p call = returns (answer, c)" "armed s" "wy_call s = Some (i, p, call)"
  shows "armed (s\<lparr>wy_client := c, wy_call := None\<rparr>)"
  using assms(1,2,3)
  by (auto simp: weak_return_def wk_deref_def armed_def awaited_def put_shard_def Let_def promise_defs
      split: option.splits weak_call.splits if_splits dest: spec [of _ i])

lemma armed_step:
  assumes "weak_step ev s = Inr s'" "armed s"
  shows "armed s'"
proof (cases ev)
  case (WCall call)
  with assms show ?thesis
    by (cases "wy_call s") (auto simp: weak_step_def intro: armed_start)
next
  case (WDeliver j)
  with assms show ?thesis
    by (auto simp: weak_step_def weak_deliver_def split: if_splits weak_packet.splits intro!: armed_shard dest: receive_awaited)
qed (use assms in \<open>auto simp: weak_step_def Let_def armed_return split: if_splits option.splits prod.splits
      intro!: armed_shard dest: run_weak_task_awaited timed_out_awaited\<close>)

lemma armed_run: "weak_run evs s = Inr s' \<Longrightarrow> armed s \<Longrightarrow> armed s'"
  by (induction evs arbitrary: s) (auto dest: armed_step)

text \<open>
  A call whose task has run returns: at the latest when its timer fires. This holds in every state that a new
  client can reach, whatever the network does.
\<close>

theorem weak_call_returns:
  assumes "weak_run evs (weak_init (WeakClient_new junk n cid nShards closest) st) = Inr s"
    and "wy_call s = Some (i, p, call)" and "wk_tasks (wc_bclient (wy_client s) i) = []"
  shows "\<exists>s' res. weak_run [WTimer i, WReturn] s = Inr s' \<and> wy_call s' = None \<and>
    wy_answers s' = wy_answers s @ [(call, res)]"
proof -
  have "armed s"
    by (rule armed_run [OF assms(1)])
      (simp add: armed_def awaited_def weak_init_def WeakClient_new_def WeakShard_new_def)
  then have "awaited (shard_of s i) (Some p)" using assms(2) by (auto simp: armed_def dest: spec [of _ i])
  then show ?thesis using assms(2,3)
    by (cases call; cases "wk_heap (shard_of s i) p"; cases "wk_active (shard_of s i)")
      (auto simp: awaited_def weak_step_def weak_return_def WeakShard_RequestTimedOut_def wk_answer_def wk_deref_def
        shard_upd Let_def promise_defs split: if_splits)
qed

section \<open>Witnesses\<close>

definition ex_patient :: "weak_event list" where
  "ex_patient = [WCall (CallPut ''a'' ''x''), WTask 0 0 2, WDeliver 1, WDeliver 0, WDeliver 0, WDeliver 0, WReturn,
     WCall (CallGet ''a''), WTask 0 0 2, WDeliver 0, WDeliver 0, WReturn]"

theorem weak_client_sequential_witness:
  "case weak_run ex_patient ex_weak of Inl _ \<Rightarrow> False
   | Inr s \<Rightarrow> length (wy_answers s) = 2 \<and>
       sequential (\<lambda>key. case shard_index key 1 of Inr i \<Rightarrow> KVStore_get (Weak_load_keys [''a'', ''b''] KVStore_init) key
         | Inl _ \<Rightarrow> None) (wy_answers s)"
proof -
  have "case weak_run ex_patient ex_weak of Inl _ \<Rightarrow> False | Inr s \<Rightarrow> length (wy_answers s) = 2" by code_simp
  moreover have "\<exists>s. weak_run ex_patient ex_weak = Inr s \<and>
      sequential (\<lambda>key. case shard_index key (of_int 1) of Inr i \<Rightarrow> KVStore_get (Weak_load_keys [''a'', ''b''] KVStore_init) key
         | Inl _ \<Rightarrow> None) (wy_answers s)"
    unfolding ex_weak_def by (rule weak_client_sequential) (auto simp: ex_patient_def quiet_event_def)
  ultimately show ?thesis by auto
qed

theorem weak_call_returns_witness:
  "\<exists>s s' res. weak_run [WCall (CallGet ''a''), WTask 0 0 2, WLose 0] ex_weak = Inr s \<and>
     weak_run [WTimer 0, WReturn] s = Inr s' \<and> wy_call s' = None \<and> wy_answers s' = wy_answers s @ [(CallGet ''a'', res)]"
proof -
  let ?evs = "[WCall (CallGet ''a''), WTask 0 0 2, WLose 0]"
  have "case weak_run ?evs ex_weak of Inl _ \<Rightarrow> False
      | Inr s \<Rightarrow> wy_call s = Some (0, 0, CallGet ''a'') \<and> wk_tasks (wc_bclient (wy_client s) 0) = []" by code_simp
  then obtain s where s: "weak_run ?evs ex_weak = Inr s" "wy_call s = Some (0, 0, CallGet ''a'')"
    "wk_tasks (wc_bclient (wy_client s) 0) = []" by (auto split: sum.splits)
  from weak_call_returns [OF s(1) [unfolded ex_weak_def] s(2,3)] s(1) show ?thesis by blast
qed

end
