(* ===== verification/Wire_Format.thy ===== *)
theory Wire_Format
  imports Tapir_Prelude
begin

text \<open>
  Integers and messages in byte buffers, as the transports write and read them through casted pointers
  (\<^verbatim>\<open>*((size_t *) ptr) = n\<close>) on a little-endian machine with 8-byte \<^verbatim>\<open>size_t\<close>. A buffer is a string and a
  pointer into it a position. Reading an integer or a string that is not inside the buffer is undefined
  behaviour.
\<close>

section \<open>Integers\<close>

fun le_bytes :: "nat \<Rightarrow> nat \<Rightarrow> string" where
  "le_bytes 0 x = []"
| "le_bytes (Suc k) x = char_of (x mod 256) # le_bytes k (x div 256)"

fun le_value :: "string \<Rightarrow> nat" where
  "le_value [] = 0"
| "le_value (c # cs) = of_char c + 256 * le_value cs"

definition put_size :: "u64 \<Rightarrow> string" where
  "put_size x = le_bytes 8 (unat x)"

definition slice :: "string \<Rightarrow> nat \<Rightarrow> nat \<Rightarrow> string outcome" where
  "slice buf pos len = (if pos + len \<le> length buf then Inr (take len (drop pos buf)) else Inl (Undefined ''outside of the buffer''))"

definition get_size :: "string \<Rightarrow> nat \<Rightarrow> u64 outcome" where
  "get_size buf pos = obind (slice buf pos 8) (\<lambda>bs. Inr (of_nat (le_value bs)))"

lemma length_le_bytes [simp]: "length (le_bytes k x) = k"
  by (induction k arbitrary: x) simp_all

lemma le_value_bytes: "le_value (le_bytes k x) = x mod 256 ^ k"
proof (induction k arbitrary: x)
  case (Suc k)
  then show ?case by (simp add: mod_mult2_eq)
qed simp

lemma length_put_size [simp]: "length (put_size x) = 8"
  by (simp add: put_size_def)

lemma slice_at [simp]: "pos = length as \<Longrightarrow> n = length bs \<Longrightarrow> slice (as @ bs @ cs) pos n = Inr bs"
  by (simp add: slice_def)

lemma slice_0 [simp]: "n = length bs \<Longrightarrow> slice (bs @ cs) 0 n = Inr bs"
  using slice_at [of 0 "[]" n bs cs] by simp

lemma slice_end [simp]: "pos = length as \<Longrightarrow> n = length bs \<Longrightarrow> slice (as @ bs) pos n = Inr bs"
  using slice_at [of pos as n bs "[]"] by simp

lemma get_size_put: "slice buf pos 8 = Inr (put_size x) \<Longrightarrow> get_size buf pos = Inr x"
proof -
  have "unat x mod 256 ^ 8 = unat x" using unsigned_less [of x, where ?'a = nat] by simp
  then show "slice buf pos 8 = Inr (put_size x) \<Longrightarrow> get_size buf pos = Inr x"
    by (simp add: get_size_def put_size_def le_value_bytes)
qed

lemma slice_more [simp]: "slice buf pos len = Inr bs \<Longrightarrow> slice (buf @ cs) pos len = Inr bs"
  by (auto simp: slice_def split: if_splits)

section \<open>A type name and a body\<close>

text \<open>
  \<^verbatim>\<open>SerializeMessage\<close> of \<^verbatim>\<open>udptransport.cc\<close>, and \<^verbatim>\<open>DecodePacket\<close>. \<open>as_int\<close> is the conversion \<^verbatim>\<open>(int)sz\<close>.
  The positions \<^verbatim>\<open>ptr+typeLen-buf\<close> are computed modulo \<open>2 ^ 64\<close> and compared as signed numbers.
\<close>

definition as_int :: "nat \<Rightarrow> int" where
  "as_int n = sint (of_nat n :: 32 word)"

definition SerializeMessage :: "string \<Rightarrow> string \<Rightarrow> string outcome" where
  "SerializeMessage type data =
     (let typeLen = length type; dataLen = length data; totalLen = typeLen + 8 + dataLen + 8 in
      obind (assert_that (8 < totalLen) ''ptr-buf < totalLen'') (\<lambda>_.
      obind (assert_that (8 + typeLen < totalLen) ''ptr+typeLen-buf < totalLen'') (\<lambda>_.
      obind (assert_that (8 + typeLen + 8 < totalLen) ''ptr-buf < totalLen'') (\<lambda>_.
      obind (assert_that (8 + typeLen + 8 + dataLen = totalLen) ''ptr+dataLen-buf == totalLen'') (\<lambda>_.
        Inr (put_size (of_nat typeLen) @ type @ put_size (of_nat dataLen) @ data))))))"

definition DecodePacket :: "string \<Rightarrow> (string \<times> string) outcome" where
  "DecodePacket buf =
     (let sz = as_int (length buf) in
      obind (get_size buf 0) (\<lambda>typeLen.
      obind (assert_that (8 < sz) ''ptr-buf < (int)sz'') (\<lambda>_.
      obind (assert_that (sint (8 + typeLen) < sz) ''ptr+typeLen-buf < (int)sz'') (\<lambda>_.
      obind (slice buf 8 (unat typeLen)) (\<lambda>type.
      let pos = 8 + unat typeLen in
      obind (get_size buf pos) (\<lambda>msgLen.
      obind (assert_that (int (pos + 8) < sz) ''ptr-buf < (int)sz'') (\<lambda>_.
      obind (assert_that (sint (of_nat (pos + 8) + msgLen) \<le> sz) ''ptr+msgLen-buf <= (int)sz'') (\<lambda>_.
      obind (slice buf (pos + 8) (unat msgLen)) (\<lambda>msg. Inr (type, msg))))))))))"

abbreviation wire :: "string \<Rightarrow> string \<Rightarrow> string" where
  "wire type data \<equiv> put_size (of_nat (length type)) @ type @ put_size (of_nat (length data)) @ data"

lemma SerializeMessage_wire: "SerializeMessage type data = (if data = [] then Inl (AssertFail ''ptr-buf < totalLen'') else Inr (wire type data))"
  by (simp add: SerializeMessage_def)

lemma as_int_small: "n < 2 ^ 31 \<Longrightarrow> as_int n = int n"
  by (simp add: as_int_def signed_of_nat signed_take_bit_int_eq_self)

lemma sint_of_nat_small: "n < 2 ^ 63 \<Longrightarrow> sint (of_nat n :: u64) = int n"
  by (simp add: signed_of_nat signed_take_bit_int_eq_self)

lemma unat_of_nat_small: "n < 2 ^ 63 \<Longrightarrow> unat (of_nat n :: u64) = n"
  by (simp add: unat_of_nat take_bit_nat_eq_self)

lemma DecodePacket_wire:
  assumes "data \<noteq> []" "length type + length data < 2 ^ 30"
  shows "DecodePacket (wire type data) = Inr (type, data)"
proof -
  let ?buf = "wire type data"
  have len: "length type < 2 ^ 63" "length data < 2 ^ 63" using assms(2) by simp_all
  have sz: "as_int (length ?buf) = int (16 + length type + length data)"
    using assms(2) by (simp add: as_int_small)
  have g1: "get_size ?buf 0 = Inr (of_nat (length type))" by (rule get_size_put) simp
  have "slice ((put_size (of_nat (length type)) @ type) @ put_size (of_nat (length data)) @ data) (8 + length type) 8 =
      Inr (put_size (of_nat (length data)))" by (rule slice_at) simp_all
  then have g2: "get_size ?buf (8 + length type) = Inr (of_nat (length data))"
    unfolding append_assoc by (rule get_size_put)
  have s1: "slice ?buf 8 (length type) = Inr type" by simp
  have "slice ((put_size (of_nat (length type)) @ type @ put_size (of_nat (length data))) @ data)
      (8 + length type + 8) (length data) = Inr data" by (rule slice_end) simp_all
  then have s2: "slice ?buf (8 + length type + 8) (length data) = Inr data"
    unfolding append_assoc .
  have a1: "sint (8 + of_nat (length type) :: u64) = int (8 + length type)"
    using sint_of_nat_small [of "8 + length type"] assms(2) by simp
  have a2: "sint (of_nat (8 + length type + 8) + of_nat (length data) :: u64) = int (8 + length type + 8 + length data)"
    using sint_of_nat_small [of "8 + length type + 8 + length data"] assms(2) by simp
  have d: "0 < length data" using assms(1) by simp
  show ?thesis
    unfolding DecodePacket_def Let_def sz g1 obind_Inr unat_of_nat_small [OF len(1)] a1 s1 g2 a2 unat_of_nat_small [OF len(2)] s2
    using d by simp
qed

end
