(* ===== verification/Udp_Transport.thy ===== *)
theory Udp_Transport
  imports Wire_Format "HOL-Library.Sublist"
begin

text \<open>
  Sending and receiving of the UDP transport, \<^verbatim>\<open>lib/udptransport.cc\<close>: messages beyond 9000 bytes are sent in
  fragments, which the receiver puts together per sender. Addresses and receivers are type parameters; the
  results of \<^verbatim>\<open>recvfrom\<close> and of the simulated drops and reorderings are arguments of \<open>OnReadable\<close>, and what it
  passes to the receivers is its result. Sockets, binding and the multicast group are not modelled.
\<close>

section \<open>State\<close>

text \<open>
  \<open>ut_fragInfo\<close> is a map whose absent entries read as a zero \<^verbatim>\<open>msgId\<close> and no data. \<open>ut_reorder\<close> is the
  \<^verbatim>\<open>reorderBuffer\<close>, \<open>None\<close> when it is not valid. \<open>ut_multicast\<close> joins \<^verbatim>\<open>multicastConfigs\<close> with the receivers and addresses of
  the configuration's replicas.
\<close>

record FragInfo =
  fi_msgId :: u64
  fi_data :: string

record ('a, 'r) UDPTransport =
  ut_lastFragMsgId :: u64
  ut_fragInfo :: "'a \<Rightarrow> FragInfo"
  ut_reorder :: "('a \<times> string \<times> string \<times> int) option"
  ut_receivers :: "int \<Rightarrow> 'r option"
  ut_multicast :: "int \<Rightarrow> ('r \<times> 'a) list option"

definition UDPTransport_new :: "(int \<Rightarrow> 'r option) \<Rightarrow> (int \<Rightarrow> ('r \<times> 'a) list option) \<Rightarrow> ('a, 'r) UDPTransport" where
  "UDPTransport_new receivers multicast =
     \<lparr>ut_lastFragMsgId = 0, ut_fragInfo = (\<lambda>_. \<lparr>fi_msgId = 0, fi_data = ''''\<rparr>), ut_reorder = None,
      ut_receivers = receivers, ut_multicast = multicast\<rparr>"

definition MAX_UDP_MESSAGE_SIZE :: nat where
  "MAX_UDP_MESSAGE_SIZE = 9000"

section \<open>Sending\<close>

definition fragment :: "u64 \<Rightarrow> string \<Rightarrow> nat \<Rightarrow> string" where
  "fragment msgId buf fragStart =
     (let msgLen = length buf; fragLen = min (msgLen - fragStart) MAX_UDP_MESSAGE_SIZE in
      put_size 0 @ put_size msgId @ put_size (of_nat fragStart) @ put_size (of_nat msgLen) @ take fragLen (drop fragStart buf))"

function udp_fragments :: "u64 \<Rightarrow> string \<Rightarrow> nat \<Rightarrow> string list" where
  "udp_fragments msgId buf fragStart =
     (if fragStart < length buf
      then fragment msgId buf fragStart # udp_fragments msgId buf (fragStart + MAX_UDP_MESSAGE_SIZE)
      else [])"
  by pat_completeness auto
termination
  by (relation "measure (\<lambda>(msgId, buf, fragStart). length buf - fragStart)") (auto simp: MAX_UDP_MESSAGE_SIZE_def)

declare udp_fragments.simps [simp del]

text \<open>The packets of a message, and \<^verbatim>\<open>SendMessageInternal\<close> when \<^verbatim>\<open>sendto\<close> takes the first \<open>k\<close> of them.\<close>

definition udp_packets :: "string \<Rightarrow> string \<Rightarrow> ('a, 'r) UDPTransport \<Rightarrow> (string list \<times> ('a, 'r) UDPTransport) outcome" where
  "udp_packets type data t =
     obind (SerializeMessage type data) (\<lambda>buf.
       if length buf \<le> MAX_UDP_MESSAGE_SIZE then Inr ([buf], t)
       else (let msgId = ut_lastFragMsgId t + 1 in Inr (udp_fragments msgId buf 0, t\<lparr>ut_lastFragMsgId := msgId\<rparr>)))"

definition UDP_SendMessageInternal ::
  "nat \<Rightarrow> string \<Rightarrow> string \<Rightarrow> ('a, 'r) UDPTransport \<Rightarrow> (bool \<times> string list \<times> ('a, 'r) UDPTransport) outcome" where
  "UDP_SendMessageInternal k type data t =
     obind (udp_packets type data t) (\<lambda>(packets, t1). Inr (length packets \<le> k, take k packets, t1))"

section \<open>Receiving\<close>

text \<open>
  What the receiver makes of a packet, up to the comment \<^verbatim>\<open>Dispatch\<close>: a message, or nothing yet. The first
  assertion, \<^verbatim>\<open>sizeof(size_t) - sz > 0\<close>, compares unsigned numbers, so it fails only for packets of eight bytes.
\<close>

definition frag_step :: "FragInfo \<Rightarrow> string \<Rightarrow> ((string \<times> string) option \<times> FragInfo) outcome" where
  "frag_step info0 buf =
     (let sz = length buf in
      obind (assert_that (sz \<noteq> 8) ''sizeof(size_t) - sz > 0'') (\<lambda>_.
      obind (get_size buf 0) (\<lambda>typeLen.
      if typeLen \<noteq> 0 then obind (DecodePacket buf) (\<lambda>m. Inr (Some m, info0))
      else
        obind (assert_that (8 < sz) ''ptr-buf < sz'') (\<lambda>_.
        obind (get_size buf 8) (\<lambda>msgId.
        obind (assert_that (16 < sz) ''ptr-buf < sz'') (\<lambda>_.
        obind (get_size buf 16) (\<lambda>fragStart.
        obind (assert_that (24 < sz) ''ptr-buf < sz'') (\<lambda>_.
        obind (get_size buf 24) (\<lambda>msgLen.
        obind (assert_that (32 < sz) ''ptr-buf < sz'') (\<lambda>_.
        obind (assert_that (int (sz - 32) = sint (min (msgLen - fragStart) (of_nat MAX_UDP_MESSAGE_SIZE)))
          ''buf+sz-ptr == (ssize_t) std::min(msgLen-fragStart, MAX_UDP_MESSAGE_SIZE)'') (\<lambda>_.
        let info1 = (if fi_msgId info0 = 0 then \<lparr>fi_msgId = msgId, fi_data = ''''\<rparr> else info0) in
        obind (assert_that (fi_msgId info1 = msgId \<or> msgId > fi_msgId info1) ''msgId > info.msgId'') (\<lambda>_.
        let info = (if fi_msgId info1 \<noteq> msgId then \<lparr>fi_msgId = msgId, fi_data = ''''\<rparr> else info1) in
        if fragStart \<noteq> of_nat (length (fi_data info)) then Inr (None, info)
        else
          (let data = fi_data info @ drop 32 buf in
           if of_nat (length data) = msgLen
           then obind (DecodePacket data) (\<lambda>m. Inr (Some m, \<lparr>fi_msgId = 0, fi_data = ''''\<rparr>))
           else Inr (None, info\<lparr>fi_data := data\<rparr>))))))))))))))"

text \<open>
  Delivery to the receiver of a socket, or to the replicas of a multicast group other than the sender.
\<close>

definition udp_deliver ::
  "('a, 'r) UDPTransport \<Rightarrow> int \<Rightarrow> 'a \<Rightarrow> string \<Rightarrow> string \<Rightarrow> ('r \<times> 'a \<times> string \<times> string) list outcome" where
  "udp_deliver t fd sender msgType msg =
     (case ut_multicast t fd of
        Some rs \<Rightarrow> Inr (map (\<lambda>(receiver, raddr). (receiver, sender, msgType, msg)) (filter (\<lambda>(receiver, raddr). raddr \<noteq> sender) rs))
      | None \<Rightarrow>
          (case ut_receivers t fd of
             None \<Rightarrow> Inl (Undefined ''null receiver'')
           | Some receiver \<Rightarrow> Inr [(receiver, sender, msgType, msg)]))"

text \<open>
  A turn of the loop of \<^verbatim>\<open>OnReadable\<close> from the comment \<^verbatim>\<open>Dispatch\<close> on; \<open>dropped\<close> and \<open>reordered\<close> say whether the rolls of
  the dice call for a drop and for a reordering. Delivering the message kept back changes the descriptor that the
  loop reads from.
\<close>

definition udp_dispatch ::
  "bool \<Rightarrow> bool \<Rightarrow> int \<Rightarrow> 'a \<Rightarrow> string \<Rightarrow> string \<Rightarrow> ('a, 'r) UDPTransport \<Rightarrow>
     (('r \<times> 'a \<times> string \<times> string) list \<times> int \<times> ('a, 'r) UDPTransport) outcome" where
  "udp_dispatch dropped reordered fd sender msgType msg t =
     (if dropped then Inr ([], fd, t)
      else if ut_reorder t = None \<and> reordered then Inr ([], fd, t\<lparr>ut_reorder := Some (sender, msgType, msg, fd)\<rparr>)
      else
        obind (udp_deliver t fd sender msgType msg) (\<lambda>ds.
          case ut_reorder t of
            None \<Rightarrow> Inr (ds, fd, t)
          | Some (sender2, msgType2, msg2, fd2) \<Rightarrow>
              obind (udp_deliver (t\<lparr>ut_reorder := None\<rparr>) fd2 sender2 msgType2 msg2) (\<lambda>ds2.
                Inr (ds @ ds2, fd2, t\<lparr>ut_reorder := None\<rparr>))))"

datatype 'a recv =
    Recv 'a string bool bool
  | RecvError

definition udp_turn ::
  "'a recv \<Rightarrow> int \<Rightarrow> ('a, 'r) UDPTransport \<Rightarrow> (('r \<times> 'a \<times> string \<times> string) list \<times> int \<times> ('a, 'r) UDPTransport) outcome" where
  "udp_turn r fd t =
     (case r of
        RecvError \<Rightarrow> Inl (Undefined ''uninitialised buffer'')
      | Recv sender buf dropped reordered \<Rightarrow>
          obind (frag_step (ut_fragInfo t sender) buf) (\<lambda>(m, info).
            let t1 = t\<lparr>ut_fragInfo := (ut_fragInfo t)(sender := info)\<rparr> in
            case m of
              None \<Rightarrow> Inr ([], fd, t1)
            | Some (msgType, msg) \<Rightarrow> udp_dispatch dropped reordered fd sender msgType msg t1))"

fun OnReadable ::
  "'a recv list \<Rightarrow> int \<Rightarrow> ('a, 'r) UDPTransport \<Rightarrow> (('r \<times> 'a \<times> string \<times> string) list \<times> ('a, 'r) UDPTransport) outcome" where
  "OnReadable [] fd t = Inr ([], t)"
| "OnReadable (r # rs) fd t =
     obind (udp_turn r fd t) (\<lambda>(ds, fd1, t1). obind (OnReadable rs fd1 t1) (\<lambda>(ds2, t2). Inr (ds @ ds2, t2)))"

section \<open>One fragment\<close>

definition piece :: "string \<Rightarrow> nat \<Rightarrow> string" where
  "piece buf s = take (min (length buf - s) MAX_UDP_MESSAGE_SIZE) (drop s buf)"

lemma fragment_piece:
  "fragment msgId buf s = put_size 0 @ put_size msgId @ put_size (of_nat s) @ put_size (of_nat (length buf)) @ piece buf s"
  by (simp add: fragment_def piece_def Let_def)

lemma length_piece [simp]: "length (piece buf s) = min (length buf - s) MAX_UDP_MESSAGE_SIZE"
  by (simp add: piece_def)

lemma take_piece: "s \<le> length buf \<Longrightarrow> take s buf @ piece buf s = take (s + MAX_UDP_MESSAGE_SIZE) buf"
  by (simp add: piece_def take_add min_def)

lemma of_nat_u64_eq: "m < 2 ^ 63 \<Longrightarrow> n < 2 ^ 63 \<Longrightarrow> (of_nat m :: u64) = of_nat n \<longleftrightarrow> m = n"
  by (metis unat_of_nat_small)

definition fresh_info :: "u64 \<Rightarrow> FragInfo \<Rightarrow> FragInfo" where
  "fresh_info msgId info = (if fi_msgId info = msgId \<and> msgId \<noteq> 0 then info else \<lparr>fi_msgId = msgId, fi_data = ''''\<rparr>)"

lemma frag_step_fragment:
  assumes "s < length buf" "length buf < 2 ^ 31"
  shows "frag_step info0 (fragment msgId buf s) =
    (if fi_msgId info0 \<noteq> 0 \<and> msgId < fi_msgId info0 then Inl (AssertFail ''msgId > info.msgId'')
     else let info = fresh_info msgId info0 in
       if of_nat s \<noteq> (of_nat (length (fi_data info)) :: u64) then Inr (None, info)
       else if of_nat (length (fi_data info @ piece buf s)) = (of_nat (length buf) :: u64)
       then obind (DecodePacket (fi_data info @ piece buf s)) (\<lambda>m. Inr (Some m, \<lparr>fi_msgId = 0, fi_data = ''''\<rparr>))
       else Inr (None, info\<lparr>fi_data := fi_data info @ piece buf s\<rparr>))"
proof -
  let ?f = "fragment msgId buf s"
  have len: "length ?f = 32 + min (length buf - s) MAX_UDP_MESSAGE_SIZE" "8 < length ?f" "16 < length ?f" "24 < length ?f"
      "32 < length ?f" "drop 32 ?f = piece buf s"
    using assms by (simp_all add: fragment_piece MAX_UDP_MESSAGE_SIZE_def)
  have g0: "get_size ?f 0 = Inr 0" by (rule get_size_put) (simp add: fragment_piece)
  have "slice (put_size 0 @ put_size msgId @ put_size (of_nat s) @ put_size (of_nat (length buf)) @ piece buf s) 8 8 = Inr (put_size msgId)"
    by (rule slice_at) simp_all
  then have g8: "get_size ?f 8 = Inr msgId" by (intro get_size_put) (simp add: fragment_piece)
  have "slice ((put_size 0 @ put_size msgId) @ put_size (of_nat s) @ put_size (of_nat (length buf)) @ piece buf s) 16 8 = Inr (put_size (of_nat s))"
    by (rule slice_at) simp_all
  then have g16: "get_size ?f 16 = Inr (of_nat s)" by (intro get_size_put) (simp add: fragment_piece)
  have "slice ((put_size 0 @ put_size msgId @ put_size (of_nat s)) @ put_size (of_nat (length buf)) @ piece buf s) 24 8 =
      Inr (put_size (of_nat (length buf)))"
    by (rule slice_at) simp_all
  then have g24: "get_size ?f 24 = Inr (of_nat (length buf))" by (intro get_size_put) (simp add: fragment_piece)
  have "(of_nat (length buf) - of_nat s :: u64) = of_nat (length buf - s)" using assms(1) by (simp add: of_nat_diff)
  moreover have "min (of_nat (length buf - s) :: u64) (of_nat MAX_UDP_MESSAGE_SIZE) = of_nat (min (length buf - s) MAX_UDP_MESSAGE_SIZE)"
    using assms(2) by (simp add: min_def word_le_nat_alt unat_of_nat_small MAX_UDP_MESSAGE_SIZE_def)
  ultimately have m: "sint (min (of_nat (length buf) - of_nat s :: u64) (of_nat MAX_UDP_MESSAGE_SIZE)) =
      int (min (length buf - s) MAX_UDP_MESSAGE_SIZE)"
    using assms(2) by (simp only: ) (rule sint_of_nat_small, simp add: MAX_UDP_MESSAGE_SIZE_def)
  have n8: "length ?f \<noteq> 8" using len(2) by linarith
  show ?thesis
    unfolding frag_step_def Let_def g0 g8 g16 g24 obind_Inr len(6) m
    using n8 len(2-5) by (auto simp: len(1) fresh_info_def not_less)
qed

lemma frag_step_wire:
  assumes "type \<noteq> []" "data \<noteq> []" "length type + length data < 2 ^ 30"
  shows "frag_step info (wire type data) = Inr (Some (type, data), info)"
proof -
  have g: "get_size (wire type data) 0 = Inr (of_nat (length type))" by (rule get_size_put) simp
  have "unat (of_nat (length type) :: u64) = length type" using assms(3) by (intro unat_of_nat_small) simp
  then have "(of_nat (length type) :: u64) \<noteq> 0" using assms(1) by auto
  moreover have "length (wire type data) \<noteq> 8" using assms(1) by simp
  ultimately show ?thesis using DecodePacket_wire [OF assms(2,3)] by (simp only: frag_step_def Let_def g obind_Inr) simp
qed

section \<open>The packets of one sender\<close>

text \<open>The messages that a run of packets from one sender gives, and the packets of a run of messages.\<close>

fun frag_run :: "FragInfo \<Rightarrow> string list \<Rightarrow> ((string \<times> string) list \<times> FragInfo) outcome" where
  "frag_run info [] = Inr ([], info)"
| "frag_run info (p # ps) =
     obind (frag_step info p) (\<lambda>(m, info1). obind (frag_run info1 ps) (\<lambda>(ms, info2).
       Inr ((case m of Some x \<Rightarrow> [x] | None \<Rightarrow> []) @ ms, info2)))"

fun udp_sends :: "(string \<times> string) list \<Rightarrow> ('a, 'r) UDPTransport \<Rightarrow> string list outcome" where
  "udp_sends [] t = Inr []"
| "udp_sends ((type, data) # ms) t =
     obind (udp_packets type data t) (\<lambda>(ps, t1). obind (udp_sends ms t1) (\<lambda>qs. Inr (ps @ qs)))"

definition sendable :: "string \<times> string \<Rightarrow> bool" where
  "sendable m \<longleftrightarrow> (case m of (type, data) \<Rightarrow> type \<noteq> '''' \<and> data \<noteq> '''' \<and> length type + length data < 2 ^ 30)"

lemma frag_run_append:
  "frag_run info (ps @ qs) = obind (frag_run info ps) (\<lambda>(ms, info1). obind (frag_run info1 qs) (\<lambda>(ms2, info2). Inr (ms @ ms2, info2)))"
proof (induction ps arbitrary: info)
  case Nil
  then show ?case by (cases "frag_run info qs") auto
next
  case (Cons p ps)
  show ?case
  proof (cases "frag_step info p")
    case (Inr r)
    then obtain m info1 where r: "frag_step info p = Inr (m, info1)" by (cases r) auto
    show ?thesis
    proof (cases "frag_run info1 ps")
      case (Inr r2)
      then show ?thesis by (cases r2; cases "frag_run (snd r2) qs") (auto simp: r Cons)
    qed (simp add: r Cons)
  qed simp
qed

text \<open>
  The state of a receiver that has seen messages up to number \<open>c\<close>, and the state inside message \<open>msgId\<close>.
\<close>

definition seen_upto :: "u64 \<Rightarrow> FragInfo \<Rightarrow> bool" where
  "seen_upto c info \<longleftrightarrow> fi_msgId info \<le> c"

definition within :: "u64 \<Rightarrow> string \<Rightarrow> FragInfo \<Rightarrow> bool" where
  "within msgId buf info \<longleftrightarrow> fi_msgId info = 0 \<or> fi_msgId info < msgId \<or>
     (fi_msgId info = msgId \<and> (\<exists>k < length buf. fi_data info = take k buf))"

lemma fresh_within:
  assumes "within msgId buf info" "msgId \<noteq> 0" "buf \<noteq> []"
  shows "fi_msgId (fresh_info msgId info) = msgId" "\<exists>k < length buf. fi_data (fresh_info msgId info) = take k buf"
    "within msgId buf (fresh_info msgId info)"
  using assms by (auto simp: within_def fresh_info_def intro: exI [of _ 0])

lemma frag_step_within:
  assumes "within msgId buf info" "msgId \<noteq> 0" "s < length buf" and buf: "buf = wire type data" "sendable (type, data)"
  shows "\<exists>m info'. frag_step info (fragment msgId buf s) = Inr (m, info') \<and>
    (m = None \<and> within msgId buf info' \<and> fi_msgId info' = msgId \<or>
     m = Some (type, data) \<and> fi_msgId info' = 0 \<and> length buf \<le> s + MAX_UDP_MESSAGE_SIZE) \<and>
    (fi_data (fresh_info msgId info) = take s buf \<longrightarrow>
       (if s + MAX_UDP_MESSAGE_SIZE < length buf then info' = \<lparr>fi_msgId = msgId, fi_data = take (s + MAX_UDP_MESSAGE_SIZE) buf\<rparr>
        else m = Some (type, data)))"
proof -
  let ?i = "fresh_info msgId info"
  have size: "length buf < 2 ^ 31" using buf by (simp add: sendable_def)
  from fresh_within [OF assms(1,2)] assms(3) obtain k where
    k: "fi_msgId ?i = msgId" "k < length buf" "fi_data ?i = take k buf" "within msgId buf ?i" by (metis length_0_conv not_less_zero)
  have no: "\<not> (fi_msgId info \<noteq> 0 \<and> msgId < fi_msgId info)" using assms(1) by (auto simp: within_def)
  have lk: "length (fi_data ?i) = k" using k by simp
  have sk: "of_nat s \<noteq> (of_nat (length (fi_data ?i)) :: u64) \<longleftrightarrow> s \<noteq> k"
    using of_nat_u64_eq [of s k] size assms(3) k(2) lk by simp
  have tk: "fi_data ?i = take s buf \<longleftrightarrow> s = k"
    using k(2) assms(3) lk by (metis k(3) length_take min.absorb2 less_imp_le)
  show ?thesis
  proof (cases "s = k")
    case False
    then show ?thesis using tk k(1,4) unfolding frag_step_fragment [OF assms(3) size] if_not_P [OF no] Let_def sk by simp
  next
    case True
    let ?d = "fi_data ?i @ piece buf s"
    have d: "?d = take (s + MAX_UDP_MESSAGE_SIZE) buf" using True k(3) take_piece [of s buf] assms(3) by simp
    have ld: "of_nat (length ?d) = (of_nat (length buf) :: u64) \<longleftrightarrow> length buf \<le> s + MAX_UDP_MESSAGE_SIZE"
      unfolding d using of_nat_u64_eq [of "min (length buf) (s + MAX_UDP_MESSAGE_SIZE)" "length buf"] size
      by (auto simp: min_def MAX_UDP_MESSAGE_SIZE_def)
    show ?thesis
    proof (cases "length buf \<le> s + MAX_UDP_MESSAGE_SIZE")
      case le: True
      have "DecodePacket ?d = Inr (type, data)"
        unfolding d using le buf DecodePacket_wire [of data type] by (simp add: sendable_def)
      with True le ld show ?thesis
        unfolding frag_step_fragment [OF assms(3) size] if_not_P [OF no] Let_def sk by simp
    next
      case gt: False
      have "within msgId buf (?i\<lparr>fi_data := ?d\<rparr>)" using gt k(1) d by (auto simp: within_def intro!: exI [of _ "s + MAX_UDP_MESSAGE_SIZE"])
      moreover have "?i\<lparr>fi_data := ?d\<rparr> = \<lparr>fi_msgId = msgId, fi_data = take (s + MAX_UDP_MESSAGE_SIZE) buf\<rparr>"
        using k(1) d by (cases ?i) simp
      ultimately show ?thesis using True gt ld k(1)
        unfolding frag_step_fragment [OF assms(3) size] if_not_P [OF no] Let_def sk by simp
    qed
  qed
qed

lemma within_seen: "within msgId buf info \<Longrightarrow> seen_upto msgId info"
  by (auto simp: within_def seen_upto_def)

lemma seen_within: "seen_upto c info \<Longrightarrow> c < msgId \<Longrightarrow> within msgId buf info"
  by (auto simp: within_def seen_upto_def)

lemma frags_lost:
  assumes "within msgId (wire type data) info" "msgId \<noteq> 0" "sendable (type, data)"
    and "subseq xs (udp_fragments msgId (wire type data) s)"
  shows "\<exists>ms info'. frag_run info xs = Inr (ms, info') \<and> subseq ms [(type, data)] \<and> seen_upto msgId info'"
  using assms(1,2,4)
proof (induction msgId "wire type data" s arbitrary: xs info rule: udp_fragments.induct)
  case (1 msgId s)
  let ?buf = "wire type data"
  show ?case
  proof (cases xs)
    case Nil
    then show ?thesis using 1(2) by (auto simp: within_seen)
  next
    case (Cons x xs')
    then have s: "s < length ?buf" using 1(4) by (subst (asm) udp_fragments.simps) (auto split: if_splits)
    have sub: "subseq (x # xs') (fragment msgId ?buf s # udp_fragments msgId ?buf (s + MAX_UDP_MESSAGE_SIZE))"
      using 1(4) s unfolding Cons by (subst (asm) udp_fragments.simps) (simp only: if_P)
    show ?thesis
    proof (cases "x = fragment msgId ?buf s")
      case True
      have rest: "subseq xs' (udp_fragments msgId ?buf (s + MAX_UDP_MESSAGE_SIZE))" using sub True by (simp only: subseq_Cons2_iff simp_thms if_True)
      from frag_step_within [OF 1(2,3) s refl assms(3)] obtain m info' where
        m: "frag_step info x = Inr (m, info')"
        and cases: "m = None \<and> within msgId ?buf info' \<or> m = Some (type, data) \<and> fi_msgId info' = 0 \<and> length ?buf \<le> s + MAX_UDP_MESSAGE_SIZE"
        unfolding True by blast
      from cases show ?thesis
      proof
        assume a: "m = None \<and> within msgId ?buf info'"
        from 1(1) [OF s _ 1(3) rest, of info'] a obtain ms info2 where
          "frag_run info' xs' = Inr (ms, info2)" "subseq ms [(type, data)]" "seen_upto msgId info2" by blast
        with m a show ?thesis by (simp add: Cons)
      next
        assume a: "m = Some (type, data) \<and> fi_msgId info' = 0 \<and> length ?buf \<le> s + MAX_UDP_MESSAGE_SIZE"
        then have "udp_fragments msgId ?buf (s + MAX_UDP_MESSAGE_SIZE) = []" by (subst udp_fragments.simps) simp
        with rest have "xs' = []" by simp
        with m a show ?thesis by (simp add: Cons seen_upto_def)
      qed
    next
      case False
      then have "subseq xs (udp_fragments msgId ?buf (s + MAX_UDP_MESSAGE_SIZE))"
        using sub unfolding Cons by (simp only: subseq_Cons2_iff if_False)
      from 1(1) [OF s 1(2,3) this] show ?thesis .
    qed
  qed
qed

lemma frags_all:
  assumes "within msgId (wire type data) info" "msgId \<noteq> 0" "sendable (type, data)" "s < length (wire type data)"
    and "fi_data (fresh_info msgId info) = take s (wire type data)"
  shows "\<exists>info'. frag_run info (udp_fragments msgId (wire type data) s) = Inr ([(type, data)], info')"
  using assms(1,2,4,5)
proof (induction msgId "wire type data" s arbitrary: info rule: udp_fragments.induct)
  case (1 msgId s)
  let ?buf = "wire type data" and ?s = "s + MAX_UDP_MESSAGE_SIZE"
  have split: "udp_fragments msgId ?buf s = fragment msgId ?buf s # udp_fragments msgId ?buf ?s"
    using 1(4) by (subst udp_fragments.simps) (rule if_P)
  from frag_step_within [OF 1(2,3,4) refl assms(3)] 1(5) obtain m info' where
    m: "frag_step info (fragment msgId ?buf s) = Inr (m, info')"
    and cases: "m = None \<and> within msgId ?buf info' \<or> m = Some (type, data) \<and> fi_msgId info' = 0 \<and> length ?buf \<le> ?s"
    and full: "if ?s < length ?buf then info' = \<lparr>fi_msgId = msgId, fi_data = take ?s ?buf\<rparr> else m = Some (type, data)"
    by blast
  show ?case
  proof (cases "?s < length ?buf")
    case True
    then have i: "info' = \<lparr>fi_msgId = msgId, fi_data = take ?s ?buf\<rparr>" "m = None" using full cases by auto
    then have "fi_data (fresh_info msgId info') = take ?s ?buf" "within msgId ?buf info'"
      using True 1(3) by (auto simp: fresh_info_def within_def)
    with 1(1) [OF 1(4) _ 1(3) True, of info'] obtain info2 where
      "frag_run info' (udp_fragments msgId ?buf ?s) = Inr ([(type, data)], info2)" by blast
    with m i show ?thesis unfolding split by simp
  next
    case False
    then have "udp_fragments msgId ?buf ?s = []" by (subst udp_fragments.simps) (rule if_not_P)
    with False full m show ?thesis unfolding split by simp
  qed
qed

lemma udp_packets_sendable:
  assumes "sendable (type, data)"
  shows "udp_packets type data t =
    (if length (wire type data) \<le> MAX_UDP_MESSAGE_SIZE then Inr ([wire type data], t)
     else Inr (udp_fragments (ut_lastFragMsgId t + 1) (wire type data) 0, t\<lparr>ut_lastFragMsgId := ut_lastFragMsgId t + 1\<rparr>))"
  using assms by (simp add: udp_packets_def SerializeMessage_wire sendable_def Let_def)

lemma next_id:
  assumes "unat (c :: u64) + Suc n < 2 ^ 64"
  shows "c < c + 1" "c + 1 \<noteq> 0" "unat (c + 1) + n < 2 ^ 64"
proof -
  have u: "unat (c + 1) = unat c + 1" using assms by (simp add: unat_word_ariths)
  then show "c < c + 1" "unat (c + 1) + n < 2 ^ 64" using assms by (simp_all add: word_less_nat_alt)
  then show "c + 1 \<noteq> 0" by auto
qed

text \<open>One message: its packets and what is left of them when some are lost.\<close>

lemma message_run:
  assumes "sendable m" "unat (ut_lastFragMsgId t) + Suc n < 2 ^ 64"
  obtains ps t1 where "udp_packets (fst m) (snd m) t = Inr (ps, t1)"
    and "unat (ut_lastFragMsgId t1) + n < 2 ^ 64"
    and "\<And>info xs. seen_upto (ut_lastFragMsgId t) info \<Longrightarrow> subseq xs ps \<Longrightarrow>
      \<exists>out info'. frag_run info xs = Inr (out, info') \<and> subseq out [m] \<and> seen_upto (ut_lastFragMsgId t1) info'"
    and "\<And>info. seen_upto (ut_lastFragMsgId t) info \<Longrightarrow> \<exists>info'. frag_run info ps = Inr ([m], info')"
proof (cases "length (wire (fst m) (snd m)) \<le> MAX_UDP_MESSAGE_SIZE")
  case True
  have step: "frag_step info (wire (fst m) (snd m)) = Inr (Some m, info)" for info
    using frag_step_wire [of "fst m" "snd m" info] assms(1) by (cases m) (simp add: sendable_def)
  show thesis
  proof (rule that [of "[wire (fst m) (snd m)]" t])
    show "udp_packets (fst m) (snd m) t = Inr ([wire (fst m) (snd m)], t)"
      using udp_packets_sendable [of "fst m" "snd m" t] assms(1) True by simp
    show "unat (ut_lastFragMsgId t) + n < 2 ^ 64" using assms(2) by simp
    fix info
    show "\<exists>info'. frag_run info [wire (fst m) (snd m)] = Inr ([m], info')" using step by simp
    fix xs
    assume i: "seen_upto (ut_lastFragMsgId t) info" and xs: "subseq xs [wire (fst m) (snd m)]"
    from xs have "xs = [] \<or> xs = [wire (fst m) (snd m)]" by (cases xs) (auto split: if_splits)
    with i step show "\<exists>out info'. frag_run info xs = Inr (out, info') \<and> subseq out [m] \<and> seen_upto (ut_lastFragMsgId t) info'"
      by auto
  qed
next
  case False
  note id = next_id [OF assms(2)]
  let ?id = "ut_lastFragMsgId t + 1"
  have m: "sendable (fst m, snd m)" using assms(1) by simp
  have w: "within ?id (wire (fst m) (snd m)) info" if "seen_upto (ut_lastFragMsgId t) info" for info
    using that id(1) by (rule seen_within)
  have f: "fi_data (fresh_info ?id info) = take 0 (wire (fst m) (snd m))" if "seen_upto (ut_lastFragMsgId t) info" for info
    using that id(1) by (auto simp: fresh_info_def seen_upto_def)
  show thesis
    by (rule that [of "udp_fragments ?id (wire (fst m) (snd m)) 0" "t\<lparr>ut_lastFragMsgId := ?id\<rparr>"])
      (use False id frags_lost [OF w id(2) m] frags_all [OF w id(2) m _ f] in
        \<open>auto simp: udp_packets_sendable [OF m] MAX_UDP_MESSAGE_SIZE_def\<close>)
qed

lemma sends_run:
  assumes "\<forall>m \<in> set ms. sendable m" "unat (ut_lastFragMsgId t) + length ms < 2 ^ 64"
  shows "\<exists>ps. udp_sends ms t = Inr ps \<and>
    (\<forall>info xs. seen_upto (ut_lastFragMsgId t) info \<longrightarrow> subseq xs ps \<longrightarrow>
       (\<exists>out info'. frag_run info xs = Inr (out, info') \<and> subseq out ms)) \<and>
    (\<forall>info. seen_upto (ut_lastFragMsgId t) info \<longrightarrow> (\<exists>info'. frag_run info ps = Inr (ms, info')))"
  using assms
proof (induction ms arbitrary: t)
  case (Cons m ms)
  have "sendable m" "unat (ut_lastFragMsgId t) + Suc (length ms) < 2 ^ 64" using Cons.prems by simp_all
  from message_run [OF this] obtain ps1 t1 where
    p: "udp_packets (fst m) (snd m) t = Inr (ps1, t1)" and t1: "unat (ut_lastFragMsgId t1) + length ms < 2 ^ 64"
    and sub: "\<And>info xs. seen_upto (ut_lastFragMsgId t) info \<Longrightarrow> subseq xs ps1 \<Longrightarrow>
      \<exists>out info'. frag_run info xs = Inr (out, info') \<and> subseq out [m] \<and> seen_upto (ut_lastFragMsgId t1) info'"
    and all: "\<And>info. seen_upto (ut_lastFragMsgId t) info \<Longrightarrow> \<exists>info'. frag_run info ps1 = Inr ([m], info')" by blast
  from Cons.IH [OF _ t1] Cons.prems obtain ps2 where
    s2: "udp_sends ms t1 = Inr ps2"
    and sub2: "\<And>info xs. seen_upto (ut_lastFragMsgId t1) info \<Longrightarrow> subseq xs ps2 \<Longrightarrow>
       \<exists>out info'. frag_run info xs = Inr (out, info') \<and> subseq out ms"
    and all2: "\<And>info. seen_upto (ut_lastFragMsgId t1) info \<Longrightarrow> \<exists>info'. frag_run info ps2 = Inr (ms, info')" by auto
  have "\<exists>out info'. frag_run info xs = Inr (out, info') \<and> subseq out (m # ms)"
    if i: "seen_upto (ut_lastFragMsgId t) info" and xs: "subseq xs (ps1 @ ps2)" for info xs
  proof -
    from xs obtain xs1 xs2 where x: "xs = xs1 @ xs2" "subseq xs1 ps1" "subseq xs2 ps2" by (auto simp: subseq_append_iff)
    from sub [OF i x(2)] obtain out1 info1 where
      o1: "frag_run info xs1 = Inr (out1, info1)" "subseq out1 [m]" "seen_upto (ut_lastFragMsgId t1) info1" by blast
    from sub2 [OF o1(3) x(3)] obtain out2 info2 where o2: "frag_run info1 xs2 = Inr (out2, info2)" "subseq out2 ms" by blast
    have "subseq (out1 @ out2) ([m] @ ms)" using o1(2) o2(2) by (rule list_emb_append_mono)
    with o1(1) o2(1) show ?thesis by (simp add: x(1) frag_run_append)
  qed
  moreover have "\<exists>info'. frag_run info (ps1 @ ps2) = Inr (m # ms, info')" if i: "seen_upto (ut_lastFragMsgId t) info" for info
  proof -
    from all [OF i] obtain info1 where o1: "frag_run info ps1 = Inr ([m], info1)" by blast
    moreover from sub [OF i subseq_order.order_refl] o1 have "seen_upto (ut_lastFragMsgId t1) info1" by auto
    ultimately show ?thesis using all2 [of info1] by (auto simp: frag_run_append)
  qed
  ultimately show ?case using p s2 by (cases m) simp
qed (auto dest!: list_emb_Nil2)

section \<open>Delivery in order\<close>

definition packets_from :: "'a \<Rightarrow> ('a \<times> string) list \<Rightarrow> string list" where
  "packets_from a aps = map snd (filter (\<lambda>ap. fst ap = a) aps)"

definition messages_from :: "'a \<Rightarrow> ('r \<times> 'a \<times> string \<times> string) list \<Rightarrow> (string \<times> string) list" where
  "messages_from a ds = map (\<lambda>(r, b, m). m) (filter (\<lambda>(r, b, m). b = a) ds)"

lemma packets_from_simps [simp]:
  "packets_from a [] = []" "packets_from a ((b, p) # aps) = (if b = a then p # packets_from a aps else packets_from a aps)"
  by (simp_all add: packets_from_def)

lemma messages_from_simps [simp]:
  "messages_from a [] = []" "messages_from a (ds @ ds') = messages_from a ds @ messages_from a ds'"
  "messages_from a ((r, b, m) # ds) = (if b = a then m # messages_from a ds else messages_from a ds)"
  by (simp_all add: messages_from_def)

text \<open>Without drops and reorderings, every sender's packets are treated as if the others did not exist.\<close>

lemma OnReadable_senders:
  assumes "ut_multicast t fd = None" "ut_receivers t fd = Some r" "ut_reorder t = None"
    and "\<And>a. \<exists>info'. frag_run (ut_fragInfo t a) (packets_from a aps) = Inr (out a, info')"
  shows "\<exists>ds t'. OnReadable (map (\<lambda>(a, p). Recv a p False False) aps) fd t = Inr (ds, t') \<and> (\<forall>a. messages_from a ds = out a)"
  using assms
proof (induction aps arbitrary: t out)
  case (Cons ap aps)
  obtain a p where ap: "ap = (a, p)" by fastforce
  from Cons.prems(4) [of a] obtain info2 where "frag_run (ut_fragInfo t a) (p # packets_from a aps) = Inr (out a, info2)"
    by (auto simp: ap)
  then obtain m info1 ms where m: "frag_step (ut_fragInfo t a) p = Inr (m, info1)" "frag_run info1 (packets_from a aps) = Inr (ms, info2)"
      "out a = (case m of Some x \<Rightarrow> [x] | None \<Rightarrow> []) @ ms" by auto
  let ?t = "t\<lparr>ut_fragInfo := (ut_fragInfo t)(a := info1)\<rparr>" and ?ds = "case m of Some x \<Rightarrow> [(r, a, x)] | None \<Rightarrow> []"
  have turn: "udp_turn (Recv a p False False) fd t = Inr (?ds, fd, ?t)"
    using m(1) Cons.prems(1-3) by (auto simp: udp_turn_def udp_dispatch_def udp_deliver_def split: option.split)
  have "\<exists>info'. frag_run (ut_fragInfo ?t b) (packets_from b aps) = Inr ((out(a := ms)) b, info')" for b
    using Cons.prems(4) [of b] m(2) by (auto simp: ap)
  with Cons.IH [of ?t "out(a := ms)"] Cons.prems(1-3) obtain ds t' where
    ds: "OnReadable (map (\<lambda>(a, p). Recv a p False False) aps) fd ?t = Inr (ds, t')" "\<forall>b. messages_from b ds = (out(a := ms)) b"
    by auto
  have "messages_from b (?ds @ ds) = out b" for b using ds(2) m(3) by (cases m) auto
  with ds(1) turn show ?case by (auto simp: ap)
qed simp

text \<open>
  C17. Fragmentation and reassembly are inverse to each other. When every sender's packets arrive in the
  order in which they were sent, interleaved with those of others in any way and with any of them lost, the receiver
  does not fault, and the messages it delivers from a sender are some of those sent, each at most once and in
  order; they are all of them when nothing is lost.
\<close>

theorem udp_reassembles:
  assumes "\<And>a m. m \<in> set (ms a) \<Longrightarrow> sendable m" and "\<And>a. length (ms a) < 2 ^ 64"
    and "\<And>a. udp_sends (ms a) (UDPTransport_new (\<lambda>_. None) (\<lambda>_. None) :: ('a, 'r) UDPTransport) = Inr (ps a)"
    and "\<And>a. subseq (packets_from a aps) (ps a)"
    and "multicast fd = None" and "receivers fd = Some r"
  shows "\<exists>ds t'. OnReadable (map (\<lambda>(a, p). Recv a p False False) aps) fd (UDPTransport_new receivers multicast) = Inr (ds, t') \<and>
    (\<forall>a. subseq (messages_from a ds) (ms a)) \<and>
    (\<forall>a. packets_from a aps = ps a \<longrightarrow> messages_from a ds = ms a)"
proof -
  let ?t = "UDPTransport_new receivers multicast" and ?i = "\<lparr>fi_msgId = 0, fi_data = ''''\<rparr>"
  have "\<exists>out info'. frag_run ?i (packets_from a aps) = Inr (out, info') \<and> subseq out (ms a) \<and>
      (packets_from a aps = ps a \<longrightarrow> out = ms a)" for a
  proof -
    let ?s = "UDPTransport_new (\<lambda>_. None) (\<lambda>_. None) :: ('a, 'r) UDPTransport"
    have s0: "ut_lastFragMsgId ?s = 0" by (simp add: UDPTransport_new_def)
    have i: "seen_upto (ut_lastFragMsgId ?s) ?i" by (simp add: s0 seen_upto_def)
    have "\<forall>m \<in> set (ms a). sendable m" "unat (ut_lastFragMsgId ?s) + length (ms a) < 2 ^ 64"
      using assms(1,2) s0 by auto
    from sends_run [OF this] assms(3) [of a] i assms(4) [of a] obtain out info' where
      o: "frag_run ?i (packets_from a aps) = Inr (out, info')" "subseq out (ms a)" "\<exists>info'. frag_run ?i (ps a) = Inr (ms a, info')"
      by (metis Inr_inject)
    have "packets_from a aps = ps a \<longrightarrow> out = ms a" using o(1,3) by auto
    with o(1,2) show ?thesis by blast
  qed
  then obtain out where out: "\<exists>info'. frag_run ?i (packets_from a aps) = Inr (out a, info')" "subseq (out a) (ms a)"
      "packets_from a aps = ps a \<longrightarrow> out a = ms a" for a by metis
  from OnReadable_senders [of ?t fd r aps out] out(1) assms(5,6) obtain ds t' where
    "OnReadable (map (\<lambda>(a, p). Recv a p False False) aps) fd ?t = Inr (ds, t')" "\<forall>a. messages_from a ds = out a"
    by (auto simp: UDPTransport_new_def)
  with out(2,3) show ?thesis by auto
qed

section \<open>Delivery in any order\<close>

text \<open>
  The packets of a sender: whole messages, and fragments of the message \<open>B msgId\<close>. A receiver holds a prefix of the
  message whose number it remembers.
\<close>

definition genuine :: "(u64 \<Rightarrow> string \<times> string) \<Rightarrow> (string \<times> string) set \<Rightarrow> string \<Rightarrow> bool" where
  "genuine B M p \<longleftrightarrow> (\<exists>type data. (type, data) \<in> M \<and> p = wire type data) \<or>
     (\<exists>msgId s type data. msgId \<noteq> 0 \<and> B msgId = (type, data) \<and> (type, data) \<in> M \<and> s < length (wire type data) \<and>
        p = fragment msgId (wire type data) s)"

definition prefix_info :: "(u64 \<Rightarrow> string \<times> string) \<Rightarrow> FragInfo \<Rightarrow> bool" where
  "prefix_info B info \<longleftrightarrow> (\<forall>type data. B (fi_msgId info) = (type, data) \<longrightarrow> fi_msgId info \<noteq> 0 \<longrightarrow>
     within (fi_msgId info) (wire type data) info)"

lemma frag_step_genuine:
  assumes "prefix_info B info" "genuine B M p" "\<forall>m \<in> M. sendable m" "frag_step info p = Inr (m, info')"
  shows "prefix_info B info'" "m \<noteq> None \<Longrightarrow> the m \<in> M"
proof -
  from assms(2) consider (whole) type data where "(type, data) \<in> M" "p = wire type data"
    | (part) msgId s type data where "msgId \<noteq> 0" "B msgId = (type, data)" "(type, data) \<in> M" "s < length (wire type data)"
        "p = fragment msgId (wire type data) s" by (auto simp: genuine_def)
  then have "prefix_info B info' \<and> (m \<noteq> None \<longrightarrow> the m \<in> M)"
  proof cases
    case whole
    with assms(3,4) frag_step_wire [of type data info] assms(1) show ?thesis by (auto simp: sendable_def)
  next
    case part
    have size: "length (wire type data) < 2 ^ 31" using assms(3) part(3) by (auto simp: sendable_def)
    have "\<not> (fi_msgId info \<noteq> 0 \<and> msgId < fi_msgId info)"
      using assms(4) unfolding part(5) frag_step_fragment [OF part(4) size] by (auto split: if_splits)
    then have "within msgId (wire type data) info"
      using assms(1) part(2) by (cases "fi_msgId info = msgId") (auto simp: prefix_info_def within_def)
    from frag_step_within [OF this part(1,4) refl] assms(3) part(3) assms(4)
    have "m = None \<and> within msgId (wire type data) info' \<and> fi_msgId info' = msgId \<or> m = Some (type, data) \<and> fi_msgId info' = 0"
      unfolding part(5) by fastforce
    with part(2,3) show ?thesis by (auto simp: prefix_info_def)
  qed
  then show "prefix_info B info'" "m \<noteq> None \<Longrightarrow> the m \<in> M" by auto
qed

lemma fragments_set: "p \<in> set (udp_fragments msgId buf s) \<Longrightarrow> \<exists>k < length buf. p = fragment msgId buf k"
proof (induction msgId buf s rule: udp_fragments.induct)
  case (1 msgId buf s)
  then show ?case using udp_fragments.simps [of msgId buf s] by (auto split: if_splits)
qed

definition sent_as :: "u64 \<Rightarrow> (u64 \<Rightarrow> string \<times> string) \<Rightarrow> (string \<times> string) set \<Rightarrow> string \<Rightarrow> bool" where
  "sent_as c B M p \<longleftrightarrow> (\<exists>type data. (type, data) \<in> M \<and> (p = wire type data \<or>
     (\<exists>msgId s. c < msgId \<and> B msgId = (type, data) \<and> s < length (wire type data) \<and> p = fragment msgId (wire type data) s)))"

lemma sent_as_mono:
  assumes "sent_as c B M p" "M \<subseteq> M'" "c' \<le> c" "\<And>i. c < i \<Longrightarrow> B' i = B i"
  shows "sent_as c' B' M' p"
proof -
  from assms(1) obtain type data where m: "(type, data) \<in> M" "p = wire type data \<or>
     (\<exists>msgId s. c < msgId \<and> B msgId = (type, data) \<and> s < length (wire type data) \<and> p = fragment msgId (wire type data) s)"
    by (auto simp: sent_as_def)
  from m(2) show ?thesis
  proof (elim disjE exE conjE)
    assume "p = wire type data"
    with m(1) assms(2) show ?thesis unfolding sent_as_def by blast
  next
    fix msgId s
    assume p: "c < msgId" "B msgId = (type, data)" "s < length (wire type data)" "p = fragment msgId (wire type data) s"
    have "c' < msgId" "B' msgId = (type, data)" using p(1,2) assms(3,4) by auto
    with p(3,4) m(1) assms(2) show ?thesis unfolding sent_as_def by blast
  qed
qed

lemma sends_genuine:
  assumes "udp_sends ms t = Inr ps" "\<forall>m \<in> set ms. sendable m" "unat (ut_lastFragMsgId t) + length ms < 2 ^ 64"
  shows "\<exists>B. \<forall>p \<in> set ps. sent_as (ut_lastFragMsgId t) B (set ms) p"
  using assms
proof (induction ms arbitrary: t ps)
  case (Cons m ms)
  obtain type data where m: "m = (type, data)" by fastforce
  let ?c = "ut_lastFragMsgId t" and ?w = "wire type data"
  have mok: "sendable (type, data)" and lim: "unat ?c + Suc (length ms) < 2 ^ 64" using Cons.prems(2,3) m by simp_all
  note id = next_id [OF lim]
  have ms: "set ms \<subseteq> set (m # ms)" by auto
  show ?case
  proof (cases "length ?w \<le> MAX_UDP_MESSAGE_SIZE")
    case True
    then obtain qs where qs: "udp_sends ms t = Inr qs" "ps = ?w # qs" using Cons.prems(1) udp_packets_sendable [OF mok, of t] by (auto simp: m)
    from Cons.IH [OF qs(1)] Cons.prems(2) lim obtain B where B: "\<forall>p \<in> set qs. sent_as ?c B (set ms) p" by auto
    moreover have "sent_as ?c B (set (m # ms)) ?w" unfolding sent_as_def m by (intro exI [of _ type] exI [of _ data]) simp
    ultimately show ?thesis using qs(2) sent_as_mono [OF _ ms order_refl] by (intro exI [of _ B]) auto
  next
    case False
    let ?t = "t\<lparr>ut_lastFragMsgId := ?c + 1\<rparr>"
    from False obtain qs where qs: "udp_sends ms ?t = Inr qs" "ps = udp_fragments (?c + 1) ?w 0 @ qs"
      using Cons.prems(1) udp_packets_sendable [OF mok, of t] by (auto simp: m)
    from Cons.IH [OF qs(1)] Cons.prems(2) id(3) obtain B where B: "\<forall>p \<in> set qs. sent_as (?c + 1) B (set ms) p" by auto
    let ?B = "B(?c + 1 := (type, data))"
    have "sent_as ?c ?B (set (m # ms)) p" if "p \<in> set qs" for p
      by (rule sent_as_mono [OF _ ms, of "?c + 1" B]) (use B that id(1) in auto)
    moreover have "sent_as ?c ?B (set (m # ms)) p" if p: "p \<in> set (udp_fragments (?c + 1) ?w 0)" for p
    proof -
      from fragments_set [OF p] obtain k where "k < length ?w" "p = fragment (?c + 1) ?w k" by blast
      then show ?thesis unfolding sent_as_def m
        using id(1) by (intro exI [of _ type] exI [of _ data] conjI disjI2 exI [of _ "?c + 1"] exI [of _ k]) simp_all
    qed
    ultimately show ?thesis using qs(2) by (intro exI [of _ ?B]) (auto simp del: fun_upd_apply)
  qed
qed simp

lemma sent_as_genuine: "sent_as c B M p \<Longrightarrow> genuine B M p"
  unfolding sent_as_def genuine_def by (metis word_not_simps(1))

text \<open>What reaches the dispatcher comes from its sender, and the reorder buffer holds such a message.\<close>

definition honest :: "('a \<Rightarrow> u64 \<Rightarrow> string \<times> string) \<Rightarrow> ('a \<Rightarrow> (string \<times> string) set) \<Rightarrow> ('a, 'r) UDPTransport \<Rightarrow> bool" where
  "honest B M t \<longleftrightarrow> (\<forall>a. prefix_info (B a) (ut_fragInfo t a)) \<and>
     (\<forall>a type msg fd. ut_reorder t = Some (a, type, msg, fd) \<longrightarrow> (type, msg) \<in> M a)"

lemma udp_deliver_set: "udp_deliver t fd a type msg = Inr ds \<Longrightarrow> (r, b, m) \<in> set ds \<Longrightarrow> b = a \<and> m = (type, msg)"
  by (auto simp: udp_deliver_def split: option.splits)

lemma udp_dispatch_honest:
  assumes "udp_dispatch drp reo fd a type msg t = Inr (ds, fd', t')" "honest B M t" "(type, msg) \<in> M a"
  shows "honest B M t' \<and> (\<forall>r b m. (r, b, m) \<in> set ds \<longrightarrow> m \<in> M b)"
proof -
  consider (dropped) drp | (kept) "\<not> drp" "ut_reorder t = None \<and> reo" | (sent) "\<not> drp" "\<not> (ut_reorder t = None \<and> reo)"
    by blast
  then show ?thesis
  proof cases
    case sent
    with assms(1) obtain ds1 where ds1: "udp_deliver t fd a type msg = Inr ds1" by (auto simp: udp_dispatch_def)
    show ?thesis
    proof (cases "ut_reorder t")
      case None
      with assms(1) sent ds1 have "ds = ds1" "t' = t" by (simp_all add: udp_dispatch_def)
      with assms(2,3) show ?thesis by (auto dest!: udp_deliver_set [OF ds1])
    next
      case (Some kept)
      obtain a2 type2 msg2 fd2 where kept: "kept = (a2, type2, msg2, fd2)" by (cases kept)
      with assms(1) sent ds1 Some obtain ds2 where
        ds2: "udp_deliver (t\<lparr>ut_reorder := None\<rparr>) fd2 a2 type2 msg2 = Inr ds2" "ds = ds1 @ ds2" "t' = t\<lparr>ut_reorder := None\<rparr>"
        by (auto simp: udp_dispatch_def)
      have "(type2, msg2) \<in> M a2" using assms(2) Some kept unfolding honest_def by blast
      moreover have "honest B M t'" using assms(2) ds2(3) by (simp add: honest_def)
      ultimately show ?thesis
        using ds2(2) assms(3) by (auto dest!: udp_deliver_set [OF ds1] udp_deliver_set [OF ds2(1)])
    qed
  qed (use assms in \<open>auto simp: udp_dispatch_def honest_def\<close>)
qed

lemma udp_turn_honest:
  assumes "udp_turn (Recv a p drp reo) fd t = Inr (ds, fd', t')" "honest B M t" "genuine (B a) (M a) p" "\<forall>m \<in> M a. sendable m"
  shows "honest B M t'" "(r, b, m) \<in> set ds \<Longrightarrow> m \<in> M b"
proof -
  from assms(1) obtain mo info where step: "frag_step (ut_fragInfo t a) p = Inr (mo, info)"
    by (auto simp: udp_turn_def)
  have "prefix_info (B a) (ut_fragInfo t a)" using assms(2) by (simp add: honest_def)
  note g = frag_step_genuine [OF this assms(3,4) step]
  let ?t = "t\<lparr>ut_fragInfo := (ut_fragInfo t)(a := info)\<rparr>"
  have h: "honest B M ?t" using assms(2) g(1) by (simp add: honest_def)
  have "honest B M t' \<and> (\<forall>r b m. (r, b, m) \<in> set ds \<longrightarrow> m \<in> M b)"
  proof (cases mo)
    case None
    with assms(1) step h show ?thesis by (auto simp: udp_turn_def)
  next
    case (Some tm)
    obtain type msg where tm: "tm = (type, msg)" by fastforce
    have m: "(type, msg) \<in> M a" using g(2) Some tm by simp
    have "udp_dispatch drp reo fd a type msg ?t = Inr (ds, fd', t')"
      using assms(1) step Some tm by (simp add: udp_turn_def)
    from udp_dispatch_honest [OF this h m] show ?thesis by blast
  qed
  then show "honest B M t'" "(r, b, m) \<in> set ds \<Longrightarrow> m \<in> M b" by blast+
qed

lemma OnReadable_honest:
  assumes "OnReadable rs fd t = Inr (ds, t')" "honest B M t"
    and "\<And>a p x y. Recv a p x y \<in> set rs \<Longrightarrow> genuine (B a) (M a) p" "\<And>a m. m \<in> M a \<Longrightarrow> sendable m"
    and "(r, b, m) \<in> set ds"
  shows "m \<in> M b"
  using assms(1-3,5)
proof (induction rs arbitrary: fd t ds)
  case (Cons rc rs)
  from Cons.prems(1) obtain ds1 fd1 t1 ds2 where
    s: "udp_turn rc fd t = Inr (ds1, fd1, t1)" "OnReadable rs fd1 t1 = Inr (ds2, t')" "ds = ds1 @ ds2" by auto
  from s(1) obtain a p x y where rc: "rc = Recv a p x y" by (cases rc) (auto simp: udp_turn_def)
  have gen: "genuine (B a) (M a) p" using Cons.prems(3) [of a p x y] by (simp add: rc)
  have ok: "\<forall>m \<in> M a. sendable m" using assms(4) by blast
  note turn = udp_turn_honest [OF s(1) [unfolded rc] Cons.prems(2) gen ok]
  have "m \<in> M b" if "(r, b, m) \<in> set ds1" using turn(2) [OF that] .
  moreover have "m \<in> M b" if "(r, b, m) \<in> set ds2"
    by (rule Cons.IH [OF s(2) turn(1) _ that]) (rule Cons.prems(3), rule list.set_intros(2), assumption)
  ultimately show ?case using Cons.prems(4) s(3) by auto
qed simp

text \<open>
  C28. Whatever the network does to the packets, loses, repeats or reorders, and whatever the simulated drops and
  reorderings add: a message that a receiver is given was sent by the sender it is given with.
\<close>

theorem udp_delivers_sent:
  assumes "\<And>a m. m \<in> set (ms a) \<Longrightarrow> sendable m" and "\<And>a. length (ms a) < 2 ^ 64"
    and "\<And>a. udp_sends (ms a) (UDPTransport_new (\<lambda>_. None) (\<lambda>_. None) :: ('a, 'r) UDPTransport) = Inr (ps a)"
    and "\<And>a p x y. Recv a p x y \<in> set rs \<Longrightarrow> p \<in> set (ps a)"
    and "OnReadable rs fd (UDPTransport_new receivers multicast) = Inr (ds, t')"
    and "(r, a, type, data) \<in> set ds"
  shows "(type, data) \<in> set (ms a)"
proof -
  have "\<exists>B. \<forall>p \<in> set (ps a). genuine B (set (ms a)) p" for a
    using sends_genuine [OF assms(3) [of a]] assms(1,2) sent_as_genuine by (fastforce simp: UDPTransport_new_def)
  then obtain B where B: "\<And>a p. p \<in> set (ps a) \<Longrightarrow> genuine (B a) (set (ms a)) p" by metis
  have "honest B (\<lambda>a. set (ms a)) (UDPTransport_new receivers multicast)"
    by (simp add: honest_def prefix_info_def UDPTransport_new_def)
  from OnReadable_honest [OF assms(5) this _ _ assms(6)] B assms(1,4) show ?thesis by blast
qed

section \<open>Fragments out of order\<close>

text \<open>
  The receiver insists that message numbers grow. A fragment of an earlier message that arrives after one of a later
  message, while the later one is incomplete, ends the receiving process; so does a restarted sender, whose numbers
  begin again.
\<close>

theorem udp_overtaken_fragment:
  assumes "sendable (type1, data1)" and "sendable (type2, data2)" and "0 < m1" and "m1 < m2"
    and "s < length (wire type1 data1)" and "MAX_UDP_MESSAGE_SIZE < length (wire type2 data2)"
  shows "OnReadable [Recv a (fragment m2 (wire type2 data2) 0) False False, Recv a (fragment m1 (wire type1 data1) s) x y] fd
      (UDPTransport_new receivers multicast) = Inl (AssertFail ''msgId > info.msgId'')"
proof -
  let ?t = "UDPTransport_new receivers multicast" and ?w1 = "wire type1 data1" and ?w2 = "wire type2 data2"
  have "within m2 ?w2 (ut_fragInfo ?t a)" by (simp add: within_def UDPTransport_new_def)
  moreover have "m2 \<noteq> 0" using assms(3,4) by auto
  moreover have "0 < length ?w2" by simp
  ultimately obtain m info where m: "frag_step (ut_fragInfo ?t a) (fragment m2 ?w2 0) = Inr (m, info)"
      "m = None \<and> fi_msgId info = m2"
    using frag_step_within [of m2 ?w2 "ut_fragInfo ?t a" 0, OF _ _ _ refl assms(2)] assms(6) by fastforce
  have "length ?w1 < 2 ^ 31" using assms(1) by (simp add: sendable_def)
  from frag_step_fragment [OF assms(5) this, of info m1] m(2) \<open>m2 \<noteq> 0\<close> assms(4)
  have "frag_step info (fragment m1 ?w1 s) = Inl (AssertFail ''msgId > info.msgId'')" by simp
  with m show ?thesis by (simp add: udp_turn_def)
qed

section \<open>Witnesses\<close>

definition ex_data :: string where
  "ex_data = replicate 9000 CHR ''x''"

definition ex_messages :: "bool \<Rightarrow> (string \<times> string) list" where
  "ex_messages a = (if a then [(''T'', ex_data), (''U'', ''y'')] else [])"

definition ex_packets :: "bool \<Rightarrow> string list" where
  "ex_packets a = (if a then udp_fragments 1 (wire ''T'' ex_data) 0 @ [wire ''U'' ''y''] else [])"

lemma ex_data: "length ex_data = 9000" "sendable (''T'', ex_data)" "sendable (''U'', ''y'')"
proof -
  show l: "length ex_data = 9000" by (simp only: ex_data_def length_replicate)
  then show "sendable (''T'', ex_data)" by (auto simp: sendable_def)
qed (simp add: sendable_def)

lemma ex_sends:
  "udp_sends (ex_messages a) (UDPTransport_new (\<lambda>_. None) (\<lambda>_. None) :: (bool, nat) UDPTransport) = Inr (ex_packets a)"
  using ex_data by (simp add: ex_messages_def ex_packets_def udp_packets_sendable UDPTransport_new_def MAX_UDP_MESSAGE_SIZE_def)

lemma ex_messages_sendable: "m \<in> set (ex_messages a) \<Longrightarrow> sendable m"
  using ex_data by (auto simp: ex_messages_def split: if_splits)

lemma packets_from_one: "packets_from a (map (Pair b) ps) = (if a = b then ps else [])"
  by (induction ps) auto

theorem udp_reassembles_witness:
  "\<exists>ds t'. OnReadable (map (\<lambda>(a, p). Recv a p False False) (map (Pair True) (ex_packets True))) 3
     (UDPTransport_new (\<lambda>_. Some (0 :: nat)) (\<lambda>_. None)) = Inr (ds, t') \<and> messages_from True ds = ex_messages True"
proof -
  have "\<exists>ds t'. OnReadable (map (\<lambda>(a, p). Recv a p False False) (map (Pair True) (ex_packets True))) 3
     (UDPTransport_new (\<lambda>_. Some (0 :: nat)) (\<lambda>_. None)) = Inr (ds, t') \<and>
     (\<forall>a. subseq (messages_from a ds) (ex_messages a)) \<and>
     (\<forall>a. packets_from a (map (Pair True) (ex_packets True)) = ex_packets a \<longrightarrow> messages_from a ds = ex_messages a)"
    by (rule udp_reassembles [OF ex_messages_sendable _ ex_sends]) (simp_all add: packets_from_one ex_messages_def)
  then show ?thesis by (auto simp: packets_from_one)
qed

theorem udp_delivers_sent_witness:
  "(''U'', ''y'') \<in> set (ex_messages True)"
proof -
  let ?rs = "[Recv True (wire ''U'' ''y'') False False]"
  have step: "frag_step info (wire ''U'' ''y'') = Inr (Some (''U'', ''y''), info)" for info
    by (rule frag_step_wire) simp_all
  have run: "OnReadable ?rs 3 (UDPTransport_new (\<lambda>_. Some (0 :: nat)) (\<lambda>_. None)) =
      Inr ([(0, True, ''U'', ''y'')], UDPTransport_new (\<lambda>_. Some 0) (\<lambda>_. None))"
    using step by (simp add: udp_turn_def udp_dispatch_def udp_deliver_def UDPTransport_new_def fun_upd_idem)
  show ?thesis
    by (rule udp_delivers_sent [OF ex_messages_sendable _ ex_sends _ run]) (auto simp: ex_messages_def ex_packets_def)
qed

theorem udp_overtaken_fragment_witness:
  "OnReadable [Recv True (fragment 2 (wire ''T'' ex_data) 0) False False, Recv True (fragment 1 (wire ''T'' ex_data) 0) False False] 3
     (UDPTransport_new (\<lambda>_. Some (0 :: nat)) (\<lambda>_. None)) = Inl (AssertFail ''msgId > info.msgId'')"
  by (rule udp_overtaken_fragment [OF ex_data(2) ex_data(2)]) (use ex_data(1) in \<open>simp_all add: MAX_UDP_MESSAGE_SIZE_def\<close>)

end
