(* ===== verification/Tcp_Transport.thy ===== *)
theory Tcp_Transport
  imports Wire_Format "HOL-Library.Sublist"
begin

text \<open>
  The TCP transport, \<^verbatim>\<open>lib/tcptransport.cc\<close>: framing of messages in a byte stream and the tables of open connections.
  Connections (\<^verbatim>\<open>bufferevent\<close> objects) and addresses are type parameters. The bytes that libevent has
  read from a connection are in \<open>tt_input\<close>; \<open>tt_live\<close> says which connections have not been freed. The socket calls
  are not modelled: the outcome of opening a connection is an argument.
\<close>

section \<open>State\<close>

record ('a, 'c) TCPTransport =
  tt_outgoing :: "'a \<Rightarrow> 'c option"
  tt_addresses :: "'c \<Rightarrow> 'a option"
  tt_input :: "'c \<Rightarrow> string"
  tt_live :: "'c \<Rightarrow> bool"

definition TCPTransport_new :: "('a, 'c) TCPTransport" where
  "TCPTransport_new = \<lparr>tt_outgoing = (\<lambda>_. None), tt_addresses = (\<lambda>_. None), tt_input = (\<lambda>_. ''''), tt_live = (\<lambda>_. False)\<rparr>"

definition MAGIC :: "32 word" where
  "MAGIC = 0x06121983"

definition put_magic :: "32 word \<Rightarrow> string" where
  "put_magic x = le_bytes 4 (unat x)"

section \<open>Sending\<close>

definition tcp_serialize :: "string \<Rightarrow> string \<Rightarrow> string outcome" where
  "tcp_serialize type data =
     (let typeLen = length type; dataLen = length data; totalLen = typeLen + 8 + dataLen + 8 + 8 + 4 in
      obind (assert_that (4 < totalLen) ''ptr-buf < totalLen'') (\<lambda>_.
      obind (assert_that (12 < totalLen) ''ptr-buf < totalLen'') (\<lambda>_.
      obind (assert_that (20 < totalLen) ''ptr-buf < totalLen'') (\<lambda>_.
      obind (assert_that (20 + typeLen < totalLen) ''ptr+typeLen-buf < totalLen'') (\<lambda>_.
      obind (assert_that (20 + typeLen + 8 < totalLen) ''ptr-buf < totalLen'') (\<lambda>_.
      obind (assert_that (20 + typeLen + 8 + dataLen = totalLen) ''ptr+dataLen-buf == totalLen'') (\<lambda>_.
        Inr (put_magic MAGIC @ put_size (of_nat totalLen) @ put_size (of_nat typeLen) @ type @ put_size (of_nat dataLen) @ data))))))))"

text \<open>
  \<^verbatim>\<open>ConnectTCP\<close>: \<open>conn\<close> is the new connection, \<open>None\<close> when it could not be opened. \<^verbatim>\<open>tcpAddresses.insert\<close> keeps an
  entry that is there.
\<close>

definition tcp_record :: "'a \<Rightarrow> 'c \<Rightarrow> ('a, 'c) TCPTransport \<Rightarrow> ('a, 'c) TCPTransport" where
  "tcp_record a c t =
     t\<lparr>tt_outgoing := (tt_outgoing t)(a \<mapsto> c),
       tt_addresses := (case tt_addresses t c of None \<Rightarrow> (tt_addresses t)(c \<mapsto> a) | Some _ \<Rightarrow> tt_addresses t),
       tt_input := (tt_input t)(c := ''''), tt_live := (tt_live t)(c := True)\<rparr>"

definition ConnectTCP :: "'c option \<Rightarrow> 'a \<Rightarrow> ('a, 'c) TCPTransport \<Rightarrow> ('a, 'c) TCPTransport" where
  "ConnectTCP conn dst t = (case conn of None \<Rightarrow> t | Some c \<Rightarrow> tcp_record dst c t)"

text \<open>\<open>write_ok\<close> is the result of \<^verbatim>\<open>bufferevent_write\<close>; the bytes go to the connection in the result.\<close>

definition TCP_SendMessageInternal ::
  "'c option \<Rightarrow> bool \<Rightarrow> 'a \<Rightarrow> string \<Rightarrow> string \<Rightarrow> ('a, 'c) TCPTransport \<Rightarrow> (bool \<times> ('c \<times> string) option \<times> ('a, 'c) TCPTransport) outcome" where
  "TCP_SendMessageInternal conn write_ok dst type data t =
     (let t1 = (if tt_outgoing t dst = None then ConnectTCP conn dst t else t) in
      case tt_outgoing t1 dst of
        None \<Rightarrow> Inl (Undefined ''kv == tcpOutgoing.end()'')
      | Some ev \<Rightarrow>
          obind (tcp_serialize type data) (\<lambda>buf.
            if \<not> tt_live t1 ev then Inl (Undefined ''freed bufferevent'')
            else if write_ok then Inr (True, Some (ev, buf), t1)
            else Inr (False, None, t1)))"

section \<open>Receiving\<close>

text \<open>
  One turn of the loop of \<^verbatim>\<open>TCPReadableCallback\<close>: \<open>None\<close> when it waits for more bytes, otherwise a message and the bytes
  behind it.
\<close>

definition tcp_next :: "string \<Rightarrow> ((string \<times> string) \<times> string) option outcome" where
  "tcp_next evbuf =
     (if length evbuf < 4 then Inr None
      else
        obind (assert_that (of_nat (le_value (take 4 evbuf)) = MAGIC) ''*magic == MAGIC'') (\<lambda>_.
        if length evbuf < 12 then Inr None
        else
          obind (get_size evbuf 4) (\<lambda>totalSize.
          obind (assert_that (totalSize < 1073741826) ''totalSize < 1073741826'') (\<lambda>_.
          if length evbuf < unat totalSize then Inr None
          else
            (let buf = take (unat totalSize) evbuf in
             obind (get_size buf 12) (\<lambda>typeLen.
             obind (assert_that (20 < totalSize) ''ptr-buf < totalSize'') (\<lambda>_.
             obind (assert_that (20 + typeLen < totalSize) ''ptr+typeLen-buf < totalSize'') (\<lambda>_.
             obind (slice buf 20 (unat typeLen)) (\<lambda>msgType.
             let pos = 20 + unat typeLen in
             obind (get_size buf pos) (\<lambda>msgLen.
             obind (assert_that (pos + 8 < unat totalSize) ''ptr-buf < totalSize'') (\<lambda>_.
             obind (assert_that (of_nat (pos + 8) + msgLen \<le> totalSize) ''ptr+msgLen-buf <= totalSize'') (\<lambda>_.
             obind (slice buf (pos + 8) (unat msgLen)) (\<lambda>msg.
               Inr (Some ((msgType, msg), drop (unat totalSize) evbuf)))))))))))))))"

lemma tcp_next_shorter:
  assumes "tcp_next evbuf = Inr (Some (m, rest))"
  shows "length rest < length evbuf"
proof -
  from assms obtain n x where n: "\<not> length evbuf < n" "get_size (take n evbuf) 12 = Inr x" "rest = drop n evbuf"
    unfolding tcp_next_def Let_def by (auto simp del: obind_assert split: if_splits)
  from n(2) have "20 \<le> length (take n evbuf)" by (auto simp: get_size_def slice_def split: if_splits)
  with n show ?thesis by simp
qed

function tcp_read :: "string \<Rightarrow> ((string \<times> string) list \<times> string) outcome" where
  "tcp_read evbuf =
     (if evbuf = '''' then Inr ([], '''')
      else case tcp_next evbuf of
        Inl e \<Rightarrow> Inl e
      | Inr None \<Rightarrow> Inr ([], evbuf)
      | Inr (Some (m, rest)) \<Rightarrow> obind (tcp_read rest) (\<lambda>(ms, r). Inr (m # ms, r)))"
  by pat_completeness auto
termination
  by (relation "measure length") (auto dest: tcp_next_shorter)

declare tcp_read.simps [simp del]

text \<open>
  \<^verbatim>\<open>TCPReadableCallback\<close>: every message goes to the receiver with the address of the connection, which must be known.
\<close>

definition TCPReadableCallback ::
  "'c \<Rightarrow> ('a, 'c) TCPTransport \<Rightarrow> (('a \<times> string \<times> string) list \<times> ('a, 'c) TCPTransport) outcome" where
  "TCPReadableCallback c t =
     obind (tcp_read (tt_input t c)) (\<lambda>(ms, rest).
       obind (assert_that (ms = [] \<or> tt_addresses t c \<noteq> None) ''addr != transport->tcpAddresses.end()'') (\<lambda>_.
         Inr (map (\<lambda>m. (the (tt_addresses t c), m)) ms, t\<lparr>tt_input := (tt_input t)(c := rest)\<rparr>)))"

section \<open>Connections\<close>

definition TCPAcceptCallback :: "'a \<Rightarrow> 'c option \<Rightarrow> ('a, 'c) TCPTransport \<Rightarrow> ('a, 'c) TCPTransport" where
  "TCPAcceptCallback client conn t = (case conn of None \<Rightarrow> t | Some c \<Rightarrow> tcp_record client c t)"

datatype bev_event = BEV_CONNECTED | BEV_ERROR | BEV_EOF

definition bufferevent_free :: "'c \<Rightarrow> ('a, 'c) TCPTransport \<Rightarrow> ('a, 'c) TCPTransport" where
  "bufferevent_free c t = t\<lparr>tt_live := (tt_live t)(c := False)\<rparr>"

definition TCPIncomingEventCallback :: "'c \<Rightarrow> bev_event \<Rightarrow> ('a, 'c) TCPTransport \<Rightarrow> ('a, 'c) TCPTransport" where
  "TCPIncomingEventCallback c what t =
     (if what = BEV_ERROR then bufferevent_free c t
      else if what = BEV_ERROR then bufferevent_free c t
      else t)"

definition TCPOutgoingEventCallback :: "'c \<Rightarrow> bev_event \<Rightarrow> ('a, 'c) TCPTransport \<Rightarrow> ('a, 'c) TCPTransport outcome" where
  "TCPOutgoingEventCallback c what t =
     (case tt_addresses t c of
        None \<Rightarrow> Inl (AssertFail ''it != transport->tcpAddresses.end()'')
      | Some addr \<Rightarrow>
          if what = BEV_CONNECTED then Inr t
          else if tt_outgoing t addr = None then Inl (Undefined ''erase of end()'')
          else Inr ((bufferevent_free c t)\<lparr>tt_outgoing := (tt_outgoing t)(addr := None), tt_addresses := (tt_addresses t)(c := None)\<rparr>))"

section \<open>Framing\<close>

text \<open>
  The contract between a sender that frames messages in a byte stream and a receiver that takes them out of the bytes
  it has: the receiver finds a message at the front of its bytes, and waits when they are only the beginning
  of one. It follows that the cuts between the pieces in which the stream arrives do not matter.
\<close>

locale stream_framing =
  fixes enc :: "'m \<Rightarrow> 'b list"
    and nxt :: "'b list \<Rightarrow> ('m \<times> 'b list) option outcome"
    and rd :: "'b list \<Rightarrow> ('m list \<times> 'b list) outcome"
    and ok :: "'m \<Rightarrow> bool"
  assumes nxt_enc: "ok m \<Longrightarrow> nxt (enc m @ bs) = Inr (Some (m, bs))"
    and nxt_part: "ok m \<Longrightarrow> strict_prefix bs (enc m) \<Longrightarrow> nxt bs = Inr None"
    and rd_more: "nxt bs = Inr (Some (m, rest)) \<Longrightarrow> rd bs = obind (rd rest) (\<lambda>(ms, r). Inr (m # ms, r))"
    and rd_stop: "nxt bs = Inr None \<Longrightarrow> rd bs = Inr ([], bs)"
    and rd_none: "rd [] = Inr ([], [])"
begin

definition stream :: "'m list \<Rightarrow> 'b list" where
  "stream ms = concat (map enc ms)"

lemma stream_split: "stream (take i ms) @ stream (drop i ms) = stream ms"
  unfolding stream_def by (simp flip: concat_append map_append)

lemma read_prefix:
  assumes "\<forall>m \<in> set ms. ok m" "prefix bs (stream ms)"
  shows "\<exists>n rest. rd bs = Inr (take n ms, rest) \<and> n \<le> length ms \<and> bs = stream (take n ms) @ rest \<and> prefix rest (stream (drop n ms)) \<and>
    (n = length ms \<longleftrightarrow> bs = stream ms)"
  using assms
proof (induction ms arbitrary: bs)
  case Nil
  then show ?case by (simp add: stream_def rd_none)
next
  case (Cons m ms)
  have m: "ok m" and len: "enc m \<noteq> []"
    using Cons.prems(1) nxt_enc [of m "[]"] nxt_part [of m] rd_none rd_more [of "[]" m "[]"] by force+
  from Cons.prems(2) have "prefix bs (enc m) \<or> (\<exists>cs. bs = enc m @ cs \<and> prefix cs (stream ms))"
    by (simp add: stream_def prefix_append)
  then consider (part) "strict_prefix bs (enc m)" | (whole) cs where "bs = enc m @ cs" "prefix cs (stream ms)"
    by (metis append_Nil2 Nil_prefix strict_prefix_def)
  then show ?case
  proof cases
    case part
    then have "rd bs = Inr ([], bs)" using nxt_part [OF m] by (simp add: rd_stop)
    moreover have "bs \<noteq> stream (m # ms)" using part by (auto simp: stream_def strict_prefix_def prefix_def)
    ultimately show ?thesis using Cons.prems(2) by (intro exI [of _ 0] exI [of _ bs]) (simp add: stream_def)
  next
    case whole
    from Cons.IH [of cs] Cons.prems(1) whole(2) obtain n rest where
      n: "rd cs = Inr (take n ms, rest)" "n \<le> length ms" "cs = stream (take n ms) @ rest" "prefix rest (stream (drop n ms))"
        "n = length ms \<longleftrightarrow> cs = stream ms" by auto
    have "rd bs = Inr (take (Suc n) (m # ms), rest)" using rd_more [OF nxt_enc [OF m, of cs]] n(1) whole(1) by simp
    then show ?thesis using n whole(1) by (intro exI [of _ "Suc n"] exI [of _ rest]) (simp add: stream_def)
  qed
qed

text \<open>Reading what is left of a first piece together with a second one continues where the first one ended.\<close>

lemma read_next:
  assumes "\<forall>m \<in> set ms. ok m" "n \<le> length ms" "prefix (rest @ cs) (stream (drop n ms))"
  shows "\<exists>k rest'. rd (rest @ cs) = Inr (take k (drop n ms), rest') \<and> k \<le> length ms - n \<and>
    prefix rest' (stream (drop (n + k) ms)) \<and> stream (take (n + k) ms) @ rest' = stream (take n ms) @ rest @ cs \<and>
    (n + k = length ms \<longleftrightarrow> rest @ cs = stream (drop n ms))"
proof -
  have "\<forall>m \<in> set (drop n ms). ok m" using assms(1) by (meson in_set_dropD)
  from read_prefix [OF this assms(3)] obtain k rest' where
    k: "rd (rest @ cs) = Inr (take k (drop n ms), rest')" "k \<le> length (drop n ms)" "rest @ cs = stream (take k (drop n ms)) @ rest'"
      "prefix rest' (stream (drop k (drop n ms)))" "k = length (drop n ms) \<longleftrightarrow> rest @ cs = stream (drop n ms)" by blast
  have "stream (take (n + k) ms) = stream (take n ms) @ stream (take k (drop n ms))"
    by (simp add: stream_def take_add)
  with k assms(2) show ?thesis by (intro exI [of _ k] exI [of _ rest']) (auto simp: add.commute)
qed

end

section \<open>Framing of the transport\<close>

definition tcp_wire :: "string \<times> string \<Rightarrow> string" where
  "tcp_wire m = (case m of (type, data) \<Rightarrow>
     put_magic MAGIC @ put_size (of_nat (28 + length type + length data)) @ put_size (of_nat (length type)) @ type @
     put_size (of_nat (length data)) @ data)"

definition tcp_ok :: "string \<times> string \<Rightarrow> bool" where
  "tcp_ok m \<longleftrightarrow> (case m of (type, data) \<Rightarrow> data \<noteq> '''' \<and> 28 + length type + length data < 1073741826)"

lemma tcp_serialize_wire:
  "tcp_serialize type data = (if data = '''' then Inl (AssertFail ''ptr-buf < totalLen'') else Inr (tcp_wire (type, data)))"
proof -
  have t: "length type + 8 + length data + 8 + 8 + 4 = 28 + length type + length data" by simp
  show ?thesis unfolding tcp_serialize_def Let_def t tcp_wire_def prod.case by simp
qed

lemma length_tcp_wire [simp]: "length (tcp_wire (type, data)) = 28 + length type + length data"
  by (simp add: tcp_wire_def put_magic_def)

lemma tcp_wire_header:
  assumes "prefix bs (tcp_wire (type, data) @ cs)"
  shows "4 \<le> length bs \<Longrightarrow> of_nat (le_value (take 4 bs)) = MAGIC"
    and "12 \<le> length bs \<Longrightarrow> get_size bs 4 = Inr (of_nat (28 + length type + length data))"
proof -
  let ?w = "tcp_wire (type, data) @ cs" and ?n = "of_nat (28 + length type + length data) :: u64"
  from assms obtain ds where ds: "?w = bs @ ds" by (auto simp: prefix_def)
  have pm: "length (put_magic MAGIC) = 4" by (simp add: put_magic_def)
  {
    assume "4 \<le> length bs"
    then have "take 4 bs = take 4 ?w" by (simp add: ds)
    also have "\<dots> = put_magic MAGIC" using pm by (simp add: tcp_wire_def)
    finally show "of_nat (le_value (take 4 bs)) = MAGIC" by (simp add: put_magic_def le_value_bytes MAGIC_def)
  }
  {
    assume l: "12 \<le> length bs"
    have "slice ?w 4 8 = Inr (put_size ?n)"
      unfolding tcp_wire_def prod.case append_assoc by (rule slice_at) (simp_all add: pm)
    then have "slice bs 4 8 = Inr (put_size ?n)" using l unfolding ds by (simp add: slice_def)
    then show "get_size bs 4 = Inr ?n" by (rule get_size_put)
  }
qed

lemma tcp_next_part:
  assumes "tcp_ok (type, data)" "strict_prefix bs (tcp_wire (type, data))"
  shows "tcp_next bs = Inr None"
proof -
  have p: "prefix bs (tcp_wire (type, data) @ [])" using assms(2) by (simp add: strict_prefix_def)
  have l: "length bs < 28 + length type + length data"
    using prefix_length_less [OF assms(2)] by simp
  have u: "unat (of_nat (28 + length type + length data) :: u64) = 28 + length type + length data"
    using assms(1) by (intro unat_of_nat_small) (simp add: tcp_ok_def)
  have small: "(of_nat (28 + length type + length data) :: u64) < 1073741826"
    using assms(1) u by (simp add: word_less_nat_alt tcp_ok_def)
  show ?thesis
    unfolding tcp_next_def using tcp_wire_header [OF p] l u small by (auto simp del: of_nat_add of_nat_numeral)
qed

lemma tcp_next_whole:
  assumes "tcp_ok (type, data)"
  shows "tcp_next (tcp_wire (type, data) @ bs) = Inr (Some ((type, data), bs))"
proof -
  let ?w = "tcp_wire (type, data)" and ?n = "28 + length type + length data"
  have p: "prefix (?w @ bs) (?w @ bs)" by simp
  have len: "4 \<le> length (?w @ bs)" "12 \<le> length (?w @ bs)" "?n \<le> length (?w @ bs)" by simp_all
  have lt: "length type < 2 ^ 63" "length data < 2 ^ 63" "?n < 2 ^ 63" using assms by (simp_all add: tcp_ok_def)
  note u = unat_of_nat_small [OF lt(1)] unat_of_nat_small [OF lt(2)] unat_of_nat_small [OF lt(3)]
  have buf: "take ?n (?w @ bs) = ?w" "drop ?n (?w @ bs) = bs" by simp_all
  have pm: "length (put_magic MAGIC) = 4" by (simp add: put_magic_def)
  have "slice ((put_magic MAGIC @ put_size (of_nat ?n)) @ put_size (of_nat (length type)) @ type @ put_size (of_nat (length data)) @ data) 12 8 =
      Inr (put_size (of_nat (length type)))" by (rule slice_at) (simp_all add: pm)
  then have g12: "get_size ?w 12 = Inr (of_nat (length type))"
    unfolding append_assoc by (intro get_size_put) (simp add: tcp_wire_def)
  have s20: "slice ((put_magic MAGIC @ put_size (of_nat ?n) @ put_size (of_nat (length type))) @ type @ put_size (of_nat (length data)) @ data)
      20 (length type) = Inr type" by (rule slice_at) (simp_all add: pm)
  have "slice ((put_magic MAGIC @ put_size (of_nat ?n) @ put_size (of_nat (length type)) @ type) @ put_size (of_nat (length data)) @ data)
      (20 + length type) 8 = Inr (put_size (of_nat (length data)))" by (rule slice_at) (simp_all add: pm)
  then have g2: "get_size ?w (20 + length type) = Inr (of_nat (length data))"
    unfolding append_assoc by (intro get_size_put) (simp add: tcp_wire_def)
  have s2: "slice ((put_magic MAGIC @ put_size (of_nat ?n) @ put_size (of_nat (length type)) @ type @ put_size (of_nat (length data))) @ data)
      (20 + length type + 8) (length data) = Inr data" by (rule slice_end) (simp_all add: pm)
  have w: "slice ?w 20 (length type) = Inr type" "slice ?w (20 + length type + 8) (length data) = Inr data"
    using s20 s2 unfolding append_assoc by (simp_all add: tcp_wire_def)
  have cmp: "(of_nat m :: u64) < of_nat k" if "m < k" "k < 2 ^ 63" for m k
    using that unat_of_nat_small [of m] unat_of_nat_small [of k] by (simp add: word_less_nat_alt)
  have d: "0 < length data" "?n < 1073741826" using assms by (simp_all add: tcp_ok_def)
  have small: "(of_nat ?n :: u64) < 1073741826" "20 < (of_nat ?n :: u64)" "20 + of_nat (length type) < (of_nat ?n :: u64)"
      "of_nat (20 + length type + 8) + of_nat (length data) \<le> (of_nat ?n :: u64)" "20 + length type + 8 < ?n"
    using cmp [of ?n 1073741826] cmp [of 20 ?n] cmp [of "20 + length type" ?n] d lt(3) by simp_all
  show ?thesis
    unfolding tcp_next_def Let_def tcp_wire_header(2) [OF p len(2)] obind_Inr u buf g12 w g2
    using tcp_wire_header(1) [OF p len(1)] len small by (simp del: of_nat_add of_nat_numeral)
qed

interpretation tcpf: stream_framing tcp_wire tcp_next tcp_read tcp_ok
proof
  show "tcp_next (tcp_wire m @ bs) = Inr (Some (m, bs))" if "tcp_ok m" for m bs
    using that tcp_next_whole by (cases m) simp
  show "tcp_next bs = Inr None" if "tcp_ok m" "strict_prefix bs (tcp_wire m)" for m bs
    using that tcp_next_part by (cases m) simp
  show "tcp_read bs = obind (tcp_read rest) (\<lambda>(ms, r). Inr (m # ms, r))" if "tcp_next bs = Inr (Some (m, rest))" for bs m rest
    using that tcp_next_shorter [OF that] by (subst tcp_read.simps) auto
  show "tcp_read bs = Inr ([], bs)" if "tcp_next bs = Inr None" for bs
    using that by (subst tcp_read.simps) simp
  show "tcp_read [] = Inr ([], [])" by (subst tcp_read.simps) simp
qed

text \<open>The pieces of a stream as they arrive on a connection, with the callback after each.\<close>

fun tcp_arrivals ::
  "'c \<Rightarrow> string list \<Rightarrow> ('a, 'c) TCPTransport \<Rightarrow> (('a \<times> string \<times> string) list \<times> ('a, 'c) TCPTransport) outcome" where
  "tcp_arrivals c [] t = Inr ([], t)"
| "tcp_arrivals c (chunk # chunks) t =
     obind (TCPReadableCallback c (t\<lparr>tt_input := (tt_input t)(c := tt_input t c @ chunk)\<rparr>)) (\<lambda>(ds, t1).
       obind (tcp_arrivals c chunks t1) (\<lambda>(ds2, t2). Inr (ds @ ds2, t2)))"

lemma tcp_arrivals_run:
  assumes "\<forall>m \<in> set ms. tcp_ok m" "n \<le> length ms" "tt_addresses t c = Some a"
    and "prefix (tt_input t c @ concat chunks) (tcpf.stream (drop n ms))"
    and "tt_input t c = tcpf.stream (drop n ms) \<longrightarrow> n = length ms"
  shows "\<exists>k t'. tcp_arrivals c chunks t = Inr (map (Pair a) (take k (drop n ms)), t') \<and> n + k \<le> length ms \<and>
    (tt_input t c @ concat chunks = tcpf.stream (drop n ms) \<longrightarrow> n + k = length ms)"
  using assms(2-)
proof (induction chunks arbitrary: n t)
  case Nil
  show ?case
    by (rule exI [of _ 0], rule exI [of _ t], intro conjI)
      (use Nil in \<open>simp_all only: tcp_arrivals.simps take0 list.map concat.simps append_Nil2 add_0_right\<close>)
next
  case (Cons chunk chunks)
  let ?in = "tt_input t c @ chunk"
  have "prefix ?in (tcpf.stream (drop n ms))" using Cons.prems(3) by (simp add: append_prefixD)
  from tcpf.read_next [OF assms(1) Cons.prems(1) this] obtain k rest where
    k: "tcp_read ?in = Inr (take k (drop n ms), rest)" "k \<le> length ms - n" "prefix rest (tcpf.stream (drop (n + k) ms))"
      "tcpf.stream (take (n + k) ms) @ rest = tcpf.stream (take n ms) @ ?in" "n + k = length ms \<longleftrightarrow> ?in = tcpf.stream (drop n ms)" by blast
  note st = tcpf.stream_split [where ms = ms]
  let ?t = "t\<lparr>tt_input := (tt_input t)(c := rest)\<rparr>"
  have call: "TCPReadableCallback c (t\<lparr>tt_input := (tt_input t)(c := ?in)\<rparr>) = Inr (map (Pair a) (take k (drop n ms)), ?t)"
    using k(1) Cons.prems(2) by (simp add: TCPReadableCallback_def)
  have nk: "n + k \<le> length ms" using k(2) Cons.prems(1) by simp
  have all: "rest @ cs = tcpf.stream (drop (n + k) ms) \<longleftrightarrow> ?in @ cs = tcpf.stream (drop n ms)" for cs
    using st [of "n + k"] st [of n] k(4) by (metis append.assoc same_append_eq)
  have "prefix (rest @ concat chunks) (tcpf.stream (drop (n + k) ms))"
    using Cons.prems(3) st [of "n + k"] st [of n] k(4)
    by (metis append.assoc concat.simps(2) same_prefix_prefix)
  moreover have "rest = tcpf.stream (drop (n + k) ms) \<longrightarrow> n + k = length ms" using all [of "[]"] k(5) by simp
  moreover have i: "tt_input ?t c = rest" "tt_addresses ?t c = Some a" using Cons.prems(2) by simp_all
  ultimately obtain j t' where
    j: "tcp_arrivals c chunks ?t = Inr (map (Pair a) (take j (drop (n + k) ms)), t')" "n + k + j \<le> length ms"
      "rest @ concat chunks = tcpf.stream (drop (n + k) ms) \<longrightarrow> n + k + j = length ms"
    using Cons.IH [OF nk i(2), unfolded i(1)] by blast
  have "take (k + j) (drop n ms) = take k (drop n ms) @ take j (drop (n + k) ms)" by (metis add.commute drop_drop take_add)
  with call j all [of "concat chunks"] show ?case by (intro exI [of _ "k + j"] exI [of _ t']) (simp add: add.assoc)
qed

text \<open>
  C20. Messages written to a connection one after the other reach the other end as they were sent, in order and without
  a fault, however the stream is cut into pieces: what has arrived gives a first part of the messages, and all of them
  when all bytes have arrived.
\<close>

theorem tcp_stream_roundtrip:
  assumes "\<And>type data. (type, data) \<in> set ms \<Longrightarrow> 28 + length type + length data < 1073741826"
    and "map (\<lambda>(type, data). tcp_serialize type data) ms = map Inr bufs"
    and "prefix (concat chunks) (concat bufs)"
    and "tt_addresses t c = Some a" and "tt_input t c = ''''"
  shows "\<exists>k t'. tcp_arrivals c chunks t = Inr (map (Pair a) (take k ms), t') \<and>
    (concat chunks = concat bufs \<longrightarrow> take k ms = ms)"
proof -
  have ser: "(\<forall>(type, data) \<in> set ms. data \<noteq> '''') \<and> bufs = map tcp_wire ms"
    using assms(2) by (induction ms arbitrary: bufs) (auto simp: tcp_serialize_wire Cons_eq_map_conv split: if_splits)
  then have ok: "\<forall>m \<in> set ms. tcp_ok m" using assms(1) by (auto simp: tcp_ok_def)
  have s: "concat bufs = tcpf.stream ms" using ser by (simp add: tcpf.stream_def)
  have "ms = []" if "[] = tcpf.stream ms"
    using that by (cases ms) (auto simp: tcpf.stream_def dest: arg_cong [of _ _ length] split: prod.splits)
  then obtain k t' where "tcp_arrivals c chunks t = Inr (map (Pair a) (take k ms), t')" "concat chunks = tcpf.stream ms \<longrightarrow> k = length ms"
    using tcp_arrivals_run [OF ok _ assms(4), of 0 chunks] assms(3,5) s by auto
  then show ?thesis using s by auto
qed

section \<open>The tables of connections\<close>

text \<open>
  A run of the transport. A connection that is opened or accepted gets an object that is not in use; pieces of a
  stream arrive on live connections only.
\<close>

datatype ('a, 'c) tcp_event =
    TSend "'c option" bool 'a string string
  | TAccept 'a "'c option"
  | TIncoming 'c bev_event
  | TOutgoing 'c bev_event
  | TReadable 'c string

definition tcp_step :: "('a, 'c) tcp_event \<Rightarrow> ('a, 'c) TCPTransport \<Rightarrow> ('a, 'c) TCPTransport outcome" where
  "tcp_step ev t =
     (case ev of
        TSend conn write_ok dst type data \<Rightarrow>
          obind (TCP_SendMessageInternal conn write_ok dst type data t) (\<lambda>(sent, out, t1). Inr t1)
      | TAccept client conn \<Rightarrow> Inr (TCPAcceptCallback client conn t)
      | TIncoming c what \<Rightarrow> Inr (TCPIncomingEventCallback c what t)
      | TOutgoing c what \<Rightarrow> TCPOutgoingEventCallback c what t
      | TReadable c chunk \<Rightarrow>
          obind (TCPReadableCallback c (t\<lparr>tt_input := (tt_input t)(c := tt_input t c @ chunk)\<rparr>)) (\<lambda>(ds, t1). Inr t1))"

definition allocated :: "('a, 'c) tcp_event \<Rightarrow> ('a, 'c) TCPTransport \<Rightarrow> bool" where
  "allocated ev t =
     (case ev of
        TSend (Some c) write_ok dst type data \<Rightarrow> \<not> tt_live t c
      | TAccept client (Some c) \<Rightarrow> \<not> tt_live t c
      | _ \<Rightarrow> True)"

inductive tcp_reach :: "('a, 'c) TCPTransport \<Rightarrow> bool" where
  tcp_start: "tcp_reach TCPTransport_new"
| tcp_stepped: "tcp_reach t \<Longrightarrow> allocated ev t \<Longrightarrow> (\<And>c. ev \<noteq> TIncoming c BEV_ERROR) \<Longrightarrow> tcp_step ev t = Inr t' \<Longrightarrow> tcp_reach t'"

definition tables_ok :: "('a, 'c) TCPTransport \<Rightarrow> bool" where
  "tables_ok t \<longleftrightarrow> (\<forall>a c. tt_outgoing t a = Some c \<longrightarrow> tt_addresses t c = Some a) \<and>
     (\<forall>c. tt_addresses t c \<noteq> None \<longrightarrow> tt_live t c)"

lemma tables_ok_record:
  assumes "tables_ok t" "\<not> tt_live t c"
  shows "tables_ok (tcp_record a c t)"
proof -
  have "tt_addresses t c = None" using assms by (auto simp: tables_ok_def)
  with assms show ?thesis by (auto simp: tables_ok_def tcp_record_def split: if_splits)
qed

lemma tables_ok_send:
  assumes "TCP_SendMessageInternal conn write_ok dst type data t = Inr (sent, out, t')" "tables_ok t"
    and "\<And>c. conn = Some c \<Longrightarrow> \<not> tt_live t c"
  shows "tables_ok t'"
proof -
  have "t' = (if tt_outgoing t dst = None then ConnectTCP conn dst t else t)"
    using assms(1) by (auto simp: TCP_SendMessageInternal_def Let_def split: option.splits if_splits)
  with assms(2,3) show ?thesis by (auto simp: ConnectTCP_def tables_ok_record split: option.splits)
qed

lemma tables_ok_step:
  assumes "tables_ok t" "allocated ev t" "\<And>c. ev \<noteq> TIncoming c BEV_ERROR" "tcp_step ev t = Inr t'"
  shows "tables_ok t'"
proof (cases ev)
  case (TSend conn write_ok dst type data)
  with assms(4) obtain sent out where "TCP_SendMessageInternal conn write_ok dst type data t = Inr (sent, out, t')"
    by (auto simp: tcp_step_def)
  then show ?thesis by (rule tables_ok_send [OF _ assms(1)]) (use assms(2) in \<open>simp add: allocated_def TSend\<close>)
next
  case (TAccept client conn)
  with assms show ?thesis
    by (cases conn) (auto simp: tcp_step_def TCPAcceptCallback_def allocated_def tables_ok_record)
next
  case (TIncoming c what)
  with assms show ?thesis by (auto simp: tcp_step_def TCPIncomingEventCallback_def)
next
  case (TOutgoing c what)
  with assms(1,4) show ?thesis
    by (auto simp: tcp_step_def TCPOutgoingEventCallback_def bufferevent_free_def tables_ok_def split: option.splits if_splits)
next
  case (TReadable c chunk)
  with assms(1,4) show ?thesis by (auto simp: tcp_step_def TCPReadableCallback_def tables_ok_def split: if_splits)
qed

lemma tcp_reach_tables: "tcp_reach t \<Longrightarrow> tables_ok t"
proof (induction rule: tcp_reach.induct)
  case tcp_start
  show ?case by (simp add: tables_ok_def TCPTransport_new_def)
next
  case (tcp_stepped t ev t')
  show ?case by (rule tables_ok_step [OF tcp_stepped(5,2-4)])
qed

text \<open>
  C31. As long as no error is reported on an accepted connection, the two tables fit together: a message goes to a
  live connection that is recorded with its destination, and sending it faults only when it is empty or when no
  connection to the destination can be opened.
\<close>

theorem tcp_tables_wellformed:
  assumes "tcp_reach t" and "\<And>c. conn = Some c \<Longrightarrow> \<not> tt_live t c"
  shows "case TCP_SendMessageInternal conn write_ok dst type data t of
      Inl e \<Rightarrow> data = '''' \<or> (conn = None \<and> tt_outgoing t dst = None)
    | Inr (sent, out, t') \<Rightarrow> sent = write_ok \<and> (\<exists>c. tt_outgoing t' dst = Some c \<and> tt_addresses t' c = Some dst \<and> tt_live t' c \<and>
        (write_ok \<longrightarrow> out = Some (c, tcp_wire (type, data))))"
proof -
  let ?t = "if tt_outgoing t dst = None then ConnectTCP conn dst t else t"
  have t: "tables_ok ?t" using tcp_reach_tables [OF assms(1)] assms(2)
    by (auto simp: ConnectTCP_def tables_ok_record split: option.splits)
  show ?thesis
  proof (cases "tt_outgoing ?t dst")
    case None
    then have "conn = None \<and> tt_outgoing t dst = None" by (cases conn) (auto simp: ConnectTCP_def tcp_record_def split: if_splits)
    then show ?thesis by (simp add: TCP_SendMessageInternal_def ConnectTCP_def)
  next
    case (Some c)
    with t have c: "tt_addresses ?t c = Some dst" "tt_live ?t c" unfolding tables_ok_def by blast+
    show ?thesis unfolding TCP_SendMessageInternal_def Let_def Some option.case tcp_serialize_wire
      using c Some by simp
  qed
qed

text \<open>
  An error on an accepted connection frees it but leaves it in the tables: the next message to that client is written
  to a freed object. The end of the stream is not noticed at all, because the branch for it tests for an error again.
\<close>

theorem tcp_freed_connection_used:
  assumes "tt_outgoing t client = Some c" and "data \<noteq> ''''"
  shows "TCP_SendMessageInternal conn write_ok client type data (TCPIncomingEventCallback c BEV_ERROR t) =
      Inl (Undefined ''freed bufferevent'') \<and> TCPIncomingEventCallback c BEV_EOF t = t"
  using assms
  by (simp add: TCP_SendMessageInternal_def TCPIncomingEventCallback_def bufferevent_free_def tcp_serialize_wire)

section \<open>Witnesses\<close>

definition ex_conn :: "(nat, nat) TCPTransport" where
  "ex_conn = TCPAcceptCallback 5 (Some 7) TCPTransport_new"

definition ex_stream :: "(string \<times> string) list" where
  "ex_stream = [(''Get'', ''a''), (''Put'', ''bc'')]"

theorem tcp_stream_roundtrip_witness:
  "\<exists>k t'. tcp_arrivals 7 [take 31 (concat (map tcp_wire ex_stream)), drop 31 (concat (map tcp_wire ex_stream))] ex_conn =
     Inr (map (Pair 5) (take k ex_stream), t') \<and> take k ex_stream = ex_stream"
proof -
  let ?bs = "concat (map tcp_wire ex_stream)"
  have ser: "map (\<lambda>(type, data). tcp_serialize type data) ex_stream = map Inr (map tcp_wire ex_stream)"
    by (simp add: ex_stream_def tcp_serialize_wire)
  have c: "tt_addresses ex_conn 7 = Some 5" "tt_input ex_conn 7 = ''''"
    by (simp_all add: ex_conn_def TCPAcceptCallback_def tcp_record_def TCPTransport_new_def)
  have "\<exists>k t'. tcp_arrivals 7 [take 31 ?bs, drop 31 ?bs] ex_conn = Inr (map (Pair 5) (take k ex_stream), t') \<and>
      (concat [take 31 ?bs, drop 31 ?bs] = ?bs \<longrightarrow> take k ex_stream = ex_stream)"
    by (rule tcp_stream_roundtrip [OF _ ser _ c], (auto simp: ex_stream_def)[1], simp)
  then show ?thesis by simp
qed

theorem tcp_tables_wellformed_witness:
  "case TCP_SendMessageInternal None True 5 ''Get'' ''a'' ex_conn of
      Inl e \<Rightarrow> False
    | Inr (sent, out, t') \<Rightarrow> sent \<and> out = Some (7, tcp_wire (''Get'', ''a''))"
proof -
  have "tcp_step (TAccept 5 (Some 7)) TCPTransport_new = Inr ex_conn" by (simp add: tcp_step_def ex_conn_def)
  then have r: "tcp_reach ex_conn"
    by (rule tcp_stepped [OF tcp_start, rotated 2]) (simp_all add: allocated_def TCPTransport_new_def)
  have o: "tt_outgoing ex_conn 5 = Some 7" by (simp add: ex_conn_def TCPAcceptCallback_def tcp_record_def TCPTransport_new_def)
  then have same: "t' = ex_conn" if "TCP_SendMessageInternal None True 5 ''Get'' ''a'' ex_conn = Inr (sent, out, t')" for sent out t'
    using that by (auto simp: TCP_SendMessageInternal_def split: if_splits)
  from tcp_tables_wellformed [OF r, where conn = None and write_ok = True and dst = 5 and type = "''Get''" and data = "''a''"] o same show ?thesis
    by (auto split: sum.splits)
qed

theorem tcp_freed_connection_used_witness:
  "TCP_SendMessageInternal None True 5 ''Get'' ''a'' (TCPIncomingEventCallback 7 BEV_ERROR ex_conn) =
     Inl (Undefined ''freed bufferevent'') \<and> TCPIncomingEventCallback 7 BEV_EOF ex_conn = ex_conn"
  by (rule tcp_freed_connection_used) (simp_all add: ex_conn_def TCPAcceptCallback_def tcp_record_def TCPTransport_new_def)

end
