(* ===== verification/Event_Timers.thy ===== *)
theory Event_Timers
  imports Tapir_Prelude "HOL-Library.Monad_Syntax"
begin

text \<open>
  The timers of the UDP and the TCP transport, which have the same code (\<^verbatim>\<open>lib/udptransport.cc\<close>, \<^verbatim>\<open>lib/tcptransport.cc\<close>),
  and the \<^verbatim>\<open>Timeout\<close> objects of \<^verbatim>\<open>lib/transport.cc\<close> on top of them. The map of timers takes a number to a pointer, and
  reading it with \<^verbatim>\<open>operator[]\<close> leaves a null pointer for a number that was not there. A callback is a value of
  type \<open>'b\<close>; when it runs is up to the event loop.
\<close>

section \<open>Timers\<close>

record 'b Timers =
  tm_lastTimerId :: int
  tm_timers :: "(int \<times> (u64 \<times> 'b) option) list"

definition Timers_new :: "'b Timers" where
  "Timers_new = \<lparr>tm_lastTimerId = 0, tm_timers = []\<rparr>"

definition Timer :: "u64 \<Rightarrow> 'b \<Rightarrow> 'b Timers \<Rightarrow> (int \<times> 'b Timers) outcome" where
  "Timer ms cb t =
     (if tm_lastTimerId t = 2 ^ 31 - 1 then Inl (Undefined ''signed overflow'')
      else
        (let i = tm_lastTimerId t + 1 in
         Inr (i, t\<lparr>tm_lastTimerId := i, tm_timers := omap_put i (Some (ms, cb)) (tm_timers t)\<rparr>)))"

definition CancelTimer :: "int \<Rightarrow> 'b Timers \<Rightarrow> bool \<times> 'b Timers" where
  "CancelTimer i t =
     (case map_of (tm_timers t) i of
        None \<Rightarrow> (False, t\<lparr>tm_timers := omap_put i None (tm_timers t)\<rparr>)
      | Some None \<Rightarrow> (False, t)
      | Some (Some info) \<Rightarrow> (True, t\<lparr>tm_timers := omap_del i (tm_timers t)\<rparr>))"

text \<open>The loop runs until the map is empty; \<open>None\<close> is a loop that never ends.\<close>

partial_function (option) CancelAllTimers :: "'b Timers \<Rightarrow> 'b Timers option" where
  "CancelAllTimers t =
     (case tm_timers t of
        [] \<Rightarrow> Some t
      | kv # kvs \<Rightarrow> CancelAllTimers (snd (CancelTimer (fst kv) t)))"

text \<open>\<^verbatim>\<open>OnTimer\<close>, which the event loop calls for a timer that has expired: the callback to run.\<close>

definition OnTimer :: "int \<Rightarrow> 'b Timers \<Rightarrow> 'b option \<times> 'b Timers" where
  "OnTimer i t =
     (case map_of (tm_timers t) i of
        Some (Some (ms, cb)) \<Rightarrow> (Some cb, t\<lparr>tm_timers := omap_del i (tm_timers t)\<rparr>)
      | _ \<Rightarrow> (None, t))"

section \<open>Timeout objects\<close>

text \<open>The callback of the timer that belongs to a timeout is the timeout itself, \<open>'b\<close>.\<close>

record 'b Timeout =
  to_self :: 'b
  to_ms :: u64
  to_timerId :: int

definition Timeout_new :: "'b \<Rightarrow> u64 \<Rightarrow> 'b Timeout" where
  "Timeout_new self ms = \<lparr>to_self = self, to_ms = ms, to_timerId = 0\<rparr>"

definition Timeout_Active :: "'b Timeout \<Rightarrow> bool" where
  "Timeout_Active o' \<longleftrightarrow> to_timerId o' \<noteq> 0"

definition Timeout_SetTimeout :: "u64 \<Rightarrow> 'b Timeout \<Rightarrow> 'b Timeout outcome" where
  "Timeout_SetTimeout ms o' = obind (assert_that (\<not> Timeout_Active o') ''!Active()'') (\<lambda>_. Inr (o'\<lparr>to_ms := ms\<rparr>))"

definition Timeout_Stop :: "'b Timeout \<Rightarrow> 'b Timers \<Rightarrow> 'b Timeout \<times> 'b Timers" where
  "Timeout_Stop o' t =
     (if to_timerId o' > 0 then (o'\<lparr>to_timerId := 0\<rparr>, snd (CancelTimer (to_timerId o') t)) else (o', t))"

definition Timeout_Reset :: "'b Timeout \<Rightarrow> 'b Timers \<Rightarrow> (u64 \<times> 'b Timeout \<times> 'b Timers) outcome" where
  "Timeout_Reset o' t =
     (let (o1, t1) = Timeout_Stop o' t in
      obind (Timer (to_ms o1) (to_self o1) t1) (\<lambda>(i, t2). Inr (to_ms o1, o1\<lparr>to_timerId := i\<rparr>, t2)))"

definition Timeout_Start :: "'b Timeout \<Rightarrow> 'b Timers \<Rightarrow> (u64 \<times> 'b Timeout \<times> 'b Timers) outcome" where
  "Timeout_Start o' t = Timeout_Reset o' t"

text \<open>The function that a timeout gives to its timer, up to the call of its callback.\<close>

definition Timeout_fire :: "'b Timeout \<Rightarrow> 'b Timers \<Rightarrow> ('b Timeout \<times> 'b Timers) outcome" where
  "Timeout_fire o' t = obind (Timeout_Reset (o'\<lparr>to_timerId := 0\<rparr>) t) (\<lambda>(ms, o1, t1). Inr (o1, t1))"

section \<open>Timeouts and their timers\<close>

text \<open>
  A process with several timeouts: the callbacks for which \<open>objs\<close> has an object are timeouts, the others are tasks posted
  with \<^verbatim>\<open>Timer\<close>. When a timer expires its entry goes, and a timeout starts its next timer before its callback runs.
\<close>

datatype 'b timer_event =
    TNew 'b u64
  | TPost u64 'b
  | TSet 'b u64
  | TStart 'b
  | TReset 'b
  | TStop 'b
  | TExpire int

type_synonym 'b timer_state = "('b \<Rightarrow> 'b Timeout option) \<times> 'b Timers"

definition timer_step :: "'b timer_event \<Rightarrow> 'b timer_state \<Rightarrow> 'b timer_state outcome" where
  "timer_step ev s =
     (case s of (objs, t) \<Rightarrow>
      (case ev of
         TNew x ms \<Rightarrow> Inr (if objs x = None \<and> (\<forall>e \<in> set (tm_timers t). map_option snd (snd e) \<noteq> Some x)
                          then (objs(x \<mapsto> Timeout_new x ms), t) else s)
       | TPost ms x \<Rightarrow> (if objs x = None then obind (Timer ms x t) (\<lambda>(i, t1). Inr (objs, t1)) else Inr s)
       | TSet x ms \<Rightarrow>
           (case objs x of None \<Rightarrow> Inr s | Some o' \<Rightarrow> obind (Timeout_SetTimeout ms o') (\<lambda>o1. Inr (objs(x \<mapsto> o1), t)))
       | TStart x \<Rightarrow>
           (case objs x of None \<Rightarrow> Inr s | Some o' \<Rightarrow> obind (Timeout_Start o' t) (\<lambda>(ms, o1, t1). Inr (objs(x \<mapsto> o1), t1)))
       | TReset x \<Rightarrow>
           (case objs x of None \<Rightarrow> Inr s | Some o' \<Rightarrow> obind (Timeout_Reset o' t) (\<lambda>(ms, o1, t1). Inr (objs(x \<mapsto> o1), t1)))
       | TStop x \<Rightarrow>
           (case objs x of None \<Rightarrow> Inr s | Some o' \<Rightarrow> (case Timeout_Stop o' t of (o1, t1) \<Rightarrow> Inr (objs(x \<mapsto> o1), t1)))
       | TExpire i \<Rightarrow>
           (case OnTimer i t of (None, t1) \<Rightarrow> Inr (objs, t1)
            | (Some x, t1) \<Rightarrow>
                (case objs x of
                   None \<Rightarrow> Inr (objs, t1)
                 | Some o' \<Rightarrow> obind (Timeout_fire o' t1) (\<lambda>(o1, t2). Inr (objs(x \<mapsto> o1), t2))))))"

inductive timers_reach :: "'b timer_state \<Rightarrow> bool" where
  timers_start: "timers_reach (\<lambda>_. None, Timers_new)"
| timers_stepped: "timers_reach s \<Longrightarrow> timer_step ev s = Inr s' \<Longrightarrow> timers_reach s'"

text \<open>
  The map holds no null pointer, and the number of an active timeout leads to its timer and to no other timer of the
  same timeout.
\<close>

definition timers_ok :: "'b Timers \<Rightarrow> bool" where
  "timers_ok t \<longleftrightarrow> omap_wf (tm_timers t) \<and> 0 \<le> tm_lastTimerId t \<and>
     (\<forall>i e. map_of (tm_timers t) i = Some e \<longrightarrow> 0 < i \<and> i \<le> tm_lastTimerId t \<and> e \<noteq> None)"

definition armed_for :: "'b Timers \<Rightarrow> 'b \<Rightarrow> int set" where
  "armed_for t x = {i. \<exists>ms. map_of (tm_timers t) i = Some (Some (ms, x))}"

definition timeout_ok :: "'b Timers \<Rightarrow> 'b \<Rightarrow> 'b Timeout \<Rightarrow> bool" where
  "timeout_ok t x o' \<longleftrightarrow> to_self o' = x \<and> 0 \<le> to_timerId o' \<and>
     armed_for t x = (if to_timerId o' = 0 then {} else {to_timerId o'})"

definition timeouts_ok :: "'b timer_state \<Rightarrow> bool" where
  "timeouts_ok s \<longleftrightarrow> (case s of (objs, t) \<Rightarrow> timers_ok t \<and> (\<forall>x o'. objs x = Some o' \<longrightarrow> timeout_ok t x o'))"

lemma timers_ok_Timer:
  assumes "Timer ms x t = Inr (i, t')" "timers_ok t"
  shows "timers_ok t'" "0 < i" "armed_for t' y = (if y = x then insert i (armed_for t x) else armed_for t y)"
proof -
  have t': "i = tm_lastTimerId t + 1" "t' = t\<lparr>tm_lastTimerId := i, tm_timers := omap_put i (Some (ms, x)) (tm_timers t)\<rparr>"
    using assms(1) by (auto simp: Timer_def Let_def split: if_splits)
  have wf: "omap_wf (tm_timers t)" using assms(2) by (simp add: timers_ok_def)
  have le: "k \<le> tm_lastTimerId t" if "map_of (tm_timers t) k = Some e" for k e
    using assms(2) that by (auto simp: timers_ok_def)
  have new: "map_of (tm_timers t) i = None" using le [of i] t'(1) by (cases "map_of (tm_timers t) i") auto
  have "k \<le> i" if "map_of (tm_timers t) k = Some e" for k e using le [OF that] t'(1) by simp
  then show "timers_ok t'" using assms(2) by (auto simp: timers_ok_def t'(2)) (use t'(1) in simp_all)
  show "0 < i" using assms(2) t'(1) by (simp add: timers_ok_def)
  show "armed_for t' y = (if y = x then insert i (armed_for t x) else armed_for t y)"
    using new by (auto simp: armed_for_def t'(2) wf)
qed

lemma timers_ok_del:
  assumes "timers_ok t"
  shows "timers_ok (t\<lparr>tm_timers := omap_del i (tm_timers t)\<rparr>)"
    "armed_for (t\<lparr>tm_timers := omap_del i (tm_timers t)\<rparr>) x = armed_for t x - {i}"
  using assms by (auto simp: timers_ok_def armed_for_def split: if_splits)

lemma Timeout_Stop_ok:
  assumes "Timeout_Stop o' t = (o1, t1)" "timers_ok t" "timeout_ok t x o'"
  shows "timers_ok t1 \<and> o1 = o'\<lparr>to_timerId := 0\<rparr> \<and> armed_for t1 x = {} \<and> (\<forall>y. y \<noteq> x \<longrightarrow> armed_for t1 y = armed_for t y)"
proof (cases "to_timerId o' = 0")
  case True
  with assms show ?thesis by (cases o') (auto simp: Timeout_Stop_def timeout_ok_def)
next
  case False
  let ?i = "to_timerId o'"
  from False assms(3) have i: "armed_for t x = {?i}" by (simp add: timeout_ok_def)
  then have "?i \<in> armed_for t x" by simp
  then obtain ms where m: "map_of (tm_timers t) ?i = Some (Some (ms, x))" by (auto simp: armed_for_def)
  have t1: "t1 = t\<lparr>tm_timers := omap_del ?i (tm_timers t)\<rparr>" "o1 = o'\<lparr>to_timerId := 0\<rparr>"
    using assms(1,3) False m by (auto simp: Timeout_Stop_def CancelTimer_def timeout_ok_def)
  have "?i \<notin> armed_for t y" if "y \<noteq> x" for y using m that by (auto simp: armed_for_def)
  with t1 timers_ok_del [OF assms(2), of ?i] i show ?thesis by auto
qed

lemma Timeout_Reset_ok:
  assumes "Timeout_Reset o' t = Inr (ms, o1, t1)" "timers_ok t" "timeout_ok t x o'"
  shows "timers_ok t1 \<and> timeout_ok t1 x o1 \<and> (\<forall>y. y \<noteq> x \<longrightarrow> armed_for t1 y = armed_for t y)"
proof -
  obtain o2 t2 where s: "Timeout_Stop o' t = (o2, t2)" by fastforce
  from Timeout_Stop_ok [OF s assms(2,3)] have
    st: "timers_ok t2" "o2 = o'\<lparr>to_timerId := 0\<rparr>" "armed_for t2 x = {}" "\<And>y. y \<noteq> x \<Longrightarrow> armed_for t2 y = armed_for t y" by auto
  have x: "to_self o2 = x" using assms(3) st(2) by (simp add: timeout_ok_def)
  from assms(1) s obtain i where i: "Timer (to_ms o2) (to_self o2) t2 = Inr (i, t1)" "o1 = o2\<lparr>to_timerId := i\<rparr>"
    by (auto simp: Timeout_Reset_def)
  note tm = timers_ok_Timer [OF i(1) st(1), unfolded x]
  have "timeout_ok t1 x o1" using tm(2) tm(3) [of x] st(3) i(2) x by (simp add: timeout_ok_def)
  with tm(1,3) st(4) show ?thesis by simp
qed

lemma timeouts_ok_upd:
  assumes "timeouts_ok (objs, t)" "timers_ok t1 \<and> timeout_ok t1 x o1 \<and> (\<forall>y. y \<noteq> x \<longrightarrow> armed_for t1 y = armed_for t y)"
  shows "timeouts_ok (objs(x \<mapsto> o1), t1)"
proof -
  have "timeout_ok t1 y o'" if "y \<noteq> x" "objs y = Some o'" for y o'
    using assms that by (simp add: timeouts_ok_def timeout_ok_def)
  with assms(2) show ?thesis by (simp add: timeouts_ok_def)
qed

lemma timeouts_ok_task:
  assumes "timeouts_ok (objs, t)" "timers_ok t1" "objs x = None" "\<And>y. y \<noteq> x \<Longrightarrow> armed_for t1 y = armed_for t y"
  shows "timeouts_ok (objs, t1)"
proof -
  have "timeout_ok t1 y o'" if "objs y = Some o'" for y o'
    using assms(1,3) assms(4) [of y] that by (cases "y = x") (simp_all add: timeouts_ok_def timeout_ok_def)
  with assms(2) show ?thesis by (simp add: timeouts_ok_def)
qed

lemma OnTimer_ok:
  assumes "OnTimer i t = (cb, t1)" "timers_ok t"
  shows "case cb of None \<Rightarrow> t1 = t | Some x \<Rightarrow> i \<in> armed_for t x \<and> timers_ok t1 \<and> (\<forall>y. armed_for t1 y = armed_for t y - {i})"
proof (cases cb)
  case (Some x)
  with assms(1) obtain ms where "map_of (tm_timers t) i = Some (Some (ms, x))" "t1 = t\<lparr>tm_timers := omap_del i (tm_timers t)\<rparr>"
    by (auto simp: OnTimer_def split: option.splits)
  with Some timers_ok_del [OF assms(2), of i] show ?thesis by (simp add: armed_for_def [of t x])
qed (use assms in \<open>auto simp: OnTimer_def split: option.splits\<close>)

lemma armed_for_disjoint: "i \<in> armed_for t x \<Longrightarrow> y \<noteq> x \<Longrightarrow> armed_for t y - {i} = armed_for t y"
  by (auto simp: armed_for_def)

lemma timeouts_ok_expire:
  assumes "timer_step (TExpire i) (objs, t) = Inr s'" "timeouts_ok (objs, t)"
  shows "timeouts_ok s'"
proof -
  have t: "timers_ok t" using assms(2) by (simp add: timeouts_ok_def)
  obtain cb t1 where o: "OnTimer i t = (cb, t1)" by fastforce
  note on = OnTimer_ok [OF o t]
  show ?thesis
  proof (cases cb)
    case None
    with assms o on show ?thesis by (simp add: timer_step_def)
  next
    case (Some x)
    with on have x: "i \<in> armed_for t x" "timers_ok t1" "\<And>y. armed_for t1 y = armed_for t y - {i}" by auto
    have frame: "armed_for t1 y = armed_for t y" if "y \<noteq> x" for y using x(3) armed_for_disjoint [OF x(1) that] by simp
    show ?thesis
    proof (cases "objs x")
      case None
      from timeouts_ok_task [OF assms(2) x(2) None frame] assms(1) o Some None show ?thesis by (simp add: timer_step_def)
    next
      case ox: (Some o')
      then have "timeout_ok t x o'" using assms(2) by (simp add: timeouts_ok_def)
      then have "timeout_ok t1 x (o'\<lparr>to_timerId := 0\<rparr>)" using x(1,3) by (auto simp: timeout_ok_def split: if_splits)
      moreover from assms(1) o Some ox obtain ms o1 t2 where
        r: "Timeout_Reset (o'\<lparr>to_timerId := 0\<rparr>) t1 = Inr (ms, o1, t2)" "s' = (objs(x \<mapsto> o1), t2)"
        by (auto simp: timer_step_def Timeout_fire_def)
      ultimately show ?thesis using Timeout_Reset_ok [OF r(1) x(2)] frame unfolding r(2)
        by (intro timeouts_ok_upd [OF assms(2)]) auto
    qed
  qed
qed

lemma timeouts_ok_step:
  assumes "timer_step ev (objs, t) = Inr s'" "timeouts_ok (objs, t)"
  shows "timeouts_ok s'"
proof -
  have t: "timers_ok t" using assms(2) by (simp add: timeouts_ok_def)
  have ob: "timeout_ok t x o'" if "objs x = Some o'" for x o' using assms(2) that by (simp add: timeouts_ok_def)
  have reset: "timeouts_ok (objs(x \<mapsto> o1), t1)" if "objs x = Some o'" "Timeout_Reset o' t = Inr (ms, o1, t1)" for x o' o1 t1 ms
    by (rule timeouts_ok_upd [OF assms(2) Timeout_Reset_ok [OF that(2) t ob [OF that(1)]]])
  show ?thesis
  proof (cases ev)
    case (TNew x ms)
    have "armed_for t x = {}" if "\<forall>e \<in> set (tm_timers t). map_option snd (snd e) \<noteq> Some x"
      using that by (fastforce simp: armed_for_def dest: map_of_SomeD)
    then have "timeouts_ok (objs(x \<mapsto> Timeout_new x ms), t)" if "\<forall>e \<in> set (tm_timers t). map_option snd (snd e) \<noteq> Some x"
      using that t by (intro timeouts_ok_upd [OF assms(2)]) (simp add: timeout_ok_def Timeout_new_def)
    with TNew assms show ?thesis by (auto simp: timer_step_def simp del: fun_upd_apply split: if_splits)
  next
    case (TPost ms x)
    with assms timeouts_ok_task [OF assms(2)] timers_ok_Timer [of ms x t, OF _ t] show ?thesis
      by (auto simp: timer_step_def split: if_splits)
  next
    case (TSet x ms)
    show ?thesis
    proof (cases "objs x")
      case (Some o')
      with assms(1) have s': "s' = (objs(x \<mapsto> o'\<lparr>to_ms := ms\<rparr>), t)"
        by (auto simp: timer_step_def TSet Timeout_SetTimeout_def split: if_splits)
      show ?thesis unfolding s' using t ob [OF Some]
        by (intro timeouts_ok_upd [OF assms(2)]) (simp add: timeout_ok_def)
    qed (use assms TSet in \<open>simp add: timer_step_def\<close>)
  next
    case (TStart x)
    with assms reset show ?thesis by (auto simp: timer_step_def Timeout_Start_def simp del: fun_upd_apply split: option.splits)
  next
    case (TReset x)
    with assms reset show ?thesis by (auto simp: timer_step_def simp del: fun_upd_apply split: option.splits)
  next
    case (TStop x)
    show ?thesis
    proof (cases "objs x")
      case (Some o')
      obtain o1 t1 where s: "Timeout_Stop o' t = (o1, t1)" by fastforce
      from Timeout_Stop_ok [OF s t ob [OF Some]] ob [OF Some] have "timeouts_ok (objs(x \<mapsto> o1), t1)"
        by (intro timeouts_ok_upd [OF assms(2)]) (auto simp: timeout_ok_def)
      with assms(1) Some s show ?thesis by (simp add: timer_step_def TStop)
    qed (use assms TStop in \<open>simp add: timer_step_def\<close>)
  next
    case (TExpire i)
    with timeouts_ok_expire assms show ?thesis by blast
  qed
qed

lemma timers_reach_ok: "timers_reach s \<Longrightarrow> timeouts_ok s"
proof (induction rule: timers_reach.induct)
  case timers_start
  show ?case by (simp add: timeouts_ok_def timers_ok_def Timers_new_def)
next
  case (timers_stepped s ev s')
  obtain objs t where s: "s = (objs, t)" by (cases s)
  from timeouts_ok_step timers_stepped.hyps(2) timers_stepped.IH show ?case unfolding s by blast
qed

section \<open>Cancelling all timers\<close>

lemma CancelTimer_first:
  assumes "omap_wf (tm_timers t)" "tm_timers t = (i, e) # kvs"
  shows "CancelTimer i t = (case e of None \<Rightarrow> (False, t) | Some info \<Rightarrow> (True, t\<lparr>tm_timers := kvs\<rparr>))"
proof -
  have "omap_del i ((i, x) # kvs) = kvs" for x
    using omap_wf_distinct [OF assms(1)] assms(2) by (auto simp: omap_del_def filter_id_conv)
  with assms(2) show ?thesis by (simp add: CancelTimer_def split: option.split)
qed

lemma CancelAllTimers_empties:
  assumes "omap_wf (tm_timers t)" "\<forall>kv \<in> set (tm_timers t). snd kv \<noteq> None"
  shows "CancelAllTimers t = Some (t\<lparr>tm_timers := []\<rparr>)"
  using assms
proof (induction "tm_timers t" arbitrary: t)
  case Nil
  then have "t\<lparr>tm_timers := []\<rparr> = t" by (cases t) simp
  with Nil show ?case by (subst CancelAllTimers.simps) (simp flip: Nil(1))
next
  case (Cons kv kvs)
  obtain i e where kv: "kv = (i, e)" by fastforce
  from CancelTimer_first [OF Cons.prems(1), of i e kvs] Cons.hyps(2) Cons.prems(2) kv
  have c: "snd (CancelTimer i t) = t\<lparr>tm_timers := kvs\<rparr>" by (auto simp flip: Cons.hyps(2) split: option.split)
  have "omap_wf kvs" using Cons.prems(1) by (simp add: omap_wf_def flip: Cons.hyps(2))
  then have "CancelAllTimers (t\<lparr>tm_timers := kvs\<rparr>) = Some (t\<lparr>tm_timers := []\<rparr>)"
    using Cons.hyps(1) [of "t\<lparr>tm_timers := kvs\<rparr>"] Cons.prems(2) by (simp flip: Cons.hyps(2))
  with c show ?case by (subst CancelAllTimers.simps) (simp add: kv flip: Cons.hyps(2))
qed

lemma CancelAllTimers_returns:
  assumes "CancelAllTimers t = Some r" "omap_wf (tm_timers t)"
  shows "\<forall>kv \<in> set (tm_timers t). snd kv \<noteq> None"
proof -
  have "omap_wf (tm_timers t) \<longrightarrow> (\<forall>kv \<in> set (tm_timers t). snd kv \<noteq> None)"
  proof (rule CancelAllTimers.raw_induct [of "\<lambda>t r. omap_wf (tm_timers t) \<longrightarrow> (\<forall>kv \<in> set (tm_timers t). snd kv \<noteq> None)", OF _ assms(1)])
    fix rec t r
    assume IH: "\<And>t r. rec t = Some r \<Longrightarrow> omap_wf (tm_timers t) \<longrightarrow> (\<forall>kv \<in> set (tm_timers t). snd kv \<noteq> None)"
      and r: "(case tm_timers t of [] \<Rightarrow> Some t | kv # kvs \<Rightarrow> rec (snd (CancelTimer (fst kv) t))) = Some r"
    show "omap_wf (tm_timers t) \<longrightarrow> (\<forall>kv \<in> set (tm_timers t). snd kv \<noteq> None)"
    proof
      assume wf: "omap_wf (tm_timers t)"
      show "\<forall>kv \<in> set (tm_timers t). snd kv \<noteq> None"
      proof (cases "tm_timers t")
        case (Cons kv kvs)
        obtain i e where kv: "kv = (i, e)" by fastforce
        have wk: "omap_wf kvs" using wf by (simp add: omap_wf_def Cons)
        from IH [of "snd (CancelTimer i t)" r] r Cons kv CancelTimer_first [OF wf] wf wk show ?thesis
          by (cases e) auto
      qed simp
    qed
  qed
  with assms(2) show ?thesis by blast
qed

text \<open>
  C29. In every state that a process can reach with its timeouts and tasks, a timeout that is active has one timer, which
  is the one whose number it holds, and a timeout that is not active has none; cancelling all timers ends and leaves
  none.
\<close>

theorem timeout_has_its_timer:
  assumes "timers_reach (objs, t)"
  shows "(\<forall>x o'. objs x = Some o' \<longrightarrow> armed_for t x = (if Timeout_Active o' then {to_timerId o'} else {})) \<and>
    CancelAllTimers t = Some (t\<lparr>tm_timers := []\<rparr>)"
proof -
  have ok: "timeouts_ok (objs, t)" using timers_reach_ok [OF assms] .
  then have t: "timers_ok t" by (simp add: timeouts_ok_def)
  have "snd kv \<noteq> None" if "kv \<in> set (tm_timers t)" for kv
  proof -
    have "map_of (tm_timers t) (fst kv) = Some (snd kv)"
      using t that omap_wf_distinct [of "tm_timers t"] by (simp add: timers_ok_def)
    then show ?thesis using t unfolding timers_ok_def by blast
  qed
  with CancelAllTimers_empties [of t] t ok show ?thesis
    by (auto simp: timeouts_ok_def timeout_ok_def timers_ok_def Timeout_Active_def)
qed

text \<open>
  Cancelling a timer that does not exist leaves a null pointer under its number, and cancelling all timers then never
  ends.
\<close>

theorem cancel_unknown_timer_hangs:
  assumes "omap_wf (tm_timers t)" and "map_of (tm_timers t) i = None"
  shows "CancelAllTimers (snd (CancelTimer i t)) = None"
proof (rule ccontr)
  let ?t = "snd (CancelTimer i t)"
  assume "CancelAllTimers ?t \<noteq> None"
  moreover have "omap_wf (tm_timers ?t)" "map_of (tm_timers ?t) i = Some None" using assms by (simp_all add: CancelTimer_def)
  ultimately show False using CancelAllTimers_returns [of ?t] by (metis map_of_SomeD not_None_eq snd_conv)
qed

section \<open>Witnesses\<close>

definition ex_timers :: "nat timer_state" where
  "ex_timers = (case timer_step (TStart 1) ((\<lambda>_. None)(1 \<mapsto> Timeout_new 1 100), Timers_new) of Inr s \<Rightarrow> s | Inl _ \<Rightarrow> (\<lambda>_. None, Timers_new))"

theorem timeout_has_its_timer_witness:
  "timers_reach ex_timers \<and> (\<exists>o'. fst ex_timers 1 = Some o' \<and> Timeout_Active o' \<and> armed_for (snd ex_timers) 1 = {to_timerId o'}) \<and>
   CancelAllTimers (snd ex_timers) = Some ((snd ex_timers)\<lparr>tm_timers := []\<rparr>)"
proof -
  let ?s = "((\<lambda>_. None)(1 \<mapsto> Timeout_new 1 100), Timers_new) :: nat timer_state"
  have "timers_reach ?s"
    by (rule timers_stepped [OF timers_start, of "TNew 1 100"]) (simp add: timer_step_def Timers_new_def)
  moreover have e: "timer_step (TStart 1) ?s = Inr ex_timers" "fst ex_timers 1 = Some \<lparr>to_self = 1, to_ms = 100, to_timerId = 1\<rparr>"
    by (simp_all add: ex_timers_def timer_step_def Timeout_Start_def Timeout_Reset_def Timeout_Stop_def Timeout_new_def Timer_def Timers_new_def)
  ultimately have r: "timers_reach (fst ex_timers, snd ex_timers)" by (auto intro: timers_stepped)
  from timeout_has_its_timer [OF r] r e(2) show ?thesis by (simp add: Timeout_Active_def)
qed

theorem cancel_unknown_timer_hangs_witness:
  "CancelAllTimers (snd (CancelTimer 3 (Timers_new :: nat Timers))) = None"
  by (rule cancel_unknown_timer_hangs) (simp_all add: Timers_new_def)

end
