(* ===== verification/Occ_Timestamps.thy ===== *)
theory Occ_Timestamps
  imports Strong_Client Time_Server
begin

text \<open>
  The strong client in the mode \<^verbatim>\<open>MODE_OCC\<close> together with the replicated timestamp server. The answers that the client's
  environment gives to timestamp requests are replies that the group has sent. The shards propose no timestamps in
  this mode: \<^verbatim>\<open>server.cc\<close> sets one only in the Spanner modes, and the shard client then answers with the default
  timestamp.
\<close>

definition asks_group :: "int vr_sys \<Rightarrow> 'w StrongEnv \<Rightarrow> bool" where
  "asks_group s env \<longleftrightarrow> (\<forall>w r w'. se_tss env w = Some (r, w') \<longrightarrow> (\<exists>i d m. (i, d, VReply m) \<in> set (packets s) \<and> r = rm_reply m))"

definition plain_votes :: "'w FrontEnv \<Rightarrow> bool" where
  "plain_votes env \<longleftrightarrow> (\<forall>w i tid txn t. getTimestamp (pr_timestamp (fst (fe_Prepare env w i tid txn t) (Promise_new PREPARE_TIMEOUT))) = 0)"

text \<open>
  \<open>asking env\<close> is the environment \<open>env\<close> with the answers to the timestamp requests kept in the world, in the order in
  which the client reads them; all other calls leave them alone.
\<close>

definition keeping :: "'w FrontEnv \<Rightarrow> ('w \<times> 'a) FrontEnv" where
  "keeping env =
     \<lparr>fe_Begin = (\<lambda>wa i tid. bbind (fe_Begin env (fst wa) i tid) (\<lambda>w1. returns (w1, snd wa))),
      fe_Get = (\<lambda>wa i tid key tmo. let (f, w1) = fe_Get env (fst wa) i tid key tmo in (f, w1, snd wa)),
      fe_Get_at = (\<lambda>wa i tid key t tmo. let (f, w1) = fe_Get_at env (fst wa) i tid key t tmo in (f, w1, snd wa)),
      fe_Prepare = (\<lambda>wa i tid txn t. let (f, w1) = fe_Prepare env (fst wa) i tid txn t in (f, w1, snd wa)),
      fe_Commit = (\<lambda>wa i tid txn t. (fe_Commit env (fst wa) i tid txn t, snd wa)),
      fe_Abort = (\<lambda>wa i tid txn. (fe_Abort env (fst wa) i tid txn, snd wa)),
      fe_gettimeofday = (\<lambda>wa. let (tv, w1) = fe_gettimeofday env (fst wa) in (tv, w1, snd wa))\<rparr>"

definition asking :: "'w StrongEnv \<Rightarrow> ('w \<times> string list) StrongEnv" where
  "asking env =
     \<lparr>se_front = keeping (se_front env),
      se_tss = (\<lambda>wa. map_option (\<lambda>(r, w1). (r, w1, snd wa @ [r])) (se_tss env (fst wa))),
      se_usleep = (\<lambda>n wa. (se_usleep env n (fst wa), snd wa))\<rparr>"

lemma asking_simps [simp]:
  "se_front (asking env) = keeping (se_front env)"
  "se_tss (asking env) wa = map_option (\<lambda>(r, w1). (r, w1, snd wa @ [r])) (se_tss env (fst wa))"
  by (simp_all add: asking_def)

lemma plain_votes_keeping [simp]: "plain_votes env \<Longrightarrow> plain_votes (keeping env)"
  by (simp add: plain_votes_def keeping_def case_prod_beta)

lemma send_prepares_keeping:
  "send_prepares (logged (keeping env)) wl bs timestamp parts = (ps, wl') \<Longrightarrow> snd (fst wl') = snd (fst wl)"
proof (induction parts arbitrary: wl ps wl')
  case (Cons x xs)
  obtain q wl1 where q: "BufferClient_Prepare (logged (keeping env)) wl (bs x) timestamp (Promise_new PREPARE_TIMEOUT) = (q, wl1)"
    by (metis surj_pair)
  obtain qs wl2 where qs: "send_prepares (logged (keeping env)) wl1 bs timestamp xs = (qs, wl2)" by (metis surj_pair)
  have "snd (fst wl1) = snd (fst wl)"
    using q by (auto simp: BufferClient_Prepare_def logged_def keeping_def split: prod.splits)
  with Cons.IH [OF qs] Cons.prems q qs show ?case by auto
qed simp

lemma commits_keeping:
  "snd (fst (fold (\<lambda>p w. BufferClient_Commit (logged (keeping env)) w (b p) ts) ps wl)) = snd (fst wl)"
  by (induction ps arbitrary: wl) (simp_all add: BufferClient_Commit_def logged_def keeping_def)

lemma send_prepares_plain:
  assumes "plain_votes env" "send_prepares (logged env) wl bs timestamp parts = (ps, wl')" "p \<in> set ps"
  shows "getTimestamp (pr_timestamp p) = 0"
  using assms(2,3)
proof (induction parts arbitrary: wl ps wl')
  case (Cons x xs)
  obtain w l where wl: "wl = (w, l)" by (cases wl)
  obtain q wl1 where q: "BufferClient_Prepare (logged env) wl (bs x) timestamp (Promise_new PREPARE_TIMEOUT) = (q, wl1)" by (metis surj_pair)
  obtain qs wl2 where qs: "send_prepares (logged env) wl1 bs timestamp xs = (qs, wl2)" by (metis surj_pair)
  have "getTimestamp (pr_timestamp q) = 0"
    using q assms(1) by (auto simp: BufferClient_Prepare_def logged_def plain_votes_def wl split: prod.splits) (metis fst_conv)
  with Cons.IH [OF qs] Cons.prems q qs show ?case by auto
qed simp

lemma strong_votes_plain:
  assumes "strong_votes ps status ts = returns (st, ts')" "\<forall>p \<in> set ps. getTimestamp (pr_timestamp p) = 0"
  shows "ts' = ts"
  using assms
  by (induction ps arbitrary: status) (auto simp: GetReply_def GetTimestamp_def split: if_splits)

lemma Prepare_occ:
  assumes "StrongClient_Prepare (slogged (asking env)) ((w, as), l) c ts = returns (status, ts', (w', as'), l')"
    and "plain_votes (se_front env)" "scl_mode c = MODE_OCC"
  shows "\<exists>w1 r w2 v. se_tss env w1 = Some (r, w2) \<and> as' = as @ [r] \<and> stol r = Inr v \<and> ts' = of_int v"
proof -
  obtain ps w1 a1 l1 where sp: "send_prepares (logged (keeping (se_front env))) ((w, as), l) (scl_bclient c) Timestamp_default
      (scl_participants c) = (ps, (w1, a1), l1)" by (metis surj_pair)
  have a1: "a1 = as" using send_prepares_keeping [OF sp] by simp
  from assms(1,3) sp obtain r w2 v where r: "se_tss env w1 = Some (r, w2)" "as' = a1 @ [r]" "stol r = Inr v"
      and votes: "strong_votes ps REPLY_OK (of_int v) = returns (status, ts')"
    by (auto simp: StrongClient_Prepare_def split: option.splits)
  have "ts' = of_int v"
    by (rule strong_votes_plain [OF votes]) (use send_prepares_plain [OF plain_votes_keeping [OF assms(2)] sp] in blast)
  with r a1 show ?thesis by blast
qed

lemma rounds_occ:
  assumes "strong_rounds (slogged (asking env)) n st ((w, as), l) c ts = returns (REPLY_OK, ts', (w', as'), l')" "st \<noteq> REPLY_OK"
    and "plain_votes (se_front env)" "scl_mode c = MODE_OCC"
  shows "\<exists>w1 r w2 v. se_tss env w1 = Some (r, w2) \<and> as' \<noteq> [] \<and> last as' = r \<and> stol r = Inr v \<and> ts' = of_int v"
  using assms(1,2)
proof (induction n arbitrary: st w as l ts)
  case (Suc n)
  obtain s1 t1 w1 a1 l1 where p: "StrongClient_Prepare (slogged (asking env)) ((w, as), l) c ts = returns (s1, t1, (w1, a1), l1)"
    and r: "if s1 = REPLY_OK \<or> s1 = REPLY_FAIL then REPLY_OK = s1 \<and> ts' = t1 \<and> as' = a1 \<and> l' = l1
            else strong_rounds (slogged (asking env)) n s1 ((w1, a1), l1) c t1 = returns (REPLY_OK, ts', (w', as'), l')"
    using Suc.prems(1) by (auto split: if_splits)
  show ?case
  proof (cases "s1 = REPLY_OK")
    case True
    with r Prepare_occ [OF p assms(3,4)] show ?thesis by (metis last_snoc snoc_eq_iff_butlast)
  next
    case False
    with r Suc.IH [of s1 w1 a1 l1 t1] show ?thesis by (auto split: if_splits)
  qed
qed simp

lemma occ_commit_calls:
  assumes "StrongClient_Commit (slogged (asking env)) ((w, []), []) c = returns (True, c', (w', asks), calls)"
    and "plain_votes (se_front env)" "scl_mode c = MODE_OCC"
  obtains w1 w2 v where "se_tss env w1 = Some (last asks, w2)" "asks \<noteq> []" "stol (last asks) = Inr v"
    "commit_times calls = (if scl_participants c = [] then {} else {of_int v})"
proof -
  obtain status ts w1 a1 l1 where r: "strong_rounds (slogged (asking env)) COMMIT_RETRIES REPLY_RETRY ((w, []), []) c 0 =
      returns (status, ts, (w1, a1), l1)"
    using assms(1) by (auto simp: StrongClient_Commit_def)
  have ok: "status = REPLY_OK" using assms(1) r by (auto simp: StrongClient_Commit_def split: if_splits)
  have mode: "MODE_OCC \<noteq> MODE_SPAN_OCC" "MODE_OCC \<noteq> MODE_SPAN_LOCK" by (simp_all)
  have calls: "((w', asks), calls) =
      fold (\<lambda>p w. BufferClient_Commit (logged (keeping (se_front env))) w (scl_bclient c p) ts) (scl_participants c) ((w1, a1), l1)"
    using assms(1,3) r ok mode by (auto simp: StrongClient_Commit_def)
  have "asks = a1" using commits_keeping [of "se_front env" "scl_bclient c" ts "scl_participants c" "((w1, a1), l1)"]
    unfolding calls [symmetric] by simp
  moreover have "calls = l1 @ scommits c ts" using commits_logged [OF calls [symmetric]] by (simp add: scommits_def sbuffers_def)
  moreover have "\<forall>x\<in>set l1. \<exists>i tid txn t p. x = CPrepare i tid txn t p" using strong_rounds_calls [OF r] by auto
  then have "commit_times (l1 @ xs) = commit_times xs" for xs by (fastforce simp: commit_times_def)
  moreover have "commit_times (scommits c ts) = (if scl_participants c = [] then {} else {ts})"
    by (force simp: commit_times_def scommits_def sbuffers_def neq_Nil_conv)
  ultimately have "asks = a1" "commit_times calls = (if scl_participants c = [] then {} else {ts})"
    by simp_all
  moreover have "REPLY_RETRY \<noteq> REPLY_OK" by (simp add: reply_defs)
  ultimately show thesis using rounds_occ [OF r [unfolded ok] _ assms(2,3)] that by auto
qed

text \<open>
  C22. The commit timestamps of the optimistic mode are places in the log of the timestamp servers' group. When a
  transaction commits, it has asked the group for a timestamp, and the answer it read last is the text of a reply that the
  group has sent. Every reply of the group with that text carries the same positive operation number \<open>n\<close>; the leader's log
  has at place \<open>n\<close> a request with the request number the reply names; and the commits at the transaction's participants
  are all made under the timestamp \<open>n\<close>. So two commits whose last answers come from different places of the log have
  different timestamps, ordered as the log is. This holds as long as no view change starts in the group and as long as the
  shards vote without proposing timestamps, as \<^verbatim>\<open>server.cc\<close> does in this mode.
\<close>

theorem occ_commits_at_group_number:
  assumes "vr_run (cfg_n cfg) dead TimeStampServer (vr_start cfg bs TimeStampServer_new) evs = Some s"
    and "0 < cfg_n cfg" and "\<forall>i. Fire i ViewChangeTimer \<notin> set evs"
    and "asks_group s env" and "plain_votes (se_front env)" and "scl_mode c = MODE_OCC"
    and "StrongClient_Commit (slogged (asking env)) ((w, []), []) c = returns (True, c', (w', asks), calls)"
    and "reqs = map le_request (entries (vr_log (nodes s 0)))"
  shows "asks \<noteq> [] \<and> (\<exists>i d m. (i, d, VReply m) \<in> set (packets s) \<and> rm_reply m = last asks) \<and>
    (\<forall>i d m. (i, d, VReply m) \<in> set (packets s) \<and> rm_reply m = last asks \<longrightarrow>
       0 < rm_opnum m \<and> unat (rm_opnum m) \<le> length reqs \<and> rm_clientreqid m = clientreqid (reqs ! (unat (rm_opnum m) - 1)) \<and>
       commit_times calls = (if scl_participants c = [] then {} else {rm_opnum m}))"
proof -
  obtain w1 w2 v where r: "se_tss env w1 = Some (last asks, w2)" "asks \<noteq> []" "stol (last asks) = Inr v"
      "commit_times calls = (if scl_participants c = [] then {} else {of_int v})"
    by (rule occ_commit_calls [OF assms(7,5,6)])
  from assms(4) r(1) have "\<exists>i d m. (i, d, VReply m) \<in> set (packets s) \<and> rm_reply m = last asks"
    unfolding asks_group_def by metis
  moreover have "0 < rm_opnum m \<and> of_int v = rm_opnum m" if "(i, d, VReply m) \<in> set (packets s)" "rm_reply m = last asks" for i d m
    using timeserver_answers [OF assms(1-3) that(1)] r(3) that(2) by auto
  ultimately show ?thesis using r(2,4) timeserver_place [OF assms(1-3) _ assms(8)] by auto
qed

section \<open>Witness\<close>

definition ex_oenv :: "nat StrongEnv" where
  "ex_oenv = ex_senv\<lparr>se_front := (se_front ex_senv)\<lparr>fe_Prepare := (\<lambda>w i tid txn t. (\<lambda>p. Promise_Reply_t p REPLY_OK Timestamp_default, w))\<rparr>\<rparr>"

definition ex_oclient :: StrongClient where
  "ex_oclient = ex_sclient\<lparr>scl_mode := MODE_OCC\<rparr>"

lemma ex_occ_commit:
  "case StrongClient_Commit (slogged (asking ex_oenv)) ((0, []), []) ex_oclient of
     Inr (Some (ok, c', (w', asks), calls)) \<Rightarrow> ok \<and> asks = [''1''] \<and> CCommit 0 0 Transaction_empty 1 \<in> set calls | _ \<Rightarrow> False"
  by code_simp

theorem occ_commits_at_group_number_witness:
  "\<exists>c' w' calls. StrongClient_Commit (slogged (asking ex_oenv)) ((0, []), []) ex_oclient = returns (True, c', (w', [''1'']), calls) \<and>
     commit_times calls = {1}"
proof -
  obtain c' w' calls where run: "StrongClient_Commit (slogged (asking ex_oenv)) ((0, []), []) ex_oclient =
      returns (True, c', (w', [''1'']), calls)" and one: "CCommit 0 0 Transaction_empty 1 \<in> set calls"
    using ex_occ_commit by (elim case_returnsE) auto
  have "asks_group ex_tss_sys ex_oenv" using ex_tss_packet by (fastforce simp: asks_group_def ex_oenv_def ex_senv_def)
  moreover have "plain_votes (se_front ex_oenv)"
    by (simp add: plain_votes_def ex_oenv_def ex_senv_def promise_defs Timestamp_default_def)
  moreover have "scl_mode ex_oclient = MODE_OCC" by (simp add: ex_oclient_def)
  moreover have "0 < cfg_n (group_of 1)" by (simp add: Configuration_of_def)
  ultimately have "commit_times calls = (if scl_participants ex_oclient = [] then {} else {1})"
    using occ_commits_at_group_number [OF ex_tss_run _ ex_normal_run_normal _ _ _ run refl, THEN conjunct2, THEN conjunct2,
        rule_format, OF _ _ _ _ conjI [OF ex_tss_packet]] by simp
  moreover have "1 \<in> commit_times calls" using one by (auto simp: commit_times_def)
  ultimately show ?thesis using run by (auto split: if_splits)
qed

end
