(* ===== verification/Sim_Transport.thy ===== *)
theory Sim_Transport
  imports Tapir_Prelude "HOL-Library.Monad_Syntax"
begin

text \<open>
  The simulated transport of the tests, \<^verbatim>\<open>lib/simtransport.cc\<close>: a queue of messages and timers in virtual time, with
  filters that drop, change or delay messages. Receivers and the callbacks of user timers are parameters: they
  take the state \<open>'s\<close> of the processes and give the calls they make to the transport, in order. Messages are
  modelled as type name and serialized form.
\<close>

section \<open>State\<close>

record QueuedMessage =
  qm_dst :: int
  qm_src :: int
  qm_type :: string
  qm_msg :: string

datatype 'k sim_callback =
    UserCallback 'k
  | PushMessage QueuedMessage

record 'k PendingTimer =
  pt_when :: u64
  pt_id :: int
  pt_cb :: "'k sim_callback"

text \<open>
  A filter gets the addresses and replica numbers of both ends, the message and the delay so far; it says whether to pass
  the message on, and what the message and the delay are now.
\<close>

type_synonym sim_filter = "int \<times> int \<Rightarrow> int \<times> int \<Rightarrow> string \<Rightarrow> string \<Rightarrow> u64 \<Rightarrow> bool \<times> string \<times> u64"

text \<open>Multimaps are lists in the order of the keys, where a new entry goes behind those with the same key.\<close>

record 'k SimulatedTransport =
  sm_queue :: "QueuedMessage list"
  sm_endpoints :: "int \<Rightarrow> bool"
  sm_lastAddr :: int
  sm_replicaIdxs :: "int \<Rightarrow> int"
  sm_filters :: "(int \<times> sim_filter) list"
  sm_timers :: "(u64 \<times> 'k PendingTimer) list"
  sm_lastTimerId :: int
  sm_vtime :: u64
  sm_processTimers :: bool

definition SimulatedTransport_new :: "'k SimulatedTransport" where
  "SimulatedTransport_new = \<lparr>sm_queue = [], sm_endpoints = (\<lambda>_. False), sm_lastAddr = -1, sm_replicaIdxs = (\<lambda>_. 0),
     sm_filters = [], sm_timers = [], sm_lastTimerId = 0, sm_vtime = 0, sm_processTimers = True\<rparr>"

fun multimap_insert :: "'a::linorder \<Rightarrow> 'b \<Rightarrow> ('a \<times> 'b) list \<Rightarrow> ('a \<times> 'b) list" where
  "multimap_insert k v [] = [(k, v)]"
| "multimap_insert k v ((k', v') # m) = (if k < k' then (k, v) # (k', v') # m else (k', v') # multimap_insert k v m)"

section \<open>Operations\<close>

definition Sim_Register :: "int \<Rightarrow> 'k SimulatedTransport \<Rightarrow> int \<times> 'k SimulatedTransport" where
  "Sim_Register replicaIdx t =
     (let addr = sm_lastAddr t + 1 in
      (addr, t\<lparr>sm_lastAddr := addr, sm_endpoints := (sm_endpoints t)(addr := True),
               sm_replicaIdxs := (sm_replicaIdxs t)(addr := replicaIdx)\<rparr>))"

definition Sim_Timer :: "u64 \<Rightarrow> 'k sim_callback \<Rightarrow> 'k SimulatedTransport \<Rightarrow> (int \<times> 'k SimulatedTransport) outcome" where
  "Sim_Timer ms cb t =
     (if sm_lastTimerId t = 2 ^ 31 - 1 then Inl (Undefined ''signed overflow'')
      else
        (let i = sm_lastTimerId t + 1; pt = \<lparr>pt_when = sm_vtime t + ms, pt_id = i, pt_cb = cb\<rparr> in
         Inr (i, t\<lparr>sm_lastTimerId := i, sm_timers := multimap_insert (pt_when pt) pt (sm_timers t)\<rparr>)))"

definition Sim_CancelTimer :: "int \<Rightarrow> 'k SimulatedTransport \<Rightarrow> bool \<times> 'k SimulatedTransport" where
  "Sim_CancelTimer i t =
     (\<exists>p \<in> set (sm_timers t). pt_id (snd p) = i, t\<lparr>sm_timers := filter (\<lambda>p. pt_id (snd p) \<noteq> i) (sm_timers t)\<rparr>)"

definition Sim_CancelAllTimers :: "'k SimulatedTransport \<Rightarrow> 'k SimulatedTransport" where
  "Sim_CancelAllTimers t = t\<lparr>sm_timers := [], sm_processTimers := False\<rparr>"

definition AddFilter :: "int \<Rightarrow> sim_filter \<Rightarrow> 'k SimulatedTransport \<Rightarrow> 'k SimulatedTransport" where
  "AddFilter i f t = t\<lparr>sm_filters := multimap_insert i f (sm_filters t)\<rparr>"

definition RemoveFilter :: "int \<Rightarrow> 'k SimulatedTransport \<Rightarrow> 'k SimulatedTransport" where
  "RemoveFilter i t = t\<lparr>sm_filters := filter (\<lambda>p. fst p \<noteq> i) (sm_filters t)\<rparr>"

text \<open>The loop over the filters: \<open>None\<close> when one of them drops the message.\<close>

fun run_filters :: "sim_filter list \<Rightarrow> int \<times> int \<Rightarrow> int \<times> int \<Rightarrow> string \<Rightarrow> string \<Rightarrow> u64 \<Rightarrow> (string \<times> u64) option" where
  "run_filters [] src dst type msg delay = Some (msg, delay)"
| "run_filters (f # fs) src dst type msg delay =
     (let (pass, msg1, delay1) = f src dst type msg delay in
      if pass then run_filters fs src dst type msg1 delay1 else None)"

definition Sim_SendMessageInternal ::
  "bool \<Rightarrow> int \<Rightarrow> int \<Rightarrow> string \<Rightarrow> string \<Rightarrow> 'k SimulatedTransport \<Rightarrow> (bool \<times> 'k SimulatedTransport) outcome" where
  "Sim_SendMessageInternal multicast srcAddr dst type m t =
     obind (assert_that (\<not> multicast) ''!multicast'') (\<lambda>_.
       case run_filters (map snd (sm_filters t)) (srcAddr, sm_replicaIdxs t srcAddr) (dst, sm_replicaIdxs t dst) type m 0 of
         None \<Rightarrow> Inr (True, t)
       | Some (msgData, delay) \<Rightarrow>
           let q = \<lparr>qm_dst = dst, qm_src = srcAddr, qm_type = type, qm_msg = msgData\<rparr> in
           if delay = 0 then Inr (True, t\<lparr>sm_queue := sm_queue t @ [q]\<rparr>)
           else obind (Sim_Timer delay (PushMessage q) t) (\<lambda>(i, t1). Inr (True, t1)))"

section \<open>The event loop\<close>

text \<open>The calls that a receiver or a callback makes.\<close>

datatype 'k sim_call =
    SimSend int int string string
  | SimTimer u64 'k
  | SimCancel int
  | SimCancelAll

definition sim_call :: "'k sim_call \<Rightarrow> 'k SimulatedTransport \<Rightarrow> 'k SimulatedTransport outcome" where
  "sim_call c t =
     (case c of
        SimSend src dst type m \<Rightarrow> obind (Sim_SendMessageInternal False src dst type m t) (\<lambda>(ok, t1). Inr t1)
      | SimTimer ms k \<Rightarrow> obind (Sim_Timer ms (UserCallback k) t) (\<lambda>(i, t1). Inr t1)
      | SimCancel i \<Rightarrow> Inr (snd (Sim_CancelTimer i t))
      | SimCancelAll \<Rightarrow> Inr (Sim_CancelAllTimers t))"

fun sim_calls :: "'k sim_call list \<Rightarrow> 'k SimulatedTransport \<Rightarrow> 'k SimulatedTransport outcome" where
  "sim_calls [] t = Inr t"
| "sim_calls (c # cs) t = obind (sim_call c t) (sim_calls cs)"

record ('s, 'k) SimProcesses =
  on_message :: "'s \<Rightarrow> QueuedMessage \<Rightarrow> 'k sim_call list \<times> 's"
  on_callback :: "'s \<Rightarrow> 'k \<Rightarrow> 'k sim_call list \<times> 's"

datatype sim_label =
    Delivered QueuedMessage
  | Fired u64 int

text \<open>
  A turn of \<^verbatim>\<open>Run\<close>: the message at the front of the queue, which leaves the queue after it is delivered, or else the
  earliest timer; \<open>None\<close> when there is neither.
\<close>

definition deliver_front ::
  "('s, 'k) SimProcesses \<Rightarrow> QueuedMessage \<Rightarrow> 's \<times> 'k SimulatedTransport \<Rightarrow> ('s \<times> 'k SimulatedTransport) outcome" where
  "deliver_front procs q x =
     (case x of (s, t) \<Rightarrow>
        if \<not> sm_endpoints t (qm_dst q) then Inl (Undefined ''null receiver'')
        else
          (let (calls, s1) = on_message procs s q in
           obind (sim_calls calls t) (\<lambda>t1. Inr (s1, t1\<lparr>sm_queue := tl (sm_queue t1)\<rparr>))))"

definition fire_first ::
  "('s, 'k) SimProcesses \<Rightarrow> 'k PendingTimer \<Rightarrow> 's \<times> 'k SimulatedTransport \<Rightarrow> ('s \<times> 'k SimulatedTransport) outcome" where
  "fire_first procs pt x =
     (case x of (s, t) \<Rightarrow>
        obind (assert_that (pt_when pt \<ge> sm_vtime t) ''iter->second.when >= vtime'') (\<lambda>_.
          let t1 = t\<lparr>sm_vtime := pt_when pt, sm_timers := tl (sm_timers t)\<rparr> in
          case pt_cb pt of
            PushMessage q \<Rightarrow> Inr (s, t1\<lparr>sm_queue := sm_queue t1 @ [q]\<rparr>)
          | UserCallback k \<Rightarrow>
              (let (calls, s1) = on_callback procs s k in obind (sim_calls calls t1) (\<lambda>t2. Inr (s1, t2)))))"

definition sim_turn ::
  "('s, 'k) SimProcesses \<Rightarrow> 's \<times> 'k SimulatedTransport \<Rightarrow> (sim_label \<times> 's \<times> 'k SimulatedTransport) option outcome" where
  "sim_turn procs x =
     (case sm_queue (snd x) of
        q # qs \<Rightarrow> obind (deliver_front procs q x) (\<lambda>x1. Inr (Some (Delivered q, x1)))
      | [] \<Rightarrow>
          (case sm_timers (snd x) of
             (k, pt) # pts \<Rightarrow>
               if sm_processTimers (snd x)
               then obind (fire_first procs pt x) (\<lambda>x1. Inr (Some (Fired (pt_when pt) (pt_id pt), x1)))
               else Inr None
           | [] \<Rightarrow> Inr None))"

text \<open>The loop itself need not end: \<open>None\<close>.\<close>

partial_function (option) Sim_Run ::
  "('s, 'k) SimProcesses \<Rightarrow> 's \<times> 'k SimulatedTransport \<Rightarrow> ('s \<times> 'k SimulatedTransport) outcome option" where
  "Sim_Run procs x =
     (case sim_turn procs x of
        Inl e \<Rightarrow> Some (Inl e)
      | Inr None \<Rightarrow> Some (Inr x)
      | Inr (Some (lab, x1)) \<Rightarrow> Sim_Run procs x1)"

section \<open>Order of timers and messages\<close>

text \<open>
  Timers are ordered by their time and, among equal times, by their number. \<open>sim_ok i t\<close>: the timers are in this order and
  behind the timer \<open>i\<close> that was fired last, at the present virtual time.
\<close>

fun before :: "u64 \<times> int \<Rightarrow> u64 \<times> int \<Rightarrow> bool" where
  "before (a, i) (b, j) \<longleftrightarrow> a < b \<or> a = b \<and> i < j"

abbreviation stamp :: "u64 \<times> 'k PendingTimer \<Rightarrow> u64 \<times> int" where
  "stamp p \<equiv> (fst p, pt_id (snd p))"

definition sim_ok :: "int \<Rightarrow> 'k SimulatedTransport \<Rightarrow> bool" where
  "sim_ok i t \<longleftrightarrow> sorted_wrt (\<lambda>p q. before (stamp p) (stamp q)) (sm_timers t) \<and>
     (\<forall>p \<in> set (sm_timers t). pt_when (snd p) = fst p \<and> before (sm_vtime t, i) (stamp p) \<and> pt_id (snd p) \<le> sm_lastTimerId t) \<and>
     i \<le> sm_lastTimerId t"

definition short_delays :: "(int \<times> sim_filter) list \<Rightarrow> bool" where
  "short_delays fs \<longleftrightarrow> (\<forall>src dst type m m' d. run_filters (map snd fs) src dst type m 0 = Some (m', d) \<longrightarrow> d < 2 ^ 63)"

definition short_calls :: "'k sim_call list \<Rightarrow> bool" where
  "short_calls cs \<longleftrightarrow> (\<forall>ms k. SimTimer ms k \<in> set cs \<longrightarrow> ms < 2 ^ 63)"

definition short_timers :: "('s, 'k) SimProcesses \<Rightarrow> bool" where
  "short_timers procs \<longleftrightarrow> (\<forall>s q. short_calls (fst (on_message procs s q))) \<and> (\<forall>s k. short_calls (fst (on_callback procs s k)))"

lemma before_trans: "before x y \<Longrightarrow> before y z \<Longrightarrow> before x z"
  by (cases x; cases y; cases z) auto

lemma set_multimap_insert [simp]: "set (multimap_insert k v m) = insert (k, v) (set m)"
  by (induction k v m rule: multimap_insert.induct) auto

lemma sorted_multimap_insert:
  assumes "sorted_wrt (\<lambda>p q. before (stamp p) (stamp q)) m" "\<forall>p \<in> set m. pt_id (snd p) < pt_id v"
  shows "sorted_wrt (\<lambda>p q. before (stamp p) (stamp q)) (multimap_insert k v m)"
  using assms
proof (induction k v m rule: multimap_insert.induct)
  case (2 k v k' v' m)
  show ?case
  proof (cases "k < k'")
    case True
    then have "before (k, pt_id v) (stamp p)" if "p \<in> set ((k', v') # m)" for p
      using that "2.prems"(1) by fastforce
    with True "2.prems"(1) show ?thesis by simp
  next
    case False
    with 2 show ?thesis by auto
  qed
qed simp

lemma no_wrap:
  assumes "a < 2 ^ 63" "b < 2 ^ 63"
  shows "(a :: u64) \<le> a + b"
proof -
  have "unat a < 2 ^ 63" "unat b < 2 ^ 63" using assms by (simp_all add: word_less_nat_alt)
  then have "unat a + unat b < 2 ^ 64" by simp
  then show ?thesis by (simp add: word_le_nat_alt unat_word_ariths)
qed

lemma Sim_Timer_ok:
  assumes "Sim_Timer ms cb t = Inr (j, t')" "sim_ok i t" "sm_vtime t < 2 ^ 63" "ms < 2 ^ 63"
  shows "sim_ok i t'" "sm_vtime t' = sm_vtime t" "sm_queue t' = sm_queue t" "sm_filters t' = sm_filters t"
proof -
  let ?j = "sm_lastTimerId t + 1"
  let ?pt = "\<lparr>pt_when = sm_vtime t + ms, pt_id = ?j, pt_cb = cb\<rparr>"
  have t': "t' = t\<lparr>sm_lastTimerId := ?j, sm_timers := multimap_insert (sm_vtime t + ms) ?pt (sm_timers t)\<rparr>"
    using assms(1) by (auto simp: Sim_Timer_def Let_def split: if_splits)
  have le: "pt_id (snd p) \<le> sm_lastTimerId t" if "p \<in> set (sm_timers t)" for p using assms(2) that by (simp add: sim_ok_def)
  have "sorted_wrt (\<lambda>p q. before (stamp p) (stamp q)) (sm_timers t')"
    unfolding t' using sorted_multimap_insert [of "sm_timers t" ?pt] assms(2) le by (fastforce simp: sim_ok_def)
  moreover have "before (sm_vtime t, i) (sm_vtime t + ms, ?j)"
    using no_wrap [OF assms(3,4)] assms(2) by (auto simp: sim_ok_def le_less)
  ultimately show "sim_ok i t'" using assms(2) le by (fastforce simp: sim_ok_def t')
qed (use assms(1) in \<open>auto simp: Sim_Timer_def Let_def split: if_splits\<close>)

lemma sim_call_ok:
  assumes "sim_call c t = Inr t'" "sim_ok i t" "sm_vtime t < 2 ^ 63" "short_delays (sm_filters t)" "short_calls [c]"
  shows "sim_ok i t' \<and> sm_vtime t' = sm_vtime t \<and> sm_filters t' = sm_filters t \<and> (\<exists>ms. sm_queue t' = sm_queue t @ ms)"
proof (cases c)
  case (SimSend src dst type m)
  let ?f = "run_filters (map snd (sm_filters t)) (src, sm_replicaIdxs t src) (dst, sm_replicaIdxs t dst) type m 0"
  show ?thesis
  proof (cases ?f)
    case None
    with assms(1,2) SimSend show ?thesis by (simp add: sim_call_def Sim_SendMessageInternal_def)
  next
    case (Some md)
    obtain msg d where md: "md = (msg, d)" by (cases md)
    have d: "d < 2 ^ 63" using assms(4) Some md unfolding short_delays_def by blast
    show ?thesis
    proof (cases "d = 0")
      case True
      with assms(1) SimSend Some md obtain q where "t' = t\<lparr>sm_queue := sm_queue t @ [q]\<rparr>"
        by (auto simp: sim_call_def Sim_SendMessageInternal_def)
      with assms(2) show ?thesis by (simp add: sim_ok_def)
    next
      case False
      with assms(1) SimSend Some md obtain j cb where "Sim_Timer d cb t = Inr (j, t')"
        by (auto simp: sim_call_def Sim_SendMessageInternal_def)
      from Sim_Timer_ok [OF this assms(2,3) d] show ?thesis by auto
    qed
  qed
next
  case (SimTimer ms k)
  with assms(1) obtain j where "Sim_Timer ms (UserCallback k) t = Inr (j, t')" by (auto simp: sim_call_def)
  moreover have "ms < 2 ^ 63" using assms(5) SimTimer by (simp add: short_calls_def)
  ultimately show ?thesis using Sim_Timer_ok [OF _ assms(2,3)] by auto
next
  case (SimCancel j)
  with assms(1) have "t' = t\<lparr>sm_timers := filter (\<lambda>p. pt_id (snd p) \<noteq> j) (sm_timers t)\<rparr>"
    by (simp add: sim_call_def Sim_CancelTimer_def)
  with assms(2) show ?thesis by (simp add: sim_ok_def sorted_wrt_filter)
next
  case SimCancelAll
  with assms(1,2) show ?thesis by (auto simp: sim_call_def Sim_CancelAllTimers_def sim_ok_def)
qed

lemma sim_calls_ok:
  assumes "sim_calls cs t = Inr t'" "sim_ok i t" "sm_vtime t < 2 ^ 63" "short_delays (sm_filters t)" "short_calls cs"
  shows "sim_ok i t' \<and> sm_vtime t' = sm_vtime t \<and> sm_filters t' = sm_filters t \<and> (\<exists>ms. sm_queue t' = sm_queue t @ ms)"
  using assms
proof (induction cs arbitrary: t)
  case (Cons c cs)
  from Cons.prems(1) obtain t1 where t1: "sim_call c t = Inr t1" "sim_calls cs t1 = Inr t'" by auto
  have "short_calls [c]" "short_calls cs" using Cons.prems(5) by (auto simp: short_calls_def)
  with sim_call_ok [OF t1(1) Cons.prems(2-4)] Cons.IH [OF t1(2)] Cons.prems(3,4) show ?case by fastforce
qed auto

lemma sim_call_no_assert: "sim_call c t \<noteq> Inl (AssertFail e)"
  by (auto simp: sim_call_def Sim_SendMessageInternal_def Sim_Timer_def Let_def obind_def
      split: sim_call.splits sum.splits option.splits if_splits)

lemma sim_calls_no_assert: "sim_calls cs t \<noteq> Inl (AssertFail e)"
proof (induction cs arbitrary: t)
  case (Cons c cs)
  then show ?case using sim_call_no_assert [of c t e] by (cases "sim_call c t") auto
qed simp

section \<open>Runs\<close>

text \<open>A run of turns, with the messages delivered and the timers fired on it.\<close>

inductive sim_run ::
  "('s, 'k) SimProcesses \<Rightarrow> 's \<times> 'k SimulatedTransport \<Rightarrow> sim_label list \<Rightarrow> 's \<times> 'k SimulatedTransport \<Rightarrow> bool" for procs x0 where
  sim_start: "sim_run procs x0 [] x0"
| sim_step: "sim_run procs x0 labs x \<Longrightarrow> sim_turn procs x = Inr (Some (lab, x')) \<Longrightarrow> sim_run procs x0 (labs @ [lab]) x'"

fun delivered_of :: "sim_label list \<Rightarrow> QueuedMessage list" where
  "delivered_of [] = []"
| "delivered_of (Delivered q # labs) = q # delivered_of labs"
| "delivered_of (Fired w i # labs) = delivered_of labs"

fun fired_of :: "sim_label list \<Rightarrow> (u64 \<times> int) list" where
  "fired_of [] = []"
| "fired_of (Delivered q # labs) = fired_of labs"
| "fired_of (Fired w i # labs) = (w, i) # fired_of labs"

lemma labels_append [simp]:
  "delivered_of (ls @ ls') = delivered_of ls @ delivered_of ls'" "fired_of (ls @ ls') = fired_of ls @ fired_of ls'"
  by (induction ls rule: delivered_of.induct) auto

lemma sim_calls_vtime: "sim_calls cs t = Inr t' \<Longrightarrow> sm_vtime t' = sm_vtime t"
proof (induction cs arbitrary: t)
  case (Cons c cs)
  then obtain t1 where "sim_call c t = Inr t1" "sim_calls cs t1 = Inr t'" by auto
  moreover from this(1) have "sm_vtime t1 = sm_vtime t"
    by (auto simp: sim_call_def Sim_SendMessageInternal_def Sim_Timer_def Sim_CancelTimer_def Sim_CancelAllTimers_def Let_def
        split: sim_call.splits option.splits if_splits)
  ultimately show ?case using Cons.IH by simp
qed simp

lemma deliver_turn:
  assumes "deliver_front procs q (s, t) = Inr (s', t')" "sm_queue t = q # qs"
    and "sim_ok i t" "sm_vtime t < 2 ^ 63" "short_delays (sm_filters t)" "short_timers procs"
  shows "sim_ok i t' \<and> sm_vtime t' = sm_vtime t \<and> sm_filters t' = sm_filters t \<and> (\<exists>ms. sm_queue t' = qs @ ms)"
proof -
  obtain calls s1 where c: "on_message procs s q = (calls, s1)" by (metis surj_pair)
  with assms(1) obtain t1 where t1: "sim_calls calls t = Inr t1" "t' = t1\<lparr>sm_queue := tl (sm_queue t1)\<rparr>"
    by (cases "sim_calls calls t") (auto simp: deliver_front_def split: if_splits)
  have "short_calls calls" using assms(6) c unfolding short_timers_def by (metis fst_conv)
  from sim_calls_ok [OF t1(1) assms(3-5) this] assms(2) t1(2) show ?thesis by (auto simp: sim_ok_def)
qed

lemma fire_turn:
  assumes "fire_first procs pt (s, t) = Inr (s', t')" "sm_queue t = []" "sm_timers t = (k, pt) # pts"
    and "sim_ok i t" "sm_vtime t' < 2 ^ 63" "short_delays (sm_filters t)" "short_timers procs"
  shows "sim_ok (pt_id pt) t' \<and> sm_vtime t' = pt_when pt \<and> sm_filters t' = sm_filters t"
proof -
  define t1 where "t1 = t\<lparr>sm_vtime := pt_when pt, sm_timers := pts\<rparr>"
  have ok: "sim_ok (pt_id pt) t1" using assms(3,4) by (fastforce simp: sim_ok_def t1_def)
  have f: "sm_filters t1 = sm_filters t" "sm_vtime t1 = pt_when pt" by (simp_all add: t1_def)
  show ?thesis
  proof (cases "pt_cb pt")
    case (UserCallback c)
    obtain calls s1 where c: "on_callback procs s c = (calls, s1)" by (metis surj_pair)
    with assms(1,3) UserCallback have t': "sim_calls calls t1 = Inr t'"
      by (cases "sim_calls calls t1") (auto simp: fire_first_def t1_def Let_def assert_that_def split: if_splits)
    have "short_calls calls" using assms(7) c unfolding short_timers_def by (metis fst_conv)
    moreover have "sm_vtime t1 < 2 ^ 63" using sim_calls_vtime [OF t'] assms(5) by simp
    ultimately show ?thesis using sim_calls_ok [OF t' ok] assms(6) f by simp
  next
    case (PushMessage q)
    with assms(1,3) have "t' = t1\<lparr>sm_queue := sm_queue t1 @ [q]\<rparr>"
      by (auto simp: fire_first_def t1_def Let_def assert_that_def split: if_splits)
    with ok f show ?thesis by (simp add: sim_ok_def)
  qed
qed

lemma sim_turn_vtime: "sim_turn procs x = Inr (Some (lab, x')) \<Longrightarrow> sm_vtime (snd x) \<le> sm_vtime (snd x')"
  by (cases x; cases x')
    (auto simp: sim_turn_def deliver_front_def fire_first_def assert_that_def Let_def dest!: sim_calls_vtime
      split: list.splits prod.splits if_splits sim_callback.splits)

lemma sim_turn_queue:
  assumes "sim_turn procs (s, t) = Inr (Some (Delivered q, (s', t')))"
  obtains qs where "sm_queue t = q # qs" "deliver_front procs q (s, t) = Inr (s', t')"
  using assms by (cases "sm_queue t"; cases "sm_timers t") (auto simp: sim_turn_def split: if_splits)

lemma sim_turn_timer:
  assumes "sim_turn procs (s, t) = Inr (Some (Fired w i, (s', t')))"
  obtains k pt pts where "sm_queue t = []" "w = pt_when pt" "i = pt_id pt" "sm_timers t = (k, pt) # pts"
    "fire_first procs pt (s, t) = Inr (s', t')"
  using assms by (cases "sm_queue t"; cases "sm_timers t") (auto simp: sim_turn_def split: if_splits)

text \<open>What holds after a run: \<open>i\<close> is the number of the timer fired last.\<close>

definition sim_run_inv :: "'k SimulatedTransport \<Rightarrow> sim_label list \<Rightarrow> 'k SimulatedTransport \<Rightarrow> int \<Rightarrow> bool" where
  "sim_run_inv t0 labs t i \<longleftrightarrow> sim_ok i t \<and> sm_filters t = sm_filters t0 \<and>
     sorted_wrt before (fired_of labs) \<and> (\<forall>p \<in> set (fired_of labs). p = (sm_vtime t, i) \<or> before p (sm_vtime t, i)) \<and>
     (\<exists>sent. delivered_of labs @ sm_queue t = sm_queue t0 @ sent)"

lemma sim_run_inv_step:
  assumes "sim_run_inv t0 labs t i" "sim_turn procs (s, t) = Inr (Some (lab, (s', t')))"
    and "short_delays (sm_filters t0)" "short_timers procs" "sm_vtime t' < 2 ^ 63"
  shows "\<exists>j. sim_run_inv t0 (labs @ [lab]) t' j"
proof -
  have inv: "sim_ok i t" "short_delays (sm_filters t)" using assms(1,3) by (simp_all add: sim_run_inv_def)
  show ?thesis
  proof (cases lab)
    case (Delivered q)
    with assms(2) obtain qs where q: "sm_queue t = q # qs" "deliver_front procs q (s, t) = Inr (s', t')"
      by (auto elim: sim_turn_queue)
    have "sm_vtime t < 2 ^ 63" using sim_turn_vtime [OF assms(2)] assms(5) by simp
    from deliver_turn [OF q(2,1) inv(1) this inv(2) assms(4)]
    obtain ms where t': "sim_ok i t'" "sm_vtime t' = sm_vtime t" "sm_filters t' = sm_filters t" "sm_queue t' = qs @ ms" by auto
    from assms(1) q(1) obtain sent where "delivered_of labs @ q # qs = sm_queue t0 @ sent" by (auto simp: sim_run_inv_def)
    then have "delivered_of (labs @ [lab]) @ sm_queue t' = sm_queue t0 @ (sent @ ms)"
      using Delivered t'(4) by (metis append.assoc append_Cons append_Nil delivered_of.simps(1,2) labels_append(1))
    with t' assms(1) Delivered have "sim_run_inv t0 (labs @ [lab]) t' i"
      unfolding sim_run_inv_def by (metis append_Nil2 fired_of.simps(1,2) labels_append(2))
    then show ?thesis ..
  next
    case (Fired w j)
    with assms(2) obtain k pt pts where t: "sm_queue t = []" "w = pt_when pt" "j = pt_id pt" "sm_timers t = (k, pt) # pts"
      "fire_first procs pt (s, t) = Inr (s', t')" by (auto elim: sim_turn_timer)
    have k: "before (sm_vtime t, i) (w, j)" using inv(1) t(2-4) by (simp add: sim_ok_def)
    from fire_turn [OF t(5,1,4) inv(1) assms(5) inv(2) assms(4)] t(2,3)
    have t': "sim_ok j t'" "sm_vtime t' = w" "sm_filters t' = sm_filters t" by simp_all
    have "before p (w, j)" if "p \<in> set (fired_of labs)" for p
    proof -
      have "p = (sm_vtime t, i) \<or> before p (sm_vtime t, i)" using assms(1) that unfolding sim_run_inv_def by blast
      with k before_trans show ?thesis by metis
    qed
    moreover obtain sent where "delivered_of labs = sm_queue t0 @ sent" using assms(1) t(1) by (auto simp: sim_run_inv_def)
    moreover have "sorted_wrt before (fired_of labs)" "sm_filters t = sm_filters t0" using assms(1) by (simp_all add: sim_run_inv_def)
    ultimately have "sim_run_inv t0 (labs @ [lab]) t' j"
      using t' Fired by (simp add: sim_run_inv_def sorted_wrt_append)
    then show ?thesis ..
  qed
qed

lemma sim_run_invariant:
  assumes "sim_run procs (s0, t0) labs x" "sim_ok 0 t0" "short_delays (sm_filters t0)" "short_timers procs"
    and "sm_vtime (snd x) < 2 ^ 63"
  shows "\<exists>i. sim_run_inv t0 labs (snd x) i"
  using assms(1,5)
proof induction
  case sim_start
  then show ?case using assms(2) by (auto simp: sim_run_inv_def)
next
  case (sim_step labs x lab x')
  obtain s t s' t' where x: "x = (s, t)" "x' = (s', t')" by (metis surj_pair)
  have "sm_vtime (snd x) < 2 ^ 63" using sim_turn_vtime [OF sim_step.hyps(2)] sim_step.prems by simp
  from sim_step.IH [OF this] obtain i where "sim_run_inv t0 labs t i" using x by auto
  from sim_run_inv_step [OF this _ assms(3,4)] sim_step.hyps(2) sim_step.prems x show ?case by simp
qed

lemma sim_turn_no_assert:
  assumes "sim_ok i t"
  shows "sim_turn procs (s, t) \<noteq> Inl (AssertFail e)"
proof
  assume a: "sim_turn procs (s, t) = Inl (AssertFail e)"
  have le: "sm_vtime t \<le> pt_when pt" if "sm_timers t = (k, pt) # pts" for k pt pts
    using assms that by (auto simp: sim_ok_def)
  from a le show False
    by (auto simp: sim_turn_def deliver_front_def fire_first_def assert_that_def Let_def obind_def sim_calls_no_assert
        split: list.splits prod.splits if_splits sim_callback.splits sum.splits)
qed

lemma Sim_Run_sim_run: "sim_run procs x0 labs x \<Longrightarrow> Sim_Run procs x0 = Sim_Run procs x"
proof (induction rule: sim_run.induct)
  case (sim_step labs x lab x')
  then show ?case by (simp add: Sim_Run.simps [of procs x])
qed simp

text \<open>
  C30. Order in the simulated transport. Let a transport without timers, at virtual time 0, take calls \<open>cs\<close> and then run, where
  no timer and no delay of a filter reaches \<open>2 ^ 63\<close> ms and the virtual time has not got there. The assertion of
  \<^verbatim>\<open>Run\<close> does not fail at the next turn; timers have fired in the order of their times, those of equal times in the order in
  which they were set, each once; the messages of the queue have been delivered in its order, each once, and before all
  that were queued later. When no turn is left \<^verbatim>\<open>Run\<close> returns, and then no message is left in the queue.
\<close>

theorem sim_transport_order:
  assumes "sm_timers t1 = []" "sm_vtime t1 = 0" "sm_lastTimerId t1 = 0" "sim_calls cs t1 = Inr t0"
    and "short_calls cs" "short_delays (sm_filters t1)" "short_timers procs"
    and "sim_run procs (s0, t0) labs (s, t)" "sm_vtime t < 2 ^ 63"
  shows "(\<forall>e. sim_turn procs (s, t) \<noteq> Inl (AssertFail e)) \<and> sorted_wrt before (fired_of labs) \<and>
    (\<exists>sent. delivered_of labs @ sm_queue t = sm_queue t0 @ sent) \<and>
    (sim_turn procs (s, t) = Inr None \<longrightarrow> Sim_Run procs (s0, t0) = Some (Inr (s, t)) \<and> sm_queue t = [])"
proof -
  have "sim_ok 0 t1" using assms(1-3) by (simp add: sim_ok_def)
  from sim_calls_ok [OF assms(4) this _ assms(6,5)] assms(2,6)
  have t0: "sim_ok 0 t0" "short_delays (sm_filters t0)" by simp_all
  from sim_run_invariant [OF assms(8) t0 assms(7)] assms(9) obtain i where "sim_run_inv t0 labs t i" by auto
  moreover from this have "sim_turn procs (s, t) \<noteq> Inl (AssertFail e)" for e
    by (intro sim_turn_no_assert [of i]) (simp add: sim_run_inv_def)
  moreover have "Sim_Run procs (s0, t0) = Some (Inr (s, t)) \<and> sm_queue t = []" if "sim_turn procs (s, t) = Inr None"
  proof
    show "Sim_Run procs (s0, t0) = Some (Inr (s, t))"
      using Sim_Run_sim_run [OF assms(8)] that by (simp add: Sim_Run.simps [of procs "(s, t)"])
    show "sm_queue t = []"
      using that by (cases "sm_queue t") (auto simp: sim_turn_def obind_def split: sum.splits)
  qed
  ultimately show ?thesis by (auto simp: sim_run_inv_def)
qed

text \<open>
  Two addresses and a filter that delays messages to address 1 by 5 ms; a message to 0, a message to 1 and timers for 7 and 5 ms.
\<close>

definition ex_filter :: sim_filter where
  "ex_filter src dst type m d = (True, m, if fst dst = 1 then 5 else 0)"

definition ex_sim :: "nat SimulatedTransport" where
  "ex_sim = AddFilter 1 ex_filter (snd (Sim_Register 1 (snd (Sim_Register 0 SimulatedTransport_new))))"

definition ex_calls :: "nat sim_call list" where
  "ex_calls = [SimSend 1 0 ''Ping'' ''a'', SimTimer 7 0, SimSend 0 1 ''Pong'' ''b'', SimTimer 5 1]"

definition ex_procs :: "(nat, nat) SimProcesses" where
  "ex_procs = \<lparr>on_message = (\<lambda>s q. ([], s + 1)), on_callback = (\<lambda>s k. (if k = 0 then [SimSend 1 0 ''Ping'' ''c''] else [], s))\<rparr>"

definition ex_labels :: "sim_label list" where
  "ex_labels = [Delivered \<lparr>qm_dst = 0, qm_src = 1, qm_type = ''Ping'', qm_msg = ''a''\<rparr>, Fired 5 2,
     Delivered \<lparr>qm_dst = 1, qm_src = 0, qm_type = ''Pong'', qm_msg = ''b''\<rparr>, Fired 5 3, Fired 7 1,
     Delivered \<lparr>qm_dst = 0, qm_src = 1, qm_type = ''Ping'', qm_msg = ''c''\<rparr>]"

fun turns :: "nat \<Rightarrow> ('s, 'k) SimProcesses \<Rightarrow> 's \<times> 'k SimulatedTransport \<Rightarrow> (sim_label list \<times> 's \<times> 'k SimulatedTransport) option" where
  "turns 0 procs x = Some ([], x)"
| "turns (Suc n) procs x =
     (case turns n procs x of
        None \<Rightarrow> None
      | Some (labs, x1) \<Rightarrow>
          (case sim_turn procs x1 of Inr (Some (lab, x2)) \<Rightarrow> Some (labs @ [lab], x2) | _ \<Rightarrow> None))"

lemma turns_sim_run: "turns n procs x = Some (labs, x') \<Longrightarrow> sim_run procs x labs x'"
  by (induction n arbitrary: labs x') (auto intro: sim_run.intros split: option.splits sum.splits)

lemma ex_filter_delay: "run_filters (map snd (sm_filters ex_sim)) src dst type m 0 = Some (m', d) \<Longrightarrow> d < 2 ^ 63"
  by (auto simp: ex_sim_def AddFilter_def Sim_Register_def SimulatedTransport_new_def ex_filter_def Let_def split: if_splits)

lemma ex_short: "short_delays (sm_filters ex_sim)" "short_calls ex_calls" "short_timers ex_procs"
  by (use ex_filter_delay in \<open>unfold short_delays_def, blast\<close>)
    (auto simp: short_calls_def short_timers_def ex_calls_def ex_procs_def)

lemma ex_sim_run:
  "case sim_calls ex_calls ex_sim of
     Inl e \<Rightarrow> False
   | Inr t0 \<Rightarrow>
       (case turns 6 ex_procs (0, t0) of
          None \<Rightarrow> False
        | Some (labs, s, t) \<Rightarrow> labs = ex_labels \<and> sm_vtime t = 7 \<and> s = 3 \<and> sm_queue t = [] \<and> sm_timers t = [])"
  by code_simp

theorem sim_transport_order_witness:
  "\<exists>t0 t. sim_calls ex_calls ex_sim = Inr t0 \<and> Sim_Run ex_procs (0, t0) = Some (Inr (3, t)) \<and>
     sorted_wrt before (fired_of ex_labels) \<and> delivered_of ex_labels = sm_queue t0 @ tl (delivered_of ex_labels)"
proof -
  from ex_sim_run obtain t0 t where t0: "sim_calls ex_calls ex_sim = Inr t0" and t: "turns 6 ex_procs (0, t0) = Some (ex_labels, 3, t)"
    "sm_vtime t = 7" "sm_queue t = []" "sm_timers t = []"
    by (auto split: sum.splits option.splits)
  have e: "sm_timers ex_sim = []" "sm_vtime ex_sim = 0" "sm_lastTimerId ex_sim = 0"
    by (simp_all add: ex_sim_def AddFilter_def Sim_Register_def SimulatedTransport_new_def Let_def)
  have "sm_vtime t < 2 ^ 63" using t(2) by simp
  note o = sim_transport_order [OF e t0 ex_short(2,1,3) turns_sim_run [OF t(1)] this]
  have "sim_turn ex_procs (3, t) = Inr None" using t(3,4) by (simp add: sim_turn_def)
  moreover have "case sim_calls ex_calls ex_sim of Inl e \<Rightarrow> False | Inr t0 \<Rightarrow> delivered_of ex_labels = sm_queue t0 @ tl (delivered_of ex_labels)"
    by code_simp
  ultimately show ?thesis using o t0 by auto
qed

end
