(* ===== verification/Persistent_Register.thy ===== *)
theory Persistent_Register
  imports Tapir_Prelude
begin

text \<open>
  The persistent register, \<^verbatim>\<open>lib/persistent_register.cc\<close>: one string in a file, in which a replica of inconsistent
  replication keeps its views. The file is its content (\<open>None\<close>: it does not exist); which of the calls to the file system
  succeed is an argument.
\<close>

record file_calls =
  fc_good :: bool
  fc_open :: bool
  fc_seek_end :: bool
  fc_tell :: bool
  fc_seek_set :: bool
  fc_read :: bool
  fc_written :: nat
  fc_fileno :: bool
  fc_fsync :: bool
  fc_close :: bool

definition Initialized :: "file_calls \<Rightarrow> string option \<Rightarrow> bool" where
  "Initialized io file \<longleftrightarrow> file \<noteq> None \<and> fc_good io"

definition OpenFile :: "file_calls \<Rightarrow> unit outcome" where
  "OpenFile io = (if fc_open io then Inr () else Inl (Panicked ''fopen''))"

definition CloseFile :: "file_calls \<Rightarrow> unit outcome" where
  "CloseFile io = (if fc_close io then Inr () else Inl (Panicked ''Unable to close file.''))"

text \<open>\<^verbatim>\<open>fread(buffer, length, 1, file)\<close> counts objects of \<open>length\<close> bytes: it gives 0 when \<open>length\<close> is 0.\<close>

definition fread_one :: "file_calls \<Rightarrow> string \<Rightarrow> nat" where
  "fread_one io content = (if content = [] \<or> \<not> fc_read io then 0 else 1)"

definition PR_Read :: "file_calls \<Rightarrow> string option \<Rightarrow> string outcome" where
  "PR_Read io file =
     (if \<not> Initialized io file then Inr ''''
      else
        obind (OpenFile io) (\<lambda>_.
          if \<not> fc_seek_end io then Inl (Panicked ''Unable to fseek file'')
          else if \<not> fc_tell io then Inl (Panicked ''ftell'')
          else if \<not> fc_seek_set io then Inl (Panicked ''Unable to fseek file'')
          else if fread_one io (the file) \<noteq> 1 then Inl (Panicked ''Unable to read file'')
          else obind (CloseFile io) (\<lambda>_. Inr (the file))))"

text \<open>
  \<^verbatim>\<open>Write\<close> gives the outcome and the file. Opening with mode \<^verbatim>\<open>wb\<close> empties the file; \<open>fc_written\<close> is the number of
  characters that \<^verbatim>\<open>fwrite\<close> wrote.
\<close>

definition PR_Write :: "file_calls \<Rightarrow> string \<Rightarrow> string option \<Rightarrow> unit outcome \<times> string option" where
  "PR_Write io s file =
     (case OpenFile io of
        Inl e \<Rightarrow> (Inl e, file)
      | Inr _ \<Rightarrow>
          (let num_written = min (fc_written io) (length s); file1 = Some (take num_written s) in
           if num_written \<noteq> length s then (Inl (Panicked ''Unable to write to file''), file1)
           else if \<not> fc_fileno io then (Inl (Panicked ''fileno''), file1)
           else if \<not> fc_fsync io then (Inl (Panicked ''fsync''), file1)
           else (CloseFile io, file1)))"

text \<open>What a process that stops within \<^verbatim>\<open>Write\<close> leaves behind: the old file, or some of the new characters.\<close>

inductive crash_file :: "string \<Rightarrow> string option \<Rightarrow> string option \<Rightarrow> bool" for s prev where
  before_open: "crash_file s prev prev"
| after_open: "crash_file s prev (Some (take n s))"

inductive_simps crash_file_iff: "crash_file s prev f"

definition all_good :: "nat \<Rightarrow> file_calls" where
  "all_good n = \<lparr>fc_good = True, fc_open = True, fc_seek_end = True, fc_tell = True, fc_seek_set = True, fc_read = True,
     fc_written = n, fc_fileno = True, fc_fsync = True, fc_close = True\<rparr>"

lemmas register_defs = PR_Read_def PR_Write_def Initialized_def OpenFile_def CloseFile_def fread_one_def

text \<open>A \<^verbatim>\<open>Write\<close> that returns has stored its string whole, and a \<^verbatim>\<open>Read\<close> that returns gives the content of the file.\<close>

lemma PR_Write_stores: "PR_Write io s file = (Inr (), file') \<Longrightarrow> file' = Some s"
  by (auto simp: register_defs Let_def split: if_splits sum.splits)

lemma PR_Read_content: "PR_Read io file = Inr s \<Longrightarrow> fc_good io \<Longrightarrow> s = (case file of None \<Rightarrow> '''' | Some c \<Rightarrow> c)"
  by (auto simp: register_defs split: if_splits option.splits)

text \<open>
  Round trip of the register: when \<^verbatim>\<open>Write\<close> returns and the calls of a later \<^verbatim>\<open>Read\<close> succeed, \<^verbatim>\<open>Read\<close> gives the string back, unless
  the string is empty: then it panics.
\<close>

theorem register_roundtrip:
  assumes "PR_Write io s file = (Inr (), file')"
  shows "PR_Read (all_good n) file' = (if s = '''' then Inl (Panicked ''Unable to read file'') else Inr s)"
  using PR_Write_stores [OF assms] by (simp add: register_defs all_good_def)

text \<open>
  A process that stops within \<^verbatim>\<open>Write\<close> leaves a register that reads as before, that reads as a part of the new string, or
  whose \<^verbatim>\<open>Read\<close> panics although all calls succeed; the last does occur, whatever the register held.
\<close>

theorem register_crash:
  "crash_file s (Some old) f \<Longrightarrow>
     f = Some old \<or> PR_Read (all_good n) f = Inl (Panicked ''Unable to read file'') \<or>
     (\<exists>k. PR_Read (all_good n) f = Inr (take k s))"
  "\<exists>f. crash_file s (Some old) f \<and> PR_Read (all_good n) f = Inl (Panicked ''Unable to read file'')"
proof -
  show "f = Some old \<or> PR_Read (all_good n) f = Inl (Panicked ''Unable to read file'') \<or>
     (\<exists>k. PR_Read (all_good n) f = Inr (take k s))" if "crash_file s (Some old) f"
    using that by (auto simp: crash_file_iff register_defs all_good_def)
  have "crash_file s (Some old) (Some (take 0 s))" by (rule after_open)
  moreover have "PR_Read (all_good n) (Some (take 0 s)) = Inl (Panicked ''Unable to read file'')"
    by (simp add: register_defs all_good_def)
  ultimately show "\<exists>f. crash_file s (Some old) f \<and> PR_Read (all_good n) f = Inl (Panicked ''Unable to read file'')" by blast
qed

end
