(* ===== verification/Latency_Stats.thy ===== *)
theory Latency_Stats
  imports Tapir_Prelude
begin

text \<open>
  The latency statistics, \<^verbatim>\<open>lib/latency.cc\<close>: measured times go into distributions with minimum, maximum, total, count and a
  histogram; there is one distribution per type of sample, taken from a pool of five. Frames belong to the callers; here
  they are a store, with \<open>0\<close> for the default frame. Printing and writing the statistics to a file are not modelled.
\<close>

unbundle bit_operations_syntax

section \<open>State\<close>

type_synonym timespec = "int \<times> int"

record Latency_Frame_t =
  fr_start :: timespec
  fr_accum :: u64
  fr_parent :: "nat option"

record Latency_Dist_t =
  ld_min :: u64
  ld_max :: u64
  ld_total :: u64
  ld_count :: u64
  ld_buckets :: "32 word list"
  ld_type :: int

record Latency_t =
  lt_name :: string
  lt_dists :: "nat option list"
  lt_distPool :: "Latency_Dist_t list"
  lt_distPoolNext :: nat
  lt_bottom :: "nat option"
  lt_frames :: "nat \<Rightarrow> Latency_Frame_t"

abbreviation LATENCY_MAX_DIST :: nat where "LATENCY_MAX_DIST \<equiv> 127"
abbreviation LATENCY_DIST_POOL_SIZE :: nat where "LATENCY_DIST_POOL_SIZE \<equiv> 5"
abbreviation LATENCY_NUM_BUCKETS :: nat where "LATENCY_NUM_BUCKETS \<equiv> 65"

definition fresh_dist :: Latency_Dist_t where
  "fresh_dist = \<lparr>ld_min = NOT 0, ld_max = 0, ld_total = 0, ld_count = 0, ld_buckets = replicate LATENCY_NUM_BUCKETS 0, ld_type = 0\<rparr>"

definition fresh_frame :: Latency_Frame_t where
  "fresh_frame = \<lparr>fr_start = (0, 0), fr_accum = 0, fr_parent = None\<rparr>"

definition LatencyInit :: "string \<Rightarrow> Latency_t" where
  "LatencyInit name = \<lparr>lt_name = name, lt_dists = replicate LATENCY_MAX_DIST None,
     lt_distPool = replicate LATENCY_DIST_POOL_SIZE fresh_dist, lt_distPoolNext = 0, lt_bottom = None,
     lt_frames = (\<lambda>_. fresh_frame)\<rparr>"

section \<open>Samples\<close>

text \<open>\<open>dists\<close> is indexed with a \<^verbatim>\<open>char\<close>; an index beyond its 127 entries, or a negative one, is undefined behaviour.\<close>

definition dist_index :: "int \<Rightarrow> nat outcome" where
  "dist_index type = (if 0 \<le> type \<and> type < int LATENCY_MAX_DIST then Inr (nat type) else Inl (Undefined ''index''))"

definition upd_dist :: "nat \<Rightarrow> (Latency_Dist_t \<Rightarrow> Latency_Dist_t) \<Rightarrow> Latency_t \<Rightarrow> Latency_t" where
  "upd_dist i f l = l\<lparr>lt_distPool := (lt_distPool l)[i := f (lt_distPool l ! i)]\<rparr>"

definition new_dist :: "nat \<Rightarrow> Latency_t \<Rightarrow> Latency_t outcome" where
  "new_dist t l =
     (if lt_dists l ! t \<noteq> None then Inr l
      else if lt_distPoolNext l = LATENCY_DIST_POOL_SIZE then Inl (Panicked ''Too many distributions'')
      else Inr (upd_dist (lt_distPoolNext l) (\<lambda>d. d\<lparr>ld_type := int t\<rparr>)
                  (l\<lparr>lt_dists := (lt_dists l)[t := Some (lt_distPoolNext l)], lt_distPoolNext := lt_distPoolNext l + 1\<rparr>)))"

lemma unat_drop_bit_1: "unat (drop_bit 1 v) = unat (v :: u64) div 2"
  by (metis drop_bit_eq_div power_one_right unat_drop_bit_eq)

function count_shifts :: "u64 \<Rightarrow> nat" where
  "count_shifts v = (if v = 0 then 0 else Suc (count_shifts (drop_bit 1 v)))"
  by auto

termination
proof (relation "measure unat")
  fix v :: u64
  assume "v \<noteq> 0"
  then have "0 < unat v" by (simp add: unat_gt_0)
  then show "(drop_bit 1 v, v) \<in> measure unat" by (simp add: unat_drop_bit_1 del: One_nat_def)
qed simp

declare count_shifts.simps [simp del]

definition hist_bucket :: "u64 \<Rightarrow> nat" where
  "hist_bucket v = count_shifts (drop_bit 1 v)"

definition bump :: "nat \<Rightarrow> 32 word \<Rightarrow> Latency_Dist_t \<Rightarrow> Latency_Dist_t" where
  "bump b n d = d\<lparr>ld_buckets := (ld_buckets d)[b := ld_buckets d ! b + n]\<rparr>"

definition LatencyAddHist :: "Latency_t \<Rightarrow> int \<Rightarrow> u64 \<Rightarrow> 32 word \<Rightarrow> (Latency_t \<times> nat) outcome" where
  "LatencyAddHist l type val n =
     obind (dist_index type) (\<lambda>t.
     obind (new_dist t l) (\<lambda>l1.
       let i = the (lt_dists l1 ! t); bucket = hist_bucket val in
       obind (assert_that (bucket < LATENCY_NUM_BUCKETS) ''bucket < LATENCY_NUM_BUCKETS'') (\<lambda>_.
       Inr (upd_dist i (bump bucket n) l1, i))))"

definition add_value :: "u64 \<Rightarrow> Latency_Dist_t \<Rightarrow> Latency_Dist_t" where
  "add_value val d = d\<lparr>ld_min := if val < ld_min d then val else ld_min d, ld_max := if val > ld_max d then val else ld_max d,
     ld_total := ld_total d + val, ld_count := ld_count d + 1\<rparr>"

definition LatencyAdd :: "Latency_t \<Rightarrow> int \<Rightarrow> u64 \<Rightarrow> Latency_t outcome" where
  "LatencyAdd l type val =
     obind (LatencyAddHist l type val 1) (\<lambda>(l1, i). Inr (upd_dist i (add_value val) l1))"

section \<open>Frames\<close>

text \<open>\<open>now\<close> is the reading of the monotonic clock.\<close>

definition Latency_Resume :: "timespec \<Rightarrow> Latency_t \<Rightarrow> Latency_t outcome" where
  "Latency_Resume now l =
     (case lt_bottom l of
        None \<Rightarrow> Inl (Undefined ''no frame'')
      | Some fr \<Rightarrow> Inr (l\<lparr>lt_frames := (lt_frames l)(fr := (lt_frames l fr)\<lparr>fr_start := now\<rparr>)\<rparr>))"

definition elapsed :: "timespec \<Rightarrow> timespec \<Rightarrow> u64" where
  "elapsed start end1 =
     (let delta = word_of_int (fst end1 - fst start) * 1000000000 in
      if snd end1 < snd start then delta - 1000000000 + word_of_int (snd end1 + 1000000000 - snd start)
      else delta + word_of_int (snd end1 - snd start))"

definition Latency_Pause :: "timespec \<Rightarrow> Latency_t \<Rightarrow> Latency_t outcome" where
  "Latency_Pause now l =
     (case lt_bottom l of
        None \<Rightarrow> Inl (Undefined ''no frame'')
      | Some fr \<Rightarrow>
          Inr (l\<lparr>lt_frames := (lt_frames l)(fr := (lt_frames l fr)\<lparr>fr_accum := fr_accum (lt_frames l fr) +
            elapsed (fr_start (lt_frames l fr)) now\<rparr>)\<rparr>))"

definition Latency_StartRec :: "timespec \<Rightarrow> nat \<Rightarrow> Latency_t \<Rightarrow> Latency_t outcome" where
  "Latency_StartRec now fr l =
     Latency_Resume now (l\<lparr>lt_frames := (lt_frames l)(fr := (lt_frames l fr)\<lparr>fr_accum := 0, fr_parent := lt_bottom l\<rparr>),
       lt_bottom := Some fr\<rparr>)"

definition Latency_EndRecType :: "timespec \<Rightarrow> nat \<Rightarrow> int \<Rightarrow> Latency_t \<Rightarrow> Latency_t outcome" where
  "Latency_EndRecType now fr type l =
     obind (Latency_Pause now l) (\<lambda>l1.
     obind (assert_that (lt_bottom l1 = Some fr) ''l->bottom == fr'') (\<lambda>_.
     LatencyAdd (l1\<lparr>lt_bottom := fr_parent (lt_frames l1 fr)\<rparr>) type (fr_accum (lt_frames l1 fr))))"

section \<open>Sums, writing and reading\<close>

text \<open>The histogram of a distribution is added bucket by bucket, as samples of the size of the bucket.\<close>

fun sum_buckets :: "int \<Rightarrow> 32 word list \<Rightarrow> nat \<Rightarrow> Latency_t \<Rightarrow> Latency_t outcome" where
  "sum_buckets type [] b dest = Inr dest"
| "sum_buckets type (n # ns) b dest =
     (if n = 0 then sum_buckets type ns (b + 1) dest
      else if b \<ge> 64 then Inl (Undefined ''shift'')
      else obind (LatencyAddHist dest type (push_bit b 1) n) (\<lambda>(dest1, i). sum_buckets type ns (b + 1) dest1))"

fun sum_hists :: "Latency_Dist_t list \<Rightarrow> Latency_t \<Rightarrow> Latency_t outcome" where
  "sum_hists [] dest = Inr dest"
| "sum_hists (d # ds) dest = obind (sum_buckets (ld_type d) (ld_buckets d) 0 dest) (sum_hists ds)"

definition sum_dist :: "Latency_Dist_t \<Rightarrow> Latency_Dist_t \<Rightarrow> Latency_Dist_t" where
  "sum_dist ds dd = dd\<lparr>ld_min := if ld_min ds < ld_min dd then ld_min ds else ld_min dd,
     ld_max := if ld_max ds > ld_max dd then ld_max ds else ld_max dd,
     ld_total := ld_total dd + ld_total ds, ld_count := ld_count dd + ld_count ds\<rparr>"

fun sum_dists :: "nat list \<Rightarrow> Latency_t \<Rightarrow> Latency_t \<Rightarrow> Latency_t outcome" where
  "sum_dists [] summand dest = Inr dest"
| "sum_dists (t # ts) summand dest =
     (case lt_dists summand ! t of
        None \<Rightarrow> sum_dists ts summand dest
      | Some s \<Rightarrow>
          (case lt_dists dest ! t of
             None \<Rightarrow> Inl (Undefined ''null distribution'')
           | Some i \<Rightarrow> sum_dists ts summand (upd_dist i (sum_dist (lt_distPool summand ! s)) dest)))"

definition Latency_Sum :: "Latency_t \<Rightarrow> Latency_t \<Rightarrow> Latency_t outcome" where
  "Latency_Sum dest summand =
     obind (sum_hists (take (lt_distPoolNext summand) (lt_distPool summand)) dest)
       (sum_dists [0..<LATENCY_MAX_DIST] summand)"

text \<open>The protobuf message \<^verbatim>\<open>Latency\<close> holds the name and the used distributions; a type is a 32-bit number there.\<close>

record LatencyDist =
  pd_type :: "32 word"
  pd_min :: u64
  pd_max :: u64
  pd_total :: u64
  pd_count :: u64
  pd_buckets :: "32 word list"

definition put_dist :: "Latency_Dist_t \<Rightarrow> LatencyDist" where
  "put_dist d = \<lparr>pd_type = word_of_int (ld_type d), pd_min = ld_min d, pd_max = ld_max d, pd_total = ld_total d,
     pd_count = ld_count d, pd_buckets = ld_buckets d\<rparr>"

definition Latency_Put :: "Latency_t \<Rightarrow> string \<times> LatencyDist list" where
  "Latency_Put l = (lt_name l, map put_dist (take (lt_distPoolNext l) (lt_distPool l)))"

text \<open>Reading converts a type to \<^verbatim>\<open>char\<close>, which is its low byte as a signed number.\<close>

definition get_dist :: "LatencyDist \<Rightarrow> Latency_Dist_t outcome" where
  "get_dist pd =
     (if length (pd_buckets pd) < LATENCY_NUM_BUCKETS then Inl (Undefined ''buckets'')
      else Inr \<lparr>ld_min = pd_min pd, ld_max = pd_max pd, ld_total = pd_total pd, ld_count = pd_count pd,
             ld_buckets = take LATENCY_NUM_BUCKETS (pd_buckets pd), ld_type = sint (ucast (pd_type pd) :: 8 word)\<rparr>)"

fun get_dists :: "LatencyDist list \<Rightarrow> nat \<Rightarrow> Latency_t \<Rightarrow> Latency_t outcome" where
  "get_dists [] i l = Inr l"
| "get_dists (pd # pds) i l =
     (if i \<ge> LATENCY_DIST_POOL_SIZE then Inl (Undefined ''pool'')
      else
        obind (get_dist pd) (\<lambda>d.
        obind (dist_index (ld_type d)) (\<lambda>t.
        get_dists pds (i + 1) (l\<lparr>lt_distPool := (lt_distPool l)[i := d], lt_dists := (lt_dists l)[t := Some i]\<rparr>))))"

definition Latency_TryGet :: "string \<times> LatencyDist list \<Rightarrow> Latency_t outcome" where
  "Latency_TryGet msg =
     (case msg of (name, pds) \<Rightarrow> get_dists pds 0 ((LatencyInit name)\<lparr>lt_distPoolNext := length pds\<rparr>))"

section \<open>Buckets\<close>

lemma count_shifts_le: "unat v < 2 ^ n \<Longrightarrow> count_shifts v \<le> n"
proof (induction n arbitrary: v)
  case 0
  then have "v = 0" by (simp add: unat_eq_zero)
  then show ?case by (simp add: count_shifts.simps)
next
  case (Suc n)
  then have "unat (drop_bit 1 v) < 2 ^ n" by (simp add: unat_drop_bit_1 del: One_nat_def)
  from Suc.IH [OF this] show ?case by (simp add: count_shifts.simps [of v])
qed

lemma count_shifts_power: "unat v = 2 ^ b \<Longrightarrow> count_shifts v = Suc b"
proof (induction b arbitrary: v)
  case 0
  have "unat (drop_bit 1 v) = 0" using 0 by (simp add: unat_drop_bit_1 del: One_nat_def)
  then have "drop_bit 1 v = 0" by (simp only: unat_eq_zero)
  moreover have "v \<noteq> 0" using 0 by auto
  ultimately show ?case by (simp add: count_shifts.simps [of v] count_shifts.simps [of 0] del: One_nat_def)
next
  case (Suc b)
  then have "unat (drop_bit 1 v) = 2 ^ b" by (simp add: unat_drop_bit_1 del: One_nat_def)
  from Suc.IH [OF this] Suc.prems show ?case by (auto simp: count_shifts.simps [of v] simp del: One_nat_def)
qed

lemma hist_bucket_less: "hist_bucket v < 64"
proof -
  have "unat v < 2 ^ 64" using unsigned_less [of v, where 'a = nat] by simp
  then have "unat (drop_bit 1 v) < 2 ^ 63" by (simp add: unat_drop_bit_1 del: One_nat_def)
  from count_shifts_le [OF this] show ?thesis by (simp add: hist_bucket_def)
qed

lemma hist_bucket_power:
  assumes "b < 64"
  shows "hist_bucket (push_bit b 1) = b"
proof -
  have "unat (push_bit b 1 :: u64) = 2 ^ b"
    using assms by (subst unsigned_push_bit_eq) (simp add: push_bit_eq_mult take_bit_nat_eq_self)
  then have u: "unat (drop_bit 1 (push_bit b 1 :: u64)) = 2 ^ b div 2" by (simp only: unat_drop_bit_1)
  show ?thesis
  proof (cases b)
    case 0
    with u have "drop_bit 1 (push_bit b 1 :: u64) = 0" by (simp add: unat_eq_zero del: One_nat_def)
    with 0 show ?thesis by (simp add: hist_bucket_def count_shifts.simps [of 0] del: One_nat_def)
  next
    case (Suc c)
    with u have "unat (drop_bit 1 (push_bit b 1 :: u64)) = 2 ^ c" by simp
    from count_shifts_power [OF this] Suc show ?thesis by (simp add: hist_bucket_def)
  qed
qed

section \<open>The table of distributions\<close>

text \<open>\<open>dist_at l t\<close> is the distribution of type \<open>t\<close>; \<open>lat_wf\<close> relates the table to the pool.\<close>

definition dist_at :: "Latency_t \<Rightarrow> nat \<Rightarrow> Latency_Dist_t option" where
  "dist_at l t = (if t < LATENCY_MAX_DIST then map_option (nth (lt_distPool l)) (lt_dists l ! t) else None)"

definition lat_wf :: "Latency_t \<Rightarrow> bool" where
  "lat_wf l \<longleftrightarrow> length (lt_dists l) = LATENCY_MAX_DIST \<and> length (lt_distPool l) = LATENCY_DIST_POOL_SIZE \<and>
     lt_distPoolNext l \<le> LATENCY_DIST_POOL_SIZE \<and>
     (\<forall>t < LATENCY_MAX_DIST. \<forall>i. lt_dists l ! t = Some i \<longrightarrow> i < lt_distPoolNext l \<and> ld_type (lt_distPool l ! i) = int t) \<and>
     (\<forall>i < lt_distPoolNext l. \<exists>t < LATENCY_MAX_DIST. lt_dists l ! t = Some i) \<and>
     (\<forall>i < LATENCY_DIST_POOL_SIZE. lt_distPoolNext l \<le> i \<longrightarrow> lt_distPool l ! i = fresh_dist) \<and>
     (\<forall>i < LATENCY_DIST_POOL_SIZE. length (ld_buckets (lt_distPool l ! i)) = LATENCY_NUM_BUCKETS)"

lemma lat_wfD:
  assumes "lat_wf l"
  shows "length (lt_dists l) = LATENCY_MAX_DIST" "length (lt_distPool l) = LATENCY_DIST_POOL_SIZE"
    "lt_distPoolNext l \<le> LATENCY_DIST_POOL_SIZE"
    "t < LATENCY_MAX_DIST \<Longrightarrow> lt_dists l ! t = Some i \<Longrightarrow> i < lt_distPoolNext l \<and> ld_type (lt_distPool l ! i) = int t"
    "i < lt_distPoolNext l \<Longrightarrow> \<exists>t < LATENCY_MAX_DIST. lt_dists l ! t = Some i"
    "i < LATENCY_DIST_POOL_SIZE \<Longrightarrow> lt_distPoolNext l \<le> i \<Longrightarrow> lt_distPool l ! i = fresh_dist"
    "i < LATENCY_DIST_POOL_SIZE \<Longrightarrow> length (ld_buckets (lt_distPool l ! i)) = LATENCY_NUM_BUCKETS"
  using assms unfolding lat_wf_def by blast+

lemma lat_wf_init: "lat_wf (LatencyInit name)" "dist_at (LatencyInit name) = (\<lambda>_. None)"
  by (simp add: lat_wf_def LatencyInit_def fresh_dist_def) (simp add: dist_at_def LatencyInit_def fun_eq_iff)

lemma dists_inj:
  assumes "lat_wf l" "t < LATENCY_MAX_DIST" "t' < LATENCY_MAX_DIST" "lt_dists l ! t = Some i" "lt_dists l ! t' = Some i"
  shows "t = t'"
  using lat_wfD(4) [OF assms(1,2,4)] lat_wfD(4) [OF assms(1,3,5)] by simp

lemma upd_dist_spec:
  assumes l: "lat_wf l" and t: "t < LATENCY_MAX_DIST" "lt_dists l ! t = Some i"
    and f: "\<And>d. ld_type (f d) = ld_type d" "\<And>d. length (ld_buckets (f d)) = length (ld_buckets d)"
  shows "lat_wf (upd_dist i f l)" "dist_at (upd_dist i f l) = (dist_at l)(t := map_option f (dist_at l t))"
    "lt_dists (upd_dist i f l) = lt_dists l" "lt_distPoolNext (upd_dist i f l) = lt_distPoolNext l"
proof -
  note w = lat_wfD [OF l]
  have i: "i < lt_distPoolNext l" "i < LATENCY_DIST_POOL_SIZE" using w(3) w(4) [OF t] by simp_all
  show d: "lt_dists (upd_dist i f l) = lt_dists l" "lt_distPoolNext (upd_dist i f l) = lt_distPoolNext l"
    by (simp_all add: upd_dist_def)
  have p: "lt_distPool (upd_dist i f l) = (lt_distPool l)[i := f (lt_distPool l ! i)]" by (simp add: upd_dist_def)
  show "lat_wf (upd_dist i f l)"
    unfolding lat_wf_def d p using w i f by (auto simp: nth_list_update)
  show "dist_at (upd_dist i f l) = (dist_at l)(t := map_option f (dist_at l t))"
  proof
    fix t'
    show "dist_at (upd_dist i f l) t' = ((dist_at l)(t := map_option f (dist_at l t))) t'"
    proof (cases "t' < LATENCY_MAX_DIST \<and> lt_dists l ! t' = Some i")
      case True
      with dists_inj [OF l t(1) _ t(2)] have "t' = t" by blast
      with t i w(2) show ?thesis by (simp add: dist_at_def d p)
    next
      case False
      with t show ?thesis by (cases "lt_dists l ! t'") (auto simp: dist_at_def d p nth_list_update)
    qed
  qed
qed

lemma new_dist_spec:
  assumes l: "lat_wf l" and t: "t < LATENCY_MAX_DIST" and l': "new_dist t l = Inr l'"
  shows "lat_wf l'" "dist_at l' = (dist_at l)(t := Some (case dist_at l t of Some d \<Rightarrow> d | None \<Rightarrow> fresh_dist\<lparr>ld_type := int t\<rparr>))"
proof -
  note w = lat_wfD [OF l]
  have "lat_wf l' \<and> dist_at l' = (dist_at l)(t := Some (case dist_at l t of Some d \<Rightarrow> d | None \<Rightarrow> fresh_dist\<lparr>ld_type := int t\<rparr>))"
  proof (cases "lt_dists l ! t")
    case (Some i)
    with l' have "l' = l" by (simp add: new_dist_def)
    with Some l t show ?thesis by (auto simp: dist_at_def fun_eq_iff)
  next
    case None
    let ?n = "lt_distPoolNext l"
    from None l' have n: "?n < LATENCY_DIST_POOL_SIZE" using w(3) by (auto simp: new_dist_def split: if_splits)
    from None l' have e: "lt_dists l' = (lt_dists l)[t := Some ?n]" "lt_distPoolNext l' = ?n + 1"
      "lt_distPool l' = (lt_distPool l)[?n := fresh_dist\<lparr>ld_type := int t\<rparr>]"
      using w(6) [OF n] by (auto simp: new_dist_def upd_dist_def split: if_splits)
    have lt: "i < ?n" if "t' < LATENCY_MAX_DIST" "lt_dists l ! t' = Some i" for t' i using w(4) [OF that] by simp
    have "lat_wf l'" unfolding lat_wf_def e
    proof (intro conjI allI impI)
      fix i assume i: "i < ?n + 1"
      show "\<exists>t' < LATENCY_MAX_DIST. (lt_dists l)[t := Some ?n] ! t' = Some i"
      proof (cases "i = ?n")
        case True
        with t w(1) show ?thesis by (intro exI [of _ t]) simp
      next
        case False
        with i w(5) [of i] None show ?thesis by (metis less_Suc_eq Suc_eq_plus1 nth_list_update_neq option.distinct(1))
      qed
    next
      fix t' i assume a: "t' < LATENCY_MAX_DIST" "(lt_dists l)[t := Some ?n] ! t' = Some i"
      show "i < ?n + 1" using a w(1) w(4) [of t' i] by (cases "t' = t") auto
      show "ld_type ((lt_distPool l)[?n := fresh_dist\<lparr>ld_type := int t\<rparr>] ! i) = int t'"
        using a w(1,2) w(4) [of t' i] n by (cases "t' = t") auto
    next
      fix i assume "i < LATENCY_DIST_POOL_SIZE"
      then show "length (ld_buckets ((lt_distPool l)[?n := fresh_dist\<lparr>ld_type := int t\<rparr>] ! i)) = LATENCY_NUM_BUCKETS"
        using w(2) w(7) [of i] by (cases "i = ?n") (simp_all add: fresh_dist_def)
    qed (use w n in auto)
    moreover have "dist_at l' t' = ((dist_at l)(t := Some (fresh_dist\<lparr>ld_type := int t\<rparr>))) t'" for t'
      using t n w(1,2) lt [of t'] unfolding dist_at_def e by (cases "lt_dists l ! t'"; cases "t' = t") auto
    ultimately show ?thesis using None t by (auto simp: dist_at_def fun_eq_iff)
  qed
  then show "lat_wf l'" "dist_at l' = (dist_at l)(t := Some (case dist_at l t of Some d \<Rightarrow> d | None \<Rightarrow> fresh_dist\<lparr>ld_type := int t\<rparr>))"
    by simp_all
qed

lemma next_eq_card:
  assumes l: "lat_wf l"
  shows "lt_distPoolNext l = card (dom (dist_at l))" "finite (dom (dist_at l))"
proof -
  note w = lat_wfD [OF l]
  have "bij_betw (\<lambda>t. the (lt_dists l ! t)) (dom (dist_at l)) {..<lt_distPoolNext l}"
  proof (intro bij_betw_imageI)
    show "inj_on (\<lambda>t. the (lt_dists l ! t)) (dom (dist_at l))"
      using dists_inj [OF l] by (auto simp: inj_on_def dist_at_def dom_def split: if_splits)
    show "(\<lambda>t. the (lt_dists l ! t)) ` dom (dist_at l) = {..<lt_distPoolNext l}"
    proof (intro equalityI subsetI)
      fix i assume "i \<in> (\<lambda>t. the (lt_dists l ! t)) ` dom (dist_at l)"
      then show "i \<in> {..<lt_distPoolNext l}" using w(4) by (auto simp: dist_at_def split: if_splits)
    next
      fix i assume "i \<in> {..<lt_distPoolNext l}"
      with w(5) obtain t where "t < LATENCY_MAX_DIST" "lt_dists l ! t = Some i" by auto
      then show "i \<in> (\<lambda>t. the (lt_dists l ! t)) ` dom (dist_at l)"
        by (intro image_eqI [of _ _ t]) (auto simp: dist_at_def)
    qed
  qed
  from bij_betw_same_card [OF this] show "lt_distPoolNext l = card (dom (dist_at l))" by simp
  show "finite (dom (dist_at l))"
    by (rule finite_subset [of _ "{..<LATENCY_MAX_DIST}"]) (auto simp: dist_at_def split: if_splits)
qed

definition dist_or :: "(nat \<Rightarrow> Latency_Dist_t option) \<Rightarrow> nat \<Rightarrow> Latency_Dist_t" where
  "dist_or m t = (case m t of Some d \<Rightarrow> d | None \<Rightarrow> fresh_dist\<lparr>ld_type := int t\<rparr>)"

lemma new_dist_total:
  assumes l: "lat_wf l" and t: "t < LATENCY_MAX_DIST"
  shows "if card (insert t (dom (dist_at l))) \<le> LATENCY_DIST_POOL_SIZE then \<exists>l'. new_dist t l = Inr l'
    else new_dist t l = Inl (Panicked ''Too many distributions'')"
proof (cases "lt_dists l ! t")
  case None
  then have "t \<notin> dom (dist_at l)" by (simp add: dist_at_def domIff)
  with next_eq_card [OF l] have "card (insert t (dom (dist_at l))) = lt_distPoolNext l + 1" by simp
  with None lat_wfD(3) [OF l] show ?thesis by (auto simp: new_dist_def)
next
  case (Some i)
  then have "insert t (dom (dist_at l)) = dom (dist_at l)" using t by (auto simp: dist_at_def)
  with Some next_eq_card(1) [OF l] lat_wfD(3) [OF l] show ?thesis by (simp add: new_dist_def)
qed

lemma LatencyAddHist_spec:
  assumes l: "lat_wf l" and t: "t < LATENCY_MAX_DIST" and c: "card (insert t (dom (dist_at l))) \<le> LATENCY_DIST_POOL_SIZE"
  shows "\<exists>l' i. LatencyAddHist l (int t) v n = Inr (l', i) \<and> lat_wf l' \<and> lt_dists l' ! t = Some i \<and>
    dist_at l' = (dist_at l)(t := Some (bump (hist_bucket v) n (dist_or (dist_at l) t)))"
proof -
  from new_dist_total [OF l t] c obtain l1 where l1: "new_dist t l = Inr l1" by auto
  note s = new_dist_spec [OF l t l1, folded dist_or_def]
  have "dist_at l1 t \<noteq> None" using s(2) by simp
  with t obtain i where i: "lt_dists l1 ! t = Some i" by (auto simp: dist_at_def)
  have u: "lat_wf (upd_dist i (bump b n) l1)" "dist_at (upd_dist i (bump b n) l1) = (dist_at l1)(t := map_option (bump b n) (dist_at l1 t))"
    "lt_dists (upd_dist i (bump b n) l1) = lt_dists l1" for b
    using upd_dist_spec [OF s(1) t i, of "bump b n"] by (simp_all add: bump_def)
  have "hist_bucket v < LATENCY_NUM_BUCKETS" using hist_bucket_less [of v] by simp
  then have "LatencyAddHist l (int t) v n = Inr (upd_dist i (bump (hist_bucket v) n) l1, i)"
    using t l1 i by (simp add: LatencyAddHist_def dist_index_def assert_that_def Let_def)
  with u [of "hist_bucket v"] i s show ?thesis by (simp add: fun_upd_def fun_eq_iff)
qed

lemma LatencyAddHist_full:
  assumes "lat_wf l" "t < LATENCY_MAX_DIST" "card (insert t (dom (dist_at l))) > LATENCY_DIST_POOL_SIZE"
  shows "LatencyAddHist l (int t) v n = Inl (Panicked ''Too many distributions'')"
  using new_dist_total [OF assms(1,2)] assms(2,3) by (simp add: LatencyAddHist_def dist_index_def)

section \<open>What the distributions say\<close>

text \<open>\<open>dist_of t vs\<close> is the distribution of the samples \<open>vs\<close>; \<open>lat_holds l S\<close>: the statistics are those of the samples \<open>S\<close>.\<close>

definition dist_of :: "nat \<Rightarrow> u64 list \<Rightarrow> Latency_Dist_t" where
  "dist_of t vs = \<lparr>ld_min = fold min vs (NOT 0), ld_max = fold max vs 0, ld_total = sum_list vs, ld_count = of_nat (length vs),
     ld_buckets = map (\<lambda>b. of_nat (length (filter (\<lambda>v. hist_bucket v = b) vs))) [0..<LATENCY_NUM_BUCKETS], ld_type = int t\<rparr>"

definition vals :: "nat \<Rightarrow> (nat \<times> u64) list \<Rightarrow> u64 list" where
  "vals t S = map snd (filter (\<lambda>p. fst p = t) S)"

definition lat_holds :: "Latency_t \<Rightarrow> (nat \<times> u64) list \<Rightarrow> bool" where
  "lat_holds l S \<longleftrightarrow> lat_wf l \<and> fst ` set S \<subseteq> {..<LATENCY_MAX_DIST} \<and>
     dist_at l = (\<lambda>t. if t \<in> fst ` set S then Some (dist_of t (vals t S)) else None)"

lemma vals_Nil: "vals t S = [] \<longleftrightarrow> t \<notin> fst ` set S"
  by (auto simp: vals_def filter_empty_conv)

lemma vals_append [simp]: "vals t (S @ S') = vals t S @ vals t S'"
  by (simp add: vals_def)

lemma dist_of_Nil: "dist_of t [] = fresh_dist\<lparr>ld_type := int t\<rparr>"
  by (simp add: dist_of_def fresh_dist_def map_replicate_const)

lemma dist_or_holds: "lat_holds l S \<Longrightarrow> dist_or (dist_at l) t = dist_of t (vals t S)"
  using vals_Nil [of t S] by (auto simp: lat_holds_def dist_or_def dist_of_Nil)

lemma dom_holds: "lat_holds l S \<Longrightarrow> dom (dist_at l) = fst ` set S"
  by (auto simp: lat_holds_def dom_def)

lemma if_min_max:
  fixes v m :: u64
  shows "(if v < m then v else m) = min v m" "(if m < v then v else m) = max v m"
  by (auto simp: min_def max_def)

lemma dist_of_snoc: "add_value v (bump (hist_bucket v) 1 (dist_of t vs)) = dist_of t (vs @ [v])"
proof -
  have "(map (\<lambda>b. of_nat (length (filter (\<lambda>v. hist_bucket v = b) vs))) [0..<LATENCY_NUM_BUCKETS])
      [hist_bucket v := of_nat (length (filter (\<lambda>w. hist_bucket w = hist_bucket v) vs)) + 1] =
    map (\<lambda>b. of_nat (length (filter (\<lambda>w. hist_bucket w = b) (vs @ [v]))) :: 32 word) [0..<LATENCY_NUM_BUCKETS]"
    by (rule nth_equalityI) (auto simp: nth_list_update simp del: upt_Suc)
  then show ?thesis using hist_bucket_less [of v]
    by (simp add: dist_of_def add_value_def bump_def if_min_max del: upt_Suc)
qed

text \<open>
  A sample is added to the distribution of its type; a sixth type of samples panics. The bound on the bucket is never exceeded.
\<close>

theorem LatencyAdd_correct:
  assumes h: "lat_holds l S" and t: "t < LATENCY_MAX_DIST"
  shows "if card (insert t (fst ` set S)) \<le> LATENCY_DIST_POOL_SIZE
    then \<exists>l'. LatencyAdd l (int t) v = Inr l' \<and> lat_holds l' (S @ [(t, v)])
    else LatencyAdd l (int t) v = Inl (Panicked ''Too many distributions'')"
proof (cases "card (insert t (fst ` set S)) \<le> LATENCY_DIST_POOL_SIZE")
  case True
  have l: "lat_wf l" using h by (simp add: lat_holds_def)
  from LatencyAddHist_spec [OF l t] True dom_holds [OF h] dist_or_holds [OF h]
  obtain l1 i where l1: "LatencyAddHist l (int t) v 1 = Inr (l1, i)" "lat_wf l1" "lt_dists l1 ! t = Some i"
    "dist_at l1 = (dist_at l)(t := Some (bump (hist_bucket v) 1 (dist_of t (vals t S))))" by metis
  have "lat_wf (upd_dist i (add_value v) l1)"
    "dist_at (upd_dist i (add_value v) l1) = (dist_at l1)(t := map_option (add_value v) (dist_at l1 t))"
    using upd_dist_spec [OF l1(2) t l1(3), of "add_value v"] by (simp_all add: add_value_def)
  then have "lat_holds (upd_dist i (add_value v) l1) (S @ [(t, v)])"
    using h t l1(4) by (auto simp: lat_holds_def dist_of_snoc vals_def)
  with l1(1) True show ?thesis by (simp add: LatencyAdd_def)
next
  case False
  with h t have "LatencyAddHist l (int t) v 1 = Inl (Panicked ''Too many distributions'')"
    using dom_holds [OF h] by (intro LatencyAddHist_full) (auto simp: lat_holds_def)
  with False show ?thesis by (simp add: LatencyAdd_def)
qed

section \<open>Sums\<close>

fun add_buckets :: "nat \<Rightarrow> 32 word list \<Rightarrow> Latency_Dist_t \<Rightarrow> Latency_Dist_t" where
  "add_buckets b [] d = d"
| "add_buckets b (n # ns) d = add_buckets (b + 1) ns (bump b n d)"

lemma bump_0 [simp]: "bump b 0 d = d"
  by (simp add: bump_def)

lemma add_buckets_0: "\<forall>n \<in> set ns. n = 0 \<Longrightarrow> add_buckets b ns d = d"
  by (induction ns arbitrary: b d) auto

lemma add_buckets_eq:
  "b + length ns \<le> length (ld_buckets d) \<Longrightarrow>
   add_buckets b ns d = d\<lparr>ld_buckets := take b (ld_buckets d) @ map2 (+) (take (length ns) (drop b (ld_buckets d))) ns @
     drop (b + length ns) (ld_buckets d)\<rparr>"
proof (induction ns arbitrary: b d)
  case (Cons n ns)
  then have b: "b < length (ld_buckets d)" by simp
  have "drop b (ld_buckets d) = ld_buckets d ! b # drop (Suc b) (ld_buckets d)" using b by (simp add: Cons_nth_drop_Suc)
  with Cons b show ?case by (simp add: bump_def take_Suc_conv_app_nth drop_update_cancel)
qed simp

lemma sum_buckets_spec:
  assumes "lat_wf l" "t < LATENCY_MAX_DIST" "card (insert t (dom (dist_at l))) \<le> LATENCY_DIST_POOL_SIZE"
    and "\<And>k. k < length ns \<Longrightarrow> ns ! k \<noteq> 0 \<Longrightarrow> b + k < 64"
  shows "\<exists>l'. sum_buckets (int t) ns b l = Inr l' \<and> lat_wf l' \<and>
    dist_at l' = (if \<forall>n \<in> set ns. n = 0 then dist_at l else (dist_at l)(t := Some (add_buckets b ns (dist_or (dist_at l) t))))"
  using assms
proof (induction ns arbitrary: b l)
  case (Cons n ns)
  have k: "b + 1 + k < 64" if "k < length ns" "ns ! k \<noteq> 0" for k using Cons.prems(4) [of "Suc k"] that by simp
  show ?case
  proof (cases "n = 0")
    case True
    from Cons.IH [OF Cons.prems(1-3), of "b + 1"] k obtain l' where "sum_buckets (int t) ns (b + 1) l = Inr l'" "lat_wf l'"
      "dist_at l' = (if \<forall>n \<in> set ns. n = 0 then dist_at l else (dist_at l)(t := Some (add_buckets (b + 1) ns (dist_or (dist_at l) t))))"
      by blast
    with True show ?thesis by (intro exI [of _ l']) simp
  next
    case False
    with Cons.prems(4) [of 0] have b: "b < 64" by simp
    from LatencyAddHist_spec [OF Cons.prems(1-3), of "push_bit b 1" n] obtain l1 i where
      l1: "LatencyAddHist l (int t) (push_bit b 1) n = Inr (l1, i)" "lat_wf l1"
      "dist_at l1 = (dist_at l)(t := Some (bump b n (dist_or (dist_at l) t)))" unfolding hist_bucket_power [OF b] by blast
    have d: "insert t (dom (dist_at l1)) = insert t (dom (dist_at l))" using l1(3) by auto
    from Cons.IH [OF l1(2) Cons.prems(2), of "b + 1"] Cons.prems(3) k obtain l' where
      l': "sum_buckets (int t) ns (b + 1) l1 = Inr l'" "lat_wf l'"
      "dist_at l' = (if \<forall>n \<in> set ns. n = 0 then dist_at l1 else (dist_at l1)(t := Some (add_buckets (b + 1) ns (dist_or (dist_at l1) t))))"
      unfolding d by blast
    have "dist_at l' = (dist_at l)(t := Some (add_buckets b (n # ns) (dist_or (dist_at l) t)))"
      using l'(3) l1(3) by (auto simp: add_buckets_0 dist_or_def)
    with l' l1 b False show ?thesis by (intro exI [of _ l']) simp
  qed
qed simp

text \<open>A distribution that the first loop of \<^verbatim>\<open>Latency_Sum\<close> can add.\<close>

definition summable_dist :: "Latency_Dist_t \<Rightarrow> bool" where
  "summable_dist d \<longleftrightarrow> (\<exists>t < LATENCY_MAX_DIST. ld_type d = int t) \<and> (\<exists>n \<in> set (ld_buckets d). n \<noteq> 0) \<and>
     (\<forall>k < length (ld_buckets d). ld_buckets d ! k \<noteq> 0 \<longrightarrow> k < 64)"

lemma sum_hists_spec:
  assumes "lat_wf l" "\<forall>d \<in> set ds. summable_dist d" "distinct (map ld_type ds)"
    and "card (dom (dist_at l) \<union> (\<lambda>d. nat (ld_type d)) ` set ds) \<le> LATENCY_DIST_POOL_SIZE"
  shows "\<exists>l'. sum_hists ds l = Inr l' \<and> lat_wf l' \<and>
    (\<forall>t. dist_at l' t = (case find (\<lambda>d. ld_type d = int t) ds of
       None \<Rightarrow> dist_at l t | Some d \<Rightarrow> Some (add_buckets 0 (ld_buckets d) (dist_or (dist_at l) t))))"
  using assms
proof (induction ds arbitrary: l)
  case (Cons d ds)
  then obtain t where t: "t < LATENCY_MAX_DIST" "ld_type d = int t" and nz: "\<not> (\<forall>n \<in> set (ld_buckets d). n = 0)"
    and k: "\<And>k. k < length (ld_buckets d) \<Longrightarrow> ld_buckets d ! k \<noteq> 0 \<Longrightarrow> 0 + k < 64"
    by (auto simp: summable_dist_def)
  let ?T = "(\<lambda>d. nat (ld_type d)) ` set ds"
  have dom: "dom (dist_at l) \<union> (\<lambda>d. nat (ld_type d)) ` set (d # ds) = insert t (dom (dist_at l)) \<union> ?T" using t by auto
  have "card (insert t (dom (dist_at l))) \<le> card (insert t (dom (dist_at l)) \<union> ?T)"
    using next_eq_card(2) [OF Cons.prems(1)] by (intro card_mono) auto
  with Cons.prems(4) have c: "card (insert t (dom (dist_at l))) \<le> LATENCY_DIST_POOL_SIZE" unfolding dom by simp
  from sum_buckets_spec [OF Cons.prems(1) t(1) c k] nz obtain l1 where
    l1: "sum_buckets (int t) (ld_buckets d) 0 l = Inr l1" "lat_wf l1"
    "dist_at l1 = (dist_at l)(t := Some (add_buckets 0 (ld_buckets d) (dist_or (dist_at l) t)))" by (metis (no_types))
  have "dom (dist_at l1) \<union> ?T = insert t (dom (dist_at l)) \<union> ?T" using l1(3) by auto
  with Cons.IH [OF l1(2)] Cons.prems(2-4) obtain l' where l': "sum_hists ds l1 = Inr l'" "lat_wf l'"
    "\<And>t. dist_at l' t = (case find (\<lambda>d. ld_type d = int t) ds of
       None \<Rightarrow> dist_at l1 t | Some d \<Rightarrow> Some (add_buckets 0 (ld_buckets d) (dist_or (dist_at l1) t)))"
    unfolding dom by auto
  have "find (\<lambda>d. ld_type d = int t) ds = None" using Cons.prems(3) t(2) by (force simp: find_None_iff)
  then have "dist_at l' t' = (case find (\<lambda>d. ld_type d = int t') (d # ds) of
       None \<Rightarrow> dist_at l t' | Some d \<Rightarrow> Some (add_buckets 0 (ld_buckets d) (dist_or (dist_at l) t')))" for t'
    using l'(3) [of t'] l1(3) t(2) by (cases "t' = t") (auto simp: dist_or_def split: option.split)
  with l' l1(1) t(2) show ?case by (intro exI [of _ l']) simp
qed simp

lemma sum_dists_spec:
  assumes "lat_wf l" "distinct ts" "set ts \<subseteq> {..<LATENCY_MAX_DIST}" "\<forall>t \<in> set ts. dist_at s t \<noteq> None \<longrightarrow> dist_at l t \<noteq> None"
  shows "\<exists>l'. sum_dists ts s l = Inr l' \<and> lat_wf l' \<and>
    (\<forall>t. dist_at l' t = (case dist_at s t of
       Some ds \<Rightarrow> if t \<in> set ts then map_option (sum_dist ds) (dist_at l t) else dist_at l t | None \<Rightarrow> dist_at l t))"
  using assms
proof (induction ts arbitrary: l)
  case Nil
  then show ?case by (auto split: option.splits)
next
  case (Cons t ts)
  then have t: "t < LATENCY_MAX_DIST" "t \<notin> set ts" by auto
  show ?case
  proof (cases "lt_dists s ! t")
    case None
    then have "dist_at s t = None" using t by (simp add: dist_at_def)
    then have "(t' \<in> set (t # ts)) = (t' \<in> set ts)" if "dist_at s t' = Some ds" for t' ds using that by auto
    moreover from Cons.IH [OF Cons.prems(1)] Cons.prems(2-4) obtain l' where l': "sum_dists ts s l = Inr l'" "lat_wf l'"
      "\<And>t. dist_at l' t = (case dist_at s t of
         Some ds \<Rightarrow> if t \<in> set ts then map_option (sum_dist ds) (dist_at l t) else dist_at l t | None \<Rightarrow> dist_at l t)"
      by auto
    ultimately show ?thesis using None by (intro exI [of _ l']) (simp split: option.split)
  next
    case (Some j)
    then have s: "dist_at s t = Some (lt_distPool s ! j)" using t by (simp add: dist_at_def)
    with Cons.prems(4) t obtain i where i: "lt_dists l ! t = Some i" by (auto simp: dist_at_def)
    let ?l1 = "upd_dist i (sum_dist (lt_distPool s ! j)) l"
    have l1: "lat_wf ?l1" "dist_at ?l1 = (dist_at l)(t := map_option (sum_dist (lt_distPool s ! j)) (dist_at l t))"
      using upd_dist_spec [OF Cons.prems(1) t(1) i, of "sum_dist (lt_distPool s ! j)"] by (simp_all add: sum_dist_def)
    have "\<forall>t \<in> set ts. dist_at s t \<noteq> None \<longrightarrow> dist_at ?l1 t \<noteq> None" using Cons.prems(4) t(2) l1(2) by auto
    with Cons.IH [OF l1(1)] Cons.prems(2,3) obtain l' where l': "sum_dists ts s ?l1 = Inr l'" "lat_wf l'"
      "\<And>t. dist_at l' t = (case dist_at s t of
         Some ds \<Rightarrow> if t \<in> set ts then map_option (sum_dist ds) (dist_at ?l1 t) else dist_at ?l1 t | None \<Rightarrow> dist_at ?l1 t)"
      by auto
    have "dist_at l' t' = (case dist_at s t' of
       Some ds \<Rightarrow> if t' \<in> set (t # ts) then map_option (sum_dist ds) (dist_at l t') else dist_at l t' | None \<Rightarrow> dist_at l t')" for t'
      using l'(3) [of t'] l1(2) t(2) s by (cases "t' = t") (auto split: option.splits)
    with l'(1,2) Some i show ?thesis by (intro exI [of _ l']) simp
  qed
qed

lemma find_dist:
  assumes s: "lat_wf s" and t: "t < LATENCY_MAX_DIST"
  shows "find (\<lambda>d. ld_type d = int t) (take (lt_distPoolNext s) (lt_distPool s)) = dist_at s t"
proof (cases "lt_dists s ! t")
  case None
  note w = lat_wfD [OF s]
  have "ld_type (lt_distPool s ! i) \<noteq> int t" if "i < lt_distPoolNext s" for i
    using w(5) [OF that] w(4) None by (metis of_nat_eq_iff option.distinct(1))
  then have "find (\<lambda>d. ld_type d = int t) (take (lt_distPoolNext s) (lt_distPool s)) = None"
    unfolding find_None_iff in_set_conv_nth by auto
  with None show ?thesis by (simp add: dist_at_def)
next
  case (Some i)
  note w = lat_wfD [OF s]
  have i: "i < lt_distPoolNext s" "ld_type (lt_distPool s ! i) = int t" using w(4) [OF t Some] by simp_all
  have J: "j = i" if "j < lt_distPoolNext s" "ld_type (lt_distPool s ! j) = int t" for j
    using w(5) [OF that(1)] w(4) that(2) Some by (metis of_nat_eq_iff option.inject)
  have len: "i < length (take (lt_distPoolNext s) (lt_distPool s))" "take (lt_distPoolNext s) (lt_distPool s) ! i = lt_distPool s ! i"
    using i(1) w(2,3) by simp_all
  have "find (\<lambda>d. ld_type d = int t) (take (lt_distPoolNext s) (lt_distPool s)) = Some (lt_distPool s ! i)"
    unfolding find_Some_iff
  proof (intro exI [of _ i] conjI allI impI)
    fix j assume "j < i"
    with J [of j] i(1) show "ld_type (take (lt_distPoolNext s) (lt_distPool s) ! j) \<noteq> int t" by auto
  qed (simp_all only: len i(2))
  with Some t show ?thesis by (simp add: dist_at_def)
qed

lemma pool_dists:
  assumes s: "lat_wf s" and d: "d \<in> set (take (lt_distPoolNext s) (lt_distPool s))"
  obtains t where "t < LATENCY_MAX_DIST" "dist_at s t = Some d" "ld_type d = int t"
proof -
  from d obtain i where i: "i < lt_distPoolNext s" "d = lt_distPool s ! i" by (auto simp: in_set_conv_nth)
  from lat_wfD(5) [OF s i(1)] obtain t where t: "t < LATENCY_MAX_DIST" "lt_dists s ! t = Some i" by auto
  with that [of t] lat_wfD(4) [OF s t] i(2) show ?thesis by (simp add: dist_at_def)
qed

lemma pool_types:
  assumes s: "lat_wf s"
  shows "distinct (map ld_type (take (lt_distPoolNext s) (lt_distPool s)))"
    "(\<lambda>d. nat (ld_type d)) ` set (take (lt_distPoolNext s) (lt_distPool s)) = dom (dist_at s)"
proof -
  note w = lat_wfD [OF s]
  have "i = j" if "i < lt_distPoolNext s" "j < lt_distPoolNext s" "ld_type (lt_distPool s ! i) = ld_type (lt_distPool s ! j)" for i j
    using w(5) [OF that(1)] w(5) [OF that(2)] w(4) that(3) by (metis of_nat_eq_iff option.inject)
  then show "distinct (map ld_type (take (lt_distPoolNext s) (lt_distPool s)))"
    using w(2,3) by (auto simp: distinct_conv_nth)
  show "(\<lambda>d. nat (ld_type d)) ` set (take (lt_distPoolNext s) (lt_distPool s)) = dom (dist_at s)"
  proof (intro equalityI subsetI)
    fix t assume "t \<in> (\<lambda>d. nat (ld_type d)) ` set (take (lt_distPoolNext s) (lt_distPool s))"
    then show "t \<in> dom (dist_at s)" by (auto elim: pool_dists [OF s])
  next
    fix t assume "t \<in> dom (dist_at s)"
    then obtain i where t: "t < LATENCY_MAX_DIST" "lt_dists s ! t = Some i" by (auto simp: dist_at_def split: if_splits)
    from w(4) [OF this] have i: "i < lt_distPoolNext s" "ld_type (lt_distPool s ! i) = int t" by simp_all
    with w(2,3) have "lt_distPool s ! i \<in> set (take (lt_distPoolNext s) (lt_distPool s))"
      by (auto simp: in_set_conv_nth intro!: exI [of _ i])
    with i(2) show "t \<in> (\<lambda>d. nat (ld_type d)) ` set (take (lt_distPoolNext s) (lt_distPool s))"
      by (intro image_eqI) auto
  qed
qed

lemma dist_of_summable:
  assumes "vs \<noteq> []" "length vs < 2 ^ 32" "t < LATENCY_MAX_DIST"
  shows "summable_dist (dist_of t vs)"
proof -
  let ?c = "\<lambda>b. length (filter (\<lambda>v. hist_bucket v = b) vs)"
  have v: "hd vs \<in> set vs" using assms(1) by simp
  then have "?c (hist_bucket (hd vs)) \<noteq> 0" by (auto simp: filter_empty_conv)
  moreover have "?c (hist_bucket (hd vs)) < 2 ^ 32" using assms(2) length_filter_le le_less_trans by blast
  ultimately have "(of_nat (?c (hist_bucket (hd vs))) :: 32 word) \<noteq> 0"
    by (simp add: word_of_nat_eq_0_iff nat_dvd_not_less del: length_0_conv)
  moreover have "hist_bucket (hd vs) \<in> {0..<LATENCY_NUM_BUCKETS}" using hist_bucket_less [of "hd vs"] by simp
  ultimately have "\<exists>n \<in> set (ld_buckets (dist_of t vs)). n \<noteq> 0" by (auto simp: dist_of_def simp del: upt_Suc)
  moreover have "ld_buckets (dist_of t vs) ! k = 0" if "k < LATENCY_NUM_BUCKETS" "\<not> k < 64" for k
  proof -
    have "filter (\<lambda>v. hist_bucket v = k) vs = []" using that hist_bucket_less by (auto simp: filter_empty_conv)
    with that show ?thesis by (simp add: dist_of_def del: upt_Suc)
  qed
  ultimately show ?thesis using assms(3) unfolding summable_dist_def by (auto simp: dist_of_def simp del: upt_Suc)
qed

lemma fold_min_top: "fold min ys (m :: u64) = min (fold min ys (NOT 0)) m"
proof -
  have "fold min ys (min a b) = min (fold min ys a) b" for a b :: u64
    by (induction ys arbitrary: a) (simp_all add: min.assoc [symmetric])
  from this [of "NOT 0" m] show ?thesis by (simp add: min_absorb2 word_order.extremum)
qed

lemma fold_max_bot: "fold max ys (m :: u64) = max (fold max ys 0) m"
proof -
  have "fold max ys (max a b) = max (fold max ys a) b" for a b :: u64
    by (induction ys arbitrary: a) (simp_all add: max.assoc [symmetric])
  from this [of 0 m] show ?thesis by (simp add: max_absorb2)
qed

lemma sum_dist_of:
  "sum_dist (dist_of t ys) (add_buckets 0 (ld_buckets (dist_of t ys)) (dist_of t xs)) = dist_of t (xs @ ys)"
proof -
  have "map2 (+) (ld_buckets (dist_of t xs)) (ld_buckets (dist_of t ys)) = ld_buckets (dist_of t (xs @ ys))"
    by (rule nth_equalityI) (simp_all add: dist_of_def del: upt_Suc)
  moreover have "length (ld_buckets (dist_of t zs)) = LATENCY_NUM_BUCKETS" for zs by (simp add: dist_of_def)
  ultimately have "add_buckets 0 (ld_buckets (dist_of t ys)) (dist_of t xs) =
      (dist_of t xs)\<lparr>ld_buckets := ld_buckets (dist_of t (xs @ ys))\<rparr>"
    using add_buckets_eq [of 0 "ld_buckets (dist_of t ys)" "dist_of t xs"] by simp
  then show ?thesis
    using fold_min_top [of ys "fold min xs (NOT 0)"] fold_max_bot [of ys "fold max xs 0"]
    by (simp add: sum_dist_def dist_of_def if_min_max del: upt_Suc)
qed

text \<open>
  \<^verbatim>\<open>Latency_Sum\<close> against the samples: when the two sides hold the samples \<open>S\<close> and \<open>S'\<close>, of at most five types together and with fewer
  than \<open>2 ^ 32\<close> of them on the side that is added, the sum succeeds and holds the samples of both.
\<close>

theorem Latency_Sum_correct:
  assumes d: "lat_holds dest S" and s: "lat_holds summand S'" and n: "length S' < 2 ^ 32"
    and c: "card (fst ` set (S @ S')) \<le> LATENCY_DIST_POOL_SIZE"
  shows "\<exists>l'. Latency_Sum dest summand = Inr l' \<and> lat_holds l' (S @ S')"
proof -
  let ?ds = "take (lt_distPoolNext summand) (lt_distPool summand)"
  have w: "lat_wf dest" "lat_wf summand" and T: "fst ` set S \<subseteq> {..<LATENCY_MAX_DIST}" "fst ` set S' \<subseteq> {..<LATENCY_MAX_DIST}"
    using d s by (simp_all add: lat_holds_def)
  have sd: "dist_at summand t = (if t \<in> fst ` set S' then Some (dist_of t (vals t S')) else None)" for t
    using s by (simp add: lat_holds_def)
  have "summable_dist x" if x: "x \<in> set ?ds" for x
  proof -
    obtain t where t: "t < LATENCY_MAX_DIST" "dist_at summand t = Some x" using pool_dists [OF w(2) x] by metis
    with sd have "t \<in> fst ` set S'" "x = dist_of t (vals t S')" by (auto split: if_splits)
    moreover have "length (vals t S') \<le> length S'" by (simp add: vals_def)
    ultimately show ?thesis using n t(1) vals_Nil [of t S'] by (auto intro!: dist_of_summable)
  qed
  moreover have "card (dom (dist_at dest) \<union> (\<lambda>d. nat (ld_type d)) ` set ?ds) \<le> LATENCY_DIST_POOL_SIZE"
    using c dom_holds [OF d] dom_holds [OF s] by (simp add: pool_types(2) [OF w(2)] image_Un)
  ultimately obtain l1 where l1: "sum_hists ?ds dest = Inr l1" "lat_wf l1"
    "\<And>t. dist_at l1 t = (case find (\<lambda>d. ld_type d = int t) ?ds of
       None \<Rightarrow> dist_at dest t | Some d \<Rightarrow> Some (add_buckets 0 (ld_buckets d) (dist_or (dist_at dest) t)))"
    using sum_hists_spec [OF w(1) _ pool_types(1) [OF w(2)]] by blast
  have d1: "dist_at l1 t = (if t \<in> fst ` set S' then Some (add_buckets 0 (ld_buckets (dist_of t (vals t S'))) (dist_of t (vals t S)))
      else dist_at dest t)" if "t < LATENCY_MAX_DIST" for t
    using l1(3) [of t] sd [of t] dist_or_holds [OF d] by (simp add: find_dist [OF w(2) that])
  then have "\<forall>t \<in> set [0..<LATENCY_MAX_DIST]. dist_at summand t \<noteq> None \<longrightarrow> dist_at l1 t \<noteq> None" using sd by simp
  moreover have "set [0..<LATENCY_MAX_DIST] \<subseteq> {..<LATENCY_MAX_DIST}" "distinct [0..<LATENCY_MAX_DIST]" by auto
  ultimately obtain l' where l': "sum_dists [0..<LATENCY_MAX_DIST] summand l1 = Inr l'" "lat_wf l'"
    "\<And>t. dist_at l' t = (case dist_at summand t of
       Some ds \<Rightarrow> if t \<in> set [0..<LATENCY_MAX_DIST] then map_option (sum_dist ds) (dist_at l1 t) else dist_at l1 t
     | None \<Rightarrow> dist_at l1 t)"
    using sum_dists_spec [OF l1(2)] by blast
  have "dist_at l' t = (if t \<in> fst ` set (S @ S') then Some (dist_of t (vals t (S @ S'))) else None)" for t
  proof (cases "t < LATENCY_MAX_DIST")
    case True
    with l'(3) [of t] d1 [OF True] sd [of t] d vals_Nil [of t S'] show ?thesis by (auto simp: sum_dist_of lat_holds_def)
  next
    case False
    then have "t \<notin> fst ` set (S @ S')" using T by auto
    moreover have "dist_at l' t = None" using False by (simp add: dist_at_def)
    ultimately show ?thesis by simp
  qed
  with l' T have "lat_holds l' (S @ S')" by (auto simp: lat_holds_def)
  with l1(1) l'(1) show ?thesis by (simp add: Latency_Sum_def)
qed

section \<open>Frames\<close>

text \<open>The subtraction of clock readings with its borrow is the difference in nanoseconds.\<close>

lemma elapsed_eq: "elapsed (s, ns) (s', ns') = word_of_int ((s' * 1000000000 + ns') - (s * 1000000000 + ns))"
  by (simp add: elapsed_def Let_def algebra_simps)

fun nanos :: "timespec \<Rightarrow> int" where
  "nanos (s, ns) = s * 1000000000 + ns"

text \<open>
  A call of \<^verbatim>\<open>Latency_Start\<close> and of \<^verbatim>\<open>Latency_End\<close> with a pause between: the sample is the time from the start to the pause plus the
  time from the resumption to the end.
\<close>

theorem latency_measures:
  assumes "lat_holds l S" "t < LATENCY_MAX_DIST" "card (insert t (fst ` set S)) \<le> LATENCY_DIST_POOL_SIZE"
  shows "\<exists>l1 l2 l3 l4. Latency_StartRec t0 fr l = Inr l1 \<and> Latency_Pause t1 l1 = Inr l2 \<and> Latency_Resume t2 l2 = Inr l3 \<and>
    Latency_EndRecType t3 fr (int t) l3 = Inr l4 \<and> lt_bottom l4 = lt_bottom l \<and>
    lat_holds l4 (S @ [(t, word_of_int ((nanos t1 - nanos t0) + (nanos t3 - nanos t2)))])"
proof -
  have h: "lat_holds l' S" if "lt_dists l' = lt_dists l" "lt_distPool l' = lt_distPool l" "lt_distPoolNext l' = lt_distPoolNext l" for l'
  proof -
    have "dist_at l' = dist_at l" "lat_wf l' = lat_wf l" using that by (simp_all add: fun_eq_iff dist_at_def lat_wf_def)
    with assms(1) show ?thesis by (simp add: lat_holds_def)
  qed
  have b: "lt_bottom l'' = lt_bottom l'" if "LatencyAdd l' ty v = Inr l''" for l' l'' ty v
    using that by (auto simp: LatencyAdd_def LatencyAddHist_def new_dist_def upd_dist_def Let_def assert_that_def dist_index_def split: if_splits)
  let ?v = "elapsed t0 t1 + elapsed t2 t3"
  have v: "?v = word_of_int ((nanos t1 - nanos t0) + (nanos t3 - nanos t2))"
    by (cases t0; cases t1; cases t2; cases t3) (simp add: elapsed_eq)
  let ?L = "\<lambda>a s. l\<lparr>lt_bottom := Some fr, lt_frames := (lt_frames l)(fr := \<lparr>fr_start = s, fr_accum = a, fr_parent = lt_bottom l\<rparr>)\<rparr>"
  have "lat_holds ((?L ?v t2)\<lparr>lt_bottom := lt_bottom l\<rparr>) S" by (rule h) simp_all
  from LatencyAdd_correct [OF this assms(2)] assms(3) obtain l4 where
    l4: "LatencyAdd ((?L ?v t2)\<lparr>lt_bottom := lt_bottom l\<rparr>) (int t) ?v = Inr l4" "lat_holds l4 (S @ [(t, ?v)])" by auto
  have "Latency_StartRec t0 fr l = Inr (?L 0 t0)"
    by (cases "lt_frames l fr") (simp add: Latency_StartRec_def Latency_Resume_def)
  moreover have "Latency_Pause t1 (?L 0 t0) = Inr (?L (elapsed t0 t1) t0)" "Latency_Resume t2 (?L (elapsed t0 t1) t0) = Inr (?L (elapsed t0 t1) t2)"
    by (simp_all add: Latency_Resume_def Latency_Pause_def)
  moreover have "Latency_EndRecType t3 fr (int t) (?L (elapsed t0 t1) t2) = Inr l4"
    using l4(1) by (simp add: Latency_EndRecType_def Latency_Pause_def assert_that_def)
  ultimately show ?thesis using l4(2) b [OF l4(1)] v by (intro exI conjI) simp_all
qed

section \<open>Round trip through the file format\<close>

lemma char_roundtrip:
  assumes "0 \<le> c" "c < 127"
  shows "sint (ucast (word_of_int c :: 32 word) :: 8 word) = c"
proof -
  have "(ucast (word_of_int c :: 32 word) :: 8 word) = word_of_int c" using assms by (simp add: unsigned_of_int take_bit_int_eq_self)
  moreover have "signed_take_bit 7 c = c" using assms by (simp add: signed_take_bit_int_eq_self_iff)
  ultimately show ?thesis by (simp add: signed_of_int)
qed

lemma get_put_dist: "length (ld_buckets d) = LATENCY_NUM_BUCKETS \<Longrightarrow> 0 \<le> ld_type d \<Longrightarrow> ld_type d < 127 \<Longrightarrow> get_dist (put_dist d) = Inr d"
  by (simp add: get_dist_def put_dist_def char_roundtrip)

lemma get_dists_spec:
  assumes "\<forall>d \<in> set ds. length (ld_buckets d) = LATENCY_NUM_BUCKETS \<and> 0 \<le> ld_type d \<and> ld_type d < 127" "distinct (map ld_type ds)"
    and "i + length ds \<le> LATENCY_DIST_POOL_SIZE" "length (lt_dists l) = LATENCY_MAX_DIST" "length (lt_distPool l) = LATENCY_DIST_POOL_SIZE"
  shows "\<exists>D. get_dists (map put_dist ds) i l =
      Inr (l\<lparr>lt_distPool := take i (lt_distPool l) @ ds @ drop (i + length ds) (lt_distPool l), lt_dists := D\<rparr>) \<and>
    length D = LATENCY_MAX_DIST \<and> (\<forall>k < length ds. D ! nat (ld_type (ds ! k)) = Some (i + k)) \<and>
    (\<forall>t < LATENCY_MAX_DIST. int t \<notin> ld_type ` set ds \<longrightarrow> D ! t = lt_dists l ! t)"
  using assms
proof (induction ds arbitrary: i l)
  case Nil
  then show ?case by (intro exI [of _ "lt_dists l"]) simp
next
  case (Cons d ds)
  let ?t = "nat (ld_type d)"
  let ?l = "l\<lparr>lt_distPool := (lt_distPool l)[i := d], lt_dists := (lt_dists l)[?t := Some i]\<rparr>"
  have t: "?t < LATENCY_MAX_DIST" "int ?t = ld_type d" using Cons.prems(1) by auto
  have i: "i < LATENCY_DIST_POOL_SIZE" using Cons.prems(3) by simp
  have "get_dists (map put_dist (d # ds)) i l = get_dists (map put_dist ds) (i + 1) ?l"
    using i get_put_dist [of d] Cons.prems(1) by (simp add: dist_index_def)
  moreover obtain D where D: "get_dists (map put_dist ds) (i + 1) ?l =
      Inr (?l\<lparr>lt_distPool := take (i + 1) (lt_distPool ?l) @ ds @ drop (i + 1 + length ds) (lt_distPool ?l), lt_dists := D\<rparr>)"
    "length D = LATENCY_MAX_DIST" "\<forall>k < length ds. D ! nat (ld_type (ds ! k)) = Some (i + 1 + k)"
    "\<forall>t < LATENCY_MAX_DIST. int t \<notin> ld_type ` set ds \<longrightarrow> D ! t = lt_dists ?l ! t"
    using Cons.IH [of "i + 1" ?l] Cons.prems by auto
  moreover have "take (i + 1) (lt_distPool ?l) @ ds @ drop (i + 1 + length ds) (lt_distPool ?l) =
      take i (lt_distPool l) @ (d # ds) @ drop (i + length (d # ds)) (lt_distPool l)"
    using i Cons.prems(5) by (simp add: take_Suc_conv_app_nth)
  moreover have "D ! ?t = Some i" using D(4) t Cons.prems(2,4) by auto
  then have "\<forall>k < length (d # ds). D ! nat (ld_type ((d # ds) ! k)) = Some (i + k)"
    using D(3) by (auto simp: less_Suc_eq_0_disj)
  moreover have "\<forall>t < LATENCY_MAX_DIST. int t \<notin> ld_type ` set (d # ds) \<longrightarrow> D ! t = lt_dists l ! t"
  proof (intro allI impI)
    fix t' assume t': "t' < LATENCY_MAX_DIST" "int t' \<notin> ld_type ` set (d # ds)"
    then have "t' \<noteq> ?t" using t(2) by auto
    with t' D(4) show "D ! t' = lt_dists l ! t'" by simp
  qed
  ultimately show ?case by (intro exI [of _ D]) simp
qed

text \<open>Statistics that are written out and read again hold the same samples.\<close>

theorem Latency_Put_TryGet:
  assumes "lat_holds l S"
  shows "\<exists>l'. Latency_TryGet (Latency_Put l) = Inr l' \<and> lat_holds l' S \<and> lt_name l' = lt_name l \<and>
    lt_distPool l' = lt_distPool l \<and> lt_distPoolNext l' = lt_distPoolNext l"
proof -
  have l: "lat_wf l" using assms by (simp add: lat_holds_def)
  note w = lat_wfD [OF l]
  let ?n = "lt_distPoolNext l" and ?ds = "take (lt_distPoolNext l) (lt_distPool l)"
  have len: "length ?ds = ?n" using w(2,3) by simp
  have ok: "\<forall>d \<in> set ?ds. length (ld_buckets d) = LATENCY_NUM_BUCKETS \<and> 0 \<le> ld_type d \<and> ld_type d < 127"
  proof
    fix d assume d: "d \<in> set ?ds"
    then obtain i where "i < ?n" "d = lt_distPool l ! i" by (auto simp: in_set_conv_nth)
    moreover from this(1) w(3) have "i < LATENCY_DIST_POOL_SIZE" by simp
    ultimately show "length (ld_buckets d) = LATENCY_NUM_BUCKETS \<and> 0 \<le> ld_type d \<and> ld_type d < 127"
      using w(7) pool_dists [OF l d] by fastforce
  qed
  let ?init = "(LatencyInit (lt_name l))\<lparr>lt_distPoolNext := ?n\<rparr>"
  from get_dists_spec [OF ok pool_types(1) [OF l], of 0 ?init] w(3) len obtain D where D: "get_dists (map put_dist ?ds) 0 ?init =
      Inr (?init\<lparr>lt_distPool := ?ds @ drop ?n (replicate LATENCY_DIST_POOL_SIZE fresh_dist), lt_dists := D\<rparr>)"
    "length D = LATENCY_MAX_DIST" "\<forall>k < ?n. D ! nat (ld_type (?ds ! k)) = Some k"
    "\<forall>t < LATENCY_MAX_DIST. int t \<notin> ld_type ` set ?ds \<longrightarrow> D ! t = None"
    by (auto simp: LatencyInit_def)
  have "drop ?n (replicate LATENCY_DIST_POOL_SIZE fresh_dist) = drop ?n (lt_distPool l)"
    using w(2,3,6) by (intro nth_equalityI) simp_all
  then have pool: "?ds @ drop ?n (replicate LATENCY_DIST_POOL_SIZE fresh_dist) = lt_distPool l" by simp
  have "D = lt_dists l"
  proof (rule nth_equalityI)
    fix t assume "t < length D"
    then have t: "t < LATENCY_MAX_DIST" using D(2) by simp
    show "D ! t = lt_dists l ! t"
    proof (cases "lt_dists l ! t")
      case None
      then have "dist_at l t = None" by (simp add: dist_at_def)
      then have "ld_type d \<noteq> int t" if "d \<in> set ?ds" for d using pool_dists [OF l that] by (metis of_nat_eq_iff option.distinct(1))
      then have "int t \<notin> ld_type ` set ?ds" by force
      with D(4) t None show ?thesis by simp
    next
      case (Some i)
      with w(4) [OF t] have "i < ?n" "ld_type (?ds ! i) = int t" by simp_all
      with D(3) Some show ?thesis by fastforce
    qed
  qed (use D(2) w(1) in simp)
  let ?l = "?init\<lparr>lt_distPool := lt_distPool l, lt_dists := lt_dists l\<rparr>"
  have "dist_at ?l = dist_at l" "lat_wf ?l = lat_wf l" by (simp_all add: fun_eq_iff dist_at_def lat_wf_def)
  then have "lat_holds ?l S" using assms by (simp add: lat_holds_def)
  moreover have "Latency_TryGet (Latency_Put l) = Inr ?l"
    using D(1) \<open>D = lt_dists l\<close> unfolding pool Latency_TryGet_def Latency_Put_def using w(2,3) by (simp add: min_absorb2)
  ultimately show ?thesis by (intro exI [of _ ?l]) (simp add: LatencyInit_def)
qed

end
