(* ===== verification/Aria_Meta.thy ===== *)
theory Aria_Meta
  imports Tapir_Prelude
begin

text \<open>
  The meta data of a row in Aria, \<^verbatim>\<open>protocol/Aria/AriaHelper.h\<close>: an epoch and the smallest numbers of the transactions that reserved
  the row for reading and for writing, packed into 64 bits. The fields' bounds are checked only in debug builds, so the functions
  are total. Reservations run in compare-and-exchange loops of many threads; the last section shows that these act as atomic updates.
\<close>

unbundle bit_operations_syntax

section \<open>Fields\<close>

abbreviation EPOCH_MASK :: u64 where "EPOCH_MASK \<equiv> 0xffffff"
abbreviation RTS_MASK :: u64 where "RTS_MASK \<equiv> 0xfffff"
abbreviation WTS_MASK :: u64 where "WTS_MASK \<equiv> 0xfffff"

definition get_epoch :: "u64 \<Rightarrow> u64" where
  "get_epoch value = drop_bit 40 value AND EPOCH_MASK"

definition set_epoch :: "u64 \<Rightarrow> u64 \<Rightarrow> u64" where
  "set_epoch value epoch = (value AND NOT (push_bit 40 EPOCH_MASK)) OR push_bit 40 epoch"

definition get_rts :: "u64 \<Rightarrow> u64" where
  "get_rts value = drop_bit 20 value AND RTS_MASK"

definition set_rts :: "u64 \<Rightarrow> u64 \<Rightarrow> u64" where
  "set_rts value rts = (value AND NOT (push_bit 20 RTS_MASK)) OR push_bit 20 rts"

definition get_wts :: "u64 \<Rightarrow> u64" where
  "get_wts value = drop_bit 0 value AND WTS_MASK"

definition set_wts :: "u64 \<Rightarrow> u64 \<Rightarrow> u64" where
  "set_wts value wts = (value AND NOT (push_bit 0 WTS_MASK)) OR push_bit 0 wts"

lemma nat_bits:
  fixes v :: u64
  assumes "unat v < 2 ^ k" "bit v n"
  shows "n < k"
proof -
  have "take_bit k (unat v) = unat v" using assms(1) by (simp add: take_bit_nat_eq_self)
  moreover have "bit (unat v) n" using assms(2) by (simp add: bit_unsigned_iff)
  ultimately show ?thesis by (metis bit_take_bit_iff)
qed

lemma field_bits: "e < 16777216 \<Longrightarrow> bit e n \<Longrightarrow> n < 24" "r < 1048576 \<Longrightarrow> bit r n \<Longrightarrow> n < 20" for e r :: u64
  using nat_bits [of e 24 n] nat_bits [of r 20 n] by (simp_all add: word_less_nat_alt)

lemma masks: "EPOCH_MASK = mask 24" "RTS_MASK = mask 20" "WTS_MASK = mask 20"
  by (simp_all add: mask_eq_exp_minus_1)

lemmas meta_defs = get_epoch_def set_epoch_def get_rts_def set_rts_def get_wts_def set_wts_def masks

text \<open>A field that is set is read back, and the other fields keep their values.\<close>

lemma get_set_epoch: "e < 2 ^ 24 \<Longrightarrow> get_epoch (set_epoch v e) = e"
  by (rule bit_eqI) (auto simp: meta_defs bit_simps dest: field_bits)

lemma get_set_rts: "r < 2 ^ 20 \<Longrightarrow> get_rts (set_rts v r) = r" "r < 2 ^ 20 \<Longrightarrow> get_epoch (set_rts v r) = get_epoch v"
  "r < 2 ^ 20 \<Longrightarrow> get_wts (set_rts v r) = get_wts v"
  by ((rule bit_eqI, auto simp: meta_defs bit_simps dest: field_bits)[1])+

lemma get_set_wts: "w < 2 ^ 20 \<Longrightarrow> get_wts (set_wts v w) = w" "w < 2 ^ 20 \<Longrightarrow> get_epoch (set_wts v w) = get_epoch v"
  "w < 2 ^ 20 \<Longrightarrow> get_rts (set_wts v w) = get_rts v"
  by ((rule bit_eqI, auto simp: meta_defs bit_simps dest: field_bits)[1])+

lemma get_set_epoch_0: "e < 2 ^ 24 \<Longrightarrow> get_rts (set_epoch 0 e) = 0" "e < 2 ^ 24 \<Longrightarrow> get_wts (set_epoch 0 e) = 0"
  by ((rule bit_eqI, auto simp: meta_defs bit_simps dest: field_bits)[1])+

section \<open>Reservations\<close>

text \<open>
  One turn of the loops, for the value \<open>a\<close> that was loaded: whether to store a new value, and which. The checks of \<^verbatim>\<open>set_epoch\<close>,
  \<^verbatim>\<open>set_rts\<close> and \<^verbatim>\<open>set_wts\<close> stand with their calls.
\<close>

definition reserve_read :: "u64 \<Rightarrow> u64 \<Rightarrow> 32 word \<Rightarrow> (bool \<times> u64) outcome" where
  "reserve_read a epoch tid =
     (let old_epoch = get_epoch a; old_rts = get_rts a in
      obind (assert_that (epoch \<ge> old_epoch) ''epoch >= old_epoch'') (\<lambda>_.
      if epoch > old_epoch
      then
        obind (assert_that (epoch < 2 ^ 24) ''epoch < (1ull << 24)'') (\<lambda>_.
        obind (assert_that ((ucast tid :: u64) < 2 ^ 20) ''rts < (1ull << 20)'') (\<lambda>_.
        Inr (True, set_rts (set_epoch 0 epoch) (ucast tid))))
      else if old_rts < ucast tid \<and> old_rts \<noteq> 0 then Inr (False, a)
      else obind (assert_that ((ucast tid :: u64) < 2 ^ 20) ''rts < (1ull << 20)'') (\<lambda>_. Inr (True, set_rts a (ucast tid)))))"

definition reserve_write :: "u64 \<Rightarrow> u64 \<Rightarrow> 32 word \<Rightarrow> (bool \<times> u64) outcome" where
  "reserve_write a epoch tid =
     (let old_epoch = get_epoch a; old_wts = get_wts a in
      obind (assert_that (epoch \<ge> old_epoch) ''epoch >= old_epoch'') (\<lambda>_.
      if epoch > old_epoch
      then
        obind (assert_that (epoch < 2 ^ 24) ''epoch < (1ull << 24)'') (\<lambda>_.
        obind (assert_that ((ucast tid :: u64) < 2 ^ 20) ''wts < (1ull << 20)'') (\<lambda>_.
        Inr (True, set_wts (set_epoch 0 epoch) (ucast tid))))
      else if old_wts < ucast tid \<and> old_wts \<noteq> 0 then Inr (False, a)
      else obind (assert_that ((ucast tid :: u64) < 2 ^ 20) ''wts < (1ull << 20)'') (\<lambda>_. Inr (True, set_wts a (ucast tid)))))"

definition reserve :: "bool \<Rightarrow> u64 \<Rightarrow> u64 \<Rightarrow> 32 word \<Rightarrow> (bool \<times> u64) outcome" where
  "reserve is_write a epoch tid = (if is_write then reserve_write a epoch tid else reserve_read a epoch tid)"

text \<open>
  \<open>reserved e a R W\<close>: the meta data \<open>a\<close> say that in epoch \<open>e\<close> the transactions \<open>R\<close> reserved the row for reading and \<open>W\<close> for writing;
  before the first reservation they are those of an earlier epoch.
\<close>

definition min0 :: "u64 set \<Rightarrow> u64" where
  "min0 S = (if S = {} then 0 else Min S)"

definition reserved :: "u64 \<Rightarrow> u64 \<Rightarrow> u64 set \<Rightarrow> u64 set \<Rightarrow> bool" where
  "reserved e a R W \<longleftrightarrow>
     (if R = {} \<and> W = {} then get_epoch a < e else get_epoch a = e \<and> get_rts a = min0 R \<and> get_wts a = min0 W)"

definition tids_ok :: "u64 set \<Rightarrow> bool" where
  "tids_ok S \<longleftrightarrow> finite S \<and> (\<forall>t \<in> S. 0 < t \<and> t < 2 ^ 20)"

lemma tids_ok_simps [simp]: "tids_ok {}" "tids_ok (insert t S) \<longleftrightarrow> 0 < t \<and> t < 2 ^ 20 \<and> tids_ok S"
  by (auto simp: tids_ok_def)

lemma min0_simps:
  assumes "tids_ok S"
  shows "min0 S = 0 \<longleftrightarrow> S = {}" "S \<noteq> {} \<Longrightarrow> min0 S \<in> S" "t \<in> S \<Longrightarrow> min0 S \<le> t"
    "min0 (insert t S) = (if min0 S < t \<and> min0 S \<noteq> 0 then min0 S else t)"
proof -
  have f: "finite S" using assms by (simp add: tids_ok_def)
  show n: "S \<noteq> {} \<Longrightarrow> min0 S \<in> S" using f by (simp add: min0_def)
  show z: "min0 S = 0 \<longleftrightarrow> S = {}" using n assms by (cases "S = {}") (simp add: min0_def, metis less_irrefl tids_ok_def)
  show "t \<in> S \<Longrightarrow> min0 S \<le> t" using f by (auto simp: min0_def)
  show "min0 (insert t S) = (if min0 S < t \<and> min0 S \<noteq> 0 then min0 S else t)"
  proof (cases "S = {}")
    case False
    then have "min0 (insert t S) = min t (min0 S)" using f by (simp add: min0_def)
    with False z show ?thesis by (auto simp: min_def)
  qed (simp add: min0_def)
qed

lemma reserve_reserved:
  assumes a: "reserved e a R W" and ok: "tids_ok R" "tids_ok W" "e < 2 ^ 24" "0 < (ucast tid :: u64)" "(ucast tid :: u64) < 2 ^ 20"
  shows "\<exists>b a'. reserve w a e tid = Inr (b, a') \<and> (\<not> b \<longrightarrow> a' = a) \<and>
    reserved e a' (if w then R else insert (ucast tid) R) (if w then insert (ucast tid) W else W)"
proof (cases "R = {} \<and> W = {}")
  case True
  with a have "get_epoch a < e" by (simp add: reserved_def)
  with True ok show ?thesis
    by (auto simp: reserve_def reserve_read_def reserve_write_def Let_def reserved_def get_set_rts get_set_wts get_set_epoch
        get_set_epoch_0 min0_def)
next
  case False
  with a have f: "get_epoch a = e" "get_rts a = min0 R" "get_wts a = min0 W" by (auto simp: reserved_def)
  with ok show ?thesis
    by (auto simp: reserve_def reserve_read_def reserve_write_def Let_def reserved_def get_set_rts get_set_wts
        min0_simps(4) [OF ok(1)] min0_simps(4) [OF ok(2)])
qed

section \<open>Threads\<close>

text \<open>
  Threads reserve one row. \<open>reqs\<close> gives for each thread whether it writes, and its transaction. A thread loads the value and
  then leaves the loop, exchanges the value, or starts again; a weak exchange may fail for no reason.
\<close>

datatype reserve_pc = Reading | Loaded u64 | is_Done: Done bool

inductive reserve_step :: "(bool \<times> 32 word) list \<Rightarrow> u64 \<Rightarrow> u64 \<times> reserve_pc list \<Rightarrow> u64 \<times> reserve_pc list \<Rightarrow> bool" for reqs e where
  load: "i < length pcs \<Longrightarrow> pcs ! i = Reading \<Longrightarrow> reserve_step reqs e (a, pcs) (a, pcs[i := Loaded a])"
| give_up: "i < length pcs \<Longrightarrow> pcs ! i = Loaded old \<Longrightarrow> reqs ! i = (w, tid) \<Longrightarrow> reserve w old e tid = Inr (False, x) \<Longrightarrow>
    reserve_step reqs e (a, pcs) (a, pcs[i := Done False])"
| exchange: "i < length pcs \<Longrightarrow> pcs ! i = Loaded a \<Longrightarrow> reqs ! i = (w, tid) \<Longrightarrow> reserve w a e tid = Inr (True, new) \<Longrightarrow>
    reserve_step reqs e (a, pcs) (new, pcs[i := Done True])"
| retry: "i < length pcs \<Longrightarrow> pcs ! i = Loaded old \<Longrightarrow> reqs ! i = (w, tid) \<Longrightarrow> reserve w old e tid = Inr (True, new) \<Longrightarrow>
    reserve_step reqs e (a, pcs) (a, pcs[i := Reading])"

definition done_tids :: "(bool \<times> 32 word) list \<Rightarrow> reserve_pc list \<Rightarrow> bool \<Rightarrow> u64 set" where
  "done_tids reqs pcs w = (\<lambda>i. ucast (snd (reqs ! i))) ` {i. i < length pcs \<and> is_Done (pcs ! i) \<and> fst (reqs ! i) = w}"

definition reserve_inv :: "(bool \<times> 32 word) list \<Rightarrow> u64 \<Rightarrow> u64 \<times> reserve_pc list \<Rightarrow> bool" where
  "reserve_inv reqs e x \<longleftrightarrow> (case x of (a, pcs) \<Rightarrow>
     length pcs = length reqs \<and> reserved e a (done_tids reqs pcs False) (done_tids reqs pcs True) \<and>
     (\<forall>i < length pcs. \<forall>old. pcs ! i = Loaded old \<longrightarrow>
        (\<exists>R W. R \<subseteq> done_tids reqs pcs False \<and> W \<subseteq> done_tids reqs pcs True \<and> reserved e old R W)))"

lemma done_tids_upd:
  assumes "i < length pcs" "\<not> is_Done (pcs ! i)"
  shows "done_tids reqs (pcs[i := pc]) w =
    (if is_Done pc \<and> fst (reqs ! i) = w then insert (ucast (snd (reqs ! i))) (done_tids reqs pcs w) else done_tids reqs pcs w)"
proof -
  have "{k. k < length (pcs[i := pc]) \<and> is_Done (pcs[i := pc] ! k) \<and> fst (reqs ! k) = w} =
    {k. k < length pcs \<and> is_Done (pcs ! k) \<and> fst (reqs ! k) = w} \<union> (if is_Done pc \<and> fst (reqs ! i) = w then {i} else {})"
    using assms by (auto simp: nth_list_update split: if_splits)
  then show ?thesis by (simp add: done_tids_def)
qed

lemma done_tids_ok:
  assumes "\<forall>(w, tid) \<in> set reqs. 0 < (ucast tid :: u64) \<and> (ucast tid :: u64) < 2 ^ 20" "length pcs = length reqs"
  shows "tids_ok (done_tids reqs pcs w)"
proof -
  have "done_tids reqs pcs w \<subseteq> (\<lambda>r. ucast (snd r)) ` set reqs" using assms(2) by (auto simp: done_tids_def)
  then have "finite (done_tids reqs pcs w)" by (rule finite_subset) simp
  moreover have "0 < t \<and> t < 2 ^ 20" if "t \<in> done_tids reqs pcs w" for t
    using that assms by (auto simp: done_tids_def dest!: nth_mem)
  ultimately show ?thesis by (auto simp: tids_ok_def)
qed

lemma reserve_give_up:
  assumes "reserved e old R W" "reserve w old e tid = Inr (False, x)" "R \<subseteq> R'" "W \<subseteq> W'" "tids_ok R'" "tids_ok W'" "reserved e a R' W'"
  shows "reserved e a (if w then R' else insert (ucast tid) R') (if w then insert (ucast tid) W' else W')"
proof -
  let ?S = "if w then W else R" and ?S' = "if w then W' else R'"
  have ok: "tids_ok ?S" "tids_ok ?S'" using assms(3-6) by (auto simp: tids_ok_def intro: finite_subset)
  have "\<not> (R = {} \<and> W = {})"
    using assms(1,2) by (auto simp: reserved_def reserve_def reserve_read_def reserve_write_def Let_def split: if_splits)
  with assms(1,2) have m: "min0 ?S < ucast tid" "min0 ?S \<noteq> 0"
    by (auto simp: reserved_def reserve_def reserve_read_def reserve_write_def Let_def split: if_splits)
  then have "min0 ?S \<in> ?S'" using min0_simps(1,2) [OF ok(1)] assms(3,4) by (auto split: if_splits)
  from min0_simps(3) [OF ok(2) this] m have "min0 ?S' < ucast tid" by simp
  moreover have "min0 ?S' \<noteq> 0" using \<open>min0 ?S \<in> ?S'\<close> min0_simps(1) [OF ok(2)] by auto
  ultimately have "min0 (insert (ucast tid) ?S') = min0 ?S'" using min0_simps(4) [OF ok(2)] by simp
  with assms(7) \<open>min0 ?S \<in> ?S'\<close> show ?thesis by (auto simp: reserved_def split: if_splits)
qed

lemma reserve_inv_loaded:
  assumes "reserve_inv reqs e (a, pcs)" "i < length pcs" "pcs ! i = Loaded old"
  obtains R W where "R \<subseteq> done_tids reqs pcs False" "W \<subseteq> done_tids reqs pcs True" "reserved e old R W"
  using assms unfolding reserve_inv_def by blast

lemma reserve_inv_done:
  assumes inv: "reserve_inv reqs e (a, pcs)" and i: "i < length pcs" "\<not> is_Done (pcs ! i)" "reqs ! i = (w, tid)"
    and a': "reserved e a' (if w then done_tids reqs pcs False else insert (ucast tid) (done_tids reqs pcs False))
      (if w then insert (ucast tid) (done_tids reqs pcs True) else done_tids reqs pcs True)"
  shows "reserve_inv reqs e (a', pcs[i := Done b])"
proof -
  have D: "done_tids reqs (pcs[i := Done b]) False = (if w then done_tids reqs pcs False else insert (ucast tid) (done_tids reqs pcs False))"
    "done_tids reqs (pcs[i := Done b]) True = (if w then insert (ucast tid) (done_tids reqs pcs True) else done_tids reqs pcs True)"
    using done_tids_upd [OF i(1,2)] i(3) by simp_all
  have "\<exists>R W. R \<subseteq> done_tids reqs (pcs[i := Done b]) False \<and> W \<subseteq> done_tids reqs (pcs[i := Done b]) True \<and> reserved e old R W"
    if k: "k < length pcs" "pcs[i := Done b] ! k = Loaded old" for k old
  proof -
    have "pcs ! k = Loaded old" using k by (cases "k = i") auto
    from reserve_inv_loaded [OF inv k(1) this] obtain R W where
      "R \<subseteq> done_tids reqs pcs False" "W \<subseteq> done_tids reqs pcs True" "reserved e old R W" .
    then show ?thesis unfolding D by (intro exI [of _ R] exI [of _ W]) auto
  qed
  then show ?thesis using inv a' unfolding reserve_inv_def D [symmetric] by simp
qed

lemma reserve_inv_step:
  assumes s: "reserve_step reqs e x y" and inv: "reserve_inv reqs e x" and e: "e < 2 ^ 24"
    and t: "\<forall>(w, tid) \<in> set reqs. 0 < (ucast tid :: u64) \<and> (ucast tid :: u64) < 2 ^ 20"
  shows "reserve_inv reqs e y"
proof -
  note ok = done_tids_ok [OF t]
  from s inv show ?thesis
  proof cases
    case (load i pcs a)
    with inv show ?thesis by (auto simp: reserve_inv_def done_tids_upd nth_list_update)
  next
    case (give_up i pcs old w tid v a)
    have inv': "reserve_inv reqs e (a, pcs)" using inv give_up(1) by simp
    then have a: "reserved e a (done_tids reqs pcs False) (done_tids reqs pcs True)" and l: "length pcs = length reqs"
      by (simp_all add: reserve_inv_def)
    from reserve_inv_loaded [OF inv' give_up(3,4)] obtain R W where
      RW: "R \<subseteq> done_tids reqs pcs False" "W \<subseteq> done_tids reqs pcs True" "reserved e old R W" .
    show ?thesis unfolding give_up(2)
      by (rule reserve_inv_done [OF inv' give_up(3) _ give_up(5) reserve_give_up [OF RW(3) give_up(6) RW(1,2) ok [OF l] ok [OF l] a]])
        (simp add: give_up(4))
  next
    case (exchange i pcs a w tid new)
    have inv': "reserve_inv reqs e (a, pcs)" using inv exchange(1) by simp
    then have a: "reserved e a (done_tids reqs pcs False) (done_tids reqs pcs True)" and l: "length pcs = length reqs"
      by (simp_all add: reserve_inv_def)
    have "(w, tid) \<in> set reqs" using exchange(3,5) l nth_mem [of i reqs] by simp
    with t have "0 < (ucast tid :: u64)" "(ucast tid :: u64) < 2 ^ 20" by auto
    from reserve_reserved [OF a ok [OF l] ok [OF l] e this, of w] exchange(6)
    have n: "reserved e new (if w then done_tids reqs pcs False else insert (ucast tid) (done_tids reqs pcs False))
      (if w then insert (ucast tid) (done_tids reqs pcs True) else done_tids reqs pcs True)" by auto
    show ?thesis unfolding exchange(2)
      by (rule reserve_inv_done [OF inv' exchange(3) _ exchange(5) n]) (simp add: exchange(4))
  next
    case (retry i pcs old w tid new a)
    with inv show ?thesis by (auto simp: reserve_inv_def done_tids_upd nth_list_update)
  qed
qed

text \<open>
  C24. Concurrent reservations of a row. Threads for the requests \<open>reqs\<close> run their loops in any interleaving, from meta data of an
  earlier epoch. At every moment the row holds the smallest reader and the smallest writer among the threads that are done, also
  those that gave up, and no check of a loop can fail.
\<close>

theorem reserve_threads:
  assumes "(reserve_step reqs e)\<^sup>*\<^sup>* (a0, replicate (length reqs) Reading) (a, pcs)" "get_epoch a0 < e" "e < 2 ^ 24"
    and "\<forall>(w, tid) \<in> set reqs. 0 < (ucast tid :: u64) \<and> (ucast tid :: u64) < 2 ^ 20"
  shows "reserved e a (done_tids reqs pcs False) (done_tids reqs pcs True) \<and>
    (\<forall>i < length pcs. \<forall>old. pcs ! i = Loaded old \<longrightarrow> (\<exists>b v. reserve (fst (reqs ! i)) old e (snd (reqs ! i)) = Inr (b, v)))"
proof -
  have "done_tids reqs (replicate (length reqs) Reading) w = {}" for w by (auto simp: done_tids_def)
  then have i0: "reserve_inv reqs e (a0, replicate (length reqs) Reading)"
    using assms(2) by (simp add: reserve_inv_def reserved_def)
  from assms(1) have inv: "reserve_inv reqs e (a, pcs)"
    by (induction rule: rtranclp_induct) (auto intro: i0 reserve_inv_step [OF _ _ assms(3,4)])
  have "\<exists>b v. reserve (fst (reqs ! i)) old e (snd (reqs ! i)) = Inr (b, v)" if i: "i < length pcs" "pcs ! i = Loaded old" for i old
  proof -
    have l: "length pcs = length reqs" using inv by (simp add: reserve_inv_def)
    from reserve_inv_loaded [OF inv i] obtain R W where
      RW: "R \<subseteq> done_tids reqs pcs False" "W \<subseteq> done_tids reqs pcs True" "reserved e old R W" .
    then have ok: "tids_ok R" "tids_ok W"
      using done_tids_ok [OF assms(4) l] unfolding tids_ok_def by (meson finite_subset subsetD)+
    have "0 < (ucast (snd (reqs ! i)) :: u64)" "(ucast (snd (reqs ! i)) :: u64) < 2 ^ 20"
      using bspec [OF assms(4) nth_mem [of i reqs]] i(1) l by (simp_all split: prod.splits)
    from reserve_reserved [OF RW(3) ok assms(3) this] show ?thesis by blast
  qed
  with inv show ?thesis by (simp add: reserve_inv_def)
qed

text \<open>Two writers that load the row at the same time: the second loses the exchange, loads again and lowers the writer.\<close>

definition race :: "(bool \<times> 32 word) list" where
  "race = [(True, 5), (True, 3)]"

lemma race_turns:
  "reserve True 0 1 5 = Inr (True, 1099511627781)" "reserve True 0 1 3 = Inr (True, 1099511627779)"
  "reserve True 1099511627781 1 3 = Inr (True, 1099511627779)"
  by code_simp+

lemma race_run: "(reserve_step race 1)\<^sup>*\<^sup>* (0, replicate (length race) Reading) (1099511627779, [Done True, Done True])"
proof -
  note turns = race_turns
  have "reserve_step race 1 (0, [Reading, Reading]) (0, [Loaded 0, Reading])"
    using reserve_step.load [of 0 "[Reading, Reading]" race 1 0] by simp
  moreover have "reserve_step race 1 (0, [Loaded 0, Reading]) (0, [Loaded 0, Loaded 0])"
    using reserve_step.load [of 1 "[Loaded 0, Reading]" race 1 0] by simp
  moreover have "reserve_step race 1 (0, [Loaded 0, Loaded 0]) (1099511627781, [Done True, Loaded 0])"
    using reserve_step.exchange [of 0 "[Loaded 0, Loaded 0]" 0 race True 5 1] turns(1) by (simp add: race_def)
  moreover have "reserve_step race 1 (1099511627781, [Done True, Loaded 0]) (1099511627781, [Done True, Reading])"
    using reserve_step.retry [of 1 "[Done True, Loaded 0]" 0 race True 3 1] turns(2) by (simp add: race_def)
  moreover have "reserve_step race 1 (1099511627781, [Done True, Reading]) (1099511627781, [Done True, Loaded 1099511627781])"
    using reserve_step.load [of 1 "[Done True, Reading]" race 1 1099511627781] by simp
  moreover have "reserve_step race 1 (1099511627781, [Done True, Loaded 1099511627781]) (1099511627779, [Done True, Done True])"
    using reserve_step.exchange [of 1 "[Done True, Loaded 1099511627781]" 1099511627781 race True 3 1] turns(3) by (simp add: race_def)
  ultimately have "(reserve_step race 1)\<^sup>*\<^sup>* (0, [Reading, Reading]) (1099511627779, [Done True, Done True])"
    by (meson converse_rtranclp_into_rtranclp rtranclp.rtrancl_refl)
  then show ?thesis by (simp add: race_def)
qed

theorem reserve_threads_witness:
  "(reserve_step race 1)\<^sup>*\<^sup>* (0, replicate (length race) Reading) (1099511627779, [Done True, Done True]) \<and>
   reserved 1 1099511627779 {} {5, 3}"
proof -
  have "get_epoch 0 < (1 :: u64)" "(1 :: u64) < 2 ^ 24" by (simp_all add: get_epoch_def)
  moreover have "\<forall>(w, tid) \<in> set race. 0 < (ucast tid :: u64) \<and> (ucast tid :: u64) < 2 ^ 20" by (simp add: race_def)
  ultimately have "reserved 1 1099511627779 (done_tids race [Done True, Done True] False) (done_tids race [Done True, Done True] True)"
    using reserve_threads [OF race_run] by blast
  moreover have "done_tids race [Done True, Done True] False = {}" "done_tids race [Done True, Done True] True = {5, 3}"
  proof -
    have "done_tids race [Done True, Done True] w = (\<lambda>i. ucast (snd (race ! i))) ` set (filter (\<lambda>i. is_Done ([Done True, Done True] ! i) \<and> fst (race ! i) = w) [0..<2])" for w
      unfolding done_tids_def by (rule arg_cong [of _ _ "image _"]) auto
    then show "done_tids race [Done True, Done True] False = {}" "done_tids race [Done True, Done True] True = {5, 3}"
      by (simp_all add: race_def upt_rec)
  qed
  ultimately show ?thesis using race_run by simp
qed

end
