(* ===== verification/Aria_Protocol.thy ===== *)
theory Aria_Protocol
  imports Aria_Meta
begin

text \<open>
  Aria, \<^verbatim>\<open>protocol/Aria\<close>: a deterministic database that runs transactions in batches. In the first phase of a batch every transaction
  reads from the state before the batch and reserves the rows it reads and writes; in the second phase it looks for conflicts with
  transactions of smaller numbers and commits or aborts. This theory holds the executor, the message handlers and the step
  relation of a cluster of coordinators.

  A transaction's program is a parameter: the keys it reads and updates and the values it computes. The rows of a
  coordinator's tables are a function, as looking up a missing key creates the row. The checks of the fields of a key are the hypothesis
  \<open>prog_ok\<close> on programs; those of the layout of messages are left out with the layout. A coordinator is the master of some
  partitions; for the rows of others it sends messages, which arrive in any order. Statistics are left out.
\<close>

section \<open>Keys\<close>

record ('k, 'v) AriaRWKey =
  bitvec :: "32 word"
  rk_key :: 'k
  rk_value :: 'v

definition clear_local_index_read_bit :: "32 word \<Rightarrow> 32 word" where
  "clear_local_index_read_bit b = b AND NOT (push_bit 0 0x1)"

definition set_local_index_read_bit :: "32 word \<Rightarrow> 32 word" where
  "set_local_index_read_bit b = clear_local_index_read_bit b OR push_bit 0 0x1"

definition get_local_index_read_bit :: "32 word \<Rightarrow> bool" where
  "get_local_index_read_bit b \<longleftrightarrow> drop_bit 0 b AND 0x1 \<noteq> 0"

definition clear_read_request_bit :: "32 word \<Rightarrow> 32 word" where
  "clear_read_request_bit b = b AND NOT (push_bit 1 0x1)"

definition set_read_request_bit :: "32 word \<Rightarrow> 32 word" where
  "set_read_request_bit b = clear_read_request_bit b OR push_bit 1 0x1"

definition get_read_request_bit :: "32 word \<Rightarrow> bool" where
  "get_read_request_bit b \<longleftrightarrow> drop_bit 1 b AND 0x1 \<noteq> 0"

definition clear_table_id :: "32 word \<Rightarrow> 32 word" where
  "clear_table_id b = b AND NOT (push_bit 27 0x1f)"

definition set_table_id :: "32 word \<Rightarrow> 32 word \<Rightarrow> 32 word" where
  "set_table_id table_id b = clear_table_id b OR push_bit 27 table_id"

definition get_table_id :: "32 word \<Rightarrow> 32 word" where
  "get_table_id b = drop_bit 27 b AND 0x1f"

definition clear_partition_id :: "32 word \<Rightarrow> 32 word" where
  "clear_partition_id b = b AND NOT (push_bit 11 0xffff)"

definition set_partition_id :: "32 word \<Rightarrow> 32 word \<Rightarrow> 32 word" where
  "set_partition_id partition_id b = clear_partition_id b OR push_bit 11 partition_id"

definition get_partition_id :: "32 word \<Rightarrow> 32 word" where
  "get_partition_id b = drop_bit 11 b AND 0xffff"

text \<open>The row of a key: its table, its partition and the key itself.\<close>

datatype 'k row_id = Row (row_table: "32 word") (row_partition: "32 word") (row_key: 'k)

definition row_of :: "('k, 'v) AriaRWKey \<Rightarrow> 'k row_id" where
  "row_of k = Row (get_table_id (bitvec k)) (get_partition_id (bitvec k)) (rk_key k)"

section \<open>Transactions\<close>

record ('k, 'v) AriaTransaction =
  at_id :: u64
  at_tid_offset :: "32 word"
  at_epoch :: "32 word"
  at_pendingResponses :: nat
  at_abort_lock :: bool
  at_abort_no_retry :: bool
  at_distributed_transaction :: bool
  at_execution_phase :: bool
  at_waw :: bool
  at_war :: bool
  at_raw :: bool
  at_readSet :: "('k, 'v) AriaRWKey list"
  at_writeSet :: "('k, 'v) AriaRWKey list"

definition at_reset :: "('k, 'v) AriaTransaction \<Rightarrow> ('k, 'v) AriaTransaction" where
  "at_reset txn = txn\<lparr>at_abort_lock := False, at_abort_no_retry := False, at_distributed_transaction := False,
     at_execution_phase := False, at_waw := False, at_war := False, at_raw := False, at_pendingResponses := 0,
     at_readSet := [], at_writeSet := []\<rparr>"

definition is_read_only :: "('k, 'v) AriaTransaction \<Rightarrow> bool" where
  "is_read_only txn \<longleftrightarrow> at_writeSet txn = []"

text \<open>\<open>storage\<close> is what the memory for a value holds before it is read.\<close>

definition search_local_index ::
  "'v \<Rightarrow> 32 word \<Rightarrow> 32 word \<Rightarrow> 'k \<Rightarrow> ('k, 'v) AriaTransaction \<Rightarrow> ('k, 'v) AriaTransaction" where
  "search_local_index storage table_id partition_id key txn =
     (if at_execution_phase txn then txn
      else
        (let b = set_read_request_bit (set_local_index_read_bit (set_partition_id partition_id (set_table_id table_id 0))) in
         txn\<lparr>at_readSet := at_readSet txn @ [\<lparr>bitvec = b, rk_key = key, rk_value = storage\<rparr>]\<rparr>))"

definition search_for_read ::
  "'v \<Rightarrow> 32 word \<Rightarrow> 32 word \<Rightarrow> 'k \<Rightarrow> ('k, 'v) AriaTransaction \<Rightarrow> ('k, 'v) AriaTransaction" where
  "search_for_read storage table_id partition_id key txn =
     (if at_execution_phase txn then txn
      else
        (let b = set_read_request_bit (set_partition_id partition_id (set_table_id table_id 0)) in
         txn\<lparr>at_readSet := at_readSet txn @ [\<lparr>bitvec = b, rk_key = key, rk_value = storage\<rparr>]\<rparr>))"

definition at_update ::
  "'v \<Rightarrow> 32 word \<Rightarrow> 32 word \<Rightarrow> 'k \<Rightarrow> ('k, 'v) AriaTransaction \<Rightarrow> ('k, 'v) AriaTransaction" where
  "at_update storage table_id partition_id key txn =
     (if at_execution_phase txn then txn
      else
        (let b = set_partition_id partition_id (set_table_id table_id 0) in
         txn\<lparr>at_writeSet := at_writeSet txn @ [\<lparr>bitvec = b, rk_key = key, rk_value = storage\<rparr>]\<rparr>))"

text \<open>
  A program: its reads, where \<open>True\<close> stands for \<^verbatim>\<open>search_local_index\<close> and \<open>False\<close> for \<^verbatim>\<open>search_for_read\<close> and \<^verbatim>\<open>search_for_update\<close>,
  which do the same; its updates; the value of each update, given the values read; and whether it gives up for good, which
  it does before it processes its reads.
\<close>

record ('k, 'v) AriaProgram =
  pg_reads :: "(bool \<times> 'k row_id) list"
  pg_updates :: "'k row_id list"
  pg_value :: "'v list \<Rightarrow> nat \<Rightarrow> 'v"
  pg_no_retry :: bool
  pg_storage :: 'v

section \<open>Messages\<close>

datatype ('k, 'v) aria_msg =
    SearchRequest "'k row_id" "32 word" "32 word" "32 word"
  | SearchResponse 'v "32 word" "32 word" "32 word"
  | ReserveRequest "'k row_id" "32 word" "32 word" bool
  | CheckRequest "'k row_id" "32 word" "32 word" "32 word" bool
  | CheckResponse "32 word" "32 word" bool bool bool bool
  | WriteRequest "'k row_id" 'v

record AriaContext =
  cx_coordinator_num :: nat
  cx_batch_size :: nat
  cx_master :: "32 word \<Rightarrow> nat"
  cx_read_only_optimization :: bool
  cx_reordering_optimization :: bool
  cx_snapshot_isolation :: bool

type_synonym ('k, 'v) rows = "'k row_id \<Rightarrow> u64 \<times> 'v"
type_synonym ('k, 'v) outbox = "(nat \<times> ('k, 'v) aria_msg) list"

text \<open>The master of a partition with the hash partitioner.\<close>

definition hash_master :: "nat \<Rightarrow> 32 word \<Rightarrow> nat" where
  "hash_master coordinator_num partition_id = unat partition_id mod coordinator_num"

section \<open>The first phase\<close>

definition readRequestHandler ::
  "AriaContext \<Rightarrow> nat \<Rightarrow> ('k, 'v) rows \<Rightarrow> nat \<Rightarrow> ('k, 'v) AriaTransaction \<Rightarrow> ('k, 'v) AriaTransaction \<times> ('k, 'v) outbox" where
  "readRequestHandler ctx me rows i txn =
     (let k = at_readSet txn ! i; master = cx_master ctx (get_partition_id (bitvec k)) in
      if master = me \<or> get_local_index_read_bit (bitvec k)
      then (txn\<lparr>at_readSet := (at_readSet txn)[i := k\<lparr>rk_value := snd (rows (row_of k))\<rparr>]\<rparr>, [])
      else (txn\<lparr>at_distributed_transaction := True, at_pendingResponses := at_pendingResponses txn + 1\<rparr>,
            [(master, SearchRequest (row_of k) (ucast (at_id txn)) (at_tid_offset txn) (of_nat i))]))"

fun process_reads ::
  "AriaContext \<Rightarrow> nat \<Rightarrow> ('k, 'v) rows \<Rightarrow> nat \<Rightarrow> ('k, 'v) AriaTransaction \<Rightarrow> ('k, 'v) AriaTransaction \<times> ('k, 'v) outbox" where
  "process_reads ctx me rows 0 txn = (txn, [])"
| "process_reads ctx me rows (Suc i) txn =
     (if \<not> get_read_request_bit (bitvec (at_readSet txn ! i)) then (txn, [])
      else
        (let (txn1, out1) = readRequestHandler ctx me rows i txn;
             txn2 = txn1\<lparr>at_readSet := (at_readSet txn1)[i := (at_readSet txn1 ! i)
                      \<lparr>bitvec := clear_read_request_bit (bitvec (at_readSet txn1 ! i))\<rparr>]\<rparr>;
             (txn3, out3) = process_reads ctx me rows i txn2
         in (txn3, out1 @ out3)))"

definition process_requests ::
  "AriaContext \<Rightarrow> nat \<Rightarrow> ('k, 'v) rows \<Rightarrow> ('k, 'v) AriaTransaction \<Rightarrow> ('k, 'v) AriaTransaction \<times> ('k, 'v) outbox" where
  "process_requests ctx me rows txn = process_reads ctx me rows (length (at_readSet txn)) txn"

text \<open>
  \<^verbatim>\<open>execute\<close> runs twice. The first run collects the keys and asks for the values; the second finds the sets filled and only
  computes the values of the updates, in the memory that the write set points to. A program may give the same memory to a read and an
  update of a row; the model keeps the value read.
\<close>

definition fill_writes :: "('k, 'v) AriaProgram \<Rightarrow> ('k, 'v) AriaTransaction \<Rightarrow> ('k, 'v) AriaTransaction" where
  "fill_writes prog txn =
     txn\<lparr>at_writeSet := map (\<lambda>j. (at_writeSet txn ! j)\<lparr>rk_value := pg_value prog (map rk_value (at_readSet txn)) j\<rparr>)
        [0..<length (at_writeSet txn)]\<rparr>"

definition execute ::
  "AriaContext \<Rightarrow> nat \<Rightarrow> ('k, 'v) rows \<Rightarrow> ('k, 'v) AriaProgram \<Rightarrow> ('k, 'v) AriaTransaction \<Rightarrow>
   bool \<times> ('k, 'v) AriaTransaction \<times> ('k, 'v) outbox" where
  "execute ctx me rows prog txn =
     (let txn1 = fold (\<lambda>(index, l). if index
                          then search_local_index (pg_storage prog) (row_table l) (row_partition l) (row_key l)
                          else search_for_read (pg_storage prog) (row_table l) (row_partition l) (row_key l)) (pg_reads prog) txn in
      if pg_no_retry prog then (True, txn1, [])
      else
        (let (txn2, out) = process_requests ctx me rows txn1;
             txn3 = (if at_execution_phase txn2 then fill_writes prog txn2 else txn2)
         in (False, fold (\<lambda>l. at_update (pg_storage prog) (row_table l) (row_partition l) (row_key l)) (pg_updates prog) txn3, out)))"

text \<open>The first loop of \<^verbatim>\<open>read_snapshot\<close>, for the transaction in slot \<open>i\<close>.\<close>

definition start_transaction ::
  "AriaContext \<Rightarrow> nat \<Rightarrow> 32 word \<Rightarrow> nat \<Rightarrow> ('k, 'v) rows \<Rightarrow> ('k, 'v) AriaProgram \<Rightarrow> ('k, 'v) AriaTransaction \<Rightarrow>
   ('k, 'v) AriaTransaction \<times> ('k, 'v) outbox" where
  "start_transaction ctx me cur_epoch i rows prog txn =
     (let txn1 = (at_reset txn)\<lparr>at_epoch := cur_epoch, at_id := of_nat (i * cx_coordinator_num ctx + me + 1),
                   at_tid_offset := of_nat i, at_execution_phase := False\<rparr>;
          (no_retry, txn2, out) = execute ctx me rows prog txn1
      in (if no_retry then txn2\<lparr>at_abort_no_retry := True\<rparr> else txn2, out))"

fun reserve_keys ::
  "AriaContext \<Rightarrow> nat \<Rightarrow> ('k, 'v) AriaTransaction \<Rightarrow> bool \<Rightarrow> ('k, 'v) AriaRWKey list \<Rightarrow> ('k, 'v) rows \<Rightarrow>
   (('k, 'v) rows \<times> ('k, 'v) outbox) outcome" where
  "reserve_keys ctx me txn w [] rows = Inr (rows, [])"
| "reserve_keys ctx me txn w (k # ks) rows =
     (let l = row_of k; master = cx_master ctx (get_partition_id (bitvec k)) in
      if \<not> w \<and> get_local_index_read_bit (bitvec k) then reserve_keys ctx me txn w ks rows
      else if master = me
      then obind (reserve w (fst (rows l)) (ucast (at_epoch txn)) (ucast (at_id txn))) (\<lambda>(ok, a).
             reserve_keys ctx me txn w ks (rows(l := (a, snd (rows l)))))
      else obind (reserve_keys ctx me txn w ks rows) (\<lambda>(rows1, out).
             Inr (rows1, (master, ReserveRequest l (ucast (at_id txn)) (at_epoch txn) w) # out)))"

definition reserve_transaction ::
  "AriaContext \<Rightarrow> nat \<Rightarrow> ('k, 'v) AriaTransaction \<Rightarrow> ('k, 'v) rows \<Rightarrow> (('k, 'v) rows \<times> ('k, 'v) outbox) outcome" where
  "reserve_transaction ctx me txn rows =
     (if cx_read_only_optimization ctx \<and> is_read_only txn then Inr (rows, [])
      else
        obind (reserve_keys ctx me txn False (at_readSet txn) rows) (\<lambda>(rows1, out1).
        obind (reserve_keys ctx me txn True (at_writeSet txn) rows1) (\<lambda>(rows2, out2).
        Inr (rows2, out1 @ out2))))"

text \<open>The second loop of \<^verbatim>\<open>read_snapshot\<close>.\<close>

definition finish_reads ::
  "AriaContext \<Rightarrow> nat \<Rightarrow> ('k, 'v) rows \<Rightarrow> ('k, 'v) AriaProgram \<Rightarrow> ('k, 'v) AriaTransaction \<Rightarrow>
   (('k, 'v) AriaTransaction \<times> ('k, 'v) rows \<times> ('k, 'v) outbox) outcome" where
  "finish_reads ctx me rows prog txn =
     (let (no_retry, txn1, out1) = execute ctx me rows prog (txn\<lparr>at_execution_phase := True\<rparr>) in
      obind (reserve_transaction ctx me txn1 rows) (\<lambda>(rows1, out2). Inr (txn1, rows1, out1 @ out2)))"

section \<open>The second phase\<close>

fun analyze_reads ::
  "AriaContext \<Rightarrow> nat \<Rightarrow> ('k, 'v) rows \<Rightarrow> ('k, 'v) AriaRWKey list \<Rightarrow> ('k, 'v) AriaTransaction \<Rightarrow>
   (('k, 'v) AriaTransaction \<times> ('k, 'v) outbox) outcome" where
  "analyze_reads ctx me rows [] txn = Inr (txn, [])"
| "analyze_reads ctx me rows (k # ks) txn =
     (let l = row_of k; master = cx_master ctx (get_partition_id (bitvec k)) in
      if get_local_index_read_bit (bitvec k) then analyze_reads ctx me rows ks txn
      else if master = me
      then
        (let tid = fst (rows l); same = (get_epoch tid = ucast (at_epoch txn)); wts = get_wts tid in
         obind (assert_that same ''epoch == txn.epoch'') (\<lambda>_.
         if same \<and> wts < at_id txn \<and> wts \<noteq> 0 then Inr (txn\<lparr>at_raw := True\<rparr>, [])
         else analyze_reads ctx me rows ks txn))
      else
        obind (analyze_reads ctx me rows ks (txn\<lparr>at_pendingResponses := at_pendingResponses txn + 1\<rparr>)) (\<lambda>(txn1, out).
        Inr (txn1, (master, CheckRequest l (ucast (at_id txn)) (at_tid_offset txn) (at_epoch txn) False) # out)))"

fun analyze_writes ::
  "AriaContext \<Rightarrow> nat \<Rightarrow> ('k, 'v) rows \<Rightarrow> ('k, 'v) AriaRWKey list \<Rightarrow> ('k, 'v) AriaTransaction \<Rightarrow>
   (('k, 'v) AriaTransaction \<times> ('k, 'v) outbox) outcome" where
  "analyze_writes ctx me rows [] txn = Inr (txn, [])"
| "analyze_writes ctx me rows (k # ks) txn =
     (let l = row_of k; master = cx_master ctx (get_partition_id (bitvec k)) in
      if master = me
      then
        (let tid = fst (rows l); same = (get_epoch tid = ucast (at_epoch txn)); rts = get_rts tid; wts = get_wts tid;
             txn1 = (if same \<and> rts < at_id txn \<and> rts \<noteq> 0 then txn\<lparr>at_war := True\<rparr> else txn);
             txn2 = (if same \<and> wts < at_id txn \<and> wts \<noteq> 0 then txn1\<lparr>at_waw := True\<rparr> else txn1)
         in obind (assert_that same ''epoch == txn.epoch'') (\<lambda>_. analyze_writes ctx me rows ks txn2))
      else
        obind (analyze_writes ctx me rows ks (txn\<lparr>at_pendingResponses := at_pendingResponses txn + 1\<rparr>)) (\<lambda>(txn1, out).
        Inr (txn1, (master, CheckRequest l (ucast (at_id txn)) (at_tid_offset txn) (at_epoch txn) True) # out)))"

definition analyze_dependency ::
  "AriaContext \<Rightarrow> nat \<Rightarrow> ('k, 'v) rows \<Rightarrow> ('k, 'v) AriaTransaction \<Rightarrow> (('k, 'v) AriaTransaction \<times> ('k, 'v) outbox) outcome" where
  "analyze_dependency ctx me rows txn =
     (if cx_read_only_optimization ctx \<and> is_read_only txn then Inr (txn, [])
      else
        obind (analyze_reads ctx me rows (at_readSet txn) txn) (\<lambda>(txn1, out1).
        obind (analyze_writes ctx me rows (at_writeSet txn) txn1) (\<lambda>(txn2, out2).
        Inr (txn2, out1 @ out2))))"

fun aria_commit ::
  "AriaContext \<Rightarrow> nat \<Rightarrow> ('k, 'v) AriaRWKey list \<Rightarrow> ('k, 'v) rows \<Rightarrow> ('k, 'v) rows \<times> ('k, 'v) outbox" where
  "aria_commit ctx me [] rows = (rows, [])"
| "aria_commit ctx me (k # ks) rows =
     (let l = row_of k; master = cx_master ctx (get_partition_id (bitvec k)) in
      if master = me then aria_commit ctx me ks (rows(l := (fst (rows l), rk_value k)))
      else (let (rows1, out) = aria_commit ctx me ks rows in (rows1, (master, WriteRequest l (rk_value k)) # out)))"

definition aria_abort :: "('k, 'v) AriaTransaction \<Rightarrow> ('k, 'v) AriaTransaction" where
  "aria_abort txn = txn"

text \<open>The second loop of \<^verbatim>\<open>commit_transactions\<close>: whether the transaction commits, the transaction, the rows and the messages.\<close>

definition decide_transaction ::
  "AriaContext \<Rightarrow> nat \<Rightarrow> ('k, 'v) AriaTransaction \<Rightarrow> ('k, 'v) rows \<Rightarrow>
   bool \<times> ('k, 'v) AriaTransaction \<times> ('k, 'v) rows \<times> ('k, 'v) outbox" where
  "decide_transaction ctx me txn rows =
     (if cx_read_only_optimization ctx \<and> is_read_only txn then (True, txn, rows, [])
      else if at_waw txn then (False, aria_abort txn, rows, [])
      else if cx_snapshot_isolation ctx then (True, txn, aria_commit ctx me (at_writeSet txn) rows)
      else if cx_reordering_optimization ctx
      then
        (if \<not> at_war txn \<or> \<not> at_raw txn then (True, txn, aria_commit ctx me (at_writeSet txn) rows)
         else (False, aria_abort txn, rows, []))
      else if at_raw txn then (False, aria_abort txn, rows, [])
      else (True, txn, aria_commit ctx me (at_writeSet txn) rows))"

section \<open>Message handlers\<close>

text \<open>Each takes the rows and the transactions of the coordinator that receives the message, and gives the answer if there is one.\<close>

type_synonym ('k, 'v) handled = "(('k, 'v) rows \<times> (nat \<Rightarrow> ('k, 'v) AriaTransaction) \<times> ('k, 'v) aria_msg option) outcome"

definition search_request_handler ::
  "('k, 'v) rows \<Rightarrow> (nat \<Rightarrow> ('k, 'v) AriaTransaction) \<Rightarrow> 'k row_id \<Rightarrow> 32 word \<Rightarrow> 32 word \<Rightarrow> 32 word \<Rightarrow> ('k, 'v) handled" where
  "search_request_handler rows txns l tid tid_offset key_offset =
     Inr (rows, txns, Some (SearchResponse (snd (rows l)) tid tid_offset key_offset))"

definition search_response_handler ::
  "AriaContext \<Rightarrow> ('k, 'v) rows \<Rightarrow> (nat \<Rightarrow> ('k, 'v) AriaTransaction) \<Rightarrow> 'v \<Rightarrow> 32 word \<Rightarrow> 32 word \<Rightarrow> 32 word \<Rightarrow> ('k, 'v) handled" where
  "search_response_handler ctx rows txns value tid tid_offset key_offset =
     (let i = unat tid_offset; txn = txns i; j = unat key_offset in
      obind (assert_that (i < cx_batch_size ctx) ''tid_offset < txns.size()'') (\<lambda>_.
      obind (assert_that (at_id txn = ucast tid) ''txns[tid_offset]->id == tid'') (\<lambda>_.
      obind (assert_that (j < length (at_readSet txn)) ''key_offset < readSet.size()'') (\<lambda>_.
      Inr (rows, txns(i := txn\<lparr>at_readSet := (at_readSet txn)[j := (at_readSet txn ! j)\<lparr>rk_value := value\<rparr>],
             at_pendingResponses := at_pendingResponses txn - 1\<rparr>), None)))))"

definition reserve_request_handler ::
  "('k, 'v) rows \<Rightarrow> (nat \<Rightarrow> ('k, 'v) AriaTransaction) \<Rightarrow> 'k row_id \<Rightarrow> 32 word \<Rightarrow> 32 word \<Rightarrow> bool \<Rightarrow> ('k, 'v) handled" where
  "reserve_request_handler rows txns l tid epoch is_write =
     obind (reserve is_write (fst (rows l)) (ucast epoch) tid) (\<lambda>(ok, a). Inr (rows(l := (a, snd (rows l))), txns, None))"

definition check_request_handler ::
  "('k, 'v) rows \<Rightarrow> (nat \<Rightarrow> ('k, 'v) AriaTransaction) \<Rightarrow> 'k row_id \<Rightarrow> 32 word \<Rightarrow> 32 word \<Rightarrow> 32 word \<Rightarrow> bool \<Rightarrow> ('k, 'v) handled" where
  "check_request_handler rows txns l tid tid_offset epoch is_write =
     (let meta = fst (rows l); same = (get_epoch meta = ucast epoch); rts = get_rts meta; wts = get_wts meta;
          war = (is_write \<and> same \<and> rts < ucast tid \<and> rts \<noteq> 0);
          waw = (is_write \<and> same \<and> wts < ucast tid \<and> wts \<noteq> 0);
          raw = (\<not> is_write \<and> same \<and> wts < ucast tid \<and> wts \<noteq> 0)
      in obind (assert_that same ''reserve_epoch == epoch'') (\<lambda>_.
         Inr (rows, txns, Some (CheckResponse tid tid_offset is_write waw war raw))))"

definition check_response_handler ::
  "AriaContext \<Rightarrow> ('k, 'v) rows \<Rightarrow> (nat \<Rightarrow> ('k, 'v) AriaTransaction) \<Rightarrow> 32 word \<Rightarrow> 32 word \<Rightarrow> bool \<Rightarrow> bool \<Rightarrow> bool \<Rightarrow> bool \<Rightarrow>
   ('k, 'v) handled" where
  "check_response_handler ctx rows txns tid tid_offset is_write waw war raw =
     (let i = unat tid_offset; txn = txns i in
      obind (assert_that (i < cx_batch_size ctx) ''tid_offset < txns.size()'') (\<lambda>_.
      obind (assert_that (at_id txn = ucast tid) ''txns[tid_offset]->id == tid'') (\<lambda>_.
      let txn1 = (if is_write
                  then (let t = (if war then txn\<lparr>at_war := True\<rparr> else txn) in if waw then t\<lparr>at_waw := True\<rparr> else t)
                  else if raw then txn\<lparr>at_raw := True\<rparr> else txn)
      in Inr (rows, txns(i := txn1\<lparr>at_pendingResponses := at_pendingResponses txn1 - 1\<rparr>), None))))"

definition write_request_handler ::
  "('k, 'v) rows \<Rightarrow> (nat \<Rightarrow> ('k, 'v) AriaTransaction) \<Rightarrow> 'k row_id \<Rightarrow> 'v \<Rightarrow> ('k, 'v) handled" where
  "write_request_handler rows txns l value = Inr (rows(l := (fst (rows l), value)), txns, None)"

definition handle_message ::
  "AriaContext \<Rightarrow> ('k, 'v) rows \<Rightarrow> (nat \<Rightarrow> ('k, 'v) AriaTransaction) \<Rightarrow> ('k, 'v) aria_msg \<Rightarrow> ('k, 'v) handled" where
  "handle_message ctx rows txns m =
     (case m of
        SearchRequest l tid off j \<Rightarrow> search_request_handler rows txns l tid off j
      | SearchResponse v tid off j \<Rightarrow> search_response_handler ctx rows txns v tid off j
      | ReserveRequest l tid e w \<Rightarrow> reserve_request_handler rows txns l tid e w
      | CheckRequest l tid off e w \<Rightarrow> check_request_handler rows txns l tid off e w
      | CheckResponse tid off w waw war raw \<Rightarrow> check_response_handler ctx rows txns tid off w waw war raw
      | WriteRequest l v \<Rightarrow> write_request_handler rows txns l v)"

section \<open>Batches\<close>

text \<open>
  What the coordinators do between two batches: transactions marked for a retry move to the front. A transaction is an object
  with its query, the program it runs; a slot is \<open>None\<close> for a null pointer.
\<close>

type_synonym ('k, 'v) aria_object = "('k, 'v) AriaProgram \<times> ('k, 'v) AriaTransaction"

fun cleanup_slots :: "nat \<Rightarrow> nat \<Rightarrow> ('k, 'v) aria_object option list \<Rightarrow> nat \<Rightarrow> ('k, 'v) aria_object option list \<times> nat" where
  "cleanup_slots 0 i txns it = (txns, it)"
| "cleanup_slots (Suc n) i txns it =
     (case txns ! i of
        None \<Rightarrow> (txns, it)
      | Some obj \<Rightarrow>
          if at_abort_lock (snd obj) then cleanup_slots n (i + 1) (txns[it := Some obj, i := txns ! it]) (it + 1)
          else cleanup_slots n (i + 1) txns it)"

definition cleanup_batch :: "('k, 'v) aria_object option list \<Rightarrow> ('k, 'v) aria_object option list \<times> nat" where
  "cleanup_batch txns = cleanup_slots (length txns) 0 txns 0"

text \<open>
  The transaction a worker starts in a slot: the one that the workload generates, \<open>fresh\<close>, if the slot is empty or not among the first
  \<open>n_abort\<close>, and otherwise the old one, reset, with its query. A generated transaction is reset by its constructor.
\<close>

definition choose_transaction ::
  "nat \<Rightarrow> nat \<Rightarrow> ('k, 'v) aria_object option \<Rightarrow> ('k, 'v) aria_object \<Rightarrow> ('k, 'v) aria_object" where
  "choose_transaction n_abort i slot fresh =
     (case slot of None \<Rightarrow> fresh | Some obj \<Rightarrow> if n_abort \<le> i then fresh else (fst obj, at_reset (snd obj)))"

text \<open>
  The cluster. \<open>cl_stage\<close> is how far the workers are with each transaction; a packet in the network has a destination, a source and a message.
  The managers let the second phase begin when all workers are through with the first and all its messages are handled.
\<close>

datatype ('k, 'v) packet = Packet (pk_dest: nat) (pk_source: nat) (pk_msg: "('k, 'v) aria_msg")

datatype aria_stage = Waiting | Executed | Reserved | Skipped | Analyzed | Committed | Aborted

datatype ExecutorStatus = Aria_READ | Aria_COMMIT

record ('k, 'v) AriaCluster =
  cl_rows :: "nat \<Rightarrow> ('k, 'v) rows"
  cl_txns :: "nat \<Rightarrow> nat \<Rightarrow> ('k, 'v) AriaTransaction"
  cl_stage :: "nat \<Rightarrow> nat \<Rightarrow> aria_stage"
  cl_net :: "('k, 'v) packet list"
  cl_status :: ExecutorStatus

definition send :: "nat \<Rightarrow> ('k, 'v) outbox \<Rightarrow> ('k, 'v) packet list" where
  "send me out = map (\<lambda>(d, m). Packet d me m) out"

definition upd2 :: "(nat \<Rightarrow> nat \<Rightarrow> 'a) \<Rightarrow> nat \<Rightarrow> nat \<Rightarrow> 'a \<Rightarrow> nat \<Rightarrow> nat \<Rightarrow> 'a" where
  "upd2 f c i x = f(c := (f c)(i := x))"

definition is_slot :: "AriaContext \<Rightarrow> nat \<Rightarrow> nat \<Rightarrow> bool" where
  "is_slot ctx c i \<longleftrightarrow> c < cx_coordinator_num ctx \<and> i < cx_batch_size ctx"

inductive aria_step ::
  "AriaContext \<Rightarrow> 32 word \<Rightarrow> (nat \<Rightarrow> nat \<Rightarrow> ('k, 'v) AriaProgram) \<Rightarrow> ('k, 'v) AriaCluster \<Rightarrow> ('k, 'v) AriaCluster \<Rightarrow> bool"
  for ctx e prog where
  start: "is_slot ctx c i \<Longrightarrow> cl_status s = Aria_READ \<Longrightarrow> cl_stage s c i = Waiting \<Longrightarrow>
    start_transaction ctx c e i (cl_rows s c) (prog c i) (cl_txns s c i) = (txn, out) \<Longrightarrow>
    aria_step ctx e prog s (s\<lparr>cl_txns := upd2 (cl_txns s) c i txn,
      cl_stage := upd2 (cl_stage s) c i (if at_abort_no_retry txn then Skipped else Executed), cl_net := cl_net s @ send c out\<rparr>)"
| reserve: "is_slot ctx c i \<Longrightarrow> cl_status s = Aria_READ \<Longrightarrow> cl_stage s c i = Executed \<Longrightarrow> at_pendingResponses (cl_txns s c i) = 0 \<Longrightarrow>
    finish_reads ctx c (cl_rows s c) (prog c i) (cl_txns s c i) = Inr (txn, rows, out) \<Longrightarrow>
    aria_step ctx e prog s (s\<lparr>cl_txns := upd2 (cl_txns s) c i txn, cl_rows := (cl_rows s)(c := rows),
      cl_stage := upd2 (cl_stage s) c i Reserved, cl_net := cl_net s @ send c out\<rparr>)"
| barrier: "cl_status s = Aria_READ \<Longrightarrow> cl_net s = [] \<Longrightarrow> (\<And>c i. is_slot ctx c i \<Longrightarrow> cl_stage s c i \<in> {Reserved, Skipped}) \<Longrightarrow>
    aria_step ctx e prog s (s\<lparr>cl_status := Aria_COMMIT\<rparr>)"
| analyze: "is_slot ctx c i \<Longrightarrow> cl_status s = Aria_COMMIT \<Longrightarrow> cl_stage s c i = Reserved \<Longrightarrow>
    analyze_dependency ctx c (cl_rows s c) (cl_txns s c i) = Inr (txn, out) \<Longrightarrow>
    aria_step ctx e prog s (s\<lparr>cl_txns := upd2 (cl_txns s) c i txn, cl_stage := upd2 (cl_stage s) c i Analyzed,
      cl_net := cl_net s @ send c out\<rparr>)"
| decide: "is_slot ctx c i \<Longrightarrow> cl_status s = Aria_COMMIT \<Longrightarrow> cl_stage s c i = Analyzed \<Longrightarrow> at_pendingResponses (cl_txns s c i) = 0 \<Longrightarrow>
    decide_transaction ctx c (cl_txns s c i) (cl_rows s c) = (ok, txn, rows, out) \<Longrightarrow>
    aria_step ctx e prog s (s\<lparr>cl_txns := upd2 (cl_txns s) c i txn, cl_rows := (cl_rows s)(c := rows),
      cl_stage := upd2 (cl_stage s) c i (if ok then Committed else Aborted), cl_net := cl_net s @ send c out\<rparr>)"
| deliver: "cl_net s = xs @ Packet d c m # ys \<Longrightarrow> handle_message ctx (cl_rows s d) (cl_txns s d) m = Inr (rows, txns, answer) \<Longrightarrow>
    aria_step ctx e prog s (s\<lparr>cl_rows := (cl_rows s)(d := rows), cl_txns := (cl_txns s)(d := txns),
      cl_net := xs @ ys @ (case answer of None \<Rightarrow> [] | Some r \<Rightarrow> [Packet c d r])\<rparr>)"

text \<open>A batch before it begins, and when it is over.\<close>

definition batch_start :: "('k, 'v) AriaCluster \<Rightarrow> bool" where
  "batch_start s \<longleftrightarrow> cl_status s = Aria_READ \<and> cl_net s = [] \<and> (\<forall>c i. cl_stage s c i = Waiting)"

definition batch_over :: "AriaContext \<Rightarrow> ('k, 'v) AriaCluster \<Rightarrow> bool" where
  "batch_over ctx s \<longleftrightarrow> cl_status s = Aria_COMMIT \<and> cl_net s = [] \<and>
     (\<forall>c i. is_slot ctx c i \<longrightarrow> cl_stage s c i \<in> {Committed, Aborted, Skipped})"

text \<open>
  The next batch: each coordinator cleans up its slots, and each worker takes the transactions it runs by \<open>choose_transaction\<close>.
  The result is the programs of the next batch and the cluster before it begins.
\<close>

definition batch_slots ::
  "AriaContext \<Rightarrow> (nat \<Rightarrow> nat \<Rightarrow> ('k, 'v) AriaProgram) \<Rightarrow> ('k, 'v) AriaCluster \<Rightarrow> nat \<Rightarrow> ('k, 'v) aria_object option list" where
  "batch_slots ctx prog s c = map (\<lambda>i. Some (prog c i, cl_txns s c i)) [0..<cx_batch_size ctx]"

definition next_object ::
  "AriaContext \<Rightarrow> (nat \<Rightarrow> nat \<Rightarrow> ('k, 'v) AriaProgram) \<Rightarrow> (nat \<Rightarrow> nat \<Rightarrow> ('k, 'v) aria_object) \<Rightarrow> ('k, 'v) AriaCluster \<Rightarrow> nat \<Rightarrow> nat \<Rightarrow>
   ('k, 'v) aria_object" where
  "next_object ctx prog fresh s c i =
     (let (slots, n_abort) = cleanup_batch (batch_slots ctx prog s c) in
      if i < length slots then choose_transaction n_abort i (slots ! i) (fresh c i) else (prog c i, cl_txns s c i))"

definition next_batch ::
  "AriaContext \<Rightarrow> (nat \<Rightarrow> nat \<Rightarrow> ('k, 'v) AriaProgram) \<Rightarrow> (nat \<Rightarrow> nat \<Rightarrow> ('k, 'v) aria_object) \<Rightarrow> ('k, 'v) AriaCluster \<Rightarrow>
   (nat \<Rightarrow> nat \<Rightarrow> ('k, 'v) AriaProgram) \<times> ('k, 'v) AriaCluster" where
  "next_batch ctx prog fresh s =
     (\<lambda>c i. fst (next_object ctx prog fresh s c i),
      s\<lparr>cl_txns := \<lambda>c i. snd (next_object ctx prog fresh s c i), cl_stage := \<lambda>c i. Waiting, cl_status := Aria_READ\<rparr>)"

end
