(* ===== verification/Aria_Batch.thy ===== *)
theory Aria_Batch
  imports Aria_Protocol
begin

text \<open>
  What the operations of Aria do, each for itself, and the invariant of a batch in a cluster: how far each transaction is, which
  answers it waits for, what the meta data and the values of each row are, and that no check fails.
\<close>

section \<open>Keys\<close>

lemma key_bits: "t < 32 \<Longrightarrow> bit t n \<Longrightarrow> n < 5" "p < 65536 \<Longrightarrow> bit p n \<Longrightarrow> n < 16" for t p :: "32 word"
proof -
  have b: "n < k" if "unat v < 2 ^ k" "bit v n" for v :: "32 word" and k
  proof -
    have "take_bit k (unat v) = unat v" using that(1) by (simp add: take_bit_nat_eq_self)
    moreover have "bit (unat v) n" using that(2) by (simp add: bit_unsigned_iff)
    ultimately show ?thesis by (metis bit_take_bit_iff)
  qed
  show "t < 32 \<Longrightarrow> bit t n \<Longrightarrow> n < 5" "p < 65536 \<Longrightarrow> bit p n \<Longrightarrow> n < 16"
    using b [of t 5] b [of p 16] by (simp_all add: word_less_nat_alt)
qed

lemma key_masks: "(0x1f :: 32 word) = mask 5" "(0xffff :: 32 word) = mask 16"
  by (simp_all add: mask_eq_exp_minus_1)

lemmas key_defs = get_table_id_def set_table_id_def clear_table_id_def get_partition_id_def set_partition_id_def
  clear_partition_id_def set_read_request_bit_def clear_read_request_bit_def set_local_index_read_bit_def
  clear_local_index_read_bit_def

lemma read_bit_iff: "get_read_request_bit b \<longleftrightarrow> bit b 1" "get_local_index_read_bit b \<longleftrightarrow> bit b 0"
  by (simp_all add: get_read_request_bit_def get_local_index_read_bit_def bit_iff_odd_drop_bit odd_iff_mod_2_eq_one
      and_one_eq del: One_nat_def)

lemma key_fields:
  assumes "t < 32" "p < 65536"
  shows "get_table_id (set_partition_id p (set_table_id t 0)) = t" "get_partition_id (set_partition_id p (set_table_id t 0)) = p"
    "\<not> bit (set_partition_id p (set_table_id t 0)) 0"
proof -
  have t: "\<not> bit t n" if "5 \<le> n" for n using key_bits(1) [OF assms(1), of n] that by auto
  have p: "\<not> bit p n" if "16 \<le> n" for n using key_bits(2) [OF assms(2), of n] that by auto
  show "get_table_id (set_partition_id p (set_table_id t 0)) = t"
  proof (rule bit_eqI)
    fix n
    show "bit (get_table_id (set_partition_id p (set_table_id t 0))) n = bit t n"
      using t [of n] p [of "16 + n"] by (cases "n < 5") (auto simp: key_defs key_masks bit_simps)
  qed
  show "get_partition_id (set_partition_id p (set_table_id t 0)) = p"
  proof (rule bit_eqI)
    fix n
    show "bit (get_partition_id (set_partition_id p (set_table_id t 0))) n = bit p n"
      using p [of n] by (cases "n < 16") (auto simp: key_defs key_masks bit_simps)
  qed
  show "\<not> bit (set_partition_id p (set_table_id t 0)) 0" by (simp add: key_defs key_masks bit_simps)
qed

lemma bit_request_bits:
  "bit (clear_read_request_bit b) n \<longleftrightarrow> bit b n \<and> n \<noteq> 1" "bit (set_read_request_bit b) n \<longleftrightarrow> bit b n \<or> n = 1"
  "bit (clear_local_index_read_bit b) n \<longleftrightarrow> bit b n \<and> n \<noteq> 0" "bit (set_local_index_read_bit b) n \<longleftrightarrow> bit b n \<or> n = 0"
  unfolding set_read_request_bit_def clear_read_request_bit_def set_local_index_read_bit_def clear_local_index_read_bit_def
    bit_and_iff bit_or_iff bit_not_iff bit_push_bit_iff bit_1_iff
  by (auto dest: bit_imp_possible_bit)

lemma bit_key_ids: "bit (get_table_id b) n \<longleftrightarrow> bit b (27 + n) \<and> n < 5" "bit (get_partition_id b) n \<longleftrightarrow> bit b (11 + n) \<and> n < 16"
  by (auto simp: get_table_id_def get_partition_id_def key_masks bit_simps)

lemma key_bit_changes [simp]:
  "get_table_id (set_read_request_bit b) = get_table_id b" "get_partition_id (set_read_request_bit b) = get_partition_id b"
  "get_table_id (clear_read_request_bit b) = get_table_id b" "get_partition_id (clear_read_request_bit b) = get_partition_id b"
  "get_table_id (set_local_index_read_bit b) = get_table_id b" "get_partition_id (set_local_index_read_bit b) = get_partition_id b"
  by (rule bit_eqI, simp add: bit_key_ids bit_request_bits)+

lemma key_bit_flags [simp]:
  "get_read_request_bit (set_read_request_bit b)" "\<not> get_read_request_bit (clear_read_request_bit b)"
  "get_local_index_read_bit (set_read_request_bit b) = get_local_index_read_bit b"
  "get_local_index_read_bit (clear_read_request_bit b) = get_local_index_read_bit b"
  "get_local_index_read_bit (set_local_index_read_bit b)"
  by (auto simp: read_bit_iff bit_request_bits)

section \<open>Reading\<close>

text \<open>The hypotheses on programs: the fields of their keys fit, and there are fewer than \<open>2 ^ 32\<close> reads.\<close>

definition prog_ok :: "('k, 'v) AriaProgram \<Rightarrow> bool" where
  "prog_ok p \<longleftrightarrow> (\<forall>l \<in> snd ` set (pg_reads p) \<union> set (pg_updates p). row_table l < 32 \<and> row_partition l < 65536) \<and>
     length (pg_reads p) < 2 ^ 32 \<and> distinct (pg_updates p)"

definition is_local :: "AriaContext \<Rightarrow> nat \<Rightarrow> ('k, 'v) AriaRWKey \<Rightarrow> bool" where
  "is_local ctx me k \<longleftrightarrow> cx_master ctx (get_partition_id (bitvec k)) = me \<or> get_local_index_read_bit (bitvec k)"

definition served :: "AriaContext \<Rightarrow> nat \<Rightarrow> ('k, 'v) rows \<Rightarrow> ('k, 'v) AriaRWKey \<Rightarrow> ('k, 'v) AriaRWKey" where
  "served ctx me rows k = k\<lparr>rk_value := (if is_local ctx me k then snd (rows (row_of k)) else rk_value k),
     bitvec := clear_read_request_bit (bitvec k)\<rparr>"

definition search_msgs :: "AriaContext \<Rightarrow> nat \<Rightarrow> ('k, 'v) AriaTransaction \<Rightarrow> nat \<Rightarrow> ('k, 'v) outbox" where
  "search_msgs ctx me txn n = map (\<lambda>j. (cx_master ctx (get_partition_id (bitvec (at_readSet txn ! j))),
       SearchRequest (row_of (at_readSet txn ! j)) (ucast (at_id txn)) (at_tid_offset txn) (of_nat j)))
     (filter (\<lambda>j. \<not> is_local ctx me (at_readSet txn ! j)) (rev [0..<n]))"

lemma search_msgs_cong:
  "\<forall>j < n. at_readSet txn ! j = at_readSet txn' ! j \<Longrightarrow> at_id txn = at_id txn' \<Longrightarrow> at_tid_offset txn = at_tid_offset txn' \<Longrightarrow>
   search_msgs ctx me txn n = search_msgs ctx me txn' n"
  by (auto simp: search_msgs_def intro!: map_cong filter_cong)

lemma process_reads_spec:
  assumes "n \<le> length (at_readSet txn)" "\<forall>j < n. get_read_request_bit (bitvec (at_readSet txn ! j))"
  shows "\<exists>dist. process_reads ctx me rows n txn =
    (txn\<lparr>at_readSet := map (served ctx me rows) (take n (at_readSet txn)) @ drop n (at_readSet txn),
         at_pendingResponses := at_pendingResponses txn + length (search_msgs ctx me txn n),
         at_distributed_transaction := dist\<rparr>, search_msgs ctx me txn n)"
  using assms
proof (induction n arbitrary: txn)
  case 0
  show ?case by (intro exI [of _ "at_distributed_transaction txn"]) (simp add: search_msgs_def)
next
  case (Suc n)
  let ?k = "at_readSet txn ! n"
  let ?loc = "is_local ctx me ?k"
  let ?t = "(if ?loc then txn\<lparr>at_readSet := (at_readSet txn)[n := served ctx me rows ?k]\<rparr>
    else txn\<lparr>at_distributed_transaction := True, at_pendingResponses := at_pendingResponses txn + 1,
      at_readSet := (at_readSet txn)[n := served ctx me rows ?k]\<rparr>)"
  let ?out = "if ?loc then [] else [(cx_master ctx (get_partition_id (bitvec ?k)),
    SearchRequest (row_of ?k) (ucast (at_id txn)) (at_tid_offset txn) (of_nat n)) :: nat \<times> ('a, 'b) aria_msg]"
  have n: "n < length (at_readSet txn)" using Suc.prems(1) by simp
  have b: "get_read_request_bit (bitvec ?k)" using Suc.prems(2) by simp
  have *: "process_reads ctx me rows (Suc n) txn = (let (txn3, out3) = process_reads ctx me rows n ?t in (txn3, ?out @ out3))"
    using n b by (cases ?loc) (simp_all add: readRequestHandler_def is_local_def served_def Let_def)
  obtain dist where d: "process_reads ctx me rows n ?t =
    (?t\<lparr>at_readSet := map (served ctx me rows) (take n (at_readSet ?t)) @ drop n (at_readSet ?t),
         at_pendingResponses := at_pendingResponses ?t + length (search_msgs ctx me ?t n),
         at_distributed_transaction := dist\<rparr>, search_msgs ctx me ?t n)"
    using Suc.IH [of ?t] Suc.prems by (cases ?loc) auto
  have m: "search_msgs ctx me ?t n = search_msgs ctx me txn n" by (rule search_msgs_cong) simp_all
  have "search_msgs ctx me txn (Suc n) = ?out @ search_msgs ctx me txn n" by (simp add: search_msgs_def)
  moreover have "map (served ctx me rows) (take n ((at_readSet txn)[n := x])) @ drop n ((at_readSet txn)[n := x]) =
      map (served ctx me rows) (take n (at_readSet txn)) @ x # drop (Suc n) (at_readSet txn)" for x
    using n by (simp add: drop_update_cancel Cons_nth_drop_Suc [symmetric] flip: upd_conv_take_nth_drop)
  ultimately show ?case using * d m n by (cases ?loc; intro exI [of _ dist]) (simp_all add: take_Suc_conv_app_nth)
qed

definition new_read :: "'v \<Rightarrow> bool \<times> 'k row_id \<Rightarrow> ('k, 'v) AriaRWKey" where
  "new_read st r = (case r of (ix, Row t p k) \<Rightarrow>
     \<lparr>bitvec = set_read_request_bit (if ix then set_local_index_read_bit (set_partition_id p (set_table_id t 0))
        else set_partition_id p (set_table_id t 0)), rk_key = k, rk_value = st\<rparr>)"

definition new_write :: "'v \<Rightarrow> 'k row_id \<Rightarrow> ('k, 'v) AriaRWKey" where
  "new_write st l = (case l of Row t p k \<Rightarrow> \<lparr>bitvec = set_partition_id p (set_table_id t 0), rk_key = k, rk_value = st\<rparr>)"

lemma fold_searches:
  "fold (\<lambda>(ix, l). if ix then search_local_index st (row_table l) (row_partition l) (row_key l)
       else search_for_read st (row_table l) (row_partition l) (row_key l)) rs txn =
   (if at_execution_phase txn then txn else txn\<lparr>at_readSet := at_readSet txn @ map (new_read st) rs\<rparr>)"
proof (induction rs arbitrary: txn)
  case (Cons r rs)
  obtain ix t p k where "r = (ix, Row t p k)" by (cases r; cases "snd r") auto
  then show ?case
    by (simp add: Cons.IH search_local_index_def search_for_read_def new_read_def Let_def)
qed simp

lemma fold_updates:
  "fold (\<lambda>l. at_update st (row_table l) (row_partition l) (row_key l)) ls txn =
   (if at_execution_phase txn then txn else txn\<lparr>at_writeSet := at_writeSet txn @ map (new_write st) ls\<rparr>)"
proof (induction ls arbitrary: txn)
  case (Cons l ls)
  obtain t p k where "l = Row t p k" by (cases l)
  then show ?case by (simp add: Cons.IH at_update_def [of st t p k txn] new_write_def Let_def)
qed simp

lemma new_read_simps:
  assumes "prog_ok p" "r \<in> set (pg_reads p)"
  shows "row_of (new_read st r) = snd r" "get_local_index_read_bit (bitvec (new_read st r)) = fst r"
    "get_read_request_bit (bitvec (new_read st r))"
proof -
  obtain ix t q k where e: "r = (ix, Row t q k)" by (cases r; cases "snd r") auto
  with assms have "t < 32" "q < 65536" by (force simp: prog_ok_def)+
  then show "row_of (new_read st r) = snd r" "get_local_index_read_bit (bitvec (new_read st r)) = fst r"
    "get_read_request_bit (bitvec (new_read st r))"
    using e by (auto simp: new_read_def row_of_def key_fields read_bit_iff bit_request_bits)
qed

lemma new_write_simps: "prog_ok p \<Longrightarrow> l \<in> set (pg_updates p) \<Longrightarrow> row_of (new_write st l) = l"
  by (cases l) (force simp: prog_ok_def new_write_def row_of_def key_fields)

definition tid_of :: "AriaContext \<Rightarrow> nat \<Rightarrow> nat \<Rightarrow> u64" where
  "tid_of ctx c i = of_nat (i * cx_coordinator_num ctx + c + 1)"

abbreviation index_and_row :: "('k, 'v) AriaRWKey \<Rightarrow> bool \<times> 'k row_id" where
  "index_and_row k \<equiv> (get_local_index_read_bit (bitvec k), row_of k)"

definition shape :: "AriaContext \<Rightarrow> 32 word \<Rightarrow> ('k, 'v) AriaProgram \<Rightarrow> nat \<Rightarrow> nat \<Rightarrow> ('k, 'v) AriaTransaction \<Rightarrow> bool" where
  "shape ctx e p c i txn \<longleftrightarrow> at_id txn = tid_of ctx c i \<and> at_tid_offset txn = of_nat i \<and> at_epoch txn = e \<and>
     map index_and_row (at_readSet txn) = pg_reads p \<and> (\<forall>k \<in> set (at_readSet txn). \<not> get_read_request_bit (bitvec k)) \<and>
     map row_of (at_writeSet txn) = pg_updates p"

definition no_flags :: "('k, 'v) AriaTransaction \<Rightarrow> bool" where
  "no_flags txn \<longleftrightarrow> \<not> at_raw txn \<and> \<not> at_war txn \<and> \<not> at_waw txn \<and> \<not> at_abort_no_retry txn"

lemma row_of_partition: "get_partition_id (bitvec k) = row_partition (row_of k)"
  by (simp add: row_of_def)

lemma served_simps [simp]: "row_of (served ctx me rows k) = row_of k"
  "get_local_index_read_bit (bitvec (served ctx me rows k)) = get_local_index_read_bit (bitvec k)"
  "\<not> get_read_request_bit (bitvec (served ctx me rows k))"
  by (simp_all add: served_def row_of_def)

text \<open>The requests for the reads of other coordinators' rows.\<close>

definition search_msg :: "AriaContext \<Rightarrow> ('k, 'v) AriaProgram \<Rightarrow> nat \<Rightarrow> nat \<Rightarrow> nat \<Rightarrow> nat \<times> ('k, 'v) aria_msg" where
  "search_msg ctx p c i j = (cx_master ctx (row_partition (snd (pg_reads p ! j))),
     SearchRequest (snd (pg_reads p ! j)) (ucast (tid_of ctx c i)) (of_nat i) (of_nat j))"

definition is_remote :: "AriaContext \<Rightarrow> nat \<Rightarrow> bool \<times> 'k row_id \<Rightarrow> bool" where
  "is_remote ctx c r \<longleftrightarrow> \<not> fst r \<and> cx_master ctx (row_partition (snd r)) \<noteq> c"

lemma start_transaction_spec:
  assumes p: "prog_ok p" "\<not> pg_no_retry p" and st: "start_transaction ctx c e i rows p txn0 = (txn, out)"
  shows "shape ctx e p c i txn" "no_flags txn" "at_pendingResponses txn = length out"
    "out = map (search_msg ctx p c i) (filter (\<lambda>j. is_remote ctx c (pg_reads p ! j)) (rev [0..<length (pg_reads p)]))"
    "\<forall>j < length (pg_reads p). \<not> is_remote ctx c (pg_reads p ! j) \<longrightarrow> rk_value (at_readSet txn ! j) = snd (rows (snd (pg_reads p ! j)))"
proof -
  let ?t0 = "(at_reset txn0)\<lparr>at_epoch := e, at_id := tid_of ctx c i, at_tid_offset := of_nat i, at_execution_phase := False\<rparr>"
  let ?rs = "map (new_read (pg_storage p)) (pg_reads p)"
  let ?t1 = "?t0\<lparr>at_readSet := ?rs\<rparr>"
  let ?n = "length (pg_reads p)"
  have r: "row_of (?rs ! j) = snd (pg_reads p ! j)" "get_local_index_read_bit (bitvec (?rs ! j)) = fst (pg_reads p ! j)"
    "get_read_request_bit (bitvec (?rs ! j))" if "j < ?n" for j
    using new_read_simps [OF p(1) nth_mem [OF that]] that by simp_all
  have "\<forall>j < ?n. get_read_request_bit (bitvec (at_readSet ?t1 ! j))" using r(3) by simp
  then obtain dist where d: "process_reads ctx c rows ?n ?t1 =
      (?t1\<lparr>at_readSet := map (served ctx c rows) ?rs, at_pendingResponses := length (search_msgs ctx c ?t1 ?n),
         at_distributed_transaction := dist\<rparr>, search_msgs ctx c ?t1 ?n)"
    using process_reads_spec [of ?n ?t1 ctx c rows] by (auto simp: at_reset_def)
  have t: "txn = ?t1\<lparr>at_readSet := map (served ctx c rows) ?rs, at_pendingResponses := length (search_msgs ctx c ?t1 ?n),
         at_distributed_transaction := dist, at_writeSet := map (new_write (pg_storage p)) (pg_updates p)\<rparr>"
    and o: "out = search_msgs ctx c ?t1 ?n"
    using st [unfolded start_transaction_def, folded tid_of_def, symmetric] d p(2)
    by (simp_all add: execute_def fold_searches fold_updates process_requests_def at_reset_def Let_def)
  have l: "is_local ctx c (?rs ! j) \<longleftrightarrow> \<not> is_remote ctx c (pg_reads p ! j)" if "j < ?n" for j
    using r(1,2) [OF that] by (auto simp: is_local_def is_remote_def row_of_partition)
  have "map index_and_row (at_readSet txn) = pg_reads p" using r(1,2) by (intro nth_equalityI) (simp_all add: t)
  moreover have "map row_of (at_writeSet txn) = pg_updates p" using new_write_simps [OF p(1) nth_mem]
    by (intro nth_equalityI) (simp_all add: t)
  ultimately show "shape ctx e p c i txn" by (auto simp: t shape_def)
  show "no_flags txn" by (simp add: t no_flags_def at_reset_def)
  show "at_pendingResponses txn = length out" by (simp add: t o)
  show "out = map (search_msg ctx p c i) (filter (\<lambda>j. is_remote ctx c (pg_reads p ! j)) (rev [0..<?n]))"
    unfolding o search_msgs_def using r l by (auto simp: search_msg_def row_of_partition intro!: map_cong filter_cong)
  show "\<forall>j < ?n. \<not> is_remote ctx c (pg_reads p ! j) \<longrightarrow> rk_value (at_readSet txn ! j) = snd (rows (snd (pg_reads p ! j)))"
    using l r(1) by (auto simp: t served_def)
qed

lemma execute_again:
  assumes s: "shape ctx e p c i txn" and p: "\<not> pg_no_retry p"
  shows "execute ctx me rows p (txn\<lparr>at_execution_phase := True\<rparr>) = (False, fill_writes p (txn\<lparr>at_execution_phase := True\<rparr>), [])"
proof -
  have "process_reads ctx me rows (length (at_readSet txn)) (txn\<lparr>at_execution_phase := True\<rparr>) = (txn\<lparr>at_execution_phase := True\<rparr>, [])"
  proof (cases "length (at_readSet txn)")
    case (Suc n)
    then have "at_readSet txn ! n \<in> set (at_readSet txn)" by simp
    with s Suc show ?thesis by (simp add: shape_def)
  qed simp
  then show ?thesis using p by (simp add: execute_def fold_searches fold_updates process_requests_def fill_writes_def)
qed

definition write_values :: "('k, 'v) AriaProgram \<Rightarrow> 'v list \<Rightarrow> ('k, 'v) AriaTransaction \<Rightarrow> bool" where
  "write_values p vs txn \<longleftrightarrow> (\<forall>j < length (pg_updates p). rk_value (at_writeSet txn ! j) = pg_value p vs j)"

lemma fill_writes_spec:
  assumes s: "shape ctx e p c i txn"
  shows "shape ctx e p c i (fill_writes p (txn\<lparr>at_execution_phase := True\<rparr>))"
    "write_values p (map rk_value (at_readSet txn)) (fill_writes p (txn\<lparr>at_execution_phase := True\<rparr>))"
    "at_readSet (fill_writes p (txn\<lparr>at_execution_phase := True\<rparr>)) = at_readSet txn"
    "at_pendingResponses (fill_writes p (txn\<lparr>at_execution_phase := True\<rparr>)) = at_pendingResponses txn"
    "no_flags (fill_writes p (txn\<lparr>at_execution_phase := True\<rparr>)) = no_flags txn"
proof -
  have w: "map row_of (at_writeSet txn) = pg_updates p" using s by (simp add: shape_def)
  then have l: "length (at_writeSet txn) = length (pg_updates p)" by (metis length_map)
  have "row_of (k\<lparr>rk_value := v\<rparr>) = row_of k" for k :: "('a, 'b) AriaRWKey" and v by (simp add: row_of_def)
  then have "map row_of (at_writeSet (fill_writes p (txn\<lparr>at_execution_phase := True\<rparr>))) = pg_updates p"
    unfolding w [symmetric] by (intro nth_equalityI) (simp_all add: fill_writes_def)
  then show "shape ctx e p c i (fill_writes p (txn\<lparr>at_execution_phase := True\<rparr>))"
    using s by (simp add: shape_def fill_writes_def)
  show "write_values p (map rk_value (at_readSet txn)) (fill_writes p (txn\<lparr>at_execution_phase := True\<rparr>))"
    by (simp add: write_values_def fill_writes_def l)
qed (simp_all add: fill_writes_def no_flags_def)

section \<open>Reserving\<close>

text \<open>The rows that a list of keys reserves, and the requests for those of other coordinators.\<close>

definition reserved_rows :: "bool \<Rightarrow> ('k, 'v) AriaRWKey list \<Rightarrow> 'k row_id set" where
  "reserved_rows w ks = row_of ` {k \<in> set ks. w \<or> \<not> get_local_index_read_bit (bitvec k)}"

abbreviation row_master :: "AriaContext \<Rightarrow> 'k row_id \<Rightarrow> nat" where
  "row_master ctx l \<equiv> cx_master ctx (row_partition l)"

lemma small_tid: "ucast (ucast t :: 32 word) = t" if "t < 2 ^ 20" for t :: u64
proof (rule bit_eqI)
  fix n
  show "bit (ucast (ucast t :: 32 word) :: u64) n = bit t n"
    using field_bits(2) [of t n] that by (auto simp: bit_simps)
qed

lemma unat_ucast_64: "unat (ucast e :: u64) = unat e" for e :: "32 word"
  by (rule bit_eqI) (auto simp: bit_simps dest: bit_imp_le_length)

lemma small_epoch: "(ucast e :: u64) < 2 ^ 24" if "e < 2 ^ 24" for e :: "32 word"
  using that by (simp add: word_less_nat_alt unat_ucast_64)

text \<open>What reserving the rows \<open>S\<close> does to the rows of a coordinator, and the requests it sends.\<close>

definition reserve_effect ::
  "AriaContext \<Rightarrow> nat \<Rightarrow> ('k, 'v) AriaTransaction \<Rightarrow> bool \<Rightarrow> 'k row_id set \<Rightarrow> ('k, 'v) rows \<Rightarrow> ('k, 'v) rows \<Rightarrow> ('k, 'v) outbox \<Rightarrow> bool" where
  "reserve_effect ctx me txn w S rows rows' out \<longleftrightarrow> (\<forall>l. snd (rows' l) = snd (rows l)) \<and>
     (\<forall>l R W. row_master ctx l = me \<longrightarrow> reserved (ucast (at_epoch txn)) (fst (rows l)) R W \<longrightarrow> tids_ok R \<longrightarrow> tids_ok W \<longrightarrow>
        reserved (ucast (at_epoch txn)) (fst (rows' l)) (if \<not> w \<and> l \<in> S then insert (at_id txn) R else R)
          (if w \<and> l \<in> S then insert (at_id txn) W else W)) \<and>
     set out = (\<lambda>l. (row_master ctx l, ReserveRequest l (ucast (at_id txn)) (at_epoch txn) w)) ` {l \<in> S. row_master ctx l \<noteq> me}"

definition rows_reserved :: "AriaContext \<Rightarrow> nat \<Rightarrow> 32 word \<Rightarrow> ('k, 'v) rows \<Rightarrow> bool" where
  "rows_reserved ctx me e rows \<longleftrightarrow>
     (\<forall>l. row_master ctx l = me \<longrightarrow> (\<exists>R W. reserved (ucast e) (fst (rows l)) R W \<and> tids_ok R \<and> tids_ok W))"

lemma reserve_effectD:
  assumes "reserve_effect ctx me txn w S rows rows' out"
  shows "snd (rows' l) = snd (rows l)"
    "row_master ctx l = me \<Longrightarrow> reserved (ucast (at_epoch txn)) (fst (rows l)) R W \<Longrightarrow> tids_ok R \<Longrightarrow> tids_ok W \<Longrightarrow>
        reserved (ucast (at_epoch txn)) (fst (rows' l)) (if \<not> w \<and> l \<in> S then insert (at_id txn) R else R)
          (if w \<and> l \<in> S then insert (at_id txn) W else W)"
    "set out = (\<lambda>l. (row_master ctx l, ReserveRequest l (ucast (at_id txn)) (at_epoch txn) w)) ` {l \<in> S. row_master ctx l \<noteq> me}"
  using assms unfolding reserve_effect_def by blast+

lemma reserve_effect_remote:
  assumes "reserve_effect ctx me txn w S rows rows' out" "row_master ctx l \<noteq> me"
  shows "reserve_effect ctx me txn w (insert l S) rows rows'
    ((row_master ctx l, ReserveRequest l (ucast (at_id txn)) (at_epoch txn) w) # out)"
proof -
  have "{x \<in> insert l S. row_master ctx x \<noteq> me} = insert l {x \<in> S. row_master ctx x \<noteq> me}" using assms(2) by auto
  moreover have "(x \<in> insert l S) = (x \<in> S)" if "row_master ctx x = me" for x using that assms(2) by auto
  ultimately show ?thesis using assms(1) unfolding reserve_effect_def by simp
qed

lemma reserve_one:
  assumes t: "0 < at_id txn" "at_id txn < 2 ^ 20" "at_epoch txn < 2 ^ 24" and l: "row_master ctx l = me" and r: "rows_reserved ctx me (at_epoch txn) rows"
  obtains b a where "reserve w (fst (rows l)) (ucast (at_epoch txn)) (ucast (at_id txn)) = Inr (b, a)"
    "reserve_effect ctx me txn w {l} rows (rows(l := (a, snd (rows l)))) []" "rows_reserved ctx me (at_epoch txn) (rows(l := (a, snd (rows l))))"
proof -
  let ?e = "ucast (at_epoch txn) :: u64" and ?id = "ucast (at_id txn) :: 32 word"
  have e: "?e < 2 ^ 24" using t(3) by (rule small_epoch)
  have id: "ucast ?id = at_id txn" using t(2) by (rule small_tid)
  have res: "\<exists>b a'. reserve w (fst (rows l)) ?e ?id = Inr (b, a') \<and>
      reserved ?e a' (if w then R else insert (at_id txn) R) (if w then insert (at_id txn) W else W)"
    if "reserved ?e (fst (rows l)) R W" "tids_ok R" "tids_ok W" for R W
    using reserve_reserved [OF that e, of ?id w] t id by auto
  from r l obtain R0 W0 where 0: "reserved ?e (fst (rows l)) R0 W0" "tids_ok R0" "tids_ok W0" unfolding rows_reserved_def by blast
  from res [OF this] obtain b a where a: "reserve w (fst (rows l)) ?e ?id = Inr (b, a)"
    "reserved ?e a (if w then R0 else insert (at_id txn) R0) (if w then insert (at_id txn) W0 else W0)" by blast
  let ?rows = "rows(l := (a, snd (rows l)))"
  have "reserved ?e (fst (?rows x)) (if \<not> w \<and> x \<in> {l} then insert (at_id txn) R else R) (if w \<and> x \<in> {l} then insert (at_id txn) W else W)"
    if "reserved ?e (fst (rows x)) R W" "tids_ok R" "tids_ok W" for x R W
    using res [of R W] that a(1) by (cases "x = l") (auto split: if_splits)
  then have "reserve_effect ctx me txn w {l} rows ?rows []" using l unfolding reserve_effect_def by auto
  moreover have "tids_ok (if w then R0 else insert (at_id txn) R0)" "tids_ok (if w then insert (at_id txn) W0 else W0)" using 0 t by simp_all
  with a(2) have "\<exists>R W. reserved ?e (fst (?rows l)) R W \<and> tids_ok R \<and> tids_ok W" by (metis fst_conv fun_upd_same)
  then have "rows_reserved ctx me (at_epoch txn) ?rows" using r unfolding rows_reserved_def by (metis fun_upd_other)
  ultimately show thesis using that a(1) by blast
qed

lemma reserve_effect_local:
  assumes "reserve_effect ctx me txn w {l} rows rows1 []" "reserve_effect ctx me txn w S rows1 rows' out" "row_master ctx l = me"
    and t: "0 < at_id txn" "at_id txn < 2 ^ 20"
  shows "reserve_effect ctx me txn w (insert l S) rows rows' out"
proof -
  have ok: "tids_ok (if b then insert (at_id txn) X else X)" if "tids_ok X" for b X using that t by simp
  have "reserved (ucast (at_epoch txn)) (fst (rows' x)) (if \<not> w \<and> x \<in> insert l S then insert (at_id txn) R else R)
        (if w \<and> x \<in> insert l S then insert (at_id txn) W else W)"
    if "row_master ctx x = me" "reserved (ucast (at_epoch txn)) (fst (rows x)) R W" "tids_ok R" "tids_ok W" for x R W
    using reserve_effectD(2) [OF assms(2) that(1) reserve_effectD(2) [OF assms(1) that] ok [OF that(3)] ok [OF that(4)]]
    by (cases w; cases "x = l"; cases "x \<in> S") simp_all
  moreover have "{x \<in> insert l S. row_master ctx x \<noteq> me} = {x \<in> S. row_master ctx x \<noteq> me}" using assms(3) by auto
  ultimately show ?thesis using reserve_effectD(1) [OF assms(1)] reserve_effectD(1,3) [OF assms(2)] unfolding reserve_effect_def by simp
qed

lemma reserve_keys_spec:
  assumes t: "0 < at_id txn" "at_id txn < 2 ^ 20" "at_epoch txn < 2 ^ 24" and "rows_reserved ctx me (at_epoch txn) rows"
  shows "\<exists>rows' out. reserve_keys ctx me txn w ks rows = Inr (rows', out) \<and> rows_reserved ctx me (at_epoch txn) rows' \<and>
    reserve_effect ctx me txn w (reserved_rows w ks) rows rows' out"
  using assms(4)
proof (induction ks arbitrary: rows)
  case Nil
  then show ?case by (simp add: reserved_rows_def reserve_effect_def)
next
  case (Cons k ks)
  let ?l = "row_of k"
  have m: "cx_master ctx (get_partition_id (bitvec k)) = row_master ctx ?l" by (simp add: row_of_partition)
  show ?case
  proof (cases "\<not> w \<and> get_local_index_read_bit (bitvec k)")
    case True
    then have "reserved_rows w (k # ks) = reserved_rows w ks" by (auto simp: reserved_rows_def)
    with Cons True show ?thesis by (simp add: Let_def)
  next
    case False
    then have R: "reserved_rows w (k # ks) = insert ?l (reserved_rows w ks)" by (auto simp: reserved_rows_def)
    show ?thesis
    proof (cases "row_master ctx ?l = me")
      case True
      obtain b a where a: "reserve w (fst (rows ?l)) (ucast (at_epoch txn)) (ucast (at_id txn)) = Inr (b, a)"
        "reserve_effect ctx me txn w {?l} rows (rows(?l := (a, snd (rows ?l)))) []"
        "rows_reserved ctx me (at_epoch txn) (rows(?l := (a, snd (rows ?l))))"
        by (rule reserve_one [OF t True Cons.prems])
      from Cons.IH [OF a(3)] obtain rows' out where IH: "reserve_keys ctx me txn w ks (rows(?l := (a, snd (rows ?l)))) = Inr (rows', out)"
        "rows_reserved ctx me (at_epoch txn) rows'" "reserve_effect ctx me txn w (reserved_rows w ks) (rows(?l := (a, snd (rows ?l)))) rows' out" by blast
      have "reserve_keys ctx me txn w (k # ks) rows = Inr (rows', out)" using False True a(1) IH(1) by (auto simp: Let_def m)
      with IH(2) reserve_effect_local [OF a(2) IH(3) True t(1,2)] show ?thesis unfolding R by blast
    next
      case F: False
      from Cons.IH [OF Cons.prems] obtain rows' out where IH: "reserve_keys ctx me txn w ks rows = Inr (rows', out)"
        "rows_reserved ctx me (at_epoch txn) rows'" "reserve_effect ctx me txn w (reserved_rows w ks) rows rows' out" by blast
      have "reserve_keys ctx me txn w (k # ks) rows =
          Inr (rows', (row_master ctx ?l, ReserveRequest ?l (ucast (at_id txn)) (at_epoch txn) w) # out)"
        using False F IH(1) by (auto simp: Let_def m)
      with IH(2) reserve_effect_remote [OF IH(3) F] show ?thesis unfolding R by blast
    qed
  qed
qed

definition reads_of :: "('k, 'v) AriaProgram \<Rightarrow> 'k row_id set" where
  "reads_of p = {l. (False, l) \<in> set (pg_reads p)}"

definition writes_of :: "('k, 'v) AriaProgram \<Rightarrow> 'k row_id set" where
  "writes_of p = set (pg_updates p)"

definition touches :: "bool \<Rightarrow> ('k, 'v) AriaProgram \<Rightarrow> 'k row_id set" where
  "touches w p = (if w then writes_of p else reads_of p)"

text \<open>A transaction that the optimization for read-only transactions exempts.\<close>

definition exempt :: "AriaContext \<Rightarrow> ('k, 'v) AriaProgram \<Rightarrow> bool" where
  "exempt ctx p \<longleftrightarrow> cx_read_only_optimization ctx \<and> pg_updates p = []"

lemma shapeD:
  assumes "shape ctx e p c i txn"
  shows "at_id txn = tid_of ctx c i" "at_tid_offset txn = of_nat i" "at_epoch txn = e" "is_read_only txn \<longleftrightarrow> pg_updates p = []"
    "reserved_rows False (at_readSet txn) = reads_of p" "reserved_rows True (at_writeSet txn) = writes_of p"
    "length (at_readSet txn) = length (pg_reads p)" "length (at_writeSet txn) = length (pg_updates p)"
proof -
  have r: "map index_and_row (at_readSet txn) = pg_reads p" and w: "map row_of (at_writeSet txn) = pg_updates p"
    using assms by (simp_all add: shape_def)
  show "is_read_only txn \<longleftrightarrow> pg_updates p = []" using w by (auto simp: is_read_only_def)
  show "reserved_rows False (at_readSet txn) = reads_of p" 
    unfolding reads_of_def r [symmetric] set_map reserved_rows_def image_def by (intro Collect_cong) (simp, blast)
  show "reserved_rows True (at_writeSet txn) = writes_of p" unfolding writes_of_def w [symmetric] reserved_rows_def by simp
  show "length (at_readSet txn) = length (pg_reads p)" "length (at_writeSet txn) = length (pg_updates p)"
    using arg_cong [OF r, of length] arg_cong [OF w, of length] by simp_all
qed (use assms in \<open>simp_all add: shape_def\<close>)

definition reserve_msg :: "AriaContext \<Rightarrow> 32 word \<Rightarrow> nat \<Rightarrow> nat \<Rightarrow> bool \<Rightarrow> 'k row_id \<Rightarrow> nat \<times> ('k, 'v) aria_msg" where
  "reserve_msg ctx e c i w l = (row_master ctx l, ReserveRequest l (ucast (tid_of ctx c i)) e w)"

lemma reserve_transaction_spec:
  assumes s: "shape ctx e p c i txn" and t: "0 < tid_of ctx c i" "tid_of ctx c i < 2 ^ 20" "e < 2 ^ 24" and r: "rows_reserved ctx c e rows"
  shows "\<exists>rows' out. reserve_transaction ctx c txn rows = Inr (rows', out) \<and> (\<forall>l. snd (rows' l) = snd (rows l)) \<and>
    (\<forall>l R W. row_master ctx l = c \<longrightarrow> reserved (ucast e) (fst (rows l)) R W \<longrightarrow> tids_ok R \<longrightarrow> tids_ok W \<longrightarrow>
       reserved (ucast e) (fst (rows' l)) (if \<not> exempt ctx p \<and> l \<in> reads_of p then insert (tid_of ctx c i) R else R)
         (if \<not> exempt ctx p \<and> l \<in> writes_of p then insert (tid_of ctx c i) W else W)) \<and>
    set out = (if exempt ctx p then {} else \<Union>w. reserve_msg ctx e c i w ` {l \<in> touches w p. row_master ctx l \<noteq> c})"
proof (cases "exempt ctx p")
  case True
  with shapeD(4) [OF s] show ?thesis by (simp add: reserve_transaction_def exempt_def)
next
  case False
  note sd = shapeD [OF s]
  have t': "0 < at_id txn" "at_id txn < 2 ^ 20" "at_epoch txn < 2 ^ 24" and r': "rows_reserved ctx c (at_epoch txn) rows"
    using t r sd by simp_all
  from reserve_keys_spec [OF t' r', of False "at_readSet txn"] obtain rows1 out1 where
    1: "reserve_keys ctx c txn False (at_readSet txn) rows = Inr (rows1, out1)" "rows_reserved ctx c (at_epoch txn) rows1"
      "reserve_effect ctx c txn False (reads_of p) rows rows1 out1" unfolding sd by blast
  from reserve_keys_spec [OF t' 1(2), of True "at_writeSet txn"] obtain rows2 out2 where
    2: "reserve_keys ctx c txn True (at_writeSet txn) rows1 = Inr (rows2, out2)"
      "reserve_effect ctx c txn True (writes_of p) rows1 rows2 out2" unfolding sd by blast
  have "reserve_transaction ctx c txn rows = Inr (rows2, out1 @ out2)"
    using False sd(4) 1(1) 2(1) by (auto simp: reserve_transaction_def exempt_def)
  moreover have "reserved (ucast e) (fst (rows2 l)) (if l \<in> reads_of p then insert (tid_of ctx c i) R else R)
         (if l \<in> writes_of p then insert (tid_of ctx c i) W else W)"
    if "row_master ctx l = c" "reserved (ucast e) (fst (rows l)) R W" "tids_ok R" "tids_ok W" for l R W
    using reserve_effectD(2) [OF 2(2) that(1), of "if l \<in> reads_of p then insert (tid_of ctx c i) R else R" W]
      reserve_effectD(2) [OF 1(3) that(1), of R W] that t unfolding sd by (auto split: if_splits)
  moreover have "set (out1 @ out2) = (\<Union>w. reserve_msg ctx e c i w ` {l \<in> touches w p. row_master ctx l \<noteq> c})"
    using reserve_effectD(3) [OF 1(3)] reserve_effectD(3) [OF 2(2)] unfolding sd
    by (simp add: UNIV_bool touches_def reserve_msg_def [abs_def] Un_commute)
  moreover have "snd (rows2 l) = snd (rows l)" for l using reserve_effectD(1) [OF 1(3)] reserve_effectD(1) [OF 2(2)] by simp
  ultimately show ?thesis using False by (intro exI [of _ rows2] exI [of _ "out1 @ out2"]) simp
qed

section \<open>Analyzing\<close>

definition same_txn :: "('k, 'v) AriaTransaction \<Rightarrow> ('k, 'v) AriaTransaction \<Rightarrow> bool" where
  "same_txn txn txn' \<longleftrightarrow> at_id txn' = at_id txn \<and> at_tid_offset txn' = at_tid_offset txn \<and> at_epoch txn' = at_epoch txn \<and>
     at_readSet txn' = at_readSet txn \<and> at_writeSet txn' = at_writeSet txn \<and> at_abort_no_retry txn' = at_abort_no_retry txn \<and>
     at_abort_lock txn' = at_abort_lock txn"

lemma same_txn_shape: "same_txn txn txn' \<Longrightarrow> shape ctx e p c i txn' = shape ctx e p c i txn"
  by (simp add: same_txn_def shape_def)

text \<open>A row with a smaller writer, and one with a smaller reader.\<close>

definition written_before :: "32 word \<Rightarrow> u64 \<Rightarrow> u64 \<Rightarrow> bool" where
  "written_before e tid a \<longleftrightarrow> get_epoch a = ucast e \<and> get_wts a < tid \<and> get_wts a \<noteq> 0"

definition read_before :: "32 word \<Rightarrow> u64 \<Rightarrow> u64 \<Rightarrow> bool" where
  "read_before e tid a \<longleftrightarrow> get_epoch a = ucast e \<and> get_rts a < tid \<and> get_rts a \<noteq> 0"

definition check_msg :: "AriaContext \<Rightarrow> ('k, 'v) AriaTransaction \<Rightarrow> bool \<Rightarrow> 'k row_id \<Rightarrow> nat \<times> ('k, 'v) aria_msg" where
  "check_msg ctx txn w l = (row_master ctx l, CheckRequest l (ucast (at_id txn)) (at_tid_offset txn) (at_epoch txn) w)"

lemma analyze_reads_spec:
  assumes "analyze_reads ctx me rows ks txn = Inr (txn', out)"
  shows "same_txn txn txn' \<and> at_pendingResponses txn' = at_pendingResponses txn + length out \<and> at_war txn' = at_war txn \<and> at_waw txn' = at_waw txn \<and>
    (at_raw txn \<longrightarrow> at_raw txn') \<and>
    (at_raw txn' \<longrightarrow> at_raw txn \<or> (\<exists>l \<in> reserved_rows False ks. row_master ctx l = me \<and> written_before (at_epoch txn) (at_id txn) (fst (rows l)))) \<and>
    set out \<subseteq> check_msg ctx txn False ` {l \<in> reserved_rows False ks. row_master ctx l \<noteq> me} \<and>
    (at_raw txn' \<or> (\<forall>l \<in> reserved_rows False ks. (row_master ctx l = me \<longrightarrow> \<not> written_before (at_epoch txn) (at_id txn) (fst (rows l))) \<and>
       (row_master ctx l \<noteq> me \<longrightarrow> check_msg ctx txn False l \<in> set out)))"
  using assms
proof (induction ks arbitrary: txn txn' out)
  case Nil
  then show ?case by (simp add: same_txn_def reserved_rows_def)
next
  case (Cons k ks)
  let ?l = "row_of k"
  have m: "cx_master ctx (get_partition_id (bitvec k)) = row_master ctx ?l" by (simp add: row_of_partition)
  show ?case
  proof (cases "get_local_index_read_bit (bitvec k)")
    case True
    then have "reserved_rows False (k # ks) = reserved_rows False ks" by (auto simp: reserved_rows_def)
    with Cons True show ?thesis by (simp add: Let_def)
  next
    case False
    then have R: "reserved_rows False (k # ks) = insert ?l (reserved_rows False ks)" by (auto simp: reserved_rows_def)
    show ?thesis
    proof (cases "row_master ctx ?l = me")
      case True
      show ?thesis
      proof (cases "written_before (at_epoch txn) (at_id txn) (fst (rows ?l))")
        case w: True
        with False True Cons.prems have "txn' = txn\<lparr>at_raw := True\<rparr>" "out = []" by (auto simp: Let_def m written_before_def split: if_splits)
        with w True show ?thesis unfolding R by (simp add: same_txn_def)
      next
        case w: False
        with False True Cons.prems have "analyze_reads ctx me rows ks txn = Inr (txn', out)" by (auto simp: Let_def m written_before_def split: if_splits)
        from Cons.IH [OF this] w True show ?thesis unfolding R by auto
      qed
    next
      case F: False
      let ?t = "txn\<lparr>at_pendingResponses := at_pendingResponses txn + 1\<rparr>"
      from False F Cons.prems obtain out1 where o: "analyze_reads ctx me rows ks ?t = Inr (txn', out1)" "out = check_msg ctx txn False ?l # out1"
        by (auto simp: Let_def m check_msg_def split: prod.splits)
      have c: "check_msg ctx ?t False l = check_msg ctx txn False l" for l by (simp add: check_msg_def)
      let ?M = "\<lambda>S. check_msg ctx txn False ` {l \<in> S. row_master ctx l \<noteq> me}"
      note ih = Cons.IH [OF o(1), unfolded c, simplified]
      have "set out1 \<subseteq> ?M (reserved_rows False ks)" using ih by simp
      moreover have "?M (insert ?l (reserved_rows False ks)) = insert (check_msg ctx txn False ?l) (?M (reserved_rows False ks))"
        using F by (auto intro!: arg_cong2 [of _ _ _ _ image])
      ultimately have "set out \<subseteq> ?M (reserved_rows False (k # ks))" unfolding R o(2) by (simp add: subset_insertI2)
      moreover have "at_raw txn' \<or> (\<forall>l \<in> reserved_rows False (k # ks). 
          (row_master ctx l = me \<longrightarrow> \<not> written_before (at_epoch txn) (at_id txn) (fst (rows l))) \<and>
          (row_master ctx l \<noteq> me \<longrightarrow> check_msg ctx txn False l \<in> set out))"
        using ih F unfolding R o(2) by (cases "at_raw txn'") simp_all
      moreover have "at_raw txn' \<longrightarrow> at_raw txn \<or>
          (\<exists>l \<in> reserved_rows False (k # ks). row_master ctx l = me \<and> written_before (at_epoch txn) (at_id txn) (fst (rows l)))"
        using ih unfolding R by blast
      moreover have "same_txn txn txn'" using ih by (simp add: same_txn_def)
      moreover have "at_pendingResponses txn' = at_pendingResponses txn + length out" using ih o(2) by simp
      ultimately show ?thesis using ih by blast
    qed
  qed
qed

lemma analyze_writes_spec:
  assumes "analyze_writes ctx me rows ks txn = Inr (txn', out)"
  shows "same_txn txn txn' \<and> at_pendingResponses txn' = at_pendingResponses txn + length out \<and> at_raw txn' = at_raw txn \<and>
    (at_war txn' \<longleftrightarrow> at_war txn \<or> (\<exists>l \<in> reserved_rows True ks. row_master ctx l = me \<and> read_before (at_epoch txn) (at_id txn) (fst (rows l)))) \<and>
    (at_waw txn' \<longleftrightarrow> at_waw txn \<or> (\<exists>l \<in> reserved_rows True ks. row_master ctx l = me \<and> written_before (at_epoch txn) (at_id txn) (fst (rows l)))) \<and>
    set out = check_msg ctx txn True ` {l \<in> reserved_rows True ks. row_master ctx l \<noteq> me}"
  using assms
proof (induction ks arbitrary: txn txn' out)
  case Nil
  then show ?case by (simp add: same_txn_def reserved_rows_def)
next
  case (Cons k ks)
  let ?l = "row_of k"
  have m: "cx_master ctx (get_partition_id (bitvec k)) = row_master ctx ?l" by (simp add: row_of_partition)
  have R: "reserved_rows True (k # ks) = insert ?l (reserved_rows True ks)" by (auto simp: reserved_rows_def)
  show ?case
  proof (cases "row_master ctx ?l = me")
    case True
    let ?r = "read_before (at_epoch txn) (at_id txn) (fst (rows ?l))" and ?w = "written_before (at_epoch txn) (at_id txn) (fst (rows ?l))"
    let ?t1 = "if ?r then txn\<lparr>at_war := True\<rparr> else txn"
    let ?t = "if ?w then ?t1\<lparr>at_waw := True\<rparr> else ?t1"
    have "analyze_writes ctx me rows ks ?t = Inr (txn', out)"
      using Cons.prems unfolding read_before_def written_before_def
      by (simp only: analyze_writes.simps Let_def m True simp_thms if_True obind_assert split: if_splits) simp_all
    note ih = Cons.IH [OF this]
    have t: "at_id ?t = at_id txn" "at_epoch ?t = at_epoch txn" "same_txn ?t txn' = same_txn txn txn'" "at_pendingResponses ?t = at_pendingResponses txn"
      "at_raw ?t = at_raw txn" "at_war ?t = (at_war txn \<or> ?r)" "at_waw ?t = (at_waw txn \<or> ?w)" "check_msg ctx ?t True = check_msg ctx txn True"
      by (auto simp: same_txn_def check_msg_def [abs_def])
    have "{l \<in> insert ?l (reserved_rows True ks). row_master ctx l \<noteq> me} = {l \<in> reserved_rows True ks. row_master ctx l \<noteq> me}"
      using True by auto
    with ih True show ?thesis unfolding R t by simp
  next
    case False
    let ?t = "txn\<lparr>at_pendingResponses := at_pendingResponses txn + 1\<rparr>"
    from False Cons.prems obtain out1 where o: "analyze_writes ctx me rows ks ?t = Inr (txn', out1)" "out = check_msg ctx txn True ?l # out1"
      by (auto simp: Let_def m check_msg_def split: prod.splits)
    have c: "check_msg ctx (txn\<lparr>at_pendingResponses := n\<rparr>) True = check_msg ctx txn True" for n by (simp add: check_msg_def [abs_def])
    have "{l \<in> insert ?l (reserved_rows True ks). row_master ctx l \<noteq> me} = insert ?l {l \<in> reserved_rows True ks. row_master ctx l \<noteq> me}"
      using False by auto
    with Cons.IH [OF o(1)] False o(2) show ?thesis unfolding R by (simp add: same_txn_def c)
  qed
qed

text \<open>The checks hold for rows that were reserved in the batch.\<close>

lemma analyze_reads_total:
  assumes "\<forall>l \<in> reserved_rows False ks. row_master ctx l = me \<longrightarrow> get_epoch (fst (rows l)) = ucast (at_epoch txn)"
  shows "\<exists>txn' out. analyze_reads ctx me rows ks txn = Inr (txn', out)"
  using assms
proof (induction ks arbitrary: txn)
  case (Cons k ks)
  let ?t = "txn\<lparr>at_pendingResponses := at_pendingResponses txn + 1\<rparr>"
  have "\<forall>l \<in> reserved_rows False ks. row_master ctx l = me \<longrightarrow> get_epoch (fst (rows l)) = ucast (at_epoch txn)"
    using Cons.prems by (auto simp: reserved_rows_def)
  then obtain txn1 out1 txn2 out2 where "analyze_reads ctx me rows ks txn = Inr (txn1, out1)" "analyze_reads ctx me rows ks ?t = Inr (txn2, out2)"
    using Cons.IH [of txn] Cons.IH [of ?t] by auto
  moreover have "\<not> get_local_index_read_bit (bitvec k) \<and> row_master ctx (row_of k) = me \<Longrightarrow> get_epoch (fst (rows (row_of k))) = ucast (at_epoch txn)"
    using Cons.prems by (auto simp: reserved_rows_def)
  ultimately show ?case by (auto simp: Let_def row_of_partition)
qed simp

lemma analyze_writes_total:
  assumes "\<forall>l \<in> reserved_rows True ks. row_master ctx l = me \<longrightarrow> get_epoch (fst (rows l)) = ucast (at_epoch txn)"
  shows "\<exists>txn' out. analyze_writes ctx me rows ks txn = Inr (txn', out)"
  using assms
proof (induction ks arbitrary: txn)
  case (Cons k ks)
  have ih: "\<exists>txn' out. analyze_writes ctx me rows ks t = Inr (txn', out)" if "at_epoch t = at_epoch txn" for t
    using Cons.prems that by (intro Cons.IH) (auto simp: reserved_rows_def)
  show ?case
  proof (cases "row_master ctx (row_of k) = me")
    case True
    then have "get_epoch (fst (rows (row_of k))) = ucast (at_epoch txn)" using Cons.prems by (auto simp: reserved_rows_def)
    with True show ?thesis using ih by (auto simp: Let_def row_of_partition)
  next
    case False
    obtain txn2 out2 where "analyze_writes ctx me rows ks (txn\<lparr>at_pendingResponses := at_pendingResponses txn + 1\<rparr>) = Inr (txn2, out2)"
      using ih [of "txn\<lparr>at_pendingResponses := at_pendingResponses txn + 1\<rparr>"] by auto
    with False show ?thesis by (auto simp: Let_def row_of_partition)
  qed
qed simp

section \<open>Committing\<close>

lemma aria_commit_spec:
  assumes "aria_commit ctx me ks rows = (rows', out)" "distinct (map row_of ks)"
  shows "(\<forall>l. fst (rows' l) = fst (rows l)) \<and> (\<forall>k \<in> set ks. row_master ctx (row_of k) = me \<longrightarrow> snd (rows' (row_of k)) = rk_value k) \<and>
    (\<forall>l. l \<notin> row_of ` set ks \<or> row_master ctx l \<noteq> me \<longrightarrow> snd (rows' l) = snd (rows l)) \<and>
    set out = (\<lambda>k. (row_master ctx (row_of k), WriteRequest (row_of k) (rk_value k))) ` {k \<in> set ks. row_master ctx (row_of k) \<noteq> me}"
  using assms
proof (induction ks arbitrary: rows rows' out)
  case Nil
  then show ?case by simp
next
  case (Cons k ks)
  let ?l = "row_of k"
  have m: "cx_master ctx (get_partition_id (bitvec k)) = row_master ctx ?l" by (simp add: row_of_partition)
  show ?case
  proof (cases "row_master ctx ?l = me")
    case True
    with Cons.prems have c: "aria_commit ctx me ks (rows(?l := (fst (rows ?l), rk_value k))) = (rows', out)" by (simp add: Let_def m)
    have d: "distinct (map row_of ks)" using Cons.prems(2) by simp
    have ih: "fst (rows' l) = fst ((rows(?l := (fst (rows ?l), rk_value k))) l)"
      "x \<in> set ks \<Longrightarrow> row_master ctx (row_of x) = me \<Longrightarrow> snd (rows' (row_of x)) = rk_value x"
      "l \<notin> row_of ` set ks \<or> row_master ctx l \<noteq> me \<Longrightarrow> snd (rows' l) = snd ((rows(?l := (fst (rows ?l), rk_value k))) l)"
      "set out = (\<lambda>k. (row_master ctx (row_of k), WriteRequest (row_of k) (rk_value k))) ` {k \<in> set ks. row_master ctx (row_of k) \<noteq> me}"
      for l x using Cons.IH [OF c d] by blast+
    have n: "?l \<notin> row_of ` set ks" using Cons.prems(2) by auto
    have "{x \<in> set (k # ks). row_master ctx (row_of x) \<noteq> me} = {x \<in> set ks. row_master ctx (row_of x) \<noteq> me}" using True by auto
    then have "set out = (\<lambda>k. (row_master ctx (row_of k), WriteRequest (row_of k) (rk_value k))) `
        {x \<in> set (k # ks). row_master ctx (row_of x) \<noteq> me}" using ih(4) by simp
    moreover have "fst (rows' l) = fst (rows l)" for l using ih(1) [of l] by (cases "l = ?l") simp_all
    moreover have "snd (rows' (row_of x)) = rk_value x" if "x \<in> set (k # ks)" "row_master ctx (row_of x) = me" for x
      using that ih(2) [of x] ih(3) [of ?l] n by (cases "x = k") auto
    moreover have "snd (rows' l) = snd (rows l)" if "l \<notin> row_of ` set (k # ks) \<or> row_master ctx l \<noteq> me" for l
      using that ih(3) [of l] True by (cases "l = ?l") auto
    ultimately show ?thesis by blast
  next
    case False
    with Cons.prems obtain out1 where o: "aria_commit ctx me ks rows = (rows', out1)" "out = (row_master ctx ?l, WriteRequest ?l (rk_value k)) # out1"
      by (auto simp: Let_def m split: prod.splits)
    note ih = Cons.IH [OF o(1)]
    have "{x \<in> set (k # ks). row_master ctx (row_of x) \<noteq> me} = insert k {x \<in> set ks. row_master ctx (row_of x) \<noteq> me}" using False by auto
    with ih Cons.prems(2) False o(2) show ?thesis by simp
  qed
qed

section \<open>The invariant\<close>

text \<open>What a batch needs: few enough transactions and epochs for the fields of the meta data, and rows of earlier epochs.\<close>

definition aria_setup :: "AriaContext \<Rightarrow> 32 word \<Rightarrow> (nat \<Rightarrow> nat \<Rightarrow> ('k, 'v) AriaProgram) \<Rightarrow> (nat \<Rightarrow> ('k, 'v) rows) \<Rightarrow> bool" where
  "aria_setup ctx e prog rows0 \<longleftrightarrow> cx_coordinator_num ctx * cx_batch_size ctx < 2 ^ 20 \<and> e < 2 ^ 24 \<and>
     (\<forall>q. cx_master ctx q < cx_coordinator_num ctx) \<and> (\<forall>c i. is_slot ctx c i \<longrightarrow> prog_ok (prog c i)) \<and>
     (\<forall>c l. get_epoch (fst (rows0 c l)) < ucast e)"

text \<open>The messages on which a transaction waits, and those about a row.\<close>

fun for_slot :: "nat \<Rightarrow> nat \<Rightarrow> ('k, 'v) packet \<Rightarrow> bool" where
  "for_slot c i (Packet d src (SearchRequest l tid off j)) \<longleftrightarrow> src = c \<and> unat off = i"
| "for_slot c i (Packet d src (SearchResponse v tid off j)) \<longleftrightarrow> d = c \<and> unat off = i"
| "for_slot c i (Packet d src (CheckRequest l tid off e w)) \<longleftrightarrow> src = c \<and> unat off = i"
| "for_slot c i (Packet d src (CheckResponse tid off w a b r)) \<longleftrightarrow> d = c \<and> unat off = i"
| "for_slot c i (Packet d src (ReserveRequest l tid e w)) \<longleftrightarrow> False"
| "for_slot c i (Packet d src (WriteRequest l v)) \<longleftrightarrow> False"

fun about_row :: "'k row_id \<Rightarrow> ('k, 'v) packet \<Rightarrow> bool" where
  "about_row l (Packet d src (ReserveRequest l' tid e w)) \<longleftrightarrow> l' = l"
| "about_row l (Packet d src (WriteRequest l' v)) \<longleftrightarrow> l' = l"
| "about_row l m \<longleftrightarrow> False"

text \<open>The value that a read is to find, and those that the updates are to write.\<close>

definition read_value :: "AriaContext \<Rightarrow> (nat \<Rightarrow> ('k, 'v) rows) \<Rightarrow> nat \<Rightarrow> bool \<times> 'k row_id \<Rightarrow> 'v" where
  "read_value ctx rows c r = snd (rows (if is_remote ctx c r then row_master ctx (snd r) else c) (snd r))"

definition read_values :: "AriaContext \<Rightarrow> (nat \<Rightarrow> ('k, 'v) rows) \<Rightarrow> nat \<Rightarrow> ('k, 'v) AriaProgram \<Rightarrow> 'v list" where
  "read_values ctx rows c p = map (read_value ctx rows c) (pg_reads p)"

definition new_value :: "AriaContext \<Rightarrow> (nat \<Rightarrow> ('k, 'v) rows) \<Rightarrow> (nat \<Rightarrow> nat \<Rightarrow> ('k, 'v) AriaProgram) \<Rightarrow> nat \<Rightarrow> nat \<Rightarrow> nat \<Rightarrow> 'v" where
  "new_value ctx rows prog c i j = pg_value (prog c i) (read_values ctx rows c (prog c i)) j"

text \<open>The transactions that reserve a row, and the conflicts this gives.\<close>

definition reserving :: "AriaContext \<Rightarrow> (nat \<Rightarrow> nat \<Rightarrow> ('k, 'v) AriaProgram) \<Rightarrow> bool \<Rightarrow> 'k row_id \<Rightarrow> nat \<Rightarrow> nat \<Rightarrow> bool" where
  "reserving ctx prog w l c i \<longleftrightarrow> is_slot ctx c i \<and> \<not> pg_no_retry (prog c i) \<and> \<not> exempt ctx (prog c i) \<and> l \<in> touches w (prog c i)"

definition tids :: "AriaContext \<Rightarrow> (nat \<Rightarrow> nat \<Rightarrow> ('k, 'v) AriaProgram) \<Rightarrow> bool \<Rightarrow> 'k row_id \<Rightarrow> u64 set" where
  "tids ctx prog w l = {tid_of ctx c i | c i. reserving ctx prog w l c i}"

definition earlier :: "AriaContext \<Rightarrow> (nat \<Rightarrow> nat \<Rightarrow> ('k, 'v) AriaProgram) \<Rightarrow> bool \<Rightarrow> 'k row_id \<Rightarrow> u64 \<Rightarrow> bool" where
  "earlier ctx prog w l t \<longleftrightarrow> (\<exists>t' \<in> tids ctx prog w l. t' < t)"

text \<open>The messages for the read \<open>j\<close> of a transaction, and for the check of a row.\<close>

definition search_for ::
  "AriaContext \<Rightarrow> (nat \<Rightarrow> nat \<Rightarrow> ('k, 'v) AriaProgram) \<Rightarrow> (nat \<Rightarrow> ('k, 'v) rows) \<Rightarrow> nat \<Rightarrow> nat \<Rightarrow> nat \<Rightarrow> ('k, 'v) packet \<Rightarrow> bool" where
  "search_for ctx prog rows0 c i j m \<longleftrightarrow> j < length (pg_reads (prog c i)) \<and> is_remote ctx c (pg_reads (prog c i) ! j) \<and>
     (\<exists>d src. m = Packet d src (SearchRequest (snd (pg_reads (prog c i) ! j)) (ucast (tid_of ctx c i)) (of_nat i) (of_nat j)) \<and>
        src = c \<and> d = row_master ctx (snd (pg_reads (prog c i) ! j)) \<or>
      m = Packet d src (SearchResponse (read_value ctx rows0 c (pg_reads (prog c i) ! j)) (ucast (tid_of ctx c i)) (of_nat i) (of_nat j)) \<and> d = c)"

definition check_for ::
  "AriaContext \<Rightarrow> 32 word \<Rightarrow> (nat \<Rightarrow> nat \<Rightarrow> ('k, 'v) AriaProgram) \<Rightarrow> nat \<Rightarrow> nat \<Rightarrow> bool \<Rightarrow> 'k row_id \<Rightarrow> ('k, 'v) packet \<Rightarrow> bool" where
  "check_for ctx e prog c i w l m \<longleftrightarrow> reserving ctx prog w l c i \<and>
     (\<exists>d src. m = Packet d src (CheckRequest l (ucast (tid_of ctx c i)) (of_nat i) e w) \<and> src = c \<and> d = row_master ctx l \<or>
      m = Packet d src (CheckResponse (ucast (tid_of ctx c i)) (of_nat i) w (w \<and> earlier ctx prog True l (tid_of ctx c i))
        (w \<and> earlier ctx prog False l (tid_of ctx c i)) (\<not> w \<and> earlier ctx prog True l (tid_of ctx c i))) \<and> d = c)"

end
