(* ===== verification/Aria_Invariant.thy ===== *)
theory Aria_Invariant
  imports Aria_Batch
begin

text \<open>
  The invariant of a batch, kept by every step of a cluster: one part per transaction, one per row, one for the messages.
\<close>

section \<open>The parts\<close>

text \<open>The flags of a transaction say which conflicts it has.\<close>

definition conflict :: "AriaContext \<Rightarrow> (nat \<Rightarrow> nat \<Rightarrow> ('k, 'v) AriaProgram) \<Rightarrow> bool \<Rightarrow> bool \<Rightarrow> nat \<Rightarrow> nat \<Rightarrow> bool" where
  "conflict ctx prog w w' c i \<longleftrightarrow> (\<exists>l \<in> touches w (prog c i). earlier ctx prog w' l (tid_of ctx c i))"

text \<open>\<open>conflict ctx prog False True\<close> is \<^verbatim>\<open>raw\<close>, \<open>True False\<close> is \<^verbatim>\<open>war\<close>, \<open>True True\<close> is \<^verbatim>\<open>waw\<close>.\<close>

definition flags_exact :: "AriaContext \<Rightarrow> (nat \<Rightarrow> nat \<Rightarrow> ('k, 'v) AriaProgram) \<Rightarrow> nat \<Rightarrow> nat \<Rightarrow> ('k, 'v) AriaTransaction \<Rightarrow> bool" where
  "flags_exact ctx prog c i txn \<longleftrightarrow> (at_raw txn \<longleftrightarrow> conflict ctx prog False True c i) \<and>
     (at_war txn \<longleftrightarrow> conflict ctx prog True False c i) \<and> (at_waw txn \<longleftrightarrow> conflict ctx prog True True c i)"

definition flags_partial ::
  "AriaContext \<Rightarrow> 32 word \<Rightarrow> (nat \<Rightarrow> nat \<Rightarrow> ('k, 'v) AriaProgram) \<Rightarrow> nat \<Rightarrow> nat \<Rightarrow> ('k, 'v) AriaTransaction \<Rightarrow>
   ('k, 'v) packet set \<Rightarrow> bool" where
  "flags_partial ctx e prog c i txn F \<longleftrightarrow>
     (at_raw txn \<longrightarrow> conflict ctx prog False True c i) \<and> (at_war txn \<longrightarrow> conflict ctx prog True False c i) \<and>
     (at_waw txn \<longrightarrow> conflict ctx prog True True c i) \<and>
     (\<forall>l \<in> touches False (prog c i). earlier ctx prog True l (tid_of ctx c i) \<longrightarrow> at_raw txn \<or> (\<exists>m \<in> F. check_for ctx e prog c i False l m)) \<and>
     (\<forall>l \<in> touches True (prog c i). earlier ctx prog False l (tid_of ctx c i) \<longrightarrow> at_war txn \<or> (\<exists>m \<in> F. check_for ctx e prog c i True l m)) \<and>
     (\<forall>l \<in> touches True (prog c i). earlier ctx prog True l (tid_of ctx c i) \<longrightarrow> at_waw txn \<or> (\<exists>m \<in> F. check_for ctx e prog c i True l m))"

definition commit_rule :: "AriaContext \<Rightarrow> bool \<Rightarrow> bool \<Rightarrow> bool \<Rightarrow> bool" where
  "commit_rule ctx raw war waw \<longleftrightarrow> \<not> waw \<and>
     (cx_snapshot_isolation ctx \<or> (if cx_reordering_optimization ctx then \<not> war \<or> \<not> raw else \<not> raw))"

definition values_done ::
  "AriaContext \<Rightarrow> (nat \<Rightarrow> ('k, 'v) rows) \<Rightarrow> (nat \<Rightarrow> nat \<Rightarrow> ('k, 'v) AriaProgram) \<Rightarrow> nat \<Rightarrow> nat \<Rightarrow> ('k, 'v) AriaTransaction \<Rightarrow> bool" where
  "values_done ctx rows0 prog c i txn \<longleftrightarrow> map rk_value (at_readSet txn) = read_values ctx rows0 c (prog c i) \<and>
     (\<forall>j < length (pg_updates (prog c i)). rk_value (at_writeSet txn ! j) = new_value ctx rows0 prog c i j)"

definition slot_ok ::
  "AriaContext \<Rightarrow> 32 word \<Rightarrow> (nat \<Rightarrow> nat \<Rightarrow> ('k, 'v) AriaProgram) \<Rightarrow> (nat \<Rightarrow> ('k, 'v) rows) \<Rightarrow> ExecutorStatus \<Rightarrow> nat \<Rightarrow> nat \<Rightarrow>
   aria_stage \<Rightarrow> ('k, 'v) AriaTransaction \<Rightarrow> ('k, 'v) packet list \<Rightarrow> bool" where
  "slot_ok ctx e prog rows0 status c i stage txn F \<longleftrightarrow>
     (stage \<in> {Waiting, Executed} \<longrightarrow> status = Aria_READ) \<and> (stage \<in> {Analyzed, Committed, Aborted} \<longrightarrow> status = Aria_COMMIT) \<and>
     (stage \<in> {Waiting, Skipped, Reserved, Committed, Aborted} \<longrightarrow> F = []) \<and>
     (stage = Skipped \<longrightarrow> pg_no_retry (prog c i)) \<and>
     (stage \<in> {Executed, Reserved, Analyzed, Committed, Aborted} \<longrightarrow>
        \<not> pg_no_retry (prog c i) \<and> shape ctx e (prog c i) c i txn \<and> at_pendingResponses txn = length F) \<and>
     (stage \<in> {Executed, Reserved} \<longrightarrow> no_flags txn) \<and>
     (stage = Executed \<longrightarrow> (\<forall>m \<in> set F. \<exists>j. search_for ctx prog rows0 c i j m) \<and>
        (\<forall>j < length (pg_reads (prog c i)). rk_value (at_readSet txn ! j) = read_value ctx rows0 c (pg_reads (prog c i) ! j) \<or>
           (\<exists>m \<in> set F. search_for ctx prog rows0 c i j m))) \<and>
     (stage \<in> {Reserved, Analyzed, Committed, Aborted} \<longrightarrow> values_done ctx rows0 prog c i txn) \<and>
     (stage = Analyzed \<longrightarrow> (\<forall>m \<in> set F. \<exists>w l. check_for ctx e prog c i w l m) \<and>
        (\<not> exempt ctx (prog c i) \<longrightarrow> flags_partial ctx e prog c i txn (set F))) \<and>
     (stage \<in> {Committed, Aborted} \<and> \<not> exempt ctx (prog c i) \<longrightarrow> flags_exact ctx prog c i txn \<and>
        (stage = Committed \<longleftrightarrow> commit_rule ctx (at_raw txn) (at_war txn) (at_waw txn))) \<and>
     (stage = Aborted \<longrightarrow> \<not> exempt ctx (prog c i))"

text \<open>A row in the first phase, and in the second.\<close>

definition row_read_ok ::
  "AriaContext \<Rightarrow> 32 word \<Rightarrow> (nat \<Rightarrow> nat \<Rightarrow> ('k, 'v) AriaProgram) \<Rightarrow> (nat \<Rightarrow> ('k, 'v) rows) \<Rightarrow> ('k, 'v) AriaCluster \<Rightarrow> 'k row_id \<Rightarrow> bool" where
  "row_read_ok ctx e prog rows0 s l \<longleftrightarrow> (\<forall>c. snd (cl_rows s c l) = snd (rows0 c l)) \<and>
     (\<exists>T. reserved (ucast e) (fst (cl_rows s (row_master ctx l) l)) (T False) (T True) \<and>
        (\<forall>w. T w \<subseteq> tids ctx prog w l) \<and>
        (\<forall>w c i. reserving ctx prog w l c i \<longrightarrow> cl_stage s c i = Reserved \<longrightarrow>
           tid_of ctx c i \<in> T w \<or> (\<exists>src. Packet (row_master ctx l) src (ReserveRequest l (ucast (tid_of ctx c i)) e w) \<in> set (cl_net s)))) \<and>
     (\<forall>m \<in> set (cl_net s). about_row l m \<longrightarrow>
        (\<exists>src w c i. reserving ctx prog w l c i \<and> m = Packet (row_master ctx l) src (ReserveRequest l (ucast (tid_of ctx c i)) e w)))"

definition writer :: "AriaContext \<Rightarrow> (nat \<Rightarrow> nat \<Rightarrow> ('k, 'v) AriaProgram) \<Rightarrow> ('k, 'v) AriaCluster \<Rightarrow> 'k row_id \<Rightarrow> nat \<Rightarrow> nat \<Rightarrow> nat \<Rightarrow> bool" where
  "writer ctx prog s l c i j \<longleftrightarrow> is_slot ctx c i \<and> cl_stage s c i = Committed \<and> j < length (pg_updates (prog c i)) \<and> pg_updates (prog c i) ! j = l"

definition row_commit_ok ::
  "AriaContext \<Rightarrow> 32 word \<Rightarrow> (nat \<Rightarrow> nat \<Rightarrow> ('k, 'v) AriaProgram) \<Rightarrow> (nat \<Rightarrow> ('k, 'v) rows) \<Rightarrow> ('k, 'v) AriaCluster \<Rightarrow> 'k row_id \<Rightarrow> bool" where
  "row_commit_ok ctx e prog rows0 s l \<longleftrightarrow>
     reserved (ucast e) (fst (cl_rows s (row_master ctx l) l)) (tids ctx prog False l) (tids ctx prog True l) \<and>
     (\<forall>c. c \<noteq> row_master ctx l \<longrightarrow> snd (cl_rows s c l) = snd (rows0 c l)) \<and>
     (\<forall>m \<in> set (cl_net s). about_row l m \<longrightarrow>
        (\<exists>src c i j. writer ctx prog s l c i j \<and> m = Packet (row_master ctx l) src (WriteRequest l (new_value ctx rows0 prog c i j)))) \<and>
     (\<forall>c i j. writer ctx prog s l c i j \<longrightarrow> snd (cl_rows s (row_master ctx l) l) = new_value ctx rows0 prog c i j \<or>
        (\<exists>src. Packet (row_master ctx l) src (WriteRequest l (new_value ctx rows0 prog c i j)) \<in> set (cl_net s))) \<and>
     ((\<forall>c i j. \<not> writer ctx prog s l c i j) \<longrightarrow> snd (cl_rows s (row_master ctx l) l) = snd (rows0 (row_master ctx l) l))"

definition row_ok ::
  "AriaContext \<Rightarrow> 32 word \<Rightarrow> (nat \<Rightarrow> nat \<Rightarrow> ('k, 'v) AriaProgram) \<Rightarrow> (nat \<Rightarrow> ('k, 'v) rows) \<Rightarrow> ('k, 'v) AriaCluster \<Rightarrow> 'k row_id \<Rightarrow> bool" where
  "row_ok ctx e prog rows0 s l \<longleftrightarrow>
     (if cl_status s = Aria_READ then row_read_ok ctx e prog rows0 s l else row_commit_ok ctx e prog rows0 s l)"

definition net_ok :: "AriaContext \<Rightarrow> ('k, 'v) packet \<Rightarrow> bool" where
  "net_ok ctx m \<longleftrightarrow> (\<exists>c i. is_slot ctx c i \<and> for_slot c i m) \<or> (\<exists>l. about_row l m)"

abbreviation slot_msgs :: "('k, 'v) AriaCluster \<Rightarrow> nat \<Rightarrow> nat \<Rightarrow> ('k, 'v) packet list" where
  "slot_msgs s c i \<equiv> filter (for_slot c i) (cl_net s)"

definition aria_inv ::
  "AriaContext \<Rightarrow> 32 word \<Rightarrow> (nat \<Rightarrow> nat \<Rightarrow> ('k, 'v) AriaProgram) \<Rightarrow> (nat \<Rightarrow> ('k, 'v) rows) \<Rightarrow> ('k, 'v) AriaCluster \<Rightarrow> bool" where
  "aria_inv ctx e prog rows0 s \<longleftrightarrow>
     (\<forall>c i. is_slot ctx c i \<longrightarrow> slot_ok ctx e prog rows0 (cl_status s) c i (cl_stage s c i) (cl_txns s c i) (slot_msgs s c i)) \<and>
     (\<forall>l. row_ok ctx e prog rows0 s l) \<and> (\<forall>m \<in> set (cl_net s). net_ok ctx m)"

section \<open>Numbers of transactions\<close>

lemma slot_bound:
  assumes "is_slot ctx c i"
  shows "i * cx_coordinator_num ctx + c + 1 \<le> cx_coordinator_num ctx * cx_batch_size ctx"
proof -
  have "i + 1 \<le> cx_batch_size ctx" "c + 1 \<le> cx_coordinator_num ctx" using assms by (simp_all add: is_slot_def)
  then have "i * cx_coordinator_num ctx + cx_coordinator_num ctx \<le> cx_batch_size ctx * cx_coordinator_num ctx"
    by (metis mult_le_mono1 add_mult_distrib mult_1)
  with \<open>c + 1 \<le> cx_coordinator_num ctx\<close> show ?thesis by (simp add: mult.commute)
qed

lemma tid_of_bounds:
  assumes "aria_setup ctx e prog rows0" "is_slot ctx c i"
  shows "unat (tid_of ctx c i) = i * cx_coordinator_num ctx + c + 1" "0 < tid_of ctx c i" "tid_of ctx c i < 2 ^ 20" "i < 2 ^ 20"
proof -
  let ?n = "i * cx_coordinator_num ctx + c + 1"
  have b: "?n < 2 ^ 20" using slot_bound [OF assms(2)] assms(1) by (simp add: aria_setup_def)
  then have "?n < 2 ^ 64" by simp
  then show u: "unat (tid_of ctx c i) = ?n" unfolding tid_of_def unat_of_nat by (simp add: take_bit_nat_eq_self)
  show "0 < tid_of ctx c i" "tid_of ctx c i < 2 ^ 20" using b u by (simp_all add: word_less_nat_alt)
  have "0 < cx_coordinator_num ctx" using assms(2) by (simp add: is_slot_def)
  then have "i \<le> i * cx_coordinator_num ctx" by simp
  with b show "i < 2 ^ 20" by linarith
qed

lemma tid_of_inj:
  assumes "aria_setup ctx e prog rows0" "is_slot ctx c i" "is_slot ctx c' i'" "tid_of ctx c i = tid_of ctx c' i'"
  shows "c = c' \<and> i = i'"
proof -
  let ?n = "cx_coordinator_num ctx"
  have "i * ?n + c = i' * ?n + c'" "c < ?n" "c' < ?n"
    using tid_of_bounds(1) [OF assms(1,2)] tid_of_bounds(1) [OF assms(1,3)] assms(2-4) by (simp_all add: is_slot_def)
  then have "(i * ?n + c) mod ?n = (i' * ?n + c') mod ?n" "(i * ?n + c) div ?n = (i' * ?n + c') div ?n" by simp_all
  with \<open>c < ?n\<close> \<open>c' < ?n\<close> show ?thesis by simp
qed

lemma unat_slot:
  assumes "aria_setup ctx e prog rows0" "is_slot ctx c i"
  shows "unat (of_nat i :: 32 word) = i"
  using tid_of_bounds(4) [OF assms] by (simp add: unat_of_nat take_bit_nat_eq_self)

lemma tids_finite:
  assumes "aria_setup ctx e prog rows0"
  shows "tids_ok (tids ctx prog w l)"
proof -
  have "tids ctx prog w l \<subseteq> (\<lambda>(c, i). tid_of ctx c i) ` ({..<cx_coordinator_num ctx} \<times> {..<cx_batch_size ctx})"
    by (auto simp: tids_def reserving_def is_slot_def)
  then have "finite (tids ctx prog w l)" by (rule finite_subset) simp
  moreover have "0 < t \<and> t < 2 ^ 20" if "t \<in> tids ctx prog w l" for t
    using that tid_of_bounds(2,3) [OF assms] by (auto simp: tids_def reserving_def)
  ultimately show ?thesis by (auto simp: tids_ok_def)
qed

lemma tids_ok_subset: "tids_ok S \<Longrightarrow> T \<subseteq> S \<Longrightarrow> tids_ok T"
  by (auto simp: tids_ok_def intro: finite_subset)

lemma reserved_earlier:
  assumes r: "reserved (ucast e) a (tids ctx prog False l) (tids ctx prog True l)" and s: "aria_setup ctx e prog rows0"
  shows "written_before e t a \<longleftrightarrow> earlier ctx prog True l t" "read_before e t a \<longleftrightarrow> earlier ctx prog False l t"
proof -
  let ?R = "tids ctx prog False l" and ?W = "tids ctx prog True l"
  have m: "min0 S < t \<and> min0 S \<noteq> 0 \<longleftrightarrow> (\<exists>t' \<in> S. t' < t)" if "tids_ok S" for S
    using min0_simps(1-3) [OF that] by (metis empty_iff le_less_trans)
  show "written_before e t a \<longleftrightarrow> earlier ctx prog True l t" "read_before e t a \<longleftrightarrow> earlier ctx prog False l t"
    using r m [OF tids_finite [OF s, of True l]] m [OF tids_finite [OF s, of False l]]
    by (auto simp: reserved_def written_before_def read_before_def earlier_def split: if_splits)
qed

section \<open>Messages\<close>

lemma for_slot_unique: "for_slot c i m \<Longrightarrow> for_slot c' i' m \<Longrightarrow> c' = c \<and> i' = i"
  by (cases "(c, i, m)" rule: for_slot.cases) auto

lemma about_row_not_slot: "about_row l m \<Longrightarrow> \<not> for_slot c i m"
  by (cases "(l, m)" rule: about_row.cases) auto

lemma for_slot_not_about: "for_slot c i m \<Longrightarrow> \<not> about_row l m"
  using about_row_not_slot by blast

lemma search_for_slot: "aria_setup ctx e prog rows0 \<Longrightarrow> is_slot ctx c i \<Longrightarrow> search_for ctx prog rows0 c i j m \<Longrightarrow> for_slot c i m"
  by (auto simp: search_for_def unat_slot)

lemma check_for_slot: "aria_setup ctx e prog rows0 \<Longrightarrow> is_slot ctx c i \<Longrightarrow> check_for ctx e prog c i w l m \<Longrightarrow> for_slot c i m"
  by (auto simp: check_for_def unat_slot)

lemma filter_none: "\<forall>m \<in> set ms. \<not> P m \<Longrightarrow> filter P (xs @ ms) = filter P xs"
  by (simp add: filter_empty_conv)

lemma filter_all: "\<forall>m \<in> set ms. P m \<Longrightarrow> filter P (xs @ ms) = filter P xs @ ms"
  by simp

lemma aria_invD:
  assumes "aria_inv ctx e prog rows0 s"
  shows "is_slot ctx c i \<Longrightarrow> slot_ok ctx e prog rows0 (cl_status s) c i (cl_stage s c i) (cl_txns s c i) (slot_msgs s c i)"
    "row_ok ctx e prog rows0 s l" "m \<in> set (cl_net s) \<Longrightarrow> net_ok ctx m"
  using assms by (simp_all add: aria_inv_def)

text \<open>A step for one slot that sends messages of its own keeps the other slots as they are.\<close>

lemma upd2_apply [simp]: "upd2 f c i x c' i' = (if c' = c \<and> i' = i then x else f c' i')"
  by (simp add: upd2_def)

lemma slots_step:
  assumes inv: "aria_inv ctx e prog rows0 s" and st: "cl_status s' = cl_status s"
    and t: "cl_txns s' = upd2 (cl_txns s) c i txn" "cl_stage s' = upd2 (cl_stage s) c i stage" "cl_net s' = cl_net s @ ms"
    and ms: "\<forall>m \<in> set ms. for_slot c i m \<or> (\<exists>l. about_row l m)" and c: "is_slot ctx c i"
    and own: "slot_ok ctx e prog rows0 (cl_status s) c i stage txn (slot_msgs s c i @ filter (for_slot c i) ms)"
    and rows: "\<And>l. row_ok ctx e prog rows0 s' l"
  shows "aria_inv ctx e prog rows0 s'"
proof -
  have "slot_ok ctx e prog rows0 (cl_status s') c' i' (cl_stage s' c' i') (cl_txns s' c' i') (slot_msgs s' c' i')" if "is_slot ctx c' i'" for c' i'
  proof (cases "c' = c \<and> i' = i")
    case True
    with own show ?thesis by (simp add: st t)
  next
    case False
    then have "\<forall>m \<in> set ms. \<not> for_slot c' i' m" using ms for_slot_unique about_row_not_slot by blast
    with aria_invD(1) [OF inv that] False show ?thesis by (auto simp: st t filter_empty_conv)
  qed
  moreover have "net_ok ctx m" if "m \<in> set (cl_net s')" for m
    using that aria_invD(3) [OF inv] ms c by (auto simp: t net_ok_def)
  ultimately show ?thesis using rows by (simp add: aria_inv_def)
qed

lemma send_iff [simp]: "Packet d src m \<in> set (send c out) \<longleftrightarrow> src = c \<and> (d, m) \<in> set out"
  by (auto simp: send_def)

lemma send_set: "set (send c out) = (\<lambda>x. Packet (fst x) c (snd x)) ` set out"
  by (simp add: send_def case_prod_beta)

lemma send_Nil [simp]: "send c [] = []"
  by (simp add: send_def)

lemma length_send [simp]: "length (send c out) = length out"
  by (simp add: send_def)

section \<open>Steps of the first phase\<close>

lemma row_ok_stage:
  assumes "row_read_ok ctx e prog rows0 s l" "cl_rows s' = cl_rows s" "\<forall>c i. cl_stage s' c i = Reserved \<longrightarrow> cl_stage s c i = Reserved"
    and "cl_net s' = cl_net s @ ms" "\<forall>m \<in> set ms. \<not> about_row l m"
  shows "row_read_ok ctx e prog rows0 s' l"
proof -
  from assms(1) obtain T where T: "reserved (ucast e) (fst (cl_rows s (row_master ctx l) l)) (T False) (T True)" "\<forall>w. T w \<subseteq> tids ctx prog w l"
    "\<forall>w c i. reserving ctx prog w l c i \<longrightarrow> cl_stage s c i = Reserved \<longrightarrow>
       tid_of ctx c i \<in> T w \<or> (\<exists>src. Packet (row_master ctx l) src (ReserveRequest l (ucast (tid_of ctx c i)) e w) \<in> set (cl_net s))"
    unfolding row_read_ok_def by blast
  have "\<forall>w c i. reserving ctx prog w l c i \<longrightarrow> cl_stage s' c i = Reserved \<longrightarrow>
       tid_of ctx c i \<in> T w \<or> (\<exists>src. Packet (row_master ctx l) src (ReserveRequest l (ucast (tid_of ctx c i)) e w) \<in> set (cl_net s'))"
    using T(3) assms(3) unfolding assms(4) set_append by blast
  with T(1,2) assms(1,5) show ?thesis unfolding row_read_ok_def assms(2,4) set_append by blast
qed

lemma start_inv:
  assumes su: "aria_setup ctx e prog rows0" and inv: "aria_inv ctx e prog rows0 s" and c: "is_slot ctx c i"
    and s: "cl_status s = Aria_READ" "cl_stage s c i = Waiting"
    and st: "start_transaction ctx c e i (cl_rows s c) (prog c i) (cl_txns s c i) = (txn, out)"
  shows "aria_inv ctx e prog rows0 (s\<lparr>cl_txns := upd2 (cl_txns s) c i txn,
      cl_stage := upd2 (cl_stage s) c i (if at_abort_no_retry txn then Skipped else Executed), cl_net := cl_net s @ send c out\<rparr>)"
proof -
  let ?p = "prog c i"
  have p: "prog_ok ?p" using su c by (simp add: aria_setup_def)
  have F: "slot_msgs s c i = []" using aria_invD(1) [OF inv c] s by (simp add: slot_ok_def)
  have v: "snd (cl_rows s c l) = snd (rows0 c l)" for l
    using aria_invD(2) [OF inv, of l] s by (simp add: row_ok_def row_read_ok_def)
  show ?thesis
  proof (cases "pg_no_retry ?p")
    case True
    with st have "out = []" "at_abort_no_retry txn" by (auto simp: start_transaction_def execute_def Let_def)
    then show ?thesis
      using s F True by (intro slots_step [OF inv _ _ _ _ _ c]) (auto simp: slot_ok_def row_ok_def
          intro!: row_ok_stage [of _ _ _ _ s _ _ "[]"] aria_invD(2) [OF inv, unfolded row_ok_def, simplified s, simplified] split: if_splits)
  next
    case False
    note sp = start_transaction_spec [OF p False st]
    have na: "\<not> at_abort_no_retry txn" using sp(2) by (simp add: no_flags_def)
    have out: "set out = search_msg ctx ?p c i ` {j. j < length (pg_reads ?p) \<and> is_remote ctx c (pg_reads ?p ! j)}"
      unfolding sp(4) by auto
    have sf: "search_for ctx prog rows0 c i j (Packet (fst (search_msg ctx ?p c i j)) c (snd (search_msg ctx ?p c i j)))"
      if "j < length (pg_reads ?p)" "is_remote ctx c (pg_reads ?p ! j)" for j
      using that by (auto simp: search_for_def search_msg_def)
    have ms: "\<exists>j. search_for ctx prog rows0 c i j m" if "m \<in> set (send c out)" for m
      using that sf unfolding send_set out by blast
    have fs: "\<forall>m \<in> set (send c out). for_slot c i m" using ms search_for_slot [OF su c] by blast
    have val: "rk_value (at_readSet txn ! j) = read_value ctx rows0 c (pg_reads ?p ! j) \<or> (\<exists>m \<in> set (send c out). search_for ctx prog rows0 c i j m)"
      if j: "j < length (pg_reads ?p)" for j
    proof (cases "is_remote ctx c (pg_reads ?p ! j)")
      case True
      with j have "Packet (fst (search_msg ctx ?p c i j)) c (snd (search_msg ctx ?p c i j)) \<in> set (send c out)"
        unfolding send_set out by blast
      with sf [OF j True] show ?thesis by blast
    next
      case False
      with sp(5) j v show ?thesis by (simp add: read_value_def)
    qed
    have own: "slot_ok ctx e prog rows0 (cl_status s) c i Executed txn (slot_msgs s c i @ filter (for_slot c i) (send c out))"
      using s F False sp(1-3) ms val fs by (simp add: slot_ok_def)
    have "row_ok ctx e prog rows0 (s\<lparr>cl_txns := upd2 (cl_txns s) c i txn, cl_stage := upd2 (cl_stage s) c i Executed, cl_net := cl_net s @ send c out\<rparr>) l" for l
    proof -
      have "row_read_ok ctx e prog rows0 s l" using aria_invD(2) [OF inv, of l] s by (simp add: row_ok_def)
      then have "row_read_ok ctx e prog rows0 (s\<lparr>cl_txns := upd2 (cl_txns s) c i txn, cl_stage := upd2 (cl_stage s) c i Executed, cl_net := cl_net s @ send c out\<rparr>) l"
        by (rule row_ok_stage [where ms = "send c out"]) (use fs for_slot_not_about in \<open>auto split: if_splits\<close>, use fs for_slot_not_about in blast)
      then show ?thesis using s by (simp add: row_ok_def)
    qed
    with na fs show ?thesis by (intro slots_step [OF inv _ _ _ _ _ c own]) auto
  qed
qed

lemma inv_rows_reserved:
  fixes prog :: "nat \<Rightarrow> nat \<Rightarrow> ('k, 'v) AriaProgram"
  assumes su: "aria_setup ctx e prog rows0" and inv: "aria_inv ctx e prog rows0 s" and s: "cl_status s = Aria_READ"
  shows "rows_reserved ctx c e (cl_rows s c)"
  unfolding rows_reserved_def
proof (intro allI impI)
  fix l :: "'k row_id"
  assume l: "row_master ctx l = c"
  from aria_invD(2) [OF inv, of l] s obtain T where "reserved (ucast e) (fst (cl_rows s c l)) (T False) (T True)" "\<forall>w. T w \<subseteq> tids ctx prog w l"
    unfolding row_ok_def row_read_ok_def using l by auto
  with tids_ok_subset [OF tids_finite [OF su]] show "\<exists>R W. reserved (ucast e) (fst (cl_rows s c l)) R W \<and> tids_ok R \<and> tids_ok W" by blast
qed

lemma executed_values:
  assumes "slot_ok ctx e prog rows0 st c i Executed txn []"
  shows "map rk_value (at_readSet txn) = read_values ctx rows0 c (prog c i)"
proof (rule nth_equalityI)
  have sh: "shape ctx e (prog c i) c i txn" using assms by (simp add: slot_ok_def)
  show l: "length (map rk_value (at_readSet txn)) = length (read_values ctx rows0 c (prog c i))"
    using shapeD(7) [OF sh] by (simp add: read_values_def)
  fix j assume j: "j < length (map rk_value (at_readSet txn))"
  then have "j < length (pg_reads (prog c i))" using shapeD(7) [OF sh] by simp
  with assms j show "map rk_value (at_readSet txn) ! j = read_values ctx rows0 c (prog c i) ! j"
    by (simp add: slot_ok_def read_values_def)
qed

lemma finish_reads_spec:
  assumes su: "aria_setup ctx e prog rows0" and inv: "aria_inv ctx e prog rows0 s" and c: "is_slot ctx c i"
    and s: "cl_status s = Aria_READ" "cl_stage s c i = Executed" "at_pendingResponses (cl_txns s c i) = 0"
  obtains txn rows out where "finish_reads ctx c (cl_rows s c) (prog c i) (cl_txns s c i) = Inr (txn, rows, out)"
    "slot_ok ctx e prog rows0 Aria_READ c i Reserved txn []" "slot_msgs s c i = []" "\<forall>l. snd (rows l) = snd (cl_rows s c l)"
    "\<forall>l R W. row_master ctx l = c \<longrightarrow> reserved (ucast e) (fst (cl_rows s c l)) R W \<longrightarrow> tids_ok R \<longrightarrow> tids_ok W \<longrightarrow>
       reserved (ucast e) (fst (rows l)) (if \<not> exempt ctx (prog c i) \<and> l \<in> touches False (prog c i) then insert (tid_of ctx c i) R else R)
         (if \<not> exempt ctx (prog c i) \<and> l \<in> touches True (prog c i) then insert (tid_of ctx c i) W else W)"
    "set out = (if exempt ctx (prog c i) then {} else \<Union>w. reserve_msg ctx e c i w ` {l \<in> touches w (prog c i). row_master ctx l \<noteq> c})"
proof -
  let ?txn = "cl_txns s c i" and ?p = "prog c i"
  let ?t = "fill_writes ?p (?txn\<lparr>at_execution_phase := True\<rparr>)"
  have so: "slot_ok ctx e prog rows0 Aria_READ c i Executed ?txn (slot_msgs s c i)" using aria_invD(1) [OF inv c] s by simp
  then have sh: "shape ctx e ?p c i ?txn" and np: "\<not> pg_no_retry ?p" and F: "slot_msgs s c i = []" and nf: "no_flags ?txn"
    using s(3) by (simp_all add: slot_ok_def)
  note fw = fill_writes_spec [OF sh]
  have v: "map rk_value (at_readSet ?txn) = read_values ctx rows0 c ?p" using executed_values so F by simp
  then have "values_done ctx rows0 prog c i ?t" using fw(2,3) by (simp add: values_done_def write_values_def new_value_def)
  then have ok: "slot_ok ctx e prog rows0 Aria_READ c i Reserved ?t []" using fw(1,4,5) np nf s(3) by (simp add: slot_ok_def)
  have e: "e < 2 ^ 24" using su by (simp add: aria_setup_def)
  from reserve_transaction_spec [OF fw(1) tid_of_bounds(2,3) [OF su c] e inv_rows_reserved [OF su inv s(1)]]
  obtain rows out where r: "reserve_transaction ctx c ?t (cl_rows s c) = Inr (rows, out)" "\<forall>l. snd (rows l) = snd (cl_rows s c l)"
    "\<forall>l R W. row_master ctx l = c \<longrightarrow> reserved (ucast e) (fst (cl_rows s c l)) R W \<longrightarrow> tids_ok R \<longrightarrow> tids_ok W \<longrightarrow>
       reserved (ucast e) (fst (rows l)) (if \<not> exempt ctx ?p \<and> l \<in> reads_of ?p then insert (tid_of ctx c i) R else R)
         (if \<not> exempt ctx ?p \<and> l \<in> writes_of ?p then insert (tid_of ctx c i) W else W)"
    "set out = (if exempt ctx ?p then {} else \<Union>w. reserve_msg ctx e c i w ` {l \<in> touches w ?p. row_master ctx l \<noteq> c})" by blast
  have "finish_reads ctx c (cl_rows s c) ?p ?txn = Inr (?t, rows, out)"
    using r(1) by (simp add: finish_reads_def execute_again [OF sh np])
  then show thesis using that [OF _ ok F r(2) _ r(4)] r(3) by (simp add: touches_def)
qed

lemma reserve_step_inv:
  assumes su: "aria_setup ctx e prog rows0" and inv: "aria_inv ctx e prog rows0 s" and c: "is_slot ctx c i"
    and s: "cl_status s = Aria_READ" "cl_stage s c i = Executed" "at_pendingResponses (cl_txns s c i) = 0"
    and st: "finish_reads ctx c (cl_rows s c) (prog c i) (cl_txns s c i) = Inr (txn, rows, out)"
  shows "aria_inv ctx e prog rows0 (s\<lparr>cl_txns := upd2 (cl_txns s) c i txn, cl_rows := (cl_rows s)(c := rows),
      cl_stage := upd2 (cl_stage s) c i Reserved, cl_net := cl_net s @ send c out\<rparr>)" (is "aria_inv _ _ _ _ ?s")
proof -
  let ?p = "prog c i" and ?id = "tid_of ctx c i"
  have sp: "slot_ok ctx e prog rows0 Aria_READ c i Reserved txn []" "slot_msgs s c i = []" "\<forall>l. snd (rows l) = snd (cl_rows s c l)"
    "\<forall>l R W. row_master ctx l = c \<longrightarrow> reserved (ucast e) (fst (cl_rows s c l)) R W \<longrightarrow> tids_ok R \<longrightarrow> tids_ok W \<longrightarrow>
       reserved (ucast e) (fst (rows l)) (if \<not> exempt ctx ?p \<and> l \<in> touches False ?p then insert ?id R else R)
         (if \<not> exempt ctx ?p \<and> l \<in> touches True ?p then insert ?id W else W)"
    and out: "set out = (if exempt ctx ?p then {} else \<Union>w. reserve_msg ctx e c i w ` {l \<in> touches w ?p. row_master ctx l \<noteq> c})"
    by (rule finish_reads_spec [OF su inv c s]; use st in simp)+
  have np: "\<not> pg_no_retry ?p" using sp(1) by (simp add: slot_ok_def)
  have res: "reserving ctx prog w l c i \<longleftrightarrow> \<not> exempt ctx ?p \<and> l \<in> touches w ?p" for w l using c np by (simp add: reserving_def)
  have ms: "m \<in> set (send c out) \<longleftrightarrow> (\<exists>w l. reserving ctx prog w l c i \<and> row_master ctx l \<noteq> c \<and>
      m = Packet (row_master ctx l) c (ReserveRequest l (ucast ?id) e w))" for m
    unfolding send_set out res by (auto simp: reserve_msg_def image_iff)
  have "row_read_ok ctx e prog rows0 ?s l" for l
  proof -
    have rr: "row_read_ok ctx e prog rows0 s l" using aria_invD(2) [OF inv, of l] s(1) by (simp add: row_ok_def)
    then obtain T where T: "reserved (ucast e) (fst (cl_rows s (row_master ctx l) l)) (T False) (T True)" "\<forall>w. T w \<subseteq> tids ctx prog w l"
      "\<forall>w c i. reserving ctx prog w l c i \<longrightarrow> cl_stage s c i = Reserved \<longrightarrow>
         tid_of ctx c i \<in> T w \<or> (\<exists>src. Packet (row_master ctx l) src (ReserveRequest l (ucast (tid_of ctx c i)) e w) \<in> set (cl_net s))"
      unfolding row_read_ok_def by blast
    define T' where "T' w = (if reserving ctx prog w l c i \<and> row_master ctx l = c then insert ?id (T w) else T w)" for w
    have ok: "tids_ok (T w)" for w using T(2) tids_ok_subset [OF tids_finite [OF su]] by blast
    have "reserved (ucast e) (fst (cl_rows ?s (row_master ctx l) l)) (T' False) (T' True)"
      using T(1) sp(4) ok by (cases "row_master ctx l = c") (simp_all add: T'_def res)
    moreover have "T' w \<subseteq> tids ctx prog w l" for w using T(2) by (auto simp: T'_def tids_def)
    moreover have "tid_of ctx c' i' \<in> T' w \<or> (\<exists>src. Packet (row_master ctx l) src (ReserveRequest l (ucast (tid_of ctx c' i')) e w) \<in> set (cl_net ?s))"
      if r: "reserving ctx prog w l c' i'" "cl_stage ?s c' i' = Reserved" for w c' i'
    proof (cases "c' = c \<and> i' = i")
      case True
      with r(1) ms show ?thesis by (cases "row_master ctx l = c") (auto simp: T'_def)
    next
      case False
      with r T(3) show ?thesis by (auto simp: T'_def)
    qed
    moreover have "snd (cl_rows ?s c' l) = snd (rows0 c' l)" for c' using rr sp(3) by (simp add: row_read_ok_def)
    moreover have "\<exists>src w c i. reserving ctx prog w l c i \<and> m = Packet (row_master ctx l) src (ReserveRequest l (ucast (tid_of ctx c i)) e w)"
      if "m \<in> set (cl_net ?s)" "about_row l m" for m
    proof (cases "m \<in> set (cl_net s)")
      case True
      with rr that(2) show ?thesis unfolding row_read_ok_def by blast
    next
      case False
      with that(1) ms obtain w l' where "reserving ctx prog w l' c i" "m = Packet (row_master ctx l') c (ReserveRequest l' (ucast ?id) e w)" by auto
      with that(2) show ?thesis by auto
    qed
    ultimately show ?thesis unfolding row_read_ok_def by blast
  qed
  moreover have "\<forall>m \<in> set (send c out). \<exists>l. about_row l m" using ms by auto
  moreover from this have "filter (for_slot c i) (send c out) = []" by (auto simp: filter_empty_conv dest: about_row_not_slot)
  ultimately show ?thesis using sp(1,2) s(1) by (intro slots_step [OF inv _ _ _ _ _ c]) (auto simp: row_ok_def)
qed

lemma barrier_inv:
  assumes inv: "aria_inv ctx e prog rows0 s"
    and s: "cl_status s = Aria_READ" "cl_net s = []" "\<And>c i. is_slot ctx c i \<Longrightarrow> cl_stage s c i \<in> {Reserved, Skipped}"
  shows "aria_inv ctx e prog rows0 (s\<lparr>cl_status := Aria_COMMIT\<rparr>)" (is "aria_inv _ _ _ _ ?s")
proof -
  have "slot_ok ctx e prog rows0 Aria_COMMIT c i (cl_stage s c i) (cl_txns s c i) (slot_msgs s c i)" if "is_slot ctx c i" for c i
  proof -
    have "cl_stage s c i = Reserved \<or> cl_stage s c i = Skipped" using s(3) [OF that] by simp
    then show ?thesis using aria_invD(1) [OF inv that] by (elim disjE) (simp_all add: slot_ok_def)
  qed
  moreover have "row_commit_ok ctx e prog rows0 ?s l" for l
  proof -
    have rr: "row_read_ok ctx e prog rows0 s l" using aria_invD(2) [OF inv, of l] s(1) by (simp add: row_ok_def)
    then obtain T where T: "reserved (ucast e) (fst (cl_rows s (row_master ctx l) l)) (T False) (T True)" "\<forall>w. T w \<subseteq> tids ctx prog w l"
      "\<forall>w c i. reserving ctx prog w l c i \<longrightarrow> cl_stage s c i = Reserved \<longrightarrow> tid_of ctx c i \<in> T w"
      unfolding row_read_ok_def s(2) by auto
    have "cl_stage s c i = Reserved" if "reserving ctx prog w l c i" for w c i
    proof -
      have c: "is_slot ctx c i" "\<not> pg_no_retry (prog c i)" using that by (simp_all add: reserving_def)
      then have "cl_stage s c i \<noteq> Skipped" using aria_invD(1) [OF inv c(1)] by (auto simp: slot_ok_def)
      with s(3) [OF c(1)] show ?thesis by simp
    qed
    with T(2,3) have "T w = tids ctx prog w l" for w by (fastforce simp: tids_def)
    with T(1) have "reserved (ucast e) (fst (cl_rows s (row_master ctx l) l)) (tids ctx prog False l) (tids ctx prog True l)" by simp
    moreover have "\<not> writer ctx prog ?s l c i j" for c i j using s(3) [of c i] by (auto simp: writer_def)
    ultimately show ?thesis using rr s(2) by (simp add: row_commit_ok_def row_read_ok_def)
  qed
  ultimately show ?thesis using s(2) by (simp add: aria_inv_def row_ok_def)
qed

section \<open>Steps of the second phase\<close>

lemma row_commit_stage:
  assumes "row_commit_ok ctx e prog rows0 s l" "cl_rows s' = cl_rows s" "\<forall>c i. cl_stage s' c i = Committed \<longleftrightarrow> cl_stage s c i = Committed"
    and "cl_net s' = cl_net s @ ms" "\<forall>m \<in> set ms. \<not> about_row l m"
  shows "row_commit_ok ctx e prog rows0 s' l"
proof -
  have "writer ctx prog s' l = writer ctx prog s l" using assms(3) by (simp add: writer_def fun_eq_iff)
  with assms(1,5) show ?thesis unfolding row_commit_ok_def assms(2,4) set_append by (metis Un_iff)
qed

lemma reserved_epoch: "reserved e a R W \<Longrightarrow> R \<union> W \<noteq> {} \<Longrightarrow> get_epoch a = e"
  by (auto simp: reserved_def split: if_splits)

lemma reserving_epoch:
  assumes "reserving ctx prog w l c i" "reserved (ucast e) a (tids ctx prog False l) (tids ctx prog True l)"
  shows "get_epoch a = ucast e"
  using assms by (cases w) (auto simp: tids_def intro!: reserved_epoch [OF assms(2)])

lemma analyze_dependency_total:
  assumes inv: "aria_inv ctx e prog rows0 s" and c: "is_slot ctx c i" and s: "cl_status s = Aria_COMMIT" "cl_stage s c i = Reserved"
  shows "\<exists>txn out. analyze_dependency ctx c (cl_rows s c) (cl_txns s c i) = Inr (txn, out)"
proof (cases "exempt ctx (prog c i)")
  let ?txn = "cl_txns s c i"
  have "slot_ok ctx e prog rows0 Aria_COMMIT c i Reserved ?txn (slot_msgs s c i)" using aria_invD(1) [OF inv c] s by simp
  then have sh: "shape ctx e (prog c i) c i ?txn" and np: "\<not> pg_no_retry (prog c i)" by (simp_all add: slot_ok_def)
  note sd = shapeD [OF sh]
  case False
  have ep: "get_epoch (fst (cl_rows s c l)) = ucast e" if "l \<in> touches w (prog c i)" "row_master ctx l = c" for w l
  proof -
    have "reserving ctx prog w l c i" using that(1) False np c by (simp add: reserving_def)
    moreover have "row_commit_ok ctx e prog rows0 s l" using aria_invD(2) [OF inv, of l] s(1) by (simp add: row_ok_def)
    ultimately show ?thesis using that(2) reserving_epoch unfolding row_commit_ok_def by blast
  qed
  have "\<exists>txn1 out1. analyze_reads ctx c (cl_rows s c) (at_readSet ?txn) ?txn = Inr (txn1, out1)"
    using ep [of _ False] by (intro analyze_reads_total) (simp add: sd touches_def)
  then obtain txn1 out1 where 1: "analyze_reads ctx c (cl_rows s c) (at_readSet ?txn) ?txn = Inr (txn1, out1)" by blast
  have e1: "at_epoch txn1 = e" using analyze_reads_spec [OF 1] sd(3) by (simp add: same_txn_def)
  have "\<exists>txn2 out2. analyze_writes ctx c (cl_rows s c) (at_writeSet ?txn) txn1 = Inr (txn2, out2)"
    using ep [of _ True] by (intro analyze_writes_total) (simp add: sd e1 touches_def)
  with 1 show ?thesis by (auto simp: analyze_dependency_def)
next
  case True
  then show ?thesis using aria_invD(1) [OF inv c] s shapeD(4) by (fastforce simp: analyze_dependency_def exempt_def slot_ok_def)
qed

lemma analyze_inv:
  assumes su: "aria_setup ctx e prog rows0" and inv: "aria_inv ctx e prog rows0 s" and c: "is_slot ctx c i"
    and s: "cl_status s = Aria_COMMIT" "cl_stage s c i = Reserved"
    and st: "analyze_dependency ctx c (cl_rows s c) (cl_txns s c i) = Inr (txn, out)"
  shows "aria_inv ctx e prog rows0 (s\<lparr>cl_txns := upd2 (cl_txns s) c i txn, cl_stage := upd2 (cl_stage s) c i Analyzed,
      cl_net := cl_net s @ send c out\<rparr>)" (is "aria_inv _ _ _ _ ?s")
proof -
  let ?p = "prog c i" and ?id = "tid_of ctx c i" and ?txn = "cl_txns s c i" and ?rows = "cl_rows s c"
  have so: "slot_ok ctx e prog rows0 Aria_COMMIT c i Reserved ?txn (slot_msgs s c i)" using aria_invD(1) [OF inv c] s by simp
  then have sh: "shape ctx e ?p c i ?txn" and np: "\<not> pg_no_retry ?p" and F: "slot_msgs s c i = []" and nf: "no_flags ?txn"
    and pe: "at_pendingResponses ?txn = 0" and v: "values_done ctx rows0 prog c i ?txn" by (simp_all add: slot_ok_def)
  note sd = shapeD [OF sh]
  have rc: "row_commit_ok ctx e prog rows0 s l" for l using aria_invD(2) [OF inv, of l] s(1) by (simp add: row_ok_def)
  have me: "written_before e ?id (fst (?rows l)) \<longleftrightarrow> earlier ctx prog True l ?id" "read_before e ?id (fst (?rows l)) \<longleftrightarrow> earlier ctx prog False l ?id"
    if "row_master ctx l = c" for l using reserved_earlier [OF _ su] rc [of l] that unfolding row_commit_ok_def by blast+
  have "slot_ok ctx e prog rows0 Aria_COMMIT c i Analyzed txn (send c out) \<and> (\<forall>m \<in> set (send c out). for_slot c i m)"
  proof (cases "exempt ctx ?p")
    case True
    with st sd(4) have "txn = ?txn" "out = []" by (auto simp: analyze_dependency_def exempt_def)
    then show ?thesis using so F True by (simp add: slot_ok_def)
  next
    case False
    with st sd(4) obtain txn1 out1 txn2 out2 where 1: "analyze_reads ctx c ?rows (at_readSet ?txn) ?txn = Inr (txn1, out1)"
      and 2: "analyze_writes ctx c ?rows (at_writeSet ?txn) txn1 = Inr (txn2, out2)" and t: "txn = txn2" "out = out1 @ out2"
      by (auto simp: analyze_dependency_def exempt_def)
    have res: "reserving ctx prog w l c i" if "l \<in> touches w ?p" for w l using that False np c by (simp add: reserving_def)
    note r = analyze_reads_spec [OF 1, unfolded sd]
    have same: "same_txn ?txn txn1" using r by blast
    then have s1: "at_id txn1 = ?id" "at_epoch txn1 = e" "check_msg ctx txn1 = check_msg ctx ?txn"
      using sd(1,3) by (simp_all add: same_txn_def check_msg_def [abs_def])
    note w = analyze_writes_spec [OF 2, unfolded s1 sd]
    have cm: "check_for ctx e prog c i w l (Packet (fst (check_msg ctx ?txn w l)) c (snd (check_msg ctx ?txn w l)))" if "l \<in> touches w ?p" for w l
      using res [OF that] sd(1-3) by (auto simp: check_for_def check_msg_def)
    have o: "set out1 \<subseteq> check_msg ctx ?txn False ` touches False ?p" "set out2 = check_msg ctx ?txn True ` {l \<in> touches True ?p. row_master ctx l \<noteq> c}"
      using r w by (simp_all only: touches_def if_True if_False) blast+
    have ms: "\<exists>w l. check_for ctx e prog c i w l m" if "m \<in> set (send c out)" for m
    proof -
      from that obtain x where x: "m = Packet (fst x) c (snd x)" "x \<in> set out1 \<union> set out2" unfolding send_set t set_append by blast
      with o obtain w l where "x = check_msg ctx ?txn w l" "l \<in> touches w ?p" by blast
      with cm x(1) show ?thesis by blast
    qed
    have sent: "Packet (fst (check_msg ctx ?txn w l)) c (snd (check_msg ctx ?txn w l)) \<in> set (send c out)" if "check_msg ctx ?txn w l \<in> set out" for w l
      using that unfolding send_set by blast
    have fl: "\<not> at_raw ?txn" "\<not> at_war ?txn" "\<not> at_waw ?txn" using nf by (simp_all add: no_flags_def)
    have raw: "at_raw txn \<longrightarrow> conflict ctx prog False True c i"
      using r w fl me by (auto simp: conflict_def touches_def t)
    have raw': "at_raw txn \<or> (\<exists>m \<in> set (send c out). check_for ctx e prog c i False l m)"
      if l: "l \<in> touches False ?p" "earlier ctx prog True l ?id" for l
    proof (cases "at_raw txn")
      case False
      then have "\<forall>l \<in> reads_of ?p. (row_master ctx l = c \<longrightarrow> \<not> written_before e ?id (fst (?rows l))) \<and> (row_master ctx l \<noteq> c \<longrightarrow> check_msg ctx ?txn False l \<in> set out1)"
        using r w by (simp add: t)
      with l me have "check_msg ctx ?txn False l \<in> set out" by (auto simp: touches_def t)
      with sent cm [OF l(1)] show ?thesis by blast
    qed simp
    have wd: "x \<or> (\<exists>m \<in> set (send c out). check_for ctx e prog c i True l m)" if "l \<in> touches True ?p" "row_master ctx l = c \<longrightarrow> x" for x l
    proof (cases "row_master ctx l = c")
      case False
      with o(2) that(1) have "check_msg ctx ?txn True l \<in> set out" by (auto simp: t)
      with sent cm [OF that(1)] show ?thesis by blast
    qed (use that(2) in simp)
    have "at_war txn \<longleftrightarrow> (\<exists>l \<in> touches True ?p. row_master ctx l = c \<and> earlier ctx prog False l ?id)"
      "at_waw txn \<longleftrightarrow> (\<exists>l \<in> touches True ?p. row_master ctx l = c \<and> earlier ctx prog True l ?id)"
      using r w fl me by (auto simp: touches_def t)
    with raw raw' wd have "flags_partial ctx e prog c i txn (set (send c out))" by (auto simp: flags_partial_def conflict_def)
    moreover have "same_txn ?txn txn" using same w by (auto simp: same_txn_def t)
    then have "shape ctx e ?p c i txn" "values_done ctx rows0 prog c i txn"
      using sh v same_txn_shape by (simp_all add: values_done_def same_txn_def shape_def)
    moreover have "at_pendingResponses txn = length (send c out)" using r w pe by (simp add: t)
    moreover have "for_slot c i m" if "m \<in> set (send c out)" for m using ms [OF that] check_for_slot [OF su c] by blast
    ultimately show ?thesis using np ms by (simp add: slot_ok_def)
  qed
  then have own: "slot_ok ctx e prog rows0 (cl_status s) c i Analyzed txn (slot_msgs s c i @ filter (for_slot c i) (send c out))"
    and fs: "\<forall>m \<in> set (send c out). for_slot c i m" using F s(1) by simp_all
  have "row_commit_ok ctx e prog rows0 ?s l" for l
    by (rule row_commit_stage [OF rc, where ms = "send c out"]) (use s fs for_slot_not_about in auto, use fs for_slot_not_about in blast)
  with fs s(1) show ?thesis by (intro slots_step [OF inv _ _ _ _ _ c own]) (auto simp: row_ok_def)
qed

end
