(* ===== verification/Aria_Steps.thy ===== *)
theory Aria_Steps
  imports Aria_Invariant
begin

text \<open>
  The invariant of a batch under the decisions and the delivery of messages, and so in every state that a cluster reaches.
\<close>

section \<open>Decisions\<close>

lemma waw_unique:
  assumes su: "aria_setup ctx e prog rows0" and r: "reserving ctx prog True l c i" "reserving ctx prog True l c' i'"
    and w: "\<not> conflict ctx prog True True c i" "\<not> conflict ctx prog True True c' i'"
  shows "c' = c \<and> i' = i"
proof -
  have t: "tid_of ctx c i \<in> tids ctx prog True l" "tid_of ctx c' i' \<in> tids ctx prog True l" using r by (auto simp: tids_def)
  have s: "is_slot ctx c i" "is_slot ctx c' i'" using r by (simp_all add: reserving_def)
  have "\<not> tid_of ctx c i < tid_of ctx c' i'" using w(2) r(2) t(1) unfolding conflict_def earlier_def reserving_def by blast
  moreover have "\<not> tid_of ctx c' i' < tid_of ctx c i" using w(1) r(1) t(2) unfolding conflict_def earlier_def reserving_def by blast
  ultimately show ?thesis using tid_of_inj [OF su s(2,1)] by simp
qed

lemma writer_committed:
  assumes inv: "aria_inv ctx e prog rows0 s" and w: "writer ctx prog s l c i j"
  shows "reserving ctx prog True l c i" "\<not> conflict ctx prog True True c i"
proof -
  have c: "is_slot ctx c i" "cl_stage s c i = Committed" and j: "j < length (pg_updates (prog c i))" "pg_updates (prog c i) ! j = l"
    using w by (simp_all add: writer_def)
  from j have u: "l \<in> set (pg_updates (prog c i))" by auto
  then have x: "\<not> exempt ctx (prog c i)" by (auto simp: exempt_def)
  with aria_invD(1) [OF inv c(1)] c(2) have *: "\<not> pg_no_retry (prog c i)" "flags_exact ctx prog c i (cl_txns s c i)"
    "commit_rule ctx (at_raw (cl_txns s c i)) (at_war (cl_txns s c i)) (at_waw (cl_txns s c i))" by (simp_all add: slot_ok_def)
  then show "\<not> conflict ctx prog True True c i" by (simp add: flags_exact_def commit_rule_def)
  show "reserving ctx prog True l c i" using c x u *(1) by (simp add: reserving_def touches_def writes_of_def)
qed

lemma decide_transaction_spec:
  assumes sh: "shape ctx e p c i txn" and st: "decide_transaction ctx c txn rows = (ok, txn', rows', out)"
  shows "txn' = txn" "ok \<longleftrightarrow> exempt ctx p \<or> commit_rule ctx (at_raw txn) (at_war txn) (at_waw txn)"
    "ok \<Longrightarrow> aria_commit ctx c (at_writeSet txn) rows = (rows', out)" "\<not> ok \<Longrightarrow> rows' = rows \<and> out = []"
proof -
  have x: "cx_read_only_optimization ctx \<and> is_read_only txn \<longleftrightarrow> exempt ctx p" using shapeD(4) [OF sh] by (simp add: exempt_def)
  have ro: "exempt ctx p \<Longrightarrow> at_writeSet txn = []" unfolding x [symmetric] is_read_only_def by simp
  note d = st [unfolded decide_transaction_def x aria_abort_def]
  show "txn' = txn" "ok \<longleftrightarrow> exempt ctx p \<or> commit_rule ctx (at_raw txn) (at_war txn) (at_waw txn)"
    "ok \<Longrightarrow> aria_commit ctx c (at_writeSet txn) rows = (rows', out)" "\<not> ok \<Longrightarrow> rows' = rows \<and> out = []"
    using d ro by (auto simp: commit_rule_def split: if_splits)
qed

lemma row_commit_same:
  assumes "row_commit_ok ctx e prog rows0 s l" "\<And>c. cl_rows s' c l = cl_rows s c l" "writer ctx prog s' l = writer ctx prog s l"
    and "cl_net s' = cl_net s @ ms" "\<forall>m \<in> set ms. \<not> about_row l m"
  shows "row_commit_ok ctx e prog rows0 s' l"
  using assms(1,5) unfolding row_commit_ok_def assms(2,3,4) set_append by (metis Un_iff)

lemma flags_decided: "flags_partial ctx e prog c i txn {} \<Longrightarrow> flags_exact ctx prog c i txn"
  unfolding flags_partial_def flags_exact_def conflict_def by blast

lemma commit_effect:
  assumes sh: "shape ctx e (prog c i) c i txn" and v: "values_done ctx rows0 prog c i txn" and dist: "distinct (pg_updates (prog c i))"
    and ac: "aria_commit ctx c (at_writeSet txn) rows = (rows', out)"
  shows "fst (rows' l) = fst (rows l)" "l \<notin> set (pg_updates (prog c i)) \<or> row_master ctx l \<noteq> c \<Longrightarrow> snd (rows' l) = snd (rows l)"
    "j < length (pg_updates (prog c i)) \<Longrightarrow> pg_updates (prog c i) ! j = l \<Longrightarrow> row_master ctx l = c \<Longrightarrow> snd (rows' l) = new_value ctx rows0 prog c i j"
    "m \<in> set (send c out) \<longleftrightarrow> (\<exists>j < length (pg_updates (prog c i)). row_master ctx (pg_updates (prog c i) ! j) \<noteq> c \<and>
       m = Packet (row_master ctx (pg_updates (prog c i) ! j)) c (WriteRequest (pg_updates (prog c i) ! j) (new_value ctx rows0 prog c i j)))"
proof -
  let ?u = "pg_updates (prog c i)" and ?k = "\<lambda>j. at_writeSet txn ! j"
  have wset: "map row_of (at_writeSet txn) = ?u" using sh by (simp add: shape_def)
  have len: "length (at_writeSet txn) = length ?u" by (rule shapeD(8) [OF sh])
  have upd: "row_of (?k j) = ?u ! j" "rk_value (?k j) = new_value ctx rows0 prog c i j" if "j < length ?u" for j
    using that v len arg_cong [OF wset, of "\<lambda>xs. xs ! j"] by (simp_all add: values_done_def)
  have im: "row_of ` set (at_writeSet txn) = set ?u" unfolding wset [symmetric] by simp
  have ks: "set (at_writeSet txn) = ?k ` {..<length ?u}" unfolding set_conv_nth len by blast
  have sp: "(\<forall>l. fst (rows' l) = fst (rows l)) \<and> (\<forall>k \<in> set (at_writeSet txn). row_master ctx (row_of k) = c \<longrightarrow> snd (rows' (row_of k)) = rk_value k) \<and>
    (\<forall>l. l \<notin> set ?u \<or> row_master ctx l \<noteq> c \<longrightarrow> snd (rows' l) = snd (rows l)) \<and>
    set out = (\<lambda>k. (row_master ctx (row_of k), WriteRequest (row_of k) (rk_value k))) ` {k \<in> set (at_writeSet txn). row_master ctx (row_of k) \<noteq> c}"
    using aria_commit_spec [OF ac, unfolded wset im, OF dist] .
  show "fst (rows' l) = fst (rows l)" "l \<notin> set ?u \<or> row_master ctx l \<noteq> c \<Longrightarrow> snd (rows' l) = snd (rows l)" using sp by blast+
  show "snd (rows' l) = new_value ctx rows0 prog c i j" if j: "j < length ?u" "?u ! j = l" "row_master ctx l = c"
  proof -
    have "?k j \<in> set (at_writeSet txn)" using j(1) ks by blast
    then have "snd (rows' (row_of (?k j))) = rk_value (?k j)" using sp upd(1) [OF j(1)] j(2,3) by metis
    then show ?thesis using upd [OF j(1)] j(2) by simp
  qed
  have "{k \<in> set (at_writeSet txn). row_master ctx (row_of k) \<noteq> c} = ?k ` {j. j < length ?u \<and> row_master ctx (?u ! j) \<noteq> c}"
  proof (rule set_eqI, rule iffI)
    fix k assume "k \<in> {k \<in> set (at_writeSet txn). row_master ctx (row_of k) \<noteq> c}"
    then obtain j where "k = ?k j" "j < length ?u" "row_master ctx (row_of k) \<noteq> c" unfolding ks by blast
    then show "k \<in> ?k ` {j. j < length ?u \<and> row_master ctx (?u ! j) \<noteq> c}" using upd(1) [of j] by (intro image_eqI [of _ _ j]) simp_all
  next
    fix k assume "k \<in> ?k ` {j. j < length ?u \<and> row_master ctx (?u ! j) \<noteq> c}"
    then obtain j where "k = ?k j" "j < length ?u" "row_master ctx (?u ! j) \<noteq> c" by blast
    then show "k \<in> {k \<in> set (at_writeSet txn). row_master ctx (row_of k) \<noteq> c}" using upd(1) [of j] ks by simp
  qed
  then have "set out = (\<lambda>j. (row_master ctx (row_of (?k j)), WriteRequest (row_of (?k j)) (rk_value (?k j)))) ` {j. j < length ?u \<and> row_master ctx (?u ! j) \<noteq> c}"
    using sp by (simp only: image_image)
  also have "\<dots> = (\<lambda>j. (row_master ctx (?u ! j), WriteRequest (?u ! j) (new_value ctx rows0 prog c i j))) ` {j. j < length ?u \<and> row_master ctx (?u ! j) \<noteq> c}"
    by (rule image_cong) (simp_all add: upd)
  finally have o: "set out = (\<lambda>j. (row_master ctx (?u ! j), WriteRequest (?u ! j) (new_value ctx rows0 prog c i j))) ` {j. j < length ?u \<and> row_master ctx (?u ! j) \<noteq> c}" .
  show "m \<in> set (send c out) \<longleftrightarrow> (\<exists>j < length ?u. row_master ctx (?u ! j) \<noteq> c \<and>
       m = Packet (row_master ctx (?u ! j)) c (WriteRequest (?u ! j) (new_value ctx rows0 prog c i j)))"
    unfolding send_set o image_image by auto
qed

text \<open>A commit is the only one that writes its rows.\<close>

lemma commit_row:
  assumes rc: "row_commit_ok ctx e prog rows0 s l" and dist: "distinct (pg_updates (prog c i))"
    and nw: "l \<in> set (pg_updates (prog c i)) \<Longrightarrow> \<forall>c' i' j'. \<not> writer ctx prog s l c' i' j'"
    and w': "\<And>c' i' j'. writer ctx prog s' l c' i' j' \<longleftrightarrow> writer ctx prog s l c' i' j' \<or>
      c' = c \<and> i' = i \<and> j' < length (pg_updates (prog c i)) \<and> pg_updates (prog c i) ! j' = l"
    and s': "cl_rows s' = (cl_rows s)(c := rows)" "cl_net s' = cl_net s @ send c out"
    and sh: "shape ctx e (prog c i) c i txn" and v: "values_done ctx rows0 prog c i txn"
    and ac: "aria_commit ctx c (at_writeSet txn) (cl_rows s c) = (rows, out)"
  shows "row_commit_ok ctx e prog rows0 s' l"
proof (cases "l \<in> set (pg_updates (prog c i))")
  note ce = commit_effect [OF sh v dist ac]
  case False
  then have "writer ctx prog s' l = writer ctx prog s l" using w' by (auto simp: fun_eq_iff)
  moreover have "rows l = cl_rows s c l" using ce(1,2) False by (intro prod_eqI) auto
  moreover have "\<forall>m \<in> set (send c out). \<not> about_row l m" using False ce(4) by auto
  ultimately show ?thesis using s' by (intro row_commit_same [OF rc, where ms = "send c out"]) auto
next
  note ce = commit_effect [OF sh v dist ac]
  let ?u = "pg_updates (prog c i)"
  case U: True
  then obtain j where j: "j < length ?u" "?u ! j = l" by (metis in_set_conv_nth)
  have one: "j' < length ?u \<and> ?u ! j' = l \<longleftrightarrow> j' = j" for j' using j dist nth_eq_iff_index_eq by blast
  have w1: "writer ctx prog s' l c' i' j' \<longleftrightarrow> c' = c \<and> i' = i \<and> j' = j" for c' i' j' unfolding w' one using nw [OF U] by blast
  have nm: "\<not> about_row l m" if "m \<in> set (cl_net s)" for m using rc that nw [OF U] unfolding row_commit_ok_def by blast
  have m1: "m = Packet (row_master ctx l) c (WriteRequest l (new_value ctx rows0 prog c i j))" if m: "m \<in> set (send c out)" "about_row l m" for m
  proof -
    from m(1) ce(4) obtain j' where j': "j' < length ?u"
      "m = Packet (row_master ctx (?u ! j')) c (WriteRequest (?u ! j') (new_value ctx rows0 prog c i j'))" by blast
    with m(2) have "?u ! j' = l" by simp
    with j'(1) one have "j' = j" by blast
    with j'(2) j(2) show ?thesis by simp
  qed
  have "snd (cl_rows s' (row_master ctx l) l) = new_value ctx rows0 prog c i j \<or>
      Packet (row_master ctx l) c (WriteRequest l (new_value ctx rows0 prog c i j)) \<in> set (cl_net s')"
  proof (cases "row_master ctx l = c")
    case True
    then show ?thesis using ce(3) [OF j] s' by simp
  next
    case False
    then have "Packet (row_master ctx l) c (WriteRequest l (new_value ctx rows0 prog c i j)) \<in> set (send c out)"
      using j by (intro ce(4) [THEN iffD2] exI [of _ j]) simp_all
    then show ?thesis unfolding s'(2) by simp
  qed
  moreover have "reserved (ucast e) (fst (cl_rows s' (row_master ctx l) l)) (tids ctx prog False l) (tids ctx prog True l)"
    using rc ce(1) unfolding row_commit_ok_def s' by (cases "row_master ctx l = c") simp_all
  moreover have "snd (cl_rows s' c' l) = snd (rows0 c' l)" if "c' \<noteq> row_master ctx l" for c'
    using rc that ce(2) [of l] unfolding row_commit_ok_def s' by auto
  moreover have "about_row l m \<Longrightarrow> m = Packet (row_master ctx l) c (WriteRequest l (new_value ctx rows0 prog c i j))" if "m \<in> set (cl_net s')" for m
    using that nm m1 unfolding s' by auto
  ultimately show ?thesis unfolding row_commit_ok_def w1 by blast
qed

lemma decide_inv:
  assumes su: "aria_setup ctx e prog rows0" and inv: "aria_inv ctx e prog rows0 s" and c: "is_slot ctx c i"
    and s: "cl_status s = Aria_COMMIT" "cl_stage s c i = Analyzed" "at_pendingResponses (cl_txns s c i) = 0"
    and st: "decide_transaction ctx c (cl_txns s c i) (cl_rows s c) = (ok, txn, rows, out)"
  shows "aria_inv ctx e prog rows0 (s\<lparr>cl_txns := upd2 (cl_txns s) c i txn, cl_rows := (cl_rows s)(c := rows),
      cl_stage := upd2 (cl_stage s) c i (if ok then Committed else Aborted), cl_net := cl_net s @ send c out\<rparr>)" (is "aria_inv _ _ _ _ ?s")
proof -
  let ?p = "prog c i" and ?txn = "cl_txns s c i"
  have so: "slot_ok ctx e prog rows0 Aria_COMMIT c i Analyzed ?txn (slot_msgs s c i)" using aria_invD(1) [OF inv c] s by simp
  then have sh: "shape ctx e ?p c i ?txn" and np: "\<not> pg_no_retry ?p" and F: "slot_msgs s c i = []" and v: "values_done ctx rows0 prog c i ?txn"
    using s(3) by (simp_all add: slot_ok_def)
  have fp: "flags_exact ctx prog c i ?txn" if "\<not> exempt ctx ?p"
  proof -
    have "flags_partial ctx e prog c i ?txn (set (slot_msgs s c i))" using so that unfolding slot_ok_def by blast
    then show ?thesis unfolding F by (simp add: flags_decided)
  qed
  note d = decide_transaction_spec [OF sh st]
  have rc: "row_commit_ok ctx e prog rows0 s l" for l using aria_invD(2) [OF inv, of l] s(1) by (simp add: row_ok_def)
  have dist: "distinct (pg_updates ?p)" using su c by (simp add: aria_setup_def prog_ok_def)
  have own: "slot_ok ctx e prog rows0 (cl_status s) c i (if ok then Committed else Aborted) txn []"
    using s(1,3) sh np v fp d(1,2) by (cases ok) (auto simp: slot_ok_def)
  have "row_commit_ok ctx e prog rows0 ?s l \<and> (\<forall>m \<in> set (send c out). \<exists>l. about_row l m)" for l
  proof (cases ok)
    case False
    then have "rows = cl_rows s c" "out = []" "writer ctx prog ?s l = writer ctx prog s l"
      using d(4) s(2) by (auto simp: writer_def fun_eq_iff)
    then show ?thesis by (auto intro!: row_commit_same [OF rc, where ms = "[]"])
  next
    case True
    note ac = d(3) [OF True]
    have w': "writer ctx prog ?s l c' i' j' \<longleftrightarrow> writer ctx prog s l c' i' j' \<or> c' = c \<and> i' = i \<and> j' < length (pg_updates ?p) \<and> pg_updates ?p ! j' = l"
      for c' i' j' using True c s(2) by (auto simp: writer_def)
    have "\<not> writer ctx prog s l c' i' j'" if u: "l \<in> set (pg_updates ?p)" for c' i' j'
    proof
      assume w: "writer ctx prog s l c' i' j'"
      have x: "\<not> exempt ctx ?p" using u by (auto simp: exempt_def)
      have r: "reserving ctx prog True l c i" "\<not> conflict ctx prog True True c i"
        using c np x u True d(2) fp [OF x] by (simp_all add: reserving_def touches_def writes_of_def commit_rule_def flags_exact_def)
      from waw_unique [OF su r(1) _ r(2)] writer_committed [OF inv w] have "c' = c \<and> i' = i" by blast
      with w s(2) show False by (simp add: writer_def)
    qed
    then have "row_commit_ok ctx e prog rows0 ?s l" by (intro commit_row [OF rc dist _ w' _ _ sh v ac]) simp_all
    moreover have "\<exists>l. about_row l m" if "m \<in> set (send c out)" for m using that unfolding commit_effect(4) [OF sh v dist ac] by auto
    ultimately show ?thesis by blast
  qed
  then have rows: "\<And>l. row_commit_ok ctx e prog rows0 ?s l" and abt: "\<forall>m \<in> set (send c out). \<exists>l. about_row l m" by blast+
  have none: "slot_msgs s c i @ filter (for_slot c i) (send c out) = []" using F abt by (auto simp: filter_empty_conv dest: about_row_not_slot)
  show ?thesis
    by (rule slots_step [OF inv _ _ _ _ _ c, where ms = "send c out" and stage = "if ok then Committed else Aborted" and txn = txn])
      (use rows abt none own s(1) in \<open>simp_all add: row_ok_def\<close>)
qed

end
