(* ===== verification/Aria_Deliver.thy ===== *)
theory Aria_Deliver
  imports Aria_Steps
begin

text \<open>
  The invariant of a batch under the delivery of messages, and so in every state that a cluster reaches; no handler's check fails.
\<close>

section \<open>Messages of a transaction\<close>

lemma row_ok_net:
  assumes "row_ok ctx e prog rows0 s l" "\<And>c. cl_rows s' c l = cl_rows s c l" "cl_stage s' = cl_stage s" "cl_status s' = cl_status s"
    and net: "\<And>m. about_row l m \<Longrightarrow> m \<in> set (cl_net s') \<longleftrightarrow> m \<in> set (cl_net s)"
  shows "row_ok ctx e prog rows0 s' l"
proof -
  have "writer ctx prog s' l = writer ctx prog s l" using assms(3) by (simp add: writer_def fun_eq_iff)
  moreover have "(Packet d src (ReserveRequest l t ep w) \<in> set (cl_net s')) = (Packet d src (ReserveRequest l t ep w) \<in> set (cl_net s))"
    "(Packet d src (WriteRequest l v) \<in> set (cl_net s')) = (Packet d src (WriteRequest l v) \<in> set (cl_net s))" for d src t ep w v
    by (simp_all add: net)
  moreover have "(\<forall>m \<in> set (cl_net s'). about_row l m \<longrightarrow> P m) \<longleftrightarrow> (\<forall>m \<in> set (cl_net s). about_row l m \<longrightarrow> P m)" for P using net by blast
  ultimately show ?thesis using assms(1) unfolding row_ok_def row_read_ok_def row_commit_ok_def assms(2-4) by simp
qed

lemma slot_delivery:
  fixes s :: "('k, 'v) AriaCluster"
  assumes inv: "aria_inv ctx e prog rows0 s" and n: "cl_net s = xs @ m # ys" "for_slot c i m" and c: "is_slot ctx c i"
    and s': "cl_rows s' = cl_rows s" "cl_txns s' = upd2 (cl_txns s) c i txn" "cl_stage s' = cl_stage s" "cl_status s' = cl_status s" "cl_net s' = xs @ ys @ ms"
    and ms: "\<forall>m \<in> set ms. for_slot c i m"
    and own: "slot_ok ctx e prog rows0 (cl_status s) c i (cl_stage s c i) txn (slot_msgs s' c i)"
  shows "aria_inv ctx e prog rows0 s'"
proof -
  have "slot_ok ctx e prog rows0 (cl_status s') c' i' (cl_stage s' c' i') (cl_txns s' c' i') (slot_msgs s' c' i')" if c': "is_slot ctx c' i'" for c' i'
  proof (cases "c' = c \<and> i' = i")
    case True
    with own show ?thesis by (simp add: s')
  next
    case False
    have "\<not> for_slot c' i' m" using False for_slot_unique [OF n(2)] by blast
    moreover have "filter (for_slot c' i') ms = []" unfolding filter_empty_conv using False ms for_slot_unique by blast
    ultimately have "slot_msgs s' c' i' = slot_msgs s c' i'" using n(1) s'(5) by simp
    with aria_invD(1) [OF inv c'] False show ?thesis by (auto simp: s')
  qed
  moreover have "row_ok ctx e prog rows0 s' l" for l
  proof (rule row_ok_net [OF aria_invD(2) [OF inv] _ s'(3,4)])
    fix x :: "('k, 'v) packet"
    assume "about_row l x"
    then have "x \<noteq> m" "x \<notin> set ms" using n(2) ms for_slot_not_about by blast+
    then show "x \<in> set (cl_net s') \<longleftrightarrow> x \<in> set (cl_net s)" by (simp add: s'(5) n(1))
  qed (simp add: s'(1))
  moreover have "net_ok ctx m" if "m \<in> set (cl_net s')" for m
    using that aria_invD(3) [OF inv] ms c n(1) by (auto simp: s'(5) net_ok_def)
  ultimately show ?thesis by (simp add: aria_inv_def)
qed

text \<open>Taking a message of a transaction out of the network and putting others in.\<close>

lemma slot_waits:
  assumes inv: "aria_inv ctx e prog rows0 s" and n: "cl_net s = xs @ m # ys" "for_slot c i m" and c: "is_slot ctx c i"
  obtains (search_msgs_left) j where "cl_stage s c i = Executed" "cl_status s = Aria_READ" "search_for ctx prog rows0 c i j m"
  | (check_msgs_left) w l where "cl_stage s c i = Analyzed" "cl_status s = Aria_COMMIT" "check_for ctx e prog c i w l m"
proof -
  note so = aria_invD(1) [OF inv c]
  have m: "m \<in> set (slot_msgs s c i)" using n by simp
  then have ne: "slot_msgs s c i \<noteq> []" by (metis list.set(1) empty_iff)
  have "cl_stage s c i \<notin> {Waiting, Skipped, Reserved, Committed, Aborted}" using so ne unfolding slot_ok_def by blast
  then have "cl_stage s c i = Executed \<or> cl_stage s c i = Analyzed" by (cases "cl_stage s c i") auto
  then show thesis
  proof
    assume st: "cl_stage s c i = Executed"
    then have "cl_status s = Aria_READ" "\<exists>j. search_for ctx prog rows0 c i j m" using so m unfolding slot_ok_def by blast+
    with st search_msgs_left show thesis by blast
  next
    assume st: "cl_stage s c i = Analyzed"
    then have "cl_status s = Aria_COMMIT" "\<exists>w l. check_for ctx e prog c i w l m" using so m unfolding slot_ok_def by blast+
    with st check_msgs_left show thesis by blast
  qed
qed

lemma read_index:
  assumes "aria_setup ctx e prog rows0" "is_slot ctx c i" "j < length (pg_reads (prog c i))"
  shows "unat (of_nat j :: 32 word) = j"
proof -
  have "prog_ok (prog c i)" using assms(1,2) by (simp add: aria_setup_def)
  with assms(3) have "j < 2 ^ 32" by (simp add: prog_ok_def)
  then show ?thesis by (simp add: unat_of_nat take_bit_nat_eq_self)
qed

lemma search_for_index:
  assumes su: "aria_setup ctx e prog rows0" and c: "is_slot ctx c i"
    and m: "search_for ctx prog rows0 c i j m" "search_for ctx prog rows0 c i j' m"
  shows "j' = j"
proof -
  have "(of_nat j' :: 32 word) = of_nat j" using m unfolding search_for_def by auto
  moreover have "j < length (pg_reads (prog c i))" "j' < length (pg_reads (prog c i))" using m unfolding search_for_def by blast+
  ultimately show ?thesis using read_index [OF su c] by metis
qed

lemma search_request_inv:
  assumes su: "aria_setup ctx e prog rows0" and inv: "aria_inv ctx e prog rows0 s" and c: "is_slot ctx c i"
    and n: "cl_net s = xs @ m # ys" "for_slot c i m" and st: "cl_stage s c i = Executed"
    and m: "search_for ctx prog rows0 c i j m" and r: "search_for ctx prog rows0 c i j r"
  shows "aria_inv ctx e prog rows0 (s\<lparr>cl_net := xs @ ys @ [r]\<rparr>)" (is "aria_inv _ _ _ _ ?s")
proof -
  have so: "slot_ok ctx e prog rows0 (cl_status s) c i Executed (cl_txns s c i) (slot_msgs s c i)" using aria_invD(1) [OF inv c] st by simp
  have fr: "for_slot c i r" by (rule search_for_slot [OF su c r])
  have F: "slot_msgs s c i = filter (for_slot c i) xs @ m # filter (for_slot c i) ys"
    "slot_msgs ?s c i = filter (for_slot c i) xs @ filter (for_slot c i) ys @ [r]" using n fr by simp_all
  have "\<exists>j. search_for ctx prog rows0 c i j x" if "x \<in> set (slot_msgs ?s c i)" for x using so that r unfolding F slot_ok_def by auto
  moreover have "rk_value (at_readSet (cl_txns s c i) ! j') = read_value ctx rows0 c (pg_reads (prog c i) ! j') \<or>
      (\<exists>m \<in> set (slot_msgs ?s c i). search_for ctx prog rows0 c i j' m)" if j': "j' < length (pg_reads (prog c i))" for j'
  proof (cases "j' = j")
    case True
    with r show ?thesis unfolding F by simp
  next
    case False
    then have "\<not> search_for ctx prog rows0 c i j' m" using search_for_index [OF su c m] by blast
    moreover have "rk_value (at_readSet (cl_txns s c i) ! j') = read_value ctx rows0 c (pg_reads (prog c i) ! j') \<or>
      (\<exists>m \<in> set (slot_msgs s c i). search_for ctx prog rows0 c i j' m)" using so j' unfolding slot_ok_def by blast
    ultimately show ?thesis unfolding F by auto
  qed
  moreover have "length (slot_msgs ?s c i) = length (slot_msgs s c i)" unfolding F by simp
  ultimately have "slot_ok ctx e prog rows0 (cl_status s) c i Executed (cl_txns s c i) (slot_msgs ?s c i)"
    using so unfolding slot_ok_def by simp
  then show ?thesis using st fr by (intro slot_delivery [OF inv n c, where ms = "[r]" and txn = "cl_txns s c i"]) (simp_all add: fun_eq_iff)
qed

lemma search_response_inv:
  assumes su: "aria_setup ctx e prog rows0" and inv: "aria_inv ctx e prog rows0 s" and c: "is_slot ctx c i"
    and n: "cl_net s = xs @ m # ys" "for_slot c i m" and st: "cl_stage s c i = Executed"
    and m: "search_for ctx prog rows0 c i j m"
  shows "aria_inv ctx e prog rows0 (s\<lparr>cl_txns := upd2 (cl_txns s) c i ((cl_txns s c i)\<lparr>at_readSet := (at_readSet (cl_txns s c i))
      [j := (at_readSet (cl_txns s c i) ! j)\<lparr>rk_value := read_value ctx rows0 c (pg_reads (prog c i) ! j)\<rparr>],
      at_pendingResponses := at_pendingResponses (cl_txns s c i) - 1\<rparr>), cl_net := xs @ ys\<rparr>)"
    (is "aria_inv _ _ _ _ (s\<lparr>cl_txns := upd2 _ _ _ ?t, cl_net := _\<rparr>)")
proof -
  let ?txn = "cl_txns s c i" and ?F = "filter (for_slot c i) xs @ filter (for_slot c i) ys"
  have so: "slot_ok ctx e prog rows0 (cl_status s) c i Executed ?txn (slot_msgs s c i)" using aria_invD(1) [OF inv c] st by simp
  have F: "slot_msgs s c i = filter (for_slot c i) xs @ m # filter (for_slot c i) ys" using n by simp
  have sh: "shape ctx e (prog c i) c i ?txn" using so by (simp add: slot_ok_def)
  have j: "j < length (pg_reads (prog c i))" using m by (simp add: search_for_def)
  have jl: "j < length (at_readSet ?txn)" using j shapeD(7) [OF sh] by simp
  have k: "index_and_row (k\<lparr>rk_value := v\<rparr>) = index_and_row k" for k v by (simp add: row_of_def)
  have "map index_and_row (at_readSet ?t) = map index_and_row (at_readSet ?txn)"
    using jl by (simp add: map_update k row_of_def list_update_same_conv)
  moreover have "\<not> get_read_request_bit (bitvec k)" if "k \<in> set (at_readSet ?t)" for k
  proof -
    have "\<forall>k \<in> set (at_readSet ?txn). \<not> get_read_request_bit (bitvec k)" using sh by (simp add: shape_def)
    then show ?thesis using that jl nth_mem [OF jl] by (auto dest!: set_update_subset_insert [THEN subsetD])
  qed
  ultimately have "shape ctx e (prog c i) c i ?t" using sh unfolding shape_def by simp
  moreover have "rk_value (at_readSet ?t ! j') = read_value ctx rows0 c (pg_reads (prog c i) ! j') \<or>
      (\<exists>m \<in> set ?F. search_for ctx prog rows0 c i j' m)" if j': "j' < length (pg_reads (prog c i))" for j'
  proof (cases "j' = j")
    case True
    with jl show ?thesis by simp
  next
    case False
    then have "\<not> search_for ctx prog rows0 c i j' m" using search_for_index [OF su c m] by blast
    moreover have "rk_value (at_readSet ?txn ! j') = read_value ctx rows0 c (pg_reads (prog c i) ! j') \<or>
      (\<exists>m \<in> set (slot_msgs s c i). search_for ctx prog rows0 c i j' m)" using so j' unfolding slot_ok_def by blast
    ultimately show ?thesis using False unfolding F by auto
  qed
  moreover have "\<exists>j. search_for ctx prog rows0 c i j x" if "x \<in> set ?F" for x using so that unfolding F slot_ok_def by auto
  moreover have "at_pendingResponses ?t = length ?F" using so unfolding F slot_ok_def by simp
  moreover have "no_flags ?t" using so by (simp add: slot_ok_def no_flags_def)
  ultimately have "slot_ok ctx e prog rows0 (cl_status s) c i Executed ?t ?F" using so unfolding slot_ok_def by simp
  then show ?thesis using st by (intro slot_delivery [OF inv n c, where ms = "[]" and txn = ?t]) simp_all
qed

lemma check_request_inv:
  assumes su: "aria_setup ctx e prog rows0" and inv: "aria_inv ctx e prog rows0 s" and c: "is_slot ctx c i"
    and n: "cl_net s = xs @ m # ys" "for_slot c i m" and st: "cl_stage s c i = Analyzed"
    and m: "\<And>w l. check_for ctx e prog c i w l m \<Longrightarrow> check_for ctx e prog c i w l r" "check_for ctx e prog c i w l m"
  shows "aria_inv ctx e prog rows0 (s\<lparr>cl_net := xs @ ys @ [r]\<rparr>)" (is "aria_inv _ _ _ _ ?s")
proof -
  have so: "slot_ok ctx e prog rows0 (cl_status s) c i Analyzed (cl_txns s c i) (slot_msgs s c i)" using aria_invD(1) [OF inv c] st by simp
  have fr: "for_slot c i r" by (rule check_for_slot [OF su c m(1) [OF m(2)]])
  have F: "slot_msgs s c i = filter (for_slot c i) xs @ m # filter (for_slot c i) ys"
    "slot_msgs ?s c i = filter (for_slot c i) xs @ filter (for_slot c i) ys @ [r]" using n fr by simp_all
  have ex: "\<exists>x \<in> set (slot_msgs ?s c i). check_for ctx e prog c i w l x" if "\<exists>x \<in> set (slot_msgs s c i). check_for ctx e prog c i w l x" for w l
    using that m(1) unfolding F by auto
  have "\<exists>w l. check_for ctx e prog c i w l x" if "x \<in> set (slot_msgs ?s c i)" for x using so that m unfolding F slot_ok_def by auto
  moreover have "flags_partial ctx e prog c i (cl_txns s c i) (set (slot_msgs ?s c i))" if "\<not> exempt ctx (prog c i)"
  proof -
    have "flags_partial ctx e prog c i (cl_txns s c i) (set (slot_msgs s c i))" using so that unfolding slot_ok_def by blast
    then show ?thesis using ex unfolding flags_partial_def by blast
  qed
  moreover have "length (slot_msgs ?s c i) = length (slot_msgs s c i)" unfolding F by simp
  ultimately have "slot_ok ctx e prog rows0 (cl_status s) c i Analyzed (cl_txns s c i) (slot_msgs ?s c i)"
    using so unfolding slot_ok_def by simp
  then show ?thesis using st fr by (intro slot_delivery [OF inv n c, where ms = "[r]" and txn = "cl_txns s c i"]) (simp_all add: fun_eq_iff)
qed

lemma check_response_inv:
  assumes su: "aria_setup ctx e prog rows0" and inv: "aria_inv ctx e prog rows0 s" and c: "is_slot ctx c i"
    and n: "cl_net s = xs @ m # ys" "for_slot c i m" and st: "cl_stage s c i = Analyzed"
    and m: "m = Packet c src (CheckResponse (ucast (tid_of ctx c i)) (of_nat i) w waw war raw)" "check_for ctx e prog c i w l m"
    and t: "same_txn (cl_txns s c i) txn" "at_pendingResponses txn = at_pendingResponses (cl_txns s c i) - 1"
      "at_raw txn \<longleftrightarrow> at_raw (cl_txns s c i) \<or> raw" "at_war txn \<longleftrightarrow> at_war (cl_txns s c i) \<or> war" "at_waw txn \<longleftrightarrow> at_waw (cl_txns s c i) \<or> waw"
  shows "aria_inv ctx e prog rows0 (s\<lparr>cl_txns := upd2 (cl_txns s) c i txn, cl_net := xs @ ys\<rparr>)"
proof -
  let ?txn = "cl_txns s c i" and ?F = "filter (for_slot c i) xs @ filter (for_slot c i) ys" and ?id = "tid_of ctx c i"
  have so: "slot_ok ctx e prog rows0 (cl_status s) c i Analyzed ?txn (slot_msgs s c i)" using aria_invD(1) [OF inv c] st by simp
  have F: "slot_msgs s c i = filter (for_slot c i) xs @ m # filter (for_slot c i) ys" using n by simp
  have fl: "waw \<longleftrightarrow> w \<and> earlier ctx prog True l ?id" "war \<longleftrightarrow> w \<and> earlier ctx prog False l ?id" "raw \<longleftrightarrow> \<not> w \<and> earlier ctx prog True l ?id"
    "l \<in> touches w (prog c i)" if "check_for ctx e prog c i w l m" for l using that unfolding check_for_def m(1) by (auto simp: reserving_def)
  have w: "w' = w" if "check_for ctx e prog c i w' l' m" for w' l' using that unfolding check_for_def m(1) by auto
  have ex: "(\<exists>x \<in> set ?F. check_for ctx e prog c i w' l' x) \<or> check_for ctx e prog c i w' l' m"
    if "\<exists>x \<in> set (slot_msgs s c i). check_for ctx e prog c i w' l' x" for w' l' using that unfolding F by auto
  have "flags_partial ctx e prog c i txn (set ?F)" if "\<not> exempt ctx (prog c i)"
  proof -
    have fp: "flags_partial ctx e prog c i ?txn (set (slot_msgs s c i))" using so that unfolding slot_ok_def by blast
    have "at_raw txn \<longrightarrow> conflict ctx prog False True c i" "at_war txn \<longrightarrow> conflict ctx prog True False c i" "at_waw txn \<longrightarrow> conflict ctx prog True True c i"
      using fp fl [OF m(2)] unfolding flags_partial_def t(3-5) conflict_def by (cases w; auto)+
    moreover have "at_raw txn \<or> (\<exists>m \<in> set ?F. check_for ctx e prog c i False l m)" if l: "l \<in> touches False (prog c i)" "earlier ctx prog True l ?id" for l
      using fp l ex [of False l] fl(3) [of l] w unfolding flags_partial_def t(3) by metis
    moreover have "at_war txn \<or> (\<exists>m \<in> set ?F. check_for ctx e prog c i True l m)" if l: "l \<in> touches True (prog c i)" "earlier ctx prog False l ?id" for l
      using fp l ex [of True l] fl(2) [of l] w unfolding flags_partial_def t(4) by metis
    moreover have "at_waw txn \<or> (\<exists>m \<in> set ?F. check_for ctx e prog c i True l m)" if l: "l \<in> touches True (prog c i)" "earlier ctx prog True l ?id" for l
      using fp l ex [of True l] fl(1) [of l] w unfolding flags_partial_def t(5) by metis
    ultimately show ?thesis unfolding flags_partial_def by blast
  qed
  moreover have "\<exists>w l. check_for ctx e prog c i w l x" if "x \<in> set ?F" for x using so that unfolding F slot_ok_def by auto
  moreover have "at_pendingResponses txn = length ?F" using so unfolding F slot_ok_def t(2) by simp
  moreover have "shape ctx e (prog c i) c i txn" "values_done ctx rows0 prog c i txn"
    using so t(1) unfolding slot_ok_def by (simp_all add: values_done_def same_txn_def shape_def)
  ultimately have "slot_ok ctx e prog rows0 (cl_status s) c i Analyzed txn ?F" using so unfolding slot_ok_def by simp
  then show ?thesis using st by (intro slot_delivery [OF inv n c, where ms = "[]" and txn = txn]) simp_all
qed

section \<open>Messages about a row\<close>

lemma row_delivery:
  fixes s :: "('k, 'v) AriaCluster"
  assumes inv: "aria_inv ctx e prog rows0 s" and n: "cl_net s = xs @ m # ys" "about_row l m"
    and s': "cl_txns s' = cl_txns s" "cl_stage s' = cl_stage s" "cl_status s' = cl_status s" "cl_net s' = xs @ ys"
      "cl_rows s' = (cl_rows s)(d := (cl_rows s d)(l := x))"
    and own: "row_ok ctx e prog rows0 s' l"
  shows "aria_inv ctx e prog rows0 s'"
proof -
  have "slot_msgs s' c i = slot_msgs s c i" for c i using n about_row_not_slot [OF n(2)] by (simp add: s'(4))
  then have "slot_ok ctx e prog rows0 (cl_status s') c i (cl_stage s' c i) (cl_txns s' c i) (slot_msgs s' c i)" if "is_slot ctx c i" for c i
    using aria_invD(1) [OF inv that] by (simp add: s')
  moreover have "row_ok ctx e prog rows0 s' l'" for l'
  proof (cases "l' = l")
    case False
    show ?thesis
    proof (rule row_ok_net [OF aria_invD(2) [OF inv] _ s'(2,3)])
      fix y :: "('k, 'v) packet"
      assume "about_row l' y"
      with n(2) False have "y \<noteq> m" by (cases "(l, m)" rule: about_row.cases) auto
      then show "y \<in> set (cl_net s') \<longleftrightarrow> y \<in> set (cl_net s)" by (simp add: s'(4) n(1))
    qed (use False in \<open>simp add: s'(5)\<close>)
  qed (use own in simp)
  moreover have "net_ok ctx m" if "m \<in> set (cl_net s')" for m using that aria_invD(3) [OF inv] n(1) by (auto simp: s'(4))
  ultimately show ?thesis by (simp add: aria_inv_def)
qed

lemma reserve_request_inv:
  assumes su: "aria_setup ctx e prog rows0" and inv: "aria_inv ctx e prog rows0 s" and st: "cl_status s = Aria_READ"
    and n: "cl_net s = xs @ Packet d src (ReserveRequest l tid ep w) # ys"
  shows "\<exists>b a. reserve w (fst (cl_rows s d l)) (ucast ep) tid = Inr (b, a) \<and>
    aria_inv ctx e prog rows0 (s\<lparr>cl_rows := (cl_rows s)(d := (cl_rows s d)(l := (a, snd (cl_rows s d l)))), cl_net := xs @ ys\<rparr>)"
proof -
  let ?m = "Packet d src (ReserveRequest l tid ep w)"
  have rr: "row_read_ok ctx e prog rows0 s l" using aria_invD(2) [OF inv, of l] st by (simp add: row_ok_def)
  have "?m \<in> set (cl_net s)" "about_row l ?m" using n by simp_all
  with rr obtain src' w' c i where m: "reserving ctx prog w' l c i" "?m = Packet (row_master ctx l) src' (ReserveRequest l (ucast (tid_of ctx c i)) e w')"
    unfolding row_read_ok_def by blast
  then have d: "d = row_master ctx l" "tid = ucast (tid_of ctx c i)" "ep = e" "reserving ctx prog w l c i" by simp_all
  then have c: "is_slot ctx c i" by (simp add: reserving_def)
  note tb = tid_of_bounds [OF su c]
  have id: "ucast tid = tid_of ctx c i" using tb(3) d(2) by (simp add: small_tid)
  from rr obtain T where T: "reserved (ucast e) (fst (cl_rows s (row_master ctx l) l)) (T False) (T True)" "\<forall>w. T w \<subseteq> tids ctx prog w l"
    "\<forall>w c i. reserving ctx prog w l c i \<longrightarrow> cl_stage s c i = Reserved \<longrightarrow>
       tid_of ctx c i \<in> T w \<or> (\<exists>src. Packet (row_master ctx l) src (ReserveRequest l (ucast (tid_of ctx c i)) e w) \<in> set (cl_net s))"
    unfolding row_read_ok_def by blast
  have ok: "tids_ok (T w)" for w using T(2) tids_ok_subset [OF tids_finite [OF su]] by blast
  have e: "(ucast e :: u64) < 2 ^ 24" using su by (intro small_epoch) (simp add: aria_setup_def)
  from reserve_reserved [OF T(1) ok ok e, of tid w, unfolded id, OF tb(2,3)] obtain b a where a: "reserve w (fst (cl_rows s d l)) (ucast ep) tid = Inr (b, a)"
    "reserved (ucast e) a (if w then T False else insert (tid_of ctx c i) (T False)) (if w then insert (tid_of ctx c i) (T True) else T True)"
    unfolding d(1,3) by blast
  let ?s = "s\<lparr>cl_rows := (cl_rows s)(d := (cl_rows s d)(l := (a, snd (cl_rows s d l)))), cl_net := xs @ ys\<rparr>"
  define T' where "T' v = (if v = w then insert (tid_of ctx c i) (T v) else T v)" for v
  have "reserved (ucast e) (fst (cl_rows ?s (row_master ctx l) l)) (T' False) (T' True)" using a(2) d(1) by (cases w) (simp_all add: T'_def)
  moreover have "\<forall>v. T' v \<subseteq> tids ctx prog v l" using T(2) d(4) by (auto simp: T'_def tids_def)
  moreover have "tid_of ctx c' i' \<in> T' v \<or> (\<exists>src. Packet (row_master ctx l) src (ReserveRequest l (ucast (tid_of ctx c' i')) e v) \<in> set (cl_net ?s))"
    if r: "reserving ctx prog v l c' i'" "cl_stage ?s c' i' = Reserved" for v c' i'
  proof (cases "tid_of ctx c' i' \<in> T v")
    case True
    then have "tid_of ctx c' i' \<in> T' v" unfolding T'_def by (cases "v = w") simp_all
    then show ?thesis by blast
  next
    case False
    have "cl_stage s c' i' = Reserved" using r(2) by simp
    with T(3) r(1) False obtain src' where p: "Packet (row_master ctx l) src' (ReserveRequest l (ucast (tid_of ctx c' i')) e v) \<in> set (cl_net s)" by blast
    show ?thesis
    proof (cases "Packet (row_master ctx l) src' (ReserveRequest l (ucast (tid_of ctx c' i')) e v) = ?m")
      case True
      then have "ucast (tid_of ctx c' i') = tid" "v = w" by simp_all
      moreover have "is_slot ctx c' i'" using r(1) by (simp add: reserving_def)
      ultimately have "tid_of ctx c' i' = tid_of ctx c i" using id tid_of_bounds(3) [OF su] small_tid by metis
      with \<open>v = w\<close> show ?thesis by (simp add: T'_def)
    next
      case F: False
      with p show ?thesis by (auto simp: n)
    qed
  qed
  moreover have "snd (cl_rows ?s c' l) = snd (rows0 c' l)" for c' using rr by (simp add: row_read_ok_def)
  moreover have "\<forall>m \<in> set (cl_net ?s). about_row l m \<longrightarrow>
      (\<exists>src w c i. reserving ctx prog w l c i \<and> m = Packet (row_master ctx l) src (ReserveRequest l (ucast (tid_of ctx c i)) e w))"
    using rr unfolding row_read_ok_def by (auto simp: n)
  ultimately have "row_read_ok ctx e prog rows0 ?s l" unfolding row_read_ok_def by blast
  then have "row_ok ctx e prog rows0 ?s l" using st by (simp add: row_ok_def)
  with a(1) show ?thesis by (intro exI conjI row_delivery [OF inv n _ _ _ _ _ _ _]) simp_all
qed

lemma write_request_inv:
  assumes su: "aria_setup ctx e prog rows0" and inv: "aria_inv ctx e prog rows0 s" and st: "cl_status s = Aria_COMMIT"
    and n: "cl_net s = xs @ Packet d src (WriteRequest l v) # ys"
  shows "aria_inv ctx e prog rows0 (s\<lparr>cl_rows := (cl_rows s)(d := (cl_rows s d)(l := (fst (cl_rows s d l), v))), cl_net := xs @ ys\<rparr>)"
    (is "aria_inv _ _ _ _ ?s")
proof -
  let ?m = "Packet d src (WriteRequest l v)"
  have rc: "row_commit_ok ctx e prog rows0 s l" using aria_invD(2) [OF inv, of l] st by (simp add: row_ok_def)
  have "?m \<in> set (cl_net s)" "about_row l ?m" using n by simp_all
  with rc obtain src' c i j where m: "writer ctx prog s l c i j" "?m = Packet (row_master ctx l) src' (WriteRequest l (new_value ctx rows0 prog c i j))"
    unfolding row_commit_ok_def by blast
  then have d: "d = row_master ctx l" "v = new_value ctx rows0 prog c i j" by simp_all
  have one: "c' = c \<and> i' = i \<and> j' = j" if w: "writer ctx prog s l c' i' j'" for c' i' j'
  proof -
    have "c' = c \<and> i' = i" using waw_unique [OF su] writer_committed [OF inv m(1)] writer_committed [OF inv w] by blast
    moreover have "distinct (pg_updates (prog c i))" using su m(1) by (auto simp: aria_setup_def prog_ok_def writer_def)
    ultimately show ?thesis using m(1) w by (auto simp: writer_def nth_eq_iff_index_eq)
  qed
  have w: "writer ctx prog ?s l = writer ctx prog s l" by (simp add: writer_def fun_eq_iff)
  have "reserved (ucast e) (fst (cl_rows ?s (row_master ctx l) l)) (tids ctx prog False l) (tids ctx prog True l)"
    "\<forall>c. c \<noteq> row_master ctx l \<longrightarrow> snd (cl_rows ?s c l) = snd (rows0 c l)" using rc d(1) by (simp_all add: row_commit_ok_def)
  moreover have "\<forall>m \<in> set (cl_net ?s). about_row l m \<longrightarrow>
      (\<exists>src c i j. writer ctx prog s l c i j \<and> m = Packet (row_master ctx l) src (WriteRequest l (new_value ctx rows0 prog c i j)))"
    using rc unfolding row_commit_ok_def by (auto simp: n)
  moreover have "snd (cl_rows ?s (row_master ctx l) l) = new_value ctx rows0 prog c' i' j'" if "writer ctx prog s l c' i' j'" for c' i' j'
    using one [OF that] d by simp
  ultimately have "row_commit_ok ctx e prog rows0 ?s l" unfolding row_commit_ok_def w using m(1) by blast
  then have "row_ok ctx e prog rows0 ?s l" using st by (simp add: row_ok_def)
  then show ?thesis by (intro row_delivery [OF inv n _ _ _ _ _ _ _]) simp_all
qed

section \<open>Delivery\<close>

abbreviation delivered ::
  "('k, 'v) AriaCluster \<Rightarrow> ('k, 'v) packet list \<Rightarrow> ('k, 'v) packet list \<Rightarrow> nat \<Rightarrow> nat \<Rightarrow> ('k, 'v) rows \<Rightarrow> (nat \<Rightarrow> ('k, 'v) AriaTransaction) \<Rightarrow>
   ('k, 'v) aria_msg option \<Rightarrow> ('k, 'v) AriaCluster" where
  "delivered s xs ys d src rows txns answer \<equiv> s\<lparr>cl_rows := (cl_rows s)(d := rows), cl_txns := (cl_txns s)(d := txns),
     cl_net := xs @ ys @ (case answer of None \<Rightarrow> [] | Some r \<Rightarrow> [Packet src d r])\<rparr>"

lemma cluster_same [simp]: "s\<lparr>cl_rows := cl_rows s, cl_txns := cl_txns s, cl_net := n\<rparr> = s\<lparr>cl_net := n\<rparr>"
  "s\<lparr>cl_rows := cl_rows s, cl_txns := t, cl_net := n\<rparr> = s\<lparr>cl_txns := t, cl_net := n\<rparr>"
  "s\<lparr>cl_rows := r, cl_txns := cl_txns s, cl_net := n\<rparr> = s\<lparr>cl_rows := r, cl_net := n\<rparr>"
  by (cases s; simp)+

lemma deliver_search:
  assumes su: "aria_setup ctx e prog rows0" and inv: "aria_inv ctx e prog rows0 s" and c: "is_slot ctx c i"
    and n: "cl_net s = xs @ Packet d src m # ys" "for_slot c i (Packet d src m)"
    and st: "cl_stage s c i = Executed" "cl_status s = Aria_READ" and m: "search_for ctx prog rows0 c i j (Packet d src m)"
  shows "\<exists>rows txns answer. handle_message ctx (cl_rows s d) (cl_txns s d) m = Inr (rows, txns, answer) \<and>
    aria_inv ctx e prog rows0 (delivered s xs ys d src rows txns answer)"
proof -
  let ?r = "pg_reads (prog c i) ! j" and ?txn = "cl_txns s c i"
  have so: "slot_ok ctx e prog rows0 (cl_status s) c i Executed ?txn (slot_msgs s c i)" using aria_invD(1) [OF inv c] st by simp
  then have sh: "shape ctx e (prog c i) c i ?txn" by (simp add: slot_ok_def)
  have j: "j < length (pg_reads (prog c i))" and rem: "is_remote ctx c ?r" using m by (simp_all add: search_for_def)
  from m consider (request) "m = SearchRequest (snd ?r) (ucast (tid_of ctx c i)) (of_nat i) (of_nat j)" "src = c" "d = row_master ctx (snd ?r)"
    | (response) "m = SearchResponse (read_value ctx rows0 c ?r) (ucast (tid_of ctx c i)) (of_nat i) (of_nat j)" "d = c"
    unfolding search_for_def by auto
  then show ?thesis
  proof cases
    case request
    let ?a = "SearchResponse (snd (cl_rows s d (snd ?r))) (ucast (tid_of ctx c i)) (of_nat i) (of_nat j)"
    have "snd (cl_rows s d (snd ?r)) = read_value ctx rows0 c ?r"
      using aria_invD(2) [OF inv, of "snd ?r"] st(2) rem request(3) by (simp add: row_ok_def row_read_ok_def read_value_def)
    then have "search_for ctx prog rows0 c i j (Packet c d ?a)" using j rem by (simp add: search_for_def)
    from search_request_inv [OF su inv c n st(1) m this] show ?thesis using request by (simp add: handle_message_def search_request_handler_def)
  next
    case response
    have "ucast (ucast (tid_of ctx c i) :: 32 word) = tid_of ctx c i" using tid_of_bounds(3) [OF su c] by (simp add: small_tid)
    then have "handle_message ctx (cl_rows s d) (cl_txns s d) m = Inr (cl_rows s c, (cl_txns s c)(i := ?txn\<lparr>at_readSet := (at_readSet ?txn)
        [j := (at_readSet ?txn ! j)\<lparr>rk_value := read_value ctx rows0 c ?r\<rparr>], at_pendingResponses := at_pendingResponses ?txn - 1\<rparr>), None)"
      using response unat_slot [OF su c] read_index [OF su c j] c j shapeD(1,7) [OF sh]
      by (simp add: handle_message_def search_response_handler_def Let_def is_slot_def)
    with search_response_inv [OF su inv c n st(1) m] response(2) show ?thesis by (simp add: upd2_def)
  qed
qed

lemma deliver_check:
  assumes su: "aria_setup ctx e prog rows0" and inv: "aria_inv ctx e prog rows0 s" and c: "is_slot ctx c i"
    and n: "cl_net s = xs @ Packet d src m # ys" "for_slot c i (Packet d src m)"
    and st: "cl_stage s c i = Analyzed" "cl_status s = Aria_COMMIT" and m: "check_for ctx e prog c i w l (Packet d src m)"
  shows "\<exists>rows txns answer. handle_message ctx (cl_rows s d) (cl_txns s d) m = Inr (rows, txns, answer) \<and>
    aria_inv ctx e prog rows0 (delivered s xs ys d src rows txns answer)"
proof -
  let ?txn = "cl_txns s c i" and ?id = "tid_of ctx c i"
  have so: "slot_ok ctx e prog rows0 (cl_status s) c i Analyzed ?txn (slot_msgs s c i)" using aria_invD(1) [OF inv c] st by simp
  then have sh: "shape ctx e (prog c i) c i ?txn" by (simp add: slot_ok_def)
  have id: "ucast (ucast ?id :: 32 word) = ?id" using tid_of_bounds(3) [OF su c] by (simp add: small_tid)
  have l: "reserving ctx prog w l c i" using m by (simp add: check_for_def)
  from m consider (request) "m = CheckRequest l (ucast ?id) (of_nat i) e w" "src = c" "d = row_master ctx l"
    | (response) "m = CheckResponse (ucast ?id) (of_nat i) w (w \<and> earlier ctx prog True l ?id) (w \<and> earlier ctx prog False l ?id)
        (\<not> w \<and> earlier ctx prog True l ?id)" "d = c" unfolding check_for_def by auto
  then show ?thesis
  proof cases
    case request
    let ?a = "CheckResponse (ucast ?id) (of_nat i) w (w \<and> earlier ctx prog True l ?id) (w \<and> earlier ctx prog False l ?id)
        (\<not> w \<and> earlier ctx prog True l ?id)"
    have rs: "reserved (ucast e) (fst (cl_rows s d l)) (tids ctx prog False l) (tids ctx prog True l)"
      using aria_invD(2) [OF inv, of l] st(2) request(3) by (simp add: row_ok_def row_commit_ok_def)
    note re = reserved_earlier [OF rs su, unfolded written_before_def read_before_def]
    have h: "handle_message ctx (cl_rows s d) (cl_txns s d) m = Inr (cl_rows s d, cl_txns s d, Some ?a)"
      unfolding request(1) using reserving_epoch [OF l rs] re by (simp add: handle_message_def check_request_handler_def Let_def id)
    have "check_for ctx e prog c i w' l' (Packet c d ?a)" if "check_for ctx e prog c i w' l' (Packet d src m)" for w' l'
    proof -
      have "w' = w" "l' = l" using that unfolding check_for_def request(1) by auto
      then show ?thesis using l by (simp add: check_for_def)
    qed
    from check_request_inv [OF su inv c n st(1) this m] show ?thesis using h request(2) by simp
  next
    case response
    let ?e = "\<lambda>w'. earlier ctx prog w' l ?id"
    let ?t = "(if w then (let t = (if w \<and> ?e False then ?txn\<lparr>at_war := True\<rparr> else ?txn) in if w \<and> ?e True then t\<lparr>at_waw := True\<rparr> else t)
        else if \<not> w \<and> ?e True then ?txn\<lparr>at_raw := True\<rparr> else ?txn)"
    let ?t' = "?t\<lparr>at_pendingResponses := at_pendingResponses ?t - 1\<rparr>"
    have h: "handle_message ctx (cl_rows s d) (cl_txns s d) m = Inr (cl_rows s c, (cl_txns s c)(i := ?t'), None)"
      using response unat_slot [OF su c] c id shapeD(1) [OF sh]
      by (simp add: handle_message_def check_response_handler_def Let_def is_slot_def)
    have "same_txn ?txn ?t'" "at_pendingResponses ?t' = at_pendingResponses ?txn - 1" "at_raw ?t' \<longleftrightarrow> at_raw ?txn \<or> \<not> w \<and> ?e True"
      "at_war ?t' \<longleftrightarrow> at_war ?txn \<or> w \<and> ?e False" "at_waw ?t' \<longleftrightarrow> at_waw ?txn \<or> w \<and> ?e True"
      by (simp_all add: same_txn_def Let_def)
    from check_response_inv [OF su inv c n st(1) _ m this] response h show ?thesis by (simp add: upd2_def)
  qed
qed

lemma deliver_row:
  assumes su: "aria_setup ctx e prog rows0" and inv: "aria_inv ctx e prog rows0 s"
    and n: "cl_net s = xs @ Packet d src m # ys" and m: "about_row l (Packet d src m)"
  shows "\<exists>rows txns answer. handle_message ctx (cl_rows s d) (cl_txns s d) m = Inr (rows, txns, answer) \<and>
    aria_inv ctx e prog rows0 (delivered s xs ys d src rows txns answer)"
proof (cases "cl_status s")
  case Aria_READ
  then have rr: "row_read_ok ctx e prog rows0 s l" using aria_invD(2) [OF inv, of l] by (simp add: row_ok_def)
  have "Packet d src m \<in> set (cl_net s)" using n by simp
  with rr m obtain tid w where m: "m = ReserveRequest l tid e w" unfolding row_read_ok_def by blast
  from reserve_request_inv [OF su inv Aria_READ n [unfolded m]] show ?thesis by (auto simp: m handle_message_def reserve_request_handler_def)
next
  case Aria_COMMIT
  then have rc: "row_commit_ok ctx e prog rows0 s l" using aria_invD(2) [OF inv, of l] by (simp add: row_ok_def)
  have "Packet d src m \<in> set (cl_net s)" using n by simp
  with rc m obtain v where m: "m = WriteRequest l v" unfolding row_commit_ok_def by blast
  from write_request_inv [OF su inv Aria_COMMIT n [unfolded m]] show ?thesis by (simp add: m handle_message_def write_request_handler_def)
qed

lemma deliver_inv:
  assumes su: "aria_setup ctx e prog rows0" and inv: "aria_inv ctx e prog rows0 s" and n: "cl_net s = xs @ Packet d src m # ys"
  shows "\<exists>rows txns answer. handle_message ctx (cl_rows s d) (cl_txns s d) m = Inr (rows, txns, answer) \<and>
    aria_inv ctx e prog rows0 (delivered s xs ys d src rows txns answer)"
proof -
  have "net_ok ctx (Packet d src m)" using aria_invD(3) [OF inv] n by simp
  then consider c i where "is_slot ctx c i" "for_slot c i (Packet d src m)" | l where "about_row l (Packet d src m)" unfolding net_ok_def by blast
  then show ?thesis
  proof cases
    case (1 c i)
    from slot_waits [OF inv n 1(2,1)] show ?thesis
      using deliver_search [OF su inv 1(1) n 1(2)] deliver_check [OF su inv 1(1) n 1(2)] by metis
  next
    case 2
    then show ?thesis by (rule deliver_row [OF su inv n])
  qed
qed

section \<open>The steps together\<close>

lemma aria_step_inv:
  assumes su: "aria_setup ctx e prog rows0" and inv: "aria_inv ctx e prog rows0 s" and st: "aria_step ctx e prog s s'"
  shows "aria_inv ctx e prog rows0 s'"
  using st
proof cases
  case start
  then show ?thesis using start_inv [OF su inv] by simp
next
  case reserve
  then show ?thesis using reserve_step_inv [OF su inv] by simp
next
  case barrier
  then show ?thesis using barrier_inv [OF inv] by simp
next
  case analyze
  then show ?thesis using analyze_inv [OF su inv] by simp
next
  case decide
  then show ?thesis using decide_inv [OF su inv] by simp
next
  case (deliver xs d c m ys rows txns answer)
  from deliver_inv [OF su inv deliver(2)] deliver(3) show ?thesis unfolding deliver(1) by force
qed

lemma batch_start_inv:
  assumes "aria_setup ctx e prog (cl_rows s)" "batch_start s"
  shows "aria_inv ctx e prog (cl_rows s) s"
proof -
  have "row_read_ok ctx e prog (cl_rows s) s l" for l
    using assms unfolding row_read_ok_def by (intro conjI exI [of _ "\<lambda>_. {}"]) (auto simp: aria_setup_def batch_start_def reserved_def)
  then show ?thesis using assms(2) by (simp add: aria_inv_def slot_ok_def row_ok_def batch_start_def)
qed

lemma aria_reach_inv:
  assumes "aria_setup ctx e prog (cl_rows s)" "batch_start s" "(aria_step ctx e prog)\<^sup>*\<^sup>* s s'"
  shows "aria_inv ctx e prog (cl_rows s) s'"
  using assms(3) by induction (use batch_start_inv [OF assms(1,2)] aria_step_inv [OF assms(1)] in blast)+

end
