(* ===== verification/Aria_Serial.thy ===== *)
theory Aria_Serial
  imports Aria_Deliver
begin

text \<open>
  What a batch of Aria achieves: the outcome does not depend on the schedule, it is that of running the committed
  transactions one after the other, and every batch ends.
\<close>

section \<open>Serial execution\<close>

text \<open>The values of the rows at every coordinator, and a transaction that runs alone on them.\<close>

definition row_values :: "('k, 'v) AriaCluster \<Rightarrow> nat \<Rightarrow> 'k row_id \<Rightarrow> 'v" where
  "row_values s d l = snd (cl_rows s d l)"

abbreviation pg_of :: "(nat \<Rightarrow> nat \<Rightarrow> ('k, 'v) AriaProgram) \<Rightarrow> nat \<times> nat \<Rightarrow> ('k, 'v) AriaProgram" where
  "pg_of prog t \<equiv> prog (fst t) (snd t)"

definition txn_reads :: "AriaContext \<Rightarrow> (nat \<Rightarrow> nat \<Rightarrow> ('k, 'v) AriaProgram) \<Rightarrow> nat \<times> nat \<Rightarrow> (nat \<Rightarrow> 'k row_id \<Rightarrow> 'v) \<Rightarrow> 'v list" where
  "txn_reads ctx prog t vals = map (\<lambda>r. vals (if is_remote ctx (fst t) r then row_master ctx (snd r) else fst t) (snd r)) (pg_reads (pg_of prog t))"

definition run_alone ::
  "AriaContext \<Rightarrow> (nat \<Rightarrow> nat \<Rightarrow> ('k, 'v) AriaProgram) \<Rightarrow> nat \<times> nat \<Rightarrow> (nat \<Rightarrow> 'k row_id \<Rightarrow> 'v) \<Rightarrow> nat \<Rightarrow> 'k row_id \<Rightarrow> 'v" where
  "run_alone ctx prog t vals =
     (let p = pg_of prog t; vs = txn_reads ctx prog t vals in
      fold (\<lambda>j w. w(row_master ctx (pg_updates p ! j) := (w (row_master ctx (pg_updates p ! j)))(pg_updates p ! j := pg_value p vs j)))
        [0..<length (pg_updates p)] vals)"

lemma run_alone_spec:
  assumes "distinct (pg_updates (pg_of prog t))"
  shows "(l \<notin> set (pg_updates (pg_of prog t)) \<or> d \<noteq> row_master ctx l \<longrightarrow> run_alone ctx prog t vals d l = vals d l) \<and>
    (\<forall>j < length (pg_updates (pg_of prog t)). pg_updates (pg_of prog t) ! j = l \<longrightarrow>
       run_alone ctx prog t vals (row_master ctx l) l = pg_value (pg_of prog t) (txn_reads ctx prog t vals) j)"
proof -
  let ?u = "pg_updates (pg_of prog t)" and ?v = "pg_value (pg_of prog t) (txn_reads ctx prog t vals)"
  define V where "V n = fold (\<lambda>j w. w(row_master ctx (?u ! j) := (w (row_master ctx (?u ! j)))(?u ! j := ?v j))) [0..<n] vals" for n
  have step: "V (Suc n) d l = (if d = row_master ctx (?u ! n) \<and> l = ?u ! n then ?v n else V n d l)" for n d l by (simp add: V_def)
  have run: "run_alone ctx prog t vals = V (length ?u)" by (simp add: run_alone_def V_def Let_def)
  have "(l \<notin> set ?u \<or> d \<noteq> row_master ctx l \<longrightarrow> V n d l = vals d l) \<and> (\<forall>j < n. ?u ! j = l \<longrightarrow> V n (row_master ctx l) l = ?v j)"
    if "n \<le> length ?u" for n using that
  proof (induction n)
    case (Suc n)
    have n: "n < length ?u" using Suc.prems by simp
    have "j = n" if "j < Suc n" "?u ! j = ?u ! n" for j using that assms n by (simp add: nth_eq_iff_index_eq)
    moreover have "?u ! n \<in> set ?u" using n by simp
    ultimately show ?case using Suc.IH n unfolding step by (metis less_Suc_eq less_imp_le)
  qed (simp add: V_def)
  then show ?thesis unfolding run by blast
qed

text \<open>Transactions that read nothing an earlier one writes find the initial values.\<close>

definition independent :: "(nat \<Rightarrow> nat \<Rightarrow> ('k, 'v) AriaProgram) \<Rightarrow> (nat \<times> nat) list \<Rightarrow> bool" where
  "independent prog ts \<longleftrightarrow> (\<forall>t \<in> set ts. distinct (pg_updates (pg_of prog t))) \<and>
     sorted_wrt (\<lambda>t t'. (snd ` set (pg_reads (pg_of prog t')) \<union> set (pg_updates (pg_of prog t'))) \<inter> set (pg_updates (pg_of prog t)) = {}) ts"

lemma serial_values:
  assumes "independent prog ts"
  shows "(\<forall>d l. (\<forall>t \<in> set ts. l \<notin> set (pg_updates (pg_of prog t))) \<or> d \<noteq> row_master ctx l \<longrightarrow> fold (run_alone ctx prog) ts vals d l = vals d l) \<and>
    (\<forall>t \<in> set ts. \<forall>j < length (pg_updates (pg_of prog t)). fold (run_alone ctx prog) ts vals (row_master ctx (pg_updates (pg_of prog t) ! j)) (pg_updates (pg_of prog t) ! j) =
       pg_value (pg_of prog t) (txn_reads ctx prog t vals) j) \<and>
    (\<forall>n < length ts. txn_reads ctx prog (ts ! n) (fold (run_alone ctx prog) (take n ts) vals) = txn_reads ctx prog (ts ! n) vals)"
  using assms
proof (induction ts rule: rev_induct)
  case (snoc t ts)
  let ?V = "fold (run_alone ctx prog) ts vals" and ?u = "pg_updates (pg_of prog t)"
  have ind: "independent prog ts" "distinct ?u"
    "\<And>t' l. t' \<in> set ts \<Longrightarrow> l \<in> snd ` set (pg_reads (pg_of prog t)) \<union> set ?u \<Longrightarrow> l \<notin> set (pg_updates (pg_of prog t'))"
    using snoc.prems by (auto simp: independent_def sorted_wrt_append)
  from snoc.IH [OF ind(1)] have V: "\<And>d l. (\<forall>t \<in> set ts. l \<notin> set (pg_updates (pg_of prog t))) \<or> d \<noteq> row_master ctx l \<Longrightarrow> ?V d l = vals d l"
    "\<And>t j. t \<in> set ts \<Longrightarrow> j < length (pg_updates (pg_of prog t)) \<Longrightarrow> ?V (row_master ctx (pg_updates (pg_of prog t) ! j)) (pg_updates (pg_of prog t) ! j) =
       pg_value (pg_of prog t) (txn_reads ctx prog t vals) j"
    "\<And>n. n < length ts \<Longrightarrow> txn_reads ctx prog (ts ! n) (fold (run_alone ctx prog) (take n ts) vals) = txn_reads ctx prog (ts ! n) vals" by blast+
  have "?V d (snd r) = vals d (snd r)" if "r \<in> set (pg_reads (pg_of prog t))" for d r using that ind(3) by (intro V(1)) blast
  then have r: "txn_reads ctx prog t ?V = txn_reads ctx prog t vals" by (simp add: txn_reads_def)
  have run: "l \<notin> set ?u \<or> d \<noteq> row_master ctx l \<Longrightarrow> run_alone ctx prog t ?V d l = ?V d l"
    "j < length ?u \<Longrightarrow> run_alone ctx prog t ?V (row_master ctx (?u ! j)) (?u ! j) = pg_value (pg_of prog t) (txn_reads ctx prog t vals) j" for d l j
    using run_alone_spec [of prog t, OF ind(2)] unfolding r [symmetric] by blast+
  have "run_alone ctx prog t ?V d l = vals d l" if "(\<forall>t \<in> set (ts @ [t]). l \<notin> set (pg_updates (pg_of prog t))) \<or> d \<noteq> row_master ctx l" for d l
  proof -
    have "run_alone ctx prog t ?V d l = ?V d l" using that by (intro run(1)) auto
    also have "\<dots> = vals d l" using that by (intro V(1)) auto
    finally show ?thesis .
  qed
  moreover have "run_alone ctx prog t ?V (row_master ctx (pg_updates (pg_of prog t') ! j)) (pg_updates (pg_of prog t') ! j) =
       pg_value (pg_of prog t') (txn_reads ctx prog t' vals) j" if a: "t' \<in> set (ts @ [t])" "j < length (pg_updates (pg_of prog t'))" for t' j
  proof (cases "t' \<in> set ts")
    case True
    then have "pg_updates (pg_of prog t') ! j \<notin> set ?u" using ind(3) [OF True] a(2) nth_mem by blast
    with run(1) V(2) [OF True a(2)] show ?thesis by simp
  next
    case False
    with a(1) have "t' = t" by simp
    with run(2) a(2) show ?thesis by simp
  qed
  moreover have "txn_reads ctx prog ((ts @ [t]) ! n) (fold (run_alone ctx prog) (take n (ts @ [t])) vals) = txn_reads ctx prog ((ts @ [t]) ! n) vals"
    if "n < length (ts @ [t])" for n using that V(3) r by (cases "n < length ts") (auto simp: nth_append less_Suc_eq)
  ultimately show ?case by simp
qed simp

section \<open>The outcome of a batch\<close>

text \<open>Whether a transaction commits is a matter of the programs alone.\<close>

definition commits :: "AriaContext \<Rightarrow> (nat \<Rightarrow> nat \<Rightarrow> ('k, 'v) AriaProgram) \<Rightarrow> nat \<Rightarrow> nat \<Rightarrow> bool" where
  "commits ctx prog c i \<longleftrightarrow> \<not> pg_no_retry (prog c i) \<and> (exempt ctx (prog c i) \<or>
     commit_rule ctx (conflict ctx prog False True c i) (conflict ctx prog True False c i) (conflict ctx prog True True c i))"

lemma over_stage:
  assumes inv: "aria_inv ctx e prog rows0 s" and over: "batch_over ctx s" and c: "is_slot ctx c i"
  shows "cl_stage s c i = (if pg_no_retry (prog c i) then Skipped else if commits ctx prog c i then Committed else Aborted)"
    "cl_stage s c i = Committed \<Longrightarrow> \<not> exempt ctx (prog c i) \<Longrightarrow> flags_exact ctx prog c i (cl_txns s c i)"
    "cl_stage s c i = Committed \<Longrightarrow> values_done ctx rows0 prog c i (cl_txns s c i)"
proof -
  note so = aria_invD(1) [OF inv c]
  have "cl_stage s c i = Committed \<or> cl_stage s c i = Aborted \<or> cl_stage s c i = Skipped" using over c by (auto simp: batch_over_def)
  then show "cl_stage s c i = (if pg_no_retry (prog c i) then Skipped else if commits ctx prog c i then Committed else Aborted)"
    using so by (elim disjE; cases "exempt ctx (prog c i)") (simp_all add: slot_ok_def commits_def flags_exact_def)
qed (use aria_invD(1) [OF inv c] in \<open>simp_all add: slot_ok_def\<close>)

lemma over_committed:
  assumes "aria_inv ctx e prog rows0 s" "batch_over ctx s" "is_slot ctx c i"
  shows "cl_stage s c i = Committed \<longleftrightarrow> commits ctx prog c i"
  using over_stage(1) [OF assms] by (cases "pg_no_retry (prog c i)"; cases "commits ctx prog c i") (simp_all add: commits_def)

lemma over_values:
  assumes inv: "aria_inv ctx e prog rows0 s" and over: "batch_over ctx s"
  shows "d \<noteq> row_master ctx l \<or> (\<forall>c i. is_slot ctx c i \<longrightarrow> commits ctx prog c i \<longrightarrow> l \<notin> set (pg_updates (prog c i))) \<Longrightarrow> snd (cl_rows s d l) = snd (rows0 d l)"
    "is_slot ctx c i \<Longrightarrow> commits ctx prog c i \<Longrightarrow> j < length (pg_updates (prog c i)) \<Longrightarrow> pg_updates (prog c i) ! j = l \<Longrightarrow>
      snd (cl_rows s (row_master ctx l) l) = new_value ctx rows0 prog c i j"
proof -
  have rc: "row_commit_ok ctx e prog rows0 s l" and net: "cl_net s = []"
    using aria_invD(2) [OF inv, of l] over by (simp_all add: batch_over_def row_ok_def)
  have w: "writer ctx prog s l c i j \<longleftrightarrow> is_slot ctx c i \<and> commits ctx prog c i \<and> j < length (pg_updates (prog c i)) \<and> pg_updates (prog c i) ! j = l" for c i j
    using over_committed [OF inv over, of c i] unfolding writer_def by blast
  show "is_slot ctx c i \<Longrightarrow> commits ctx prog c i \<Longrightarrow> j < length (pg_updates (prog c i)) \<Longrightarrow> pg_updates (prog c i) ! j = l \<Longrightarrow>
      snd (cl_rows s (row_master ctx l) l) = new_value ctx rows0 prog c i j"
    using rc w [of c i j] unfolding row_commit_ok_def net by auto
  show "snd (cl_rows s d l) = snd (rows0 d l)"
    if "d \<noteq> row_master ctx l \<or> (\<forall>c i. is_slot ctx c i \<longrightarrow> commits ctx prog c i \<longrightarrow> l \<notin> set (pg_updates (prog c i)))"
  proof (cases "d = row_master ctx l")
    case True
    with that have "\<not> writer ctx prog s l c i j" for c i j unfolding w by (metis nth_mem)
    with rc True show ?thesis unfolding row_commit_ok_def by blast
  qed (use rc in \<open>simp add: row_commit_ok_def\<close>)
qed

lemma over_determined:
  assumes "aria_inv ctx e prog rows0 s1" "batch_over ctx s1" "aria_inv ctx e prog rows0 s2" "batch_over ctx s2"
  shows "is_slot ctx c i \<Longrightarrow> cl_stage s1 c i = cl_stage s2 c i" "row_values s1 = row_values s2"
proof -
  show "is_slot ctx c i \<Longrightarrow> cl_stage s1 c i = cl_stage s2 c i" using over_stage(1) [OF assms(1,2)] over_stage(1) [OF assms(3,4)] by simp
  have "row_values s1 d l = row_values s2 d l" for d l
  proof (cases "d \<noteq> row_master ctx l \<or> (\<forall>c i. is_slot ctx c i \<longrightarrow> commits ctx prog c i \<longrightarrow> l \<notin> set (pg_updates (prog c i)))")
    case True
    then show ?thesis using over_values(1) [OF assms(1,2) True] over_values(1) [OF assms(3,4) True] by (simp add: row_values_def)
  next
    case False
    then obtain c i j where d: "d = row_master ctx l" and w: "is_slot ctx c i" "commits ctx prog c i" "j < length (pg_updates (prog c i))" "pg_updates (prog c i) ! j = l"
      by (metis in_set_conv_nth)
    show ?thesis using over_values(2) [OF assms(1,2) w] over_values(2) [OF assms(3,4) w] by (simp add: row_values_def d)
  qed
  then show "row_values s1 = row_values s2" by (simp add: fun_eq_iff)
qed

section \<open>The order of the transactions\<close>

text \<open>
  Transactions with a read-after-write conflict go first, the later the earlier; then those without, by their numbers. Those exempt as read-only
  read the state before the batch.
\<close>

definition txn_number :: "AriaContext \<Rightarrow> nat \<times> nat \<Rightarrow> nat" where
  "txn_number ctx t = snd t * cx_coordinator_num ctx + fst t + 1"

definition rank :: "AriaContext \<Rightarrow> (nat \<Rightarrow> nat \<Rightarrow> ('k, 'v) AriaProgram) \<Rightarrow> ('k, 'v) AriaCluster \<Rightarrow> nat \<times> nat \<Rightarrow> int" where
  "rank ctx prog s t = (if exempt ctx (pg_of prog t) then - (2 ^ 20)
     else if at_raw (cl_txns s (fst t) (snd t)) then - int (txn_number ctx t) else int (txn_number ctx t))"

definition committed_slots :: "AriaContext \<Rightarrow> ('k, 'v) AriaCluster \<Rightarrow> (nat \<times> nat) list" where
  "committed_slots ctx s = filter (\<lambda>t. cl_stage s (fst t) (snd t) = Committed) (List.product [0..<cx_coordinator_num ctx] [0..<cx_batch_size ctx])"

definition serial_order :: "AriaContext \<Rightarrow> (nat \<Rightarrow> nat \<Rightarrow> ('k, 'v) AriaProgram) \<Rightarrow> ('k, 'v) AriaCluster \<Rightarrow> (nat \<times> nat) list" where
  "serial_order ctx prog s = sort_key (rank ctx prog s) (committed_slots ctx s)"

text \<open>Rows read through the local index are not updated.\<close>

definition index_ok :: "AriaContext \<Rightarrow> (nat \<Rightarrow> nat \<Rightarrow> ('k, 'v) AriaProgram) \<Rightarrow> bool" where
  "index_ok ctx prog \<longleftrightarrow> (\<forall>c i c' i' l. is_slot ctx c i \<longrightarrow> is_slot ctx c' i' \<longrightarrow> (True, l) \<in> set (pg_reads (prog c i)) \<longrightarrow> l \<notin> set (pg_updates (prog c' i')))"

lemma committed_slots_set: "t \<in> set (committed_slots ctx s) \<longleftrightarrow> is_slot ctx (fst t) (snd t) \<and> cl_stage s (fst t) (snd t) = Committed"
  by (cases t) (simp add: committed_slots_def is_slot_def)

lemma committed_slots_distinct: "distinct (committed_slots ctx s)"
  by (simp add: committed_slots_def distinct_product)

lemma reader_first:
  assumes su: "aria_setup ctx e prog rows0" and inv: "aria_inv ctx e prog rows0 s" and over: "batch_over ctx s"
    and no_si: "\<not> cx_snapshot_isolation ctx" and ix: "index_ok ctx prog"
    and t: "t \<in> set (committed_slots ctx s)" "t' \<in> set (committed_slots ctx s)" "t \<noteq> t'"
    and l: "l \<in> snd ` set (pg_reads (pg_of prog t))" "l \<in> set (pg_updates (pg_of prog t'))"
  shows "rank ctx prog s t < rank ctx prog s t'"
proof -
  let ?n = "txn_number ctx" and ?txn = "\<lambda>t. cl_txns s (fst t) (snd t)"
  have s: "is_slot ctx (fst t) (snd t)" "is_slot ctx (fst t') (snd t')" "cl_stage s (fst t) (snd t) = Committed" "cl_stage s (fst t') (snd t') = Committed"
    using t by (simp_all add: committed_slots_set)
  have x': "\<not> exempt ctx (pg_of prog t')" using l(2) by (auto simp: exempt_def)
  have n: "unat (tid_of ctx (fst t) (snd t)) = ?n t" "unat (tid_of ctx (fst t') (snd t')) = ?n t'"
    using tid_of_bounds(1) [OF su s(1)] tid_of_bounds(1) [OF su s(2)] by (simp_all add: txn_number_def)
  have b: "0 < ?n t" "?n t < 2 ^ 20" "0 < ?n t'" "?n t' < 2 ^ 20"
    using tid_of_bounds(2,3) [OF su s(1)] tid_of_bounds(2,3) [OF su s(2)] by (simp_all add: word_less_nat_alt n)
  have ne: "?n t \<noteq> ?n t'" using tid_of_inj [OF su s(1,2)] t(3) unfolding n [symmetric] by (metis prod_eq_iff word_unat_eq_iff)
  show ?thesis
  proof (cases "exempt ctx (pg_of prog t)")
    case True
    then show ?thesis using x' b by (simp add: rank_def)
  next
    case x: False
    have f: "flags_exact ctx prog (fst t) (snd t) (?txn t)" "flags_exact ctx prog (fst t') (snd t') (?txn t')"
      using over_stage(2) [OF inv over] s x x' by blast+
    have cm: "commits ctx prog (fst t) (snd t)" "commits ctx prog (fst t') (snd t')"
      using over_committed [OF inv over] s by blast+
    then have np: "\<not> pg_no_retry (pg_of prog t)" "\<not> pg_no_retry (pg_of prog t')" by (simp_all add: commits_def)
    have rule: "\<not> at_war (?txn t) \<or> \<not> at_raw (?txn t)" "\<not> at_war (?txn t') \<or> \<not> at_raw (?txn t')"
      using cm f x x' no_si by (auto simp: commits_def flags_exact_def commit_rule_def split: if_splits)
    have tch: "l \<in> touches False (pg_of prog t)" "l \<in> touches True (pg_of prog t')"
    proof -
      obtain b where "(b, l) \<in> set (pg_reads (pg_of prog t))" using l(1) by auto
      moreover have "\<not> b" using calculation ix s(1,2) l(2) unfolding index_ok_def by (metis (full_types))
      ultimately show "l \<in> touches False (pg_of prog t)" "l \<in> touches True (pg_of prog t')" using l(2) by (auto simp: touches_def reads_of_def writes_of_def)
    qed
    then have r: "reserving ctx prog False l (fst t) (snd t)" "reserving ctx prog True l (fst t') (snd t')" using s np x x' by (simp_all add: reserving_def)
    have raw: "at_raw (?txn t)" if "?n t' < ?n t"
      using that f(1) r tch(1) unfolding flags_exact_def conflict_def earlier_def tids_def n [symmetric] word_less_nat_alt by blast
    have war: "at_war (?txn t')" if "?n t < ?n t'"
      using that f(2) r tch(2) unfolding flags_exact_def conflict_def earlier_def tids_def n [symmetric] word_less_nat_alt by blast
    show ?thesis
    proof (cases "?n t < ?n t'")
      case True
      then show ?thesis using war [OF True] rule(2) b x x' by (simp add: rank_def)
    next
      case False
      with ne have "?n t' < ?n t" by simp
      then show ?thesis using raw b x x' by (simp add: rank_def)
    qed
  qed
qed

lemma order_independent:
  assumes su: "aria_setup ctx e prog rows0" and inv: "aria_inv ctx e prog rows0 s" and over: "batch_over ctx s"
    and no_si: "\<not> cx_snapshot_isolation ctx" and ix: "index_ok ctx prog"
  shows "independent prog (serial_order ctx prog s)"
proof -
  let ?ts = "serial_order ctx prog s"
  have set: "set ?ts = set (committed_slots ctx s)" and d: "distinct ?ts" by (simp_all add: serial_order_def committed_slots_distinct)
  have so: "sorted_wrt (\<lambda>t t'. rank ctx prog s t \<le> rank ctx prog s t') ?ts"
    using sorted_sort_key [of "rank ctx prog s" "committed_slots ctx s"] by (simp only: serial_order_def sorted_map)
  have "(snd ` set (pg_reads (pg_of prog (?ts ! b))) \<union> set (pg_updates (pg_of prog (?ts ! b)))) \<inter> set (pg_updates (pg_of prog (?ts ! a))) = {}"
    if ab: "a < b" "b < length ?ts" for a b
  proof -
    let ?t = "?ts ! a" and ?t' = "?ts ! b"
    have t: "?t \<in> set (committed_slots ctx s)" "?t' \<in> set (committed_slots ctx s)" "?t' \<noteq> ?t"
      using ab d nth_mem [of _ ?ts] by (auto simp: set nth_eq_iff_index_eq)
    have "rank ctx prog s ?t \<le> rank ctx prog s ?t'" using so ab by (simp add: sorted_wrt_iff_nth_less)
    then have r: "l \<notin> set (pg_updates (pg_of prog ?t))" if "l \<in> snd ` set (pg_reads (pg_of prog ?t'))" for l
      using reader_first [OF su inv over no_si ix t(2,1,3) that] by fastforce
    have "l \<notin> set (pg_updates (pg_of prog ?t))" if "l \<in> set (pg_updates (pg_of prog ?t'))" for l
    proof
      assume "l \<in> set (pg_updates (pg_of prog ?t))"
      with that obtain j j' where "writer ctx prog s l (fst ?t) (snd ?t) j" "writer ctx prog s l (fst ?t') (snd ?t') j'"
        using t(1,2) [unfolded committed_slots_set] unfolding writer_def in_set_conv_nth by blast
      with waw_unique [OF su] writer_committed [OF inv] t(3) show False by (metis prod_eq_iff)
    qed
    with r show ?thesis by blast
  qed
  then have "sorted_wrt (\<lambda>t t'. (snd ` set (pg_reads (pg_of prog t')) \<union> set (pg_updates (pg_of prog t'))) \<inter> set (pg_updates (pg_of prog t)) = {}) ?ts"
    by (simp add: sorted_wrt_iff_nth_less)
  moreover have "distinct (pg_updates (pg_of prog t))" if "t \<in> set ?ts" for t
    using that su by (simp add: set committed_slots_set aria_setup_def prog_ok_def)
  ultimately show ?thesis by (simp add: independent_def)
qed

lemma read_values_txn: "read_values ctx rows c (prog c i) = txn_reads ctx prog (c, i) (\<lambda>d l. snd (rows d l))"
  by (simp add: read_values_def txn_reads_def read_value_def)

lemma over_serial:
  assumes su: "aria_setup ctx e prog rows0" and inv: "aria_inv ctx e prog rows0 s" and over: "batch_over ctx s"
    and ind: "independent prog (serial_order ctx prog s)"
  shows "row_values s = fold (run_alone ctx prog) (serial_order ctx prog s) (\<lambda>d l. snd (rows0 d l))"
    "n < length (serial_order ctx prog s) \<Longrightarrow> serial_order ctx prog s ! n = (c, i) \<Longrightarrow>
      map rk_value (at_readSet (cl_txns s c i)) = txn_reads ctx prog (c, i) (fold (run_alone ctx prog) (take n (serial_order ctx prog s)) (\<lambda>d l. snd (rows0 d l)))"
proof -
  let ?ts = "serial_order ctx prog s" and ?v = "\<lambda>d l. snd (rows0 d l)"
  have mem: "(c, i) \<in> set ?ts \<longleftrightarrow> is_slot ctx c i \<and> commits ctx prog c i" for c i
    using over_committed [OF inv over, of c i] by (auto simp: serial_order_def committed_slots_set)
  note sv = serial_values [OF ind, of ctx ?v]
  have "row_values s d l = fold (run_alone ctx prog) ?ts ?v d l" for d l
  proof (cases "d \<noteq> row_master ctx l \<or> (\<forall>c i. is_slot ctx c i \<longrightarrow> commits ctx prog c i \<longrightarrow> l \<notin> set (pg_updates (prog c i)))")
    case True
    then have "(\<forall>t \<in> set ?ts. l \<notin> set (pg_updates (pg_of prog t))) \<or> d \<noteq> row_master ctx l" using mem by auto
    with sv have "fold (run_alone ctx prog) ?ts ?v d l = ?v d l" by blast
    then show ?thesis using over_values(1) [OF inv over True] by (simp add: row_values_def)
  next
    case False
    then obtain c i j where d: "d = row_master ctx l" and w: "is_slot ctx c i" "commits ctx prog c i" "j < length (pg_updates (prog c i))" "pg_updates (prog c i) ! j = l"
      by (metis in_set_conv_nth)
    have "(c, i) \<in> set ?ts" using w mem by simp
    with sv w(3) have "fold (run_alone ctx prog) ?ts ?v (row_master ctx (pg_updates (prog c i) ! j)) (pg_updates (prog c i) ! j) =
       pg_value (prog c i) (txn_reads ctx prog (c, i) ?v) j" by fastforce
    then show ?thesis using over_values(2) [OF inv over w] by (simp add: row_values_def d w(4) new_value_def read_values_txn)
  qed
  then show "row_values s = fold (run_alone ctx prog) ?ts ?v" by (simp add: fun_eq_iff)
  show "map rk_value (at_readSet (cl_txns s c i)) = txn_reads ctx prog (c, i) (fold (run_alone ctx prog) (take n ?ts) ?v)"
    if n: "n < length ?ts" "?ts ! n = (c, i)"
  proof -
    have "(c, i) \<in> set ?ts" using n nth_mem by fastforce
    then have c: "is_slot ctx c i" "cl_stage s c i = Committed" by (simp_all add: serial_order_def committed_slots_set)
    have "map rk_value (at_readSet (cl_txns s c i)) = txn_reads ctx prog (c, i) ?v"
      using over_stage(3) [OF inv over c] by (simp add: values_done_def read_values_txn)
    then show ?thesis using sv n by metis
  qed
qed

end
