(* ===== verification/Aria_Progress.thy ===== *)
theory Aria_Progress
  imports Aria_Serial
begin

text \<open>
  Every batch of Aria ends: each step uses up some of a bounded amount of work, and a cluster that cannot step is through.
\<close>

section \<open>Work left\<close>

fun msg_work :: "('k, 'v) packet \<Rightarrow> nat" where
  "msg_work (Packet d src (SearchRequest l tid off j)) = 2"
| "msg_work (Packet d src (CheckRequest l tid off e w)) = 2"
| "msg_work m = 1"

definition txn_size :: "('k, 'v) AriaProgram \<Rightarrow> nat" where
  "txn_size p = length (pg_reads p) + length (pg_updates p)"

fun stage_work :: "('k, 'v) AriaProgram \<Rightarrow> aria_stage \<Rightarrow> nat" where
  "stage_work p Waiting = 4 * (2 * txn_size p + 1)"
| "stage_work p Executed = 3 * (2 * txn_size p + 1)"
| "stage_work p Reserved = 2 * (2 * txn_size p + 1)"
| "stage_work p Analyzed = 2 * txn_size p + 1"
| "stage_work p _ = 0"

definition slots_work :: "AriaContext \<Rightarrow> (nat \<Rightarrow> nat \<Rightarrow> ('k, 'v) AriaProgram) \<Rightarrow> (nat \<Rightarrow> nat \<Rightarrow> aria_stage) \<Rightarrow> nat" where
  "slots_work ctx prog stage = (\<Sum>c < cx_coordinator_num ctx. \<Sum>i < cx_batch_size ctx. stage_work (prog c i) (stage c i))"

definition work :: "AriaContext \<Rightarrow> (nat \<Rightarrow> nat \<Rightarrow> ('k, 'v) AriaProgram) \<Rightarrow> ('k, 'v) AriaCluster \<Rightarrow> nat" where
  "work ctx prog s = (if cl_status s = Aria_READ then 1 else 0) + slots_work ctx prog (cl_stage s) + sum_list (map msg_work (cl_net s))"

lemma sum_update:
  fixes f g :: "nat \<Rightarrow> nat"
  assumes "i < n" "\<And>j. j \<noteq> i \<Longrightarrow> g j = f j"
  shows "(\<Sum>j < n. g j) + f i = (\<Sum>j < n. f j) + g i"
proof -
  have "(\<Sum>j < n. g j) = g i + (\<Sum>j \<in> {..<n} - {i}. g j)" "(\<Sum>j < n. f j) = f i + (\<Sum>j \<in> {..<n} - {i}. f j)"
    using assms(1) by (simp_all add: sum.remove)
  moreover have "(\<Sum>j \<in> {..<n} - {i}. g j) = (\<Sum>j \<in> {..<n} - {i}. f j)" using assms(2) by (intro sum.cong) auto
  ultimately show ?thesis by simp
qed

lemma slots_work_upd:
  assumes "is_slot ctx c i"
  shows "slots_work ctx prog (upd2 stage c i st) + stage_work (prog c i) (stage c i) = slots_work ctx prog stage + stage_work (prog c i) st"
proof -
  let ?f = "\<lambda>stage c. \<Sum>i < cx_batch_size ctx. stage_work (prog c i) (stage c i)"
  have "?f (upd2 stage c i st) c + stage_work (prog c i) (stage c i) = ?f stage c + stage_work (prog c i) st"
    using sum_update [of i "cx_batch_size ctx" "\<lambda>j. stage_work (prog c j) (upd2 stage c i st c j)" "\<lambda>j. stage_work (prog c j) (stage c j)"] assms
    by (simp add: is_slot_def)
  moreover have "(\<Sum>c' < cx_coordinator_num ctx. ?f (upd2 stage c i st) c') + ?f stage c = (\<Sum>c' < cx_coordinator_num ctx. ?f stage c') + ?f (upd2 stage c i st) c"
    using assms by (intro sum_update) (simp_all add: is_slot_def)
  ultimately show ?thesis by (simp add: slots_work_def)
qed

lemma send_work: "sum_list (map msg_work (send c out)) \<le> 2 * length out"
proof (induction out)
  case (Cons x out)
  have "msg_work m \<le> 2" for m :: "('a, 'b) packet" by (cases m rule: msg_work.cases) simp_all
  from this [of "Packet (fst x) c (snd x)"] Cons show ?case by (simp add: send_def case_prod_beta)
qed (simp add: send_def)

text \<open>A step of one transaction makes less work than it takes away.\<close>

lemma work_slot:
  assumes c: "is_slot ctx c i" and s': "cl_status s' = cl_status s" "cl_stage s' = upd2 (cl_stage s) c i st" "cl_net s' = cl_net s @ send c out"
    and w: "stage_work (prog c i) st + (2 * txn_size (prog c i) + 1) \<le> stage_work (prog c i) (cl_stage s c i)" "length out \<le> txn_size (prog c i)"
  shows "work ctx prog s' < work ctx prog s"
  using slots_work_upd [OF c, of prog "cl_stage s" st] send_work [of c out] w unfolding work_def s' by simp

section \<open>The number of messages\<close>

lemma reserve_keys_length: "reserve_keys ctx me txn w ks rows = Inr (rows', out) \<Longrightarrow> length out \<le> length ks"
proof (induction ks arbitrary: rows rows' out)
  case (Cons k ks)
  show ?case using Cons.prems Cons.IH by (fastforce simp: Let_def split: if_splits prod.splits)
qed simp

lemma analyze_reads_length: "analyze_reads ctx me rows ks txn = Inr (txn', out) \<Longrightarrow> length out \<le> length ks"
proof (induction ks arbitrary: txn txn' out)
  case (Cons k ks)
  show ?case using Cons.prems Cons.IH by (fastforce simp: Let_def split: if_splits prod.splits)
qed simp

lemma analyze_writes_length: "analyze_writes ctx me rows ks txn = Inr (txn', out) \<Longrightarrow> length out \<le> length ks"
proof (induction ks arbitrary: txn txn' out)
  case (Cons k ks)
  show ?case using Cons.prems Cons.IH by (fastforce simp: Let_def split: if_splits prod.splits)
qed simp

lemma aria_commit_length: "aria_commit ctx me ks rows = (rows', out) \<Longrightarrow> length out \<le> length ks"
proof (induction ks arbitrary: rows rows' out)
  case (Cons k ks)
  show ?case using Cons.prems Cons.IH by (fastforce simp: Let_def split: if_splits prod.splits)
qed simp

lemma reserve_transaction_length:
  assumes "shape ctx e p c i txn" "reserve_transaction ctx me txn rows = Inr (rows', out)"
  shows "length out \<le> txn_size p"
proof (cases "cx_read_only_optimization ctx \<and> is_read_only txn")
  case True
  then show ?thesis using assms(2) by (simp add: reserve_transaction_def)
next
  case False
  with assms(2) obtain rows1 out1 out2 where "reserve_keys ctx me txn False (at_readSet txn) rows = Inr (rows1, out1)"
    "reserve_keys ctx me txn True (at_writeSet txn) rows1 = Inr (rows', out2)" "out = out1 @ out2" unfolding reserve_transaction_def by auto
  with reserve_keys_length [of ctx me txn False] reserve_keys_length [of ctx me txn True] shapeD(7,8) [OF assms(1)]
  show ?thesis by (fastforce simp: txn_size_def intro: add_mono)
qed

lemma analyze_dependency_length:
  assumes "shape ctx e p c i txn" "analyze_dependency ctx me rows txn = Inr (txn', out)"
  shows "length out \<le> txn_size p"
proof (cases "cx_read_only_optimization ctx \<and> is_read_only txn")
  case True
  then show ?thesis using assms(2) by (simp add: analyze_dependency_def)
next
  case False
  with assms(2) obtain txn1 out1 out2 where "analyze_reads ctx me rows (at_readSet txn) txn = Inr (txn1, out1)"
    "analyze_writes ctx me rows (at_writeSet txn) txn1 = Inr (txn', out2)" "out = out1 @ out2"
    unfolding analyze_dependency_def by auto
  with analyze_reads_length analyze_writes_length shapeD(7,8) [OF assms(1)] show ?thesis by (fastforce simp: txn_size_def intro: add_mono)
qed

lemma start_transaction_length:
  assumes "prog_ok p" "start_transaction ctx c e i rows p txn = (txn', out)"
  shows "length out \<le> txn_size p"
proof (cases "pg_no_retry p")
  case True
  then show ?thesis using assms(2) by (auto simp: start_transaction_def execute_def Let_def)
next
  case False
  show ?thesis unfolding start_transaction_spec(4) [OF assms(1) False assms(2)] txn_size_def
    using length_filter_le [of _ "rev [0..<length (pg_reads p)]"] by (simp add: trans_le_add1)
qed

lemma decide_transaction_length:
  assumes "shape ctx e p c i txn" "decide_transaction ctx c txn rows = (ok, txn', rows', out)"
  shows "length out \<le> txn_size p"
  using decide_transaction_spec(3,4) [OF assms] aria_commit_length [of ctx c "at_writeSet txn" rows rows' out] shapeD(8) [OF assms(1)]
  by (cases ok) (simp_all add: txn_size_def)

lemma answer_work:
  assumes "handle_message ctx rows txns m = Inr (rows', txns', answer)"
  shows "sum_list (map msg_work (case answer of None \<Rightarrow> [] | Some r \<Rightarrow> [Packet src d r])) < msg_work (Packet d src m)"
  using assms by (cases m) (auto simp: handle_message_def search_request_handler_def search_response_handler_def reserve_request_handler_def
      check_request_handler_def check_response_handler_def write_request_handler_def Let_def split: if_splits prod.splits)

section \<open>Progress\<close>

lemma aria_step_work:
  assumes su: "aria_setup ctx e prog rows0" and inv: "aria_inv ctx e prog rows0 s" and st: "aria_step ctx e prog s s'"
  shows "work ctx prog s' < work ctx prog s"
  using st
proof cases
  case (start c i txn out)
  have "prog_ok (prog c i)" using su start(2) by (simp add: aria_setup_def)
  from start_transaction_length [OF this start(5)] start show ?thesis
    by (intro work_slot [where c = c and i = i and out = out and st = "if at_abort_no_retry txn then Skipped else Executed"]) simp_all
next
  case (reserve c i txn rows out)
  have sh: "shape ctx e (prog c i) c i (cl_txns s c i)" "\<not> pg_no_retry (prog c i)"
    using aria_invD(1) [OF inv reserve(2)] reserve(4) by (simp_all add: slot_ok_def)
  obtain out2 where "reserve_transaction ctx c (fill_writes (prog c i) ((cl_txns s c i)\<lparr>at_execution_phase := True\<rparr>)) (cl_rows s c) = Inr (rows, out2)" "out = out2"
    using reserve(6) unfolding finish_reads_def execute_again [OF sh] by auto
  with reserve_transaction_length [OF fill_writes_spec(1) [OF sh(1)]] reserve show ?thesis
    by (intro work_slot [where c = c and i = i and out = out and st = Reserved]) simp_all
next
  case barrier
  then show ?thesis by (simp add: work_def)
next
  case (analyze c i txn out)
  have sh: "shape ctx e (prog c i) c i (cl_txns s c i)" using aria_invD(1) [OF inv analyze(2)] analyze(4) by (simp add: slot_ok_def)
  from analyze_dependency_length [OF sh analyze(5)] analyze show ?thesis
    by (intro work_slot [where c = c and i = i and out = out and st = Analyzed]) simp_all
next
  case (decide c i ok txn rows out)
  have sh: "shape ctx e (prog c i) c i (cl_txns s c i)" using aria_invD(1) [OF inv decide(2)] decide(4) by (simp add: slot_ok_def)
  from decide_transaction_length [OF sh decide(6)] decide show ?thesis
    by (intro work_slot [where c = c and i = i and out = out and st = "if ok then Committed else Aborted"]) simp_all
next
  case (deliver xs d c m ys rows txns answer)
  from answer_work [OF deliver(3), of c d] show ?thesis unfolding work_def deliver(1,2) by simp
qed

lemma aria_not_stuck:
  assumes su: "aria_setup ctx e prog rows0" and inv: "aria_inv ctx e prog rows0 s" and over: "\<not> batch_over ctx s"
  shows "\<exists>s'. aria_step ctx e prog s s'"
proof (cases "cl_net s")
  case (Cons m net)
  obtain d src msg where "m = Packet d src msg" by (cases m)
  with Cons have n: "cl_net s = [] @ Packet d src msg # net" by simp
  from deliver_inv [OF su inv n] aria_step.deliver [OF n] show ?thesis by blast
next
  case Nil
  have so: "slot_ok ctx e prog rows0 (cl_status s) c i (cl_stage s c i) (cl_txns s c i) []" if "is_slot ctx c i" for c i
    using aria_invD(1) [OF inv that] by (simp add: Nil)
  show ?thesis
  proof (cases "cl_status s")
    case Aria_READ
    consider c i where "is_slot ctx c i" "cl_stage s c i = Waiting" | c i where "is_slot ctx c i" "cl_stage s c i = Executed"
      | "\<And>c i. is_slot ctx c i \<Longrightarrow> cl_stage s c i \<notin> {Waiting, Executed}" by blast
    then show ?thesis
    proof cases
      case (1 c i)
      obtain txn out where "start_transaction ctx c e i (cl_rows s c) (prog c i) (cl_txns s c i) = (txn, out)" by fastforce
      from aria_step.start [where prog = prog, OF 1(1) Aria_READ 1(2) this] show ?thesis by blast
    next
      case (2 c i)
      have p: "at_pendingResponses (cl_txns s c i) = 0" using so [OF 2(1)] 2(2) by (simp add: slot_ok_def)
      obtain txn rows out where "finish_reads ctx c (cl_rows s c) (prog c i) (cl_txns s c i) = Inr (txn, rows, out)"
        by (rule finish_reads_spec [OF su inv 2(1) Aria_READ 2(2) p])
      from aria_step.reserve [where prog = prog, OF 2(1) Aria_READ 2(2) p this] show ?thesis by blast
    next
      case 3
      have "cl_stage s c i \<in> {Reserved, Skipped}" if "is_slot ctx c i" for c i
        using 3 [OF that] so [OF that] Aria_READ by (cases "cl_stage s c i") (simp_all add: slot_ok_def)
      from aria_step.barrier [OF Aria_READ Nil this] show ?thesis by blast
    qed
  next
    case Aria_COMMIT
    consider c i where "is_slot ctx c i" "cl_stage s c i = Reserved" | c i where "is_slot ctx c i" "cl_stage s c i = Analyzed"
      | "\<And>c i. is_slot ctx c i \<Longrightarrow> cl_stage s c i \<notin> {Reserved, Analyzed}" by blast
    then show ?thesis
    proof cases
      case (1 c i)
      obtain txn out where "analyze_dependency ctx c (cl_rows s c) (cl_txns s c i) = Inr (txn, out)"
        using analyze_dependency_total [OF inv 1(1) Aria_COMMIT 1(2)] by blast
      from aria_step.analyze [OF 1(1) Aria_COMMIT 1(2) this] show ?thesis by blast
    next
      case (2 c i)
      have p: "at_pendingResponses (cl_txns s c i) = 0" using so [OF 2(1)] 2(2) by (simp add: slot_ok_def)
      obtain ok txn rows out where "decide_transaction ctx c (cl_txns s c i) (cl_rows s c) = (ok, txn, rows, out)" by (metis surj_pair)
      from aria_step.decide [OF 2(1) Aria_COMMIT 2(2) p this] show ?thesis by blast
    next
      case 3
      have "cl_stage s c i \<in> {Committed, Aborted, Skipped}" if "is_slot ctx c i" for c i
        using 3 [OF that] so [OF that] Aria_COMMIT by (cases "cl_stage s c i") (simp_all add: slot_ok_def)
      then have "batch_over ctx s" using Nil Aria_COMMIT by (simp add: batch_over_def)
      with over show ?thesis by simp
    qed
  qed
qed

lemma batch_completes:
  assumes su: "aria_setup ctx e prog rows0" and inv: "aria_inv ctx e prog rows0 s"
  shows "\<exists>s'. (aria_step ctx e prog)\<^sup>*\<^sup>* s s' \<and> batch_over ctx s'"
  using inv
proof (induction "work ctx prog s" arbitrary: s rule: less_induct)
  case less
  show ?case
  proof (cases "batch_over ctx s")
    case False
    from aria_not_stuck [OF su less.prems False] obtain s1 where s1: "aria_step ctx e prog s s1" by blast
    from less.hyps [OF aria_step_work [OF su less.prems s1] aria_step_inv [OF su less.prems s1]] s1 show ?thesis
      by (meson converse_rtranclp_into_rtranclp)
  qed blast
qed

section \<open>An example\<close>

text \<open>
  Two coordinators with a transaction each. The first transaction reads a row of the second coordinator and updates one of
  the first; the second reads that row and updates one of its own. The second has the larger number but is to come first.
\<close>

definition demo_ctx :: AriaContext where
  "demo_ctx = \<lparr>cx_coordinator_num = 2, cx_batch_size = 1, cx_master = hash_master 2, cx_read_only_optimization = True,
     cx_reordering_optimization = True, cx_snapshot_isolation = False\<rparr>"

definition demo_prog :: "nat \<Rightarrow> nat \<Rightarrow> (nat, nat) AriaProgram" where
  "demo_prog c i = (if c = 0
     then \<lparr>pg_reads = [(False, Row 0 1 7)], pg_updates = [Row 0 0 3], pg_value = (\<lambda>vs j. hd vs + 1), pg_no_retry = False, pg_storage = 0\<rparr>
     else \<lparr>pg_reads = [(False, Row 0 0 3)], pg_updates = [Row 0 1 5], pg_value = (\<lambda>vs j. hd vs + 5), pg_no_retry = False, pg_storage = 0\<rparr>)"

definition demo_txn :: "(nat, nat) AriaTransaction" where
  "demo_txn = \<lparr>at_id = 0, at_tid_offset = 0, at_epoch = 0, at_pendingResponses = 0, at_abort_lock = False, at_abort_no_retry = False,
     at_distributed_transaction = False, at_execution_phase = False, at_waw = False, at_war = False, at_raw = False, at_readSet = [], at_writeSet = []\<rparr>"

definition demo_start :: "(nat, nat) AriaCluster" where
  "demo_start = \<lparr>cl_rows = \<lambda>c l. (0, 10), cl_txns = \<lambda>c i. demo_txn, cl_stage = \<lambda>c i. Waiting, cl_net = [], cl_status = Aria_READ\<rparr>"

lemma demo_setup: "aria_setup demo_ctx 1 demo_prog (cl_rows demo_start)" "batch_start demo_start" "index_ok demo_ctx demo_prog" "\<not> cx_snapshot_isolation demo_ctx"
  by (auto simp: aria_setup_def demo_ctx_def demo_prog_def demo_start_def batch_start_def index_ok_def prog_ok_def hash_master_def get_epoch_def)

lemma demo_slot: "is_slot demo_ctx c i \<longleftrightarrow> (c = 0 \<or> c = 1) \<and> i = 0"
  by (auto simp: is_slot_def demo_ctx_def)

lemma demo_tid: "tid_of demo_ctx 0 0 = 1" "tid_of demo_ctx 1 0 = 2"
  by (simp_all add: tid_of_def demo_ctx_def)

lemma demo_touches: "touches w (demo_prog 0 0) = {if w then Row 0 0 3 else Row 0 1 7}" "touches w (demo_prog 1 0) = {if w then Row 0 1 5 else Row 0 0 3}"
  by (auto simp: touches_def reads_of_def writes_of_def demo_prog_def)

lemma demo_reserving: "reserving demo_ctx demo_prog w l c i \<longleftrightarrow> i = 0 \<and> (c = 0 \<and> l = (if w then Row 0 0 3 else Row 0 1 7) \<or> c = 1 \<and> l = (if w then Row 0 1 5 else Row 0 0 3))"
proof -
  have "\<not> exempt demo_ctx (demo_prog c i)" "\<not> pg_no_retry (demo_prog c i)" for c i by (simp_all add: exempt_def demo_prog_def)
  then show ?thesis using demo_touches by (auto simp: reserving_def demo_slot)
qed

lemma demo_earlier: "earlier demo_ctx demo_prog w l t \<longleftrightarrow> l = (if w then Row 0 0 3 else Row 0 1 7) \<and> 1 < t \<or> l = (if w then Row 0 1 5 else Row 0 0 3) \<and> 2 < t"
proof -
  have "earlier demo_ctx demo_prog w l t \<longleftrightarrow> (\<exists>c i. reserving demo_ctx demo_prog w l c i \<and> tid_of demo_ctx c i < t)" by (auto simp: earlier_def tids_def)
  also have "\<dots> \<longleftrightarrow> reserving demo_ctx demo_prog w l 0 0 \<and> tid_of demo_ctx 0 0 < t \<or> reserving demo_ctx demo_prog w l 1 0 \<and> tid_of demo_ctx 1 0 < t"
    unfolding demo_reserving by blast
  finally show ?thesis unfolding demo_reserving demo_tid by simp
qed

lemma demo_conflicts:
  "conflict demo_ctx demo_prog w w' 0 0 \<longleftrightarrow> False" "conflict demo_ctx demo_prog w w' 1 0 \<longleftrightarrow> \<not> w \<and> w'"
  unfolding conflict_def demo_earlier demo_touches demo_tid by auto

lemma demo_commits: "commits demo_ctx demo_prog 0 0" "commits demo_ctx demo_prog 1 0"
proof -
  have "cx_reordering_optimization demo_ctx" by (simp add: demo_ctx_def)
  moreover have "\<not> pg_no_retry (demo_prog c i)" for c i by (simp add: demo_prog_def)
  ultimately show "commits demo_ctx demo_prog 0 0" "commits demo_ctx demo_prog 1 0"
    unfolding commits_def demo_conflicts commit_rule_def by simp_all
qed

lemma demo_over:
  assumes inv: "aria_inv demo_ctx 1 demo_prog (cl_rows demo_start) s" and over: "batch_over demo_ctx s"
  shows "serial_order demo_ctx demo_prog s = [(1, 0), (0, 0)]"
proof -
  have x: "\<not> exempt demo_ctx (demo_prog c i)" for c i by (simp add: exempt_def demo_prog_def)
  have sl: "is_slot demo_ctx 0 0" "is_slot demo_ctx 1 0" by (simp_all add: demo_slot)
  have c: "cl_stage s 0 0 = Committed" "cl_stage s 1 0 = Committed" using over_committed [OF inv over] sl demo_commits by blast+
  have "\<not> at_raw (cl_txns s 0 0)" "at_raw (cl_txns s 1 0)"
    using over_stage(2) [OF inv over sl(1) c(1) x] over_stage(2) [OF inv over sl(2) c(2) x] unfolding flags_exact_def demo_conflicts by blast+
  then have r: "rank demo_ctx demo_prog s (0, 0) = 1" "rank demo_ctx demo_prog s (1, 0) = - 2" using x by (simp_all add: rank_def txn_number_def demo_ctx_def)
  have "committed_slots demo_ctx s = [(0, 0), (1, 0)]" using c by (simp add: committed_slots_def demo_ctx_def upt_rec)
  then show ?thesis using r by (simp add: serial_order_def)
qed

lemma demo_runs: "\<exists>s. (aria_step demo_ctx 1 demo_prog)\<^sup>*\<^sup>* demo_start s \<and> batch_over demo_ctx s"
  using batch_completes [OF demo_setup(1) batch_start_inv [OF demo_setup(1,2)]] .

section \<open>Properties of a batch\<close>

text \<open>
  C2. A batch of Aria is serializable. When a batch is over, the rows of all coordinators hold what the committed transactions
  write when they run alone, one after the other, in the order \<open>serial_order\<close>, and every committed transaction has read what it reads
  at its place in that order. This is so for any schedule of the workers and any order of the messages, with and
  without the optimizations for read-only transactions and reordering, but not for snapshot isolation; it needs that no
  transaction of the batch updates a row that one reads through its local index.
\<close>

theorem aria_serializable:
  assumes su: "aria_setup ctx e prog (cl_rows s)" and st: "batch_start s" and run: "(aria_step ctx e prog)\<^sup>*\<^sup>* s s'" and over: "batch_over ctx s'"
    and no_si: "\<not> cx_snapshot_isolation ctx" and ix: "index_ok ctx prog"
  shows "set (serial_order ctx prog s') = {(c, i). is_slot ctx c i \<and> cl_stage s' c i = Committed} \<and> distinct (serial_order ctx prog s') \<and>
    row_values s' = fold (run_alone ctx prog) (serial_order ctx prog s') (row_values s) \<and>
    (\<forall>n < length (serial_order ctx prog s'). case serial_order ctx prog s' ! n of (c, i) \<Rightarrow>
       map rk_value (at_readSet (cl_txns s' c i)) =
       txn_reads ctx prog (c, i) (fold (run_alone ctx prog) (take n (serial_order ctx prog s')) (row_values s)))"
proof -
  note inv = aria_reach_inv [OF su st run]
  have v: "(\<lambda>d l. snd (cl_rows s d l)) = row_values s" by (simp add: row_values_def fun_eq_iff)
  have "set (serial_order ctx prog s') = {(c, i). is_slot ctx c i \<and> cl_stage s' c i = Committed}" "distinct (serial_order ctx prog s')"
    by (auto simp: serial_order_def committed_slots_set committed_slots_distinct)
  with over_serial [OF su inv over order_independent [OF su inv over no_si ix], unfolded v] show ?thesis by (simp split: prod.splits)
qed

theorem aria_serializable_witness:
  "\<exists>s. (aria_step demo_ctx 1 demo_prog)\<^sup>*\<^sup>* demo_start s \<and> batch_over demo_ctx s \<and> serial_order demo_ctx demo_prog s = [(1, 0), (0, 0)] \<and>
     row_values s 0 (Row 0 0 3) = 11 \<and> row_values s 1 (Row 0 1 5) = 15 \<and> map rk_value (at_readSet (cl_txns s 1 0)) = [10]"
proof -
  from demo_runs obtain s where s: "(aria_step demo_ctx 1 demo_prog)\<^sup>*\<^sup>* demo_start s" "batch_over demo_ctx s" by blast
  have o: "serial_order demo_ctx demo_prog s = [(1, 0), (0, 0)]" by (rule demo_over [OF aria_reach_inv [OF demo_setup(1,2) s(1)] s(2)])
  note t = aria_serializable [OF demo_setup(1,2) s demo_setup(4,3), unfolded o]
  have v0: "row_values demo_start d l = 10" for d l by (simp add: row_values_def demo_start_def)
  have "row_values s = run_alone demo_ctx demo_prog (0, 0) (run_alone demo_ctx demo_prog (1, 0) (row_values demo_start))" using t by simp
  moreover have "run_alone demo_ctx demo_prog (0, 0) vals = vals(0 := (vals 0)(Row 0 0 3 := vals 1 (Row 0 1 7) + 1))"
    "run_alone demo_ctx demo_prog (1, 0) vals = vals(1 := (vals 1)(Row 0 1 5 := vals 0 (Row 0 0 3) + 5))" for vals
    by (simp_all add: run_alone_def txn_reads_def is_remote_def demo_ctx_def demo_prog_def hash_master_def)
  ultimately have "row_values s 0 (Row 0 0 3) = 11 \<and> row_values s 1 (Row 0 1 5) = 15"
    using v0 by simp
  moreover have "map rk_value (at_readSet (cl_txns s 1 0)) = txn_reads demo_ctx demo_prog (1, 0) (row_values demo_start)"
    using t [THEN conjunct2, THEN conjunct2, THEN conjunct2, THEN spec, of 0] unfolding nth_Cons_0 prod.case take0 fold_Nil id_apply by fastforce
  then have "map rk_value (at_readSet (cl_txns s 1 0)) = [10]" using v0 by (simp add: txn_reads_def demo_prog_def)
  ultimately show ?thesis using s o by (intro exI [of _ s]) simp
qed

text \<open>
  C9. A batch of Aria is deterministic: the schedule of the workers and the order of the messages decide neither which
  transactions commit, which is a matter of the conflicts between the programs, nor the values that the batch leaves.
\<close>

theorem aria_deterministic:
  assumes su: "aria_setup ctx e prog (cl_rows s)" and st: "batch_start s" and s1: "(aria_step ctx e prog)\<^sup>*\<^sup>* s s1" "batch_over ctx s1"
    and s2: "(aria_step ctx e prog)\<^sup>*\<^sup>* s s2" "batch_over ctx s2"
  shows "row_values s1 = row_values s2 \<and> (\<forall>c i. is_slot ctx c i \<longrightarrow> cl_stage s1 c i = cl_stage s2 c i \<and>
    cl_stage s1 c i = (if pg_no_retry (prog c i) then Skipped else if commits ctx prog c i then Committed else Aborted))"
proof -
  note inv = aria_reach_inv [OF su st s1(1)] aria_reach_inv [OF su st s2(1)]
  show ?thesis using over_determined [OF inv(1) s1(2) inv(2) s2(2)] over_stage(1) [OF inv(1) s1(2)] by blast
qed

theorem aria_deterministic_witness:
  "\<exists>s. (aria_step demo_ctx 1 demo_prog)\<^sup>*\<^sup>* demo_start s \<and> batch_over demo_ctx s \<and> cl_stage s 0 0 = Committed \<and> cl_stage s 1 0 = Committed"
proof -
  from demo_runs obtain s where s: "(aria_step demo_ctx 1 demo_prog)\<^sup>*\<^sup>* demo_start s" "batch_over demo_ctx s" by blast
  have "is_slot demo_ctx 0 0" "is_slot demo_ctx 1 0" "\<not> pg_no_retry (demo_prog 0 0)" "\<not> pg_no_retry (demo_prog 1 0)" by (simp_all add: demo_slot demo_prog_def)
  with aria_deterministic [OF demo_setup(1,2) s s] demo_commits s show ?thesis by metis
qed

text \<open>
  C19. A batch of Aria ends: there is no infinite run, a cluster comes to rest only when every transaction is committed, aborted or
  skipped and no message is left, and no check of a message handler fails on the way.
\<close>

theorem aria_batch_ends:
  assumes su: "aria_setup ctx e prog (cl_rows s)" and st: "batch_start s"
  shows "(\<nexists>f. f 0 = s \<and> (\<forall>n. aria_step ctx e prog (f n) (f (Suc n)))) \<and>
    (\<forall>s'. (aria_step ctx e prog)\<^sup>*\<^sup>* s s' \<longrightarrow> ((\<nexists>s''. aria_step ctx e prog s' s'') \<longrightarrow> batch_over ctx s') \<and>
      (\<forall>d src m. Packet d src m \<in> set (cl_net s') \<longrightarrow> (\<exists>r. handle_message ctx (cl_rows s' d) (cl_txns s' d) m = Inr r)))"
proof (intro conjI allI impI)
  show "\<nexists>f. f 0 = s \<and> (\<forall>n. aria_step ctx e prog (f n) (f (Suc n)))"
  proof
    assume "\<exists>f. f 0 = s \<and> (\<forall>n. aria_step ctx e prog (f n) (f (Suc n)))"
    then obtain f where f: "f 0 = s" "\<And>n. aria_step ctx e prog (f n) (f (Suc n))" by blast
    have "(aria_step ctx e prog)\<^sup>*\<^sup>* s (f n)" for n by (induction n) (use f in \<open>auto intro: rtranclp.rtrancl_into_rtrancl\<close>)
    then have "work ctx prog (f (Suc n)) < work ctx prog (f n)" for n using aria_step_work [OF su aria_reach_inv [OF su st] f(2)] by blast
    then have "work ctx prog (f n) + n \<le> work ctx prog (f 0)" for n by (induction n) (simp, metis add_Suc_right less_le_trans add_less_mono1 Suc_le_eq)
    from this [of "Suc (work ctx prog (f 0))"] show False by simp
  qed
next
  fix s' assume "(aria_step ctx e prog)\<^sup>*\<^sup>* s s'" "\<nexists>s''. aria_step ctx e prog s' s''"
  then show "batch_over ctx s'" using aria_not_stuck [OF su aria_reach_inv [OF su st]] by blast
next
  fix s' d src m assume r: "(aria_step ctx e prog)\<^sup>*\<^sup>* s s'" and "Packet d src m \<in> set (cl_net s')"
  then obtain xs ys where "cl_net s' = xs @ Packet d src m # ys" by (meson split_list)
  from deliver_inv [OF su aria_reach_inv [OF su st r] this] show "\<exists>r. handle_message ctx (cl_rows s' d) (cl_txns s' d) m = Inr r" by blast
qed

theorem aria_batch_ends_witness:
  "(\<nexists>f. f 0 = demo_start \<and> (\<forall>n. aria_step demo_ctx 1 demo_prog (f n) (f (Suc n)))) \<and> (\<exists>s. aria_step demo_ctx 1 demo_prog demo_start s)"
proof -
  have "\<not> batch_over demo_ctx demo_start" by (simp add: batch_over_def demo_start_def)
  with aria_batch_ends [OF demo_setup(1,2)] show ?thesis by blast
qed

end
