(* ===== verification/Aria_Cleanup.thy ===== *)
theory Aria_Cleanup
  imports Aria_Progress
begin

text \<open>
  What the coordinators do with the transactions of a batch that is over: nothing marks a transaction for a retry.
\<close>

section \<open>The mark for a retry\<close>

lemma fold_searches_lock:
  "at_abort_lock (fold (\<lambda>(ix, l). if ix then search_local_index st (row_table l) (row_partition l) (row_key l)
       else search_for_read st (row_table l) (row_partition l) (row_key l)) rs txn) = at_abort_lock txn"
  by (simp add: fold_searches)

lemma readRequestHandler_lock: "at_abort_lock (fst (readRequestHandler ctx me rows i txn)) = at_abort_lock txn"
  by (simp add: readRequestHandler_def Let_def)

lemma process_reads_lock: "at_abort_lock (fst (process_reads ctx me rows n txn)) = at_abort_lock txn"
proof (induction n arbitrary: txn)
  case (Suc n)
  show ?case using readRequestHandler_lock [of ctx me rows n txn] Suc.IH by (simp add: case_prod_beta Let_def)
qed simp

lemma execute_lock: "at_abort_lock (fst (snd (execute ctx me rows prog txn))) = at_abort_lock txn"
  using process_reads_lock [of ctx me rows] by (simp add: execute_def Let_def fold_searches fold_updates process_requests_def fill_writes_def case_prod_beta)

lemma start_transaction_lock:
  assumes "start_transaction ctx me e i rows prog txn = (txn', out)"
  shows "\<not> at_abort_lock txn'"
proof -
  define t where "t = (at_reset txn)\<lparr>at_epoch := e, at_id := of_nat (i * cx_coordinator_num ctx + me + 1), at_tid_offset := of_nat i, at_execution_phase := False\<rparr>"
  have "\<not> at_abort_lock t" by (simp add: t_def at_reset_def)
  then have "\<not> at_abort_lock (fst (snd (execute ctx me rows prog t)))" by (simp only: execute_lock simp_thms)
  then show ?thesis using assms unfolding start_transaction_def t_def [symmetric] by (auto simp: Let_def case_prod_beta split: if_splits)
qed

lemma finish_reads_lock:
  assumes "finish_reads ctx me rows prog txn = Inr (txn', rows', out)"
  shows "at_abort_lock txn' = at_abort_lock txn"
  using assms execute_lock [of ctx me rows prog "txn\<lparr>at_execution_phase := True\<rparr>"] by (auto simp: finish_reads_def Let_def case_prod_beta)

lemma analyze_dependency_lock:
  assumes "analyze_dependency ctx me rows txn = Inr (txn', out)"
  shows "at_abort_lock txn' = at_abort_lock txn"
proof (cases "cx_read_only_optimization ctx \<and> is_read_only txn")
  case False
  with assms obtain txn1 out1 out2 where "analyze_reads ctx me rows (at_readSet txn) txn = Inr (txn1, out1)"
    "analyze_writes ctx me rows (at_writeSet txn) txn1 = Inr (txn', out2)" by (auto simp: analyze_dependency_def)
  then have "same_txn txn txn1" "same_txn txn1 txn'" using analyze_reads_spec analyze_writes_spec by blast+
  then show ?thesis by (simp add: same_txn_def)
qed (use assms in \<open>simp add: analyze_dependency_def\<close>)

lemma decide_transaction_lock: "decide_transaction ctx me txn rows = (ok, txn', rows', out) \<Longrightarrow> at_abort_lock txn' = at_abort_lock txn"
  by (auto simp: decide_transaction_def aria_abort_def split: if_splits)

lemma handle_message_lock: "handle_message ctx rows txns m = Inr (rows', txns', answer) \<Longrightarrow> at_abort_lock (txns' i) = at_abort_lock (txns i)"
  by (cases m) (auto simp: handle_message_def search_request_handler_def search_response_handler_def reserve_request_handler_def
      check_request_handler_def check_response_handler_def write_request_handler_def Let_def split: if_splits)

lemma aria_step_lock:
  assumes "aria_step ctx e prog s s'" "\<forall>c i. cl_stage s c i \<noteq> Waiting \<longrightarrow> \<not> at_abort_lock (cl_txns s c i)"
  shows "\<forall>c i. cl_stage s' c i \<noteq> Waiting \<longrightarrow> \<not> at_abort_lock (cl_txns s' c i)"
  using assms(1)
proof cases
  case (start c i txn out)
  show ?thesis unfolding start(1) using assms(2) start_transaction_lock [OF start(5)] by simp
next
  case (reserve c i txn rows out)
  show ?thesis unfolding reserve(1) using assms(2) reserve(4) finish_reads_lock [OF reserve(6)] by simp
next
  case (analyze c i txn out)
  show ?thesis unfolding analyze(1) using assms(2) analyze(4) analyze_dependency_lock [OF analyze(5)] by simp
next
  case (decide c i ok txn rows out)
  show ?thesis unfolding decide(1) using assms(2) decide(4) decide_transaction_lock [OF decide(6)] by simp
next
  case (deliver xs d c m ys rows txns answer)
  show ?thesis unfolding deliver(1) using assms(2) handle_message_lock [OF deliver(3)] by simp
qed (use assms(2) in simp)

lemma aria_reach_lock:
  assumes "(aria_step ctx e prog)\<^sup>*\<^sup>* s s'" "batch_start s" "cl_stage s' c i \<noteq> Waiting"
  shows "\<not> at_abort_lock (cl_txns s' c i)"
proof -
  from assms(1) have "\<forall>c i. cl_stage s' c i \<noteq> Waiting \<longrightarrow> \<not> at_abort_lock (cl_txns s' c i)"
  proof induction
    case base
    show ?case using assms(2) by (simp add: batch_start_def)
  qed (blast dest: aria_step_lock)
  with assms(3) show ?thesis by blast
qed

lemma cleanup_slots_none:
  "\<forall>t \<in> set txns. \<forall>obj. t = Some obj \<longrightarrow> \<not> at_abort_lock (snd obj) \<Longrightarrow> i + n \<le> length txns \<Longrightarrow> cleanup_slots n i txns it = (txns, it)"
proof (induction n arbitrary: i)
  case (Suc n)
  have "txns ! i \<in> set txns" using Suc.prems(2) by simp
  then have "at_abort_lock (snd obj) \<longrightarrow> txns ! i \<noteq> Some obj" for obj using Suc.prems(1) by blast
  with Suc show ?case by (simp split: option.splits)
qed simp

text \<open>
  C39. No transaction of a batch is run again. Although a comment of the manager says that the transactions aborted in one batch
  move to the next, aborting does not set \<open>at_abort_lock\<close>, nor does anything else: after every batch \<open>cleanup_batch\<close> leaves the slots
  as they are and counts \<open>0\<close> transactions to keep, and so, in every slot, the next batch starts with the transaction that the workload
  generates for it, whether the old one committed or was aborted.
\<close>

theorem aria_aborted_dropped:
  assumes "batch_start s" "(aria_step ctx e prog)\<^sup>*\<^sup>* s s'" "batch_over ctx s'" "is_slot ctx c i"
    and "next_batch ctx prog fresh s' = (prog', s'')"
  shows "cleanup_batch (batch_slots ctx prog s' c) = (batch_slots ctx prog s' c, 0) \<and> batch_start s'' \<and>
    prog' c i = fst (fresh c i) \<and> cl_txns s'' c i = snd (fresh c i)"
proof -
  have "\<not> at_abort_lock (cl_txns s' c i)" if "i < cx_batch_size ctx" for i
  proof -
    have "is_slot ctx c i" using that assms(4) by (simp add: is_slot_def)
    then have "cl_stage s' c i \<in> {Committed, Aborted, Skipped}" using assms(3) by (simp add: batch_over_def)
    then show ?thesis using aria_reach_lock [OF assms(2,1)] by auto
  qed
  then have clean: "cleanup_batch (batch_slots ctx prog s' c) = (batch_slots ctx prog s' c, 0)"
    unfolding cleanup_batch_def by (intro cleanup_slots_none) (auto simp: batch_slots_def)
  have "i < length (batch_slots ctx prog s' c)" using assms(4) by (simp add: batch_slots_def is_slot_def)
  then have "next_object ctx prog fresh s' c i = fresh c i"
    by (simp add: next_object_def clean choose_transaction_def split: option.split)
  moreover have "batch_start s''" using assms(3,5) by (auto simp: next_batch_def batch_start_def batch_over_def)
  ultimately show ?thesis using clean assms(5) by (auto simp: next_batch_def)
qed

text \<open>Two transactions that update the same row: the one with the larger number is aborted and dropped.\<close>

definition clash_prog :: "nat \<Rightarrow> nat \<Rightarrow> (nat, nat) AriaProgram" where
  "clash_prog c i = \<lparr>pg_reads = [], pg_updates = [Row 0 0 3], pg_value = (\<lambda>vs j. c), pg_no_retry = False, pg_storage = 0\<rparr>"

lemma clash_setup: "aria_setup demo_ctx 1 clash_prog (cl_rows demo_start)"
  by (auto simp: aria_setup_def demo_ctx_def clash_prog_def demo_start_def prog_ok_def hash_master_def get_epoch_def)

lemma clash_aborts: "\<not> commits demo_ctx clash_prog 1 0"
proof -
  have r: "reserving demo_ctx clash_prog True (Row 0 0 3) c 0" if "c = 0 \<or> c = 1" for c
    using that by (auto simp: reserving_def demo_slot touches_def writes_of_def exempt_def clash_prog_def)
  have "tid_of demo_ctx 0 0 < tid_of demo_ctx 1 0" by (simp add: demo_tid del: One_nat_def)
  then have "earlier demo_ctx clash_prog True (Row 0 0 3) (tid_of demo_ctx 1 0)" using r [of 0] unfolding earlier_def tids_def by blast
  moreover have "Row 0 0 3 \<in> touches True (clash_prog 1 0)" "\<not> exempt demo_ctx (clash_prog 1 0)"
    by (simp_all add: touches_def writes_of_def exempt_def clash_prog_def)
  ultimately show ?thesis unfolding commits_def commit_rule_def conflict_def by blast
qed

theorem aria_aborted_dropped_witness:
  "\<exists>s. (aria_step demo_ctx 1 clash_prog)\<^sup>*\<^sup>* demo_start s \<and> batch_over demo_ctx s \<and> cl_stage s 1 0 = Aborted \<and>
     fst (next_batch demo_ctx clash_prog (\<lambda>c i. (demo_prog c i, cl_txns demo_start c i)) s) 1 0 = demo_prog 1 0"
proof -
  note inv0 = batch_start_inv [OF clash_setup demo_setup(2)]
  from batch_completes [OF clash_setup inv0] obtain s where s: "(aria_step demo_ctx 1 clash_prog)\<^sup>*\<^sup>* demo_start s" "batch_over demo_ctx s" by blast
  have slot: "is_slot demo_ctx 1 0" "\<not> pg_no_retry (clash_prog 1 0)" by (simp_all add: demo_slot clash_prog_def)
  then have "cl_stage s 1 0 = Aborted"
    using over_stage(1) [OF aria_reach_inv [OF clash_setup demo_setup(2) s(1)] s(2)] clash_aborts by simp
  with aria_aborted_dropped [OF demo_setup(2) s slot(1) surjective_pairing] s show ?thesis by auto
qed

end
