(* ===== verification/Calvin_Locks.thy ===== *)
theory Calvin_Locks
  imports Decimal "HOL-Library.Word"
begin

text \<open>
  The deterministic lock manager of Calvin, \<^verbatim>\<open>scheduler/deterministic_lock_manager.cc\<close>: a table of queues of lock requests. A
  transaction asks for all of its locks at once; a lock is held by the first request of its queue if that is for writing, and by the
  leading requests for reading otherwise.

  A pointer to a transaction is a number, and \<open>mem\<close> gives the transaction at a pointer; the lock manager only compares pointers and
  reads the key sets. The configuration is this node's number and the number of nodes.
\<close>

unbundle bit_operations_syntax

section \<open>Transactions and keys\<close>

record TxnProto =
  txn_id :: int
  read_set :: "string list"
  write_set :: "string list"
  read_write_set :: "string list"
  txn_readers :: "int list"
  txn_writers :: "int list"

record CalvinConfig =
  this_node_id :: int
  all_nodes_size :: nat

text \<open>\<^verbatim>\<open>atoi\<close>: white space and a sign are skipped, then the digits are read; the value of anything else is \<open>0\<close>. \<open>c_rem\<close> is the remainder of C.\<close>

definition atoi :: "string \<Rightarrow> int" where
  "atoi str =
     (let body = dropWhile is_space str;
          neg = (body \<noteq> [] \<and> hd body = CHR ''-'');
          ds = takeWhile is_digit (if body \<noteq> [] \<and> (hd body = CHR ''-'' \<or> hd body = CHR ''+'') then tl body else body)
      in if neg then - int (digits_value ds) else int (digits_value ds))"

definition c_rem :: "int \<Rightarrow> int \<Rightarrow> int" where
  "c_rem a b = sgn a * (\<bar>a\<bar> mod \<bar>b\<bar>)"

definition LookupPartition :: "CalvinConfig \<Rightarrow> string \<Rightarrow> int" where
  "LookupPartition cfg key =
     (if key \<noteq> [] \<and> hd key = CHR ''w'' then c_rem (atoi (tl key)) (int (all_nodes_size cfg))
      else c_rem (atoi key) (int (all_nodes_size cfg)))"

definition IsLocal :: "CalvinConfig \<Rightarrow> string \<Rightarrow> bool" where
  "IsLocal cfg key \<longleftrightarrow> LookupPartition cfg key = this_node_id cfg"

definition TABLE_SIZE :: nat where
  "TABLE_SIZE = 1000000"

text \<open>\<^verbatim>\<open>char\<close> is signed, so a character is sign-extended.\<close>

definition calvin_hash :: "string \<Rightarrow> nat" where
  "calvin_hash key = unat (foldl (\<lambda>hash c. (hash XOR scast (of_char c :: 8 word)) * 16777619) (2166136261 :: u64) key) mod TABLE_SIZE"

section \<open>The lock manager\<close>

datatype CalvinMode = READ | WRITE

record CalvinLockRequest =
  lr_txn :: nat
  lr_mode :: CalvinMode

record KeysList =
  kl_key :: string
  kl_locksrequest :: "CalvinLockRequest list"

type_synonym lock_table = "nat \<Rightarrow> KeysList list"

record CalvinLM =
  lm_lock_table :: lock_table
  lm_ready_txns :: "nat list"
  lm_txn_waits :: "nat \<Rightarrow> int option"

definition CalvinLM_new :: CalvinLM where
  "CalvinLM_new = \<lparr>lm_lock_table = \<lambda>_. [], lm_ready_txns = [], lm_txn_waits = Map.empty\<rparr>"

text \<open>The position of a key in its bucket; the length of the bucket is the end iterator.\<close>

definition find_key :: "lock_table \<Rightarrow> string \<Rightarrow> nat" where
  "find_key table key = length (takeWhile (\<lambda>kl. kl_key kl \<noteq> key) (table (calvin_hash key)))"

definition at_end :: "lock_table \<Rightarrow> string \<Rightarrow> bool" where
  "at_end table key \<longleftrightarrow> find_key table key = length (table (calvin_hash key))"

definition get_requests :: "lock_table \<Rightarrow> string \<Rightarrow> CalvinLockRequest list" where
  "get_requests table key = (if at_end table key then [] else kl_locksrequest (table (calvin_hash key) ! find_key table key))"

definition put_requests :: "lock_table \<Rightarrow> string \<Rightarrow> CalvinLockRequest list \<Rightarrow> lock_table" where
  "put_requests table key requests =
     (let b = calvin_hash key; kls = table b; i = find_key table key in
      table(b := (if at_end table key then kls @ [\<lparr>kl_key = key, kl_locksrequest = requests\<rparr>]
                  else kls[i := (kls ! i)\<lparr>kl_locksrequest := requests\<rparr>])))"

text \<open>One turn of the loops of \<^verbatim>\<open>Lock\<close>, with the number of locks that were not acquired.\<close>

definition lock_key :: "CalvinConfig \<Rightarrow> CalvinMode \<Rightarrow> nat \<Rightarrow> string \<Rightarrow> lock_table \<times> int \<Rightarrow> lock_table \<times> int" where
  "lock_key cfg mode txn key st =
     (case st of (table, not_acquired) \<Rightarrow>
        if \<not> IsLocal cfg key then (table, not_acquired)
        else
          (let requests = get_requests table key in
           if requests = [] \<or> txn \<noteq> lr_txn (last requests)
           then
             (let requests1 = requests @ [\<lparr>lr_txn = txn, lr_mode = mode\<rparr>];
                  blocked = (case mode of WRITE \<Rightarrow> length requests1 > 1 | READ \<Rightarrow> \<exists>r \<in> set requests1. lr_mode r = WRITE)
              in (put_requests table key requests1, if blocked then not_acquired + 1 else not_acquired))
           else (table, not_acquired)))"

definition Calvin_Lock :: "CalvinConfig \<Rightarrow> (nat \<Rightarrow> TxnProto) \<Rightarrow> nat \<Rightarrow> CalvinLM \<Rightarrow> int \<times> CalvinLM" where
  "Calvin_Lock cfg mem txn lm =
     (let st1 = fold (lock_key cfg WRITE txn) (read_write_set (mem txn)) (lm_lock_table lm, 0);
          (table, not_acquired) = fold (lock_key cfg READ txn) (read_set (mem txn)) st1
      in (not_acquired,
          if not_acquired > 0 then lm\<lparr>lm_lock_table := table, lm_txn_waits := (lm_txn_waits lm)(txn \<mapsto> not_acquired)\<rparr>
          else lm\<lparr>lm_lock_table := table, lm_ready_txns := lm_ready_txns lm @ [txn]\<rparr>))"

text \<open>The requests that the release of the request at position \<open>i\<close> grants.\<close>

definition new_owners :: "CalvinLockRequest list \<Rightarrow> nat \<Rightarrow> nat list" where
  "new_owners requests i =
     (let target = requests ! i; rest = drop (i + 1) requests in
      if rest = [] then []
      else if i = 0 \<and> (lr_mode target = WRITE \<or> (lr_mode target = READ \<and> lr_mode (hd rest) = WRITE))
      then (if lr_mode (hd rest) = WRITE then [lr_txn (hd rest)] else []) @ map lr_txn (takeWhile (\<lambda>r. lr_mode r = READ) rest)
      else if (\<forall>r \<in> set (take i requests). lr_mode r \<noteq> WRITE) \<and> lr_mode target = WRITE \<and> lr_mode (hd rest) = READ
      then map lr_txn (takeWhile (\<lambda>r. lr_mode r = READ) rest)
      else [])"

text \<open>\<^verbatim>\<open>operator[]\<close> of the map creates a missing entry with \<open>0\<close>.\<close>

definition grant :: "nat \<Rightarrow> CalvinLM \<Rightarrow> CalvinLM" where
  "grant t lm =
     (let n = (case lm_txn_waits lm t of None \<Rightarrow> 0 | Some n \<Rightarrow> n) - 1 in
      if n = 0 then lm\<lparr>lm_ready_txns := lm_ready_txns lm @ [t], lm_txn_waits := (lm_txn_waits lm)(t := None)\<rparr>
      else lm\<lparr>lm_txn_waits := (lm_txn_waits lm)(t \<mapsto> n)\<rparr>)"

definition Release_key :: "nat \<Rightarrow> string \<Rightarrow> CalvinLM \<Rightarrow> CalvinLM outcome" where
  "Release_key txn key lm =
     (let table = lm_lock_table lm; b = calvin_hash key; i1 = find_key table key in
      if at_end table key then Inl (Undefined ''end iterator'')
      else
        (let requests = kl_locksrequest (table b ! i1); i = length (takeWhile (\<lambda>r. lr_txn r \<noteq> txn) requests) in
         if i = length requests then Inr lm
         else
           (let lm1 = fold grant (new_owners requests i) lm;
                requests1 = take i requests @ drop (i + 1) requests;
                kls = table b
            in Inr (lm1\<lparr>lm_lock_table := table(b :=
                 (if requests1 = [] then take i1 kls @ drop (i1 + 1) kls
                  else kls[i1 := (kls ! i1)\<lparr>kl_locksrequest := requests1\<rparr>]))\<rparr>))))"

fun Release_keys :: "CalvinConfig \<Rightarrow> nat \<Rightarrow> string list \<Rightarrow> CalvinLM \<Rightarrow> CalvinLM outcome" where
  "Release_keys cfg txn [] lm = Inr lm"
| "Release_keys cfg txn (key # keys) lm =
     (if IsLocal cfg key then obind (Release_key txn key lm) (Release_keys cfg txn keys) else Release_keys cfg txn keys lm)"

definition Calvin_Release :: "CalvinConfig \<Rightarrow> (nat \<Rightarrow> TxnProto) \<Rightarrow> nat \<Rightarrow> CalvinLM \<Rightarrow> CalvinLM outcome" where
  "Calvin_Release cfg mem txn lm =
     obind (Release_keys cfg txn (read_set (mem txn)) lm) (Release_keys cfg txn (read_write_set (mem txn)))"

section \<open>The table as a map from keys to queues\<close>

definition table_ok :: "lock_table \<Rightarrow> bool" where
  "table_ok table \<longleftrightarrow> (\<forall>b. distinct (map kl_key (table b)) \<and> (\<forall>kl \<in> set (table b). calvin_hash (kl_key kl) = b \<and> kl_locksrequest kl \<noteq> []))"

definition bucket_get :: "KeysList list \<Rightarrow> string \<Rightarrow> CalvinLockRequest list" where
  "bucket_get kls key = (case filter (\<lambda>kl. kl_key kl = key) kls of [] \<Rightarrow> [] | kl # _ \<Rightarrow> kl_locksrequest kl)"

lemma bucket_get_Cons: "bucket_get (kl # kls) key = (if kl_key kl = key then kl_locksrequest kl else bucket_get kls key)"
  by (simp add: bucket_get_def)

lemma bucket_get_append: "bucket_get (pre @ kls) key = (if key \<in> kl_key ` set pre then bucket_get pre key else bucket_get kls key)"
  by (induction pre) (auto simp: bucket_get_Cons)

lemma bucket_get_Nil [simp]: "bucket_get [] key = []"
  by (simp add: bucket_get_def)

lemma bucket_get_absent: "key \<notin> kl_key ` set kls \<Longrightarrow> bucket_get kls key = []"
  by (induction kls) (auto simp: bucket_get_Cons)

lemma bucket_cases:
  obtains (absent) "key \<notin> kl_key ` set kls" "length (takeWhile (\<lambda>kl. kl_key kl \<noteq> key) kls) = length kls" "bucket_get kls key = []"
  | (present) pre kl post where "kls = pre @ kl # post" "kl_key kl = key" "key \<notin> kl_key ` set pre"
    "length (takeWhile (\<lambda>kl. kl_key kl \<noteq> key) kls) = length pre" "bucket_get kls key = kl_locksrequest kl"
proof (cases "key \<in> kl_key ` set kls")
  case False
  then have "takeWhile (\<lambda>kl. kl_key kl \<noteq> key) kls = kls" unfolding takeWhile_eq_all_conv by auto
  then have "length (takeWhile (\<lambda>kl. kl_key kl \<noteq> key) kls) = length kls" by (rule arg_cong)
  then show thesis by (rule absent [OF False _ bucket_get_absent [OF False]])
next
  case True
  then have "\<exists>kl \<in> set kls. kl_key kl = key" by auto
  then obtain pre kl post where s: "kls = pre @ kl # post" "kl_key kl = key" "\<forall>x \<in> set pre. kl_key x \<noteq> key" using split_list_first_prop [of kls "\<lambda>kl. kl_key kl = key"] by blast
  then have "takeWhile (\<lambda>kl. kl_key kl \<noteq> key) kls = pre" "key \<notin> kl_key ` set pre" by (auto simp: takeWhile_append takeWhile_eq_all_conv)
  with s show thesis by (intro present [of pre kl post]) (simp_all add: bucket_get_append bucket_get_Cons)
qed

lemma get_requests_bucket: "get_requests table key = bucket_get (table (calvin_hash key)) key"
  by (cases rule: bucket_cases [of key "table (calvin_hash key)"]) (simp_all add: get_requests_def at_end_def find_key_def)

lemma at_end_get:
  assumes "table_ok table"
  shows "at_end table key \<longleftrightarrow> get_requests table key = []"
proof (cases rule: bucket_cases [of key "table (calvin_hash key)"])
  case (present pre kl post)
  then have "kl \<in> set (table (calvin_hash key))" by simp
  with assms have "kl_locksrequest kl \<noteq> []" by (auto simp: table_ok_def)
  with present show ?thesis by (simp add: at_end_def find_key_def get_requests_bucket)
qed (simp add: at_end_def find_key_def get_requests_bucket)

text \<open>What \<^verbatim>\<open>Release\<close> leaves of the queue of a key; the entry of an empty queue is erased.\<close>

definition set_requests :: "lock_table \<Rightarrow> string \<Rightarrow> CalvinLockRequest list \<Rightarrow> lock_table" where
  "set_requests table key requests =
     (if requests = [] then table(calvin_hash key := take (find_key table key) (table (calvin_hash key)) @ drop (find_key table key + 1) (table (calvin_hash key)))
      else put_requests table key requests)"

lemma table_okD:
  assumes "table_ok table"
  shows "distinct (map kl_key (table b))" "kl \<in> set (table b) \<Longrightarrow> calvin_hash (kl_key kl) = b" "kl \<in> set (table b) \<Longrightarrow> kl_locksrequest kl \<noteq> []"
  using assms by (auto simp: table_ok_def)

lemma table_ok_upd:
  assumes "table_ok table" "distinct (map kl_key kls)" "\<And>kl. kl \<in> set kls \<Longrightarrow> calvin_hash (kl_key kl) = b \<and> kl_locksrequest kl \<noteq> []"
  shows "table_ok (table(b := kls))"
  using assms by (auto simp: table_ok_def)

lemma put_requests:
  assumes ok: "table_ok table" and q: "requests \<noteq> []"
  shows "table_ok (put_requests table key requests)" "get_requests (put_requests table key requests) = (get_requests table)(key := requests)"
proof -
  let ?b = "calvin_hash key"
  note d = table_okD [OF ok, where b = ?b]
  have "table_ok (put_requests table key requests) \<and> (\<forall>k. get_requests (put_requests table key requests) k = ((get_requests table)(key := requests)) k)"
  proof (cases rule: bucket_cases [of key "table ?b"])
    case absent
    let ?kl = "\<lparr>kl_key = key, kl_locksrequest = requests\<rparr>"
    have p: "put_requests table key requests = table(?b := table ?b @ [?kl])" using absent(2) by (simp add: put_requests_def at_end_def find_key_def Let_def)
    have "table_ok (table(?b := table ?b @ [?kl]))" using d absent(1) q by (intro table_ok_upd [OF ok]) auto
    moreover have "bucket_get (table ?b @ [?kl]) k = (if k = key then requests else bucket_get (table ?b) k)" for k
      using absent(1,3) bucket_get_absent [of k "table ?b"] by (auto simp: bucket_get_append bucket_get_Cons)
    ultimately show ?thesis unfolding p get_requests_bucket by auto
  next
    case (present pre kl post)
    let ?kl = "kl\<lparr>kl_locksrequest := requests\<rparr>"
    have p: "put_requests table key requests = table(?b := pre @ ?kl # post)"
      using present(1,4) by (simp add: put_requests_def at_end_def find_key_def Let_def)
    have "table_ok (table(?b := pre @ ?kl # post))" 
    proof (rule table_ok_upd [OF ok])
      show "distinct (map kl_key (pre @ ?kl # post))" using d(1) present(1) by simp
      fix x assume "x \<in> set (pre @ ?kl # post)"
      then consider "x \<in> set (table ?b)" | "x = ?kl" using present(1) by auto
      then show "calvin_hash (kl_key x) = ?b \<and> kl_locksrequest x \<noteq> []" using d(2,3) present(2) q by cases auto
    qed
    moreover have "bucket_get (pre @ ?kl # post) k = (if k = key then requests else bucket_get (table ?b) k)" for k
      using present(2,3) unfolding present(1) by (simp add: bucket_get_append bucket_get_Cons)
    ultimately show ?thesis unfolding p get_requests_bucket by auto
  qed
  then show "table_ok (put_requests table key requests)" "get_requests (put_requests table key requests) = (get_requests table)(key := requests)"
    by (simp_all add: fun_eq_iff)
qed

lemma set_requests:
  assumes ok: "table_ok table" and q: "get_requests table key \<noteq> []"
  shows "table_ok (set_requests table key requests)" "get_requests (set_requests table key requests) = (get_requests table)(key := requests)"
proof -
  let ?b = "calvin_hash key"
  note d = table_okD [OF ok, where b = ?b]
  have "table_ok (set_requests table key requests) \<and> (\<forall>k. get_requests (set_requests table key requests) k = ((get_requests table)(key := requests)) k)"
  proof (cases "requests = []")
    case True
    from q obtain pre kl post where present: "table ?b = pre @ kl # post" "kl_key kl = key" "key \<notin> kl_key ` set pre" "find_key table key = length pre"
      by (cases rule: bucket_cases [of key "table ?b"]) (auto simp: get_requests_bucket find_key_def)
    have p: "set_requests table key requests = table(?b := pre @ post)" using True present by (simp add: set_requests_def)
    have "table_ok (table(?b := pre @ post))" using d present(1) by (intro table_ok_upd [OF ok]) auto
    moreover have "key \<notin> kl_key ` set (pre @ post)" using d(1) present(1-3) by auto
    then have "bucket_get (pre @ post) k = (if k = key then [] else bucket_get (table ?b) k)" for k
      using present(2) bucket_get_absent [of key post] unfolding present(1) by (auto simp: bucket_get_append bucket_get_Cons)
    ultimately show ?thesis unfolding p get_requests_bucket using True by auto
  qed (use put_requests [OF ok] in \<open>simp add: set_requests_def\<close>)
  then show "table_ok (set_requests table key requests)" "get_requests (set_requests table key requests) = (get_requests table)(key := requests)"
    by (simp_all add: fun_eq_iff)
qed

section \<open>Queues\<close>

text \<open>
  Whether the request of a transaction waits: one for writing for any request before it, one for reading for any request for writing
  before it.
\<close>

fun waits_from :: "bool \<Rightarrow> bool \<Rightarrow> CalvinLockRequest list \<Rightarrow> nat \<Rightarrow> bool" where
  "waits_from a w [] t = False"
| "waits_from a w (r # rs) t = (if lr_txn r = t then (if lr_mode r = WRITE then a else w) else waits_from True (w \<or> lr_mode r = WRITE) rs t)"

abbreviation waits_in :: "CalvinLockRequest list \<Rightarrow> nat \<Rightarrow> bool" where
  "waits_in \<equiv> waits_from False False"

lemma mode_cases: "lr_mode r \<noteq> WRITE \<longleftrightarrow> lr_mode r = READ" "lr_mode r \<noteq> READ \<longleftrightarrow> lr_mode r = WRITE"
  by (cases "lr_mode r"; simp)+

lemma waits_from_in: "waits_from a w rs t \<Longrightarrow> t \<in> lr_txn ` set rs"
  by (induction rs arbitrary: a w) (auto split: if_splits)

lemma waits_from_all: "waits_from True True rs t \<longleftrightarrow> t \<in> lr_txn ` set rs"
  by (induction rs) auto

lemma waits_from_reads:
  "distinct (map lr_txn rs) \<Longrightarrow> waits_from True False rs t \<longleftrightarrow> t \<in> lr_txn ` set rs \<and> t \<notin> lr_txn ` set (takeWhile (\<lambda>r. lr_mode r = READ) rs)"
proof (induction rs)
  case (Cons r rs)
  then show ?case by (cases "lr_mode r") (auto simp: waits_from_all dest: set_takeWhileD)
qed simp

lemma waits_from_append:
  "waits_from a w (xs @ ys) t \<longleftrightarrow> (if t \<in> lr_txn ` set xs then waits_from a w xs t
     else waits_from (a \<or> xs \<noteq> []) (w \<or> (\<exists>r \<in> set xs. lr_mode r = WRITE)) ys t)"
  by (induction xs arbitrary: a w) auto

lemma waits_from_no_writes: "\<forall>r \<in> set xs. lr_mode r = READ \<Longrightarrow> \<not> waits_from a False xs t"
  by (induction xs arbitrary: a) auto

lemma release_waits:
  assumes q: "q = pre @ r # post" "distinct (map lr_txn q)" and held: "\<not> waits_in q (lr_txn r)" and t: "t \<noteq> lr_txn r"
  shows "waits_in (pre @ post) t \<longleftrightarrow> waits_in q t \<and> t \<notin> set (new_owners q (length pre))" (is ?A)
    "t \<in> set (new_owners q (length pre)) \<Longrightarrow> waits_in q t" (is "_ \<Longrightarrow> ?B")
proof -
  have nr: "lr_txn r \<notin> lr_txn ` set pre" using q by auto
  have d: "distinct (map lr_txn post)" using q by simp
  have "?A \<and> (t \<in> set (new_owners q (length pre)) \<longrightarrow> ?B)"
  proof (cases "lr_mode r")
    case WRITE
    have "waits_in q (lr_txn r) \<longleftrightarrow> pre \<noteq> []" using nr WRITE unfolding q(1) waits_from_append by simp
    with held have p: "pre = []" by simp
    have w: "waits_in q t \<longleftrightarrow> t \<in> lr_txn ` set post" using t WRITE by (simp add: q(1) p waits_from_all)
    have ?A
    proof (cases post)
      case (Cons x xs)
      then show ?thesis using d WRITE w t by (cases "lr_mode x") (auto simp: q(1) p new_owners_def waits_from_all waits_from_reads dest: set_takeWhileD)
    qed (simp add: q(1) p)
    moreover have "t \<in> set (new_owners q (length pre)) \<longrightarrow> ?B" unfolding w
      by (cases post) (auto simp: q(1) p new_owners_def Let_def dest: set_takeWhileD split: if_splits)
    ultimately show ?thesis by blast
  next
    case READ
    have "waits_in q (lr_txn r) \<longleftrightarrow> (\<exists>x \<in> set pre. lr_mode x = WRITE)" using nr READ unfolding q(1) waits_from_append by simp
    with held have p: "\<forall>x \<in> set pre. lr_mode x = READ" using mode_cases by blast
    have w: "waits_from a False (pre @ xs) t \<longleftrightarrow> t \<notin> lr_txn ` set pre \<and> waits_from (a \<or> pre \<noteq> []) False xs t" for a xs
      using p waits_from_no_writes [OF p] unfolding waits_from_append by auto
    have o: "new_owners q (length pre) = (if pre = [] \<and> post \<noteq> [] \<and> lr_mode (hd post) = WRITE then [lr_txn (hd post)] else [])"
      using READ by (cases post) (auto simp: q(1) new_owners_def Let_def)
    have "waits_in q t \<longleftrightarrow> t \<notin> lr_txn ` set pre \<and> waits_from True False post t" unfolding q(1) w using READ t by simp
    then show ?thesis unfolding o w by (cases "pre = []"; cases post) auto
  qed
  then show ?A "t \<in> set (new_owners q (length pre)) \<Longrightarrow> ?B" by blast+
qed

lemma distinct_takeWhile_map: "distinct (map f xs) \<Longrightarrow> distinct (map f (takeWhile P xs))"
  by (metis distinct_append map_append takeWhile_dropWhile_id)

lemma new_owners_distinct:
  assumes "distinct (map lr_txn q)"
  shows "distinct (new_owners q i)"
proof -
  have d: "distinct (map lr_txn (drop (i + 1) q))" using assms by (metis distinct_drop drop_map)
  show ?thesis
  proof (cases "drop (i + 1) q")
    case (Cons x xs)
    then show ?thesis using distinct_takeWhile_map [OF d, of "\<lambda>r. lr_mode r = READ"] unfolding new_owners_def Let_def Cons by (cases "lr_mode x") auto
  qed (simp add: new_owners_def)
qed

section \<open>Granting\<close>

lemma fold_grant:
  assumes "distinct ts" "\<forall>t \<in> set ts. \<exists>n > 0. lm_txn_waits lm t = Some n"
  shows "lm_lock_table (fold grant ts lm) = lm_lock_table lm \<and>
    lm_ready_txns (fold grant ts lm) = lm_ready_txns lm @ filter (\<lambda>t. lm_txn_waits lm t = Some 1) ts \<and>
    lm_txn_waits (fold grant ts lm) = (\<lambda>t. if t \<in> set ts then (if lm_txn_waits lm t = Some 1 then None else map_option (\<lambda>n. n - 1) (lm_txn_waits lm t))
      else lm_txn_waits lm t)"
  using assms
proof (induction ts arbitrary: lm)
  case (Cons t ts)
  let ?lm = "grant t lm"
  obtain n where n: "lm_txn_waits lm t = Some n" "n > 0" using Cons.prems(2) by auto
  have g: "lm_lock_table ?lm = lm_lock_table lm" "lm_ready_txns ?lm = lm_ready_txns lm @ (if n = 1 then [t] else [])"
    "lm_txn_waits ?lm = (lm_txn_waits lm)(t := if n = 1 then None else Some (n - 1))" using n by (auto simp: grant_def Let_def)
  have o: "lm_txn_waits ?lm x = lm_txn_waits lm x" if "x \<in> set ts" for x using that Cons.prems(1) by (auto simp: g(3))
  have "\<forall>x \<in> set ts. \<exists>n > 0. lm_txn_waits ?lm x = Some n" using Cons.prems(2) o by simp
  note ih = Cons.IH [OF _ this]
  have "filter (\<lambda>x. lm_txn_waits ?lm x = Some 1) ts = filter (\<lambda>x. lm_txn_waits lm x = Some 1) ts" using o by (intro filter_cong) simp_all
  with ih Cons.prems(1) n show ?case by (auto simp: g fun_eq_iff)
qed (simp add: fun_eq_iff)

section \<open>The state of the lock manager\<close>

text \<open>The local keys of a transaction, and the number of its locks that it waits for, given the queues.\<close>

definition keys_of :: "CalvinConfig \<Rightarrow> TxnProto \<Rightarrow> string set" where
  "keys_of cfg tx = {k \<in> set (read_set tx @ read_write_set tx). IsLocal cfg k}"

definition n_waits :: "CalvinConfig \<Rightarrow> (nat \<Rightarrow> TxnProto) \<Rightarrow> (string \<Rightarrow> CalvinLockRequest list) \<Rightarrow> nat \<Rightarrow> nat" where
  "n_waits cfg mem Q t = card {k \<in> keys_of cfg (mem t). waits_in (Q k) t}"

definition waits_entry :: "nat \<Rightarrow> int option" where
  "waits_entry n = (if n = 0 then None else Some (int n))"

lemma keys_of_finite [simp]: "finite (keys_of cfg tx)"
  by (simp add: keys_of_def)

text \<open>Queues hold requests of different transactions, each for a key of its own.\<close>

definition queues_ok :: "CalvinConfig \<Rightarrow> (nat \<Rightarrow> TxnProto) \<Rightarrow> nat set \<Rightarrow> (string \<Rightarrow> CalvinLockRequest list) \<Rightarrow> bool" where
  "queues_ok cfg mem A Q \<longleftrightarrow> (\<forall>k. distinct (map lr_txn (Q k)) \<and> (\<forall>r \<in> set (Q k). lr_txn r \<in> A \<and> k \<in> keys_of cfg (mem (lr_txn r))))"

lemma release_key_spec:
  assumes ok: "table_ok (lm_lock_table lm)" "get_requests (lm_lock_table lm) = Q" "queues_ok cfg mem A Q"
    and w: "\<And>t'. t' \<in> A \<Longrightarrow> t' \<noteq> t \<Longrightarrow> lm_txn_waits lm t' = waits_entry (n_waits cfg mem Q t')"
    and t: "t \<in> lr_txn ` set (Q k)" "\<not> waits_in (Q k) t"
  defines "Q' \<equiv> Q(k := filter (\<lambda>r. lr_txn r \<noteq> t) (Q k))"
  obtains lm' new where "Release_key t k lm = Inr lm'" "table_ok (lm_lock_table lm')" "get_requests (lm_lock_table lm') = Q'"
    "\<And>t'. t' \<in> A \<Longrightarrow> t' \<noteq> t \<Longrightarrow> lm_txn_waits lm' t' = waits_entry (n_waits cfg mem Q' t')" "lm_txn_waits lm' t = lm_txn_waits lm t"
    "lm_ready_txns lm' = lm_ready_txns lm @ new" "distinct new"
    "set new = {t' \<in> A. t' \<noteq> t \<and> n_waits cfg mem Q t' \<noteq> 0 \<and> n_waits cfg mem Q' t' = 0}"
    "\<And>x. x \<notin> A \<Longrightarrow> lm_txn_waits lm' x = lm_txn_waits lm x"
proof -
  let ?T = "lm_lock_table lm"
  have dq: "distinct (map lr_txn (Q k))" using ok(3) by (simp add: queues_ok_def)
  have ne: "Q k \<noteq> []" using t(1) by auto
  obtain pre r post where q: "Q k = pre @ r # post" "lr_txn r = t" "\<forall>x \<in> set pre. lr_txn x \<noteq> t"
    using t(1) split_list_first_prop [of "Q k" "\<lambda>r. lr_txn r = t"] by auto
  have i: "length (takeWhile (\<lambda>r. lr_txn r \<noteq> t) (Q k)) = length pre" using q by (simp add: takeWhile_append takeWhile_eq_all_conv)
  have f: "filter (\<lambda>r. lr_txn r \<noteq> t) (Q k) = pre @ post"
  proof -
    have "lr_txn r \<notin> lr_txn ` set post" using dq by (simp add: q(1))
    then have "filter (\<lambda>r. lr_txn r \<noteq> t) post = post" using q(2) by (intro filter_True) (metis image_eqI)
    moreover have "filter (\<lambda>r. lr_txn r \<noteq> t) pre = pre" using q(3) by (intro filter_True)
    ultimately show ?thesis using q(1,2) by simp
  qed
  define own where "own = new_owners (Q k) (length pre)"
  have down: "distinct own" unfolding own_def by (rule new_owners_distinct [OF dq])
  have rw: "waits_in (Q' k) t' \<longleftrightarrow> waits_in (Q k) t' \<and> t' \<notin> set own" "t' \<in> set own \<Longrightarrow> waits_in (Q k) t'" if "t' \<noteq> t" for t'
    using release_waits [OF q(1) dq] t(2) q(2) that unfolding own_def Q'_def f by auto
  have nt: "t \<notin> set own"
  proof
    assume "t \<in> set own"
    then have "t \<in> lr_txn ` set post" unfolding own_def q(1) by (auto simp: new_owners_def Let_def split: if_splits dest: set_takeWhileD hd_in_set)
    with dq q show False by auto
  qed
  have nw: "n_waits cfg mem Q' t' = (if t' \<in> set own then n_waits cfg mem Q t' - 1 else n_waits cfg mem Q t') \<and> (t' \<in> set own \<longrightarrow> t' \<in> A \<and> n_waits cfg mem Q t' > 0)"
    if "t' \<noteq> t" for t'
  proof -
    let ?W = "\<lambda>Q. {k \<in> keys_of cfg (mem t'). waits_in (Q k) t'}"
    have "?W Q' = (if t' \<in> set own then ?W Q - {k} else ?W Q)" using rw(1) [OF that] by (auto simp: Q'_def)
    moreover have "k \<in> ?W Q \<and> t' \<in> A" if o: "t' \<in> set own"
    proof -
      have "waits_in (Q k) t'" by (rule rw(2) [OF \<open>t' \<noteq> t\<close> o])
      then have "t' \<in> lr_txn ` set (Q k)" by (rule waits_from_in)
      with ok(3) \<open>waits_in (Q k) t'\<close> show ?thesis by (auto simp: queues_ok_def)
    qed
    moreover have "finite (?W Q)" by simp
    ultimately show ?thesis unfolding n_waits_def by (auto simp: card_gt_0_iff)
  qed
  have "\<forall>t' \<in> set own. \<exists>n > 0. lm_txn_waits lm t' = Some n"
    using nw w nt by (metis waits_entry_def of_nat_0_less_iff less_numeral_extra(3))
  note g = fold_grant [OF down this]
  define lm' where "lm' = (fold grant own lm)\<lparr>lm_lock_table := set_requests ?T k (pre @ post)\<rparr>"
  have ne': "\<not> at_end ?T k" "kl_locksrequest (?T (calvin_hash k) ! find_key ?T k) = Q k" using ne at_end_get [OF ok(1), of k] ok(2) by (auto simp: get_requests_def)
  have "Release_key t k lm = Inr lm'" using ne' i q g
    by (simp add: Release_key_def Let_def lm'_def own_def set_requests_def put_requests_def)
  moreover have "table_ok (lm_lock_table lm')" "get_requests (lm_lock_table lm') = Q'"
    using set_requests [OF ok(1), of k "pre @ post"] ok(2) ne by (simp_all add: lm'_def Q'_def f)
  moreover have "lm_txn_waits lm' t' = waits_entry (n_waits cfg mem Q' t')" if "t' \<in> A" "t' \<noteq> t" for t'
    using g nw [OF that(2)] w [OF that] by (auto simp: lm'_def waits_entry_def)
  moreover have "lm_txn_waits lm' t = lm_txn_waits lm t" using g nt by (simp add: lm'_def)
  moreover have "lm_ready_txns lm' = lm_ready_txns lm @ filter (\<lambda>t. lm_txn_waits lm t = Some 1) own" using g by (simp add: lm'_def)
  moreover have "distinct (filter (\<lambda>t. lm_txn_waits lm t = Some 1) own)" using down by simp
  moreover have "set (filter (\<lambda>t. lm_txn_waits lm t = Some 1) own) = {t' \<in> A. t' \<noteq> t \<and> n_waits cfg mem Q t' \<noteq> 0 \<and> n_waits cfg mem Q' t' = 0}"
  proof (rule set_eqI)
    fix x
    show "x \<in> set (filter (\<lambda>t. lm_txn_waits lm t = Some 1) own) \<longleftrightarrow> x \<in> {t' \<in> A. t' \<noteq> t \<and> n_waits cfg mem Q t' \<noteq> 0 \<and> n_waits cfg mem Q' t' = 0}"
    proof (cases "x = t")
      case False
      show ?thesis using False nw [OF False] w [OF _ False] by (cases "x \<in> set own") (auto simp: waits_entry_def)
    qed (use nt in simp)
  qed
  moreover have "lm_txn_waits lm' x = lm_txn_waits lm x" if "x \<notin> A" for x
    using g nw [of x] nt that by (cases "x = t") (auto simp: lm'_def)
  ultimately show thesis using that by blast
qed

end
