(* ===== verification/Calvin_Order.thy ===== *)
theory Calvin_Order
  imports Calvin_Locks
begin

text \<open>
  The lock manager of Calvin grants locks in the order in which transactions ask for them: after any sequence of calls the transactions
  that hold all of their locks are those without a conflict with an earlier transaction that is still there.
\<close>

section \<open>The queues as a function of the active transactions\<close>

definition mode_of :: "TxnProto \<Rightarrow> string \<Rightarrow> CalvinMode" where
  "mode_of tx k = (if k \<in> set (read_write_set tx) then WRITE else READ)"

definition queue_of :: "CalvinConfig \<Rightarrow> (nat \<Rightarrow> TxnProto) \<Rightarrow> nat list \<Rightarrow> string \<Rightarrow> CalvinLockRequest list" where
  "queue_of cfg mem A k = map (\<lambda>t. \<lparr>lr_txn = t, lr_mode = mode_of (mem t) k\<rparr>) (filter (\<lambda>t. k \<in> keys_of cfg (mem t)) A)"

definition calvin_conflict :: "CalvinConfig \<Rightarrow> TxnProto \<Rightarrow> TxnProto \<Rightarrow> bool" where
  "calvin_conflict cfg x y \<longleftrightarrow> (\<exists>k \<in> keys_of cfg x \<inter> keys_of cfg y. k \<in> set (read_write_set x) \<union> set (read_write_set y))"

text \<open>A transaction waits if an active transaction before it conflicts with it.\<close>

fun must_wait :: "CalvinConfig \<Rightarrow> (nat \<Rightarrow> TxnProto) \<Rightarrow> nat list \<Rightarrow> nat \<Rightarrow> bool" where
  "must_wait cfg mem [] t \<longleftrightarrow> False"
| "must_wait cfg mem (x # A) t \<longleftrightarrow> x \<noteq> t \<and> (t \<in> set A \<and> calvin_conflict cfg (mem x) (mem t) \<or> must_wait cfg mem A t)"

definition lm_inv :: "CalvinConfig \<Rightarrow> (nat \<Rightarrow> TxnProto) \<Rightarrow> nat list \<Rightarrow> CalvinLM \<Rightarrow> bool" where
  "lm_inv cfg mem A lm \<longleftrightarrow> distinct A \<and> table_ok (lm_lock_table lm) \<and> get_requests (lm_lock_table lm) = queue_of cfg mem A \<and>
     (\<forall>t \<in> set A. lm_txn_waits lm t = waits_entry (n_waits cfg mem (queue_of cfg mem A) t))"

lemma queues_ok_queue_of: "distinct A \<Longrightarrow> queues_ok cfg mem (set A) (queue_of cfg mem A)"
  by (auto simp: queues_ok_def queue_of_def comp_def)

lemma queue_of_txns: "lr_txn ` set (queue_of cfg mem A k) = {t \<in> set A. k \<in> keys_of cfg (mem t)}"
  by (simp add: queue_of_def image_image)

lemma queue_of_filter: "filter (\<lambda>r. lr_txn r \<noteq> t) (queue_of cfg mem A k) = queue_of cfg mem (filter (\<lambda>x. x \<noteq> t) A) k"
  by (simp add: queue_of_def filter_map comp_def conj_commute)

lemma queue_of_Cons:
  "queue_of cfg mem (x # A) k = (if k \<in> keys_of cfg (mem x) then \<lparr>lr_txn = x, lr_mode = mode_of (mem x) k\<rparr> # queue_of cfg mem A k else queue_of cfg mem A k)"
  by (simp add: queue_of_def)

lemma queue_of_append: "queue_of cfg mem (A @ B) k = queue_of cfg mem A k @ queue_of cfg mem B k"
  by (simp add: queue_of_def)

lemma waits_from_queue:
  assumes "distinct A" "t \<in> set A" "k \<in> keys_of cfg (mem t)"
  shows "waits_from a w (queue_of cfg mem A k) t \<longleftrightarrow>
    (if mode_of (mem t) k = WRITE then a else w) \<or>
    (\<exists>x \<in> set (takeWhile (\<lambda>x. x \<noteq> t) A). k \<in> keys_of cfg (mem x) \<and> (mode_of (mem t) k = WRITE \<or> mode_of (mem x) k = WRITE))"
  using assms(1,2)
proof (induction A arbitrary: a w)
  case (Cons x A)
  show ?case
  proof (cases "x = t")
    case True
    with assms(3) show ?thesis by (simp add: queue_of_Cons)
  next
    case False
    with Cons have ih: "waits_from a w (queue_of cfg mem A k) t \<longleftrightarrow> (if mode_of (mem t) k = WRITE then a else w) \<or>
      (\<exists>x \<in> set (takeWhile (\<lambda>x. x \<noteq> t) A). k \<in> keys_of cfg (mem x) \<and> (mode_of (mem t) k = WRITE \<or> mode_of (mem x) k = WRITE))" for a w by simp
    show ?thesis using False by (auto simp: queue_of_Cons ih)
  qed
qed simp

lemma must_wait_takeWhile:
  "distinct A \<Longrightarrow> t \<in> set A \<Longrightarrow> must_wait cfg mem A t \<longleftrightarrow> (\<exists>x \<in> set (takeWhile (\<lambda>x. x \<noteq> t) A). calvin_conflict cfg (mem x) (mem t))"
  by (induction A) auto

lemma must_wait_in: "must_wait cfg mem A t \<Longrightarrow> t \<in> set A"
  by (induction A) auto

lemma n_waits_must_wait:
  assumes "distinct A" "t \<in> set A"
  shows "n_waits cfg mem (queue_of cfg mem A) t = 0 \<longleftrightarrow> \<not> must_wait cfg mem A t"
proof -
  have "n_waits cfg mem (queue_of cfg mem A) t = 0 \<longleftrightarrow> (\<forall>k \<in> keys_of cfg (mem t). \<not> waits_in (queue_of cfg mem A k) t)"
    unfolding n_waits_def by auto
  also have "\<dots> \<longleftrightarrow> \<not> (\<exists>x \<in> set (takeWhile (\<lambda>x. x \<noteq> t) A). calvin_conflict cfg (mem x) (mem t))"
    using waits_from_queue [OF assms, of _ cfg mem False False] unfolding calvin_conflict_def mode_of_def by auto
  finally show ?thesis using must_wait_takeWhile [OF assms] by blast
qed

section \<open>Locking\<close>

lemma lock_key_new:
  assumes k: "IsLocal cfg k" "t \<notin> lr_txn ` set (get_requests table k)" and q_def: "q = get_requests table k @ [\<lparr>lr_txn = t, lr_mode = m\<rparr>]"
  shows "lock_key cfg m t k (table, n) = (put_requests table k q, if waits_in q t then n + 1 else n)"
proof -
  have "get_requests table k = [] \<or> t \<noteq> lr_txn (last (get_requests table k))" using k(2) last_in_set by (metis image_eqI)
  moreover have "waits_in q t \<longleftrightarrow> (if m = WRITE then get_requests table k \<noteq> [] else \<exists>r \<in> set (get_requests table k). lr_mode r = WRITE)"
    using k(2) unfolding q_def waits_from_append by simp
  ultimately show ?thesis using k(1) by (cases m) (auto simp: lock_key_def Let_def q_def)
qed

lemma lock_key_again:
  assumes "get_requests table k = q @ [r]" "lr_txn r = t"
  shows "lock_key cfg m t k (table, n) = (table, n)"
  using assms by (simp add: lock_key_def Let_def)

text \<open>The state within \<^verbatim>\<open>Lock\<close>: the requests for the keys \<open>K\<close> are in their queues.\<close>

definition locking :: "CalvinConfig \<Rightarrow> (nat \<Rightarrow> TxnProto) \<Rightarrow> nat list \<Rightarrow> nat \<Rightarrow> string set \<Rightarrow> lock_table \<times> int \<Rightarrow> bool" where
  "locking cfg mem A t K st \<longleftrightarrow> K \<subseteq> keys_of cfg (mem t) \<and> table_ok (fst st) \<and>
     (\<forall>k. get_requests (fst st) k = (if k \<in> K then queue_of cfg mem (A @ [t]) k else queue_of cfg mem A k)) \<and>
     snd st = int (card {k \<in> K. waits_in (queue_of cfg mem (A @ [t]) k) t})"

lemma lock_key_locking:
  assumes l: "locking cfg mem A t K st" and A: "t \<notin> set A" and k: "k \<in> set (read_set (mem t) @ read_write_set (mem t))"
    and m: "IsLocal cfg k \<Longrightarrow> k \<notin> K \<Longrightarrow> m = mode_of (mem t) k"
  shows "locking cfg mem A t (if IsLocal cfg k then insert k K else K) (lock_key cfg m t k st)"
proof (cases "IsLocal cfg k")
  case True
  obtain table n where st: "st = (table, n)" by (cases st)
  have kk: "k \<in> keys_of cfg (mem t)" using k True by (simp add: keys_of_def)
  show ?thesis
  proof (cases "k \<in> K")
    case K: True
    then have "get_requests table k = queue_of cfg mem A k @ [\<lparr>lr_txn = t, lr_mode = mode_of (mem t) k\<rparr>]"
      using l kk by (simp add: locking_def st queue_of_append queue_of_Cons) (simp add: queue_of_def)
    then have "lock_key cfg m t k st = st" unfolding st by (rule lock_key_again) simp
    then show ?thesis using l K True by (simp add: insert_absorb)
  next
    case K: False
    have g: "get_requests table k = queue_of cfg mem A k" "table_ok table" using l K by (simp_all add: locking_def st)
    have q: "queue_of cfg mem (A @ [t]) k = queue_of cfg mem A k @ [\<lparr>lr_txn = t, lr_mode = m\<rparr>]"
      using kk m [OF True K] by (simp add: queue_of_append queue_of_Cons) (simp add: queue_of_def)
    have "t \<notin> lr_txn ` set (get_requests table k)" using A by (simp add: g queue_of_txns)
    then have lk: "lock_key cfg m t k (table, n) = (put_requests table k (queue_of cfg mem (A @ [t]) k), if waits_in (queue_of cfg mem (A @ [t]) k) t then n + 1 else n)"
      by (rule lock_key_new [OF True]) (simp add: q g(1))
    have "queue_of cfg mem (A @ [t]) k \<noteq> []" by (simp add: q)
    note p = put_requests [OF g(2) this, of k]
    have "{x \<in> insert k K. waits_in (queue_of cfg mem (A @ [t]) x) t} =
        (if waits_in (queue_of cfg mem (A @ [t]) k) t then insert k {x \<in> K. waits_in (queue_of cfg mem (A @ [t]) x) t}
         else {x \<in> K. waits_in (queue_of cfg mem (A @ [t]) x) t})" by auto
    moreover have "finite K" using l finite_subset [OF _ keys_of_finite] by (auto simp: locking_def)
    ultimately have "int (card {x \<in> insert k K. waits_in (queue_of cfg mem (A @ [t]) x) t}) = (if waits_in (queue_of cfg mem (A @ [t]) k) t then n + 1 else n)"
      using l K by (simp add: locking_def st)
    then show ?thesis using l kk True p unfolding st lk locking_def by auto
  qed
qed (use l in \<open>simp add: lock_key_def case_prod_beta\<close>)

lemma lock_keys_locking:
  assumes "locking cfg mem A t K st" "t \<notin> set A" "set ks \<subseteq> set (read_set (mem t) @ read_write_set (mem t))"
    and "\<And>k. k \<in> set ks \<Longrightarrow> IsLocal cfg k \<Longrightarrow> k \<notin> K \<Longrightarrow> m = mode_of (mem t) k"
  shows "locking cfg mem A t (K \<union> {k \<in> set ks. IsLocal cfg k}) (fold (lock_key cfg m t) ks st)"
  using assms
proof (induction ks arbitrary: K st)
  case (Cons k ks)
  let ?K = "if IsLocal cfg k then insert k K else K"
  have "locking cfg mem A t ?K (lock_key cfg m t k st)" using Cons.prems by (intro lock_key_locking) auto
  then have "locking cfg mem A t (?K \<union> {k \<in> set ks. IsLocal cfg k}) (fold (lock_key cfg m t) ks (lock_key cfg m t k st))"
  proof (rule Cons.IH [OF _ Cons.prems(2)])
    fix x assume "x \<in> set ks" "IsLocal cfg x" "x \<notin> ?K"
    then show "m = mode_of (mem t) x" using Cons.prems(4) [of x] by (simp split: if_splits)
  qed (use Cons.prems(3) in simp)
  moreover have "?K \<union> {k \<in> set ks. IsLocal cfg k} = K \<union> {x \<in> set (k # ks). IsLocal cfg x}" by auto
  ultimately show ?case by simp
qed simp

lemma Calvin_Lock_spec:
  assumes inv: "lm_inv cfg mem A lm" and t: "t \<notin> set A" "lm_txn_waits lm t = None"
  defines "n \<equiv> n_waits cfg mem (queue_of cfg mem (A @ [t])) t"
  shows "fst (Calvin_Lock cfg mem t lm) = int n" "lm_inv cfg mem (A @ [t]) (snd (Calvin_Lock cfg mem t lm))"
    "lm_ready_txns (snd (Calvin_Lock cfg mem t lm)) = lm_ready_txns lm @ (if n = 0 then [t] else [])"
    "\<And>x. x \<noteq> t \<Longrightarrow> lm_txn_waits (snd (Calvin_Lock cfg mem t lm)) x = lm_txn_waits lm x"
proof -
  let ?tx = "mem t" and ?A = "A @ [t]"
  have 0: "locking cfg mem A t {} (lm_lock_table lm, 0)" using inv by (simp add: locking_def lm_inv_def)
  let ?K = "{k \<in> set (read_write_set ?tx). IsLocal cfg k}"
  have 1: "locking cfg mem A t ?K (fold (lock_key cfg WRITE t) (read_write_set ?tx) (lm_lock_table lm, 0))"
    using lock_keys_locking [OF 0 t(1), of "read_write_set ?tx" WRITE] by (simp add: mode_of_def)
  have K: "?K \<union> {k \<in> set (read_set ?tx). IsLocal cfg k} = keys_of cfg ?tx" by (auto simp: keys_of_def)
  obtain table na where st: "fold (lock_key cfg READ t) (read_set ?tx) (fold (lock_key cfg WRITE t) (read_write_set ?tx) (lm_lock_table lm, 0)) = (table, na)"
    by (metis surj_pair)
  have "locking cfg mem A t (?K \<union> {k \<in> set (read_set ?tx). IsLocal cfg k})
      (fold (lock_key cfg READ t) (read_set ?tx) (fold (lock_key cfg WRITE t) (read_write_set ?tx) (lm_lock_table lm, 0)))"
    using lock_keys_locking [OF 1 t(1), of "read_set ?tx" READ] by (simp add: mode_of_def)
  then have 2: "locking cfg mem A t (keys_of cfg ?tx) (table, na)" unfolding K st .
  have q: "get_requests table = queue_of cfg mem ?A"
    using 2 by (auto simp: locking_def fun_eq_iff queue_of_append) (auto simp: queue_of_def)
  have na: "na = int n" using 2 by (simp add: locking_def n_def n_waits_def)
  have old: "n_waits cfg mem (queue_of cfg mem ?A) x = n_waits cfg mem (queue_of cfg mem A) x" if "x \<in> set A" for x
  proof -
    have "waits_in (queue_of cfg mem ?A k) x \<longleftrightarrow> waits_in (queue_of cfg mem A k) x" if "k \<in> keys_of cfg (mem x)" for k
      using that \<open>x \<in> set A\<close> by (simp add: queue_of_append waits_from_append queue_of_txns)
    then show ?thesis unfolding n_waits_def by (intro arg_cong [where f = card] Collect_cong) blast
  qed
  have l: "Calvin_Lock cfg mem t lm = (int n, if n > 0 then lm\<lparr>lm_lock_table := table, lm_txn_waits := (lm_txn_waits lm)(t \<mapsto> int n)\<rparr>
      else lm\<lparr>lm_lock_table := table, lm_ready_txns := lm_ready_txns lm @ [t]\<rparr>)"
    by (simp add: Calvin_Lock_def st na)
  show "fst (Calvin_Lock cfg mem t lm) = int n" by (simp add: l)
  have "lm_txn_waits (snd (Calvin_Lock cfg mem t lm)) x = waits_entry (n_waits cfg mem (queue_of cfg mem ?A) x)" if "x \<in> set ?A" for x
    using that t inv old by (auto simp: l lm_inv_def waits_entry_def simp flip: n_def)
  moreover have "table_ok table" using 2 by (simp add: locking_def)
  ultimately show "lm_inv cfg mem ?A (snd (Calvin_Lock cfg mem t lm))" using inv t(1) q unfolding lm_inv_def by (auto simp: l)
  show "lm_ready_txns (snd (Calvin_Lock cfg mem t lm)) = lm_ready_txns lm @ (if n = 0 then [t] else [])" by (simp add: l)
  show "\<And>x. x \<noteq> t \<Longrightarrow> lm_txn_waits (snd (Calvin_Lock cfg mem t lm)) x = lm_txn_waits lm x" by (simp add: l)
qed

section \<open>Releasing\<close>

text \<open>The queues within \<^verbatim>\<open>Release\<close>: the requests for the keys \<open>R\<close> are gone.\<close>

definition releasing :: "CalvinConfig \<Rightarrow> (nat \<Rightarrow> TxnProto) \<Rightarrow> nat list \<Rightarrow> nat \<Rightarrow> string set \<Rightarrow> string \<Rightarrow> CalvinLockRequest list" where
  "releasing cfg mem A t R k = (if k \<in> R then queue_of cfg mem (filter (\<lambda>x. x \<noteq> t) A) k else queue_of cfg mem A k)"

lemma waits_from_filter:
  "waits_from a w (filter (\<lambda>r. lr_txn r \<noteq> t) q) x \<Longrightarrow> (a \<Longrightarrow> a') \<Longrightarrow> (w \<Longrightarrow> w') \<Longrightarrow> x \<noteq> t \<Longrightarrow> waits_from a' w' q x"
proof (induction q arbitrary: a w a' w')
  case (Cons r q)
  show ?case
  proof (cases "lr_txn r = t")
    case True
    with Cons.prems have "waits_from True (w' \<or> lr_mode r = WRITE) q x" by (intro Cons.IH [of a w]) auto
    with True Cons.prems(4) show ?thesis by simp
  next
    case False
    show ?thesis
    proof (cases "lr_txn r = x")
      case True
      with False Cons.prems show ?thesis by (auto split: if_splits)
    next
      case other: False
      with False Cons.prems have "waits_from True (w' \<or> lr_mode r = WRITE) q x" by (intro Cons.IH [of True "w \<or> lr_mode r = WRITE"]) auto
      with other show ?thesis by simp
    qed
  qed
qed simp

lemma releasing_waits:
  assumes "R \<subseteq> R'" "x \<noteq> t"
  shows "n_waits cfg mem (releasing cfg mem A t R') x \<le> n_waits cfg mem (releasing cfg mem A t R) x"
proof -
  have "waits_in (releasing cfg mem A t R' k) x \<Longrightarrow> waits_in (releasing cfg mem A t R k) x" for k
    using assms waits_from_filter [of False False t "queue_of cfg mem A k" x False False] by (auto simp: releasing_def queue_of_filter split: if_splits)
  then show ?thesis unfolding n_waits_def by (intro card_mono) auto
qed

lemma releasing_ok: "distinct A \<Longrightarrow> queues_ok cfg mem (set A) (releasing cfg mem A t R)"
  using queues_ok_queue_of [of A cfg mem] queues_ok_queue_of [of "filter (\<lambda>x. x \<noteq> t) A" cfg mem] by (auto simp: queues_ok_def releasing_def)

lemma releasing_none: "releasing cfg mem A t {} = queue_of cfg mem A"
  by (simp add: releasing_def fun_eq_iff)

lemma releasing_all: "releasing cfg mem A t (keys_of cfg (mem t)) = queue_of cfg mem (filter (\<lambda>x. x \<noteq> t) A)"
proof
  fix k
  show "releasing cfg mem A t (keys_of cfg (mem t)) k = queue_of cfg mem (filter (\<lambda>x. x \<noteq> t) A) k"
  proof (cases "k \<in> keys_of cfg (mem t)")
    case False
    then have "filter (\<lambda>r. lr_txn r \<noteq> t) (queue_of cfg mem A k) = queue_of cfg mem A k" by (intro filter_True) (auto simp: queue_of_def)
    with False show ?thesis by (simp add: releasing_def queue_of_filter)
  qed (simp add: releasing_def)
qed

lemma releasing_insert:
  "k \<notin> R \<Longrightarrow> (releasing cfg mem A t R)(k := filter (\<lambda>r. lr_txn r \<noteq> t) (releasing cfg mem A t R k)) = releasing cfg mem A t (insert k R)"
  by (auto simp: releasing_def fun_eq_iff queue_of_filter)

definition release_state :: "CalvinConfig \<Rightarrow> (nat \<Rightarrow> TxnProto) \<Rightarrow> nat list \<Rightarrow> nat \<Rightarrow> string set \<Rightarrow> CalvinLM \<Rightarrow> bool" where
  "release_state cfg mem A t R lm \<longleftrightarrow> table_ok (lm_lock_table lm) \<and> get_requests (lm_lock_table lm) = releasing cfg mem A t R \<and>
     (\<forall>x \<in> set A. x \<noteq> t \<longrightarrow> lm_txn_waits lm x = waits_entry (n_waits cfg mem (releasing cfg mem A t R) x))"

text \<open>The transactions that become ready while the released keys grow from \<open>R\<close> to \<open>R'\<close>.\<close>

definition woken :: "CalvinConfig \<Rightarrow> (nat \<Rightarrow> TxnProto) \<Rightarrow> nat list \<Rightarrow> nat \<Rightarrow> string set \<Rightarrow> string set \<Rightarrow> nat set" where
  "woken cfg mem A t R R' = {x \<in> set A. x \<noteq> t \<and> n_waits cfg mem (releasing cfg mem A t R) x \<noteq> 0 \<and> n_waits cfg mem (releasing cfg mem A t R') x = 0}"

lemma woken_trans:
  assumes "R \<subseteq> R'" "R' \<subseteq> R''"
  shows "woken cfg mem A t R R' \<union> woken cfg mem A t R' R'' = woken cfg mem A t R R''" "woken cfg mem A t R R' \<inter> woken cfg mem A t R' R'' = {}"
proof -
  have "x \<in> woken cfg mem A t R R' \<or> x \<in> woken cfg mem A t R' R'' \<longleftrightarrow> x \<in> woken cfg mem A t R R''" for x
    using releasing_waits [OF assms(1), of x t cfg mem A] releasing_waits [OF assms(2), of x t cfg mem A] by (auto simp: woken_def)
  then show "woken cfg mem A t R R' \<union> woken cfg mem A t R' R'' = woken cfg mem A t R R''" by blast
qed (auto simp: woken_def)

lemma release_keys_spec:
  assumes A: "distinct A" "t \<in> set A" "\<not> must_wait cfg mem A t"
    and ks: "distinct (filter (IsLocal cfg) ks)" "R \<inter> set ks = {}" "{k \<in> set ks. IsLocal cfg k} \<subseteq> keys_of cfg (mem t)"
    and st: "release_state cfg mem A t R lm"
  shows "\<exists>lm' new. Release_keys cfg t ks lm = Inr lm' \<and> release_state cfg mem A t (R \<union> {k \<in> set ks. IsLocal cfg k}) lm' \<and>
    lm_txn_waits lm' t = lm_txn_waits lm t \<and> lm_ready_txns lm' = lm_ready_txns lm @ new \<and> distinct new \<and>
    set new = woken cfg mem A t R (R \<union> {k \<in> set ks. IsLocal cfg k}) \<and> (\<forall>x. x \<notin> set A \<longrightarrow> lm_txn_waits lm' x = lm_txn_waits lm x)"
  using ks st
proof (induction ks arbitrary: R lm)
  case Nil
  then show ?case by (auto simp: woken_def)
next
  case (Cons k ks)
  show ?case
  proof (cases "IsLocal cfg k")
    case False
    have e: "{x \<in> set (k # ks). IsLocal cfg x} = {x \<in> set ks. IsLocal cfg x}" using False by auto
    show ?thesis using Cons.IH [of R lm] Cons.prems False unfolding e by simp
  next
    case True
    let ?R = "insert k R" and ?R' = "R \<union> {x \<in> set (k # ks). IsLocal cfg x}"
    have kt: "k \<in> keys_of cfg (mem t)" "k \<notin> R" using Cons.prems True by auto
    have held: "\<not> waits_in (releasing cfg mem A t R k) t"
      using A n_waits_must_wait [OF A(1,2), of cfg mem] kt by (simp add: releasing_def n_waits_def) 
    have inq: "t \<in> lr_txn ` set (releasing cfg mem A t R k)" using kt A(2) by (simp add: releasing_def queue_of_txns)
    obtain lm1 new1 where 1: "Release_key t k lm = Inr lm1" "release_state cfg mem A t ?R lm1" "lm_txn_waits lm1 t = lm_txn_waits lm t"
      "lm_ready_txns lm1 = lm_ready_txns lm @ new1" "distinct new1" "set new1 = woken cfg mem A t R ?R"
      "\<And>x. x \<notin> set A \<Longrightarrow> lm_txn_waits lm1 x = lm_txn_waits lm x"
      using Cons.prems(4) kt(2)
      by (auto simp: release_state_def woken_def releasing_insert intro: release_key_spec [OF _ _ releasing_ok [OF A(1)] _ inq held, of lm])
    have e: "?R \<union> {x \<in> set ks. IsLocal cfg x} = ?R'" using True by auto
    obtain lm2 new2 where 2: "Release_keys cfg t ks lm1 = Inr lm2" "release_state cfg mem A t ?R' lm2" "lm_txn_waits lm2 t = lm_txn_waits lm1 t"
      "lm_ready_txns lm2 = lm_ready_txns lm1 @ new2" "distinct new2" "set new2 = woken cfg mem A t ?R ?R'"
      "\<And>x. x \<notin> set A \<Longrightarrow> lm_txn_waits lm2 x = lm_txn_waits lm1 x"
      using Cons.IH [OF _ _ _ 1(2)] Cons.prems True unfolding e by auto
    have w: "woken cfg mem A t R ?R \<union> woken cfg mem A t ?R ?R' = woken cfg mem A t R ?R'" "woken cfg mem A t R ?R \<inter> woken cfg mem A t ?R ?R' = {}"
      using woken_trans [of R ?R ?R' cfg mem A t] True by auto
    show ?thesis using 1 2 True w by (intro exI [of _ lm2] exI [of _ "new1 @ new2"]) auto
  qed
qed


text \<open>
  The key sets of a transaction do not overlap and have no duplicates among the keys of this node, as the lock manager requires.
\<close>

definition txn_ok :: "CalvinConfig \<Rightarrow> TxnProto \<Rightarrow> bool" where
  "txn_ok cfg tx \<longleftrightarrow> distinct (filter (IsLocal cfg) (read_set tx @ read_write_set tx))"

lemma Calvin_Release_spec:
  assumes inv: "lm_inv cfg mem A lm" and t: "t \<in> set A" "\<not> must_wait cfg mem A t" "txn_ok cfg (mem t)"
  defines "A' \<equiv> filter (\<lambda>x. x \<noteq> t) A"
  obtains lm' new where "Calvin_Release cfg mem t lm = Inr lm'" "lm_inv cfg mem A' lm'" "lm_txn_waits lm' t = None"
    "lm_ready_txns lm' = lm_ready_txns lm @ new" "distinct new" "set new = {x \<in> set A'. must_wait cfg mem A x \<and> \<not> must_wait cfg mem A' x}"
    "\<And>x. x \<notin> set A \<Longrightarrow> lm_txn_waits lm' x = lm_txn_waits lm x"
proof -
  let ?tx = "mem t"
  let ?R = "{k \<in> set (read_set ?tx). IsLocal cfg k}" and ?W = "{k \<in> set (read_write_set ?tx). IsLocal cfg k}"
  have d: "distinct A" using inv by (simp add: lm_inv_def)
  have 0: "release_state cfg mem A t {} lm" using inv by (simp add: release_state_def lm_inv_def releasing_none)
  have ks: "?R \<subseteq> keys_of cfg ?tx" "?W \<subseteq> keys_of cfg ?tx" "?R \<union> ?W = keys_of cfg ?tx" by (auto simp: keys_of_def)
  obtain lm1 new1 where 1: "Release_keys cfg t (read_set ?tx) lm = Inr lm1" "release_state cfg mem A t ?R lm1" "lm_txn_waits lm1 t = lm_txn_waits lm t"
    "lm_ready_txns lm1 = lm_ready_txns lm @ new1" "distinct new1" "set new1 = woken cfg mem A t {} ?R"
    "\<And>x. x \<notin> set A \<Longrightarrow> lm_txn_waits lm1 x = lm_txn_waits lm x"
    using release_keys_spec [OF d t(1,2) _ _ ks(1) 0] t(3) by (auto simp: txn_ok_def)
  have "?R \<inter> set (read_write_set ?tx) = {}" using t(3) by (auto simp: txn_ok_def)
  then obtain lm2 new2 where 2: "Release_keys cfg t (read_write_set ?tx) lm1 = Inr lm2" "release_state cfg mem A t (keys_of cfg ?tx) lm2"
    "lm_txn_waits lm2 t = lm_txn_waits lm1 t" "lm_ready_txns lm2 = lm_ready_txns lm1 @ new2" "distinct new2" "set new2 = woken cfg mem A t ?R (keys_of cfg ?tx)"
    "\<And>x. x \<notin> set A \<Longrightarrow> lm_txn_waits lm2 x = lm_txn_waits lm1 x"
    using release_keys_spec [OF d t(1,2) _ _ ks(2) 1(2)] t(3) unfolding ks(3) by (auto simp: txn_ok_def)
  have w: "woken cfg mem A t {} ?R \<union> woken cfg mem A t ?R (keys_of cfg ?tx) = woken cfg mem A t {} (keys_of cfg ?tx)"
    "woken cfg mem A t {} ?R \<inter> woken cfg mem A t ?R (keys_of cfg ?tx) = {}"
    using woken_trans [of "{}" ?R "keys_of cfg ?tx" cfg mem A t] ks(1) by auto
  note q = releasing_all [of cfg mem A t, folded A'_def] releasing_none [of cfg mem A t]
  have A': "distinct A'" "set A' = set A - {t}" using d by (auto simp: A'_def)
  have "Calvin_Release cfg mem t lm = Inr lm2" using 1(1) 2(1) by (simp add: Calvin_Release_def)
  moreover have "lm_inv cfg mem A' lm2" using 2(2) A' by (simp add: lm_inv_def release_state_def q)
  moreover have "lm_txn_waits lm2 t = None"
    using inv t n_waits_must_wait [OF d t(1), of cfg mem] 1(3) 2(3) by (simp add: lm_inv_def waits_entry_def)
  moreover have "lm_ready_txns lm2 = lm_ready_txns lm @ (new1 @ new2)" "distinct (new1 @ new2)" using 1 2 w by simp_all
  moreover have "set (new1 @ new2) = {x \<in> set A'. must_wait cfg mem A x \<and> \<not> must_wait cfg mem A' x}"
  proof -
    have "set (new1 @ new2) = woken cfg mem A t {} (keys_of cfg ?tx)" using 1(6) 2(6) w(1) by simp
    moreover have "x \<in> woken cfg mem A t {} (keys_of cfg ?tx) \<longleftrightarrow> x \<in> set A' \<and> must_wait cfg mem A x \<and> \<not> must_wait cfg mem A' x" for x
    proof (cases "x \<in> set A'")
      case True
      then have "x \<in> set A" "x \<noteq> t" using A'(2) by auto
      with True show ?thesis using n_waits_must_wait [OF d, of x cfg mem] n_waits_must_wait [OF A'(1), of x cfg mem] by (auto simp: woken_def q)
    qed (use A'(2) in \<open>auto simp: woken_def\<close>)
    ultimately show ?thesis by blast
  qed
  moreover have "lm_txn_waits lm2 x = lm_txn_waits lm x" if "x \<notin> set A" for x using that 1(7) 2(7) by simp
  ultimately show thesis by (rule that)
qed


section \<open>Sequences of calls\<close>

lemma must_wait_append: "t \<notin> set B \<Longrightarrow> must_wait cfg mem (A @ B) t \<longleftrightarrow> must_wait cfg mem A t"
  by (induction A) (auto dest: must_wait_in)

lemma must_wait_filter: "must_wait cfg mem (filter P A) t \<Longrightarrow> P t \<Longrightarrow> must_wait cfg mem A t"
  by (induction A) (auto split: if_splits)

datatype lm_call = LmLock nat | LmRelease nat

fun lm_calls :: "CalvinConfig \<Rightarrow> (nat \<Rightarrow> TxnProto) \<Rightarrow> lm_call list \<Rightarrow> CalvinLM \<Rightarrow> CalvinLM outcome" where
  "lm_calls cfg mem [] lm = Inr lm"
| "lm_calls cfg mem (LmLock t # cs) lm = lm_calls cfg mem cs (snd (Calvin_Lock cfg mem t lm))"
| "lm_calls cfg mem (LmRelease t # cs) lm = obind (Calvin_Release cfg mem t lm) (lm_calls cfg mem cs)"

text \<open>The transactions that have locks or wait for them, in the order of their calls.\<close>

fun lm_active :: "lm_call list \<Rightarrow> nat list \<Rightarrow> nat list" where
  "lm_active [] A = A"
| "lm_active (LmLock t # cs) A = lm_active cs (A @ [t])"
| "lm_active (LmRelease t # cs) A = lm_active cs (filter (\<lambda>x. x \<noteq> t) A)"

fun lm_locked :: "lm_call list \<Rightarrow> nat set" where
  "lm_locked [] = {}"
| "lm_locked (LmLock t # cs) = insert t (lm_locked cs)"
| "lm_locked (LmRelease t # cs) = lm_locked cs"

text \<open>
  The calls that the lock manager requires: a transaction is locked once, its keys on this node differ, and it is released after the lock
  manager has announced it as ready.
\<close>

fun lm_calls_ok :: "CalvinConfig \<Rightarrow> (nat \<Rightarrow> TxnProto) \<Rightarrow> lm_call list \<Rightarrow> nat list \<Rightarrow> nat set \<Rightarrow> CalvinLM \<Rightarrow> bool" where
  "lm_calls_ok cfg mem [] A L lm \<longleftrightarrow> True"
| "lm_calls_ok cfg mem (LmLock t # cs) A L lm \<longleftrightarrow>
     t \<notin> L \<and> txn_ok cfg (mem t) \<and> lm_calls_ok cfg mem cs (A @ [t]) (insert t L) (snd (Calvin_Lock cfg mem t lm))"
| "lm_calls_ok cfg mem (LmRelease t # cs) A L lm \<longleftrightarrow>
     t \<in> set A \<and> t \<in> set (lm_ready_txns lm) \<and>
     (case Calvin_Release cfg mem t lm of Inl _ \<Rightarrow> True | Inr lm1 \<Rightarrow> lm_calls_ok cfg mem cs (filter (\<lambda>x. x \<noteq> t) A) L lm1)"

definition lm_state :: "CalvinConfig \<Rightarrow> (nat \<Rightarrow> TxnProto) \<Rightarrow> nat list \<Rightarrow> nat set \<Rightarrow> CalvinLM \<Rightarrow> bool" where
  "lm_state cfg mem A L lm \<longleftrightarrow> lm_inv cfg mem A lm \<and> set A \<subseteq> L \<and> (\<forall>t \<in> set A. txn_ok cfg (mem t)) \<and> (\<forall>t. t \<notin> set A \<longrightarrow> lm_txn_waits lm t = None) \<and>
     distinct (lm_ready_txns lm) \<and> set (lm_ready_txns lm) = {t \<in> L. t \<in> set A \<longrightarrow> \<not> must_wait cfg mem A t}"

lemma lm_state_lock:
  assumes st: "lm_state cfg mem A L lm" and t: "t \<notin> L" "txn_ok cfg (mem t)"
  shows "lm_state cfg mem (A @ [t]) (insert t L) (snd (Calvin_Lock cfg mem t lm))"
proof -
  have tA: "t \<notin> set A" "lm_txn_waits lm t = None" and inv: "lm_inv cfg mem A lm" using st t by (auto simp: lm_state_def)
  note l = Calvin_Lock_spec [OF inv tA]
  have "distinct (A @ [t])" using inv tA by (simp add: lm_inv_def)
  then have n: "n_waits cfg mem (queue_of cfg mem (A @ [t])) t = 0 \<longleftrightarrow> \<not> must_wait cfg mem (A @ [t]) t" by (rule n_waits_must_wait) simp
  have old: "must_wait cfg mem (A @ [t]) x \<longleftrightarrow> must_wait cfg mem A x" if "x \<noteq> t" for x using that by (simp add: must_wait_append)
  have "t \<notin> set (lm_ready_txns lm)" using st t by (auto simp: lm_state_def)
  moreover have "set (lm_ready_txns lm @ (if must_wait cfg mem (A @ [t]) t then [] else [t])) = {x \<in> insert t L. x \<in> set (A @ [t]) \<longrightarrow> \<not> must_wait cfg mem (A @ [t]) x}"
  proof -
    have "x \<in> set (lm_ready_txns lm @ (if must_wait cfg mem (A @ [t]) t then [] else [t])) \<longleftrightarrow> x \<in> insert t L \<and> (x \<in> set (A @ [t]) \<longrightarrow> \<not> must_wait cfg mem (A @ [t]) x)" for x
      using st t old [of x] by (cases "x = t") (auto simp: lm_state_def)
    then show ?thesis by blast
  qed
  ultimately show ?thesis using st t l n unfolding lm_state_def by auto
qed

lemma lm_state_release:
  assumes st: "lm_state cfg mem A L lm" and t: "t \<in> set A" "t \<in> set (lm_ready_txns lm)"
  obtains lm1 where "Calvin_Release cfg mem t lm = Inr lm1" "lm_state cfg mem (filter (\<lambda>x. x \<noteq> t) A) L lm1"
    "take (length (lm_ready_txns lm)) (lm_ready_txns lm1) = lm_ready_txns lm"
proof -
  let ?A = "filter (\<lambda>x. x \<noteq> t) A"
  have inv: "lm_inv cfg mem A lm" and nw: "\<not> must_wait cfg mem A t" "txn_ok cfg (mem t)" using st t by (auto simp: lm_state_def)
  obtain lm1 new where r: "Calvin_Release cfg mem t lm = Inr lm1" "lm_inv cfg mem ?A lm1" "lm_txn_waits lm1 t = None" "lm_ready_txns lm1 = lm_ready_txns lm @ new"
    "distinct new" "set new = {x \<in> set ?A. must_wait cfg mem A x \<and> \<not> must_wait cfg mem ?A x}" "\<And>x. x \<notin> set A \<Longrightarrow> lm_txn_waits lm1 x = lm_txn_waits lm x"
    using Calvin_Release_spec [OF inv t(1) nw] by blast
  have "must_wait cfg mem ?A x \<Longrightarrow> x \<noteq> t \<Longrightarrow> must_wait cfg mem A x" for x by (rule must_wait_filter [where P = "\<lambda>x. x \<noteq> t"])
  then have "x \<in> set (lm_ready_txns lm1) \<longleftrightarrow> x \<in> L \<and> (x \<in> set ?A \<longrightarrow> \<not> must_wait cfg mem ?A x)" for x
    using st t r(4,6) nw by (cases "x = t") (auto simp: lm_state_def)
  then have "set (lm_ready_txns lm1) = {x \<in> L. x \<in> set ?A \<longrightarrow> \<not> must_wait cfg mem ?A x}" by blast
  moreover have "distinct (lm_ready_txns lm1)" using st r(4-6) by (auto simp: lm_state_def)
  moreover have "lm_txn_waits lm1 x = None" if "x \<notin> set ?A" for x using that st r(3,7) by (cases "x = t") (auto simp: lm_state_def)
  ultimately have "lm_state cfg mem ?A L lm1" using st r(2) unfolding lm_state_def by auto
  with r that show thesis by simp
qed


lemma lm_calls_state:
  assumes "lm_state cfg mem A L lm" "lm_calls_ok cfg mem cs A L lm"
  shows "\<exists>lm'. lm_calls cfg mem cs lm = Inr lm' \<and> lm_state cfg mem (lm_active cs A) (L \<union> lm_locked cs) lm'"
  using assms
proof (induction cs arbitrary: A L lm)
  case (Cons c cs)
  show ?case
  proof (cases c)
    case (LmLock t)
    with Cons.prems lm_state_lock [OF Cons.prems(1)] show ?thesis using Cons.IH [of "A @ [t]" "insert t L"] by simp
  next
    case (LmRelease t)
    with Cons.prems(2) have "t \<in> set A" "t \<in> set (lm_ready_txns lm)" by simp_all
    from lm_state_release [OF Cons.prems(1) this] obtain lm1 where "Calvin_Release cfg mem t lm = Inr lm1" "lm_state cfg mem (filter (\<lambda>x. x \<noteq> t) A) L lm1" by blast
    with LmRelease Cons.prems(2) show ?thesis using Cons.IH by simp
  qed
qed simp

lemma lm_state_new: "lm_state cfg mem [] {} CalvinLM_new"
  by (simp add: lm_state_def lm_inv_def CalvinLM_new_def table_ok_def queue_of_def get_requests_bucket fun_eq_iff)

lemma must_wait_hd: "\<not> must_wait cfg mem (x # A) x"
  by simp

lemma not_must_wait_conflict:
  assumes "distinct A" "x \<in> set A" "y \<in> set A" "x \<noteq> y" "\<not> must_wait cfg mem A x" "\<not> must_wait cfg mem A y"
  shows "\<not> calvin_conflict cfg (mem x) (mem y)"
  using assms
proof (induction A)
  case (Cons z A)
  have "calvin_conflict cfg (mem x) (mem y) \<longleftrightarrow> calvin_conflict cfg (mem y) (mem x)" by (auto simp: calvin_conflict_def)
  with Cons show ?case by (auto split: if_splits)
qed simp

text \<open>
  C13. The lock manager grants locks in the order of the calls of \<^verbatim>\<open>Lock\<close>: no call fails, and it announces as ready, once each, the
  transactions that conflict with no earlier one that is still active. So two active transactions that were announced never conflict, and
  the first active transaction has always been announced.
\<close>

theorem calvin_locks_in_order:
  assumes "lm_calls_ok cfg mem cs [] {} CalvinLM_new"
  defines "A \<equiv> lm_active cs []"
  shows "\<exists>lm. lm_calls cfg mem cs CalvinLM_new = Inr lm \<and> distinct (lm_ready_txns lm) \<and>
    set (lm_ready_txns lm) = {t \<in> lm_locked cs. t \<in> set A \<longrightarrow> \<not> must_wait cfg mem A t} \<and>
    (\<forall>x \<in> set A \<inter> set (lm_ready_txns lm). \<forall>y \<in> set A \<inter> set (lm_ready_txns lm). x \<noteq> y \<longrightarrow> \<not> calvin_conflict cfg (mem x) (mem y)) \<and>
    (A \<noteq> [] \<longrightarrow> hd A \<in> set (lm_ready_txns lm))"
proof -
  obtain lm where lm: "lm_calls cfg mem cs CalvinLM_new = Inr lm" "lm_state cfg mem A (lm_locked cs) lm"
    using lm_calls_state [OF lm_state_new assms(1)] by (auto simp: A_def)
  have d: "distinct A" using lm(2) by (simp add: lm_state_def lm_inv_def)
  have "\<not> calvin_conflict cfg (mem x) (mem y)" if "x \<in> set A \<inter> set (lm_ready_txns lm)" "y \<in> set A \<inter> set (lm_ready_txns lm)" "x \<noteq> y" for x y
    using that lm(2) by (intro not_must_wait_conflict [OF d]) (auto simp: lm_state_def)
  moreover have "hd A \<in> set (lm_ready_txns lm)" if "A \<noteq> []"
    using that lm(2) by (cases A) (auto simp: lm_state_def)
  ultimately show ?thesis using lm by (intro exI [of _ lm]) (auto simp: lm_state_def)
qed

definition demo_cfg1 :: CalvinConfig where
  "demo_cfg1 = \<lparr>this_node_id = 0, all_nodes_size = 1\<rparr>"

definition demo_txn :: "nat \<Rightarrow> TxnProto" where
  "demo_txn t =
     \<lparr>txn_id = int t, read_set = (if t = 0 then [] else [''3'']), write_set = [],
      read_write_set = (if t = 0 then [''1'', ''2''] else if t = 1 then [''2''] else []), txn_readers = [0], txn_writers = [0]\<rparr>"

definition demo_calls :: "lm_call list" where
  "demo_calls = [LmLock 0, LmLock 1, LmLock 2, LmRelease 0, LmRelease 2]"

lemma demo_hash: "calvin_hash ''1'' = 690652" "calvin_hash ''2'' = 23509" "calvin_hash ''3'' = 245890"
  by (simp_all add: calvin_hash_def TABLE_SIZE_def)

lemma demo_local: "IsLocal demo_cfg1 k"
  by (simp add: demo_cfg1_def IsLocal_def LookupPartition_def c_rem_def)

lemmas demo_lm = get_requests_def at_end_def find_key_def put_requests_def lock_key_def Calvin_Lock_def Calvin_Release_def Release_key_def grant_def new_owners_def

lemma demo_calls_ok: "lm_calls_ok demo_cfg1 demo_txn demo_calls [] {} CalvinLM_new"
  by (simp add: demo_calls_def CalvinLM_new_def demo_local demo_txn_def txn_ok_def demo_lm Let_def demo_hash)

theorem calvin_locks_in_order_witness:
  "lm_active demo_calls [] = [1] \<and> (\<exists>lm. lm_calls demo_cfg1 demo_txn demo_calls CalvinLM_new = Inr lm \<and> set (lm_ready_txns lm) = {0, 1, 2})"
proof -
  have a: "lm_active demo_calls [] = [1]" "lm_locked demo_calls = {0, 1, 2}" by (auto simp: demo_calls_def)
  show ?thesis using calvin_locks_in_order [OF demo_calls_ok] unfolding a by auto
qed

end
