(* ===== verification/Spec2Isabelle.thy ===== *)
theory Spec2Isabelle
  imports Lock_App IR_Client Vr_Client Tapir_System Time_Server Strong_Client Weak_Client Udp_Transport Tcp_Transport
    Event_Timers Occ_Timestamps Sim_Transport Persistent_Register Latency_Stats
    Aria_Cleanup Calvin_Order
begin

text \<open>
  Verification of the TAPIR transactional key-value system in \<^verbatim>\<open>src/tapir\<close>: its stores and lock
  server, the servers that export them, the clients that run transactions across the shards, the two
  replication protocols underneath (inconsistent and viewstamped replication), the replicated lock
  service that runs on the first of them, the timestamp server that runs on the second, and the transports; and
  of two deterministic databases, the protocol of Aria, \<^verbatim>\<open>src/aria/protocol/Aria\<close>, and the lock manager of Calvin,
  \<^verbatim>\<open>src/calvin/src_calvin/scheduler\<close>.

  \<^bold>\<open>The program.\<close> A transaction is a read set and a write set (\<^verbatim>\<open>store/common/transaction.cc\<close>). A key is
  routed to a shard by a hash (\<^verbatim>\<open>store/common/frontend/client.h\<close>). A shard keeps its data in a store: the
  TAPIR store validates transactions by timestamp order (\<^verbatim>\<open>store/tapirstore/store.cc\<close>), the strong store
  either locks (\<^verbatim>\<open>store/strongstore/lockstore.cc\<close>) or validates optimistically
  (\<^verbatim>\<open>store/strongstore/occstore.cc\<close>), the weak store does neither. The stores rest on the version store
  and the lock server of \<^verbatim>\<open>store/common/backend\<close>. A shard is replicated: the TAPIR store by inconsistent
  replication (\<^verbatim>\<open>replication/ir\<close>), the strong store by viewstamped replication (\<^verbatim>\<open>replication/vr\<close>, whose
  log is \<^verbatim>\<open>replication/common/log.cc\<close>). \<^verbatim>\<open>lockserver\<close> is a second application of inconsistent replication.
  A program talks to a client (\<^verbatim>\<open>store/tapirstore/client.cc\<close>), which keeps a buffer per shard
  (\<^verbatim>\<open>store/common/frontend/bufferclient.cc\<close>) and runs two-phase commit over the shard clients
  (\<^verbatim>\<open>store/tapirstore/shardclient.cc\<close>, \<^verbatim>\<open>store/strongstore/shardclient.cc\<close>); these turn a call into a
  request of the replication client and hand the answer back through a promise. The client of the strong store
  (\<^verbatim>\<open>store/strongstore/client.cc\<close>) takes commit timestamps from the timestamp server (\<^verbatim>\<open>timeserver\<close>) or from its clock,
  with a commit wait. The clients of the weak store (\<^verbatim>\<open>store/weakstore\<close>) talk to its replicas directly. All of them send
  messages and set timers through a transport (\<^verbatim>\<open>lib/udptransport.cc\<close>, \<^verbatim>\<open>lib/tcptransport.cc\<close>).

  Aria is a program of its own. Its coordinators run transactions in batches. In the first phase of a batch the workers
  (\<^verbatim>\<open>AriaExecutor.h\<close>) read the state before the batch and reserve rows by lowering the smallest reader and writer in the row's
  meta data (\<^verbatim>\<open>AriaHelper.h\<close>); in the second they look for smaller readers and writers and commit or abort. A coordinator
  reaches the rows of another by messages (\<^verbatim>\<open>AriaMessage.h\<close>); the managers (\<^verbatim>\<open>AriaManager.h\<close>) separate the phases.

  In Calvin the order of the transactions is fixed before they run. The lock manager of a node
  (\<^verbatim>\<open>deterministic_lock_manager.cc\<close>) is asked for all locks of a transaction at once, in that order.

  \<^bold>\<open>Theories.\<close> Each theory models one component; the names are those of the code, with a prefix where two
  classes share a name.

  \<^item> \<open>Tapir_Prelude\<close>: faults and the outcome type of fallible code (\<open>obind\<close>, \<open>assert_that\<close>), ordered maps
    (\<^verbatim>\<open>std::map\<close> as a sorted association list, \<open>omap_put\<close>, \<open>omap_del\<close>), counting, and the lemma
    collections.
  \<^item> \<open>Tapir_Types\<close>: timestamps with the order of \<^verbatim>\<open>timestamp.cc\<close>, reply codes, transactions and their
    protobuf form, the simulated clock of \<^verbatim>\<open>truetime.cc\<close>, and the routing hash.
  \<^item> \<open>Kv_Stores\<close>: \<^verbatim>\<open>KVStore\<close> and \<^verbatim>\<open>VersionedKVStore\<close>. The lemmas relate the iterator arithmetic to the
    newest version at a time (\<open>newest_at\<close>); the locales \<open>kv_register\<close> and \<open>version_index\<close> are the contracts
    the stores use.
  \<^item> \<open>Lock_Manager\<close>: the lock server of \<^verbatim>\<open>store/common/backend/lockserver.cc\<close> with its wait queues and
    timeouts. The locale \<open>lock_service\<close> is its contract, a shared/exclusive lock; the interpretation \<open>lks\<close>
    discharges it.
  \<^item> \<open>Lock_Store\<close>, \<open>Occ_Store\<close>, \<open>Tapir_Store\<close>: the three transactional stores, each with a step relation
    over its operations, the invariant of its prepared transactions, and what a successful prepare and a
    commit guarantee.
  \<^item> \<open>Store_Servers\<close>: the request handlers of the TAPIR, strong and weak servers and the loading of keys.
  \<^item> \<open>Replication_Base\<close>: viewstamps, the configuration and its file format, quorum sets and the quorum
    arithmetic (locale \<open>quorum_system\<close>, interpretation \<open>qs\<close> for every group of \<open>2f + 1\<close> replicas).
  \<^item> \<open>Repl_Log\<close>: the log of viewstamped replication, with \<open>Log_Install\<close> as its main result.
  \<^item> \<open>IR_Record\<close>, \<open>IR_Replica\<close>: the record of a replica and the replica's handlers, the view change and
    \<^verbatim>\<open>IrMergeRecords\<close>. The locale \<open>ir_merging_app\<close> is the contract between a replica and its application.
  \<^item> \<open>Promises\<close>, \<open>Lock_App\<close>: the promises clients wait on, and the lock service: its upcalls (which interpret
    \<open>ir_merging_app\<close> as \<open>lka\<close>), \<^verbatim>\<open>Sync\<close>, \<^verbatim>\<open>Merge\<close> and the client.
  \<^item> \<open>Request_Clients\<close>: runs of a request client and the locale \<open>request_client\<close>, which proves from the
    contract of one step that a request is answered at most once and stays pending until then.
  \<^item> \<open>IR_Client\<close>, \<open>Vr_Client\<close>: the clients of the two protocols, with fast and slow path, timers and
    resending; both interpret \<open>request_client\<close> (\<open>irq\<close>, \<open>vrq\<close>).
  \<^item> \<open>Vr_Replica\<close>, \<open>Vr_System\<close>, \<open>Vr_Normal\<close>: the replica of viewstamped replication with all handlers,
    timers and the view change; a group of replicas over a network that loses, repeats and reorders
    messages; and the invariant of runs without view changes, proved handler by handler. \<open>Vr_Upcalls\<close> compares
    runs whose applications fault at different points, which frees the invariant from assumptions about faults.
  \<^item> \<open>Vr_State\<close>: what the replicas' applications have executed, over the same runs: the state and the replies
    are those of one application that executes the committed requests in order (\<open>replay\<close>).
  \<^item> \<open>Decimal\<close>, \<open>Time_Server\<close>: \<^verbatim>\<open>std::to_string\<close> and \<^verbatim>\<open>std::stol\<close>, and the timestamp server as an application of
    viewstamped replication.
  \<^item> \<open>Buffer_Client\<close>, \<open>Tapir_Client\<close>: the transaction buffer and the front end with two-phase commit. The
    shard clients are a record of functions (\<open>FrontEnv\<close>), \<open>logged\<close> records the calls made to it. A call
    that may block has type \<open>blocking\<close>, where \<open>Inr None\<close> is a call that never returns.
  \<^item> \<open>Shard_Clients\<close>: the TAPIR and the strong shard client with their promises in a store of their own, the
    tasks they post to the event loop and the callbacks; the locale \<open>shard_class_contract\<close> is what both
    promise (\<open>tsc\<close>, \<open>ssc\<close>).
  \<^item> \<open>Strong_Client\<close>: the front end of the strong store in its four modes, with two-phase commit, the request to the
    timestamp server and the commit wait. The clock readings are part of the environment, so that the lemmas can
    speak about them. \<open>Occ_Timestamps\<close> joins the client to the timestamp server's group.
  \<^item> \<open>Weak_Client\<close>: the clients of the weak store, and a client joined to the replicas of its shards.
  \<^item> \<open>Wire_Format\<close>, \<open>Udp_Transport\<close>, \<open>Tcp_Transport\<close>: integers and messages in byte buffers; fragmentation,
    reassembly and dispatch of the UDP transport; framing and connection tables of the TCP transport. The locale
    \<open>stream_framing\<close> (interpretation \<open>tcpf\<close>) proves from the contract of one message that the cuts of a stream
    do not matter.
  \<^item> \<open>Event_Timers\<close>: the timers of the transports and the timeout objects built on them.
  \<^item> \<open>Sim_Transport\<close>: the simulated transport of the tests, with its message queue, its timers in virtual time and
    its event loop.
  \<^item> \<open>Persistent_Register\<close>, \<open>Latency_Stats\<close>: the file that holds a replica's views, and the latency statistics with
    their histograms, sums and file format.
  \<^item> \<open>Tapir_System\<close>: the front end joined to the servers and stores of the shards, with other clients
    working on the same stores between any two calls.

  \<^item> \<open>Aria_Meta\<close>: the meta data of Aria's rows, one turn of the loops that reserve a row, and threads that run these loops
    at the same time.
  \<^item> \<open>Aria_Protocol\<close>: Aria's keys, transactions, executor, message handlers, the cleaning up after a batch, and the step
    relation of a cluster (\<open>aria_step\<close>), in which any worker may go next and any message may arrive next.
  \<^item> \<open>Aria_Batch\<close>, \<open>Aria_Invariant\<close>, \<open>Aria_Steps\<close>, \<open>Aria_Deliver\<close>: what each operation does, the invariant of a
    batch (one part for each transaction, one for each row), and its proof step by step.
  \<^item> \<open>Aria_Serial\<close>, \<open>Aria_Progress\<close>, \<open>Aria_Cleanup\<close>: the serial order of the committed transactions, the work that is left
    in a batch, and what happens to aborted transactions.
  \<^item> \<open>Calvin_Locks\<close>, \<open>Calvin_Order\<close>: Calvin's lock table, \<^verbatim>\<open>Lock\<close> and \<^verbatim>\<open>Release\<close>; the queues and counters as functions of the
    active transactions, and the order in which transactions become ready.

  \<^bold>\<open>State and effects.\<close> A class is a record, an operation a function from the state (and, for a clock, a
  random number or the success of a send, from that value) to the new state, its result and its messages in
  order. A failed \<^verbatim>\<open>ASSERT\<close>, a \<^verbatim>\<open>Panic\<close>, an uncaught exception and undefined behaviour are the faults
  \<open>AssertFail\<close>, \<open>Panicked\<close>, \<open>Uncaught\<close> and \<open>Undefined\<close>, values of the outcome type. 64-bit integers
  are \<open>64 word\<close>, with wrap-around. A \<^verbatim>\<open>std::map\<close> is a sorted association list, an \<^verbatim>\<open>unordered_map\<close>
  that is iterated an association list, one that is only searched a partial function. Serialized protobuf
  messages go through parameters \<open>parse\<close> and \<open>ser\<close>, with the round trip as hypothesis where a property
  needs it; network messages between replicas are modelled by their fields.

  \<^bold>\<open>Loops and termination.\<close> Functions are total; loops over containers are structural recursion, loops
  over operation numbers recurse on a distance (\<open>CommitUpTo\<close> with its own termination proof, as its bound
  is a wrapping 64-bit number). The retry loop of a commit runs at most \<open>COMMIT_RETRIES\<close> times. The loops over the
  fragments of a message and over the messages in a buffer have termination proofs of their own. Three loops of the code
  need not end and are \<^theory_text>\<open>partial_function\<close>s, where \<open>None\<close> is a loop that never ends: the busy wait of the
  strong client (\<open>busy_wait\<close>), \<open>CancelAllTimers\<close> and the event loop \<open>Sim_Run\<close>; that they end is proved under the conditions that make them
  end. The loops that reserve a row may turn as long as other threads get ahead; they are steps of threads. A batch of Aria
  ends, by a measure on the cluster. No fuel is used.

  \<^bold>\<open>What the properties show.\<close> For the stores: that prepared transactions never conflict, that validated
  reads stay valid and writes keep the timestamp order, and what commit installs. For the lock server:
  that it is a shared/exclusive lock, and which of its assertions can fail. For replication: that quorums
  intersect as the protocol needs, that a record survives serialization, that the merge of a view change
  loses no operation and keeps the results of the fast path, that operations execute at most once, and that
  a restarted replica rejoins in a later view. For the client: that it answers each call at most once, and
  what a fast-path and a slow-path answer have seen; the client of viewstamped replication pursues a request
  until it is answered. For the lock service: mutual exclusion across a view change and in a group of three
  replicas. For viewstamped replication: as long as no view change starts, the logs agree, what is committed
  stays, no replica faults, and the replicas answer as one copy of the application would; with view changes a
  committed operation can be lost, shown by a run. For the timestamp server: that the timestamps it gives out number
  the committed requests; a transaction of the strong client commits at the number of its request. For the
  front end: a transaction's operations are buffered where its shards look for them, a commit follows
  two-phase commit and returns, the shard clients give each answer to the call that asked for it, and a
  commit that returns true has installed its writes at every shard, unless a replica abstained. The strong client
  follows two-phase commit as well, and a commit timestamp is in the past of every clock before the
  participants see it, up to the clock skew and the gap between two readings. For the weak store: a client that has the replicas to
  itself sees one map as long as nothing times out, and every call returns. For the transports: messages
  survive fragmentation and framing, a receiver is given only what was sent, the connection tables fit together, and a
  timeout has one timer when it is active and none when it is not; the simulated transport keeps the order of messages and timers. For Aria: a batch ends, with the
  same outcome under every schedule, which is that of the committed transactions one after the other; a row's meta data hold the
  smallest reservations whatever way the threads interleave. For Calvin: a transaction is ready when it conflicts with no earlier
  active one. A few
  properties state where the code does something else than it means to.

  \<^bold>\<open>Not modelled.\<close> Sockets, name resolution and libevent itself, which the transports call; the transport that asks the
  user for the next event (\<^verbatim>\<open>lib/repltransport.cc\<close>); \<^verbatim>\<open>main\<close> functions apart from the loading of keys and the benchmark programs, which
  are option parsing, random workloads and output; tracing and debugging output. In the replicas of inconsistent replication the
  persistent register appears as the content it holds. The hash chain of the log is used only when
  hashing is switched on; the hash function is a parameter. Of Aria: the control messages
  by which the managers agree that a phase is over, which are taken for a barrier; the byte layout of messages; the tables, which are
  functions from rows to values; programs that read in more than one round; statistics; and the protocols that its
  repository compares with (\<^verbatim>\<open>AriaFB\<close>, \<^verbatim>\<open>Bohm\<close>, \<^verbatim>\<open>Calvin\<close>, \<^verbatim>\<open>Pwv\<close>, \<^verbatim>\<open>TwoPL\<close>). The other systems under \<^verbatim>\<open>src\<close> (the rest of \<^verbatim>\<open>calvin\<close>, \<^verbatim>\<open>silo\<close>,
  \<^verbatim>\<open>cicada\<close>, \<^verbatim>\<open>janus\<close>, \<^verbatim>\<open>star\<close>, \<^verbatim>\<open>drtm\<close>, \<^verbatim>\<open>gam\<close>, \<^verbatim>\<open>mica\<close>, \<^verbatim>\<open>HERD\<close>) are separate programs that share no
  code with these; several need hardware interfaces (remote direct memory access, hardware transactions) whose behaviour is not in the sources.
\<close>

end
